(* ===== verification/Prelude.thy ===== *)
theory Prelude
  imports Main "HOL-Library.Monad_Syntax" "HOL-Library.Signed_Division" "HOL-Library.Multiset"
begin

text \<open>
  What the component theories share: the collections of simplification and invariant rules, C
  integers of a fixed width, C arrays with an explicit failure for an access out of range, and
  reachability in a transition system with its invariant rule.

  A C computation that may run into undefined behaviour (an access out of range, a dereference
  of a null or dangling pointer, a signed overflow) is a value of an option type: None is
  undefined behaviour, so a theorem that a call yields Some also says that it is free of it.
\<close>

section \<open>Collections of facts\<close>

named_theorems c_simps "unfolding rules for C integers and arrays"
named_theorems step_inv "one operation keeps the invariant of its component"

type_synonym ptr = nat

section \<open>C integers\<close>

definition int_ok :: "int \<Rightarrow> bool" where
  "int_ok x \<longleftrightarrow> - (2 ^ 31) \<le> x \<and> x < 2 ^ 31"

definition long_ok :: "int \<Rightarrow> bool" where
  "long_ok x \<longleftrightarrow> - (2 ^ 63) \<le> x \<and> x < 2 ^ 63"

text \<open>Signed arithmetic: a result that does not fit the type is undefined behaviour.\<close>

definition c_int :: "int \<Rightarrow> int option" where
  "c_int x = (if int_ok x then Some x else None)"

definition c_long :: "int \<Rightarrow> int option" where
  "c_long x = (if long_ok x then Some x else None)"

text \<open>The conversion of a wider value to int keeps the low 32 bits, read as two's complement.\<close>

definition to_int32 :: "int \<Rightarrow> int" where
  "to_int32 x = (x + 2 ^ 31) mod 2 ^ 32 - 2 ^ 31"

lemma c_int_Some [simp]: "c_int x = Some y \<longleftrightarrow> int_ok x \<and> y = x"
  by (auto simp: c_int_def)

lemma c_long_Some [simp]: "c_long x = Some y \<longleftrightarrow> long_ok x \<and> y = x"
  by (auto simp: c_long_def)

lemma c_int_ok [simp]: "int_ok x \<Longrightarrow> c_int x = Some x"
  by (simp add: c_int_def)

lemma c_long_ok [simp]: "long_ok x \<Longrightarrow> c_long x = Some x"
  by (simp add: c_long_def)

lemma to_int32_ok: "int_ok (to_int32 x)"
proof -
  have "0 \<le> (x + 2 ^ 31) mod 2 ^ 32" "(x + 2 ^ 31) mod 2 ^ 32 < (2 ^ 32 :: int)"
    by simp_all
  then show ?thesis
    by (simp add: to_int32_def int_ok_def)
qed

lemma to_int32_id [simp]: "int_ok x \<Longrightarrow> to_int32 x = x"
  by (simp add: to_int32_def int_ok_def)

section \<open>C arrays\<close>

definition cget :: "'a list \<Rightarrow> int \<Rightarrow> 'a option" where
  "cget xs i = (if 0 \<le> i \<and> i < int (length xs) then Some (xs ! nat i) else None)"

definition cset :: "'a list \<Rightarrow> int \<Rightarrow> 'a \<Rightarrow> 'a list option" where
  "cset xs i v = (if 0 \<le> i \<and> i < int (length xs) then Some (xs[nat i := v]) else None)"

lemma cget_Some_iff: "cget xs i = Some v \<longleftrightarrow> 0 \<le> i \<and> i < int (length xs) \<and> v = xs ! nat i"
  by (auto simp: cget_def)

lemma cset_Some_iff: "cset xs i v = Some ys \<longleftrightarrow> 0 \<le> i \<and> i < int (length xs) \<and> ys = xs[nat i := v]"
  by (auto simp: cset_def)

lemma cget_nat [simp]: "i < length xs \<Longrightarrow> cget xs (int i) = Some (xs ! i)"
  by (simp add: cget_def)

lemma cset_nat [simp]: "i < length xs \<Longrightarrow> cset xs (int i) v = Some (xs[i := v])"
  by (simp add: cset_def)

lemma cget_middle [c_simps]: "i = int (length ls) \<Longrightarrow> cget (ls @ x # rs) i = Some x"
  by (simp add: cget_def)

lemma cset_middle [c_simps]: "i = int (length ls) \<Longrightarrow> cset (ls @ x # rs) i v = Some (ls @ v # rs)"
  by (simp add: cset_def)

lemma cset_length: "cset xs i v = Some ys \<Longrightarrow> length ys = length xs"
  by (auto simp: cset_def split: if_splits)

section \<open>Decimal output\<close>

text \<open>The digits that printf writes for a "%d" of a number that is not negative.\<close>

fun show_nat :: "nat \<Rightarrow> string" where
  "show_nat n = (if n < 10 then [char_of (48 + n)] else show_nat (n div 10) @ [char_of (48 + n mod 10)])"

declare show_nat.simps [simp del]

definition show_int :: "int \<Rightarrow> string" where
  "show_int i = (if i < 0 then CHR ''-'' # show_nat (nat (- i)) else show_nat (nat i))"

lemma show_nat_length: "n < 10 ^ Suc k \<Longrightarrow> length (show_nat n) \<le> Suc k"
proof (induction k arbitrary: n)
  case 0
  then show ?case by (simp add: show_nat.simps [of n])
next
  case (Suc k)
  show ?case
  proof (cases "n < 10")
    case False
    have "n div 10 < 10 ^ Suc k" using Suc.prems by (simp add: less_mult_imp_div_less)
    with Suc.IH False show ?thesis by (simp add: show_nat.simps [of n])
  qed (simp add: show_nat.simps [of n])
qed

section \<open>Counting threads\<close>

lemma sum_index_upd:
  fixes n i :: nat and g :: "nat \<Rightarrow> 'a \<Rightarrow> int"
  assumes "i < n"
  shows "(\<Sum>j < n. g j ((f(i := x)) j)) = (\<Sum>j < n. g j (f j)) - g i (f i) + g i x"
proof -
  have split: "(\<Sum>j < n. g j (h j)) = g i (h i) + (\<Sum>j \<in> {..<n} - {i}. g j (h j))" for h
    by (rule sum.remove) (use assms in auto)
  have rest: "(\<Sum>j \<in> {..<n} - {i}. g j ((f(i := x)) j)) = (\<Sum>j \<in> {..<n} - {i}. g j (f j))"
    by (rule sum.cong) auto
  show ?thesis
    using split [of "f(i := x)"] split [of f] unfolding rest by simp
qed

lemma sum_fun_upd:
  fixes n i :: nat and g :: "'a \<Rightarrow> int"
  shows "i < n \<Longrightarrow> (\<Sum>j < n. g ((f(i := x)) j)) = (\<Sum>j < n. g (f j)) - g (f i) + g x"
  by (rule sum_index_upd)

section \<open>Transition systems\<close>

text \<open>The states a component can reach: from the initial ones, by its steps.\<close>

inductive reachable :: "('s \<Rightarrow> bool) \<Rightarrow> ('s \<Rightarrow> 's \<Rightarrow> bool) \<Rightarrow> 's \<Rightarrow> bool"
  for start :: "'s \<Rightarrow> bool" and trans_step :: "'s \<Rightarrow> 's \<Rightarrow> bool" where
  reach_start: "start s \<Longrightarrow> reachable start trans_step s"
| reach_step: "reachable start trans_step s \<Longrightarrow> trans_step s t \<Longrightarrow> reachable start trans_step t"

text \<open>
  The contract of a component with an invariant: its start states have it and its steps keep
  it. What holds in every reachable state is proved once, here.
\<close>

locale invariant_system =
  fixes start :: "'s \<Rightarrow> bool"
    and trans_step :: "'s \<Rightarrow> 's \<Rightarrow> bool"
    and inv :: "'s \<Rightarrow> bool"
  assumes start_inv: "start s \<Longrightarrow> inv s"
    and step_keeps_inv: "inv s \<Longrightarrow> trans_step s t \<Longrightarrow> inv t"
begin

lemma reachable_has_inv: "reachable start trans_step s \<Longrightarrow> inv s"
  by (induction rule: reachable.induct) (auto intro: start_inv step_keeps_inv)

lemma steps_keep_inv: "trans_step\<^sup>*\<^sup>* s t \<Longrightarrow> inv s \<Longrightarrow> inv t"
  by (induction rule: rtranclp_induct) (auto intro: step_keeps_inv)

lemma reachable_implies:
  "reachable start trans_step s \<Longrightarrow> (\<And>u. inv u \<Longrightarrow> good u) \<Longrightarrow> good s"
  using reachable_has_inv by blast

end

lemma reachable_steps:
  "trans_step\<^sup>*\<^sup>* s t \<Longrightarrow> reachable start trans_step s \<Longrightarrow> reachable start trans_step t"
  by (induction rule: rtranclp_induct) (auto intro: reach_step)

end
