(* ===== verification/Timespec.thy ===== *)
theory Timespec
  imports Prelude
begin

text \<open>
  The arithmetic on struct timespec of 1/solution.c (lines 14 to 91) and the timed-join helpers
  of 4/thread_pool.c that repeat it. The fields are 64-bit longs, and every sum, difference and product
  that does not fit one is undefined behaviour (None). ts_diff and ts_add are what the sums are on
  unbounded integers, the values of diff_timespec and add_timespec where these are defined.
\<close>

section \<open>Constants and data\<close>

definition nsec_in_sec :: int where "nsec_in_sec = 1000000000"

definition nsec_in_milliseconds :: int where "nsec_in_milliseconds = 1000000"

definition milliseconds_in_sec :: int where "milliseconds_in_sec = 1000"

definition nsec_in_microseconds :: int where "nsec_in_microseconds = 1000"

definition microseconds_in_sec :: int where "microseconds_in_sec = 1000000"

lemmas time_units = nsec_in_sec_def nsec_in_milliseconds_def milliseconds_in_sec_def
  nsec_in_microseconds_def microseconds_in_sec_def

record timespec =
  tv_sec :: int
  tv_nsec :: int

section \<open>Operations\<close>

definition diff_timespec :: "timespec \<Rightarrow> timespec \<Rightarrow> timespec option" where
  "diff_timespec spec1 spec2 = do {
     sec \<leftarrow> c_long (tv_sec spec1 - tv_sec spec2);
     nsec \<leftarrow> c_long (tv_nsec spec1 - tv_nsec spec2);
     if nsec < 0 then do {
       nsec \<leftarrow> c_long (nsec + nsec_in_sec);
       sec \<leftarrow> c_long (sec - 1);
       Some \<lparr>tv_sec = sec, tv_nsec = nsec\<rparr> }
     else Some \<lparr>tv_sec = sec, tv_nsec = nsec\<rparr> }"

definition add_timespec :: "timespec \<Rightarrow> timespec \<Rightarrow> timespec option" where
  "add_timespec spec1 spec2 = do {
     sec \<leftarrow> c_long (tv_sec spec1 + tv_sec spec2);
     nsec \<leftarrow> c_long (tv_nsec spec1 + tv_nsec spec2);
     if nsec \<ge> nsec_in_sec then do {
       nsec \<leftarrow> c_long (nsec - nsec_in_sec);
       sec \<leftarrow> c_long (sec + 1);
       Some \<lparr>tv_sec = sec, tv_nsec = nsec\<rparr> }
     else Some \<lparr>tv_sec = sec, tv_nsec = nsec\<rparr> }"

text \<open>The same on unbounded integers.\<close>

definition ts_diff :: "timespec \<Rightarrow> timespec \<Rightarrow> timespec" where
  "ts_diff spec1 spec2 =
     (let diff = \<lparr>tv_sec = tv_sec spec1 - tv_sec spec2, tv_nsec = tv_nsec spec1 - tv_nsec spec2\<rparr>
      in if tv_nsec diff < 0
         then diff\<lparr>tv_nsec := tv_nsec diff + nsec_in_sec, tv_sec := tv_sec diff - 1\<rparr>
         else diff)"

definition ts_add :: "timespec \<Rightarrow> timespec \<Rightarrow> timespec" where
  "ts_add spec1 spec2 =
     (let addition = \<lparr>tv_sec = tv_sec spec1 + tv_sec spec2, tv_nsec = tv_nsec spec1 + tv_nsec spec2\<rparr>
      in if tv_nsec addition \<ge> nsec_in_sec
         then addition\<lparr>tv_nsec := tv_nsec addition - nsec_in_sec, tv_sec := tv_sec addition + 1\<rparr>
         else addition)"

lemma diff_timespec_value: "diff_timespec a b = Some d \<Longrightarrow> d = ts_diff a b"
  by (auto simp: diff_timespec_def ts_diff_def bind_eq_Some_conv Let_def split: if_splits)

lemma add_timespec_value: "add_timespec a b = Some d \<Longrightarrow> d = ts_add a b"
  by (auto simp: add_timespec_def ts_add_def bind_eq_Some_conv Let_def split: if_splits)

definition gte_timespec :: "timespec \<Rightarrow> timespec \<Rightarrow> bool" where
  "gte_timespec spec1 spec2 =
     (if tv_sec spec1 > tv_sec spec2 then True
      else if tv_sec spec1 < tv_sec spec2 then False
      else if tv_nsec spec1 > tv_nsec spec2 then True
      else if tv_nsec spec1 < tv_nsec spec2 then False
      else True)"

definition milliseconds_to_timespec :: "int \<Rightarrow> timespec option" where
  "milliseconds_to_timespec ms = do {
     nsec \<leftarrow> c_long (ms * nsec_in_milliseconds);
     Some \<lparr>tv_sec = nsec sdiv nsec_in_sec, tv_nsec = nsec smod nsec_in_sec\<rparr> }"

definition timespec_to_milliseconds :: "timespec \<Rightarrow> int option" where
  "timespec_to_milliseconds t = do {
     ms \<leftarrow> c_long (tv_sec t * milliseconds_in_sec);
     c_long (ms + tv_nsec t sdiv nsec_in_milliseconds) }"

definition microseconds_to_timespec :: "int \<Rightarrow> timespec option" where
  "microseconds_to_timespec ms = do {
     nsec \<leftarrow> c_long (ms * nsec_in_microseconds);
     Some \<lparr>tv_sec = nsec sdiv nsec_in_sec, tv_nsec = nsec smod nsec_in_sec\<rparr> }"

definition timespec_to_microseconds :: "timespec \<Rightarrow> int option" where
  "timespec_to_microseconds t = do {
     ms \<leftarrow> c_long (tv_sec t * microseconds_in_sec);
     c_long (ms + tv_nsec t sdiv nsec_in_microseconds) }"

section \<open>Normalised times and what they denote\<close>

definition ts_norm :: "timespec \<Rightarrow> bool" where
  "ts_norm t \<longleftrightarrow> 0 \<le> tv_nsec t \<and> tv_nsec t < nsec_in_sec"

definition ts_nanos :: "timespec \<Rightarrow> int" where
  "ts_nanos t = tv_sec t * nsec_in_sec + tv_nsec t"

lemma ts_nanos_inj:
  assumes "ts_norm a" "ts_norm b" "ts_nanos a = ts_nanos b"
  shows "a = b"
proof -
  have "tv_sec a = ts_nanos a div nsec_in_sec \<and> tv_nsec a = ts_nanos a mod nsec_in_sec"
    using assms(1) by (simp add: ts_norm_def ts_nanos_def nsec_in_sec_def)
  moreover have "tv_sec b = ts_nanos b div nsec_in_sec \<and> tv_nsec b = ts_nanos b mod nsec_in_sec"
    using assms(2) by (simp add: ts_norm_def ts_nanos_def nsec_in_sec_def)
  ultimately show ?thesis
    using assms(3) by (cases a; cases b) simp
qed

lemma ts_diff_norm: "ts_norm a \<Longrightarrow> ts_norm b \<Longrightarrow> ts_norm (ts_diff a b)"
  by (auto simp: ts_diff_def ts_norm_def Let_def)

lemma ts_diff_nanos: "ts_nanos (ts_diff a b) = ts_nanos a - ts_nanos b"
  by (auto simp: ts_diff_def ts_nanos_def Let_def algebra_simps)

lemma ts_add_norm: "ts_norm a \<Longrightarrow> ts_norm b \<Longrightarrow> ts_norm (ts_add a b)"
  by (auto simp: ts_add_def ts_norm_def Let_def)

lemma ts_add_nanos: "ts_nanos (ts_add a b) = ts_nanos a + ts_nanos b"
  by (auto simp: ts_add_def ts_nanos_def Let_def algebra_simps)

lemma gte_timespec_nanos:
  assumes "ts_norm a" "ts_norm b"
  shows "gte_timespec a b \<longleftrightarrow> ts_nanos b \<le> ts_nanos a"
  using assms by (auto simp: gte_timespec_def ts_norm_def ts_nanos_def nsec_in_sec_def)

text \<open>Adding what was subtracted gives the original time back.\<close>

lemma ts_add_diff:
  assumes "ts_norm a" "ts_norm b"
  shows "ts_add b (ts_diff a b) = a"
  using assms
  by (intro ts_nanos_inj ts_add_norm ts_diff_norm)
    (simp_all add: ts_add_nanos ts_diff_nanos)

text \<open>Times as the clocks give them: normalised, and less than 2^31 seconds.\<close>

definition ts_small :: "timespec \<Rightarrow> bool" where
  "ts_small t \<longleftrightarrow> ts_norm t \<and> 0 \<le> tv_sec t \<and> tv_sec t < 2 ^ 31"

lemma ts_small_nanos: "ts_norm t \<Longrightarrow> ts_small t \<longleftrightarrow> 0 \<le> ts_nanos t \<and> ts_nanos t < 2 ^ 31 * nsec_in_sec"
  by (auto simp: ts_small_def ts_norm_def ts_nanos_def nsec_in_sec_def)

lemma diff_timespec_small: "ts_small a \<Longrightarrow> ts_small b \<Longrightarrow> diff_timespec a b = Some (ts_diff a b)"
  by (auto simp: diff_timespec_def ts_diff_def Let_def ts_small_def ts_norm_def nsec_in_sec_def long_ok_def)

lemma add_timespec_small: "ts_small a \<Longrightarrow> ts_small b \<Longrightarrow> add_timespec a b = Some (ts_add a b)"
  by (auto simp: add_timespec_def ts_add_def Let_def ts_small_def ts_norm_def nsec_in_sec_def long_ok_def)

section \<open>Times as an ordered type\<close>

instantiation timespec_ext :: (linorder) linorder
begin

definition less_eq_timespec_ext :: "'a timespec_scheme \<Rightarrow> 'a timespec_scheme \<Rightarrow> bool" where
  "a \<le> b \<longleftrightarrow> tv_sec a < tv_sec b \<or> tv_sec a = tv_sec b \<and>
     (tv_nsec a < tv_nsec b \<or> tv_nsec a = tv_nsec b \<and> timespec.more a \<le> timespec.more b)"

definition less_timespec_ext :: "'a timespec_scheme \<Rightarrow> 'a timespec_scheme \<Rightarrow> bool" where
  "(a :: 'a timespec_scheme) < b \<longleftrightarrow> a \<le> b \<and> \<not> b \<le> a"

instance
  by standard (auto simp: less_eq_timespec_ext_def less_timespec_ext_def)

end

lemma gte_timespec_order: "gte_timespec a b \<longleftrightarrow> b \<le> a"
  by (auto simp: gte_timespec_def less_eq_timespec_ext_def)

section \<open>Conversions\<close>

lemma smod_bounds_nonneg:
  fixes x :: int
  assumes "0 \<le> x" "0 < m"
  shows "x smod m = x mod m" "x sdiv m = x div m"
proof -
  have "x = 0 \<or> sgn x = 1" using assms(1) by (simp add: sgn_if)
  then show "x smod m = x mod m" "x sdiv m = x div m"
    using assms by (auto simp add: signed_modulo_int_def signed_divide_int_def)
qed

lemma nanos_to_timespec:
  fixes n :: int
  assumes "0 \<le> n"
  defines "t \<equiv> \<lparr>tv_sec = n sdiv nsec_in_sec, tv_nsec = n smod nsec_in_sec\<rparr>"
  shows "ts_norm t" "ts_nanos t = n" "tv_sec t = n div nsec_in_sec" "tv_nsec t = n mod nsec_in_sec"
  using assms(1) by (simp_all add: t_def smod_bounds_nonneg ts_norm_def ts_nanos_def nsec_in_sec_def)

lemma milliseconds_to_timespec_ok:
  assumes "0 \<le> ms" "ms \<le> 9223372036854"
  shows "\<exists>t. milliseconds_to_timespec ms = Some t \<and> ts_norm t \<and> ts_nanos t = ms * 1000000"
proof -
  have "long_ok (ms * nsec_in_milliseconds)" "0 \<le> ms * nsec_in_milliseconds"
    using assms by (simp_all add: long_ok_def time_units)
  then show ?thesis
    using nanos_to_timespec [of "ms * nsec_in_milliseconds"]
    by (simp add: milliseconds_to_timespec_def) (simp add: time_units)
qed

lemma ms_split:
  fixes ms :: int
  assumes "0 \<le> ms"
  shows "(ms * 1000000) div 1000000000 * 1000 + ((ms * 1000000) mod 1000000000) div 1000000 = ms"
proof -
  have "ms * 1000000 = (ms div 1000) * 1000000000 + (ms mod 1000) * 1000000"
    using div_mult_mod_eq [of ms 1000] by presburger
  moreover have "0 \<le> (ms mod 1000) * 1000000" "(ms mod 1000) * 1000000 < 1000000000"
    by simp_all
  ultimately have "(ms * 1000000) div 1000000000 = ms div 1000"
    "(ms * 1000000) mod 1000000000 = (ms mod 1000) * 1000000"
    by (simp_all add: div_pos_pos_trivial)
  then show ?thesis by simp
qed

lemma milliseconds_roundtrip:
  assumes "0 \<le> ms" "ms \<le> 9223372036854"
  shows "Option.bind (milliseconds_to_timespec ms) timespec_to_milliseconds = Some ms"
proof -
  let ?n = "ms * 1000000"
  have "0 \<le> ?n div 1000000000 * 1000" "?n div 1000000000 * 1000 \<le> ms"
    using ms_split [OF assms(1)] assms(1) by (simp_all add: pos_imp_zdiv_nonneg_iff)
  then have "long_ok ?n" "long_ok ms" "long_ok (?n div 1000000000 * 1000)"
    using assms by (simp_all add: long_ok_def)
  then show ?thesis
    using assms ms_split [OF assms(1)]
    by (simp add: milliseconds_to_timespec_def timespec_to_milliseconds_def time_units
        smod_bounds_nonneg)
qed

lemma microseconds_to_timespec_int:
  assumes "0 \<le> us" "int_ok us"
  shows "\<exists>t. microseconds_to_timespec us = Some t \<and> ts_norm t \<and> ts_nanos t = us * 1000"
proof -
  have "long_ok (us * nsec_in_microseconds)" "0 \<le> us * nsec_in_microseconds"
    using assms by (simp_all add: long_ok_def int_ok_def time_units)
  then show ?thesis
    using nanos_to_timespec [of "us * nsec_in_microseconds"]
    by (simp add: microseconds_to_timespec_def) (simp add: time_units)
qed

lemma timespec_to_microseconds_small: "ts_small t \<Longrightarrow> \<exists>us. timespec_to_microseconds t = Some us"
proof -
  assume t: "ts_small t"
  have "tv_nsec t sdiv 1000 = tv_nsec t div 1000" using t by (simp add: smod_bounds_nonneg ts_small_def ts_norm_def)
  moreover have "0 \<le> tv_nsec t div 1000" "tv_nsec t div 1000 < 1000000"
    using t by (auto simp: ts_small_def ts_norm_def nsec_in_sec_def pos_imp_zdiv_nonneg_iff)
  ultimately show ?thesis
    using t by (simp add: timespec_to_microseconds_def ts_small_def time_units long_ok_def)
qed

section \<open>Properties\<close>

text \<open>On times as the clocks give them, diff_timespec is defined, exact and normalised, add_timespec undoes it,
  and gte_timespec compares the nanoseconds the two times denote.\<close>

theorem timespec_arithmetic:
  assumes "ts_small a" "ts_small b" "ts_nanos b \<le> ts_nanos a"
  shows "\<exists>d. diff_timespec a b = Some d \<and> ts_norm d \<and> ts_nanos d = ts_nanos a - ts_nanos b \<and>
    add_timespec b d = Some a \<and> gte_timespec a b"
proof -
  have norm: "ts_norm a" "ts_norm b" using assms by (simp_all add: ts_small_def)
  have "ts_norm (ts_diff a b)" by (rule ts_diff_norm [OF norm])
  moreover have "ts_small (ts_diff a b)"
    using ts_small_nanos [OF ts_diff_norm [OF norm]] ts_small_nanos [OF norm(1)] ts_small_nanos [OF norm(2)] assms
    by (simp add: ts_diff_nanos)
  ultimately show ?thesis
    using assms norm diff_timespec_small add_timespec_small ts_add_diff ts_diff_nanos gte_timespec_nanos by auto
qed

theorem timespec_arithmetic_witness:
  "diff_timespec \<lparr>tv_sec = 5, tv_nsec = 1\<rparr> \<lparr>tv_sec = 2, tv_nsec = 999999999\<rparr> = Some \<lparr>tv_sec = 2, tv_nsec = 2\<rparr> \<and>
   add_timespec \<lparr>tv_sec = 2, tv_nsec = 999999999\<rparr> \<lparr>tv_sec = 2, tv_nsec = 2\<rparr> = Some \<lparr>tv_sec = 5, tv_nsec = 1\<rparr>"
  using timespec_arithmetic [of "\<lparr>tv_sec = 5, tv_nsec = 1\<rparr>" "\<lparr>tv_sec = 2, tv_nsec = 999999999\<rparr>"]
  by (simp add: ts_small_def ts_norm_def ts_nanos_def nsec_in_sec_def diff_timespec_def long_ok_def)

text \<open>A count of milliseconds up to the largest whose nanoseconds fit a long long survives the
  conversion to a timespec and back; the next one overflows (undefined behaviour).\<close>

theorem milliseconds_conversion:
  assumes "0 \<le> ms"
  shows "(Option.bind (milliseconds_to_timespec ms) timespec_to_milliseconds = Some ms
      \<longleftrightarrow> ms \<le> 9223372036854) \<and>
    (milliseconds_to_timespec ms = None \<longleftrightarrow> ms > 9223372036854)"
proof (cases "ms \<le> 9223372036854")
  case True
  then show ?thesis using milliseconds_roundtrip [OF assms] milliseconds_to_timespec_ok [OF assms] by auto
next
  case False
  then have "\<not> long_ok (ms * nsec_in_milliseconds)" by (simp add: long_ok_def time_units)
  then have "milliseconds_to_timespec ms = None" by (simp add: milliseconds_to_timespec_def c_long_def)
  then show ?thesis using False by simp
qed

theorem milliseconds_conversion_witness:
  "milliseconds_to_timespec 9223372036855 = None \<and>
   Option.bind (milliseconds_to_timespec 1500) timespec_to_milliseconds = Some 1500"
  using milliseconds_conversion [of 9223372036855] milliseconds_conversion [of 1500] by simp

end
