(* ===== verification/File_Sort.thy ===== *)
theory File_Sort
  imports Timespec
begin

text \<open>
  The per-file part of 1/solution.c (lines 97 to 195): the coroutine context with its time
  accounting, the yield that respects the quantum, and the in-place quicksort that yields in its
  partition loop. An array and a pointer into it are a list and an offset; every read and write
  goes through cget and cset, so a result Some says that no access left the array. The sort is
  recursive with no syntactic measure (the right part keeps the pivot, so it may be as long as
  the input), hence a partial function whose termination is proved here. The count of switches is an
  int and may overflow (None); the sort is therefore described by the number of times it yields.
\<close>

section \<open>The coroutine context and the clock\<close>

record coroutine_context =
  ctx_name :: string
  context_switch_count :: int
  start_timespec :: timespec
  quantum_soft_limit :: timespec
  time_working :: timespec

text \<open>
  The state a running coroutine changes besides its array: its context and how often it has read
  the clock. The readings themselves are a parameter: the n-th reading is clk n.
\<close>

record coro_world =
  wctx :: coroutine_context
  reads :: nat

definition create_coroutine_context :: "string \<Rightarrow> int \<Rightarrow> timespec \<Rightarrow> coroutine_context option" where
  "create_coroutine_context name quantum_soft_limit_microseconds uninitialised = do {
     limit \<leftarrow> microseconds_to_timespec quantum_soft_limit_microseconds;
     Some \<lparr>ctx_name = name, context_switch_count = 0, start_timespec = uninitialised,
           quantum_soft_limit = limit, time_working = \<lparr>tv_sec = 0, tv_nsec = 0\<rparr>\<rparr> }"

definition clock_gettime :: "(nat \<Rightarrow> timespec) \<Rightarrow> coro_world \<Rightarrow> timespec \<times> coro_world" where
  "clock_gettime clk w = (clk (reads w), w\<lparr>reads := reads w + 1\<rparr>)"

definition coro_yield_with_respect_to_quantum :: "(nat \<Rightarrow> timespec) \<Rightarrow> coro_world \<Rightarrow> coro_world option" where
  "coro_yield_with_respect_to_quantum clk w =
     (let (now, w) = clock_gettime clk w; context = wctx w in do {
        time_spent_this_run \<leftarrow> diff_timespec now (start_timespec context);
        if gte_timespec time_spent_this_run (quantum_soft_limit context) then do {
          count \<leftarrow> c_int (context_switch_count context + 1);
          working \<leftarrow> add_timespec (time_working context) time_spent_this_run;
          let context = context\<lparr>context_switch_count := count, time_working := working\<rparr>;
          let (resumed, w) = clock_gettime clk w;
          Some (w\<lparr>wctx := context\<lparr>start_timespec := resumed\<rparr>\<rparr>) }
        else Some w })"

section \<open>Quicksort\<close>

function partition_loop ::
  "(nat \<Rightarrow> timespec) \<Rightarrow> int \<Rightarrow> int \<Rightarrow> int \<Rightarrow> int \<Rightarrow> int \<Rightarrow> int list \<Rightarrow> coro_world
     \<Rightarrow> (int \<times> int list \<times> coro_world) option" where
  "partition_loop clk base number_count pivot_value i pivot_index numbers w =
     (if i < number_count then do {
        number \<leftarrow> cget numbers (base + i);
        (numbers, pivot_index) \<leftarrow>
          (if number \<le> pivot_value then do {
             at_pivot \<leftarrow> cget numbers (base + pivot_index);
             numbers \<leftarrow> cset numbers (base + i) at_pivot;
             numbers \<leftarrow> cset numbers (base + pivot_index) number;
             Some (numbers, pivot_index + 1) }
           else Some (numbers, pivot_index));
        w \<leftarrow> coro_yield_with_respect_to_quantum clk w;
        partition_loop clk base number_count pivot_value (i + 1) pivot_index numbers w }
      else Some (pivot_index, numbers, w))"
  by pat_completeness auto
termination
  by (relation "measure (\<lambda>(_, _, n, _, i, _, _, _). nat (n - i))") auto

declare partition_loop.simps [simp del]

definition quick_sort_partition ::
  "(nat \<Rightarrow> timespec) \<Rightarrow> int \<Rightarrow> int \<Rightarrow> int list \<Rightarrow> coro_world \<Rightarrow> (int \<times> int list \<times> coro_world) option" where
  "quick_sort_partition clk base number_count numbers w = do {
     pivot_value \<leftarrow> cget numbers (base + (number_count - 1));
     (pivot_index, numbers, w) \<leftarrow> partition_loop clk base number_count pivot_value 0 0 numbers w;
     Some (pivot_index - 1, numbers, w) }"

partial_function (option) get_sorted_inplace_numbers ::
  "(nat \<Rightarrow> timespec) \<Rightarrow> int \<Rightarrow> int \<Rightarrow> int list \<Rightarrow> coro_world \<Rightarrow> (int list \<times> coro_world) option" where
  "get_sorted_inplace_numbers clk base number_count numbers w =
     (if number_count \<le> 1 then Some (numbers, w)
      else do {
        (pivot_index, numbers, w) \<leftarrow> quick_sort_partition clk base number_count numbers w;
        (numbers, w) \<leftarrow> get_sorted_inplace_numbers clk base pivot_index numbers w;
        get_sorted_inplace_numbers clk (base + pivot_index) (number_count - pivot_index) numbers w })"

record single_sorted_file_data =
  number_count :: int
  sorted_numbers :: "int list"

definition get_sorted_inplace_file_data ::
  "(nat \<Rightarrow> timespec) \<Rightarrow> int \<Rightarrow> int list \<Rightarrow> coro_world \<Rightarrow> (single_sorted_file_data \<times> coro_world) option" where
  "get_sorted_inplace_file_data clk n numbers w = do {
     (numbers, w) \<leftarrow> get_sorted_inplace_numbers clk 0 n numbers w;
     Some (\<lparr>number_count = n, sorted_numbers = numbers\<rparr>, w) }"

section \<open>Time accounting\<close>

text \<open>
  Every switch of a coroutine is preceded by a run of at least its quantum, and the runs are
  added up: the working time is at least the number of switches times the quantum.
\<close>

definition ctx_accounted :: "coroutine_context \<Rightarrow> bool" where
  "ctx_accounted c \<longleftrightarrow> ts_norm (start_timespec c) \<and> ts_norm (quantum_soft_limit c) \<and>
     ts_norm (time_working c) \<and>
     context_switch_count c * ts_nanos (quantum_soft_limit c) \<le> ts_nanos (time_working c)"

lemma yield_accounted:
  assumes "\<And>n. ts_norm (clk n)" "ctx_accounted (wctx w)" "coro_yield_with_respect_to_quantum clk w = Some w'"
  shows "ctx_accounted (wctx w')"
  using assms
  by (auto simp: coro_yield_with_respect_to_quantum_def clock_gettime_def Let_def ctx_accounted_def bind_eq_Some_conv
      ts_add_norm ts_diff_norm ts_add_nanos gte_timespec_nanos algebra_simps
      dest!: diff_timespec_value add_timespec_value split: if_splits)

lemma yield_quantum_kept:
  "coro_yield_with_respect_to_quantum clk w = Some w' \<Longrightarrow> quantum_soft_limit (wctx w') = quantum_soft_limit (wctx w)"
  by (auto simp: coro_yield_with_respect_to_quantum_def clock_gettime_def Let_def bind_eq_Some_conv split: if_splits)

section \<open>When yields succeed\<close>

text \<open>k yields one after the other; between them the code does not touch the world.\<close>

primrec yields :: "(nat \<Rightarrow> timespec) \<Rightarrow> nat \<Rightarrow> coro_world \<Rightarrow> coro_world option" where
  "yields clk 0 w = Some w"
| "yields clk (Suc k) w = Option.bind (coro_yield_with_respect_to_quantum clk w) (yields clk k)"

lemma yields_add: "yields clk (j + k) w = Option.bind (yields clk j w) (yields clk k)"
  by (induction j arbitrary: w) (auto intro!: Option.bind_cong)

text \<open>
  A clock that does not go back and has run for less than 2^31 seconds. A context that has counted only what
  it has seen: the time it has worked is not more than what its clock showed at its last start.
\<close>

definition clock_ok :: "(nat \<Rightarrow> timespec) \<Rightarrow> bool" where
  "clock_ok clk \<longleftrightarrow> (\<forall>n. ts_small (clk n)) \<and> (\<forall>n m. n \<le> m \<longrightarrow> ts_nanos (clk n) \<le> ts_nanos (clk m))"

definition world_ok :: "(nat \<Rightarrow> timespec) \<Rightarrow> coro_world \<Rightarrow> bool" where
  "world_ok clk w \<longleftrightarrow> ts_small (start_timespec (wctx w)) \<and> ts_small (time_working (wctx w)) \<and>
     ts_nanos (time_working (wctx w)) \<le> ts_nanos (start_timespec (wctx w)) \<and>
     (\<forall>n \<ge> reads w. ts_nanos (start_timespec (wctx w)) \<le> ts_nanos (clk n))"

text \<open>The sums that the code takes of the present time, the last start and the time worked.\<close>

lemma working_time_fits:
  assumes "ts_small now" "ts_small start" "ts_small working" "ts_nanos working \<le> ts_nanos start" "ts_nanos start \<le> ts_nanos now"
  shows "diff_timespec now start = Some (ts_diff now start)"
    and "add_timespec working (ts_diff now start) = Some (ts_add working (ts_diff now start))"
    and "ts_small (ts_add working (ts_diff now start))" "ts_nanos (ts_add working (ts_diff now start)) \<le> ts_nanos now"
proof -
  note norm = assms(1-3) [THEN ts_small_def [THEN iffD1], THEN conjunct1]
  note nanos = ts_small_nanos [OF norm(1)] ts_small_nanos [OF norm(2)] ts_small_nanos [OF norm(3)]
  show "diff_timespec now start = Some (ts_diff now start)" by (rule diff_timespec_small [OF assms(1,2)])
  have d: "ts_norm (ts_diff now start)" by (rule ts_diff_norm [OF norm(1,2)])
  then have small: "ts_small (ts_diff now start)"
    using ts_small_nanos [OF d] nanos assms by (simp add: ts_diff_nanos)
  then show "add_timespec working (ts_diff now start) = Some (ts_add working (ts_diff now start))"
    by (rule add_timespec_small [OF assms(3)])
  show "ts_nanos (ts_add working (ts_diff now start)) \<le> ts_nanos now"
    using assms(4) by (simp add: ts_add_nanos ts_diff_nanos)
  show "ts_small (ts_add working (ts_diff now start))"
    using ts_small_nanos [OF ts_add_norm [OF norm(3) d]] nanos assms by (simp add: ts_add_nanos ts_diff_nanos)
qed

lemma yield_defined:
  assumes clk: "clock_ok clk" and w: "world_ok clk w"
    and c: "0 \<le> context_switch_count (wctx w)" "context_switch_count (wctx w) + 1 < 2 ^ 31"
  shows "\<exists>w'. coro_yield_with_respect_to_quantum clk w = Some w' \<and> world_ok clk w' \<and>
    context_switch_count (wctx w) \<le> context_switch_count (wctx w') \<and>
    context_switch_count (wctx w') \<le> context_switch_count (wctx w) + 1"
proof -
  let ?start = "start_timespec (wctx w)" and ?now = "clk (reads w)"
  note fits = working_time_fits [of ?now ?start "time_working (wctx w)"]
  have "ts_nanos ?start \<le> ts_nanos (clk n)" if "reads w \<le> n" for n using w that by (simp add: world_ok_def)
  moreover have "ts_nanos (clk n) \<le> ts_nanos (clk m)" if "n \<le> m" for n m using clk that by (simp add: clock_ok_def)
  moreover have "ts_small (clk n)" for n using clk by (simp add: clock_ok_def)
  moreover have "ts_nanos (ts_add (time_working (wctx w)) (ts_diff ?now ?start)) \<le> ts_nanos (clk (Suc (reads w)))"
    using fits(4) calculation w by (meson le_SucI order_refl order_trans world_ok_def)
  moreover have "int_ok (context_switch_count (wctx w) + 1)" using c by (simp add: int_ok_def)
  ultimately show ?thesis
    using fits(1-3) w
    by (auto simp: coro_yield_with_respect_to_quantum_def clock_gettime_def Let_def world_ok_def)
qed

lemma yields_defined:
  assumes "clock_ok clk" "world_ok clk w" "0 \<le> context_switch_count (wctx w)" "context_switch_count (wctx w) + int k < 2 ^ 31"
  shows "\<exists>w'. yields clk k w = Some w' \<and> world_ok clk w' \<and>
    context_switch_count (wctx w) \<le> context_switch_count (wctx w') \<and>
    context_switch_count (wctx w') \<le> context_switch_count (wctx w) + int k"
  using assms(2-4)
proof (induction k arbitrary: w)
  case (Suc k)
  obtain v where v: "coro_yield_with_respect_to_quantum clk w = Some v" "world_ok clk v"
    "context_switch_count (wctx w) \<le> context_switch_count (wctx v)"
    "context_switch_count (wctx v) \<le> context_switch_count (wctx w) + 1"
    using yield_defined [OF assms(1) Suc.prems(1,2)] Suc.prems(3) by auto
  then obtain w' where "yields clk k v = Some w'" "world_ok clk w'"
    "context_switch_count (wctx v) \<le> context_switch_count (wctx w')"
    "context_switch_count (wctx w') \<le> context_switch_count (wctx v) + int k"
    using Suc.IH [OF v(2)] Suc.prems by auto
  then show ?case using v by auto
qed simp

lemma yields_keep:
  assumes "\<And>w w'. good w \<Longrightarrow> coro_yield_with_respect_to_quantum clk w = Some w' \<Longrightarrow> good w'"
  shows "good w \<Longrightarrow> yields clk k w = Some w' \<Longrightarrow> good w'"
  by (induction k arbitrary: w) (auto simp: bind_eq_Some_conv dest: assms)

section \<open>The partition\<close>

text \<open>
  What the loop does to the segment: as @ bs @ cs with as at most the pivot, bs above it and cs
  still to be seen. Swapping an element of cs to the end of as moves the first element of bs to
  the end of bs, that is, rotates bs.
\<close>

fun lomuto :: "int \<Rightarrow> int list \<Rightarrow> int list \<Rightarrow> int list \<Rightarrow> int list \<times> int list" where
  "lomuto pv as bs [] = (as, bs)"
| "lomuto pv as bs (c # cs) =
     (if c \<le> pv then lomuto pv (as @ [c]) (rotate1 bs) cs else lomuto pv as (bs @ [c]) cs)"

lemma partition_loop_step:
  assumes base: "base = int (length ls)" and p: "p = int (length as)" and i: "i = int (length (as @ bs))"
    and n: "i < n"
  shows "partition_loop clk base n pv i p (ls @ as @ bs @ c # cs @ rs) w =
    (if c \<le> pv
     then Option.bind (coro_yield_with_respect_to_quantum clk w)
            (partition_loop clk base n pv (i + 1) (p + 1) (ls @ (as @ [c]) @ rotate1 bs @ cs @ rs))
     else Option.bind (coro_yield_with_respect_to_quantum clk w)
            (partition_loop clk base n pv (i + 1) p (ls @ as @ (bs @ [c]) @ cs @ rs)))"
proof -
  have get_i: "cget (ls @ as @ bs @ c # cs @ rs) (base + i) = Some c"
    using cget_middle [of "base + i" "ls @ as @ bs" c "cs @ rs"] base i by simp
  show ?thesis
  proof (cases bs)
    case Nil
    then have "cget (ls @ as @ c # cs @ rs) (base + p) = Some c"
      "cset (ls @ as @ c # cs @ rs) (base + p) c = Some (ls @ as @ c # cs @ rs)"
      using cget_middle [of "base + p" "ls @ as" c "cs @ rs"]
        cset_middle [of "base + p" "ls @ as" c "cs @ rs"] base p by simp_all
    with Nil get_i n p i show ?thesis
      by (subst partition_loop.simps) simp
  next
    case (Cons b bs1)
    then have "cget (ls @ as @ bs @ c # cs @ rs) (base + p) = Some b"
      "cset (ls @ as @ bs @ c # cs @ rs) (base + i) b = Some (ls @ as @ bs @ b # cs @ rs)"
      "cset (ls @ as @ bs @ b # cs @ rs) (base + p) c = Some (ls @ as @ c # bs1 @ b # cs @ rs)"
      using cget_middle [of "base + p" "ls @ as" b "bs1 @ c # cs @ rs"]
        cset_middle [of "base + i" "ls @ as @ bs" c "cs @ rs" b]
        cset_middle [of "base + p" "ls @ as" b "bs1 @ b # cs @ rs" c] base p i by simp_all
    with Cons get_i n show ?thesis
      by (subst partition_loop.simps) simp
  qed
qed

lemma partition_loop_lomuto:
  assumes "base = int (length ls)" "p = int (length as)" "i = int (length (as @ bs))"
    "n = int (length (as @ bs @ cs))"
  shows "partition_loop clk base n pv i p (ls @ as @ bs @ cs @ rs) w
    = map_option (\<lambda>w'. (int (length (fst (lomuto pv as bs cs))),
            ls @ fst (lomuto pv as bs cs) @ snd (lomuto pv as bs cs) @ rs, w')) (yields clk (length cs) w)"
  using assms
proof (induction cs arbitrary: as bs p i w)
  case Nil
  then show ?case by (subst partition_loop.simps) simp
next
  case (Cons c cs)
  let ?yield = "coro_yield_with_respect_to_quantum clk w"
  have step: "partition_loop clk base n pv i p (ls @ as @ bs @ c # cs @ rs) w =
    (if c \<le> pv
     then Option.bind ?yield (partition_loop clk base n pv (i + 1) (p + 1) (ls @ (as @ [c]) @ rotate1 bs @ cs @ rs))
     else Option.bind ?yield (partition_loop clk base n pv (i + 1) p (ls @ as @ (bs @ [c]) @ cs @ rs)))"
    using Cons.prems by (intro partition_loop_step) simp_all
  show ?case
  proof (cases "c \<le> pv")
    case True
    then show ?thesis
      using step Cons.IH [of "p + 1" "as @ [c]" "i + 1" "rotate1 bs"] Cons.prems by (cases ?yield) simp_all
  next
    case False
    then show ?thesis
      using step Cons.IH [of p as "i + 1" "bs @ [c]"] Cons.prems by (cases ?yield) simp_all
  qed
qed

lemma mset_rotate1: "mset (rotate1 xs) = mset xs"
  by (cases xs) auto

lemma lomuto_mset: "mset (fst (lomuto pv as bs cs)) + mset (snd (lomuto pv as bs cs)) = mset (as @ bs @ cs)"
  by (induction pv as bs cs rule: lomuto.induct) (auto simp: mset_rotate1)

lemma lomuto_below: "set as \<subseteq> {..pv} \<Longrightarrow> set (fst (lomuto pv as bs cs)) \<subseteq> {..pv}"
  by (induction pv as bs cs rule: lomuto.induct) (simp_all split: if_splits)

lemma lomuto_above: "set bs \<subseteq> {pv<..} \<Longrightarrow> set (snd (lomuto pv as bs cs)) \<subseteq> {pv<..}"
  by (induction pv as bs cs rule: lomuto.induct) (simp_all split: if_splits)

lemma lomuto_pivot_last:
  "cs \<noteq> [] \<Longrightarrow> last cs = pv \<Longrightarrow>
   fst (lomuto pv as bs cs) \<noteq> [] \<and> last (fst (lomuto pv as bs cs)) = pv"
proof (induction pv as bs cs rule: lomuto.induct)
  case (2 pv as bs c cs)
  then show ?case by (cases "cs = []") auto
qed simp

lemma quick_sort_partition_spec:
  assumes "seg \<noteq> []"
  obtains as bs where
    "\<And>ls rs w. quick_sort_partition clk (int (length ls)) (int (length seg)) (ls @ seg @ rs) w
      = map_option (\<lambda>w'. (int (length as), ls @ as @ last seg # bs @ rs, w')) (yields clk (length seg) w)"
    "mset (as @ last seg # bs) = mset seg" "\<forall>x\<in>set as. x \<le> last seg" "\<forall>x\<in>set bs. last seg < x"
proof -
  let ?pv = "last seg"
  let ?as = "fst (lomuto ?pv [] [] seg)" and ?bs = "snd (lomuto ?pv [] [] seg)"
  have seg: "butlast seg @ [?pv] = seg" using assms by simp
  have get: "cget (ls @ seg @ rs) (int (length ls) + (int (length seg) - 1)) = Some ?pv" for ls rs
  proof -
    have "cget ((ls @ butlast seg) @ ?pv # rs) (int (length ls) + (int (length seg) - 1)) = Some ?pv"
      using assms by (intro cget_middle) (cases seg; simp)
    then show ?thesis using seg by (metis append.assoc append_Cons append_Nil)
  qed
  have loop: "partition_loop clk (int (length ls)) (int (length seg)) ?pv 0 0 (ls @ seg @ rs) w
      = map_option (\<lambda>w'. (int (length ?as), ls @ ?as @ ?bs @ rs, w')) (yields clk (length seg) w)" for ls rs w
    using partition_loop_lomuto [of "int (length ls)" ls 0 "[]" 0 "[]" "int (length seg)" seg clk ?pv rs w]
    by auto
  obtain as where as: "?as = as @ [?pv]"
    using lomuto_pivot_last [of seg ?pv "[]" "[]"] assms by (metis append_butlast_last_id)
  have "quick_sort_partition clk (int (length ls)) (int (length seg)) (ls @ seg @ rs) w
      = map_option (\<lambda>w'. (int (length as), ls @ as @ ?pv # ?bs @ rs, w')) (yields clk (length seg) w)" for ls rs w
    unfolding quick_sort_partition_def using get [of ls rs] loop [of ls rs w] as
    by (cases "yields clk (length seg) w") simp_all
  moreover have "mset (as @ ?pv # ?bs) = mset seg"
    using lomuto_mset [of ?pv "[]" "[]" seg] as by simp
  moreover have "\<forall>x\<in>set as. x \<le> ?pv"
    using lomuto_below [of "[]" ?pv "[]" seg] as by auto
  moreover have "\<forall>x\<in>set ?bs. ?pv < x" using lomuto_above [of "[]" ?pv "[]" seg] by auto
  ultimately show ?thesis by (rule that)
qed

section \<open>The sort terminates and sorts\<close>

text \<open>
  The sort of a segment yields at most k times; how often it does and what it leaves in the segment depend on the
  numbers alone, and its result is the world after so many yields, if they are defined.
\<close>

definition sorts :: "(nat \<Rightarrow> timespec) \<Rightarrow> int list \<Rightarrow> nat \<Rightarrow> bool" where
  "sorts clk seg k \<longleftrightarrow> (\<exists>m seg'. m \<le> k \<and> mset seg' = mset seg \<and> sorted seg' \<and>
     (\<forall>ls rs w. get_sorted_inplace_numbers clk (int (length ls)) (int (length seg)) (ls @ seg @ rs) w
       = map_option (\<lambda>w'. (ls @ seg' @ rs, w')) (yields clk m w)))"

lemma sortsD:
  assumes "sorts clk seg k"
  obtains m seg' where "m \<le> k" "mset seg' = mset seg" "sorted seg'"
    "\<And>ls rs w. get_sorted_inplace_numbers clk (int (length ls)) (int (length seg)) (ls @ seg @ rs) w
      = map_option (\<lambda>w'. (ls @ seg' @ rs, w')) (yields clk m w)"
  using assms unfolding sorts_def by blast

text \<open>One level of the recursion, when both recursive calls sort.\<close>

lemma sorts_level:
  assumes "2 \<le> length seg"
    and parts: "\<And>as bs. \<lbrakk>mset (as @ last seg # bs) = mset seg; \<forall>x\<in>set as. x \<le> last seg;
      \<forall>x\<in>set bs. last seg < x\<rbrakk> \<Longrightarrow>
      \<exists>j l. sorts clk as j \<and> sorts clk (last seg # bs) l \<and> length seg + j + l \<le> k"
  shows "sorts clk seg k"
proof -
  let ?pv = "last seg"
  have "seg \<noteq> []" using assms(1) by auto
  then obtain as bs where part:
    "\<And>ls rs w. quick_sort_partition clk (int (length ls)) (int (length seg)) (ls @ seg @ rs) w
      = map_option (\<lambda>w'. (int (length as), ls @ as @ ?pv # bs @ rs, w')) (yields clk (length seg) w)"
    "mset (as @ ?pv # bs) = mset seg" "\<forall>x\<in>set as. x \<le> ?pv" "\<forall>x\<in>set bs. ?pv < x"
    using quick_sort_partition_spec [of seg clk] by blast
  obtain j l where jl: "sorts clk as j" "sorts clk (?pv # bs) l" "length seg + j + l \<le> k"
    using parts [OF part(2-4)] by blast
  obtain m1 as' where as': "m1 \<le> j" "mset as' = mset as" "sorted as'"
    "\<And>ls rs w. get_sorted_inplace_numbers clk (int (length ls)) (int (length as)) (ls @ as @ rs) w
      = map_option (\<lambda>w'. (ls @ as' @ rs, w')) (yields clk m1 w)" using sortsD [OF jl(1)] by blast
  obtain m2 bs' where bs': "m2 \<le> l" "mset bs' = mset (?pv # bs)" "sorted bs'"
    "\<And>ls rs w. get_sorted_inplace_numbers clk (int (length ls)) (int (length (?pv # bs))) (ls @ (?pv # bs) @ rs) w
      = map_option (\<lambda>w'. (ls @ bs' @ rs, w')) (yields clk m2 w)" using sortsD [OF jl(2)] by blast
  have len: "length as' = length as" "length seg = length as + Suc (length bs)"
    using as'(2) part(2) by (metis size_mset, metis size_mset length_append length_Cons)
  have run: "get_sorted_inplace_numbers clk (int (length ls)) (int (length seg)) (ls @ seg @ rs) w
      = map_option (\<lambda>w'. (ls @ (as' @ bs') @ rs, w')) (yields clk (length seg + (m1 + m2)) w)" for ls rs w
  proof -
    have left: "get_sorted_inplace_numbers clk (int (length ls)) (int (length as)) (ls @ as @ ?pv # bs @ rs) w
        = map_option (\<lambda>w'. (ls @ as' @ ?pv # bs @ rs, w')) (yields clk m1 w)" for w
      using as'(4) [of ls "?pv # bs @ rs" w] by simp
    have right: "get_sorted_inplace_numbers clk (int (length ls) + int (length as)) (int (length seg) - int (length as))
        (ls @ as' @ ?pv # bs @ rs) w = map_option (\<lambda>w'. (ls @ as' @ bs' @ rs, w')) (yields clk m2 w)" for w
      using bs'(4) [of "ls @ as'" rs w] len by simp
    show ?thesis
      unfolding get_sorted_inplace_numbers.simps [of clk _ "int (length seg)"] yields_add
      using assms(1) part(1) [of ls rs w] left right
      by (auto split: bind_splits simp: bind_eq_None_conv bind_eq_Some_conv)
  qed
  have "mset (as' @ bs') = mset seg" using as'(2) bs'(2) part(2) by simp
  moreover have "sorted (as' @ bs')"
  proof -
    have "set as' = set as" "set bs' = insert ?pv (set bs)"
      using as'(2) bs'(2) by (metis set_mset_mset, metis set_mset_mset list.set(2))
    then show ?thesis using as'(3) bs'(3) part(3,4) by (fastforce simp: sorted_append)
  qed
  moreover have "length seg + (m1 + m2) \<le> k" using as'(1) bs'(1) jl(3) by simp
  ultimately show ?thesis unfolding sorts_def using run by blast
qed

lemma sorts_short: "length seg \<le> 1 \<Longrightarrow> sorts clk seg 0"
  unfolding sorts_def
  by (intro exI [of _ 0] exI [of _ seg], cases seg) (auto simp: get_sorted_inplace_numbers.simps)

lemma mset_split_length: "mset (as @ x # bs) = mset seg \<Longrightarrow> length as + length bs + 1 = length seg"
  by (metis (no_types, lifting) Suc_eq_plus1 add_Suc_right length_Cons length_append size_mset)

text \<open>How often it yields at most, for n numbers.\<close>

definition max_yields :: "nat \<Rightarrow> nat" where
  "max_yields n = n * n + n - 2"

lemma max_yields_split:
  assumes "0 < a" "0 < b"
  shows "(a + b) + max_yields a + max_yields b \<le> (a + b) * (a + b) - 2"
proof -
  obtain c d where "a = Suc c" "b = Suc d" using assms gr0_implies_Suc by blast
  then show ?thesis by (simp add: max_yields_def algebra_simps)
qed

text \<open>
  The right part is shorter when some element besides the pivot is not above it; otherwise the
  pivot is the strict minimum, moves to the front, and the right part has a larger last element,
  so that the next level does shrink.
\<close>

lemma sorts_parts:
  assumes "\<And>s. length s < length seg \<Longrightarrow> sorts clk s (max_yields (length s))"
    and part: "mset (as @ last seg # bs) = mset seg" and "as \<noteq> []"
  shows "\<exists>j l. sorts clk as j \<and> sorts clk (last seg # bs) l \<and> length seg + j + l \<le> length seg * length seg - 2"
proof -
  have len: "length as + length (last seg # bs) = length seg" "0 < length as"
    using mset_split_length [OF part] assms(3) by simp_all
  then have "length as < length seg" by simp
  moreover have "length (last seg # bs) < length seg" using len by linarith
  ultimately have "length as < length seg" "length (last seg # bs) < length seg" .
  then show ?thesis using assms(1) max_yields_split [of "length as" "length (last seg # bs)"] len by fastforce
qed

lemma sorts_if_front:
  assumes "\<And>s. length s < length seg \<Longrightarrow> sorts clk s (max_yields (length s))" "2 \<le> length seg"
    and front: "seg = x # xs" "x \<le> last seg"
  shows "sorts clk seg (length seg * length seg - 2)"
proof (rule sorts_level [OF assms(2)])
  fix as bs
  assume part: "mset (as @ last seg # bs) = mset seg" "\<forall>x\<in>set bs. last seg < x"
  have "as \<noteq> []"
  proof
    assume "as = []"
    moreover have "seg = x # butlast xs @ [last seg]" using assms(2) front(1) by (cases xs) auto
    then have "mset seg = add_mset (last seg) (add_mset x (mset (butlast xs)))"
      by (metis add_mset_commute mset.simps(2) mset_append mset_single_iff_right union_mset_add_mset_right
          add.right_neutral mset.simps(1))
    ultimately have "mset bs = add_mset x (mset (butlast xs))" using part(1) by simp
    then have "x \<in> set bs" by (metis set_mset_mset union_single_eq_member)
    then show False using part(2) front(2) by auto
  qed
  then show "\<exists>j l. sorts clk as j \<and> sorts clk (last seg # bs) l \<and> length seg + j + l \<le> length seg * length seg - 2"
    using sorts_parts [OF assms(1) part(1)] by blast
qed

lemma sorts_all: "sorts clk seg (max_yields (length seg))"
proof (induction "length seg" arbitrary: seg rule: less_induct)
  case less
  show ?case
  proof (cases "length seg \<le> 1")
    case True
    then have "max_yields (length seg) = 0" by (cases seg) (auto simp: max_yields_def)
    then show ?thesis using sorts_short [OF True] by simp
  next
    case False
    show ?thesis
    proof (rule sorts_level)
      show "2 \<le> length seg" using False by simp
      fix as bs
      assume part: "mset (as @ last seg # bs) = mset seg" "\<forall>x\<in>set bs. last seg < x"
      note len = mset_split_length [OF part(1)]
      show "\<exists>j l. sorts clk as j \<and> sorts clk (last seg # bs) l \<and> length seg + j + l \<le> max_yields (length seg)"
      proof (cases "as = []")
        case False
        then show ?thesis using sorts_parts [OF less part(1)] by (fastforce simp: max_yields_def)
      next
        case True
        then have bs: "length (last seg # bs) = length seg" "bs \<noteq> []"
          using len \<open>\<not> length seg \<le> 1\<close> by auto
        then have "last bs \<in> set bs" by simp
        then have "last seg \<le> last (last seg # bs)" using part(2) bs(2) by (simp add: less_imp_le)
        then have "sorts clk (last seg # bs) (length seg * length seg - 2)"
          using bs \<open>\<not> length seg \<le> 1\<close> sorts_if_front [of "last seg # bs" clk "last seg" bs] less by simp
        moreover have "sorts clk as 0" using True sorts_short by simp
        moreover have "length seg + 0 + (length seg * length seg - 2) \<le> max_yields (length seg)"
        proof -
          have "2 * 2 \<le> length seg * length seg" using \<open>\<not> length seg \<le> 1\<close> by (intro mult_le_mono) simp_all
          then show ?thesis by (simp add: max_yields_def)
        qed
        ultimately show ?thesis by blast
      qed
    qed
  qed
qed

section \<open>What every yield keeps, the sort keeps\<close>

lemma partition_loop_world:
  assumes "\<And>w v. good w \<Longrightarrow> coro_yield_with_respect_to_quantum clk w = Some v \<Longrightarrow> good v"
  shows "partition_loop clk base n pv i p numbers w = Some (p', numbers', w') \<Longrightarrow> good w \<Longrightarrow> good w'"
proof (induction "nat (n - i)" arbitrary: i p numbers w)
  case 0
  then show ?case by (subst (asm) partition_loop.simps) simp
next
  case (Suc d)
  obtain numbers1 p1 v where y: "coro_yield_with_respect_to_quantum clk w = Some v"
    "partition_loop clk base n pv (i + 1) p1 numbers1 v = Some (p', numbers', w')"
    using Suc.hyps(2) Suc.prems(1) [unfolded partition_loop.simps [of clk base n pv i]]
    by (auto simp: bind_eq_Some_conv split: if_splits)
  have "d = nat (n - (i + 1))" using Suc.hyps(2) by simp
  then show ?case using Suc.hyps(1) assms [OF Suc.prems(2) y(1)] y(2) by blast
qed

lemma sort_world:
  assumes "get_sorted_inplace_numbers clk base n numbers w = Some r"
    and keep: "\<And>w v. good w \<Longrightarrow> coro_yield_with_respect_to_quantum clk w = Some v \<Longrightarrow> good v" and "good w"
  shows "good (snd r)"
proof -
  have "(\<forall>w v. good w \<longrightarrow> coro_yield_with_respect_to_quantum clk w = Some v \<longrightarrow> good v) \<longrightarrow> good w \<longrightarrow> good (snd r)"
  proof (rule get_sorted_inplace_numbers.raw_induct [OF _ assms(1)])
    fix sort clk base n numbers w r
    assume IH: "\<And>clk base n numbers w r. sort clk base n numbers w = Some r \<Longrightarrow>
        (\<forall>w v. good w \<longrightarrow> coro_yield_with_respect_to_quantum clk w = Some v \<longrightarrow> good v) \<longrightarrow> good w \<longrightarrow> good (snd r)"
      and run: "(if n \<le> 1 then Some (numbers, w)
        else do {
          (pivot_index, numbers, w) \<leftarrow> quick_sort_partition clk base n numbers w;
          (numbers, w) \<leftarrow> sort clk base pivot_index numbers w;
          sort clk (base + pivot_index) (n - pivot_index) numbers w }) = Some r"
    show "(\<forall>w v. good w \<longrightarrow> coro_yield_with_respect_to_quantum clk w = Some v \<longrightarrow> good v) \<longrightarrow> good w \<longrightarrow> good (snd r)"
    proof (intro impI)
      assume k: "\<forall>w v. good w \<longrightarrow> coro_yield_with_respect_to_quantum clk w = Some v \<longrightarrow> good v" and g: "good w"
      show "good (snd r)"
      proof (cases "n \<le> 1")
        case False
        then obtain p numbers1 w1 numbers2 w2 where
          part: "quick_sort_partition clk base n numbers w = Some (p, numbers1, w1)" and
          rec: "sort clk base p numbers1 w1 = Some (numbers2, w2)"
            "sort clk (base + p) (n - p) numbers2 w2 = Some r"
          using run by (auto simp: bind_eq_Some_conv)
        obtain pv p' where "partition_loop clk base n pv 0 0 numbers w = Some (p', numbers1, w1)"
          using part by (auto simp: quick_sort_partition_def bind_eq_Some_conv)
        then have "good w1" using partition_loop_world [of good clk base n pv 0 0 numbers w] k g by blast
        then have "good w2" using IH [OF rec(1)] k by simp
        then show ?thesis using IH [OF rec(2)] k by simp
      qed (use run g in auto)
    qed
  qed
  then show ?thesis using keep assms(3) by blast
qed

lemma sort_spec:
  "\<exists>m ys. m \<le> max_yields (length seg) \<and> mset ys = mset seg \<and> sorted ys \<and>
    (\<forall>ls rs w. get_sorted_inplace_numbers clk (int (length ls)) (int (length seg)) (ls @ seg @ rs) w
      = map_option (\<lambda>w'. (ls @ ys @ rs, w')) (yields clk m w))"
  using sorts_all [of clk seg] unfolding sorts_def .

text \<open>With room for its yields in the counter, the sort is defined.\<close>

lemma sort_defined:
  assumes "clock_ok clk" "world_ok clk w" "0 \<le> context_switch_count (wctx w)"
    "context_switch_count (wctx w) + int (max_yields (length seg)) < 2 ^ 31"
  obtains ys w' where "mset ys = mset seg" "sorted ys"
    "\<And>ls rs. get_sorted_inplace_numbers clk (int (length ls)) (int (length seg)) (ls @ seg @ rs) w = Some (ls @ ys @ rs, w')"
    "world_ok clk w'" "context_switch_count (wctx w) \<le> context_switch_count (wctx w')"
    "context_switch_count (wctx w') \<le> context_switch_count (wctx w) + int (max_yields (length seg))"
proof -
  obtain m ys where m: "m \<le> max_yields (length seg)" "mset ys = mset seg" "sorted ys"
    "\<And>ls rs w. get_sorted_inplace_numbers clk (int (length ls)) (int (length seg)) (ls @ seg @ rs) w
      = map_option (\<lambda>w'. (ls @ ys @ rs, w')) (yields clk m w)" using sort_spec [of seg clk] by blast
  obtain w' where w': "yields clk m w = Some w'" "world_ok clk w'"
    "context_switch_count (wctx w) \<le> context_switch_count (wctx w')"
    "context_switch_count (wctx w') \<le> context_switch_count (wctx w) + int m"
    using yields_defined [OF assms(1-3), of m] assms(4) m(1) by auto
  show ?thesis by (rule that [of ys w']) (use m w' in auto)
qed

text \<open>A clock that stands still and a fresh context, for concrete runs.\<close>

definition zero_time :: timespec where
  "zero_time = \<lparr>tv_sec = 0, tv_nsec = 0\<rparr>"

definition idle_world :: coro_world where
  "idle_world = \<lparr>wctx = \<lparr>ctx_name = ''coro_0'', context_switch_count = 0, start_timespec = zero_time,
     quantum_soft_limit = zero_time, time_working = zero_time\<rparr>, reads = 0\<rparr>"

section \<open>Properties\<close>

lemma idle_ok: "clock_ok (\<lambda>_. zero_time)" "world_ok (\<lambda>_. zero_time) idle_world" "context_switch_count (wctx idle_world) = 0"
  by (simp_all add: clock_ok_def world_ok_def idle_world_def zero_time_def ts_small_def ts_norm_def nsec_in_sec_def)

text \<open>C4: The in-place quicksort, on any segment of any array. Whatever the clock, what it returns is the array with
  the segment replaced by its sorted permutation and nothing else changed. And it does return, never leaving the
  array, when the counter of switches has room for the n * n + n - 2 yields that n numbers take at most and the
  clock does not go back and shows less than 2^31 seconds; without such room the counter can overflow.\<close>

theorem quicksort_correct:
  "\<exists>ys. mset ys = mset seg \<and> sorted ys \<and>
    (\<forall>ls rs w r. get_sorted_inplace_numbers clk (int (length ls)) (int (length seg)) (ls @ seg @ rs) w = Some r \<longrightarrow>
       fst r = ls @ ys @ rs) \<and>
    (\<forall>ls rs w. clock_ok clk \<longrightarrow> world_ok clk w \<longrightarrow> 0 \<le> context_switch_count (wctx w) \<longrightarrow>
       context_switch_count (wctx w) + int (max_yields (length seg)) < 2 ^ 31 \<longrightarrow>
       get_sorted_inplace_numbers clk (int (length ls)) (int (length seg)) (ls @ seg @ rs) w \<noteq> None)"
proof -
  obtain m ys where m: "m \<le> max_yields (length seg)" "mset ys = mset seg" "sorted ys"
    "\<And>ls rs w. get_sorted_inplace_numbers clk (int (length ls)) (int (length seg)) (ls @ seg @ rs) w
      = map_option (\<lambda>w'. (ls @ ys @ rs, w')) (yields clk m w)" using sort_spec [of seg clk] by blast
  have "yields clk m w \<noteq> None" if "clock_ok clk" "world_ok clk w" "0 \<le> context_switch_count (wctx w)"
    "context_switch_count (wctx w) + int (max_yields (length seg)) < 2 ^ 31" for w
    using yields_defined [OF that(1-3), of m] that(4) m(1) by auto
  with m show ?thesis by auto
qed

theorem quicksort_correct_witness:
  "\<exists>w'. get_sorted_inplace_numbers (\<lambda>_. zero_time) 1 3 [9, 5, 4, 7, 1] idle_world = Some ([9, 4, 5, 7, 1], w')"
proof -
  note q = quicksort_correct [of "[5, 4, 7]" "\<lambda>_. zero_time"]
  obtain ys where ys: "mset ys = mset [5, 4, 7 :: int]" "sorted ys" and run:
    "\<And>ls rs w r. get_sorted_inplace_numbers (\<lambda>_. zero_time) (int (length ls)) (int (length [5, 4, 7 :: int])) (ls @ [5, 4, 7] @ rs) w = Some r \<Longrightarrow>
       fst r = ls @ ys @ rs" and
    total: "\<And>ls rs w. clock_ok (\<lambda>_. zero_time) \<Longrightarrow> world_ok (\<lambda>_. zero_time) w \<Longrightarrow> 0 \<le> context_switch_count (wctx w) \<Longrightarrow>
       context_switch_count (wctx w) + int (max_yields (length [5, 4, 7 :: int])) < 2 ^ 31 \<Longrightarrow>
       get_sorted_inplace_numbers (\<lambda>_. zero_time) (int (length ls)) (int (length [5, 4, 7 :: int])) (ls @ [5, 4, 7] @ rs) w \<noteq> None"
    using q by blast
  have defined: "get_sorted_inplace_numbers (\<lambda>_. zero_time) 1 3 [9, 5, 4, 7, 1] idle_world \<noteq> None"
    using total [OF idle_ok(1,2), of "[9]" "[1]"] idle_ok(3) by (simp add: max_yields_def)
  have "ys = [4, 5, 7]"
    using properties_for_sort [of ys "[5, 4, 7]"] ys by simp
  then show ?thesis using run [of "[9]" "[1]" idle_world] defined by auto
qed

text \<open>The partition puts the last element of the segment at the index it returns, with nothing
  larger before it and only larger numbers after it; it yields once for each number.\<close>

theorem partition_correct:
  assumes "seg \<noteq> []"
  shows "\<exists>as bs. quick_sort_partition clk (int (length ls)) (int (length seg)) (ls @ seg @ rs) w
      = map_option (\<lambda>w'. (int (length as), ls @ as @ last seg # bs @ rs, w')) (yields clk (length seg) w) \<and>
    mset (as @ last seg # bs) = mset seg \<and> (\<forall>x\<in>set as. x \<le> last seg) \<and> (\<forall>x\<in>set bs. last seg < x)"
  using quick_sort_partition_spec [OF assms, of clk] by metis

theorem partition_correct_witness:
  "\<exists>as bs w'. quick_sort_partition (\<lambda>_. zero_time) 0 3 [5, 9, 7] idle_world = Some (int (length as), as @ 7 # bs, w') \<and>
     mset (as @ 7 # bs) = mset [5, 9, 7] \<and> (\<forall>x\<in>set as. x \<le> 7) \<and> (\<forall>x\<in>set bs. 7 < x)"
proof -
  obtain w' where "yields (\<lambda>_. zero_time) 3 idle_world = Some w'"
    using yields_defined [OF idle_ok(1,2), of 3] idle_ok(3) by auto
  then have "yields (\<lambda>_. zero_time) (length [5, 9, 7 :: int]) idle_world = Some w'" by (simp only: list.size numeral_3_eq_3 add_Suc_right add_0_right One_nat_def)
  with partition_correct [of "[5, 9, 7]" "\<lambda>_. zero_time" "[]" "[]" idle_world] show ?thesis by force
qed

text \<open>With a clock that gives normalised times, the accounting of a coroutine stays right during
  a whole sort: every switch it counted was preceded by a run of at least its quantum, so its
  working time is at least the number of switches times the quantum.\<close>

theorem quantum_accounting:
  assumes "\<And>n. ts_norm (clk n)" "ctx_accounted (wctx w)"
    "get_sorted_inplace_numbers clk base n numbers w = Some (numbers', w')"
  shows "ctx_accounted (wctx w') \<and> quantum_soft_limit (wctx w') = quantum_soft_limit (wctx w)"
proof -
  have "ctx_accounted (wctx (snd (numbers', w'))) \<and> quantum_soft_limit (wctx (snd (numbers', w'))) = quantum_soft_limit (wctx w)"
    by (rule sort_world [OF assms(3)]) (use yield_accounted [OF assms(1)] yield_quantum_kept assms(2) in auto)
  then show ?thesis by simp
qed

theorem quantum_accounting_witness:
  "\<exists>numbers' w'. get_sorted_inplace_numbers (\<lambda>_. zero_time) 0 2 [2, 1] idle_world = Some (numbers', w') \<and>
    ctx_accounted (wctx w')"
proof -
  obtain ys w' where "\<And>ls rs. get_sorted_inplace_numbers (\<lambda>_. zero_time) (int (length ls)) (int (length [2, 1 :: int])) (ls @ [2, 1] @ rs) idle_world = Some (ls @ ys @ rs, w')"
    by (rule sort_defined [OF idle_ok(1,2), of "[2, 1]"]) (use idle_ok(3) in \<open>simp_all add: max_yields_def\<close>)
  from this [of "[]" "[]"] have r: "get_sorted_inplace_numbers (\<lambda>_. zero_time) 0 2 [2, 1] idle_world = Some (ys, w')" by simp
  have "ts_norm zero_time" "ctx_accounted (wctx idle_world)"
    by (simp_all add: zero_time_def idle_world_def ts_norm_def nsec_in_sec_def ctx_accounted_def ts_nanos_def)
  then show ?thesis using quantum_accounting [OF _ _ r] r by blast
qed

text \<open>A sorted array of 65537 numbers needs more yields than an int counts; once the counter is at its largest value the
  next yield that counts a switch is undefined.\<close>

theorem switch_counter_overflows:
  assumes "context_switch_count (wctx w) = 2 ^ 31 - 1" "diff_timespec (clk (reads w)) (start_timespec (wctx w)) = Some d"
    "gte_timespec d (quantum_soft_limit (wctx w))"
  shows "coro_yield_with_respect_to_quantum clk w = None"
  using assms by (simp add: coro_yield_with_respect_to_quantum_def clock_gettime_def int_ok_def c_int_def)

theorem switch_counter_overflows_witness:
  "coro_yield_with_respect_to_quantum (\<lambda>_. zero_time)
     (idle_world\<lparr>wctx := (wctx idle_world)\<lparr>context_switch_count := 2147483647\<rparr>\<rparr>) = None"
  by (rule switch_counter_overflows [of _ _ zero_time])
    (simp_all add: idle_world_def zero_time_def diff_timespec_def long_ok_def gte_timespec_def)

end
