(* ===== verification/File_Merge.thy ===== *)
theory File_Merge
  imports File_Sort
begin

text \<open>
  The shared file queue of 1/solution.c and the k-way merge of the sorted files (lines 197 to
  325): reading a file's numbers with fscanf, the queue and its constructor, and the merge loop
  with one cursor per file.
\<close>

section \<open>Reading the numbers of a file\<close>

definition is_space :: "char \<Rightarrow> bool" where
  "is_space c \<longleftrightarrow> c \<in> {CHR '' '', CHR 0x09, CHR 0x0A, CHR 0x0B, CHR 0x0C, CHR 0x0D}"

definition is_digit :: "char \<Rightarrow> bool" where
  "is_digit c \<longleftrightarrow> 48 \<le> (of_char c :: nat) \<and> (of_char c :: nat) \<le> 57"

definition digit_val :: "char \<Rightarrow> int" where
  "digit_val c = int (of_char c) - 48"

definition digits_val :: "string \<Rightarrow> int" where
  "digits_val ds = foldl (\<lambda>n d. 10 * n + digit_val d) 0 ds"

text \<open>
  One fscanf(fp, "%d", ...): the white space before the number, an optional sign, the digits. The
  inner None is a matching failure or the end of the file, the outer None the undefined behaviour
  of a number that does not fit an int. The string returned is the rest of the file.
\<close>

definition fscanf_d :: "string \<Rightarrow> (int \<times> string) option option" where
  "fscanf_d s =
     (let s1 = dropWhile is_space s;
          neg = (s1 \<noteq> [] \<and> hd s1 = CHR ''-'');
          s2 = (if s1 \<noteq> [] \<and> (hd s1 = CHR ''-'' \<or> hd s1 = CHR ''+'') then tl s1 else s1);
          ds = takeWhile is_digit s2;
          v = (if neg then - digits_val ds else digits_val ds)
      in if ds = [] then Some None
         else if int_ok v then Some (Some (v, dropWhile is_digit s2))
         else None)"

lemma fscanf_d_shrinks: "fscanf_d s = Some (Some (v, rest)) \<Longrightarrow> length rest < length s"
proof -
  assume r: "fscanf_d s = Some (Some (v, rest))"
  define s1 where "s1 = dropWhile is_space s"
  define s2 where "s2 = (if s1 \<noteq> [] \<and> (hd s1 = CHR ''-'' \<or> hd s1 = CHR ''+'') then tl s1 else s1)"
  have "takeWhile is_digit s2 \<noteq> []" "rest = dropWhile is_digit s2"
    using r by (auto simp: fscanf_d_def Let_def s1_def s2_def split: if_splits)
  then have "length rest < length s2"
    by (metis length_0_conv length_append less_add_same_cancel2 not_gr_zero takeWhile_dropWhile_id)
  also have "length s2 \<le> length s1" by (simp add: s2_def)
  also have "length s1 \<le> length s" by (simp add: s1_def length_dropWhile_le)
  finally show ?thesis .
qed

text \<open>The loop of count_numbers_in_file, on the content of the file.\<close>

function count_numbers_loop :: "string \<Rightarrow> int \<Rightarrow> int option" where
  "count_numbers_loop content count' =
     (case fscanf_d content of
        None \<Rightarrow> None
      | Some None \<Rightarrow> Some count'
      | Some (Some (_, rest)) \<Rightarrow> if int_ok (count' + 1) then count_numbers_loop rest (count' + 1) else None)"
  by pat_completeness auto
termination
  by (relation "measure (\<lambda>(s, _). length s)") (auto dest: fscanf_d_shrinks)

declare count_numbers_loop.simps [simp del]

definition count_numbers_in_file :: "string \<Rightarrow> int option" where
  "count_numbers_in_file content = count_numbers_loop content 0"

text \<open>
  The loop of get_numbers_in_file: fscanf stores into array[number_ptr] only when it matched a
  number, and the pointer, an int, is advanced either way.
\<close>

function get_numbers_loop :: "string \<Rightarrow> int \<Rightarrow> int list \<Rightarrow> int list option" where
  "get_numbers_loop content number_ptr array =
     (if \<not> int_ok (number_ptr + 1) then None
      else case fscanf_d content of
        None \<Rightarrow> None
      | Some None \<Rightarrow> Some array
      | Some (Some (v, rest)) \<Rightarrow>
          (case cset array number_ptr v of
             None \<Rightarrow> None
           | Some array' \<Rightarrow> get_numbers_loop rest (number_ptr + 1) array'))"
  by pat_completeness auto
termination
  by (relation "measure (\<lambda>(s, _, _). length s)") (auto dest: fscanf_d_shrinks)

declare get_numbers_loop.simps [simp del]

definition get_numbers_in_file :: "(nat \<Rightarrow> int) \<Rightarrow> string \<Rightarrow> int \<Rightarrow> int list option" where
  "get_numbers_in_file uninitialised content count' =
     get_numbers_loop content 0 (map uninitialised [0..<nat count'])"

text \<open>The numbers of a file, as a specification: what fscanf reads until it fails.\<close>

function scan_numbers :: "string \<Rightarrow> int list option" where
  "scan_numbers content =
     (case fscanf_d content of
        None \<Rightarrow> None
      | Some None \<Rightarrow> Some []
      | Some (Some (v, rest)) \<Rightarrow> map_option ((#) v) (scan_numbers rest))"
  by pat_completeness auto
termination
  by (relation "measure length") (auto dest: fscanf_d_shrinks)

declare scan_numbers.simps [simp del]

lemma count_numbers_loop_scan:
  "0 \<le> n \<Longrightarrow> int_ok n \<Longrightarrow> count_numbers_loop content n =
     Option.bind (scan_numbers content) (\<lambda>vs. c_int (n + int (length vs)))"
proof (induction content n rule: count_numbers_loop.induct)
  case (1 content n)
  show ?case
  proof (cases "fscanf_d content")
    case None
    then show ?thesis by (simp add: count_numbers_loop.simps [of content] scan_numbers.simps [of content])
  next
    case (Some r)
    show ?thesis
    proof (cases r)
      case None
      then show ?thesis
        using Some "1.prems" by (simp add: count_numbers_loop.simps [of content] scan_numbers.simps [of content])
    next
      case (Some q)
      obtain v rest where f: "fscanf_d content = Some (Some (v, rest))"
        using Some \<open>fscanf_d content = Some r\<close> by (cases q) simp
      show ?thesis
      proof (cases "int_ok (n + 1)")
        case True
        then show ?thesis
          using "1.IH" [OF f refl refl True] "1.prems"
          by (simp add: count_numbers_loop.simps [of content] scan_numbers.simps [of content] f map_option_case add.assoc
              split: option.splits)
      next
        case False
        then have "\<not> int_ok (n + (1 + int k))" for k using "1.prems" by (simp add: int_ok_def)
        then show ?thesis
          using False by (cases "scan_numbers rest")
            (simp_all add: count_numbers_loop.simps [of content] scan_numbers.simps [of content] f c_int_def)
      qed
    qed
  qed
qed

lemma count_numbers_scan:
  "count_numbers_in_file content = Option.bind (scan_numbers content) (\<lambda>vs. c_int (int (length vs)))"
  by (simp add: count_numbers_in_file_def count_numbers_loop_scan int_ok_def)

lemma get_numbers_loop_scan:
  "scan_numbers content = Some vs \<Longrightarrow> length vs = length rest \<Longrightarrow> length (done @ rest) + 1 < 2 ^ 31 \<Longrightarrow>
   get_numbers_loop content (int (length done)) (done @ rest) = Some (done @ vs)"
proof (induction content arbitrary: vs "done" rest rule: scan_numbers.induct)
  case (1 content)
  have ok: "int_ok (int (length done) + 1)" using "1.prems"(3) by (simp add: int_ok_def)
  show ?case
  proof (cases "fscanf_d content")
    case None
    with 1 show ?thesis by (subst (asm) scan_numbers.simps) simp
  next
    case (Some r)
    show ?thesis
    proof (cases r)
      case None
      with Some 1 show ?thesis
        by (subst get_numbers_loop.simps) (simp add: scan_numbers.simps [of content] ok)
    next
      case (Some q)
      obtain v s where q: "q = (v, s)" by (cases q)
      with Some \<open>fscanf_d content = Some r\<close> have f: "fscanf_d content = Some (Some (v, s))" by simp
      with 1 obtain vs' where vs: "vs = v # vs'" "scan_numbers s = Some vs'"
        by (auto simp: scan_numbers.simps [of content])
      with 1 obtain y ys where rest: "rest = y # ys" "length vs' = length ys" by (cases rest) auto
      have "get_numbers_loop s (int (length (done @ [v]))) ((done @ [v]) @ ys) = Some ((done @ [v]) @ vs')"
        using "1.IH" [OF f refl refl vs(2) rest(2), of "done @ [v]"] rest(1) "1.prems"(3) by simp
      then show ?thesis
        using f vs rest
        by (subst get_numbers_loop.simps) (use ok in \<open>simp add: cset_middle add.commute\<close>)
    qed
  qed
qed

text \<open>
  The two passes over a file agree: the array is exactly as long as the numbers need and the
  second pass fills it without leaving it (uninitialised is what malloc left in the array).
\<close>

lemma get_numbers_fills:
  assumes "scan_numbers content = Some vs" "length vs + 1 < 2 ^ 31"
  shows "count_numbers_in_file content = Some (int (length vs))"
    and "get_numbers_in_file uninitialised content (int (length vs)) = Some vs"
proof -
  show "count_numbers_in_file content = Some (int (length vs))"
    using assms by (simp add: count_numbers_scan int_ok_def)
  show "get_numbers_in_file uninitialised content (int (length vs)) = Some vs"
    using get_numbers_loop_scan [OF assms(1), of "map uninitialised [0..<length vs]" "[]"] assms(2)
    by (simp add: get_numbers_in_file_def)
qed

lemma numbers_ptr_bound:
  "get_numbers_loop content p array = Some array' \<Longrightarrow> scan_numbers content = Some vs \<Longrightarrow> int_ok (p + int (length vs) + 1)"
proof (induction content arbitrary: vs p array rule: scan_numbers.induct)
  case (1 content)
  have ok: "int_ok (p + 1)" using "1.prems"(1) by (simp add: get_numbers_loop.simps [of content] split: if_splits)
  consider "fscanf_d content = Some None" | v rest where "fscanf_d content = Some (Some (v, rest))"
    using "1.prems"(2) by (auto simp: scan_numbers.simps [of content] split: option.splits)
  then show ?case
  proof cases
    case 1
    then show ?thesis using "1.prems"(2) ok by (simp add: scan_numbers.simps [of content])
  next
    case (2 v rest)
    then obtain us array1 where us: "vs = v # us" "scan_numbers rest = Some us"
      "get_numbers_loop rest (p + 1) array1 = Some array'"
      using "1.prems" ok by (auto simp: scan_numbers.simps [of content] get_numbers_loop.simps [of content] split: option.splits)
    then show ?thesis using "1.IH" [OF 2 refl refl us(3,2)] by (simp add: add.assoc)
  qed
qed

text \<open>When the two passes over a file are defined, they have read its numbers.\<close>

lemma file_read:
  assumes "scan_numbers content = Some vs" "count_numbers_in_file content = Some n"
    "get_numbers_in_file uninitialised content n = Some numbers"
  shows "n = int (length vs)" "numbers = vs"
proof -
  show n: "n = int (length vs)" using assms(1,2) by (simp add: count_numbers_scan)
  have "int_ok (int (length vs) + 1)"
    using numbers_ptr_bound [OF assms(3) [unfolded get_numbers_in_file_def] assms(1)] by simp
  then have "length vs + 1 < 2 ^ 31" by (simp add: int_ok_def)
  then show "numbers = vs" using get_numbers_fills(2) [OF assms(1), of uninitialised] assms(3) n by simp
qed

section \<open>The file queue\<close>

record file_queue =
  file_ptr :: int
  file_count :: int
  file_names :: "string list"
  sorted_files :: "single_sorted_file_data option list"

definition create_file_queue :: "int \<Rightarrow> string list \<Rightarrow> file_queue option" where
  "create_file_queue n names = do {
     copied \<leftarrow> those (map (cget names) [0..n - 1]);
     Some \<lparr>file_ptr = 0, file_count = n, file_names = copied, sorted_files = replicate (nat n) None\<rparr> }"

lemma those_cget:
  fixes names :: "string list"
  shows "n \<le> int (length names) \<Longrightarrow> those (map (cget names) [0..n - 1]) = Some (take (nat n) names)"
proof (induction "nat n" arbitrary: n)
  case 0
  then show ?case by simp
next
  case (Suc k)
  then have n: "n = int (Suc k)" by simp
  have "[0..n - 1] = [0..int k - 1] @ [int k]" using n by (simp add: upto_rec2)
  moreover have "those (map (cget names) [0..int k - 1]) = Some (take k names)"
    using Suc.hyps(1) [of "int k"] Suc.prems n by simp
  moreover have "those (xs @ [x]) = (case those xs of None \<Rightarrow> None | Some ys \<Rightarrow> map_option (\<lambda>y. ys @ [y]) x)"
    for xs and x :: "string option"
    by (induction xs) (auto split: option.splits simp: option.map_comp o_def)
  moreover have "nat n = Suc k" "k < length names" using Suc.prems n by auto
  ultimately show ?case using n by (simp add: take_Suc_conv_app_nth)
qed

section \<open>The merge\<close>

text \<open>
  The for loop that looks for the smallest current number: its state is the number found so far
  (the null pointer is None) and the file it is in.
\<close>

function find_minimum_loop ::
  "file_queue \<Rightarrow> int list \<Rightarrow> int \<Rightarrow> int option \<Rightarrow> int \<Rightarrow> (int option \<times> int) option" where
  "find_minimum_loop q cursors i minimum_number minimum_number_file_ptr =
     (if i < file_count q then do {
        current_number_ptr \<leftarrow> cget cursors i;
        slot \<leftarrow> cget (sorted_files q) i;
        sorted_file \<leftarrow> slot;
        (if number_count sorted_file = current_number_ptr
         then find_minimum_loop q cursors (i + 1) minimum_number minimum_number_file_ptr
         else do {
           current_number \<leftarrow> cget (sorted_numbers sorted_file) current_number_ptr;
           (if minimum_number = None \<or> the minimum_number > current_number
            then find_minimum_loop q cursors (i + 1) (Some current_number) i
            else find_minimum_loop q cursors (i + 1) minimum_number minimum_number_file_ptr) }) }
      else Some (minimum_number, minimum_number_file_ptr))"
  by pat_completeness auto
termination
  by (relation "measure (\<lambda>(q, _, i, _, _). nat (file_count q - i))") auto

declare find_minimum_loop.simps [simp del]

partial_function (option) merge_loop :: "file_queue \<Rightarrow> int list \<Rightarrow> int list \<Rightarrow> int list option" where
  "merge_loop q cursors printed = do {
     (minimum_number, minimum_number_file_ptr) \<leftarrow> find_minimum_loop q cursors 0 None (-1);
     (case minimum_number of
        None \<Rightarrow> Some printed
      | Some m \<Rightarrow> do {
          c \<leftarrow> cget cursors minimum_number_file_ptr;
          cursors' \<leftarrow> cset cursors minimum_number_file_ptr (c + 1);
          merge_loop q cursors' (printed @ [m]) }) }"

definition output_merged_sorted_numbers_to_file :: "file_queue \<Rightarrow> int list option" where
  "output_merged_sorted_numbers_to_file q = merge_loop q (replicate (nat (file_count q)) 0) []"

section \<open>The merge is a sorted permutation\<close>

definition file_data :: "int list \<Rightarrow> single_sorted_file_data" where
  "file_data vs = \<lparr>number_count = int (length vs), sorted_numbers = vs\<rparr>"

definition queue_of :: "int list list \<Rightarrow> file_queue \<Rightarrow> bool" where
  "queue_of vss q \<longleftrightarrow> file_count q = int (length vss) \<and> sorted_files q = map (Some \<circ> file_data) vss"

definition cursors_ok :: "int list list \<Rightarrow> int list \<Rightarrow> bool" where
  "cursors_ok vss cs \<longleftrightarrow> length cs = length vss \<and>
     (\<forall>i < length vss. 0 \<le> cs ! i \<and> cs ! i \<le> int (length (vss ! i)))"

definition rests :: "int list list \<Rightarrow> int list \<Rightarrow> int list list" where
  "rests vss cs = map (\<lambda>i. drop (nat (cs ! i)) (vss ! i)) [0..<length vss]"

lemma rests_nth: "i < length vss \<Longrightarrow> rests vss cs ! i = drop (nat (cs ! i)) (vss ! i)"
  by (simp add: rests_def)

lemma length_rests [simp]: "length (rests vss cs) = length vss"
  by (simp add: rests_def)

text \<open>The state of the search after the first k files.\<close>

definition best_of :: "int list list \<Rightarrow> nat \<Rightarrow> int option \<Rightarrow> int \<Rightarrow> bool" where
  "best_of rss k m j \<longleftrightarrow>
     (case m of
        None \<Rightarrow> \<forall>i<k. rss ! i = []
      | Some v \<Rightarrow> 0 \<le> j \<and> j < int k \<and> rss ! nat j \<noteq> [] \<and> hd (rss ! nat j) = v \<and>
          (\<forall>i<k. rss ! i \<noteq> [] \<longrightarrow> v \<le> hd (rss ! i)))"

lemma best_of_skip: "best_of rss k m j \<Longrightarrow> rss ! k = [] \<Longrightarrow> best_of rss (Suc k) m j"
  by (auto simp: best_of_def less_Suc_eq split: option.splits)

lemma best_of_keep:
  "best_of rss k (Some v) j \<Longrightarrow> v \<le> hd (rss ! k) \<Longrightarrow> best_of rss (Suc k) (Some v) j"
  by (auto simp: best_of_def less_Suc_eq)

lemma best_of_take:
  "best_of rss k m j \<Longrightarrow> rss ! k \<noteq> [] \<Longrightarrow> m = None \<or> hd (rss ! k) < the m \<Longrightarrow>
   best_of rss (Suc k) (Some (hd (rss ! k))) (int k)"
  by (force simp: best_of_def less_Suc_eq split: option.splits)

lemma find_minimum_loop_spec:
  assumes "queue_of vss q" "cursors_ok vss cs" "k \<le> length vss" "best_of (rests vss cs) k m j"
  shows "\<exists>m' j'. find_minimum_loop q cs (int k) m j = Some (m', j') \<and>
    best_of (rests vss cs) (length vss) m' j'"
  using assms(3,4)
proof (induction "length vss - k" arbitrary: k m j)
  case 0
  then show ?case
    using assms(1) by (subst find_minimum_loop.simps) (auto simp: queue_of_def)
next
  case (Suc d)
  then have k: "k < length vss" by simp
  let ?r = "rests vss cs ! k"
  have cur: "0 \<le> cs ! k" "cs ! k \<le> int (length (vss ! k))" "length cs = length vss"
    using assms(2) k by (auto simp: cursors_ok_def)
  have at: "cget cs (int k) = Some (cs ! k)" "cget (sorted_files q) (int k) = Some (Some (file_data (vss ! k)))"
    "int k < file_count q"
    using assms(1) cur k by (auto simp: queue_of_def)
  note IH = Suc.hyps(1) [of "Suc k"]
  have suc: "int k + 1 = int (Suc k)" "d = length vss - Suc k" using Suc.hyps(2) by auto
  show ?case
  proof (cases "?r = []")
    case True
    then have "int (length (vss ! k)) = cs ! k" using cur k by (auto simp: rests_nth)
    then show ?thesis
      using IH [OF suc(2) _ best_of_skip [OF Suc.prems(2) True]] k at
      by (subst find_minimum_loop.simps) (simp add: file_data_def suc)
  next
    case False
    then have lt: "nat (cs ! k) < length (vss ! k)" using k by (simp add: rests_nth)
    then have "int (length (vss ! k)) \<noteq> cs ! k" using cur by linarith
    moreover have "cget (vss ! k) (cs ! k) = Some (hd ?r)"
      using lt cur k by (simp add: cget_def rests_nth hd_drop_conv_nth nat_less_iff)
    ultimately have eq: "find_minimum_loop q cs (int k) m j =
       (if m = None \<or> the m > hd ?r then find_minimum_loop q cs (int (Suc k)) (Some (hd ?r)) (int k)
        else find_minimum_loop q cs (int (Suc k)) m j)"
      using at by (subst find_minimum_loop.simps) (simp add: file_data_def add.commute)
    show ?thesis
    proof (cases "m = None \<or> the m > hd ?r")
      case True
      then show ?thesis
        using IH [OF suc(2) _ best_of_take [OF Suc.prems(2) False True]] k eq by simp
    next
      case F: False
      then obtain v where "m = Some v" "v \<le> hd ?r" by (cases m) auto
      then show ?thesis
        using IH [OF suc(2), of m j] best_of_keep Suc.prems(2) k eq F by simp
    qed
  qed
qed

lemma mset_concat_update:
  "j < length rss \<Longrightarrow> rss ! j = v # r \<Longrightarrow> mset (concat rss) = add_mset v (mset (concat (rss[j := r])))"
proof (induction rss arbitrary: j)
  case (Cons a rss)
  then show ?case by (cases j) auto
qed simp

lemma rests_update:
  assumes "cursors_ok vss cs" "j < length vss" "rests vss cs ! j = v # r"
  shows "rests vss (cs[j := cs ! j + 1]) = (rests vss cs)[j := r]"
    and "cursors_ok vss (cs[j := cs ! j + 1])"
proof -
  have c: "0 \<le> cs ! j" "j < length cs" using assms by (auto simp: cursors_ok_def)
  have d: "drop (nat (cs ! j)) (vss ! j) = v # r" using assms by (simp add: rests_nth)
  have "drop (nat (cs ! j + 1)) (vss ! j) = r"
    using c d by (simp add: nat_add_distrib drop_Suc drop_tl)
  then show "rests vss (cs[j := cs ! j + 1]) = (rests vss cs)[j := r]"
    using assms c by (intro nth_equalityI) (auto simp: rests_nth nth_list_update)
  have "nat (cs ! j) < length (vss ! j)" using d by (metis drop_all list.distinct(1) not_le)
  then show "cursors_ok vss (cs[j := cs ! j + 1])"
    using assms(1) c by (auto simp: cursors_ok_def nth_list_update)
qed

lemma best_of_least:
  assumes "best_of rss (length rss) (Some v) j" "\<forall>rs\<in>set rss. sorted rs" "x \<in> set (concat rss)"
  shows "v \<le> x"
proof -
  obtain i where i: "i < length rss" "x \<in> set (rss ! i)" using assms(3) by (metis UN_E in_set_conv_nth set_concat)
  then have "v \<le> hd (rss ! i)" using assms(1) by (auto simp: best_of_def)
  moreover have "hd (rss ! i) \<le> x"
    using i assms(2) by (cases "rss ! i") (auto dest!: nth_mem)
  ultimately show ?thesis by simp
qed

lemma merge_loop_spec:
  assumes q: "queue_of vss q" and srt: "\<forall>vs\<in>set vss. sorted vs"
    and cs: "cursors_ok vss cs" and printed: "sorted printed"
    and le: "\<forall>x\<in>set printed. \<forall>y\<in>set (concat (rests vss cs)). x \<le> y"
  shows "\<exists>res. merge_loop q cs printed = Some res \<and> sorted res \<and>
    mset res = mset printed + mset (concat (rests vss cs))"
  using cs printed le
proof (induction "length (concat (rests vss cs))" arbitrary: cs printed rule: less_induct)
  case less
  let ?rss = "rests vss cs"
  have rs_sorted: "\<forall>rs\<in>set ?rss. sorted rs"
    using srt by (auto simp: rests_def intro!: sorted_wrt_drop)
  obtain m j where f: "find_minimum_loop q cs (int 0) None (-1) = Some (m, j)"
    and best: "best_of ?rss (length vss) m j"
    using find_minimum_loop_spec [OF q less.prems(1), of 0 None "-1"] by (auto simp: best_of_def)
  show ?case
  proof (cases m)
    case None
    then have "concat ?rss = []" using best by (auto simp: best_of_def in_set_conv_nth)
    then show ?thesis using f None less.prems by (subst merge_loop.simps) simp
  next
    case (Some v)
    then have j: "0 \<le> j" "nat j < length vss" "?rss ! nat j \<noteq> []" "hd (?rss ! nat j) = v"
      using best by (auto simp: best_of_def)
    then obtain r where r: "?rss ! nat j = v # r" by (cases "?rss ! nat j") auto
    define cs' where "cs' = cs[nat j := cs ! nat j + 1]"
    have upd: "rests vss cs' = ?rss[nat j := r]" "cursors_ok vss cs'"
      using rests_update [OF less.prems(1) j(2) r] by (auto simp: cs'_def)
    have ms: "mset (concat ?rss) = add_mset v (mset (concat (rests vss cs')))"
      using mset_concat_update [of "nat j" ?rss v r] j r upd by simp
    have "length cs = length vss" using less.prems(1) by (simp add: cursors_ok_def)
    then have step: "merge_loop q cs printed = merge_loop q cs' (printed @ [v])"
      using f Some j by (subst merge_loop.simps) (simp add: cget_def cset_def cs'_def flip: nat_less_iff)
    have sub: "set (concat (rests vss cs')) \<subseteq> set (concat ?rss)" "v \<in> set (concat ?rss)"
      using ms by (metis set_mset_add_mset_insert set_mset_mset subset_insertI,
        metis set_mset_add_mset_insert set_mset_mset insertI1)
    have v_le: "v \<le> y" if "y \<in> set (concat (rests vss cs'))" for y
      using best_of_least [of ?rss v j y] best Some rs_sorted sub that by auto
    have "length (concat (rests vss cs')) < length (concat ?rss)"
      using ms by (metis lessI size_add_mset size_mset)
    moreover have "sorted (printed @ [v])"
      using less.prems(2,3) sub(2) by (auto simp: sorted_append)
    moreover have "\<forall>x\<in>set (printed @ [v]). \<forall>y\<in>set (concat (rests vss cs')). x \<le> y"
      using v_le less.prems(3) sub(1) by (auto simp: subset_iff)
    ultimately obtain res where "merge_loop q cs' (printed @ [v]) = Some res" "sorted res"
      "mset res = mset (printed @ [v]) + mset (concat (rests vss cs'))"
      using less.hyps upd(2) by blast
    then show ?thesis using step ms by auto
  qed
qed

lemma output_merged_spec:
  assumes "queue_of vss q" "\<forall>vs\<in>set vss. sorted vs"
  shows "\<exists>res. output_merged_sorted_numbers_to_file q = Some res \<and> sorted res \<and>
    mset res = mset (concat vss)"
proof -
  let ?cs = "replicate (nat (file_count q)) (0 :: int)"
  have "cursors_ok vss ?cs" "rests vss ?cs = vss"
    using assms(1) by (auto simp: cursors_ok_def queue_of_def rests_def intro: nth_equalityI)
  then show ?thesis
    using merge_loop_spec [OF assms, of ?cs "[]"]
    by (simp add: output_merged_sorted_numbers_to_file_def)
qed

section \<open>The contract between the sort and the merge\<close>

text \<open>
  The merge relies on one law of the sort: what it returns is a sorted permutation. Files sorted one by one and
  merged then give a sorted permutation of all their numbers. On files that fit the sort is defined.
\<close>

locale file_sorter =
  fixes sort_file :: "int list \<Rightarrow> int list option" and fits :: "int list \<Rightarrow> bool"
  assumes sort_law: "sort_file xs = Some ys \<Longrightarrow> mset ys = mset xs \<and> sorted ys"
    and sort_fits: "fits xs \<Longrightarrow> \<exists>ys. sort_file xs = Some ys"
begin

lemma sort_each: "those (map sort_file xss) = Some yss \<Longrightarrow> map mset yss = map mset xss \<and> (\<forall>ys\<in>set yss. sorted ys)"
  by (induction xss arbitrary: yss) (auto split: option.splits dest: sort_law)

lemma sort_all: "\<forall>xs\<in>set xss. fits xs \<Longrightarrow> \<exists>yss. those (map sort_file xss) = Some yss"
  by (induction xss) (auto dest!: sort_fits)

lemma sort_then_merge:
  assumes "those (map sort_file xss) = Some yss" "queue_of yss q"
  shows "\<exists>res. output_merged_sorted_numbers_to_file q = Some res \<and> sorted res \<and>
    mset res = mset (concat xss)"
proof -
  have ys: "map mset yss = map mset xss" "\<forall>ys\<in>set yss. sorted ys"
    using sort_each [OF assms(1)] by auto
  have "mset (concat yss) = mset (concat xss)"
    using ys(1) by (simp add: mset_concat)
  then show ?thesis using output_merged_spec [OF assms(2) ys(2)] by simp
qed

end

definition quicksorted :: "(nat \<Rightarrow> timespec) \<Rightarrow> coro_world \<Rightarrow> int list \<Rightarrow> int list option" where
  "quicksorted clk w xs =
     map_option (sorted_numbers \<circ> fst) (get_sorted_inplace_file_data clk (int (length xs)) xs w)"

lemma get_sorted_file_data_spec:
  assumes "get_sorted_inplace_file_data clk (int (length xs)) xs w = Some (d, w')"
  shows "\<exists>ys. d = file_data ys \<and> mset ys = mset xs \<and> sorted ys"
proof -
  obtain m ys where ys: "mset ys = mset xs" "sorted ys"
    "\<And>ls rs w. get_sorted_inplace_numbers clk (int (length ls)) (int (length xs)) (ls @ xs @ rs) w
      = map_option (\<lambda>w'. (ls @ ys @ rs, w')) (yields clk m w)"
    using sort_spec [of xs clk] by blast
  have "length ys = length xs" using ys(1) by (metis size_mset)
  then show ?thesis using ys(1,2) ys(3) [of "[]" "[]" w] assms
    by (auto simp: get_sorted_inplace_file_data_def file_data_def bind_eq_Some_conv)
qed

lemma get_sorted_file_data_defined:
  assumes "clock_ok clk" "world_ok clk w" "0 \<le> context_switch_count (wctx w)"
    "context_switch_count (wctx w) + int (max_yields (length xs)) < 2 ^ 31"
  shows "\<exists>d w'. get_sorted_inplace_file_data clk (int (length xs)) xs w = Some (d, w') \<and> world_ok clk w' \<and>
    context_switch_count (wctx w) \<le> context_switch_count (wctx w') \<and>
    context_switch_count (wctx w') \<le> context_switch_count (wctx w) + int (max_yields (length xs))"
proof (rule sort_defined [OF assms])
  fix ys w'
  assume run: "\<And>ls rs. get_sorted_inplace_numbers clk (int (length ls)) (int (length xs)) (ls @ xs @ rs) w = Some (ls @ ys @ rs, w')"
    "world_ok clk w'" "context_switch_count (wctx w) \<le> context_switch_count (wctx w')"
    "context_switch_count (wctx w') \<le> context_switch_count (wctx w) + int (max_yields (length xs))"
  then show ?thesis using run(1) [of "[]" "[]"]
    by (auto simp: get_sorted_inplace_file_data_def)
qed

interpretation quick: file_sorter "quicksorted clk w"
  "\<lambda>xs. clock_ok clk \<and> world_ok clk w \<and> 0 \<le> context_switch_count (wctx w) \<and>
     context_switch_count (wctx w) + int (max_yields (length xs)) < 2 ^ 31" for clk w
proof unfold_locales
  fix xs ys :: "int list"
  assume "quicksorted clk w xs = Some ys"
  then show "mset ys = mset xs \<and> sorted ys"
    using get_sorted_file_data_spec [of clk xs w] by (auto simp: quicksorted_def file_data_def)
next
  fix xs :: "int list"
  assume "clock_ok clk \<and> world_ok clk w \<and> 0 \<le> context_switch_count (wctx w) \<and>
     context_switch_count (wctx w) + int (max_yields (length xs)) < 2 ^ 31"
  then show "\<exists>ys. quicksorted clk w xs = Some ys"
    using get_sorted_file_data_defined [of clk w xs] by (auto simp: quicksorted_def)
qed

section \<open>Properties\<close>

text \<open>Whenever every number of a file fits an int, and so does their count, the two passes over it agree: the count is
  exact and the second pass fills an array of that size with the file's numbers, without
  leaving it and with nothing of the malloced memory left uninitialised.\<close>

theorem file_reading_correct:
  assumes "scan_numbers content = Some vs" "length vs + 1 < 2 ^ 31"
  shows "\<exists>n. count_numbers_in_file content = Some n \<and> n = int (length vs) \<and>
    get_numbers_in_file uninitialised content n = Some vs"
  using get_numbers_fills [OF assms] by simp

theorem file_reading_correct_witness:
  "get_numbers_in_file (\<lambda>_. 77) '' 12 -3'' 2 = Some [12, -3]"
  using file_reading_correct [of "'' 12 -3''" "[12, -3]" "\<lambda>_. 77"]
  by (simp add: scan_numbers.simps fscanf_d_def is_space_def is_digit_def digits_val_def digit_val_def
      int_ok_def Let_def)

text \<open>C6: For sorted files the k-way merge terminates without leaving an array and prints a sorted
  permutation of all their numbers.\<close>

theorem merge_correct:
  assumes "queue_of vss q" "\<forall>vs\<in>set vss. sorted vs"
  shows "\<exists>res. output_merged_sorted_numbers_to_file q = Some res \<and> sorted res \<and>
    mset res = mset (concat vss)"
  by (rule output_merged_spec [OF assms])

theorem merge_correct_witness:
  "\<exists>res. output_merged_sorted_numbers_to_file \<lparr>file_ptr = 2, file_count = 2, file_names = [''a'', ''b''],
      sorted_files = [Some (file_data [1, 5]), Some (file_data [2])]\<rparr> = Some res \<and> sorted res \<and>
    mset res = mset [1, 5, 2]"
  using merge_correct [of "[[1, 5], [2]]" "\<lparr>file_ptr = 2, file_count = 2, file_names = [''a'', ''b''],
      sorted_files = [Some (file_data [1, 5]), Some (file_data [2])]\<rparr>"]
  by (simp add: queue_of_def)

text \<open>Files that are sorted one by one and then merged give a sorted permutation of all their
  numbers, and the merge does not fail.\<close>

theorem sort_and_merge_correct:
  assumes "those (map (quicksorted clk w) xss) = Some yss" "queue_of yss q"
  shows "\<exists>res. output_merged_sorted_numbers_to_file q = Some res \<and> sorted res \<and>
    mset res = mset (concat xss)"
  by (rule quick.sort_then_merge [OF assms])

theorem sort_and_merge_correct_witness:
  "\<exists>yss res. those (map (quicksorted (\<lambda>_. zero_time) idle_world) [[3, 1], [2]]) = Some yss \<and>
    output_merged_sorted_numbers_to_file \<lparr>file_ptr = 2, file_count = 2, file_names = [''a'', ''b''],
      sorted_files = map (Some \<circ> file_data) yss\<rparr> = Some res \<and> mset res = {#1, 2, 3#}"
proof -
  have "\<forall>xs\<in>set [[3, 1], [2]]. clock_ok (\<lambda>_. zero_time) \<and> world_ok (\<lambda>_. zero_time) idle_world \<and>
    0 \<le> context_switch_count (wctx idle_world) \<and> context_switch_count (wctx idle_world) + int (max_yields (length xs)) < 2 ^ 31"
    using idle_ok by (simp add: max_yields_def)
  then obtain yss where yss: "those (map (quicksorted (\<lambda>_. zero_time) idle_world) [[3, 1], [2]]) = Some yss"
    using quick.sort_all by blast
  then have "map mset yss = map mset [[3, 1], [2]]" using quick.sort_each [OF yss] by blast
  then have "length yss = 2" by (metis length_map length_Cons list.size(3) numeral_2_eq_2)
  then show ?thesis
    using sort_and_merge_correct [OF yss, of "\<lparr>file_ptr = 2, file_count = 2,
        file_names = [''a'', ''b''], sorted_files = map (Some \<circ> file_data) yss\<rparr>"] yss
    by (auto simp: queue_of_def add_mset_commute)
qed

text \<open>A file nobody has sorted (a null entry of sorted_files) makes the merge dereference a null
  pointer, if it is the first of the queue.\<close>

theorem merge_of_unsorted_file_undefined:
  assumes "file_count q > 0" "sorted_files q = None # rest"
  shows "output_merged_sorted_numbers_to_file q = None"
proof -
  have "find_minimum_loop q (replicate (nat (file_count q)) 0) 0 None (-1) = None"
    using assms by (subst find_minimum_loop.simps) (simp add: cget_def)
  then show ?thesis
    by (simp add: output_merged_sorted_numbers_to_file_def merge_loop.simps)
qed

theorem merge_of_unsorted_file_undefined_witness:
  "output_merged_sorted_numbers_to_file \<lparr>file_ptr = 0, file_count = 1, file_names = [''a''],
     sorted_files = [None]\<rparr> = None"
  using merge_of_unsorted_file_undefined [of "\<lparr>file_ptr = 0, file_count = 1, file_names = [''a''],
     sorted_files = [None]\<rparr>" "[]"] by simp

end
