(* ===== verification/File_Workers.thy ===== *)
theory File_Workers
  imports File_Merge
begin

text \<open>
  The coroutines of 1/solution.c (coroutine_func_f, main): every coroutine takes the next file of
  the shared queue, reads it, sorts it and stores the result, until no file is left. The sort
  yields inside its loops, so the coroutines interleave; a step here is the code one coroutine
  runs from one interesting point to the next, and any coroutine may move next.
\<close>

section \<open>State\<close>

datatype worker_pc = Starting | Looking | Sorting int | Finished

record sorter_sys =
  shared_file_queue :: file_queue
  worker_pcs :: "worker_pc list"
  worker_worlds :: "coro_world list"

section \<open>The body of a coroutine\<close>

definition sort_one_file ::
  "(nat \<Rightarrow> timespec) \<Rightarrow> (nat \<Rightarrow> int) \<Rightarrow> string \<Rightarrow> coro_world \<Rightarrow> (single_sorted_file_data \<times> coro_world) option" where
  "sort_one_file clk uninitialised content w = do {
     n \<leftarrow> count_numbers_in_file content;
     numbers \<leftarrow> get_numbers_in_file uninitialised content n;
     get_sorted_inplace_file_data clk n numbers w }"

definition start_coroutine :: "(nat \<Rightarrow> timespec) \<Rightarrow> coro_world \<Rightarrow> coro_world" where
  "start_coroutine clk w =
     (let (now, w) = clock_gettime clk w in w\<lparr>wctx := (wctx w)\<lparr>start_timespec := now\<rparr>\<rparr>)"

text \<open>The end of coroutine_func_f; the time worked is converted for the message it prints.\<close>

definition finish_coroutine :: "(nat \<Rightarrow> timespec) \<Rightarrow> coro_world \<Rightarrow> coro_world option" where
  "finish_coroutine clk w =
     (let (now, w) = clock_gettime clk w; context = wctx w in do {
        last_diff \<leftarrow> diff_timespec now (start_timespec context);
        working \<leftarrow> add_timespec (time_working context) last_diff;
        microseconds \<leftarrow> timespec_to_microseconds working;
        Some (w\<lparr>wctx := context\<lparr>time_working := working\<rparr>\<rparr>) })"

text \<open>
  The move of coroutine c. The contents of a file are found by its index, as its name was stored
  by index; clk c is what coroutine c reads from the clock.
\<close>

definition coroutine_func_f ::
  "(nat \<Rightarrow> nat \<Rightarrow> timespec) \<Rightarrow> (nat \<Rightarrow> int) \<Rightarrow> string list \<Rightarrow> nat \<Rightarrow> sorter_sys \<Rightarrow> sorter_sys option" where
  "coroutine_func_f clk uninitialised contents c s =
     (let q = shared_file_queue s; w = worker_worlds s ! c in
      if length (worker_pcs s) \<le> c then None
      else case worker_pcs s ! c of
        Starting \<Rightarrow>
          Some (s\<lparr>worker_pcs := (worker_pcs s)[c := Looking],
                  worker_worlds := (worker_worlds s)[c := start_coroutine (clk c) w]\<rparr>)
      | Looking \<Rightarrow>
          (if file_ptr q < file_count q
           then Some (s\<lparr>shared_file_queue := q\<lparr>file_ptr := file_ptr q + 1\<rparr>,
                        worker_pcs := (worker_pcs s)[c := Sorting (file_ptr q)]\<rparr>)
           else do {
             w \<leftarrow> finish_coroutine (clk c) w;
             Some (s\<lparr>worker_pcs := (worker_pcs s)[c := Finished],
                     worker_worlds := (worker_worlds s)[c := w]\<rparr>) })
      | Sorting i \<Rightarrow> do {
          content \<leftarrow> cget contents i;
          (data, w) \<leftarrow> sort_one_file (clk c) uninitialised content w;
          sorted \<leftarrow> cset (sorted_files q) i (Some data);
          Some (s\<lparr>shared_file_queue := q\<lparr>sorted_files := sorted\<rparr>,
                  worker_pcs := (worker_pcs s)[c := Looking],
                  worker_worlds := (worker_worlds s)[c := w]\<rparr>) }
      | Finished \<Rightarrow> None)"

definition worker_step ::
  "(nat \<Rightarrow> nat \<Rightarrow> timespec) \<Rightarrow> (nat \<Rightarrow> int) \<Rightarrow> string list \<Rightarrow> sorter_sys \<Rightarrow> sorter_sys \<Rightarrow> bool" where
  "worker_step clk uninitialised contents s t \<longleftrightarrow>
     (\<exists>c. coroutine_func_f clk uninitialised contents c s = Some t)"

section \<open>The start of the program\<close>

text \<open>
  What main sets up: the quantum (a division by zero is undefined), the queue and one context
  per coroutine, named by sprintf into a buffer of 16 bytes.
\<close>

definition coro_name :: "nat \<Rightarrow> string option" where
  "coro_name i =
     (let name = ''coro_'' @ show_nat i in if length name + 1 \<le> 16 then Some name else None)"

definition solution_setup ::
  "timespec \<Rightarrow> int \<Rightarrow> int \<Rightarrow> string list \<Rightarrow> sorter_sys option" where
  "solution_setup uninitialised target_latency coroutine_count file_args = do {
     quantum \<leftarrow> (if coroutine_count = 0 then None else c_int (target_latency sdiv coroutine_count));
     q \<leftarrow> create_file_queue (int (length file_args)) file_args;
     contexts \<leftarrow> those (map (\<lambda>i. do {
         name \<leftarrow> coro_name i;
         create_coroutine_context name quantum uninitialised }) [0..<nat coroutine_count]);
     Some \<lparr>shared_file_queue = q, worker_pcs = replicate (nat coroutine_count) Starting,
           worker_worlds = map (\<lambda>context. \<lparr>wctx = context, reads = 0\<rparr>) contexts\<rparr> }"

lemma coro_name_fits: "i < 2 ^ 31 \<Longrightarrow> \<exists>name. coro_name i = Some name"
  using show_nat_length [of i 9] by (simp add: coro_name_def)

section \<open>The invariant\<close>

definition starting_sys :: "string list \<Rightarrow> sorter_sys \<Rightarrow> bool" where
  "starting_sys contents s \<longleftrightarrow>
     file_ptr (shared_file_queue s) = 0 \<and> file_count (shared_file_queue s) = int (length contents) \<and>
     sorted_files (shared_file_queue s) = replicate (length contents) None \<and>
     set (worker_pcs s) \<subseteq> {Starting}"

text \<open>A stored result is the sorted permutation of the numbers of its file.\<close>

definition result_of :: "int list \<Rightarrow> single_sorted_file_data \<Rightarrow> bool" where
  "result_of vs d \<longleftrightarrow> (\<exists>ys. d = file_data ys \<and> mset ys = mset vs \<and> sorted ys)"

text \<open>
  A file is in the hands of exactly one coroutine when it was taken and has no result yet, and of
  none otherwise; a file that was not taken has no result; and a coroutine finishes only when
  every file was taken.
\<close>

definition queue_bounds :: "int list list \<Rightarrow> file_queue \<Rightarrow> bool" where
  "queue_bounds vss q \<longleftrightarrow> 0 \<le> file_ptr q \<and> file_ptr q \<le> file_count q \<and>
     file_count q = int (length vss) \<and> length (sorted_files q) = length vss"

definition results_ok :: "int list list \<Rightarrow> file_queue \<Rightarrow> bool" where
  "results_ok vss q \<longleftrightarrow> (\<forall>i<length vss. \<forall>d. sorted_files q ! i = Some d \<longrightarrow>
     int i < file_ptr q \<and> result_of (vss ! i) d)"

definition pending :: "file_queue \<Rightarrow> int \<Rightarrow> bool" where
  "pending q i \<longleftrightarrow> 0 \<le> i \<and> i < file_ptr q \<and> sorted_files q ! nat i = None"

definition held_once :: "file_queue \<Rightarrow> worker_pc list \<Rightarrow> bool" where
  "held_once q pcs \<longleftrightarrow> (\<forall>i. count_list pcs (Sorting i) = (if pending q i then 1 else 0))"

definition workers_inv :: "int list list \<Rightarrow> sorter_sys \<Rightarrow> bool" where
  "workers_inv vss s \<longleftrightarrow> queue_bounds vss (shared_file_queue s) \<and> results_ok vss (shared_file_queue s) \<and>
     held_once (shared_file_queue s) (worker_pcs s) \<and>
     (Finished \<in> set (worker_pcs s) \<longrightarrow> file_ptr (shared_file_queue s) = file_count (shared_file_queue s))"

lemma count_list_update:
  "c < length xs \<Longrightarrow>
   count_list (xs[c := y]) z + (if xs ! c = z then 1 else 0) = count_list xs z + (if y = z then 1 else 0)"
proof (induction xs arbitrary: c)
  case (Cons x xs)
  then show ?case by (cases c) force+
qed simp

text \<open>How a change of the queue and of one coroutine keeps the two in step.\<close>

lemma held_once_update:
  assumes "held_once q pcs" "c < length pcs"
    and "\<And>i. (if pending q' i then 1 else 0) + (if pcs ! c = Sorting i then 1 else 0) =
      (if pending q i then 1 else (0 :: nat)) + (if pc = Sorting i then 1 else 0)"
  shows "held_once q' (pcs[c := pc])"
  unfolding held_once_def
proof
  fix i
  have "count_list (pcs[c := pc]) (Sorting i) + (if pcs ! c = Sorting i then 1 else 0)
      = (if pending q i then 1 else 0) + (if pc = Sorting i then 1 else 0)"
    using count_list_update [OF assms(2), of pc "Sorting i"] assms(1) by (simp add: held_once_def)
  also have "\<dots> = (if pending q' i then 1 else 0) + (if pcs ! c = Sorting i then 1 else 0)"
    using assms(3) by simp
  finally show "count_list (pcs[c := pc]) (Sorting i) = (if pending q' i then 1 else 0)"
    by (simp split: if_splits)
qed

lemma held_pending: "held_once q pcs \<Longrightarrow> Sorting i \<in> set pcs \<Longrightarrow> pending q i"
  by (metis count_list_0_iff held_once_def)

text \<open>Every file can be scanned, so its sort succeeds with a result for it.\<close>

definition scanned :: "string list \<Rightarrow> int list list \<Rightarrow> bool" where
  "scanned contents vss \<longleftrightarrow> map scan_numbers contents = map Some vss"

lemma scannedD:
  assumes "scanned contents vss"
  shows "length contents = length vss"
    and "\<And>i. i < length vss \<Longrightarrow> scan_numbers (contents ! i) = Some (vss ! i)"
proof -
  show len: "length contents = length vss" using assms by (metis length_map scanned_def)
  show "scan_numbers (contents ! i) = Some (vss ! i)" if "i < length vss" for i
    using that assms len unfolding scanned_def by (metis nth_map)
qed

lemma sort_one_file_spec:
  assumes "scan_numbers content = Some vs" "sort_one_file clk u content w = Some (d, w')"
  shows "result_of vs d"
  using assms get_sorted_file_data_spec [of clk vs w d w'] file_read [OF assms(1)]
  by (auto simp: sort_one_file_def result_of_def bind_eq_Some_conv)

lemma max_yields_length: "max_yields n < 2 ^ 31 \<Longrightarrow> n + 1 < 2 ^ 31"
proof (cases "n < 2")
  case False
  then have "2 * 2 \<le> n * n" by (intro mult_le_mono) simp_all
  then show "max_yields n < 2 ^ 31 \<Longrightarrow> n + 1 < 2 ^ 31" by (simp add: max_yields_def)
qed simp

lemma sort_one_file_defined:
  assumes "scan_numbers content = Some vs" "clock_ok clk" "world_ok clk w" "0 \<le> context_switch_count (wctx w)"
    "context_switch_count (wctx w) + int (max_yields (length vs)) < 2 ^ 31"
  shows "\<exists>d w'. sort_one_file clk u content w = Some (d, w') \<and> world_ok clk w' \<and>
    context_switch_count (wctx w) \<le> context_switch_count (wctx w') \<and>
    context_switch_count (wctx w') \<le> context_switch_count (wctx w) + int (max_yields (length vs))"
proof -
  have "length vs + 1 < 2 ^ 31" using max_yields_length [of "length vs"] assms(4,5) by simp
  then show ?thesis
    using get_sorted_file_data_defined [OF assms(2-5)] get_numbers_fills [OF assms(1)] by (simp add: sort_one_file_def)
qed

lemma workers_start: 
  assumes "starting_sys contents s" "scanned contents vss"
  shows "workers_inv vss s"
proof -
  have "count_list (worker_pcs s) (Sorting i) = 0" for i
    using assms(1) by (auto simp: starting_sys_def count_list_0_iff)
  then show ?thesis
    using assms(1) scannedD(1) [OF assms(2)]
    by (auto simp: workers_inv_def queue_bounds_def results_ok_def held_once_def pending_def
        starting_sys_def)
qed

lemma coroutine_cases:
  assumes "coroutine_func_f clk u contents c s = Some t"
  obtains
    (start) "c < length (worker_pcs s)" "worker_pcs s ! c = Starting"
      "worker_pcs t = (worker_pcs s)[c := Looking]" "shared_file_queue t = shared_file_queue s"
      "worker_worlds t = (worker_worlds s)[c := start_coroutine (clk c) (worker_worlds s ! c)]"
  | (take) "c < length (worker_pcs s)" "worker_pcs s ! c = Looking"
      "file_ptr (shared_file_queue s) < file_count (shared_file_queue s)"
      "worker_pcs t = (worker_pcs s)[c := Sorting (file_ptr (shared_file_queue s))]"
      "shared_file_queue t = (shared_file_queue s)\<lparr>file_ptr := file_ptr (shared_file_queue s) + 1\<rparr>"
      "worker_worlds t = worker_worlds s"
  | (finish) w where "c < length (worker_pcs s)" "worker_pcs s ! c = Looking"
      "\<not> file_ptr (shared_file_queue s) < file_count (shared_file_queue s)"
      "worker_pcs t = (worker_pcs s)[c := Finished]" "shared_file_queue t = shared_file_queue s"
      "worker_worlds t = (worker_worlds s)[c := w]"
  | (store) i content d w srt where "c < length (worker_pcs s)" "worker_pcs s ! c = Sorting i"
      "cget contents i = Some content" "sort_one_file (clk c) u content (worker_worlds s ! c) = Some (d, w)"
      "cset (sorted_files (shared_file_queue s)) i (Some d) = Some srt"
      "worker_pcs t = (worker_pcs s)[c := Looking]"
      "shared_file_queue t = (shared_file_queue s)\<lparr>sorted_files := srt\<rparr>"
      "worker_worlds t = (worker_worlds s)[c := w]"
  using assms
  by (auto simp: coroutine_func_f_def Let_def bind_eq_Some_conv split: worker_pc.splits if_splits)

lemma set_update_elem: "x \<in> set (xs[c := y]) \<Longrightarrow> x = y \<or> x \<in> set xs"
  using set_update_subset_insert by fastforce

lemma workers_step_inv [step_inv]:
  assumes sc: "scanned contents vss" and inv: "workers_inv vss s"
    and step: "coroutine_func_f clk u contents c s = Some t"
  shows "workers_inv vss t"
proof -
  let ?q = "shared_file_queue s"
  have bounds: "queue_bounds vss ?q" and res: "results_ok vss ?q"
    and held: "held_once ?q (worker_pcs s)"
    and fin: "Finished \<in> set (worker_pcs s) \<longrightarrow> file_ptr ?q = file_count ?q"
    using inv by (auto simp: workers_inv_def)
  show ?thesis
    using step
  proof (cases rule: coroutine_cases)
    case start
    have "held_once ?q ((worker_pcs s)[c := Looking])"
      by (rule held_once_update [OF held start(1)]) (simp add: start(2))
    then show ?thesis
      using start bounds res fin by (auto simp: workers_inv_def dest!: set_update_elem)
  next
    case take
    let ?q' = "?q\<lparr>file_ptr := file_ptr ?q + 1\<rparr>"
    have "sorted_files ?q ! nat (file_ptr ?q) = None"
    proof (rule ccontr)
      assume "sorted_files ?q ! nat (file_ptr ?q) \<noteq> None"
      then obtain d where "sorted_files ?q ! nat (file_ptr ?q) = Some d" by auto
      moreover have "nat (file_ptr ?q) < length vss" "int (nat (file_ptr ?q)) = file_ptr ?q"
        using bounds take(3) by (auto simp: queue_bounds_def)
      ultimately show False using res by (auto simp: results_ok_def)
    qed
    then have "pending ?q' i \<longleftrightarrow> pending ?q i \<or> i = file_ptr ?q" "\<not> pending ?q (file_ptr ?q)" for i
      using bounds by (auto simp: pending_def queue_bounds_def)
    then have "held_once ?q' ((worker_pcs s)[c := Sorting (file_ptr ?q)])"
      by (intro held_once_update [OF held take(1)]) (auto simp: take(2))
    moreover have "Finished \<notin> set ((worker_pcs s)[c := Sorting (file_ptr ?q)])"
      using fin take(3) by (auto dest!: set_update_elem)
    ultimately show ?thesis
      using take bounds res by (force simp: workers_inv_def queue_bounds_def results_ok_def)
  next
    case finish
    have "held_once ?q ((worker_pcs s)[c := Finished])"
      by (rule held_once_update [OF held finish(1)]) (simp add: finish(2))
    then show ?thesis
      using finish bounds res by (auto simp: workers_inv_def queue_bounds_def)
  next
    case (store i content d w srt)
    let ?q' = "?q\<lparr>sorted_files := srt\<rparr>"
    have "pending ?q i" using held_pending [OF held] store(1,2) by (metis nth_mem)
    then have i: "0 \<le> i" "i < file_ptr ?q" "nat i < length vss"
      using bounds by (auto simp: pending_def queue_bounds_def)
    then have cont: "content = contents ! nat i" using store(3) by (simp add: cget_Some_iff)
    have srt: "srt = (sorted_files ?q)[nat i := Some d]" "nat i < length (sorted_files ?q)"
      using store(5) bounds i by (auto simp: cset_Some_iff queue_bounds_def)
    have "result_of (vss ! nat i) d"
      using sort_one_file_spec [OF scannedD(2) [OF sc i(3)]] store(4) cont by blast
    then have res': "results_ok vss ?q'"
      using res srt i by (auto simp: results_ok_def nth_list_update)
    have pend: "pending ?q' k \<longleftrightarrow> pending ?q k \<and> k \<noteq> i" for k
      using i srt by (auto simp: pending_def nth_list_update nat_eq_iff)
    have "held_once ?q' ((worker_pcs s)[c := Looking])"
      by (rule held_once_update [OF held store(1)]) (use store(2) \<open>pending ?q i\<close> pend in auto)
    moreover have "queue_bounds vss ?q'" using bounds srt by (simp add: queue_bounds_def)
    moreover have "Finished \<in> set ((worker_pcs s)[c := Looking]) \<longrightarrow> file_ptr ?q' = file_count ?q'"
      using fin by (auto dest!: set_update_elem)
    ultimately show ?thesis using store res' by (simp add: workers_inv_def)
  qed
qed

section \<open>Progress and termination\<close>

fun pc_weight :: "worker_pc \<Rightarrow> nat" where
  "pc_weight Starting = 2"
| "pc_weight Looking = 1"
| "pc_weight (Sorting _) = 2"
| "pc_weight Finished = 0"

definition work_left :: "sorter_sys \<Rightarrow> nat" where
  "work_left s = 2 * nat (file_count (shared_file_queue s) - file_ptr (shared_file_queue s)) +
     sum_list (map pc_weight (worker_pcs s))"

lemma sum_list_weight_update:
  "c < length pcs \<Longrightarrow>
   sum_list (map pc_weight (pcs[c := pc])) + pc_weight (pcs ! c) = sum_list (map pc_weight pcs) + pc_weight pc"
proof (induction pcs arbitrary: c)
  case (Cons x pcs)
  then show ?case by (cases c) force+
qed simp

lemma work_decreases:
  assumes "coroutine_func_f clk u contents c s = Some t"
  shows "work_left t < work_left s"
  using assms
proof (cases rule: coroutine_cases)
  case start
  then show ?thesis
    using sum_list_weight_update [OF start(1), of Looking] by (simp add: work_left_def)
next
  case take
  then show ?thesis
    using sum_list_weight_update [OF take(1), of "Sorting (file_ptr (shared_file_queue s))"]
    by (simp add: work_left_def)
next
  case finish
  then show ?thesis
    using sum_list_weight_update [OF finish(1), of Finished] by (simp add: work_left_def)
next
  case store
  then show ?thesis
    using sum_list_weight_update [OF store(1), of Looking] by (simp add: work_left_def)
qed

text \<open>
  Room for the counters: a coroutine has yielded no more often than the files that have a result can have made it,
  so as long as all files together take less than 2^31 yields no counter overflows.
\<close>

definition all_yields :: "int list list \<Rightarrow> nat" where
  "all_yields vss = (\<Sum>i<length vss. max_yields (length (vss ! i)))"

definition done_yields :: "int list list \<Rightarrow> file_queue \<Rightarrow> nat" where
  "done_yields vss q = (\<Sum>i<length vss. if sorted_files q ! i = None then 0 else max_yields (length (vss ! i)))"

definition worlds_inv :: "(nat \<Rightarrow> nat \<Rightarrow> timespec) \<Rightarrow> int list list \<Rightarrow> sorter_sys \<Rightarrow> bool" where
  "worlds_inv clk vss s \<longleftrightarrow> length (worker_worlds s) = length (worker_pcs s) \<and>
     (\<forall>c<length (worker_pcs s). let w = worker_worlds s ! c in
        if worker_pcs s ! c = Starting then context_switch_count (wctx w) = 0 \<and> time_working (wctx w) = zero_time
        else worker_pcs s ! c \<noteq> Finished \<longrightarrow> world_ok (clk c) w \<and> 0 \<le> context_switch_count (wctx w) \<and>
          context_switch_count (wctx w) \<le> int (done_yields vss (shared_file_queue s)))"

lemma worlds_invD:
  assumes "worlds_inv clk vss s" "c < length (worker_pcs s)" "worker_pcs s ! c \<noteq> Starting" "worker_pcs s ! c \<noteq> Finished"
  shows "world_ok (clk c) (worker_worlds s ! c)" "0 \<le> context_switch_count (wctx (worker_worlds s ! c))"
    "context_switch_count (wctx (worker_worlds s ! c)) \<le> int (done_yields vss (shared_file_queue s))"
  using assms by (auto simp: worlds_inv_def Let_def)

lemma done_yields_store:
  assumes "i < length vss" "length (sorted_files q) = length vss" "sorted_files q ! i = None"
  shows "done_yields vss (q\<lparr>sorted_files := (sorted_files q)[i := Some d]\<rparr>) = done_yields vss q + max_yields (length (vss ! i))"
    and "done_yields vss q + max_yields (length (vss ! i)) \<le> all_yields vss"
proof -
  let ?cost = "\<lambda>l. max_yields (length (vss ! l))"
  have "(\<Sum>l<length vss. if (sorted_files q)[i := Some d] ! l = None then 0 else ?cost l)
      = (\<Sum>l<length vss. (if sorted_files q ! l = None then 0 else ?cost l) + (if l = i then ?cost l else 0))"
    using assms by (intro sum.cong) (auto simp: nth_list_update)
  also have "\<dots> = done_yields vss q + ?cost i" using assms(1) by (simp add: sum.distrib done_yields_def)
  finally show eq: "done_yields vss (q\<lparr>sorted_files := (sorted_files q)[i := Some d]\<rparr>) = done_yields vss q + ?cost i"
    by (simp add: done_yields_def)
  show "done_yields vss q + ?cost i \<le> all_yields vss"
    unfolding eq [symmetric] unfolding done_yields_def all_yields_def by (intro sum_mono) simp
qed

lemma start_coroutine_ok:
  assumes "clock_ok clk" "context_switch_count (wctx w) = 0" "time_working (wctx w) = zero_time"
  shows "world_ok clk (start_coroutine clk w)" "context_switch_count (wctx (start_coroutine clk w)) = 0"
proof -
  have "ts_small zero_time" "ts_nanos zero_time = 0" by (simp_all add: zero_time_def ts_small_def ts_norm_def ts_nanos_def nsec_in_sec_def)
  moreover have "0 \<le> ts_nanos (clk n)" for n
    using assms(1) ts_small_nanos [of "clk n"] by (simp add: clock_ok_def ts_small_def)
  ultimately show "world_ok clk (start_coroutine clk w)"
    using assms by (simp add: start_coroutine_def clock_gettime_def world_ok_def clock_ok_def)
  show "context_switch_count (wctx (start_coroutine clk w)) = 0"
    using assms(2) by (simp add: start_coroutine_def clock_gettime_def)
qed

lemma finish_coroutine_defined:
  assumes "clock_ok clk" "world_ok clk w"
  shows "\<exists>w'. finish_coroutine clk w = Some w'"
proof -
  note fits = working_time_fits [of "clk (reads w)" "start_timespec (wctx w)" "time_working (wctx w)"]
  have "ts_small (clk (reads w))" "ts_nanos (start_timespec (wctx w)) \<le> ts_nanos (clk (reads w))"
    using assms by (simp_all add: clock_ok_def world_ok_def)
  then show ?thesis
    using fits timespec_to_microseconds_small [OF fits(3)] assms(2)
    by (auto simp: finish_coroutine_def clock_gettime_def world_ok_def Let_def)
qed

text \<open>The file that a coroutine sorts, and the room it has.\<close>

lemma sorting_file:
  assumes "scanned contents vss" "workers_inv vss s" "worlds_inv clk vss s" "all_yields vss < 2 ^ 31"
    "c < length (worker_pcs s)" "worker_pcs s ! c = Sorting i"
  shows "0 \<le> i" "nat i < length vss" "sorted_files (shared_file_queue s) ! nat i = None"
    "length (sorted_files (shared_file_queue s)) = length vss" "cget contents i = Some (contents ! nat i)"
    "context_switch_count (wctx (worker_worlds s ! c)) + int (max_yields (length (vss ! nat i))) < 2 ^ 31"
proof -
  let ?q = "shared_file_queue s"
  have "pending ?q i" using assms(2,5,6) held_pending by (metis nth_mem workers_inv_def)
  then show i: "0 \<le> i" "nat i < length vss" "sorted_files ?q ! nat i = None" and len: "length (sorted_files ?q) = length vss"
    using assms(2) by (auto simp: pending_def workers_inv_def queue_bounds_def)
  then show "cget contents i = Some (contents ! nat i)" using scannedD(1) [OF assms(1)] by (simp add: cget_def)
  have "context_switch_count (wctx (worker_worlds s ! c)) \<le> int (done_yields vss ?q)"
    using worlds_invD(3) [OF assms(3,5)] assms(6) by simp
  then show "context_switch_count (wctx (worker_worlds s ! c)) + int (max_yields (length (vss ! nat i))) < 2 ^ 31"
    using done_yields_store(2) [OF i(2) len i(3)] assms(4) by simp
qed

lemma worlds_update:
  assumes "worlds_inv clk vss s" "c < length (worker_pcs s)" "done_yields vss (shared_file_queue s) \<le> done_yields vss (shared_file_queue t)"
    "worker_pcs t = (worker_pcs s)[c := pc]" "worker_worlds t = (worker_worlds s)[c := w]" "pc \<noteq> Starting"
    "pc \<noteq> Finished \<Longrightarrow> world_ok (clk c) w \<and> 0 \<le> context_switch_count (wctx w) \<and>
       context_switch_count (wctx w) \<le> int (done_yields vss (shared_file_queue t))"
  shows "worlds_inv clk vss t"
  unfolding worlds_inv_def Let_def
proof (intro conjI allI impI)
  show "length (worker_worlds t) = length (worker_pcs t)" using assms(1,4,5) by (simp add: worlds_inv_def)
  fix d assume d: "d < length (worker_pcs t)"
  have old: "if worker_pcs s ! d = Starting then context_switch_count (wctx (worker_worlds s ! d)) = 0 \<and> time_working (wctx (worker_worlds s ! d)) = zero_time
        else worker_pcs s ! d \<noteq> Finished \<longrightarrow> world_ok (clk d) (worker_worlds s ! d) \<and> 0 \<le> context_switch_count (wctx (worker_worlds s ! d)) \<and>
          context_switch_count (wctx (worker_worlds s ! d)) \<le> int (done_yields vss (shared_file_queue s))"
    "length (worker_worlds s) = length (worker_pcs s)"
    using assms(1,4) d by (simp_all add: worlds_inv_def Let_def)
  show "if worker_pcs t ! d = Starting then context_switch_count (wctx (worker_worlds t ! d)) = 0 \<and> time_working (wctx (worker_worlds t ! d)) = zero_time
        else worker_pcs t ! d \<noteq> Finished \<longrightarrow> world_ok (clk d) (worker_worlds t ! d) \<and> 0 \<le> context_switch_count (wctx (worker_worlds t ! d)) \<and>
          context_switch_count (wctx (worker_worlds t ! d)) \<le> int (done_yields vss (shared_file_queue t))"
    using old assms(2-7) by (cases "d = c") (auto split: if_splits)
qed

lemma worlds_step_inv:
  assumes sc: "scanned contents vss" and inv: "workers_inv vss s" and worlds: "worlds_inv clk vss s"
    and room: "all_yields vss < 2 ^ 31" and clk: "\<And>c. clock_ok (clk c)"
    and step: "coroutine_func_f clk u contents c s = Some t"
  shows "worlds_inv clk vss t"
  using step
proof (cases rule: coroutine_cases)
  case start
  have "context_switch_count (wctx (worker_worlds s ! c)) = 0" "time_working (wctx (worker_worlds s ! c)) = zero_time"
    using worlds start(1,2) by (auto simp: worlds_inv_def Let_def)
  from start_coroutine_ok [OF clk this] show ?thesis
    by (intro worlds_update [OF worlds start(1) _ start(3,5)]) (simp_all add: start(4))
next
  case take
  have "worker_worlds t = (worker_worlds s)[c := worker_worlds s ! c]" using take(6) by simp
  then show ?thesis
    using worlds_invD [OF worlds take(1)] take(2,5)
    by (intro worlds_update [OF worlds take(1) _ take(4)]) (simp_all add: done_yields_def)
next
  case (finish w)
  then show ?thesis by (intro worlds_update [OF worlds finish(1) _ finish(4,6)]) simp_all
next
  case (store i content d w srt)
  note f = sorting_file [OF sc inv worlds room store(1,2)]
  have ok: "world_ok (clk c) (worker_worlds s ! c)" "0 \<le> context_switch_count (wctx (worker_worlds s ! c))"
    "context_switch_count (wctx (worker_worlds s ! c)) \<le> int (done_yields vss (shared_file_queue s))"
    using worlds_invD [OF worlds store(1)] store(2) by simp_all
  have "content = contents ! nat i" using store(3) f(5) by simp
  then have w: "world_ok (clk c) w" "0 \<le> context_switch_count (wctx w)"
    "context_switch_count (wctx w) \<le> context_switch_count (wctx (worker_worlds s ! c)) + int (max_yields (length (vss ! nat i)))"
    using sort_one_file_defined [OF scannedD(2) [OF sc f(2)] clk [of c] ok(1,2) f(6), of u] store(4) ok(2) by auto
  have "srt = (sorted_files (shared_file_queue s))[nat i := Some d]" using store(5) by (simp add: cset_Some_iff)
  then have "done_yields vss (shared_file_queue t) = done_yields vss (shared_file_queue s) + max_yields (length (vss ! nat i))"
    using done_yields_store(1) [OF f(2,4,3), of d] store(7) by simp
  then show ?thesis using w ok store(2) by (intro worlds_update [OF worlds store(1) _ store(6,8)]) auto
qed

lemma worker_can_move:
  assumes "scanned contents vss" "workers_inv vss s" "worlds_inv clk vss s" "all_yields vss < 2 ^ 31" "\<And>c. clock_ok (clk c)"
    "c < length (worker_pcs s)" "worker_pcs s ! c \<noteq> Finished"
  shows "\<exists>t. coroutine_func_f clk u contents c s = Some t"
proof (cases "worker_pcs s ! c")
  case (Sorting i)
  note f = sorting_file [OF assms(1-4,6) Sorting]
  obtain d w where d: "sort_one_file (clk c) u (contents ! nat i) (worker_worlds s ! c) = Some (d, w)"
    using sort_one_file_defined [OF scannedD(2) [OF assms(1) f(2)] assms(5) _ _ f(6)] worlds_invD [OF assms(3,6)] Sorting by fastforce
  have "cset (sorted_files (shared_file_queue s)) i (Some d) = Some ((sorted_files (shared_file_queue s))[nat i := Some d])"
    using f(1,2,4) by (simp add: cset_def)
  then show ?thesis
    using assms(6) Sorting d f(5) by (simp add: coroutine_func_f_def Let_def)
next
  case Looking
  then obtain w where "finish_coroutine (clk c) (worker_worlds s ! c) = Some w"
    using finish_coroutine_defined [OF assms(5) worlds_invD(1) [OF assms(3,6)]] by auto
  then show ?thesis using assms(6) Looking by (simp add: coroutine_func_f_def Let_def)
qed (use assms in \<open>auto simp: coroutine_func_f_def Let_def\<close>)

text \<open>When all coroutines have finished (and there is one), the queue holds every result.\<close>

lemma all_finished_results:
  assumes "workers_inv vss s" "worker_pcs s \<noteq> []" "set (worker_pcs s) \<subseteq> {Finished}"
  obtains yss where "queue_of yss (shared_file_queue s)" "map mset yss = map mset vss"
    "\<forall>ys\<in>set yss. sorted ys"
proof -
  let ?q = "shared_file_queue s"
  have "Finished \<in> set (worker_pcs s)" using assms(2,3) by (cases "worker_pcs s") auto
  then have q: "file_ptr ?q = int (length vss)" "length (sorted_files ?q) = length vss"
    "file_count ?q = int (length vss)"
    using assms(1) by (auto simp: workers_inv_def queue_bounds_def)
  have "\<exists>ys. sorted_files ?q ! i = Some (file_data ys) \<and> mset ys = mset (vss ! i) \<and> sorted ys"
    if "i < length vss" for i
  proof -
    have "Sorting (int i) \<notin> set (worker_pcs s)" using assms(3) by auto
    then have "\<not> pending ?q (int i)"
      using assms(1) by (metis count_list_0_iff held_once_def workers_inv_def zero_neq_one)
    then have "sorted_files ?q ! i \<noteq> None" using that q by (simp add: pending_def)
    then obtain d where "sorted_files ?q ! i = Some d" by blast
    then show ?thesis using assms(1) that by (auto simp: workers_inv_def results_ok_def result_of_def)
  qed
  then obtain f where f: "\<And>i. i < length vss \<Longrightarrow>
      sorted_files ?q ! i = Some (file_data (f i)) \<and> mset (f i) = mset (vss ! i) \<and> sorted (f i)"
    by metis
  show ?thesis
  proof (rule that [of "map f [0..<length vss]"])
    show "queue_of (map f [0..<length vss]) ?q"
      using q f by (auto simp: queue_of_def intro: nth_equalityI)
    show "map mset (map f [0..<length vss]) = map mset vss" using f by (auto intro: nth_equalityI)
  qed (use f in auto)
qed

interpretation workers: invariant_system "starting_sys contents" "worker_step clk u contents"
    "\<lambda>s. scanned contents vss \<longrightarrow> workers_inv vss s" for contents clk u vss
  by unfold_locales (auto simp: worker_step_def intro: workers_start step_inv)

section \<open>From the command line to the merged output\<close>

lemma create_file_queue_args:
  "create_file_queue (int (length names)) names =
     Some \<lparr>file_ptr = 0, file_count = int (length names), file_names = names,
           sorted_files = replicate (length names) None\<rparr>"
  using those_cget [of "int (length names)" names] by (simp add: create_file_queue_def)

lemma those_all: "(\<And>x. x \<in> set xs \<Longrightarrow> \<exists>y. f x = Some y) \<Longrightarrow> \<exists>ys. those (map f xs) = Some ys"
  by (induction xs) fastforce+

lemma those_length: "those xs = Some ys \<Longrightarrow> length ys = length xs"
  by (induction xs arbitrary: ys) (auto split: option.splits)

lemma those_in: "those xs = Some ys \<Longrightarrow> y \<in> set ys \<Longrightarrow> Some y \<in> set xs"
  by (induction xs arbitrary: ys) (auto split: option.splits)

lemma div_le_abs: "\<bar>a\<bar> div b \<le> \<bar>a\<bar>" if "0 < b" for a b :: int
  using that by (metis abs_ge_zero div_by_1 int_one_le_iff_zero_less zdiv_mono2 zero_less_one)

lemma sdiv_int_ok:
  assumes "int_ok a" "0 < b"
  shows "int_ok (a sdiv b)"
proof (cases "0 \<le> a")
  case True
  then have "0 \<le> a div b" "a div b \<le> a"
    using assms(2) div_le_abs [of b a] by (simp_all add: pos_imp_zdiv_nonneg_iff)
  then show ?thesis using True assms by (simp add: smod_bounds_nonneg int_ok_def)
next
  case False
  then have "a sdiv b = - ((- a) div b)" using assms(2) by (simp add: signed_divide_int_def)
  moreover have "0 \<le> (- a) div b" "(- a) div b \<le> - a"
    using False assms(2) div_le_abs [of b a] by (simp_all add: pos_imp_zdiv_nonneg_iff)
  ultimately show ?thesis using False assms by (simp add: int_ok_def)
qed

lemma solution_setup_starts:
  assumes "solution_setup t0 lat n args = Some s" "length contents = length args"
  shows "starting_sys contents s" "length (worker_pcs s) = nat n" "worker_pcs s = replicate (nat n) Starting"
  using assms by (auto simp: solution_setup_def bind_eq_Some_conv create_file_queue_args starting_sys_def)

lemma unfinished_worker:
  assumes "\<not> set (worker_pcs s) \<subseteq> {Finished}"
  obtains c where "c < length (worker_pcs s)" "worker_pcs s ! c \<noteq> Finished"
  using assms by (metis in_set_conv_nth insertI1 subsetI)

lemma steps_work_left:
  "((worker_step clk u contents) ^^ k) s t \<Longrightarrow> k + work_left t \<le> work_left s"
proof (induction k arbitrary: t)
  case (Suc k)
  then obtain v where "((worker_step clk u contents) ^^ k) s v" "worker_step clk u contents v t" by auto
  then show ?case using Suc.IH [of v] work_decreases by (fastforce simp: worker_step_def)
qed simp

lemma workers_finish:
  assumes "scanned contents vss" "workers_inv vss s" "worlds_inv clk vss s" "all_yields vss < 2 ^ 31" "\<And>c. clock_ok (clk c)"
  shows "\<exists>t. (worker_step clk u contents)\<^sup>*\<^sup>* s t \<and> set (worker_pcs t) \<subseteq> {Finished}"
  using assms(2,3)
proof (induction "work_left s" arbitrary: s rule: less_induct)
  case less
  show ?case
  proof (cases "set (worker_pcs s) \<subseteq> {Finished}")
    case False
    then obtain c where "c < length (worker_pcs s)" "worker_pcs s ! c \<noteq> Finished"
      by (rule unfinished_worker)
    then obtain t where t: "coroutine_func_f clk u contents c s = Some t"
      using worker_can_move [OF assms(1) less.prems assms(4,5)] by blast
    have "workers_inv vss t" "worlds_inv clk vss t"
      using workers_step_inv [OF assms(1) less.prems(1) t] worlds_step_inv [OF assms(1) less.prems assms(4,5) t] .
    then obtain v where "(worker_step clk u contents)\<^sup>*\<^sup>* t v" "set (worker_pcs v) \<subseteq> {Finished}"
      using less.hyps [of t] work_decreases [OF t] by blast
    then show ?thesis using t by (metis converse_rtranclp_into_rtranclp worker_step_def)
  qed blast
qed

lemma worker_count_kept:
  "(worker_step clk u contents)\<^sup>*\<^sup>* s t \<Longrightarrow> length (worker_pcs t) = length (worker_pcs s)"
proof (induction rule: rtranclp_induct)
  case (step t v)
  then obtain c where "coroutine_func_f clk u contents c t = Some v" by (auto simp: worker_step_def)
  then show ?case using step.IH by (cases rule: coroutine_cases) auto
qed simp

lemma run_inv:
  assumes "solution_setup t0 lat n args = Some s" "scanned contents vss" "length args = length vss"
    "(worker_step clk u contents)\<^sup>*\<^sup>* s t"
  shows "workers_inv vss t" "length (worker_pcs t) = nat n"
proof -
  have "length contents = length args" using scannedD(1) [OF assms(2)] assms(3) by simp
  note start = solution_setup_starts [OF assms(1) this]
  have "workers_inv vss s" using workers_start [OF start(1) assms(2)] .
  then show "workers_inv vss t"
    using workers.steps_keep_inv [OF assms(4), of vss] assms(2) by blast
  show "length (worker_pcs t) = nat n" using worker_count_kept [OF assms(4)] start(2) by simp
qed

lemma setup_worlds:
  assumes "solution_setup t0 lat n args = Some s"
  shows "worlds_inv clk vss s"
proof -
  obtain quantum cs where s: "those (map (\<lambda>i. do {
      name \<leftarrow> coro_name i; create_coroutine_context name quantum t0 }) [0..<nat n]) = Some cs"
    "worker_pcs s = replicate (nat n) Starting" "worker_worlds s = map (\<lambda>context. \<lparr>wctx = context, reads = 0\<rparr>) cs"
    using assms by (auto simp: solution_setup_def bind_eq_Some_conv)
  have len: "length cs = nat n" using those_length [OF s(1)] by simp
  have "context_switch_count x = 0 \<and> time_working x = zero_time" if "x \<in> set cs" for x
    using those_in [OF s(1) that] by (auto simp: create_coroutine_context_def bind_eq_Some_conv zero_time_def dest!: sym [of "Some x"])
  then show ?thesis using s(2,3) len by (auto simp: worlds_inv_def Let_def)
qed

lemma run_worlds_inv:
  assumes "solution_setup t0 lat n args = Some s" "scanned contents vss" "length args = length vss"
    "(worker_step clk u contents)\<^sup>*\<^sup>* s t" "all_yields vss < 2 ^ 31" "\<And>c. clock_ok (clk c)"
  shows "worlds_inv clk vss t"
  using assms(4)
proof (induction rule: rtranclp_induct)
  case base
  show ?case by (rule setup_worlds [OF assms(1)])
next
  case (step t v)
  then obtain c where "coroutine_func_f clk u contents c t = Some v" by (auto simp: worker_step_def)
  then show ?case using worlds_step_inv [OF assms(2) run_inv(1) [OF assms(1-3) step(1)] step.IH assms(5,6)] by blast
qed

lemma solution_setup_ok:
  assumes "0 < n" "int_ok n" "int_ok lat"
  shows "\<exists>s. solution_setup t0 lat n args = Some s \<and> worker_pcs s = replicate (nat n) Starting \<and>
    file_names (shared_file_queue s) = args \<and> starting_sys args s"
proof -
  have q: "int_ok (lat sdiv n)" using sdiv_int_ok assms by simp
  then have "long_ok (lat sdiv n * nsec_in_microseconds)"
    by (simp add: int_ok_def long_ok_def nsec_in_microseconds_def)
  then obtain limit where "microseconds_to_timespec (lat sdiv n) = Some limit"
    by (simp add: microseconds_to_timespec_def)
  then have "\<exists>c. create_coroutine_context name (lat sdiv n) t0 = Some c" for name
    by (simp add: create_coroutine_context_def)
  moreover have "i < 2 ^ 31" if "i \<in> set [0..<nat n]" for i
    using that assms(1,2) by (simp add: int_ok_def zless_nat_eq_int_zless)
  ultimately have "\<exists>y. (do { name \<leftarrow> coro_name i; create_coroutine_context name (lat sdiv n) t0 }) = Some y"
    if "i \<in> set [0..<nat n]" for i
    using coro_name_fits [of i] that by fastforce
  then obtain cs where "those (map (\<lambda>i. do { name \<leftarrow> coro_name i;
      create_coroutine_context name (lat sdiv n) t0 }) [0..<nat n]) = Some cs"
    using those_all by metis
  then show ?thesis
    using assms(1) q by (simp add: solution_setup_def create_file_queue_args starting_sys_def)
qed

text \<open>Two small files, for concrete runs.\<close>

lemma two_files_scanned: "scanned [''2 1'', ''3''] [[2, 1], [3]]"
  by (simp add: scanned_def scan_numbers.simps fscanf_d_def is_space_def is_digit_def digits_val_def
      digit_val_def int_ok_def Let_def)

lemma two_files_room: "all_yields [[2, 1], [3]] < 2 ^ 31" "clock_ok ((\<lambda>_ _. zero_time) c)"
  using idle_ok(1) by (simp_all add: all_yields_def max_yields_def)

lemma two_files_setup:
  obtains s where "solution_setup zero_time 1000 2 [''a'', ''b''] = Some s"
    "worker_pcs s = [Starting, Starting]" "starting_sys [''a'', ''b''] s"
  using solution_setup_ok [of 2 1000 zero_time "[''a'', ''b'']"]
  by (auto simp: int_ok_def numeral_2_eq_2)

text \<open>A schedule: the coroutines that move, in order.\<close>

fun run_schedule ::
  "(nat \<Rightarrow> nat \<Rightarrow> timespec) \<Rightarrow> (nat \<Rightarrow> int) \<Rightarrow> string list \<Rightarrow> nat list \<Rightarrow> sorter_sys \<Rightarrow> sorter_sys option" where
  "run_schedule clk u contents [] s = Some s"
| "run_schedule clk u contents (c # cs) s =
     do { s \<leftarrow> coroutine_func_f clk u contents c s; run_schedule clk u contents cs s }"

lemma run_schedule_steps:
  "run_schedule clk u contents cs s = Some t \<Longrightarrow> (worker_step clk u contents)\<^sup>*\<^sup>* s t"
proof (induction cs arbitrary: s)
  case (Cons c cs)
  then obtain v where "coroutine_func_f clk u contents c s = Some v" "run_schedule clk u contents cs v = Some t"
    by (auto simp: bind_eq_Some_conv)
  then show ?case using Cons.IH by (metis converse_rtranclp_into_rtranclp worker_step_def)
qed simp

section \<open>Properties\<close>

text \<open>C1: Whatever the interleaving of the coroutines, when all of them have finished, the merge that
  main runs then terminates without undefined behaviour and prints a sorted permutation of all
  the numbers of all the input files.\<close>

theorem sorter_output_correct:
  assumes "solution_setup t0 lat n args = Some s" "0 < n"
    "scanned contents vss" "length args = length vss"
    "(worker_step clk u contents)\<^sup>*\<^sup>* s t" "set (worker_pcs t) \<subseteq> {Finished}"
  shows "\<exists>res. output_merged_sorted_numbers_to_file (shared_file_queue t) = Some res \<and>
    sorted res \<and> mset res = mset (concat vss)"
proof -
  have "worker_pcs t \<noteq> []" using run_inv(2) [OF assms(1,3,4,5)] assms(2) by auto
  then obtain yss where "queue_of yss (shared_file_queue t)" "map mset yss = map mset vss"
    "\<forall>ys\<in>set yss. sorted ys"
    using all_finished_results [OF run_inv(1) [OF assms(1,3,4,5)]] assms(6) by blast
  then show ?thesis using output_merged_spec [of yss] by (simp add: mset_concat)
qed

theorem sorter_output_correct_witness:
  "\<exists>s t res. solution_setup zero_time 1000 2 [''a'', ''b''] = Some s \<and>
    (worker_step (\<lambda>_ _. zero_time) (\<lambda>_. 0) [''2 1'', ''3''])\<^sup>*\<^sup>* s t \<and>
    output_merged_sorted_numbers_to_file (shared_file_queue t) = Some res \<and> sorted res \<and>
    mset res = {#1, 2, 3#}"
proof -
  obtain s where s: "solution_setup zero_time 1000 2 [''a'', ''b''] = Some s"
    by (rule two_files_setup)
  have l: "length [''a'', ''b''] = length [[2, 1], [3 :: int]]" by simp
  obtain t where t: "(worker_step (\<lambda>_ _. zero_time) (\<lambda>_. 0) [''2 1'', ''3''])\<^sup>*\<^sup>* s t"
    "set (worker_pcs t) \<subseteq> {Finished}"
    using workers_finish [OF two_files_scanned run_inv(1) [OF s two_files_scanned l rtranclp.rtrancl_refl] setup_worlds [OF s] two_files_room]
    by blast
  show ?thesis
    using sorter_output_correct [OF s _ two_files_scanned l t] s t(1) by (auto simp: add_mset_commute)
qed

text \<open>C3: From the start main sets up, the coroutines can only take finitely many moves (at most two
  per file and two per coroutine). When all files together take less than 2^31 yields - n numbers take at most
  n * n + n - 2 - and the clocks do not go back and show less than 2^31 seconds, a coroutine that has not finished
  can move, without undefined behaviour: so every run ends with all of them finished.\<close>

theorem sorter_terminates:
  assumes "solution_setup t0 lat n args = Some s" "scanned contents vss" "length args = length vss"
    "all_yields vss < 2 ^ 31" "\<And>c. clock_ok (clk c)"
  shows "(((worker_step clk u contents) ^^ k) s t \<longrightarrow> k \<le> 2 * length args + 2 * nat n) \<and>
    ((worker_step clk u contents)\<^sup>*\<^sup>* s t \<longrightarrow> c < length (worker_pcs t) \<longrightarrow> worker_pcs t ! c \<noteq> Finished \<longrightarrow>
       (\<exists>v. coroutine_func_f clk u contents c t = Some v)) \<and>
    (\<exists>v. (worker_step clk u contents)\<^sup>*\<^sup>* s v \<and> set (worker_pcs v) \<subseteq> {Finished})"
proof (intro conjI impI)
  have "length contents = length args" using scannedD(1) [OF assms(2)] assms(3) by simp
  note start = solution_setup_starts [OF assms(1) this]
  have "work_left s = 2 * length args + 2 * nat n"
    using start \<open>length contents = length args\<close>
    by (simp add: work_left_def starting_sys_def sum_list_replicate)
  then show "((worker_step clk u contents) ^^ k) s t \<Longrightarrow> k \<le> 2 * length args + 2 * nat n"
    using steps_work_left by fastforce
  show "\<exists>v. (worker_step clk u contents)\<^sup>*\<^sup>* s v \<and> set (worker_pcs v) \<subseteq> {Finished}"
    using workers_finish [OF assms(2) run_inv(1) [OF assms(1-3) rtranclp.rtrancl_refl] setup_worlds [OF assms(1)] assms(4,5)] .
  assume run: "(worker_step clk u contents)\<^sup>*\<^sup>* s t" "c < length (worker_pcs t)" "worker_pcs t ! c \<noteq> Finished"
  show "\<exists>v. coroutine_func_f clk u contents c t = Some v"
    using worker_can_move [OF assms(2) run_inv(1) [OF assms(1-3) run(1)]
        run_worlds_inv [OF assms(1-3) run(1) assms(4,5)] assms(4,5) run(2,3)] .
qed

theorem sorter_terminates_witness:
  "\<exists>s v. solution_setup zero_time 1000 2 [''a'', ''b''] = Some s \<and>
    (worker_step (\<lambda>_ _. zero_time) (\<lambda>_. 0) [''2 1'', ''3''])\<^sup>*\<^sup>* s v \<and> set (worker_pcs v) \<subseteq> {Finished}"
proof -
  obtain s where "solution_setup zero_time 1000 2 [''a'', ''b''] = Some s" by (rule two_files_setup)
  then show ?thesis using sorter_terminates [OF _ two_files_scanned _ two_files_room] by fastforce
qed

text \<open>C5: No file is ever in the hands of two coroutines: two coroutines that are both sorting sort
  different files.\<close>

theorem files_sorted_by_one_coroutine:
  assumes "solution_setup t0 lat n args = Some s" "scanned contents vss" "length args = length vss"
    "(worker_step clk u contents)\<^sup>*\<^sup>* s t"
    "c < length (worker_pcs t)" "d < length (worker_pcs t)" "c \<noteq> d"
    "worker_pcs t ! c = Sorting i" "worker_pcs t ! d = Sorting j"
  shows "i \<noteq> j"
proof
  assume "i = j"
  have "count_list (worker_pcs t) (Sorting i) \<le> 1"
    using run_inv(1) [OF assms(1-4)] by (simp add: workers_inv_def held_once_def)
  moreover have "card {c, d} \<le> card {k. k < length (worker_pcs t) \<and> Sorting i = worker_pcs t ! k}"
    using assms(5,6,8,9) \<open>i = j\<close> by (intro card_mono) auto
  then have "card {c, d} \<le> count_list (worker_pcs t) (Sorting i)"
    by (simp only: count_list_eq_length_filter length_filter_conv_card)
  ultimately show False using assms(7) by simp
qed

theorem files_sorted_by_one_coroutine_witness:
  "\<exists>s t. solution_setup zero_time 1000 2 [''a'', ''b''] = Some s \<and>
    run_schedule (\<lambda>_ _. zero_time) (\<lambda>_. 0) [''2 1'', ''3''] [0, 1, 1, 0] s = Some t \<and>
    worker_pcs t = [Sorting 1, Sorting 0] \<and> (1 :: int) \<noteq> 0"
proof -
  obtain s where s: "solution_setup zero_time 1000 2 [''a'', ''b''] = Some s"
    "worker_pcs s = [Starting, Starting]" "starting_sys [''a'', ''b''] s"
    by (rule two_files_setup)
  then obtain t where t: "run_schedule (\<lambda>_ _. zero_time) (\<lambda>_. 0) [''2 1'', ''3''] [0, 1, 1, 0] s = Some t"
    "worker_pcs t = [Sorting 1, Sorting 0]"
    by (simp add: coroutine_func_f_def Let_def starting_sys_def)
  then show ?thesis
    using files_sorted_by_one_coroutine [OF s(1) two_files_scanned _ run_schedule_steps [OF t(1)], of 0 1 1 0]
      s(1) by simp
qed

text \<open>For any positive number of coroutines and any latency that are ints, what main sets up
  succeeds: no overflow of the quantum, of the file queue or of the 16-byte name buffer.\<close>

theorem setup_succeeds:
  assumes "0 < n" "int_ok n" "int_ok lat"
  shows "\<exists>s. solution_setup t0 lat n args = Some s \<and> worker_pcs s = replicate (nat n) Starting \<and>
    file_names (shared_file_queue s) = args \<and> starting_sys args s"
  by (rule solution_setup_ok [OF assms])

theorem setup_succeeds_witness:
  "\<exists>s. solution_setup zero_time (-7) 2147483647 [''a''] = Some s \<and> file_names (shared_file_queue s) = [''a'']"
  using setup_succeeds [of 2147483647 "-7" zero_time "[''a'']"] by (auto simp: int_ok_def)

text \<open>With no coroutine at all (a negative count on the command line) and at least one file,
  the merge runs at once and dereferences the null pointer of the first file.\<close>

theorem no_coroutine_merge_undefined:
  assumes "solution_setup t0 lat n args = Some s" "n < 0" "args \<noteq> []"
  shows "worker_pcs s = [] \<and> output_merged_sorted_numbers_to_file (shared_file_queue s) = None"
proof -
  have "starting_sys args s" "worker_pcs s = []" using solution_setup_starts [OF assms(1)] assms(2) by auto
  moreover obtain a as where "args = a # as" using assms(3) by (cases args) auto
  ultimately have "find_minimum_loop (shared_file_queue s) (replicate (nat (file_count (shared_file_queue s))) 0)
      0 None (-1) = None"
    by (subst find_minimum_loop.simps) (simp add: starting_sys_def cget_def)
  then show ?thesis
    using \<open>worker_pcs s = []\<close> by (simp add: output_merged_sorted_numbers_to_file_def merge_loop.simps)
qed

theorem no_coroutine_merge_undefined_witness:
  "\<exists>s. solution_setup zero_time 1000 (-1) [''a''] = Some s \<and>
    output_merged_sorted_numbers_to_file (shared_file_queue s) = None"
proof -
  have "\<exists>s. solution_setup zero_time 1000 (-1) [''a''] = Some s"
    using create_file_queue_args [of "[''a'']"]
    by (simp add: solution_setup_def signed_divide_int_def int_ok_def)
  then show ?thesis using no_coroutine_merge_undefined by fastforce
qed

end
