(* ===== verification/Linked_Heap.thy ===== *)
theory Linked_Heap
  imports Prelude
begin

text \<open>
  Doubly linked lists in a heap of nodes. The coroutine list of libcoro.c and the file and block
  lists of userfs.c are lists of this kind with node records of their own; what they have in
  common is the pair of link fields. The segment predicate follows the links, the locale states
  the laws of the link fields, and its lemmas say what the pointer updates of the C code do to a
  segment.
\<close>

section \<open>Segments\<close>

text \<open>
  dlseg nxt prv h b p xs a: from pointer p the nodes xs follow each other through nxt, the last
  one points to a, and every prv points back, the first one to b.
\<close>

fun dlseg :: "('n \<Rightarrow> ptr option) \<Rightarrow> ('n \<Rightarrow> ptr option) \<Rightarrow> (ptr \<rightharpoonup> 'n) \<Rightarrow> ptr option \<Rightarrow> ptr option
    \<Rightarrow> ptr list \<Rightarrow> ptr option \<Rightarrow> bool" where
  "dlseg nxt prv h b p [] a \<longleftrightarrow> p = a"
| "dlseg nxt prv h b p (x # xs) a \<longleftrightarrow> p = Some x \<and>
     (case h x of None \<Rightarrow> False | Some n \<Rightarrow> prv n = b \<and> dlseg nxt prv h (Some x) (nxt n) xs a)"

definition last_or :: "ptr option \<Rightarrow> ptr list \<Rightarrow> ptr option" where
  "last_or b xs = (if xs = [] then b else Some (last xs))"

definition hd_or :: "ptr list \<Rightarrow> ptr option \<Rightarrow> ptr option" where
  "hd_or xs a = (if xs = [] then a else Some (hd xs))"

lemma last_or_simps [simp]:
  "last_or b [] = b" "last_or b (x # xs) = last_or (Some x) xs" "last_or b (xs @ [x]) = Some x"
  by (auto simp: last_or_def)

lemma hd_or_simps [simp]: "hd_or [] a = a" "hd_or (x # xs) a = Some x"
  by (auto simp: hd_or_def)

lemma last_or_append [simp]: "last_or b (xs @ ys) = last_or (last_or b xs) ys"
  by (simp add: last_or_def)

lemma hd_or_append [simp]: "hd_or (xs @ ys) a = hd_or xs (hd_or ys a)"
  by (simp add: hd_or_def)

lemma dlseg_entry: "dlseg nxt prv h b p xs a \<Longrightarrow> p = hd_or xs a"
  by (cases xs) auto

lemma dlseg_append:
  "dlseg nxt prv h b p (xs @ ys) a \<longleftrightarrow>
   dlseg nxt prv h b p xs (hd_or ys a) \<and> dlseg nxt prv h (last_or b xs) (hd_or ys a) ys a"
proof (induction xs arbitrary: b p)
  case Nil
  then show ?case by (auto dest: dlseg_entry)
qed (auto split: option.splits)

lemma dlseg_allocated: "dlseg nxt prv h b p xs a \<Longrightarrow> x \<in> set xs \<Longrightarrow> \<exists>n. h x = Some n"
  by (induction xs arbitrary: b p) (auto split: option.splits)

lemma dlseg_cong:
  "(\<And>x. x \<in> set xs \<Longrightarrow> h x = h' x) \<Longrightarrow> dlseg nxt prv h b p xs a = dlseg nxt prv h' b p xs a"
  by (induction xs arbitrary: b p) (auto split: option.splits)

text \<open>Only the link fields matter.\<close>

lemma dlseg_links_cong:
  "(\<And>x. x \<in> set xs \<Longrightarrow>
     map_option (\<lambda>n. (nxt n, prv n)) (h x) = map_option (\<lambda>n. (nxt n, prv n)) (h' x)) \<Longrightarrow>
   dlseg nxt prv h b p xs a = dlseg nxt prv h' b p xs a"
proof (induction xs arbitrary: b p)
  case (Cons x xs)
  have "map_option (\<lambda>n. (nxt n, prv n)) (h x) = map_option (\<lambda>n. (nxt n, prv n)) (h' x)"
    using Cons.prems by simp
  moreover have "dlseg nxt prv h b' p' xs a = dlseg nxt prv h' b' p' xs a" for b' p'
    using Cons.IH Cons.prems by simp
  ultimately show ?case by (auto split: option.splits)
qed simp

lemma dlseg_outside: "y \<notin> set xs \<Longrightarrow> dlseg nxt prv (h(y := v)) b p xs a = dlseg nxt prv h b p xs a"
  by (rule dlseg_cong) auto

lemma dlseg_unique:
  "dlseg nxt prv h b p xs None \<Longrightarrow> dlseg nxt prv h b p ys None \<Longrightarrow> xs = ys"
proof (induction xs arbitrary: b p ys)
  case Nil
  then show ?case by (cases ys) auto
next
  case (Cons x xs)
  then show ?case by (cases ys) (auto split: option.splits)
qed

text \<open>The neighbours of a node, read off its position.\<close>

lemma dlseg_at:
  assumes "dlseg nxt prv h b p (xs @ x # ys) a" "h x = Some n"
  shows "nxt n = hd_or ys a" "prv n = last_or b xs"
  using assms by (auto simp: dlseg_append dest: dlseg_entry)

section \<open>Sums over a heap\<close>

definition heap_sum :: "('n \<Rightarrow> 'm) \<Rightarrow> (ptr \<rightharpoonup> 'n) \<Rightarrow> 'm :: comm_monoid_add" where
  "heap_sum f h = (\<Sum>p\<in>dom h. f (the (h p)))"

lemma heap_sum_empty [simp]: "heap_sum f Map.empty = 0"
  by (simp add: heap_sum_def)

lemma heap_sum_new:
  assumes "finite (dom h)" "h p = None"
  shows "heap_sum f (h(p \<mapsto> n)) = f n + heap_sum f h"
proof -
  have "(\<Sum>q\<in>dom h. f (the ((h(p \<mapsto> n)) q))) = (\<Sum>q\<in>dom h. f (the (h q)))"
    using assms(2) by (intro sum.cong) (auto simp: dom_def)
  moreover have "p \<notin> dom h" using assms(2) by auto
  ultimately show ?thesis using assms(1) by (simp add: heap_sum_def)
qed

lemma heap_sum_split:
  assumes "finite (dom h)" "h p = Some n"
  shows "heap_sum f h = f n + heap_sum f (h(p := None))"
proof -
  have "h = (h(p := None))(p \<mapsto> n)" using assms(2) by auto
  then show ?thesis using heap_sum_new [of "h(p := None)" p f n] assms(1) by simp
qed

lemma heap_sum_update:
  assumes "finite (dom h)" "h p = Some m"
  shows "heap_sum f (h(p \<mapsto> n)) = f n + heap_sum f (h(p := None))"
  using heap_sum_split [of "h(p \<mapsto> n)" p n f] assms by simp

lemma heap_sum_same:
  assumes "finite (dom h)" "h p = Some m" "f n = f m"
  shows "heap_sum f (h(p \<mapsto> n)) = heap_sum f h"
  using heap_sum_split [OF assms(1,2), of f] heap_sum_update [OF assms(1,2), of f n] assms(3) by simp

section \<open>The laws of the link fields\<close>

locale link_fields =
  fixes nxt :: "'n \<Rightarrow> ptr option" and prv :: "'n \<Rightarrow> ptr option"
    and set_nxt :: "ptr option \<Rightarrow> 'n \<Rightarrow> 'n" and set_prv :: "ptr option \<Rightarrow> 'n \<Rightarrow> 'n"
  assumes nxt_set_nxt [simp]: "nxt (set_nxt q n) = q"
    and nxt_set_prv [simp]: "nxt (set_prv q n) = nxt n"
    and prv_set_prv [simp]: "prv (set_prv q n) = q"
    and prv_set_nxt [simp]: "prv (set_nxt q n) = prv n"
begin

lemma relink_first:
  assumes "dlseg nxt prv h b p (x # xs) a" "x \<notin> set xs" "h x = Some n"
  shows "dlseg nxt prv (h(x \<mapsto> set_prv b' n)) b' p (x # xs) a"
  using assms by (simp add: dlseg_outside)

lemma relink_last:
  assumes "dlseg nxt prv h b p (xs @ [x]) a" "x \<notin> set xs" "h x = Some n"
  shows "dlseg nxt prv (h(x \<mapsto> set_nxt a' n)) b p (xs @ [x]) a'"
  using assms by (auto simp: dlseg_append dlseg_outside)

text \<open>A node put in front of a list.\<close>

lemma push_front:
  assumes "dlseg nxt prv h None p xs None" "distinct xs" "x \<notin> set xs" "nxt n = p" "prv n = None"
    and "h' = (case p of None \<Rightarrow> h(x \<mapsto> n) | Some y \<Rightarrow> h(x \<mapsto> n, y \<mapsto> set_prv (Some x) (the (h y))))"
  shows "dlseg nxt prv h' None (Some x) (x # xs) None"
proof (cases xs)
  case Nil
  then show ?thesis using assms by simp
next
  case (Cons y ys)
  then obtain m where y: "p = Some y" "h y = Some m" using assms(1) by (auto split: option.splits)
  have "dlseg nxt prv (h(x \<mapsto> n)) None p xs None" using assms(1,3) by (simp add: dlseg_outside)
  then have "dlseg nxt prv (h(x \<mapsto> n, y \<mapsto> set_prv (Some x) m)) (Some x) p xs None"
    using relink_first [of "h(x \<mapsto> n)" None p y ys None m] assms(2,3) y Cons by auto
  then show ?thesis using assms y Cons by auto
qed

text \<open>A node put at the end of a list.\<close>

lemma push_back:
  assumes "dlseg nxt prv h b p (xs @ [x]) None" "distinct (xs @ [x])" "y \<notin> set (xs @ [x])"
    "h x = Some m" "nxt n = None" "prv n = Some x"
  shows "dlseg nxt prv (h(y \<mapsto> n, x \<mapsto> set_nxt (Some y) m)) b p (xs @ [x, y]) None"
proof -
  have "dlseg nxt prv (h(y \<mapsto> n)) b p (xs @ [x]) None"
    using assms(1,3) by (simp add: dlseg_outside)
  then have "dlseg nxt prv (h(y \<mapsto> n, x \<mapsto> set_nxt (Some y) m)) b p (xs @ [x]) (Some y)"
    using relink_last [of "h(y \<mapsto> n)" b p xs x None m "Some y"] assms(2,3,4) by auto
  moreover have "dlseg nxt prv (h(y \<mapsto> n, x \<mapsto> set_nxt (Some y) m)) (Some x) (Some y) [y] None"
    using assms(3,5,6) by auto
  ultimately show ?thesis
    using dlseg_append [of nxt prv "h(y \<mapsto> n, x \<mapsto> set_nxt (Some y) m)" b p "xs @ [x]" "[y]" None]
    by simp
qed

text \<open>
  The heap after the C code has taken a node with links (b, a) out of its list: the node before
  points past it and the node after points back past it.
\<close>

lemma unlink:
  assumes seg: "dlseg nxt prv h None p (xs @ x # ys) None" and d: "distinct (xs @ x # ys)"
    and h': "h' = (case last_or None xs of None \<Rightarrow> h
        | Some l \<Rightarrow> h(l \<mapsto> set_nxt (hd_or ys None) (the (h l))))"
    and h'': "h'' = (case hd_or ys None of None \<Rightarrow> h'
        | Some r \<Rightarrow> h'(r \<mapsto> set_prv (last_or None xs) (the (h' r))))"
  shows "dlseg nxt prv h'' None (hd_or (xs @ ys) None) (xs @ ys) None"
proof -
  have xs: "dlseg nxt prv h None p xs (Some x)" using seg by (simp add: dlseg_append)
  obtain n where "dlseg nxt prv h (Some x) (nxt n) ys None"
    using seg by (auto simp: dlseg_append split: option.splits)
  then have ys: "dlseg nxt prv h (Some x) (hd_or ys None) ys None"
    using dlseg_entry by metis
  have xs': "dlseg nxt prv h' None (hd_or xs (hd_or ys None)) xs (hd_or ys None)"
  proof (cases xs rule: rev_cases)
    case (snoc zs l)
    then obtain n where n: "h l = Some n" using dlseg_allocated [OF xs] by auto
    have "p = hd_or xs (hd_or ys None)" using xs snoc by (auto dest!: dlseg_entry simp: hd_or_def)
    then show ?thesis
      using relink_last [of h None p zs l "Some x" n "hd_or ys None"] xs snoc d n h' by auto
  qed simp
  have frame: "h' y = h y" if "y \<in> set ys" for y
    using that d h' by (cases xs rule: rev_cases) auto
  have ys': "dlseg nxt prv h' (Some x) (hd_or ys None) ys None"
    using ys dlseg_cong [of ys h' h] frame by blast
  have "dlseg nxt prv h'' (last_or None xs) (hd_or ys None) ys None"
  proof (cases ys)
    case (Cons r zs)
    then obtain n where "h' r = Some n" using dlseg_allocated [OF ys'] by auto
    then show ?thesis
      using relink_first [of h' "Some x" "Some r" r zs None n "last_or None xs"] ys' Cons d h'' by auto
  qed simp
  moreover have "dlseg nxt prv h'' None (hd_or xs (hd_or ys None)) xs (hd_or ys None)"
  proof (cases ys)
    case Nil
    then show ?thesis using xs' h'' by simp
  next
    case (Cons r zs)
    then show ?thesis using xs' d h'' by (auto simp: dlseg_outside)
  qed
  ultimately show ?thesis by (simp add: dlseg_append)
qed

end

end
