(* ===== verification/Coro_Sched.thy ===== *)
theory Coro_Sched
  imports Linked_Heap
begin

text \<open>
  The cooperative scheduler of 1/libcoro.c: the doubly linked list of coroutines, yielding to the
  next one in the list or back to the scheduler, and coro_sched_wait, which hands the finished
  coroutines to the program one by one. A sigsetjmp/siglongjmp pair is a transfer of control: the
  saved context of a coroutine is the rest of its script, and a jump to a context that is not
  there (a freed or finished coroutine, a scheduler that is not waiting) is undefined (None).
\<close>

section \<open>State\<close>

text \<open>
  What the function of a coroutine does, as far as the scheduler sees it: it yields, creates
  other coroutines, and finally returns a status.
\<close>

datatype action = Do_Yield | Do_New "action list" int

type_synonym script = "action list \<times> int"

record coro =
  ret :: int
  ctx :: script
  is_finished :: bool
  switch_count :: int
  c_next :: "ptr option"
  c_prev :: "ptr option"

datatype who = Sched | Coro ptr

record sched_state =
  heap :: "ptr \<rightharpoonup> coro"
  malloc_at :: ptr
  sched_switch_count :: int
  is_sched_waiting :: bool
  coro_this_ptr :: "who option"
  coro_list :: "ptr option"
  exited :: bool
  reaped :: "int list"

text \<open>
  The last two fields are what the outside sees: whether the process exited in coro_body, and the
  statuses that the loop around coro_sched_wait in main has printed.
\<close>

section \<open>The list of coroutines\<close>

definition coro_list_add :: "ptr \<Rightarrow> sched_state \<Rightarrow> sched_state option" where
  "coro_list_add c s = do {
     n \<leftarrow> heap s c;
     s \<leftarrow> Some (s\<lparr>heap := (heap s)(c \<mapsto> n\<lparr>c_next := coro_list s, c_prev := None\<rparr>)\<rparr>);
     s \<leftarrow> (case coro_list s of
             None \<Rightarrow> Some s
           | Some q \<Rightarrow> do { m \<leftarrow> heap s q; Some (s\<lparr>heap := (heap s)(q \<mapsto> m\<lparr>c_prev := Some c\<rparr>)\<rparr>) });
     Some (s\<lparr>coro_list := Some c\<rparr>) }"

definition coro_list_delete :: "ptr \<Rightarrow> sched_state \<Rightarrow> sched_state option" where
  "coro_list_delete c s = do {
     n \<leftarrow> heap s c;
     let prev = c_prev n;
     let next = c_next n;
     s \<leftarrow> (case prev of
             None \<Rightarrow> Some s
           | Some p \<Rightarrow> do { m \<leftarrow> heap s p; Some (s\<lparr>heap := (heap s)(p \<mapsto> m\<lparr>c_next := next\<rparr>)\<rparr>) });
     s \<leftarrow> (case next of
             None \<Rightarrow> Some s
           | Some q \<Rightarrow> do { m \<leftarrow> heap s q; Some (s\<lparr>heap := (heap s)(q \<mapsto> m\<lparr>c_prev := prev\<rparr>)\<rparr>) });
     Some (if prev = None then s\<lparr>coro_list := next\<rparr> else s) }"

definition coro_status :: "ptr \<Rightarrow> sched_state \<Rightarrow> int option" where
  "coro_status c s = map_option ret (heap s c)"

definition coro_switch_count :: "ptr \<Rightarrow> sched_state \<Rightarrow> int option" where
  "coro_switch_count c s = map_option switch_count (heap s c)"

definition coro_is_finished :: "ptr \<Rightarrow> sched_state \<Rightarrow> bool option" where
  "coro_is_finished c s = map_option is_finished (heap s c)"

definition coro_delete :: "ptr \<Rightarrow> sched_state \<Rightarrow> sched_state option" where
  "coro_delete c s = do { _ \<leftarrow> heap s c; Some (s\<lparr>heap := (heap s)(c := None)\<rparr>) }"

section \<open>Transfer of control\<close>

text \<open>
  The landing of a siglongjmp, for a jump to another coroutine than the one that saved its
  context last (a coroutine that yields to itself lands where it is): the target sets coro_this_ptr to itself, and the scheduler, which
  only ever jumps away inside coro_sched_wait, clears is_sched_waiting.
\<close>

definition jump_to :: "who \<Rightarrow> sched_state \<Rightarrow> sched_state option" where
  "jump_to target s =
     (case target of
        Sched \<Rightarrow> if is_sched_waiting s
                 then Some (s\<lparr>coro_this_ptr := Some Sched, is_sched_waiting := False\<rparr>) else None
      | Coro c \<Rightarrow> do { n \<leftarrow> heap s c;
                      if is_finished n then None else Some (s\<lparr>coro_this_ptr := Some (Coro c)\<rparr>) })"

definition coro_yield_to :: "who \<Rightarrow> sched_state \<Rightarrow> sched_state option" where
  "coro_yield_to target s = do {
     from_coro \<leftarrow> coro_this_ptr s;
     s \<leftarrow> (case from_coro of
             Sched \<Rightarrow> Some (s\<lparr>sched_switch_count := sched_switch_count s + 1\<rparr>)
           | Coro c \<Rightarrow> do { n \<leftarrow> heap s c;
               Some (s\<lparr>heap := (heap s)(c \<mapsto> n\<lparr>switch_count := switch_count n + 1\<rparr>)\<rparr>) });
     if target = from_coro then Some (s\<lparr>coro_this_ptr := Some from_coro\<rparr>) else jump_to target s }"

definition coro_yield :: "sched_state \<Rightarrow> sched_state option" where
  "coro_yield s = do {
     from_coro \<leftarrow> coro_this_ptr s;
     next \<leftarrow> (case from_coro of Sched \<Rightarrow> Some None | Coro c \<Rightarrow> map_option c_next (heap s c));
     (case next of None \<Rightarrow> coro_yield_to Sched s | Some c \<Rightarrow> coro_yield_to (Coro c) s) }"

definition coro_sched_init :: "sched_state" where
  "coro_sched_init =
     \<lparr>heap = Map.empty, malloc_at = 0, sched_switch_count = 0, is_sched_waiting = False,
      coro_this_ptr = Some Sched, coro_list = None, exited = False, reaped = []\<rparr>"

definition coro_this :: "sched_state \<Rightarrow> who option" where
  "coro_this s = coro_this_ptr s"

text \<open>
  The constructor. The detour through the signal handler saves the new coroutine's first context
  and puts coro_this_ptr back, so all that is left is the structure, now in the list.
\<close>

definition coro_new :: "action list \<Rightarrow> int \<Rightarrow> sched_state \<Rightarrow> (ptr \<times> sched_state) option" where
  "coro_new body status s = do {
     c \<leftarrow> Some (malloc_at s);
     s \<leftarrow> Some (s\<lparr>malloc_at := c + 1,
                  heap := (heap s)(c \<mapsto> \<lparr>ret = 0, ctx = (body, status), is_finished = False,
                                        switch_count = 0, c_next = None, c_prev = None\<rparr>)\<rparr>);
     s \<leftarrow> coro_list_add c s;
     Some (c, s) }"

text \<open>The end of coro_body: the function has returned the status v.\<close>

definition coro_finish :: "ptr \<Rightarrow> int \<Rightarrow> sched_state \<Rightarrow> sched_state option" where
  "coro_finish c v s = do {
     n \<leftarrow> heap s c;
     s \<leftarrow> Some (s\<lparr>heap := (heap s)(c \<mapsto> n\<lparr>ret := v, is_finished := True\<rparr>)\<rparr>);
     if \<not> is_sched_waiting s then Some (s\<lparr>exited := True\<rparr>) else jump_to Sched s }"

text \<open>One move of the running coroutine: the next call its function makes.\<close>

definition coro_body_step :: "ptr \<Rightarrow> sched_state \<Rightarrow> sched_state option" where
  "coro_body_step c s = do {
     n \<leftarrow> heap s c;
     (case ctx n of
        ([], v) \<Rightarrow> coro_finish c v s
      | (Do_Yield # rest, v) \<Rightarrow> coro_yield (s\<lparr>heap := (heap s)(c \<mapsto> n\<lparr>ctx := (rest, v)\<rparr>)\<rparr>)
      | (Do_New body status # rest, v) \<Rightarrow>
          map_option snd (coro_new body status (s\<lparr>heap := (heap s)(c \<mapsto> n\<lparr>ctx := (rest, v)\<rparr>)\<rparr>))) }"

section \<open>Waiting for a coroutine\<close>

partial_function (option) find_finished :: "(ptr \<rightharpoonup> coro) \<Rightarrow> ptr option \<Rightarrow> ptr option option" where
  "find_finished h p =
     (case p of
        None \<Rightarrow> Some None
      | Some c \<Rightarrow> do { n \<leftarrow> h c; if is_finished n then Some (Some c) else find_finished h (c_next n) })"

datatype wait_outcome = Returned ptr | Returned_NULL | Switched_Away

text \<open>One round of the loop of coro_sched_wait; after Switched_Away the loop goes on when control is back.\<close>

definition coro_sched_wait_round :: "sched_state \<Rightarrow> (wait_outcome \<times> sched_state) option" where
  "coro_sched_wait_round s =
     (case coro_list s of
        None \<Rightarrow> Some (Returned_NULL, s)
      | Some first \<Rightarrow> do {
          found \<leftarrow> find_finished (heap s) (Some first);
          (case found of
             Some c \<Rightarrow> do { s \<leftarrow> coro_list_delete c s; Some (Returned c, s) }
           | None \<Rightarrow> do { s \<leftarrow> coro_yield_to (Coro first) (s\<lparr>is_sched_waiting := True\<rparr>);
                         Some (Switched_Away, s) }) })"

text \<open>
  The loop of main: wait for a coroutine, print its status, delete it; over when
  coro_sched_wait returns NULL.
\<close>

definition main_round :: "sched_state \<Rightarrow> (bool \<times> sched_state) option" where
  "main_round s = do {
     (out, s) \<leftarrow> coro_sched_wait_round s;
     (case out of
        Returned_NULL \<Rightarrow> Some (False, s)
      | Switched_Away \<Rightarrow> Some (True, s)
      | Returned c \<Rightarrow> do {
          v \<leftarrow> coro_status c s;
          s \<leftarrow> coro_delete c (s\<lparr>reaped := reaped s @ [v]\<rparr>);
          Some (True, s) }) }"

text \<open>One step of the process, whoever is running; False when the loop of main is over.\<close>

definition process_step :: "sched_state \<Rightarrow> (bool \<times> sched_state) option" where
  "process_step s = do {
     running \<leftarrow> coro_this_ptr s;
     (case running of
        Sched \<Rightarrow> main_round s
      | Coro c \<Rightarrow> map_option (\<lambda>s. (True, s)) (coro_body_step c s)) }"

partial_function (option) run_process :: "sched_state \<Rightarrow> sched_state option" where
  "run_process s = do {
     (more, s) \<leftarrow> process_step s;
     if more then run_process s else Some s }"

section \<open>The invariant\<close>

interpretation coros: link_fields c_next c_prev "\<lambda>q n. n\<lparr>c_next := q\<rparr>" "\<lambda>q n. n\<lparr>c_prev := q\<rparr>"
  by unfold_locales simp_all

abbreviation coro_seg :: "(ptr \<rightharpoonup> coro) \<Rightarrow> ptr option \<Rightarrow> ptr option \<Rightarrow> ptr list \<Rightarrow> ptr option \<Rightarrow> bool" where
  "coro_seg \<equiv> dlseg c_next c_prev"

text \<open>A coroutine but for its links.\<close>

definition core :: "coro \<Rightarrow> coro" where
  "core n = n\<lparr>c_next := None, c_prev := None\<rparr>"

lemma core_links [simp]: "core (n\<lparr>c_next := q\<rparr>) = core n" "core (n\<lparr>c_prev := q\<rparr>) = core n"
  by (simp_all add: core_def)

text \<open>The list holds exactly the allocated coroutines.\<close>

definition sched_list :: "sched_state \<Rightarrow> ptr list \<Rightarrow> bool" where
  "sched_list s ps \<longleftrightarrow> coro_seg (heap s) None (coro_list s) ps None \<and> distinct ps \<and>
     dom (heap s) = set ps \<and> (\<forall>p\<in>set ps. p < malloc_at s)"

text \<open>
  While a coroutine runs, the scheduler waits for it and no coroutine of the list is finished;
  while the scheduler runs, it is not waiting.
\<close>

definition control_ok :: "sched_state \<Rightarrow> bool" where
  "control_ok s \<longleftrightarrow> \<not> exited s \<and>
     (case coro_this_ptr s of
        None \<Rightarrow> False
      | Some Sched \<Rightarrow> \<not> is_sched_waiting s
      | Some (Coro c) \<Rightarrow> is_sched_waiting s \<and> c \<in> dom (heap s) \<and> (\<forall>n\<in>ran (heap s). \<not> is_finished n))"

definition sched_inv :: "sched_state \<Rightarrow> bool" where
  "sched_inv s \<longleftrightarrow> control_ok s \<and> (\<exists>ps. sched_list s ps)"

lemma sched_list_finite: "sched_list s ps \<Longrightarrow> finite (dom (heap s))"
  by (simp add: sched_list_def)

lemma sched_list_keep:
  assumes "sched_list s ps" "heap s p = Some m" "c_next n = c_next m" "c_prev n = c_prev m"
    and "heap t = (heap s)(p \<mapsto> n)" "coro_list t = coro_list s" "malloc_at t = malloc_at s"
  shows "sched_list t ps"
proof -
  have "coro_seg (heap t) None (coro_list s) ps None = coro_seg (heap s) None (coro_list s) ps None"
    using assms(2-5) by (intro dlseg_links_cong) auto
  moreover have "dom (heap t) = dom (heap s)" using assms(2,5) by auto
  ultimately show ?thesis using assms by (simp add: sched_list_def)
qed

lemma coro_list_add_spec:
  assumes "coro_seg (heap s) None (coro_list s) ps None" "distinct ps" "set ps \<subseteq> dom (heap s)"
    "heap s c = Some n" "c \<notin> set ps"
  obtains h where "coro_list_add c s = Some (s\<lparr>heap := h, coro_list := Some c\<rparr>)"
    "coro_seg h None (Some c) (c # ps) None" "dom h = dom (heap s)"
    "\<And>p. map_option core (h p)
       = map_option core (heap s p)"
proof -
  let ?n = "n\<lparr>c_next := coro_list s, c_prev := None\<rparr>"
  define h where "h = (case coro_list s of None \<Rightarrow> (heap s)(c \<mapsto> ?n)
    | Some y \<Rightarrow> (heap s)(c \<mapsto> ?n, y \<mapsto> (the (heap s y))\<lparr>c_prev := Some c\<rparr>))"
  have seg: "coro_seg h None (Some c) (c # ps) None"
    using coros.push_front [of "heap s" "coro_list s" ps c ?n h] assms by (simp add: h_def)
  show ?thesis
  proof (cases "coro_list s")
    case None
    then have "coro_list_add c s = Some (s\<lparr>heap := h, coro_list := Some c\<rparr>)"
      "dom h = dom (heap s)" "h = (heap s)(c \<mapsto> ?n)"
      using assms(4) by (auto simp: coro_list_add_def h_def)
    then show ?thesis using that [OF _ seg] assms(4) by simp
  next
    case (Some y)
    then have "y \<in> set ps" using assms(1) by (cases ps) auto
    then obtain m where "heap s y = Some m" "y \<noteq> c" using assms(3,5) by blast
    then have "coro_list_add c s = Some (s\<lparr>heap := h, coro_list := Some c\<rparr>)"
      "dom h = dom (heap s)" "h = (heap s)(c \<mapsto> ?n, y \<mapsto> m\<lparr>c_prev := Some c\<rparr>)"
      using assms(4) Some by (auto simp: coro_list_add_def h_def)
    then show ?thesis using that [OF _ seg] assms(4) \<open>heap s y = Some m\<close> \<open>y \<noteq> c\<close> by simp
  qed
qed

lemma coro_new_spec:
  assumes "sched_list s ps"
  obtains h where "coro_new body v s = Some (malloc_at s,
      s\<lparr>heap := h, coro_list := Some (malloc_at s), malloc_at := malloc_at s + 1\<rparr>)"
    "sched_list (s\<lparr>heap := h, coro_list := Some (malloc_at s), malloc_at := malloc_at s + 1\<rparr>)
      (malloc_at s # ps)"
    "\<And>p. map_option core (h p)
       = map_option core
          (((heap s)(malloc_at s \<mapsto> \<lparr>ret = 0, ctx = (body, v), is_finished = False, switch_count = 0,
             c_next = None, c_prev = None\<rparr>)) p)"
proof -
  let ?c = "malloc_at s"
  let ?n = "\<lparr>ret = 0, ctx = (body, v), is_finished = False, switch_count = 0,
    c_next = None, c_prev = None\<rparr>"
  let ?s = "s\<lparr>malloc_at := ?c + 1, heap := (heap s)(?c \<mapsto> ?n)\<rparr>"
  have c: "?c \<notin> set ps" using assms by (auto simp: sched_list_def)
  have seg: "coro_seg (heap ?s) None (coro_list ?s) ps None"
    using assms c by (simp add: sched_list_def dlseg_outside)
  have "set ps \<subseteq> dom (heap ?s)" "distinct ps" "heap ?s ?c = Some ?n"
    using assms by (auto simp: sched_list_def)
  then obtain h where h: "coro_list_add ?c ?s = Some (?s\<lparr>heap := h, coro_list := Some ?c\<rparr>)"
    "coro_seg h None (Some ?c) (?c # ps) None" "dom h = dom (heap ?s)"
    "\<And>p. map_option core (h p)
       = map_option core (heap ?s p)"
    using coro_list_add_spec [OF seg, of ?c ?n] c by metis
  show ?thesis
  proof (rule that)
    show "coro_new body v s = Some (?c, s\<lparr>heap := h, coro_list := Some ?c, malloc_at := ?c + 1\<rparr>)"
      using h(1) by (simp add: coro_new_def)
    show "sched_list (s\<lparr>heap := h, coro_list := Some ?c, malloc_at := ?c + 1\<rparr>) (?c # ps)"
      using assms c h(2,3) by (auto simp: sched_list_def)
  qed (use h(4) in simp)
qed

lemma coro_list_delete_spec:
  assumes "sched_list s ps" "c \<in> set ps"
  obtains h p where "coro_list_delete c s = Some (s\<lparr>heap := h, coro_list := p\<rparr>)"
    "coro_seg (h(c := None)) None p (remove1 c ps) None" "dom h = dom (heap s)"
    "\<And>q. map_option core (h q)
       = map_option core (heap s q)"
proof -
  obtain xs ys where ps: "ps = xs @ c # ys" using assms(2) by (auto dest: split_list)
  have d: "distinct (xs @ c # ys)" and seg: "coro_seg (heap s) None (coro_list s) (xs @ c # ys) None"
    and dm: "dom (heap s) = set (xs @ c # ys)"
    using assms(1) ps by (auto simp: sched_list_def)
  obtain n where n: "heap s c = Some n" using dm by auto
  note links = dlseg_at [OF seg n]
  define h' where "h' = (case last_or None xs of None \<Rightarrow> heap s
      | Some l \<Rightarrow> (heap s)(l \<mapsto> (the (heap s l))\<lparr>c_next := hd_or ys None\<rparr>))"
  define h'' where "h'' = (case hd_or ys None of None \<Rightarrow> h'
      | Some r \<Rightarrow> h'(r \<mapsto> (the (h' r))\<lparr>c_prev := last_or None xs\<rparr>))"
  have unl: "coro_seg h'' None (hd_or (xs @ ys) None) (xs @ ys) None"
    using coros.unlink [OF seg d h'_def] h''_def by simp
  define xe where "xe = last_or None xs"
  define ye where "ye = hd_or ys None"
  have l: "l \<in> dom (heap s)" "l \<noteq> c" if "xe = Some l" for l
    using that dm d unfolding xe_def by (auto simp: last_or_def split: if_splits)
  have r: "r \<in> dom (heap s)" "r \<noteq> c" if "ye = Some r" for r
    using that dm d unfolding ye_def by (auto simp: hd_or_def split: if_splits)
  have lr: "l \<noteq> r" if "xe = Some l" "ye = Some r" for l r
    using that d unfolding xe_def ye_def
    by (auto simp: last_or_def hd_or_def split: if_splits) (metis IntI empty_iff hd_in_set last_in_set)
  define p' where "p' = hd_or (xs @ ys) None"
  have ye: "p' = ye" if "xe = None"
    using that unfolding p'_def xe_def ye_def by (cases xs) (auto simp: last_or_def split: if_splits)
  have head: "coro_list s = p'" if "xe \<noteq> None"
    using that dlseg_entry [OF seg] unfolding p'_def xe_def by (cases xs) auto
  have nxt: "c_next n = ye" and prv: "c_prev n = xe" using links by (simp_all add: xe_def ye_def)
  note h_defs = h'_def h''_def xe_def [symmetric] ye_def [symmetric]
  have del: "coro_list_delete c s = Some (s\<lparr>heap := h'', coro_list := p'\<rparr>) \<and>
    dom h'' = dom (heap s) \<and> (\<forall>q. map_option core (h'' q) = map_option core (heap s q))"
  proof (cases xe)
    case None
    show ?thesis
    proof (cases ye)
      case N: None
      then show ?thesis using None n nxt prv ye by (simp add: coro_list_delete_def h_defs)
    next
      case (Some b)
      then obtain m where "heap s b = Some m" using r by blast
      then show ?thesis using None Some n nxt prv ye by (auto simp: coro_list_delete_def h_defs)
    qed
  next
    case (Some a)
    then obtain k where k: "heap s a = Some k" using l by blast
    show ?thesis
    proof (cases ye)
      case None
      then show ?thesis using k Some n nxt prv head by (auto simp: coro_list_delete_def h_defs)
    next
      case S: (Some b)
      then obtain m where "heap s b = Some m" using r by blast
      moreover have "a \<noteq> b" using lr Some S by blast
      ultimately show ?thesis using S k Some n nxt prv head by (auto simp: coro_list_delete_def h_defs)
    qed
  qed
  have "coro_seg (h''(c := None)) None p' (remove1 c ps) None"
    using unl d ps by (simp add: remove1_append dlseg_outside p'_def)
  then show ?thesis
    using that del by metis
qed

section \<open>Work left and statuses owed\<close>

text \<open>Both look at a coroutine but not at its links.\<close>

fun acts_size :: "action list \<Rightarrow> nat" where
  "acts_size [] = 0"
| "acts_size (Do_Yield # r) = 1 + acts_size r"
| "acts_size (Do_New b v # r) = 3 + acts_size b + acts_size r"

fun acts_owed :: "action list \<Rightarrow> int multiset" where
  "acts_owed [] = {#}"
| "acts_owed (Do_Yield # r) = acts_owed r"
| "acts_owed (Do_New b v # r) = add_mset v (acts_owed b) + acts_owed r"

definition coro_weight :: "coro \<Rightarrow> nat" where
  "coro_weight n = (if is_finished n then 1 else 2 + acts_size (fst (ctx n)))"

definition coro_owed :: "coro \<Rightarrow> int multiset" where
  "coro_owed n = (if is_finished n then {#ret n#} else add_mset (snd (ctx n)) (acts_owed (fst (ctx n))))"

definition process_weight :: "sched_state \<Rightarrow> nat" where
  "process_weight s = 2 * heap_sum coro_weight (heap s) + (if coro_this_ptr s = Some Sched then 1 else 0)"

definition process_owed :: "sched_state \<Rightarrow> int multiset" where
  "process_owed s = mset (reaped s) + heap_sum coro_owed (heap s)"

lemma coro_weight_core: "coro_weight (core n) = coro_weight n"
  by (simp add: coro_weight_def core_def)

lemma coro_owed_core: "coro_owed (core n) = coro_owed n"
  by (simp add: coro_owed_def core_def)

lemma heap_sum_core:
  assumes "\<And>p. map_option core (h p) = map_option core (h' p)" "\<And>n. f (core n) = f n"
  shows "heap_sum f h = heap_sum f h'"
proof -
  have "dom h = dom h'"
    using assms(1) by (metis (mono_tags, lifting) domIff map_option_is_None subsetI subset_antisym)
  moreover have "f (the (h p)) = f (the (h' p))" if "p \<in> dom h" for p
    using assms(1) [of p] that by (cases "h p"; cases "h' p") (auto, metis assms(2))
  ultimately show ?thesis by (auto simp: heap_sum_def intro: sum.cong)
qed

lemma core_fields:
  "core n = core m \<Longrightarrow> is_finished n = is_finished m \<and> ret n = ret m \<and> ctx n = ctx m \<and>
     switch_count n = switch_count m"
  by (cases n; cases m) (simp add: core_def)

section \<open>Every step succeeds, keeps the invariant and makes progress\<close>

text \<open>The result of a step: no undefined behaviour, the invariant, the statuses still owed, less work.\<close>

definition good_step :: "sched_state \<Rightarrow> sched_state option \<Rightarrow> bool" where
  "good_step s r \<longleftrightarrow>
     (\<exists>t. r = Some t \<and> sched_inv t \<and> process_owed t = process_owed s \<and> process_weight t < process_weight s)"

lemma sched_inv_coroD:
  assumes "sched_inv s" "coro_this_ptr s = Some (Coro c)"
  obtains ps n where "sched_list s ps" "heap s c = Some n" "c \<in> set ps" "is_sched_waiting s"
    "\<not> exited s" "\<And>p m. heap s p = Some m \<Longrightarrow> \<not> is_finished m" "finite (dom (heap s))"
proof -
  obtain ps where ps: "sched_list s ps" using assms by (auto simp: sched_inv_def)
  have c: "is_sched_waiting s" "c \<in> dom (heap s)" "\<not> exited s" "\<forall>n\<in>ran (heap s). \<not> is_finished n"
    using assms by (auto simp: sched_inv_def control_ok_def)
  obtain n where n: "heap s c = Some n" using c(2) by blast
  show ?thesis
  proof (rule that [OF ps n])
    show "c \<in> set ps" using ps c(2) by (simp add: sched_list_def)
    show "\<not> is_finished m" if "heap s p = Some m" for p m using c(4) that by (auto simp: ran_def)
  qed (use c sched_list_finite [OF ps] in auto)
qed

lemma finish_step:
  assumes "sched_inv s" "coro_this_ptr s = Some (Coro c)" "heap s c = Some n" "ctx n = ([], v)"
  shows "good_step s (coro_finish c v s)"
proof -
  obtain ps where ps: "sched_list s ps" "is_sched_waiting s" "\<not> exited s" "finite (dom (heap s))"
    and nf: "\<not> is_finished n"
    using sched_inv_coroD [OF assms(1,2)] assms(3) by metis
  let ?n = "n\<lparr>ret := v, is_finished := True\<rparr>"
  let ?t = "s\<lparr>heap := (heap s)(c \<mapsto> ?n), coro_this_ptr := Some Sched, is_sched_waiting := False\<rparr>"
  have "coro_finish c v s = Some ?t"
    using assms(3) ps(2) by (simp add: coro_finish_def jump_to_def)
  moreover have "sched_list ?t ps" by (rule sched_list_keep [OF ps(1) assms(3)]) auto
  then have "sched_inv ?t" using ps(3) by (auto simp: sched_inv_def control_ok_def)
  moreover have "heap_sum coro_owed (heap ?t) = heap_sum coro_owed (heap s)"
    using heap_sum_same [OF ps(4) assms(3), of coro_owed ?n] nf assms(4) by (simp add: coro_owed_def)
  then have "process_owed ?t = process_owed s" by (simp add: process_owed_def)
  moreover have "process_weight ?t < process_weight s"
    using heap_sum_update [OF ps(4) assms(3), of coro_weight ?n] nf assms(2,4)
      heap_sum_split [OF ps(4) assms(3), of coro_weight]
    by (simp add: process_weight_def coro_weight_def)
  ultimately show ?thesis unfolding good_step_def by blast
qed

text \<open>A coroutine that gives up control after one more call: where control goes.\<close>

lemma yield_step:
  assumes "sched_inv s" "coro_this_ptr s = Some (Coro c)" "heap s c = Some n"
    "ctx n = (Do_Yield # rest, v)"
  shows "good_step s (coro_yield (s\<lparr>heap := (heap s)(c \<mapsto> n\<lparr>ctx := (rest, v)\<rparr>)\<rparr>))"
proof -
  obtain ps where ps: "sched_list s ps" "is_sched_waiting s" "\<not> exited s" "finite (dom (heap s))"
    and nf: "\<And>p m. heap s p = Some m \<Longrightarrow> \<not> is_finished m" and cps: "c \<in> set ps"
    using sched_inv_coroD [OF assms(1,2)] assms(3) by metis
  let ?n = "n\<lparr>ctx := (rest, v), switch_count := switch_count n + 1\<rparr>"
  let ?s = "s\<lparr>heap := (heap s)(c \<mapsto> ?n)\<rparr>"
  define target where "target = (case c_next n of None \<Rightarrow> Sched | Some d \<Rightarrow> Coro d)"
  define t where "t = ?s\<lparr>coro_this_ptr := Some target, is_sched_waiting := (target \<noteq> Sched)\<rparr>"
  have next_in: "d \<in> dom (heap s)" if "c_next n = Some d" for d
  proof -
    obtain xs ys where "ps = xs @ c # ys" using cps by (auto dest: split_list)
    then have "c_next n = hd_or ys None" "set ys \<subseteq> dom (heap s)"
      using ps(1) dlseg_at(1) [of c_next c_prev "heap s" None "coro_list s" xs c ys None n] assms(3)
      by (auto simp: sched_list_def)
    then show ?thesis using that by (cases ys) auto
  qed
  have "coro_yield (s\<lparr>heap := (heap s)(c \<mapsto> n\<lparr>ctx := (rest, v)\<rparr>)\<rparr>) = Some t"
  proof (cases "c_next n")
    case None
    then show ?thesis
      using assms(2) ps(2)
      by (simp add: coro_yield_def coro_yield_to_def jump_to_def t_def target_def)
  next
    case (Some d)
    then obtain m where "heap s d = Some m" using next_in by blast
    then show ?thesis
      using assms(2,3) ps(2) Some nf
      by (auto simp: coro_yield_def coro_yield_to_def jump_to_def t_def target_def)
  qed
  moreover have "sched_list t ps" by (rule sched_list_keep [OF ps(1) assms(3)]) (auto simp: t_def)
  moreover have "control_ok t"
    using ps(3) nf next_in assms(3)
    by (auto simp: control_ok_def t_def target_def ran_def split: option.splits)
  moreover have "heap_sum coro_owed (heap t) = heap_sum coro_owed (heap s)"
    using heap_sum_same [OF ps(4) assms(3), of coro_owed ?n] nf [OF assms(3)] assms(4)
    by (simp add: coro_owed_def t_def)
  then have "process_owed t = process_owed s" by (simp add: process_owed_def t_def)
  moreover have "process_weight t < process_weight s"
    using heap_sum_update [OF ps(4) assms(3), of coro_weight ?n] nf [OF assms(3)] assms(2,4)
      heap_sum_split [OF ps(4) assms(3), of coro_weight]
    by (simp add: process_weight_def coro_weight_def t_def)
  ultimately show ?thesis unfolding good_step_def sched_inv_def by blast
qed

lemma new_step:
  assumes "sched_inv s" "coro_this_ptr s = Some (Coro c)" "heap s c = Some n"
    "ctx n = (Do_New body w # rest, v)"
  shows "good_step s (map_option snd (coro_new body w (s\<lparr>heap := (heap s)(c \<mapsto> n\<lparr>ctx := (rest, v)\<rparr>)\<rparr>)))"
proof -
  obtain ps where ps: "sched_list s ps" "is_sched_waiting s" "\<not> exited s" "finite (dom (heap s))"
    and nf: "\<And>p m. heap s p = Some m \<Longrightarrow> \<not> is_finished m" and cps: "c \<in> set ps"
    using sched_inv_coroD [OF assms(1,2)] assms(3) by metis
  let ?n = "n\<lparr>ctx := (rest, v)\<rparr>"
  let ?s = "s\<lparr>heap := (heap s)(c \<mapsto> ?n)\<rparr>"
  let ?p = "malloc_at s"
  let ?new = "\<lparr>ret = 0, ctx = (body, w), is_finished = False, switch_count = 0,
    c_next = None, c_prev = None\<rparr>"
  have "sched_list ?s ps" by (rule sched_list_keep [OF ps(1) assms(3)]) auto
  then obtain h where h: "coro_new body w ?s = Some (?p, ?s\<lparr>heap := h, coro_list := Some ?p,
      malloc_at := ?p + 1\<rparr>)"
    "sched_list (?s\<lparr>heap := h, coro_list := Some ?p, malloc_at := ?p + 1\<rparr>) (?p # ps)"
    "\<And>q. map_option core (h q) = map_option core (((heap ?s)(?p \<mapsto> ?new)) q)"
    using coro_new_spec [of ?s ps body w] by auto
  define t where "t = ?s\<lparr>heap := h, coro_list := Some ?p, malloc_at := ?p + 1\<rparr>"
  have "?p \<notin> set ps" using ps(1) unfolding sched_list_def by blast
  then have "?p \<notin> dom (heap s)" using ps(1) by (simp add: sched_list_def)
  then have "heap s ?p = None" by blast
  moreover have "?p \<noteq> c" using calculation assms(3) by force
  ultimately have fresh: "heap ?s ?p = None" "finite (dom (heap ?s))" "?p \<noteq> c"
    using ps(4) by simp_all
  have nf': "\<not> is_finished m" if hq: "h q = Some m" for q m
  proof -
    obtain m' where "((heap ?s)(?p \<mapsto> ?new)) q = Some m'" "core m = core m'"
      using h(3) [of q] hq by (cases "((heap ?s)(?p \<mapsto> ?new)) q") simp_all
    then show ?thesis
      using nf [of q m'] nf [OF assms(3)] core_fields [of m m'] by (auto split: if_splits)
  qed
  have sum: "heap_sum f (heap t) = f ?new + (f ?n + heap_sum f ((heap s)(c := None)))"
    if "\<And>n. f (core n) = f n" for f :: "coro \<Rightarrow> 'm :: comm_monoid_add"
    using heap_sum_core [of h "(heap ?s)(?p \<mapsto> ?new)" f, OF h(3) that] fresh
      heap_sum_new [of "heap ?s" ?p f ?new] heap_sum_update [OF ps(4) assms(3), of f ?n]
    by (simp add: t_def)
  note split = heap_sum_split [OF ps(4) assms(3)]
  have "map_option snd (coro_new body w ?s) = Some t" using h(1) by (simp add: t_def)
  moreover have "control_ok t"
    using nf' ps(2,3) assms(2) h(2) cps
    by (auto simp: control_ok_def t_def ran_def sched_list_def)
  moreover have "process_owed t = process_owed s"
    using sum [of coro_owed, OF coro_owed_core] split [of coro_owed] nf [OF assms(3)] assms(4)
    by (simp add: process_owed_def coro_owed_def t_def ac_simps)
  moreover have "process_weight t < process_weight s"
    using sum [of coro_weight, OF coro_weight_core] split [of coro_weight] nf [OF assms(3)] assms(2,4)
    by (simp add: process_weight_def coro_weight_def t_def)
  ultimately show ?thesis
    using h(2) unfolding good_step_def sched_inv_def t_def [symmetric] by blast
qed

lemma body_step:
  assumes "sched_inv s" "coro_this_ptr s = Some (Coro c)"
  shows "good_step s (coro_body_step c s)"
proof -
  obtain n where n: "heap s c = Some n" using sched_inv_coroD [OF assms] by metis
  obtain acts v where ctx: "ctx n = (acts, v)" by (cases "ctx n")
  show ?thesis
  proof (cases acts)
    case Nil
    then show ?thesis using finish_step [OF assms n] ctx n by (simp add: coro_body_step_def)
  next
    case (Cons a rest)
    then show ?thesis
      using yield_step [OF assms n] new_step [OF assms n] ctx n
      by (cases a) (simp_all add: coro_body_step_def)
  qed
qed

lemma find_finished_spec:
  "coro_seg h b p ps None \<Longrightarrow> find_finished h p = Some (List.find (\<lambda>c. is_finished (the (h c))) ps)"
proof (induction ps arbitrary: b p)
  case Nil
  then show ?case by (simp add: find_finished.simps)
next
  case (Cons c ps)
  then obtain n where "p = Some c" "h c = Some n" "coro_seg h (Some c) (c_next n) ps None"
    by (auto split: option.splits)
  then show ?case using Cons.IH by (subst find_finished.simps) simp
qed

lemma reap_step:
  assumes "sched_inv s" "coro_this_ptr s = Some Sched" "sched_list s ps" "ps \<noteq> []"
    "List.find (\<lambda>c. is_finished (the (heap s c))) ps = Some c"
  shows "\<exists>t. main_round s = Some (True, t) \<and> good_step s (Some t)"
proof -
  have c: "c \<in> set ps" "is_finished (the (heap s c))"
    using assms(5) by (auto simp: find_Some_iff in_set_conv_nth)
  obtain n where n: "heap s c = Some n" using c(1) assms(3) by (auto simp: sched_list_def)
  have fin: "finite (dom (heap s))" and seg: "coro_seg (heap s) None (coro_list s) ps None"
    using assms(3) by (auto simp: sched_list_def)
  obtain first where first: "coro_list s = Some first" using seg assms(4) by (cases ps) auto
  have found: "find_finished (heap s) (Some first) = Some (Some c)"
    using find_finished_spec [OF seg] assms(5) first by simp
  obtain h p where h: "coro_list_delete c s = Some (s\<lparr>heap := h, coro_list := p\<rparr>)"
    "coro_seg (h(c := None)) None p (remove1 c ps) None" "dom h = dom (heap s)"
    "\<And>q. map_option core (h q) = map_option core (heap s q)"
    using coro_list_delete_spec [OF assms(3) c(1)] by metis
  obtain m where m: "h c = Some m" "core m = core n" using h(4) [of c] n by (cases "h c") auto
  define t where "t = s\<lparr>heap := h(c := None), coro_list := p, reaped := reaped s @ [ret m]\<rparr>"
  have run: "main_round s = Some (True, t)"
    using first found h(1) m(1)
    by (simp add: main_round_def coro_sched_wait_round_def coro_status_def coro_delete_def t_def)
  have "sched_list t (remove1 c ps)"
    using h(2,3) assms(3) by (auto simp: sched_list_def t_def dest: notin_set_remove1)
  moreover have "control_ok t"
    using assms(1,2) by (auto simp: sched_inv_def control_ok_def t_def)
  moreover have sum: "heap_sum f (heap s) = f m + heap_sum f (heap t)"
    if f: "\<And>n. f (core n) = f n" for f :: "coro \<Rightarrow> 'm :: comm_monoid_add"
    using heap_sum_core [of h "heap s" f, OF h(4) f] heap_sum_split [of h c m f] m(1) h(3) fin
    by (simp add: t_def)
  have "is_finished m" using c(2) n m(2) core_fields [of m n] by simp
  then have "process_owed t = process_owed s" "process_weight t < process_weight s"
    using sum [of coro_owed, OF coro_owed_core] sum [of coro_weight, OF coro_weight_core] assms(2)
    by (simp_all add: process_owed_def process_weight_def coro_owed_def coro_weight_def t_def)
  ultimately have "good_step s (Some t)" by (auto simp: good_step_def sched_inv_def)
  then show ?thesis using run by blast
qed

lemma switch_step:
  assumes "sched_inv s" "coro_this_ptr s = Some Sched" "sched_list s (first # ps)"
    "List.find (\<lambda>c. is_finished (the (heap s c))) (first # ps) = None"
  shows "\<exists>t. main_round s = Some (True, t) \<and> good_step s (Some t)"
proof -
  have seg: "coro_seg (heap s) None (coro_list s) (first # ps) None"
    and dm: "dom (heap s) = set (first # ps)"
    using assms(3) by (auto simp: sched_list_def)
  have "\<forall>c\<in>set (first # ps). \<not> is_finished (the (heap s c))"
    using assms(4) unfolding find_None_iff by blast
  then have nf: "\<not> is_finished (the (heap s c))" if "c \<in> dom (heap s)" for c
    using dm that by blast
  obtain n where n: "heap s first = Some n" using dm by auto
  have at: "coro_list s = Some first" using seg by simp
  define t where "t = s\<lparr>is_sched_waiting := True, sched_switch_count := sched_switch_count s + 1,
    coro_this_ptr := Some (Coro first)\<rparr>"
  have "main_round s = Some (True, t)"
    using at find_finished_spec [OF seg] assms(2,4) n nf [of first]
    by (auto simp: main_round_def coro_sched_wait_round_def coro_yield_to_def jump_to_def t_def)
  moreover have "sched_list t (first # ps)" using assms(3) by (simp add: sched_list_def t_def)
  moreover have "control_ok t"
    using assms(1) n nf by (force simp: sched_inv_def control_ok_def t_def ran_def)
  moreover have "process_owed t = process_owed s" "process_weight t < process_weight s"
    using assms(2) by (auto simp: process_owed_def process_weight_def t_def)
  ultimately show ?thesis by (auto simp: good_step_def sched_inv_def)
qed

lemma process_step_spec:
  assumes "sched_inv s"
  shows "(\<exists>t. process_step s = Some (True, t) \<and> good_step s (Some t)) \<or>
    (process_step s = Some (False, s) \<and> heap s = Map.empty)"
proof (cases "coro_this_ptr s")
  case None
  then show ?thesis using assms by (simp add: sched_inv_def control_ok_def)
next
  case (Some w)
  show ?thesis
  proof (cases w)
    case (Coro c)
    then show ?thesis
      using body_step [OF assms, of c] Some by (auto simp: process_step_def good_step_def)
  next
    case Sched
    obtain ps where ps: "sched_list s ps" using assms by (auto simp: sched_inv_def)
    show ?thesis
    proof (cases ps)
      case Nil
      then show ?thesis
        using ps Some Sched
        by (auto simp: process_step_def main_round_def coro_sched_wait_round_def sched_list_def)
    next
      case (Cons first rest)
      then show ?thesis
        using reap_step [OF assms _ ps] switch_step [OF assms, of first rest] ps Some Sched
        by (cases "List.find (\<lambda>c. is_finished (the (heap s c))) ps") (auto simp: process_step_def)
    qed
  qed
qed

section \<open>Whole runs\<close>

lemma run_process_spec:
  assumes "sched_inv s"
  shows "\<exists>t. run_process s = Some t \<and> sched_inv t \<and> heap t = Map.empty \<and> mset (reaped t) = process_owed s"
  using assms
proof (induction "process_weight s" arbitrary: s rule: less_induct)
  case less
  consider t where "process_step s = Some (True, t)" "good_step s (Some t)"
    | "process_step s = Some (False, s)" "heap s = Map.empty"
    using process_step_spec [OF less.prems] by blast
  then show ?case
  proof cases
    case 1
    then show ?thesis
      using less.hyps [of t] by (subst run_process.simps) (auto simp: good_step_def)
  next
    case 2
    then show ?thesis
      using less.prems by (subst run_process.simps) (simp add: process_owed_def)
  qed
qed

text \<open>What main does before its loop: it creates coroutines one after the other.\<close>

fun coro_new_all :: "script list \<Rightarrow> sched_state \<Rightarrow> sched_state option" where
  "coro_new_all [] s = Some s"
| "coro_new_all ((body, v) # scripts) s = do { (_, s) \<leftarrow> coro_new body v s; coro_new_all scripts s }"

definition script_owed :: "script \<Rightarrow> int multiset" where
  "script_owed sc = add_mset (snd sc) (acts_owed (fst sc))"

lemma sched_init_inv: "sched_inv coro_sched_init"
  by (auto simp: sched_inv_def control_ok_def sched_list_def coro_sched_init_def
      intro!: exI [of _ "[]"])

lemma coro_new_by_main:
  assumes "sched_inv s" "coro_this_ptr s = Some Sched"
  shows "\<exists>p t. coro_new body v s = Some (p, t) \<and> sched_inv t \<and> coro_this_ptr t = Some Sched \<and>
    process_owed t = script_owed (body, v) + process_owed s"
proof -
  obtain ps where ps: "sched_list s ps" using assms by (auto simp: sched_inv_def)
  let ?p = "malloc_at s"
  let ?new = "\<lparr>ret = 0, ctx = (body, v), is_finished = False, switch_count = 0,
    c_next = None, c_prev = None\<rparr>"
  obtain h where h: "coro_new body v s = Some (?p, s\<lparr>heap := h, coro_list := Some ?p, malloc_at := ?p + 1\<rparr>)"
    "sched_list (s\<lparr>heap := h, coro_list := Some ?p, malloc_at := ?p + 1\<rparr>) (?p # ps)"
    "\<And>q. map_option core (h q) = map_option core (((heap s)(?p \<mapsto> ?new)) q)"
    using coro_new_spec [OF ps, of body v] by metis
  have "?p \<notin> set ps" using ps unfolding sched_list_def by blast
  then have "?p \<notin> dom (heap s)" using ps by (simp add: sched_list_def)
  then have "heap s ?p = None" by blast
  then have "heap_sum coro_owed h = coro_owed ?new + heap_sum coro_owed (heap s)"
    using heap_sum_core [of h "(heap s)(?p \<mapsto> ?new)" coro_owed, OF h(3) coro_owed_core]
      heap_sum_new [OF sched_list_finite [OF ps] \<open>heap s ?p = None\<close>, of coro_owed ?new]
    by (simp del: fun_upd_apply)
  then show ?thesis
    using h(1,2) assms
    by (auto simp: sched_inv_def control_ok_def process_owed_def script_owed_def coro_owed_def)
qed

lemma coro_new_all_spec:
  "sched_inv s \<Longrightarrow> coro_this_ptr s = Some Sched \<Longrightarrow>
   \<exists>t. coro_new_all scripts s = Some t \<and> sched_inv t \<and>
     process_owed t = (\<Sum>sc\<leftarrow>scripts. script_owed sc) + process_owed s"
proof (induction scripts arbitrary: s)
  case (Cons sc scripts)
  obtain body v where sc: "sc = (body, v)" by (cases sc)
  obtain p t where t: "coro_new body v s = Some (p, t)" "sched_inv t" "coro_this_ptr t = Some Sched"
    "process_owed t = script_owed sc + process_owed s"
    using coro_new_by_main [OF Cons.prems, of body v] sc by auto
  then show ?case using Cons.IH [of t] sc by (auto simp: ac_simps)
qed simp

definition step_rel :: "sched_state \<Rightarrow> sched_state \<Rightarrow> bool" where
  "step_rel s t \<longleftrightarrow> process_step s = Some (True, t)"

definition started :: "sched_state \<Rightarrow> bool" where
  "started s \<longleftrightarrow> (\<exists>scripts. coro_new_all scripts coro_sched_init = Some s)"

interpretation scheduler: invariant_system started step_rel sched_inv
proof
  fix s assume "started s"
  then obtain scripts where "coro_new_all scripts coro_sched_init = Some s" by (auto simp: started_def)
  then show "sched_inv s"
    using coro_new_all_spec [OF sched_init_inv, of scripts] by (auto simp: coro_sched_init_def)
next
  fix s t assume "sched_inv s" "step_rel s t"
  then show "sched_inv t"
    using process_step_spec [of s] by (auto simp: step_rel_def good_step_def)
qed

section \<open>Properties\<close>

lemma all_scripts_end:
  "\<exists>s t. coro_new_all scripts coro_sched_init = Some s \<and> run_process s = Some t \<and>
     heap t = Map.empty \<and> coro_list t = None \<and> \<not> exited t \<and>
     mset (reaped t) = (\<Sum>sc\<leftarrow>scripts. script_owed sc)"
proof -
  obtain s where s: "coro_new_all scripts coro_sched_init = Some s" "sched_inv s"
    "process_owed s = (\<Sum>sc\<leftarrow>scripts. script_owed sc) + process_owed coro_sched_init"
    using coro_new_all_spec [OF sched_init_inv, of scripts] by (auto simp: coro_sched_init_def)
  obtain t where t: "run_process s = Some t" "sched_inv t" "heap t = Map.empty"
    "mset (reaped t) = process_owed s"
    using run_process_spec [OF s(2)] by blast
  have "process_owed coro_sched_init = {#}" by (simp add: process_owed_def coro_sched_init_def)
  moreover have "coro_list t = None" "\<not> exited t"
    using t(2,3) by (auto simp: sched_inv_def sched_list_def control_ok_def)
  ultimately show ?thesis using s(1,3) t by auto
qed

text \<open>C2: Every program that creates coroutines and then waits for them in the loop of main
  terminates, without undefined behaviour and without the critical error of coro_body: all
  coroutines, the ones created by coroutines included, are handed over exactly once with the
  status their function returned, and all are freed.\<close>

theorem scheduler_runs_all:
  "\<exists>s t. coro_new_all scripts coro_sched_init = Some s \<and> run_process s = Some t \<and>
     heap t = Map.empty \<and> coro_list t = None \<and> \<not> exited t \<and>
     mset (reaped t) = (\<Sum>sc\<leftarrow>scripts. script_owed sc)"
  by (rule all_scripts_end)

text \<open>In every state a program can reach, the next step of the process, whoever runs, succeeds:
  no link of the coroutine list is dangling, no context that is jumped to is gone, and a
  finished coroutine always finds the scheduler waiting.\<close>

theorem scheduler_never_stuck:
  assumes "reachable started step_rel s"
  shows "(\<exists>t. process_step s = Some t) \<and> \<not> exited s \<and>
    (\<forall>c n. coro_this_ptr s = Some (Coro c) \<longrightarrow> heap s c = Some n \<longrightarrow> is_sched_waiting s \<and> \<not> is_finished n)"
proof -
  have inv: "sched_inv s" by (rule scheduler.reachable_has_inv [OF assms])
  then have ctl: "control_ok s" by (simp add: sched_inv_def)
  then have "\<not> exited s" "\<forall>c n. coro_this_ptr s = Some (Coro c) \<longrightarrow> heap s c = Some n \<longrightarrow>
      is_sched_waiting s \<and> \<not> is_finished n"
    by (auto simp: control_ok_def dest: ranI)
  then show ?thesis using process_step_spec [OF inv] by blast
qed

text \<open>A coroutine that yields gives control to the next one in the list, and the last one gives
  it back to the scheduler; nothing else of the list changes.\<close>

theorem yield_goes_down_the_list:
  assumes "sched_inv s" "coro_this_ptr s = Some (Coro c)" "sched_list s (xs @ c # ys)"
  shows "\<exists>t. coro_yield s = Some t \<and> sched_list t (xs @ c # ys) \<and>
    coro_this_ptr t = Some (case ys of [] \<Rightarrow> Sched | d # _ \<Rightarrow> Coro d) \<and>
    coro_switch_count c t = map_option (\<lambda>k. k + 1) (coro_switch_count c s)"
proof -
  obtain n where n: "heap s c = Some n" and w: "is_sched_waiting s"
    and nf: "\<And>p m. heap s p = Some m \<Longrightarrow> \<not> is_finished m"
    using sched_inv_coroD [OF assms(1,2)] by metis
  let ?n = "n\<lparr>switch_count := switch_count n + 1\<rparr>"
  have nxt: "c_next n = hd_or ys None"
    using assms(3) n dlseg_at(1) by (metis sched_list_def)
  have ds: "distinct (xs @ c # ys)" "dom (heap s) = set (xs @ c # ys)"
    using assms(3) by (auto simp: sched_list_def)
  define t where "t = s\<lparr>heap := (heap s)(c \<mapsto> ?n), coro_this_ptr := Some (case ys of [] \<Rightarrow> Sched | d # _ \<Rightarrow> Coro d),
    is_sched_waiting := (ys \<noteq> [])\<rparr>"
  have "coro_yield s = Some t"
  proof (cases ys)
    case Nil
    then show ?thesis
      using assms(2) n w nxt by (simp add: coro_yield_def coro_yield_to_def jump_to_def t_def)
  next
    case (Cons d zs)
    then obtain m where "heap s d = Some m" "d \<noteq> c" using ds by fastforce
    then show ?thesis
      using assms(2) n w nxt Cons nf [of d]
      by (simp add: coro_yield_def coro_yield_to_def jump_to_def t_def)
  qed
  moreover have "sched_list t (xs @ c # ys)"
    by (rule sched_list_keep [OF assms(3) n]) (auto simp: t_def)
  ultimately show ?thesis using n by (auto simp: coro_switch_count_def t_def)
qed

text \<open>The list operations implement an abstract sequence of coroutines: coro_new puts the new
  coroutine at the front, and coro_list_delete removes exactly the given one, wherever it is.\<close>

theorem coroutine_list_refines_sequence:
  assumes "sched_list s ps"
  shows "(\<exists>c t. coro_new body v s = Some (c, t) \<and> c \<notin> set ps \<and> sched_list t (c # ps)) \<and>
    (c \<in> set ps \<longrightarrow> (\<exists>t u. coro_list_delete c s = Some t \<and> coro_delete c t = Some u \<and>
       sched_list u (remove1 c ps)))"
proof (intro conjI impI)
  have "malloc_at s \<notin> set ps" using assms unfolding sched_list_def by blast
  then show "\<exists>c t. coro_new body v s = Some (c, t) \<and> c \<notin> set ps \<and> sched_list t (c # ps)"
    using coro_new_spec [OF assms, of body v] by metis
next
  assume c: "c \<in> set ps"
  obtain h p where h: "coro_list_delete c s = Some (s\<lparr>heap := h, coro_list := p\<rparr>)"
    "coro_seg (h(c := None)) None p (remove1 c ps) None" "dom h = dom (heap s)"
    using coro_list_delete_spec [OF assms c] by metis
  define u where "u = s\<lparr>heap := h(c := None), coro_list := p\<rparr>"
  have "\<exists>n. h c = Some n" using c h(3) assms by (metis domD sched_list_def)
  then have "coro_delete c (s\<lparr>heap := h, coro_list := p\<rparr>) = Some u" by (auto simp: coro_delete_def u_def)
  moreover have "sched_list u (remove1 c ps)"
    using h(2,3) assms by (auto simp: sched_list_def u_def dest: notin_set_remove1)
  ultimately show "\<exists>t u. coro_list_delete c s = Some t \<and> coro_delete c t = Some u \<and>
       sched_list u (remove1 c ps)"
    using h(1) by blast
qed

text \<open>For coroutines that only yield and return 0, as those of the sorting program, the loop of
  main prints the status 0 once per coroutine and ends.\<close>

theorem sorting_coroutines_reaped:
  assumes "scripts = map (\<lambda>k. (replicate k Do_Yield, 0)) yields"
  shows "\<exists>s t. coro_new_all scripts coro_sched_init = Some s \<and> run_process s = Some t \<and>
    reaped t = replicate (length yields) 0"
proof -
  obtain s where s: "coro_new_all scripts coro_sched_init = Some s" "sched_inv s"
    "process_owed s = (\<Sum>sc\<leftarrow>scripts. script_owed sc) + process_owed coro_sched_init"
    using coro_new_all_spec [OF sched_init_inv, of scripts] by (auto simp: coro_sched_init_def)
  obtain t where t: "run_process s = Some t" "mset (reaped t) = process_owed s"
    using run_process_spec [OF s(2)] by blast
  have "acts_owed (replicate k Do_Yield) = {#}" for k by (induction k) auto
  then have "(\<Sum>sc\<leftarrow>scripts. script_owed sc) = replicate_mset (length yields) 0"
    unfolding assms by (induction yields) (simp_all add: script_owed_def)
  moreover have "process_owed coro_sched_init = {#}" by (simp add: process_owed_def coro_sched_init_def)
  ultimately have m: "mset (reaped t) = replicate_mset (length yields) 0" using s(3) t(2) by simp
  then have "length (reaped t) = length yields" by (metis size_mset size_replicate_mset)
  moreover have "set (reaped t) \<subseteq> {0}" using m by (metis set_mset_mset set_mset_replicate_mset_subset empty_subsetI subset_refl)
  ultimately show ?thesis using s(1) t(1) by (metis insertI1 replicate_eqI singletonD subsetD)
qed

section \<open>Witnesses\<close>

lemma one_coroutine:
  obtains s where "coro_new_all [([Do_Yield], 7)] coro_sched_init = Some s" "started s"
proof -
  obtain s where "coro_new_all [([Do_Yield], 7)] coro_sched_init = Some s"
    using coro_new_all_spec [OF sched_init_inv, of "[([Do_Yield], 7)]"]
    by (auto simp: coro_sched_init_def)
  moreover from this have "started s" unfolding started_def by blast
  ultimately show ?thesis by (rule that)
qed

theorem scheduler_never_stuck_witness:
  "\<exists>s t. coro_new_all [([Do_Yield], 7)] coro_sched_init = Some s \<and> process_step s = Some t"
proof -
  obtain s where "coro_new_all [([Do_Yield], 7)] coro_sched_init = Some s" "started s"
    by (rule one_coroutine)
  then show ?thesis using scheduler_never_stuck [OF reach_start] by blast
qed

definition two_coros :: sched_state where
  "two_coros = \<lparr>heap = [0 \<mapsto> \<lparr>ret = 0, ctx = ([Do_Yield], 7), is_finished = False, switch_count = 0,
       c_next = None, c_prev = Some 1\<rparr>,
     1 \<mapsto> \<lparr>ret = 0, ctx = ([], 8), is_finished = False, switch_count = 0, c_next = Some 0, c_prev = None\<rparr>],
   malloc_at = 2, sched_switch_count = 1, is_sched_waiting = True, coro_this_ptr = Some (Coro 1),
   coro_list = Some 1, exited = False, reaped = []\<rparr>"

lemma two_coros_list: "sched_list two_coros [1, 0]"
  by (auto simp: sched_list_def two_coros_def)

lemma two_coros_inv: "sched_inv two_coros"
proof -
  have "control_ok two_coros" by (auto simp: control_ok_def two_coros_def ran_def split: if_splits)
  then show ?thesis using two_coros_list by (auto simp: sched_inv_def)
qed

theorem yield_goes_down_the_list_witness:
  "\<exists>t. coro_yield two_coros = Some t \<and> coro_this_ptr t = Some (Coro 0)"
  using yield_goes_down_the_list [OF two_coros_inv, of 1 "[]" "[0]"] two_coros_list
  by (auto simp: two_coros_def)

theorem coroutine_list_refines_sequence_witness:
  "\<exists>t u. coro_list_delete 0 two_coros = Some t \<and> coro_delete 0 t = Some u \<and> sched_list u [1]"
  using coroutine_list_refines_sequence [OF two_coros_list, of "[]" 0 0] by simp

theorem sorting_coroutines_reaped_witness:
  "\<exists>s t. coro_new_all [([Do_Yield], 0), ([], 0)] coro_sched_init = Some s \<and> run_process s = Some t \<and>
    reaped t = [0, 0]"
  using sorting_coroutines_reaped [of "[([Do_Yield], 0), ([], 0)]" "[1, 0]"]
  by (simp add: numeral_2_eq_2)

end
