(* ===== verification/User_FS.thy ===== *)
theory User_FS
  imports Linked_Heap
begin

unbundle bit_operations_syntax

text \<open>
  The in-memory file system of 3/userfs.c. Blocks, files and descriptors live in a heap each; a
  pointer that C never tests for NULL is a plain pointer, one that it tests is an option. A
  dereference of a freed object, an access outside an array, the use of an uninitialised array
  cell and a signed overflow are undefined behaviour, the result None. The bytes of a block are
  options: None is a byte malloc left uninitialised, which the code may copy around. malloc is
  taken to succeed.
\<close>

section \<open>State\<close>

definition BLOCK_SIZE :: int where "BLOCK_SIZE = 512"

definition MAX_FILE_SIZE :: int where "MAX_FILE_SIZE = 1024 * 1024 * 100"

datatype ufs_error_code = UFS_ERR_NO_ERR | UFS_ERR_NO_FILE | UFS_ERR_NO_MEM
  | UFS_ERR_NOT_IMPLEMENTED | UFS_ERR_NO_PERMISSION

definition UFS_CREATE :: int where "UFS_CREATE = 1"
definition UFS_READ_ONLY :: int where "UFS_READ_ONLY = 2"
definition UFS_WRITE_ONLY :: int where "UFS_WRITE_ONLY = 4"
definition UFS_READ_WRITE :: int where "UFS_READ_WRITE = 8"

lemmas ufs_flags = UFS_CREATE_def UFS_READ_ONLY_def UFS_WRITE_ONLY_def UFS_READ_WRITE_def

type_synonym byte = "char option"

record block =
  memory :: "byte list"
  occupied :: int
  b_next :: "ptr option"
  b_prev :: "ptr option"
  b_index :: int

record ufile =
  block_list :: ptr
  last_block :: ptr
  refs :: int
  f_name :: string
  f_next :: "ptr option"
  f_prev :: "ptr option"
  marked_for_deletion :: bool

record filedesc =
  d_file :: ptr
  d_index :: int
  current_block :: ptr
  block_offset :: int
  d_flags :: int

text \<open>
  The array of descriptors has a cell per unit of capacity, None while it was never written; the
  array is None before the first descriptor (the null pointer). next_ptr is the next address
  malloc returns.
\<close>

record ufs =
  blocks :: "ptr \<rightharpoonup> block"
  files :: "ptr \<rightharpoonup> ufile"
  descs :: "ptr \<rightharpoonup> filedesc"
  next_ptr :: ptr
  file_list :: "ptr option"
  file_descriptors :: "ptr option option list option"
  file_descriptor_count :: int
  file_descriptor_capacity :: int
  errno :: ufs_error_code

definition ufs_initial :: ufs where
  "ufs_initial = \<lparr>blocks = Map.empty, files = Map.empty, descs = Map.empty, next_ptr = 0,
     file_list = None, file_descriptors = None, file_descriptor_count = 0,
     file_descriptor_capacity = 0, errno = UFS_ERR_NO_ERR\<rparr>"

definition specific_flag_is_present :: "int \<Rightarrow> int \<Rightarrow> bool" where
  "specific_flag_is_present flags specific_flag \<longleftrightarrow> flags AND specific_flag \<noteq> 0"

definition strings_equal :: "string \<Rightarrow> string \<Rightarrow> bool" where
  "strings_equal str1 str2 \<longleftrightarrow> str1 = str2"

definition ufs_errno :: "ufs \<Rightarrow> ufs_error_code" where
  "ufs_errno s = errno s"

definition throw_error :: "ufs_error_code \<Rightarrow> ufs \<Rightarrow> (int \<times> ufs) option" where
  "throw_error specific_error s = Some (-1, s\<lparr>errno := specific_error\<rparr>)"

text \<open>Assignments through a pointer.\<close>

definition set_block :: "ptr \<Rightarrow> (block \<Rightarrow> block) \<Rightarrow> ufs \<Rightarrow> ufs option" where
  "set_block p f s = map_option (\<lambda>n. s\<lparr>blocks := (blocks s)(p \<mapsto> f n)\<rparr>) (blocks s p)"

definition set_file :: "ptr \<Rightarrow> (ufile \<Rightarrow> ufile) \<Rightarrow> ufs \<Rightarrow> ufs option" where
  "set_file p f s = map_option (\<lambda>n. s\<lparr>files := (files s)(p \<mapsto> f n)\<rparr>) (files s p)"

definition set_desc :: "ptr \<Rightarrow> (filedesc \<Rightarrow> filedesc) \<Rightarrow> ufs \<Rightarrow> ufs option" where
  "set_desc p f s = map_option (\<lambda>n. s\<lparr>descs := (descs s)(p \<mapsto> f n)\<rparr>) (descs s p)"

section \<open>Files by name\<close>

partial_function (option) find_file :: "(ptr \<rightharpoonup> ufile) \<Rightarrow> string \<Rightarrow> ptr option \<Rightarrow> ptr option option" where
  "find_file fs filename p =
     (case p of
        None \<Rightarrow> Some None
      | Some f \<Rightarrow> do {
          n \<leftarrow> fs f;
          if strings_equal (f_name n) filename then Some (Some f) else find_file fs filename (f_next n) })"

definition try_get_file_by_filename :: "string \<Rightarrow> ufs \<Rightarrow> ptr option option" where
  "try_get_file_by_filename filename s = find_file (files s) filename (file_list s)"

definition create_file :: "string \<Rightarrow> ufs \<Rightarrow> (ptr \<times> ufs) option" where
  "create_file filename s = do {
     let first_block = next_ptr s;
     let new_file = next_ptr s + 1;
     s \<leftarrow> Some (s\<lparr>next_ptr := next_ptr s + 2,
       blocks := (blocks s)(first_block \<mapsto> \<lparr>memory = replicate (nat BLOCK_SIZE) None, occupied = 0,
         b_next = None, b_prev = None, b_index = 0\<rparr>),
       files := (files s)(new_file \<mapsto> \<lparr>block_list = first_block, last_block = first_block, refs = 0,
         f_name = filename, f_next = file_list s, f_prev = None, marked_for_deletion = False\<rparr>)\<rparr>);
     s \<leftarrow> (case file_list s of None \<Rightarrow> Some s | Some q \<Rightarrow> set_file q (\<lambda>n. n\<lparr>f_prev := Some new_file\<rparr>) s);
     Some (new_file, s\<lparr>file_list := Some new_file\<rparr>) }"

definition disconnect_file_from_file_list :: "ptr \<Rightarrow> ufs \<Rightarrow> ufs option" where
  "disconnect_file_from_file_list f s = do {
     n \<leftarrow> files s f;
     s \<leftarrow> Some (if file_list s = Some f then s\<lparr>file_list := f_next n\<rparr> else s);
     s \<leftarrow> (case f_prev n of None \<Rightarrow> Some s | Some p \<Rightarrow> set_file p (\<lambda>m. m\<lparr>f_next := f_next n\<rparr>) s);
     n \<leftarrow> files s f;
     s \<leftarrow> (case f_next n of None \<Rightarrow> Some s | Some q \<Rightarrow> set_file q (\<lambda>m. m\<lparr>f_prev := f_prev n\<rparr>) s);
     set_file f (\<lambda>m. m\<lparr>f_prev := None, f_next := None\<rparr>) s }"

partial_function (option) free_blocks :: "(ptr \<rightharpoonup> block) \<Rightarrow> ptr option \<Rightarrow> (ptr \<rightharpoonup> block) option" where
  "free_blocks h p =
     (case p of None \<Rightarrow> Some h | Some b \<Rightarrow> do { n \<leftarrow> h b; free_blocks (h(b := None)) (b_next n) })"

definition delete_file :: "ptr \<Rightarrow> ufs \<Rightarrow> ufs option" where
  "delete_file f s = do {
     s \<leftarrow> disconnect_file_from_file_list f s;
     n \<leftarrow> files s f;
     h \<leftarrow> free_blocks (blocks s) (Some (block_list n));
     Some (s\<lparr>blocks := h, files := (files s)(f := None)\<rparr>) }"

section \<open>The table of descriptors\<close>

text \<open>The loop that looks for an empty slot; -1 is NONE.\<close>

function find_empty_slot :: "ptr option option list option \<Rightarrow> int \<Rightarrow> int \<Rightarrow> int option" where
  "find_empty_slot table i count' =
     (if i < count' then do {
        cells \<leftarrow> table;
        c \<leftarrow> cget cells i;
        slot \<leftarrow> c;
        if slot = None then Some i else find_empty_slot table (i + 1) count' }
      else Some (-1))"
  by pat_completeness auto
termination
  by (relation "measure (\<lambda>(_, i, n). nat (n - i))") auto

declare find_empty_slot.simps [simp del]

definition try_get_empty_file_descriptor_slot :: "ufs \<Rightarrow> int option" where
  "try_get_empty_file_descriptor_slot s =
     find_empty_slot (file_descriptors s) 0 (file_descriptor_count s)"

text \<open>The assignment file_descriptors[i] = v.\<close>

definition set_slot :: "int \<Rightarrow> ptr option \<Rightarrow> ufs \<Rightarrow> ufs option" where
  "set_slot i v s = do {
     cells \<leftarrow> file_descriptors s;
     cells \<leftarrow> cset cells i (Some v);
     Some (s\<lparr>file_descriptors := Some cells\<rparr>) }"

definition add_file_descriptor_at_the_end :: "ptr \<Rightarrow> ufs \<Rightarrow> (int \<times> ufs) option" where
  "add_file_descriptor_at_the_end descriptor s = do {
     s \<leftarrow> Some (if file_descriptors s = None
               then s\<lparr>file_descriptor_capacity := 1, file_descriptor_count := 0,
                      file_descriptors := Some [None]\<rparr> else s);
     s \<leftarrow> (if file_descriptor_capacity s = file_descriptor_count s then do {
             capacity \<leftarrow> c_int (file_descriptor_capacity s * 2);
             cells \<leftarrow> file_descriptors s;
             Some (s\<lparr>file_descriptor_capacity := capacity,
                     file_descriptors := Some (cells @ replicate (nat capacity - length cells) None)\<rparr>) }
           else Some s);
     let file_descriptor_index = file_descriptor_count s;
     s \<leftarrow> set_slot file_descriptor_index (Some descriptor) s;
     s \<leftarrow> set_desc descriptor (\<lambda>n. n\<lparr>d_index := file_descriptor_index\<rparr>) s;
     Some (file_descriptor_index, s\<lparr>file_descriptor_count := file_descriptor_count s + 1\<rparr>) }"

definition add_file_descriptor :: "ptr \<Rightarrow> ufs \<Rightarrow> (int \<times> ufs) option" where
  "add_file_descriptor descriptor s = do {
     file_descriptor_index \<leftarrow> try_get_empty_file_descriptor_slot s;
     if file_descriptor_index \<noteq> -1
     then do {
       s \<leftarrow> set_desc descriptor (\<lambda>n. n\<lparr>d_index := file_descriptor_index\<rparr>) s;
       s \<leftarrow> set_slot file_descriptor_index (Some descriptor) s;
       Some (file_descriptor_index, s) }
     else add_file_descriptor_at_the_end descriptor s }"

definition try_get_file_descriptor :: "int \<Rightarrow> ufs \<Rightarrow> ptr option option" where
  "try_get_file_descriptor index s =
     (if index < 0 \<or> index \<ge> file_descriptor_count s then Some None
      else do { cells \<leftarrow> file_descriptors s; c \<leftarrow> cget cells index; c })"

definition close_file_descriptor :: "ptr \<Rightarrow> ufs \<Rightarrow> ufs option" where
  "close_file_descriptor descriptor s = do {
     dn \<leftarrow> descs s descriptor;
     s \<leftarrow> set_file (d_file dn) (\<lambda>n. n\<lparr>refs := refs n - 1\<rparr>) s;
     n \<leftarrow> files s (d_file dn);
     s \<leftarrow> (if marked_for_deletion n \<and> refs n = 0 then delete_file (d_file dn) s else Some s);
     s \<leftarrow> set_slot (d_index dn) None s;
     Some (s\<lparr>descs := (descs s)(descriptor := None)\<rparr>) }"

section \<open>Reading and writing\<close>

definition write_single_byte :: "ptr \<Rightarrow> char \<Rightarrow> ufs \<Rightarrow> ufs option" where
  "write_single_byte descriptor byte s = do {
     dn \<leftarrow> descs s descriptor;
     n \<leftarrow> blocks s (current_block dn);
     memory' \<leftarrow> cset (memory n) (block_offset dn) (Some byte);
     s \<leftarrow> set_block (current_block dn) (\<lambda>n. n\<lparr>memory := memory'\<rparr>) s;
     fn \<leftarrow> files s (d_file dn);
     if last_block fn = current_block dn
     then do {
       l \<leftarrow> blocks s (last_block fn);
       if block_offset dn = occupied l
       then set_block (last_block fn) (\<lambda>n. n\<lparr>occupied := occupied n + 1\<rparr>) s
       else Some s }
     else Some s }"

definition read_single_byte :: "ptr \<Rightarrow> ufs \<Rightarrow> byte option" where
  "read_single_byte descriptor s = do {
     dn \<leftarrow> descs s descriptor;
     n \<leftarrow> blocks s (current_block dn);
     cget (memory n) (block_offset dn) }"

definition advance_descriptor :: "ptr \<Rightarrow> ufs \<Rightarrow> ufs option" where
  "advance_descriptor descriptor s = do {
     s \<leftarrow> set_desc descriptor (\<lambda>n. n\<lparr>block_offset := block_offset n + 1\<rparr>) s;
     dn \<leftarrow> descs s descriptor;
     if block_offset dn = BLOCK_SIZE
     then do {
       n \<leftarrow> blocks s (current_block dn);
       (next_block, s) \<leftarrow> (case b_next n of
           Some q \<Rightarrow> Some (q, s)
         | None \<Rightarrow> do {
             let q = next_ptr s;
             s \<leftarrow> Some (s\<lparr>next_ptr := q + 1,
               blocks := (blocks s)(q \<mapsto> \<lparr>memory = replicate (nat BLOCK_SIZE) None, occupied = 0,
                 b_next = None, b_prev = Some (current_block dn), b_index = b_index n + 1\<rparr>)\<rparr>);
             s \<leftarrow> set_block (current_block dn) (\<lambda>m. m\<lparr>b_next := Some q\<rparr>) s;
             s \<leftarrow> set_file (d_file dn) (\<lambda>m. m\<lparr>last_block := q\<rparr>) s;
             Some (q, s) });
       set_desc descriptor (\<lambda>m. m\<lparr>current_block := next_block, block_offset := 0\<rparr>) s }
     else Some s }"

text \<open>The two loops, over the bytes that are still to be written and how many are to be read.\<close>

fun write_bytes :: "ptr \<Rightarrow> char list \<Rightarrow> ufs \<Rightarrow> ufs option" where
  "write_bytes descriptor [] s = Some s"
| "write_bytes descriptor (byte # bytes) s = do {
     s \<leftarrow> write_single_byte descriptor byte s;
     s \<leftarrow> advance_descriptor descriptor s;
     write_bytes descriptor bytes s }"

fun read_bytes :: "ptr \<Rightarrow> nat \<Rightarrow> ufs \<Rightarrow> (byte list \<times> ufs) option" where
  "read_bytes descriptor 0 s = Some ([], s)"
| "read_bytes descriptor (Suc k) s = do {
     byte \<leftarrow> read_single_byte descriptor s;
     s \<leftarrow> advance_descriptor descriptor s;
     (bytes, s) \<leftarrow> read_bytes descriptor k s;
     Some (byte # bytes, s) }"

definition write_via_descriptor :: "ptr \<Rightarrow> char list \<Rightarrow> int \<Rightarrow> ufs \<Rightarrow> (int \<times> ufs) option" where
  "write_via_descriptor descriptor buf n s = do {
     dn \<leftarrow> descs s descriptor;
     cur \<leftarrow> blocks s (current_block dn);
     current_size \<leftarrow> c_int (b_index cur * BLOCK_SIZE + block_offset dn);
     end_size \<leftarrow> c_int (current_size + n);
     if end_size > MAX_FILE_SIZE then throw_error UFS_ERR_NO_MEM s
     else if n > int (length buf) then None
     else do {
       s \<leftarrow> write_bytes descriptor (take (nat n) buf) s;
       Some (n, s) } }"

text \<open>The bytes read are returned beside the count; where the caller puts them is its business.\<close>

definition read_via_descriptor :: "ptr \<Rightarrow> int \<Rightarrow> ufs \<Rightarrow> (int \<times> byte list \<times> ufs) option" where
  "read_via_descriptor descriptor n s = do {
     dn \<leftarrow> descs s descriptor;
     cur \<leftarrow> blocks s (current_block dn);
     current_size \<leftarrow> c_int (b_index cur * BLOCK_SIZE + block_offset dn);
     fn \<leftarrow> files s (d_file dn);
     l \<leftarrow> blocks s (last_block fn);
     file_size_total \<leftarrow> c_int (b_index l * BLOCK_SIZE + occupied l);
     bytes_left_to_read \<leftarrow> c_int (file_size_total - current_size);
     let read_count = (if n > bytes_left_to_read then bytes_left_to_read else n);
     (bytes, s) \<leftarrow> read_bytes descriptor (nat read_count) s;
     Some (read_count, bytes, s) }"

section \<open>The interface\<close>

definition ufs_open :: "string \<Rightarrow> int \<Rightarrow> ufs \<Rightarrow> (int \<times> ufs) option" where
  "ufs_open filename flags s = do {
     found \<leftarrow> try_get_file_by_filename filename s;
     if found = None \<and> \<not> specific_flag_is_present flags UFS_CREATE
     then throw_error UFS_ERR_NO_FILE s
     else do {
       (referred_file, s) \<leftarrow> (case found of Some f \<Rightarrow> Some (f, s) | None \<Rightarrow> create_file filename s);
       n \<leftarrow> files s referred_file;
       let file_descriptor = next_ptr s;
       s \<leftarrow> Some (s\<lparr>next_ptr := file_descriptor + 1,
         descs := (descs s)(file_descriptor \<mapsto> \<lparr>d_file = referred_file, d_index = 0,
           current_block = block_list n, block_offset = 0, d_flags = flags\<rparr>)\<rparr>);
       s \<leftarrow> set_file referred_file (\<lambda>n. n\<lparr>refs := refs n + 1\<rparr>) s;
       add_file_descriptor file_descriptor s } }"

text \<open>The size arguments are size_t; the cast to int keeps their low 32 bits.\<close>

definition ufs_write :: "int \<Rightarrow> char list \<Rightarrow> nat \<Rightarrow> ufs \<Rightarrow> (int \<times> ufs) option" where
  "ufs_write fd buf n s = do {
     found \<leftarrow> try_get_file_descriptor fd s;
     (case found of
        None \<Rightarrow> throw_error UFS_ERR_NO_FILE s
      | Some descriptor \<Rightarrow> do {
          dn \<leftarrow> descs s descriptor;
          if specific_flag_is_present (d_flags dn) UFS_READ_ONLY
          then throw_error UFS_ERR_NO_PERMISSION s
          else write_via_descriptor descriptor buf (to_int32 (int n)) s }) }"

definition ufs_read :: "int \<Rightarrow> nat \<Rightarrow> ufs \<Rightarrow> (int \<times> byte list \<times> ufs) option" where
  "ufs_read fd n s = do {
     found \<leftarrow> try_get_file_descriptor fd s;
     (case found of
        None \<Rightarrow> map_option (\<lambda>(r, s). (r, [], s)) (throw_error UFS_ERR_NO_FILE s)
      | Some descriptor \<Rightarrow> do {
          dn \<leftarrow> descs s descriptor;
          if specific_flag_is_present (d_flags dn) UFS_WRITE_ONLY
          then map_option (\<lambda>(r, s). (r, [], s)) (throw_error UFS_ERR_NO_PERMISSION s)
          else read_via_descriptor descriptor (to_int32 (int n)) s }) }"

definition ufs_close :: "int \<Rightarrow> ufs \<Rightarrow> (int \<times> ufs) option" where
  "ufs_close fd s = do {
     found \<leftarrow> try_get_file_descriptor fd s;
     (case found of
        None \<Rightarrow> throw_error UFS_ERR_NO_FILE s
      | Some descriptor \<Rightarrow> do { s \<leftarrow> close_file_descriptor descriptor s; Some (0, s) }) }"

definition ufs_delete :: "string \<Rightarrow> ufs \<Rightarrow> (int \<times> ufs) option" where
  "ufs_delete filename s = do {
     found \<leftarrow> try_get_file_by_filename filename s;
     (case found of
        None \<Rightarrow> throw_error UFS_ERR_NO_FILE s
      | Some f \<Rightarrow> do {
          s \<leftarrow> disconnect_file_from_file_list f s;
          n \<leftarrow> files s f;
          s \<leftarrow> (if refs n = 0 then delete_file f s
               else set_file f (\<lambda>n. n\<lparr>marked_for_deletion := True\<rparr>) s);
          Some (0, s) }) }"

section \<open>Resizing\<close>

partial_function (option) find_new_last_block :: "(ptr \<rightharpoonup> block) \<Rightarrow> int \<Rightarrow> ptr \<Rightarrow> ptr option" where
  "find_new_last_block h new_size b = do {
     n \<leftarrow> h b;
     start \<leftarrow> c_int (b_index n * BLOCK_SIZE);
     if start > new_size
     then do { p \<leftarrow> b_prev n; find_new_last_block h new_size p }
     else Some b }"

text \<open>The loop over the descriptors, at index i.\<close>

function move_descriptors :: "ptr \<Rightarrow> ptr \<Rightarrow> int \<Rightarrow> int \<Rightarrow> ufs \<Rightarrow> ufs option" where
  "move_descriptors f new_last_block new_occupied i s =
     (if i < file_descriptor_count s then do {
        cells \<leftarrow> file_descriptors s;
        c \<leftarrow> cget cells i;
        slot \<leftarrow> c;
        (case slot of
           None \<Rightarrow> move_descriptors f new_last_block new_occupied (i + 1) s
         | Some d \<Rightarrow>
             (case descs s d of
                None \<Rightarrow> None
              | Some dn \<Rightarrow>
                  (if d_file dn \<noteq> f then move_descriptors f new_last_block new_occupied (i + 1) s
                   else
                     (case (blocks s (current_block dn), blocks s new_last_block) of
                        (Some cur, Some last') \<Rightarrow>
                          (if b_index cur < b_index last'
                             \<or> b_index cur = b_index last' \<and> block_offset dn \<le> new_occupied
                           then move_descriptors f new_last_block new_occupied (i + 1) s
                           else move_descriptors f new_last_block new_occupied (i + 1)
                             (s\<lparr>descs := (descs s)(d \<mapsto> dn\<lparr>current_block := new_last_block,
                                                       block_offset := new_occupied\<rparr>)\<rparr>))
                      | _ \<Rightarrow> None)))) }
      else Some s)"
  by pat_completeness auto
termination
  by (relation "measure (\<lambda>(_, _, _, i, s). nat (file_descriptor_count s - i))") auto

declare move_descriptors.simps [simp del]

partial_function (option) free_blocks_down_to :: "ptr \<Rightarrow> (ptr \<rightharpoonup> block) \<Rightarrow> ptr option \<Rightarrow> (ptr \<rightharpoonup> block) option" where
  "free_blocks_down_to new_last_block h p =
     (if p = Some new_last_block then Some h
      else do { b \<leftarrow> p; n \<leftarrow> h b; free_blocks_down_to new_last_block (h(b := None)) (b_prev n) })"

definition reduce_file_size :: "ptr \<Rightarrow> int \<Rightarrow> ufs \<Rightarrow> ufs option" where
  "reduce_file_size f new_size s = do {
     fn \<leftarrow> files s f;
     new_last_block \<leftarrow> find_new_last_block (blocks s) new_size (last_block fn);
     n \<leftarrow> blocks s new_last_block;
     new_occupied \<leftarrow> c_int (new_size - b_index n * BLOCK_SIZE);
     s \<leftarrow> set_block new_last_block (\<lambda>n. n\<lparr>occupied := new_occupied, b_next := None\<rparr>) s;
     s \<leftarrow> move_descriptors f new_last_block new_occupied 0 s;
     h \<leftarrow> free_blocks_down_to new_last_block (blocks s) (Some (last_block fn));
     set_file f (\<lambda>m. m\<lparr>last_block := new_last_block\<rparr>) (s\<lparr>blocks := h\<rparr>) }"

definition ufs_resize :: "int \<Rightarrow> nat \<Rightarrow> ufs \<Rightarrow> (int \<times> ufs) option" where
  "ufs_resize fd new_size s = do {
     found \<leftarrow> try_get_file_descriptor fd s;
     (case found of
        None \<Rightarrow> throw_error UFS_ERR_NO_FILE s
      | Some descriptor \<Rightarrow>
          (if int new_size \<ge> MAX_FILE_SIZE then throw_error UFS_ERR_NO_MEM s
           else do {
             dn \<leftarrow> descs s descriptor;
             s \<leftarrow> reduce_file_size (d_file dn) (int new_size) s;
             Some (0, s) })) }"

section \<open>Destruction\<close>

lemma set_file_count [simp]: "set_file p f s = Some t \<Longrightarrow> file_descriptor_count t = file_descriptor_count s"
  by (auto simp: set_file_def)

lemma close_file_descriptor_count:
  "close_file_descriptor d s = Some t \<Longrightarrow> file_descriptor_count t = file_descriptor_count s"
  by (auto simp: close_file_descriptor_def delete_file_def disconnect_file_from_file_list_def
      set_slot_def bind_eq_Some_conv split: if_splits option.splits)

function close_all :: "int \<Rightarrow> ufs \<Rightarrow> ufs option" where
  "close_all i s =
     (if i < file_descriptor_count s then do {
        cells \<leftarrow> file_descriptors s;
        c \<leftarrow> cget cells i;
        slot \<leftarrow> c;
        (case slot of
           None \<Rightarrow> close_all (i + 1) s
         | Some d \<Rightarrow>
             (case close_file_descriptor d s of None \<Rightarrow> None | Some t \<Rightarrow> close_all (i + 1) t)) }
      else Some s)"
  by pat_completeness auto
termination
  by (relation "measure (\<lambda>(i, s). nat (file_descriptor_count s - i))")
    (auto dest: close_file_descriptor_count)

declare close_all.simps [simp del]

partial_function (option) delete_all :: "ufs \<Rightarrow> ufs option" where
  "delete_all s =
     (case file_list s of None \<Rightarrow> Some s | Some f \<Rightarrow> do { s \<leftarrow> delete_file f s; delete_all s })"

text \<open>After free(file_descriptors) the pointer is left dangling: an array without a cell.\<close>

definition ufs_destroy :: "ufs \<Rightarrow> ufs option" where
  "ufs_destroy s = do {
     s \<leftarrow> close_all 0 s;
     delete_all (s\<lparr>file_descriptors := Some []\<rparr>) }"

end
