(* ===== verification/User_FS_Inv.thy ===== *)
theory User_FS_Inv
  imports User_FS
begin

text \<open>
  The representation invariant of the file system and its abstraction: every file is a list of
  bytes, every descriptor a file, a position and flags. The blocks of a file form a doubly linked
  list in which all but the last are full; the last is never full, since a full last block gets
  an empty successor at once. The blocks of different files are disjoint, and there are no other
  blocks.
\<close>

section \<open>The blocks of one file\<close>

interpretation blks: link_fields b_next b_prev "\<lambda>q n. n\<lparr>b_next := q\<rparr>" "\<lambda>q n. n\<lparr>b_prev := q\<rparr>"
  by unfold_locales simp_all

interpretation flist: link_fields f_next f_prev "\<lambda>q n. n\<lparr>f_next := q\<rparr>" "\<lambda>q n. n\<lparr>f_prev := q\<rparr>"
  by unfold_locales simp_all

abbreviation block_seg :: "(ptr \<rightharpoonup> block) \<Rightarrow> ptr option \<Rightarrow> ptr option \<Rightarrow> ptr list \<Rightarrow> ptr option \<Rightarrow> bool" where
  "block_seg \<equiv> dlseg b_next b_prev"

abbreviation file_seg :: "(ptr \<rightharpoonup> ufile) \<Rightarrow> ptr option \<Rightarrow> ptr option \<Rightarrow> ptr list \<Rightarrow> ptr option \<Rightarrow> bool" where
  "file_seg \<equiv> dlseg f_next f_prev"

definition block_ok :: "int \<Rightarrow> bool \<Rightarrow> block \<Rightarrow> bool" where
  "block_ok i last' n \<longleftrightarrow> b_index n = i \<and> length (memory n) = 512 \<and>
     (if last' then 0 \<le> occupied n \<and> occupied n < 512 else occupied n = 512)"

fun chain_ok :: "(ptr \<rightharpoonup> block) \<Rightarrow> int \<Rightarrow> ptr list \<Rightarrow> bool" where
  "chain_ok h i [] \<longleftrightarrow> True"
| "chain_ok h i (b # bs) \<longleftrightarrow>
     (case h b of None \<Rightarrow> False | Some n \<Rightarrow> block_ok i (bs = []) n \<and> chain_ok h (i + 1) bs)"

fun full_ok :: "(ptr \<rightharpoonup> block) \<Rightarrow> int \<Rightarrow> ptr list \<Rightarrow> bool" where
  "full_ok h i [] \<longleftrightarrow> True"
| "full_ok h i (b # bs) \<longleftrightarrow>
     (case h b of None \<Rightarrow> False | Some n \<Rightarrow> block_ok i False n \<and> full_ok h (i + 1) bs)"

definition block_bytes :: "(ptr \<rightharpoonup> block) \<Rightarrow> ptr \<Rightarrow> byte list" where
  "block_bytes h b = (case h b of None \<Rightarrow> [] | Some n \<Rightarrow> take (nat (occupied n)) (memory n))"

definition bytes_of :: "(ptr \<rightharpoonup> block) \<Rightarrow> ptr list \<Rightarrow> byte list" where
  "bytes_of h bs = concat (map (block_bytes h) bs)"

lemma bytes_of_simps [simp]:
  "bytes_of h [] = []" "bytes_of h (b # bs) = block_bytes h b @ bytes_of h bs"
  "bytes_of h (bs @ cs) = bytes_of h bs @ bytes_of h cs"
  by (simp_all add: bytes_of_def)

lemma chain_cong: "(\<And>b. b \<in> set bs \<Longrightarrow> h b = h' b) \<Longrightarrow> chain_ok h i bs = chain_ok h' i bs"
  by (induction bs arbitrary: i) (auto split: option.splits)

lemma full_cong: "(\<And>b. b \<in> set bs \<Longrightarrow> h b = h' b) \<Longrightarrow> full_ok h i bs = full_ok h' i bs"
  by (induction bs arbitrary: i) (auto split: option.splits)

lemma bytes_cong: "(\<And>b. b \<in> set bs \<Longrightarrow> h b = h' b) \<Longrightarrow> bytes_of h bs = bytes_of h' bs"
  by (induction bs) (auto simp: block_bytes_def)

lemma outside_chain [simp]:
  assumes "c \<notin> set bs"
  shows "chain_ok (h(c := v)) i bs = chain_ok h i bs" "full_ok (h(c := v)) i bs = full_ok h i bs"
    "bytes_of (h(c := v)) bs = bytes_of h bs"
  using assms by (intro chain_cong full_cong bytes_cong; auto)+

lemma chain_split:
  "chain_ok h i (xs @ c # ys) \<longleftrightarrow>
     full_ok h i xs \<and> (\<exists>n. h c = Some n \<and> block_ok (i + int (length xs)) (ys = []) n) \<and>
     chain_ok h (i + int (length xs) + 1) ys"
  by (induction xs arbitrary: i) (auto split: option.splits simp: ac_simps)

lemma full_append: "full_ok h i (xs @ ys) \<longleftrightarrow> full_ok h i xs \<and> full_ok h (i + int (length xs)) ys"
  by (induction xs arbitrary: i) (auto split: option.splits simp: ac_simps)

lemma full_length: "full_ok h i xs \<Longrightarrow> length (bytes_of h xs) = 512 * length xs"
  by (induction xs arbitrary: i) (auto simp: block_ok_def block_bytes_def split: option.splits)

definition file_inv :: "(ptr \<rightharpoonup> block) \<Rightarrow> ufile \<Rightarrow> ptr list \<Rightarrow> bool" where
  "file_inv h n bs \<longleftrightarrow> bs \<noteq> [] \<and> distinct bs \<and> block_seg h None (Some (block_list n)) bs None \<and>
     last_block n = last bs \<and> chain_ok h 0 bs \<and> int (length (bytes_of h bs)) \<le> MAX_FILE_SIZE"

lemma file_inv_cong:
  assumes "\<And>b. b \<in> set bs \<Longrightarrow> h b = h' b" "block_list n = block_list n'" "last_block n = last_block n'"
  shows "file_inv h n bs = file_inv h' n' bs"
proof -
  have "block_seg h None p bs None = block_seg h' None p bs None" for p
    using assms(1) by (rule dlseg_cong)
  then show ?thesis
    using chain_cong [of bs h h' 0] bytes_cong [of bs h h'] assms by (simp add: file_inv_def)
qed

text \<open>What replacing the bytes from position p on gives.\<close>

definition overwrite :: "nat \<Rightarrow> 'a list \<Rightarrow> 'a list \<Rightarrow> 'a list" where
  "overwrite p bs data = take p data @ bs @ drop (p + length bs) data"

lemma overwrite_Nil [simp]: "overwrite p [] data = data"
  by (simp add: overwrite_def)

lemma overwrite_Cons:
  "p \<le> length data \<Longrightarrow> overwrite (Suc p) bs (overwrite p [c] data) = overwrite p (c # bs) data"
  by (simp add: overwrite_def min_absorb2 add.commute)

lemma length_overwrite: "p \<le> length data \<Longrightarrow> length (overwrite p bs data) = max (length data) (p + length bs)"
  by (auto simp: overwrite_def)

lemma overwrite_append:
  "length xs \<le> p \<Longrightarrow> overwrite p bs (xs @ ys) = xs @ overwrite (p - length xs) bs ys"
  by (simp add: overwrite_def)

text \<open>The current block after one byte was stored at offset i of it.\<close>

definition stored :: "block \<Rightarrow> bool \<Rightarrow> int \<Rightarrow> char \<Rightarrow> block" where
  "stored n last' i c = n\<lparr>memory := (memory n)[nat i := Some c],
     occupied := (if last' \<and> i = occupied n then occupied n + 1 else occupied n)\<rparr>"

lemma stored_bytes:
  assumes "block_ok k last' n" "0 \<le> i" "i < 512" "last' \<longrightarrow> i \<le> occupied n"
  shows "take (nat (occupied (stored n last' i c))) (memory (stored n last' i c)) =
    overwrite (nat i) [Some c] (take (nat (occupied n)) (memory n))"
proof (cases "last' \<and> i = occupied n")
  case True
  then have "nat i < length (memory n)" "nat (occupied n + 1) = Suc (nat i)"
    using assms by (auto simp: block_ok_def)
  then show ?thesis using True
    by (simp add: stored_def overwrite_def take_Suc_conv_app_nth)
next
  case False
  then have "nat i < nat (occupied n)" "nat (occupied n) \<le> length (memory n)"
    using assms by (auto simp: block_ok_def split: if_splits)
  then show ?thesis using False
    by (simp add: stored_def overwrite_def take_update_swap upd_conv_take_nth_drop min_absorb2 drop_take)
qed

lemma overwrite_within:
  assumes "length as \<le> p" "p + length bs \<le> length as + length xs"
  shows "overwrite p bs (as @ xs @ cs) = as @ overwrite (p - length as) bs xs @ cs"
  using assms by (simp add: overwrite_def)

lemma file_inv_split:
  assumes "file_inv h fn (xs @ c # ys)"
  obtains n where "h c = Some n" "block_ok (int (length xs)) (ys = []) n" "full_ok h 0 xs"
    "chain_ok h (int (length xs) + 1) ys" "c \<notin> set xs" "c \<notin> set ys" "b_index n = int (length xs)"
    "b_next n = hd_or ys None" "length (bytes_of h xs) = 512 * length xs"
proof -
  obtain n where n: "h c = Some n" "block_ok (int (length xs)) (ys = []) n" "full_ok h 0 xs"
    "chain_ok h (int (length xs) + 1) ys"
    using assms by (auto simp: file_inv_def chain_split)
  moreover have "b_next n = hd_or ys None"
    using assms n(1) by (auto simp: file_inv_def intro: dlseg_at)
  ultimately show ?thesis using that assms full_length by (simp add: file_inv_def block_ok_def)
qed

lemma chain_stored:
  assumes "file_inv h fn (xs @ c # ys)" "h c = Some n" "0 \<le> i" "i < 512" "ys = [] \<longrightarrow> i \<le> occupied n"
    and h': "h' c = Some n'" "memory n' = memory (stored n (ys = []) i ch)"
      "occupied n' = occupied (stored n (ys = []) i ch)" "\<And>b. b \<in> set xs \<union> set ys \<Longrightarrow> h' b = h b"
  shows "bytes_of h' (xs @ c # ys) =
    overwrite (512 * length xs + nat i) [Some ch] (bytes_of h (xs @ c # ys))"
proof -
  obtain n where n: "h c = Some n" "block_ok (int (length xs)) (ys = []) n" "full_ok h 0 xs"
    "c \<notin> set xs" "c \<notin> set ys" "length (bytes_of h xs) = 512 * length xs"
    using file_inv_split [OF assms(1)] by metis
  note n_eq = n(1) [unfolded assms(2), simplified]
  have same: "bytes_of h' xs = bytes_of h xs" "bytes_of h' ys = bytes_of h ys"
    using h'(4) by (auto intro: bytes_cong)
  have blk: "block_bytes h' c = overwrite (nat i) [Some ch] (block_bytes h c)"
    using stored_bytes [OF n(2) assms(3,4)] assms(2,5) h'(1-3) n_eq by (simp add: block_bytes_def)
  show ?thesis
  proof (cases "ys = []")
    case True
    then show ?thesis
      using same blk n(6) overwrite_append [of "bytes_of h xs" "512 * length xs + nat i"] by simp
  next
    case False
    then have "length (block_bytes h c) = 512" using n(1,2) by (simp add: block_ok_def block_bytes_def)
    then show ?thesis
      using same blk n(6) assms(4)
        overwrite_within [of "bytes_of h xs" "512 * length xs + nat i" "[Some ch]" "block_bytes h c" "bytes_of h ys"]
      by simp
  qed
qed

lemma write_in_place:
  assumes f: "file_inv h fn (xs @ c # ys)" and n: "h c = Some n" and i: "0 \<le> i" "i < 512"
    "ys = [] \<longrightarrow> i \<le> occupied n \<and> i < 511" "512 * int (length xs) + i < MAX_FILE_SIZE"
  and h'_def: "h' = h(c \<mapsto> stored n (ys = []) i ch)"
  shows "file_inv h' fn (xs @ c # ys) \<and> bytes_of h' (xs @ c # ys) =
    overwrite (512 * length xs + nat i) [Some ch] (bytes_of h (xs @ c # ys))"
proof -
  have c: "c \<notin> set xs" "c \<notin> set ys" and ok: "block_ok (int (length xs)) (ys = []) n" "full_ok h 0 xs"
    "chain_ok h (int (length xs) + 1) ys" and lx: "length (bytes_of h xs) = 512 * length xs"
    using file_inv_split [OF f] n by (metis option.inject)+
  have bytes: "bytes_of h' (xs @ c # ys) =
      overwrite (512 * length xs + nat i) [Some ch] (bytes_of h (xs @ c # ys))"
    by (rule chain_stored [OF f n i(1,2)]) (use i(3) c in \<open>auto simp: h'_def\<close>)
  have le: "512 * length xs + nat i \<le> length (bytes_of h (xs @ c # ys))"
    using lx ok(1) i n by (auto simp: block_bytes_def block_ok_def split: if_splits)
  have "full_ok h' 0 xs" "chain_ok h' (int (length xs) + 1) ys"
    using ok(2,3) c by (simp_all add: h'_def)
  moreover have "block_ok (int (length xs)) (ys = []) (stored n (ys = []) i ch)"
    using ok(1) i by (auto simp: block_ok_def stored_def)
  ultimately have "chain_ok h' 0 (xs @ c # ys)" by (auto simp: chain_split h'_def)
  moreover have "block_seg h' None p bs None = block_seg h None p bs None" for p bs
    using n by (intro dlseg_links_cong) (simp add: h'_def stored_def)
  moreover have "int (length (bytes_of h' (xs @ c # ys))) \<le> MAX_FILE_SIZE"
  proof -
    have "length (bytes_of h' (xs @ c # ys)) =
        max (length (bytes_of h (xs @ c # ys))) (512 * length xs + nat i + 1)"
      unfolding bytes using le by (simp only: length_overwrite) simp
    moreover have "int (512 * length xs + nat i + 1) \<le> MAX_FILE_SIZE" using i(1,4) by simp
    ultimately show ?thesis using f by (auto simp: file_inv_def max_def simp del: bytes_of_simps)
  qed
  ultimately have "file_inv h' fn (xs @ c # ys)" using f by (simp add: file_inv_def)
  then show ?thesis using bytes by blast
qed

definition fresh_block :: "ptr \<Rightarrow> int \<Rightarrow> block" where
  "fresh_block b i = \<lparr>memory = replicate 512 None, occupied = 0, b_next = None, b_prev = Some b, b_index = i\<rparr>"

lemma write_extend:
  assumes f: "file_inv h fn (xs @ [c])" and n: "h c = Some n" "occupied n = 511"
    and q: "q \<notin> set (xs @ [c])" and m: "512 * int (length xs) + 511 < MAX_FILE_SIZE"
  and h'_def: "h' = h(q \<mapsto> fresh_block c (int (length xs) + 1), c \<mapsto> (stored n True 511 ch)\<lparr>b_next := Some q\<rparr>)"
  shows "file_inv h' (fn\<lparr>last_block := q\<rparr>) (xs @ [c, q]) \<and> bytes_of h' (xs @ [c, q]) =
    overwrite (512 * length xs + 511) [Some ch] (bytes_of h (xs @ [c]))"
proof -
  have c: "c \<notin> set xs" and ok: "block_ok (int (length xs)) True n" "full_ok h 0 xs"
    and lx: "length (bytes_of h xs) = 512 * length xs"
    using file_inv_split [OF f] n(1) by (metis option.inject)+
  have "bytes_of h' (xs @ [c]) = overwrite (512 * length xs + nat 511) [Some ch] (bytes_of h (xs @ [c]))"
    by (rule chain_stored [OF f n(1), where n' = "(stored n True 511 ch)\<lparr>b_next := Some q\<rparr>"])
      (use n q c in \<open>auto simp: h'_def\<close>)
  moreover have "block_bytes h' q = []" using q by (simp add: block_bytes_def h'_def fresh_block_def)
  ultimately have bytes: "bytes_of h' (xs @ [c, q]) =
      overwrite (512 * length xs + 511) [Some ch] (bytes_of h (xs @ [c]))"
    by simp
  have le: "length (bytes_of h (xs @ [c])) = 512 * length xs + 511"
    using lx ok(1) n by (simp add: block_bytes_def block_ok_def)
  have fok: "full_ok h' 0 xs"
    using ok(2) c q by (simp add: h'_def)
  have cok: "chain_ok h' 0 (xs @ c # [q])"
    unfolding chain_split using fok ok(1) n q
    by (auto simp: h'_def block_ok_def stored_def fresh_block_def)
  have "block_seg (h(c \<mapsto> stored n True 511 ch)) None (Some (block_list fn)) (xs @ [c]) None"
    using f n(1) dlseg_links_cong [of "xs @ [c]" b_next b_prev "h(c \<mapsto> stored n True 511 ch)" h]
    by (simp add: file_inv_def stored_def)
  then have "block_seg ((h(c \<mapsto> stored n True 511 ch))(q \<mapsto> fresh_block c (int (length xs) + 1),
      c \<mapsto> (stored n True 511 ch)\<lparr>b_next := Some q\<rparr>)) None (Some (block_list fn)) (xs @ [c, q]) None"
    using f q by (intro blks.push_back) (auto simp: file_inv_def fresh_block_def)
  moreover have "(h(c \<mapsto> stored n True 511 ch))(q \<mapsto> fresh_block c (int (length xs) + 1),
      c \<mapsto> (stored n True 511 ch)\<lparr>b_next := Some q\<rparr>) = h'"
    using q by (auto simp: h'_def)
  ultimately have seg: "block_seg h' None (Some (block_list fn)) (xs @ [c, q]) None" by simp
  have "length (bytes_of h' (xs @ [c, q])) = 512 * length xs + 512"
    unfolding bytes using le by (simp add: length_overwrite)
  then have "int (length (bytes_of h' (xs @ [c, q]))) \<le> MAX_FILE_SIZE" using m by simp
  then have "file_inv h' (fn\<lparr>last_block := q\<rparr>) (xs @ [c, q])"
    using seg cok f q by (simp add: file_inv_def)
  then show ?thesis using bytes by blast
qed

section \<open>The invariant of the whole file system\<close>

definition owned :: "ufs \<Rightarrow> (ptr \<Rightarrow> ptr list) \<Rightarrow> ptr \<Rightarrow> ptr set" where
  "owned s bl f = (if f \<in> dom (files s) then set (bl f) else {})"

definition blocks_inv :: "(ptr \<Rightarrow> ptr list) \<Rightarrow> ufs \<Rightarrow> bool" where
  "blocks_inv bl s \<longleftrightarrow> (\<forall>f n. files s f = Some n \<longrightarrow> file_inv (blocks s) n (bl f)) \<and>
     (\<forall>f g. f \<noteq> g \<longrightarrow> owned s bl f \<inter> owned s bl g = {}) \<and> dom (blocks s) = (\<Union>f. owned s bl f)"

definition fresh_inv :: "ufs \<Rightarrow> bool" where
  "fresh_inv s \<longleftrightarrow> (\<forall>p\<in>dom (blocks s) \<union> dom (files s) \<union> dom (descs s). p < next_ptr s)"

definition desc_ok :: "(ptr \<Rightarrow> ptr list) \<Rightarrow> ufs \<Rightarrow> filedesc \<Rightarrow> bool" where
  "desc_ok bl s dn \<longleftrightarrow> d_file dn \<in> dom (files s) \<and>
     (\<exists>xs ys. bl (d_file dn) = xs @ current_block dn # ys \<and> 0 \<le> block_offset dn \<and> block_offset dn < 512 \<and>
        (ys = [] \<longrightarrow> block_offset dn \<le> occupied (the (blocks s (current_block dn)))))"

definition descs_inv :: "(ptr \<Rightarrow> ptr list) \<Rightarrow> ufs \<Rightarrow> bool" where
  "descs_inv bl s \<longleftrightarrow> (\<forall>d dn. descs s d = Some dn \<longrightarrow> desc_ok bl s dn)"

definition table_inv :: "ptr option list \<Rightarrow> ufs \<Rightarrow> bool" where
  "table_inv tab s \<longleftrightarrow> file_descriptor_count s = int (length tab) \<and>
     (case file_descriptors s of
        None \<Rightarrow> tab = []
      | Some cells \<Rightarrow> file_descriptor_capacity s = int (length cells) \<and> cells \<noteq> [] \<and>
          (\<exists>rest. cells = map Some tab @ rest)) \<and>
     (\<forall>d dn. descs s d = Some dn \<longrightarrow>
        0 \<le> d_index dn \<and> nat (d_index dn) < length tab \<and> tab ! nat (d_index dn) = Some d) \<and>
     (\<forall>i<length tab. \<forall>d. tab ! i = Some d \<longrightarrow> (\<exists>dn. descs s d = Some dn \<and> d_index dn = int i))"

definition users :: "ufs \<Rightarrow> ptr \<Rightarrow> ptr set" where
  "users s f = {d. \<exists>dn. descs s d = Some dn \<and> d_file dn = f}"

definition refs_inv :: "ufs \<Rightarrow> bool" where
  "refs_inv s \<longleftrightarrow> finite (dom (descs s)) \<and>
     (\<forall>f n. files s f = Some n \<longrightarrow> refs n = int (card (users s f)))"

definition list_inv :: "ptr list \<Rightarrow> ufs \<Rightarrow> bool" where
  "list_inv fl s \<longleftrightarrow> file_seg (files s) None (file_list s) fl None \<and> distinct fl \<and>
     (\<forall>f n. files s f = Some n \<longrightarrow> (f \<in> set fl \<longleftrightarrow> \<not> marked_for_deletion n) \<and>
        (marked_for_deletion n \<longrightarrow> f_next n = None \<and> f_prev n = None \<and> 0 < refs n)) \<and>
     inj_on (\<lambda>f. f_name (the (files s f))) (set fl)"

definition ufs_inv :: "(ptr \<Rightarrow> ptr list) \<Rightarrow> ptr list \<Rightarrow> ptr option list \<Rightarrow> ufs \<Rightarrow> bool" where
  "ufs_inv bl fl tab s \<longleftrightarrow> blocks_inv bl s \<and> fresh_inv s \<and> descs_inv bl s \<and> table_inv tab s \<and>
     refs_inv s \<and> list_inv fl s"

section \<open>The abstraction\<close>

record afile =
  a_name :: string
  a_data :: "byte list"

record adesc =
  a_file :: ptr
  a_pos :: nat
  a_flags :: int

record afs =
  a_files :: "ptr \<rightharpoonup> afile"
  a_listed :: "ptr list"
  a_fds :: "adesc option list"
  a_errno :: ufs_error_code

definition desc_pos :: "(ptr \<rightharpoonup> block) \<Rightarrow> filedesc \<Rightarrow> int" where
  "desc_pos h dn = b_index (the (h (current_block dn))) * 512 + block_offset dn"

definition file_abs :: "(ptr \<Rightarrow> ptr list) \<Rightarrow> ufs \<Rightarrow> ptr \<rightharpoonup> afile" where
  "file_abs bl s f = map_option (\<lambda>n. \<lparr>a_name = f_name n, a_data = bytes_of (blocks s) (bl f)\<rparr>) (files s f)"

definition desc_abs :: "ufs \<Rightarrow> ptr \<rightharpoonup> adesc" where
  "desc_abs s d = map_option (\<lambda>dn. \<lparr>a_file = d_file dn, a_pos = nat (desc_pos (blocks s) dn),
     a_flags = d_flags dn\<rparr>) (descs s d)"

definition fds_abs :: "ptr option list \<Rightarrow> ufs \<Rightarrow> adesc option list" where
  "fds_abs tab s = map (\<lambda>slot. Option.bind slot (desc_abs s)) tab"

definition ufs_abs :: "(ptr \<Rightarrow> ptr list) \<Rightarrow> ptr list \<Rightarrow> ptr option list \<Rightarrow> ufs \<Rightarrow> afs" where
  "ufs_abs bl fl tab s =
     \<lparr>a_files = file_abs bl s, a_listed = fl, a_fds = fds_abs tab s, a_errno = errno s\<rparr>"

definition ufs_rel :: "ufs \<Rightarrow> afs \<Rightarrow> bool" where
  "ufs_rel s a \<longleftrightarrow> (\<exists>bl fl tab. ufs_inv bl fl tab s \<and> a = ufs_abs bl fl tab s)"

lemma blocks_invD:
  assumes "blocks_inv bl s" "files s f = Some n"
  shows "file_inv (blocks s) n (bl f)" "set (bl f) \<subseteq> dom (blocks s)"
  using assms by (auto simp: blocks_inv_def owned_def)

text \<open>A descriptor is at a position of its file.\<close>

lemma desc_okD:
  assumes "blocks_inv bl s" "desc_ok bl s dn"
  obtains fn xs ys n where "files s (d_file dn) = Some fn" "bl (d_file dn) = xs @ current_block dn # ys"
    "blocks s (current_block dn) = Some n" "b_index n = int (length xs)" "0 \<le> block_offset dn"
    "block_offset dn < 512" "ys = [] \<longrightarrow> block_offset dn \<le> occupied n"
    "desc_pos (blocks s) dn = 512 * int (length xs) + block_offset dn"
    "nat (desc_pos (blocks s) dn) \<le> length (bytes_of (blocks s) (bl (d_file dn)))"
proof -
  obtain fn where fn: "files s (d_file dn) = Some fn" using assms(2) by (auto simp: desc_ok_def)
  obtain xs ys where xs: "bl (d_file dn) = xs @ current_block dn # ys" "0 \<le> block_offset dn"
    "block_offset dn < 512" "ys = [] \<longrightarrow> block_offset dn \<le> occupied (the (blocks s (current_block dn)))"
    using assms(2) by (auto simp: desc_ok_def)
  have fi: "file_inv (blocks s) fn (xs @ current_block dn # ys)"
    using blocks_invD(1) [OF assms(1) fn] xs(1) by simp
  obtain n where n: "blocks s (current_block dn) = Some n" "b_index n = int (length xs)"
    "block_ok (int (length xs)) (ys = []) n" "length (bytes_of (blocks s) xs) = 512 * length xs"
    using file_inv_split [OF fi] by metis
  have pos: "desc_pos (blocks s) dn = 512 * int (length xs) + block_offset dn"
    using n by (simp add: desc_pos_def)
  have "nat (block_offset dn) \<le> length (block_bytes (blocks s) (current_block dn))"
    using n(1,3) xs by (auto simp: block_bytes_def block_ok_def split: if_splits)
  then have "nat (desc_pos (blocks s) dn) \<le> length (bytes_of (blocks s) (bl (d_file dn)))"
    using n(4) xs pos by (simp add: nat_add_distrib)
  then show ?thesis using that [OF fn xs(1) n(1,2) xs(2,3) _ pos] xs(4) n(1) by simp
qed

lemma list_inv_cong:
  assumes "list_inv fl s" "file_list t = file_list s"
    "\<And>f. map_option (\<lambda>n. (f_next n, f_prev n, f_name n, marked_for_deletion n, 0 < refs n)) (files t f) =
      map_option (\<lambda>n. (f_next n, f_prev n, f_name n, marked_for_deletion n, 0 < refs n)) (files s f)"
  shows "list_inv fl t"
proof -
  have eq: "map_option (\<lambda>n. (f_next n, f_prev n)) (files t f) = map_option (\<lambda>n. (f_next n, f_prev n)) (files s f)"
    "files t f = Some n \<Longrightarrow> \<exists>m. files s f = Some m \<and> f_next n = f_next m \<and> f_prev n = f_prev m \<and>
      f_name n = f_name m \<and> marked_for_deletion n = marked_for_deletion m \<and> (0 < refs n) = (0 < refs m)"
    for f n
    using assms(3) [of f] by (cases "files t f"; cases "files s f"; simp)+
  have seg: "file_seg (files t) None (file_list t) fl None"
    using assms(1,2) dlseg_links_cong [of fl f_next f_prev "files t" "files s"] eq(1)
    by (simp add: list_inv_def)
  have "f_name (the (files t f)) = f_name (the (files s f))" if "f \<in> set fl" for f
    using dlseg_allocated [OF seg that] eq(2) by fastforce
  then have "inj_on (\<lambda>f. f_name (the (files t f))) (set fl)"
    using assms(1) by (simp add: list_inv_def inj_on_def)
  then show ?thesis
    using seg assms(1) eq(2) unfolding list_inv_def by (metis (no_types, lifting))
qed

end
