(* ===== verification/User_FS_IO.thy ===== *)
theory User_FS_IO
  imports User_FS_Inv
begin

text \<open>
  Reading and writing keep the invariant of the file system and do to its abstraction what the
  interface promises: a write overwrites the bytes from the position of the descriptor on, a read
  returns the bytes from there, and both move the descriptor and nothing else.
\<close>

section \<open>Changing the blocks of one file\<close>

text \<open>
  A step that changes the blocks of file f (from bl f to bs), its record but for names, links and
  counters, and descriptors of f.
\<close>

definition one_file_step ::
  "(ptr \<Rightarrow> ptr list) \<Rightarrow> ptr list \<Rightarrow> ptr option list \<Rightarrow> ptr \<Rightarrow> ufile \<Rightarrow> ptr list \<Rightarrow> ufs \<Rightarrow> ufs \<Rightarrow> bool" where
  "one_file_step bl fl tab f fn bs s t \<longleftrightarrow>
     ufs_inv bl fl tab s \<and> files s f = Some fn \<and>
     (\<exists>fn'. files t = (files s)(f \<mapsto> fn') \<and> f_next fn' = f_next fn \<and> f_prev fn' = f_prev fn \<and>
        f_name fn' = f_name fn \<and> refs fn' = refs fn \<and>
        marked_for_deletion fn' = marked_for_deletion fn \<and> file_inv (blocks t) fn' bs) \<and>
     (\<forall>b. b \<notin> set (bl f) \<longrightarrow> b \<notin> set bs \<longrightarrow> blocks t b = blocks s b) \<and>
     dom (blocks t) = dom (blocks s) - set (bl f) \<union> set bs \<and>
     set bs \<inter> dom (blocks s) \<subseteq> set (bl f) \<and>
     (\<forall>b\<in>set bs. b < next_ptr t) \<and> next_ptr s \<le> next_ptr t \<and>
     dom (descs t) = dom (descs s) \<and>
     (\<forall>d dn dn'. descs s d = Some dn \<longrightarrow> descs t d = Some dn' \<longrightarrow>
        d_file dn' = d_file dn \<and> d_index dn' = d_index dn \<and> d_flags dn' = d_flags dn \<and>
        (d_file dn \<noteq> f \<longrightarrow> dn' = dn)) \<and>
     (\<forall>d dn. descs t d = Some dn \<longrightarrow> d_file dn = f \<longrightarrow> desc_ok (bl(f := bs)) t dn) \<and>
     file_list t = file_list s \<and> file_descriptors t = file_descriptors s \<and>
     file_descriptor_count t = file_descriptor_count s \<and>
     file_descriptor_capacity t = file_descriptor_capacity s"

lemma one_file_stepD:
  assumes "one_file_step bl fl tab f fn bs s t"
  shows "blocks_inv bl s" "fresh_inv s" "descs_inv bl s" "table_inv tab s" "refs_inv s" "list_inv fl s"
    and "files s f = Some fn" "dom (files t) = dom (files s)" "dom (descs t) = dom (descs s)"
    and "\<And>g. g \<noteq> f \<Longrightarrow> files t g = files s g"
    and "\<And>d dn dn'. descs s d = Some dn \<Longrightarrow> descs t d = Some dn' \<Longrightarrow>
      d_file dn' = d_file dn \<and> d_index dn' = d_index dn \<and> d_flags dn' = d_flags dn \<and>
      (d_file dn \<noteq> f \<longrightarrow> dn' = dn)"
proof -
  have "ufs_inv bl fl tab s" "files s f = Some fn" "\<exists>fn'. files t = (files s)(f \<mapsto> fn')"
    using assms unfolding one_file_step_def by blast+
  then show "blocks_inv bl s" "fresh_inv s" "descs_inv bl s" "table_inv tab s" "refs_inv s" "list_inv fl s"
    "files s f = Some fn" "dom (files t) = dom (files s)" "\<And>g. g \<noteq> f \<Longrightarrow> files t g = files s g"
    by (auto simp: ufs_inv_def split: if_splits)
  show "dom (descs t) = dom (descs s)" using assms unfolding one_file_step_def by blast
  show "\<And>d dn dn'. descs s d = Some dn \<Longrightarrow> descs t d = Some dn' \<Longrightarrow>
      d_file dn' = d_file dn \<and> d_index dn' = d_index dn \<and> d_flags dn' = d_flags dn \<and>
      (d_file dn \<noteq> f \<longrightarrow> dn' = dn)"
    using assms unfolding one_file_step_def by blast
qed

lemma one_file_step_file:
  assumes "one_file_step bl fl tab f fn bs s t"
  obtains fn' where "files t = (files s)(f \<mapsto> fn')" "f_next fn' = f_next fn" "f_prev fn' = f_prev fn"
    "f_name fn' = f_name fn" "refs fn' = refs fn" "marked_for_deletion fn' = marked_for_deletion fn"
    "file_inv (blocks t) fn' bs"
  using assms unfolding one_file_step_def by blast

lemma owned_disjoint: "blocks_inv bl s \<Longrightarrow> g \<noteq> f \<Longrightarrow> owned s bl g \<inter> owned s bl f = {}"
  unfolding blocks_inv_def by blast

lemma one_file_step_other:
  assumes step: "one_file_step bl fl tab f fn bs s t" and g: "g \<noteq> f" "g \<in> dom (files s)" "b \<in> set (bl g)"
  shows "blocks t b = blocks s b" "b \<notin> set bs"
proof -
  note D = one_file_stepD [OF step]
  have b: "b \<in> dom (blocks s)" "b \<in> owned s bl g" using g(2,3) D(1) by (auto simp: blocks_inv_def owned_def)
  have "owned s bl f = set (bl f)" using D(7) by (simp add: owned_def domI)
  then have "b \<notin> set (bl f)" using b(2) owned_disjoint [OF D(1) g(1)] by blast
  then show "b \<notin> set bs" "blocks t b = blocks s b"
    using step b(1) unfolding one_file_step_def by blast+
qed

lemma one_file_step_blocks:
  assumes step: "one_file_step bl fl tab f fn bs s t"
  shows "blocks_inv (bl(f := bs)) t"
proof -
  note D = one_file_stepD [OF step]
  have owned_t: "owned t (bl(f := bs)) g = (if g = f then set bs else owned s bl g)" for g
    using D(7,8) by (auto simp: owned_def)
  obtain fn' where fn': "files t = (files s)(f \<mapsto> fn')" "file_inv (blocks t) fn' bs"
    using one_file_step_file [OF step] by metis
  have "file_inv (blocks t) n ((bl(f := bs)) g)" if g: "files t g = Some n" for g n
  proof (cases "g = f")
    case True
    then show ?thesis using g fn' by simp
  next
    case False
    then have gs: "files s g = Some n" using g D(10) by simp
    then have "file_inv (blocks t) n (bl g) = file_inv (blocks s) n (bl g)"
      using one_file_step_other(1) [OF step False] by (intro file_inv_cong) auto
    then show ?thesis using blocks_invD(1) [OF D(1) gs] False by simp
  qed
  moreover have "owned t (bl(f := bs)) g \<inter> owned t (bl(f := bs)) k = {}" if "g \<noteq> k" for g k
  proof -
    have "set bs \<inter> owned s bl g = {}" if "g \<noteq> f" for g
      using one_file_step_other(2) [OF step that] by (auto simp: owned_def)
    then show ?thesis using owned_disjoint [OF D(1) that] that unfolding owned_t by (auto split: if_splits)
  qed
  moreover have "dom (blocks t) = (\<Union>g. owned t (bl(f := bs)) g)"
  proof -
    have s: "dom (blocks s) = (\<Union>g. owned s bl g)" using D(1) by (simp add: blocks_inv_def)
    have f: "owned s bl f = set (bl f)" using D(7) by (simp add: owned_def domI)
    have "owned s bl g \<inter> owned s bl f = {}" if "g \<noteq> f" for g by (rule owned_disjoint [OF D(1) that])
    then have others: "(\<Union>g. owned s bl g) - owned s bl f = (\<Union>g\<in>- {f}. owned s bl g)" by blast
    have "dom (blocks t) = dom (blocks s) - set (bl f) \<union> set bs"
      using step unfolding one_file_step_def by blast
    also have "\<dots> = (\<Union>g. if g = f then set bs else owned s bl g)"
      unfolding s f [symmetric] others by auto
    finally show ?thesis unfolding owned_t .
  qed
  ultimately show ?thesis unfolding blocks_inv_def by blast
qed

lemma one_file_step_descs:
  assumes step: "one_file_step bl fl tab f fn bs s t"
  shows "descs_inv (bl(f := bs)) t"
  unfolding descs_inv_def
proof (intro allI impI)
  note D = one_file_stepD [OF step]
  fix d dn' assume d: "descs t d = Some dn'"
  show "desc_ok (bl(f := bs)) t dn'"
  proof (cases "d_file dn' = f")
    case True
    then show ?thesis using step d unfolding one_file_step_def by blast
  next
    case False
    obtain dn where ds: "descs s d = Some dn" using d D(9) by blast
    then have eq: "dn' = dn" "d_file dn \<noteq> f" using D(11) [OF ds d] False by auto
    have ok: "desc_ok bl s dn" using D(3) ds by (auto simp: descs_inv_def)
    then have "d_file dn \<in> dom (files s)" "current_block dn \<in> set (bl (d_file dn))"
      by (auto simp: desc_ok_def)
    then have "blocks t (current_block dn) = blocks s (current_block dn)"
      using one_file_step_other(1) [OF step eq(2)] by blast
    then show ?thesis using ok eq D(8) by (simp add: desc_ok_def)
  qed
qed

lemma one_file_step_table:
  assumes step: "one_file_step bl fl tab f fn bs s t"
  shows "table_inv tab t"
proof -
  note D = one_file_stepD [OF step]
  have rest: "file_descriptors t = file_descriptors s" "file_descriptor_count t = file_descriptor_count s"
    "file_descriptor_capacity t = file_descriptor_capacity s"
    using step unfolding one_file_step_def by blast+
  have "0 \<le> d_index dn' \<and> nat (d_index dn') < length tab \<and> tab ! nat (d_index dn') = Some d"
    if d: "descs t d = Some dn'" for d dn'
  proof -
    obtain dn where ds: "descs s d = Some dn" using d D(9) by blast
    then show ?thesis using D(4) D(11) [OF ds d] by (auto simp: table_inv_def)
  qed
  moreover have "\<exists>dn. descs t d = Some dn \<and> d_index dn = int i" if i: "i < length tab" "tab ! i = Some d" for i d
  proof -
    obtain dn where ds: "descs s d = Some dn" "d_index dn = int i"
      using D(4) i unfolding table_inv_def by blast
    then show ?thesis using D(9) D(11) [OF ds(1)] by (metis domD domI)
  qed
  ultimately show ?thesis using D(4) unfolding table_inv_def rest by blast
qed

lemma one_file_step_inv:
  assumes step: "one_file_step bl fl tab f fn bs s t"
  shows "ufs_inv (bl(f := bs)) fl tab t"
proof -
  note D = one_file_stepD [OF step]
  obtain fn' where fn': "files t = (files s)(f \<mapsto> fn')" "f_next fn' = f_next fn" "f_prev fn' = f_prev fn"
    "f_name fn' = f_name fn" "refs fn' = refs fn" "marked_for_deletion fn' = marked_for_deletion fn"
    using one_file_step_file [OF step] by metis
  have "(\<exists>dn. descs t d = Some dn \<and> d_file dn = g) \<longleftrightarrow> (\<exists>dn. descs s d = Some dn \<and> d_file dn = g)" for d g
    using D(9) D(11) [of d] by (metis domD domI)
  then have "users t g = users s g" for g by (simp add: users_def)
  then have "refs_inv t" using D(5,7,9) fn' by (auto simp: refs_inv_def)
  moreover have "file_list t = file_list s" using step unfolding one_file_step_def by blast
  then have "list_inv fl t"
    by (rule list_inv_cong [OF D(6)]) (use D(7) fn' in auto)
  moreover have "fresh_inv t"
  proof -
    have "\<forall>b\<in>set bs. b < next_ptr t" "next_ptr s \<le> next_ptr t"
      "dom (blocks t) = dom (blocks s) - set (bl f) \<union> set bs"
      using step unfolding one_file_step_def by blast+
    then show ?thesis using D(2,8,9) unfolding fresh_inv_def by (metis DiffD1 UnE less_le_trans UnI1 UnI2)
  qed
  ultimately show ?thesis
    using one_file_step_blocks [OF step] one_file_step_descs [OF step] one_file_step_table [OF step]
    by (simp add: ufs_inv_def)
qed

lemma one_file_step_abs:
  assumes step: "one_file_step bl fl tab f fn bs s t"
  shows "file_abs (bl(f := bs)) t = (file_abs bl s)(f \<mapsto> \<lparr>a_name = f_name fn, a_data = bytes_of (blocks t) bs\<rparr>)"
proof
  note D = one_file_stepD [OF step]
  fix g
  show "file_abs (bl(f := bs)) t g =
    ((file_abs bl s)(f \<mapsto> \<lparr>a_name = f_name fn, a_data = bytes_of (blocks t) bs\<rparr>)) g"
  proof (cases "g = f")
    case True
    obtain fn' where "files t = (files s)(f \<mapsto> fn')" "f_name fn' = f_name fn"
      using one_file_step_file [OF step] by metis
    then show ?thesis using True by (simp add: file_abs_def)
  next
    case False
    have "bytes_of (blocks t) (bl g) = bytes_of (blocks s) (bl g)" if "g \<in> dom (files s)"
      using one_file_step_other(1) [OF step False that] by (intro bytes_cong) auto
    then show ?thesis using False D(10) by (cases "files s g") (auto simp: file_abs_def)
  qed
qed

lemma one_file_step_desc_abs:
  assumes step: "one_file_step bl fl tab f fn bs s t" and d: "descs s d = Some dn" "d_file dn \<noteq> f"
  shows "desc_abs t d = desc_abs s d"
proof -
  note D = one_file_stepD [OF step]
  obtain dn' where dt: "descs t d = Some dn'" using d(1) D(9) by blast
  have eq: "dn' = dn" using D(11) [OF d(1) dt] d(2) by auto
  have "desc_ok bl s dn" using D(3) d(1) by (auto simp: descs_inv_def)
  then have "d_file dn \<in> dom (files s)" "current_block dn \<in> set (bl (d_file dn))"
    by (auto simp: desc_ok_def)
  then have "blocks t (current_block dn) = blocks s (current_block dn)"
    using one_file_step_other(1) [OF step d(2)] by blast
  then show ?thesis using eq dt d(1) by (simp add: desc_abs_def desc_pos_def)
qed

section \<open>Writing one byte\<close>

lemma write_single_byte_stored:
  assumes "files s (d_file dn) = Some fn" "file_inv (blocks s) fn (xs @ current_block dn # ys)"
    "descs s d = Some dn" "blocks s (current_block dn) = Some n" "0 \<le> block_offset dn" "block_offset dn < 512"
  shows "write_single_byte d c s =
    Some (s\<lparr>blocks := (blocks s)(current_block dn \<mapsto> stored n (ys = []) (block_offset dn) c)\<rparr>)"
proof -
  have mem: "cset (memory n) (block_offset dn) (Some c) = Some ((memory n)[nat (block_offset dn) := Some c])"
    by (rule file_inv_split [OF assms(2)]) (use assms(4-6) in \<open>simp add: cset_def block_ok_def\<close>)
  have "last_block fn = current_block dn \<longleftrightarrow> ys = []"
    using assms(2) by (cases ys rule: rev_cases) (auto simp: file_inv_def)
  then show ?thesis
    using assms(1,3,4) mem
    by (cases "ys = []") (auto simp: write_single_byte_def set_block_def stored_def)
qed

lemma advance_inside:
  assumes "descs s d = Some dn" "block_offset dn < 511"
  shows "advance_descriptor d s = Some (s\<lparr>descs := (descs s)(d \<mapsto> dn\<lparr>block_offset := block_offset dn + 1\<rparr>)\<rparr>)"
  using assms by (simp add: advance_descriptor_def set_desc_def BLOCK_SIZE_def)

lemma advance_to_next:
  assumes "descs s d = Some dn" "block_offset dn = 511" "blocks s (current_block dn) = Some n" "b_next n = Some q"
  shows "advance_descriptor d s = Some (s\<lparr>descs := (descs s)(d \<mapsto> dn\<lparr>current_block := q, block_offset := 0\<rparr>)\<rparr>)"
  using assms by (simp add: advance_descriptor_def set_desc_def BLOCK_SIZE_def)

lemma advance_extend:
  assumes "descs s d = Some dn" "block_offset dn = 511" "blocks s (current_block dn) = Some n" "b_next n = None"
    "files s (d_file dn) = Some fn" "next_ptr s \<noteq> current_block dn"
  shows "advance_descriptor d s = Some (s\<lparr>next_ptr := next_ptr s + 1,
      blocks := (blocks s)(next_ptr s \<mapsto> fresh_block (current_block dn) (b_index n + 1),
        current_block dn \<mapsto> n\<lparr>b_next := Some (next_ptr s)\<rparr>),
      files := (files s)(d_file dn \<mapsto> fn\<lparr>last_block := next_ptr s\<rparr>),
      descs := (descs s)(d \<mapsto> dn\<lparr>current_block := next_ptr s, block_offset := 0\<rparr>)\<rparr>)"
  using assms not_sym [OF assms(6)]
  by (simp add: advance_descriptor_def set_desc_def set_block_def set_file_def BLOCK_SIZE_def fresh_block_def
      Let_def)

lemma stored_simps [simp]:
  "b_index (stored n l i c) = b_index n" "b_next (stored n l i c) = b_next n" "b_prev (stored n l i c) = b_prev n"
  "occupied n \<le> occupied (stored n l i c)"
  by (auto simp: stored_def)

lemma desc_okI:
  "\<lbrakk>d_file dn \<in> dom (files s); bl (d_file dn) = xs @ current_block dn # ys; 0 \<le> block_offset dn;
    block_offset dn < 512; ys = [] \<Longrightarrow> block_offset dn \<le> occupied (the (blocks s (current_block dn)))\<rbrakk> \<Longrightarrow>
   desc_ok bl s dn"
  unfolding desc_ok_def by blast

lemma desc_ok_mono:
  assumes "desc_ok bl s dn" "d_file dn \<in> dom (files t)"
    "occupied (the (blocks s (current_block dn))) \<le> occupied (the (blocks t (current_block dn)))"
    "bl' (d_file dn) = bl (d_file dn) @ zs"
  shows "desc_ok bl' t dn"
proof -
  obtain xs ys where xs: "bl (d_file dn) = xs @ current_block dn # ys" "0 \<le> block_offset dn"
    "block_offset dn < 512" "ys = [] \<longrightarrow> block_offset dn \<le> occupied (the (blocks s (current_block dn)))"
    using assms(1) by (auto simp: desc_ok_def)
  then have "bl' (d_file dn) = xs @ current_block dn # (ys @ zs)" using assms(4) by simp
  then show ?thesis
    using xs assms(2,3) by (intro desc_okI) auto
qed

text \<open>The new descriptor after a byte, with the block that follows the current one.\<close>

definition advanced :: "filedesc \<Rightarrow> ptr \<Rightarrow> filedesc" where
  "advanced dn q = (if block_offset dn < 511 then dn\<lparr>block_offset := block_offset dn + 1\<rparr>
     else dn\<lparr>current_block := q, block_offset := 0\<rparr>)"

lemma advanced_fields [simp]:
  "d_file (advanced dn q) = d_file dn" "d_index (advanced dn q) = d_index dn" "d_flags (advanced dn q) = d_flags dn"
  by (auto simp: advanced_def)

text \<open>A descriptor that advances inside its block, or into the next one, stays inside its file.\<close>

lemma advanced_ok:
  assumes fi: "file_inv (blocks s) fn (xs @ current_block dn # ys)" and bl: "bl (d_file dn) = xs @ current_block dn # ys"
    and f: "d_file dn \<in> dom (files t)" and o: "0 \<le> block_offset dn" "block_offset dn < 512"
    and stay: "block_offset dn < 511 \<or> ys \<noteq> []"
    and occ: "ys = [] \<Longrightarrow> block_offset dn + 1 \<le> occupied (the (blocks t (current_block dn)))"
    and frame: "\<And>b. b \<noteq> current_block dn \<Longrightarrow> blocks t b = blocks s b"
  shows "desc_ok bl t (advanced dn (hd ys))"
proof (cases "block_offset dn < 511")
  case True
  then show ?thesis
    by (intro desc_okI [where xs = xs and ys = ys]) (use bl o f occ in \<open>auto simp: advanced_def\<close>)
next
  case False
  then obtain y zs where ys: "ys = y # zs" using stay by (cases ys) auto
  have "y \<noteq> current_block dn" using fi ys by (auto simp: file_inv_def)
  have "chain_ok (blocks s) (int (length xs) + 1) ys" by (rule file_inv_split [OF fi])
  then obtain m where "blocks s y = Some m" "zs = [] \<longrightarrow> 0 \<le> occupied m"
    using ys by (auto simp: block_ok_def split: option.splits)
  moreover have "bl (d_file dn) = (xs @ [current_block dn]) @ y # zs" using bl ys by simp
  ultimately show ?thesis
    by (intro desc_okI [where xs = "xs @ [current_block dn]" and ys = zs])
      (use False f ys frame [OF \<open>y \<noteq> current_block dn\<close>] in \<open>auto simp: advanced_def\<close>)
qed

lemma in_place_step:
  assumes inv: "ufs_inv bl fl tab s" and d: "descs s d = Some dn" and fn: "files s (d_file dn) = Some fn"
    and bl: "bl (d_file dn) = xs @ current_block dn # ys" and n: "blocks s (current_block dn) = Some n"
    and o: "0 \<le> block_offset dn" "block_offset dn < 512" "ys = [] \<longrightarrow> block_offset dn \<le> occupied n"
    and room: "512 * int (length xs) + block_offset dn < MAX_FILE_SIZE"
    and stay: "block_offset dn < 511 \<or> ys \<noteq> []"
    and t: "t = s\<lparr>blocks := (blocks s)(current_block dn \<mapsto> stored n (ys = []) (block_offset dn) c),
      descs := (descs s)(d \<mapsto> advanced dn (hd ys))\<rparr>"
  shows "one_file_step bl fl tab (d_file dn) fn (bl (d_file dn)) s t"
proof -
  let ?f = "d_file dn" and ?c = "current_block dn"
  have parts: "blocks_inv bl s" "fresh_inv s" "descs_inv bl s" using inv by (auto simp: ufs_inv_def)
  have fi: "file_inv (blocks s) fn (xs @ ?c # ys)" using blocks_invD(1) [OF parts(1) fn] bl by simp
  have fi': "file_inv (blocks t) fn (bl ?f)"
    using write_in_place [OF fi n o(1,2), of "blocks t" c] o(3) stay room bl by (auto simp: t)
  have sub: "set (bl ?f) \<subseteq> dom (blocks s)" by (rule blocks_invD(2) [OF parts(1) fn])
  have desc: "desc_ok (bl(?f := bl ?f)) t en" if e: "descs t e = Some en" "d_file en = ?f" for e en
  proof (cases "e = d")
    case True
    then have "en = advanced dn (hd ys)" using e by (simp add: t)
    moreover have "desc_ok (bl(?f := bl ?f)) t (advanced dn (hd ys))"
      by (rule advanced_ok [OF fi _ _ o(1,2) stay]) (use bl fn o n in \<open>auto simp: t stored_def\<close>)
    ultimately show ?thesis by simp
  next
    case False
    then have es: "descs s e = Some en" using e by (simp add: t)
    then have "desc_ok bl s en" using parts(3) by (auto simp: descs_inv_def)
    then show ?thesis
      by (rule desc_ok_mono [where zs = "[]"]) (use fn n e in \<open>auto simp: t\<close>)
  qed
  have "dom (descs t) = dom (descs s)" "dom (blocks t) = dom (blocks s)" using d n by (auto simp: t)
  moreover have "?c \<in> set (bl ?f)" using bl by simp
  moreover have "b < next_ptr t" if "b \<in> set (bl ?f)" for b
    using that sub parts(2) by (auto simp: fresh_inv_def t)
  moreover have "files t = (files s)(?f \<mapsto> fn)" using fn by (auto simp: t)
  ultimately show ?thesis
    unfolding one_file_step_def using inv fn fi' sub desc d by (auto simp: t)
qed

lemma extend_step:
  assumes inv: "ufs_inv bl fl tab s" and d: "descs s d = Some dn" and fn: "files s (d_file dn) = Some fn"
    and bl: "bl (d_file dn) = xs @ [current_block dn]" and n: "blocks s (current_block dn) = Some n"
    and o: "block_offset dn = 511" "occupied n = 511"
    and room: "512 * int (length xs) + 511 < MAX_FILE_SIZE"
    and t: "t = s\<lparr>next_ptr := next_ptr s + 1,
      blocks := (blocks s)(next_ptr s \<mapsto> fresh_block (current_block dn) (int (length xs) + 1),
        current_block dn \<mapsto> (stored n True 511 c)\<lparr>b_next := Some (next_ptr s)\<rparr>),
      files := (files s)(d_file dn \<mapsto> fn\<lparr>last_block := next_ptr s\<rparr>),
      descs := (descs s)(d \<mapsto> advanced dn (next_ptr s))\<rparr>"
  shows "one_file_step bl fl tab (d_file dn) fn (xs @ [current_block dn, next_ptr s]) s t"
    and "bytes_of (blocks t) (xs @ [current_block dn, next_ptr s]) =
      overwrite (512 * length xs + 511) [Some c] (bytes_of (blocks s) (xs @ [current_block dn]))"
proof -
  let ?f = "d_file dn" and ?c = "current_block dn" and ?q = "next_ptr s"
  let ?bs = "xs @ [?c, ?q]"
  have parts: "blocks_inv bl s" "fresh_inv s" "descs_inv bl s" using inv by (auto simp: ufs_inv_def)
  have fi: "file_inv (blocks s) fn (xs @ [?c])" using blocks_invD(1) [OF parts(1) fn] bl by simp
  have sub: "set (bl ?f) \<subseteq> dom (blocks s)" by (rule blocks_invD(2) [OF parts(1) fn])
  have qb: "?q \<notin> dom (blocks s)" using parts(2) by (auto simp: fresh_inv_def)
  then have q: "?q \<notin> set (xs @ [?c])" "?q \<noteq> ?c" using sub bl by auto
  have wr: "file_inv (blocks t) (fn\<lparr>last_block := ?q\<rparr>) ?bs \<and>
      bytes_of (blocks t) ?bs = overwrite (512 * length xs + 511) [Some c] (bytes_of (blocks s) (xs @ [?c]))"
    by (rule write_extend [OF fi n o(2) q(1) room]) (simp add: t)
  then show "bytes_of (blocks t) ?bs =
      overwrite (512 * length xs + 511) [Some c] (bytes_of (blocks s) (xs @ [?c]))" by blast
  have desc: "desc_ok (bl(?f := ?bs)) t en" if e: "descs t e = Some en" "d_file en = ?f" for e en
  proof (cases "e = d")
    case True
    then have "en = advanced dn ?q" using e by (simp add: t)
    then show ?thesis
      by (intro desc_okI [where xs = "xs @ [?c]" and ys = "[]"])
        (use fn q(2) o in \<open>auto simp: advanced_def t fresh_block_def\<close>)
  next
    case False
    then have es: "descs s e = Some en" using e by (simp add: t)
    then have ok: "desc_ok bl s en" using parts(3) by (auto simp: descs_inv_def)
    then have "current_block en \<noteq> ?q" using sub qb e(2) by (auto simp: desc_ok_def)
    then show ?thesis
      using desc_ok_mono [OF ok, where zs = "[?q]"] fn n e bl by (auto simp: t)
  qed
  have "dom (descs t) = dom (descs s)" "dom (blocks t) = dom (blocks s) - set (bl ?f) \<union> set ?bs"
    using d n sub bl by (auto simp: t)
  moreover have "b < next_ptr t" if "b \<in> set ?bs" for b
  proof -
    have "set (xs @ [?c]) \<subseteq> dom (blocks s)" using sub bl by simp
    then have "\<forall>b\<in>set (xs @ [?c]). b < ?q" using parts(2) by (auto simp: fresh_inv_def)
    then show ?thesis using that by (auto simp: t)
  qed
  moreover have "set ?bs \<inter> dom (blocks s) \<subseteq> set (bl ?f)" using bl qb by auto
  moreover have "\<forall>b. b \<notin> set (bl ?f) \<longrightarrow> b \<notin> set ?bs \<longrightarrow> blocks t b = blocks s b" using bl by (simp add: t)
  moreover have "\<exists>fn'. files t = (files s)(?f \<mapsto> fn') \<and> f_next fn' = f_next fn \<and> f_prev fn' = f_prev fn \<and>
        f_name fn' = f_name fn \<and> refs fn' = refs fn \<and>
        marked_for_deletion fn' = marked_for_deletion fn \<and> file_inv (blocks t) fn' ?bs"
    using wr by (intro exI [of _ "fn\<lparr>last_block := ?q\<rparr>"]) (simp add: t)
  ultimately show "one_file_step bl fl tab ?f fn ?bs s t"
    unfolding one_file_step_def using inv fn desc d by (simp add: t)
qed

lemma write_byte_shape:
  assumes inv: "ufs_inv bl fl tab s" and d: "descs s d = Some dn" and room: "desc_pos (blocks s) dn < MAX_FILE_SIZE"
  obtains t fn bs q where
    "do { s \<leftarrow> write_single_byte d c s; advance_descriptor d s } = Some t"
    "one_file_step bl fl tab (d_file dn) fn bs s t"
    "bytes_of (blocks t) bs = overwrite (nat (desc_pos (blocks s) dn)) [Some c] (bytes_of (blocks s) (bl (d_file dn)))"
    "descs t = (descs s)(d \<mapsto> advanced dn q)" "desc_pos (blocks t) (advanced dn q) = desc_pos (blocks s) dn + 1"
    "\<forall>b\<in>dom (blocks s). b_index (the (blocks t b)) = b_index (the (blocks s b))"
    "errno t = errno s"
proof -
  have parts: "blocks_inv bl s" "fresh_inv s" "descs_inv bl s" using inv by (auto simp: ufs_inv_def)
  let ?f = "d_file dn" and ?c = "current_block dn" and ?o = "block_offset dn"
  obtain fn xs ys n where fn: "files s ?f = Some fn" and bl: "bl ?f = xs @ ?c # ys"
    and n: "blocks s ?c = Some n" "b_index n = int (length xs)" and o: "0 \<le> ?o" "?o < 512" "ys = [] \<longrightarrow> ?o \<le> occupied n"
    and pos: "desc_pos (blocks s) dn = 512 * int (length xs) + ?o"
    using desc_okD [OF parts(1)] parts(3) d unfolding descs_inv_def by metis
  have fi: "file_inv (blocks s) fn (xs @ ?c # ys)" using blocks_invD(1) [OF parts(1) fn] bl by simp
  have nat_pos: "nat (desc_pos (blocks s) dn) = 512 * length xs + nat ?o" using pos o by (simp add: nat_add_distrib)
  have nxt: "b_next n = hd_or ys None" and ok: "block_ok (int (length xs)) (ys = []) n"
    using file_inv_split [OF fi] n(1) by (metis option.inject)+
  have w: "write_single_byte d c s =
    Some (s\<lparr>blocks := (blocks s)(?c \<mapsto> stored n (ys = []) ?o c)\<rparr>)"
    by (rule write_single_byte_stored [OF fn fi d n(1) o(1,2)])
  show ?thesis
  proof (cases "?o < 511 \<or> ys \<noteq> []")
    case stay: True
    define t where "t = s\<lparr>blocks := (blocks s)(?c \<mapsto> stored n (ys = []) ?o c),
      descs := (descs s)(d \<mapsto> advanced dn (hd ys))\<rparr>"
    have step: "one_file_step bl fl tab ?f fn (bl ?f) s t"
      by (rule in_place_step [OF inv d fn bl n(1) o _ stay t_def]) (use room pos in simp)
    have adv: "advance_descriptor d (s\<lparr>blocks := (blocks s)(?c \<mapsto> stored n (ys = []) ?o c)\<rparr>) = Some t"
    proof (cases "?o < 511")
      case True
      then show ?thesis using d by (simp add: advance_inside t_def advanced_def)
    next
      case False
      then have "b_next n = Some (hd ys)" "?o = 511" using stay nxt o(2) by (cases ys; simp)+
      then show ?thesis using d by (simp add: advance_to_next t_def advanced_def)
    qed
    have "bytes_of (blocks t) (bl ?f) = overwrite (nat (desc_pos (blocks s) dn)) [Some c] (bytes_of (blocks s) (bl ?f))"
      using write_in_place [OF fi n(1) o(1,2), of "blocks t" c] o(3) stay room pos bl unfolding nat_pos
      by (auto simp: t_def)
    moreover have "desc_pos (blocks t) (advanced dn (hd ys)) = desc_pos (blocks s) dn + 1"
    proof (cases "?o < 511")
      case True
      then show ?thesis using n by (simp add: desc_pos_def advanced_def t_def)
    next
      case False
      then obtain y zs where ys: "ys = y # zs" using stay by (cases ys) auto
      have "chain_ok (blocks s) (int (length xs) + 1) ys" by (rule file_inv_split [OF fi])
      moreover have "y \<noteq> ?c" using fi ys by (auto simp: file_inv_def)
      ultimately show ?thesis using False o(2) ys pos
        by (auto simp: desc_pos_def advanced_def t_def block_ok_def split: option.splits)
    qed
    ultimately show ?thesis
      using that [OF _ step, of "hd ys"] w adv n(1) by (auto simp: t_def)
  next
    case False
    then have e: "ys = []" "?o = 511" "occupied n = 511" using o ok by (auto simp: block_ok_def)
    define t where "t = s\<lparr>next_ptr := next_ptr s + 1,
      blocks := (blocks s)(next_ptr s \<mapsto> fresh_block ?c (int (length xs) + 1),
        ?c \<mapsto> (stored n True 511 c)\<lparr>b_next := Some (next_ptr s)\<rparr>),
      files := (files s)(?f \<mapsto> fn\<lparr>last_block := next_ptr s\<rparr>),
      descs := (descs s)(d \<mapsto> advanced dn (next_ptr s))\<rparr>"
    have bl': "bl ?f = xs @ [?c]" using bl e(1) by simp
    have step: "one_file_step bl fl tab ?f fn (xs @ [?c, next_ptr s]) s t"
      "bytes_of (blocks t) (xs @ [?c, next_ptr s]) =
        overwrite (512 * length xs + 511) [Some c] (bytes_of (blocks s) (xs @ [?c]))"
      by (rule extend_step [OF inv d fn bl' n(1) e(2,3) _ t_def], use room pos e in simp)+
    have q: "next_ptr s \<notin> dom (blocks s)" using parts(2) by (auto simp: fresh_inv_def)
    then have qc: "next_ptr s \<noteq> ?c" using n(1) by auto
    have "advance_descriptor d (s\<lparr>blocks := (blocks s)(?c \<mapsto> stored n (ys = []) ?o c)\<rparr>) = Some t"
      using advance_extend [of "s\<lparr>blocks := (blocks s)(?c \<mapsto> stored n (ys = []) ?o c)\<rparr>" d dn] d e fn nxt n qc
      by (simp add: t_def advanced_def fun_upd_twist)
    moreover have "desc_pos (blocks t) (advanced dn (next_ptr s)) = desc_pos (blocks s) dn + 1"
      using pos e qc by (simp add: desc_pos_def advanced_def t_def fresh_block_def)
    moreover have "b_index (the (blocks t b)) = b_index (the (blocks s b))" if "b \<in> dom (blocks s)" for b
      using that q n(1) by (auto simp: t_def)
    ultimately show ?thesis
      using that [OF _ step(1), of "next_ptr s"] w step(2) bl' nat_pos e by (simp add: t_def)
  qed
qed

section \<open>The loop of a write\<close>

lemma ufs_inv_parts:
  assumes "ufs_inv bl fl tab s"
  shows "blocks_inv bl s" "fresh_inv s" "descs_inv bl s" "table_inv tab s" "refs_inv s" "list_inv fl s"
  using assms by (auto simp: ufs_inv_def)

lemma desc_abs_Some:
  "desc_abs s d = Some a \<longleftrightarrow> (\<exists>dn. descs s d = Some dn \<and>
     a = \<lparr>a_file = d_file dn, a_pos = nat (desc_pos (blocks s) dn), a_flags = d_flags dn\<rparr>)"
  by (auto simp: desc_abs_def)

lemma file_abs_Some:
  "file_abs bl s f = Some fa \<longleftrightarrow>
   (\<exists>n. files s f = Some n \<and> fa = \<lparr>a_name = f_name n, a_data = bytes_of (blocks s) (bl f)\<rparr>)"
  by (auto simp: file_abs_def)

lemma desc_pos_le:
  assumes "ufs_inv bl fl tab s" "descs s d = Some dn"
  shows "0 \<le> desc_pos (blocks s) dn" "nat (desc_pos (blocks s) dn) \<le> length (bytes_of (blocks s) (bl (d_file dn)))"
  using desc_okD [of bl s dn] ufs_inv_parts [OF assms(1)] assms(2) unfolding descs_inv_def
  by (metis add_nonneg_nonneg mult_nonneg_nonneg of_nat_0_le_iff zero_le_numeral, metis)

text \<open>
  After a step on the descriptor d the other descriptors are abstractly where they were: a block
  never changes its index.
\<close>

lemma desc_abs_step:
  assumes step: "one_file_step bl fl tab f fn bs s t" and d: "descs s d = Some dn" "d_file dn = f"
    and t: "descs t = (descs s)(d \<mapsto> dn')" "desc_pos (blocks t) dn' = desc_pos (blocks s) dn + 1"
    and idx: "\<forall>b\<in>dom (blocks s). b_index (the (blocks t b)) = b_index (the (blocks s b))"
    and pos: "0 \<le> desc_pos (blocks s) dn"
  shows "desc_abs t = (desc_abs s)(d \<mapsto> \<lparr>a_file = f, a_pos = Suc (nat (desc_pos (blocks s) dn)), a_flags = d_flags dn\<rparr>)"
proof
  note D = one_file_stepD [OF step]
  fix e
  show "desc_abs t e =
    ((desc_abs s)(d \<mapsto> \<lparr>a_file = f, a_pos = Suc (nat (desc_pos (blocks s) dn)), a_flags = d_flags dn\<rparr>)) e"
  proof (cases "e = d")
    case True
    have "descs t d = Some dn'" using t(1) by simp
    then have "d_file dn' = f" "d_flags dn' = d_flags dn" using D(11) [OF d(1)] d(2) by auto
    moreover have "nat (desc_pos (blocks t) dn') = Suc (nat (desc_pos (blocks s) dn))"
      using t(2) pos by simp
    ultimately show ?thesis using True t(1) by (simp add: desc_abs_def)
  next
    case False
    then have same: "descs t e = descs s e" using t(1) by simp
    show ?thesis
    proof (cases "descs s e")
      case None
      then show ?thesis using same False by (simp add: desc_abs_def)
    next
      case (Some en)
      then have "desc_ok bl s en" using D(3) by (auto simp: descs_inv_def)
      then have "current_block en \<in> dom (blocks s)"
        using D(1) blocks_invD(2) [of bl s "d_file en"] by (auto simp: desc_ok_def)
      then show ?thesis using Some same False idx by (simp add: desc_abs_def desc_pos_def)
    qed
  qed
qed

lemma write_byte_abs:
  assumes inv: "ufs_inv bl fl tab s" and d: "desc_abs s d = Some a" "file_abs bl s (a_file a) = Some fa"
    and room: "int (a_pos a) < MAX_FILE_SIZE"
  obtains t bl' where
    "do { s \<leftarrow> write_single_byte d c s; advance_descriptor d s } = Some t" "ufs_inv bl' fl tab t"
    "file_abs bl' t = (file_abs bl s)(a_file a \<mapsto> fa\<lparr>a_data := overwrite (a_pos a) [Some c] (a_data fa)\<rparr>)"
    "desc_abs t = (desc_abs s)(d \<mapsto> a\<lparr>a_pos := Suc (a_pos a)\<rparr>)" "errno t = errno s"
proof -
  obtain dn where dn: "descs s d = Some dn"
    "a = \<lparr>a_file = d_file dn, a_pos = nat (desc_pos (blocks s) dn), a_flags = d_flags dn\<rparr>"
    using d(1) by (auto simp: desc_abs_Some)
  note pos = desc_pos_le [OF inv dn(1)]
  have room': "desc_pos (blocks s) dn < MAX_FILE_SIZE" using room dn(2) pos(1) by simp
  obtain t fn bs q where t: "do { s \<leftarrow> write_single_byte d c s; advance_descriptor d s } = Some t"
    "one_file_step bl fl tab (d_file dn) fn bs s t"
    "bytes_of (blocks t) bs = overwrite (nat (desc_pos (blocks s) dn)) [Some c] (bytes_of (blocks s) (bl (d_file dn)))"
    "descs t = (descs s)(d \<mapsto> advanced dn q)" "desc_pos (blocks t) (advanced dn q) = desc_pos (blocks s) dn + 1"
    "\<forall>b\<in>dom (blocks s). b_index (the (blocks t b)) = b_index (the (blocks s b))" "errno t = errno s"
    by (rule write_byte_shape [OF inv dn(1) room', where c = c])
  have "files s (d_file dn) = Some fn" by (rule one_file_stepD(7) [OF t(2)])
  then have fa: "fa = \<lparr>a_name = f_name fn, a_data = bytes_of (blocks s) (bl (d_file dn))\<rparr>"
    using d(2) dn(2) by (simp add: file_abs_def)
  show ?thesis
  proof (rule that [OF t(1) one_file_step_inv [OF t(2)]])
    show "file_abs (bl(d_file dn := bs)) t =
      (file_abs bl s)(a_file a \<mapsto> fa\<lparr>a_data := overwrite (a_pos a) [Some c] (a_data fa)\<rparr>)"
      using one_file_step_abs [OF t(2)] t(3) fa dn(2) by simp
    show "desc_abs t = (desc_abs s)(d \<mapsto> a\<lparr>a_pos := Suc (a_pos a)\<rparr>)"
      using desc_abs_step [OF t(2) dn(1) refl t(4,5,6) pos(1)] dn(2) by simp
  qed (rule t(7))
qed

lemma write_bytes_abs:
  assumes "ufs_inv bl fl tab s" "desc_abs s d = Some a" "file_abs bl s (a_file a) = Some fa"
    "int (a_pos a) + int (length buf) \<le> MAX_FILE_SIZE"
  shows "\<exists>t bl'. write_bytes d buf s = Some t \<and> ufs_inv bl' fl tab t \<and> errno t = errno s \<and>
    file_abs bl' t = (file_abs bl s)(a_file a \<mapsto> fa\<lparr>a_data := overwrite (a_pos a) (map Some buf) (a_data fa)\<rparr>) \<and>
    desc_abs t = (desc_abs s)(d \<mapsto> a\<lparr>a_pos := a_pos a + length buf\<rparr>)"
  using assms
proof (induction buf arbitrary: s bl a fa)
  case Nil
  then show ?case by (intro exI [of _ s] exI [of _ bl]) (auto simp: fun_upd_idem)
next
  case (Cons c buf)
  have le: "a_pos a \<le> length (a_data fa)"
    using desc_pos_le [OF Cons.prems(1)] Cons.prems(2,3) by (auto simp: desc_abs_Some file_abs_Some)
  obtain t bl1 where t: "do { s \<leftarrow> write_single_byte d c s; advance_descriptor d s } = Some t"
    "ufs_inv bl1 fl tab t"
    "file_abs bl1 t = (file_abs bl s)(a_file a \<mapsto> fa\<lparr>a_data := overwrite (a_pos a) [Some c] (a_data fa)\<rparr>)"
    "desc_abs t = (desc_abs s)(d \<mapsto> a\<lparr>a_pos := Suc (a_pos a)\<rparr>)" "errno t = errno s"
    by (rule write_byte_abs [OF Cons.prems(1-3), where c = c]) (use Cons.prems(4) in simp)
  let ?a = "a\<lparr>a_pos := Suc (a_pos a)\<rparr>"
  let ?fa = "fa\<lparr>a_data := overwrite (a_pos a) [Some c] (a_data fa)\<rparr>"
  have "int (a_pos ?a) + int (length buf) \<le> MAX_FILE_SIZE" using Cons.prems(4) by simp
  moreover have "desc_abs t d = Some ?a" "file_abs bl1 t (a_file ?a) = Some ?fa" using t(3,4) by simp_all
  ultimately obtain u bl2 where u: "write_bytes d buf t = Some u" "ufs_inv bl2 fl tab u" "errno u = errno t"
    "file_abs bl2 u = (file_abs bl1 t)(a_file ?a \<mapsto> ?fa\<lparr>a_data := overwrite (a_pos ?a) (map Some buf) (a_data ?fa)\<rparr>)"
    "desc_abs u = (desc_abs t)(d \<mapsto> ?a\<lparr>a_pos := a_pos ?a + length buf\<rparr>)"
    using Cons.IH [OF t(2)] by blast
  have "write_bytes d (c # buf) s = Some u" using t(1) u(1) by (auto simp: bind_eq_Some_conv)
  then show ?case
    using u t(3,4,5) overwrite_Cons [OF le, of "map Some buf" "Some c"]
    by (intro exI [of _ u] exI [of _ bl2]) simp
qed

section \<open>The loop of a read\<close>

lemma read_step:
  assumes inv: "ufs_inv bl fl tab s" and d: "descs s d = Some dn" and fn: "files s (d_file dn) = Some fn"
    and bl: "bl (d_file dn) = xs @ current_block dn # ys" and n: "blocks s (current_block dn) = Some n"
    and o: "0 \<le> block_offset dn" "block_offset dn < 512" "ys = [] \<Longrightarrow> block_offset dn < occupied n"
    and stay: "block_offset dn < 511 \<or> ys \<noteq> []"
    and t: "t = s\<lparr>descs := (descs s)(d \<mapsto> advanced dn (hd ys))\<rparr>"
  shows "one_file_step bl fl tab (d_file dn) fn (bl (d_file dn)) s t"
proof -
  let ?f = "d_file dn"
  note parts = ufs_inv_parts [OF inv]
  have fi: "file_inv (blocks s) fn (bl ?f)" by (rule blocks_invD(1) [OF parts(1) fn])
  have sub: "set (bl ?f) \<subseteq> dom (blocks s)" by (rule blocks_invD(2) [OF parts(1) fn])
  have desc: "desc_ok (bl(?f := bl ?f)) t en" if e: "descs t e = Some en" for e en
  proof (cases "e = d")
    case True
    then have "en = advanced dn (hd ys)" using e by (simp add: t)
    moreover have "desc_ok (bl(?f := bl ?f)) t (advanced dn (hd ys))"
      by (rule advanced_ok [OF fi [unfolded bl] _ _ o(1,2) stay]) (use bl fn o(3) n in \<open>auto simp: t\<close>)
    ultimately show ?thesis by simp
  next
    case False
    then have "desc_ok bl s en" using e parts(3) by (auto simp: descs_inv_def t)
    then show ?thesis by (simp add: desc_ok_def t)
  qed
  have "dom (descs t) = dom (descs s)" using d by (auto simp: t)
  moreover have "b < next_ptr t" if "b \<in> set (bl ?f)" for b
    using that sub parts(2) by (auto simp: fresh_inv_def t)
  moreover have "files t = (files s)(?f \<mapsto> fn)" using fn by (auto simp: t)
  ultimately show ?thesis
    unfolding one_file_step_def using inv fn fi sub desc d by (auto simp: t)
qed

lemma read_byte_abs:
  assumes inv: "ufs_inv bl fl tab s" and d: "desc_abs s d = Some a" "file_abs bl s (a_file a) = Some fa"
    and room: "a_pos a < length (a_data fa)"
  obtains t where "read_single_byte d s = Some (a_data fa ! a_pos a)" "advance_descriptor d s = Some t"
    "ufs_inv bl fl tab t" "file_abs bl t = file_abs bl s"
    "desc_abs t = (desc_abs s)(d \<mapsto> a\<lparr>a_pos := Suc (a_pos a)\<rparr>)" "errno t = errno s"
proof -
  note parts = ufs_inv_parts [OF inv]
  obtain dn where dn: "descs s d = Some dn"
    "a = \<lparr>a_file = d_file dn, a_pos = nat (desc_pos (blocks s) dn), a_flags = d_flags dn\<rparr>"
    using d(1) by (auto simp: desc_abs_Some)
  let ?f = "d_file dn" and ?c = "current_block dn" and ?o = "block_offset dn"
  obtain fn xs ys n where fn: "files s ?f = Some fn" and bl: "bl ?f = xs @ ?c # ys"
    and n: "blocks s ?c = Some n" "b_index n = int (length xs)" and o: "0 \<le> ?o" "?o < 512"
    and pos: "desc_pos (blocks s) dn = 512 * int (length xs) + ?o"
    using desc_okD [OF parts(1)] parts(3) dn(1) unfolding descs_inv_def by metis
  have fi: "file_inv (blocks s) fn (xs @ ?c # ys)" using blocks_invD(1) [OF parts(1) fn] bl by simp
  have nxt: "b_next n = hd_or ys None" and ok: "block_ok (int (length xs)) (ys = []) n"
    and lx: "length (bytes_of (blocks s) xs) = 512 * length xs"
    using file_inv_split [OF fi] n(1) by (metis option.inject)+
  have p: "a_pos a = 512 * length xs + nat ?o" using pos o dn(2) by (simp add: nat_add_distrib)
  have fa: "a_data fa = bytes_of (blocks s) xs @ block_bytes (blocks s) ?c @ bytes_of (blocks s) ys"
    using d(2) dn(2) fn bl by (auto simp: file_abs_Some)
  have len: "nat ?o < length (block_bytes (blocks s) ?c)"
    using room o ok n(1) p lx unfolding fa by (cases "ys = []") (auto simp: block_bytes_def block_ok_def)
  then have byte: "a_data fa ! a_pos a = memory n ! nat ?o" "ys = [] \<Longrightarrow> ?o < occupied n"
    using p lx fa n(1) o by (auto simp: nth_append block_bytes_def)
  have mem: "read_single_byte d s = Some (a_data fa ! a_pos a)"
    using dn(1) n(1) ok o byte(1) by (simp add: read_single_byte_def cget_def block_ok_def)
  have stay: "?o < 511 \<or> ys \<noteq> []"
    using byte(2) ok o by (auto simp: block_ok_def split: if_splits)
  define t where "t = s\<lparr>descs := (descs s)(d \<mapsto> advanced dn (hd ys))\<rparr>"
  have step: "one_file_step bl fl tab ?f fn (bl ?f) s t"
    by (rule read_step [OF inv dn(1) fn bl n(1) o byte(2) stay t_def])
  have adv: "advance_descriptor d s = Some t \<and> desc_pos (blocks t) (advanced dn (hd ys)) = desc_pos (blocks s) dn + 1"
  proof (cases "?o < 511")
    case True
    then show ?thesis using dn(1) by (simp add: advance_inside t_def advanced_def desc_pos_def)
  next
    case False
    then obtain y zs where ys: "ys = y # zs" "?o = 511" using stay o by (cases ys) auto
    have "chain_ok (blocks s) (int (length xs) + 1) ys" by (rule file_inv_split [OF fi])
    then have "desc_pos (blocks t) (advanced dn (hd ys)) = desc_pos (blocks s) dn + 1"
      using ys pos by (auto simp: desc_pos_def advanced_def t_def block_ok_def split: option.splits)
    then show ?thesis using dn(1) n(1) nxt ys by (simp add: advance_to_next t_def advanced_def)
  qed
  show ?thesis
  proof (rule that [OF mem])
    show "ufs_inv bl fl tab t" using one_file_step_inv [OF step] by simp
    show "file_abs bl t = file_abs bl s" by (simp add: file_abs_def fun_eq_iff t_def)
    show "desc_abs t = (desc_abs s)(d \<mapsto> a\<lparr>a_pos := Suc (a_pos a)\<rparr>)"
      using desc_abs_step [OF step dn(1) refl, of "advanced dn (hd ys)"] adv desc_pos_le(1) [OF inv dn(1)] dn(2)
      by (simp add: t_def)
    show "errno t = errno s" by (simp add: t_def)
  qed (use adv in blast)
qed

lemma read_bytes_abs:
  assumes "ufs_inv bl fl tab s" "desc_abs s d = Some a" "file_abs bl s (a_file a) = Some fa"
    "a_pos a + k \<le> length (a_data fa)"
  shows "\<exists>t. read_bytes d k s = Some (take k (drop (a_pos a) (a_data fa)), t) \<and> ufs_inv bl fl tab t \<and>
    errno t = errno s \<and> file_abs bl t = file_abs bl s \<and>
    desc_abs t = (desc_abs s)(d \<mapsto> a\<lparr>a_pos := a_pos a + k\<rparr>)"
  using assms
proof (induction k arbitrary: s a)
  case 0
  then show ?case by (auto simp: fun_upd_idem)
next
  case (Suc k)
  obtain t where t: "read_single_byte d s = Some (a_data fa ! a_pos a)" "advance_descriptor d s = Some t"
    "ufs_inv bl fl tab t" "file_abs bl t = file_abs bl s"
    "desc_abs t = (desc_abs s)(d \<mapsto> a\<lparr>a_pos := Suc (a_pos a)\<rparr>)" "errno t = errno s"
    by (rule read_byte_abs [OF Suc.prems(1-3)]) (use Suc.prems(4) in simp)
  let ?a = "a\<lparr>a_pos := Suc (a_pos a)\<rparr>"
  have "desc_abs t d = Some ?a" "file_abs bl t (a_file ?a) = Some fa" "a_pos ?a + k \<le> length (a_data fa)"
    using t(4,5) Suc.prems(3,4) by simp_all
  then obtain u where u: "read_bytes d k t = Some (take k (drop (a_pos ?a) (a_data fa)), u)"
    "ufs_inv bl fl tab u" "errno u = errno t" "file_abs bl u = file_abs bl t"
    "desc_abs u = (desc_abs t)(d \<mapsto> ?a\<lparr>a_pos := a_pos ?a + k\<rparr>)"
    using Suc.IH [OF t(3)] by blast
  have "take (Suc k) (drop (a_pos a) (a_data fa)) = a_data fa ! a_pos a # take k (drop (a_pos ?a) (a_data fa))"
    using Suc.prems(4) by (simp add: Cons_nth_drop_Suc [symmetric])
  then show ?case using t u by (intro exI [of _ u]) simp
qed

end
