(* ===== verification/User_FS_Spec.thy ===== *)
theory User_FS_Spec
  imports User_FS_IO
begin

text \<open>
  What the interface of userfs.h promises, on the abstract file system: files are byte lists,
  descriptors are slots with a file, a position and flags. Then: ufs_write and ufs_read implement
  it.
\<close>

section \<open>The specification\<close>

definition a_lookup :: "int \<Rightarrow> afs \<Rightarrow> adesc option" where
  "a_lookup fd a = (if 0 \<le> fd \<and> nat fd < length (a_fds a) then a_fds a ! nat fd else None)"

definition a_fail :: "ufs_error_code \<Rightarrow> afs \<Rightarrow> int \<times> afs" where
  "a_fail e a = (-1, a\<lparr>a_errno := e\<rparr>)"

definition a_data_of :: "afs \<Rightarrow> ptr \<Rightarrow> byte list" where
  "a_data_of a f = a_data (the (a_files a f))"

definition a_set_data :: "ptr \<Rightarrow> byte list \<Rightarrow> afs \<Rightarrow> afs" where
  "a_set_data f data a = a\<lparr>a_files := (a_files a)(f \<mapsto> (the (a_files a f))\<lparr>a_data := data\<rparr>)\<rparr>"

definition a_set_fd :: "int \<Rightarrow> adesc option \<Rightarrow> afs \<Rightarrow> afs" where
  "a_set_fd fd d a = a\<lparr>a_fds := (a_fds a)[nat fd := d]\<rparr>"

definition a_write :: "int \<Rightarrow> char list \<Rightarrow> afs \<Rightarrow> int \<times> afs" where
  "a_write fd buf a =
     (case a_lookup fd a of
        None \<Rightarrow> a_fail UFS_ERR_NO_FILE a
      | Some d \<Rightarrow>
          if specific_flag_is_present (a_flags d) UFS_READ_ONLY then a_fail UFS_ERR_NO_PERMISSION a
          else if int (a_pos d) + int (length buf) > MAX_FILE_SIZE then a_fail UFS_ERR_NO_MEM a
          else (int (length buf),
                a_set_fd fd (Some (d\<lparr>a_pos := a_pos d + length buf\<rparr>))
                  (a_set_data (a_file d) (overwrite (a_pos d) (map Some buf) (a_data_of a (a_file d))) a)))"

definition a_read :: "int \<Rightarrow> nat \<Rightarrow> afs \<Rightarrow> int \<times> byte list \<times> afs" where
  "a_read fd n a =
     (case a_lookup fd a of
        None \<Rightarrow> (-1, [], a\<lparr>a_errno := UFS_ERR_NO_FILE\<rparr>)
      | Some d \<Rightarrow>
          if specific_flag_is_present (a_flags d) UFS_WRITE_ONLY
          then (-1, [], a\<lparr>a_errno := UFS_ERR_NO_PERMISSION\<rparr>)
          else let bytes = take n (drop (a_pos d) (a_data_of a (a_file d)))
               in (int (length bytes), bytes, a_set_fd fd (Some (d\<lparr>a_pos := a_pos d + length bytes\<rparr>)) a))"

section \<open>The table of descriptors\<close>

lemma try_get_file_descriptor_table:
  assumes "table_inv tab s"
  shows "try_get_file_descriptor fd s = Some (if 0 \<le> fd \<and> nat fd < length tab then tab ! nat fd else None)"
proof (cases "0 \<le> fd \<and> nat fd < length tab")
  case True
  then have "tab \<noteq> []" by auto
  then obtain cells rest where cells: "file_descriptors s = Some cells" "cells = map Some tab @ rest"
    using assms by (auto simp: table_inv_def split: option.splits)
  have fd: "0 \<le> fd" "fd < int (length tab)" using True by linarith+
  then have "cget cells fd = Some (Some (tab ! nat fd))"
    unfolding cells(2) cget_def using True by (simp add: nth_append)
  moreover have "file_descriptor_count s = int (length tab)" using assms by (simp add: table_inv_def)
  ultimately show ?thesis using True fd cells(1) by (simp add: try_get_file_descriptor_def)
next
  case False
  have count: "file_descriptor_count s = int (length tab)" using assms by (simp add: table_inv_def)
  have "fd < 0 \<or> fd \<ge> int (length tab)" using False by linarith
  then show ?thesis using False count by (auto simp: try_get_file_descriptor_def)
qed

lemma table_desc:
  assumes "table_inv tab s" "i < length tab" "tab ! i = Some d"
  obtains dn where "descs s d = Some dn" "d_index dn = int i"
  using assms unfolding table_inv_def by blast

lemma table_other:
  assumes "table_inv tab s" "i < length tab" "tab ! i = Some d" "j < length tab" "j \<noteq> i"
  shows "tab ! j \<noteq> Some d"
  using table_desc [OF assms(1,2,3)] table_desc [OF assms(1,4)] assms(5)
  by (metis nat_int option.inject)

lemma fds_abs_length [simp]: "length (fds_abs tab s) = length tab"
  by (simp add: fds_abs_def)

lemma fds_abs_nth: "i < length tab \<Longrightarrow> fds_abs tab s ! i = Option.bind (tab ! i) (desc_abs s)"
  by (simp add: fds_abs_def)

lemma fds_abs_update:
  assumes "table_inv tab s" "i < length tab" "tab ! i = Some d" "desc_abs t = (desc_abs s)(d \<mapsto> a)"
  shows "fds_abs tab t = (fds_abs tab s)[i := Some a]"
proof (rule nth_equalityI)
  fix j assume j: "j < length (fds_abs tab t)"
  show "fds_abs tab t ! j = (fds_abs tab s)[i := Some a] ! j"
  proof (cases "j = i")
    case True
    then show ?thesis using assms by (simp add: fds_abs_nth)
  next
    case False
    then have "tab ! j \<noteq> Some d" using table_other [OF assms(1-3), of j] j by simp
    then show ?thesis using False assms(4) j by (cases "tab ! j") (auto simp: fds_abs_nth)
  qed
qed simp

lemma lookup_cases:
  assumes "ufs_inv bl fl tab s"
  obtains (none) "try_get_file_descriptor fd s = Some None" "a_lookup fd (ufs_abs bl fl tab s) = None"
  | (some) d dn a fa where "try_get_file_descriptor fd s = Some (Some d)" "0 \<le> fd" "nat fd < length tab"
      "tab ! nat fd = Some d" "descs s d = Some dn" "desc_abs s d = Some a" "a_flags a = d_flags dn"
      "a_lookup fd (ufs_abs bl fl tab s) = Some a" "file_abs bl s (a_file a) = Some fa"
      "a_pos a \<le> length (a_data fa)" "a_file a = d_file dn" "int (a_pos a) = desc_pos (blocks s) dn"
      "int (length (a_data fa)) \<le> MAX_FILE_SIZE"
proof -
  note parts = ufs_inv_parts [OF assms]
  note get = try_get_file_descriptor_table [OF parts(4), of fd]
  have look: "a_lookup fd (ufs_abs bl fl tab s) =
      (if 0 \<le> fd \<and> nat fd < length tab then Option.bind (tab ! nat fd) (desc_abs s) else None)"
    by (simp add: a_lookup_def ufs_abs_def fds_abs_nth)
  show ?thesis
  proof (cases "0 \<le> fd \<and> nat fd < length tab \<and> tab ! nat fd \<noteq> None")
    case False
    then show ?thesis using none get look by auto
  next
    case True
    then obtain d where d: "tab ! nat fd = Some d" by blast
    then obtain dn where dn: "descs s d = Some dn" using table_desc [OF parts(4)] True by metis
    let ?a = "\<lparr>a_file = d_file dn, a_pos = nat (desc_pos (blocks s) dn), a_flags = d_flags dn\<rparr>"
    have "desc_ok bl s dn" using parts(3) dn by (auto simp: descs_inv_def)
    then obtain fn where fn: "files s (d_file dn) = Some fn" by (auto simp: desc_ok_def)
    have fi: "file_inv (blocks s) fn (bl (d_file dn))" by (rule blocks_invD(1) [OF parts(1) fn])
    show ?thesis
    proof (rule some)
      show "try_get_file_descriptor fd s = Some (Some d)" using get True d by simp
      show "desc_abs s d = Some ?a" using dn by (simp add: desc_abs_def)
      then show "a_lookup fd (ufs_abs bl fl tab s) = Some ?a" using look True d by simp
      show "file_abs bl s (a_file ?a) = Some \<lparr>a_name = f_name fn, a_data = bytes_of (blocks s) (bl (d_file dn))\<rparr>"
        using fn by (simp add: file_abs_def)
    qed (use True d dn desc_pos_le [OF assms dn] fi in \<open>auto simp: file_inv_def\<close>)
  qed
qed

lemma last_block_size:
  assumes "file_inv h fn (xs @ [last_block fn])"
  obtains l where "h (last_block fn) = Some l"
    "b_index l * 512 + occupied l = int (length (bytes_of h (xs @ [last_block fn])))"
proof (rule file_inv_split [OF assms])
  fix n
  assume n: "h (last_block fn) = Some n" "block_ok (int (length xs)) ([] = []) n"
    "b_index n = int (length xs)" "length (bytes_of h xs) = 512 * length xs"
  then have "b_index n * 512 + occupied n = int (length (bytes_of h (xs @ [last_block fn])))"
    by (simp add: block_bytes_def block_ok_def min_absorb2 nat_le_iff)
  then show ?thesis using that n(1) by blast
qed

section \<open>Writing and reading refine the specification\<close>

lemma errno_irrelevant:
  "ufs_inv bl fl tab (s\<lparr>errno := e\<rparr>) = ufs_inv bl fl tab s"
proof -
  let ?s = "s\<lparr>errno := e\<rparr>"
  have "blocks_inv bl ?s = blocks_inv bl s" by (simp add: blocks_inv_def owned_def)
  moreover have "fresh_inv ?s = fresh_inv s" by (simp add: fresh_inv_def)
  moreover have "descs_inv bl ?s = descs_inv bl s" by (simp add: descs_inv_def desc_ok_def)
  moreover have "table_inv tab ?s = table_inv tab s" 
    unfolding table_inv_def by (cases "file_descriptors s") simp_all
  moreover have "refs_inv ?s = refs_inv s" by (simp add: refs_inv_def users_def)
  moreover have "list_inv fl ?s = list_inv fl s" by (simp add: list_inv_def)
  ultimately show ?thesis by (simp add: ufs_inv_def)
qed

lemma errno_abs:
  "ufs_abs bl fl tab (s\<lparr>errno := e\<rparr>) = (ufs_abs bl fl tab s)\<lparr>a_errno := e\<rparr>"
proof -
  have "desc_abs (s\<lparr>errno := e\<rparr>) = desc_abs s" "file_abs bl (s\<lparr>errno := e\<rparr>) = file_abs bl s"
    by (simp_all add: fun_eq_iff desc_abs_def file_abs_def)
  then show ?thesis by (simp add: ufs_abs_def fds_abs_def)
qed

lemma throw_error_abs:
  "ufs_inv bl fl tab s \<Longrightarrow>
   \<exists>t. throw_error e s = Some (-1, t) \<and> ufs_inv bl fl tab t \<and>
     ufs_abs bl fl tab t = (ufs_abs bl fl tab s)\<lparr>a_errno := e\<rparr>"
  by (simp add: throw_error_def errno_irrelevant errno_abs)

lemma write_refines:
  assumes inv: "ufs_inv bl fl tab s" and n: "length buf < 2 ^ 31 - 2 ^ 28"
  shows "\<exists>t bl'. ufs_write fd buf (length buf) s = Some (fst (a_write fd buf (ufs_abs bl fl tab s)), t) \<and>
    ufs_inv bl' fl tab t \<and> ufs_abs bl' fl tab t = snd (a_write fd buf (ufs_abs bl fl tab s))"
  using inv
proof (cases rule: lookup_cases [where fd = fd])
  case none
  then show ?thesis using throw_error_abs [OF inv, of UFS_ERR_NO_FILE]
    by (auto simp: ufs_write_def a_write_def a_fail_def)
next
  case (some d dn a fa)
  note parts = ufs_inv_parts [OF inv]
  show ?thesis
  proof (cases "specific_flag_is_present (d_flags dn) UFS_READ_ONLY")
    case True
    then show ?thesis using throw_error_abs [OF inv, of UFS_ERR_NO_PERMISSION] some
      by (auto simp: ufs_write_def a_write_def a_fail_def)
  next
    case False
    obtain c where c: "blocks s (current_block dn) = Some c" "desc_pos (blocks s) dn = b_index c * 512 + block_offset dn"
      using desc_okD [OF parts(1)] parts(3) some(5) unfolding descs_inv_def desc_pos_def
      by (metis option.sel)
    have len: "to_int32 (int (length buf)) = int (length buf)"
      using n by (simp add: int_ok_def)
    have small: "int (a_pos a) \<le> 104857600"
      using some(10,13) by (simp add: MAX_FILE_SIZE_def)
    then have sums: "c_int (b_index c * BLOCK_SIZE + block_offset dn) = Some (int (a_pos a))"
      "c_int (int (a_pos a) + int (length buf)) = Some (int (a_pos a) + int (length buf))"
      using n c(2) some(12) by (simp_all add: BLOCK_SIZE_def int_ok_def)
    have eq: "ufs_write fd buf (length buf) s =
        (if int (a_pos a) + int (length buf) > MAX_FILE_SIZE then throw_error UFS_ERR_NO_MEM s
         else map_option (\<lambda>s. (int (length buf), s)) (write_bytes d buf s))"
      using some(1,5) False len sums c(1)
      by (simp add: ufs_write_def write_via_descriptor_def map_conv_bind_option comp_def)
    show ?thesis
    proof (cases "int (a_pos a) + int (length buf) > MAX_FILE_SIZE")
      case True
      then show ?thesis using throw_error_abs [OF inv, of UFS_ERR_NO_MEM] some False eq
        by (auto simp: a_write_def a_fail_def)
    next
      case F: False
      then have room: "int (a_pos a) + int (length buf) \<le> MAX_FILE_SIZE" by simp
      obtain t bl' where t: "write_bytes d buf s = Some t" "ufs_inv bl' fl tab t" "errno t = errno s"
        "file_abs bl' t = (file_abs bl s)(a_file a \<mapsto> fa\<lparr>a_data := overwrite (a_pos a) (map Some buf) (a_data fa)\<rparr>)"
        "desc_abs t = (desc_abs s)(d \<mapsto> a\<lparr>a_pos := a_pos a + length buf\<rparr>)"
        using write_bytes_abs [OF inv some(6,9) room] by blast
      have "fds_abs tab t = (fds_abs tab s)[nat fd := Some (a\<lparr>a_pos := a_pos a + length buf\<rparr>)]"
        by (rule fds_abs_update [OF parts(4) some(3,4) t(5)])
      then have "ufs_abs bl' fl tab t = snd (a_write fd buf (ufs_abs bl fl tab s))"
        using t(3,4) some(7,8,9) False F
        by (simp add: a_write_def a_set_fd_def a_set_data_def a_data_of_def) (simp add: ufs_abs_def)
      then show ?thesis using eq F t some(7,8) False by (auto simp: a_write_def)
    qed
  qed
qed

lemma read_refines:
  assumes inv: "ufs_inv bl fl tab s" and n: "n < 2 ^ 31"
  shows "\<exists>t. ufs_read fd n s = Some (fst (a_read fd n (ufs_abs bl fl tab s)),
        fst (snd (a_read fd n (ufs_abs bl fl tab s))), t) \<and>
    ufs_inv bl fl tab t \<and> ufs_abs bl fl tab t = snd (snd (a_read fd n (ufs_abs bl fl tab s)))"
  using inv
proof (cases rule: lookup_cases [where fd = fd])
  case none
  then show ?thesis using throw_error_abs [OF inv, of UFS_ERR_NO_FILE]
    by (auto simp: ufs_read_def a_read_def)
next
  case (some d dn a fa)
  note parts = ufs_inv_parts [OF inv]
  show ?thesis
  proof (cases "specific_flag_is_present (d_flags dn) UFS_WRITE_ONLY")
    case True
    then show ?thesis using throw_error_abs [OF inv, of UFS_ERR_NO_PERMISSION] some
      by (auto simp: ufs_read_def a_read_def)
  next
    case False
    obtain c fn where c: "blocks s (current_block dn) = Some c" "desc_pos (blocks s) dn = b_index c * 512 + block_offset dn"
      "files s (d_file dn) = Some fn"
      using desc_okD [OF parts(1)] parts(3) some(5) unfolding descs_inv_def desc_pos_def
      by (metis option.sel)
    have fi: "file_inv (blocks s) fn (bl (d_file dn))" by (rule blocks_invD(1) [OF parts(1) c(3)])
    then obtain xs where xs: "bl (d_file dn) = xs @ [last_block fn]"
      by (metis append_butlast_last_id file_inv_def)
    have fa: "a_data fa = bytes_of (blocks s) (xs @ [last_block fn])"
      using some(9,11) c(3) xs by (auto simp: file_abs_Some)
    obtain l where l: "blocks s (last_block fn) = Some l"
      "b_index l * 512 + occupied l = int (length (a_data fa))"
      unfolding fa by (rule last_block_size [OF fi [unfolded xs]])
    have fit: "int_ok (int (a_pos a))" "int_ok (int (length (a_data fa)))"
      "int_ok (int (length (a_data fa)) - int (a_pos a))"
      using some(10,13) by (simp_all add: MAX_FILE_SIZE_def int_ok_def)
    define m where "m = (if int n > int (length (a_data fa)) - int (a_pos a)
      then int (length (a_data fa)) - int (a_pos a) else int n)"
    have m: "nat m = min n (length (a_data fa) - a_pos a)" "0 \<le> m" using some(10) by (auto simp: m_def)
    have len: "to_int32 (int n) = int n" using n by (simp add: int_ok_def)
    have cs: "b_index c * 512 + block_offset dn = int (a_pos a)" using c(2) some(12) by simp
    have eq: "ufs_read fd n s = map_option (\<lambda>(bytes, s). (m, bytes, s)) (read_bytes d (nat m) s)"
      using some(1,5) False len c(1,3) cs l fit
      by (simp add: ufs_read_def read_via_descriptor_def map_conv_bind_option BLOCK_SIZE_def m_def
          Let_def case_prod_unfold comp_def)
    have "a_pos a + nat m \<le> length (a_data fa)" using m some(10) by simp
    then obtain t where t: "read_bytes d (nat m) s = Some (take (nat m) (drop (a_pos a) (a_data fa)), t)"
      "ufs_inv bl fl tab t" "errno t = errno s" "file_abs bl t = file_abs bl s"
      "desc_abs t = (desc_abs s)(d \<mapsto> a\<lparr>a_pos := a_pos a + nat m\<rparr>)"
      using read_bytes_abs [OF inv some(6,9)] by blast
    have bytes: "take n (drop (a_pos a) (a_data fa)) = take (nat m) (drop (a_pos a) (a_data fa))"
      "length (take n (drop (a_pos a) (a_data fa))) = nat m"
      using m by (simp_all add: min_def)
    have "fds_abs tab t = (fds_abs tab s)[nat fd := Some (a\<lparr>a_pos := a_pos a + nat m\<rparr>)]"
      by (rule fds_abs_update [OF parts(4) some(3,4) t(5)])
    moreover have "a_data_of (ufs_abs bl fl tab s) (a_file a) = a_data fa"
      using some(9) by (simp add: a_data_of_def ufs_abs_def)
    ultimately have "a_read fd n (ufs_abs bl fl tab s) =
        (m, take (nat m) (drop (a_pos a) (a_data fa)), ufs_abs bl fl tab t)"
      using t(3,4) some(7,8) False m(2) bytes
      by (simp add: a_read_def Let_def a_set_fd_def) (simp add: ufs_abs_def)
    then show ?thesis using eq t(1,2) by simp
  qed
qed

end
