(* ===== verification/User_FS_Names.thy ===== *)
theory User_FS_Names
  imports User_FS_Spec
begin

text \<open>
  Opening, closing and deleting files, and the destruction of the file system: the list of files,
  the reference counts, files that live on while a descriptor is open, and the memory that is
  freed.
\<close>

section \<open>The specification\<close>

definition a_find :: "string \<Rightarrow> afs \<Rightarrow> ptr option" where
  "a_find name a = List.find (\<lambda>f. a_name (the (a_files a f)) = name) (a_listed a)"

text \<open>Some descriptor other than slot i is open on the file.\<close>

definition a_used :: "ptr \<Rightarrow> adesc option list \<Rightarrow> bool" where
  "a_used f fds \<longleftrightarrow> (\<exists>d. Some d \<in> set fds \<and> a_file d = f)"

definition a_create :: "ptr \<Rightarrow> string \<Rightarrow> afs \<Rightarrow> afs" where
  "a_create f name a =
     a\<lparr>a_files := (a_files a)(f \<mapsto> \<lparr>a_name = name, a_data = []\<rparr>), a_listed := f # a_listed a\<rparr>"

definition a_slot :: "'a option list \<Rightarrow> nat" where
  "a_slot fds = length (takeWhile (\<lambda>x. x \<noteq> None) fds)"

definition put_slot :: "'a \<Rightarrow> 'a option list \<Rightarrow> 'a option list" where
  "put_slot x fds = (if a_slot fds < length fds then fds[a_slot fds := Some x] else fds @ [Some x])"

definition a_add_fd :: "ptr \<Rightarrow> int \<Rightarrow> afs \<Rightarrow> int \<times> afs" where
  "a_add_fd f flags a =
     (int (a_slot (a_fds a)), a\<lparr>a_fds := put_slot \<lparr>a_file = f, a_pos = 0, a_flags = flags\<rparr> (a_fds a)\<rparr>)"

text \<open>Opening a file; f is the identity a new file gets.\<close>

definition a_open :: "ptr \<Rightarrow> string \<Rightarrow> int \<Rightarrow> afs \<Rightarrow> int \<times> afs" where
  "a_open f name flags a =
     (case a_find name a of
        Some g \<Rightarrow> a_add_fd g flags a
      | None \<Rightarrow> if specific_flag_is_present flags UFS_CREATE then a_add_fd f flags (a_create f name a)
                else a_fail UFS_ERR_NO_FILE a)"

text \<open>A file is dropped when it is neither listed nor open.\<close>

definition a_drop :: "ptr \<Rightarrow> afs \<Rightarrow> afs" where
  "a_drop f a =
     (if f \<in> set (a_listed a) \<or> a_used f (a_fds a) then a else a\<lparr>a_files := (a_files a)(f := None)\<rparr>)"

definition a_close :: "int \<Rightarrow> afs \<Rightarrow> int \<times> afs" where
  "a_close fd a =
     (case a_lookup fd a of
        None \<Rightarrow> a_fail UFS_ERR_NO_FILE a
      | Some d \<Rightarrow> (0, a_drop (a_file d) (a_set_fd fd None a)))"

definition a_delete :: "string \<Rightarrow> afs \<Rightarrow> int \<times> afs" where
  "a_delete name a =
     (case a_find name a of
        None \<Rightarrow> a_fail UFS_ERR_NO_FILE a
      | Some f \<Rightarrow> (0, a_drop f (a\<lparr>a_listed := remove1 f (a_listed a)\<rparr>)))"

section \<open>The list of files\<close>

definition fcore :: "ufile \<Rightarrow> ufile" where
  "fcore n = n\<lparr>f_next := None, f_prev := None\<rparr>"

lemma fcore_links [simp]: "fcore (n\<lparr>f_next := q\<rparr>) = fcore n" "fcore (n\<lparr>f_prev := q\<rparr>) = fcore n"
  by (simp_all add: fcore_def)

lemma fcore_fields:
  "fcore n = fcore m \<Longrightarrow> block_list n = block_list m \<and> last_block n = last_block m \<and> refs n = refs m \<and>
     f_name n = f_name m \<and> marked_for_deletion n = marked_for_deletion m"
  by (cases n; cases m) (simp add: fcore_def)

lemma find_file_spec:
  "file_seg fs b p fl None \<Longrightarrow> find_file fs name p = Some (List.find (\<lambda>f. f_name (the (fs f)) = name) fl)"
proof (induction fl arbitrary: b p)
  case Nil
  then show ?case by (simp add: find_file.simps)
next
  case (Cons f fl)
  then obtain n where "p = Some f" "fs f = Some n" "file_seg fs (Some f) (f_next n) fl None"
    by (auto split: option.splits)
  then show ?case using Cons.IH by (subst find_file.simps) (simp add: strings_equal_def)
qed

lemma list_invD:
  assumes "list_inv fl s"
  shows "file_seg (files s) None (file_list s) fl None" "distinct fl" "set fl \<subseteq> dom (files s)"
    "file_list s = hd_or fl None"
proof -
  show seg: "file_seg (files s) None (file_list s) fl None" "distinct fl"
    using assms by (auto simp: list_inv_def)
  show "set fl \<subseteq> dom (files s)" using dlseg_allocated [OF seg(1)] by blast
  show "file_list s = hd_or fl None" by (rule dlseg_entry [OF seg(1)])
qed

lemma find_abs:
  assumes "list_inv fl s"
  shows "try_get_file_by_filename name s = Some (a_find name (ufs_abs bl fl tab s))"
proof -
  have "f_name (the (files s f)) = a_name (the (file_abs bl s f))" if "f \<in> set fl" for f
    using that list_invD(3) [OF assms] by (auto simp: file_abs_def)
  then have "List.find (\<lambda>f. f_name (the (files s f)) = name) fl = List.find (\<lambda>f. a_name (the (file_abs bl s f)) = name) fl"
    by (intro find_cong) auto
  then show ?thesis
    using find_file_spec [OF list_invD(1) [OF assms]]
    by (simp add: try_get_file_by_filename_def a_find_def ufs_abs_def)
qed

text \<open>Taking a listed file out of the list.\<close>

lemma disconnect_listed:
  assumes "list_inv fl s" "f \<in> set fl"
  obtains h p n where "disconnect_file_from_file_list f s = Some (s\<lparr>files := h, file_list := p\<rparr>)"
    "file_seg h None p (remove1 f fl) None" "dom h = dom (files s)"
    "\<forall>q. map_option fcore (h q) = map_option fcore (files s q)"
    "\<forall>q. q \<notin> set fl \<longrightarrow> h q = files s q"
    "h f = Some n" "f_next n = None" "f_prev n = None"
proof -
  note L = list_invD [OF assms(1)]
  obtain xs ys where fl: "fl = xs @ f # ys" using assms(2) by (auto dest: split_list)
  have d: "f \<notin> set xs" "f \<notin> set ys" "set xs \<inter> set ys = {}" using L(2) fl by auto
  obtain n where n: "files s f = Some n" using assms(2) L(3) by auto
  define xe where "xe = last_or None xs"
  define ye where "ye = hd_or ys None"
  have nxt: "f_next n = ye" and prv: "f_prev n = xe"
    using dlseg_at [of f_next f_prev "files s" None "file_list s" xs f ys None n] L(1) fl n
    by (auto simp: xe_def ye_def)
  define h1 where "h1 = (case xe of None \<Rightarrow> files s | Some l \<Rightarrow> (files s)(l \<mapsto> (the (files s l))\<lparr>f_next := ye\<rparr>))"
  define h2 where "h2 = (case ye of None \<Rightarrow> h1 | Some r \<Rightarrow> h1(r \<mapsto> (the (h1 r))\<lparr>f_prev := xe\<rparr>))"
  define h where "h = h2(f \<mapsto> n\<lparr>f_prev := None, f_next := None\<rparr>)"
  have seg2: "file_seg h2 None (hd_or (xs @ ys) None) (xs @ ys) None"
  proof (rule flist.unlink)
    show "file_seg (files s) None (file_list s) (xs @ f # ys) None" "distinct (xs @ f # ys)"
      using L(1,2) fl by simp_all
  qed (simp_all only: h1_def h2_def xe_def ye_def)
  then have seg: "file_seg h None (hd_or (xs @ ys) None) (remove1 f fl) None"
    using d fl by (simp add: h_def dlseg_outside remove1_append)
  have xin: "l \<in> dom (files s) \<and> l \<noteq> f \<and> ye \<noteq> Some l" if "xe = Some l" for l
    using that L(3) d fl unfolding xe_def ye_def last_or_def hd_or_def
    by (cases xs rule: rev_cases; cases ys) auto
  have yin: "r \<in> dom (files s) \<and> r \<noteq> f" if "ye = Some r" for r
    using that L(3) d fl unfolding ye_def hd_or_def by (cases ys) auto
  have h2f: "h2 f = Some n" using n xin yin by (auto simp: h2_def h1_def split: option.splits)
  have dom: "dom h = dom (files s)" using n xin yin by (auto simp: h_def h2_def h1_def split: option.splits)
  have core: "\<forall>q. map_option fcore (h q) = map_option fcore (files s q)"
    using n xin yin by (auto simp: h_def h2_def h1_def split: option.splits)
  have outside: "\<forall>q. q \<notin> set fl \<longrightarrow> h q = files s q"
  proof (intro allI impI)
    fix q assume "q \<notin> set fl"
    then have "q \<noteq> f" "xe \<noteq> Some q" "ye \<noteq> Some q"
      using fl by (auto simp: xe_def ye_def last_or_def hd_or_def)
    then show "h q = files s q" by (auto simp: h_def h2_def h1_def split: option.splits)
  qed
  have fst: "file_list s = Some f \<longleftrightarrow> xs = []" using L(4) fl d by (cases xs) auto
  have run: "disconnect_file_from_file_list f s = Some (s\<lparr>files := h, file_list := hd_or (xs @ ys) None\<rparr>)"
  proof (cases xe)
    case None
    then have "xs = []" "file_list s = Some f" using fst by (auto simp: xe_def last_or_def split: if_splits)
    then have "hd_or (xs @ ys) None = ye" by (simp add: ye_def)
    then show ?thesis
      using None n nxt prv yin h2f \<open>file_list s = Some f\<close>
      by (cases ye) (auto simp: disconnect_file_from_file_list_def set_file_def h_def h2_def h1_def)
  next
    case (Some l)
    then have "xs \<noteq> []" "file_list s \<noteq> Some f" using fst by (auto simp: xe_def)
    then have "hd_or (xs @ ys) None = file_list s" using L(4) fl by (cases xs) auto
    moreover obtain k where "files s l = Some k" "l \<noteq> f" "ye \<noteq> Some l" using xin [OF Some] by blast
    ultimately show ?thesis
      using Some n nxt prv yin h2f \<open>file_list s \<noteq> Some f\<close>
      by (cases ye) (auto simp: disconnect_file_from_file_list_def set_file_def h_def h2_def h1_def)
  qed
  show ?thesis
    by (rule that [OF run seg dom core outside, of "n\<lparr>f_prev := None, f_next := None\<rparr>"]) (simp_all add: h_def)
qed

lemma disconnect_unlisted:
  assumes "files s f = Some n" "f_next n = None" "f_prev n = None" "file_list s \<noteq> Some f"
  shows "disconnect_file_from_file_list f s = Some s"
proof -
  have "n\<lparr>f_prev := None, f_next := None\<rparr> = n" using assms(2,3) by (cases n) simp
  then show ?thesis
    using assms by (simp add: disconnect_file_from_file_list_def set_file_def fun_upd_idem)
qed

lemma free_blocks_spec:
  "block_seg h b p bs None \<Longrightarrow> distinct bs \<Longrightarrow> free_blocks h p = Some (h |` (- set bs))"
proof (induction bs arbitrary: h b p)
  case Nil
  then show ?case by (simp add: free_blocks.simps)
next
  case (Cons x bs)
  then obtain n where n: "p = Some x" "h x = Some n" "block_seg h (Some x) (b_next n) bs None"
    by (auto split: option.splits)
  have "block_seg (h(x := None)) (Some x) (b_next n) bs None" using n(3) Cons.prems(2) by (simp add: dlseg_outside)
  then have "free_blocks (h(x := None)) (b_next n) = Some ((h(x := None)) |` (- set bs))"
    by (rule Cons.IH) (use Cons.prems(2) in simp)
  moreover have "(h(x := None)) |` (- set bs) = h |` (- set (x # bs))"
    by (auto simp: restrict_map_def fun_eq_iff)
  ultimately show ?case using n by (subst free_blocks.simps) simp
qed

text \<open>Deleting a file that is no longer in the list frees it and its blocks.\<close>

lemma delete_unlisted:
  assumes "file_inv (blocks s) n (bl f)" "files s f = Some n" "f_next n = None" "f_prev n = None"
    "file_list s \<noteq> Some f"
  shows "delete_file f s = Some (s\<lparr>blocks := blocks s |` (- set (bl f)), files := (files s)(f := None)\<rparr>)"
proof -
  have "free_blocks (blocks s) (Some (block_list n)) = Some (blocks s |` (- set (bl f)))"
    using assms(1) by (intro free_blocks_spec) (auto simp: file_inv_def)
  then show ?thesis using assms(2) disconnect_unlisted [OF assms(2-5)] by (simp add: delete_file_def)
qed

section \<open>Keeping the invariant when files come and go\<close>

lemma blocks_inv_cong:
  assumes "blocks_inv bl s" "blocks t = blocks s"
    "\<And>f. map_option (\<lambda>n. (block_list n, last_block n)) (files t f) =
      map_option (\<lambda>n. (block_list n, last_block n)) (files s f)"
  shows "blocks_inv bl t"
proof -
  have dom: "f \<in> dom (files t) \<longleftrightarrow> f \<in> dom (files s)" for f
    using assms(3) [of f] by (cases "files t f"; cases "files s f") auto
  have "file_inv (blocks s) n (bl f)" if n: "files t f = Some n" for f n
  proof -
    obtain m where m: "files s f = Some m" "block_list n = block_list m" "last_block n = last_block m"
      using assms(3) [of f] n by (cases "files s f") auto
    have "file_inv (blocks s) n (bl f) = file_inv (blocks s) m (bl f)"
      by (rule file_inv_cong) (simp_all add: m)
    then show ?thesis using blocks_invD(1) [OF assms(1) m(1)] by simp
  qed
  moreover have "owned t bl f = owned s bl f" for f using dom by (simp add: owned_def)
  ultimately show ?thesis using assms(1,2) by (simp add: blocks_inv_def)
qed

lemma blocks_inv_remove:
  assumes inv: "blocks_inv bl s" and f: "f \<in> dom (files s)"
    and t: "blocks t = blocks s |` (- set (bl f))" "files t = (files s)(f := None)"
  shows "blocks_inv bl t"
proof -
  have own: "owned t bl g = (if g = f then {} else owned s bl g)" for g
    by (auto simp: owned_def t)
  have apart: "owned s bl g \<inter> set (bl f) = {}" if "g \<noteq> f" for g
    using owned_disjoint [OF inv that] f by (simp add: owned_def)
  have "file_inv (blocks t) n (bl g)" if g: "files t g = Some n" for g n
  proof -
    have gs: "files s g = Some n" "g \<noteq> f" using g t(2) by (auto split: if_splits)
    then have "owned s bl g = set (bl g)" by (simp add: owned_def domI)
    then have "set (bl g) \<inter> set (bl f) = {}" using apart [OF gs(2)] by simp
    then have "file_inv (blocks t) n (bl g) = file_inv (blocks s) n (bl g)"
      by (intro file_inv_cong) (auto simp: t restrict_map_def)
    then show ?thesis using blocks_invD(1) [OF inv gs(1)] by simp
  qed
  moreover have "owned t bl g \<inter> owned t bl k = {}" if "g \<noteq> k" for g k
    using owned_disjoint [OF inv that] by (simp add: own)
  moreover have "dom (blocks t) = (\<Union>g. owned t bl g)"
  proof -
    have "dom (blocks t) = (\<Union>g. owned s bl g) - set (bl f)"
      using inv by (auto simp: t blocks_inv_def)
    also have "\<dots> = (\<Union>g. owned t bl g)"
      using apart f unfolding own by (fastforce simp: owned_def split: if_splits)
    finally show ?thesis .
  qed
  ultimately show ?thesis unfolding blocks_inv_def by blast
qed

lemma descs_inv_cong:
  assumes "descs_inv bl s" "\<And>d dn. descs t d = Some dn \<Longrightarrow> descs s d = Some dn \<and> d_file dn \<in> dom (files t) \<and>
      blocks t (current_block dn) = blocks s (current_block dn)"
  shows "descs_inv bl t"
  using assms unfolding descs_inv_def desc_ok_def by metis

section \<open>Closing\<close>

lemma table_inv_close:
  assumes inv: "table_inv tab s" and i: "i < length tab" "tab ! i = Some d"
    and t: "file_descriptors s = Some cells" "file_descriptors t = Some (cells[i := Some None])"
      "file_descriptor_count t = file_descriptor_count s" "file_descriptor_capacity t = file_descriptor_capacity s"
      "descs t = (descs s)(d := None)"
  shows "table_inv (tab[i := None]) t"
proof -
  obtain rest where cells: "cells = map Some tab @ rest" "file_descriptor_capacity s = int (length cells)" "cells \<noteq> []"
    using inv t(1) by (auto simp: table_inv_def)
  have "cells[i := Some None] = map Some (tab[i := None]) @ rest"
    using i(1) cells(1) by (simp add: list_update_append map_update)
  then have "case file_descriptors t of None \<Rightarrow> tab[i := None] = [] | Some cells \<Rightarrow>
      file_descriptor_capacity t = int (length cells) \<and> cells \<noteq> [] \<and> (\<exists>rest. cells = map Some (tab[i := None]) @ rest)"
    using cells t(2,4) by auto
  moreover have "0 \<le> d_index en \<and> nat (d_index en) < length (tab[i := None]) \<and>
      tab[i := None] ! nat (d_index en) = Some e" if e: "descs t e = Some en" for e en
  proof -
    have es: "descs s e = Some en" "e \<noteq> d" using e t(5) by (auto split: if_splits)
    then have "0 \<le> d_index en" "nat (d_index en) < length tab" "tab ! nat (d_index en) = Some e"
      using inv by (auto simp: table_inv_def)
    moreover have "nat (d_index en) \<noteq> i" using calculation(3) es(2) i(2) by auto
    ultimately show ?thesis by simp
  qed
  moreover have "\<exists>en. descs t e = Some en \<and> d_index en = int j"
    if j: "j < length (tab[i := None])" "tab[i := None] ! j = Some e" for j e
  proof -
    have "j \<noteq> i" using j i(1) by auto
    then have ji: "j \<noteq> i" "tab ! j = Some e" "j < length tab" using j by simp_all
    then obtain en where "descs s e = Some en" "d_index en = int j" using table_desc [OF inv] by metis
    moreover have "e \<noteq> d" using table_other [OF inv i ji(3,1)] ji(2) by auto
    ultimately show ?thesis using t(5) by auto
  qed
  moreover have "file_descriptor_count t = int (length (tab[i := None]))" using inv t(3) by (simp add: table_inv_def)
  ultimately show ?thesis unfolding table_inv_def by blast
qed

lemma fds_abs_close:
  assumes inv: "table_inv tab s" and i: "i < length tab" "tab ! i = Some d"
    and same: "\<And>e. e \<noteq> d \<Longrightarrow> desc_abs t e = desc_abs s e"
  shows "fds_abs (tab[i := None]) t = (fds_abs tab s)[i := None]"
proof (rule nth_equalityI)
  fix j assume j: "j < length (fds_abs (tab[i := None]) t)"
  show "fds_abs (tab[i := None]) t ! j = (fds_abs tab s)[i := None] ! j"
  proof (cases "j = i")
    case False
    then have "tab ! j \<noteq> Some d" using table_other [OF inv i, of j] j by simp
    then show ?thesis using False j same by (cases "tab ! j") (auto simp: fds_abs_nth)
  qed (use i(1) in \<open>simp add: fds_abs_nth\<close>)
qed simp

lemma a_used_users:
  assumes "table_inv tab s"
  shows "a_used f (fds_abs tab s) \<longleftrightarrow> users s f \<noteq> {}"
proof
  assume "a_used f (fds_abs tab s)"
  then obtain a where a: "Some a \<in> (\<lambda>slot. Option.bind slot (desc_abs s)) ` set tab" "a_file a = f"
    unfolding a_used_def fds_abs_def set_map by blast
  then obtain slot where "Option.bind slot (desc_abs s) = Some a" by (metis imageE)
  with a(2) show "users s f \<noteq> {}" by (fastforce simp: users_def bind_eq_Some_conv desc_abs_Some)
next
  assume "users s f \<noteq> {}"
  then obtain d dn where d: "descs s d = Some dn" "d_file dn = f" by (auto simp: users_def)
  then have i: "nat (d_index dn) < length tab" "tab ! nat (d_index dn) = Some d"
    using assms by (auto simp: table_inv_def)
  let ?a = "\<lparr>a_file = f, a_pos = nat (desc_pos (blocks s) dn), a_flags = d_flags dn\<rparr>"
  have "fds_abs tab s ! nat (d_index dn) = Some ?a" using d i by (simp add: fds_abs_nth desc_abs_def)
  then have "Some ?a \<in> set (fds_abs tab s)" using i(1) by (metis fds_abs_length nth_mem)
  then show "a_used f (fds_abs tab s)" unfolding a_used_def by (metis adesc.select_convs(1))
qed

lemma refs_inv_close:
  assumes inv: "refs_inv s" and d: "descs s d = Some dn" "d_file dn = f"
    and t: "descs t = (descs s)(d := None)"
      "\<And>g n. files t g = Some n \<Longrightarrow> \<exists>m. files s g = Some m \<and> refs n = (if g = f then refs m - 1 else refs m)"
  shows "refs_inv t" "users t f = users s f - {d}" "d \<in> users s f" "finite (users s f)"
proof -
  have u: "users t g = users s g - {d}" for g using t(1) by (auto simp: users_def)
  then show "users t f = users s f - {d}" .
  show du: "d \<in> users s f" using d by (simp add: users_def)
  have fin: "finite (users s g)" for g
    using inv by (auto simp: refs_inv_def users_def intro: rev_finite_subset)
  then show "finite (users s f)" .
  have "refs n = int (card (users t g))" if g: "files t g = Some n" for g n
  proof -
    obtain m where m: "files s g = Some m" "refs n = (if g = f then refs m - 1 else refs m)" using t(2) [OF g] by blast
    then have r: "refs m = int (card (users s g))" using inv by (simp add: refs_inv_def)
    show ?thesis
    proof (cases "g = f")
      case True
      then have "card (users s g) > 0" using du fin by (auto simp: card_gt_0_iff)
      then show ?thesis using True m(2) r u [of g] du fin by (simp add: of_nat_diff)
    next
      case False
      then have "d \<notin> users s g" using d by (auto simp: users_def)
      then show ?thesis using False m(2) r u [of g] by simp
    qed
  qed
  moreover have "finite (dom (descs t))" using inv t(1) by (simp add: refs_inv_def)
  ultimately show "refs_inv t" by (simp add: refs_inv_def)
qed

lemma set_slot_table:
  assumes "table_inv tab s" "i < length tab" "k = int i"
  obtains cells where "file_descriptors s = Some cells"
    "\<And>u v. file_descriptors u = Some cells \<Longrightarrow> set_slot k v u = Some (u\<lparr>file_descriptors := Some (cells[i := Some v])\<rparr>)"
proof -
  have "tab \<noteq> []" using assms(2) by auto
  then obtain cells rest where c: "file_descriptors s = Some cells" "cells = map Some tab @ rest"
    using assms(1) by (auto simp: table_inv_def split: option.splits)
  then have "set_slot k v u = Some (u\<lparr>file_descriptors := Some (cells[i := Some v])\<rparr>)"
    if "file_descriptors u = Some cells" for u v
    using that assms(2,3) by (simp add: set_slot_def cset_def)
  then show ?thesis using that c(1) by blast
qed

lemma list_inv_remove:
  assumes seg: "file_seg (files s) None (file_list s) fl None" and d: "distinct fl" and f: "f \<notin> set fl"
    and ok: "\<And>g n. g \<noteq> f \<Longrightarrow> files s g = Some n \<Longrightarrow> (g \<in> set fl \<longleftrightarrow> \<not> marked_for_deletion n) \<and>
        (marked_for_deletion n \<longrightarrow> f_next n = None \<and> f_prev n = None \<and> 0 < refs n)"
    and inj: "inj_on (\<lambda>f. f_name (the (files s f))) (set fl)"
    and t: "files t = (files s)(f := None)" "file_list t = file_list s"
  shows "list_inv fl t"
proof -
  have "file_seg (files t) None (file_list t) fl None" using seg f by (simp add: t dlseg_outside)
  moreover have "inj_on (\<lambda>f. f_name (the (files t f))) (set fl)"
    using inj f by (auto simp: inj_on_def t)
  ultimately show ?thesis using d f ok by (simp add: list_inv_def t)
qed

lemma marked_facts:
  assumes "list_inv fl s" "files s f = Some n" "marked_for_deletion n"
  shows "f_next n = None" "f_prev n = None" "0 < refs n" "f \<notin> set fl" "file_list s \<noteq> Some f"
proof -
  show "f_next n = None" "f_prev n = None" "0 < refs n" "f \<notin> set fl"
    using assms by (auto simp: list_inv_def)
  then show "file_list s \<noteq> Some f"
    using list_invD(4) [OF assms(1)] by (cases fl) auto
qed

definition closed_state :: "ptr option option list \<Rightarrow> nat \<Rightarrow> ptr \<Rightarrow> ufs \<Rightarrow> ufs" where
  "closed_state cells i d s =
     s\<lparr>file_descriptors := Some (cells[i := Some None]), descs := (descs s)(d := None)\<rparr>"

lemma close_concrete:
  assumes inv: "ufs_inv bl fl tab s" and i: "i < length tab" "tab ! i = Some d"
    and d: "descs s d = Some dn" "files s (d_file dn) = Some n"
  obtains cells where "file_descriptors s = Some cells"
    "close_file_descriptor d s = Some (closed_state cells i d
      (if marked_for_deletion n \<and> refs n = 1
       then s\<lparr>blocks := blocks s |` (- set (bl (d_file dn))), files := (files s)(d_file dn := None)\<rparr>
       else s\<lparr>files := (files s)(d_file dn \<mapsto> n\<lparr>refs := refs n - 1\<rparr>)\<rparr>))"
proof -
  note parts = ufs_inv_parts [OF inv]
  let ?f = "d_file dn" and ?n = "n\<lparr>refs := refs n - 1\<rparr>"
  let ?s = "s\<lparr>files := (files s)(?f \<mapsto> ?n)\<rparr>"
  have "d_index dn = int i" using table_desc [OF parts(4) i] d(1) by (metis option.inject)
  then obtain cells where cells: "file_descriptors s = Some cells"
    "\<And>u v. file_descriptors u = Some cells \<Longrightarrow>
      set_slot (d_index dn) v u = Some (u\<lparr>file_descriptors := Some (cells[i := Some v])\<rparr>)"
    using set_slot_table [OF parts(4) i(1)] by metis
  have "delete_file ?f ?s = Some (s\<lparr>blocks := blocks s |` (- set (bl ?f)), files := (files s)(?f := None)\<rparr>)"
    if m: "marked_for_deletion n"
  proof -
    have "file_inv (blocks ?s) ?n (bl ?f)"
      using blocks_invD(1) [OF parts(1) d(2)] file_inv_cong [of "bl ?f" "blocks s" "blocks s" n ?n] by simp
    then show ?thesis
      using delete_unlisted [of ?s ?n bl ?f] marked_facts [OF parts(6) d(2) m] by simp
  qed
  then show ?thesis
    by (cases "marked_for_deletion n \<and> refs n = 1"; intro that [OF cells(1)])
      (use cells d in \<open>auto simp: close_file_descriptor_def set_file_def closed_state_def\<close>)
qed

lemma close_keep:
  assumes inv: "ufs_inv bl fl tab s" and i: "i < length tab" "tab ! i = Some d"
    and d: "descs s d = Some dn" "files s (d_file dn) = Some n" and cells: "file_descriptors s = Some cells"
    and keep: "\<not> (marked_for_deletion n \<and> refs n = 1)"
    and t: "t = closed_state cells i d (s\<lparr>files := (files s)(d_file dn \<mapsto> n\<lparr>refs := refs n - 1\<rparr>)\<rparr>)"
  shows "ufs_inv bl fl (tab[i := None]) t" "file_abs bl t = file_abs bl s"
    "fds_abs (tab[i := None]) t = (fds_abs tab s)[i := None]"
    "d_file dn \<in> set fl \<or> users t (d_file dn) \<noteq> {}"
proof -
  note parts = ufs_inv_parts [OF inv]
  let ?f = "d_file dn"
  have td: "descs t = (descs s)(d := None)" by (simp add: t closed_state_def)
  have tf: "files t = (files s)(?f \<mapsto> n\<lparr>refs := refs n - 1\<rparr>)" by (simp add: t closed_state_def)
  have tr: "blocks t = blocks s" "next_ptr t = next_ptr s" "file_list t = file_list s"
    "file_descriptor_count t = file_descriptor_count s" "file_descriptor_capacity t = file_descriptor_capacity s"
    "file_descriptors t = Some (cells[i := Some None])"
    by (simp_all add: t closed_state_def)
  have refs: "refs_inv t" "users t ?f = users s ?f - {d}" "d \<in> users s ?f" "finite (users s ?f)"
    by (rule refs_inv_close [OF parts(5) d(1) refl td]; use tf d(2) in \<open>auto split: if_splits\<close>)+
  have rn: "refs n = int (card (users s ?f))" using parts(5) d(2) by (simp add: refs_inv_def)
  have pos: "0 < refs n" using rn refs(3,4) by (auto simp: card_gt_0_iff)
  have "blocks_inv bl t" by (rule blocks_inv_cong [OF parts(1) tr(1)]) (use tf d(2) in auto)
  moreover have "fresh_inv t" using parts(2) tf td tr d(2) by (auto simp: fresh_inv_def)
  moreover have "descs_inv bl t"
    by (rule descs_inv_cong [OF parts(3)])
      (use td tf tr parts(3) in \<open>auto simp: descs_inv_def desc_ok_def split: if_splits\<close>)
  moreover have "table_inv (tab[i := None]) t"
    by (rule table_inv_close [OF parts(4) i cells]) (simp_all add: tr td)
  moreover have "list_inv fl t"
  proof -
    have "file_seg (files t) None (file_list t) fl None"
      using list_invD(1) [OF parts(6)] dlseg_links_cong [of fl f_next f_prev "files t" "files s"] tf tr d(2)
      by auto
    moreover have "f_name (the (files t g)) = f_name (the (files s g))" for g using tf d(2) by simp
    moreover have "(g \<in> set fl \<longleftrightarrow> \<not> marked_for_deletion m) \<and>
        (marked_for_deletion m \<longrightarrow> f_next m = None \<and> f_prev m = None \<and> 0 < refs m)" if "files t g = Some m" for g m
    proof (cases "g = ?f")
      case True
      then have m: "m = n\<lparr>refs := refs n - 1\<rparr>" using that tf by simp
      have "refs n \<noteq> 1 \<longrightarrow> 0 < refs n - 1" using pos by linarith
      then show ?thesis using m True keep parts(6) d(2) by (auto simp: list_inv_def)
    next
      case False
      then show ?thesis using that tf parts(6) by (auto simp: list_inv_def)
    qed
    ultimately show ?thesis using parts(6) by (simp add: list_inv_def)
  qed
  ultimately show "ufs_inv bl fl (tab[i := None]) t" using refs(1) by (simp add: ufs_inv_def)
  show "file_abs bl t = file_abs bl s" 
    by (rule ext) (use d(2) in \<open>simp add: file_abs_def tf tr(1)\<close>)
  show "fds_abs (tab[i := None]) t = (fds_abs tab s)[i := None]"
    by (rule fds_abs_close [OF parts(4) i]) (simp add: desc_abs_def td tr)
  show "?f \<in> set fl \<or> users t ?f \<noteq> {}"
  proof (cases "marked_for_deletion n")
    case True
    then have "card (users s ?f) \<noteq> 1" using keep rn by simp
    then have "users s ?f \<noteq> {d}" by auto
    then show ?thesis using refs(2,3) by blast
  next
    case False
    then show ?thesis using parts(6) d(2) by (auto simp: list_inv_def)
  qed
qed

lemma close_drop:
  assumes inv: "ufs_inv bl fl tab s" and i: "i < length tab" "tab ! i = Some d"
    and d: "descs s d = Some dn" "files s (d_file dn) = Some n" and cells: "file_descriptors s = Some cells"
    and drop: "marked_for_deletion n" "refs n = 1"
    and t: "t = closed_state cells i d (s\<lparr>blocks := blocks s |` (- set (bl (d_file dn))),
      files := (files s)(d_file dn := None)\<rparr>)"
  shows "ufs_inv bl fl (tab[i := None]) t" "file_abs bl t = (file_abs bl s)(d_file dn := None)"
    "fds_abs (tab[i := None]) t = (fds_abs tab s)[i := None]"
    "d_file dn \<notin> set fl \<and> users t (d_file dn) = {}"
proof -
  note parts = ufs_inv_parts [OF inv]
  let ?f = "d_file dn"
  have td: "descs t = (descs s)(d := None)" by (simp add: t closed_state_def)
  have tf: "files t = (files s)(?f := None)" by (simp add: t closed_state_def)
  have tr: "blocks t = blocks s |` (- set (bl ?f))" "next_ptr t = next_ptr s" "file_list t = file_list s"
    "file_descriptor_count t = file_descriptor_count s" "file_descriptor_capacity t = file_descriptor_capacity s"
    "file_descriptors t = Some (cells[i := Some None])"
    by (simp_all add: t closed_state_def)
  have refs: "refs_inv t" "users t ?f = users s ?f - {d}" "d \<in> users s ?f" "finite (users s ?f)"
    by (rule refs_inv_close [OF parts(5) d(1) refl td]; use tf in \<open>auto split: if_splits\<close>)+
  have "card (users s ?f) = 1" using parts(5) d(2) drop(2) by (simp add: refs_inv_def)
  then have us: "users s ?f = {d}" using refs(3) by (metis card_1_singletonE singletonD)
  then have ut: "users t ?f = {}" using refs(2) by simp
  have others: "d_file en \<noteq> ?f \<and> current_block en \<notin> set (bl ?f) \<and> d_file en \<in> dom (files s)"
    if e: "descs t e = Some en" for e en
  proof -
    have es: "descs s e = Some en" "e \<noteq> d" using e td by (auto split: if_splits)
    have f: "d_file en \<noteq> ?f" using us es by (auto simp: users_def)
    have "desc_ok bl s en" using parts(3) es(1) by (auto simp: descs_inv_def)
    then have "d_file en \<in> dom (files s)" "current_block en \<in> owned s bl (d_file en)"
      by (auto simp: desc_ok_def owned_def)
    moreover have "owned s bl ?f = set (bl ?f)" using d(2) by (simp add: owned_def domI)
    ultimately show ?thesis using owned_disjoint [OF parts(1) f] f by blast
  qed
  note M = marked_facts [OF parts(6) d(2) drop(1)]
  have "blocks_inv bl t" by (rule blocks_inv_remove [OF parts(1), of ?f]) (use d(2) in \<open>auto simp: tr tf\<close>)
  moreover have "fresh_inv t" using parts(2) tf td tr by (auto simp: fresh_inv_def)
  moreover have "descs_inv bl t"
    by (rule descs_inv_cong [OF parts(3)])
      (use td tf tr others in \<open>auto simp: restrict_map_def split: if_splits\<close>)
  moreover have "table_inv (tab[i := None]) t"
    by (rule table_inv_close [OF parts(4) i cells]) (simp_all add: tr td)
  moreover have "list_inv fl t"
    by (rule list_inv_remove [where f = ?f and s = s])
      (use parts(6) M tf tr in \<open>auto simp: list_inv_def\<close>)
  ultimately show "ufs_inv bl fl (tab[i := None]) t" using refs(1) by (simp add: ufs_inv_def)
  show "?f \<notin> set fl \<and> users t ?f = {}" using M ut by simp
  show "file_abs bl t = (file_abs bl s)(?f := None)"
  proof
    fix g
    show "file_abs bl t g = ((file_abs bl s)(?f := None)) g"
    proof (cases "g = ?f \<or> files s g = None")
      case True
      then show ?thesis using tf by (auto simp: file_abs_def)
    next
      case False
      then have "owned s bl g = set (bl g)" "owned s bl ?f = set (bl ?f)" "g \<noteq> ?f"
        using d(2) by (auto simp: owned_def domI)
      then have "set (bl g) \<inter> set (bl ?f) = {}" using owned_disjoint [OF parts(1), of g ?f] by simp
      then have "bytes_of (blocks t) (bl g) = bytes_of (blocks s) (bl g)"
        by (intro bytes_cong) (auto simp: tr restrict_map_def)
      then show ?thesis using False tf by (auto simp: file_abs_def)
    qed
  qed
  show "fds_abs (tab[i := None]) t = (fds_abs tab s)[i := None]"
  proof (rule fds_abs_close [OF parts(4) i])
    fix e assume "e \<noteq> d"
    then have "descs t e = descs s e" using td by simp
    then show "desc_abs t e = desc_abs s e"
      using others [of e] tr(1) by (cases "descs s e") (auto simp: desc_abs_def desc_pos_def restrict_map_def)
  qed
qed

lemma close_refines:
  assumes inv: "ufs_inv bl fl tab s"
  shows "\<exists>t tab'. ufs_close fd s = Some (fst (a_close fd (ufs_abs bl fl tab s)), t) \<and>
    ufs_inv bl fl tab' t \<and> ufs_abs bl fl tab' t = snd (a_close fd (ufs_abs bl fl tab s))"
  using inv
proof (cases rule: lookup_cases [where fd = fd])
  case none
  then show ?thesis using throw_error_abs [OF inv, of UFS_ERR_NO_FILE]
    by (auto simp: ufs_close_def a_close_def a_fail_def)
next
  case (some d dn a fa)
  note parts = ufs_inv_parts [OF inv]
  let ?f = "d_file dn" and ?i = "nat fd" and ?tab = "tab[nat fd := None]"
  obtain n where n: "files s ?f = Some n" using some(9,11) by (auto simp: file_abs_Some)
  obtain cells where cells: "file_descriptors s = Some cells" and run: "close_file_descriptor d s =
    Some (closed_state cells ?i d (if marked_for_deletion n \<and> refs n = 1
       then s\<lparr>blocks := blocks s |` (- set (bl ?f)), files := (files s)(?f := None)\<rparr>
       else s\<lparr>files := (files s)(?f \<mapsto> n\<lparr>refs := refs n - 1\<rparr>)\<rparr>))"
    by (rule close_concrete [OF inv some(3,4,5) n])
  have spec: "a_close fd (ufs_abs bl fl tab s) = (0, a_drop ?f (a_set_fd fd None (ufs_abs bl fl tab s)))"
    using some(8,11) by (simp add: a_close_def)
  show ?thesis
  proof (cases "marked_for_deletion n \<and> refs n = 1")
    case True
    define t where "t = closed_state cells ?i d (s\<lparr>blocks := blocks s |` (- set (bl ?f)), files := (files s)(?f := None)\<rparr>)"
    have t: "ufs_inv bl fl ?tab t" "file_abs bl t = (file_abs bl s)(?f := None)"
      "fds_abs ?tab t = (fds_abs tab s)[?i := None]" "?f \<notin> set fl \<and> users t ?f = {}"
      using close_drop [OF inv some(3,4,5) n cells _ _ t_def] True by blast+
    have "\<not> a_used ?f (fds_abs ?tab t)" using a_used_users [OF ufs_inv_parts(4) [OF t(1)]] t(4) by simp
    then have "ufs_abs bl fl ?tab t = a_drop ?f (a_set_fd fd None (ufs_abs bl fl tab s))"
      using t by (simp add: a_drop_def a_set_fd_def ufs_abs_def) (simp add: t_def closed_state_def)
    then show ?thesis using run True spec t(1) by (auto simp: ufs_close_def some(1) t_def)
  next
    case False
    define t where "t = closed_state cells ?i d (s\<lparr>files := (files s)(?f \<mapsto> n\<lparr>refs := refs n - 1\<rparr>)\<rparr>)"
    have t: "ufs_inv bl fl ?tab t" "file_abs bl t = file_abs bl s"
      "fds_abs ?tab t = (fds_abs tab s)[?i := None]" "?f \<in> set fl \<or> users t ?f \<noteq> {}"
      using close_keep [OF inv some(3,4,5) n cells False t_def] by blast+
    have "?f \<in> set fl \<or> a_used ?f (fds_abs ?tab t)" using a_used_users [OF ufs_inv_parts(4) [OF t(1)]] t(4) by simp
    then have "ufs_abs bl fl ?tab t = a_drop ?f (a_set_fd fd None (ufs_abs bl fl tab s))"
      using t by (auto simp: a_drop_def a_set_fd_def ufs_abs_def) (simp_all add: t_def closed_state_def)
    then show ?thesis using run False spec t(1) by (auto simp: ufs_close_def some(1) t_def)
  qed
qed

section \<open>Deleting\<close>

lemma a_find_listed: "a_find name a = Some f \<Longrightarrow> f \<in> set (a_listed a)"
  by (auto simp: a_find_def find_Some_iff)

text \<open>Changing links alone, and removing a file no descriptor is open on.\<close>

lemma relinked_file:
  assumes "\<forall>q. map_option fcore (h q) = map_option fcore (files s q)" "h q = Some n"
  obtains m where "files s q = Some m" "block_list n = block_list m" "last_block n = last_block m"
    "refs n = refs m" "f_name n = f_name m" "marked_for_deletion n = marked_for_deletion m"
proof -
  obtain m where "files s q = Some m" "fcore n = fcore m"
    using assms by (metis (no_types, lifting) map_option_eq_Some)
  then show ?thesis using that fcore_fields [of n m] by blast
qed

lemma relinked_parts:
  assumes "blocks_inv bl s" "fresh_inv s" "descs_inv bl s" "refs_inv s"
    and core: "\<forall>q. map_option fcore (h q) = map_option fcore (files s q)"
    and t: "t = s\<lparr>files := h, file_list := p\<rparr>"
  shows "blocks_inv bl t" "fresh_inv t" "descs_inv bl t" "refs_inv t" "file_abs bl t = file_abs bl s"
    "desc_abs t = desc_abs s" "users t f = users s f"
proof -
  have m: "(h q = None \<and> files s q = None) \<or> (\<exists>n m. h q = Some n \<and> files s q = Some m \<and>
      block_list n = block_list m \<and> last_block n = last_block m \<and> f_name n = f_name m)" for q
  proof (cases "h q")
    case None
    then show ?thesis using core by (metis map_option_is_None)
  next
    case (Some n)
    then show ?thesis by (rule relinked_file [OF core]) (use Some in blast)
  qed
  have dom: "dom h = dom (files s)" using m by (metis domIff option.distinct(1) subset_antisym subsetI)
  show "blocks_inv bl t"
  proof (rule blocks_inv_cong [OF assms(1)])
    fix q
    show "map_option (\<lambda>n. (block_list n, last_block n)) (files t q) =
        map_option (\<lambda>n. (block_list n, last_block n)) (files s q)"
      using m [of q] by (auto simp: t)
  qed (simp add: t)
  show "fresh_inv t" using assms(2) dom by (simp add: fresh_inv_def t)
  show "descs_inv bl t" using assms(3) dom by (simp add: descs_inv_def desc_ok_def t)
  show u: "users t f = users s f" for f by (simp add: users_def t)
  show "refs_inv t"
  proof -
    have "refs n = int (card (users t q))" if q: "files t q = Some n" for q n
    proof -
      have "h q = Some n" using q by (simp add: t)
      then obtain k where "files s q = Some k" "refs n = refs k" by (rule relinked_file [OF core])
      then show ?thesis using assms(4) u by (simp add: refs_inv_def)
    qed
    then show ?thesis using assms(4) by (simp add: refs_inv_def t)
  qed
  show "file_abs bl t = file_abs bl s"
  proof
    fix q
    show "file_abs bl t q = file_abs bl s q"
      using m [of q] by (auto simp: t file_abs_def)
  qed
  show "desc_abs t = desc_abs s" by (rule ext) (simp add: desc_abs_def t)
qed

lemma remove_parts:
  assumes inv: "blocks_inv bl s" "fresh_inv s" "descs_inv bl s" "refs_inv s"
    and f: "files s f = Some n" "users s f = {}"
    and t: "t = s\<lparr>blocks := blocks s |` (- set (bl f)), files := (files s)(f := None)\<rparr>"
  shows "blocks_inv bl t" "fresh_inv t" "descs_inv bl t" "refs_inv t"
    "file_abs bl t = (file_abs bl s)(f := None)" "desc_abs t = desc_abs s"
proof -
  have of: "owned s bl f = set (bl f)" using f(1) by (simp add: owned_def domI)
  have others: "d_file en \<noteq> f \<and> current_block en \<notin> set (bl f) \<and> d_file en \<in> dom (files s)"
    if e: "descs s e = Some en" for e en
  proof -
    have ne: "d_file en \<noteq> f" using f(2) e by (auto simp: users_def)
    have "desc_ok bl s en" using inv(3) e by (auto simp: descs_inv_def)
    then have "d_file en \<in> dom (files s)" "current_block en \<in> owned s bl (d_file en)"
      by (auto simp: desc_ok_def owned_def)
    then show ?thesis using owned_disjoint [OF inv(1) ne] ne of by blast
  qed
  show "blocks_inv bl t" by (rule blocks_inv_remove [OF inv(1), of f]) (use f(1) in \<open>auto simp: t\<close>)
  show "fresh_inv t" using inv(2) by (auto simp: fresh_inv_def t)
  show "descs_inv bl t"
    by (rule descs_inv_cong [OF inv(3)]) (use others in \<open>auto simp: t restrict_map_def\<close>)
  show "refs_inv t" using inv(4) by (simp add: refs_inv_def users_def t)
  show "file_abs bl t = (file_abs bl s)(f := None)"
  proof
    fix g
    show "file_abs bl t g = ((file_abs bl s)(f := None)) g"
    proof (cases "g = f \<or> files s g = None")
      case True
      then show ?thesis by (auto simp: file_abs_def t)
    next
      case False
      then have "owned s bl g = set (bl g)" "g \<noteq> f" by (auto simp: owned_def)
      then have "set (bl g) \<inter> set (bl f) = {}" using owned_disjoint [OF inv(1), of g f] of by simp
      then have "bytes_of (blocks t) (bl g) = bytes_of (blocks s) (bl g)"
        by (intro bytes_cong) (auto simp: t restrict_map_def)
      then show ?thesis using False by (simp add: file_abs_def t)
    qed
  qed
  show "desc_abs t = desc_abs s"
  proof
    fix e show "desc_abs t e = desc_abs s e"
      using others [of e] by (cases "descs s e") (auto simp: desc_abs_def desc_pos_def restrict_map_def t)
  qed
qed


lemma table_inv_same:
  assumes "table_inv tab s" "descs t = descs s" "file_descriptors t = file_descriptors s"
    "file_descriptor_count t = file_descriptor_count s" "file_descriptor_capacity t = file_descriptor_capacity s"
  shows "table_inv tab t"
  using assms(1) unfolding table_inv_def assms(2-5) .

lemma fds_abs_same: "desc_abs t = desc_abs s \<Longrightarrow> fds_abs tab t = fds_abs tab s"
  by (simp add: fds_abs_def)

lemma relinked_list:
  assumes inv: "list_inv fl s" "f \<in> set fl"
    and core: "\<forall>q. map_option fcore (h q) = map_option fcore (files s q)"
    and outside: "\<forall>q. q \<notin> set fl \<longrightarrow> h q = files s q"
    and u: "u = s\<lparr>files := h, file_list := p\<rparr>"
  shows "g \<noteq> f \<Longrightarrow> files u g = Some k \<Longrightarrow> (g \<in> set (remove1 f fl) \<longleftrightarrow> \<not> marked_for_deletion k) \<and>
      (marked_for_deletion k \<longrightarrow> f_next k = None \<and> f_prev k = None \<and> 0 < refs k)"
    and "inj_on (\<lambda>g. f_name (the (files u g))) (set (remove1 f fl))"
proof -
  have fl: "set (remove1 f fl) = set fl - {f}" using list_invD(2) [OF inv(1)] by auto
  show "(g \<in> set (remove1 f fl) \<longleftrightarrow> \<not> marked_for_deletion k) \<and>
      (marked_for_deletion k \<longrightarrow> f_next k = None \<and> f_prev k = None \<and> 0 < refs k)"
    if g: "g \<noteq> f" "files u g = Some k"
  proof -
    have hk: "h g = Some k" using g(2) by (simp add: u)
    obtain m where m: "files s g = Some m" "marked_for_deletion k = marked_for_deletion m"
      by (rule relinked_file [OF core hk])
    have "g \<in> set (remove1 f fl) \<longleftrightarrow> \<not> marked_for_deletion k"
      using inv(1) m fl g(1) by (auto simp: list_inv_def)
    moreover have "f_next k = None \<and> f_prev k = None \<and> 0 < refs k" if hm: "marked_for_deletion k"
    proof -
      have "g \<notin> set fl" using inv(1) m hm by (auto simp: list_inv_def)
      then have "files s g = Some k" using outside hk by simp
      then show ?thesis using inv(1) hm by (auto simp: list_inv_def)
    qed
    ultimately show ?thesis by blast
  qed
  have "f_name (the (files u g)) = f_name (the (files s g))" for g
  proof (cases "h g")
    case None
    then have "files s g = None" using core by (metis option.map_disc_iff)
    then show ?thesis using None by (simp add: u)
  next
    case (Some k)
    then obtain m where "files s g = Some m" "f_name k = f_name m" by (rule relinked_file [OF core])
    then show ?thesis using Some by (simp add: u)
  qed
  then show "inj_on (\<lambda>g. f_name (the (files u g))) (set (remove1 f fl))"
    using inv(1) fl by (auto simp: list_inv_def inj_on_def)
qed

lemma delete_refines:
  assumes inv: "ufs_inv bl fl tab s"
  shows "\<exists>t fl'. ufs_delete name s = Some (fst (a_delete name (ufs_abs bl fl tab s)), t) \<and>
    ufs_inv bl fl' tab t \<and> ufs_abs bl fl' tab t = snd (a_delete name (ufs_abs bl fl tab s))"
proof (cases "a_find name (ufs_abs bl fl tab s)")
  case None
  then show ?thesis
    using throw_error_abs [OF inv, of UFS_ERR_NO_FILE] find_abs [OF ufs_inv_parts(6) [OF inv], of name bl tab] inv
    by (auto simp: ufs_delete_def a_delete_def a_fail_def)
next
  case (Some f)
  note parts = ufs_inv_parts [OF inv]
  let ?fl = "remove1 f fl"
  have f: "f \<in> set fl" using a_find_listed [OF Some] by (simp add: ufs_abs_def)
  have found: "try_get_file_by_filename name s = Some (Some f)"
    using find_abs [OF parts(6), of name bl tab] Some by simp
  have spec: "a_delete name (ufs_abs bl fl tab s) = (0, a_drop f ((ufs_abs bl fl tab s)\<lparr>a_listed := ?fl\<rparr>))"
    using Some by (simp add: a_delete_def) (simp add: ufs_abs_def)
  obtain h p n where dis: "disconnect_file_from_file_list f s = Some (s\<lparr>files := h, file_list := p\<rparr>)"
    and seg: "file_seg h None p ?fl None" and dom: "dom h = dom (files s)"
    and core: "\<forall>q. map_option fcore (h q) = map_option fcore (files s q)"
    and outside: "\<forall>q. q \<notin> set fl \<longrightarrow> h q = files s q"
    and n: "h f = Some n" "f_next n = None" "f_prev n = None"
    by (rule disconnect_listed [OF parts(6) f])
  define u where "u = s\<lparr>files := h, file_list := p\<rparr>"
  note U = relinked_parts [OF parts(1,2,3,5) core u_def]
  have utab: "table_inv tab u" by (rule table_inv_same [OF parts(4)]) (simp_all add: u_def)
  note others = relinked_list(1) [OF parts(6) f core outside u_def] and inj = relinked_list(2) [OF parts(6) f core outside u_def]
  have fl': "f \<notin> set ?fl" "distinct ?fl" using list_invD(2) [OF parts(6)] by auto
  have useg: "file_seg (files u) None (file_list u) ?fl None" using seg by (simp add: u_def)
  have un: "files u f = Some n" using n by (simp add: u_def)
  have rn: "refs n = int (card (users u f))" using U(4) un by (simp add: refs_inv_def)
  have fin: "finite (users u f)"
    using U(4) by (auto simp: refs_inv_def users_def intro: rev_finite_subset)
  have head: "file_list u \<noteq> Some f" using dlseg_entry [OF useg] fl'(1) by (cases ?fl) auto
  show ?thesis
  proof (cases "refs n = 0")
    case True
    then have none: "users u f = {}" using rn fin by simp
    define t where "t = u\<lparr>blocks := blocks u |` (- set (bl f)), files := (files u)(f := None)\<rparr>"
    note T = remove_parts [OF U(1-4) un none t_def]
    have del: "delete_file f u = Some t"
      using delete_unlisted [of u n bl f] blocks_invD(1) [OF U(1) un] un n head by (simp add: t_def)
    have "list_inv ?fl t"
      by (rule list_inv_remove [OF useg fl'(2,1) others inj]) (simp_all add: t_def)
    moreover have tt: "table_inv tab t" by (rule table_inv_same [OF utab]) (simp_all add: t_def)
    ultimately have "ufs_inv bl ?fl tab t" using T by (simp add: ufs_inv_def)
    moreover have "\<not> a_used f (fds_abs tab s)"
      using a_used_users [OF parts(4), of f] U(7) none by simp
    then have "ufs_abs bl ?fl tab t = snd (a_delete name (ufs_abs bl fl tab s))"
      using T(5,6) U(5,6) fl'(1) unfolding spec
      by (simp add: a_drop_def ufs_abs_def fds_abs_def) (simp add: t_def u_def)
    moreover have "ufs_delete name s = Some (0, t)"
      using found dis un del True by (simp add: ufs_delete_def u_def)
    ultimately show ?thesis using spec by (intro exI [of _ t] exI [of _ ?fl]) simp
  next
    case False
    then have used: "users u f \<noteq> {}" "0 < refs n" using rn by auto
    define t where "t = u\<lparr>files := (files u)(f \<mapsto> n\<lparr>marked_for_deletion := True\<rparr>)\<rparr>"
    have "blocks_inv bl t" by (rule blocks_inv_cong [OF U(1)]) (use un in \<open>auto simp: t_def\<close>)
    moreover have "fresh_inv t" using U(2) un by (auto simp: fresh_inv_def t_def)
    moreover have "descs_inv bl t"
      using U(3) un by (auto simp: descs_inv_def desc_ok_def t_def)
    moreover have "refs_inv t" using U(4) un by (auto simp: refs_inv_def users_def t_def)
    moreover have "table_inv tab t" by (rule table_inv_same [OF utab]) (simp_all add: t_def)
    moreover have "list_inv ?fl t"
    proof -
      have "file_seg (files t) None (file_list t) ?fl None" using useg fl'(1) by (simp add: t_def dlseg_outside)
      moreover have "inj_on (\<lambda>g. f_name (the (files t g))) (set ?fl)"
        using inj fl'(1) by (auto simp: inj_on_def t_def)
      moreover have "(g \<in> set ?fl \<longleftrightarrow> \<not> marked_for_deletion k) \<and>
          (marked_for_deletion k \<longrightarrow> f_next k = None \<and> f_prev k = None \<and> 0 < refs k)" if "files t g = Some k" for g k
        using that others [of g k] fl'(1) n(2,3) used(2) by (cases "g = f") (auto simp: t_def)
      ultimately show ?thesis using fl'(2) by (simp add: list_inv_def)
    qed
    ultimately have "ufs_inv bl ?fl tab t" by (simp add: ufs_inv_def)
    moreover have "a_used f (fds_abs tab s)"
      using a_used_users [OF parts(4), of f] U(7) used(1) by simp
    moreover have "file_abs bl t = file_abs bl s" "desc_abs t = desc_abs s"
    proof -
      have "file_abs bl t = file_abs bl u" by (rule ext) (use un in \<open>simp add: file_abs_def t_def\<close>)
      then show "file_abs bl t = file_abs bl s" using U(5) by simp
      have "desc_abs t = desc_abs u" by (rule ext) (simp add: desc_abs_def t_def)
      then show "desc_abs t = desc_abs s" using U(6) by simp
    qed
    ultimately have "ufs_inv bl ?fl tab t" "ufs_abs bl ?fl tab t = snd (a_delete name (ufs_abs bl fl tab s))"
      unfolding spec by (simp_all add: a_drop_def ufs_abs_def fds_abs_def t_def u_def)
    moreover have "ufs_delete name s = Some (0, t)"
      using found dis un False by (simp add: ufs_delete_def u_def t_def set_file_def)
    ultimately show ?thesis using spec by (intro exI [of _ t] exI [of _ ?fl]) simp
  qed
qed

section \<open>Opening\<close>

definition cells_ok :: "ptr option list \<Rightarrow> ufs \<Rightarrow> bool" where
  "cells_ok tab s \<longleftrightarrow> file_descriptor_count s = int (length tab) \<and>
     (case file_descriptors s of
        None \<Rightarrow> tab = []
      | Some cells \<Rightarrow> file_descriptor_capacity s = int (length cells) \<and> cells \<noteq> [] \<and>
          (\<exists>rest. cells = map Some tab @ rest))"

lemma find_empty_slot_spec:
  assumes "cells_ok tab s" "i \<le> length tab"
  shows "find_empty_slot (file_descriptors s) (int i) (int (length tab)) =
    Some (if i + a_slot (drop i tab) < length tab then int (i + a_slot (drop i tab)) else -1)"
  using assms(2)
proof (induction "length tab - i" arbitrary: i)
  case 0
  then show ?case by (subst find_empty_slot.simps) (simp add: a_slot_def)
next
  case (Suc k)
  then have i: "i < length tab" by simp
  then obtain cells rest where c: "file_descriptors s = Some cells" "cells = map Some tab @ rest"
    using assms(1) by (cases "file_descriptors s") (auto simp: cells_ok_def)
  have get: "cget cells (int i) = Some (Some (tab ! i))"
    using i unfolding c(2) by (simp add: cget_def nth_append)
  have d: "drop i tab = tab ! i # drop (Suc i) tab" using i by (simp add: Cons_nth_drop_Suc)
  have IH: "find_empty_slot (file_descriptors s) (int (Suc i)) (int (length tab)) =
      Some (if Suc i + a_slot (drop (Suc i) tab) < length tab then int (Suc i + a_slot (drop (Suc i) tab)) else -1)"
    using Suc.hyps(1) [of "Suc i"] Suc.hyps(2) i by simp
  show ?case
  proof (cases "tab ! i = None")
    case True
    then show ?thesis using i c(1) get d by (subst find_empty_slot.simps) (simp add: a_slot_def)
  next
    case False
    then have "find_empty_slot (file_descriptors s) (int i) (int (length tab)) =
        find_empty_slot (file_descriptors s) (int (Suc i)) (int (length tab))"
      using i c(1) get False by (subst find_empty_slot.simps) (auto simp: add.commute)
    then show ?thesis using IH d False by (simp add: a_slot_def)
  qed
qed

lemma a_slot_le: "a_slot xs \<le> length xs"
  by (simp add: a_slot_def length_takeWhile_le)

lemma length_put_slot: "length (put_slot x tab) = (if a_slot tab < length tab then length tab else Suc (length tab))"
  by (simp add: put_slot_def)

lemma put_slot_nth:
  assumes "j < length (put_slot x tab)"
  shows "put_slot x tab ! j = (if j = a_slot tab then Some x else tab ! j)"
  using assms a_slot_le [of tab] by (auto simp: put_slot_def nth_append nth_list_update split: if_splits)

lemma a_slot_none: "a_slot tab < length tab \<Longrightarrow> tab ! a_slot tab = None"
  unfolding a_slot_def using nth_length_takeWhile [of "\<lambda>x. x \<noteq> None" tab] by simp

lemma add_at_the_end:
  assumes ok: "cells_ok tab s" and d: "descs s d = Some dn" and small: "length tab < 2 ^ 30"
  obtains cells cap where
    "add_file_descriptor_at_the_end d s = Some (int (length tab),
      s\<lparr>descs := (descs s)(d \<mapsto> dn\<lparr>d_index := int (length tab)\<rparr>), file_descriptors := Some cells,
        file_descriptor_count := int (Suc (length tab)), file_descriptor_capacity := cap\<rparr>)"
    "cap = int (length cells)" "\<exists>rest. cells = map Some (tab @ [Some d]) @ rest"
proof -
  have count: "file_descriptor_count s = int (length tab)" using ok by (simp add: cells_ok_def)
  have set_last: "cset (map Some tab @ r # rs) (int (length tab)) v = Some (map Some tab @ v # rs)"
    for r :: "ptr option option" and rs v
    by (intro cset_middle) simp
  show ?thesis
  proof (cases "file_descriptors s")
    case None
    then have "tab = []" using ok by (simp add: cells_ok_def)
    then have "add_file_descriptor_at_the_end d s = Some (int (length tab),
      s\<lparr>descs := (descs s)(d \<mapsto> dn\<lparr>d_index := int (length tab)\<rparr>), file_descriptors := Some [Some (Some d)],
        file_descriptor_count := int (Suc (length tab)), file_descriptor_capacity := 1\<rparr>)"
      using None d by (simp add: add_file_descriptor_at_the_end_def set_slot_def set_desc_def cset_def)
    then show ?thesis by (rule that) (simp_all add: \<open>tab = []\<close>)
  next
    case (Some cells0)
    then obtain rest where c: "cells0 = map Some tab @ rest" "cells0 \<noteq> []"
      "file_descriptor_capacity s = int (length cells0)"
      using ok by (auto simp: cells_ok_def)
    show ?thesis
    proof (cases rest)
      case Nil
      then have ne: "tab \<noteq> []" and cap: "file_descriptor_capacity s = int (length tab)" using c by auto
      have "int_ok (int (length tab) * 2)" using small by (simp add: int_ok_def)
      moreover have grown: "cells0 @ replicate (nat (int (length tab) * 2) - length cells0) None =
          map Some tab @ None # replicate (length tab - 1) None"
      proof -
        have "nat (int (length tab) * 2) - length cells0 = Suc (length tab - 1)"
          using ne c(1) Nil by (cases tab) auto
        then show ?thesis using c(1) Nil by simp
      qed
      ultimately have "add_file_descriptor_at_the_end d s = Some (int (length tab),
        s\<lparr>descs := (descs s)(d \<mapsto> dn\<lparr>d_index := int (length tab)\<rparr>),
          file_descriptors := Some (map Some tab @ Some (Some d) # replicate (length tab - 1) None),
          file_descriptor_count := int (Suc (length tab)), file_descriptor_capacity := int (length tab) * 2\<rparr>)"
        using Some d count cap set_last
        by (simp add: add_file_descriptor_at_the_end_def set_slot_def set_desc_def Let_def)
      then show ?thesis by (rule that) (use ne in \<open>auto simp: Suc_le_eq of_nat_diff\<close>)
    next
      case (Cons r rs)
      then have "file_descriptor_capacity s \<noteq> file_descriptor_count s" using c count by simp
      then have "add_file_descriptor_at_the_end d s = Some (int (length tab),
        s\<lparr>descs := (descs s)(d \<mapsto> dn\<lparr>d_index := int (length tab)\<rparr>),
          file_descriptors := Some (map Some tab @ Some (Some d) # rs),
          file_descriptor_count := int (Suc (length tab)), file_descriptor_capacity := int (length cells0)\<rparr>)"
        using Some d count c Cons set_last
        by (simp add: add_file_descriptor_at_the_end_def set_slot_def set_desc_def Let_def)
      then show ?thesis by (rule that) (simp_all add: c(1) Cons)
    qed
  qed
qed

end
