(* ===== verification/User_FS_Open.thy ===== *)
theory User_FS_Open
  imports User_FS_Names
begin

text \<open>
  ufs_open implements its specification: the file is found or created at the head of the list,
  and a descriptor at position 0 takes the first empty slot of the table.
\<close>

section \<open>A new descriptor in the table\<close>

lemma add_file_descriptor_spec:
  assumes ok: "cells_ok tab s" and d: "descs s d = Some dn" and small: "length tab < 2 ^ 30"
  obtains cells cap where
    "add_file_descriptor d s = Some (int (a_slot tab),
      s\<lparr>descs := (descs s)(d \<mapsto> dn\<lparr>d_index := int (a_slot tab)\<rparr>), file_descriptors := Some cells,
        file_descriptor_count := int (length (put_slot d tab)), file_descriptor_capacity := cap\<rparr>)"
    "cap = int (length cells)" "\<exists>rest. cells = map Some (put_slot d tab) @ rest"
proof -
  have slot: "try_get_empty_file_descriptor_slot s =
      Some (if a_slot tab < length tab then int (a_slot tab) else -1)"
    using find_empty_slot_spec [OF ok, of 0] ok
    by (simp add: try_get_empty_file_descriptor_slot_def cells_ok_def)
  show ?thesis
  proof (cases "a_slot tab < length tab")
    case True
    then obtain cells rest where c: "file_descriptors s = Some cells" "cells = map Some tab @ rest"
      "file_descriptor_capacity s = int (length cells)"
      using ok by (cases "file_descriptors s") (auto simp: cells_ok_def)
    let ?cells = "cells[a_slot tab := Some (Some d)]"
    have cells: "?cells = map Some (put_slot d tab) @ rest"
      using True c(2) by (simp add: put_slot_def list_update_append map_update)
    have "add_file_descriptor d s = Some (int (a_slot tab),
      s\<lparr>descs := (descs s)(d \<mapsto> dn\<lparr>d_index := int (a_slot tab)\<rparr>), file_descriptors := Some ?cells\<rparr>)"
      using slot True d c by (simp add: add_file_descriptor_def set_desc_def set_slot_def cset_def)
    moreover have "file_descriptor_count s = int (length (put_slot d tab))"
      using ok True by (simp add: cells_ok_def length_put_slot)
    ultimately have "add_file_descriptor d s = Some (int (a_slot tab),
      s\<lparr>descs := (descs s)(d \<mapsto> dn\<lparr>d_index := int (a_slot tab)\<rparr>), file_descriptors := Some ?cells,
        file_descriptor_count := int (length (put_slot d tab)), file_descriptor_capacity := int (length cells)\<rparr>)"
      using c(3) by simp
    then show ?thesis
    proof (rule that)
      show "\<exists>rest. ?cells = map Some (put_slot d tab) @ rest" using cells by blast
    qed simp
  next
    case False
    then have "a_slot tab = length tab" "put_slot d tab = tab @ [Some d]"
      using a_slot_le [of tab] by (simp_all add: put_slot_def)
    moreover have "add_file_descriptor d s = add_file_descriptor_at_the_end d s"
      using slot False by (simp add: add_file_descriptor_def)
    ultimately show ?thesis
      using that add_at_the_end [OF ok d small] by (metis length_append_singleton)
  qed
qed

lemma table_inv_put:
  assumes inv: "table_inv tab s" and d: "descs s d = None"
    and t: "descs t = (descs s)(d \<mapsto> dn)" "d_index dn = int (a_slot tab)"
      "file_descriptor_count t = int (length (put_slot d tab))" "file_descriptors t = Some cells"
      "file_descriptor_capacity t = int (length cells)" "cells = map Some (put_slot d tab) @ rest"
  shows "table_inv (put_slot d tab) t"
proof -
  have "put_slot d tab \<noteq> []" by (auto simp: put_slot_def)
  then have "case file_descriptors t of None \<Rightarrow> put_slot d tab = [] | Some cells \<Rightarrow>
      file_descriptor_capacity t = int (length cells) \<and> cells \<noteq> [] \<and> (\<exists>rest. cells = map Some (put_slot d tab) @ rest)"
    using t by auto
  moreover have "0 \<le> d_index en \<and> nat (d_index en) < length (put_slot d tab) \<and>
      put_slot d tab ! nat (d_index en) = Some e" if e: "descs t e = Some en" for e en
  proof (cases "e = d")
    case True
    then have "en = dn" using e t(1) by simp
    moreover have "a_slot tab < length (put_slot d tab)" using a_slot_le [of tab] by (auto simp: put_slot_def)
    ultimately show ?thesis using True t(2) by (simp add: put_slot_nth)
  next
    case False
    then have es: "descs s e = Some en" using e t(1) by simp
    then have i: "0 \<le> d_index en" "nat (d_index en) < length tab" "tab ! nat (d_index en) = Some e"
      using inv by (auto simp: table_inv_def)
    then have "nat (d_index en) \<noteq> a_slot tab" using a_slot_none [of tab] by auto
    moreover have "nat (d_index en) < length (put_slot d tab)" using i(2) by (simp add: length_put_slot)
    ultimately show ?thesis using i by (simp add: put_slot_nth)
  qed
  moreover have "\<exists>en. descs t e = Some en \<and> d_index en = int j"
    if j: "j < length (put_slot d tab)" "put_slot d tab ! j = Some e" for j e
  proof (cases "j = a_slot tab")
    case True
    then have "e = d" using j by (simp add: put_slot_nth)
    then show ?thesis using True t(1,2) by simp
  next
    case False
    then have "tab ! j = Some e" "j < length tab"
      using j a_slot_le [of tab] by (auto simp: put_slot_nth length_put_slot split: if_splits)
    then obtain en where en: "descs s e = Some en" "d_index en = int j" using table_desc [OF inv] by metis
    then have "e \<noteq> d" using d by auto
    then show ?thesis using en t(1) by simp
  qed
  moreover have "file_descriptor_count t = int (length (put_slot d tab))" by (rule t(3))
  ultimately show ?thesis unfolding table_inv_def by blast
qed

lemma a_slot_fds:
  assumes "table_inv tab s"
  shows "a_slot (fds_abs tab s) = a_slot tab"
proof -
  have same: "(Option.bind x (desc_abs s) \<noteq> None) = (x \<noteq> None)" if hx: "x \<in> set tab" for x
  proof (cases x)
    case (Some d)
    then obtain i where "i < length tab" "tab ! i = Some d" using hx by (metis in_set_conv_nth)
    then obtain dn where "descs s d = Some dn" using table_desc [OF assms] by metis
    then show ?thesis using Some by (simp add: desc_abs_def)
  qed simp
  have "takeWhile (\<lambda>x. x \<noteq> None) (map f xs) = map f (takeWhile (\<lambda>x. f x \<noteq> None) xs)" for xs and f :: "ptr option \<Rightarrow> adesc option"
    by (induction xs) auto
  then show ?thesis
    using takeWhile_cong [OF refl, of tab "\<lambda>x. Option.bind x (desc_abs s) \<noteq> None" "\<lambda>x. x \<noteq> None"] same
    by (simp add: a_slot_def fds_abs_def)
qed

lemma fds_abs_put:
  assumes inv: "table_inv tab s" and d: "descs s d = None" and t: "desc_abs t = (desc_abs s)(d \<mapsto> a)"
  shows "fds_abs (put_slot d tab) t = put_slot a (fds_abs tab s)"
proof (rule nth_equalityI)
  note slot = a_slot_fds [OF inv]
  show "length (fds_abs (put_slot d tab) t) = length (put_slot a (fds_abs tab s))"
    by (simp add: length_put_slot slot)
  fix j assume j: "j < length (fds_abs (put_slot d tab) t)"
  show "fds_abs (put_slot d tab) t ! j = put_slot a (fds_abs tab s) ! j"
  proof (cases "j = a_slot tab")
    case True
    then have "j < length (put_slot d tab)" "j < length (put_slot a (fds_abs tab s))"
      using j a_slot_le [of tab] by (simp_all add: length_put_slot slot)
    then show ?thesis using True t by (simp add: fds_abs_nth put_slot_nth slot)
  next
    case False
    then have jl: "j < length tab"
      using j a_slot_le [of tab] by (auto simp: length_put_slot split: if_splits)
    have "tab ! j \<noteq> Some d" using table_desc [OF inv jl, of d] d by fastforce
    then have "Option.bind (tab ! j) (desc_abs t) = Option.bind (tab ! j) (desc_abs s)"
      using t by (cases "tab ! j") auto
    then show ?thesis using False j jl by (simp add: fds_abs_nth put_slot_nth slot length_put_slot)
  qed
qed

section \<open>A descriptor on a file\<close>

definition attached :: "ptr \<Rightarrow> ufile \<Rightarrow> int \<Rightarrow> nat \<Rightarrow> ptr option option list \<Rightarrow> int \<Rightarrow> ufs \<Rightarrow> ufs" where
  "attached f n flags i cells count' s =
     s\<lparr>next_ptr := next_ptr s + 1,
       files := (files s)(f \<mapsto> n\<lparr>refs := refs n + 1\<rparr>),
       descs := (descs s)(next_ptr s \<mapsto> \<lparr>d_file = f, d_index = int i, current_block = block_list n,
         block_offset = 0, d_flags = flags\<rparr>),
       file_descriptors := Some cells, file_descriptor_count := count',
       file_descriptor_capacity := int (length cells)\<rparr>"

lemma attach_run:
  assumes inv: "ufs_inv bl fl tab s" and f: "files s f = Some n" and small: "length tab < 2 ^ 30"
  obtains cells rest where "do {
      t \<leftarrow> set_file f (\<lambda>n. n\<lparr>refs := refs n + 1\<rparr>) (s\<lparr>next_ptr := next_ptr s + 1,
         descs := (descs s)(next_ptr s \<mapsto> \<lparr>d_file = f, d_index = 0,
           current_block = block_list n, block_offset = 0, d_flags = flags\<rparr>)\<rparr>);
      add_file_descriptor (next_ptr s) t } = Some (int (a_slot tab),
        attached f n flags (a_slot tab) cells (int (length (put_slot (next_ptr s) tab))) s)"
    "cells = map Some (put_slot (next_ptr s) tab) @ rest"
proof -
  note parts = ufs_inv_parts [OF inv]
  let ?d = "next_ptr s"
  let ?dn = "\<lparr>d_file = f, d_index = 0, current_block = block_list n, block_offset = 0, d_flags = flags\<rparr>"
  let ?u = "s\<lparr>next_ptr := ?d + 1, descs := (descs s)(?d \<mapsto> ?dn), files := (files s)(f \<mapsto> n\<lparr>refs := refs n + 1\<rparr>)\<rparr>"
  have "cells_ok tab ?u" using parts(4) by (cases "file_descriptors s") (auto simp: table_inv_def cells_ok_def)
  moreover have "descs ?u ?d = Some ?dn" by simp
  ultimately obtain cells cap where "add_file_descriptor ?d ?u = Some (int (a_slot tab),
      ?u\<lparr>descs := (descs ?u)(?d \<mapsto> ?dn\<lparr>d_index := int (a_slot tab)\<rparr>), file_descriptors := Some cells,
        file_descriptor_count := int (length (put_slot ?d tab)), file_descriptor_capacity := cap\<rparr>)"
    "cap = int (length cells)" "\<exists>rest. cells = map Some (put_slot ?d tab) @ rest"
    using add_file_descriptor_spec [OF _ _ small] by metis
  then show ?thesis using that f by (auto simp: set_file_def attached_def)
qed

lemma attach_inv:
  assumes inv: "ufs_inv bl fl tab s" and f: "files s f = Some n"
    and cells: "cells = map Some (put_slot (next_ptr s) tab) @ rest"
    and t: "t = attached f n flags (a_slot tab) cells (int (length (put_slot (next_ptr s) tab))) s"
  shows "ufs_inv bl fl (put_slot (next_ptr s) tab) t" "file_abs bl t = file_abs bl s"
    "fds_abs (put_slot (next_ptr s) tab) t =
      put_slot \<lparr>a_file = f, a_pos = 0, a_flags = flags\<rparr> (fds_abs tab s)" "errno t = errno s"
proof -
  note parts = ufs_inv_parts [OF inv]
  let ?d = "next_ptr s"
  let ?dn = "\<lparr>d_file = f, d_index = int (a_slot tab), current_block = block_list n, block_offset = 0, d_flags = flags\<rparr>"
  have td: "descs t = (descs s)(?d \<mapsto> ?dn)" by (simp add: t attached_def)
  have tf: "files t = (files s)(f \<mapsto> n\<lparr>refs := refs n + 1\<rparr>)" by (simp add: t attached_def)
  have tr: "blocks t = blocks s" "next_ptr t = next_ptr s + 1" "file_list t = file_list s"
    by (simp_all add: t attached_def)
  have fresh: "descs s ?d = None" using parts(2) by (auto simp: fresh_inv_def)
  have fi: "file_inv (blocks s) n (bl f)" by (rule blocks_invD(1) [OF parts(1) f])
  obtain ys where bl: "bl f = block_list n # ys" using fi by (cases "bl f") (auto simp: file_inv_def)
  obtain b where b: "blocks s (block_list n) = Some b" "block_ok 0 (ys = []) b"
    using fi bl by (auto simp: file_inv_def split: option.splits)
  have "blocks_inv bl t" by (rule blocks_inv_cong [OF parts(1) tr(1)]) (use tf f in auto)
  moreover have "fresh_inv t"
  proof -
    have "dom (files t) = dom (files s)" "dom (descs t) = insert ?d (dom (descs s))" using tf td f by auto
    then show ?thesis using parts(2) tr by (auto simp: fresh_inv_def less_Suc_eq)
  qed
  moreover have "descs_inv bl t"
    unfolding descs_inv_def
  proof (intro allI impI)
    fix e en assume e: "descs t e = Some en"
    show "desc_ok bl t en"
    proof (cases "e = ?d")
      case True
      then have "en = ?dn" using e td by simp
      then show ?thesis
        by (intro desc_okI [where xs = "[]" and ys = ys]) (use bl tf tr b in \<open>auto simp: block_ok_def\<close>)
    next
      case False
      then have "desc_ok bl s en" using e td parts(3) by (auto simp: descs_inv_def)
      then show ?thesis using tf tr f by (auto simp: desc_ok_def)
    qed
  qed
  moreover have "table_inv (put_slot ?d tab) t"
    by (rule table_inv_put [OF parts(4) fresh td _ _ _ _ cells]) (simp_all add: t attached_def)
  moreover have "refs_inv t"
  proof -
    have fin: "finite (users s g)" for g
      using parts(5) by (auto simp: refs_inv_def users_def intro: rev_finite_subset)
    have "users t g = (if g = f then insert ?d (users s g) else users s g)" for g
      using td fresh by (auto simp: users_def)
    moreover have "?d \<notin> users s g" for g using fresh by (simp add: users_def)
    ultimately show ?thesis using parts(5) tf f td fin by (auto simp: refs_inv_def)
  qed
  moreover have "list_inv fl t"
  proof -
    have "refs n \<ge> 0" using parts(5) f by (simp add: refs_inv_def)
    moreover have "file_seg (files t) None (file_list t) fl None"
      using list_invD(1) [OF parts(6)] dlseg_links_cong [of fl f_next f_prev "files t" "files s"] tf tr f
      by auto
    moreover have "f_name (the (files t g)) = f_name (the (files s g))" for g using tf f by simp
    ultimately show ?thesis using parts(6) tf f by (auto simp: list_inv_def)
  qed
  ultimately show "ufs_inv bl fl (put_slot ?d tab) t" by (simp add: ufs_inv_def)
  show "file_abs bl t = file_abs bl s" by (rule ext) (use f in \<open>simp add: file_abs_def tf tr(1)\<close>)
  have "desc_abs t = (desc_abs s)(?d \<mapsto> \<lparr>a_file = f, a_pos = 0, a_flags = flags\<rparr>)"
    by (rule ext) (use b in \<open>simp add: desc_abs_def td tr(1) desc_pos_def block_ok_def\<close>)
  then show "fds_abs (put_slot ?d tab) t = put_slot \<lparr>a_file = f, a_pos = 0, a_flags = flags\<rparr> (fds_abs tab s)"
    by (rule fds_abs_put [OF parts(4) fresh])
  show "errno t = errno s" by (simp add: t attached_def)
qed

section \<open>A new file\<close>

lemma create_inv:
  assumes inv: "ufs_inv bl fl tab s" and new: "\<forall>g\<in>set fl. f_name (the (files s g)) \<noteq> name"
  obtains u f b n where "create_file name s = Some (f, u)" "files s f = None" "files u f = Some n"
    "ufs_inv (bl(f := [b])) (f # fl) tab u"
    "file_abs (bl(f := [b])) u = (file_abs bl s)(f \<mapsto> \<lparr>a_name = name, a_data = []\<rparr>)"
    "desc_abs u = desc_abs s" "errno u = errno s"
proof -
  note parts = ufs_inv_parts [OF inv]
  let ?b = "next_ptr s" and ?f = "next_ptr s + 1"
  let ?block = "\<lparr>memory = replicate 512 None, occupied = 0, b_next = None, b_prev = None, b_index = 0\<rparr> :: block"
  let ?n = "\<lparr>block_list = ?b, last_block = ?b, refs = 0, f_name = name, f_next = file_list s,
    f_prev = None, marked_for_deletion = False\<rparr>"
  define h where "h = (case file_list s of None \<Rightarrow> (files s)(?f \<mapsto> ?n)
    | Some y \<Rightarrow> (files s)(?f \<mapsto> ?n, y \<mapsto> (the (files s y))\<lparr>f_prev := Some ?f\<rparr>))"
  define u where "u = s\<lparr>next_ptr := ?b + 2, blocks := (blocks s)(?b \<mapsto> ?block), files := h, file_list := Some ?f\<rparr>"
  have fresh: "blocks s ?b = None" "files s ?f = None" "descs s ?f = None" "?f \<notin> set fl"
  proof -
    have "p < ?b" if "p \<in> dom (blocks s) \<union> dom (files s) \<union> dom (descs s)" for p
      using parts(2) that by (auto simp: fresh_inv_def)
    then have "?b \<notin> dom (blocks s)" "?f \<notin> dom (files s)" "?f \<notin> dom (descs s)" by fastforce+
    then show "blocks s ?b = None" "files s ?f = None" "descs s ?f = None" "?f \<notin> set fl"
      using list_invD(3) [OF parts(6)] by auto
  qed
  have head: "y \<in> set fl \<and> y \<noteq> ?f \<and> y \<in> dom (files s)" if "file_list s = Some y" for y
    using that list_invD(3,4) [OF parts(6)] fresh(4) by (cases fl) auto
  have run: "create_file name s = Some (?f, u)"
  proof (cases "file_list s")
    case None
    then show ?thesis by (simp add: create_file_def u_def h_def BLOCK_SIZE_def Let_def)
  next
    case (Some y)
    then obtain m where "files s y = Some m" "y \<noteq> ?f" using head by blast
    then show ?thesis using Some by (simp add: create_file_def u_def h_def set_file_def BLOCK_SIZE_def Let_def)
  qed
  have hf: "h ?f = Some ?n" using head by (auto simp: h_def split: option.splits)
  have hg: "\<exists>m. files s g = Some m \<and> k = m\<lparr>f_prev := f_prev k\<rparr> \<and> (g \<notin> set fl \<longrightarrow> k = m)"
    if "g \<noteq> ?f" "h g = Some k" for g k
    using that head by (fastforce simp: h_def split: option.splits if_splits)
  have dom: "dom h = insert ?f (dom (files s))" using head by (auto simp: h_def split: option.splits)
  let ?bl = "bl(?f := [?b])"
  have bb: "?b \<notin> set (bl g)" if "g \<in> dom (files s)" for g
    using that blocks_invD(2) [OF parts(1)] fresh(1) by blast
  have fi_f: "file_inv (blocks u) ?n [?b]"
    by (simp add: file_inv_def u_def block_ok_def block_bytes_def MAX_FILE_SIZE_def)
  have own: "owned u ?bl g = (if g = ?f then {?b} else owned s bl g)" for g
    using dom by (auto simp: owned_def u_def)
  have "blocks_inv ?bl u"
  proof -
    have "file_inv (blocks u) k (?bl g)" if k: "files u g = Some k" for g k
    proof (cases "g = ?f")
      case True
      then show ?thesis using k hf fi_f by (simp add: u_def)
    next
      case False
      then obtain m where m: "files s g = Some m" "k = m\<lparr>f_prev := f_prev k\<rparr>" using hg [of g k] k by (auto simp: u_def)
      have kb: "block_list k = block_list m" "last_block k = last_block m"
        by (subst m(2), simp)+
      have "file_inv (blocks u) k (bl g) = file_inv (blocks s) m (bl g)"
        by (rule file_inv_cong) (use bb [of g] m(1) kb in \<open>auto simp: u_def\<close>)
      then show ?thesis using blocks_invD(1) [OF parts(1) m(1)] False by simp
    qed
    moreover have "owned u ?bl g \<inter> owned u ?bl k = {}" if "g \<noteq> k" for g k
    proof -
      have "?b \<notin> owned s bl g" for g using bb by (simp add: owned_def)
      then show ?thesis using that owned_disjoint [OF parts(1) that] unfolding own by (auto split: if_splits)
    qed
    moreover have "dom (blocks u) = (\<Union>g. owned u ?bl g)"
    proof -
      have "owned s bl ?f = {}" using fresh(2) by (auto simp: owned_def)
      then have "(\<Union>g. owned u ?bl g) = insert ?b (\<Union>g. owned s bl g)"
        unfolding own by (fastforce split: if_splits)
      moreover have "dom (blocks s) = (\<Union>g. owned s bl g)" using parts(1) by (simp add: blocks_inv_def)
      ultimately show ?thesis by (simp add: u_def)
    qed
    ultimately show ?thesis unfolding blocks_inv_def by blast
  qed
  moreover have "fresh_inv u" using parts(2) dom by (auto simp: fresh_inv_def u_def less_Suc_eq)
  moreover have fil: "d_file en \<in> dom (files s) \<and> d_file en \<noteq> ?f \<and> current_block en \<noteq> ?b \<and> desc_ok bl s en"
    if "descs s e = Some en" for e en
  proof -
    have "desc_ok bl s en" using parts(3) that by (auto simp: descs_inv_def)
    then have d: "d_file en \<in> dom (files s)" "current_block en \<in> set (bl (d_file en))" "desc_ok bl s en"
      by (auto simp: desc_ok_def)
    then have "current_block en \<noteq> ?b" using bb [OF d(1)] by metis
    then show ?thesis using d fresh(2) by auto
  qed
  then have "descs_inv ?bl u" using dom by (force simp: descs_inv_def desc_ok_def u_def)
  moreover have "table_inv tab u" by (rule table_inv_same [OF parts(4)]) (simp_all add: u_def)
  moreover have "refs_inv u"
  proof -
    have users: "users u g = users s g" for g by (simp add: users_def u_def)
    have none: "users s ?f = {}" using fil by (auto simp: users_def)
    have "refs k = int (card (users u g))" if k: "files u g = Some k" for g k
    proof (cases "g = ?f")
      case True
      then show ?thesis using k hf none users by (simp add: u_def)
    next
      case False
      then obtain m where m: "files s g = Some m" "k = m\<lparr>f_prev := f_prev k\<rparr>" using hg [of g k] k by (auto simp: u_def)
      have "refs k = refs m" by (subst m(2), simp)
      then show ?thesis using parts(5) m(1) users by (simp add: refs_inv_def)
    qed
    then show ?thesis using parts(5) by (simp add: refs_inv_def u_def)
  qed
  moreover have "list_inv (?f # fl) u"
  proof -
    note L = list_invD [OF parts(6)]
    have seg: "file_seg h None (Some ?f) (?f # fl) None"
      by (rule flist.push_front [OF L(1,2) fresh(4)]) (simp_all add: h_def)
    moreover have names: "f_name (the (h g)) = f_name (the (files s g))" if gl: "g \<in> set fl" for g
    proof -
      obtain k where k: "h g = Some k" using gl L(3) dom by blast
      have "g \<noteq> ?f" using gl fresh(4) by blast
      then obtain m where m: "files s g = Some m" "k = m\<lparr>f_prev := f_prev k\<rparr>" using hg [OF _ k] by blast
      have "f_name k = f_name m" by (subst m(2), simp)
      then show ?thesis using k m(1) by simp
    qed
    have "inj_on (\<lambda>g. f_name (the (files s g))) (set fl)" using parts(6) by (simp add: list_inv_def)
    then have "inj_on (\<lambda>g. f_name (the (h g))) (set fl)"
      using names inj_on_cong [of "set fl" "\<lambda>g. f_name (the (h g))" "\<lambda>g. f_name (the (files s g))"] by blast
    moreover have "f_name (the (h ?f)) \<notin> (\<lambda>g. f_name (the (h g))) ` set fl"
    proof
      assume "f_name (the (h ?f)) \<in> (\<lambda>g. f_name (the (h g))) ` set fl"
      then obtain g where "g \<in> set fl" "f_name (the (h g)) = name" using hf by force
      then show False using names new by metis
    qed
    ultimately have "inj_on (\<lambda>g. f_name (the (h g))) (set (?f # fl))"
      unfolding set_simps inj_on_insert by blast
    moreover have "(g \<in> set (?f # fl) \<longleftrightarrow> \<not> marked_for_deletion k) \<and>
        (marked_for_deletion k \<longrightarrow> f_next k = None \<and> f_prev k = None \<and> 0 < refs k)" if k: "h g = Some k" for g k
    proof (cases "g = ?f")
      case True
      then show ?thesis using k hf by simp
    next
      case False
      then obtain m where m: "files s g = Some m" "k = m\<lparr>f_prev := f_prev k\<rparr>" "g \<notin> set fl \<longrightarrow> k = m"
        using hg [OF _ k] by blast
      have "marked_for_deletion k = marked_for_deletion m" by (subst m(2), simp)
      then show ?thesis using m(1,3) parts(6) False by (auto simp: list_inv_def)
    qed
    ultimately show ?thesis using L(2) fresh(4) seg by (simp add: list_inv_def u_def)
  qed
  ultimately have "ufs_inv ?bl (?f # fl) tab u" by (simp add: ufs_inv_def)
  moreover have "file_abs ?bl u = (file_abs bl s)(?f \<mapsto> \<lparr>a_name = name, a_data = []\<rparr>)"
  proof
    fix g
    show "file_abs ?bl u g = ((file_abs bl s)(?f \<mapsto> \<lparr>a_name = name, a_data = []\<rparr>)) g"
    proof (cases "g = ?f")
      case True
      then show ?thesis using hf by (simp add: file_abs_def u_def block_bytes_def)
    next
      case F: False
      show ?thesis
      proof (cases "h g")
        case None
        then have "files s g = None" using dom F by blast
        then show ?thesis using None F by (simp add: file_abs_def u_def)
      next
        case (Some k)
        then obtain m where m: "files s g = Some m" "k = m\<lparr>f_prev := f_prev k\<rparr>" using hg [OF F] by blast
        have "f_name k = f_name m" by (subst m(2), simp)
        then show ?thesis using Some m(1) F bb [of g] by (simp add: file_abs_def u_def domI)
      qed
    qed
  qed
  moreover have "desc_abs u = desc_abs s"
  proof
    fix e show "desc_abs u e = desc_abs s e"
      using fil [of e] by (cases "descs s e") (auto simp: desc_abs_def desc_pos_def u_def)
  qed
  ultimately show ?thesis
    using that [OF run fresh(2), of ?n ?b] hf by (simp add: u_def)
qed


section \<open>ufs_open refines its specification\<close>

lemma open_refines:
  assumes inv: "ufs_inv bl fl tab s" and small: "length tab < 2 ^ 30"
  shows "\<exists>f t bl' fl' tab'. file_abs bl s f = None \<and>
    ufs_open name flags s = Some (fst (a_open f name flags (ufs_abs bl fl tab s)), t) \<and>
    ufs_inv bl' fl' tab' t \<and> ufs_abs bl' fl' tab' t = snd (a_open f name flags (ufs_abs bl fl tab s))"
proof -
  note parts = ufs_inv_parts [OF inv]
  have found: "try_get_file_by_filename name s = Some (a_find name (ufs_abs bl fl tab s))"
    by (rule find_abs [OF parts(6)])
  show ?thesis
  proof (cases "a_find name (ufs_abs bl fl tab s)")
    case (Some g)
    have "g \<in> set fl" using a_find_listed [OF Some] by (simp add: ufs_abs_def)
    then obtain n where n: "files s g = Some n" using list_invD(3) [OF parts(6)] by auto
    obtain cells rest where run: "do {
        t \<leftarrow> set_file g (\<lambda>n. n\<lparr>refs := refs n + 1\<rparr>) (s\<lparr>next_ptr := next_ptr s + 1,
           descs := (descs s)(next_ptr s \<mapsto> \<lparr>d_file = g, d_index = 0,
             current_block = block_list n, block_offset = 0, d_flags = flags\<rparr>)\<rparr>);
        add_file_descriptor (next_ptr s) t } = Some (int (a_slot tab),
          attached g n flags (a_slot tab) cells (int (length (put_slot (next_ptr s) tab))) s)"
      "cells = map Some (put_slot (next_ptr s) tab) @ rest"
      by (rule attach_run [OF inv n small])
    define t where "t = attached g n flags (a_slot tab) cells (int (length (put_slot (next_ptr s) tab))) s"
    note T = attach_inv [OF inv n run(2) t_def]
    have "ufs_open name flags s = Some (int (a_slot tab), t)"
      using found Some n run(1) by (simp add: ufs_open_def t_def Let_def)
    moreover have "a_open f name flags (ufs_abs bl fl tab s) =
        (int (a_slot tab), ufs_abs bl fl (put_slot (next_ptr s) tab) t)" for f
      using Some T(2-4) a_slot_fds [OF parts(4)]
      by (simp add: a_open_def a_add_fd_def) (simp add: ufs_abs_def)
    moreover have "file_abs bl s (next_ptr s) = None" using parts(2) by (auto simp: fresh_inv_def file_abs_def)
    ultimately show ?thesis using T(1) by (intro exI conjI; (assumption | simp))
  next
    case None
    show ?thesis
    proof (cases "specific_flag_is_present flags UFS_CREATE")
      case False
      have "file_abs bl s (next_ptr s) = None" using parts(2) by (auto simp: fresh_inv_def file_abs_def)
      then show ?thesis using False None found throw_error_abs [OF inv, of UFS_ERR_NO_FILE]
        by (auto simp: ufs_open_def a_open_def a_fail_def)
    next
      case True
      have "List.find (\<lambda>f. f_name (the (files s f)) = name) fl = None"
        using find_file_spec [OF list_invD(1) [OF parts(6)], of name] found None
        by (simp add: try_get_file_by_filename_def)
      then have new: "\<forall>g\<in>set fl. f_name (the (files s g)) \<noteq> name" by (simp add: find_None_iff)
      obtain u f b n where u: "create_file name s = Some (f, u)" "files s f = None" "files u f = Some n"
        "ufs_inv (bl(f := [b])) (f # fl) tab u"
        "file_abs (bl(f := [b])) u = (file_abs bl s)(f \<mapsto> \<lparr>a_name = name, a_data = []\<rparr>)"
        "desc_abs u = desc_abs s" "errno u = errno s"
        by (rule create_inv [OF inv new])
      obtain cells rest where run: "do {
          t \<leftarrow> set_file f (\<lambda>n. n\<lparr>refs := refs n + 1\<rparr>) (u\<lparr>next_ptr := next_ptr u + 1,
             descs := (descs u)(next_ptr u \<mapsto> \<lparr>d_file = f, d_index = 0,
               current_block = block_list n, block_offset = 0, d_flags = flags\<rparr>)\<rparr>);
          add_file_descriptor (next_ptr u) t } = Some (int (a_slot tab),
            attached f n flags (a_slot tab) cells (int (length (put_slot (next_ptr u) tab))) u)"
        "cells = map Some (put_slot (next_ptr u) tab) @ rest"
        by (rule attach_run [OF u(4,3) small])
      define t where "t = attached f n flags (a_slot tab) cells (int (length (put_slot (next_ptr u) tab))) u"
      note T = attach_inv [OF u(4,3) run(2) t_def]
      have "ufs_open name flags s = Some (int (a_slot tab), t)"
        using found None True u(1,3) run(1) by (simp add: ufs_open_def t_def Let_def)
      moreover have "a_open f name flags (ufs_abs bl fl tab s) =
          (int (a_slot tab), ufs_abs (bl(f := [b])) (f # fl) (put_slot (next_ptr u) tab) t)"
        using None True T(2-4) u(5-7) a_slot_fds [OF parts(4)] fds_abs_same [OF u(6), of tab]
        by (simp add: a_open_def a_add_fd_def a_create_def) (simp add: ufs_abs_def)
      moreover have "file_abs bl s f = None" using u(2) by (simp add: file_abs_def)
      ultimately show ?thesis
        using T(1) by (intro exI [of _ f] exI [of _ t] exI [of _ "bl(f := [b])"] exI [of _ "f # fl"]
          exI [of _ "put_slot (next_ptr u) tab"]) simp
    qed
  qed
qed

end
