(* ===== verification/User_FS_Resize.thy ===== *)
theory User_FS_Resize
  imports User_FS_Open
begin

text \<open>
  Shrinking a file: the blocks behind the new end are freed, the descriptors behind it move to it,
  and what is left is the prefix of the file.
\<close>

section \<open>Blocks by position\<close>

lemma block_at:
  assumes "file_inv h fn bs" "j < length bs"
  obtains n where "h (bs ! j) = Some n" "b_index n = int j" "block_ok (int j) (Suc j = length bs) n"
    "b_prev n = (if j = 0 then None else Some (bs ! (j - 1)))"
proof -
  have split: "bs = take j bs @ bs ! j # drop (Suc j) bs" using assms(2) by (simp add: id_take_nth_drop)
  have fi: "file_inv h fn (take j bs @ bs ! j # drop (Suc j) bs)" using assms(1) split by simp
  have len: "length (take j bs) = j" "drop (Suc j) bs = [] \<longleftrightarrow> Suc j = length bs" using assms(2) by auto
  obtain n where n: "h (bs ! j) = Some n" "block_ok (int j) (Suc j = length bs) n" "b_index n = int j"
    by (rule file_inv_split [OF fi, unfolded len])
  have "b_prev n = last_or None (take j bs)"
    using fi n(1) by (auto simp: file_inv_def intro: dlseg_at)
  moreover have "last_or None (take j bs) = (if j = 0 then None else Some (bs ! (j - 1)))"
  proof (cases j)
    case (Suc k)
    then have "take j bs = take k bs @ [bs ! k]" using assms(2) by (simp add: take_Suc_conv_app_nth)
    then show ?thesis using Suc by simp
  qed simp
  ultimately have "b_prev n = (if j = 0 then None else Some (bs ! (j - 1)))" by simp
  then show ?thesis by (rule that [OF n(1,3,2)])
qed

lemma data_length:
  assumes "file_inv h fn bs" "j < length bs" "h (bs ! j) = Some n"
  shows "length (bytes_of h (take j bs)) = 512 * j"
    "bytes_of h bs = bytes_of h (take j bs) @ block_bytes h (bs ! j) @ bytes_of h (drop (Suc j) bs)"
    "Suc j = length bs \<Longrightarrow> int (length (bytes_of h bs)) = 512 * int j + occupied n"
proof -
  have split: "bs = take j bs @ bs ! j # drop (Suc j) bs" using assms(2) by (simp add: id_take_nth_drop)
  have fi: "file_inv h fn (take j bs @ bs ! j # drop (Suc j) bs)" using assms(1) split by simp
  have "length (bytes_of h (take j bs)) = 512 * length (take j bs)" by (rule file_inv_split [OF fi])
  then show l: "length (bytes_of h (take j bs)) = 512 * j" using assms(2) by simp
  have "bytes_of h bs = bytes_of h (take j bs @ bs ! j # drop (Suc j) bs)" using split by simp
  then show d: "bytes_of h bs = bytes_of h (take j bs) @ block_bytes h (bs ! j) @ bytes_of h (drop (Suc j) bs)"
    by simp
  show "int (length (bytes_of h bs)) = 512 * int j + occupied n" if "Suc j = length bs"
  proof -
    obtain m where "h (bs ! j) = Some m" "block_ok (int j) (Suc j = length bs) m"
      by (rule block_at [OF assms(1,2)])
    then have "block_ok (int j) True n" using assms(3) that by simp
    then show ?thesis using l that assms(3) unfolding d by (simp add: block_bytes_def block_ok_def min_absorb2 nat_le_iff)
  qed
qed

text \<open>A file of n bytes has n div 512 + 1 blocks.\<close>

lemma block_count:
  assumes "file_inv h fn bs"
  shows "length bs = length (bytes_of h bs) div 512 + 1"
proof -
  let ?j = "length bs - 1"
  have j: "?j < length bs" "Suc ?j = length bs" using assms by (simp_all add: file_inv_def)
  obtain n where n: "h (bs ! ?j) = Some n" "block_ok (int ?j) (Suc ?j = length bs) n"
    by (rule block_at [OF assms j(1)])
  have "int (length (bytes_of h bs)) = 512 * int ?j + occupied n" "0 \<le> occupied n" "occupied n < 512"
    using data_length(3) [OF assms j(1) n(1) j(2)] n(2) j(2) by (auto simp: block_ok_def)
  then have "length (bytes_of h bs) div 512 = ?j" by linarith
  then show ?thesis using j by simp
qed

lemma find_new_last_block_spec:
  assumes fi: "file_inv h fn bs" and i: "int i * 512 \<le> new_size" "new_size < int (Suc i) * 512"
  shows "i \<le> j \<Longrightarrow> j < length bs \<Longrightarrow> find_new_last_block h new_size (bs ! j) = Some (bs ! i)"
proof (induction j)
  case 0
  obtain n where "h (bs ! 0) = Some n" "b_index n = int 0" by (rule block_at [OF fi 0(2)])
  then show ?case using 0 i by (subst find_new_last_block.simps) (simp add: int_ok_def)
next
  case (Suc j)
  obtain n where n: "h (bs ! Suc j) = Some n" "b_index n = int (Suc j)"
    "b_prev n = (if Suc j = 0 then None else Some (bs ! (Suc j - 1)))"
    by (rule block_at [OF fi Suc.prems(2)])
  have "length bs \<le> 204801"
  proof -
    have "int (length (bytes_of h bs)) \<le> 104857600" using fi by (simp add: file_inv_def MAX_FILE_SIZE_def)
    then show ?thesis using block_count [OF fi] by linarith
  qed
  then have ok: "int_ok (b_index n * BLOCK_SIZE)" using n(2) Suc.prems(2) by (simp add: int_ok_def BLOCK_SIZE_def)
  show ?case
  proof (cases "i = Suc j")
    case True
    then show ?thesis using n ok i by (subst find_new_last_block.simps) (simp add: BLOCK_SIZE_def)
  next
    case False
    then have "i \<le> j" "j < length bs" using Suc.prems by auto
    moreover have "b_index n * BLOCK_SIZE > new_size" using n(2) i \<open>i \<le> j\<close> by (simp add: BLOCK_SIZE_def)
    ultimately show ?thesis using n ok Suc.IH by (subst find_new_last_block.simps) simp
  qed
qed

lemma free_blocks_down_to_spec:
  assumes "distinct bs" "j < length bs" "i \<le> j"
    "\<And>m. i < m \<Longrightarrow> m \<le> j \<Longrightarrow> \<exists>n. h (bs ! m) = Some n \<and> b_prev n = Some (bs ! (m - 1))"
  shows "free_blocks_down_to (bs ! i) h (Some (bs ! j)) = Some (h |` (- set (drop (Suc i) (take (Suc j) bs))))"
  using assms(2-4)
proof (induction "j - i" arbitrary: j h)
  case 0
  then have "drop (Suc i) (take (Suc j) bs) = []" by simp
  then show ?case using 0 by (subst free_blocks_down_to.simps) (simp add: restrict_map_def)
next
  case (Suc k)
  then have j: "i < j" "j - 1 < length bs" "i \<le> j - 1" "k = j - 1 - i" "Suc (j - 1) = j" by auto
  have ne: "bs ! j \<noteq> bs ! i" using assms(1) Suc.prems(1) j(1) by (simp add: nth_eq_iff_index_eq)
  obtain n where n: "h (bs ! j) = Some n" "b_prev n = Some (bs ! (j - 1))" using Suc.prems(3) [of j] j by auto
  have step: "\<exists>n. (h(bs ! j := None)) (bs ! m) = Some n \<and> b_prev n = Some (bs ! (m - 1))"
    if m: "i < m" "m \<le> j - 1" for m
  proof -
    have "bs ! m \<noteq> bs ! j" using assms(1) Suc.prems(1) m j by (simp add: nth_eq_iff_index_eq)
    then show ?thesis using Suc.prems(3) [of m] m by simp
  qed
  have IH: "free_blocks_down_to (bs ! i) (h(bs ! j := None)) (Some (bs ! (j - 1))) =
      Some ((h(bs ! j := None)) |` (- set (drop (Suc i) (take (Suc (j - 1)) bs))))"
    by (rule Suc.hyps(1) [OF j(4,2,3) step])
  have "take (Suc j) bs = take j bs @ [bs ! j]" using Suc.prems(1) by (simp add: take_Suc_conv_app_nth)
  moreover have "Suc i - length (take j bs) = 0" using j(1) Suc.prems(1) by simp
  ultimately have "drop (Suc i) (take (Suc j) bs) = drop (Suc i) (take j bs) @ [bs ! j]" by simp
  then have "(h(bs ! j := None)) |` (- set (drop (Suc i) (take j bs))) = h |` (- set (drop (Suc i) (take (Suc j) bs)))"
    by (auto simp: restrict_map_def fun_eq_iff)
  then show ?case using IH n ne j(5) by (subst free_blocks_down_to.simps) simp
qed

section \<open>Moving the descriptors\<close>

definition moved :: "(ptr \<rightharpoonup> block) \<Rightarrow> ptr \<Rightarrow> ptr \<Rightarrow> int \<Rightarrow> int \<Rightarrow> filedesc \<Rightarrow> filedesc" where
  "moved h f q idx occ dn =
     (if d_file dn = f \<and> \<not> (b_index (the (h (current_block dn))) < idx \<or>
           b_index (the (h (current_block dn))) = idx \<and> block_offset dn \<le> occ)
      then dn\<lparr>current_block := q, block_offset := occ\<rparr> else dn)"

lemma moved_fields [simp]:
  "d_file (moved h f q idx occ dn) = d_file dn" "d_index (moved h f q idx occ dn) = d_index dn"
  "d_flags (moved h f q idx occ dn) = d_flags dn"
  by (simp_all add: moved_def)

lemma table_inv_desc:
  assumes "table_inv tab s" "descs s d = Some dn" "d_index dn' = d_index dn"
  shows "table_inv tab (s\<lparr>descs := (descs s)(d \<mapsto> dn')\<rparr>)"
proof -
  let ?t = "s\<lparr>descs := (descs s)(d \<mapsto> dn')\<rparr>"
  have "0 \<le> d_index en \<and> nat (d_index en) < length tab \<and> tab ! nat (d_index en) = Some e"
    if e: "descs ?t e = Some en" for e en
  proof -
    obtain en' where "descs s e = Some en'" "d_index en = d_index en'"
      using e assms(2,3) by (cases "e = d") auto
    then show ?thesis using assms(1) by (simp add: table_inv_def)
  qed
  moreover have "\<exists>en. descs ?t e = Some en \<and> d_index en = int j" if j: "j < length tab" "tab ! j = Some e" for j e
  proof -
    obtain en where "descs s e = Some en" "d_index en = int j" by (rule table_desc [OF assms(1) j])
    then show ?thesis using assms(2,3) by (cases "e = d") auto
  qed
  moreover have "file_descriptor_count ?t = int (length tab)" using assms(1) by (simp add: table_inv_def)
  moreover have "case file_descriptors ?t of None \<Rightarrow> tab = [] | Some cells \<Rightarrow>
      file_descriptor_capacity ?t = int (length cells) \<and> cells \<noteq> [] \<and> (\<exists>rest. cells = map Some tab @ rest)"
    using assms(1) by (cases "file_descriptors s") (simp_all add: table_inv_def)
  ultimately show ?thesis unfolding table_inv_def by blast
qed

lemma move_descriptors_spec:
  assumes "table_inv tab s" "\<forall>d dn. descs s d = Some dn \<longrightarrow> current_block dn \<in> dom (blocks s)"
    "blocks s q = Some b" "i \<le> length tab"
  shows "move_descriptors f q occ (int i) s = Some (s\<lparr>descs := \<lambda>d. if Some d \<in> set (drop i tab)
    then map_option (moved (blocks s) f q (b_index b) occ) (descs s d) else descs s d\<rparr>)"
  using assms
proof (induction "length tab - i" arbitrary: i s)
  case 0
  then have "i = length tab" "file_descriptor_count s = int (length tab)" by (auto simp: table_inv_def)
  then show ?case by (subst move_descriptors.simps) simp
next
  case (Suc k)
  note inv = Suc.prems(1)
  have i: "i < length tab" "k = length tab - Suc i" "Suc i \<le> length tab" using Suc.hyps(2) by auto
  have count: "file_descriptor_count s = int (length tab)" using inv by (simp add: table_inv_def)
  obtain cells where cells: "file_descriptors s = Some cells" "cget cells (int i) = Some (Some (tab ! i))"
  proof (cases "file_descriptors s")
    case None
    then show ?thesis using inv i(1) by (simp add: table_inv_def)
  next
    case (Some cells)
    then obtain rest where "cells = map Some tab @ rest" using inv by (auto simp: table_inv_def)
    then have "cget cells (int i) = Some (Some (tab ! i))" using i(1) by (simp add: cget_def nth_append)
    then show ?thesis using that Some by blast
  qed
  have drop: "drop i tab = tab ! i # drop (Suc i) tab" using i(1) by (simp add: Cons_nth_drop_Suc)
  have count': "int i + 1 = int (Suc i)" by simp
  show ?case
  proof (cases "tab ! i")
    case None
    then have "move_descriptors f q occ (int i) s = move_descriptors f q occ (int (Suc i)) s"
      using i(1) count cells by (subst move_descriptors.simps) (simp add: add.commute)
    then show ?thesis using Suc.hyps(1) [OF i(2) Suc.prems(1-3) i(3)] drop None by simp
  next
    case (Some d)
    obtain dn where dn: "descs s d = Some dn" by (rule table_desc [OF inv i(1) Some])
    obtain c where c: "blocks s (current_block dn) = Some c" using Suc.prems(2) dn by blast
    let ?dn = "moved (blocks s) f q (b_index b) occ dn"
    let ?s = "s\<lparr>descs := (descs s)(d \<mapsto> ?dn)\<rparr>"
    have run: "move_descriptors f q occ (int i) s = move_descriptors f q occ (int (Suc i)) ?s"
    proof (cases "d_file dn = f \<and> \<not> (b_index c < b_index b \<or> b_index c = b_index b \<and> block_offset dn \<le> occ)")
      case True
      then have "?dn = dn\<lparr>current_block := q, block_offset := occ\<rparr>" using c by (simp add: moved_def)
      moreover have "move_descriptors f q occ (int i) s = move_descriptors f q occ (int (Suc i))
          (s\<lparr>descs := (descs s)(d \<mapsto> dn\<lparr>current_block := q, block_offset := occ\<rparr>)\<rparr>)"
        using i(1) count cells Some dn c Suc.prems(3) True
        by (subst move_descriptors.simps) (auto simp: add.commute)
      ultimately show ?thesis by simp
    next
      case False
      then have "?dn = dn" using c by (auto simp: moved_def)
      then have "?s = s" using dn by (simp add: fun_upd_idem)
      moreover have "move_descriptors f q occ (int i) s = move_descriptors f q occ (int (Suc i)) s"
        using i(1) count cells Some dn c Suc.prems(3) False
        by (subst move_descriptors.simps) (auto simp: add.commute)
      ultimately show ?thesis by simp
    qed
    have inv': "table_inv tab ?s" by (rule table_inv_desc [OF inv dn]) simp
    have "\<forall>d dn. descs ?s d = Some dn \<longrightarrow> current_block dn \<in> dom (blocks ?s)"
      using Suc.prems(2,3) dn by (auto simp: moved_def split: if_splits)
    then have IH: "move_descriptors f q occ (int (Suc i)) ?s = Some (?s\<lparr>descs := \<lambda>e. if Some e \<in> set (drop (Suc i) tab)
        then map_option (moved (blocks ?s) f q (b_index b) occ) (descs ?s e) else descs ?s e\<rparr>)"
      using Suc.hyps(1) [OF i(2) inv' _ _ i(3)] Suc.prems(3) by simp
    have "Some d \<notin> set (drop (Suc i) tab)"
    proof
      assume "Some d \<in> set (drop (Suc i) tab)"
      then obtain m where "m < length (drop (Suc i) tab)" "drop (Suc i) tab ! m = Some d"
        by (metis in_set_conv_nth)
      then have "Suc i + m < length tab" "tab ! (Suc i + m) = Some d" by (simp_all add: nth_drop)
      then show False using table_other [OF inv i(1) Some, of "Suc i + m"] by simp
    qed
    then have "(\<lambda>e. if Some e \<in> set (drop (Suc i) tab)
        then map_option (moved (blocks ?s) f q (b_index b) occ) (descs ?s e) else descs ?s e) =
      (\<lambda>e. if Some e \<in> set (drop i tab)
        then map_option (moved (blocks s) f q (b_index b) occ) (descs s e) else descs s e)"
      using dn drop Some by (auto simp: fun_eq_iff)
    then show ?thesis using run IH by simp
  qed
qed

lemma move_all_descriptors:
  assumes inv: "table_inv tab s" "\<forall>d dn. descs s d = Some dn \<longrightarrow> current_block dn \<in> dom (blocks s)"
    "blocks s q = Some b"
  shows "move_descriptors f q occ 0 s =
    Some (s\<lparr>descs := \<lambda>d. map_option (moved (blocks s) f q (b_index b) occ) (descs s d)\<rparr>)"
proof -
  have "Some d \<in> set tab" if d: "descs s d = Some dn" for d dn
  proof -
    have "nat (d_index dn) < length tab" "tab ! nat (d_index dn) = Some d"
      using inv(1) d by (auto simp: table_inv_def)
    then show ?thesis by (metis nth_mem)
  qed
  then have "(\<lambda>d. if Some d \<in> set tab then map_option (moved (blocks s) f q (b_index b) occ) (descs s d)
      else descs s d) = (\<lambda>d. map_option (moved (blocks s) f q (b_index b) occ) (descs s d))"
    by (intro ext) (metis not_None_eq option.simps(8))
  then show ?thesis using move_descriptors_spec [OF inv, of 0 f occ] by simp
qed

section \<open>Shrinking\<close>

text \<open>The blocks up to number i, of which the last now holds occ bytes and has no successor.\<close>

definition cut_blocks :: "ptr list \<Rightarrow> nat \<Rightarrow> int \<Rightarrow> (ptr \<rightharpoonup> block) \<Rightarrow> ptr \<rightharpoonup> block" where
  "cut_blocks bs i occ h =
     (h(bs ! i := map_option (\<lambda>n. n\<lparr>occupied := occ, b_next := None\<rparr>) (h (bs ! i)))) |` (- set (drop (Suc i) bs))"

lemma cut_blocks_apply:
  assumes "distinct bs" "i < length bs"
  shows "cut_blocks bs i occ h b =
    (if b = bs ! i then map_option (\<lambda>n. n\<lparr>occupied := occ, b_next := None\<rparr>) (h (bs ! i))
     else if b \<in> set (drop (Suc i) bs) then None else h b)"
proof -
  have "bs = take i bs @ bs ! i # drop (Suc i) bs" using assms(2) by (simp add: id_take_nth_drop)
  then have "bs ! i \<notin> set (drop (Suc i) bs)" using assms(1) by (metis distinct.simps(2) distinct_append)
  then show ?thesis by (simp add: cut_blocks_def restrict_map_def)
qed

lemma block_and_offset: "int k = 512 * int (k div 512) + int (k mod 512)"
  by (metis mult_div_mod_eq of_nat_add of_nat_mult of_nat_numeral)

lemma cut_file:
  assumes fi: "file_inv h fn bs" and k: "k \<le> length (bytes_of h bs)"
  shows "file_inv (cut_blocks bs (k div 512) (int (k mod 512)) h) (fn\<lparr>last_block := bs ! (k div 512)\<rparr>)
      (take (Suc (k div 512)) bs)"
    "bytes_of (cut_blocks bs (k div 512) (int (k mod 512)) h) (take (Suc (k div 512)) bs) = take k (bytes_of h bs)"
proof -
  let ?i = "k div 512" and ?occ = "int (k mod 512)"
  let ?h = "cut_blocks bs ?i ?occ h"
  have d: "distinct bs" using fi by (simp add: file_inv_def)
  have i: "?i < length bs" using block_count [OF fi] k by (simp add: div_le_mono less_Suc_eq_le)
  obtain n where n: "h (bs ! ?i) = Some n" "block_ok (int ?i) (Suc ?i = length bs) n"
    by (rule block_at [OF fi i])
  have split: "bs = take ?i bs @ bs ! ?i # drop (Suc ?i) bs" using i by (simp add: id_take_nth_drop)
  have pre: "take (Suc ?i) bs = take ?i bs @ [bs ! ?i]" using i by (simp add: take_Suc_conv_app_nth)
  have "bs ! ?i \<notin> set (take ?i bs)" "set (take ?i bs) \<inter> set (drop (Suc ?i) bs) = {}"
    using d split by (metis distinct_append disjoint_iff distinct.simps(2) list.set_intros(1,2))+
  then have same: "?h b = h b" if "b \<in> set (take ?i bs)" for b
    using that cut_blocks_apply [OF d i] by auto
  have at: "?h (bs ! ?i) = Some (n\<lparr>occupied := ?occ, b_next := None\<rparr>)"
    using cut_blocks_apply [OF d i] n(1) by simp
  have fi': "file_inv h fn (take ?i bs @ bs ! ?i # drop (Suc ?i) bs)" using fi split by simp
  have fok: "full_ok h 0 (take ?i bs)" by (rule file_inv_split [OF fi'])
  then have "full_ok ?h 0 (take ?i bs)" using full_cong [of "take ?i bs" ?h h] same by simp
  then have chain: "chain_ok ?h 0 (take (Suc ?i) bs)"
    using at n(2) i unfolding pre chain_split by (simp add: block_ok_def min_absorb2)
  have len: "length (bytes_of h (take ?i bs)) = 512 * ?i"
    "bytes_of h bs = bytes_of h (take ?i bs) @ block_bytes h (bs ! ?i) @ bytes_of h (drop (Suc ?i) bs)"
    by (rule data_length [OF fi i n(1)])+
  have occ: "?occ \<le> occupied n"
  proof (cases "Suc ?i = length bs")
    case True
    then have "int (length (bytes_of h bs)) = 512 * int ?i + occupied n" by (rule data_length(3) [OF fi i n(1)])
    moreover have "int k = 512 * int ?i + ?occ" by (rule block_and_offset)
    ultimately show ?thesis using k by linarith
  qed (use n(2) in \<open>auto simp: block_ok_def\<close>)
  have blk: "block_bytes ?h (bs ! ?i) = take (k mod 512) (block_bytes h (bs ! ?i))"
    using at n(1) occ by (simp add: block_bytes_def min_absorb1 nat_le_iff)
  have mod: "k mod 512 \<le> length (block_bytes h (bs ! ?i))"
    using n occ by (auto simp: block_bytes_def block_ok_def nat_le_iff le_nat_iff split: if_splits)
  have k_eq: "k = 512 * ?i + k mod 512" by simp
  have rest: "k - 512 * ?i = k mod 512" "k - (512 * ?i + length (block_bytes h (bs ! ?i))) = 0"
    using mod k_eq by linarith+
  have "bytes_of ?h (take (Suc ?i) bs) = bytes_of h (take ?i bs) @ take (k mod 512) (block_bytes h (bs ! ?i))"
    using bytes_cong [of "take ?i bs" ?h h] same blk unfolding pre by simp
  also have "\<dots> = take (512 * ?i + k mod 512) (bytes_of h bs)"
    unfolding len(2) using len(1) mod rest by simp
  finally show bytes: "bytes_of ?h (take (Suc ?i) bs) = take k (bytes_of h bs)" using k_eq by simp
  have "block_seg h None (Some (block_list fn)) (take (Suc ?i) bs @ drop (Suc ?i) bs) None"
    using fi by (simp add: file_inv_def)
  then have "block_seg h None (Some (block_list fn)) (take ?i bs @ [bs ! ?i]) (hd_or (drop (Suc ?i) bs) None)"
    unfolding dlseg_append pre by simp
  then have "block_seg (h(bs ! ?i \<mapsto> n\<lparr>b_next := None\<rparr>)) None (Some (block_list fn)) (take ?i bs @ [bs ! ?i]) None"
    by (rule blks.relink_last) (use \<open>bs ! ?i \<notin> set (take ?i bs)\<close> n(1) in auto)
  moreover have "map_option (\<lambda>n. (b_next n, b_prev n)) (?h b) =
      map_option (\<lambda>n. (b_next n, b_prev n)) ((h(bs ! ?i \<mapsto> n\<lparr>b_next := None\<rparr>)) b)"
    if "b \<in> set (take ?i bs @ [bs ! ?i])" for b
    using that at same [of b] by (auto simp: fun_upd_def)
  then have "block_seg ?h None (Some (block_list fn)) (take ?i bs @ [bs ! ?i]) None =
      block_seg (h(bs ! ?i \<mapsto> n\<lparr>b_next := None\<rparr>)) None (Some (block_list fn)) (take ?i bs @ [bs ! ?i]) None"
    by (intro dlseg_links_cong) blast
  ultimately have seg: "block_seg ?h None (Some (block_list fn)) (take (Suc ?i) bs) None" unfolding pre by simp
  have "int (length (bytes_of ?h (take (Suc ?i) bs))) \<le> MAX_FILE_SIZE"
    using fi k unfolding bytes by (simp add: file_inv_def)
  then show "file_inv ?h (fn\<lparr>last_block := bs ! ?i\<rparr>) (take (Suc ?i) bs)"
    using seg chain pre distinct_take [OF d, of "Suc ?i"] by (simp add: file_inv_def)
qed

lemma reduce_run:
  assumes inv: "ufs_inv bl fl tab s" and fn: "files s f = Some fn" and k: "k \<le> length (bytes_of (blocks s) (bl f))"
  shows "reduce_file_size f (int k) s = Some (s\<lparr>blocks := cut_blocks (bl f) (k div 512) (int (k mod 512)) (blocks s),
    descs := \<lambda>d. map_option (moved (blocks s) f (bl f ! (k div 512)) (int (k div 512)) (int (k mod 512))) (descs s d),
    files := (files s)(f \<mapsto> fn\<lparr>last_block := bl f ! (k div 512)\<rparr>)\<rparr>)"
proof -
  note parts = ufs_inv_parts [OF inv]
  let ?bs = "bl f" and ?i = "k div 512" and ?occ = "int (k mod 512)"
  have fi: "file_inv (blocks s) fn ?bs" by (rule blocks_invD(1) [OF parts(1) fn])
  have d: "distinct ?bs" and ne: "?bs \<noteq> []" and last: "last_block fn = ?bs ! (length ?bs - 1)"
    using fi by (auto simp: file_inv_def last_conv_nth)
  have i: "?i < length ?bs" using block_count [OF fi] k by (simp add: div_le_mono less_Suc_eq_le)
  obtain n where n: "blocks s (?bs ! ?i) = Some n" "b_index n = int ?i" by (rule block_at [OF fi i])
  have "int k < 104857601" using k fi by (simp add: file_inv_def MAX_FILE_SIZE_def)
  then have occ: "c_int (int k - b_index n * BLOCK_SIZE) = Some ?occ"
    using n(2) block_and_offset [of k] by (simp add: BLOCK_SIZE_def int_ok_def)
  have find: "find_new_last_block (blocks s) (int k) (last_block fn) = Some (?bs ! ?i)"
    unfolding last
  proof (rule find_new_last_block_spec [OF fi])
    have "k < Suc ?i * 512" using dividend_less_div_times [of 512 k] by simp
    then have "int k < int (Suc ?i * 512)" by (simp only: of_nat_less_iff)
    then show "int k < int (Suc ?i) * 512" by simp
    show "int ?i * 512 \<le> int k" using block_and_offset [of k] by linarith
    show "?i \<le> length ?bs - 1" "length ?bs - 1 < length ?bs" using i by linarith+
  qed
  define n' where "n' = n\<lparr>occupied := ?occ, b_next := None\<rparr>"
  define s1 where "s1 = s\<lparr>blocks := (blocks s)(?bs ! ?i \<mapsto> n')\<rparr>"
  have set: "set_block (?bs ! ?i) (\<lambda>n. n\<lparr>occupied := ?occ, b_next := None\<rparr>) s = Some s1"
    using n(1) by (simp add: set_block_def s1_def n'_def)
  have "table_inv tab s1" by (rule table_inv_same [OF parts(4)]) (simp_all add: s1_def)
  moreover have "\<forall>e en. descs s1 e = Some en \<longrightarrow> current_block en \<in> dom (blocks s1)"
  proof (intro allI impI)
    fix e en assume "descs s1 e = Some en"
    then have "desc_ok bl s en" using parts(3) by (auto simp: descs_inv_def s1_def)
    then obtain m where "blocks s (current_block en) = Some m" by (rule desc_okD [OF parts(1)])
    then show "current_block en \<in> dom (blocks s1)" by (auto simp: s1_def)
  qed
  moreover have "blocks s1 (?bs ! ?i) = Some n'" by (simp add: s1_def)
  ultimately have "move_descriptors f (?bs ! ?i) ?occ 0 s1 =
      Some (s1\<lparr>descs := \<lambda>d. map_option (moved (blocks s1) f (?bs ! ?i) (b_index n') ?occ) (descs s1 d)\<rparr>)"
    by (rule move_all_descriptors)
  moreover have "moved (blocks s1) f (?bs ! ?i) (b_index n') ?occ = moved (blocks s) f (?bs ! ?i) (int ?i) ?occ"
    using n by (intro ext) (auto simp: moved_def s1_def n'_def)
  ultimately have move: "move_descriptors f (?bs ! ?i) ?occ 0 s1 =
      Some (s1\<lparr>descs := \<lambda>d. map_option (moved (blocks s) f (?bs ! ?i) (int ?i) ?occ) (descs s d)\<rparr>)"
    by (simp add: s1_def)
  have last_j: "length ?bs - 1 < length ?bs" "?i \<le> length ?bs - 1" using i ne by simp_all
  have prev: "\<exists>m. blocks s1 (?bs ! j) = Some m \<and> b_prev m = Some (?bs ! (j - 1))"
    if j: "?i < j" "j \<le> length ?bs - 1" for j
  proof -
    have "j < length ?bs" using j(2) last_j(1) by linarith
    then obtain m where m: "blocks s (?bs ! j) = Some m" "b_prev m = (if j = 0 then None else Some (?bs ! (j - 1)))"
      by (rule block_at [OF fi])
    have "?bs ! j \<noteq> ?bs ! ?i" using \<open>j < length ?bs\<close> i j(1) d by (simp add: nth_eq_iff_index_eq)
    then show ?thesis using m j(1) by (simp add: s1_def)
  qed
  have "free_blocks_down_to (?bs ! ?i) (blocks s1) (Some (?bs ! (length ?bs - 1))) =
      Some (blocks s1 |` (- set (drop (Suc ?i) (take (Suc (length ?bs - 1)) ?bs))))"
    by (rule free_blocks_down_to_spec [OF d last_j prev])
  then have free: "free_blocks_down_to (?bs ! ?i) (blocks s1) (Some (last_block fn)) =
      Some (cut_blocks ?bs ?i ?occ (blocks s))"
    using ne n(1) last by (simp add: cut_blocks_def s1_def n'_def)
  show ?thesis
    using fn find n(1) occ set move free
    by (simp add: reduce_file_size_def) (simp add: set_file_def s1_def)
qed

lemma cut_desc:
  assumes fi: "file_inv h fn bs" and k: "k \<le> length (bytes_of h bs)"
    and bs: "bs = xs @ current_block dn # ys" and o: "0 \<le> block_offset dn" "block_offset dn < 512"
    and n: "h (current_block dn) = Some n" "b_index n = int (length xs)"
    and dn': "dn' = moved h (d_file dn) (bs ! (k div 512)) (int (k div 512)) (int (k mod 512)) dn"
    and h': "h' = cut_blocks bs (k div 512) (int (k mod 512)) h"
  shows "\<exists>xs' ys'. take (Suc (k div 512)) bs = xs' @ current_block dn' # ys' \<and> 0 \<le> block_offset dn' \<and>
      block_offset dn' < 512 \<and> (ys' = [] \<longrightarrow> block_offset dn' \<le> occupied (the (h' (current_block dn'))))"
    "desc_pos h' dn' = min (desc_pos h dn) (int k)"
proof -
  let ?i = "k div 512" and ?occ = "int (k mod 512)"
  have d: "distinct bs" using fi by (simp add: file_inv_def)
  have i: "?i < length bs" using block_count [OF fi] k by (simp add: div_le_mono less_Suc_eq_le)
  obtain m where m: "h (bs ! ?i) = Some m" "b_index m = int ?i" by (rule block_at [OF fi i])
  have at: "h' (bs ! ?i) = Some (m\<lparr>occupied := ?occ, b_next := None\<rparr>)"
    using cut_blocks_apply [OF d i] m(1) h' by simp
  have occ: "0 \<le> ?occ" "?occ < 512" by simp_all
  have pos: "desc_pos h dn = 512 * int (length xs) + block_offset dn" using n by (simp add: desc_pos_def)
  note k_eq = block_and_offset [of k]
  show "\<exists>xs' ys'. take (Suc ?i) bs = xs' @ current_block dn' # ys' \<and> 0 \<le> block_offset dn' \<and>
      block_offset dn' < 512 \<and> (ys' = [] \<longrightarrow> block_offset dn' \<le> occupied (the (h' (current_block dn')))) "
    "desc_pos h' dn' = min (desc_pos h dn) (int k)"
  proof (atomize(full), cases "length xs < ?i \<or> length xs = ?i \<and> block_offset dn \<le> ?occ")
    case True
    then have le: "length xs \<le> ?i" by linarith
    have same: "dn' = dn" using True n dn' by (auto simp: moved_def)
    have cut: "take (Suc ?i) bs = xs @ current_block dn # take (?i - length xs) ys"
      using le unfolding bs by (simp add: Suc_diff_le)
    have ends: "length xs = ?i" if hx: "take (?i - length xs) ys = []"
    proof -
      have "ys = [] \<or> ?i \<le> length xs" using hx by auto
      then show ?thesis using le i bs by auto
    qed
    have cur: "current_block dn = bs ! ?i" if "length xs = ?i" using that bs by (metis nth_append_length)
    have "desc_pos h' dn = desc_pos h dn"
    proof (cases "length xs = ?i")
      case True
      then show ?thesis using cur at n m by (simp add: desc_pos_def)
    next
      case False
      then have "bs ! length xs \<noteq> bs ! ?i" using d i le by (simp add: nth_eq_iff_index_eq)
      moreover have "bs ! length xs = current_block dn" unfolding bs by simp
      moreover have "current_block dn \<notin> set (drop (Suc ?i) bs)"
      proof -
        have "current_block dn \<in> set (take (Suc ?i) bs)" using cut by simp
        then show ?thesis using d by (metis append_take_drop_id disjoint_iff distinct_append)
      qed
      ultimately show ?thesis using cut_blocks_apply [OF d i] h' by (simp add: desc_pos_def)
    qed
    moreover have "desc_pos h dn \<le> int k" using True pos k_eq occ o by auto
    moreover have "take (?i - length xs) ys = [] \<longrightarrow> block_offset dn \<le> occupied (the (h' (current_block dn)))"
      using ends cur at True by auto
    ultimately show "(\<exists>xs' ys'. take (Suc ?i) bs = xs' @ current_block dn' # ys' \<and> 0 \<le> block_offset dn' \<and>
        block_offset dn' < 512 \<and> (ys' = [] \<longrightarrow> block_offset dn' \<le> occupied (the (h' (current_block dn'))))) \<and>
      desc_pos h' dn' = min (desc_pos h dn) (int k)"
      using same cut o by (metis min_absorb1)
  next
    case False
    then have dn'_eq: "dn' = dn\<lparr>current_block := bs ! ?i, block_offset := ?occ\<rparr>"
      using n dn' by (auto simp: moved_def)
    have "desc_pos h' dn' = int k" using dn'_eq at m k_eq by (simp add: desc_pos_def)
    moreover have "int k \<le> desc_pos h dn" using False pos k_eq occ o by auto
    moreover have "take (Suc ?i) bs = take ?i bs @ [bs ! ?i]" using i by (simp add: take_Suc_conv_app_nth)
    ultimately show "(\<exists>xs' ys'. take (Suc ?i) bs = xs' @ current_block dn' # ys' \<and> 0 \<le> block_offset dn' \<and>
        block_offset dn' < 512 \<and> (ys' = [] \<longrightarrow> block_offset dn' \<le> occupied (the (h' (current_block dn'))))) \<and>
      desc_pos h' dn' = min (desc_pos h dn) (int k)"
      using dn'_eq at by (intro conjI exI [of _ "take ?i bs"] exI [of _ "[]"]) auto
  qed
qed

lemma cut_step:
  assumes inv: "ufs_inv bl fl tab s" and fn: "files s f = Some fn" and k: "k \<le> length (bytes_of (blocks s) (bl f))"
    and t: "t = s\<lparr>blocks := cut_blocks (bl f) (k div 512) (int (k mod 512)) (blocks s),
    descs := \<lambda>d. map_option (moved (blocks s) f (bl f ! (k div 512)) (int (k div 512)) (int (k mod 512))) (descs s d),
    files := (files s)(f \<mapsto> fn\<lparr>last_block := bl f ! (k div 512)\<rparr>)\<rparr>"
  shows "one_file_step bl fl tab f fn (take (Suc (k div 512)) (bl f)) s t"
proof -
  note parts = ufs_inv_parts [OF inv]
  let ?bs = "take (Suc (k div 512)) (bl f)"
  have fi: "file_inv (blocks s) fn (bl f)" by (rule blocks_invD(1) [OF parts(1) fn])
  have sub: "set (bl f) \<subseteq> dom (blocks s)" by (rule blocks_invD(2) [OF parts(1) fn])
  have d: "distinct (bl f)" using fi by (simp add: file_inv_def)
  have i: "k div 512 < length (bl f)" using block_count [OF fi] k by (simp add: div_le_mono less_Suc_eq_le)
  note apply' = cut_blocks_apply [OF d i, of "int (k mod 512)" "blocks s"]
  have bs: "set ?bs \<union> set (drop (Suc (k div 512)) (bl f)) = set (bl f)"
    "set ?bs \<inter> set (drop (Suc (k div 512)) (bl f)) = {}"
    using d by (metis append_take_drop_id set_append distinct_append)+
  have at: "bl f ! (k div 512) \<in> set ?bs" using i by (simp add: take_Suc_conv_app_nth)
  have desc: "desc_ok (bl(f := ?bs)) t en" if e: "descs t e = Some en" "d_file en = f" for e en
  proof -
    obtain dn where dn: "descs s e = Some dn"
      "en = moved (blocks s) f (bl f ! (k div 512)) (int (k div 512)) (int (k mod 512)) dn"
      using e(1) by (auto simp: t)
    then have f: "d_file dn = f" using e(2) by simp
    have "desc_ok bl s dn" using parts(3) dn(1) by (auto simp: descs_inv_def)
    then obtain xs ys n where xs: "bl f = xs @ current_block dn # ys" "0 \<le> block_offset dn" "block_offset dn < 512"
      "blocks s (current_block dn) = Some n" "b_index n = int (length xs)"
      using desc_okD [OF parts(1)] f by metis
    have "\<exists>xs' ys'. ?bs = xs' @ current_block en # ys' \<and> 0 \<le> block_offset en \<and>
      block_offset en < 512 \<and> (ys' = [] \<longrightarrow> block_offset en \<le> occupied (the (blocks t (current_block en))))"
      by (rule cut_desc(1) [OF fi k xs]) (use dn(2) f in \<open>simp_all add: t\<close>)
    then show ?thesis using fn f e(2) by (auto simp: desc_ok_def t)
  qed
  have new_inv: "file_inv (blocks t) (fn\<lparr>last_block := bl f ! (k div 512)\<rparr>) ?bs"
    using cut_file(1) [OF fi k] by (simp add: t)
  have dom: "dom (blocks t) = dom (blocks s) - set (bl f) \<union> set ?bs"
  proof -
    have "(\<exists>y. blocks t b = Some y) \<longleftrightarrow> b \<in> dom (blocks s) - set (bl f) \<union> set ?bs" for b
      using apply' [of b] bs sub at by (auto simp: t)
    then show ?thesis by (auto simp: dom_def)
  qed
  have outside: "\<forall>b. b \<notin> set (bl f) \<longrightarrow> b \<notin> set ?bs \<longrightarrow> blocks t b = blocks s b"
    using apply' bs at by (auto simp: t)
  have fresh: "\<forall>b\<in>set ?bs. b < next_ptr t"
  proof
    fix b assume "b \<in> set ?bs"
    then have "b \<in> dom (blocks s)" using sub by (meson in_set_takeD subsetD)
    then have "b < next_ptr s" using parts(2) unfolding fresh_inv_def by blast
    then show "b < next_ptr t" by (simp add: t)
  qed
  have others: "\<forall>d dn dn'. descs s d = Some dn \<longrightarrow> descs t d = Some dn' \<longrightarrow>
      d_file dn' = d_file dn \<and> d_index dn' = d_index dn \<and> d_flags dn' = d_flags dn \<and>
      (d_file dn \<noteq> f \<longrightarrow> dn' = dn)"
    by (auto simp: t moved_def)
  have doms: "dom (descs t) = dom (descs s)" by (auto simp: t)
  have "set ?bs \<inter> dom (blocks s) \<subseteq> set (bl f)" using bs(1) by blast
  moreover have "\<exists>fn'. files t = (files s)(f \<mapsto> fn') \<and> f_next fn' = f_next fn \<and> f_prev fn' = f_prev fn \<and>
        f_name fn' = f_name fn \<and> refs fn' = refs fn \<and>
        marked_for_deletion fn' = marked_for_deletion fn \<and> file_inv (blocks t) fn' ?bs"
    using new_inv by (intro exI [of _ "fn\<lparr>last_block := bl f ! (k div 512)\<rparr>"]) (simp add: t)
  moreover have "next_ptr s \<le> next_ptr t" "file_list t = file_list s" "file_descriptors t = file_descriptors s"
    "file_descriptor_count t = file_descriptor_count s" "file_descriptor_capacity t = file_descriptor_capacity s"
    by (simp_all add: t)
  ultimately show ?thesis
    unfolding one_file_step_def using inv fn outside dom fresh others doms desc by blast
qed

section \<open>Resizing refines the specification\<close>

definition a_move_back :: "ptr \<Rightarrow> nat \<Rightarrow> adesc \<Rightarrow> adesc" where
  "a_move_back f k d = (if a_file d = f then d\<lparr>a_pos := min (a_pos d) k\<rparr> else d)"

definition a_resize :: "int \<Rightarrow> nat \<Rightarrow> afs \<Rightarrow> int \<times> afs" where
  "a_resize fd k a =
     (case a_lookup fd a of
        None \<Rightarrow> a_fail UFS_ERR_NO_FILE a
      | Some d \<Rightarrow>
          if int k \<ge> MAX_FILE_SIZE then a_fail UFS_ERR_NO_MEM a
          else (0, (a_set_data (a_file d) (take k (a_data_of a (a_file d))) a)
                  \<lparr>a_fds := map (map_option (a_move_back (a_file d) k)) (a_fds a)\<rparr>))"

text \<open>The size of the file that a descriptor is open on.\<close>

definition a_size_of :: "int \<Rightarrow> afs \<Rightarrow> nat" where
  "a_size_of fd a = (case a_lookup fd a of None \<Rightarrow> 0 | Some d \<Rightarrow> length (a_data_of a (a_file d)))"

lemma cut_desc_abs:
  assumes inv: "ufs_inv bl fl tab s" and fn: "files s f = Some fn" and k: "k \<le> length (bytes_of (blocks s) (bl f))"
    and t: "t = s\<lparr>blocks := cut_blocks (bl f) (k div 512) (int (k mod 512)) (blocks s),
    descs := \<lambda>d. map_option (moved (blocks s) f (bl f ! (k div 512)) (int (k div 512)) (int (k mod 512))) (descs s d),
    files := (files s)(f \<mapsto> fn\<lparr>last_block := bl f ! (k div 512)\<rparr>)\<rparr>"
  shows "desc_abs t d = map_option (a_move_back f k) (desc_abs s d)"
proof (cases "descs s d")
  case None
  then show ?thesis by (simp add: desc_abs_def t)
next
  case (Some dn)
  note parts = ufs_inv_parts [OF inv]
  have step: "one_file_step bl fl tab f fn (take (Suc (k div 512)) (bl f)) s t" by (rule cut_step [OF inv fn k t])
  show ?thesis
  proof (cases "d_file dn = f")
    case False
    then show ?thesis
      using one_file_step_desc_abs [OF step Some] Some by (simp add: desc_abs_def a_move_back_def)
  next
    case True
    let ?dn = "moved (blocks s) f (bl f ! (k div 512)) (int (k div 512)) (int (k mod 512)) dn"
    have fi: "file_inv (blocks s) fn (bl f)" by (rule blocks_invD(1) [OF parts(1) fn])
    have "desc_ok bl s dn" using parts(3) Some by (auto simp: descs_inv_def)
    then obtain xs ys n where xs: "bl f = xs @ current_block dn # ys" "0 \<le> block_offset dn" "block_offset dn < 512"
      "blocks s (current_block dn) = Some n" "b_index n = int (length xs)"
      using desc_okD [OF parts(1)] True by metis
    have "desc_pos (blocks t) ?dn = min (desc_pos (blocks s) dn) (int k)"
      by (rule cut_desc(2) [OF fi k xs]) (use True in \<open>simp_all add: t\<close>)
    moreover have "0 \<le> desc_pos (blocks s) dn" by (rule desc_pos_le(1) [OF inv Some])
    ultimately show ?thesis
      using Some True by (simp add: desc_abs_def a_move_back_def t) (simp add: min_def nat_le_iff)
  qed
qed

lemma resize_refines:
  assumes inv: "ufs_inv bl fl tab s" and k: "k \<le> a_size_of fd (ufs_abs bl fl tab s) \<or> int k \<ge> MAX_FILE_SIZE"
  shows "\<exists>t bl'. ufs_resize fd k s = Some (fst (a_resize fd k (ufs_abs bl fl tab s)), t) \<and>
    ufs_inv bl' fl tab t \<and> ufs_abs bl' fl tab t = snd (a_resize fd k (ufs_abs bl fl tab s))"
  using inv
proof (cases rule: lookup_cases [where fd = fd])
  case none
  then show ?thesis using throw_error_abs [OF inv, of UFS_ERR_NO_FILE]
    by (auto simp: ufs_resize_def a_resize_def a_fail_def)
next
  case (some d dn a fa)
  note parts = ufs_inv_parts [OF inv]
  show ?thesis
  proof (cases "int k \<ge> MAX_FILE_SIZE")
    case True
    then show ?thesis using throw_error_abs [OF inv, of UFS_ERR_NO_MEM] some
      by (auto simp: ufs_resize_def a_resize_def a_fail_def)
  next
    case False
    let ?f = "d_file dn"
    obtain fn where fn: "files s ?f = Some fn" "fa = \<lparr>a_name = f_name fn, a_data = bytes_of (blocks s) (bl ?f)\<rparr>"
      using some(9,11) by (auto simp: file_abs_def)
    have k': "k \<le> length (bytes_of (blocks s) (bl ?f))"
      using k False some(8,9) fn(2) by (simp add: a_size_of_def a_data_of_def) (simp add: ufs_abs_def)
    define t where "t = s\<lparr>blocks := cut_blocks (bl ?f) (k div 512) (int (k mod 512)) (blocks s),
      descs := \<lambda>d. map_option (moved (blocks s) ?f (bl ?f ! (k div 512)) (int (k div 512)) (int (k mod 512))) (descs s d),
      files := (files s)(?f \<mapsto> fn\<lparr>last_block := bl ?f ! (k div 512)\<rparr>)\<rparr>"
    have run: "ufs_resize fd k s = Some (0, t)"
      using some(1,5) False reduce_run [OF inv fn(1) k'] by (simp add: ufs_resize_def t_def)
    have step: "one_file_step bl fl tab ?f fn (take (Suc (k div 512)) (bl ?f)) s t"
      by (rule cut_step [OF inv fn(1) k' t_def])
    have fi: "file_inv (blocks s) fn (bl ?f)" by (rule blocks_invD(1) [OF parts(1) fn(1)])
    have "file_abs (bl(?f := take (Suc (k div 512)) (bl ?f))) t =
        (file_abs bl s)(?f \<mapsto> fa\<lparr>a_data := take k (a_data fa)\<rparr>)"
      using one_file_step_abs [OF step] cut_file(2) [OF fi k'] fn(2) by (simp add: t_def)
    moreover have "fds_abs tab t = map (map_option (a_move_back ?f k)) (fds_abs tab s)"
    proof -
      have "Option.bind x (desc_abs t) = map_option (a_move_back ?f k) (Option.bind x (desc_abs s))" for x
        using cut_desc_abs [OF inv fn(1) k' t_def] by (cases x) simp_all
      then show ?thesis by (simp add: fds_abs_def)
    qed
    moreover have "errno t = errno s" by (simp add: t_def)
    ultimately have "ufs_abs (bl(?f := take (Suc (k div 512)) (bl ?f))) fl tab t =
        snd (a_resize fd k (ufs_abs bl fl tab s))"
      using some(8,9,11) False
      by (simp add: a_resize_def a_set_data_def a_data_of_def) (simp add: ufs_abs_def)
    then show ?thesis using run one_file_step_inv [OF step] some(8) False by (auto simp: a_resize_def)
  qed
qed

end
