(* ===== verification/User_FS_Destroy.thy ===== *)
theory User_FS_Destroy
  imports User_FS_Open
begin

text \<open>
  ufs_destroy: every descriptor is closed, every file deleted, and no block, file or descriptor is
  left in memory.
\<close>

section \<open>Closing every descriptor\<close>

lemma close_slot:
  assumes inv: "ufs_inv bl fl tab s" and i: "i < length tab" "tab ! i = Some d"
  obtains t where "close_file_descriptor d s = Some t" "ufs_inv bl fl (tab[i := None]) t"
proof -
  note parts = ufs_inv_parts [OF inv]
  obtain dn where dn: "descs s d = Some dn" by (rule table_desc [OF parts(4) i])
  then have "desc_ok bl s dn" using parts(3) by (auto simp: descs_inv_def)
  then obtain n where n: "files s (d_file dn) = Some n" by (auto simp: desc_ok_def)
  obtain cells where cells: "file_descriptors s = Some cells" and run: "close_file_descriptor d s =
    Some (closed_state cells i d (if marked_for_deletion n \<and> refs n = 1
       then s\<lparr>blocks := blocks s |` (- set (bl (d_file dn))), files := (files s)(d_file dn := None)\<rparr>
       else s\<lparr>files := (files s)(d_file dn \<mapsto> n\<lparr>refs := refs n - 1\<rparr>)\<rparr>))"
    by (rule close_concrete [OF inv i dn n])
  show ?thesis
  proof (cases "marked_for_deletion n \<and> refs n = 1")
    case True
    then show ?thesis using that run close_drop(1) [OF inv i dn n cells _ _ refl] by simp
  next
    case False
    then show ?thesis using that run close_keep(1) [OF inv i dn n cells False refl] by (simp add: if_not_P)
  qed
qed

lemma table_cell:
  assumes "table_inv tab s" "i < length tab"
  obtains cells where "file_descriptors s = Some cells" "cget cells (int i) = Some (Some (tab ! i))"
    "file_descriptor_count s = int (length tab)"
proof (cases "file_descriptors s")
  case None
  then show ?thesis using assms by (simp add: table_inv_def)
next
  case (Some cells)
  then obtain rest where "cells = map Some tab @ rest" using assms by (auto simp: table_inv_def)
  then have "cget cells (int i) = Some (Some (tab ! i))" using assms(2) by (simp add: cget_def nth_append)
  then show ?thesis using that Some assms(1) by (simp add: table_inv_def)
qed

lemma close_all_spec:
  assumes "ufs_inv bl fl tab s" "i \<le> length tab"
  shows "\<exists>t. close_all (int i) s = Some t \<and>
    ufs_inv bl fl (take i tab @ replicate (length tab - i) None) t"
  using assms
proof (induction "length tab - i" arbitrary: i s tab)
  case 0
  then have "i = length tab" "file_descriptor_count s = int (length tab)"
    using ufs_inv_parts(4) [OF 0(2)] by (auto simp: table_inv_def)
  then show ?case using 0(2) by (subst close_all.simps) simp
next
  case (Suc k)
  have i: "i < length tab" "k = length tab - Suc i" "Suc i \<le> length tab" using Suc.hyps(2) by auto
  obtain cells where cells: "file_descriptors s = Some cells" "cget cells (int i) = Some (Some (tab ! i))"
    "file_descriptor_count s = int (length tab)"
    by (rule table_cell [OF ufs_inv_parts(4) [OF Suc.prems(1)] i(1)])
  have reps: "length tab - i = Suc (length tab - Suc i)" using i by simp
  have shape: "take (Suc i) (tab[i := None]) @ replicate (length tab - Suc i) None =
      take i tab @ replicate (length tab - i) None"
    unfolding reps using i(1) by (simp add: take_Suc_conv_app_nth)
  show ?case
  proof (cases "tab ! i")
    case None
    then have "tab[i := None] = tab" by (metis list_update_id)
    moreover have "close_all (int i) s = close_all (int (Suc i)) s"
      using cells i(1) None by (subst close_all.simps) (simp add: add.commute)
    ultimately show ?thesis using Suc.hyps(1) [OF i(2) Suc.prems(1) i(3)] shape by simp
  next
    case (Some d)
    obtain t where t: "close_file_descriptor d s = Some t" "ufs_inv bl fl (tab[i := None]) t"
      by (rule close_slot [OF Suc.prems(1) i(1) Some])
    have "close_all (int i) s = close_all (int (Suc i)) t"
      using cells i(1) Some t(1) by (subst close_all.simps) (simp add: add.commute)
    then show ?thesis using Suc.hyps(1) [OF _ t(2), of "Suc i"] i shape by simp
  qed
qed

lemma all_closed:
  assumes inv: "ufs_inv bl fl tab s" and none: "\<forall>x\<in>set tab. x = None"
  shows "descs s = Map.empty" "dom (files s) = set fl"
proof -
  note parts = ufs_inv_parts [OF inv]
  show empty: "descs s = Map.empty"
  proof (rule ext)
    fix d
    have "False" if d: "descs s d = Some dn" for dn
    proof -
      have "nat (d_index dn) < length tab" "tab ! nat (d_index dn) = Some d"
        using parts(4) d by (auto simp: table_inv_def)
      then show False using none by (metis nth_mem option.distinct(1))
    qed
    then show "descs s d = None" by (cases "descs s d") auto
  qed
  have "f \<in> set fl" if f: "files s f = Some n" for f n
  proof -
    have "refs n = 0" using parts(5) f empty by (simp add: refs_inv_def users_def)
    then have "\<not> 0 < refs n" by simp
    then show ?thesis using parts(6) f unfolding list_inv_def by blast
  qed
  then show "dom (files s) = set fl" using list_invD(3) [OF parts(6)] by auto
qed

section \<open>Deleting every file\<close>

definition only_files :: "(ptr \<Rightarrow> ptr list) \<Rightarrow> ptr list \<Rightarrow> ufs \<Rightarrow> bool" where
  "only_files bl fl s \<longleftrightarrow> blocks_inv bl s \<and> fresh_inv s \<and> refs_inv s \<and> list_inv fl s \<and>
     descs s = Map.empty \<and> dom (files s) = set fl"

lemma delete_head:
  assumes of: "only_files bl (f # fl) s"
  obtains t where "file_list s = Some f" "delete_file f s = Some t" "only_files bl fl t"
    "file_descriptors t = file_descriptors s"
proof -
  have parts: "blocks_inv bl s" "fresh_inv s" "refs_inv s" "list_inv (f # fl) s" "descs s = Map.empty"
    "dom (files s) = set (f # fl)"
    using of by (simp_all only: only_files_def)
  have dinv: "descs_inv bl s" using parts(5) by (simp add: descs_inv_def)
  have f: "f \<in> set (f # fl)" by simp
  obtain h p n where dis: "disconnect_file_from_file_list f s = Some (s\<lparr>files := h, file_list := p\<rparr>)"
    and seg: "file_seg h None p (remove1 f (f # fl)) None" and dom: "dom h = dom (files s)"
    and core: "\<forall>q. map_option fcore (h q) = map_option fcore (files s q)"
    and outside: "\<forall>q. q \<notin> set (f # fl) \<longrightarrow> h q = files s q"
    and n: "h f = Some n" "f_next n = None" "f_prev n = None"
    by (rule disconnect_listed [OF parts(4) f])
  define u where "u = s\<lparr>files := h, file_list := p\<rparr>"
  note U = relinked_parts [OF parts(1,2) dinv parts(3) core u_def]
  note others = relinked_list(1) [OF parts(4) f core outside u_def]
    and inj = relinked_list(2) [OF parts(4) f core outside u_def]
  have d: "f \<notin> set fl" "distinct fl" using list_invD(2) [OF parts(4)] by simp_all
  have un: "files u f = Some n" using n by (simp add: u_def)
  have none: "users u f = {}" using parts(5) by (simp add: users_def u_def)
  define t where "t = u\<lparr>blocks := blocks u |` (- set (bl f)), files := (files u)(f := None)\<rparr>"
  note T = remove_parts [OF U(1-4) un none t_def]
  have useg: "file_seg (files u) None (file_list u) fl None" using seg by (simp add: u_def)
  have li: "list_inv fl t"
    by (rule list_inv_remove [OF useg d(2,1)]) (use others inj in \<open>simp_all add: t_def\<close>)
  have fi: "file_inv (blocks u) n (bl f)" by (rule blocks_invD(1) [OF U(1) un])
  have "free_blocks (blocks u) (Some (block_list n)) = Some (blocks u |` (- set (bl f)))"
    using fi by (intro free_blocks_spec) (auto simp: file_inv_def)
  then have del: "delete_file f s = Some t"
    using dis un by (simp add: delete_file_def u_def [symmetric] t_def)
  have "descs t = Map.empty" using parts(5) by (simp add: t_def u_def)
  moreover have "dom (files t) = set fl"
    using parts(6) dom d(1) by (auto simp: t_def u_def)
  ultimately have "only_files bl fl t" using T(1,2,4) li by (simp add: only_files_def)
  moreover have "file_descriptors t = file_descriptors s" by (simp add: t_def u_def)
  moreover have "file_list s = Some f" using list_invD(4) [OF parts(4)] by simp
  ultimately show ?thesis using that del by blast
qed

lemma delete_all_spec:
  "only_files bl fl s \<Longrightarrow> \<exists>t. delete_all s = Some t \<and> only_files bl [] t \<and> file_list t = None \<and>
     file_descriptors t = file_descriptors s"
proof (induction fl arbitrary: s)
  case Nil
  then have "file_list s = None" using list_invD(4) by (auto simp: only_files_def)
  then show ?case using Nil by (subst delete_all.simps) simp
next
  case (Cons f fl)
  obtain t where t: "file_list s = Some f" "delete_file f s = Some t" "only_files bl fl t"
    "file_descriptors t = file_descriptors s"
    by (rule delete_head [OF Cons.prems])
  then show ?case using Cons.IH [OF t(3)] by (subst delete_all.simps) simp
qed

lemma only_files_cells: "only_files bl fl (s\<lparr>file_descriptors := c\<rparr>) = only_files bl fl s"
  by (simp add: only_files_def blocks_inv_def owned_def fresh_inv_def refs_inv_def users_def list_inv_def)

lemma destroy_spec:
  assumes inv: "ufs_inv bl fl tab s"
  shows "\<exists>t. ufs_destroy s = Some t \<and> blocks t = Map.empty \<and> files t = Map.empty \<and>
    descs t = Map.empty \<and> file_descriptors t = Some [] \<and> file_list t = None"
proof -
  obtain u where u: "close_all 0 s = Some u" "ufs_inv bl fl (replicate (length tab) None) u"
    using close_all_spec [OF inv, of 0] by auto
  have "only_files bl fl u"
    using all_closed [OF u(2)] ufs_inv_parts [OF u(2)] by (simp add: only_files_def)
  then have "only_files bl fl (u\<lparr>file_descriptors := Some []\<rparr>)" by (simp add: only_files_cells)
  from delete_all_spec [OF this] obtain t where
    t: "delete_all (u\<lparr>file_descriptors := Some []\<rparr>) = Some t" "only_files bl [] t"
      "file_list t = None" "file_descriptors t = Some []"
    by auto
  have "files t = Map.empty" "descs t = Map.empty" using t(2) by (simp_all add: only_files_def)
  moreover have "blocks t = Map.empty"
  proof -
    have "dom (blocks t) = (\<Union>f. owned t bl f)" using t(2) by (simp add: only_files_def blocks_inv_def)
    then show ?thesis using \<open>files t = Map.empty\<close> by (simp add: owned_def)
  qed
  ultimately show ?thesis using u(1) t by (simp add: ufs_destroy_def)
qed

end
