(* ===== verification/User_FS_Props.thy ===== *)
theory User_FS_Props
  imports User_FS_Resize User_FS_Destroy
begin

text \<open>
  The calls of the file system together: the states a client reaches with calls the interface
  covers all satisfy the invariant, no such call runs into undefined behaviour, and each does
  what the specification says. Growing a file with ufs_resize is outside of it; the last section
  says what the code does then.
\<close>

section \<open>The calls of a client\<close>

datatype ufs_call = Open string int | Write int "char list" | Read int nat | Close int
  | Delete string | Resize int nat

definition run_call :: "ufs_call \<Rightarrow> ufs \<Rightarrow> ufs option" where
  "run_call c s =
     (case c of
        Open name flags \<Rightarrow> map_option snd (ufs_open name flags s)
      | Write fd buf \<Rightarrow> map_option snd (ufs_write fd buf (length buf) s)
      | Read fd n \<Rightarrow> map_option (snd \<circ> snd) (ufs_read fd n s)
      | Close fd \<Rightarrow> map_option snd (ufs_close fd s)
      | Delete name \<Rightarrow> map_option snd (ufs_delete name s)
      | Resize fd n \<Rightarrow> map_option snd (ufs_resize fd n s))"

text \<open>The size of the file behind a descriptor, as the code computes it in ufs_read.\<close>

definition file_size :: "int \<Rightarrow> ufs \<Rightarrow> int" where
  "file_size fd s =
     (case do { found \<leftarrow> try_get_file_descriptor fd s; d \<leftarrow> found; dn \<leftarrow> descs s d;
                fn \<leftarrow> files s (d_file dn); l \<leftarrow> blocks s (last_block fn);
                Some (b_index l * BLOCK_SIZE + occupied l) } of
        None \<Rightarrow> 0 | Some n \<Rightarrow> n)"

text \<open>The calls covered: sizes fit an int, and a file is not grown by ufs_resize.\<close>

definition call_ok :: "ufs_call \<Rightarrow> ufs \<Rightarrow> bool" where
  "call_ok c s \<longleftrightarrow>
     (case c of
        Open name flags \<Rightarrow> file_descriptor_count s < 2 ^ 30
      | Write fd buf \<Rightarrow> length buf < 2 ^ 31 - 2 ^ 28
      | Read fd n \<Rightarrow> n < 2 ^ 31
      | Close fd \<Rightarrow> True
      | Delete name \<Rightarrow> True
      | Resize fd n \<Rightarrow> int n \<le> file_size fd s \<or> int n \<ge> MAX_FILE_SIZE)"

inductive ufs_step :: "ufs \<Rightarrow> ufs \<Rightarrow> bool" where
  call: "call_ok c s \<Longrightarrow> run_call c s = Some t \<Longrightarrow> ufs_step s t"

definition a_initial :: afs where
  "a_initial = \<lparr>a_files = Map.empty, a_listed = [], a_fds = [], a_errno = UFS_ERR_NO_ERR\<rparr>"

lemma initial_rel: "ufs_rel ufs_initial a_initial"
proof -
  have "ufs_inv (\<lambda>_. []) [] [] ufs_initial"
    by (simp add: ufs_inv_def blocks_inv_def owned_def fresh_inv_def descs_inv_def table_inv_def
        refs_inv_def list_inv_def ufs_initial_def)
  moreover have "a_initial = ufs_abs (\<lambda>_. []) [] [] ufs_initial"
    by (simp add: a_initial_def ufs_abs_def file_abs_def fds_abs_def ufs_initial_def fun_eq_iff)
  ultimately show ?thesis unfolding ufs_rel_def by blast
qed

lemma rel_fds: "ufs_rel s a \<Longrightarrow> file_descriptor_count s = int (length (a_fds a))"
  by (auto simp: ufs_rel_def ufs_abs_def ufs_inv_def table_inv_def)

lemma file_size_abs:
  assumes inv: "ufs_inv bl fl tab s"
  shows "file_size fd s = int (a_size_of fd (ufs_abs bl fl tab s))"
  using inv
proof (cases rule: lookup_cases [where fd = fd])
  case none
  then show ?thesis by (simp add: file_size_def a_size_of_def)
next
  case (some d dn a fa)
  note parts = ufs_inv_parts [OF inv]
  obtain fn where fn: "files s (d_file dn) = Some fn"
    "fa = \<lparr>a_name = f_name fn, a_data = bytes_of (blocks s) (bl (d_file dn))\<rparr>"
    using some(9,11) by (auto simp: file_abs_def)
  have fi: "file_inv (blocks s) fn (bl (d_file dn))" by (rule blocks_invD(1) [OF parts(1) fn(1)])
  then obtain xs where xs: "bl (d_file dn) = xs @ [last_block fn]"
    by (metis append_butlast_last_id file_inv_def)
  obtain l where l: "blocks s (last_block fn) = Some l"
    "b_index l * 512 + occupied l = int (length (bytes_of (blocks s) (xs @ [last_block fn])))"
    by (rule last_block_size [OF fi [unfolded xs]])
  have "a_data_of (ufs_abs bl fl tab s) (a_file a) = a_data fa"
    using some(9) by (simp add: a_data_of_def ufs_abs_def)
  then have "a_size_of fd (ufs_abs bl fl tab s) = length (a_data fa)"
    using some(8) by (simp add: a_size_of_def)
  then show ?thesis using some(1,5) fn l xs by (simp add: file_size_def BLOCK_SIZE_def)
qed

lemma file_size_rel: "ufs_rel s a \<Longrightarrow> file_size fd s = int (a_size_of fd a)"
  unfolding ufs_rel_def using file_size_abs by blast

section \<open>Every call, over the relation\<close>

lemma open_rel:
  assumes "ufs_rel s a" "length (a_fds a) < 2 ^ 30"
  shows "\<exists>f t. a_files a f = None \<and> ufs_open name flags s = Some (fst (a_open f name flags a), t) \<and>
    ufs_rel t (snd (a_open f name flags a))"
proof -
  obtain bl fl tab where r: "ufs_inv bl fl tab s" "a = ufs_abs bl fl tab s" using assms(1) by (auto simp: ufs_rel_def)
  have "length tab < 2 ^ 30" using assms(2) r(2) by (simp add: ufs_abs_def)
  from open_refines [OF r(1) this, of name flags] r(2) show ?thesis
    by (auto simp: ufs_rel_def) (metis afs.select_convs(1) ufs_abs_def)
qed

lemma write_rel:
  assumes "ufs_rel s a" "length buf < 2 ^ 31 - 2 ^ 28"
  shows "\<exists>t. ufs_write fd buf (length buf) s = Some (fst (a_write fd buf a), t) \<and> ufs_rel t (snd (a_write fd buf a))"
  using assms write_refines unfolding ufs_rel_def by metis

lemma read_rel:
  assumes "ufs_rel s a" "n < 2 ^ 31"
  shows "\<exists>t. ufs_read fd n s = Some (fst (a_read fd n a), fst (snd (a_read fd n a)), t) \<and>
    ufs_rel t (snd (snd (a_read fd n a)))"
  using assms read_refines unfolding ufs_rel_def by metis

lemma close_rel:
  assumes "ufs_rel s a"
  shows "\<exists>t. ufs_close fd s = Some (fst (a_close fd a), t) \<and> ufs_rel t (snd (a_close fd a))"
  using assms close_refines unfolding ufs_rel_def by metis

lemma delete_rel:
  assumes "ufs_rel s a"
  shows "\<exists>t. ufs_delete name s = Some (fst (a_delete name a), t) \<and> ufs_rel t (snd (a_delete name a))"
  using assms delete_refines unfolding ufs_rel_def by metis

lemma resize_rel:
  assumes "ufs_rel s a" "n \<le> a_size_of fd a \<or> int n \<ge> MAX_FILE_SIZE"
  shows "\<exists>t. ufs_resize fd n s = Some (fst (a_resize fd n a), t) \<and> ufs_rel t (snd (a_resize fd n a))"
  using assms resize_refines unfolding ufs_rel_def by metis

lemma call_runs:
  assumes rel: "ufs_rel s a" and ok: "call_ok c s"
  shows "\<exists>t b. run_call c s = Some t \<and> ufs_rel t b"
proof (cases c)
  case (Open name flags)
  then have "length (a_fds a) < 2 ^ 30" using ok rel_fds [OF rel] by (simp add: call_ok_def)
  then show ?thesis using open_rel [OF rel, of name flags] Open by (auto simp: run_call_def)
next
  case (Write fd buf)
  then show ?thesis using write_rel [OF rel, of buf fd] ok by (auto simp: call_ok_def run_call_def)
next
  case (Read fd n)
  then show ?thesis using read_rel [OF rel, of n fd] ok by (auto simp: call_ok_def run_call_def)
next
  case (Close fd)
  then show ?thesis using close_rel [OF rel, of fd] by (auto simp: run_call_def)
next
  case (Delete name)
  then show ?thesis using delete_rel [OF rel, of name] by (auto simp: run_call_def)
next
  case (Resize fd n)
  then have "n \<le> a_size_of fd a \<or> int n \<ge> MAX_FILE_SIZE"
    using ok file_size_rel [OF rel, of fd] by (simp add: call_ok_def)
  then show ?thesis using resize_rel [OF rel, of n fd] Resize by (auto simp: run_call_def)
qed

interpretation fs: invariant_system "\<lambda>s. s = ufs_initial" ufs_step "\<lambda>s. \<exists>a. ufs_rel s a"
proof
  show "\<exists>a. ufs_rel s a" if "s = ufs_initial" for s using that initial_rel by blast
  show "\<exists>b. ufs_rel t b" if "\<exists>a. ufs_rel s a" "ufs_step s t" for s t
    using that(2,1) by (cases rule: ufs_step.cases) (metis call_runs option.inject)
qed

section \<open>Growing a file\<close>

lemma grow_run:
  assumes inv: "ufs_inv bl fl tab s" and fn: "files s f = Some fn" and l: "blocks s (last_block fn) = Some l"
    and k: "b_index l * 512 + occupied l \<le> int k" "int k < MAX_FILE_SIZE"
  shows "reduce_file_size f (int k) s =
    Some (s\<lparr>blocks := (blocks s)(last_block fn \<mapsto> l\<lparr>occupied := int k - b_index l * 512\<rparr>)\<rparr>)"
proof -
  note parts = ufs_inv_parts [OF inv]
  let ?q = "last_block fn" and ?occ = "int k - b_index l * 512"
  have fi: "file_inv (blocks s) fn (bl f)" by (rule blocks_invD(1) [OF parts(1) fn])
  then obtain xs where xs: "bl f = xs @ [?q]" by (metis append_butlast_last_id file_inv_def)
  have lx: "block_ok (int (length xs)) True l" "b_index l = int (length xs)" "b_next l = None"
    using file_inv_split [OF fi [unfolded xs]] l by (metis option.inject hd_or_simps(1))+
  have occ: "0 \<le> occupied l" "occupied l \<le> ?occ" using lx(1) k by (simp_all add: block_ok_def)
  have small: "int_ok (b_index l * 512)" "int_ok ?occ"
    using occ k lx(2) by (simp_all add: int_ok_def MAX_FILE_SIZE_def)
  have find: "find_new_last_block (blocks s) (int k) ?q = Some ?q"
    using l small(1) occ by (subst find_new_last_block.simps) (simp add: BLOCK_SIZE_def)
  define l' where "l' = l\<lparr>occupied := ?occ, b_next := None\<rparr>"
  have l'_eq: "l' = l\<lparr>occupied := ?occ\<rparr>" using lx(3) by (cases l) (simp add: l'_def)
  define s1 where "s1 = s\<lparr>blocks := (blocks s)(?q \<mapsto> l')\<rparr>"
  have set: "set_block ?q (\<lambda>n. n\<lparr>occupied := ?occ, b_next := None\<rparr>) s = Some s1"
    using l by (simp add: set_block_def s1_def l'_def)
  have stay: "moved (blocks s1) f ?q (b_index l') ?occ dn = dn" if d: "descs s1 d = Some dn" for d dn
  proof -
    have "desc_ok bl s dn" using parts(3) d by (auto simp: descs_inv_def s1_def)
    then obtain as bs n where as: "bl (d_file dn) = as @ current_block dn # bs"
      "blocks s (current_block dn) = Some n" "b_index n = int (length as)"
      "bs = [] \<longrightarrow> block_offset dn \<le> occupied n"
      using desc_okD [OF parts(1)] by metis
    show ?thesis
    proof (cases "d_file dn = f")
      case True
      then have "as @ current_block dn # bs = xs @ [?q]" using as(1) xs by simp
      then have "bs = [] \<and> current_block dn = ?q \<or> length as < length xs"
        by (metis append_eq_append_conv butlast_append butlast_snoc last_appendR last_snoc
            length_append less_add_same_cancel1 length_greater_0_conv list.distinct(1) append_butlast_last_id
            last_ConsL length_Cons butlast.simps(2) zero_less_Suc)
      then show ?thesis
        using as l occ lx(2) by (auto simp: moved_def s1_def l'_def)
    qed (simp add: moved_def)
  qed
  have "move_descriptors f ?q ?occ 0 s1 =
      Some (s1\<lparr>descs := \<lambda>d. map_option (moved (blocks s1) f ?q (b_index l') ?occ) (descs s1 d)\<rparr>)"
  proof (rule move_all_descriptors)
    show "table_inv tab s1" by (rule table_inv_same [OF parts(4)]) (simp_all add: s1_def)
    show "\<forall>d dn. descs s1 d = Some dn \<longrightarrow> current_block dn \<in> dom (blocks s1)"
    proof (intro allI impI)
      fix e en assume "descs s1 e = Some en"
      then have "desc_ok bl s en" using parts(3) by (auto simp: descs_inv_def s1_def)
      then obtain m where "blocks s (current_block en) = Some m" by (rule desc_okD [OF parts(1)])
      then show "current_block en \<in> dom (blocks s1)" by (auto simp: s1_def)
    qed
    show "blocks s1 ?q = Some l'" by (simp add: s1_def)
  qed
  moreover have "(\<lambda>d. map_option (moved (blocks s1) f ?q (b_index l') ?occ) (descs s1 d)) = descs s1"
  proof
    fix d show "map_option (moved (blocks s1) f ?q (b_index l') ?occ) (descs s1 d) = descs s1 d"
      using stay by (cases "descs s1 d") auto
  qed
  ultimately have move: "move_descriptors f ?q ?occ 0 s1 = Some s1" by simp
  have "free_blocks_down_to ?q (blocks s1) (Some ?q) = Some (blocks s1)"
    by (subst free_blocks_down_to.simps) simp
  moreover have "(files s)(f \<mapsto> fn\<lparr>last_block := ?q\<rparr>) = files s" using fn by (auto simp: fun_eq_iff)
  ultimately show ?thesis
    using fn find l small(2) set move
    by (simp add: reduce_file_size_def BLOCK_SIZE_def set_file_def) (simp add: s1_def l'_eq)
qed

section \<open>A concrete file system\<close>

text \<open>After opening a new file a, writing hi to it and opening it again.\<close>

definition demo_ufs :: ufs where
  "demo_ufs = \<lparr>blocks = [0 \<mapsto> \<lparr>memory = Some (CHR ''h'') # Some (CHR ''i'') # replicate 510 None,
       occupied = 2, b_next = None, b_prev = None, b_index = 0\<rparr>],
     files = [1 \<mapsto> \<lparr>block_list = 0, last_block = 0, refs = 2, f_name = ''a'', f_next = None,
       f_prev = None, marked_for_deletion = False\<rparr>],
     descs = [2 \<mapsto> \<lparr>d_file = 1, d_index = 0, current_block = 0, block_offset = 2, d_flags = 1\<rparr>,
       3 \<mapsto> \<lparr>d_file = 1, d_index = 1, current_block = 0, block_offset = 0, d_flags = 0\<rparr>],
     next_ptr = 4, file_list = Some 1, file_descriptors = Some [Some (Some 2), Some (Some 3)],
     file_descriptor_count = 2, file_descriptor_capacity = 2, errno = UFS_ERR_NO_ERR\<rparr>"

definition demo_afs :: afs where
  "demo_afs = \<lparr>a_files = [1 \<mapsto> \<lparr>a_name = ''a'', a_data = map Some ''hi''\<rparr>], a_listed = [1],
     a_fds = [Some \<lparr>a_file = 1, a_pos = 2, a_flags = 1\<rparr>, Some \<lparr>a_file = 1, a_pos = 0, a_flags = 0\<rparr>],
     a_errno = UFS_ERR_NO_ERR\<rparr>"

lemma demo_rel: "ufs_rel demo_ufs demo_afs"
proof -
  let ?bl = "\<lambda>_ :: ptr. [0] :: ptr list"
  have users: "users demo_ufs 1 = {2, 3}" by (auto simp: users_def demo_ufs_def split: if_splits)
  have "file_inv (blocks demo_ufs) n [0]" if "files demo_ufs f = Some n" for f n
    using that by (auto simp: file_inv_def demo_ufs_def block_ok_def block_bytes_def MAX_FILE_SIZE_def split: if_splits)
  then have "blocks_inv ?bl demo_ufs"
    by (auto simp: blocks_inv_def owned_def) (auto simp: demo_ufs_def split: if_splits)
  moreover have "fresh_inv demo_ufs" by (auto simp: fresh_inv_def demo_ufs_def split: if_splits)
  moreover have "descs_inv ?bl demo_ufs"
    by (auto simp: descs_inv_def desc_ok_def demo_ufs_def split: if_splits)
  moreover have "table_inv [Some 2, Some 3] demo_ufs"
    by (auto simp: table_inv_def demo_ufs_def less_Suc_eq split: if_splits)
  moreover have "refs_inv demo_ufs"
    using users by (auto simp: refs_inv_def) (auto simp: demo_ufs_def split: if_splits)
  moreover have "list_inv [1] demo_ufs" by (auto simp: list_inv_def demo_ufs_def split: if_splits)
  ultimately have "ufs_inv ?bl [1] [Some 2, Some 3] demo_ufs" by (simp add: ufs_inv_def)
  moreover have "demo_afs = ufs_abs ?bl [1] [Some 2, Some 3] demo_ufs"
    by (auto simp: demo_afs_def ufs_abs_def file_abs_def fds_abs_def desc_abs_def desc_pos_def
        demo_ufs_def block_bytes_def fun_eq_iff)
  ultimately show ?thesis unfolding ufs_rel_def by blast
qed

lemma demo_lookup:
  "a_lookup 0 demo_afs = Some \<lparr>a_file = 1, a_pos = 2, a_flags = 1\<rparr>"
  "a_lookup 1 demo_afs = Some \<lparr>a_file = 1, a_pos = 0, a_flags = 0\<rparr>"
  "a_data_of demo_afs 1 = map Some ''hi''" "a_data_of demo_afs (Suc 0) = map Some ''hi''"
  by (simp_all add: a_lookup_def a_data_of_def demo_afs_def)

lemma demo_flags:
  "\<not> specific_flag_is_present 0 flag" "\<not> specific_flag_is_present 1 UFS_READ_ONLY"
  "\<not> specific_flag_is_present 1 UFS_WRITE_ONLY" "specific_flag_is_present UFS_CREATE UFS_CREATE"
  by (simp_all add: specific_flag_is_present_def ufs_flags)

lemma demo_calls:
  "fst (a_write 1 ''xyz'' demo_afs) = 3"
  "fst (a_read 1 100 demo_afs) = 2" "fst (snd (a_read 1 100 demo_afs)) = map Some ''hi''"
  "fst (a_close 0 demo_afs) = 0" "fst (a_delete ''a'' demo_afs) = 0" "fst (a_resize 0 1 demo_afs) = 0"
  "a_size_of 0 demo_afs = 2" "a_size_of 1 demo_afs = 2"
  by (simp_all add: a_write_def a_read_def a_close_def a_delete_def a_resize_def a_size_of_def
      demo_lookup demo_flags MAX_FILE_SIZE_def)
    (simp_all add: a_find_def demo_afs_def)

section \<open>Sequences of calls\<close>

lemma rel_names:
  assumes "ufs_rel s a"
  shows "inj_on (\<lambda>f. a_name (the (a_files a f))) (set (a_listed a))" "distinct (a_listed a)"
proof -
  obtain bl fl tab where r: "ufs_inv bl fl tab s" "a = ufs_abs bl fl tab s" using assms by (auto simp: ufs_rel_def)
  have li: "list_inv fl s" by (rule ufs_inv_parts(6) [OF r(1)])
  have "a_name (the (a_files a f)) = f_name (the (files s f))" if "f \<in> set fl" for f
    using that list_invD(3) [OF li] r(2) by (auto simp: ufs_abs_def file_abs_def)
  then show "inj_on (\<lambda>f. a_name (the (a_files a f))) (set (a_listed a))"
    using li r(2) by (simp add: list_inv_def ufs_abs_def inj_on_def)
  show "distinct (a_listed a)" using li r(2) by (simp add: list_inv_def ufs_abs_def)
qed

lemma deleted_name_unknown:
  assumes "ufs_rel s a" "a_find name a = Some f"
  shows "a_find name (a\<lparr>a_listed := remove1 f (a_listed a)\<rparr>) = None"
proof -
  note names = rel_names [OF assms(1)]
  have f: "a_name (the (a_files a f)) = name" "f \<in> set (a_listed a)"
    using assms(2) by (auto simp: a_find_def find_Some_iff)
  have "a_name (the (a_files a g)) \<noteq> name" if hg: "g \<in> set (remove1 f (a_listed a))" for g
  proof -
    have "g \<in> set (a_listed a)" "g \<noteq> f" using hg names(2) by auto
    then show ?thesis using names(1) f by (auto simp: inj_on_def)
  qed
  then show ?thesis by (auto simp: a_find_def find_None_iff)
qed

lemma a_used_lookup: "a_lookup fd a = Some d \<Longrightarrow> a_used (a_file d) (a_fds a)"
  by (auto simp: a_lookup_def a_used_def split: if_splits intro: exI [of _ d]) (metis nth_mem)

section \<open>A state a client reaches\<close>

text \<open>A client opens a new file and writes two bytes to it; the descriptor it gets is number 0.\<close>

lemma first_open:
  "\<exists>f s. ufs_open ''a'' UFS_CREATE ufs_initial = Some (0, s) \<and> reachable (\<lambda>s. s = ufs_initial) ufs_step s \<and>
     ufs_rel s \<lparr>a_files = [f \<mapsto> \<lparr>a_name = ''a'', a_data = []\<rparr>], a_listed = [f],
       a_fds = [Some \<lparr>a_file = f, a_pos = 0, a_flags = UFS_CREATE\<rparr>], a_errno = UFS_ERR_NO_ERR\<rparr>"
proof -
  have "length (a_fds a_initial) < 2 ^ 30" by (simp add: a_initial_def)
  then obtain f s where s: "ufs_open ''a'' UFS_CREATE ufs_initial = Some (fst (a_open f ''a'' UFS_CREATE a_initial), s)"
    "ufs_rel s (snd (a_open f ''a'' UFS_CREATE a_initial))"
    using open_rel [OF initial_rel] by blast
  have a: "a_open f ''a'' UFS_CREATE a_initial = (0, \<lparr>a_files = [f \<mapsto> \<lparr>a_name = ''a'', a_data = []\<rparr>], a_listed = [f],
       a_fds = [Some \<lparr>a_file = f, a_pos = 0, a_flags = UFS_CREATE\<rparr>], a_errno = UFS_ERR_NO_ERR\<rparr>)"
    by (simp add: a_open_def a_find_def a_create_def a_add_fd_def a_slot_def put_slot_def a_initial_def demo_flags)
  have "call_ok (Open ''a'' UFS_CREATE) ufs_initial" by (simp add: call_ok_def ufs_initial_def)
  then have "ufs_step ufs_initial s" by (rule ufs_step.call) (simp add: run_call_def s(1))
  then have "reachable (\<lambda>s. s = ufs_initial) ufs_step s" by (rule reach_step [OF reach_start, rotated]) simp
  then show ?thesis using s a by auto
qed

lemma first_write:
  "\<exists>s. reachable (\<lambda>s. s = ufs_initial) ufs_step s \<and> files s \<noteq> Map.empty \<and> blocks s \<noteq> Map.empty \<and>
     try_get_file_descriptor 0 s \<noteq> Some None"
proof -
  obtain f s where s: "reachable (\<lambda>s. s = ufs_initial) ufs_step s"
     "ufs_rel s \<lparr>a_files = [f \<mapsto> \<lparr>a_name = ''a'', a_data = []\<rparr>], a_listed = [f],
       a_fds = [Some \<lparr>a_file = f, a_pos = 0, a_flags = UFS_CREATE\<rparr>], a_errno = UFS_ERR_NO_ERR\<rparr>" (is "ufs_rel s ?a")
    using first_open by blast
  obtain t where t: "ufs_write 0 ''hi'' (length ''hi'') s = Some (fst (a_write 0 ''hi'' ?a), t)" "ufs_rel t (snd (a_write 0 ''hi'' ?a))"
    using write_rel [OF s(2), of "''hi''" 0] by auto
  have "call_ok (Write 0 ''hi'') s" by (simp add: call_ok_def)
  then have "ufs_step s t" by (rule ufs_step.call) (use t(1) in \<open>simp add: run_call_def\<close>)
  then have r: "reachable (\<lambda>s. s = ufs_initial) ufs_step t" by (rule reach_step [OF s(1)])
  obtain bl fl tab where inv: "ufs_inv bl fl tab t" and a: "snd (a_write 0 ''hi'' ?a) = ufs_abs bl fl tab t"
    using t(2) by (auto simp: ufs_rel_def)
  have "a_files (snd (a_write 0 ''hi'' ?a)) f \<noteq> None"
    by (simp add: a_write_def a_lookup_def specific_flag_is_present_def ufs_flags MAX_FILE_SIZE_def a_set_fd_def a_set_data_def)
  then obtain n where n: "files t f = Some n" using a by (auto simp: ufs_abs_def file_abs_def)
  have "file_inv (blocks t) n (bl f)" "set (bl f) \<subseteq> dom (blocks t)"
    using blocks_invD [OF ufs_inv_parts(1) [OF inv] n] .
  then have "last (bl f) \<in> dom (blocks t)" by (metis file_inv_def last_in_set subsetD)
  moreover have "a_lookup 0 (snd (a_write 0 ''hi'' ?a)) \<noteq> None"
    by (simp add: a_write_def a_lookup_def specific_flag_is_present_def ufs_flags MAX_FILE_SIZE_def a_set_fd_def a_set_data_def)
  then have "try_get_file_descriptor 0 t \<noteq> Some None"
    using lookup_cases [OF inv, of 0 "try_get_file_descriptor 0 t \<noteq> Some None"] a by auto
  ultimately show ?thesis using r n by (intro exI [of _ t]) auto
qed

section \<open>Properties\<close>

text \<open>C11: Opening. ufs_open finds the listed file with the name or, with UFS_CREATE, puts a new
  empty file at the head of the list, and gives the lowest free descriptor, counted from 0, at
  position 0 of the file; without the flag a missing file is UFS_ERR_NO_FILE. This is for tables of
  less than 2^30 descriptors, so that doubling the table does not overflow an int.\<close>

theorem open_correct:
  assumes "ufs_rel s a" "length (a_fds a) < 2 ^ 30"
  shows "\<exists>f t. a_files a f = None \<and> ufs_open name flags s = Some (fst (a_open f name flags a), t) \<and>
    ufs_rel t (snd (a_open f name flags a))"
  using assms by (rule open_rel)

theorem open_correct_witness:
  "\<exists>f t. ufs_open ''b'' UFS_CREATE demo_ufs = Some (2, t) \<and> ufs_rel t (snd (a_open f ''b'' UFS_CREATE demo_afs))"
proof -
  have "length (a_fds demo_afs) < 2 ^ 30" by (simp add: demo_afs_def)
  from open_correct [OF demo_rel this, of "''b''" UFS_CREATE] obtain f t where
    t: "ufs_open ''b'' UFS_CREATE demo_ufs = Some (fst (a_open f ''b'' UFS_CREATE demo_afs), t)"
      "ufs_rel t (snd (a_open f ''b'' UFS_CREATE demo_afs))"
    by blast
  have "a_find ''b'' demo_afs = None" by (simp add: a_find_def demo_afs_def)
  moreover have "specific_flag_is_present UFS_CREATE UFS_CREATE" by (rule demo_flags)
  ultimately have "fst (a_open f ''b'' UFS_CREATE demo_afs) = 2"
    by (simp add: a_open_def a_add_fd_def) (simp add: a_create_def a_slot_def demo_afs_def)
  then show ?thesis using t by auto
qed

text \<open>C8: Writing. ufs_write overwrites the bytes of the file from the position of the descriptor on,
  extends the file where it ends, moves the descriptor behind what it wrote, and changes no other
  file or descriptor; a bad descriptor, a missing permission and a file that would exceed
  100 MB are errors that change nothing.\<close>

theorem write_correct:
  assumes "ufs_rel s a" "length buf < 2 ^ 31 - 2 ^ 28"
  shows "\<exists>t. ufs_write fd buf (length buf) s = Some (fst (a_write fd buf a), t) \<and> ufs_rel t (snd (a_write fd buf a))"
  using assms by (rule write_rel)

theorem write_correct_witness:
  "\<exists>t. ufs_write 1 ''xyz'' 3 demo_ufs = Some (3, t) \<and> ufs_rel t (snd (a_write 1 ''xyz'' demo_afs))"
  using write_correct [OF demo_rel, of "''xyz''" 1]
  by (simp add: demo_calls numeral_3_eq_3)

text \<open>C9: Reading. ufs_read returns the bytes of the file from the position of the descriptor on, as
  many as asked for or as are left, and moves the descriptor behind them; nothing else changes.\<close>

theorem read_correct:
  assumes "ufs_rel s a" "n < 2 ^ 31"
  shows "\<exists>t. ufs_read fd n s = Some (fst (a_read fd n a), fst (snd (a_read fd n a)), t) \<and>
    ufs_rel t (snd (snd (a_read fd n a)))"
  using assms by (rule read_rel)

theorem read_correct_witness:
  "\<exists>t. ufs_read 1 100 demo_ufs = Some (2, map Some ''hi'', t) \<and> ufs_rel t (snd (snd (a_read 1 100 demo_afs)))"
  using read_correct [OF demo_rel, of 100 1]
  by (simp add: demo_calls)

text \<open>Closing. ufs_close empties the slot; a file that was deleted before and is open on no other
  descriptor is freed.\<close>

theorem close_correct:
  assumes "ufs_rel s a"
  shows "\<exists>t. ufs_close fd s = Some (fst (a_close fd a), t) \<and> ufs_rel t (snd (a_close fd a))"
  using assms by (rule close_rel)

theorem close_correct_witness:
  "\<exists>t. ufs_close 0 demo_ufs = Some (0, t) \<and> ufs_rel t (snd (a_close 0 demo_afs))"
  using close_correct [OF demo_rel, of 0]
  by (simp add: demo_calls)

text \<open>C12: Deleting. ufs_delete takes the file out of the list, so that its name can be used again, and
  frees it if no descriptor is open on it; otherwise the descriptors keep the file.\<close>

theorem delete_correct:
  assumes "ufs_rel s a"
  shows "\<exists>t. ufs_delete name s = Some (fst (a_delete name a), t) \<and> ufs_rel t (snd (a_delete name a))"
  using assms by (rule delete_rel)

theorem delete_correct_witness:
  "\<exists>t. ufs_delete ''a'' demo_ufs = Some (0, t) \<and> ufs_rel t (snd (a_delete ''a'' demo_afs))"
  using delete_correct [OF demo_rel, of "''a''"]
  by (simp add: demo_calls)

text \<open>C10: Shrinking. ufs_resize to a size the file has keeps the prefix of that size and moves the
  descriptors behind it to the new end; all other blocks of the file are freed.\<close>

theorem resize_correct:
  assumes "ufs_rel s a" "n \<le> a_size_of fd a \<or> int n \<ge> MAX_FILE_SIZE"
  shows "\<exists>t. ufs_resize fd n s = Some (fst (a_resize fd n a), t) \<and> ufs_rel t (snd (a_resize fd n a))"
  using assms by (rule resize_rel)

theorem resize_correct_witness:
  "\<exists>t. ufs_resize 0 1 demo_ufs = Some (0, t) \<and> ufs_rel t (snd (a_resize 0 1 demo_afs))"
proof -
  have "1 \<le> a_size_of 0 demo_afs \<or> int 1 \<ge> MAX_FILE_SIZE" by (simp add: demo_calls)
  from resize_correct [OF demo_rel this] show ?thesis
    by (simp add: demo_calls del: One_nat_def)
qed

text \<open>C7: No undefined behaviour. In every state that a client reaches from the start by the covered
  calls, each covered call returns, without a dereference of a freed object, an access outside of a
  block or of the table, or a signed overflow. Covered are all calls of ufs_close and ufs_delete,
  ufs_open with less than 2^30 descriptors in the table, ufs_read of less than 2^31 bytes, ufs_write
  of less than 2^31 - 2^28 bytes, and ufs_resize to at most the current size of the file (or to
  100 MB and more, which is refused). Growing a file with ufs_resize is not covered: it leaves a
  block with more bytes than it has (resize_growth_adds_no_block).\<close>

theorem calls_defined:
  assumes "reachable (\<lambda>s. s = ufs_initial) ufs_step s" "call_ok c s"
  shows "run_call c s \<noteq> None"
  using fs.reachable_has_inv [OF assms(1)] call_runs [OF _ assms(2)] by blast

theorem calls_defined_witness:
  "\<exists>s. files s \<noteq> Map.empty \<and> blocks s \<noteq> Map.empty \<and> run_call (Delete ''a'') s \<noteq> None"
proof -
  obtain s where s: "reachable (\<lambda>s. s = ufs_initial) ufs_step s" "files s \<noteq> Map.empty" "blocks s \<noteq> Map.empty"
    using first_write by blast
  have "call_ok (Delete ''a'') s" by (simp add: call_ok_def)
  from calls_defined [OF s(1) this] show ?thesis using s by blast
qed

text \<open>C13: A write is seen through every other descriptor of the file at once: what is read back is the
  old content with the written bytes over it.\<close>

theorem write_then_read:
  assumes "ufs_rel s a" "a_lookup fd a = Some d" "a_lookup fd' a = Some d'" "nat fd \<noteq> nat fd'"
    "a_file d' = a_file d" "\<not> specific_flag_is_present (a_flags d) UFS_READ_ONLY"
    "\<not> specific_flag_is_present (a_flags d') UFS_WRITE_ONLY"
    "int (a_pos d) + int (length buf) \<le> MAX_FILE_SIZE" "n < 2 ^ 31"
    "bytes = take n (drop (a_pos d') (overwrite (a_pos d) (map Some buf) (a_data_of a (a_file d))))"
  shows "\<exists>t u. ufs_write fd buf (length buf) s = Some (int (length buf), t) \<and>
    ufs_read fd' n t = Some (int (length bytes), bytes, u)"
proof -
  have len: "length buf < 2 ^ 31 - 2 ^ 28" using assms(8) by (simp add: MAX_FILE_SIZE_def)
  let ?b = "a_set_fd fd (Some (d\<lparr>a_pos := a_pos d + length buf\<rparr>))
    (a_set_data (a_file d) (overwrite (a_pos d) (map Some buf) (a_data_of a (a_file d))) a)"
  have "a_write fd buf a = (int (length buf), ?b)" using assms(2,6,8) by (simp add: a_write_def)
  then obtain t where t: "ufs_write fd buf (length buf) s = Some (int (length buf), t)" "ufs_rel t ?b"
    using write_rel [OF assms(1) len, of fd] by auto
  have "a_lookup fd' ?b = Some d'"
    using assms(3,4) by (auto simp: a_lookup_def a_set_fd_def a_set_data_def split: if_splits)
  moreover have "a_data_of ?b (a_file d') = overwrite (a_pos d) (map Some buf) (a_data_of a (a_file d))"
    using assms(5) by (simp add: a_data_of_def a_set_fd_def a_set_data_def)
  ultimately show ?thesis using t(1) read_rel [OF t(2) assms(9), of fd'] assms(7,10)
    by (auto simp: a_read_def Let_def)
qed

theorem write_then_read_witness:
  "\<exists>t u. ufs_write 0 ''xyz'' (length ''xyz'') demo_ufs = Some (int (length ''xyz''), t) \<and>
    ufs_read 1 100 t = Some (5, map Some ''hixyz'', u)"
proof -
  have "map Some ''hixyz'' = take 100 (drop (a_pos \<lparr>a_file = 1, a_pos = 0, a_flags = 0\<rparr>)
    (overwrite (a_pos \<lparr>a_file = 1, a_pos = 2, a_flags = 1\<rparr>) (map Some ''xyz'')
      (a_data_of demo_afs (a_file \<lparr>a_file = 1, a_pos = 2, a_flags = 1\<rparr>))))"
    by (simp add: demo_lookup overwrite_def)
  from write_then_read [OF demo_rel demo_lookup(1,2) _ _ _ _ _ _ this]
  show ?thesis by (simp add: demo_flags MAX_FILE_SIZE_def)
qed

text \<open>A deleted file lives on for its descriptors: after ufs_delete its name is free, and an open
  descriptor reads the same bytes as before.\<close>

theorem deleted_file_readable:
  assumes "ufs_rel s a" "a_lookup fd a = Some d" "a_find name a = Some (a_file d)"
    "\<not> specific_flag_is_present (a_flags d) UFS_WRITE_ONLY" "n < 2 ^ 31" "length (a_fds a) < 2 ^ 30"
    "bytes = take n (drop (a_pos d) (a_data_of a (a_file d)))"
  shows "\<exists>t u v. ufs_delete name s = Some (0, t) \<and> ufs_open name 0 t = Some (-1, u) \<and>
    ufs_read fd n u = Some (int (length bytes), bytes, v)"
proof -
  let ?b = "a\<lparr>a_listed := remove1 (a_file d) (a_listed a)\<rparr>"
  let ?c = "?b\<lparr>a_errno := UFS_ERR_NO_FILE\<rparr>"
  have "a_delete name a = (0, ?b)"
    using assms(3) a_used_lookup [OF assms(2)] by (simp add: a_delete_def a_drop_def)
  then obtain t where t: "ufs_delete name s = Some (0, t)" "ufs_rel t ?b"
    using delete_rel [OF assms(1), of name] by auto
  have "a_open f name 0 ?b = (-1, ?c)" for f
    using deleted_name_unknown [OF assms(1,3)]
    by (simp add: a_open_def a_fail_def specific_flag_is_present_def)
  then obtain u where u: "ufs_open name 0 t = Some (-1, u)" "ufs_rel u ?c"
    using open_rel [OF t(2), of name 0] assms(6) by auto
  have "a_lookup fd ?c = a_lookup fd a" "a_data_of ?c (a_file d) = a_data_of a (a_file d)"
    by (simp_all add: a_lookup_def a_data_of_def)
  then have "a_lookup fd ?c = Some d" "a_data_of ?c (a_file d) = a_data_of a (a_file d)"
    using assms(2) by simp_all
  then show ?thesis using t(1) u(1) read_rel [OF u(2) assms(5), of fd] assms(4,7)
    by (auto simp: a_read_def Let_def)
qed

theorem deleted_file_readable_witness:
  "\<exists>t u v. ufs_delete ''a'' demo_ufs = Some (0, t) \<and> ufs_open ''a'' 0 t = Some (-1, u) \<and>
    ufs_read 1 100 u = Some (2, map Some ''hi'', v)"
proof -
  have a: "a_find ''a'' demo_afs = Some (a_file \<lparr>a_file = 1, a_pos = 0, a_flags = 0\<rparr>)"
    "length (a_fds demo_afs) < 2 ^ 30" by (simp_all add: a_find_def demo_afs_def)
  have "map Some ''hi'' = take 100 (drop (a_pos \<lparr>a_file = 1, a_pos = 0, a_flags = 0\<rparr>)
      (a_data_of demo_afs (a_file \<lparr>a_file = 1, a_pos = 0, a_flags = 0\<rparr>)))"
    by (simp add: demo_lookup)
  from deleted_file_readable [OF demo_rel demo_lookup(2) a(1) _ _ a(2) this]
  show ?thesis by (simp add: demo_flags)
qed

text \<open>C14: ufs_destroy frees every block, file and descriptor, deleted files that are still open
  included, in any state that a client reaches by the covered calls, that is by all calls of the
  interface but growing a file with ufs_resize and within the limits on sizes of calls_defined.\<close>

theorem destroy_frees_everything:
  assumes "reachable (\<lambda>s. s = ufs_initial) ufs_step s"
  shows "\<exists>t. ufs_destroy s = Some t \<and> blocks t = Map.empty \<and> files t = Map.empty \<and>
    descs t = Map.empty \<and> file_list t = None"
proof -
  obtain a where "ufs_rel s a" using fs.reachable_has_inv [OF assms] by blast
  then obtain bl fl tab where "ufs_inv bl fl tab s" by (auto simp: ufs_rel_def)
  then show ?thesis using destroy_spec by blast
qed

theorem destroy_frees_everything_witness:
  "\<exists>s t. files s \<noteq> Map.empty \<and> blocks s \<noteq> Map.empty \<and> try_get_file_descriptor 0 s \<noteq> Some None \<and>
    ufs_destroy s = Some t \<and> blocks t = Map.empty \<and> files t = Map.empty \<and> descs t = Map.empty \<and> file_list t = None"
proof -
  obtain s where s: "reachable (\<lambda>s. s = ufs_initial) ufs_step s" "files s \<noteq> Map.empty" "blocks s \<noteq> Map.empty"
    "try_get_file_descriptor 0 s \<noteq> Some None" using first_write by blast
  from destroy_frees_everything [OF s(1)] show ?thesis using s by blast
qed

text \<open>The first descriptor is 0, which the header does not count among the results of a success.\<close>

theorem first_descriptor_is_zero: "\<exists>s. ufs_open ''a'' UFS_CREATE ufs_initial = Some (0, s)"
  using first_open by blast

text \<open>Growing a file with ufs_resize allocates no block: the new size is only recorded in the last
  block, whose occupied count may then exceed the 512 bytes it has, and the bytes of the file
  beyond its old end are whatever the memory holds.\<close>

theorem resize_growth_adds_no_block:
  assumes "ufs_rel s a" "try_get_file_descriptor fd s = Some (Some e)" "descs s e = Some dn"
    "files s (d_file dn) = Some fn" "blocks s (last_block fn) = Some l"
    "file_size fd s \<le> int n" "int n < MAX_FILE_SIZE"
  shows "ufs_resize fd n s =
    Some (0, s\<lparr>blocks := (blocks s)(last_block fn \<mapsto> l\<lparr>occupied := int n - b_index l * 512\<rparr>)\<rparr>)"
proof -
  obtain bl fl tab where inv: "ufs_inv bl fl tab s" using assms(1) by (auto simp: ufs_rel_def)
  have "b_index l * 512 + occupied l \<le> int n"
    using assms(2-6) by (simp add: file_size_def BLOCK_SIZE_def)
  from grow_run [OF inv assms(4,5) this assms(7)] show ?thesis
    using assms(2,3,7) by (simp add: ufs_resize_def)
qed

theorem resize_growth_adds_no_block_witness:
  "\<exists>t l. ufs_resize 0 1000 demo_ufs = Some (0, t) \<and> dom (blocks t) = {0} \<and>
    blocks t 0 = Some l \<and> length (memory l) = 512 \<and> occupied l = 1000"
proof -
  have "try_get_file_descriptor 0 demo_ufs = Some (Some 2)"
    by (simp add: try_get_file_descriptor_def demo_ufs_def cget_def)
  from resize_growth_adds_no_block [OF demo_rel this, of _ _ _ 1000]
  show ?thesis by (simp add: file_size_rel [OF demo_rel] demo_calls MAX_FILE_SIZE_def) (simp add: demo_ufs_def)
qed

end
