(* ===== verification/Shell_Tokens.thy ===== *)
theory Shell_Tokens
  imports Prelude
begin

text \<open>
  The tokenizer of the shell, 2/tokenizer.c with the string helpers of 2/utils.c. A C string is the
  list of its characters before the terminating zero; a pointer into a string is the rest of the
  list from there, so the end of the list is the character zero that the loops test for. A token
  list is the list of its tokens. The buffers the code allocates are as long as the input and are
  written from left to right: they are lists too.
\<close>

section \<open>Characters\<close>

abbreviation backslash :: char where "backslash \<equiv> CHR 0x5C"
abbreviation double_quote :: char where "double_quote \<equiv> CHR 0x22"
abbreviation single_quote :: char where "single_quote \<equiv> CHR 0x27"
abbreviation newline :: char where "newline \<equiv> CHR 0x0A"
abbreviation tab :: char where "tab \<equiv> CHR 0x09"
abbreviation space :: char where "space \<equiv> CHR 0x20"

definition is_space :: "char \<Rightarrow> bool" where
  "is_space c \<longleftrightarrow> c = tab \<or> c = space \<or> c = newline"

definition is_quote :: "char \<Rightarrow> bool" where
  "is_quote c \<longleftrightarrow> c = single_quote \<or> c = double_quote"

definition is_operator_char :: "char \<Rightarrow> bool" where
  "is_operator_char c \<longleftrightarrow> c = CHR ''>'' \<or> c = CHR ''&'' \<or> c = CHR ''|''"

lemmas char_kinds = is_space_def is_quote_def is_operator_char_def

definition substring :: "string \<Rightarrow> nat \<Rightarrow> string" where
  "substring string char_count = take char_count string"

definition strings_equal :: "string \<Rightarrow> string \<Rightarrow> bool" where
  "strings_equal str1 str2 \<longleftrightarrow> str1 = str2"

section \<open>Quoted tokens\<close>

text \<open>The distance of the closing quote from the start of the string, or of its end if there is none.\<close>

fun get_closing_quote_index :: "string \<Rightarrow> char \<Rightarrow> bool \<Rightarrow> nat" where
  "get_closing_quote_index [] q next_char_is_escaped = 0"
| "get_closing_quote_index (c # s) q next_char_is_escaped =
     (if c = backslash then Suc (get_closing_quote_index s q (\<not> next_char_is_escaped))
      else if \<not> next_char_is_escaped \<and> c = q then 0
      else Suc (get_closing_quote_index s q False))"

fun extract_quoted_token :: "string \<Rightarrow> char \<Rightarrow> bool \<Rightarrow> string" where
  "extract_quoted_token [] q next_char_is_escaped = []"
| "extract_quoted_token (c # s) q next_char_is_escaped =
     (if c = backslash
      then if next_char_is_escaped then backslash # extract_quoted_token s q False
           else extract_quoted_token s q True
      else (if next_char_is_escaped
            then if is_quote c then if c \<noteq> q then [backslash] else [] else [backslash]
            else []) @ c # extract_quoted_token s q False)"

text \<open>The string is the one after the opening quote; the rest is None after an unclosed quote.\<close>

definition extract_quoted_literal :: "string \<Rightarrow> char \<Rightarrow> string \<times> string option" where
  "extract_quoted_literal string quote_symbol =
     (let closing_quote_index = get_closing_quote_index string quote_symbol False in
      (extract_quoted_token (take closing_quote_index string) quote_symbol False,
       if closing_quote_index = length string then None else Some (drop (closing_quote_index + 1) string)))"

section \<open>One token, all tokens\<close>

text \<open>The new string without what precedes the start of the token, if there is one.\<close>

definition prepend_unclassified_token_if_needed :: "string \<Rightarrow> nat option \<Rightarrow> string list \<Rightarrow> nat \<Rightarrow> string list" where
  "prepend_unclassified_token_if_needed string non_classified_token_start following_tokens following_tokens_start =
     (case non_classified_token_start of
        None \<Rightarrow> following_tokens
      | Some start \<Rightarrow> substring (drop start string) (following_tokens_start - start) # following_tokens)"

text \<open>
  The loop of get_one_token: what is left of the old string, the index old_string_ptr of the next
  character in it, the new string up to new_string_ptr, the start of a token, and whether the
  next character is escaped.
\<close>

fun one_token_loop :: "string \<Rightarrow> nat \<Rightarrow> string \<Rightarrow> nat option \<Rightarrow> bool \<Rightarrow> string list \<times> string option" where
  "one_token_loop [] old_string_ptr new_string start char_is_escaped =
     (prepend_unclassified_token_if_needed new_string start [] (length new_string), None)"
| "one_token_loop (c # s) old_string_ptr new_string start char_is_escaped =
     (if \<not> char_is_escaped \<and> is_space c \<and> start \<noteq> None
      then ([substring (drop (the start) new_string) (length new_string - the start)], Some s)
      else if \<not> char_is_escaped \<and> is_quote c
      then (case extract_quoted_literal s c of (token, rest) \<Rightarrow>
              (prepend_unclassified_token_if_needed new_string start [token] (length new_string), rest))
      else if \<not> char_is_escaped \<and> is_operator_char c
      then (let classified_token_size = (case s of [] \<Rightarrow> 1 | c' # _ \<Rightarrow> if c' = c then 2 else 1) in
            (prepend_unclassified_token_if_needed new_string start
               [substring (c # s) classified_token_size] (length new_string),
             Some (drop classified_token_size (c # s))))
      else
        (let start' = (if \<not> char_is_escaped \<and> \<not> is_space c \<and> start = None then Some old_string_ptr else start) in
         if c = backslash
         then if char_is_escaped then one_token_loop s (old_string_ptr + 1) (new_string @ [c]) start' False
              else one_token_loop s (old_string_ptr + 1) new_string start' True
         else one_token_loop s (old_string_ptr + 1) (new_string @ [c]) start' False))"

definition get_one_token :: "string \<Rightarrow> string list \<times> string option" where
  "get_one_token string = one_token_loop string 0 [] None False"

lemma closing_quote_le: "get_closing_quote_index s q esc \<le> length s"
  by (induction s q esc rule: get_closing_quote_index.induct) auto

lemma extract_quoted_literal_shorter:
  assumes "extract_quoted_literal s q = (token, Some r)"
  shows "length r < length s"
  using assms closing_quote_le [of s q False]
  by (auto simp: extract_quoted_literal_def Let_def split: if_splits)

text \<open>The branches of the loop.\<close>

lemma token_end:
  "is_space c \<Longrightarrow> one_token_loop (c # s) old new (Some k) False =
     ([drop k new], Some s)"
  by (simp add: substring_def)

lemma token_quote:
  assumes "is_quote c"
  shows "one_token_loop (c # s) old new start False = (case extract_quoted_literal s c of (token, rest) \<Rightarrow>
    (prepend_unclassified_token_if_needed new start [token] (length new), rest))"
proof -
  have "\<not> is_space c" using assms by (auto simp: char_kinds)
  then show ?thesis using assms by simp
qed

lemma token_operator:
  assumes "is_operator_char c"
  shows "one_token_loop (c # s) old new start False =
    (let n = (case s of [] \<Rightarrow> 1 | c' # _ \<Rightarrow> if c' = c then 2 else 1) in
     (prepend_unclassified_token_if_needed new start [take n (c # s)] (length new), Some (drop n (c # s))))"
proof -
  have "\<not> is_space c" "\<not> is_quote c" using assms by (auto simp: char_kinds)
  then show ?thesis using assms by (simp add: substring_def)
qed

definition ordinary :: "char \<Rightarrow> nat option \<Rightarrow> bool \<Rightarrow> bool" where
  "ordinary c start esc \<longleftrightarrow> esc \<or> \<not> is_quote c \<and> \<not> is_operator_char c \<and> (is_space c \<longrightarrow> start = None)"

lemma token_char:
  "ordinary c start esc \<Longrightarrow> one_token_loop (c # s) old new start esc =
     one_token_loop s (Suc old) (if c = backslash \<and> \<not> esc then new else new @ [c])
       (if \<not> esc \<and> \<not> is_space c \<and> start = None then Some old else start) (c = backslash \<and> \<not> esc)"
  by (auto simp: ordinary_def)

lemma char_cases:
  obtains (end_token) k where "is_space c" "start = Some k" "esc = False"
  | (quote) "is_quote c" "esc = False" | (operator) "is_operator_char c" "esc = False"
  | (ordinary) "ordinary c start esc"
  by (cases start) (auto simp: ordinary_def)

declare one_token_loop.simps(2) [simp del]

lemma one_token_shorter:
  "one_token_loop s old new start esc = (tokens, Some r) \<Longrightarrow> length r < length s"
proof (induction s arbitrary: old new start esc)
  case (Cons c s)
  show ?case
  proof (cases rule: char_cases [of c start esc])
    case (end_token k)
    then show ?thesis using Cons.prems by (simp add: token_end)
  next
    case quote
    then have "extract_quoted_literal s c = (fst (extract_quoted_literal s c), Some r)"
      using Cons.prems by (auto simp: token_quote split: prod.splits)
    then show ?thesis using extract_quoted_literal_shorter by fastforce
  next
    case operator
    then show ?thesis using Cons.prems by (auto simp: token_operator Let_def split: list.splits if_splits)
  next
    case ordinary
    show ?thesis using Cons.IH Cons.prems unfolding token_char [OF ordinary] by fastforce
  qed
qed simp

function get_tokens :: "string option \<Rightarrow> string list" where
  "get_tokens None = []"
| "get_tokens (Some string) =
     (let one_token_info = get_one_token string in fst one_token_info @ get_tokens (snd one_token_info))"
  by pat_completeness auto
termination
proof (relation "measure (\<lambda>x. case x of None \<Rightarrow> 0 | Some s \<Rightarrow> Suc (length s))")
  show "(snd info, Some string) \<in> measure (\<lambda>x. case x of None \<Rightarrow> 0 | Some s \<Rightarrow> Suc (length s))"
    if "info = get_one_token string" for info string
  proof (cases "snd info")
    case (Some r)
    then have "one_token_loop string 0 [] None False = (fst info, Some r)"
      using that by (metis get_one_token_def prod.collapse)
    then have "length r < length string" by (rule one_token_shorter)
    then show ?thesis using Some by simp
  qed simp
qed simp

declare get_tokens.simps(2) [simp del]

section \<open>Spellings of a token\<close>

text \<open>The buffer of the new string before the start of the token does not matter.\<close>

lemma token_shift:
  "one_token_loop s (length p + old) (p @ new) (map_option ((+) (length p)) start) esc =
   one_token_loop s old new start esc"
proof (induction s arbitrary: old new start esc)
  case Nil
  then show ?case by (cases start) (simp_all add: prepend_unclassified_token_if_needed_def substring_def)
next
  case (Cons c s)
  show ?case
  proof (cases rule: char_cases [of c start esc])
    case (end_token k)
    then show ?thesis by (simp add: token_end)
  next
    case quote
    then show ?thesis
      by (cases start) (simp_all add: token_quote prepend_unclassified_token_if_needed_def substring_def)
  next
    case operator
    then show ?thesis
      by (cases start) (simp_all add: token_operator prepend_unclassified_token_if_needed_def substring_def Let_def)
  next
    case ordinary
    let ?start = "if \<not> esc \<and> \<not> is_space c \<and> start = None then Some old else start"
    have ord: "ordinary c (map_option ((+) (length p)) start) esc" using ordinary by (auto simp: ordinary_def)
    have "one_token_loop s (length p + Suc old) (p @ (if c = backslash \<and> \<not> esc then new else new @ [c]))
        (map_option ((+) (length p)) ?start) (c = backslash \<and> \<not> esc) =
      one_token_loop s (Suc old) (if c = backslash \<and> \<not> esc then new else new @ [c]) ?start (c = backslash \<and> \<not> esc)"
      by (rule Cons.IH)
    then show ?thesis
      unfolding token_char [OF ordinary] token_char [OF ord] by (auto split: if_splits)
  qed
qed

lemma tokens_skip_space:
  assumes "is_space c"
  shows "get_tokens (Some (c # s)) = get_tokens (Some s)"
proof -
  have "ordinary c None False" using assms by (auto simp: ordinary_def char_kinds)
  then have "get_one_token (c # s) = one_token_loop s (Suc 0) [c] None False"
    using assms by (auto simp: get_one_token_def token_char char_kinds)
  also have "\<dots> = get_one_token s"
    using token_shift [of s "[c]" 0 "[]" None False] by (simp add: get_one_token_def)
  finally show ?thesis by (simp add: get_tokens.simps)
qed

text \<open>
  The ways to write a token: in quotes of either kind with the quote and the backslash escaped,
  bare with every special character escaped by a backslash, and the operators as they are. A
  backslash before a newline is not an escape: the reader joins the lines.
\<close>

definition quote_char :: "char \<Rightarrow> char \<Rightarrow> string" where
  "quote_char q c = (if c = q \<or> c = backslash then [backslash, c] else [c])"

definition quoted :: "char \<Rightarrow> string \<Rightarrow> string" where
  "quoted q t = q # concat (map (quote_char q) t) @ [q]"

definition special :: "char \<Rightarrow> bool" where
  "special c \<longleftrightarrow> is_space c \<or> is_quote c \<or> is_operator_char c \<or> c = backslash"

inductive bare :: "string \<Rightarrow> string \<Rightarrow> bool" where
  bare_nil: "bare [] []"
| bare_plain: "\<not> special c \<Longrightarrow> bare t s \<Longrightarrow> bare (c # t) (c # s)"
| bare_escaped: "c \<noteq> newline \<Longrightarrow> bare t s \<Longrightarrow> bare (c # t) (backslash # c # s)"

definition operators :: "string set" where
  "operators = {''>'', ''>>'', ''&'', ''&&'', ''|'', ''||''}"

inductive spelling :: "string \<Rightarrow> string \<Rightarrow> bool" where
  spell_quoted: "is_quote q \<Longrightarrow> spelling t (quoted q t)"
| spell_bare: "t \<noteq> [] \<Longrightarrow> bare t s \<Longrightarrow> spelling t s"
| spell_operator: "t \<in> operators \<Longrightarrow> spelling t t"

lemma closing_quote_quoted:
  "is_quote q \<Longrightarrow> get_closing_quote_index (concat (map (quote_char q) t) @ q # r) q False =
     length (concat (map (quote_char q) t))"
  by (induction t) (auto simp: quote_char_def is_quote_def)

lemma extract_quoted:
  "is_quote q \<Longrightarrow> extract_quoted_token (concat (map (quote_char q) t)) q False = t"
  by (induction t) (auto simp: quote_char_def is_quote_def)

lemma quoted_literal:
  "is_quote q \<Longrightarrow> extract_quoted_literal (concat (map (quote_char q) t) @ q # r) q = (t, Some r)"
  by (simp add: extract_quoted_literal_def closing_quote_quoted extract_quoted)

lemma bare_loop:
  "bare t s \<Longrightarrow> k \<le> length new \<Longrightarrow> r = [] \<or> is_space (hd r) \<Longrightarrow>
     one_token_loop (s @ r) old new (Some k) False =
       ([drop k (new @ t)], if r = [] then None else Some (tl r))"
proof (induction t s arbitrary: old new rule: bare.induct)
  case bare_nil
  then show ?case
    by (cases r) (auto simp: token_end prepend_unclassified_token_if_needed_def substring_def)
next
  case (bare_plain c t s)
  have "ordinary c (Some k) False" "c \<noteq> backslash" using bare_plain(1) by (auto simp: special_def ordinary_def)
  then show ?case using bare_plain.IH [of "new @ [c]" "Suc old"] bare_plain.prems by (simp add: token_char)
next
  case (bare_escaped c t s)
  have "ordinary backslash (Some k) False" "ordinary c (Some k) True" by (auto simp: ordinary_def char_kinds)
  then show ?case
    using bare_escaped.IH [of "new @ [c]" "Suc (Suc old)"] bare_escaped.prems by (simp add: token_char)
qed

lemma bare_first:
  assumes "bare t s" "t \<noteq> []" "r = [] \<or> is_space (hd r)"
  shows "get_one_token (s @ r) = ([t], if r = [] then None else Some (tl r))"
  using assms(1)
proof (cases rule: bare.cases)
  case bare_nil
  then show ?thesis using assms(2) by simp
next
  case (bare_plain c t' s')
  have "ordinary c None False" "c \<noteq> backslash" "\<not> is_space c" using bare_plain(3) by (auto simp: special_def ordinary_def)
  then show ?thesis
    using bare_loop [OF bare_plain(4), of 0 "[c]" r "Suc 0"] assms(3) bare_plain(1,2)
    by (simp add: get_one_token_def token_char)
next
  case (bare_escaped c t' s')
  have "ordinary backslash None False" "ordinary c (Some 0) True" by (auto simp: ordinary_def char_kinds)
  moreover have "\<not> is_space backslash" by (simp add: char_kinds)
  ultimately show ?thesis
    using bare_loop [OF bare_escaped(4), of 0 "[c]" r "Suc (Suc 0)"] assms(3) bare_escaped(1,2)
    by (simp add: get_one_token_def token_char)
qed

lemma spelling_token:
  assumes "spelling t s" "r = [] \<or> is_space (hd r)"
  shows "get_tokens (Some (s @ r)) = t # get_tokens (Some r)"
  using assms(1)
proof (cases rule: spelling.cases)
  case (spell_quoted q)
  then have "get_one_token (s @ r) = ([t], Some r)"
    by (simp add: get_one_token_def quoted_def token_quote quoted_literal prepend_unclassified_token_if_needed_def)
  then show ?thesis by (simp add: get_tokens.simps)
next
  case spell_bare
  have one: "get_one_token (s @ r) = ([t], if r = [] then None else Some (tl r))"
    by (rule bare_first [OF spell_bare(2,1) assms(2)])
  show ?thesis
  proof (cases r)
    case Nil
    have "get_one_token [] = ([], None)"
      by (simp add: get_one_token_def prepend_unclassified_token_if_needed_def)
    then show ?thesis using one Nil by (simp add: get_tokens.simps)
  next
    case (Cons c r')
    then show ?thesis using one assms(2) tokens_skip_space [of c r'] by (simp add: get_tokens.simps)
  qed
next
  case spell_operator
  obtain c n where t: "t = replicate n c" "n = 1 \<or> n = 2" "is_operator_char c"
    using spell_operator(2) by (auto simp: operators_def char_kinds numeral_2_eq_2)
      (metis One_nat_def Suc_1 replicate.simps)+
  have "r = [] \<or> hd r \<noteq> c" using assms(2) t(3) by (auto simp: char_kinds)
  then have "get_one_token (s @ r) = ([t], Some r)"
    using t spell_operator(1)
    by (cases r) (auto simp: get_one_token_def token_operator prepend_unclassified_token_if_needed_def numeral_2_eq_2)
  then show ?thesis by (simp add: get_tokens.simps)
qed

fun unwords :: "string list \<Rightarrow> string" where
  "unwords [] = []"
| "unwords [s] = s"
| "unwords (s # ss) = s @ space # unwords ss"

lemma spellings_tokens:
  "list_all2 spelling ts ss \<Longrightarrow> get_tokens (Some (unwords ss)) = ts"
proof (induction rule: list_all2_induct)
  case Nil
  show ?case
    by (simp add: get_tokens.simps get_one_token_def prepend_unclassified_token_if_needed_def)
next
  case (Cons t ts s ss)
  have sp: "is_space space" by (simp add: char_kinds)
  show ?case
  proof (cases ss)
    case Nil
    then show ?thesis using spelling_token [OF Cons(1), of "[]"] Cons.IH by simp
  next
    case (Cons s' ss')
    then show ?thesis
      using spelling_token [OF Cons.hyps(1), of "space # unwords ss"] Cons.IH tokens_skip_space [OF sp, of "unwords ss"] sp
      by simp
  qed
qed

text \<open>A quoted token is never longer than the text between the quotes: the buffer for it suffices.\<close>

lemma quoted_token_fits: "length (extract_quoted_token s q esc) \<le> length s + (if esc then 1 else 0)"
  by (induction s q esc rule: extract_quoted_token.induct) auto

end
