(* ===== verification/Shell_Parser.thy ===== *)
theory Shell_Parser
  imports Shell_Tokens
begin

text \<open>
  The parser of 2/parser.c: the tokens of a line become an array of commands, where an operator is
  a command of its own. The argument count of a command is the length of its arguments.
\<close>

section \<open>The code\<close>

record command =
  c_name :: string
  c_argv :: "string list"

definition is_operator :: "string \<Rightarrow> bool" where
  "is_operator string = (case string of [] \<Rightarrow> False | c # _ \<Rightarrow> is_operator_char c)"

fun count_tokens_until_operator_or_end :: "string list \<Rightarrow> nat \<Rightarrow> nat" where
  "count_tokens_until_operator_or_end [] start_count = start_count"
| "count_tokens_until_operator_or_end (token # other_tokens) start_count =
     (if is_operator token then start_count
      else count_tokens_until_operator_or_end other_tokens (start_count + 1))"

function convert_tokens_without_disposal :: "string list \<Rightarrow> command list" where
  "convert_tokens_without_disposal [] = []"
| "convert_tokens_without_disposal (command # other_tokens) =
     (let argument_count = (if \<not> is_operator command
                            then count_tokens_until_operator_or_end other_tokens 0 else 0) in
      \<lparr>c_name = command, c_argv = take argument_count other_tokens\<rparr>
      # convert_tokens_without_disposal (drop argument_count other_tokens))"
  by pat_completeness auto
termination by (relation "measure length") auto

fun count_commands :: "command list \<Rightarrow> nat \<Rightarrow> nat" where
  "count_commands [] start_count = start_count"
| "count_commands (_ # other_commands) start_count = count_commands other_commands (start_count + 1)"

definition parse :: "string \<Rightarrow> command list" where
  "parse string =
     (let commands = convert_tokens_without_disposal (get_tokens (Some string)) in
      map (\<lambda>i. commands ! i) [0..<count_commands commands 0])"

section \<open>What a parsed line looks like\<close>

text \<open>An operator has no arguments, no argument is an operator, and two commands that are no
  operators are never next to each other.\<close>

fun well_formed :: "command list \<Rightarrow> bool" where
  "well_formed [] \<longleftrightarrow> True"
| "well_formed (c # cs) \<longleftrightarrow> list_all (\<lambda>a. \<not> is_operator a) (c_argv c) \<and>
     (if is_operator (c_name c) then c_argv c = []
      else case cs of [] \<Rightarrow> True | d # _ \<Rightarrow> is_operator (c_name d)) \<and>
     well_formed cs"

definition all_tokens :: "command list \<Rightarrow> string list" where
  "all_tokens cs = concat (map (\<lambda>c. c_name c # c_argv c) cs)"

lemma count_takeWhile:
  "count_tokens_until_operator_or_end ts n = n + length (takeWhile (\<lambda>a. \<not> is_operator a) ts)"
  by (induction ts arbitrary: n) auto

lemma count_commands_length: "count_commands cs n = n + length cs"
  by (induction cs arbitrary: n) auto

lemma parse_commands: "parse s = convert_tokens_without_disposal (get_tokens (Some s))"
  by (simp add: parse_def Let_def count_commands_length map_nth)

lemma take_takeWhile: "take (length (takeWhile P xs)) xs = takeWhile P xs"
  by (metis append_eq_conv_conj takeWhile_dropWhile_id)

lemma convert_cons:
  "convert_tokens_without_disposal (t # ts) =
     (if is_operator t then \<lparr>c_name = t, c_argv = []\<rparr> # convert_tokens_without_disposal ts
      else \<lparr>c_name = t, c_argv = takeWhile (\<lambda>a. \<not> is_operator a) ts\<rparr>
        # convert_tokens_without_disposal (dropWhile (\<lambda>a. \<not> is_operator a) ts))"
  by (subst convert_tokens_without_disposal.simps(2))
    (simp add: count_takeWhile take_takeWhile dropWhile_eq_drop [symmetric])

declare convert_tokens_without_disposal.simps(2) [simp del]

lemma shorter_dropWhile: "length (dropWhile P xs) < Suc (length xs)"
  by (simp add: le_imp_less_Suc length_dropWhile_le)

lemma convert_flatten: "all_tokens (convert_tokens_without_disposal ts) = ts"
proof (induction ts rule: length_induct)
  case (1 ts)
  then show ?case
    by (cases ts) (simp_all add: all_tokens_def convert_cons shorter_dropWhile)
qed

lemma convert_head: "convert_tokens_without_disposal ts = c # cs \<Longrightarrow> ts \<noteq> [] \<and> c_name c = hd ts"
  by (cases ts) (auto simp: convert_cons split: if_splits)

lemma convert_well_formed: "well_formed (convert_tokens_without_disposal ts)"
proof (induction ts rule: length_induct)
  case (1 ts)
  show ?case
  proof (cases ts)
    case (Cons t us)
    let ?vs = "dropWhile (\<lambda>a. \<not> is_operator a) us"
    have "well_formed (convert_tokens_without_disposal us)" "well_formed (convert_tokens_without_disposal ?vs)"
      using 1 Cons shorter_dropWhile [of "\<lambda>a. \<not> is_operator a" us] by auto
    moreover have "is_operator (c_name d)" if "convert_tokens_without_disposal ?vs = d # ds" for d ds
      using convert_head [OF that] hd_dropWhile [of "\<lambda>a. \<not> is_operator a" us] by auto
    moreover have "list_all (\<lambda>a. \<not> is_operator a) (takeWhile (\<lambda>a. \<not> is_operator a) us)"
      by (auto simp: list_all_iff dest: set_takeWhileD)
    ultimately show ?thesis using Cons by (auto simp: convert_cons split: list.splits)
  qed simp
qed

lemma well_formed_unique: "well_formed cs \<Longrightarrow> convert_tokens_without_disposal (all_tokens cs) = cs"
proof (induction cs)
  case (Cons c cs)
  then have IH: "convert_tokens_without_disposal (all_tokens cs) = cs" by simp
  have all: "all_tokens (c # cs) = c_name c # c_argv c @ all_tokens cs" by (simp add: all_tokens_def)
  show ?case
  proof (cases "is_operator (c_name c)")
    case True
    then show ?thesis using Cons.prems IH all by (simp add: convert_cons)
  next
    case False
    have args: "\<forall>a\<in>set (c_argv c). \<not> is_operator a" using Cons.prems by (simp add: list_all_iff)
    have "all_tokens cs = [] \<or> is_operator (hd (all_tokens cs))"
      using Cons.prems False by (cases cs) (auto simp: all_tokens_def)
    then have "takeWhile (\<lambda>a. \<not> is_operator a) (c_argv c @ all_tokens cs) = c_argv c"
      "dropWhile (\<lambda>a. \<not> is_operator a) (c_argv c @ all_tokens cs) = all_tokens cs"
      using args by (cases "all_tokens cs"; simp add: takeWhile_append2 dropWhile_append2)+
    then show ?thesis using False IH all by (simp add: convert_cons)
  qed
qed (simp add: all_tokens_def)

lemma parse_iff: "parse s = cs \<longleftrightarrow> well_formed cs \<and> all_tokens cs = get_tokens (Some s)"
  using convert_well_formed convert_flatten well_formed_unique unfolding parse_commands by metis

end
