(* ===== verification/Shell_Line.thy ===== *)
theory Shell_Line
  imports Shell_Tokens
begin

text \<open>
  Reading a line, read_stdin_line of 2/utils.c: the state of the quoting, the buffer that grows by
  a factor of ten, and the joining of lines. A cell of the buffer is an option, None before it is
  written; an access outside the buffer, a strcpy of an unterminated string and a signed overflow
  are undefined behaviour, the result None.
\<close>

section \<open>The code\<close>

abbreviation NUL :: char where "NUL \<equiv> CHR 0x00"

text \<open>The byte 255 read by getchar and converted to char is the value of EOF.\<close>

abbreviation EOF_char :: char where "EOF_char \<equiv> CHR 0xFF"

definition NO_QUOTES_USED :: char where "NO_QUOTES_USED = CHR ''a''"

record reader =
  next_char_escaping :: bool
  used_quote_symbol :: char
  str_size :: int
  str_ptr :: int
  str :: "char option list"

definition reader_initial :: reader where
  "reader_initial = \<lparr>next_char_escaping = False, used_quote_symbol = NO_QUOTES_USED, str_size = 1,
     str_ptr = 0, str = [Some NUL, None]\<rparr>"

text \<open>The string in a buffer, up to the first zero.\<close>

fun c_string :: "char option list \<Rightarrow> string option" where
  "c_string [] = None"
| "c_string (None # cells) = None"
| "c_string (Some c # cells) = (if c = NUL then Some [] else map_option ((#) c) (c_string cells))"

definition strcpy :: "char option list \<Rightarrow> char option list \<Rightarrow> char option list option" where
  "strcpy dest src =
     (case c_string src of
        None \<Rightarrow> None
      | Some s \<Rightarrow> if length s < length dest then Some (map Some s @ Some NUL # drop (length s + 1) dest) else None)"

definition grow_str :: "reader \<Rightarrow> reader option" where
  "grow_str r =
     (if str_ptr r = str_size r
      then do {
        size \<leftarrow> c_int (str_size r * 10);
        new_str \<leftarrow> strcpy (replicate (nat (1 + size)) None) (str r);
        Some (r\<lparr>str_size := size, str := new_str\<rparr>) }
      else Some r)"

definition store_char :: "char \<Rightarrow> reader \<Rightarrow> reader option" where
  "store_char ch r = do {
     s \<leftarrow> cset (str r) (str_ptr r) (Some ch);
     s \<leftarrow> cset s (str_ptr r + 1) (Some NUL);
     Some (r\<lparr>str := s, str_ptr := str_ptr r + 1\<rparr>) }"

text \<open>The switch, and what is done with the character.\<close>

definition read_char :: "char \<Rightarrow> reader \<Rightarrow> reader option" where
  "read_char ch r =
     (if ch = backslash then store_char ch (r\<lparr>next_char_escaping := \<not> next_char_escaping r\<rparr>)
      else if ch = newline
      then if next_char_escaping r
           then do { s \<leftarrow> cset (str r) (str_ptr r - 1) (Some NUL);
                     Some (r\<lparr>str_ptr := str_ptr r - 1, str := s, next_char_escaping := False\<rparr>) }
           else store_char ch r
      else if is_quote ch
      then store_char ch
             (r\<lparr>used_quote_symbol :=
                  if \<not> next_char_escaping r
                  then if used_quote_symbol r = ch then NO_QUOTES_USED
                       else if used_quote_symbol r = NO_QUOTES_USED then ch else used_quote_symbol r
                  else used_quote_symbol r,
                next_char_escaping := False\<rparr>)
      else store_char ch (r\<lparr>next_char_escaping := False\<rparr>))"

text \<open>The loop, over the input: the reader at its end, whether it met the end of the file, and the
  input that is left.\<close>

fun read_loop :: "char list \<Rightarrow> reader \<Rightarrow> (reader \<times> bool \<times> char list) option" where
  "read_loop [] r = Some (r, True, [])"
| "read_loop (ch # input) r =
     (if ch = newline \<and> \<not> next_char_escaping r \<and> used_quote_symbol r = NO_QUOTES_USED
      then Some (r, False, input)
      else if ch = EOF_char then Some (r, True, input)
      else case do { r \<leftarrow> grow_str r; read_char ch r } of
        None \<Rightarrow> None
      | Some r \<Rightarrow> read_loop input r)"

definition read_stdin_line :: "char list \<Rightarrow> (string \<times> bool \<times> char list) option" where
  "read_stdin_line input = do {
     (r, ended_with_EOF, rest) \<leftarrow> read_loop input reader_initial;
     line \<leftarrow> c_string (str r);
     Some (line, ended_with_EOF, rest) }"

section \<open>Logical lines\<close>

text \<open>
  The same on lists: the line read so far, whether a backslash escapes the next character, and the
  quote that is open.
\<close>

fun toggle_quote :: "char option \<Rightarrow> char \<Rightarrow> char option" where
  "toggle_quote None c = Some c"
| "toggle_quote (Some q) c = (if q = c then None else Some q)"

fun logical_line :: "char list \<Rightarrow> bool \<Rightarrow> char option \<Rightarrow> string \<Rightarrow> string \<times> bool \<times> char list" where
  "logical_line [] esc open_quote line = (line, True, [])"
| "logical_line (c # input) esc open_quote line =
     (if c = newline \<and> \<not> esc \<and> open_quote = None then (line, False, input)
      else if c = EOF_char then (line, True, input)
      else if c = backslash then logical_line input (\<not> esc) open_quote (line @ [c])
      else if c = newline \<and> esc then logical_line input False open_quote (butlast line)
      else if is_quote c
      then logical_line input False (if esc then open_quote else toggle_quote open_quote c) (line @ [c])
      else logical_line input False open_quote (line @ [c]))"

section \<open>The buffer\<close>

definition holds :: "reader \<Rightarrow> string \<Rightarrow> bool" where
  "holds r line \<longleftrightarrow> str_ptr r = int (length line) \<and> NUL \<notin> set line \<and>
     int (length line) \<le> str_size r \<and> 1 \<le> str_size r \<and> length (str r) = nat (str_size r) + 1 \<and>
     (\<exists>rest. str r = map Some line @ Some NUL # rest)"

lemma c_string_terminated: "NUL \<notin> set s \<Longrightarrow> c_string (map Some s @ Some NUL # rest) = Some s"
  by (induction s) auto

lemma holds_string: "holds r line \<Longrightarrow> c_string (str r) = Some line"
  by (auto simp: holds_def c_string_terminated)

lemma grow_holds:
  assumes "holds r line" "str_size r \<le> 10 ^ 8 \<or> int (length line) < str_size r"
  obtains t where "grow_str r = Some t" "holds t line" "int (length line) < str_size t"
    "next_char_escaping t = next_char_escaping r" "used_quote_symbol t = used_quote_symbol r"
    "str_size t = str_size r \<or> str_size t = 10 * str_size r \<and> int (length line) = str_size r"
proof (cases "str_ptr r = str_size r")
  case False
  then have "grow_str r = Some r" by (simp add: grow_str_def)
  moreover have "int (length line) < str_size r" using False assms(1) by (simp add: holds_def)
  ultimately show ?thesis using that assms(1) by blast
next
  case True
  then have len: "int (length line) = str_size r" "str_size r \<le> 10 ^ 8" "1 \<le> str_size r"
    using assms by (auto simp: holds_def)
  define cells where "cells = map Some line @ Some NUL # replicate (nat (9 * str_size r)) None"
  have "replicate (nat (1 + str_size r * 10)) (None :: char option) =
      replicate (length line + 1) None @ replicate (nat (9 * str_size r)) None"
    using len by (simp only: replicate_add [symmetric]) (rule arg_cong [of _ _ "\<lambda>n. replicate n None"], linarith)
  then have "strcpy (replicate (nat (1 + str_size r * 10)) None) (str r) = Some cells"
    using holds_string [OF assms(1)] by (simp add: strcpy_def cells_def)
  then have run: "grow_str r = Some (r\<lparr>str_size := str_size r * 10, str := cells\<rparr>)"
    using True len by (simp add: grow_str_def int_ok_def)
  have "length cells = nat (str_size r * 10) + 1" using len by (simp add: cells_def nat_mult_distrib)
  then have "holds (r\<lparr>str_size := str_size r * 10, str := cells\<rparr>) line"
    using assms(1) len by (auto simp: holds_def cells_def)
  then show ?thesis using that [OF run] len by simp
qed

lemma store_holds:
  assumes "holds r line" "int (length line) < str_size r" "c \<noteq> NUL"
  obtains t where "store_char c r = Some t" "holds t (line @ [c])" "str_size t = str_size r"
    "next_char_escaping t = next_char_escaping r" "used_quote_symbol t = used_quote_symbol r"
proof -
  obtain rest where cells: "str r = map Some line @ Some NUL # rest" using assms(1) by (auto simp: holds_def)
  have "length (str r) = nat (str_size r) + 1" using assms(1) by (simp add: holds_def)
  then have "int (length line + length rest) = str_size r" using assms(2) unfolding cells by simp
  then have "rest \<noteq> []" using assms(2) by auto
  then obtain x rest' where rest: "rest = x # rest'" by (cases rest) auto
  have "cset (str r) (str_ptr r) (Some c) = Some (map Some line @ Some c # rest)"
    unfolding cells by (rule cset_middle) (use assms(1) in \<open>simp add: holds_def\<close>)
  moreover have "cset (map Some (line @ [c]) @ x # rest') (str_ptr r + 1) (Some NUL) =
      Some (map Some (line @ [c]) @ Some NUL # rest')"
    using assms(1) by (intro cset_middle) (simp add: holds_def)
  ultimately have "store_char c r =
      Some (r\<lparr>str := map Some (line @ [c]) @ Some NUL # rest', str_ptr := str_ptr r + 1\<rparr>)"
    using rest by (simp add: store_char_def)
  moreover have "holds (r\<lparr>str := map Some (line @ [c]) @ Some NUL # rest', str_ptr := str_ptr r + 1\<rparr>) (line @ [c])"
    using assms cells rest by (auto simp: holds_def)
  ultimately show ?thesis using that by auto
qed

section \<open>The loop reads logical lines\<close>

definition quote_of :: "char option \<Rightarrow> char" where
  "quote_of q = (case q of None \<Rightarrow> NO_QUOTES_USED | Some c \<Rightarrow> c)"

definition reads :: "reader \<Rightarrow> bool \<Rightarrow> char option \<Rightarrow> string \<Rightarrow> bool" where
  "reads r esc q line \<longleftrightarrow> holds r line \<and> next_char_escaping r = esc \<and> used_quote_symbol r = quote_of q \<and>
     (\<forall>c. q = Some c \<longrightarrow> is_quote c) \<and> (esc \<longrightarrow> line \<noteq> [])"

lemma reads_grow:
  assumes "reads r esc q line" "str_size r = 10 ^ k" "k \<le> 9" "length line < 10 ^ 9"
  obtains t m where "grow_str r = Some t" "reads t esc q line" "str_size t = 10 ^ m" "m \<le> 9"
    "int (length line) < str_size t"
proof -
  have h: "holds r line" using assms(1) by (simp add: reads_def)
  have small: "str_size r \<le> 10 ^ 8 \<or> int (length line) < str_size r"
  proof (cases "k \<le> 8")
    case True
    then show ?thesis using assms(2) power_increasing [of k 8 "10 :: int"] by simp
  next
    case False
    then have "k = 9" using assms(3) by simp
    then show ?thesis using assms(2,4) by simp
  qed
  obtain t where t: "grow_str r = Some t" "holds t line" "int (length line) < str_size t"
    "next_char_escaping t = next_char_escaping r" "used_quote_symbol t = used_quote_symbol r"
    "str_size t = str_size r \<or> str_size t = 10 * str_size r \<and> int (length line) = str_size r"
    by (rule grow_holds [OF h small])
  have r: "reads t esc q line" using assms(1) t by (simp add: reads_def)
  have "\<exists>m\<le>9. str_size t = 10 ^ m"
  proof (cases "str_size t = str_size r")
    case False
    then have "str_size t = 10 ^ Suc k" "int (length line) = str_size r" using t(6) assms(2) by auto
    moreover have "k \<noteq> 9" using calculation(2) assms(2,4) by auto
    ultimately show ?thesis using assms(3) by (intro exI [of _ "Suc k"]) simp
  qed (use assms(2,3) in auto)
  then show ?thesis using that t(1,3) r by blast
qed

lemma join_holds:
  assumes "holds r line" "line \<noteq> []"
  shows "\<exists>cells. cset (str r) (str_ptr r - 1) (Some NUL) = Some cells \<and>
    holds (r\<lparr>str_ptr := str_ptr r - 1, str := cells, next_char_escaping := False\<rparr>) (butlast line)"
proof -
  obtain rest where cells: "str r = map Some line @ Some NUL # rest" using assms(1) by (auto simp: holds_def)
  have line: "line = butlast line @ [last line]" using assms(2) by simp
  have eq: "str r = map Some (butlast line) @ Some (last line) # Some NUL # rest"
    unfolding cells by (subst line) simp
  have ptr: "str_ptr r - 1 = int (length (map Some (butlast line)))"
    using assms by (simp add: holds_def of_nat_diff Suc_leI)
  have "cset (str r) (str_ptr r - 1) (Some NUL) = Some (map Some (butlast line) @ Some NUL # Some NUL # rest)"
    unfolding eq by (rule cset_middle [OF ptr])
  moreover have "holds (r\<lparr>str_ptr := str_ptr r - 1,
      str := map Some (butlast line) @ Some NUL # Some NUL # rest, next_char_escaping := False\<rparr>) (butlast line)"
  proof -
    have "length (str r) = length line + 1 + length rest" by (simp add: cells)
    moreover have len: "length line = length (butlast line) + 1" using assms(2) by simp
    moreover have "length (str r) = nat (str_size r) + 1" using assms(1) unfolding holds_def by blast
    ultimately have "nat (str_size r) + 1 = length (butlast line) + 2 + length rest" by linarith
    moreover have "NUL \<notin> set line" using assms(1) unfolding holds_def by blast
    then have "NUL \<notin> set (butlast line)" by (meson in_set_butlastD)
    moreover have "int (length (butlast line)) \<le> str_size r" "1 \<le> str_size r"
      using assms(1) len unfolding holds_def by linarith+
    ultimately show ?thesis using ptr by (simp add: holds_def del: length_butlast)
  qed
  ultimately show ?thesis by blast
qed

lemma read_char_reads:
  assumes r: "reads r esc q line" and room: "int (length line) < str_size r" and c: "c \<noteq> NUL" "c \<noteq> EOF_char"
    and go: "\<not> (c = newline \<and> \<not> esc \<and> q = None)"
  shows "\<exists>t esc' q' line'. read_char c r = Some t \<and> reads t esc' q' line' \<and> str_size t = str_size r \<and>
    length line' \<le> length line + 1 \<and> (\<forall>inp. logical_line (c # inp) esc q line = logical_line inp esc' q' line')"
proof -
  have h: "holds r line" "next_char_escaping r = esc" "used_quote_symbol r = quote_of q"
    "\<forall>c. q = Some c \<longrightarrow> is_quote c" "esc \<longrightarrow> line \<noteq> []" using r by (simp_all add: reads_def)
  have stored: "\<exists>t. store_char c (r\<lparr>used_quote_symbol := u, next_char_escaping := e\<rparr>) = Some t \<and>
      holds t (line @ [c]) \<and> str_size t = str_size r \<and> next_char_escaping t = e \<and> used_quote_symbol t = u" for e u
  proof -
    have "holds (r\<lparr>used_quote_symbol := u, next_char_escaping := e\<rparr>) line" using h(1) by (simp add: holds_def)
    then show ?thesis by (rule store_holds [OF _ _ c(1)]) (use room in auto)
  qed
  note same = stored [where u = "used_quote_symbol r"]
  consider (bs) "c = backslash" | (join) "c = newline" "esc" | (keep) "c = newline" "\<not> esc"
    | (quote) "is_quote c" | (other) "c \<noteq> backslash" "c \<noteq> newline" "\<not> is_quote c" by blast
  then show ?thesis
  proof cases
    case bs
    then have "reads t (\<not> esc) q (line @ [c])" if "holds t (line @ [c])" "next_char_escaping t = (\<not> esc)"
      "used_quote_symbol t = used_quote_symbol r" for t
      using that h by (simp add: reads_def)
    moreover obtain t where "store_char c (r\<lparr>next_char_escaping := \<not> esc\<rparr>) = Some t" "holds t (line @ [c])"
      "str_size t = str_size r" "next_char_escaping t = (\<not> esc)" "used_quote_symbol t = used_quote_symbol r"
      using same [of "\<not> esc"] by auto
    ultimately have "read_char c r = Some t \<and> reads t (\<not> esc) q (line @ [c]) \<and> str_size t = str_size r"
      using bs h(2) by (simp add: read_char_def)
    then show ?thesis using bs by (intro exI [of _ t] exI [of _ "\<not> esc"] exI [of _ q] exI [of _ "line @ [c]"]) simp
  next
    case join
    obtain cells where cells: "cset (str r) (str_ptr r - 1) (Some NUL) = Some cells"
      "holds (r\<lparr>str_ptr := str_ptr r - 1, str := cells, next_char_escaping := False\<rparr>) (butlast line)"
      using join_holds [OF h(1)] h(5) join by blast
    define t where "t = r\<lparr>str_ptr := str_ptr r - 1, str := cells, next_char_escaping := False\<rparr>"
    have "read_char c r = Some t \<and> reads t False q (butlast line) \<and> str_size t = str_size r"
      using cells join h by (simp add: read_char_def t_def reads_def)
    then show ?thesis using join by (intro exI [of _ t] exI [of _ False] exI [of _ q] exI [of _ "butlast line"]) simp
  next
    case keep
    then obtain y where y: "q = Some y" using go by auto
    obtain t where t: "store_char c (r\<lparr>next_char_escaping := False\<rparr>) = Some t" "holds t (line @ [c])"
      "str_size t = str_size r" "next_char_escaping t = False" "used_quote_symbol t = used_quote_symbol r"
      using same [of False] by auto
    have "r\<lparr>next_char_escaping := False\<rparr> = r" using keep h(2) by simp
    then have "store_char c r = Some t" using t(1) by metis
    then have "read_char c r = Some t \<and> reads t False q (line @ [c]) \<and> str_size t = str_size r"
      using keep t h by (simp add: read_char_def reads_def)
    then show ?thesis using keep y
      by (intro exI [of _ t] exI [of _ False] exI [of _ q] exI [of _ "line @ [c]"]) (simp add: char_kinds)
  next
    case quote
    let ?q = "if esc then q else toggle_quote q c"
    have cs: "c \<noteq> backslash" "c \<noteq> newline" using quote by (auto simp: char_kinds)
    have sym: "quote_of ?q = (if \<not> esc then if used_quote_symbol r = c then NO_QUOTES_USED
        else if used_quote_symbol r = NO_QUOTES_USED then c else used_quote_symbol r else used_quote_symbol r)"
      using quote h(3,4) by (cases q) (auto simp: quote_of_def NO_QUOTES_USED_def char_kinds)
    have ok: "\<forall>d. ?q = Some d \<longrightarrow> is_quote d" using quote h(4) by (cases q) auto
    obtain t where t: "store_char c (r\<lparr>used_quote_symbol := quote_of ?q, next_char_escaping := False\<rparr>) = Some t"
      "holds t (line @ [c])" "str_size t = str_size r" "next_char_escaping t = False" "used_quote_symbol t = quote_of ?q"
      using stored by blast
    have "read_char c r = Some t"
      using t(1) quote cs h(2) unfolding sym by (simp add: read_char_def)
    moreover have "reads t False ?q (line @ [c])" using t ok by (simp add: reads_def)
    ultimately show ?thesis using quote cs t(3) c(2)
      by (intro exI [of _ t] exI [of _ False] exI [of _ ?q] exI [of _ "line @ [c]"]) simp
  next
    case other
    obtain t where t: "store_char c (r\<lparr>next_char_escaping := False\<rparr>) = Some t" "holds t (line @ [c])"
      "str_size t = str_size r" "next_char_escaping t = False" "used_quote_symbol t = used_quote_symbol r"
      using same [of False] by auto
    have "read_char c r = Some t \<and> reads t False q (line @ [c]) \<and> str_size t = str_size r"
      using other t h by (simp add: read_char_def reads_def)
    then show ?thesis using other c(2)
      by (intro exI [of _ t] exI [of _ False] exI [of _ q] exI [of _ "line @ [c]"]) simp
  qed
qed

lemma read_loop_reads:
  assumes "reads r esc q line" "str_size r = 10 ^ k" "k \<le> 9" "length line + length input < 10 ^ 9"
    "NUL \<notin> set input"
  shows "\<exists>t esc' q'. read_loop input r = Some (t, snd (logical_line input esc q line)) \<and>
    holds t (fst (logical_line input esc q line))"
  using assms
proof (induction input arbitrary: r esc q line k)
  case Nil
  then show ?case by (simp add: reads_def)
next
  case (Cons c input)
  note r = Cons.prems(1)
  have fields: "next_char_escaping r = esc" "used_quote_symbol r = quote_of q" "holds r line"
    "\<forall>c. q = Some c \<longrightarrow> is_quote c" using r by (simp_all add: reads_def)
  have none: "used_quote_symbol r = NO_QUOTES_USED \<longleftrightarrow> q = None"
    using fields by (cases q) (auto simp: quote_of_def NO_QUOTES_USED_def char_kinds)
  show ?case
  proof (cases "c = newline \<and> \<not> esc \<and> q = None \<or> c = EOF_char")
    case True
    then show ?thesis using fields none by auto
  next
    case False
    obtain u m where u: "grow_str r = Some u" "reads u esc q line" "str_size u = 10 ^ m" "m \<le> 9"
      "int (length line) < str_size u"
      by (rule reads_grow [OF r Cons.prems(2,3)]) (use Cons.prems(4) in simp)
    have c: "c \<noteq> NUL" "c \<noteq> EOF_char" "\<not> (c = newline \<and> \<not> esc \<and> q = None)"
      using Cons.prems(5) False by auto
    obtain t esc' q' line' where t: "read_char c u = Some t" "reads t esc' q' line'" "str_size t = str_size u"
      "length line' \<le> length line + 1" "\<forall>inp. logical_line (c # inp) esc q line = logical_line inp esc' q' line'"
      using read_char_reads [OF u(2,5) c] by blast
    have "read_loop (c # input) r = read_loop input t"
      using c none fields u(1) t(1) by (auto simp del: One_nat_def)
    moreover have "length line' + length input < 10 ^ 9" using t(4) Cons.prems(4) by simp
    ultimately show ?thesis
      using Cons.IH [OF t(2), of m] t(3,5) u(3,4) Cons.prems(5) by simp
  qed
qed

lemma read_line_spec:
  assumes "length input < 10 ^ 9" "NUL \<notin> set input"
  shows "read_stdin_line input = Some (logical_line input False None [])"
proof -
  have "reads reader_initial False None []"
    by (simp add: reads_def holds_def reader_initial_def quote_of_def)
  moreover have "str_size reader_initial = 10 ^ 0" by (simp add: reader_initial_def)
  ultimately obtain t where t: "read_loop input reader_initial = Some (t, snd (logical_line input False None []))"
    "holds t (fst (logical_line input False None []))"
    using read_loop_reads [of reader_initial False None "[]" 0 input] assms by auto
  then show ?thesis using holds_string [OF t(2)]
    by (cases "logical_line input False None []") (simp add: read_stdin_line_def)
qed

section \<open>Lines of spelled tokens\<close>

lemma line_inside_quotes:
  assumes "is_quote q" "EOF_char \<notin> set (concat (map (quote_char q) t))"
  shows "logical_line (concat (map (quote_char q) t) @ q # r) False (Some q) line =
    logical_line r False None (line @ concat (map (quote_char q) t) @ [q])"
  using assms(2)
proof (induction t arbitrary: line)
  case Nil
  have "q \<noteq> newline" "q \<noteq> EOF_char" "q \<noteq> backslash" using assms(1) by (auto simp: is_quote_def)
  then show ?case using assms(1) by simp
next
  case (Cons c t)
  have q: "q \<noteq> newline" "q \<noteq> EOF_char" "q \<noteq> backslash" "is_quote q" using assms(1) by (auto simp: is_quote_def)
  show ?case
  proof (cases "c = q \<or> c = backslash")
    case True
    then show ?thesis using Cons q by (auto simp: quote_char_def)
  next
    case False
    then have "c \<noteq> EOF_char" using Cons.prems by (auto simp: quote_char_def)
    then show ?thesis using Cons q False by (cases "is_quote c") (auto simp: quote_char_def)
  qed
qed

lemma line_bare:
  "bare t s \<Longrightarrow> EOF_char \<notin> set s \<Longrightarrow> logical_line (s @ r) False None line = logical_line r False None (line @ s)"
proof (induction t s arbitrary: line rule: bare.induct)
  case (bare_plain c t s)
  then show ?case by (auto simp: special_def is_space_def)
next
  case (bare_escaped c t s)
  then show ?case by (cases "c = backslash") auto
qed simp

lemma line_spelling:
  assumes "spelling t s" "EOF_char \<notin> set s"
  shows "logical_line (s @ r) False None line = logical_line r False None (line @ s)"
  using assms(1)
proof (cases rule: spelling.cases)
  case (spell_quoted q)
  have q: "q \<noteq> newline" "q \<noteq> EOF_char" "q \<noteq> backslash" using spell_quoted(2) by (auto simp: is_quote_def)
  have "EOF_char \<notin> set (concat (map (quote_char q) t))" using assms(2) spell_quoted(1) by (auto simp: quoted_def)
  from line_inside_quotes [OF spell_quoted(2) this] show ?thesis
    using spell_quoted q by (simp add: quoted_def)
next
  case spell_bare
  then show ?thesis using line_bare assms(2) by blast
next
  case spell_operator
  then show ?thesis using assms(2) by (auto simp: operators_def is_quote_def)
qed

lemma line_unwords:
  assumes "list_all2 spelling ts ss" "EOF_char \<notin> set (unwords ss)"
  shows "logical_line (unwords ss @ r) False None line = logical_line r False None (line @ unwords ss)"
  using assms
proof (induction arbitrary: line rule: list_all2_induct)
  case (Cons t ts s ss)
  show ?case
  proof (cases ss)
    case Nil
    then show ?thesis using line_spelling [OF Cons.hyps(1)] Cons.prems by simp
  next
    case (Cons s' ss')
    then have "logical_line (s @ space # unwords ss @ r) False None line =
        logical_line (space # unwords ss @ r) False None (line @ s)"
      using line_spelling [OF Cons.hyps(1)] Cons.prems by simp
    then show ?thesis using Cons Cons.IH Cons.prems by (simp add: is_quote_def)
  qed
qed simp

lemma spelled_line_read:
  assumes "list_all2 spelling ts ss" "EOF_char \<notin> set (unwords ss)" "NUL \<notin> set (unwords ss @ rest)"
    "length (unwords ss) + length rest < 10 ^ 9 - 1"
  shows "read_stdin_line (unwords ss @ newline # rest) = Some (unwords ss, False, rest)"
  using read_line_spec [of "unwords ss @ newline # rest"] line_unwords [OF assms(1,2), of "newline # rest" "[]"] assms(3,4)
  by simp

end
