(* ===== verification/Shell_Run.thy ===== *)
theory Shell_Run
  imports Shell_Parser Shell_Line
begin

text \<open>
  Running the commands of a line, main of 2/main.c, in the parent process. The operating system is
  the environment: a fork gives a child, known by its number, whose fate is an argument of the
  model; the bytes that run through the pipes are not modelled, only who writes to whom. A status
  read before it was set is undefined behaviour, the result None.
\<close>

section \<open>Children and events\<close>

datatype wait_status = Exited int | Killed

definition exit_code_of :: "wait_status \<Rightarrow> int" where
  "exit_code_of status = (case status of Exited es \<Rightarrow> es | Killed \<Rightarrow> 0)"

text \<open>
  A child is spawned for the command at an index, reading from another child or from the terminal;
  the output of a child is copied to the terminal or to a file, which is truncated first or not.
\<close>

datatype event = Spawned nat nat "nat option" | To_stdout nat | To_file nat string bool

record run_state =
  command_array_ptr :: nat
  last_pipe_end :: "nat option"
  last_operator :: "string option"
  last_child_pid :: "nat option"
  last_child_exit_code :: int
  children_to_wait_for :: "nat list"
  reaped :: "nat list"
  next_pid :: nat
  log :: "event list"

definition run_initial :: "int \<Rightarrow> run_state" where
  "run_initial exit_code = \<lparr>command_array_ptr = 0, last_pipe_end = None, last_operator = None,
     last_child_pid = None, last_child_exit_code = exit_code, children_to_wait_for = [],
     reaped = [], next_pid = 1, log = []\<rparr>"

text \<open>waitpid fails for a child that was waited for before, and then leaves the status alone.\<close>

definition waitpid :: "(nat \<Rightarrow> wait_status) \<Rightarrow> nat \<Rightarrow> run_state \<Rightarrow> wait_status option \<times> run_state" where
  "waitpid fate pid r =
     (if pid \<in> set (reaped r) then (None, r) else (Some (fate pid), r\<lparr>reaped := pid # reaped r\<rparr>))"

definition add_pid :: "nat list \<Rightarrow> nat \<Rightarrow> nat list" where
  "add_pid list new_pid = new_pid # list"

section \<open>The loop over the commands\<close>

definition get_command_count_before_redirection :: "command list \<Rightarrow> nat" where
  "get_command_count_before_redirection commands =
     (if length commands \<le> 1 then length commands
      else let potential_redirector = commands ! (length commands - 2) in
        if strings_equal (c_name potential_redirector) ''>>'' \<or> strings_equal (c_name potential_redirector) ''>''
        then length commands - 2 else length commands)"

text \<open>Before a command after an operator other than the pipe: the pipeline before it is finished.\<close>

definition finish_pipeline :: "(nat \<Rightarrow> wait_status) \<Rightarrow> run_state \<Rightarrow> run_state option" where
  "finish_pipeline fate r =
     (case last_pipe_end r of
        None \<Rightarrow> Some r
      | Some writer \<Rightarrow>
          (let r = r\<lparr>log := log r @ [To_stdout writer], last_pipe_end := None\<rparr> in
           case last_child_pid r of
             None \<Rightarrow> None
           | Some pid \<Rightarrow>
               (case waitpid fate pid r of
                  (None, _) \<Rightarrow> None
                | (Some status, r) \<Rightarrow> Some (r\<lparr>last_child_exit_code := exit_code_of status\<rparr>))))"

definition fork_child :: "run_state \<Rightarrow> run_state" where
  "fork_child r =
     r\<lparr>last_child_pid := Some (next_pid r),
       children_to_wait_for := add_pid (children_to_wait_for r) (next_pid r),
       next_pid := next_pid r + 1,
       log := log r @ [Spawned (next_pid r) (command_array_ptr r) (last_pipe_end r)]\<rparr>"

text \<open>
  The rest of an iteration once the command is not skipped by its operator; the result says whether
  the loop goes on.
\<close>

definition run_command :: "command list \<Rightarrow> nat \<Rightarrow> nat \<Rightarrow> run_state \<Rightarrow> bool \<times> run_state" where
  "run_command commands logical_command_count command_count_without_redirection r =
     (if command_array_ptr r \<noteq> 0 \<and> last_pipe_end r = None \<and> last_operator r = Some ''|''
      then (True, r\<lparr>command_array_ptr := command_array_ptr r + 1, last_operator := None\<rparr>)
      else
        let pid = next_pid r; r = fork_child r in
        if command_array_ptr r + 1 = logical_command_count
        then (False, r\<lparr>log := log r @ [To_stdout pid]\<rparr>)
        else if command_array_ptr r + 1 = command_count_without_redirection
        then (False, r\<lparr>log := log r @ [To_file pid (c_name (commands ! (logical_command_count - 1)))
               (strings_equal (c_name (commands ! (logical_command_count - 2))) ''>'')]\<rparr>)
        else (True, r\<lparr>last_operator := None, last_pipe_end := Some pid,
               command_array_ptr := command_array_ptr r + 1\<rparr>))"

definition run_iteration :: "(nat \<Rightarrow> wait_status) \<Rightarrow> command list \<Rightarrow> nat \<Rightarrow> nat \<Rightarrow> run_state \<Rightarrow> (bool \<times> run_state) option" where
  "run_iteration fate commands logical_command_count command_count_without_redirection r =
     (if command_array_ptr r = logical_command_count then Some (False, r)
      else do {
        this_command \<leftarrow> cget commands (int (command_array_ptr r));
        if is_operator (c_name this_command)
        then Some (True, r\<lparr>last_operator := Some (c_name this_command),
                           command_array_ptr := command_array_ptr r + 1\<rparr>)
        else
          (case last_operator r of
             None \<Rightarrow> Some (run_command commands logical_command_count command_count_without_redirection r)
           | Some operator \<Rightarrow>
               if strings_equal operator ''|''
               then Some (run_command commands logical_command_count command_count_without_redirection r)
               else do {
                 r \<leftarrow> finish_pipeline fate r;
                 if (if strings_equal operator ''||'' then last_child_exit_code r = 0
                     else last_child_exit_code r \<noteq> 0)
                 then Some (True, r\<lparr>command_array_ptr := command_array_ptr r + 1\<rparr>)
                 else Some (run_command commands logical_command_count command_count_without_redirection
                              (r\<lparr>last_operator := None\<rparr>)) }) })"

lemma finish_pipeline_ptr: "finish_pipeline fate r = Some t \<Longrightarrow> command_array_ptr t = command_array_ptr r"
  by (auto simp: finish_pipeline_def waitpid_def Let_def split: option.splits if_splits)

lemma run_command_ptr: "run_command cs n m r = (True, t) \<Longrightarrow> command_array_ptr t = Suc (command_array_ptr r)"
  by (auto simp: run_command_def fork_child_def Let_def split: if_splits)

lemma run_iteration_ptr:
  assumes "run_iteration fate cs n m r = Some (True, t)"
  shows "command_array_ptr r < length cs \<and> command_array_ptr t = Suc (command_array_ptr r)"
  using assms
  by (auto simp: run_iteration_def bind_eq_Some_conv cget_Some_iff dest!: finish_pipeline_ptr run_command_ptr
      split: if_splits option.splits)

function run_loop :: "(nat \<Rightarrow> wait_status) \<Rightarrow> command list \<Rightarrow> nat \<Rightarrow> nat \<Rightarrow> run_state \<Rightarrow> run_state option" where
  "run_loop fate commands n m r =
     (case run_iteration fate commands n m r of
        None \<Rightarrow> None
      | Some (continue, r) \<Rightarrow> if continue then run_loop fate commands n m r else Some r)"
  by pat_completeness auto
termination
  by (relation "measure (\<lambda>(_, commands, _, _, r). length commands - command_array_ptr r)")
    (auto dest!: run_iteration_ptr)

declare run_loop.simps [simp del]

text \<open>The children are waited for, the last one first; status starts at zero.\<close>

fun wait_children :: "(nat \<Rightarrow> wait_status) \<Rightarrow> nat list \<Rightarrow> wait_status \<Rightarrow> run_state \<Rightarrow> run_state" where
  "wait_children fate [] status r = r"
| "wait_children fate (pid # other_pids) status r =
     (case waitpid fate pid r of
        (new_status, r) \<Rightarrow>
          let status = (case new_status of None \<Rightarrow> status | Some s \<Rightarrow> s);
              r = (if last_child_pid r = Some pid then r\<lparr>last_child_exit_code := exit_code_of status\<rparr> else r)
          in wait_children fate other_pids status r)"

definition run_commands :: "(nat \<Rightarrow> wait_status) \<Rightarrow> command list \<Rightarrow> nat \<Rightarrow> run_state \<Rightarrow> run_state option" where
  "run_commands fate commands logical_command_count r = do {
     r \<leftarrow> run_loop fate commands logical_command_count (get_command_count_before_redirection commands) r;
     Some (wait_children fate (children_to_wait_for r) (Exited 0) r) }"

section \<open>One line\<close>

text \<open>
  sscanf with %d: spaces, a sign, digits. The inner None is no number; a number that does not fit an
  int is undefined behaviour, the outer None.
\<close>

definition is_digit :: "char \<Rightarrow> bool" where
  "is_digit c \<longleftrightarrow> 48 \<le> (of_char c :: nat) \<and> (of_char c :: nat) \<le> 57"

fun scan_digits :: "string \<Rightarrow> int \<Rightarrow> int" where
  "scan_digits [] n = n"
| "scan_digits (c # s) n = (if is_digit c then scan_digits s (n * 10 + int (of_char c) - 48) else n)"

definition scan_int :: "string \<Rightarrow> int option option" where
  "scan_int s =
     (let s = dropWhile is_space s;
          (sign, digits) = (case s of
             [] \<Rightarrow> (1, [])
           | c # t \<Rightarrow> if c = CHR ''-'' then (- 1, t) else if c = CHR ''+'' then (1, t) else (1, s))
      in case digits of
           [] \<Rightarrow> Some None
         | c # _ \<Rightarrow> if is_digit c then map_option Some (c_int (sign * scan_digits digits 0)) else Some None)"

definition execute_exit_command :: "command \<Rightarrow> int option" where
  "execute_exit_command first_command =
     (case c_argv first_command of
        [] \<Rightarrow> Some 0
      | arg # _ \<Rightarrow> map_option (\<lambda>scanned. case scanned of None \<Rightarrow> 0 | Some code \<Rightarrow> code) (scan_int arg))"

text \<open>chdir is the call of the system, with its result.\<close>

definition execute_chdir_command :: "(string \<Rightarrow> int) \<Rightarrow> command \<Rightarrow> int" where
  "execute_chdir_command chdir cmd =
     (case c_argv cmd of [] \<Rightarrow> chdir ''~'' | arg # _ \<Rightarrow> chdir arg)"

text \<open>
  What a child does with its command: it exits, or it executes a program with the arguments, of
  which the first is the name; the list is ended by a null pointer in the code.
\<close>

datatype child_action = Child_exits int | Executes string "string list"

definition execute_command :: "command \<Rightarrow> child_action" where
  "execute_command this_command =
     (let arguments_with_filename = c_name this_command # c_argv this_command
      in Executes (hd arguments_with_filename) arguments_with_filename)"

definition child_action :: "command \<Rightarrow> child_action option" where
  "child_action this_command =
     (if strings_equal (c_name this_command) ''exit'' then map_option Child_exits (execute_exit_command this_command)
      else Some (execute_command this_command))"

text \<open>
  What a line does to the shell: it goes on with an exit code and the events of the line, it exits,
  or it leaves the commands without the last one to a subshell.
\<close>

datatype line_result = Goes_on int "event list" | Exits int | Forks_subshell "command list"

definition run_line :: "(nat \<Rightarrow> wait_status) \<Rightarrow> (string \<Rightarrow> int) \<Rightarrow> string \<Rightarrow> int \<Rightarrow> line_result option" where
  "run_line fate chdir line exit_code =
     (let commands = parse line; logical_command_count = length commands in
      if logical_command_count = 0 then Some (Goes_on exit_code [])
      else if logical_command_count = 1 \<and> strings_equal (c_name (commands ! 0)) ''exit''
      then map_option Exits (execute_exit_command (commands ! 0))
      else if logical_command_count = 1 \<and> strings_equal (c_name (commands ! 0)) ''cd''
      then Some (Goes_on (execute_chdir_command chdir (commands ! 0)) [])
      else if strings_equal ''&'' (c_name (commands ! (logical_command_count - 1)))
      then Some (Forks_subshell commands)
      else do {
        r \<leftarrow> run_commands fate commands logical_command_count (run_initial exit_code);
        Some (Goes_on (last_child_exit_code r) (log r)) })"

text \<open>
  The subshell runs the commands before the ampersand; fork returned 0 to it. It has closed stdin, and
  when the line did not end the input it goes back to the loop of main, where getchar reads from the
  closed stream: undefined behaviour.
\<close>

definition run_subshell :: "(nat \<Rightarrow> wait_status) \<Rightarrow> command list \<Rightarrow> int \<Rightarrow> run_state option" where
  "run_subshell fate commands exit_code =
     run_commands fate commands (length commands - 1) ((run_initial exit_code)\<lparr>last_child_pid := Some 0\<rparr>)"

definition subshell_main :: "(nat \<Rightarrow> wait_status) \<Rightarrow> command list \<Rightarrow> bool \<Rightarrow> int \<Rightarrow> (int \<times> event list) option" where
  "subshell_main fate commands last_line_ended_with_EOF exit_code = do {
     r \<leftarrow> run_subshell fate commands exit_code;
     if last_line_ended_with_EOF then Some (last_child_exit_code r, log r) else None }"

section \<open>And-or lists\<close>

text \<open>The commands of a pipeline, and of pipelines joined by && (True) and || (False).\<close>

definition op_command :: "string \<Rightarrow> command" where
  "op_command s = \<lparr>c_name = s, c_argv = []\<rparr>"

fun pipe_commands :: "command list \<Rightarrow> command list" where
  "pipe_commands [] = []"
| "pipe_commands [c] = [c]"
| "pipe_commands (c # cs) = c # op_command ''|'' # pipe_commands cs"

fun chain_commands :: "(bool \<times> command list) list \<Rightarrow> command list" where
  "chain_commands [] = []"
| "chain_commands ((is_and, p) # rest) = op_command (if is_and then ''&&'' else ''||'') # pipe_commands p @ chain_commands rest"

definition plain_pipeline :: "command list \<Rightarrow> bool" where
  "plain_pipeline p \<longleftrightarrow> p \<noteq> [] \<and> (\<forall>c\<in>set p. \<not> is_operator (c_name c))"

text \<open>
  What they mean: a pipeline runs if the exit code so far allows it, its commands read from one
  another, its output goes to the terminal, and its exit code is the one of its last command. The
  result is the events, the exit code, and whether the last pipeline executed.
\<close>

fun spawn_pipeline :: "nat \<Rightarrow> nat \<Rightarrow> nat option \<Rightarrow> nat \<Rightarrow> event list" where
  "spawn_pipeline pid i source 0 = []"
| "spawn_pipeline pid i source (Suc k) = Spawned pid i source # spawn_pipeline (pid + 1) (i + 2) (Some pid) k"

definition pipeline_events :: "nat \<Rightarrow> nat \<Rightarrow> nat option \<Rightarrow> nat \<Rightarrow> event list" where
  "pipeline_events pid i source k = spawn_pipeline pid i source k @ [To_stdout (pid + k - 1)]"

fun run_chain :: "(nat \<Rightarrow> wait_status) \<Rightarrow> nat \<Rightarrow> nat \<Rightarrow> int \<Rightarrow> bool \<Rightarrow> (bool \<times> command list) list
    \<Rightarrow> event list \<times> int \<times> bool" where
  "run_chain fate pid i code executed [] = ([], code, executed)"
| "run_chain fate pid i code executed ((is_and, p) # rest) =
     (if is_and = (code = 0)
      then case run_chain fate (pid + length p) (i + 2 * length p)
             (exit_code_of (fate (pid + length p - 1))) True rest of
             (events, code', executed') \<Rightarrow> (pipeline_events pid (i + 1) None (length p) @ events, code', executed')
      else run_chain fate pid (i + 2 * length p) code False rest)"

text \<open>The pipelines of a line, the first of which always runs.\<close>

definition run_and_or :: "(nat \<Rightarrow> wait_status) \<Rightarrow> command list \<Rightarrow> (bool \<times> command list) list
    \<Rightarrow> event list \<times> int \<times> bool" where
  "run_and_or fate p rest =
     (case run_chain fate (1 + length p) (2 * length p - 1) (exit_code_of (fate (length p))) True rest of
        (events, code, executed) \<Rightarrow> (pipeline_events 1 0 None (length p) @ events, code, executed))"

section \<open>The loop runs and-or lists\<close>

lemma length_pipe_commands: "p \<noteq> [] \<Longrightarrow> length (pipe_commands p) = 2 * length p - 1"
  by (induction p rule: pipe_commands.induct) auto

lemma op_is_operator [simp]:
  "is_operator ''|''" "is_operator ''&&''" "is_operator ''||''" "is_operator ''>''" "is_operator ''>>''"
  by (simp_all add: is_operator_def is_operator_char_def)

lemma op_command_name [simp]: "c_name (op_command s) = s"
  by (simp add: op_command_def)

lemma cget_at: "i = length pre \<Longrightarrow> cget (pre @ c # post) (int i) = Some c"
  by (simp add: cget_def)

lemma run_operator:
  assumes "commands = pre @ op_command s # post" "command_array_ptr r = length pre" "is_operator s"
  shows "run_loop fate commands (length commands) m r =
    run_loop fate commands (length commands) m (r\<lparr>last_operator := Some s, command_array_ptr := command_array_ptr r + 1\<rparr>)"
  using assms by (subst run_loop.simps) (simp add: run_iteration_def cget_at)

text \<open>The state after the rest of a pipeline has been started, up to the end of the array or to an operator.\<close>

definition started :: "nat \<Rightarrow> run_state \<Rightarrow> run_state" where
  "started k r =
     r\<lparr>last_child_pid := Some (next_pid r + k - 1),
       children_to_wait_for := rev [next_pid r..<next_pid r + k] @ children_to_wait_for r,
       next_pid := next_pid r + k,
       log := log r @ spawn_pipeline (next_pid r) (command_array_ptr r) (last_pipe_end r) k\<rparr>"

lemma fork_started: "fork_child r = started 1 r"
  by (simp add: fork_child_def started_def add_pid_def)

lemma started_step:
  "0 < k \<Longrightarrow> started k (fork_child r\<lparr>last_pipe_end := Some (next_pid r), last_operator := op,
      command_array_ptr := command_array_ptr r + 2\<rparr>) =
    (started (Suc k) r)\<lparr>last_pipe_end := Some (next_pid r), last_operator := op,
      command_array_ptr := command_array_ptr r + 2\<rparr>"
  by (simp add: started_def fork_child_def add_pid_def upt_conv_Cons)

definition pipe_ready :: "run_state \<Rightarrow> bool" where
  "pipe_ready r \<longleftrightarrow> last_operator r = None \<or> last_operator r = Some ''|'' \<and> last_pipe_end r \<noteq> None"

lemma run_ready:
  assumes "commands = pre @ c # post" "command_array_ptr r = length pre" "\<not> is_operator (c_name c)" "pipe_ready r"
  shows "run_loop fate commands (length commands) (length commands) r =
    (if post = [] then Some ((fork_child r)\<lparr>log := log (fork_child r) @ [To_stdout (next_pid r)]\<rparr>)
     else run_loop fate commands (length commands) (length commands)
       ((fork_child r)\<lparr>last_operator := None, last_pipe_end := Some (next_pid r),
          command_array_ptr := command_array_ptr r + 1\<rparr>))"
proof -
  have "command_array_ptr (fork_child r) = command_array_ptr r" by (simp add: fork_child_def)
  then have "run_command commands (length commands) (length commands) r =
      (if post = [] then (False, (fork_child r)\<lparr>log := log (fork_child r) @ [To_stdout (next_pid r)]\<rparr>)
       else (True, (fork_child r)\<lparr>last_operator := None, last_pipe_end := Some (next_pid r),
          command_array_ptr := command_array_ptr r + 1\<rparr>))"
    using assms by (auto simp: run_command_def pipe_ready_def Let_def)
  then show ?thesis using assms
    by (subst run_loop.simps) (auto simp: run_iteration_def cget_at pipe_ready_def strings_equal_def)
qed

lemma pipeline_run:
  assumes "commands = pre @ pipe_commands p @ post" "plain_pipeline p" "command_array_ptr r = length pre" "pipe_ready r"
  shows "\<exists>op source. run_loop fate commands (length commands) (length commands) r =
    (if post = []
     then Some ((started (length p) r)\<lparr>last_operator := op, last_pipe_end := source,
       command_array_ptr := command_array_ptr r + 2 * length p - 2,
       log := log r @ pipeline_events (next_pid r) (command_array_ptr r) (last_pipe_end r) (length p)\<rparr>)
     else run_loop fate commands (length commands) (length commands)
       ((started (length p) r)\<lparr>last_operator := None, last_pipe_end := Some (next_pid r + length p - 1),
         command_array_ptr := command_array_ptr r + 2 * length p - 1\<rparr>))"
  using assms
proof (induction p arbitrary: pre r rule: pipe_commands.induct)
  case 1
  then show ?case by (simp add: plain_pipeline_def)
next
  case (2 c)
  have "commands = pre @ c # post" "\<not> is_operator (c_name c)" using 2 by (simp_all add: plain_pipeline_def)
  from run_ready [OF this(1) 2(3) this(2) 2(4), of fate] show ?case
    by (cases "post = []")
      (auto simp: fork_started started_def pipeline_events_def intro!: exI [of _ "last_operator r"] exI [of _ "last_pipe_end r"])
next
  case (3 c d cs)
  define k where "k = length (d # cs)"
  then have k: "length (d # cs) = k" "length (c # d # cs) = Suc k" "0 < k" by simp_all
  have cs: "commands = pre @ c # op_command ''|'' # pipe_commands (d # cs) @ post"
    "commands = (pre @ [c]) @ op_command ''|'' # pipe_commands (d # cs) @ post"
    "commands = (pre @ [c, op_command ''|'']) @ pipe_commands (d # cs) @ post"
    using 3(2) by simp_all
  have plain: "\<not> is_operator (c_name c)" "plain_pipeline (d # cs)" using 3(3) by (simp_all add: plain_pipeline_def)
  define r1 where "r1 = (fork_child r)\<lparr>last_operator := None, last_pipe_end := Some (next_pid r),
    command_array_ptr := command_array_ptr r + 1\<rparr>"
  define r2 where "r2 = (fork_child r)\<lparr>last_pipe_end := Some (next_pid r), last_operator := Some ''|'',
    command_array_ptr := command_array_ptr r + 2\<rparr>"
  have "run_loop fate commands (length commands) (length commands) r =
      run_loop fate commands (length commands) (length commands) r1"
    using run_ready [OF cs(1) 3(4) plain(1) 3(5), of fate] by (simp add: r1_def)
  also have "\<dots> = run_loop fate commands (length commands) (length commands) r2"
    using run_operator [OF cs(2), of r1 fate "length commands"] 3(4) by (simp add: r1_def r2_def)
  finally have run: "run_loop fate commands (length commands) (length commands) r =
      run_loop fate commands (length commands) (length commands) r2" .
  have ready: "command_array_ptr r2 = length (pre @ [c, op_command ''|''])" "pipe_ready r2"
    using 3(4) by (simp_all add: r2_def pipe_ready_def)
  have r2: "next_pid r2 = next_pid r + 1" "command_array_ptr r2 = command_array_ptr r + 2"
    "log r2 @ pipeline_events (next_pid r2) (command_array_ptr r2) (last_pipe_end r2) k =
      log r @ pipeline_events (next_pid r) (command_array_ptr r) (last_pipe_end r) (Suc k)"
    by (simp_all add: r2_def fork_child_def pipeline_events_def)
  have st: "started k r2 = (started (Suc k) r)\<lparr>last_pipe_end := Some (next_pid r), last_operator := Some ''|'',
      command_array_ptr := command_array_ptr r + 2\<rparr>"
    unfolding r2_def by (rule started_step) (rule k)
  obtain op source where IH: "run_loop fate commands (length commands) (length commands) r2 =
    (if post = []
     then Some ((started k r2)\<lparr>last_operator := op, last_pipe_end := source,
       command_array_ptr := command_array_ptr r2 + 2 * k - 2,
       log := log r2 @ pipeline_events (next_pid r2) (command_array_ptr r2) (last_pipe_end r2) k\<rparr>)
     else run_loop fate commands (length commands) (length commands)
       ((started k r2)\<lparr>last_operator := None, last_pipe_end := Some (next_pid r2 + k - 1),
         command_array_ptr := command_array_ptr r2 + 2 * k - 1\<rparr>))"
    using 3(1) [OF cs(3) plain(2) ready] unfolding k by blast
  have n: "command_array_ptr r2 + 2 * k - 2 = command_array_ptr r + 2 * Suc k - 2"
    "command_array_ptr r2 + 2 * k - 1 = command_array_ptr r + 2 * Suc k - 1"
    "next_pid r2 + k - 1 = next_pid r + Suc k - 1"
    using r2(1,2) k(3) by simp_all
  show ?case unfolding run IH k n r2(3) st
    by (intro exI [of _ op] exI [of _ source]) (cases "post = []"; simp)
qed

lemma skip_pipeline:
  assumes "commands = pre @ pipe_commands p @ post" "plain_pipeline p"
    "command_array_ptr r = Suc (length pre)" "last_pipe_end r = None"
  shows "\<exists>op. run_loop fate commands (length commands) (length commands) r =
    run_loop fate commands (length commands) (length commands)
      (r\<lparr>last_operator := op, command_array_ptr := length pre + 2 * length p - 1\<rparr>)"
  using assms
proof (induction p arbitrary: pre r rule: pipe_commands.induct)
  case 1
  then show ?case by (simp add: plain_pipeline_def)
next
  case (2 c)
  then have "r\<lparr>last_operator := last_operator r, command_array_ptr := length pre + 2 * length [c] - 1\<rparr> = r"
    by (cases r) simp
  then show ?case by metis
next
  case (3 c d cs)
  obtain tail where tail: "pipe_commands (d # cs) = d # tail" by (cases cs) auto
  have cs: "commands = (pre @ [c]) @ op_command ''|'' # pipe_commands (d # cs) @ post"
    "commands = (pre @ [c, op_command ''|'']) @ d # tail @ post"
    "commands = (pre @ [c, op_command ''|'']) @ pipe_commands (d # cs) @ post"
    using 3(2) tail by simp_all
  have plain: "\<not> is_operator (c_name d)" "plain_pipeline (d # cs)" using 3(3) by (simp_all add: plain_pipeline_def)
  define r1 where "r1 = r\<lparr>last_operator := Some ''|'', command_array_ptr := command_array_ptr r + 1\<rparr>"
  define r2 where "r2 = r\<lparr>last_operator := None, command_array_ptr := command_array_ptr r + 2\<rparr>"
  have "run_loop fate commands (length commands) (length commands) r =
      run_loop fate commands (length commands) (length commands) r1"
    unfolding r1_def by (rule run_operator [OF cs(1)]) (use 3(4) in simp_all)
  also have "\<dots> = run_loop fate commands (length commands) (length commands) r2"
  proof -
    have "command_array_ptr r1 = length (pre @ [c, op_command ''|''])" using 3(4) by (simp add: r1_def)
    then have "cget commands (int (command_array_ptr r1)) = Some d" "command_array_ptr r1 \<noteq> length commands"
      unfolding cs(2) by (simp_all only: cget_at) simp
    moreover have "run_command commands (length commands) (length commands) r1 = (True, r2)"
      using 3(5) by (simp add: run_command_def r1_def r2_def)
    ultimately show ?thesis using plain(1)
      by (subst run_loop.simps) (simp add: run_iteration_def strings_equal_def r1_def)
  qed
  finally have run: "run_loop fate commands (length commands) (length commands) r =
      run_loop fate commands (length commands) (length commands) r2" .
  have r2: "command_array_ptr r2 = Suc (length (pre @ [c, op_command ''|'']))" "last_pipe_end r2 = None"
    using 3(4,5) by (simp_all add: r2_def)
  show ?case using 3(1) [OF cs(3) plain(2) r2] unfolding run by (simp add: r2_def)
qed

text \<open>The state between pipelines: the exit code so far, the events, and who has been waited for.\<close>

definition chain_state :: "(nat \<Rightarrow> wait_status) \<Rightarrow> run_state \<Rightarrow> int \<Rightarrow> event list \<Rightarrow> bool" where
  "chain_state fate r code events \<longleftrightarrow>
     (\<exists>pid others. children_to_wait_for r = pid # others \<and> last_child_pid r = Some pid \<and> pid \<notin> set others \<and>
        (\<forall>q\<in>set (pid # others) \<union> set (reaped r). q < next_pid r) \<and>
        (case last_pipe_end r of
           None \<Rightarrow> pid \<in> set (reaped r) \<and> last_child_exit_code r = code \<and> log r = events
         | Some writer \<Rightarrow> writer = pid \<and> pid \<notin> set (reaped r) \<and> code = exit_code_of (fate pid) \<and>
             log r @ [To_stdout pid] = events))"

lemma chain_state_moved [simp]:
  "chain_state fate (r\<lparr>last_operator := op\<rparr>) = chain_state fate r"
  "chain_state fate (r\<lparr>command_array_ptr := i\<rparr>) = chain_state fate r"
  "chain_state fate (r\<lparr>last_operator := op, command_array_ptr := i\<rparr>) = chain_state fate r"
  by (intro ext, cases "last_pipe_end r"; simp add: chain_state_def)+

definition chain_end :: "(nat \<Rightarrow> wait_status) \<Rightarrow> run_state \<Rightarrow> event list \<times> int \<times> bool \<Rightarrow> bool" where
  "chain_end fate r result \<longleftrightarrow> (case result of (events, code, executed) \<Rightarrow>
     \<exists>pid others. children_to_wait_for r = pid # others \<and> last_child_pid r = Some pid \<and> pid \<notin> set others \<and>
       log r = events \<and> (if executed then pid \<notin> set (reaped r) \<and> code = exit_code_of (fate pid) else pid \<in> set (reaped r)))"

lemma finish_chain:
  assumes "chain_state fate r code events"
  obtains t where "finish_pipeline fate r = Some t" "chain_state fate t code events" "last_pipe_end t = None"
    "last_child_exit_code t = code" "command_array_ptr t = command_array_ptr r" "next_pid t = next_pid r" "log t = events"
    "last_operator t = last_operator r"
proof (cases "last_pipe_end r")
  case None
  then show ?thesis using that [of r] assms by (auto simp: finish_pipeline_def chain_state_def)
next
  case (Some writer)
  obtain pid others where r: "children_to_wait_for r = pid # others" "last_child_pid r = Some pid" "pid \<notin> set others"
    "\<forall>q\<in>set (pid # others) \<union> set (reaped r). q < next_pid r" "writer = pid" "pid \<notin> set (reaped r)"
    "code = exit_code_of (fate pid)" "log r @ [To_stdout pid] = events"
    using assms Some by (auto simp: chain_state_def)
  define t where "t = r\<lparr>log := events, last_pipe_end := None, reaped := pid # reaped r, last_child_exit_code := code\<rparr>"
  have "finish_pipeline fate r = Some t"
    using r Some by (simp add: finish_pipeline_def waitpid_def t_def)
  moreover have "chain_state fate t code events"
    using r by (auto simp: chain_state_def t_def)
  ultimately show ?thesis using that by (simp add: t_def)
qed

lemma started_chain:
  assumes "0 < k" "last_pipe_end r = None" "\<forall>q\<in>set (children_to_wait_for r) \<union> set (reaped r). q < next_pid r"
  shows "chain_state fate ((started k r)\<lparr>last_operator := None, last_pipe_end := Some (next_pid r + k - 1),
      command_array_ptr := i\<rparr>) (exit_code_of (fate (next_pid r + k - 1)))
      (log r @ pipeline_events (next_pid r) (command_array_ptr r) None k)"
    and "chain_end fate ((started k r)\<lparr>last_operator := op, last_pipe_end := source, command_array_ptr := i,
        log := log r @ pipeline_events (next_pid r) (command_array_ptr r) None k\<rparr>)
      (log r @ pipeline_events (next_pid r) (command_array_ptr r) None k, exit_code_of (fate (next_pid r + k - 1)), True)"
proof -
  obtain m where k: "k = Suc m" using assms(1) by (cases k) auto
  let ?pid = "next_pid r + m" and ?others = "rev [next_pid r..<next_pid r + m] @ children_to_wait_for r"
  have c: "rev [next_pid r..<next_pid r + k] @ children_to_wait_for r = ?pid # ?others" by (simp add: k)
  have below: "q < next_pid r + m" if "q \<in> set (children_to_wait_for r) \<union> set (reaped r)" for q
    using assms(3) that by (meson trans_less_add1)
  have o: "?pid \<notin> set ?others" "\<forall>q\<in>set (?pid # ?others) \<union> set (reaped r). q < next_pid r + k" "?pid \<notin> set (reaped r)"
    using below by (force simp: k)+
  show "chain_state fate ((started k r)\<lparr>last_operator := None, last_pipe_end := Some (next_pid r + k - 1),
      command_array_ptr := i\<rparr>) (exit_code_of (fate (next_pid r + k - 1)))
      (log r @ pipeline_events (next_pid r) (command_array_ptr r) None k)"
    unfolding chain_state_def
    by (intro exI [of _ ?pid] exI [of _ ?others])
      (use c o assms(2) in \<open>simp add: started_def pipeline_events_def k\<close>)
  show "chain_end fate ((started k r)\<lparr>last_operator := op, last_pipe_end := source, command_array_ptr := i,
        log := log r @ pipeline_events (next_pid r) (command_array_ptr r) None k\<rparr>)
      (log r @ pipeline_events (next_pid r) (command_array_ptr r) None k, exit_code_of (fate (next_pid r + k - 1)), True)"
    unfolding chain_end_def split
    by (intro exI [of _ ?pid] exI [of _ ?others])
      (use c o assms(2) in \<open>simp add: started_def k\<close>)
qed

lemma pipe_commands_first: "plain_pipeline p \<Longrightarrow> \<exists>c tail. pipe_commands p = c # tail \<and> \<not> is_operator (c_name c)"
  by (cases p rule: pipe_commands.cases) (auto simp: plain_pipeline_def)

lemma chain_end_prepend:
  "chain_end fate r (pre @ events, code, executed) = chain_end fate r ((\<lambda>(es, c, x). (pre @ es, c, x)) (events, code, executed))"
  by simp

lemma chain_run:
  assumes "commands = pre @ chain_commands rest" "\<forall>(b, p)\<in>set rest. plain_pipeline p"
    "command_array_ptr r = length pre" "chain_state fate r code events"
    "rest = [] \<longrightarrow> last_pipe_end r = None"
    "run_chain fate (next_pid r) (length pre) code (last_pipe_end r \<noteq> None) rest = (es, code', executed)"
  shows "\<exists>t. run_loop fate commands (length commands) (length commands) r = Some t \<and>
    chain_end fate t (events @ es, code', executed)"
  using assms
proof (induction rest arbitrary: pre r code events es)
  case Nil
  then have "command_array_ptr r = length commands" by simp
  then have "run_loop fate commands (length commands) (length commands) r = Some r"
    by (subst run_loop.simps) (simp add: run_iteration_def)
  then show ?case using Nil by (auto simp: chain_end_def chain_state_def)
next
  case (Cons bp rest)
  obtain is_and p where bp: "bp = (is_and, p)" by (cases bp)
  define oper where "oper = (if is_and then ''&&'' else ''||'')"
  have plain: "plain_pipeline p" using Cons.prems(2) bp by simp
  then have len: "0 < length p" by (simp add: plain_pipeline_def)
  obtain c tail where c: "pipe_commands p = c # tail" "\<not> is_operator (c_name c)"
    using pipe_commands_first [OF plain] by blast
  have cs: "commands = pre @ op_command oper # pipe_commands p @ chain_commands rest"
    "commands = (pre @ [op_command oper]) @ c # tail @ chain_commands rest"
    "commands = (pre @ [op_command oper]) @ pipe_commands p @ chain_commands rest"
    "commands = (pre @ op_command oper # pipe_commands p) @ chain_commands rest"
    using Cons.prems(1) c bp by (simp_all add: oper_def)
  have pre': "length (pre @ op_command oper # pipe_commands p) = length pre + 2 * length p"
    using length_pipe_commands [of p] len by auto
  define r1 where "r1 = r\<lparr>last_operator := Some oper, command_array_ptr := command_array_ptr r + 1\<rparr>"
  have r1: "run_loop fate commands (length commands) (length commands) r =
      run_loop fate commands (length commands) (length commands) r1"
    unfolding r1_def by (rule run_operator [OF cs(1) Cons.prems(3)]) (simp add: oper_def)
  have "chain_state fate r1 code events" using Cons.prems(4) by (simp add: r1_def)
  then obtain r2 where r2: "finish_pipeline fate r1 = Some r2" "chain_state fate r2 code events" "last_pipe_end r2 = None"
    "last_child_exit_code r2 = code" "command_array_ptr r2 = Suc (length pre)" "next_pid r2 = next_pid r" "log r2 = events"
    by (rule finish_chain) (use Cons.prems(3) in \<open>simp add: r1_def\<close>)
  have ptr1: "command_array_ptr r1 = length (pre @ [op_command oper])" using Cons.prems(3) by (simp add: r1_def)
  have at: "cget commands (int (command_array_ptr r1)) = Some c" "command_array_ptr r1 \<noteq> length commands"
    by (subst cs(2), rule cget_at [OF ptr1]) (simp add: ptr1 cs(2))
  have iter: "run_iteration fate commands (length commands) (length commands) r1 =
      (if is_and = (code = 0) then Some (run_command commands (length commands) (length commands) (r2\<lparr>last_operator := None\<rparr>))
       else Some (True, r2\<lparr>command_array_ptr := command_array_ptr r2 + 1\<rparr>))"
    using at c(2) r2(1,4) by (auto simp: run_iteration_def r1_def strings_equal_def oper_def)
  show ?case
  proof (cases "is_and = (code = 0)")
    case True
    define r3 where "r3 = r2\<lparr>last_operator := None\<rparr>"
    have "command_array_ptr r3 = length (pre @ [op_command oper])" using r2(5) by (simp add: r3_def)
    then have at3: "cget commands (int (command_array_ptr r3)) = Some c" "command_array_ptr r3 \<noteq> length commands"
      unfolding cs(2) by (simp_all only: cget_at) simp_all
    have "run_loop fate commands (length commands) (length commands) r1 =
        run_loop fate commands (length commands) (length commands) r3"
    proof -
      have "run_iteration fate commands (length commands) (length commands) r3 =
          Some (run_command commands (length commands) (length commands) r3)"
        using at3 c(2) by (simp add: run_iteration_def) (simp add: r3_def)
      then have "run_iteration fate commands (length commands) (length commands) r1 =
          run_iteration fate commands (length commands) (length commands) r3"
        using iter True by (simp add: r3_def)
      then show ?thesis by (subst (1 2) run_loop.simps) simp
    qed
    note run = r1 [unfolded this]
    obtain es' where es: "run_chain fate (next_pid r + length p) (length pre + 2 * length p)
        (exit_code_of (fate (next_pid r + length p - 1))) True rest = (es', code', executed)"
      "es = pipeline_events (next_pid r) (Suc (length pre)) None (length p) @ es'"
      using Cons.prems(6) bp True by (auto split: prod.splits)
    have ready: "pipe_ready r3" "command_array_ptr r3 = length (pre @ [op_command oper])" "last_pipe_end r3 = None"
      "next_pid r3 = next_pid r" "log r3 = events" "command_array_ptr r3 = Suc (length pre)"
      using r2 by (simp_all add: pipe_ready_def r3_def)
    have below: "\<forall>q\<in>set (children_to_wait_for r3) \<union> set (reaped r3). q < next_pid r3"
      using r2(2) by (auto simp: chain_state_def r3_def)
    obtain op source where pipe: "run_loop fate commands (length commands) (length commands) r3 =
      (if chain_commands rest = []
       then Some ((started (length p) r3)\<lparr>last_operator := op, last_pipe_end := source,
         command_array_ptr := command_array_ptr r3 + 2 * length p - 2,
         log := log r3 @ pipeline_events (next_pid r3) (command_array_ptr r3) (last_pipe_end r3) (length p)\<rparr>)
       else run_loop fate commands (length commands) (length commands)
         ((started (length p) r3)\<lparr>last_operator := None, last_pipe_end := Some (next_pid r3 + length p - 1),
           command_array_ptr := command_array_ptr r3 + 2 * length p - 1\<rparr>))"
      using pipeline_run [OF cs(3) plain ready(2,1)] by blast
    note started = started_chain [OF len ready(3) below, where fate = fate, unfolded ready(4-6)]
    show ?thesis
    proof (cases rest)
      case Nil
      then show ?thesis using run pipe started(2) es ready(3-6) by simp
    next
      case (Cons bq rest')
      define r4 where "r4 = (started (length p) r3)\<lparr>last_operator := None,
        last_pipe_end := Some (next_pid r3 + length p - 1), command_array_ptr := command_array_ptr r3 + 2 * length p - 1\<rparr>"
      have "chain_commands rest \<noteq> []" using Cons by (cases bq) simp
      then have run4: "run_loop fate commands (length commands) (length commands) r3 =
          run_loop fate commands (length commands) (length commands) r4"
        using pipe by (simp add: r4_def)
      have r4: "command_array_ptr r4 = length (pre @ op_command oper # pipe_commands p)"
        "next_pid r4 = next_pid r + length p" "last_pipe_end r4 \<noteq> None"
        "chain_state fate r4 (exit_code_of (fate (next_pid r + length p - 1)))
          (events @ pipeline_events (next_pid r) (Suc (length pre)) None (length p))"
        using pre' ready(4,6) started(1) len by (simp_all add: r4_def started_def)
      have "\<forall>(b, q)\<in>set rest. plain_pipeline q" using Cons.prems(2) by simp
      moreover have "run_chain fate (next_pid r4) (length (pre @ op_command oper # pipe_commands p))
          (exit_code_of (fate (next_pid r + length p - 1))) (last_pipe_end r4 \<noteq> None) rest = (es', code', executed)"
        unfolding pre' r4(2) using es(1) r4(3) by simp
      ultimately show ?thesis
        unfolding run run4 es(2) using Cons.IH [OF cs(4) _ r4(1,4)] \<open>rest = bq # rest'\<close> by simp
    qed
  next
    case False
    define r3 where "r3 = r2\<lparr>command_array_ptr := command_array_ptr r2 + 1\<rparr>"
    have "run_loop fate commands (length commands) (length commands) r1 =
        run_loop fate commands (length commands) (length commands) r3"
      using iter False by (subst run_loop.simps) (simp add: r3_def)
    note run = r1 [unfolded this]
    have "command_array_ptr r3 = Suc (length (pre @ [op_command oper]))" "last_pipe_end r3 = None"
      using r2(3,5) by (simp_all add: r3_def)
    then obtain op where skip: "run_loop fate commands (length commands) (length commands) r3 =
      run_loop fate commands (length commands) (length commands)
        (r3\<lparr>last_operator := op, command_array_ptr := length (pre @ [op_command oper]) + 2 * length p - 1\<rparr>)"
      using skip_pipeline [OF cs(3) plain] by blast
    define r4 where "r4 = r3\<lparr>last_operator := op, command_array_ptr := length (pre @ [op_command oper]) + 2 * length p - 1\<rparr>"
    have r4: "command_array_ptr r4 = length (pre @ op_command oper # pipe_commands p)"
      "next_pid r4 = next_pid r" "last_pipe_end r4 = None" "chain_state fate r4 code events"
      using pre' r2 len by (simp_all add: r4_def r3_def)
    have "\<forall>(b, q)\<in>set rest. plain_pipeline q" using Cons.prems(2) by simp
    moreover have "run_chain fate (next_pid r4) (length (pre @ op_command oper # pipe_commands p))
        code (last_pipe_end r4 \<noteq> None) rest = (es, code', executed)"
      unfolding pre' r4(2) using Cons.prems(6) bp False r4(3) by simp
    moreover note r4(3)
    ultimately show ?thesis
      unfolding run skip r4_def [symmetric] using Cons.IH [OF cs(4) _ r4(1,4)] by simp
  qed
qed

section \<open>A whole line\<close>

lemma wait_children_others:
  "last_child_pid r = Some pid \<Longrightarrow> pid \<notin> set pids \<Longrightarrow>
     last_child_exit_code (wait_children fate pids status r) = last_child_exit_code r \<and>
     log (wait_children fate pids status r) = log r"
proof (induction pids arbitrary: status r)
  case (Cons q pids)
  then show ?case by (auto simp: waitpid_def Let_def)
qed simp

lemma wait_children_last:
  assumes "children_to_wait_for r = pid # others" "last_child_pid r = Some pid" "pid \<notin> set others"
  shows "log (wait_children fate (children_to_wait_for r) (Exited 0) r) = log r"
    "last_child_exit_code (wait_children fate (children_to_wait_for r) (Exited 0) r) =
       (if pid \<in> set (reaped r) then 0 else exit_code_of (fate pid))"
  using assms wait_children_others [OF _ assms(3)]
  by (auto simp: waitpid_def Let_def exit_code_of_def)

definition and_or_commands :: "command list \<Rightarrow> (bool \<times> command list) list \<Rightarrow> command list" where
  "and_or_commands p rest = pipe_commands p @ chain_commands rest"

lemma pipe_names:
  "c \<in> set (pipe_commands p) \<Longrightarrow> plain_pipeline p \<Longrightarrow> c_name c \<noteq> ''>'' \<and> c_name c \<noteq> ''>>''"
  by (induction p rule: pipe_commands.induct) (auto simp: plain_pipeline_def)

lemma chain_names:
  "c \<in> set (chain_commands rest) \<Longrightarrow> \<forall>(b, p)\<in>set rest. plain_pipeline p \<Longrightarrow> c_name c \<noteq> ''>'' \<and> c_name c \<noteq> ''>>''"
  by (induction rest rule: chain_commands.induct) (auto dest: pipe_names split: if_splits)

lemma no_redirection:
  assumes "plain_pipeline p" "\<forall>(b, p)\<in>set rest. plain_pipeline p"
  shows "get_command_count_before_redirection (and_or_commands p rest) = length (and_or_commands p rest)"
proof (cases "length (and_or_commands p rest) \<le> 1")
  case False
  then have "and_or_commands p rest ! (length (and_or_commands p rest) - 2) \<in> set (and_or_commands p rest)"
    by (intro nth_mem) simp
  then have "c_name (and_or_commands p rest ! (length (and_or_commands p rest) - 2)) \<notin> {''>'', ''>>''}"
    using pipe_names [OF _ assms(1)] chain_names [OF _ assms(2)] by (auto simp: and_or_commands_def)
  then show ?thesis
    using False by (simp add: get_command_count_before_redirection_def strings_equal_def Let_def)
qed (simp add: get_command_count_before_redirection_def)

lemma run_and_or_loop:
  assumes plain: "plain_pipeline p" "\<forall>(b, p)\<in>set rest. plain_pipeline p"
    and result: "run_and_or fate p rest = (events, code, executed)"
  shows "\<exists>t pid others. run_loop fate (and_or_commands p rest) (length (and_or_commands p rest)) (length (and_or_commands p rest))
      ((run_initial e)\<lparr>last_child_pid := x\<rparr>) = Some t \<and>
    children_to_wait_for t = pid # others \<and> last_child_pid t = Some pid \<and> pid \<notin> set others \<and> log t = events \<and>
    (if executed then pid \<notin> set (reaped t) \<and> code = exit_code_of (fate pid) else pid \<in> set (reaped t))"
proof -
  let ?cs = "and_or_commands p rest" and ?r = "(run_initial e)\<lparr>last_child_pid := x\<rparr>" and ?n = "length p"
  have len: "0 < ?n" using plain(1) by (simp add: plain_pipeline_def)
  obtain es where es: "run_chain fate (1 + ?n) (2 * ?n - 1) (exit_code_of (fate ?n)) True rest = (es, code, executed)"
    "events = pipeline_events 1 0 None ?n @ es"
    using result by (auto simp: run_and_or_def split: prod.splits)
  have r: "command_array_ptr ?r = 0" "pipe_ready ?r" "last_pipe_end ?r = None" "next_pid ?r = 1" "log ?r = []"
    "children_to_wait_for ?r = []" "reaped ?r = []"
    by (simp_all add: run_initial_def pipe_ready_def)
  obtain op source where pipe: "run_loop fate ?cs (length ?cs) (length ?cs) ?r =
      (if chain_commands rest = []
       then Some ((started ?n ?r)\<lparr>last_operator := op, last_pipe_end := source,
         command_array_ptr := command_array_ptr ?r + 2 * ?n - 2,
         log := log ?r @ pipeline_events (next_pid ?r) (command_array_ptr ?r) (last_pipe_end ?r) ?n\<rparr>)
       else run_loop fate ?cs (length ?cs) (length ?cs)
         ((started ?n ?r)\<lparr>last_operator := None, last_pipe_end := Some (next_pid ?r + ?n - 1),
           command_array_ptr := command_array_ptr ?r + 2 * ?n - 1\<rparr>))"
    using pipeline_run [of ?cs "[]" p "chain_commands rest" ?r fate] plain(1) r(1,2) by (auto simp: and_or_commands_def)
  have below: "\<forall>q\<in>set (children_to_wait_for ?r) \<union> set (reaped ?r). q < next_pid ?r" using r by simp
  note st = started_chain [OF len r(3) below, where fate = fate]
  have "\<exists>t. run_loop fate ?cs (length ?cs) (length ?cs) ?r = Some t \<and> chain_end fate t (events, code, executed)"
  proof (cases rest)
    case Nil
    then show ?thesis using pipe st(2) es r by simp
  next
    case (Cons bq rest')
    define u where "u = (started ?n ?r)\<lparr>last_operator := None, last_pipe_end := Some (next_pid ?r + ?n - 1),
      command_array_ptr := command_array_ptr ?r + 2 * ?n - 1\<rparr>"
    have "chain_commands rest \<noteq> []" using Cons by (cases bq) simp
    then have run: "run_loop fate ?cs (length ?cs) (length ?cs) ?r = run_loop fate ?cs (length ?cs) (length ?cs) u"
      using pipe by (simp add: u_def)
    have u: "command_array_ptr u = length (pipe_commands p)" "next_pid u = 1 + ?n" "last_pipe_end u \<noteq> None"
      "chain_state fate u (exit_code_of (fate ?n)) (pipeline_events 1 0 None ?n)"
      using length_pipe_commands [of p] plain(1) st(1) r by (simp_all add: u_def started_def plain_pipeline_def)
    have "run_chain fate (next_pid u) (length (pipe_commands p)) (exit_code_of (fate ?n)) (last_pipe_end u \<noteq> None) rest =
        (es, code, executed)"
      using es(1) u(2,3) length_pipe_commands [of p] len by simp
    then show ?thesis
      unfolding run es(2) using chain_run [of ?cs "pipe_commands p" rest u fate] plain(2) u(1,4) Cons
      by (simp add: and_or_commands_def)
  qed
  then show ?thesis by (auto simp: chain_end_def)
qed

lemma run_and_or_commands:
  assumes plain: "plain_pipeline p" "\<forall>(b, p)\<in>set rest. plain_pipeline p"
    and result: "run_and_or fate p rest = (events, code, executed)"
  shows "\<exists>r. run_commands fate (and_or_commands p rest) (length (and_or_commands p rest)) (run_initial e) = Some r \<and>
    log r = events \<and> last_child_exit_code r = (if executed then code else 0)"
proof -
  let ?cs = "and_or_commands p rest"
  obtain t pid others where t: "run_loop fate ?cs (length ?cs) (length ?cs) ((run_initial e)\<lparr>last_child_pid := None\<rparr>) = Some t"
    and c: "children_to_wait_for t = pid # others" "last_child_pid t = Some pid" "pid \<notin> set others"
    "log t = events" "if executed then pid \<notin> set (reaped t) \<and> code = exit_code_of (fate pid) else pid \<in> set (reaped t)"
    using run_and_or_loop [OF plain result] by metis
  have "(run_initial e)\<lparr>last_child_pid := None\<rparr> = run_initial e" by (simp add: run_initial_def)
  then have "run_commands fate ?cs (length ?cs) (run_initial e) = Some (wait_children fate (children_to_wait_for t) (Exited 0) t)"
    using t no_redirection [OF plain] by (simp add: run_commands_def)
  then show ?thesis
    using wait_children_last [OF c(1-3), of fate] c(4,5) by (auto split: if_splits)
qed

section \<open>In the subshell\<close>

text \<open>Pipelines joined by any operators but the pipe.\<close>

fun operator_chain :: "(string \<times> command list) list \<Rightarrow> command list" where
  "operator_chain [] = []"
| "operator_chain ((oper, p) # rest) = op_command oper # pipe_commands p @ operator_chain rest"

definition operator_commands :: "command list \<Rightarrow> (string \<times> command list) list \<Rightarrow> command list" where
  "operator_commands p rest = pipe_commands p @ operator_chain rest"

text \<open>The loop takes an operator that is neither | nor || for &&.\<close>

definition taken_for :: "string \<Rightarrow> string" where
  "taken_for oper = (if oper = ''|'' \<or> oper = ''||'' then oper else ''&&'')"

definition taken_command :: "command \<Rightarrow> command" where
  "taken_command c = (if is_operator (c_name c) then c\<lparr>c_name := taken_for (c_name c)\<rparr> else c)"

definition taken_state :: "run_state \<Rightarrow> run_state" where
  "taken_state r = r\<lparr>last_operator := map_option taken_for (last_operator r)\<rparr>"

lemma taken_for_simps [simp]: "taken_for s = ''|'' \<longleftrightarrow> s = ''|''" "taken_for s = ''||'' \<longleftrightarrow> s = ''||''"
  by (auto simp: taken_for_def)

lemma taken_for_operator [simp]: "is_operator s \<Longrightarrow> is_operator (taken_for s)"
  by (simp add: taken_for_def)

lemma taken_command_simps [simp]:
  "is_operator (c_name (taken_command c)) = is_operator (c_name c)"
  "is_operator (c_name c) \<Longrightarrow> c_name (taken_command c) = taken_for (c_name c)"
  by (simp_all add: taken_command_def taken_for_def)

lemma taken_pipe: "plain_pipeline p \<Longrightarrow> map taken_command (pipe_commands p) = pipe_commands p"
  by (induction p rule: pipe_commands.induct)
    (auto simp: plain_pipeline_def taken_command_def op_command_def taken_for_def)

lemma taken_chain:
  "\<forall>(oper, q)\<in>set rest. plain_pipeline q \<and> is_operator oper \<and> oper \<noteq> ''|'' \<Longrightarrow>
   map taken_command (operator_chain rest) = chain_commands (map (\<lambda>(oper, q). (oper \<noteq> ''||'', q)) rest)"
  by (induction rest) (auto simp: taken_pipe taken_command_def op_command_def taken_for_def)

lemma taken_state_simps [simp]:
  "command_array_ptr (taken_state r) = command_array_ptr r" "last_pipe_end (taken_state r) = last_pipe_end r"
  "last_child_exit_code (taken_state r) = last_child_exit_code r" "next_pid (taken_state r) = next_pid r"
  "log (taken_state r) = log r" "last_operator (taken_state r) = map_option taken_for (last_operator r)"
  "children_to_wait_for (taken_state r) = children_to_wait_for r" "last_child_pid (taken_state r) = last_child_pid r"
  "reaped (taken_state r) = reaped r"
  by (simp_all add: taken_state_def)

lemma taken_finish: "finish_pipeline fate (taken_state r) = map_option taken_state (finish_pipeline fate r)"
  by (auto simp: finish_pipeline_def waitpid_def taken_state_def Let_def split: option.splits)

lemma taken_fork: "fork_child (taken_state r) = taken_state (fork_child r)"
  by (simp add: fork_child_def taken_state_def)

lemma taken_run_command:
  assumes "command_array_ptr r < n" "n < m"
  shows "run_command ds n n (taken_state r) = map_prod id taken_state (run_command cs n m r)"
  using assms by (auto simp: run_command_def Let_def taken_fork) (auto simp: taken_state_def fork_child_def)

lemma taken_iteration:
  assumes n: "length cs = n" "n < m" and p: "command_array_ptr r \<le> n"
  shows "run_iteration fate (map taken_command cs) n n (taken_state r) =
    map_option (map_prod id taken_state) (run_iteration fate (cs @ tail) n m r)"
proof (cases "command_array_ptr r = n")
  case True
  then show ?thesis by (simp add: run_iteration_def)
next
  case False
  then have lt: "command_array_ptr r < n" using p by simp
  let ?c = "cs ! command_array_ptr r"
  have c: "cget (map taken_command cs) (int (command_array_ptr r)) = Some (taken_command ?c)"
    "cget (cs @ tail) (int (command_array_ptr r)) = Some ?c"
    using lt n(1) by (simp_all add: cget_def nth_append)
  have run: "run_command (map taken_command cs) n n (taken_state r) = map_prod id taken_state (run_command (cs @ tail) n m r)"
    by (rule taken_run_command [OF lt n(2)])
  consider (oper) "is_operator (c_name ?c)" | (run) "\<not> is_operator (c_name ?c)" "last_operator r = None \<or> last_operator r = Some ''|''"
    | (junction) oper where "\<not> is_operator (c_name ?c)" "last_operator r = Some oper" "oper \<noteq> ''|''"
    by (cases "last_operator r") auto
  then show ?thesis
  proof cases
    case oper
    then show ?thesis using c False by (simp add: run_iteration_def taken_state_def)
  next
    case run
    then show ?thesis using c False \<open>run_command _ n n _ = _\<close>
      by (auto simp: run_iteration_def strings_equal_def)
  next
    case junction
    have moved: "taken_state (u\<lparr>last_operator := None\<rparr>) = (taken_state u)\<lparr>last_operator := None\<rparr>"
      "taken_state (u\<lparr>command_array_ptr := i\<rparr>) = (taken_state u)\<lparr>command_array_ptr := i\<rparr>" for u i
      by (simp_all add: taken_state_def)
    show ?thesis
    proof (cases "finish_pipeline fate r")
      case None
      then show ?thesis using junction c False
        by (simp add: run_iteration_def strings_equal_def taken_finish)
    next
      case (Some u)
      have "run_command (map taken_command cs) n n (taken_state (u\<lparr>last_operator := None\<rparr>)) =
          map_prod id taken_state (run_command (cs @ tail) n m (u\<lparr>last_operator := None\<rparr>))"
        by (rule taken_run_command) (use lt n(2) finish_pipeline_ptr [OF Some] in simp_all)
      then show ?thesis using junction c False Some
        by (simp add: run_iteration_def strings_equal_def taken_finish moved)
    qed
  qed
qed

lemma taken_loop:
  assumes "length cs = n" "n < m" "command_array_ptr r \<le> n"
  shows "run_loop fate (map taken_command cs) n n (taken_state r) = map_option taken_state (run_loop fate (cs @ tail) n m r)"
  using assms(3)
proof (induction "n - command_array_ptr r" arbitrary: r rule: less_induct)
  case less
  note it = taken_iteration [OF assms(1,2) less.prems, of fate tail]
  show ?case
  proof (cases "run_iteration fate (cs @ tail) n m r")
    case None
    then show ?thesis using it by (simp add: run_loop.simps [of fate _ n])
  next
    case (Some bt)
    obtain b t where bt: "bt = (b, t)" by (cases bt)
    show ?thesis
    proof (cases b)
      case True
      have "command_array_ptr r \<noteq> n" using Some bt True by (auto simp: run_iteration_def)
      then have "command_array_ptr t \<le> n" "n - command_array_ptr t < n - command_array_ptr r"
        using run_iteration_ptr [of fate "cs @ tail" n m r t] Some bt True less.prems by auto
      then show ?thesis using less.hyps [of t] it Some bt True by (simp add: run_loop.simps [of fate _ n _ r] run_loop.simps [of fate _ n _ "taken_state r"])
    next
      case False
      then show ?thesis using it Some bt by (simp add: run_loop.simps [of fate _ n])
    qed
  qed
qed

lemma operator_last:
  assumes "plain_pipeline p" "\<forall>(oper, q)\<in>set rest. plain_pipeline q"
  shows "operator_commands p rest \<noteq> [] \<and> \<not> is_operator (c_name (last (operator_commands p rest)))"
proof -
  have last_pipe: "pipe_commands q \<noteq> [] \<and> \<not> is_operator (c_name (last (pipe_commands q)))" if "plain_pipeline q" for q
    using that by (induction q rule: pipe_commands.induct) (auto simp: plain_pipeline_def)
  have "rest \<noteq> [] \<longrightarrow> operator_chain rest \<noteq> [] \<and> \<not> is_operator (c_name (last (operator_chain rest)))"
    using assms(2)
  proof (induction rest)
    case (Cons bp rest)
    then show ?case using last_pipe [of "snd bp"] by (cases bp; cases rest) auto
  qed simp
  then show ?thesis using last_pipe [OF assms(1)] by (cases "rest = []"; simp add: operator_commands_def)
qed

lemma subshell_run:
  assumes p: "plain_pipeline p" and rest: "\<forall>(oper, q)\<in>set rest. plain_pipeline q \<and> is_operator oper \<and> oper \<noteq> ''|''"
    and result: "run_and_or fate p (map (\<lambda>(oper, q). (oper \<noteq> ''||'', q)) rest) = (events, code, executed)"
  shows "\<exists>r. run_subshell fate (operator_commands p rest @ [op_command ''&'']) e = Some r \<and>
    log r = events \<and> last_child_exit_code r = (if executed then code else 0)"
proof -
  let ?cs = "operator_commands p rest" and ?rest = "map (\<lambda>(oper, q). (oper \<noteq> ''||'', q)) rest"
  let ?r = "(run_initial e)\<lparr>last_child_pid := Some 0\<rparr>"
  have cs: "map taken_command ?cs = and_or_commands p ?rest"
    using taken_pipe [OF p] taken_chain [OF rest] by (simp add: operator_commands_def and_or_commands_def)
  then have len: "length (and_or_commands p ?rest) = length ?cs" by (metis length_map)
  have plain: "\<forall>(oper, q)\<in>set rest. plain_pipeline q" "\<forall>(b, q)\<in>set ?rest. plain_pipeline q" using rest by auto
  have last: "?cs \<noteq> []" "\<not> is_operator (c_name (last ?cs))" using operator_last [OF p plain(1)] by simp_all
  obtain t pid others where t: "run_loop fate (and_or_commands p ?rest) (length ?cs) (length ?cs) ?r = Some t"
    and c: "children_to_wait_for t = pid # others" "last_child_pid t = Some pid" "pid \<notin> set others"
    "log t = events" "if executed then pid \<notin> set (reaped t) \<and> code = exit_code_of (fate pid) else pid \<in> set (reaped t)"
    using run_and_or_loop [OF p plain(2) result, where e = e and x = "Some 0"] unfolding len by metis
  have "(?cs @ [op_command ''&'']) ! (length (?cs @ [op_command ''&'']) - 2) = last ?cs"
    using last(1) by (simp add: nth_append last_conv_nth)
  then have m: "get_command_count_before_redirection (?cs @ [op_command ''&'']) = Suc (length ?cs)"
    using last(2) by (auto simp: get_command_count_before_redirection_def strings_equal_def Let_def)
  have "taken_state ?r = ?r" "command_array_ptr ?r \<le> length ?cs" by (simp_all add: taken_state_def run_initial_def)
  then have "map_option taken_state (run_loop fate (?cs @ [op_command ''&'']) (length ?cs) (Suc (length ?cs)) ?r) = Some t"
    using taken_loop [of ?cs "length ?cs" "Suc (length ?cs)" ?r fate "[op_command ''&'']"] t cs by simp
  then obtain u where u: "run_loop fate (?cs @ [op_command ''&'']) (length ?cs) (Suc (length ?cs)) ?r = Some u" "t = taken_state u"
    unfolding map_option_eq_Some by blast
  have c': "children_to_wait_for u = pid # others" "last_child_pid u = Some pid" "pid \<notin> set others" "log u = events"
    "if executed then pid \<notin> set (reaped u) \<and> code = exit_code_of (fate pid) else pid \<in> set (reaped u)"
    using c u(2) by (simp_all split: if_splits)
  have "run_subshell fate (?cs @ [op_command ''&'']) e = Some (wait_children fate (children_to_wait_for u) (Exited 0) u)"
    using u(1) m by (simp add: run_subshell_def run_commands_def)
  then show ?thesis
    using wait_children_last [OF c'(1-3), of fate] c'(4,5) by (auto split: if_splits)
qed

section \<open>A redirection at the end\<close>

definition redirected :: "command list \<Rightarrow> string \<Rightarrow> command \<Rightarrow> command list" where
  "redirected p oper target = pipe_commands p @ [op_command oper, target]"

lemma redirect_loop:
  assumes "commands = pre @ pipe_commands p @ [op_command oper, target]" "plain_pipeline p"
    "command_array_ptr r = length pre" "pipe_ready r"
  shows "\<exists>op source. run_loop fate commands (length commands) (length commands - 2) r =
      Some ((started (length p) r)\<lparr>last_operator := op, last_pipe_end := source,
         command_array_ptr := command_array_ptr r + 2 * length p - 2,
         log := log r @ spawn_pipeline (next_pid r) (command_array_ptr r) (last_pipe_end r) (length p) @
           [To_file (next_pid r + length p - 1) (c_name target) (oper = ''>'')]\<rparr>)"
  using assms
proof (induction p arbitrary: pre r rule: pipe_commands.induct)
  case 1
  then show ?case by (simp add: plain_pipeline_def)
next
  case (2 c)
  have cs: "commands = pre @ c # [op_command oper, target]" using 2(1) by simp
  have n: "length commands = Suc (Suc (Suc (length pre)))" "commands ! Suc (Suc (length pre)) = target"
    "commands ! Suc (length pre) = op_command oper" "cget commands (int (length pre)) = Some c"
    by (simp_all add: cs nth_append cget_at)
  have "run_command commands (length commands) (length commands - 2) r =
      (False, (fork_child r)\<lparr>log := log (fork_child r) @ [To_file (next_pid r) (c_name target) (oper = ''>'')]\<rparr>)"
    using 2(3,4) n(1-3) by (auto simp: run_command_def pipe_ready_def Let_def fork_child_def strings_equal_def)
  then have "run_iteration fate commands (length commands) (length commands - 2) r =
      Some (False, (fork_child r)\<lparr>log := log (fork_child r) @ [To_file (next_pid r) (c_name target) (oper = ''>'')]\<rparr>)"
    using 2(2-4) n(1,4) by (auto simp: run_iteration_def plain_pipeline_def pipe_ready_def strings_equal_def)
  then have "run_loop fate commands (length commands) (length commands - 2) r =
      Some ((fork_child r)\<lparr>log := log (fork_child r) @ [To_file (next_pid r) (c_name target) (oper = ''>'')]\<rparr>)"
    by (subst run_loop.simps) simp
  then show ?case
    by (auto simp: fork_started started_def intro!: exI [of _ "last_operator r"] exI [of _ "last_pipe_end r"])
next
  case (3 c d cs)
  define k where "k = length (d # cs)"
  then have k: "length (d # cs) = k" "length (c # d # cs) = Suc k" "0 < k" by simp_all
  let ?n = "length commands"
  have cs: "commands = pre @ c # op_command ''|'' # pipe_commands (d # cs) @ [op_command oper, target]"
    "commands = (pre @ [c]) @ op_command ''|'' # pipe_commands (d # cs) @ [op_command oper, target]"
    "commands = (pre @ [c, op_command ''|'']) @ pipe_commands (d # cs) @ [op_command oper, target]"
    using 3(2) by simp_all
  have plain: "\<not> is_operator (c_name c)" "plain_pipeline (d # cs)" using 3(3) by (simp_all add: plain_pipeline_def)
  have "?n > Suc (Suc (Suc (length pre)))" using cs(1) by (cases cs) auto
  then have far: "Suc (length pre) \<noteq> ?n" "Suc (length pre) \<noteq> ?n - 2" "length pre \<noteq> ?n" by auto
  define r1 where "r1 = (fork_child r)\<lparr>last_operator := None, last_pipe_end := Some (next_pid r),
    command_array_ptr := command_array_ptr r + 1\<rparr>"
  define r2 where "r2 = (fork_child r)\<lparr>last_pipe_end := Some (next_pid r), last_operator := Some ''|'',
    command_array_ptr := command_array_ptr r + 2\<rparr>"
  have "run_command commands ?n (?n - 2) r = (True, r1)"
    using far 3(4,5) by (auto simp: run_command_def pipe_ready_def Let_def fork_child_def r1_def)
  then have "run_iteration fate commands ?n (?n - 2) r = Some (True, r1)"
    using far 3(4,5) plain(1) cget_at [OF refl, of pre c] cs(1)
    by (auto simp: run_iteration_def pipe_ready_def strings_equal_def)
  then have "run_loop fate commands ?n (?n - 2) r = run_loop fate commands ?n (?n - 2) r1"
    by (subst run_loop.simps) simp
  also have "\<dots> = run_loop fate commands ?n (?n - 2) r2"
    using run_operator [OF cs(2), of r1 fate "?n - 2"] 3(4) by (simp add: r1_def r2_def)
  finally have run: "run_loop fate commands ?n (?n - 2) r = run_loop fate commands ?n (?n - 2) r2" .
  have ready: "command_array_ptr r2 = length (pre @ [c, op_command ''|''])" "pipe_ready r2"
    using 3(4) by (simp_all add: r2_def pipe_ready_def)
  have r2: "next_pid r2 = next_pid r + 1" "command_array_ptr r2 = command_array_ptr r + 2"
    "log r2 @ spawn_pipeline (next_pid r2) (command_array_ptr r2) (last_pipe_end r2) k @ es =
      log r @ spawn_pipeline (next_pid r) (command_array_ptr r) (last_pipe_end r) (Suc k) @ es" for es
    by (simp_all add: r2_def fork_child_def)
  have st: "started k r2 = (started (Suc k) r)\<lparr>last_pipe_end := Some (next_pid r), last_operator := Some ''|'',
      command_array_ptr := command_array_ptr r + 2\<rparr>"
    unfolding r2_def by (rule started_step) (rule k)
  obtain op source where IH: "run_loop fate commands ?n (?n - 2) r2 =
    Some ((started k r2)\<lparr>last_operator := op, last_pipe_end := source,
       command_array_ptr := command_array_ptr r2 + 2 * k - 2,
       log := log r2 @ spawn_pipeline (next_pid r2) (command_array_ptr r2) (last_pipe_end r2) k @
         [To_file (next_pid r2 + k - 1) (c_name target) (oper = ''>'')]\<rparr>)"
    using 3(1) [OF cs(3) plain(2) ready] unfolding k by blast
  have n: "command_array_ptr r2 + 2 * k - 2 = command_array_ptr r + 2 * Suc k - 2"
    "next_pid r2 + k - 1 = next_pid r + Suc k - 1"
    using r2(1,2) k(3) by simp_all
  show ?case unfolding run IH k n r2(3) st
    by (intro exI [of _ op] exI [of _ source]) simp
qed

lemma run_redirected:
  assumes plain: "plain_pipeline p" and oper: "oper = ''>'' \<or> oper = ''>>''"
  shows "\<exists>r. run_commands fate (redirected p oper target) (length (redirected p oper target)) (run_initial e) = Some r \<and>
    log r = spawn_pipeline 1 0 None (length p) @ [To_file (length p) (c_name target) (oper = ''>'')] \<and>
    last_child_exit_code r = exit_code_of (fate (length p))"
proof -
  let ?cs = "redirected p oper target" and ?r = "run_initial e"
  have len: "0 < length p" using plain by (simp add: plain_pipeline_def)
  have "pipe_ready ?r" "command_array_ptr ?r = length ([] :: command list)"
    by (simp_all add: run_initial_def pipe_ready_def)
  then obtain op source where loop: "run_loop fate ?cs (length ?cs) (length ?cs - 2) ?r =
      Some ((started (length p) ?r)\<lparr>last_operator := op, last_pipe_end := source,
         command_array_ptr := command_array_ptr ?r + 2 * length p - 2,
         log := log ?r @ spawn_pipeline (next_pid ?r) (command_array_ptr ?r) (last_pipe_end ?r) (length p) @
           [To_file (next_pid ?r + length p - 1) (c_name target) (oper = ''>'')]\<rparr>)"
    using redirect_loop [of ?cs "[]" p oper target ?r fate] plain unfolding redirected_def by auto
  have "?cs ! (length ?cs - 2) = op_command oper" by (simp add: redirected_def nth_append)
  then have m: "get_command_count_before_redirection ?cs = length ?cs - 2"
    using oper by (auto simp: get_command_count_before_redirection_def Let_def strings_equal_def)
      (simp_all add: redirected_def)
  define t where "t = (started (length p) ?r)\<lparr>last_operator := op, last_pipe_end := source,
    command_array_ptr := command_array_ptr ?r + 2 * length p - 2,
    log := log ?r @ spawn_pipeline (next_pid ?r) (command_array_ptr ?r) (last_pipe_end ?r) (length p) @
      [To_file (next_pid ?r + length p - 1) (c_name target) (oper = ''>'')]\<rparr>"
  obtain m' where m': "length p = Suc m'" using len by (cases "length p") auto
  have c: "children_to_wait_for t = length p # rev [1..<length p]" "last_child_pid t = Some (length p)"
    "length p \<notin> set (rev [1..<length p])" "reaped t = []"
    by (simp_all add: t_def started_def run_initial_def m')
  have "run_commands fate ?cs (length ?cs) ?r = Some (wait_children fate (children_to_wait_for t) (Exited 0) t)"
    using loop m by (simp add: run_commands_def t_def)
  then show ?thesis using wait_children_last [OF c(1-3), of fate] c(4)
    by (simp add: t_def) (simp add: run_initial_def)
qed

end
