(* ===== verification/Shell_Props.thy ===== *)
theory Shell_Props
  imports Shell_Run
begin

text \<open>
  The shell as a whole, main of 2/main.c: it reads a line, runs it, and goes on until the input
  ends; and the properties of its parts together.
\<close>

section \<open>The main loop\<close>

lemma read_loop_shorter: "read_loop input r = Some (t, False, rest) \<Longrightarrow> length rest < length input"
  by (induction input arbitrary: r) (auto split: if_splits option.splits simp: less_Suc_eq)

lemma read_stdin_line_shorter:
  "read_stdin_line input = Some (line, False, rest) \<Longrightarrow> length rest < length input"
  by (auto simp: read_stdin_line_def bind_eq_Some_conv dest: read_loop_shorter split: prod.splits)

text \<open>
  The children of the line with a number have their fates. The shell ends with an exit code; what
  it did is the list of the results of its lines.
\<close>

function shell_main :: "(nat \<Rightarrow> nat \<Rightarrow> wait_status) \<Rightarrow> (string \<Rightarrow> int) \<Rightarrow> nat \<Rightarrow> char list \<Rightarrow> int
    \<Rightarrow> (int \<times> line_result list) option" where
  "shell_main fates chdir line_number input exit_code =
     (case read_stdin_line input of
        None \<Rightarrow> None
      | Some (line, ended_with_EOF, rest) \<Rightarrow>
          (case run_line (fates line_number) chdir line exit_code of
             None \<Rightarrow> None
           | Some result \<Rightarrow>
               (case result of
                  Exits code \<Rightarrow> Some (code, [result])
                | _ \<Rightarrow>
                    let code = (case result of Goes_on code _ \<Rightarrow> code | _ \<Rightarrow> exit_code) in
                    if ended_with_EOF then Some (code, [result])
                    else map_option (\<lambda>(final, results). (final, result # results))
                           (shell_main fates chdir (line_number + 1) rest code))))"
  by pat_completeness auto
termination
  by (relation "measure (\<lambda>(_, _, _, input, _). length input)") (auto dest: read_stdin_line_shorter)

declare shell_main.simps [simp del]

section \<open>Lines of and-or lists\<close>

lemma well_formed_pipe:
  "plain_pipeline p \<Longrightarrow> \<forall>c\<in>set p. list_all (\<lambda>a. \<not> is_operator a) (c_argv c) \<Longrightarrow>
     well_formed cs \<Longrightarrow> cs = [] \<or> is_operator (c_name (hd cs)) \<Longrightarrow> well_formed (pipe_commands p @ cs)"
  by (induction p rule: pipe_commands.induct)
    (auto simp: plain_pipeline_def op_command_def split: list.splits)


text \<open>A pipeline whose commands have no operator among their arguments.\<close>

definition simple_pipeline :: "command list \<Rightarrow> bool" where
  "simple_pipeline p \<longleftrightarrow> plain_pipeline p \<and> (\<forall>c\<in>set p. list_all (\<lambda>a. \<not> is_operator a) (c_argv c))"




lemma line_redirects:
  assumes simple: "simple_pipeline p" and target: "\<not> is_operator (c_name target)" "c_argv target = []"
    and oper: "oper = ''>'' \<or> oper = ''>>''"
    and tokens: "get_tokens (Some line) = all_tokens (redirected p oper target)"
  shows "run_line fate chdir line e = Some (Goes_on (exit_code_of (fate (length p)))
    (spawn_pipeline 1 0 None (length p) @ [To_file (length p) (c_name target) (oper = ''>'')]))"
proof -
  let ?cs = "redirected p oper target"
  have plain: "plain_pipeline p" using simple by (simp add: simple_pipeline_def)
  have "is_operator oper" using oper by auto
  then have "well_formed ?cs" unfolding redirected_def
    using simple target by (intro well_formed_pipe) (auto simp: simple_pipeline_def op_command_def)
  then have parse: "parse line = ?cs" using tokens by (simp add: parse_iff)
  have "?cs \<noteq> []" "length ?cs = length (pipe_commands p) + 2" by (simp_all add: redirected_def)
  moreover have "?cs ! (length ?cs - 1) = target" by (simp add: redirected_def nth_append)
  moreover have "c_name target \<noteq> ''&''" using target(1) by (auto simp: is_operator_def is_operator_char_def)
  moreover obtain r where "run_commands fate ?cs (length ?cs) (run_initial e) = Some r"
    "log r = spawn_pipeline 1 0 None (length p) @ [To_file (length p) (c_name target) (oper = ''>'')]"
    "last_child_exit_code r = exit_code_of (fate (length p))"
    using run_redirected [OF plain oper] by blast
  ultimately show ?thesis by (simp add: run_line_def parse Let_def strings_equal_def)
qed

section \<open>No undefined behaviour\<close>

text \<open>The pipe end that is held is the one of the last child, who has not been waited for.\<close>

definition run_safe :: "nat \<Rightarrow> run_state \<Rightarrow> bool" where
  "run_safe n r \<longleftrightarrow> command_array_ptr r \<le> n \<and> (\<forall>q\<in>set (reaped r). q < next_pid r) \<and>
     (case last_pipe_end r of None \<Rightarrow> True
      | Some w \<Rightarrow> last_child_pid r = Some w \<and> w \<notin> set (reaped r) \<and> w < next_pid r)"

lemma finish_safe:
  assumes "run_safe n r"
  obtains t where "finish_pipeline fate r = Some t" "run_safe n t" "command_array_ptr t = command_array_ptr r"
proof (cases "last_pipe_end r")
  case None
  then have "finish_pipeline fate r = Some r" by (simp add: finish_pipeline_def)
  then show ?thesis using that assms by blast
next
  case (Some w)
  then have r: "command_array_ptr r \<le> n" "\<forall>q\<in>set (reaped r). q < next_pid r" "last_child_pid r = Some w"
    "w \<notin> set (reaped r)" "w < next_pid r"
    using assms by (simp_all add: run_safe_def)
  let ?t = "r\<lparr>log := log r @ [To_stdout w], last_pipe_end := None, reaped := w # reaped r,
    last_child_exit_code := exit_code_of (fate w)\<rparr>"
  have "finish_pipeline fate r = Some ?t" using r Some by (simp add: finish_pipeline_def waitpid_def)
  moreover have "run_safe n ?t" using r by (simp add: run_safe_def)
  ultimately show ?thesis using that by simp
qed

lemma run_command_safe:
  assumes "run_safe n r" "command_array_ptr r < n" "fst (run_command commands m k r)"
  shows "run_safe n (snd (run_command commands m k r))"
proof -
  have r: "\<forall>q\<in>set (reaped r). q < next_pid r" using assms(1) by (simp add: run_safe_def)
  then have "next_pid r \<notin> set (reaped r)" "\<forall>q\<in>set (reaped r). q < Suc (next_pid r)" by (auto simp: less_Suc_eq)
  moreover have "\<forall>w. last_pipe_end r = Some w \<longrightarrow> last_pipe_end r = Some w" by simp
  ultimately show ?thesis using assms r
    by (cases "last_pipe_end r")
      (auto simp: run_command_def fork_child_def run_safe_def Let_def split: if_splits)
qed

lemma run_iteration_safe:
  assumes "run_safe n r" and n: "n \<le> length commands"
  shows "\<exists>x. run_iteration fate commands n m r = Some x \<and> (fst x \<longrightarrow> run_safe n (snd x))"
proof (cases "command_array_ptr r = n")
  case True
  then show ?thesis using assms by (simp add: run_iteration_def)
next
  case False
  let ?c = "commands ! command_array_ptr r"
  have lt: "command_array_ptr r < n" using assms False by (simp add: run_safe_def)
  then have c: "cget commands (int (command_array_ptr r)) = Some ?c" using n by simp
  have moved: "run_safe n (v\<lparr>command_array_ptr := command_array_ptr v + 1\<rparr>)"
    "run_safe n (v\<lparr>last_operator := op, command_array_ptr := command_array_ptr v + 1\<rparr>)"
    "run_safe n (v\<lparr>last_operator := op\<rparr>)"
    if "run_safe n v" "command_array_ptr v = command_array_ptr r" for v op
    using that lt by (cases "last_pipe_end v"; simp add: run_safe_def)+
  obtain u where u: "finish_pipeline fate r = Some u" "run_safe n u" "command_array_ptr u = command_array_ptr r"
    by (rule finish_safe [OF assms(1)])
  let ?v = "u\<lparr>last_operator := None\<rparr>"
  have v: "fst (run_command commands n m ?v) \<longrightarrow> run_safe n (snd (run_command commands n m ?v))"
    using run_command_safe [OF moved(3) [OF u(2,3)]] u(3) lt by simp
  consider (oper) "is_operator (c_name ?c)" | (run) "\<not> is_operator (c_name ?c)" "last_operator r = None \<or> last_operator r = Some ''|''"
    | (junction) oper where "\<not> is_operator (c_name ?c)" "last_operator r = Some oper" "oper \<noteq> ''|''"
    by (cases "last_operator r") auto
  then show ?thesis
  proof cases
    case oper
    then show ?thesis using c False moved(2) [OF assms(1) refl] by (simp add: run_iteration_def)
  next
    case run
    then have "run_iteration fate commands n m r = Some (run_command commands n m r)"
      using c False by (auto simp: run_iteration_def strings_equal_def)
    then show ?thesis using run_command_safe [OF assms(1) lt] by simp
  next
    case junction
    then have "run_iteration fate commands n m r =
        (if (if oper = ''||'' then last_child_exit_code u = 0 else last_child_exit_code u \<noteq> 0)
         then Some (True, u\<lparr>command_array_ptr := command_array_ptr u + 1\<rparr>) else Some (run_command commands n m ?v))"
      using c False u(1) by (simp add: run_iteration_def strings_equal_def)
    then show ?thesis using v moved(1) [OF u(2,3)] by (metis fst_conv snd_conv)
  qed
qed

lemma run_loop_safe:
  assumes "run_safe n r" and n: "n \<le> length commands"
  shows "run_loop fate commands n m r \<noteq> None"
  using assms(1)
proof (induction "length commands - command_array_ptr r" arbitrary: r rule: less_induct)
  case less
  obtain b t where t: "run_iteration fate commands n m r = Some (b, t)" "b \<longrightarrow> run_safe n t"
    using run_iteration_safe [OF less.prems n, of fate m] by auto
  show ?case
  proof (cases b)
    case True
    then have "length commands - command_array_ptr t < length commands - command_array_ptr r"
      using run_iteration_ptr [of fate commands n m r t] t(1) by auto
    with less.hyps t(2) True have "run_loop fate commands n m t \<noteq> None" by blast
    then show ?thesis using t(1) True by (subst run_loop.simps) simp
  next
    case False
    then show ?thesis using t(1) by (subst run_loop.simps) simp
  qed
qed

text \<open>A line that is an exit command alone has a number that fits an int, or none.\<close>

definition exit_fits :: "string \<Rightarrow> bool" where
  "exit_fits line \<longleftrightarrow> (case parse line of
     [c] \<Rightarrow> c_name c = ''exit'' \<longrightarrow> execute_exit_command c \<noteq> None | _ \<Rightarrow> True)"

lemma run_line_defined:
  assumes "exit_fits line"
  shows "run_line fate chdir line e \<noteq> None"
proof -
  have "run_safe (length (parse line)) (run_initial e)" by (simp add: run_safe_def run_initial_def)
  from run_loop_safe [OF this le_refl, of fate "get_command_count_before_redirection (parse line)"]
  show ?thesis using assms
    by (auto simp: run_line_def Let_def run_commands_def exit_fits_def strings_equal_def length_Suc_conv)
qed

lemma run_subshell_defined: "run_subshell fate commands e \<noteq> None"
proof -
  have "run_safe (length commands - 1) ((run_initial e)\<lparr>last_child_pid := Some 0\<rparr>)"
    by (simp add: run_safe_def run_initial_def)
  from run_loop_safe [OF this, of commands fate "get_command_count_before_redirection commands"]
  show ?thesis by (auto simp: run_subshell_def run_commands_def)
qed

lemma logical_line_rest: "set (snd (snd (logical_line input esc q line))) \<subseteq> set input"
proof (induction input arbitrary: esc q line)
  case (Cons c input)
  have "set (snd (snd (logical_line input e q' l))) \<subseteq> insert c (set input)" for e q' l using Cons.IH by blast
  then show ?case by (auto simp del: subset_iff)
qed simp

lemma logical_line_shorter: "length (snd (snd (logical_line input esc q line))) \<le> length input"
  by (induction input arbitrary: esc q line) (simp_all add: le_SucI)

lemma logical_line_strict:
  "\<not> fst (snd (logical_line input esc q line)) \<Longrightarrow> length (snd (snd (logical_line input esc q line))) < length input"
  by (induction input arbitrary: esc q line) (auto simp: less_SucI split: if_splits)

text \<open>The lines of an input, the last of which is ended by the end of the input.\<close>

function logical_lines :: "char list \<Rightarrow> string list" where
  "logical_lines input = (case logical_line input False None [] of
     (line, ended_with_EOF, rest) \<Rightarrow> line # (if ended_with_EOF then [] else logical_lines rest))"
  by pat_completeness auto
termination
proof (relation "measure length")
  fix input line y ended rest
  assume "(line, y) = logical_line input False None []" "(ended, rest) = y" "\<not> ended"
  then show "(rest, input) \<in> measure length"
    using logical_line_strict [of input False None "[]"] by (metis fst_conv snd_conv in_measure)
qed simp

declare logical_lines.simps [simp del]

lemma shell_main_defined:
  "length input < 10 ^ 9 \<Longrightarrow> NUL \<notin> set input \<Longrightarrow> \<forall>line\<in>set (logical_lines input). exit_fits line \<Longrightarrow>
   shell_main fates chdir n input e \<noteq> None"
proof (induction "length input" arbitrary: input n e rule: less_induct)
  case less
  obtain line eof rest where line: "logical_line input False None [] = (line, eof, rest)" by (metis prod_cases3)
  then have read: "read_stdin_line input = Some (line, eof, rest)" using read_line_spec less.prems by simp
  have rest: "length rest < 10 ^ 9" "NUL \<notin> set rest"
    using logical_line_rest [of input False None "[]"] logical_line_shorter [of input False None "[]"] line less.prems by auto
  have lines: "logical_lines input = line # (if eof then [] else logical_lines rest)"
    by (subst logical_lines.simps) (simp add: line)
  then have "exit_fits line" using less.prems(3) by simp
  then obtain result where result: "run_line (fates n) chdir line e = Some result" using run_line_defined by blast
  have "shell_main fates chdir (n + 1) rest code \<noteq> None" if "\<not> eof" for code
    using less.hyps [OF _ rest] read_stdin_line_shorter [of input line rest] read that less.prems(3) lines by simp
  then show ?case using read result
    by (subst shell_main.simps) (auto simp: Let_def split: line_result.splits)
qed

section \<open>Concrete lines\<close>

lemma bare_word: "t \<noteq> [] \<Longrightarrow> list_all (\<lambda>c. \<not> special c) t \<Longrightarrow> spelling t t"
  by (rule spell_bare, assumption, induction t) (auto intro: bare.intros)

lemma word_spelling:
  "t \<in> operators \<or> t \<noteq> [] \<and> list_all (\<lambda>c. \<not> special c) t \<Longrightarrow> spelling t t"
  using bare_word spell_operator by blast

lemma words_tokens:
  assumes "\<forall>t\<in>set ts. t \<in> operators \<or> t \<noteq> [] \<and> list_all (\<lambda>c. \<not> special c) t"
  shows "get_tokens (Some (unwords ts)) = ts"
proof (rule spellings_tokens)
  show "list_all2 spelling ts ts" using assms by (induction ts) (auto intro: word_spelling)
qed

definition command_of :: "string list \<Rightarrow> command" where
  "command_of ws = \<lparr>c_name = hd ws, c_argv = tl ws\<rparr>"

lemmas word_simps = operators_def special_def char_kinds is_operator_def is_operator_char_def

lemma demo_tokens:
  "get_tokens (Some ''a x && b | c'') = [''a'', ''x'', ''&&'', ''b'', ''|'', ''c'']"
  "get_tokens (Some ''a | b > f'') = [''a'', ''|'', ''b'', ''>'', ''f'']"
  "get_tokens (Some ''a || b > f'') = [''a'', ''||'', ''b'', ''>'', ''f'']"
  using words_tokens [of "[''a'', ''x'', ''&&'', ''b'', ''|'', ''c'']"] words_tokens [of "[''a'', ''|'', ''b'', ''>'', ''f'']"]
    words_tokens [of "[''a'', ''||'', ''b'', ''>'', ''f'']"]
  by (simp_all add: word_simps)

section \<open>Properties\<close>



text \<open>C18: Reading a line of an input of less than 10^9 bytes, none of them zero, never touches a cell
  outside the buffer, however often it grows up to there, and gives the logical line: up to the first
  newline outside quotes or the first byte 255, which is taken for the end of the input as its real
  end is, with escaped newlines removed together with their backslash. (Past 10^9 bytes the size of
  the buffer overflows an int.)\<close>

theorem read_line_correct:
  assumes "length input < 10 ^ 9" "NUL \<notin> set input"
  shows "read_stdin_line input = Some (logical_line input False None [])"
  using assms by (rule read_line_spec)

theorem read_line_correct_witness:
  "read_stdin_line (''a'' @ backslash # newline # ''b'' @ newline # ''c'') = Some (''ab'', False, ''c'')"
  using read_line_correct [of "''a'' @ backslash # newline # ''b'' @ newline # ''c''"] by (simp add: is_quote_def)

text \<open>C19: The commands of a line are the one way to cut its tokens into commands such that operators
  stand alone, no argument is an operator, and an operator separates any two other commands.\<close>

theorem parse_correct:
  "parse s = cs \<longleftrightarrow> well_formed cs \<and> all_tokens cs = get_tokens (Some s)"
  by (rule parse_iff)



text \<open>A pipeline with a redirection at the end of the line writes the output of its last command to
  the file, truncated or not as the operator says, and gives its exit code.\<close>

theorem redirected_line_correct:
  assumes "simple_pipeline p" "\<not> is_operator (c_name target)" "c_argv target = []" "oper = ''>'' \<or> oper = ''>>''"
    "get_tokens (Some line) = all_tokens (redirected p oper target)"
  shows "run_line fate chdir line e = Some (Goes_on (exit_code_of (fate (length p)))
    (spawn_pipeline 1 0 None (length p) @ [To_file (length p) (c_name target) (oper = ''>'')]))"
  using assms by (rule line_redirects)

theorem redirected_line_correct_witness:
  "run_line (\<lambda>_. Exited 0) (\<lambda>_. 0) ''a | b > f'' 5 =
     Some (Goes_on 0 [Spawned 1 0 None, Spawned 2 2 (Some 1), To_file 2 ''f'' True])"
proof -
  let ?p = "[command_of [''a''], command_of [''b'']]" and ?f = "command_of [''f'']"
  have h: "simple_pipeline ?p" "\<not> is_operator (c_name ?f)" "c_argv ?f = []" "''>'' = ''>'' \<or> ''>'' = ''>>''"
    by (simp_all add: simple_pipeline_def plain_pipeline_def command_of_def word_simps)
  have "get_tokens (Some ''a | b > f'') = all_tokens (redirected ?p ''>'' ?f)"
    unfolding demo_tokens by (simp add: all_tokens_def redirected_def command_of_def op_command_def)
  from redirected_line_correct [OF h this] show ?thesis by (simp add: exit_code_of_def command_of_def)
qed

text \<open>C20: A redirection is not recognised in a line that ends with an ampersand: the subshell takes > and
  >>, as every operator but the pipe and ||, for &&. Its pipelines start the children, give the output to the terminal
  and end with the exit code of the and-or list in which && is written for them, so the name of the
  file is run as a command when the pipeline before it succeeded, and no file is written.\<close>

theorem subshell_redirection_executed:
  assumes "plain_pipeline p" "\<forall>(oper, q)\<in>set rest. plain_pipeline q \<and> is_operator oper \<and> oper \<noteq> ''|''"
    "run_and_or fate p (map (\<lambda>(oper, q). (oper \<noteq> ''||'', q)) rest) = (events, code, executed)"
  shows "\<exists>r. run_subshell fate (operator_commands p rest @ [op_command ''&'']) e = Some r \<and>
    log r = events \<and> last_child_exit_code r = (if executed then code else 0)"
  using assms by (rule subshell_run)

theorem subshell_redirection_executed_witness:
  "\<exists>r. run_subshell (\<lambda>pid. Exited (int pid - 1)) (map op_command [''a'', ''>'', ''f'', ''&'']) 5 = Some r \<and>
     log r = [Spawned 1 0 None, To_stdout 1, Spawned 2 2 None, To_stdout 2] \<and> last_child_exit_code r = 1"
proof -
  let ?p = "[op_command ''a'']" and ?rest = "[(''>'', [op_command ''f''])]"
  have "plain_pipeline ?p" "\<forall>(oper, q)\<in>set ?rest. plain_pipeline q \<and> is_operator oper \<and> oper \<noteq> ''|''"
    by (simp_all add: plain_pipeline_def word_simps)
  moreover have "run_and_or (\<lambda>pid. Exited (int pid - 1)) ?p (map (\<lambda>(oper, q). (oper \<noteq> ''||'', q)) ?rest) =
      ([Spawned 1 0 None, To_stdout 1, Spawned 2 2 None, To_stdout 2], 1, True)"
    by (simp add: run_and_or_def pipeline_events_def exit_code_of_def)
  ultimately show ?thesis
    using subshell_redirection_executed [of ?p ?rest "\<lambda>pid. Exited (int pid - 1)" _ _ _ 5] by (simp add: operator_commands_def)
qed

text \<open>In the shell itself the same happens behind a pipeline that was skipped.\<close>

theorem skipped_redirection_executed:
  "run_line (\<lambda>_. Exited 0) chdir ''a || b > f'' e =
     Some (Goes_on 0 [Spawned 1 0 None, To_stdout 1, Spawned 2 4 None, To_stdout 2])"
proof -
  let ?cs = "map (\<lambda>w. \<lparr>c_name = w, c_argv = []\<rparr>) [''a'', ''||'', ''b'', ''>'', ''f'']"
  have "parse ''a || b > f'' = ?cs"
    unfolding parse_iff demo_tokens by (simp add: all_tokens_def word_simps)
  then show ?thesis
    by (simp add: run_line_def strings_equal_def run_commands_def get_command_count_before_redirection_def
        run_loop.simps run_iteration_def run_initial_def cget_def word_simps run_command_def fork_child_def add_pid_def
        finish_pipeline_def waitpid_def exit_code_of_def Let_def)
qed

text \<open>A subshell runs its commands, but when its line did not end the input it then reads from stdin,
  which it has closed.\<close>

theorem subshell_reads_closed_input:
  "(subshell_main fate commands last_line_ended_with_EOF e = None) = (\<not> last_line_ended_with_EOF)"
  using run_subshell_defined [of fate commands e] by (auto simp: subshell_main_def bind_eq_None_conv)

text \<open>The number of an exit command is read with sscanf, which is undefined for one that does not fit an int.\<close>

theorem exit_number_overflows: "run_line fate chdir ''exit 99999999999'' e = None"
proof -
  have "get_tokens (Some ''exit 99999999999'') = [''exit'', ''99999999999'']"
    using words_tokens [of "[''exit'', ''99999999999'']"] by (simp add: word_simps)
  then have "parse ''exit 99999999999'' = [\<lparr>c_name = ''exit'', c_argv = [''99999999999'']\<rparr>]"
    unfolding parse_iff by (simp add: all_tokens_def word_simps)
  then show ?thesis
    by (simp add: run_line_def strings_equal_def execute_exit_command_def scan_int_def is_space_def is_digit_def c_int_def int_ok_def)
qed

text \<open>C17: The shell returns on every input of less than 10^9 bytes, none of them zero, whose lone exit
  commands have numbers that fit an int (exit_number_overflows), whatever its children do: no access outside an array, no status read
  before a child was waited for, no signed overflow; and the subshells it leaves behind run their
  commands to the end in the same way. What a subshell does after that is
  subshell_reads_closed_input; fork, pipe, fopen and malloc are taken to succeed.\<close>

theorem shell_always_returns:
  assumes "length input < 10 ^ 9" "NUL \<notin> set input" "\<forall>line\<in>set (logical_lines input). exit_fits line"
  shows "\<exists>code results. shell_main fates chdir 0 input 0 = Some (code, results) \<and>
    (\<forall>commands fate e. Forks_subshell commands \<in> set results \<longrightarrow> run_subshell fate commands e \<noteq> None)"
  using shell_main_defined [OF assms, of fates chdir 0 0] run_subshell_defined by auto

theorem shell_always_returns_witness:
  "\<exists>code results. shell_main (\<lambda>_ _. Exited 0) (\<lambda>_. 0) 0 ''a x && b | c'' 0 = Some (code, results)"
proof -
  have "parse ''a x && b | c'' = [command_of [''a'', ''x''], op_command ''&&'', command_of [''b''], op_command ''|'', command_of [''c'']]"
    unfolding parse_iff demo_tokens by (simp add: all_tokens_def word_simps command_of_def op_command_def)
  then have "exit_fits ''a x && b | c''" by (simp add: exit_fits_def)
  moreover have "logical_lines ''a x && b | c'' = [''a x && b | c'']"
    by (subst logical_lines.simps) (simp add: is_quote_def)
  ultimately show ?thesis
    using shell_always_returns [of "''a x && b | c''" "\<lambda>_ _. Exited 0" "\<lambda>_. 0"] by auto
qed

end
