(* ===== verification/Pool.thy ===== *)
theory Pool
  imports Timespec
begin

text \<open>
  The thread pool of 4/thread_pool.c: one pool, its tasks and its workers. Everything the code does
  between locking and unlocking the mutex of the pool, or waiting on a condition, is one operation
  on the state; what threads do in between is the order of the operations. Tasks live in a heap; a
  task has a pointer to its pool or none. Dereferencing a freed task or a null pool, leaving the
  array of tasks and reading a cell of it that was never written are undefined behaviour, the
  result None.
\<close>

section \<open>State\<close>

definition TPOOL_MAX_THREADS :: int where "TPOOL_MAX_THREADS = 20"
definition TPOOL_MAX_TASKS :: int where "TPOOL_MAX_TASKS = 100000"

definition TPOOL_ERR_INVALID_ARGUMENT :: int where "TPOOL_ERR_INVALID_ARGUMENT = 1"
definition TPOOL_ERR_TOO_MANY_TASKS :: int where "TPOOL_ERR_TOO_MANY_TASKS = 2"
definition TPOOL_ERR_HAS_TASKS :: int where "TPOOL_ERR_HAS_TASKS = 3"
definition TPOOL_ERR_TASK_NOT_PUSHED :: int where "TPOOL_ERR_TASK_NOT_PUSHED = 4"
definition TPOOL_ERR_TASK_IN_POOL :: int where "TPOOL_ERR_TASK_IN_POOL = 5"
definition TPOOL_ERR_TIMEOUT :: int where "TPOOL_ERR_TIMEOUT = 7"

lemmas tpool_codes = TPOOL_MAX_THREADS_def TPOOL_MAX_TASKS_def TPOOL_ERR_INVALID_ARGUMENT_def
  TPOOL_ERR_TOO_MANY_TASKS_def TPOOL_ERR_HAS_TASKS_def TPOOL_ERR_TASK_NOT_PUSHED_def
  TPOOL_ERR_TASK_IN_POOL_def TPOOL_ERR_TIMEOUT_def

text \<open>The result is None before the function has returned.\<close>

record thread_task =
  task_function :: "int \<Rightarrow> int"
  task_arg :: int
  task_result :: "int option"
  finished :: bool
  assigned :: bool
  scheduled_for_deletion :: bool
  parent_pool :: bool
  index_in_parent_pool :: int

datatype update_event = NO_EVENT | TASK_APPEARS_EVENT | TASKS_ENDED_EVENT

text \<open>
  A worker is about to lock the pool at the head of its loop, waits on the condition, was woken
  and is about to lock again, executes a task without the lock, or has returned.
\<close>

datatype worker = Starting | Waiting | Woken | Running ptr | Stopped

text \<open>
  joiners is what waits on the conditions of the tasks: whether a thread waits inside a join of the
  task, and until when if it is a timed one.
\<close>

record pool =
  max_thread_count :: int
  thread_count :: int
  tasks :: "int \<Rightarrow> ptr option"
  unassigned_tasks_count :: int
  running_tasks_count :: int
  pushed_tasks_count :: int
  thread_update_event :: update_event
  workers :: "worker list"
  task_heap :: "ptr \<rightharpoonup> thread_task"
  deleting :: bool
  joiners :: "ptr \<rightharpoonup> timespec option"

definition get_cell :: "int \<Rightarrow> pool \<Rightarrow> ptr option" where
  "get_cell i s = (if 0 \<le> i \<and> i < TPOOL_MAX_TASKS then tasks s i else None)"

definition set_cell :: "int \<Rightarrow> ptr \<Rightarrow> pool \<Rightarrow> pool option" where
  "set_cell i t s = (if 0 \<le> i \<and> i < TPOOL_MAX_TASKS then Some (s\<lparr>tasks := (tasks s)(i := Some t)\<rparr>) else None)"

definition set_task :: "ptr \<Rightarrow> (thread_task \<Rightarrow> thread_task) \<Rightarrow> pool \<Rightarrow> pool option" where
  "set_task t f s = map_option (\<lambda>n. s\<lparr>task_heap := (task_heap s)(t \<mapsto> f n)\<rparr>) (task_heap s t)"

definition set_worker :: "nat \<Rightarrow> worker \<Rightarrow> pool \<Rightarrow> pool" where
  "set_worker i w s = s\<lparr>workers := (workers s)[i := w]\<rparr>"

section \<open>The array of tasks\<close>

definition swap_tasks_in_pool :: "ptr \<Rightarrow> ptr \<Rightarrow> pool \<Rightarrow> pool option" where
  "swap_tasks_in_pool task1 task2 s = do {
     n1 \<leftarrow> task_heap s task1;
     n2 \<leftarrow> task_heap s task2;
     if \<not> parent_pool n1 then None else do {
       let index1 = index_in_parent_pool n1;
       let index2 = index_in_parent_pool n2;
       s \<leftarrow> set_cell index1 task2 s;
       s \<leftarrow> set_task task2 (\<lambda>n. n\<lparr>index_in_parent_pool := index1\<rparr>) s;
       s \<leftarrow> set_cell index2 task1 s;
       set_task task1 (\<lambda>n. n\<lparr>index_in_parent_pool := index2\<rparr>) s } }"

text \<open>The end of a join, when the task has finished.\<close>

definition thread_task_join_no_lock :: "ptr \<Rightarrow> pool \<Rightarrow> pool option" where
  "thread_task_join_no_lock task s = do {
     last_task \<leftarrow> get_cell (pushed_tasks_count s - 1) s;
     s \<leftarrow> swap_tasks_in_pool task last_task s;
     let s = s\<lparr>pushed_tasks_count := pushed_tasks_count s - 1\<rparr>;
     set_task task (\<lambda>n. n\<lparr>parent_pool := False, index_in_parent_pool := -1, assigned := False\<rparr>) s }"

definition thread_task_delete :: "ptr \<Rightarrow> pool \<Rightarrow> (int \<times> pool) option" where
  "thread_task_delete task s = do {
     n \<leftarrow> task_heap s task;
     if parent_pool n then Some (TPOOL_ERR_TASK_IN_POOL, s)
     else Some (0, s\<lparr>task_heap := (task_heap s)(task := None)\<rparr>) }"

section \<open>The workers\<close>

text \<open>The test of the inner loop, and the critical section after it.\<close>

definition take_task :: "nat \<Rightarrow> pool \<Rightarrow> pool option" where
  "take_task i s = do {
     task_to_execute \<leftarrow> get_cell 0 s;
     let s = s\<lparr>unassigned_tasks_count := unassigned_tasks_count s - 1\<rparr>;
     other \<leftarrow> get_cell (unassigned_tasks_count s) s;
     s \<leftarrow> swap_tasks_in_pool task_to_execute other s;
     let s = s\<lparr>running_tasks_count := running_tasks_count s + 1\<rparr>;
     s \<leftarrow> set_task task_to_execute (\<lambda>n. n\<lparr>assigned := True\<rparr>) s;
     Some (set_worker i (Running task_to_execute) s) }"

definition worker_start :: "nat \<Rightarrow> pool \<Rightarrow> pool option" where
  "worker_start i s = (if unassigned_tasks_count s = 0 then Some (set_worker i Waiting s) else take_task i s)"

definition worker_wake :: "nat \<Rightarrow> pool \<Rightarrow> pool option" where
  "worker_wake i s =
     (if thread_update_event s = TASKS_ENDED_EVENT then Some (set_worker i Stopped s) else worker_start i s)"

text \<open>After the function of the task has returned.\<close>

definition worker_finish :: "nat \<Rightarrow> ptr \<Rightarrow> pool \<Rightarrow> pool option" where
  "worker_finish i task s = do {
     n \<leftarrow> task_heap s task;
     let result = task_function n (task_arg n);
     s \<leftarrow> set_task task (\<lambda>n. n\<lparr>task_result := Some result\<rparr>) s;
     let s = s\<lparr>running_tasks_count := running_tasks_count s - 1\<rparr>;
     s \<leftarrow> set_task task (\<lambda>n. n\<lparr>finished := True\<rparr>) s;
     s \<leftarrow> (if scheduled_for_deletion n
          then do { s \<leftarrow> thread_task_join_no_lock task s; (_, s) \<leftarrow> thread_task_delete task s; Some s }
          else Some s);
     Some (set_worker i Starting s) }"

section \<open>The interface of the pool\<close>

definition thread_pool_new :: "int \<Rightarrow> int \<times> pool option" where
  "thread_pool_new max_count =
     (if max_count \<le> 0 \<or> max_count > TPOOL_MAX_THREADS then (TPOOL_ERR_INVALID_ARGUMENT, None)
      else (0, Some \<lparr>max_thread_count = max_count, thread_count = 0, tasks = (\<lambda>_. None),
        unassigned_tasks_count = 0, running_tasks_count = 0, pushed_tasks_count = 0,
        thread_update_event = NO_EVENT, workers = [], task_heap = Map.empty, deleting = False, joiners = Map.empty\<rparr>))"

definition thread_pool_thread_count :: "pool \<Rightarrow> int" where
  "thread_pool_thread_count s = thread_count s"

text \<open>
  The first part of the deletion; the second, after all threads have returned, frees the pool.
  A broadcast wakes every waiting worker.
\<close>

definition wake_all :: "worker list \<Rightarrow> worker list" where
  "wake_all ws = map (\<lambda>w. if w = Waiting then Woken else w) ws"

definition thread_pool_delete :: "pool \<Rightarrow> int option \<times> pool" where
  "thread_pool_delete s =
     (if unassigned_tasks_count s > 0 \<or> running_tasks_count s > 0 then (Some TPOOL_ERR_HAS_TASKS, s)
      else (None, s\<lparr>thread_update_event := TASKS_ENDED_EVENT, workers := wake_all (workers s), deleting := True\<rparr>))"

definition delete_can_join :: "pool \<Rightarrow> bool" where
  "delete_can_join s \<longleftrightarrow> deleting s \<and> list_all (\<lambda>w. w = Stopped) (workers s)"

text \<open>pthread_cond_signal wakes one waiting worker, of the system's choice, if there is one.\<close>

definition signal_worker :: "nat option \<Rightarrow> pool \<Rightarrow> pool" where
  "signal_worker w s = (case w of None \<Rightarrow> s | Some i \<Rightarrow> set_worker i Woken s)"

definition thread_pool_push_task :: "ptr \<Rightarrow> nat option \<Rightarrow> pool \<Rightarrow> (int \<times> pool) option" where
  "thread_pool_push_task task signalled s =
     (if pushed_tasks_count s \<ge> TPOOL_MAX_TASKS then Some (TPOOL_ERR_TOO_MANY_TASKS, s)
      else do {
        s \<leftarrow> set_task task (\<lambda>n. n\<lparr>finished := False, assigned := False, parent_pool := True\<rparr>) s;
        s \<leftarrow> set_cell (pushed_tasks_count s) task s;
        let s = s\<lparr>pushed_tasks_count := pushed_tasks_count s + 1\<rparr>;
        s \<leftarrow> set_task task (\<lambda>n. n\<lparr>index_in_parent_pool := pushed_tasks_count s - 1\<rparr>) s;
        let s = s\<lparr>unassigned_tasks_count := unassigned_tasks_count s + 1\<rparr>;
        let s = (if running_tasks_count s = thread_count s \<and> thread_count s < max_thread_count s
                 then s\<lparr>thread_count := thread_count s + 1, workers := workers s @ [Starting]\<rparr>
                 else if unassigned_tasks_count s = 1
                 then signal_worker signalled (s\<lparr>thread_update_event := TASK_APPEARS_EVENT\<rparr>)
                 else s);
        other \<leftarrow> get_cell (unassigned_tasks_count s - 1) s;
        s \<leftarrow> swap_tasks_in_pool other task s;
        Some (0, s) })"

section \<open>The interface of a task\<close>

definition thread_task_new :: "ptr \<Rightarrow> (int \<Rightarrow> int) \<Rightarrow> int \<Rightarrow> pool \<Rightarrow> pool" where
  "thread_task_new task f arg s =
     s\<lparr>task_heap := (task_heap s)(task \<mapsto> \<lparr>task_function = f, task_arg = arg, task_result = None,
        finished = False, assigned = False, scheduled_for_deletion = False, parent_pool = False,
        index_in_parent_pool = -1\<rparr>)\<rparr>"

definition thread_task_is_finished :: "ptr \<Rightarrow> pool \<Rightarrow> bool option" where
  "thread_task_is_finished task s = map_option finished (task_heap s task)"

definition thread_task_is_running :: "ptr \<Rightarrow> pool \<Rightarrow> bool option" where
  "thread_task_is_running task s =
     map_option (\<lambda>n. if \<not> parent_pool n then False else assigned n \<and> \<not> finished n) (task_heap s task)"

text \<open>
  A call returns, or waits on the condition of the task, a timed one until a given time. A thread that
  comes back from the wait goes on inside the loop, without the test whether the task is in a pool.
\<close>

datatype join_outcome = Blocks | Blocks_until timespec | Returns int "int option"

definition thread_task_join_locked :: "ptr \<Rightarrow> pool \<Rightarrow> (join_outcome \<times> pool) option" where
  "thread_task_join_locked task s = do {
     n \<leftarrow> task_heap s task;
     if \<not> finished n then Some (Blocks, s)
     else do { s \<leftarrow> thread_task_join_no_lock task s; Some (Returns 0 (task_result n), s) } }"

definition thread_task_join :: "ptr \<Rightarrow> pool \<Rightarrow> (join_outcome \<times> pool) option" where
  "thread_task_join task s = do {
     n \<leftarrow> task_heap s task;
     if \<not> parent_pool n then Some (Returns TPOOL_ERR_TASK_NOT_PUSHED None, s)
     else thread_task_join_locked task s }"

text \<open>The time until which a timed join waits; the clock gives seconds and microseconds.\<close>

definition nsec_in_millisecond :: int where "nsec_in_millisecond = 1000000"
definition nsec_in_microsecond :: int where "nsec_in_microsecond = 1000"

definition pool_add_timespec :: "timespec \<Rightarrow> timespec \<Rightarrow> timespec option" where
  "pool_add_timespec spec1 spec2 = do {
     sec \<leftarrow> c_long (tv_sec spec1 + tv_sec spec2);
     nsec \<leftarrow> c_long (tv_nsec spec1 + tv_nsec spec2);
     if nsec \<ge> nsec_in_sec then do {
       nsec \<leftarrow> c_long (nsec - nsec_in_sec);
       sec \<leftarrow> c_long (sec + 1);
       Some \<lparr>tv_sec = sec, tv_nsec = nsec\<rparr> }
     else Some \<lparr>tv_sec = sec, tv_nsec = nsec\<rparr> }"

definition pool_milliseconds_to_timespec :: "int \<Rightarrow> timespec option" where
  "pool_milliseconds_to_timespec ms = do {
     nsec \<leftarrow> c_long (ms * nsec_in_millisecond);
     Some \<lparr>tv_sec = nsec sdiv nsec_in_sec, tv_nsec = nsec smod nsec_in_sec\<rparr> }"

definition now_as_timespec :: "int \<times> int \<Rightarrow> timespec option" where
  "now_as_timespec now = do {
     nsec \<leftarrow> c_long (snd now * nsec_in_microsecond);
     Some \<lparr>tv_sec = fst now, tv_nsec = nsec\<rparr> }"

text \<open>
  The timeout is the caller's double, in milliseconds and cut to a long long. The loop of the timed
  join waits until the computed time; a wait that was timed out, which a function of that time tells,
  ends the join whether the task has finished meanwhile or not.
\<close>

definition thread_task_timed_join_locked :: "ptr \<Rightarrow> timespec \<Rightarrow> pool \<Rightarrow> (join_outcome \<times> pool) option" where
  "thread_task_timed_join_locked task timeout_spec s = do {
     n \<leftarrow> task_heap s task;
     if \<not> finished n then Some (Blocks_until timeout_spec, s)
     else do {
       last_task \<leftarrow> get_cell (pushed_tasks_count s - 1) s;
       s \<leftarrow> swap_tasks_in_pool task last_task s;
       let s = s\<lparr>pushed_tasks_count := pushed_tasks_count s - 1\<rparr>;
       s \<leftarrow> set_task task (\<lambda>n. n\<lparr>parent_pool := False, index_in_parent_pool := -1, assigned := False\<rparr>) s;
       Some (Returns 0 (task_result n), s) } }"

definition timed_wait_returns ::
  "ptr \<Rightarrow> timespec \<Rightarrow> (timespec \<Rightarrow> bool) \<Rightarrow> pool \<Rightarrow> (join_outcome \<times> pool) option" where
  "timed_wait_returns task timeout_spec timed_out s =
     (if timed_out timeout_spec then Some (Returns TPOOL_ERR_TIMEOUT None, s)
      else thread_task_timed_join_locked task timeout_spec s)"

definition thread_task_timed_join :: "ptr \<Rightarrow> int \<times> int \<Rightarrow> int \<Rightarrow> pool \<Rightarrow> (join_outcome \<times> pool) option" where
  "thread_task_timed_join task now timeout_ms s = do {
     n \<leftarrow> task_heap s task;
     if \<not> parent_pool n then Some (Returns TPOOL_ERR_TASK_NOT_PUSHED None, s)
     else do {
       now_spec \<leftarrow> now_as_timespec now;
       wait_spec \<leftarrow> pool_milliseconds_to_timespec timeout_ms;
       timeout_spec \<leftarrow> pool_add_timespec now_spec wait_spec;
       thread_task_timed_join_locked task timeout_spec s } }"

definition thread_task_detach :: "ptr \<Rightarrow> pool \<Rightarrow> (int \<times> pool) option" where
  "thread_task_detach task s = do {
     n \<leftarrow> task_heap s task;
     if \<not> parent_pool n then Some (TPOOL_ERR_TASK_NOT_PUSHED, s)
     else if finished n
     then do { s \<leftarrow> thread_task_join_no_lock task s; (_, s) \<leftarrow> thread_task_delete task s; Some (0, s) }
     else do { s \<leftarrow> set_task task (\<lambda>n. n\<lparr>scheduled_for_deletion := True\<rparr>) s; Some (0, s) } }"
end
