(* ===== verification/Pool_Inv.thy ===== *)
theory Pool_Inv
  imports Pool
begin

text \<open>
  The invariant of the thread pool. The array of tasks is described by a list of the pushed tasks:
  first those no worker has taken, then the taken ones. Every operation on the array is a function
  of that list; the other facts of the invariant do not look at indices.
\<close>

section \<open>The array as a list\<close>

definition placed :: "ptr list \<Rightarrow> pool \<Rightarrow> bool" where
  "placed qs s \<longleftrightarrow> pushed_tasks_count s = int (length qs) \<and> int (length qs) \<le> TPOOL_MAX_TASKS \<and> distinct qs \<and>
     (\<forall>i<length qs. tasks s (int i) = Some (qs ! i)) \<and>
     (\<forall>i<length qs. \<exists>n. task_heap s (qs ! i) = Some n \<and> parent_pool n \<and> index_in_parent_pool n = int i)"

definition swapped :: "nat \<Rightarrow> nat \<Rightarrow> 'a list \<Rightarrow> 'a list" where
  "swapped i j xs = xs[i := xs ! j, j := xs ! i]"

lemma length_swapped [simp]: "length (swapped i j xs) = length xs"
  by (simp add: swapped_def)

lemma set_swapped: "i < length xs \<Longrightarrow> j < length xs \<Longrightarrow> set (swapped i j xs) = set xs"
  by (simp add: swapped_def set_swap)

lemma distinct_swapped: "i < length xs \<Longrightarrow> j < length xs \<Longrightarrow> distinct (swapped i j xs) = distinct xs"
  by (simp add: swapped_def distinct_swap)

lemma nth_swapped:
  "i < length xs \<Longrightarrow> j < length xs \<Longrightarrow> k < length xs \<Longrightarrow>
   swapped i j xs ! k = (if k = i then xs ! j else if k = j then xs ! i else xs ! k)"
  by (auto simp: swapped_def nth_list_update)

text \<open>A task without its index.\<close>

definition core :: "pool \<Rightarrow> ptr \<Rightarrow> thread_task option" where
  "core s t = map_option (\<lambda>n. n\<lparr>index_in_parent_pool := 0\<rparr>) (task_heap s t)"

text \<open>What an operation on the array leaves alone.\<close>

definition same_rest :: "pool \<Rightarrow> pool \<Rightarrow> bool" where
  "same_rest s s' \<longleftrightarrow> s' = s\<lparr>tasks := tasks s', task_heap := task_heap s'\<rparr> \<and> core s' = core s"

lemma same_rest_fields:
  assumes "same_rest s s'"
  shows "unassigned_tasks_count s' = unassigned_tasks_count s" "running_tasks_count s' = running_tasks_count s"
    "pushed_tasks_count s' = pushed_tasks_count s" "workers s' = workers s" "deleting s' = deleting s"
    "thread_count s' = thread_count s" "max_thread_count s' = max_thread_count s"
    "thread_update_event s' = thread_update_event s" "core s' = core s"
proof -
  have e: "s' = s\<lparr>tasks := tasks s', task_heap := task_heap s'\<rparr>" and c: "core s' = core s"
    using assms unfolding same_rest_def by blast+
  show "core s' = core s" by (rule c)
  show "unassigned_tasks_count s' = unassigned_tasks_count s" by (subst e) simp
  show "running_tasks_count s' = running_tasks_count s" by (subst e) simp
  show "pushed_tasks_count s' = pushed_tasks_count s" by (subst e) simp
  show "workers s' = workers s" by (subst e) simp
  show "deleting s' = deleting s" by (subst e) simp
  show "thread_count s' = thread_count s" by (subst e) simp
  show "max_thread_count s' = max_thread_count s" by (subst e) simp
  show "thread_update_event s' = thread_update_event s" by (subst e) simp
qed

lemma get_cell_placed: "placed qs s \<Longrightarrow> i < length qs \<Longrightarrow> get_cell (int i) s = Some (qs ! i)"
  by (auto simp: get_cell_def placed_def)

lemma swap_placed:
  assumes p: "placed qs s" and i: "i < length qs" and j: "j < length qs"
  shows "\<exists>s'. swap_tasks_in_pool (qs ! i) (qs ! j) s = Some s' \<and> placed (swapped i j qs) s' \<and> same_rest s s'"
proof -
  have d: "distinct qs" and L: "int (length qs) \<le> TPOOL_MAX_TASKS"
    and cells: "\<And>k. k < length qs \<Longrightarrow> tasks s (int k) = Some (qs ! k)"
    and nodes: "\<And>k. k < length qs \<Longrightarrow> \<exists>n. task_heap s (qs ! k) = Some n \<and> parent_pool n \<and> index_in_parent_pool n = int k"
    using p by (auto simp: placed_def)
  obtain n m where n: "task_heap s (qs ! i) = Some n" "parent_pool n" "index_in_parent_pool n = int i"
    and m: "task_heap s (qs ! j) = Some m" "parent_pool m" "index_in_parent_pool m = int j"
    using nodes [OF i] nodes [OF j] by blast
  define T where "T = (tasks s)(int i := Some (qs ! j), int j := Some (qs ! i))"
  define H where "H = (task_heap s)(qs ! j := Some (m\<lparr>index_in_parent_pool := int i\<rparr>),
    qs ! i := Some (n\<lparr>index_in_parent_pool := int j\<rparr>))"
  have swap: "swap_tasks_in_pool (qs ! i) (qs ! j) s = Some (s\<lparr>tasks := T, task_heap := H\<rparr>)"
  proof (cases "i = j")
    case True
    then show ?thesis using n L i j
      by (simp add: swap_tasks_in_pool_def set_cell_def set_task_def T_def H_def Let_def)
  next
    case False
    then have "qs ! i \<noteq> qs ! j" using d i j by (simp add: nth_eq_iff_index_eq)
    then show ?thesis using n m L i j
      by (simp add: swap_tasks_in_pool_def set_cell_def set_task_def T_def H_def Let_def)
  qed
  have "placed (swapped i j qs) (s\<lparr>tasks := T, task_heap := H\<rparr>)"
  proof -
    have "T (int k) = Some (swapped i j qs ! k)" if "k < length qs" for k
      using that i j cells [OF that] by (auto simp: T_def nth_swapped)
    moreover have "\<exists>x. H (swapped i j qs ! k) = Some x \<and> parent_pool x \<and> index_in_parent_pool x = int k"
      if "k < length qs" for k
      using that i j d nodes [OF that] n m by (auto simp: H_def nth_swapped nth_eq_iff_index_eq)
    ultimately show ?thesis
      using p d i j by (simp add: placed_def distinct_swapped)
  qed
  moreover have "core (s\<lparr>tasks := T, task_heap := H\<rparr>) = core s"
    using n m i j d by (auto simp: core_def H_def fun_eq_iff nth_eq_iff_index_eq)
  ultimately show ?thesis
    using swap by (auto simp: same_rest_def)
qed

text \<open>Changes of a task that keep it in its place.\<close>

lemma set_task_core:
  assumes "task_heap s t = Some n" "\<And>n. f (n\<lparr>index_in_parent_pool := 0\<rparr>) = (f n)\<lparr>index_in_parent_pool := 0\<rparr>"
  shows "core (s\<lparr>task_heap := (task_heap s)(t \<mapsto> f n)\<rparr>) = (core s)(t := map_option f (core s t))"
  using assms by (auto simp: core_def fun_eq_iff)

lemma placed_set_task:
  assumes "placed qs s" "task_heap s t = Some n" "parent_pool (f n) = parent_pool n"
    "index_in_parent_pool (f n) = index_in_parent_pool n"
  shows "placed qs (s\<lparr>task_heap := (task_heap s)(t \<mapsto> f n)\<rparr>)"
  using assms by (auto simp: placed_def)

lemma placed_cong:
  assumes "placed qs s" "tasks s' = tasks s" "task_heap s' = task_heap s" "pushed_tasks_count s' = pushed_tasks_count s"
  shows "placed qs s'"
  using assms by (simp add: placed_def)

lemma join_no_lock_placed:
  assumes p: "placed qs s" and i: "i < length qs"
  shows "\<exists>s'. thread_task_join_no_lock (qs ! i) s = Some s' \<and>
    placed (butlast (swapped i (length qs - 1) qs)) s' \<and>
    s' = s\<lparr>tasks := tasks s', task_heap := task_heap s', pushed_tasks_count := pushed_tasks_count s - 1\<rparr> \<and>
    core s' = (core s)(qs ! i := map_option (\<lambda>n. n\<lparr>parent_pool := False, assigned := False\<rparr>) (core s (qs ! i)))"
proof -
  define l where "l = length qs - 1"
  have l: "l < length qs" and len: "pushed_tasks_count s - 1 = int l"
    using i p by (auto simp: l_def placed_def)
  obtain s1 where sw: "swap_tasks_in_pool (qs ! i) (qs ! l) s = Some s1"
    and p1: "placed (swapped i l qs) s1" and r1: "same_rest s s1"
    using swap_placed [OF p i l] by blast
  define qs1 where "qs1 = swapped i l qs"
  have last: "qs1 ! l = qs ! i" and len1: "length qs1 = Suc l"
    using i l by (auto simp: qs1_def nth_swapped l_def)
  have p1: "placed qs1 s1" using p1 by (simp add: qs1_def)
  obtain n where n: "task_heap s1 (qs ! i) = Some n"
    using p1 len1 last unfolding placed_def by (metis lessI)
  let ?f = "\<lambda>n. n\<lparr>parent_pool := False, index_in_parent_pool := -1, assigned := False\<rparr>"
  define s2 where "s2 = s1\<lparr>pushed_tasks_count := pushed_tasks_count s1 - 1,
    task_heap := (task_heap s1)(qs ! i \<mapsto> ?f n)\<rparr>"
  have run: "thread_task_join_no_lock (qs ! i) s = Some s2"
    using n sw same_rest_fields(3) [OF r1] len get_cell_placed [OF p l]
    by (simp add: thread_task_join_no_lock_def set_task_def s2_def Let_def)
  have d1: "distinct qs1" using p1 by (simp add: placed_def)
  have split: "qs1 = butlast qs1 @ [qs ! i]"
    using len1 last by (metis append_butlast_last_id diff_Suc_1 last_conv_nth list.size(3) nat.simps(3))
  have notin: "butlast qs1 ! k \<noteq> qs ! i" if "k < l" for k
    using that d1 split len1 by (metis butlast_conv_take diff_Suc_1 distinct_conv_nth last length_butlast less_SucI lessI nat_neq_iff nth_take)
  have "placed (butlast qs1) s2"
  proof -
    have len: "length (butlast qs1) = l" using len1 by simp
    have nth: "butlast qs1 ! k = qs1 ! k" if "k < l" for k using that len by (simp add: nth_butlast)
    have "\<exists>x. task_heap s2 (butlast qs1 ! k) = Some x \<and> parent_pool x \<and> index_in_parent_pool x = int k" if "k < l" for k
      using p1 that len1 notin [OF that] by (simp add: placed_def s2_def nth)
    moreover have "tasks s2 (int k) = Some (butlast qs1 ! k)" if "k < l" for k
      using p1 that len1 by (simp add: placed_def s2_def nth)
    moreover have "pushed_tasks_count s2 = int l" "int l \<le> TPOOL_MAX_TASKS"
      using p1 len1 by (simp_all add: placed_def s2_def)
    ultimately show ?thesis unfolding placed_def len using d1 by (simp add: distinct_butlast)
  qed
  moreover have "core s1 = core s" by (rule same_rest_fields(9) [OF r1])
  then have "core s2 = (core s)(qs ! i := map_option (\<lambda>n. n\<lparr>parent_pool := False, assigned := False\<rparr>) (core s (qs ! i)))"
  proof -
    have "core s2 = (core s1)(qs ! i := Some ((?f n)\<lparr>index_in_parent_pool := 0\<rparr>))"
      by (simp add: s2_def core_def fun_eq_iff)
    moreover have "(?f n)\<lparr>index_in_parent_pool := 0\<rparr> = n\<lparr>index_in_parent_pool := 0, parent_pool := False, assigned := False\<rparr>"
      by (cases n) simp
    moreover have "core s1 (qs ! i) = Some (n\<lparr>index_in_parent_pool := 0\<rparr>)"
      using n by (simp add: core_def)
    ultimately show ?thesis using \<open>core s1 = core s\<close> by (metis option.simps(9))
  qed
  moreover have "s2 = s\<lparr>tasks := tasks s2, task_heap := task_heap s2, pushed_tasks_count := pushed_tasks_count s - 1\<rparr>"
  proof -
    have "s1 = s\<lparr>tasks := tasks s1, task_heap := task_heap s1\<rparr>" using r1 by (simp add: same_rest_def)
    moreover have "pushed_tasks_count s1 = pushed_tasks_count s" by (rule same_rest_fields(3) [OF r1])
    ultimately show ?thesis by (cases s; cases s1) (simp add: s2_def)
  qed
  ultimately show ?thesis using run by (auto simp: qs1_def l_def)
qed

section \<open>The invariant\<close>

text \<open>
  The tasks: what is in the pool, which of them no worker has taken (the first u), and that a
  finished task holds the result of its function.
\<close>

definition tasks_ok :: "ptr list \<Rightarrow> (ptr \<Rightarrow> thread_task option) \<Rightarrow> nat \<Rightarrow> bool" where
  "tasks_ok qs c u \<longleftrightarrow> u \<le> length qs \<and> (\<forall>t\<in>set qs. c t \<noteq> None) \<and>
     (\<forall>i<length qs. \<forall>n. c (qs ! i) = Some n \<longrightarrow> (assigned n \<longleftrightarrow> u \<le> i)) \<and>
     (\<forall>t n. c t = Some n \<longrightarrow> (parent_pool n \<longleftrightarrow> t \<in> set qs) \<and>
        (finished n \<longrightarrow> task_result n = Some (task_function n (task_arg n))) \<and>
        (parent_pool n \<and> finished n \<longrightarrow> assigned n) \<and>
        (scheduled_for_deletion n \<longrightarrow> parent_pool n \<and> \<not> finished n))"

definition in_progress :: "(ptr \<Rightarrow> thread_task option) \<Rightarrow> ptr \<Rightarrow> bool" where
  "in_progress c t \<longleftrightarrow> (\<exists>n. c t = Some n \<and> parent_pool n \<and> assigned n \<and> \<not> finished n)"

text \<open>Every taken and unfinished task is executed by exactly one worker.\<close>

definition workers_ok :: "(ptr \<Rightarrow> thread_task option) \<Rightarrow> worker list \<Rightarrow> bool" where
  "workers_ok c ws \<longleftrightarrow> (\<forall>t. Running t \<in> set ws \<longleftrightarrow> in_progress c t) \<and>
     (\<forall>i j t. i < length ws \<longrightarrow> j < length ws \<longrightarrow> ws ! i = Running t \<longrightarrow> ws ! j = Running t \<longrightarrow> i = j)"

definition running_at :: "worker list \<Rightarrow> nat set" where
  "running_at ws = {i. i < length ws \<and> (\<exists>t. ws ! i = Running t)}"

definition awake :: "worker \<Rightarrow> bool" where
  "awake w \<longleftrightarrow> w \<noteq> Waiting \<and> w \<noteq> Stopped"

definition threads_ok :: "pool \<Rightarrow> nat \<Rightarrow> bool" where
  "threads_ok s u \<longleftrightarrow> running_tasks_count s = int (card (running_at (workers s))) \<and>
     thread_count s = int (length (workers s)) \<and> thread_count s \<le> max_thread_count s \<and>
     0 < max_thread_count s \<and> max_thread_count s \<le> TPOOL_MAX_THREADS \<and>
     (0 < u \<longrightarrow> (\<exists>w\<in>set (workers s). awake w)) \<and>
     (thread_update_event s = TASKS_ENDED_EVENT \<longleftrightarrow> deleting s) \<and>
     (Stopped \<in> set (workers s) \<longrightarrow> deleting s) \<and>
     (deleting s \<longrightarrow> u = 0 \<and> running_tasks_count s = 0)"

definition pool_inv_at :: "ptr list \<Rightarrow> nat \<Rightarrow> pool \<Rightarrow> bool" where
  "pool_inv_at qs u s \<longleftrightarrow> placed qs s \<and> unassigned_tasks_count s = int u \<and>
     tasks_ok qs (core s) u \<and> workers_ok (core s) (workers s) \<and> threads_ok s u"

definition pool_inv :: "pool \<Rightarrow> bool" where
  "pool_inv s \<longleftrightarrow> (\<exists>qs u. pool_inv_at qs u s)"

section \<open>Workers that change\<close>

lemma running_at_subset: "running_at ws \<subseteq> {..<length ws}"
  by (auto simp: running_at_def)

lemma finite_running_at [simp]: "finite (running_at ws)"
  by (rule finite_subset [OF running_at_subset]) simp

lemma running_at_idle:
  "i < length ws \<Longrightarrow> (\<And>t. ws ! i \<noteq> Running t) \<Longrightarrow> (\<And>t. w \<noteq> Running t) \<Longrightarrow>
   running_at (ws[i := w]) = running_at ws"
  by (auto simp: running_at_def nth_list_update)

lemma card_running_take:
  "i < length ws \<Longrightarrow> (\<And>t. ws ! i \<noteq> Running t) \<Longrightarrow>
   card (running_at (ws[i := Running t])) = Suc (card (running_at ws))"
proof -
  assume i: "i < length ws" "\<And>t. ws ! i \<noteq> Running t"
  then have "running_at (ws[i := Running t]) = insert i (running_at ws)" "i \<notin> running_at ws"
    by (auto simp: running_at_def nth_list_update)
  then show ?thesis by simp
qed

lemma card_running_finish:
  "i < length ws \<Longrightarrow> ws ! i = Running t \<Longrightarrow> (\<And>t. w \<noteq> Running t) \<Longrightarrow>
   card (running_at ws) = Suc (card (running_at (ws[i := w])))"
proof -
  assume i: "i < length ws" "ws ! i = Running t" "\<And>t. w \<noteq> Running t"
  then have "running_at ws = insert i (running_at (ws[i := w]))" "i \<notin> running_at (ws[i := w])"
    by (auto simp: running_at_def nth_list_update)
  then show ?thesis by (metis card_insert_disjoint finite_running_at)
qed

lemma running_at_append: "(\<And>t. w \<noteq> Running t) \<Longrightarrow> running_at (ws @ [w]) = running_at ws"
  by (auto simp: running_at_def nth_append less_Suc_eq)

lemma running_at_wake_all [simp]: "running_at (wake_all ws) = running_at ws"
  by (auto simp: running_at_def wake_all_def split: if_splits)

text \<open>All threads run a task if the counts agree, so one of them is awake otherwise.\<close>

lemma workers_ok_idle:
  assumes "workers_ok c ws" "i < length ws" "\<And>t. ws ! i \<noteq> Running t" "\<And>t. w \<noteq> Running t"
  shows "workers_ok c (ws[i := w])"
proof -
  have "Running t \<in> set (ws[i := w]) \<longleftrightarrow> Running t \<in> set ws" for t
    using assms(2-4) by (simp add: set_conv_nth nth_list_update) metis
  then show ?thesis
    using assms unfolding workers_ok_def by (simp add: nth_list_update)
qed

lemma workers_ok_take:
  assumes "workers_ok c ws" "i < length ws" "\<And>t. ws ! i \<noteq> Running t"
    "\<not> in_progress c t" "in_progress c' t" "\<And>x. x \<noteq> t \<Longrightarrow> in_progress c' x = in_progress c x"
  shows "workers_ok c' (ws[i := Running t])"
proof -
  have nt: "Running t \<notin> set ws" using assms(1,4) by (simp add: workers_ok_def)
  have "Running x \<in> set (ws[i := Running t]) \<longleftrightarrow> x = t \<or> Running x \<in> set ws" for x
    using assms(2,3) by (simp add: set_conv_nth nth_list_update) metis
  then have a: "Running x \<in> set (ws[i := Running t]) \<longleftrightarrow> in_progress c' x" for x
    using assms(1,5) assms(6) [of x] by (cases "x = t") (simp_all add: workers_ok_def)
  have "ws ! k \<noteq> Running t" if "k < length ws" for k using nt that by (metis nth_mem)
  then show ?thesis
    using assms(1,2) a unfolding workers_ok_def by (auto simp: nth_list_update)
qed

lemma workers_ok_finish:
  assumes "workers_ok c ws" "i < length ws" "ws ! i = Running t" "\<And>t. w \<noteq> Running t"
    "\<not> in_progress c' t" "\<And>x. x \<noteq> t \<Longrightarrow> in_progress c' x = in_progress c x"
  shows "workers_ok c' (ws[i := w])"
proof -
  have inj: "\<And>k. k < length ws \<Longrightarrow> ws ! k = Running t \<Longrightarrow> k = i"
    using assms(1-3) unfolding workers_ok_def by blast
  have "Running x \<in> set (ws[i := w]) \<longleftrightarrow> (\<exists>k<length ws. k \<noteq> i \<and> ws ! k = Running x)" for x
    using assms(2) assms(4) [of x] by (auto simp: in_set_conv_nth nth_list_update)
  moreover have "(\<exists>k<length ws. k \<noteq> i \<and> ws ! k = Running x) \<longleftrightarrow> x \<noteq> t \<and> Running x \<in> set ws" for x
    unfolding in_set_conv_nth using assms(2,3) inj by (metis worker.inject)
  ultimately have a: "Running x \<in> set (ws[i := w]) \<longleftrightarrow> in_progress c' x" for x
    using assms(1,5) assms(6) [of x] by (cases "x = t") (simp_all add: workers_ok_def)
  have "j = k" if "j < length ws" "k < length ws" "ws[i := w] ! j = Running x" "ws[i := w] ! k = Running x" for j k x
  proof -
    have "j \<noteq> i" "k \<noteq> i" using that assms(2,4) by (metis nth_list_update_eq)+
    then have "ws ! j = Running x" "ws ! k = Running x" using that by simp_all
    then show ?thesis using assms(1) that(1,2) unfolding workers_ok_def by blast
  qed
  then show ?thesis using a unfolding workers_ok_def length_list_update by blast
qed

lemma workers_ok_cong: "workers_ok c ws \<Longrightarrow> (\<And>x. in_progress c' x = in_progress c x) \<Longrightarrow> workers_ok c' ws"
  by (simp add: workers_ok_def)

section \<open>Tasks that change\<close>

lemma swap_placedE:
  assumes "placed qs s" "i < length qs" "j < length qs"
  obtains T H where "swap_tasks_in_pool (qs ! i) (qs ! j) s = Some (s\<lparr>tasks := T, task_heap := H\<rparr>)"
    "placed (swapped i j qs) (s\<lparr>tasks := T, task_heap := H\<rparr>)" "core (s\<lparr>tasks := T, task_heap := H\<rparr>) = core s"
  using swap_placed [OF assms] unfolding same_rest_def by metis

lemma core_cong: "task_heap s' = task_heap s \<Longrightarrow> core s' = core s"
  by (simp add: core_def fun_eq_iff)

lemma set_taskE:
  assumes "placed qs s" "core s t \<noteq> None"
    "\<And>n. f (n\<lparr>index_in_parent_pool := 0\<rparr>) = (f n)\<lparr>index_in_parent_pool := 0\<rparr>"
    "\<And>n. parent_pool (f n) = parent_pool n" "\<And>n. index_in_parent_pool (f n) = index_in_parent_pool n"
  obtains H where "set_task t f s = Some (s\<lparr>task_heap := H\<rparr>)" "placed qs (s\<lparr>task_heap := H\<rparr>)"
    "core (s\<lparr>task_heap := H\<rparr>) = (core s)(t := map_option f (core s t))"
proof -
  obtain n where n: "task_heap s t = Some n" using assms(2) by (auto simp: core_def)
  show ?thesis
  proof (rule that)
    show "set_task t f s = Some (s\<lparr>task_heap := (task_heap s)(t \<mapsto> f n)\<rparr>)" using n by (simp add: set_task_def)
    show "placed qs (s\<lparr>task_heap := (task_heap s)(t \<mapsto> f n)\<rparr>)" by (rule placed_set_task) (use assms n in simp_all)
    show "core (s\<lparr>task_heap := (task_heap s)(t \<mapsto> f n)\<rparr>) = (core s)(t := map_option f (core s t))"
      by (rule set_task_core) (use assms n in simp_all)
  qed
qed

lemma in_pool: "tasks_ok qs c u \<Longrightarrow> i < length qs \<Longrightarrow> \<exists>n. c (qs ! i) = Some n \<and> parent_pool n \<and> (assigned n \<longleftrightarrow> u \<le> i)"
  unfolding tasks_ok_def by (metis nth_mem not_None_eq)

lemma unassigned_task: "tasks_ok qs c u \<Longrightarrow> i < u \<Longrightarrow> \<exists>n. c (qs ! i) = Some n \<and> parent_pool n \<and> \<not> assigned n \<and> \<not> finished n"
  unfolding tasks_ok_def by (metis less_le_trans linorder_not_less not_None_eq nth_mem)

lemma tasks_ok_swapped:
  assumes ok: "tasks_ok qs c u" and ij: "i < length qs" "j < length qs" and side: "u \<le> i \<longleftrightarrow> u \<le> j"
  shows "tasks_ok (swapped i j qs) c u"
  using assms unfolding tasks_ok_def set_swapped [OF ij] by (auto simp: nth_swapped split: if_splits)

text \<open>A worker takes the first task.\<close>

lemma tasks_ok_take:
  assumes ok: "tasks_ok qs c (Suc u)" and d: "distinct qs" and c': "c' = c(qs ! 0 := map_option (\<lambda>n. n\<lparr>assigned := True\<rparr>) (c (qs ! 0)))"
  shows "tasks_ok (swapped 0 u qs) c' u"
proof -
  have ij: "0 < length qs" "u < length qs" using ok by (auto simp: tasks_ok_def)
  have asg: "assigned n \<longleftrightarrow> u \<le> k" if "k < length qs" "c' (swapped 0 u qs ! k) = Some n" for k n
    using that ok d ij unfolding tasks_ok_def c'
    by (auto simp: nth_swapped nth_eq_iff_index_eq split: if_splits)
  show ?thesis
    using ok ij asg unfolding tasks_ok_def set_swapped [OF ij] by (auto simp: c' split: if_splits)
qed

lemma in_progress_update: "x \<noteq> t \<Longrightarrow> in_progress (c(t := v)) x = in_progress c x"
  by (simp add: in_progress_def)

lemma in_progress_at: "in_progress (c(t := Some n)) t \<longleftrightarrow> parent_pool n \<and> assigned n \<and> \<not> finished n"
  by (simp add: in_progress_def)

lemmas progress_simps = in_progress_update in_progress_at

text \<open>The only effect of a worker that starts or wakes on the tasks: it takes one at most.\<close>

definition takes_one :: "(ptr \<Rightarrow> thread_task option) \<Rightarrow> (ptr \<Rightarrow> thread_task option) \<Rightarrow> bool" where
  "takes_one c c' \<longleftrightarrow> c' = c \<or>
     (\<exists>t n. c t = Some n \<and> parent_pool n \<and> c' = c(t \<mapsto> n\<lparr>assigned := True\<rparr>))"

lemma take_task_inv:
  assumes inv: "pool_inv_at qs (Suc u) s" and i: "i < length (workers s)" "\<And>t. workers s ! i \<noteq> Running t"
  shows "\<exists>s'. take_task i s = Some s' \<and> pool_inv_at (swapped 0 u qs) u s' \<and> takes_one (core s) (core s')"
proof -
  have p: "placed qs s" and U: "unassigned_tasks_count s = int (Suc u)" and ok: "tasks_ok qs (core s) (Suc u)"
    and w: "workers_ok (core s) (workers s)" and th: "threads_ok s (Suc u)"
    using inv by (auto simp: pool_inv_at_def)
  have ij: "0 < length qs" "u < length qs" using ok by (auto simp: tasks_ok_def)
  define s1 where "s1 = s\<lparr>unassigned_tasks_count := unassigned_tasks_count s - 1\<rparr>"
  have p1: "placed qs s1" by (rule placed_cong [OF p]) (simp_all add: s1_def)
  have c1: "core s1 = core s" by (rule core_cong) (simp add: s1_def)
  obtain T H where sw: "swap_tasks_in_pool (qs ! 0) (qs ! u) s1 = Some (s1\<lparr>tasks := T, task_heap := H\<rparr>)"
    and p2: "placed (swapped 0 u qs) (s1\<lparr>tasks := T, task_heap := H\<rparr>)" and c2: "core (s1\<lparr>tasks := T, task_heap := H\<rparr>) = core s"
    using swap_placedE [OF p1 ij] c1 by metis
  define s3 where "s3 = s1\<lparr>tasks := T, task_heap := H, running_tasks_count := running_tasks_count s + 1\<rparr>"
  have p3: "placed (swapped 0 u qs) s3" by (rule placed_cong [OF p2]) (simp_all add: s3_def)
  have c3: "core s3 = core s" unfolding c2 [symmetric] by (rule core_cong) (simp add: s3_def)
  obtain n where n: "core s (qs ! 0) = Some n" "parent_pool n" "\<not> assigned n" "\<not> finished n"
    using unassigned_task [OF ok, of 0] by auto
  let ?f = "\<lambda>n. n\<lparr>assigned := True\<rparr>"
  have "core s3 (qs ! 0) \<noteq> None" using n c3 by simp
  then obtain H' where st: "set_task (qs ! 0) ?f s3 = Some (s3\<lparr>task_heap := H'\<rparr>)"
    and p4: "placed (swapped 0 u qs) (s3\<lparr>task_heap := H'\<rparr>)"
    and c4: "core (s3\<lparr>task_heap := H'\<rparr>) = (core s)(qs ! 0 := map_option ?f (core s (qs ! 0)))"
    using set_taskE [OF p3, of "qs ! 0" ?f] c3 by auto
  define s5 where "s5 = set_worker i (Running (qs ! 0)) (s3\<lparr>task_heap := H'\<rparr>)"
  have run: "take_task i s = Some s5"
    using get_cell_placed [OF p ij(1)] get_cell_placed [OF p1 ij(2)] sw st U
    by (simp add: take_task_def s1_def s3_def s5_def Let_def)
  have c5: "core s5 = (core s)(qs ! 0 := Some (?f n))"
    using core_cong [of s5 "s3\<lparr>task_heap := H'\<rparr>"] c4 n by (simp add: s5_def set_worker_def)
  have "placed (swapped 0 u qs) s5" by (rule placed_cong [OF p4]) (simp_all add: s5_def set_worker_def)
  moreover have "tasks_ok (swapped 0 u qs) (core s5) u"
    by (rule tasks_ok_take [OF ok]) (use p n c5 in \<open>simp_all add: placed_def\<close>)
  moreover have "workers_ok (core s5) ((workers s)[i := Running (qs ! 0)])"
    unfolding c5 by (rule workers_ok_take [OF w i]) (use n in \<open>auto simp: progress_simps in_progress_def\<close>)
  moreover have "threads_ok s5 u"
    using th i set_update_memI [of i "workers s" "Running (qs ! 0)"] card_running_take [OF i, of "qs ! 0"]
    by (auto simp: threads_ok_def s5_def s3_def s1_def set_worker_def awake_def dest: set_update_subset_insert [THEN subsetD])
  ultimately have "pool_inv_at (swapped 0 u qs) u s5"
    using U by (simp add: pool_inv_at_def s5_def s3_def s1_def set_worker_def)
  moreover have "takes_one (core s) (core s5)" using c5 n(1,2) unfolding takes_one_def by blast
  ultimately show ?thesis using run by blast
qed

text \<open>A worker finds no task and waits, or leaves when the pool is being deleted.\<close>

lemma worker_parks_inv:
  assumes inv: "pool_inv_at qs 0 s" and i: "i < length (workers s)" "\<And>t. workers s ! i \<noteq> Running t"
    and x: "x = Waiting \<or> x = Stopped \<and> deleting s"
  shows "pool_inv_at qs 0 (set_worker i x s)"
proof -
  have nr: "\<And>t. x \<noteq> Running t" using x by auto
  have c: "core (set_worker i x s) = core s" by (rule core_cong) (simp add: set_worker_def)
  have "placed qs (set_worker i x s)"
    by (rule placed_cong [of qs s]) (use inv in \<open>simp_all add: pool_inv_at_def set_worker_def\<close>)
  moreover have "workers_ok (core s) ((workers s)[i := x])"
    by (rule workers_ok_idle [OF _ i nr]) (use inv in \<open>simp add: pool_inv_at_def\<close>)
  moreover have "threads_ok (set_worker i x s) 0"
    using inv x running_at_idle [OF i nr] set_update_subset_insert [of "workers s" i x]
    by (auto simp: pool_inv_at_def threads_ok_def set_worker_def)
  ultimately show ?thesis
    using inv c by (simp add: pool_inv_at_def set_worker_def)
qed

lemma core_set_worker [simp]: "core (set_worker i x s) = core s"
  by (rule core_cong) (simp add: set_worker_def)

lemma worker_start_inv:
  assumes inv: "pool_inv s" and i: "i < length (workers s)" "\<And>t. workers s ! i \<noteq> Running t"
  shows "\<exists>s'. worker_start i s = Some s' \<and> pool_inv s' \<and> takes_one (core s) (core s')"
proof -
  obtain qs u where at: "pool_inv_at qs u s" using inv by (auto simp: pool_inv_def)
  then have U: "unassigned_tasks_count s = int u" by (simp add: pool_inv_at_def)
  show ?thesis
  proof (cases u)
    case 0
    then show ?thesis using worker_parks_inv [of qs s i Waiting] at i U
      by (auto simp: worker_start_def pool_inv_def takes_one_def)
  next
    case (Suc v)
    then show ?thesis using take_task_inv [of qs v s i] at i U by (fastforce simp: worker_start_def pool_inv_def)
  qed
qed

lemma worker_wake_inv:
  assumes inv: "pool_inv s" and i: "i < length (workers s)" "\<And>t. workers s ! i \<noteq> Running t"
  shows "\<exists>s'. worker_wake i s = Some s' \<and> pool_inv s' \<and> takes_one (core s) (core s')"
proof (cases "thread_update_event s = TASKS_ENDED_EVENT")
  case True
  obtain qs u where at: "pool_inv_at qs u s" using inv by (auto simp: pool_inv_def)
  then have "deleting s" "u = 0" using True by (auto simp: pool_inv_at_def threads_ok_def)
  then show ?thesis using worker_parks_inv [of qs s i Stopped] at i True
    by (auto simp: worker_wake_def pool_inv_def takes_one_def)
next
  case False
  then show ?thesis using worker_start_inv [OF inv i] by (simp add: worker_wake_def)
qed

text \<open>A finished task leaves the pool.\<close>

lemma tasks_ok_finish:
  assumes "tasks_ok qs c u" "c t = Some n" "assigned n" "parent_pool n" "\<not> scheduled_for_deletion n"
  shows "tasks_ok qs (c(t \<mapsto> n\<lparr>task_result := Some (task_function n (task_arg n)), finished := True\<rparr>)) u"
  using assms unfolding tasks_ok_def by auto

lemma set_butlast_swapped:
  assumes "distinct qs" "i < length qs"
  shows "set (butlast (swapped i (length qs - 1) qs)) = set qs - {qs ! i}"
proof -
  define l where "l = length qs - 1"
  have l: "l < length qs" using assms by (simp add: l_def)
  define xs where "xs = swapped i l qs"
  have "xs \<noteq> []" "last xs = qs ! i" "distinct xs" "set xs = set qs"
    using assms l by (auto simp: xs_def last_conv_nth nth_swapped distinct_swapped set_swapped l_def simp flip: length_0_conv)
  moreover from this obtain ys where "xs = ys @ [qs ! i]" by (metis append_butlast_last_id)
  ultimately have "set (butlast xs) = set qs - {qs ! i}" by auto
  then show ?thesis by (simp add: xs_def l_def)
qed

lemma nth_butlast_swapped:
  assumes "i < length qs" "k < length qs - 1"
  shows "butlast (swapped i (length qs - 1) qs) ! k = (if k = i then qs ! (length qs - 1) else qs ! k)"
  using assms by (auto simp: nth_butlast nth_swapped)

lemma tasks_ok_join:
  assumes ok: "tasks_ok qs c u" and d: "distinct qs" and i: "i < length qs" "u \<le> i"
    and v: "\<And>m. v = Some m \<Longrightarrow> \<not> parent_pool m \<and> \<not> scheduled_for_deletion m \<and>
      (finished m \<longrightarrow> task_result m = Some (task_function m (task_arg m)))"
  shows "tasks_ok (butlast (swapped i (length qs - 1) qs)) (c(qs ! i := v)) u"
proof -
  define qs' where "qs' = butlast (swapped i (length qs - 1) qs)"
  have set': "set qs' = set qs - {qs ! i}" unfolding qs'_def by (rule set_butlast_swapped [OF d i(1)])
  have len: "length qs' = length qs - 1" by (simp add: qs'_def)
  have asg: "assigned n \<longleftrightarrow> u \<le> k" if k: "k < length qs'" and n: "(c(qs ! i := v)) (qs' ! k) = Some n" for k n
  proof -
    have "qs' ! k \<noteq> qs ! i" using k set' by (metis Diff_iff insertI1 nth_mem)
    moreover have "qs' ! k = (if k = i then qs ! (length qs - 1) else qs ! k)"
      unfolding qs'_def by (rule nth_butlast_swapped) (use i k len in auto)
    moreover define j where "j = (if k = i then length qs - 1 else k)"
    ultimately have "c (qs ! j) = Some n" "j < length qs" using n k i len by (auto split: if_splits)
    then have "assigned n \<longleftrightarrow> u \<le> j" using ok by (simp add: tasks_ok_def)
    then show ?thesis using i k len by (auto simp: j_def)
  qed
  have "tasks_ok qs' (c(qs ! i := v)) u"
    using ok i len asg v unfolding tasks_ok_def set' by (auto split: if_splits)
  then show ?thesis by (simp add: qs'_def)
qed

lemma placed_heap_cong:
  assumes "placed qs s" "tasks s' = tasks s" "pushed_tasks_count s' = pushed_tasks_count s"
    "\<And>t. t \<in> set qs \<Longrightarrow> task_heap s' t = task_heap s t"
  shows "placed qs s'"
  using assms by (auto simp: placed_def)

lemma core_delete: "core (s\<lparr>task_heap := (task_heap s)(t := None)\<rparr>) = (core s)(t := None)"
  by (simp add: core_def fun_eq_iff)

text \<open>The join of a finished task, from any state in which the array is in order.\<close>

lemma join_no_lockE:
  assumes p: "placed qs s" and i: "i < length qs"
  obtains T H where "thread_task_join_no_lock (qs ! i) s =
      Some (s\<lparr>tasks := T, task_heap := H, pushed_tasks_count := pushed_tasks_count s - 1\<rparr>)"
    "placed (butlast (swapped i (length qs - 1) qs)) (s\<lparr>tasks := T, task_heap := H, pushed_tasks_count := pushed_tasks_count s - 1\<rparr>)"
    "core (s\<lparr>tasks := T, task_heap := H, pushed_tasks_count := pushed_tasks_count s - 1\<rparr>) =
      (core s)(qs ! i := map_option (\<lambda>n. n\<lparr>parent_pool := False, assigned := False\<rparr>) (core s (qs ! i)))"
  using join_no_lock_placed [OF assms] by metis

text \<open>The join and deletion of a task together.\<close>

lemma join_deleteE:
  assumes p: "placed qs s" and i: "i < length qs"
  obtains s1 T H where "thread_task_join_no_lock (qs ! i) s = Some s1"
    "thread_task_delete (qs ! i) s1 =
      Some (0, s\<lparr>tasks := T, task_heap := H, pushed_tasks_count := pushed_tasks_count s - 1\<rparr>)"
    "placed (butlast (swapped i (length qs - 1) qs)) (s\<lparr>tasks := T, task_heap := H, pushed_tasks_count := pushed_tasks_count s - 1\<rparr>)"
    "core (s\<lparr>tasks := T, task_heap := H, pushed_tasks_count := pushed_tasks_count s - 1\<rparr>) = (core s)(qs ! i := None)"
proof -
  let ?qs = "butlast (swapped i (length qs - 1) qs)"
  obtain T H where j: "thread_task_join_no_lock (qs ! i) s =
      Some (s\<lparr>tasks := T, task_heap := H, pushed_tasks_count := pushed_tasks_count s - 1\<rparr>)"
    and p1: "placed ?qs (s\<lparr>tasks := T, task_heap := H, pushed_tasks_count := pushed_tasks_count s - 1\<rparr>)"
    and c1: "core (s\<lparr>tasks := T, task_heap := H, pushed_tasks_count := pushed_tasks_count s - 1\<rparr>) =
      (core s)(qs ! i := map_option (\<lambda>n. n\<lparr>parent_pool := False, assigned := False\<rparr>) (core s (qs ! i)))"
    using join_no_lockE [OF assms] by blast
  obtain n where n: "task_heap s (qs ! i) = Some n" using p i by (auto simp: placed_def)
  then have "map_option parent_pool (H (qs ! i)) = Some False"
    using arg_cong [OF fun_cong [OF c1, of "qs ! i"], of "map_option parent_pool"]
    by (simp add: core_def option.map_comp comp_def)
  then obtain m where "H (qs ! i) = Some m" "\<not> parent_pool m" by auto
  then have del: "thread_task_delete (qs ! i) (s\<lparr>tasks := T, task_heap := H, pushed_tasks_count := pushed_tasks_count s - 1\<rparr>) =
      Some (0, s\<lparr>tasks := T, task_heap := H(qs ! i := None), pushed_tasks_count := pushed_tasks_count s - 1\<rparr>)"
    by (simp add: thread_task_delete_def)
  have "distinct qs" using p by (simp add: placed_def)
  then have "placed ?qs (s\<lparr>tasks := T, task_heap := H(qs ! i := None), pushed_tasks_count := pushed_tasks_count s - 1\<rparr>)"
    using set_butlast_swapped [OF _ i] by (intro placed_heap_cong [OF p1]) auto
  moreover have "core (s\<lparr>tasks := T, task_heap := H(qs ! i := None), pushed_tasks_count := pushed_tasks_count s - 1\<rparr>) = (core s)(qs ! i := None)"
  proof -
    have "core (s\<lparr>tasks := T, task_heap := H(qs ! i := None), pushed_tasks_count := pushed_tasks_count s - 1\<rparr>) =
      (core (s\<lparr>tasks := T, task_heap := H, pushed_tasks_count := pushed_tasks_count s - 1\<rparr>))(qs ! i := None)"
      by (simp add: core_def fun_eq_iff)
    then show ?thesis unfolding c1 by simp
  qed
  ultimately show ?thesis using that [OF j del] by blast
qed

lemma threads_ok_finish:
  assumes "threads_ok s u" "i < length (workers s)" "workers s ! i = Running t" "workers s' = (workers s)[i := Starting]"
    "running_tasks_count s' = running_tasks_count s - 1" "thread_count s' = thread_count s"
    "max_thread_count s' = max_thread_count s" "deleting s' = deleting s" "thread_update_event s' = thread_update_event s"
  shows "threads_ok s' u"
proof -
  have c: "card (running_at (workers s)) = Suc (card (running_at ((workers s)[i := Starting])))"
    by (rule card_running_finish [OF assms(2,3)]) simp
  have "Starting \<in> set (workers s')" using assms(2,4) by (simp add: set_update_memI)
  moreover have "Stopped \<in> set (workers s') \<longrightarrow> Stopped \<in> set (workers s)"
    using assms(4) set_update_subset_insert [of "workers s" i Starting] by auto
  moreover have "\<not> deleting s" using assms(1) c by (auto simp: threads_ok_def)
  ultimately show ?thesis
    using assms(1,5-9) c unfolding threads_ok_def assms(4) by (auto simp: awake_def)
qed

lemma worker_finish_inv:
  assumes inv: "pool_inv s" and i: "i < length (workers s)" "workers s ! i = Running t"
  shows "\<exists>s' n. worker_finish i t s = Some s' \<and> pool_inv s' \<and> core s t = Some n \<and>
    core s' = (core s)(t := (if scheduled_for_deletion n then None
      else Some (n\<lparr>task_result := Some (task_function n (task_arg n)), finished := True\<rparr>)))"
proof -
  obtain qs u where at: "pool_inv_at qs u s" using inv by (auto simp: pool_inv_def)
  have p: "placed qs s" and U: "unassigned_tasks_count s = int u" and ok: "tasks_ok qs (core s) u"
    and w: "workers_ok (core s) (workers s)" and th: "threads_ok s u"
    using at by (auto simp: pool_inv_at_def)
  have "in_progress (core s) t" using w i by (metis workers_ok_def nth_mem)
  then obtain n where n: "core s t = Some n" "parent_pool n" "assigned n" "\<not> finished n" by (auto simp: in_progress_def)
  then obtain k where k: "k < length qs" "qs ! k = t" using ok unfolding tasks_ok_def by (metis in_set_conv_nth)
  have uk: "u \<le> k" using ok k n by (auto simp: tasks_ok_def)
  obtain nh where nh: "task_heap s t = Some nh" "n = nh\<lparr>index_in_parent_pool := 0\<rparr>" using n(1) by (auto simp: core_def)
  define r where "r = task_function n (task_arg n)"
  let ?f = "\<lambda>n. n\<lparr>task_result := Some r\<rparr>" and ?g = "\<lambda>n. n\<lparr>finished := True\<rparr>"
  obtain H1 where st1: "set_task t ?f s = Some (s\<lparr>task_heap := H1\<rparr>)" and p1: "placed qs (s\<lparr>task_heap := H1\<rparr>)"
    and c1: "core (s\<lparr>task_heap := H1\<rparr>) = (core s)(t \<mapsto> ?f n)"
    using set_taskE [OF p, of t ?f] n(1) by auto
  define s2 where "s2 = s\<lparr>task_heap := H1, running_tasks_count := running_tasks_count s - 1\<rparr>"
  have p2: "placed qs s2" by (rule placed_cong [OF p1]) (simp_all add: s2_def)
  have c2: "core s2 = (core s)(t \<mapsto> ?f n)" unfolding c1 [symmetric] by (rule core_cong) (simp add: s2_def)
  obtain H2 where st2: "set_task t ?g s2 = Some (s2\<lparr>task_heap := H2\<rparr>)" and p3: "placed qs (s2\<lparr>task_heap := H2\<rparr>)"
    and c3: "core (s2\<lparr>task_heap := H2\<rparr>) = (core s)(t \<mapsto> ?g (?f n))"
    using set_taskE [OF p2, of t ?g] c2 by auto
  define s3 where "s3 = s2\<lparr>task_heap := H2\<rparr>"
  have sched: "scheduled_for_deletion nh = scheduled_for_deletion n" "task_function nh (task_arg nh) = r"
    using nh by (simp_all add: r_def)
  show ?thesis
  proof (cases "scheduled_for_deletion n")
    case False
    define s' where "s' = set_worker i Starting s3"
    have run: "worker_finish i t s = Some s'"
      using nh st1 st2 sched False by (simp add: worker_finish_def s'_def s3_def s2_def Let_def)
    have c': "core s' = (core s)(t \<mapsto> ?g (?f n))" unfolding c3 [symmetric] by (rule core_cong) (simp add: s'_def s3_def set_worker_def)
    have "placed qs s'" by (rule placed_cong [OF p3]) (simp_all add: s'_def s3_def set_worker_def)
    moreover have "tasks_ok qs (core s') u"
      unfolding c' r_def by (rule tasks_ok_finish [OF ok]) (use n False in simp_all)
    moreover have "workers_ok (core s') ((workers s)[i := Starting])"
      unfolding c' by (rule workers_ok_finish [OF w i]) (simp_all add: progress_simps)
    moreover have "threads_ok s' u"
      by (rule threads_ok_finish [OF th i]) (simp_all add: s'_def s3_def s2_def set_worker_def)
    ultimately have "pool_inv_at qs u s'"
      using U by (simp add: pool_inv_at_def s'_def s3_def s2_def set_worker_def)
    then show ?thesis using run n(1) c' False by (auto simp: pool_inv_def r_def)
  next
    case True
    have p3: "placed qs s3" using p3 by (simp add: s3_def)
    obtain s4 T H where jd: "thread_task_join_no_lock t s3 = Some s4"
        "thread_task_delete t s4 = Some (0, s3\<lparr>tasks := T, task_heap := H, pushed_tasks_count := pushed_tasks_count s3 - 1\<rparr>)"
      and p4: "placed (butlast (swapped k (length qs - 1) qs)) (s3\<lparr>tasks := T, task_heap := H, pushed_tasks_count := pushed_tasks_count s3 - 1\<rparr>)"
      and c4: "core (s3\<lparr>tasks := T, task_heap := H, pushed_tasks_count := pushed_tasks_count s3 - 1\<rparr>) = (core s3)(t := None)"
      using join_deleteE [OF p3 k(1)] unfolding k(2) by metis
    define s' where "s' = set_worker i Starting (s3\<lparr>tasks := T, task_heap := H, pushed_tasks_count := pushed_tasks_count s3 - 1\<rparr>)"
    have run: "worker_finish i t s = Some s'"
      using nh st1 st2 sched True jd by (simp add: worker_finish_def s'_def s3_def s2_def Let_def)
    have "core s' = core (s3\<lparr>tasks := T, task_heap := H, pushed_tasks_count := pushed_tasks_count s3 - 1\<rparr>)"
      by (rule core_cong) (simp add: s'_def set_worker_def)
    then have c': "core s' = (core s)(t := None)" using c3 c4 by (simp add: s3_def)
    let ?qs = "butlast (swapped k (length qs - 1) qs)"
    have "placed ?qs s'" by (rule placed_cong [OF p4]) (simp_all add: s'_def set_worker_def)
    moreover have "tasks_ok ?qs (core s') u"
      unfolding c' k(2) [symmetric] by (rule tasks_ok_join [OF ok _ k(1) uk]) (use p in \<open>simp_all add: placed_def\<close>)
    moreover have "workers_ok (core s') ((workers s)[i := Starting])"
      unfolding c' by (rule workers_ok_finish [OF w i]) (simp_all add: progress_simps in_progress_def)
    moreover have "threads_ok s' u"
      by (rule threads_ok_finish [OF th i]) (simp_all add: s'_def s3_def s2_def set_worker_def)
    ultimately have "pool_inv_at ?qs u s'"
      using U by (simp add: pool_inv_at_def s'_def s3_def s2_def set_worker_def)
    then show ?thesis using run n(1) c' True by (auto simp: pool_inv_def)
  qed
qed

lemma threads_ok_cong:
  assumes "threads_ok s u" "workers s' = workers s" "running_tasks_count s' = running_tasks_count s"
    "thread_count s' = thread_count s" "max_thread_count s' = max_thread_count s"
    "deleting s' = deleting s" "thread_update_event s' = thread_update_event s"
  shows "threads_ok s' u"
  using assms(1) unfolding threads_ok_def assms(2-7) .

lemma finished_position:
  assumes "pool_inv_at qs u s" "core s t = Some n" "parent_pool n" "finished n"
  obtains k where "k < length qs" "qs ! k = t" "u \<le> k"
proof -
  have ok: "tasks_ok qs (core s) u" using assms(1) by (simp add: pool_inv_at_def)
  then obtain k where k: "k < length qs" "qs ! k = t" using assms(2,3) unfolding tasks_ok_def by (metis in_set_conv_nth)
  moreover have "u \<le> k" using ok k assms(2-4) unfolding tasks_ok_def by metis
  ultimately show ?thesis by (rule that)
qed

text \<open>What a join of a finished task does to the state, with and without the deletion.\<close>

definition leaves_pool :: "ptr \<Rightarrow> thread_task option \<Rightarrow> pool \<Rightarrow> pool \<Rightarrow> bool" where
  "leaves_pool t v s s' \<longleftrightarrow> core s' = (core s)(t := v) \<and> workers s' = workers s \<and>
     unassigned_tasks_count s' = unassigned_tasks_count s \<and> running_tasks_count s' = running_tasks_count s \<and>
     pushed_tasks_count s' = pushed_tasks_count s - 1 \<and> deleting s' = deleting s"

lemma leave_inv:
  assumes at: "pool_inv_at qs u s" and n: "core s t = Some n" "finished n" and k: "k < length qs" "qs ! k = t" "u \<le> k"
    and v: "\<And>m. v = Some m \<Longrightarrow> m = n\<lparr>parent_pool := False, assigned := False\<rparr>"
    and p: "placed (butlast (swapped k (length qs - 1) qs)) (s\<lparr>tasks := T, task_heap := H, pushed_tasks_count := pushed_tasks_count s - 1\<rparr>)"
    and c: "core (s\<lparr>tasks := T, task_heap := H, pushed_tasks_count := pushed_tasks_count s - 1\<rparr>) = (core s)(t := v)"
  shows "pool_inv (s\<lparr>tasks := T, task_heap := H, pushed_tasks_count := pushed_tasks_count s - 1\<rparr>) \<and>
    leaves_pool t v s (s\<lparr>tasks := T, task_heap := H, pushed_tasks_count := pushed_tasks_count s - 1\<rparr>)"
proof -
  have ok: "tasks_ok qs (core s) u" and w: "workers_ok (core s) (workers s)" and th: "threads_ok s u"
    and U: "unassigned_tasks_count s = int u" and d: "distinct qs"
    using at by (auto simp: pool_inv_at_def placed_def)
  have ns: "\<not> scheduled_for_deletion n" "task_result n = Some (task_function n (task_arg n))"
    using ok n by (auto simp: tasks_ok_def)
  have "tasks_ok (butlast (swapped k (length qs - 1) qs)) ((core s)(t := v)) u"
    unfolding k(2) [symmetric] by (rule tasks_ok_join [OF ok d k(1,3)]) (use v ns in auto)
  moreover have "workers_ok ((core s)(t := v)) (workers s)"
  proof (rule workers_ok_cong [OF w])
    have "\<not> in_progress ((core s)(t := v)) t" using v n by (cases v) (simp_all add: in_progress_def)
    moreover have "\<not> in_progress (core s) t" using n by (simp add: in_progress_def)
    ultimately show "in_progress ((core s)(t := v)) x = in_progress (core s) x" for x
      by (cases "x = t") (simp_all add: in_progress_update)
  qed
  moreover have "threads_ok (s\<lparr>tasks := T, task_heap := H, pushed_tasks_count := pushed_tasks_count s - 1\<rparr>) u"
    by (rule threads_ok_cong [OF th]) simp_all
  ultimately have "pool_inv (s\<lparr>tasks := T, task_heap := H, pushed_tasks_count := pushed_tasks_count s - 1\<rparr>)"
    unfolding pool_inv_def pool_inv_at_def c using p U by fastforce
  then show ?thesis using c by (simp add: leaves_pool_def)
qed

lemma join_no_lock_inv:
  assumes inv: "pool_inv s" and n: "core s t = Some n" "parent_pool n" "finished n"
  shows "\<exists>s'. thread_task_join_no_lock t s = Some s' \<and> pool_inv s' \<and>
    leaves_pool t (Some (n\<lparr>parent_pool := False, assigned := False\<rparr>)) s s'"
proof -
  obtain qs u where at: "pool_inv_at qs u s" using inv by (auto simp: pool_inv_def)
  obtain k where k: "k < length qs" "qs ! k = t" "u \<le> k" by (rule finished_position [OF at n])
  have p: "placed qs s" using at by (simp add: pool_inv_at_def)
  obtain T H where j: "thread_task_join_no_lock t s = Some (s\<lparr>tasks := T, task_heap := H, pushed_tasks_count := pushed_tasks_count s - 1\<rparr>)"
    and p': "placed (butlast (swapped k (length qs - 1) qs)) (s\<lparr>tasks := T, task_heap := H, pushed_tasks_count := pushed_tasks_count s - 1\<rparr>)"
    and c: "core (s\<lparr>tasks := T, task_heap := H, pushed_tasks_count := pushed_tasks_count s - 1\<rparr>) =
      (core s)(t := Some (n\<lparr>parent_pool := False, assigned := False\<rparr>))"
    using join_no_lockE [OF p k(1)] unfolding k(2) n(1) option.map by blast
  show ?thesis using leave_inv [OF at n(1,3) k _ p' c] j by blast
qed

lemma join_delete_inv:
  assumes inv: "pool_inv s" and n: "core s t = Some n" "parent_pool n" "finished n"
  shows "\<exists>s1 s'. thread_task_join_no_lock t s = Some s1 \<and> thread_task_delete t s1 = Some (0, s') \<and> pool_inv s' \<and>
    leaves_pool t None s s'"
proof -
  obtain qs u where at: "pool_inv_at qs u s" using inv by (auto simp: pool_inv_def)
  obtain k where k: "k < length qs" "qs ! k = t" "u \<le> k" by (rule finished_position [OF at n])
  have p: "placed qs s" using at by (simp add: pool_inv_at_def)
  obtain s1 T H where j: "thread_task_join_no_lock t s = Some s1"
      "thread_task_delete t s1 = Some (0, s\<lparr>tasks := T, task_heap := H, pushed_tasks_count := pushed_tasks_count s - 1\<rparr>)"
    and p': "placed (butlast (swapped k (length qs - 1) qs)) (s\<lparr>tasks := T, task_heap := H, pushed_tasks_count := pushed_tasks_count s - 1\<rparr>)"
    and c: "core (s\<lparr>tasks := T, task_heap := H, pushed_tasks_count := pushed_tasks_count s - 1\<rparr>) = (core s)(t := None)"
    using join_deleteE [OF p k(1)] unfolding k(2) by metis
  show ?thesis using leave_inv [OF at n(1,3) k _ p' c] j by blast
qed

text \<open>Changes of the tasks that leave the array alone.\<close>

lemma heap_change_inv:
  assumes at: "pool_inv_at qs u s" and c: "core (s\<lparr>task_heap := H\<rparr>) = c'" and same: "\<And>t. t \<in> set qs \<Longrightarrow> H t = task_heap s t"
    and ok: "tasks_ok qs c' u" and pr: "\<And>t. in_progress c' t = in_progress (core s) t"
  shows "pool_inv_at qs u (s\<lparr>task_heap := H\<rparr>)"
proof -
  have "placed qs (s\<lparr>task_heap := H\<rparr>)"
    by (rule placed_heap_cong [of qs s]) (use at same in \<open>auto simp: pool_inv_at_def\<close>)
  moreover have "workers_ok c' (workers s)"
    by (rule workers_ok_cong [OF _ pr]) (use at in \<open>simp add: pool_inv_at_def\<close>)
  moreover have "threads_ok (s\<lparr>task_heap := H\<rparr>) u"
    by (rule threads_ok_cong [of s]) (use at in \<open>auto simp: pool_inv_at_def\<close>)
  ultimately show ?thesis using at ok c by (simp add: pool_inv_at_def)
qed

lemma thread_task_new_inv:
  assumes inv: "pool_inv s" and new: "core s t = None"
  shows "pool_inv (thread_task_new t f arg s)"
proof -
  obtain qs u where at: "pool_inv_at qs u s" using inv by (auto simp: pool_inv_def)
  have nin: "t \<notin> set qs" using at new by (auto simp: pool_inv_at_def tasks_ok_def)
  let ?n = "\<lparr>task_function = f, task_arg = arg, task_result = None, finished = False, assigned = False,
    scheduled_for_deletion = False, parent_pool = False, index_in_parent_pool = 0\<rparr>"
  have "pool_inv_at qs u (s\<lparr>task_heap := (task_heap s)(t \<mapsto> \<lparr>task_function = f, task_arg = arg, task_result = None,
        finished = False, assigned = False, scheduled_for_deletion = False, parent_pool = False,
        index_in_parent_pool = -1\<rparr>)\<rparr>)"
  proof (rule heap_change_inv [OF at])
    show "core (s\<lparr>task_heap := (task_heap s)(t \<mapsto> \<lparr>task_function = f, task_arg = arg, task_result = None,
        finished = False, assigned = False, scheduled_for_deletion = False, parent_pool = False,
        index_in_parent_pool = -1\<rparr>)\<rparr>) = (core s)(t \<mapsto> ?n)" by (simp add: core_def fun_eq_iff)
    show "tasks_ok qs ((core s)(t \<mapsto> ?n)) u"
      using at nin unfolding pool_inv_at_def tasks_ok_def by (auto dest: nth_mem)
  qed (use nin new in \<open>auto simp: in_progress_def\<close>)
  then show ?thesis by (auto simp: pool_inv_def thread_task_new_def)
qed

lemma thread_task_delete_inv:
  assumes inv: "pool_inv s" and n: "core s t = Some n"
  shows "\<exists>s' r. thread_task_delete t s = Some (r, s') \<and> pool_inv s' \<and>
    (if parent_pool n then r = TPOOL_ERR_TASK_IN_POOL \<and> s' = s else r = 0 \<and> core s' = (core s)(t := None))"
proof -
  obtain qs u where at: "pool_inv_at qs u s" using inv by (auto simp: pool_inv_def)
  obtain nh where nh: "task_heap s t = Some nh" "n = nh\<lparr>index_in_parent_pool := 0\<rparr>" using n by (auto simp: core_def)
  show ?thesis
  proof (cases "parent_pool n")
    case True
    then show ?thesis using inv nh by (simp add: thread_task_delete_def)
  next
    case False
    then have nin: "t \<notin> set qs" using at n by (auto simp: pool_inv_at_def tasks_ok_def)
    have "pool_inv_at qs u (s\<lparr>task_heap := (task_heap s)(t := None)\<rparr>)"
    proof (rule heap_change_inv [OF at core_delete])
      show "tasks_ok qs ((core s)(t := None)) u"
        using at nin unfolding pool_inv_at_def tasks_ok_def by (auto dest: nth_mem)
    qed (use nin n False in \<open>auto simp: in_progress_def\<close>)
    then show ?thesis using nh False core_delete [of s t] by (auto simp: thread_task_delete_def pool_inv_def)
  qed
qed

section \<open>Pushing a task\<close>

lemma push_placed:
  assumes p: "placed qs s" and t: "t \<notin> set qs" "task_heap s t = Some n" and L: "int (length qs) < TPOOL_MAX_TASKS"
    and f: "f = (\<lambda>n. n\<lparr>finished := False, assigned := False, parent_pool := True\<rparr>)"
    and T: "T = (tasks s)(int (length qs) := Some t)" and H: "H = (task_heap s)(t \<mapsto> (f n)\<lparr>index_in_parent_pool := int (length qs)\<rparr>)"
  shows "placed (qs @ [t]) (s\<lparr>tasks := T, task_heap := H, pushed_tasks_count := pushed_tasks_count s + 1\<rparr>)"
    and "core (s\<lparr>tasks := T, task_heap := H, pushed_tasks_count := pushed_tasks_count s + 1\<rparr>) =
       (core s)(t := map_option f (core s t))"
proof -
  have P: "pushed_tasks_count s = int (length qs)" and d: "distinct qs" using p by (simp_all add: placed_def)
  have "T (int i) = Some ((qs @ [t]) ! i)" if "i < Suc (length qs)" for i
    using that p by (auto simp: nth_append placed_def less_Suc_eq T)
  moreover have "\<exists>x. H ((qs @ [t]) ! i) = Some x \<and> parent_pool x \<and> index_in_parent_pool x = int i"
    if "i < Suc (length qs)" for i
    using that p t(1) f by (cases "i = length qs") (auto simp: nth_append placed_def H)
  ultimately show "placed (qs @ [t]) (s\<lparr>tasks := T, task_heap := H, pushed_tasks_count := pushed_tasks_count s + 1\<rparr>)"
    using P L d t(1) by (simp add: placed_def)
  show "core (s\<lparr>tasks := T, task_heap := H, pushed_tasks_count := pushed_tasks_count s + 1\<rparr>) =
       (core s)(t := map_option f (core s t))"
    using t(2) by (simp add: core_def fun_eq_iff f H)
qed

lemma tasks_ok_push:
  assumes ok: "tasks_ok qs c u" and t: "t \<notin> set qs" "c t = Some n" "\<not> scheduled_for_deletion n"
    and c': "c' = c(t \<mapsto> n\<lparr>finished := False, assigned := False, parent_pool := True\<rparr>)"
  shows "tasks_ok (swapped u (length qs) (qs @ [t])) c' (Suc u)"
proof -
  let ?qs = "qs @ [t]"
  have u: "u \<le> length qs" using ok by (simp add: tasks_ok_def)
  have set': "set (swapped u (length qs) ?qs) = insert t (set qs)"
    by (subst set_swapped) (use u in auto)
  have asg: "assigned m \<longleftrightarrow> Suc u \<le> k"
    if k: "k < Suc (length qs)" and m: "c' (swapped u (length qs) ?qs ! k) = Some m" for k m
  proof -
    have e: "swapped u (length qs) ?qs ! k = (if k = u then t else if k = length qs then ?qs ! u else ?qs ! k)"
      by (subst nth_swapped) (use u k in auto)
    show ?thesis
    proof (cases "k = u")
      case True
      then show ?thesis using m e c' by auto
    next
      case False
      define j where "j = (if k = length qs then u else k)"
      have j: "j < length qs" "swapped u (length qs) ?qs ! k = qs ! j"
        using False k u e by (auto simp: j_def nth_append)
      then have "qs ! j \<noteq> t" using t(1) by (metis nth_mem)
      then have "c (qs ! j) = Some m" using m j(2) c' by simp
      then have "assigned m \<longleftrightarrow> u \<le> j" using ok j(1) by (simp add: tasks_ok_def)
      then show ?thesis using False k u by (auto simp: j_def split: if_splits)
    qed
  qed
  have "(parent_pool m \<longleftrightarrow> x \<in> insert t (set qs)) \<and> (finished m \<longrightarrow> task_result m = Some (task_function m (task_arg m))) \<and>
      (parent_pool m \<and> finished m \<longrightarrow> assigned m) \<and> (scheduled_for_deletion m \<longrightarrow> parent_pool m \<and> \<not> finished m)"
    if "c' x = Some m" for x m
    using that ok t unfolding tasks_ok_def c' by (cases "x = t") auto
  moreover have "\<forall>x\<in>insert t (set qs). c' x \<noteq> None"
    using ok by (simp add: tasks_ok_def c')
  ultimately show ?thesis
    unfolding tasks_ok_def set' length_swapped using asg u by auto
qed

text \<open>The choice of the worker that a signal wakes.\<close>

definition may_wake :: "nat option \<Rightarrow> worker list \<Rightarrow> bool" where
  "may_wake w ws \<longleftrightarrow> (case w of None \<Rightarrow> Waiting \<notin> set ws | Some i \<Rightarrow> i < length ws \<and> ws ! i = Waiting)"

text \<open>The part of a push that decides about the workers.\<close>

definition hire :: "nat option \<Rightarrow> pool \<Rightarrow> pool" where
  "hire signalled s =
     (if running_tasks_count s = thread_count s \<and> thread_count s < max_thread_count s
      then s\<lparr>thread_count := thread_count s + 1, workers := workers s @ [Starting]\<rparr>
      else if unassigned_tasks_count s = 1
      then signal_worker signalled (s\<lparr>thread_update_event := TASK_APPEARS_EVENT\<rparr>)
      else s)"

lemma hire_threads:
  assumes th: "threads_ok s u" and U: "unassigned_tasks_count s = int (Suc u)" and w: "may_wake w (workers s)" and nd: "\<not> deleting s"
  shows "threads_ok (hire w s) (Suc u)"
proof (cases "running_tasks_count s = thread_count s \<and> thread_count s < max_thread_count s")
  case True
  then show ?thesis using th nd by (auto simp: hire_def threads_ok_def running_at_append awake_def)
next
  case create: False
  have ns: "Stopped \<notin> set (workers s)" using th nd by (auto simp: threads_ok_def)
  show ?thesis
  proof (cases "u = 0")
    case True
    have "workers s \<noteq> []"
    proof
      assume "workers s = []"
      then have "thread_count s = 0" "running_tasks_count s = 0" using th by (auto simp: threads_ok_def running_at_def)
      then show False using create th by (auto simp: threads_ok_def)
    qed
    then obtain h where ne: "h \<in> set (workers s)" by (cases "workers s") auto
    show ?thesis
    proof (cases w)
      case None
      then have "awake h" using w ns ne by (auto simp: awake_def may_wake_def)
      moreover have "hire w s = s\<lparr>thread_update_event := TASK_APPEARS_EVENT\<rparr>"
        using None create True U by (auto simp: hire_def signal_worker_def)
      ultimately show ?thesis using th nd ne unfolding threads_ok_def by (auto intro: bexI [OF _ ne])
    next
      case (Some i)
      then have i: "i < length (workers s)" "workers s ! i = Waiting" using w by (auto simp: may_wake_def)
      then have "Woken \<in> set ((workers s)[i := Woken])" "running_at ((workers s)[i := Woken]) = running_at (workers s)"
        by (auto simp: set_update_memI running_at_idle)
      moreover have "Stopped \<notin> set ((workers s)[i := Woken])"
        using ns set_update_subset_insert [of "workers s" i Woken] by auto
      moreover have "hire w s = s\<lparr>thread_update_event := TASK_APPEARS_EVENT, workers := (workers s)[i := Woken]\<rparr>"
        using Some create True U by (auto simp: hire_def signal_worker_def set_worker_def)
      ultimately show ?thesis using th nd unfolding threads_ok_def by (auto simp: awake_def)
    qed
  next
    case False
    then show ?thesis using create U th nd by (auto simp: hire_def threads_ok_def)
  qed
qed

lemma hire_workers:
  assumes "workers_ok c (workers s)" "may_wake w (workers s)"
  shows "workers_ok c (workers (hire w s))"
proof -
  have "workers_ok c (workers s @ [Starting])"
    using assms(1) by (auto simp: workers_ok_def nth_append less_Suc_eq)
  moreover have "workers_ok c ((workers s)[i := Woken])" if "w = Some i" for i
    by (rule workers_ok_idle [OF assms(1)]) (use assms(2) that in \<open>auto simp: may_wake_def\<close>)
  ultimately show ?thesis
    using assms(1) by (auto simp: hire_def signal_worker_def set_worker_def split: option.splits)
qed

lemma hire_fields [simp]:
  "tasks (hire w s) = tasks s" "task_heap (hire w s) = task_heap s" "pushed_tasks_count (hire w s) = pushed_tasks_count s"
  "unassigned_tasks_count (hire w s) = unassigned_tasks_count s" "running_tasks_count (hire w s) = running_tasks_count s"
  "deleting (hire w s) = deleting s"
  by (simp_all add: hire_def signal_worker_def set_worker_def split: option.splits)

lemma thread_pool_push_task_inv:
  assumes inv: "pool_inv s" and n: "core s t = Some n" "\<not> parent_pool n" "\<not> scheduled_for_deletion n"
    and nd: "\<not> deleting s" and w: "may_wake w (workers s)" and L: "pushed_tasks_count s < TPOOL_MAX_TASKS"
  shows "\<exists>s'. thread_pool_push_task t w s = Some (0, s') \<and> pool_inv s' \<and>
    core s' = (core s)(t \<mapsto> n\<lparr>finished := False, assigned := False, parent_pool := True\<rparr>) \<and>
    unassigned_tasks_count s' = unassigned_tasks_count s + 1 \<and> deleting s' = deleting s \<and>
    pushed_tasks_count s' = pushed_tasks_count s + 1"
proof -
  obtain qs u where at: "pool_inv_at qs u s" using inv by (auto simp: pool_inv_def)
  have p: "placed qs s" and U: "unassigned_tasks_count s = int u" and ok: "tasks_ok qs (core s) u"
    and wk: "workers_ok (core s) (workers s)" and th: "threads_ok s u" and P: "pushed_tasks_count s = int (length qs)"
    using at by (auto simp: pool_inv_at_def placed_def)
  have nin: "t \<notin> set qs" using ok n by (auto simp: tasks_ok_def)
  have u: "u \<le> length qs" using ok by (simp add: tasks_ok_def)
  obtain nh where nh: "task_heap s t = Some nh" using n(1) by (auto simp: core_def)
  let ?f = "\<lambda>n. n\<lparr>finished := False, assigned := False, parent_pool := True\<rparr>"
  let ?c = "(core s)(t \<mapsto> ?f n)"
  define T where "T = (tasks s)(int (length qs) := Some t)"
  define H where "H = (task_heap s)(t \<mapsto> (?f nh)\<lparr>index_in_parent_pool := int (length qs)\<rparr>)"
  have p1: "placed (qs @ [t]) (s\<lparr>tasks := T, task_heap := H, pushed_tasks_count := pushed_tasks_count s + 1\<rparr>)"
    and c1: "core (s\<lparr>tasks := T, task_heap := H, pushed_tasks_count := pushed_tasks_count s + 1\<rparr>) = ?c"
    using push_placed [OF p nin nh _ refl T_def H_def] L P n(1) by simp_all
  define s1 where "s1 = s\<lparr>tasks := T, pushed_tasks_count := pushed_tasks_count s + 1, task_heap := H,
    unassigned_tasks_count := unassigned_tasks_count s + 1\<rparr>"
  have c: "set_cell (int (length qs)) t x = Some (x\<lparr>tasks := (tasks x)(int (length qs) := Some t)\<rparr>)" for x
    using L P by (simp add: set_cell_def)
  have run: "thread_pool_push_task t w s =
      do { other \<leftarrow> get_cell (unassigned_tasks_count (hire w s1) - 1) (hire w s1);
           s \<leftarrow> swap_tasks_in_pool other t (hire w s1); Some (0, s) }"
    using L nh P by (simp add: thread_pool_push_task_def hire_def s1_def set_task_def c Let_def T_def H_def)
  have p2: "placed (qs @ [t]) (hire w s1)" by (rule placed_cong [OF p1]) (simp_all add: s1_def)
  have c2: "core (hire w s1) = ?c" unfolding c1 [symmetric] by (rule core_cong) (simp add: s1_def)
  have ij: "u < length (qs @ [t])" "length qs < length (qs @ [t])" using u by auto
  obtain T' H' where sw: "swap_tasks_in_pool ((qs @ [t]) ! u) ((qs @ [t]) ! length qs) (hire w s1) = Some ((hire w s1)\<lparr>tasks := T', task_heap := H'\<rparr>)"
    and p3: "placed (swapped u (length qs) (qs @ [t])) ((hire w s1)\<lparr>tasks := T', task_heap := H'\<rparr>)"
    and c3: "core ((hire w s1)\<lparr>tasks := T', task_heap := H'\<rparr>) = ?c"
    using swap_placedE [OF p2 ij] c2 by metis
  define s' where "s' = (hire w s1)\<lparr>tasks := T', task_heap := H'\<rparr>"
  have U1: "unassigned_tasks_count (hire w s1) = int (Suc u)" using U by (simp add: s1_def)
  have run: "thread_pool_push_task t w s = Some (0, s')"
    unfolding run using get_cell_placed [OF p2 ij(1)] sw U1 by (simp add: s'_def)
  have th1: "threads_ok s1 u" by (rule threads_ok_cong [OF th]) (simp_all add: s1_def)
  have "threads_ok (hire w s1) (Suc u)"
    by (rule hire_threads [OF th1]) (use U w nd in \<open>simp_all add: s1_def\<close>)
  then have "threads_ok s' (Suc u)" by (rule threads_ok_cong) (simp_all add: s'_def)
  moreover have "workers_ok ?c (workers s)"
    by (rule workers_ok_cong [OF wk]) (use n in \<open>auto simp: in_progress_def\<close>)
  then have "workers_ok ?c (workers s')"
    using hire_workers [of ?c s1 w] w by (simp add: s'_def s1_def)
  moreover have "tasks_ok (swapped u (length qs) (qs @ [t])) ?c (Suc u)"
    by (rule tasks_ok_push [OF ok nin n(1,3)]) simp
  ultimately have "pool_inv_at (swapped u (length qs) (qs @ [t])) (Suc u) s'"
    using p3 c3 U1 by (simp add: pool_inv_at_def s'_def)
  then show ?thesis using run c3 by (auto simp: pool_inv_def s'_def s1_def)
qed

section \<open>The remaining calls\<close>

lemma core_heap: "core s t = Some n \<Longrightarrow> \<exists>m. task_heap s t = Some m \<and> n = m\<lparr>index_in_parent_pool := 0\<rparr>"
  by (auto simp: core_def)

lemma thread_task_join_inv:
  assumes inv: "pool_inv s" and n: "core s t = Some n"
  shows "\<exists>r s'. thread_task_join t s = Some (r, s') \<and> pool_inv s' \<and>
    (if \<not> parent_pool n then r = Returns TPOOL_ERR_TASK_NOT_PUSHED None \<and> s' = s
     else if \<not> finished n then r = Blocks \<and> s' = s
     else r = Returns 0 (Some (task_function n (task_arg n))) \<and> leaves_pool t (Some (n\<lparr>parent_pool := False, assigned := False\<rparr>)) s s')"
proof -
  obtain m where m: "task_heap s t = Some m" "n = m\<lparr>index_in_parent_pool := 0\<rparr>" using core_heap [OF n] by blast
  obtain qs u where "tasks_ok qs (core s) u" using inv by (auto simp: pool_inv_def pool_inv_at_def)
  then have "finished n \<Longrightarrow> task_result n = Some (task_function n (task_arg n))"
    using n unfolding tasks_ok_def by blast
  then have res: "finished n \<Longrightarrow> task_result m = Some (task_function n (task_arg n))" using m(2) by simp
  show ?thesis
  proof (cases "parent_pool n \<and> finished n")
    case True
    then show ?thesis using join_no_lock_inv [OF inv n] m res
      by (auto simp: thread_task_join_def thread_task_join_locked_def)
  next
    case False
    then show ?thesis using inv m by (auto simp: thread_task_join_def thread_task_join_locked_def)
  qed
qed

text \<open>The tail of a timed join repeats thread_task_join_no_lock.\<close>

lemma timed_join_locked_as_join:
  "thread_task_timed_join_locked t d s = do {
     n \<leftarrow> task_heap s t; if \<not> finished n then Some (Blocks_until d, s) else thread_task_join_locked t s }"
  by (cases "task_heap s t")
    (simp_all add: thread_task_timed_join_locked_def thread_task_join_locked_def thread_task_join_no_lock_def Let_def)

lemma thread_task_detach_inv:
  assumes inv: "pool_inv s" and n: "core s t = Some n"
  shows "\<exists>r s'. thread_task_detach t s = Some (r, s') \<and> pool_inv s' \<and> deleting s' = deleting s \<and>
    (if \<not> parent_pool n then r = TPOOL_ERR_TASK_NOT_PUSHED \<and> s' = s
     else if finished n then r = 0 \<and> leaves_pool t None s s'
     else r = 0 \<and> core s' = (core s)(t \<mapsto> n\<lparr>scheduled_for_deletion := True\<rparr>) \<and> workers s' = workers s)"
proof -
  obtain qs u where at: "pool_inv_at qs u s" using inv by (auto simp: pool_inv_def)
  obtain m where m: "task_heap s t = Some m" "n = m\<lparr>index_in_parent_pool := 0\<rparr>" using core_heap [OF n] by blast
  show ?thesis
  proof (cases "parent_pool n \<and> \<not> finished n")
    case False
    then show ?thesis using join_delete_inv [OF inv n] inv m
      by (auto simp: thread_task_detach_def leaves_pool_def)
  next
    case True
    let ?f = "\<lambda>n. n\<lparr>scheduled_for_deletion := True\<rparr>"
    have p: "placed qs s" and U: "unassigned_tasks_count s = int u" and ok: "tasks_ok qs (core s) u"
      and wk: "workers_ok (core s) (workers s)" and th: "threads_ok s u"
      using at by (auto simp: pool_inv_at_def)
    obtain H where st: "set_task t ?f s = Some (s\<lparr>task_heap := H\<rparr>)" and p1: "placed qs (s\<lparr>task_heap := H\<rparr>)"
      and c1: "core (s\<lparr>task_heap := H\<rparr>) = (core s)(t \<mapsto> ?f n)"
      using set_taskE [OF p, of t ?f] n by auto
    have "tasks_ok qs ((core s)(t \<mapsto> ?f n)) u"
      using ok n True unfolding tasks_ok_def by auto
    moreover have "workers_ok ((core s)(t \<mapsto> ?f n)) (workers s)"
      by (rule workers_ok_cong [OF wk]) (use n in \<open>auto simp: in_progress_def\<close>)
    moreover have "threads_ok (s\<lparr>task_heap := H\<rparr>) u" by (rule threads_ok_cong [OF th]) simp_all
    ultimately have "pool_inv_at qs u (s\<lparr>task_heap := H\<rparr>)"
      using p1 c1 U by (simp add: pool_inv_at_def)
    then show ?thesis using st c1 m True by (auto simp: thread_task_detach_def pool_inv_def)
  qed
qed

lemma set_wake_all: "x \<in> set (wake_all ws) \<Longrightarrow> x = Woken \<or> x \<in> set ws"
  by (auto simp: wake_all_def)

lemma wake_all_running: "Running t \<in> set (wake_all ws) \<longleftrightarrow> Running t \<in> set ws"
  by (auto simp: wake_all_def image_iff)

lemma length_wake_all [simp]: "length (wake_all ws) = length ws"
  by (simp add: wake_all_def)

lemma nth_wake_all: "i < length ws \<Longrightarrow> wake_all ws ! i = Running t \<longleftrightarrow> ws ! i = Running t"
  by (simp add: wake_all_def)

lemma thread_pool_delete_inv:
  assumes inv: "pool_inv s"
  shows "pool_inv (snd (thread_pool_delete s)) \<and> core (snd (thread_pool_delete s)) = core s"
proof -
  obtain qs u where at: "pool_inv_at qs u s" using inv by (auto simp: pool_inv_def)
  show ?thesis
  proof (cases "unassigned_tasks_count s > 0 \<or> running_tasks_count s > 0")
    case True
    then show ?thesis using inv by (simp add: thread_pool_delete_def)
  next
    case False
    define s' where "s' = s\<lparr>thread_update_event := TASKS_ENDED_EVENT, workers := wake_all (workers s), deleting := True\<rparr>"
    have u: "u = 0" "running_tasks_count s = 0" using at False by (auto simp: pool_inv_at_def threads_ok_def)
    have c: "core s' = core s" by (rule core_cong) (simp add: s'_def)
    have "placed qs s'" by (rule placed_cong [of qs s]) (use at in \<open>simp_all add: s'_def pool_inv_at_def\<close>)
    moreover have "workers_ok (core s) (wake_all (workers s))"
      using at unfolding pool_inv_at_def workers_ok_def by (simp add: wake_all_running nth_wake_all)
    moreover have "threads_ok s' u"
      using at u unfolding pool_inv_at_def threads_ok_def by (auto simp: s'_def)
    ultimately have "pool_inv_at qs u s'" using at c by (simp add: pool_inv_at_def s'_def)
    then show ?thesis using False c by (auto simp: thread_pool_delete_def s'_def pool_inv_def)
  qed
qed

text \<open>A waiting thread may wake up for no reason.\<close>

lemma spurious_inv:
  assumes inv: "pool_inv s" and i: "i < length (workers s)" "workers s ! i = Waiting"
  shows "pool_inv (set_worker i Woken s)"
proof -
  obtain qs u where at: "pool_inv_at qs u s" using inv by (auto simp: pool_inv_def)
  have c: "core (set_worker i Woken s) = core s" by (rule core_cong) (simp add: set_worker_def)
  have "placed qs (set_worker i Woken s)"
    by (rule placed_cong [of qs s]) (use at in \<open>simp_all add: pool_inv_at_def set_worker_def\<close>)
  moreover have "workers_ok (core s) ((workers s)[i := Woken])"
    by (rule workers_ok_idle) (use at i in \<open>simp_all add: pool_inv_at_def\<close>)
  moreover have "Woken \<in> set ((workers s)[i := Woken])" using i by (simp add: set_update_memI)
  then have "threads_ok (set_worker i Woken s) u"
    using at i running_at_idle [of i "workers s" Woken] set_update_subset_insert [of "workers s" i Woken]
    unfolding pool_inv_at_def threads_ok_def by (auto simp: set_worker_def awake_def)
  ultimately have "pool_inv_at qs u (set_worker i Woken s)"
    using at c by (simp add: pool_inv_at_def set_worker_def)
  then show ?thesis by (auto simp: pool_inv_def)
qed

text \<open>The invariant does not look at the threads that wait in joins.\<close>

lemma core_joiners [simp]: "core (s\<lparr>joiners := j\<rparr>) = core s"
  by (rule core_cong) simp

lemma pool_inv_joiners [simp]: "pool_inv (s\<lparr>joiners := j\<rparr>) = pool_inv s"
  by (simp add: pool_inv_def pool_inv_at_def placed_def threads_ok_def)

lemma thread_pool_new_inv:
  assumes "thread_pool_new k = (r, Some s)"
  shows "pool_inv s"
proof -
  have "pool_inv_at [] 0 s"
    using assms by (auto simp: thread_pool_new_def pool_inv_at_def placed_def tasks_ok_def workers_ok_def
        threads_ok_def running_at_def in_progress_def core_def TPOOL_MAX_TASKS_def split: if_splits)
  then show ?thesis by (auto simp: pool_inv_def)
qed

end
