(* ===== verification/Pool_Props.thy ===== *)
theory Pool_Props
  imports Pool_Inv
begin

text \<open>
  The thread pool in action: operations of the client and of the workers in any order, with the
  contract of thread_pool.h for the client, and what holds in every state they reach.
\<close>

section \<open>Operations and their contract\<close>

datatype pool_op =
    New_task ptr "int \<Rightarrow> int" int
  | Push ptr "nat option"
  | Join ptr
  | Timed_join ptr "int \<times> int" int
  | Join_wakes ptr
  | Timed_join_wakes ptr "timespec \<Rightarrow> bool"
  | Detach ptr
  | Delete_task ptr
  | Delete_pool
  | Start nat
  | Wake nat
  | Finish nat ptr
  | Spurious nat

text \<open>
  A join that does not return leaves its thread in the wait on the condition of the task;
  Join_wakes and Timed_join_wakes are the return from that wait, for whatever reason, and the rest
  of the call.
\<close>

definition join_outcome_at :: "ptr \<Rightarrow> join_outcome \<times> pool \<Rightarrow> pool" where
  "join_outcome_at t rs = (case rs of
       (Blocks, s) \<Rightarrow> s\<lparr>joiners := (joiners s)(t \<mapsto> None)\<rparr>
     | (Blocks_until d, s) \<Rightarrow> s\<lparr>joiners := (joiners s)(t \<mapsto> Some d)\<rparr>
     | (Returns r v, s) \<Rightarrow> s\<lparr>joiners := (joiners s)(t := None)\<rparr>)"

fun run_op :: "pool_op \<Rightarrow> pool \<Rightarrow> pool option" where
  "run_op (New_task t f arg) s = Some (thread_task_new t f arg s)"
| "run_op (Push t w) s = map_option snd (thread_pool_push_task t w s)"
| "run_op (Join t) s = map_option (join_outcome_at t) (thread_task_join t s)"
| "run_op (Timed_join t now ms) s = map_option (join_outcome_at t) (thread_task_timed_join t now ms s)"
| "run_op (Join_wakes t) s = map_option (join_outcome_at t) (thread_task_join_locked t s)"
| "run_op (Timed_join_wakes t timed_out) s =
     (case joiners s t of Some (Some d) \<Rightarrow> map_option (join_outcome_at t) (timed_wait_returns t d timed_out s) | _ \<Rightarrow> None)"
| "run_op (Detach t) s = map_option snd (thread_task_detach t s)"
| "run_op (Delete_task t) s = map_option snd (thread_task_delete t s)"
| "run_op Delete_pool s = Some (snd (thread_pool_delete s))"
| "run_op (Start i) s = worker_start i s"
| "run_op (Wake i) s = worker_wake i s"
| "run_op (Finish i t) s = worker_finish i t s"
| "run_op (Spurious i) s = Some (set_worker i Woken s)"

text \<open>
  A detached task is not touched any more, a task is pushed when it is in no pool, one thread at a
  time joins or detaches it, and a pool is deleted when no thread waits in a join; after that only
  tasks are deleted. The nanoseconds of a timeout fit a long long, and the clock is one of the next
  hundred billion years.
\<close>

definition owned :: "ptr \<Rightarrow> pool \<Rightarrow> bool" where
  "owned t s \<longleftrightarrow> (case task_heap s t of None \<Rightarrow> False | Some n \<Rightarrow> \<not> scheduled_for_deletion n)"

definition in_pool_now :: "ptr \<Rightarrow> pool \<Rightarrow> bool" where
  "in_pool_now t s \<longleftrightarrow> (case task_heap s t of None \<Rightarrow> False | Some n \<Rightarrow> parent_pool n)"

definition worker_is :: "nat \<Rightarrow> worker \<Rightarrow> pool \<Rightarrow> bool" where
  "worker_is i w s \<longleftrightarrow> i < length (workers s) \<and> workers s ! i = w"

definition clock_time :: "int \<times> int \<Rightarrow> bool" where
  "clock_time now \<longleftrightarrow> 0 \<le> fst now \<and> fst now < 2 ^ 62 \<and> 0 \<le> snd now \<and> snd now < 1000000"

fun allowed :: "pool_op \<Rightarrow> pool \<Rightarrow> bool" where
  "allowed (New_task t f arg) s = (task_heap s t = None)"
| "allowed (Push t w) s = (owned t s \<and> \<not> in_pool_now t s \<and> \<not> deleting s \<and> may_wake w (workers s))"
| "allowed (Join t) s = (owned t s \<and> joiners s t = None \<and> \<not> deleting s)"
| "allowed (Timed_join t now ms) s =
     (owned t s \<and> joiners s t = None \<and> \<not> deleting s \<and> clock_time now \<and> long_ok (ms * nsec_in_millisecond))"
| "allowed (Join_wakes t) s = (joiners s t = Some None)"
| "allowed (Timed_join_wakes t timed_out) s = (\<exists>d. joiners s t = Some (Some d))"
| "allowed (Detach t) s = (owned t s \<and> joiners s t = None \<and> \<not> deleting s)"
| "allowed (Delete_task t) s = owned t s"
| "allowed Delete_pool s = (\<not> deleting s \<and> joiners s = Map.empty)"
| "allowed (Start i) s = worker_is i Starting s"
| "allowed (Wake i) s = worker_is i Woken s"
| "allowed (Finish i t) s = worker_is i (Running t) s"
| "allowed (Spurious i) s = worker_is i Waiting s"

definition started_pool :: "pool \<Rightarrow> bool" where
  "started_pool s \<longleftrightarrow> (\<exists>k. thread_pool_new k = (0, Some s))"

definition pool_step :: "pool \<Rightarrow> pool \<Rightarrow> bool" where
  "pool_step s s' \<longleftrightarrow> (\<exists>op. allowed op s \<and> run_op op s = Some s')"

text \<open>A run of given operations.\<close>

fun run_ops :: "pool_op list \<Rightarrow> pool \<Rightarrow> pool option" where
  "run_ops [] s = Some s"
| "run_ops (op # ops) s = (if allowed op s then run_op op s \<bind> run_ops ops else None)"

lemma owned_core: "owned t s \<Longrightarrow> \<exists>n. core s t = Some n \<and> \<not> scheduled_for_deletion n"
  by (auto simp: owned_def core_def split: option.splits)

lemma in_pool_core: "core s t = Some n \<Longrightarrow> in_pool_now t s \<longleftrightarrow> parent_pool n"
  by (auto simp: in_pool_now_def core_def split: option.splits)

text \<open>A task that a thread waits for in a join is in the pool and not detached.\<close>

definition joiners_ok :: "pool \<Rightarrow> bool" where
  "joiners_ok s \<longleftrightarrow> (\<forall>t. joiners s t \<noteq> None \<longrightarrow>
     (\<exists>n. core s t = Some n \<and> parent_pool n \<and> \<not> scheduled_for_deletion n))"

definition system_inv :: "pool \<Rightarrow> bool" where
  "system_inv s \<longleftrightarrow> pool_inv s \<and> joiners_ok s"

lemma joiners_ok_keep:
  assumes "joiners_ok s" "joiners s' = joiners s"
    "\<And>t n. joiners s t \<noteq> None \<Longrightarrow> core s t = Some n \<Longrightarrow> parent_pool n \<Longrightarrow> \<not> scheduled_for_deletion n \<Longrightarrow>
      \<exists>m. core s' t = Some m \<and> parent_pool m \<and> \<not> scheduled_for_deletion m"
  shows "joiners_ok s'"
  using assms unfolding joiners_ok_def by metis

lemma swap_joiners: "swap_tasks_in_pool a b s = Some s' \<Longrightarrow> joiners s' = joiners s"
  by (auto simp: swap_tasks_in_pool_def set_cell_def set_task_def bind_eq_Some_conv Let_def split: if_splits)

lemma leave_joiners: "thread_task_join_no_lock t s = Some s' \<Longrightarrow> joiners s' = joiners s"
  by (auto simp: thread_task_join_no_lock_def set_task_def bind_eq_Some_conv Let_def dest!: swap_joiners)

lemma delete_joiners: "thread_task_delete t s = Some (r, s') \<Longrightarrow> joiners s' = joiners s"
  by (auto simp: thread_task_delete_def bind_eq_Some_conv split: if_splits)

lemma detach_joiners: "thread_task_detach t s = Some (r, s') \<Longrightarrow> joiners s' = joiners s"
  by (auto simp: thread_task_detach_def set_task_def bind_eq_Some_conv split: if_splits dest!: leave_joiners delete_joiners)

lemma push_joiners: "thread_pool_push_task t w s = Some (r, s') \<Longrightarrow> joiners s' = joiners s"
  by (auto simp: thread_pool_push_task_def set_task_def set_cell_def signal_worker_def set_worker_def bind_eq_Some_conv Let_def
      split: if_splits option.splits dest!: swap_joiners)

lemma start_joiners: "worker_start i s = Some s' \<Longrightarrow> joiners s' = joiners s"
  by (auto simp: worker_start_def take_task_def set_task_def set_worker_def bind_eq_Some_conv Let_def
      split: if_splits dest!: swap_joiners)

lemma wake_joiners: "worker_wake i s = Some s' \<Longrightarrow> joiners s' = joiners s"
  by (auto simp: worker_wake_def set_worker_def split: if_splits dest: start_joiners)

lemma finish_joiners: "worker_finish i t s = Some s' \<Longrightarrow> joiners s' = joiners s"
  by (auto simp: worker_finish_def set_task_def set_worker_def bind_eq_Some_conv Let_def
      split: if_splits dest!: leave_joiners delete_joiners)

lemmas keeps_joiners = detach_joiners push_joiners wake_joiners finish_joiners start_joiners delete_joiners

text \<open>Every way a join ends or waits.\<close>

definition join_result :: "ptr \<Rightarrow> thread_task \<Rightarrow> pool \<Rightarrow> join_outcome \<times> pool \<Rightarrow> bool" where
  "join_result t n s rs \<longleftrightarrow> pool_inv (snd rs) \<and> joiners (snd rs) = joiners s \<and>
     (case fst rs of Returns r v \<Rightarrow> (\<forall>x. x \<noteq> t \<longrightarrow> core (snd rs) x = core s x)
      | _ \<Rightarrow> snd rs = s \<and> parent_pool n)"

lemma join_locked_inv:
  assumes inv: "pool_inv s" and n: "core s t = Some n" "parent_pool n"
  shows "\<exists>rs. thread_task_join_locked t s = Some rs \<and> join_result t n s rs"
proof -
  obtain m where m: "task_heap s t = Some m" "n = m\<lparr>index_in_parent_pool := 0\<rparr>" using core_heap [OF n(1)] by blast
  show ?thesis
  proof (cases "finished n")
    case True
    then obtain s' where s': "thread_task_join_no_lock t s = Some s'" "pool_inv s'" "leaves_pool t (Some (n\<lparr>parent_pool := False, assigned := False\<rparr>)) s s'"
      using join_no_lock_inv [OF inv n] by blast
    then show ?thesis using m True leave_joiners [OF s'(1)]
      by (simp add: thread_task_join_locked_def join_result_def leaves_pool_def)
  next
    case False
    then show ?thesis using m inv n by (simp add: thread_task_join_locked_def join_result_def)
  qed
qed

lemma timed_locked_inv:
  assumes inv: "pool_inv s" and n: "core s t = Some n" "parent_pool n"
  shows "\<exists>rs. thread_task_timed_join_locked t d s = Some rs \<and> join_result t n s rs"
proof -
  obtain m where m: "task_heap s t = Some m" using core_heap [OF n(1)] by blast
  show ?thesis using m join_locked_inv [OF assms] inv n
    by (cases "finished m") (auto simp: timed_join_locked_as_join join_result_def)
qed

lemma deadline_defined:
  assumes "clock_time now" "long_ok (ms * nsec_in_millisecond)"
  shows "\<exists>a b d. now_as_timespec now = Some a \<and> pool_milliseconds_to_timespec ms = Some b \<and> pool_add_timespec a b = Some d"
proof -
  define x where "x = ms * nsec_in_millisecond"
  have x: "- (2 ^ 63) \<le> x" "x < 2 ^ 63" using assms(2) by (auto simp: x_def long_ok_def)
  have q: "- 10000000000 \<le> x sdiv nsec_in_sec \<and> x sdiv nsec_in_sec \<le> 10000000000 \<and>
      - nsec_in_sec < x smod nsec_in_sec \<and> x smod nsec_in_sec < nsec_in_sec"
  proof (cases "0 \<le> x")
    case True
    then show ?thesis using smod_bounds_nonneg [OF True, of nsec_in_sec] x by (simp add: nsec_in_sec_def) linarith
  next
    case False
    then have "x sdiv nsec_in_sec = - ((- x) div nsec_in_sec)" "x smod nsec_in_sec = - ((- x) mod nsec_in_sec)"
      by (auto simp: signed_divide_int_def signed_modulo_int_def nsec_in_sec_def sgn_if)
    moreover have "(- x) div nsec_in_sec \<le> 10000000000" "0 \<le> (- x) div nsec_in_sec"
      "0 \<le> (- x) mod nsec_in_sec" "(- x) mod nsec_in_sec < nsec_in_sec"
      using False x by (auto simp: nsec_in_sec_def)
    ultimately show ?thesis by (auto simp: nsec_in_sec_def)
  qed
  have a: "now_as_timespec now = Some \<lparr>tv_sec = fst now, tv_nsec = snd now * 1000\<rparr>"
    using assms(1) by (simp add: now_as_timespec_def clock_time_def nsec_in_microsecond_def long_ok_def)
  have b: "pool_milliseconds_to_timespec ms = Some \<lparr>tv_sec = x sdiv nsec_in_sec, tv_nsec = x smod nsec_in_sec\<rparr>"
    using assms(2) by (simp add: pool_milliseconds_to_timespec_def x_def)
  have "\<exists>d. pool_add_timespec \<lparr>tv_sec = fst now, tv_nsec = snd now * 1000\<rparr> \<lparr>tv_sec = x sdiv nsec_in_sec, tv_nsec = x smod nsec_in_sec\<rparr> = Some d"
    using assms(1) q by (auto simp: pool_add_timespec_def clock_time_def nsec_in_sec_def long_ok_def)
  then show ?thesis using a b by blast
qed

lemma join_call_inv:
  assumes inv: "pool_inv s" and n: "core s t = Some n"
  shows "\<exists>rs. thread_task_join t s = Some rs \<and> join_result t n s rs"
proof -
  obtain m where m: "task_heap s t = Some m" "n = m\<lparr>index_in_parent_pool := 0\<rparr>" using core_heap [OF n] by blast
  show ?thesis using m join_locked_inv [OF inv n] inv
    by (cases "parent_pool n") (auto simp: thread_task_join_def join_result_def)
qed

lemma timed_join_call_inv:
  assumes inv: "pool_inv s" and n: "core s t = Some n" and ms: "clock_time now" "long_ok (ms * nsec_in_millisecond)"
  shows "\<exists>rs. thread_task_timed_join t now ms s = Some rs \<and> join_result t n s rs"
proof -
  obtain m where m: "task_heap s t = Some m" "n = m\<lparr>index_in_parent_pool := 0\<rparr>" using core_heap [OF n] by blast
  obtain a b d where d: "now_as_timespec now = Some a" "pool_milliseconds_to_timespec ms = Some b" "pool_add_timespec a b = Some d"
    using deadline_defined [OF ms] by blast
  show ?thesis using m d timed_locked_inv [OF inv n, of d] inv
    by (cases "parent_pool n") (auto simp: thread_task_timed_join_def join_result_def)
qed

lemma join_outcome_inv:
  assumes sys: "system_inv s" and n: "core s t = Some n" "\<not> scheduled_for_deletion n" and r: "join_result t n s rs"
  shows "system_inv (join_outcome_at t rs)"
proof -
  obtain r s' where rs: "rs = (r, s')" by (cases rs)
  have inv: "pool_inv s'" and j: "joiners s' = joiners s" using r rs by (auto simp: join_result_def)
  have ok: "joiners_ok s" using sys by (simp add: system_inv_def)
  show ?thesis
  proof (cases r)
    case (Returns x v)
    then have "\<forall>y. y \<noteq> t \<longrightarrow> core s' y = core s y" using r rs by (auto simp: join_result_def)
    then show ?thesis using inv ok j Returns rs
      by (auto simp: system_inv_def joiners_ok_def join_outcome_at_def)
  qed (use r rs ok n inv in \<open>auto simp: system_inv_def joiners_ok_def join_outcome_at_def join_result_def\<close>)
qed

lemma push_inv:
  assumes sys: "system_inv s" and al: "allowed (Push t w) s"
  shows "\<exists>r s'. thread_pool_push_task t w s = Some (r, s') \<and> system_inv s'"
proof -
  have inv: "pool_inv s" and ok: "joiners_ok s" using sys by (auto simp: system_inv_def)
  obtain n where n: "core s t = Some n" "\<not> scheduled_for_deletion n" using owned_core al by fastforce
  show ?thesis
  proof (cases "pushed_tasks_count s < TPOOL_MAX_TASKS")
    case True
    obtain s' where s': "thread_pool_push_task t w s = Some (0, s')" "pool_inv s'"
        "core s' = (core s)(t \<mapsto> n\<lparr>finished := False, assigned := False, parent_pool := True\<rparr>)"
      using thread_pool_push_task_inv [OF inv n(1) _ n(2) _ _ True] al in_pool_core [OF n(1)] by fastforce
    have "joiners_ok s'" by (rule joiners_ok_keep [OF ok push_joiners [OF s'(1)]]) (use s'(3) n in auto)
    then show ?thesis using s' by (auto simp: system_inv_def)
  next
    case False
    then show ?thesis using sys by (simp add: thread_pool_push_task_def)
  qed
qed

lemma detach_inv:
  assumes sys: "system_inv s" and al: "allowed (Detach t) s"
  shows "\<exists>r s'. thread_task_detach t s = Some (r, s') \<and> system_inv s'"
proof -
  have inv: "pool_inv s" and ok: "joiners_ok s" using sys by (auto simp: system_inv_def)
  obtain n where n: "core s t = Some n" using owned_core al by fastforce
  from thread_task_detach_inv [OF inv n] obtain r s' where s': "thread_task_detach t s = Some (r, s')" "pool_inv s'"
    and e: "s' = s \<or> (\<exists>v. core s' = (core s)(t := v))" by (auto simp: leaves_pool_def split: if_splits)
  have "joiners_ok s'" by (rule joiners_ok_keep [OF ok detach_joiners [OF s'(1)]]) (use e al in auto)
  then show ?thesis using s' by (auto simp: system_inv_def)
qed

lemma delete_task_inv:
  assumes sys: "system_inv s" and al: "allowed (Delete_task t) s"
  shows "\<exists>r s'. thread_task_delete t s = Some (r, s') \<and> system_inv s'"
proof -
  have inv: "pool_inv s" and ok: "joiners_ok s" using sys by (auto simp: system_inv_def)
  obtain n where n: "core s t = Some n" using owned_core al by fastforce
  from thread_task_delete_inv [OF inv n] obtain r s' where s': "thread_task_delete t s = Some (r, s')" "pool_inv s'"
    and e: "s' = s \<or> \<not> parent_pool n \<and> core s' = (core s)(t := None)" by (auto split: if_splits)
  have "joiners_ok s'" by (rule joiners_ok_keep [OF ok delete_joiners [OF s'(1)]]) (use e n in auto)
  then show ?thesis using s' by (auto simp: system_inv_def)
qed

lemma takes_one_joiners:
  assumes "joiners_ok s" "joiners s' = joiners s" "takes_one (core s) (core s')"
  shows "joiners_ok s'"
  by (rule joiners_ok_keep [OF assms(1,2)]) (use assms(3) in \<open>auto simp: takes_one_def\<close>)

lemma worker_op_inv:
  assumes sys: "system_inv s" and al: "allowed op s" and op: "op = Start i \<or> op = Wake i"
  shows "\<exists>s'. run_op op s = Some s' \<and> system_inv s' \<and> takes_one (core s) (core s')"
proof -
  have inv: "pool_inv s" and ok: "joiners_ok s" using sys by (auto simp: system_inv_def)
  have i: "i < length (workers s)" "\<And>t. workers s ! i \<noteq> Running t" using al op by (auto simp: worker_is_def)
  obtain s' where s': "run_op op s = Some s'" "pool_inv s'" "takes_one (core s) (core s')"
    using worker_start_inv [OF inv i] worker_wake_inv [OF inv i] op by auto
  moreover have "joiners s' = joiners s" using op s'(1) by (auto dest: keeps_joiners)
  ultimately show ?thesis using takes_one_joiners [OF ok] by (auto simp: system_inv_def)
qed

lemma finish_op_inv:
  assumes sys: "system_inv s" and al: "allowed (Finish i t) s"
  shows "\<exists>s' n. worker_finish i t s = Some s' \<and> system_inv s' \<and> core s t = Some n \<and> core s' = (core s)(t :=
    (if scheduled_for_deletion n then None
     else Some (n\<lparr>task_result := Some (task_function n (task_arg n)), finished := True\<rparr>)))"
proof -
  have inv: "pool_inv s" and ok: "joiners_ok s" using sys by (auto simp: system_inv_def)
  from worker_finish_inv [OF inv, of i t] al obtain s' n where s': "worker_finish i t s = Some s'" "pool_inv s'" "core s t = Some n"
    "core s' = (core s)(t := (if scheduled_for_deletion n then None
     else Some (n\<lparr>task_result := Some (task_function n (task_arg n)), finished := True\<rparr>)))" by (auto simp: worker_is_def)
  have "joiners_ok s'" by (rule joiners_ok_keep [OF ok finish_joiners [OF s'(1)]]) (use s'(3,4) in auto)
  then show ?thesis using s' by (auto simp: system_inv_def)
qed

lemma owned_joiner:
  assumes "joiners_ok s" "joiners s t \<noteq> None"
  obtains n where "core s t = Some n" "parent_pool n" "\<not> scheduled_for_deletion n"
  using assms by (auto simp: joiners_ok_def)

lemma timed_wakes_inv:
  assumes sys: "system_inv s" and d: "joiners s t = Some (Some d)"
  shows "\<exists>rs. timed_wait_returns t d timed_out s = Some rs \<and> system_inv (join_outcome_at t rs)"
proof -
  have inv: "pool_inv s" and ok: "joiners_ok s" using sys by (auto simp: system_inv_def)
  obtain n where n: "core s t = Some n" "parent_pool n" "\<not> scheduled_for_deletion n" using owned_joiner [OF ok, of t] d by auto
  have "\<exists>rs. timed_wait_returns t d timed_out s = Some rs \<and> join_result t n s rs"
    using timed_locked_inv [OF inv n(1,2), of d] inv by (auto simp: timed_wait_returns_def join_result_def)
  then show ?thesis using join_outcome_inv [OF sys n(1,3)] by blast
qed

lemma run_op_inv:
  assumes sys: "system_inv s" and al: "allowed op s"
  shows "\<exists>s'. run_op op s = Some s' \<and> system_inv s'"
proof -
  have inv: "pool_inv s" and ok: "joiners_ok s" using sys by (auto simp: system_inv_def)
  show ?thesis
  proof (cases op)
    case (New_task t f arg)
    then have new: "core s t = None" using al by (simp add: core_def)
    have "joiners_ok (thread_task_new t f arg s)"
      by (rule joiners_ok_keep [OF ok]) (use new in \<open>auto simp: thread_task_new_def core_def\<close>)
    then show ?thesis using New_task thread_task_new_inv [OF inv new] by (simp add: system_inv_def)
  next
    case (Push t w)
    then show ?thesis using push_inv [OF sys, of t w] al by auto
  next
    case (Join t)
    then obtain n where n: "core s t = Some n" "\<not> scheduled_for_deletion n" using owned_core al by fastforce
    from join_call_inv [OF inv n(1)] show ?thesis using Join join_outcome_inv [OF sys n] by auto
  next
    case (Timed_join t now ms)
    then obtain n where n: "core s t = Some n" "\<not> scheduled_for_deletion n" using owned_core al by fastforce
    from timed_join_call_inv [OF inv n(1), of now ms] show ?thesis using Timed_join al join_outcome_inv [OF sys n] by auto
  next
    case (Join_wakes t)
    then obtain n where n: "core s t = Some n" "parent_pool n" "\<not> scheduled_for_deletion n"
      using owned_joiner [OF ok, of t] al by auto
    from join_locked_inv [OF inv n(1,2)] show ?thesis using Join_wakes join_outcome_inv [OF sys n(1,3)] by auto
  next
    case (Timed_join_wakes t timed_out)
    then obtain d where d: "joiners s t = Some (Some d)" using al by auto
    show ?thesis using Timed_join_wakes d timed_wakes_inv [OF sys d, of timed_out] by auto
  next
    case (Detach t)
    then show ?thesis using detach_inv [OF sys, of t] al by auto
  next
    case (Delete_task t)
    then show ?thesis using delete_task_inv [OF sys, of t] al by auto
  next
    case Delete_pool
    then have "joiners (snd (thread_pool_delete s)) = Map.empty" using al by (simp add: thread_pool_delete_def)
    then show ?thesis using Delete_pool thread_pool_delete_inv [OF inv] by (simp add: system_inv_def joiners_ok_def)
  next
    case (Start i)
    then show ?thesis using worker_op_inv [OF sys al, of i] by blast
  next
    case (Wake i)
    then show ?thesis using worker_op_inv [OF sys al, of i] by blast
  next
    case (Finish i t)
    then show ?thesis using finish_op_inv [OF sys, of i t] al by auto
  next
    case (Spurious i)
    have "joiners_ok (set_worker i Woken s)"
      by (rule joiners_ok_keep [OF ok]) (simp add: set_worker_def, simp)
    then show ?thesis using Spurious spurious_inv [OF inv, of i] al by (simp add: worker_is_def system_inv_def)
  qed
qed

interpretation pool_system: invariant_system started_pool pool_step system_inv
proof
  fix s assume "started_pool s"
  moreover from this have "joiners s = Map.empty" by (auto simp: started_pool_def thread_pool_new_def split: if_splits)
  ultimately show "system_inv s"
    using thread_pool_new_inv by (auto simp: started_pool_def system_inv_def joiners_ok_def)
next
  fix s s' assume "system_inv s" "pool_step s s'"
  then show "system_inv s'" using run_op_inv [of s] by (fastforce simp: pool_step_def)
qed

lemma reachable_inv: "reachable started_pool pool_step s \<Longrightarrow> pool_inv s"
  using pool_system.reachable_has_inv by (auto simp: system_inv_def)

lemma run_ops_reachable:
  "run_ops ops s = Some s' \<Longrightarrow> reachable started_pool pool_step s \<Longrightarrow> reachable started_pool pool_step s'"
proof (induction ops arbitrary: s)
  case (Cons op ops)
  then obtain s1 where s1: "allowed op s" "run_op op s = Some s1" "run_ops ops s1 = Some s'"
    by (auto simp: bind_eq_Some_conv split: if_splits)
  then have "pool_step s s1" by (auto simp: pool_step_def)
  then have "reachable started_pool pool_step s1" by (rule reach_step [OF Cons.prems(2)])
  then show ?case using Cons.IH s1(3) by blast
qed simp

section \<open>What the workers do by themselves\<close>

fun by_worker :: "pool_op \<Rightarrow> bool" where
  "by_worker (Start i) = True"
| "by_worker (Wake i) = True"
| "by_worker (Finish i t) = True"
| "by_worker _ = False"

fun weight :: "worker \<Rightarrow> nat" where
  "weight Starting = 1"
| "weight Woken = 1"
| "weight (Running t) = 2"
| "weight _ = 0"

text \<open>An upper bound for the steps that the workers can still do.\<close>

definition work_left :: "pool \<Rightarrow> nat" where
  "work_left s = 3 * nat (unassigned_tasks_count s) + sum_list (map weight (workers s))"

lemma swap_keeps:
  assumes "swap_tasks_in_pool a b s = Some s'"
  shows "workers s' = workers s \<and> unassigned_tasks_count s' = unassigned_tasks_count s"
  using assms by (auto simp: swap_tasks_in_pool_def set_cell_def set_task_def bind_eq_Some_conv Let_def split: if_splits)

lemma take_task_effect:
  assumes "take_task i s = Some s'"
  shows "\<exists>t. workers s' = (workers s)[i := Running t] \<and> unassigned_tasks_count s' = unassigned_tasks_count s - 1"
  using assms by (auto simp: take_task_def set_task_def set_worker_def bind_eq_Some_conv Let_def dest!: swap_keeps)

lemma join_keeps:
  assumes "thread_task_join_no_lock t s = Some s'"
  shows "workers s' = workers s \<and> unassigned_tasks_count s' = unassigned_tasks_count s"
  using assms by (auto simp: thread_task_join_no_lock_def set_task_def bind_eq_Some_conv Let_def dest!: swap_keeps)

lemma delete_keeps:
  assumes "thread_task_delete t s = Some (r, s')"
  shows "workers s' = workers s \<and> unassigned_tasks_count s' = unassigned_tasks_count s"
  using assms by (auto simp: thread_task_delete_def bind_eq_Some_conv split: if_splits)

lemma finish_effect:
  assumes "worker_finish i t s = Some s'"
  shows "workers s' = (workers s)[i := Starting] \<and> unassigned_tasks_count s' = unassigned_tasks_count s"
  using assms by (auto simp: worker_finish_def set_task_def set_worker_def bind_eq_Some_conv Let_def
      dest!: join_keeps delete_keeps split: if_splits)

lemma weight_update:
  "i < length ws \<Longrightarrow> sum_list (map weight (ws[i := w])) + weight (ws ! i) = sum_list (map weight ws) + weight w"
  by (induction ws arbitrary: i) (auto simp: nth_Cons' list_update.simps split: nat.splits)

lemma weight_sum: "sum_list (map weight ws) \<le> 2 * length ws"
proof (induction ws)
  case (Cons w ws)
  then show ?case by (cases w) auto
qed simp

lemma worker_start_less:
  assumes run: "worker_start i s = Some s'" and i: "i < length (workers s)" "weight (workers s ! i) = 1"
    and U: "0 \<le> unassigned_tasks_count s"
  shows "work_left s' < work_left s"
proof (cases "unassigned_tasks_count s = 0")
  case True
  then show ?thesis using run i weight_update [OF i(1), of Waiting] by (auto simp: worker_start_def work_left_def set_worker_def)
next
  case False
  then obtain t where "workers s' = (workers s)[i := Running t]" "unassigned_tasks_count s' = unassigned_tasks_count s - 1"
    using take_task_effect [of i s s'] run by (auto simp: worker_start_def)
  then show ?thesis using i weight_update [OF i(1), of "Running t"] U False by (simp add: work_left_def)
qed

lemma worker_op_less:
  assumes "by_worker op" "allowed op s" "run_op op s = Some s'" "0 \<le> unassigned_tasks_count s"
  shows "work_left s' < work_left s"
proof (cases op)
  case (Start i)
  then show ?thesis using worker_start_less [of i s s'] assms by (simp add: worker_is_def)
next
  case (Wake i)
  then show ?thesis using worker_start_less [of i s s'] assms weight_update [of i "workers s" Stopped]
    by (auto simp: worker_is_def worker_wake_def work_left_def set_worker_def split: if_splits)
next
  case (Finish i t)
  then show ?thesis using finish_effect [of i t s s'] assms weight_update [of i "workers s" Starting]
    by (auto simp: worker_is_def work_left_def)
qed (use assms in auto)

lemma inv_unassigned: "pool_inv s \<Longrightarrow> 0 \<le> unassigned_tasks_count s"
  by (auto simp: pool_inv_def pool_inv_at_def)

text \<open>
  What the workers can do to the tasks: a detached task in the pool may be deleted, every other one
  stays where it is, with its function and its argument.
\<close>

definition workers_kept :: "(ptr \<Rightarrow> thread_task option) \<Rightarrow> (ptr \<Rightarrow> thread_task option) \<Rightarrow> bool" where
  "workers_kept c c' \<longleftrightarrow> (\<forall>t n. c t = Some n \<longrightarrow>
     c' t = None \<and> parent_pool n \<and> scheduled_for_deletion n \<or>
     (\<exists>m. c' t = Some m \<and> parent_pool m = parent_pool n \<and> scheduled_for_deletion m = scheduled_for_deletion n \<and>
        task_function m = task_function n \<and> task_arg m = task_arg n)) \<and>
   (\<forall>t. c t = None \<longrightarrow> c' t = None)"

lemma workers_kept_refl [simp]: "workers_kept c c"
  by (auto simp: workers_kept_def)

lemma workers_kept_trans: "workers_kept c c' \<Longrightarrow> workers_kept c' c'' \<Longrightarrow> workers_kept c c''"
  unfolding workers_kept_def by (smt (verit))

lemma takes_one_kept:
  assumes "takes_one c c'"
  shows "workers_kept c c'"
proof (cases "c' = c")
  case False
  then obtain t n where c': "c t = Some n" "c' = c(t \<mapsto> n\<lparr>assigned := True\<rparr>)" using assms by (auto simp: takes_one_def)
  have "\<exists>m. c' x = Some m \<and> parent_pool m = parent_pool k \<and> scheduled_for_deletion m = scheduled_for_deletion k \<and>
        task_function m = task_function k \<and> task_arg m = task_arg k" if "c x = Some k" for x k
    using that c' by (cases "x = t") auto
  then show ?thesis using c' by (auto simp: workers_kept_def)
qed simp

lemma worker_op_kept:
  assumes sys: "system_inv s" and op: "by_worker op" "allowed op s" "run_op op s = Some s'"
  shows "workers_kept (core s) (core s')"
proof (cases op)
  case (Start i)
  then show ?thesis using worker_op_inv [OF sys op(2), of i] op(3) takes_one_kept by auto
next
  case (Wake i)
  then show ?thesis using worker_op_inv [OF sys op(2), of i] op(3) takes_one_kept by auto
next
  case (Finish i t)
  then obtain n where n: "core s t = Some n" "core s' = (core s)(t := (if scheduled_for_deletion n then None
     else Some (n\<lparr>task_result := Some (task_function n (task_arg n)), finished := True\<rparr>)))"
    using finish_op_inv [OF sys, of i t] op by auto
  obtain qs u where "tasks_ok qs (core s) u" using sys by (auto simp: system_inv_def pool_inv_def pool_inv_at_def)
  then have "scheduled_for_deletion n \<Longrightarrow> parent_pool n" using n(1) unfolding tasks_ok_def by blast
  then show ?thesis using n by (auto simp: workers_kept_def)
qed (use op in auto)

lemma worker_run_bounded:
  assumes "run_ops ops s = Some s'" "list_all by_worker ops" "system_inv s"
  shows "length ops + work_left s' \<le> work_left s \<and> system_inv s' \<and> workers_kept (core s) (core s')"
  using assms
proof (induction ops arbitrary: s)
  case (Cons op ops)
  then obtain s1 where s1: "allowed op s" "run_op op s = Some s1" "run_ops ops s1 = Some s'"
    by (auto simp: bind_eq_Some_conv split: if_splits)
  then have "system_inv s1" using run_op_inv [OF Cons.prems(3) s1(1)] by auto
  moreover have "work_left s1 < work_left s"
    using worker_op_less s1 Cons.prems inv_unassigned by (auto simp: system_inv_def)
  moreover have "workers_kept (core s) (core s1)" using worker_op_kept [OF Cons.prems(3) _ s1(1,2)] Cons.prems(2) by simp
  ultimately show ?case using Cons.IH [OF s1(3)] Cons.prems(2) workers_kept_trans by fastforce
qed simp

lemma idle_workers_done:
  assumes inv: "pool_inv s" and idle: "\<And>op. by_worker op \<Longrightarrow> \<not> allowed op s" and n: "core s t = Some n" "parent_pool n"
  shows "finished n \<and> \<not> scheduled_for_deletion n"
proof -
  obtain qs u where at: "pool_inv_at qs u s" using inv by (auto simp: pool_inv_def)
  then have ok: "tasks_ok qs (core s) u" and wk: "workers_ok (core s) (workers s)" and th: "threads_ok s u"
    by (auto simp: pool_inv_at_def)
  have asleep: "\<not> awake w" if w: "w \<in> set (workers s)" for w
  proof -
    obtain i where i: "worker_is i w s" using w by (auto simp: worker_is_def in_set_conv_nth)
    show ?thesis using i idle [of "Start i"] idle [of "Wake i"] idle [of "Finish i _"] by (cases w) (auto simp: awake_def)
  qed
  then have u: "u = 0" using th by (auto simp: threads_ok_def)
  obtain k where k: "k < length qs" "qs ! k = t" using ok n unfolding tasks_ok_def by (metis in_set_conv_nth)
  then have "assigned n" using ok n u unfolding tasks_ok_def by blast
  moreover have "Running t \<notin> set (workers s)" using asleep [of "Running t"] by (auto simp: awake_def)
  ultimately have "finished n" using wk n unfolding workers_ok_def in_progress_def by blast
  then show ?thesis using ok n(1) unfolding tasks_ok_def by blast
qed

section \<open>Counting\<close>

lemma card_prefix:
  assumes ok: "tasks_ok qs c u" and d: "distinct qs"
  shows "card {t. \<exists>n. c t = Some n \<and> parent_pool n \<and> \<not> assigned n} = u"
proof -
  have asg: "\<And>i n. i < length qs \<Longrightarrow> c (qs ! i) = Some n \<Longrightarrow> assigned n \<longleftrightarrow> u \<le> i" and u: "u \<le> length qs"
    and par: "\<And>t n. c t = Some n \<Longrightarrow> parent_pool n \<longleftrightarrow> t \<in> set qs" and def: "\<And>t. t \<in> set qs \<Longrightarrow> c t \<noteq> None"
    using ok by (auto simp: tasks_ok_def)
  have "{t. \<exists>n. c t = Some n \<and> parent_pool n \<and> \<not> assigned n} = set (take u qs)"
  proof (intro set_eqI iffI)
    fix t assume "t \<in> {t. \<exists>n. c t = Some n \<and> parent_pool n \<and> \<not> assigned n}"
    then obtain n where n: "c t = Some n" "parent_pool n" "\<not> assigned n" by blast
    then obtain i where i: "i < length qs" "qs ! i = t" using par by (metis in_set_conv_nth)
    then show "t \<in> set (take u qs)" using asg [OF i(1)] n by (auto simp: in_set_conv_nth)
  next
    fix t assume "t \<in> set (take u qs)"
    then obtain i where i: "i < u" "i < length qs" "qs ! i = t" by (auto simp: in_set_conv_nth)
    then obtain n where n: "c t = Some n" using def by (metis not_None_eq nth_mem)
    then show "t \<in> {t. \<exists>n. c t = Some n \<and> parent_pool n \<and> \<not> assigned n}"
      using asg [OF i(2)] par i by auto
  qed
  moreover have "card (set (take u qs)) = u" using d u by (simp add: distinct_card)
  ultimately show ?thesis by simp
qed

lemma card_running:
  assumes wk: "workers_ok c ws"
  shows "card {t. in_progress c t} = card (running_at ws)"
proof -
  define task where "task i = (case ws ! i of Running t \<Rightarrow> t | _ \<Rightarrow> 0)" for i
  have "inj_on task (running_at ws)"
  proof (rule inj_onI)
    fix i j assume i: "i \<in> running_at ws" and j: "j \<in> running_at ws" and e: "task i = task j"
    obtain t where t: "ws ! i = Running t" "i < length ws" using i by (auto simp: running_at_def)
    obtain u where u: "ws ! j = Running u" "j < length ws" using j by (auto simp: running_at_def)
    have "t = u" using e t u by (simp add: task_def)
    then show "i = j" using wk t u unfolding workers_ok_def by blast
  qed
  moreover have "task ` running_at ws = {t. Running t \<in> set ws}"
    by (force simp: task_def running_at_def in_set_conv_nth)
  ultimately show ?thesis using wk by (metis (no_types, lifting) Collect_cong card_image workers_ok_def)
qed

lemma running_core: "thread_task_is_running t s = Some True \<longleftrightarrow> in_progress (core s) t"
  by (cases "task_heap s t") (auto simp: thread_task_is_running_def in_progress_def core_def)

lemma in_pool_set:
  assumes "tasks_ok qs (core s) u"
  shows "in_pool_now t s \<longleftrightarrow> t \<in> set qs"
proof (cases "core s t")
  case None
  then show ?thesis using assms by (auto simp: tasks_ok_def in_pool_now_def core_def)
next
  case (Some n)
  then show ?thesis using assms in_pool_core by (auto simp: tasks_ok_def)
qed

lemma one_worker:
  assumes wk: "workers_ok (core s) (workers s)"
  shows "(thread_task_is_running t s = Some True \<longleftrightarrow> (\<exists>!i. worker_is i (Running t) s)) \<and>
    (worker_is i (Running t) s \<longrightarrow> thread_task_is_running t s = Some True)"
  using wk unfolding running_core workers_ok_def worker_is_def by (metis in_set_conv_nth)

lemma core_unfinished:
  "(\<exists>t n. core s t = Some n \<and> parent_pool n \<and> \<not> finished n) \<longleftrightarrow>
   (\<exists>t n. task_heap s t = Some n \<and> parent_pool n \<and> \<not> finished n)"
proof
  assume "\<exists>t n. core s t = Some n \<and> parent_pool n \<and> \<not> finished n"
  then obtain t n where "core s t = Some n" "parent_pool n" "\<not> finished n" by blast
  moreover then obtain m where "task_heap s t = Some m" "n = m\<lparr>index_in_parent_pool := 0\<rparr>" using core_heap by blast
  ultimately show "\<exists>t n. task_heap s t = Some n \<and> parent_pool n \<and> \<not> finished n" by auto
next
  assume "\<exists>t n. task_heap s t = Some n \<and> parent_pool n \<and> \<not> finished n"
  then obtain t n where n: "task_heap s t = Some n" "parent_pool n" "\<not> finished n" by blast
  then have "core s t = Some (n\<lparr>index_in_parent_pool := 0\<rparr>)" by (simp add: core_def)
  then show "\<exists>t n. core s t = Some n \<and> parent_pool n \<and> \<not> finished n"
    using n by (intro exI [of _ t] exI [of _ "n\<lparr>index_in_parent_pool := 0\<rparr>"]) simp
qed

section \<open>Properties\<close>

definition demo_pool :: "pool_op list \<Rightarrow> pool option" where
  "demo_pool ops = snd (thread_pool_new 2) \<bind> run_ops ops"

lemma demo_reachable:
  assumes "demo_pool ops = Some s"
  shows "reachable started_pool pool_step s"
proof -
  obtain p where p: "thread_pool_new 2 = (0, Some p)" by (simp add: thread_pool_new_def TPOOL_MAX_THREADS_def)
  then have "reachable started_pool pool_step p" by (intro reach_start) (auto simp: started_pool_def)
  then show ?thesis using run_ops_reachable [of ops p s] assms p by (simp add: demo_pool_def)
qed

lemmas pool_eval = demo_pool_def thread_pool_new_def tpool_codes thread_task_new_def thread_pool_push_task_def
  set_task_def set_cell_def get_cell_def signal_worker_def set_worker_def swap_tasks_in_pool_def
  worker_start_def worker_wake_def take_task_def worker_finish_def thread_task_join_no_lock_def thread_task_delete_def
  thread_pool_delete_def thread_task_join_def thread_task_join_locked_def thread_task_detach_def
  owned_def in_pool_now_def worker_is_def may_wake_def join_outcome_at_def Let_def

definition double :: "int \<Rightarrow> int" where "double x = 2 * x"

lemma demo_finished:
  "\<exists>s. demo_pool [New_task 0 double 21, Push 0 None, Start 0, Finish 0 0] = Some s \<and>
     allowed (Join 0) s \<and> workers s = [Starting] \<and>
     task_heap s 0 = Some \<lparr>task_function = double, task_arg = 21, task_result = Some 42, finished = True, assigned = True,
       scheduled_for_deletion = False, parent_pool = True, index_in_parent_pool = 0\<rparr>"
  by (simp add: pool_eval double_def)



text \<open>Two threads that wait for the same task: the first takes it out of the pool, and the second, which
  goes on behind its wait, uses the null pointer to the pool.\<close>

theorem second_join_undefined:
  assumes "reachable started_pool pool_step s" "core s t = Some n" "parent_pool n" "finished n"
  shows "\<exists>v s'. thread_task_join_locked t s = Some (Returns 0 v, s') \<and> thread_task_join_locked t s' = None"
proof -
  obtain s' where s': "thread_task_join_no_lock t s = Some s'" "leaves_pool t (Some (n\<lparr>parent_pool := False, assigned := False\<rparr>)) s s'"
    using join_no_lock_inv [OF reachable_inv [OF assms(1)] assms(2-4)] by blast
  obtain m where m: "task_heap s t = Some m" "n = m\<lparr>index_in_parent_pool := 0\<rparr>" using core_heap [OF assms(2)] by blast
  have "core s' t = Some (n\<lparr>parent_pool := False, assigned := False\<rparr>)" using s'(2) by (simp add: leaves_pool_def)
  from core_heap [OF this] obtain k where "task_heap s' t = Some k" "n\<lparr>parent_pool := False, assigned := False\<rparr> = k\<lparr>index_in_parent_pool := 0\<rparr>" by blast
  then have k: "task_heap s' t = Some k" "\<not> parent_pool k" "finished k"
    using assms(4) by (auto dest: arg_cong [of _ _ parent_pool] arg_cong [of _ _ finished])
  have "swap_tasks_in_pool t l s' = None" for l
    using k by (cases "task_heap s' l") (simp_all add: swap_tasks_in_pool_def)
  then have "thread_task_join_no_lock t s' = None"
    by (cases "get_cell (pushed_tasks_count s' - 1) s'") (simp_all add: thread_task_join_no_lock_def)
  then show ?thesis using s' m k assms(4) by (simp add: thread_task_join_locked_def)
qed

theorem second_join_undefined_witness:
  "\<exists>s s' v. demo_pool [New_task 0 double 21, Push 0 None, Start 0, Finish 0 0] = Some s \<and>
     thread_task_join_locked 0 s = Some (Returns 0 v, s') \<and> thread_task_join_locked 0 s' = None"
proof -
  obtain s where s: "demo_pool [New_task 0 double 21, Push 0 None, Start 0, Finish 0 0] = Some s"
    "task_heap s 0 = Some \<lparr>task_function = double, task_arg = 21, task_result = Some 42, finished = True, assigned = True,
       scheduled_for_deletion = False, parent_pool = True, index_in_parent_pool = 0\<rparr>"
    using demo_finished by blast
  then obtain n where n: "core s 0 = Some n" "parent_pool n" "finished n" by (simp add: core_def)
  show ?thesis using s(1) second_join_undefined [OF demo_reachable [OF s(1)] n] by blast
qed

text \<open>C23: The counters of the pool are what their names say: as many threads as were created and
  at most the maximum, as many pushed, unassigned and running tasks as there are tasks in the
  pool, not taken, and taken but unfinished; a task of the last kind is executed by exactly one
  worker and no other task by any.\<close>

theorem pool_bookkeeping:
  assumes "reachable started_pool pool_step s"
  shows "thread_count s = int (length (workers s)) \<and> thread_count s \<le> max_thread_count s \<and> max_thread_count s \<le> TPOOL_MAX_THREADS \<and>
    pushed_tasks_count s = int (card {t. in_pool_now t s}) \<and>
    unassigned_tasks_count s = int (card {t. \<exists>n. core s t = Some n \<and> parent_pool n \<and> \<not> assigned n}) \<and>
    running_tasks_count s = int (card {t. thread_task_is_running t s = Some True}) \<and>
    (\<forall>t. thread_task_is_running t s = Some True \<longleftrightarrow> (\<exists>!i. worker_is i (Running t) s)) \<and>
    (\<forall>i t. worker_is i (Running t) s \<longrightarrow> thread_task_is_running t s = Some True)"
proof -
  obtain qs u where at: "pool_inv_at qs u s"
    using reachable_inv [OF assms] by (auto simp: pool_inv_def)
  then have p: "placed qs s" and ok: "tasks_ok qs (core s) u" and wk: "workers_ok (core s) (workers s)" and th: "threads_ok s u"
    and U: "unassigned_tasks_count s = int u" by (auto simp: pool_inv_at_def)
  have "distinct qs" "pushed_tasks_count s = int (length qs)" using p by (auto simp: placed_def)
  then have "pushed_tasks_count s = int (card {t. in_pool_now t s})"
    by (simp add: in_pool_set [OF ok] distinct_card)
  moreover have "\<forall>t. thread_task_is_running t s = Some True \<longleftrightarrow> (\<exists>!i. worker_is i (Running t) s)"
    "\<forall>i t. worker_is i (Running t) s \<longrightarrow> thread_task_is_running t s = Some True"
    using one_worker [OF wk] by blast+
  moreover have "running_tasks_count s = int (card {t. thread_task_is_running t s = Some True})"
    using th card_running [OF wk] unfolding running_core by (simp add: threads_ok_def)
  ultimately show ?thesis
    using th U card_prefix [OF ok \<open>distinct qs\<close>] unfolding threads_ok_def by simp
qed

theorem pool_bookkeeping_witness:
  "\<exists>s. demo_pool [New_task 0 double 21, Push 0 None, Start 0, Finish 0 0] = Some s \<and>
     pushed_tasks_count s = int (card {t. in_pool_now t s}) \<and> thread_count s = 1"
proof -
  obtain s where s: "demo_pool [New_task 0 double 21, Push 0 None, Start 0, Finish 0 0] = Some s" "workers s = [Starting]"
    using demo_finished by blast
  then show ?thesis using pool_bookkeeping [OF demo_reachable [OF s(1)]] by auto
qed

text \<open>C24: A join waits exactly as long as the task is not finished; then it hands over what the
  function of the task returns for its argument and takes the task, and nothing else, out of the
  pool. A task in no pool is refused.\<close>

theorem join_correct:
  assumes "reachable started_pool pool_step s" "core s t = Some n"
  shows "\<exists>r s'. thread_task_join t s = Some (r, s') \<and>
    (if \<not> parent_pool n then r = Returns TPOOL_ERR_TASK_NOT_PUSHED None \<and> s' = s
     else if \<not> finished n then r = Blocks \<and> s' = s
     else r = Returns 0 (Some (task_function n (task_arg n))) \<and>
       core s' = (core s)(t \<mapsto> n\<lparr>parent_pool := False, assigned := False\<rparr>) \<and>
       workers s' = workers s \<and> pushed_tasks_count s' = pushed_tasks_count s - 1)"
  using thread_task_join_inv [OF reachable_inv [OF assms(1)] assms(2)]
  by (auto simp: leaves_pool_def split: if_splits)

theorem join_correct_witness:
  "\<exists>s s'. demo_pool [New_task 0 double 21, Push 0 None, Start 0, Finish 0 0] = Some s \<and>
     thread_task_join 0 s = Some (Returns 0 (Some 42), s')"
proof -
  obtain s where s: "demo_pool [New_task 0 double 21, Push 0 None, Start 0, Finish 0 0] = Some s"
    "task_heap s 0 = Some \<lparr>task_function = double, task_arg = 21, task_result = Some 42, finished = True, assigned = True,
       scheduled_for_deletion = False, parent_pool = True, index_in_parent_pool = 0\<rparr>"
    using demo_finished by blast
  then show ?thesis using join_correct [OF demo_reachable [OF s(1)], of 0] by (auto simp: core_def double_def)
qed

text \<open>C21: The workers need no help and lose no wakeup: from every reachable state they can do only
  finitely many steps without a spurious wakeup or a call of the client, at most three for each
  unassigned task and two for each thread, and when they can do no more, no matter in which order they
  worked, every task that was in the pool and is not detached is in the pool still, finished, with the
  result of its function, and every detached task is freed.\<close>

theorem workers_finish_all:
  assumes "reachable started_pool pool_step s" "list_all by_worker ops" "run_ops ops s = Some s'"
  shows "length ops \<le> 3 * nat (unassigned_tasks_count s) + 2 * length (workers s) \<and>
    ((\<forall>op. by_worker op \<longrightarrow> \<not> allowed op s') \<longrightarrow>
      (\<forall>t n. task_heap s t = Some n \<longrightarrow> parent_pool n \<longrightarrow>
         (if scheduled_for_deletion n then task_heap s' t = None
          else \<exists>m. task_heap s' t = Some m \<and> parent_pool m \<and> finished m \<and>
            task_result m = Some (task_function n (task_arg n)))))"
proof (intro conjI impI allI)
  have sys: "system_inv s" by (rule pool_system.reachable_has_inv [OF assms(1)])
  have run: "length ops + work_left s' \<le> work_left s" and inv': "pool_inv s'" and kept: "workers_kept (core s) (core s')"
    using worker_run_bounded [OF assms(3,2) sys] by (auto simp: system_inv_def)
  show "length ops \<le> 3 * nat (unassigned_tasks_count s) + 2 * length (workers s)"
    using run weight_sum [of "workers s"] by (simp add: work_left_def)
  fix t n assume idle: "\<forall>op. by_worker op \<longrightarrow> \<not> allowed op s'" and n: "task_heap s t = Some n" "parent_pool n"
  have c: "core s t = Some (n\<lparr>index_in_parent_pool := 0\<rparr>)" using n by (simp add: core_def)
  have end': "finished m \<and> \<not> scheduled_for_deletion m" if "core s' t = Some m" "parent_pool m" for m
    by (rule idle_workers_done [OF inv' _ that]) (use idle in auto)
  show "if scheduled_for_deletion n then task_heap s' t = None
    else \<exists>m. task_heap s' t = Some m \<and> parent_pool m \<and> finished m \<and> task_result m = Some (task_function n (task_arg n))"
  proof (cases "core s' t")
    case None
    then have "scheduled_for_deletion n" using kept c unfolding workers_kept_def by fastforce
    then show ?thesis using None by (simp add: core_def)
  next
    case (Some m)
    then have m: "parent_pool m" "scheduled_for_deletion m = scheduled_for_deletion n" "task_function m = task_function n" "task_arg m = task_arg n"
      using kept c n(2) unfolding workers_kept_def by fastforce+
    obtain qs u where "tasks_ok qs (core s') u" using inv' by (auto simp: pool_inv_def pool_inv_at_def)
    then have "task_result m = Some (task_function n (task_arg n))"
      using Some end' [OF Some m(1)] m unfolding tasks_ok_def by fastforce
    then show ?thesis using end' [OF Some m(1)] m core_heap [OF Some] by auto
  qed
qed

text \<open>The deletion of a pool is refused exactly when a task in it is not finished.\<close>

theorem delete_refused_iff_unfinished:
  assumes "reachable started_pool pool_step s"
  shows "(fst (thread_pool_delete s) = Some TPOOL_ERR_HAS_TASKS) =
    (\<exists>t n. task_heap s t = Some n \<and> parent_pool n \<and> \<not> finished n)"
proof -
  obtain qs u where at: "pool_inv_at qs u s"
    using reachable_inv [OF assms] by (auto simp: pool_inv_def)
  then have p: "placed qs s" and ok: "tasks_ok qs (core s) u" and wk: "workers_ok (core s) (workers s)" and th: "threads_ok s u"
    and U: "unassigned_tasks_count s = int u" by (auto simp: pool_inv_at_def)
  have R: "running_tasks_count s = int (card {t. in_progress (core s) t})" and f: "finite {t. in_progress (core s) t}"
    using th card_running [OF wk] ok by (auto simp: threads_ok_def tasks_ok_def in_progress_def intro: finite_subset [of _ "set qs"])
  have "(\<exists>t n. core s t = Some n \<and> parent_pool n \<and> \<not> finished n) \<longleftrightarrow> 0 < u \<or> (\<exists>t. in_progress (core s) t)"
  proof
    assume "\<exists>t n. core s t = Some n \<and> parent_pool n \<and> \<not> finished n"
    then obtain t n where n: "core s t = Some n" "parent_pool n" "\<not> finished n" by blast
    show "0 < u \<or> (\<exists>t. in_progress (core s) t)"
    proof (cases "assigned n")
      case True
      then show ?thesis using n by (auto simp: in_progress_def)
    next
      case False
      obtain k where "k < length qs" "qs ! k = t" using ok n unfolding tasks_ok_def by (metis in_set_conv_nth)
      then show ?thesis using ok n False unfolding tasks_ok_def by (metis gr0I le0)
    qed
  next
    assume "0 < u \<or> (\<exists>t. in_progress (core s) t)"
    then show "\<exists>t n. core s t = Some n \<and> parent_pool n \<and> \<not> finished n"
      using unassigned_task [OF ok, of 0] by (auto simp: in_progress_def)
  qed
  moreover have "(\<exists>t n. core s t = Some n \<and> parent_pool n \<and> \<not> finished n) \<longleftrightarrow>
      (\<exists>t n. task_heap s t = Some n \<and> parent_pool n \<and> \<not> finished n)" by (rule core_unfinished)
  moreover have "(0 < running_tasks_count s) = (\<exists>t. in_progress (core s) t)" using R f by (auto simp: card_gt_0_iff)
  ultimately show ?thesis using U by (auto simp: thread_pool_delete_def)
qed

theorem delete_refused_iff_unfinished_witness:
  "\<exists>s. demo_pool [New_task 0 double 21, Push 0 None, Start 0, Finish 0 0] = Some s \<and>
     (fst (thread_pool_delete s) = Some TPOOL_ERR_HAS_TASKS) = (\<exists>t n. task_heap s t = Some n \<and> parent_pool n \<and> \<not> finished n)"
  using demo_finished delete_refused_iff_unfinished [OF demo_reachable] by blast

lemma all_waiting_idle: "workers s = [Waiting] \<Longrightarrow> by_worker op \<Longrightarrow> \<not> allowed op s"
  by (cases op) (auto simp: worker_is_def)

theorem workers_finish_all_witness:
  "\<exists>s s' m. demo_pool [New_task 0 double 21, New_task 1 double 4, Push 0 None, Push 1 None, Detach 1] = Some s \<and>
     run_ops [Start 0, Finish 0 0, Start 0, Finish 0 1, Start 0] s = Some s' \<and>
     task_heap s 1 \<noteq> None \<and> task_heap s' 1 = None \<and> task_heap s' 0 = Some m \<and> finished m \<and> task_result m = Some 42"
proof -
  let ?ops = "[Start 0, Finish 0 0, Start 0, Finish 0 1, Start 0]"
  have "\<exists>s s' n m. demo_pool [New_task 0 double 21, New_task 1 double 4, Push 0 None, Push 1 None, Detach 1] = Some s \<and>
     run_ops ?ops s = Some s' \<and> workers s' = [Waiting] \<and> task_heap s 0 = Some n \<and> parent_pool n \<and>
     \<not> scheduled_for_deletion n \<and> task_function n = double \<and> task_arg n = 21 \<and>
     task_heap s 1 = Some m \<and> parent_pool m \<and> scheduled_for_deletion m"
    by (simp add: pool_eval)
  then obtain s s' n m where s: "demo_pool [New_task 0 double 21, New_task 1 double 4, Push 0 None, Push 1 None, Detach 1] = Some s"
     "run_ops ?ops s = Some s'" "workers s' = [Waiting]" "task_heap s 0 = Some n" "parent_pool n"
     "\<not> scheduled_for_deletion n" "task_function n = double" "task_arg n = 21"
     "task_heap s 1 = Some m" "parent_pool m" "scheduled_for_deletion m" by blast
  have "list_all by_worker ?ops" by simp
  note all = workers_finish_all [OF demo_reachable [OF s(1)] this s(2), THEN conjunct2, rule_format, OF all_waiting_idle [OF s(3)]]
  show ?thesis using s all [OF _ s(4,5)] all [OF _ s(9,10)] by (auto simp: double_def)
qed

text \<open>The deletion of a pool may hang although its client did everything right: there is a
  reachable state in which thread_pool_delete has begun and which, without a spurious wakeup, is
  followed by no state in which all threads have returned. The worker was about to lock the pool
  when the broadcast came, finds no task and waits for a signal that nobody sends any more.\<close>

theorem delete_may_hang:
  "\<exists>s. reachable started_pool pool_step s \<and> deleting s \<and>
     (\<forall>ops s'. run_ops ops s = Some s' \<and> list_all (\<lambda>op. \<forall>i. op \<noteq> Spurious i) ops \<longrightarrow> \<not> delete_can_join s')"
proof -
  have "\<exists>s. demo_pool [New_task 0 double 21, Push 0 None, Start 0, Finish 0 0, Join 0, Delete_pool, Start 0] = Some s \<and>
      deleting s \<and> workers s = [Waiting] \<and> joiners s = Map.empty"
    by (simp add: pool_eval wake_all_def)
  then obtain s where s: "demo_pool [New_task 0 double 21, Push 0 None, Start 0, Finish 0 0, Join 0, Delete_pool, Start 0] = Some s"
    "deleting s" "workers s = [Waiting]" "joiners s = Map.empty" by blast
  have step: "deleting s' \<and> workers s' = [Waiting] \<and> joiners s' = Map.empty"
    if "deleting s" "workers s = [Waiting]" "joiners s = Map.empty" "allowed op s" "run_op op s = Some s'" "\<forall>i. op \<noteq> Spurious i" for op s s'
    using that by (cases op) (auto simp: worker_is_def thread_task_new_def thread_task_delete_def bind_eq_Some_conv split: if_splits)
  have "deleting s' \<and> workers s' = [Waiting] \<and> joiners s' = Map.empty"
    if "run_ops ops s = Some s'" "list_all (\<lambda>op. \<forall>i. op \<noteq> Spurious i) ops" "deleting s" "workers s = [Waiting]" "joiners s = Map.empty" for ops s s'
    using that
  proof (induction ops arbitrary: s)
    case (Cons op ops)
    then obtain s1 where s1: "allowed op s" "run_op op s = Some s1" "run_ops ops s1 = Some s'"
      by (auto simp: bind_eq_Some_conv split: if_splits)
    then have "deleting s1 \<and> workers s1 = [Waiting] \<and> joiners s1 = Map.empty" using step [of s op s1] Cons.prems by simp
    then show ?case using Cons.IH [OF s1(3)] Cons.prems(2) by simp
  qed simp
  then show ?thesis using s demo_reachable [OF s(1)] unfolding delete_can_join_def by fastforce
qed

theorem delete_may_hang_witness:
  "\<exists>s. deleting s \<and> (\<forall>ops s'. run_ops ops s = Some s' \<and> list_all (\<lambda>op. \<forall>i. op \<noteq> Spurious i) ops \<longrightarrow> \<not> delete_can_join s')"
  using delete_may_hang by blast

text \<open>A pool may leave a task waiting although it may create a thread for it: two tasks pushed
  into a pool of at most two threads before its first worker runs get one thread. While the first
  task runs, the second can only wait for its end.\<close>

theorem task_waits_below_maximum:
  "\<exists>s. reachable started_pool pool_step s \<and> unassigned_tasks_count s = 1 \<and> max_thread_count s = 2 \<and>
     workers s = [Running 0] \<and> (\<forall>op. by_worker op \<and> allowed op s \<longrightarrow> op = Finish 0 0)"
proof -
  have "\<exists>s. demo_pool [New_task 0 double 21, New_task 1 double 4, Push 0 None, Push 1 None, Start 0] = Some s \<and>
      unassigned_tasks_count s = 1 \<and> max_thread_count s = 2 \<and> workers s = [Running 0]"
    by (simp add: pool_eval)
  then obtain s where s: "demo_pool [New_task 0 double 21, New_task 1 double 4, Push 0 None, Push 1 None, Start 0] = Some s"
      "unassigned_tasks_count s = 1" "max_thread_count s = 2" "workers s = [Running 0]" by blast
  have "op = Finish 0 0" if "by_worker op" "allowed op s" for op
    using that s(4) by (cases op) (auto simp: worker_is_def)
  then show ?thesis using s demo_reachable [OF s(1)] by blast
qed

section \<open>The timed join\<close>

lemma pool_add_timespec_same: "pool_add_timespec = add_timespec"
  by (rule ext)+ (simp add: pool_add_timespec_def add_timespec_def)

lemma pool_milliseconds_same: "pool_milliseconds_to_timespec = milliseconds_to_timespec"
  by (rule ext) (simp add: pool_milliseconds_to_timespec_def milliseconds_to_timespec_def
      nsec_in_millisecond_def nsec_in_milliseconds_def)

lemma deadline_correct:
  assumes "0 \<le> ms" "ms \<le> 9223372036854" "clock_time (sec, usec)"
  shows "\<exists>a w d. now_as_timespec (sec, usec) = Some a \<and> pool_milliseconds_to_timespec ms = Some w \<and> pool_add_timespec a w = Some d \<and>
    ts_norm d \<and> ts_nanos d = sec * 1000000000 + usec * 1000 + ms * 1000000"
proof -
  have "long_ok (ms * nsec_in_millisecond)" using assms(1,2) by (simp add: long_ok_def nsec_in_millisecond_def)
  then obtain a w d where d: "now_as_timespec (sec, usec) = Some a" "pool_milliseconds_to_timespec ms = Some w" "pool_add_timespec a w = Some d"
    using deadline_defined [OF assms(3)] by blast
  have w: "ts_norm w" "ts_nanos w = ms * 1000000"
    using milliseconds_to_timespec_ok [OF assms(1,2)] d(2) by (auto simp: pool_milliseconds_same)
  have a: "ts_norm a" "ts_nanos a = sec * 1000000000 + usec * 1000"
    using d(1) assms(3) by (auto simp: now_as_timespec_def clock_time_def ts_nanos_def ts_norm_def nsec_in_sec_def nsec_in_microsecond_def bind_eq_Some_conv)
  have "d = ts_add a w" using d(3) by (simp add: pool_add_timespec_same add_timespec_value)
  then show ?thesis using d a w by (simp add: ts_add_norm ts_add_nanos)
qed

text \<open>A timed join with a timeout of ms milliseconds, up to the largest count whose nanoseconds fit
  a long long, waits, when the task has not finished, until the time that is exactly ms milliseconds
  after the clock it read, and otherwise does what thread_task_join does; a wait that was timed out
  gives TPOOL_ERR_TIMEOUT and changes nothing, any other goes on as thread_task_join does. The next
  larger timeout overflows a long long.\<close>

theorem timed_join_correct:
  assumes "reachable started_pool pool_step s" "core s t = Some n" "parent_pool n" "0 \<le> ms" "clock_time (sec, usec)"
  shows "if ms \<le> 9223372036854 then
      \<exists>d. ts_norm d \<and> ts_nanos d = sec * 1000000000 + usec * 1000 + ms * 1000000 \<and>
        thread_task_timed_join t (sec, usec) ms s = (if finished n then thread_task_join t s else Some (Blocks_until d, s)) \<and>
        (\<forall>timed_out. timed_wait_returns t d timed_out s =
          (if timed_out d then Some (Returns TPOOL_ERR_TIMEOUT None, s)
           else if finished n then thread_task_join t s else Some (Blocks_until d, s)))
    else thread_task_timed_join t (sec, usec) ms s = None"
proof -
  obtain m where m: "task_heap s t = Some m" "n = m\<lparr>index_in_parent_pool := 0\<rparr>" using core_heap [OF assms(2)] by blast
  show ?thesis
  proof (cases "ms \<le> 9223372036854")
    case True
    then obtain a w d where d: "now_as_timespec (sec, usec) = Some a" "pool_milliseconds_to_timespec ms = Some w" "pool_add_timespec a w = Some d"
      "ts_norm d" "ts_nanos d = sec * 1000000000 + usec * 1000 + ms * 1000000"
      using deadline_correct [OF assms(4) _ assms(5)] by blast
    have "thread_task_timed_join_locked t d s = (if finished n then thread_task_join t s else Some (Blocks_until d, s))"
      using m assms(3) by (simp add: timed_join_locked_as_join thread_task_join_def)
    then show ?thesis using True d m assms(3)
      by (auto simp: thread_task_timed_join_def timed_wait_returns_def intro!: exI [of _ d])
  next
    case False
    then have "pool_milliseconds_to_timespec ms = None"
      by (simp add: pool_milliseconds_to_timespec_def c_long_def long_ok_def nsec_in_millisecond_def)
    then show ?thesis using False m assms(3)
      by (cases "now_as_timespec (sec, usec)") (simp_all add: thread_task_timed_join_def)
  qed
qed

theorem timed_join_correct_witness:
  "\<exists>s. demo_pool [New_task 0 double 21, Push 0 None, Start 0, Finish 0 0] = Some s \<and>
     thread_task_timed_join 0 (5, 0) 1500 s = thread_task_join 0 s \<and>
     thread_task_timed_join 0 (5, 0) 9223372036855 s = None"
proof -
  obtain s where s: "demo_pool [New_task 0 double 21, Push 0 None, Start 0, Finish 0 0] = Some s"
    "task_heap s 0 = Some \<lparr>task_function = double, task_arg = 21, task_result = Some 42, finished = True, assigned = True,
       scheduled_for_deletion = False, parent_pool = True, index_in_parent_pool = 0\<rparr>"
    using demo_finished by blast
  then obtain n where n: "core s 0 = Some n" "parent_pool n" "finished n" by (simp add: core_def)
  have "clock_time (5, 0)" by (simp add: clock_time_def)
  then show ?thesis
    using s(1) timed_join_correct [OF demo_reachable [OF s(1)] n(1,2), of 1500 5 0]
      timed_join_correct [OF demo_reachable [OF s(1)] n(1,2), of 9223372036855 5 0] n(3) by auto
qed

end
