(* ===== verification/Heap_Help.thy ===== *)
theory Heap_Help
  imports Prelude
begin

text \<open>
  The heap checker of utils/heap_help/heap_help.c: wrappers of the allocation functions that keep
  a list of the blocks which are not freed yet, and report it when the process exits. Addresses
  are ints, 0 is NULL; the objects of the list live in batches of 1024. The functions of the C
  library behind the wrappers are arguments, functions of the state, because they may call the
  wrappers again; so are the backtrace of a call, what dladdr knows of an address and what dlsym
  allocates. The model is that of one thread. The result None is an abort: a failed heaph_assert, or
  a lock taken twice.
\<close>

section \<open>State\<close>

definition MAX_BACKTRACE_LEN :: nat where "MAX_BACKTRACE_LEN = 64"
definition ALLOCATION_BATCH_SIZE :: nat where "ALLOCATION_BATCH_SIZE = 1024"

datatype report_modes = MODE_VERBOSE | MODE_LEAKS | MODE_QUIET

record allocation =
  trace :: "int list"
  mem :: int
  alloc_size :: int
  alloc_next :: "ptr option"

record symbol_info =
  sym_file :: "string option"
  sym_name :: "string option"

text \<open>Which functions the pointers default_malloc, default_free and default_calloc hold.\<close>

datatype default_functions = Null_functions | Static_functions | Libc_functions

text \<open>
  The batch is the number of its first object and the count of used ones; batches counts the mmaps.
  static_region is the place where mmap puts the static buffer.
\<close>

record hh =
  init_lock :: bool
  is_init_done :: bool
  is_exit_done :: bool
  init_lock_count :: int
  depth :: int
  report_mode :: report_modes
  static_size :: int
  static_used :: int
  static_buf :: int
  allocs_lock :: bool
  alloc_count :: int
  alloc_count_total :: int
  allocs :: "ptr option"
  alloc_pool :: "ptr option"
  alloc_batch :: "(ptr \<times> nat) option"
  alloc_objects :: "ptr \<rightharpoonup> allocation"
  batches :: nat
  defaults :: default_functions
  exit_handlers :: nat
  printed :: string
  static_region :: int

definition hh_initial :: "int \<Rightarrow> hh" where
  "hh_initial region = \<lparr>init_lock = False, is_init_done = False, is_exit_done = False, init_lock_count = 0,
     depth = 0, report_mode = MODE_LEAKS, static_size = 0, static_used = 0, static_buf = 0, allocs_lock = False,
     alloc_count = 0, alloc_count_total = 0, allocs = None, alloc_pool = None, alloc_batch = None,
     alloc_objects = Map.empty, batches = 0, defaults = Null_functions, exit_handlers = 0, printed = '''',
     static_region = region\<rparr>"

text \<open>heaph_printf writes at most the 1023 characters that its buffer holds.\<close>

definition heaph_printf :: "string \<Rightarrow> hh \<Rightarrow> hh" where
  "heaph_printf msg s = s\<lparr>printed := printed s @ take 1023 msg\<rparr>"

definition heaph_assert_do :: "bool \<Rightarrow> unit option" where
  "heaph_assert_do flag = (if flag then Some () else None)"

lemma heaph_assert_Some [simp]: "heaph_assert_do flag = Some u \<longleftrightarrow> flag"
  by (simp add: heaph_assert_do_def)

lemma heaph_assert_True [simp]: "heaph_assert_do True = Some ()"
  by (simp add: heaph_assert_do_def)

lemma heaph_assert_False [simp]: "heaph_assert_do False = None"
  by (simp add: heaph_assert_do_def)

text \<open>A lock that this thread holds already is never acquired.\<close>

definition spinlock_acq :: "bool \<Rightarrow> bool option" where
  "spinlock_acq lock = (if lock then None else Some True)"

definition spinlock_rel :: "bool \<Rightarrow> bool option" where
  "spinlock_rel lock = do { _ \<leftarrow> heaph_assert_do lock; Some False }"

section \<open>The list of blocks\<close>

definition alloc_is_static :: "int \<Rightarrow> hh \<Rightarrow> bool" where
  "alloc_is_static p s \<longleftrightarrow> p \<noteq> 0 \<and> static_buf s \<le> p \<and> p \<le> static_buf s + static_size s"

definition no_allocation :: allocation where
  "no_allocation = \<lparr>trace = [], mem = 0, alloc_size = 0, alloc_next = None\<rparr>"

text \<open>An object for a new block: a used one, or the next of the batch, or the first of a new batch.\<close>

definition new_batch :: "hh \<Rightarrow> hh" where
  "new_batch s = s\<lparr>alloc_batch := Some (ALLOCATION_BATCH_SIZE * batches s, 0), batches := Suc (batches s),
     alloc_objects := (\<lambda>p. if ALLOCATION_BATCH_SIZE * batches s \<le> p \<and> p < ALLOCATION_BATCH_SIZE * Suc (batches s)
       then Some no_allocation else alloc_objects s p)\<rparr>"

definition take_object :: "hh \<Rightarrow> (ptr \<times> hh) option" where
  "take_object s = (case alloc_pool s of
     Some a \<Rightarrow> do { n \<leftarrow> alloc_objects s a; Some (a, s\<lparr>alloc_pool := alloc_next n\<rparr>) }
   | None \<Rightarrow> do {
       s \<leftarrow> (case alloc_batch s of
          None \<Rightarrow> Some (new_batch s)
        | Some (base, used) \<Rightarrow>
            if used = ALLOCATION_BATCH_SIZE then Some (new_batch s)
            else do { _ \<leftarrow> heaph_assert_do (used < ALLOCATION_BATCH_SIZE); Some s });
       (base, used) \<leftarrow> alloc_batch s;
       Some (base + used, s\<lparr>alloc_batch := Some (base, Suc used)\<rparr>) })"

definition alloc_trace_new :: "int list \<Rightarrow> int \<Rightarrow> int \<Rightarrow> hh \<Rightarrow> hh option" where
  "alloc_trace_new backtrace p sz s =
     (if alloc_is_static p s then Some s
      else if depth s > 1 then Some s
      else do {
        _ \<leftarrow> heaph_assert_do (depth s > 0);
        _ \<leftarrow> heaph_assert_do (is_init_done s);
        if is_exit_done s then Some s else do {
          lock \<leftarrow> spinlock_acq (allocs_lock s);
          (a, s) \<leftarrow> take_object (s\<lparr>allocs_lock := lock\<rparr>);
          lock \<leftarrow> spinlock_rel (allocs_lock s);
          let s = s\<lparr>allocs_lock := lock\<rparr>;
          let n = \<lparr>trace = (if depth s = 1 then take MAX_BACKTRACE_LEN backtrace else []), mem = p, alloc_size = sz,
            alloc_next = None\<rparr>;
          lock \<leftarrow> spinlock_acq (allocs_lock s);
          count \<leftarrow> c_long (alloc_count s + 1);
          let s = s\<lparr>allocs_lock := lock, alloc_objects := (alloc_objects s)(a \<mapsto> n\<lparr>alloc_next := allocs s\<rparr>),
            allocs := Some a, alloc_count := count, alloc_count_total := (alloc_count_total s + 1) mod 2 ^ 64\<rparr>;
          lock \<leftarrow> spinlock_rel (allocs_lock s);
          Some (s\<lparr>allocs_lock := lock\<rparr>) } })"

text \<open>The search of alloc_free: the object of the block and the one before it.\<close>

partial_function (option) find_block ::
  "int \<Rightarrow> (ptr \<rightharpoonup> allocation) \<Rightarrow> ptr option \<Rightarrow> ptr option \<Rightarrow> (ptr option \<times> ptr) option option" where
  "find_block p h prev a =
     (if a = None then Some None
      else do {
       x \<leftarrow> a;
       n \<leftarrow> h x;
       if mem n = p then Some (Some (prev, x)) else find_block p h (Some x) (alloc_next n) })"

definition alloc_free :: "int \<Rightarrow> hh \<Rightarrow> hh option" where
  "alloc_free p s =
     (if alloc_is_static p s then Some s
      else if depth s > 1 then Some s
      else do {
        _ \<leftarrow> heaph_assert_do (is_init_done s);
        if is_exit_done s then Some s else do {
          lock \<leftarrow> spinlock_acq (allocs_lock s);
          let s = s\<lparr>allocs_lock := lock\<rparr>;
          found \<leftarrow> find_block p (alloc_objects s) None (allocs s);
          case found of
            None \<Rightarrow> do { _ \<leftarrow> spinlock_rel (allocs_lock s); _ \<leftarrow> heaph_assert_do False; Some s }
          | Some (prev, a) \<Rightarrow> do {
              n \<leftarrow> alloc_objects s a;
              s \<leftarrow> (case prev of
                 None \<Rightarrow> Some (s\<lparr>allocs := alloc_next n\<rparr>)
               | Some q \<Rightarrow> map_option (\<lambda>m. s\<lparr>alloc_objects := (alloc_objects s)(q \<mapsto> m\<lparr>alloc_next := alloc_next n\<rparr>)\<rparr>)
                   (alloc_objects s q));
              let s = s\<lparr>alloc_objects := (alloc_objects s)(a \<mapsto> n\<lparr>alloc_next := alloc_pool s\<rparr>), alloc_pool := Some a,
                alloc_count := alloc_count s - 1\<rparr>;
              let new_count = alloc_count s;
              lock \<leftarrow> spinlock_rel (allocs_lock s);
              _ \<leftarrow> heaph_assert_do (new_count \<ge> 0);
              Some (s\<lparr>allocs_lock := lock\<rparr>) } } })"

definition heaph_get_alloc_count :: "hh \<Rightarrow> (int \<times> hh) option" where
  "heaph_get_alloc_count s = do {
     lock \<leftarrow> spinlock_acq (allocs_lock s);
     let res = alloc_count s mod 2 ^ 64;
     lock \<leftarrow> spinlock_rel lock;
     Some (res, s\<lparr>allocs_lock := lock\<rparr>) }"

section \<open>The static allocator\<close>

text \<open>mmap puts the static buffer at the place the state names; NULL and MAP_FAILED are no places.\<close>

definition static_allocator_touch :: "hh \<Rightarrow> hh option" where
  "static_allocator_touch s =
     (if static_buf s \<noteq> 0 then Some s
      else do {
        _ \<leftarrow> heaph_assert_do (static_region s > 0);
        Some (s\<lparr>static_size := 16 * 1024, static_buf := static_region s\<rparr>) })"

definition static_malloc :: "int \<Rightarrow> hh \<Rightarrow> (int \<times> hh) option" where
  "static_malloc sz s = do {
     _ \<leftarrow> heaph_assert_do (\<not> is_init_done s);
     _ \<leftarrow> heaph_assert_do (init_lock s);
     s \<leftarrow> static_allocator_touch s;
     _ \<leftarrow> heaph_assert_do (static_size s \<ge> static_used s);
     _ \<leftarrow> heaph_assert_do (sz < static_size s - static_used s);
     Some (static_buf s + static_used s, s\<lparr>static_used := static_used s + sz\<rparr>) }"

definition static_free :: "int \<Rightarrow> hh \<Rightarrow> hh option" where
  "static_free p s = do {
     _ \<leftarrow> heaph_assert_do (\<not> is_init_done s);
     _ \<leftarrow> heaph_assert_do (init_lock s);
     s \<leftarrow> static_allocator_touch s;
     _ \<leftarrow> heaph_assert_do (p = 0 \<or> alloc_is_static p s);
     Some s }"

definition static_calloc :: "int \<Rightarrow> int \<Rightarrow> hh \<Rightarrow> (int \<times> hh) option" where
  "static_calloc cnt sz s = static_malloc (sz * cnt mod 2 ^ 64) s"

definition heaph_lock :: "hh \<Rightarrow> hh option" where
  "heaph_lock s = do {
     lock \<leftarrow> (if init_lock_count s = 0 then spinlock_acq (init_lock s) else Some (init_lock s));
     Some (s\<lparr>init_lock := lock, init_lock_count := init_lock_count s + 1\<rparr>) }"

definition heaph_unlock :: "hh \<Rightarrow> hh option" where
  "heaph_unlock s = do {
     _ \<leftarrow> heaph_assert_do (init_lock_count s > 0);
     let s = s\<lparr>init_lock_count := init_lock_count s - 1\<rparr>;
     lock \<leftarrow> (if init_lock_count s = 0 then spinlock_rel (init_lock s) else Some (init_lock s));
     Some (s\<lparr>init_lock := lock\<rparr>) }"

section \<open>The report\<close>

definition trace_sym_is_func :: "symbol_info \<Rightarrow> string \<Rightarrow> bool" where
  "trace_sym_is_func y func = (case sym_name y of None \<Rightarrow> False | Some name \<Rightarrow> name = func)"

definition trace_sym_file_starts_with :: "symbol_info \<Rightarrow> string \<Rightarrow> bool" where
  "trace_sym_file_starts_with y prefix =
     (case sym_file y of None \<Rightarrow> False | Some path \<Rightarrow> take (length prefix) path = prefix)"

definition trace_sym_is_internal :: "symbol_info \<Rightarrow> bool" where
  "trace_sym_is_internal y =
     (if trace_sym_is_func y ''puts'' then True
      else if trace_sym_is_func y ''pthread_create'' then True
      else if trace_sym_is_func y ''_IO_printf'' then True
      else if trace_sym_is_func y ''_IO_vfscanf'' then True
      else if trace_sym_file_starts_with y ''libpthread.so'' then True
      else False)"

fun trace_is_internal :: "symbol_info list \<Rightarrow> bool" where
  "trace_is_internal [] = False"
| "trace_is_internal (y # syms) = (if trace_sym_is_internal y then True else trace_is_internal syms)"

definition newline :: string where "newline = [CHR 0x0A]"

fun trace_resolve :: "(int \<Rightarrow> symbol_info option) \<Rightarrow> int list \<Rightarrow> hh \<Rightarrow> symbol_info list \<times> hh" where
  "trace_resolve dladdr [] s = ([], s)"
| "trace_resolve dladdr (addr # addrs) s =
     (case dladdr addr of
        None \<Rightarrow>
          let (syms, s') = trace_resolve dladdr addrs (heaph_printf (newline @ ''HH: dladdr() failure'' @ newline) s)
          in (\<lparr>sym_file = None, sym_name = None\<rparr> # syms, s')
      | Some y \<Rightarrow>
          let (syms, s') = trace_resolve dladdr addrs s in (y # syms, s'))"

text \<open>A null pointer is printed as (null).\<close>

definition show_name :: "string option \<Rightarrow> string" where
  "show_name name = (case name of None \<Rightarrow> ''(null)'' | Some x \<Rightarrow> x)"

fun print_trace :: "nat \<Rightarrow> symbol_info list \<Rightarrow> hh \<Rightarrow> hh" where
  "print_trace i [] s = s"
| "print_trace i (y # syms) s =
     print_trace (Suc i) syms (heaph_printf (show_int (int i) @ '' - '' @ show_name (sym_name y) @ newline) s)"

definition report_limit :: int where "report_limit = 10"

record report =
  r_count :: int
  r_report_count :: int
  r_leak_size :: int
  r_prefix :: string

text \<open>One turn of the loop of heaph_atexit, and the loop.\<close>

definition report_block :: "(int \<Rightarrow> symbol_info option) \<Rightarrow> allocation \<Rightarrow> report \<Rightarrow> hh \<Rightarrow> (report \<times> hh) option" where
  "report_block dladdr a r s = do {
     _ \<leftarrow> heaph_assert_do (r_count r > 0);
     if trace a = [] then Some (r\<lparr>r_count := r_count r - 1\<rparr>, s)
     else do {
       let (syms, s) = trace_resolve dladdr (trace a) s;
       let is_internal = trace_is_internal syms;
       let (r, s) =
         (if is_internal then (r\<lparr>r_count := r_count r - 1\<rparr>, s)
          else if r_report_count r < report_limit then
            let s = heaph_printf (r_prefix r) s;
                r = r\<lparr>r_prefix := '''', r_report_count := r_report_count r + 1\<rparr>;
                s = heaph_printf (''#### Leak '' @ show_int (r_report_count r) @ '' ('' @ show_int (alloc_size a) @ '' bytes) ####'' @ newline) s
            in (r, print_trace 0 syms s)
          else (r, s));
       Some ((if is_internal then r else r\<lparr>r_leak_size := (r_leak_size r + alloc_size a) mod 2 ^ 64\<rparr>), s) } }"

partial_function (option) report_loop ::
  "(int \<Rightarrow> symbol_info option) \<Rightarrow> ptr option \<Rightarrow> report \<Rightarrow> hh \<Rightarrow> (report \<times> hh) option" where
  "report_loop dladdr a r s =
     (if a = None then Some (r, s)
      else do {
       x \<leftarrow> a;
       n \<leftarrow> alloc_objects s x;
       rs \<leftarrow> report_block dladdr n r s;
       report_loop dladdr (alloc_next n) (fst rs) (snd rs) })"

definition heaph_atexit :: "(int \<Rightarrow> symbol_info option) \<Rightarrow> hh \<Rightarrow> hh option" where
  "heaph_atexit dladdr s =
     (if is_exit_done s then Some s
      else do {
        let s = s\<lparr>is_exit_done := True\<rparr>;
        if report_mode s = MODE_QUIET then Some s else do {
          lock \<leftarrow> spinlock_acq (allocs_lock s);
          let s = s\<lparr>allocs_lock := lock\<rparr>;
          let count = alloc_count s;
          if count = 0 then do {
            lock \<leftarrow> spinlock_rel (allocs_lock s);
            let s = s\<lparr>allocs_lock := lock\<rparr>;
            Some (if report_mode s = MODE_VERBOSE
              then heaph_printf (''HH: total allocation count - '' @ show_int (alloc_count_total s) @ newline)
                (heaph_printf (''HH: found no leaks'' @ newline) (heaph_printf newline s))
              else s) }
          else do {
            let total_count = count;
            (r, s) \<leftarrow> report_loop dladdr (allocs s)
              \<lparr>r_count = count, r_report_count = 0, r_leak_size = 0, r_prefix = newline\<rparr> s;
            lock \<leftarrow> spinlock_rel (allocs_lock s);
            let s = s\<lparr>allocs_lock := lock\<rparr>;
            if r_count r = 0 \<and> report_mode s \<noteq> MODE_VERBOSE then Some s
            else do {
              let suppressed_count = total_count - r_count r;
              let s = heaph_printf (r_prefix r) s;
              let s = heaph_printf (''HH: found '' @ show_int (r_count r) @ '' leaks ('' @ show_int (r_leak_size r) @ '' bytes)'' @ newline) s;
              let s = (if suppressed_count \<noteq> 0
                then heaph_printf (''HH: suppressed '' @ show_int suppressed_count @ '' internal leaks'' @ newline) s else s);
              let s = (if r_report_count r < r_count r
                then heaph_printf (''HH: only first '' @ show_int (r_report_count r) @ '' reports are shown'' @ newline) s else s);
              Some (heaph_printf (''HH: total allocation count - '' @ show_int (alloc_count_total s) @ newline) s) } } } })"

section \<open>The wrappers\<close>

type_synonym alloc_fn = "int \<Rightarrow> hh \<Rightarrow> (int \<times> hh) option"

definition default_malloc :: "alloc_fn \<Rightarrow> alloc_fn" where
  "default_malloc libc sz s = (case defaults s of
     Null_functions \<Rightarrow> None | Static_functions \<Rightarrow> static_malloc sz s | Libc_functions \<Rightarrow> libc sz s)"

definition default_calloc :: "(int \<Rightarrow> alloc_fn) \<Rightarrow> int \<Rightarrow> alloc_fn" where
  "default_calloc libc num sz s = (case defaults s of
     Null_functions \<Rightarrow> None | Static_functions \<Rightarrow> static_calloc num sz s | Libc_functions \<Rightarrow> libc num sz s)"

definition default_free :: "(int \<Rightarrow> hh \<Rightarrow> hh option) \<Rightarrow> int \<Rightarrow> hh \<Rightarrow> hh option" where
  "default_free libc p s = (case defaults s of
     Null_functions \<Rightarrow> None | Static_functions \<Rightarrow> static_free p s | Libc_functions \<Rightarrow> libc p s)"

text \<open>What the wrappers do after heaph_touch.\<close>

definition malloc_body :: "alloc_fn \<Rightarrow> int list \<Rightarrow> int \<Rightarrow> hh \<Rightarrow> (int \<times> hh) option" where
  "malloc_body libc bt sz s = do {
     (res, s) \<leftarrow> default_malloc libc sz (s\<lparr>depth := depth s + 1\<rparr>);
     s \<leftarrow> (if res \<noteq> 0 then alloc_trace_new bt res sz s else Some s);
     Some (res, s\<lparr>depth := depth s - 1\<rparr>) }"

definition calloc_body :: "(int \<Rightarrow> alloc_fn) \<Rightarrow> int list \<Rightarrow> int \<Rightarrow> int \<Rightarrow> hh \<Rightarrow> (int \<times> hh) option" where
  "calloc_body libc bt num sz s = do {
     (res, s) \<leftarrow> default_calloc libc num sz (s\<lparr>depth := depth s + 1\<rparr>);
     s \<leftarrow> (if res \<noteq> 0 then alloc_trace_new bt res (num * sz mod 2 ^ 64) s else Some s);
     Some (res, s\<lparr>depth := depth s - 1\<rparr>) }"

definition free_body :: "(int \<Rightarrow> hh \<Rightarrow> hh option) \<Rightarrow> int \<Rightarrow> hh \<Rightarrow> hh option" where
  "free_body libc p s = do {
     s \<leftarrow> alloc_free p (s\<lparr>depth := depth s + 1\<rparr>);
     s \<leftarrow> default_free libc p s;
     Some (s\<lparr>depth := depth s - 1\<rparr>) }"

text \<open>
  The calls that dlsym makes while the symbols are looked up; they find the initialisation in
  progress, so heaph_touch returns at once. A call of another function would jump to NULL.
\<close>

datatype init_call = Init_malloc int | Init_calloc int int | Init_free int

definition heaph_touch_returns :: "hh \<Rightarrow> bool" where
  "heaph_touch_returns s \<longleftrightarrow> is_init_done s \<or> init_lock_count s > 0"

fun run_init_call :: "init_call \<Rightarrow> hh \<Rightarrow> hh option" where
  "run_init_call (Init_malloc sz) s =
     (if heaph_touch_returns s then map_option snd (malloc_body (\<lambda>_ _. None) [] sz s) else None)"
| "run_init_call (Init_calloc num sz) s =
     (if heaph_touch_returns s then map_option snd (calloc_body (\<lambda>_ _ _. None) [] num sz s) else None)"
| "run_init_call (Init_free p) s =
     (if p = 0 then Some s else if alloc_is_static p s then Some s
      else if heaph_touch_returns s then free_body (\<lambda>_ _. None) p s else None)"

fun run_init_calls :: "init_call list \<Rightarrow> hh \<Rightarrow> hh option" where
  "run_init_calls [] s = Some s"
| "run_init_calls (c # cs) s = do { s \<leftarrow> run_init_call c s; run_init_calls cs s }"

record environment =
  init_calls :: "init_call list"
  hh_report :: "string option"

definition heaph_init :: "environment \<Rightarrow> hh \<Rightarrow> hh option" where
  "heaph_init env s = do {
     s \<leftarrow> run_init_calls (init_calls env) (s\<lparr>defaults := Static_functions\<rparr>);
     let s = s\<lparr>defaults := Libc_functions\<rparr>;
     let s = (case hh_report env of
        None \<Rightarrow> s
      | Some v \<Rightarrow>
          if v = ''v'' then s\<lparr>report_mode := MODE_VERBOSE\<rparr>
          else if v = ''l'' then s\<lparr>report_mode := MODE_LEAKS\<rparr>
          else if v = ''q'' then s\<lparr>report_mode := MODE_QUIET\<rparr>
          else s);
     Some (s\<lparr>exit_handlers := exit_handlers s + 1\<rparr>) }"

definition heaph_touch_locked :: "environment \<Rightarrow> hh \<Rightarrow> hh option" where
  "heaph_touch_locked env s = do {
     s \<leftarrow> heaph_lock s;
     s \<leftarrow> heaph_init env s;
     let old = is_init_done s;
     s \<leftarrow> heaph_unlock (s\<lparr>is_init_done := True\<rparr>);
     _ \<leftarrow> heaph_assert_do (\<not> old);
     Some s }"

definition heaph_touch :: "environment \<Rightarrow> hh \<Rightarrow> hh option" where
  "heaph_touch env s =
     (if is_init_done s then Some s
      else if init_lock_count s > 0 then Some s
      else heaph_touch_locked env s)"

definition malloc :: "environment \<Rightarrow> alloc_fn \<Rightarrow> int list \<Rightarrow> int \<Rightarrow> hh \<Rightarrow> (int \<times> hh) option" where
  "malloc env libc bt sz s = do { s \<leftarrow> heaph_touch env s; malloc_body libc bt sz s }"

definition calloc :: "environment \<Rightarrow> (int \<Rightarrow> alloc_fn) \<Rightarrow> int list \<Rightarrow> int \<Rightarrow> int \<Rightarrow> hh \<Rightarrow> (int \<times> hh) option" where
  "calloc env libc bt num sz s = do { s \<leftarrow> heaph_touch env s; calloc_body libc bt num sz s }"

definition free :: "environment \<Rightarrow> (int \<Rightarrow> hh \<Rightarrow> hh option) \<Rightarrow> int \<Rightarrow> hh \<Rightarrow> hh option" where
  "free env libc p s =
     (if p = 0 then Some s else if alloc_is_static p s then Some s
      else do { s \<leftarrow> heaph_touch env s; free_body libc p s })"

definition realloc :: "environment \<Rightarrow> (int \<Rightarrow> alloc_fn) \<Rightarrow> int list \<Rightarrow> int \<Rightarrow> int \<Rightarrow> hh \<Rightarrow> (int \<times> hh) option" where
  "realloc env libc bt p sz s = do {
     s \<leftarrow> heaph_touch env s;
     let s = s\<lparr>depth := depth s + 1\<rparr>;
     let p = (if alloc_is_static p s then 0 else p);
     (res, s) \<leftarrow> (if defaults s = Libc_functions then libc p sz s else None);
     s \<leftarrow> (if p = 0 \<and> res \<noteq> 0 then alloc_trace_new bt res sz s
          else if p \<noteq> 0 \<and> res = 0 then alloc_free p s
          else if p \<noteq> 0 \<and> res \<noteq> p then do { s \<leftarrow> alloc_free p s; alloc_trace_new bt res sz s }
          else Some s);
     Some (res, s\<lparr>depth := depth s - 1\<rparr>) }"

text \<open>strlen reads the memory of the program; its value is an argument.\<close>

definition strdup :: "environment \<Rightarrow> alloc_fn \<Rightarrow> (int \<Rightarrow> int) \<Rightarrow> int list \<Rightarrow> int \<Rightarrow> hh \<Rightarrow> (int \<times> hh) option" where
  "strdup env libc strlen bt p s = do {
     s \<leftarrow> heaph_touch env s;
     _ \<leftarrow> heaph_assert_do (\<not> is_exit_done s);
     _ \<leftarrow> heaph_assert_do (\<not> alloc_is_static p s);
     let s = s\<lparr>depth := depth s + 1\<rparr>;
     (res, s) \<leftarrow> (if defaults s = Libc_functions then libc p s else None);
     s \<leftarrow> (if res \<noteq> 0 then alloc_trace_new bt res (strlen res + 1) s else Some s);
     Some (res, s\<lparr>depth := depth s - 1\<rparr>) }"

text \<open>The result and the new value of *linep.\<close>

definition getline ::
  "environment \<Rightarrow> (int \<Rightarrow> hh \<Rightarrow> ((int \<times> int) \<times> hh) option) \<Rightarrow> (int \<Rightarrow> int) \<Rightarrow> int list \<Rightarrow> int \<Rightarrow> hh \<Rightarrow> ((int \<times> int) \<times> hh) option" where
  "getline env libc strlen bt line_old s = do {
     s \<leftarrow> heaph_touch env s;
     let s = s\<lparr>depth := depth s + 1\<rparr>;
     _ \<leftarrow> heaph_assert_do (\<not> alloc_is_static line_old s);
     ((res, line), s) \<leftarrow> (if defaults s = Libc_functions then libc line_old s else None);
     s \<leftarrow> (if line_old = 0 \<and> line \<noteq> 0 then alloc_trace_new bt line (strlen line + 1) s
          else if line_old \<noteq> 0 \<and> line = 0 then None
          else if line_old \<noteq> 0 \<and> line \<noteq> 0 \<and> line_old \<noteq> line
          then do { s \<leftarrow> alloc_free line_old s; alloc_trace_new bt line (strlen line + 1) s }
          else if line_old \<noteq> line then None
          else Some s);
     Some ((res, line), s\<lparr>depth := depth s - 1\<rparr>) }"

definition sizeof_addrinfo :: int where "sizeof_addrinfo = 48"

definition getaddrinfo ::
  "environment \<Rightarrow> (hh \<Rightarrow> ((int \<times> int) \<times> hh) option) \<Rightarrow> int list \<Rightarrow> hh \<Rightarrow> ((int \<times> int) \<times> hh) option" where
  "getaddrinfo env libc bt s = do {
     s \<leftarrow> heaph_touch env s;
     let s = s\<lparr>depth := depth s + 1\<rparr>;
     ((rc, res), s) \<leftarrow> (if defaults s = Libc_functions then libc s else None);
     s \<leftarrow> (if rc = 0 \<and> res \<noteq> 0 then alloc_trace_new bt res sizeof_addrinfo s else Some s);
     Some ((rc, res), s\<lparr>depth := depth s - 1\<rparr>) }"

definition freeaddrinfo :: "environment \<Rightarrow> (int \<Rightarrow> hh \<Rightarrow> hh option) \<Rightarrow> int \<Rightarrow> hh \<Rightarrow> hh option" where
  "freeaddrinfo env libc ai s =
     (if ai = 0 then Some s
      else do {
        _ \<leftarrow> heaph_assert_do (\<not> alloc_is_static ai s);
        s \<leftarrow> heaph_touch env s;
        s \<leftarrow> alloc_free ai (s\<lparr>depth := depth s + 1\<rparr>);
        s \<leftarrow> (if defaults s = Libc_functions then libc ai s else None);
        Some (s\<lparr>depth := depth s - 1\<rparr>) })"

end
