(* ===== verification/Heap_Help_Inv.thy ===== *)
theory Heap_Help_Inv
  imports Heap_Help Linked_Heap
begin

text \<open>
  The objects of the heap checker as lists: the blocks it tracks and the pool of unused objects. The
  wrappers are functions of the list of tracked blocks.
\<close>

section \<open>Singly linked lists\<close>

fun slseg :: "(ptr \<rightharpoonup> allocation) \<Rightarrow> ptr option \<Rightarrow> ptr list \<Rightarrow> ptr option \<Rightarrow> bool" where
  "slseg h p [] a \<longleftrightarrow> p = a"
| "slseg h p (x # xs) a \<longleftrightarrow> p = Some x \<and> (case h x of None \<Rightarrow> False | Some n \<Rightarrow> slseg h (alloc_next n) xs a)"

lemma slseg_entry: "slseg h p xs a \<Longrightarrow> p = hd_or xs a"
  by (cases xs) auto

lemma slseg_append: "slseg h p (xs @ ys) a \<longleftrightarrow> slseg h p xs (hd_or ys a) \<and> slseg h (hd_or ys a) ys a"
proof (induction xs arbitrary: p)
  case Nil
  then show ?case by (auto dest: slseg_entry)
qed (auto split: option.splits)

lemma slseg_cong: "(\<And>x. x \<in> set xs \<Longrightarrow> h' x = h x) \<Longrightarrow> slseg h' p xs a = slseg h p xs a"
  by (induction xs arbitrary: p) (auto split: option.splits)

lemma slseg_outside [simp]: "y \<notin> set xs \<Longrightarrow> slseg (h(y := v)) p xs a = slseg h p xs a"
  by (rule slseg_cong) auto

lemma slseg_object: "slseg h p xs a \<Longrightarrow> x \<in> set xs \<Longrightarrow> \<exists>n. h x = Some n"
  by (induction xs arbitrary: p) (auto split: option.splits)

text \<open>A node taken out.\<close>

lemma slseg_unlink:
  assumes seg: "slseg h p (xs @ x # ys) a" and d: "distinct (xs @ x # ys)" and n: "h x = Some n"
    and h': "h' = (case last_or None xs of None \<Rightarrow> h | Some q \<Rightarrow> h(q \<mapsto> (the (h q))\<lparr>alloc_next := alloc_next n\<rparr>))"
  shows "slseg h' (if xs = [] then alloc_next n else p) (xs @ ys) a"
proof (cases xs rule: rev_cases)
  case Nil
  then show ?thesis using seg n h' by simp
next
  case (snoc zs q)
  obtain m where m: "h q = Some m" using slseg_object [OF seg, of q] snoc by auto
  have s: "slseg h p zs (Some q)" "slseg h (alloc_next n) ys a"
    using seg snoc n m by (auto simp: slseg_append)
  then have "slseg h' p zs (Some q)" "slseg h' (alloc_next n) ys a"
    using d snoc h' m by auto
  moreover have "alloc_next n = hd_or ys a" by (rule slseg_entry [OF s(2)])
  ultimately show ?thesis using snoc h' m by (simp add: slseg_append)
qed

section \<open>The list of tracked blocks\<close>

type_synonym hblock = "int \<times> int \<times> int list"

definition block_at :: "(ptr \<rightharpoonup> allocation) \<Rightarrow> ptr \<Rightarrow> hblock" where
  "block_at h x = (let n = the (h x) in (mem n, alloc_size n, trace n))"

definition hh_inv_at :: "ptr list \<Rightarrow> ptr list \<Rightarrow> hh \<Rightarrow> bool" where
  "hh_inv_at xs ps s \<longleftrightarrow> slseg (alloc_objects s) (allocs s) xs None \<and> slseg (alloc_objects s) (alloc_pool s) ps None \<and>
     distinct (xs @ ps) \<and> (\<forall>x<ALLOCATION_BATCH_SIZE * batches s. alloc_objects s x \<noteq> None) \<and>
     (case alloc_batch s of None \<Rightarrow> batches s = 0 \<and> xs = [] \<and> ps = []
      | Some (base, used) \<Rightarrow> used \<le> ALLOCATION_BATCH_SIZE \<and> base + ALLOCATION_BATCH_SIZE = ALLOCATION_BATCH_SIZE * batches s \<and>
          (\<forall>x\<in>set (xs @ ps). x < base + used)) \<and>
     alloc_count s = int (length xs)"

definition tracks :: "hblock list \<Rightarrow> hh \<Rightarrow> bool" where
  "tracks bs s \<longleftrightarrow> (\<exists>xs ps. hh_inv_at xs ps s \<and> \<not> allocs_lock s \<and> bs = map (block_at (alloc_objects s)) xs)"

text \<open>Everything but the list of blocks and what belongs to it.\<close>

definition outer :: "hh \<Rightarrow> hh" where
  "outer s = s\<lparr>allocs_lock := False, alloc_count := 0, alloc_count_total := 0, allocs := None, alloc_pool := None,
     alloc_batch := None, alloc_objects := Map.empty, batches := 0\<rparr>"

lemma outer_fields:
  assumes "outer s' = outer s"
  shows "init_lock s' = init_lock s" "is_init_done s' = is_init_done s" "is_exit_done s' = is_exit_done s"
    "init_lock_count s' = init_lock_count s" "depth s' = depth s" "report_mode s' = report_mode s"
    "static_size s' = static_size s" "static_used s' = static_used s" "static_buf s' = static_buf s"
    "defaults s' = defaults s" "exit_handlers s' = exit_handlers s" "printed s' = printed s" "static_region s' = static_region s"
  using arg_cong [OF assms, of init_lock] arg_cong [OF assms, of is_init_done] arg_cong [OF assms, of is_exit_done]
    arg_cong [OF assms, of init_lock_count] arg_cong [OF assms, of depth] arg_cong [OF assms, of report_mode]
    arg_cong [OF assms, of static_size] arg_cong [OF assms, of static_used] arg_cong [OF assms, of static_buf]
    arg_cong [OF assms, of defaults] arg_cong [OF assms, of exit_handlers] arg_cong [OF assms, of printed]
    arg_cong [OF assms, of static_region]
  by (simp_all add: outer_def)

lemma static_cong: "outer s' = outer s \<Longrightarrow> alloc_is_static p s' = alloc_is_static p s"
  using outer_fields(7,9) [of s' s] by (simp add: alloc_is_static_def)

text \<open>Fields outside the list do not matter for it.\<close>

lemma tracks_cong:
  assumes "tracks bs s" "alloc_objects s' = alloc_objects s" "allocs s' = allocs s" "alloc_pool s' = alloc_pool s"
    "alloc_batch s' = alloc_batch s" "batches s' = batches s" "alloc_count s' = alloc_count s" "allocs_lock s' = allocs_lock s"
  shows "tracks bs s'"
  using assms(1) unfolding tracks_def hh_inv_at_def assms(2-8) .

lemma block_at_cong: "h' x = h x \<Longrightarrow> block_at h' x = block_at h x"
  by (simp add: block_at_def)

lemma hh_inv_at_cong:
  assumes "hh_inv_at xs ps s" "alloc_objects s' = alloc_objects s" "allocs s' = allocs s" "alloc_pool s' = alloc_pool s"
    "alloc_batch s' = alloc_batch s" "batches s' = batches s" "alloc_count s' = alloc_count s"
  shows "hh_inv_at xs ps s'"
  using assms(1) unfolding hh_inv_at_def assms(2-7) .

section \<open>A new object\<close>

text \<open>An object in no list.\<close>

definition spare :: "ptr \<Rightarrow> ptr list \<Rightarrow> ptr list \<Rightarrow> hh \<Rightarrow> bool" where
  "spare a xs ps s \<longleftrightarrow> hh_inv_at xs ps s \<and> a \<notin> set (xs @ ps) \<and> alloc_objects s a \<noteq> None \<and>
     (\<exists>base used. alloc_batch s = Some (base, used) \<and> a < base + used)"

lemma new_batch_inv:
  assumes inv: "hh_inv_at xs [] s"
  shows "hh_inv_at xs [] (new_batch s)" "\<And>x. x \<in> set xs \<Longrightarrow> alloc_objects (new_batch s) x = alloc_objects s x"
proof -
  have low: "x < ALLOCATION_BATCH_SIZE * batches s" if "x \<in> set xs" for x
    using inv that unfolding hh_inv_at_def by (fastforce split: option.splits)
  then show same: "\<And>x. x \<in> set xs \<Longrightarrow> alloc_objects (new_batch s) x = alloc_objects s x"
    by (auto simp: new_batch_def dest: leD)
  then have "slseg (alloc_objects (new_batch s)) (allocs s) xs None"
    using inv slseg_cong [of xs "alloc_objects (new_batch s)" "alloc_objects s"] by (simp add: hh_inv_at_def)
  moreover have "alloc_objects (new_batch s) x \<noteq> None" if "x < ALLOCATION_BATCH_SIZE * Suc (batches s)" for x
    using inv that unfolding hh_inv_at_def by (cases "x < ALLOCATION_BATCH_SIZE * batches s") (auto simp: new_batch_def)
  ultimately show "hh_inv_at xs [] (new_batch s)"
    using inv low unfolding hh_inv_at_def by (simp add: new_batch_def)
qed

lemma batch_object:
  assumes inv: "hh_inv_at xs [] s" and b: "alloc_batch s = Some (base, used)" "used < ALLOCATION_BATCH_SIZE"
  shows "spare (base + used) xs [] (s\<lparr>alloc_batch := Some (base, Suc used)\<rparr>)"
  using inv b unfolding spare_def hh_inv_at_def by auto

lemma take_object_inv:
  assumes inv: "hh_inv_at xs ps s"
  shows "\<exists>a s' ps'. take_object s = Some (a, s') \<and> spare a xs ps' s' \<and> outer s' = outer s \<and> allocs_lock s' = allocs_lock s \<and>
    map (block_at (alloc_objects s')) xs = map (block_at (alloc_objects s)) xs \<and> alloc_count_total s' = alloc_count_total s"
proof (cases ps)
  case (Cons a ps')
  then obtain n where n: "alloc_pool s = Some a" "alloc_objects s a = Some n" "slseg (alloc_objects s) (alloc_next n) ps' None"
    using inv by (auto simp: hh_inv_at_def split: option.splits)
  then have run: "take_object s = Some (a, s\<lparr>alloc_pool := alloc_next n\<rparr>)" by (simp add: take_object_def)
  have "spare a xs ps' (s\<lparr>alloc_pool := alloc_next n\<rparr>)"
    using inv n Cons unfolding spare_def hh_inv_at_def by (auto split: option.splits)
  then show ?thesis using run
    by (intro exI [of _ a] exI [of _ "s\<lparr>alloc_pool := alloc_next n\<rparr>"] exI [of _ ps']) (simp add: outer_def)
next
  case Nil
  then have inv: "hh_inv_at xs [] s" and pool: "alloc_pool s = None" using inv by (simp_all add: hh_inv_at_def)
  obtain s1 base used where s1: "(case alloc_batch s of
          None \<Rightarrow> Some (new_batch s)
        | Some (base, used) \<Rightarrow>
            if used = ALLOCATION_BATCH_SIZE then Some (new_batch s)
            else do { _ \<leftarrow> heaph_assert_do (used < ALLOCATION_BATCH_SIZE); Some s }) = Some s1"
    "s1 = s \<or> s1 = new_batch s" "alloc_batch s1 = Some (base, used)" "used < ALLOCATION_BATCH_SIZE"
  proof (cases "alloc_batch s")
    case None
    then show ?thesis
      by (intro that [of "new_batch s" "ALLOCATION_BATCH_SIZE * batches s" 0]) (simp_all add: new_batch_def ALLOCATION_BATCH_SIZE_def)
  next
    case (Some b)
    obtain base used where b: "b = (base, used)" by (cases b)
    have "used \<le> ALLOCATION_BATCH_SIZE" using inv Some b by (simp add: hh_inv_at_def)
    show ?thesis
    proof (cases "used = ALLOCATION_BATCH_SIZE")
      case True
      then show ?thesis using Some b
        by (intro that [of "new_batch s" "ALLOCATION_BATCH_SIZE * batches s" 0]) (simp_all add: new_batch_def ALLOCATION_BATCH_SIZE_def)
    next
      case False
      then show ?thesis using Some b \<open>used \<le> ALLOCATION_BATCH_SIZE\<close> by (intro that [of s base used]) simp_all
    qed
  qed
  have inv1: "hh_inv_at xs [] s1" and same: "\<And>x. x \<in> set xs \<Longrightarrow> alloc_objects s1 x = alloc_objects s x"
    using s1(2) inv new_batch_inv [OF inv] by auto
  have "take_object s = Some (base + used, s1\<lparr>alloc_batch := Some (base, Suc used)\<rparr>)"
    using s1 pool by (simp add: take_object_def)
  moreover have "outer s1 = outer s" "allocs_lock s1 = allocs_lock s" "alloc_count_total s1 = alloc_count_total s"
    using s1(2) by (auto simp: new_batch_def outer_def)
  ultimately show ?thesis
    using batch_object [OF inv1 s1(3,4)] same
    by (intro exI [of _ "base + used"] exI [of _ "s1\<lparr>alloc_batch := Some (base, Suc used)\<rparr>"] exI [of _ "[]"])
      (auto simp: outer_def intro: block_at_cong)
qed

lemma trace_new_inv:
  assumes tr: "tracks bs s" and d: "depth s = 1" "is_init_done s" "\<not> is_exit_done s" and p: "\<not> alloc_is_static p s"
    and n: "int (length bs) < 2 ^ 63 - 1"
  shows "\<exists>s'. alloc_trace_new bt p sz s = Some s' \<and> tracks ((p, sz, take MAX_BACKTRACE_LEN bt) # bs) s' \<and> outer s' = outer s \<and>
    alloc_count_total s' = (alloc_count_total s + 1) mod 2 ^ 64"
proof -
  obtain xs ps where inv: "hh_inv_at xs ps s" and lock: "\<not> allocs_lock s" and bs: "bs = map (block_at (alloc_objects s)) xs"
    using tr by (auto simp: tracks_def)
  have "hh_inv_at xs ps (s\<lparr>allocs_lock := True\<rparr>)" by (rule hh_inv_at_cong [OF inv]) simp_all
  then obtain a s1 ps' where t: "take_object (s\<lparr>allocs_lock := True\<rparr>) = Some (a, s1)" and sp: "spare a xs ps' s1"
    and o1: "outer s1 = outer s" and l1: "allocs_lock s1"
    and b1: "map (block_at (alloc_objects s1)) xs = bs" and c1: "alloc_count_total s1 = alloc_count_total s"
    using take_object_inv [of xs ps "s\<lparr>allocs_lock := True\<rparr>"] bs by (auto simp: outer_def)
  let ?n = "\<lparr>trace = take MAX_BACKTRACE_LEN bt, mem = p, alloc_size = sz, alloc_next = allocs s1\<rparr>"
  have cnt: "alloc_count s1 = int (length bs)" using sp bs by (simp add: spare_def hh_inv_at_def)
  then have ok: "long_ok (alloc_count s1 + 1)" using n by (simp add: long_ok_def)
  define s2 where "s2 = s1\<lparr>allocs_lock := False, alloc_objects := (alloc_objects s1)(a \<mapsto> ?n), allocs := Some a,
    alloc_count := alloc_count s1 + 1, alloc_count_total := (alloc_count_total s1 + 1) mod 2 ^ 64\<rparr>"
  have dep: "depth s1 = 1" by (simp add: outer_fields(5) [OF o1] d(1))
  have run: "alloc_trace_new bt p sz s = Some s2"
    using p d lock t l1 ok dep by (simp add: alloc_trace_new_def spinlock_acq_def spinlock_rel_def Let_def s2_def)
  have na: "a \<notin> set xs" "a \<notin> set ps'" using sp by (auto simp: spare_def)
  have "hh_inv_at (a # xs) ps' s2"
    using sp na unfolding spare_def hh_inv_at_def by (auto simp: s2_def)
  moreover have "map (block_at (alloc_objects s2)) (a # xs) = (p, sz, take MAX_BACKTRACE_LEN bt) # bs"
    using b1 na by (auto simp: s2_def block_at_def)
  moreover have "\<not> allocs_lock s2" by (simp add: s2_def)
  ultimately have "tracks ((p, sz, take MAX_BACKTRACE_LEN bt) # bs) s2"
    unfolding tracks_def by metis
  then show ?thesis using run o1 c1 by (simp add: s2_def outer_def)
qed

section \<open>Freeing a block\<close>

fun remove_block :: "int \<Rightarrow> hblock list \<Rightarrow> hblock list" where
  "remove_block p [] = []"
| "remove_block p (b # bs) = (if fst b = p then bs else b # remove_block p bs)"

lemma remove_block_split: "p \<notin> fst ` set bs \<Longrightarrow> remove_block p (bs @ (p, r) # cs) = bs @ cs"
  by (induction bs) auto

lemma remove_block_none: "p \<notin> fst ` set bs \<Longrightarrow> remove_block p bs = bs"
  by (induction bs) auto

lemma find_block_missing:
  "slseg h a xs None \<Longrightarrow> (\<And>x. x \<in> set xs \<Longrightarrow> mem (the (h x)) \<noteq> p) \<Longrightarrow> find_block p h prev a = Some None"
proof (induction xs arbitrary: a prev)
  case Nil
  then show ?case by (simp add: find_block.simps)
next
  case (Cons x xs)
  then obtain n where n: "h x = Some n" "a = Some x" "slseg h (alloc_next n) xs None" by (auto split: option.splits)
  moreover have "mem n \<noteq> p" using n Cons.prems(2) [of x] by simp
  ultimately show ?case using Cons by (subst find_block.simps) simp
qed

lemma find_block_found:
  "slseg h a (xs @ x # ys) None \<Longrightarrow> (\<And>x. x \<in> set xs \<Longrightarrow> mem (the (h x)) \<noteq> p) \<Longrightarrow> mem (the (h x)) = p \<Longrightarrow>
   find_block p h prev a = Some (Some (last_or prev xs, x))"
proof (induction xs arbitrary: a prev)
  case Nil
  then show ?case by (subst find_block.simps) (auto split: option.splits)
next
  case (Cons y xs)
  then obtain n where n: "h y = Some n" "a = Some y" "slseg h (alloc_next n) (xs @ x # ys) None"
    by (auto split: option.splits)
  moreover have "mem n \<noteq> p" using n Cons.prems(2) [of y] by simp
  ultimately show ?case using Cons by (subst find_block.simps) simp
qed

lemma first_with:
  "p \<in> f ` set xs \<Longrightarrow> \<exists>ys x zs. xs = ys @ x # zs \<and> f x = p \<and> p \<notin> f ` set ys"
proof (induction xs)
  case (Cons y xs)
  show ?case
  proof (cases "f y = p")
    case True
    then show ?thesis by (intro exI [of _ "[]"] exI [of _ y] exI [of _ xs]) simp
  next
    case False
    then obtain ys x zs where "xs = ys @ x # zs" "f x = p" "p \<notin> f ` set ys" using Cons by auto
    then show ?thesis using False by (intro exI [of _ "y # ys"] exI [of _ x] exI [of _ zs]) auto
  qed
qed simp

lemma free_inv:
  assumes tr: "tracks bs s" and d: "depth s \<le> 1" "is_init_done s" "\<not> is_exit_done s" and p: "\<not> alloc_is_static p s"
    and mem_p: "p \<in> fst ` set bs"
  shows "\<exists>s'. alloc_free p s = Some s' \<and> tracks (remove_block p bs) s' \<and> outer s' = outer s \<and>
    alloc_count_total s' = alloc_count_total s"
proof -
  obtain xs ps where inv: "hh_inv_at xs ps s" and lock: "\<not> allocs_lock s" and bs: "bs = map (block_at (alloc_objects s)) xs"
    using tr by (auto simp: tracks_def)
  let ?h = "alloc_objects s"
  have fst_bs: "fst (block_at ?h x) = mem (the (?h x))" for x by (simp add: block_at_def Let_def)
  then have "p \<in> (\<lambda>x. mem (the (?h x))) ` set xs" using mem_p bs by (auto simp: image_iff)
  from first_with [OF this] obtain as x ys where xs: "xs = as @ x # ys" "mem (the (?h x)) = p" "p \<notin> (\<lambda>x. mem (the (?h x))) ` set as"
    by blast
  have seg: "slseg ?h (allocs s) (as @ x # ys) None" and dis: "distinct (as @ x # ys)" "x \<notin> set ps" "set as \<inter> set ps = {}"
    and pool: "slseg ?h (alloc_pool s) ps None" and len: "alloc_count s = int (length xs)"
    using inv xs by (auto simp: hh_inv_at_def)
  obtain n where n: "?h x = Some n" using slseg_object [OF seg, of x] by auto
  have found: "find_block p ?h None (allocs s) = Some (Some (last_or None as, x))"
    by (rule find_block_found [OF seg]) (use xs(2,3) in \<open>auto intro: rev_image_eqI\<close>)
  define h1 where "h1 = (case last_or None as of None \<Rightarrow> ?h | Some q \<Rightarrow> ?h(q \<mapsto> (the (?h q))\<lparr>alloc_next := alloc_next n\<rparr>))"
  have h1x: "h1 x = Some n" using n dis by (cases as rule: rev_cases) (auto simp: h1_def)
  have seg1: "slseg h1 (if as = [] then alloc_next n else allocs s) (as @ ys) None"
    by (rule slseg_unlink [OF seg dis(1) n h1_def])
  have pool1: "slseg h1 (alloc_pool s) ps None"
    using pool dis by (cases as rule: rev_cases) (auto simp: h1_def)
  have blocks1: "block_at h1 y = block_at ?h y" if "y \<in> set (as @ ys)" for y
    using that by (cases as rule: rev_cases) (auto simp: h1_def block_at_def Let_def)
  define s' where "s' = s\<lparr>allocs := (if as = [] then alloc_next n else allocs s),
    alloc_objects := h1(x \<mapsto> n\<lparr>alloc_next := alloc_pool s\<rparr>), alloc_pool := Some x, alloc_count := alloc_count s - 1, allocs_lock := False\<rparr>"
  have run: "alloc_free p s = Some s'"
  proof (cases as rule: rev_cases)
    case Nil
    then show ?thesis using p d lock found n len xs
      by (simp add: alloc_free_def spinlock_acq_def spinlock_rel_def Let_def s'_def h1_def)
  next
    case (snoc zs q)
    obtain m where "?h q = Some m" using slseg_object [OF seg, of q] snoc by auto
    moreover have "q \<noteq> x" using dis snoc by auto
    ultimately show ?thesis using snoc p d lock found n len xs
      by (simp add: alloc_free_def spinlock_acq_def spinlock_rel_def Let_def s'_def h1_def)
  qed
  have "hh_inv_at (as @ ys) (x # ps) s'"
  proof -
    have "slseg (h1(x \<mapsto> n\<lparr>alloc_next := alloc_pool s\<rparr>)) (if as = [] then alloc_next n else allocs s) (as @ ys) None"
      using seg1 dis by simp
    moreover have "slseg (h1(x \<mapsto> n\<lparr>alloc_next := alloc_pool s\<rparr>)) (Some x) (x # ps) None"
      using pool1 dis by simp
    moreover have "h1 y \<noteq> None" if "?h y \<noteq> None" for y
      using that by (cases as rule: rev_cases) (auto simp: h1_def)
    ultimately show ?thesis
      using inv xs unfolding hh_inv_at_def by (auto simp: s'_def split: option.splits)
  qed
  moreover have "remove_block p bs = map (block_at (alloc_objects s')) (as @ ys)"
  proof -
    have "bs = map (block_at ?h) as @ (p, snd (block_at ?h x)) # map (block_at ?h) ys"
      using bs xs fst_bs [of x] by (metis list.simps(9) map_append prod.collapse)
    moreover have "p \<notin> fst ` set (map (block_at ?h) as)" using xs(3) fst_bs by auto
    ultimately have "remove_block p bs = map (block_at ?h) (as @ ys)" by (simp add: remove_block_split)
    moreover have "block_at (alloc_objects s') y = block_at ?h y" if "y \<in> set (as @ ys)" for y
      using blocks1 [OF that] that dis by (auto simp: s'_def block_at_def Let_def)
    ultimately show ?thesis by (metis map_eq_conv)
  qed
  moreover have "\<not> allocs_lock s'" by (simp add: s'_def)
  ultimately have "tracks (remove_block p bs) s'" unfolding tracks_def by metis
  then show ?thesis using run by (simp add: s'_def outer_def)
qed

lemma free_missing:
  assumes tr: "tracks bs s" and d: "depth s \<le> 1" "is_init_done s" "\<not> is_exit_done s" and p: "\<not> alloc_is_static p s"
    and mem_p: "p \<notin> fst ` set bs"
  shows "alloc_free p s = None"
proof -
  obtain xs ps where inv: "hh_inv_at xs ps s" and lock: "\<not> allocs_lock s" and bs: "bs = map (block_at (alloc_objects s)) xs"
    using tr by (auto simp: tracks_def)
  have "find_block p (alloc_objects s) None (allocs s) = Some None"
    by (rule find_block_missing [of _ _ xs]) (use inv mem_p bs in \<open>force simp: hh_inv_at_def block_at_def Let_def image_iff\<close>)+
  then show ?thesis using p d lock
    by (simp add: alloc_free_def spinlock_acq_def spinlock_rel_def Let_def)
qed

end
