(* ===== verification/Heap_Help_Props.thy ===== *)
theory Heap_Help_Props
  imports Heap_Help_Inv
begin

text \<open>
  What the heap checker promises: its list is the list of the blocks that the program has not
  freed, for every sequence of calls; the report at the end is a function of that list.
\<close>

section \<open>Entering and leaving a wrapper\<close>

definition ready :: "hblock list \<Rightarrow> hh \<Rightarrow> bool" where
  "ready bs s \<longleftrightarrow> tracks bs s \<and> depth s = 0 \<and> is_init_done s \<and> \<not> is_exit_done s \<and> defaults s = Libc_functions"

lemma touch_done [simp]: "is_init_done s \<Longrightarrow> heaph_touch env s = Some s"
  by (simp add: heaph_touch_def)

definition inside :: "hblock list \<Rightarrow> hh \<Rightarrow> hh \<Rightarrow> bool" where
  "inside bs s s1 \<longleftrightarrow> tracks bs s1 \<and> outer s1 = outer (s\<lparr>depth := 1\<rparr>)"

lemma inside_enter: "ready bs s \<Longrightarrow> inside bs s (s\<lparr>depth := 1\<rparr>)"
  unfolding inside_def ready_def by (auto intro: tracks_cong)

lemma inside_leave:
  assumes "ready bs0 s" "inside bs s s1"
  shows "ready bs (s1\<lparr>depth := 0\<rparr>) \<and> outer (s1\<lparr>depth := 0\<rparr>) = outer s \<and> depth s1 = 1"
proof -
  have o: "outer s1 = outer (s\<lparr>depth := 1\<rparr>)" and t: "tracks bs s1" using assms(2) by (auto simp: inside_def)
  have "outer (s1\<lparr>depth := 0\<rparr>) = (outer s1)\<lparr>depth := 0\<rparr>" by (simp add: outer_def)
  also have "\<dots> = outer s" using assms(1) unfolding o by (simp add: outer_def ready_def)
  finally have o': "outer (s1\<lparr>depth := 0\<rparr>) = outer s" .
  moreover have "tracks bs (s1\<lparr>depth := 0\<rparr>)" by (rule tracks_cong [OF t]) simp_all
  ultimately show ?thesis using assms(1) outer_fields [OF o'] outer_fields(5) [OF o] by (simp add: ready_def)
qed

lemma inside_new:
  assumes "ready bs0 s" "inside bs s s1" "\<not> alloc_is_static r s" "int (length bs) < 2 ^ 63 - 1"
  shows "\<exists>s2. alloc_trace_new bt r sz s1 = Some s2 \<and> inside ((r, sz, take MAX_BACKTRACE_LEN bt) # bs) s s2"
proof -
  have o: "outer s1 = outer (s\<lparr>depth := 1\<rparr>)" and t: "tracks bs s1" using assms(2) by (auto simp: inside_def)
  have "\<not> alloc_is_static r s1" using assms(3) static_cong [OF o] by (simp add: alloc_is_static_def)
  then show ?thesis
    using trace_new_inv [OF t, of r bt sz] assms(1,4) outer_fields [OF o] o by (auto simp: inside_def ready_def)
qed

lemma inside_free:
  assumes "ready bs0 s" "inside bs s s1" "\<not> alloc_is_static p s"
  shows "if p \<in> fst ` set bs then \<exists>s2. alloc_free p s1 = Some s2 \<and> inside (remove_block p bs) s s2 else alloc_free p s1 = None"
proof -
  have o: "outer s1 = outer (s\<lparr>depth := 1\<rparr>)" and t: "tracks bs s1" using assms(2) by (auto simp: inside_def)
  have ns: "\<not> alloc_is_static p s1" using assms(3) static_cong [OF o] by (simp add: alloc_is_static_def)
  have d: "depth s1 \<le> 1" "is_init_done s1" "\<not> is_exit_done s1" using assms(1) outer_fields [OF o] by (auto simp: ready_def)
  show ?thesis
    using free_inv [OF t d ns] free_missing [OF t d ns] o by (auto simp: inside_def)
qed

lemma inside_fields:
  assumes "ready bs0 s" "inside bs s s1"
  shows "depth s1 = 1" "is_init_done s1" "\<not> is_exit_done s1" "defaults s1 = Libc_functions" "alloc_is_static p s1 = alloc_is_static p s"
proof -
  have o: "outer s1 = outer (s\<lparr>depth := 1\<rparr>)" using assms(2) by (auto simp: inside_def)
  show "depth s1 = 1" "is_init_done s1" "\<not> is_exit_done s1" "defaults s1 = Libc_functions" "alloc_is_static p s1 = alloc_is_static p s"
    using outer_fields [OF o] static_cong [OF o, of p] assms(1) by (simp_all add: ready_def alloc_is_static_def)
qed

section \<open>The wrappers one by one\<close>

text \<open>The functions of the C library, with the result r; what they call is ignored (see below).\<close>

definition gives :: "'r \<Rightarrow> 'a \<Rightarrow> hh \<Rightarrow> ('r \<times> hh) option" where
  "gives r x s = Some (r, s)"

lemma malloc_ready:
  assumes r: "ready bs s" and ns: "\<not> alloc_is_static p s" and n: "int (length bs) < 2 ^ 63 - 1"
  shows "\<exists>s'. malloc env (gives p) bt sz s = Some (p, s') \<and>
    ready (if p = 0 then bs else (p, sz, take MAX_BACKTRACE_LEN bt) # bs) s' \<and> outer s' = outer s"
proof (cases "p = 0")
  case True
  then show ?thesis using r inside_leave [OF r inside_enter [OF r]]
    by (simp add: malloc_def malloc_body_def default_malloc_def gives_def ready_def)
next
  case False
  obtain s2 where s2: "alloc_trace_new bt p sz (s\<lparr>depth := 1\<rparr>) = Some s2" "inside ((p, sz, take MAX_BACKTRACE_LEN bt) # bs) s s2"
    using inside_new [OF r inside_enter [OF r] ns n] by blast
  show ?thesis using False r s2 inside_leave [OF r s2(2)]
    by (auto simp: malloc_def malloc_body_def default_malloc_def gives_def ready_def)
qed

lemma calloc_ready:
  assumes r: "ready bs s" and ns: "\<not> alloc_is_static p s" and n: "int (length bs) < 2 ^ 63 - 1"
  shows "\<exists>s'. calloc env (\<lambda>_. gives p) bt num sz s = Some (p, s') \<and>
    ready (if p = 0 then bs else (p, num * sz mod 2 ^ 64, take MAX_BACKTRACE_LEN bt) # bs) s' \<and> outer s' = outer s"
proof (cases "p = 0")
  case True
  then show ?thesis using r inside_leave [OF r inside_enter [OF r]]
    by (simp add: calloc_def calloc_body_def default_calloc_def gives_def ready_def)
next
  case False
  obtain s2 where s2: "alloc_trace_new bt p (num * sz mod 2 ^ 64) (s\<lparr>depth := 1\<rparr>) = Some s2"
      "inside ((p, num * sz mod 2 ^ 64, take MAX_BACKTRACE_LEN bt) # bs) s s2"
    using inside_new [OF r inside_enter [OF r] ns n] by blast
  show ?thesis using False r s2 inside_leave [OF r s2(2)]
    by (auto simp: calloc_def calloc_body_def default_calloc_def gives_def ready_def)
qed

lemma free_ready:
  assumes r: "ready bs s" and p: "p \<noteq> 0" "\<not> alloc_is_static p s"
  shows "if p \<in> fst ` set bs
    then \<exists>s'. free env (\<lambda>_ s. Some s) p s = Some s' \<and> ready (remove_block p bs) s' \<and> outer s' = outer s
    else free env (\<lambda>_ s. Some s) p s = None"
proof -
  have inside: "inside bs s (s\<lparr>depth := 1\<rparr>)" by (rule inside_enter [OF r])
  show ?thesis
  proof (cases "p \<in> fst ` set bs")
    case True
    then obtain s2 where s2: "alloc_free p (s\<lparr>depth := 1\<rparr>) = Some s2" "inside (remove_block p bs) s s2"
      using inside_free [OF r inside p(2)] by auto
    then show ?thesis using True r p inside_leave [OF r s2(2)] inside_fields [OF r s2(2)]
      by (auto simp: free_def free_body_def default_free_def ready_def)
  next
    case False
    then show ?thesis using r p inside_free [OF r inside p(2)] by (simp add: free_def free_body_def ready_def)
  qed
qed

lemma strdup_ready:
  assumes r: "ready bs s" and ns: "\<not> alloc_is_static p s" "\<not> alloc_is_static q s" and n: "int (length bs) < 2 ^ 63 - 1"
  shows "\<exists>s'. strdup env (gives p) strlen bt q s = Some (p, s') \<and>
    ready (if p = 0 then bs else (p, strlen p + 1, take MAX_BACKTRACE_LEN bt) # bs) s' \<and> outer s' = outer s"
proof (cases "p = 0")
  case True
  then show ?thesis using r ns inside_leave [OF r inside_enter [OF r]]
    by (simp add: strdup_def gives_def ready_def Let_def)
next
  case False
  obtain s2 where s2: "alloc_trace_new bt p (strlen p + 1) (s\<lparr>depth := 1\<rparr>) = Some s2"
      "inside ((p, strlen p + 1, take MAX_BACKTRACE_LEN bt) # bs) s s2"
    using inside_new [OF r inside_enter [OF r] ns(1) n] by blast
  show ?thesis using False r ns s2 inside_leave [OF r s2(2)]
    by (auto simp: strdup_def gives_def ready_def Let_def)
qed

text \<open>
  What realloc, getline and their kind do to the list: the old block (0: there was none) goes and the
  new one comes, unless they are the same.
\<close>

definition replace_block :: "int \<Rightarrow> hblock \<Rightarrow> hblock list \<Rightarrow> hblock list" where
  "replace_block old new bs =
     (if old = 0 then (if fst new = 0 then bs else new # bs)
      else if fst new = old then bs
      else if fst new = 0 then remove_block old bs
      else new # remove_block old bs)"

lemma length_remove_block: "length (remove_block p bs) \<le> length bs"
  by (induction bs) auto

lemma realloc_ready:
  assumes r: "ready bs s" and old: "old = (if alloc_is_static p s then 0 else p)" "old = 0 \<or> old \<in> fst ` set bs"
    and ns: "\<not> alloc_is_static q s" and n: "int (length bs) < 2 ^ 63 - 1"
  shows "\<exists>s'. realloc env (\<lambda>_. gives q) bt p sz s = Some (q, s') \<and>
    ready (replace_block old (q, sz, take MAX_BACKTRACE_LEN bt) bs) s' \<and> outer s' = outer s"
proof -
  let ?s = "s\<lparr>depth := 1\<rparr>"
  have ins: "inside bs s ?s" by (rule inside_enter [OF r])
  have st: "\<not> alloc_is_static old s" using old by (auto simp: alloc_is_static_def)
  have pre: "realloc env (\<lambda>_. gives q) bt p sz s = do {
       s \<leftarrow> (if old = 0 \<and> q \<noteq> 0 then alloc_trace_new bt q sz ?s
          else if old \<noteq> 0 \<and> q = 0 then alloc_free old ?s
          else if old \<noteq> 0 \<and> q \<noteq> old then do { s \<leftarrow> alloc_free old ?s; alloc_trace_new bt q sz s }
          else Some ?s);
       Some (q, s\<lparr>depth := depth s - 1\<rparr>) }"
    using r old(1) by (simp add: realloc_def gives_def ready_def Let_def alloc_is_static_def)
  have leave: "ready bs' (s2\<lparr>depth := depth s2 - 1\<rparr>) \<and> outer (s2\<lparr>depth := depth s2 - 1\<rparr>) = outer s" if "inside bs' s s2" for bs' s2
    using inside_leave [OF r that] by simp
  consider (same) "old = q" | (new) "old = 0" "q \<noteq> 0" | (gone) "old \<noteq> 0" "q = 0" | (moved) "old \<noteq> 0" "q \<noteq> 0" "q \<noteq> old" by auto
  then show ?thesis
  proof cases
    case same
    then show ?thesis using leave [OF ins] unfolding pre replace_block_def by simp
  next
    case new
    obtain s2 where "alloc_trace_new bt q sz ?s = Some s2" "inside ((q, sz, take MAX_BACKTRACE_LEN bt) # bs) s s2"
      using inside_new [OF r ins ns n] by blast
    then show ?thesis using new leave unfolding pre replace_block_def by simp
  next
    case gone
    then obtain s2 where "alloc_free old ?s = Some s2" "inside (remove_block old bs) s s2"
      using inside_free [OF r ins st] old(2) by auto
    then show ?thesis using gone leave unfolding pre replace_block_def by simp
  next
    case moved
    then obtain s2 where s2: "alloc_free old ?s = Some s2" "inside (remove_block old bs) s s2"
      using inside_free [OF r ins st] old(2) by auto
    have "int (length (remove_block old bs)) < 2 ^ 63 - 1" using n length_remove_block [of old bs] by linarith
    then obtain s3 where "alloc_trace_new bt q sz s2 = Some s3" "inside ((q, sz, take MAX_BACKTRACE_LEN bt) # remove_block old bs) s s3"
      using inside_new [OF r s2(2) ns] by blast
    then show ?thesis using moved s2 leave unfolding pre replace_block_def by simp
  qed
qed

lemma getline_ready:
  assumes r: "ready bs s" and old: "\<not> alloc_is_static old s" "old = 0 \<or> old \<in> fst ` set bs" "q = 0 \<longrightarrow> old = 0"
    and ns: "\<not> alloc_is_static q s" and n: "int (length bs) < 2 ^ 63 - 1"
  shows "\<exists>s'. getline env (gives (res, q)) strlen bt old s = Some ((res, q), s') \<and>
    ready (replace_block old (q, strlen q + 1, take MAX_BACKTRACE_LEN bt) bs) s' \<and> outer s' = outer s"
proof -
  let ?s = "s\<lparr>depth := 1\<rparr>"
  have ins: "inside bs s ?s" by (rule inside_enter [OF r])
  have pre: "getline env (gives (res, q)) strlen bt old s = do {
       s \<leftarrow> (if old = 0 \<and> q \<noteq> 0 then alloc_trace_new bt q (strlen q + 1) ?s
          else if old \<noteq> 0 \<and> q \<noteq> old then do { s \<leftarrow> alloc_free old ?s; alloc_trace_new bt q (strlen q + 1) s }
          else Some ?s);
       Some ((res, q), s\<lparr>depth := depth s - 1\<rparr>) }"
    using r old by (auto simp: getline_def gives_def ready_def Let_def alloc_is_static_def)
  have leave: "ready bs' (s2\<lparr>depth := depth s2 - 1\<rparr>) \<and> outer (s2\<lparr>depth := depth s2 - 1\<rparr>) = outer s" if "inside bs' s s2" for bs' s2
    using inside_leave [OF r that] by simp
  consider (same) "old = q" | (new) "old = 0" "q \<noteq> 0" | (moved) "old \<noteq> 0" "q \<noteq> 0" "q \<noteq> old" using old(3) by auto
  then show ?thesis
  proof cases
    case same
    then show ?thesis using leave [OF ins] unfolding pre replace_block_def by simp
  next
    case new
    obtain s2 where "alloc_trace_new bt q (strlen q + 1) ?s = Some s2" "inside ((q, strlen q + 1, take MAX_BACKTRACE_LEN bt) # bs) s s2"
      using inside_new [OF r ins ns n] by blast
    then show ?thesis using new leave unfolding pre replace_block_def by simp
  next
    case moved
    then obtain s2 where s2: "alloc_free old ?s = Some s2" "inside (remove_block old bs) s s2"
      using inside_free [OF r ins old(1)] old(2) by auto
    have "int (length (remove_block old bs)) < 2 ^ 63 - 1" using n length_remove_block [of old bs] by linarith
    then obtain s3 where "alloc_trace_new bt q (strlen q + 1) s2 = Some s3" "inside ((q, strlen q + 1, take MAX_BACKTRACE_LEN bt) # remove_block old bs) s s3"
      using inside_new [OF r s2(2) ns] by blast
    then show ?thesis using moved s2 leave unfolding pre replace_block_def by simp
  qed
qed

lemma getaddrinfo_ready:
  assumes r: "ready bs s" and ns: "\<not> alloc_is_static p s" and n: "int (length bs) < 2 ^ 63 - 1"
  shows "\<exists>s'. getaddrinfo env (gives (rc, p) ()) bt s = Some ((rc, p), s') \<and>
    ready (if rc \<noteq> 0 \<or> p = 0 then bs else (p, sizeof_addrinfo, take MAX_BACKTRACE_LEN bt) # bs) s' \<and> outer s' = outer s"
proof (cases "rc \<noteq> 0 \<or> p = 0")
  case True
  then show ?thesis using r inside_leave [OF r inside_enter [OF r]]
    by (auto simp: getaddrinfo_def gives_def ready_def Let_def)
next
  case False
  obtain s2 where s2: "alloc_trace_new bt p sizeof_addrinfo (s\<lparr>depth := 1\<rparr>) = Some s2"
      "inside ((p, sizeof_addrinfo, take MAX_BACKTRACE_LEN bt) # bs) s s2"
    using inside_new [OF r inside_enter [OF r] ns n] by blast
  show ?thesis using False r s2 inside_leave [OF r s2(2)]
    by (auto simp: getaddrinfo_def gives_def ready_def Let_def)
qed

lemma freeaddrinfo_ready:
  assumes r: "ready bs s" and p: "p \<noteq> 0" "\<not> alloc_is_static p s" "p \<in> fst ` set bs"
  shows "\<exists>s'. freeaddrinfo env (\<lambda>_ s. Some s) p s = Some s' \<and> ready (remove_block p bs) s' \<and> outer s' = outer s"
proof -
  obtain s2 where s2: "alloc_free p (s\<lparr>depth := 1\<rparr>) = Some s2" "inside (remove_block p bs) s s2"
    using inside_free [OF r inside_enter [OF r] p(2)] p(3) by auto
  then show ?thesis using r p inside_leave [OF r s2(2)] inside_fields [OF r s2(2)]
    by (auto simp: freeaddrinfo_def ready_def)
qed

section \<open>The start\<close>

text \<open>The state while dlsym runs, with so many bytes of the static buffer used.\<close>

definition init_state :: "int \<Rightarrow> bool \<Rightarrow> int \<Rightarrow> hh" where
  "init_state region touched used = (hh_initial region)\<lparr>init_lock := True, init_lock_count := 1, defaults := Static_functions,
     static_size := (if touched then 16384 else 0), static_used := used, static_buf := (if touched then region else 0)\<rparr>"

text \<open>What the static allocator can serve: less than 16 KB, and frees of its own blocks only.\<close>

fun init_valid :: "int \<Rightarrow> bool \<Rightarrow> int \<Rightarrow> init_call list \<Rightarrow> bool" where
  "init_valid region touched used [] = True"
| "init_valid region touched used (Init_malloc sz # cs) =
     (0 \<le> sz \<and> used + sz < 16384 \<and> init_valid region True (used + sz) cs)"
| "init_valid region touched used (Init_calloc num sz # cs) =
     (0 \<le> sz * num \<and> used + sz * num < 16384 \<and> init_valid region True (used + sz * num) cs)"
| "init_valid region touched used (Init_free p # cs) =
     ((p = 0 \<or> touched \<and> region \<le> p \<and> p \<le> region + 16384) \<and> init_valid region touched used cs)"

fun init_used :: "init_call \<Rightarrow> int" where
  "init_used (Init_malloc sz) = sz"
| "init_used (Init_calloc num sz) = sz * num"
| "init_used (Init_free p) = 0"

lemma init_malloc:
  assumes "0 < region" "0 \<le> used" "0 \<le> sz" "used + sz < 16384"
  shows "malloc_body libc [] sz (init_state region touched used) = Some (region + used, init_state region True (used + sz))"
  using assms by (simp add: malloc_body_def default_malloc_def init_state_def hh_initial_def static_malloc_def
      static_allocator_touch_def alloc_trace_new_def alloc_is_static_def)

lemma init_calloc:
  assumes "0 < region" "0 \<le> used" "0 \<le> sz * num" "used + sz * num < 16384"
  shows "calloc_body libc [] num sz (init_state region touched used) = Some (region + used, init_state region True (used + sz * num))"
  using assms by (simp add: calloc_body_def default_calloc_def init_state_def hh_initial_def static_calloc_def static_malloc_def
      static_allocator_touch_def alloc_trace_new_def alloc_is_static_def)

lemma run_init_calls_spec:
  assumes "0 < region" "0 \<le> used" "init_valid region touched used cs"
  shows "\<exists>touched'. run_init_calls cs (init_state region touched used) =
    Some (init_state region touched' (used + sum_list (map init_used cs)))"
  using assms(2,3)
proof (induction cs arbitrary: touched used)
  case (Cons c cs)
  have ret: "heaph_touch_returns (init_state region touched used)" by (simp add: heaph_touch_returns_def init_state_def)
  show ?case
  proof (cases c)
    case (Init_malloc sz)
    then show ?thesis using Cons.IH [of "used + sz" True] Cons.prems ret init_malloc [OF assms(1), of used sz]
      by (simp add: add.assoc)
  next
    case (Init_calloc num sz)
    then show ?thesis using Cons.IH [of "used + sz * num" True] Cons.prems ret init_calloc [OF assms(1), of used sz num]
      by (simp add: add.assoc)
  next
    case (Init_free p)
    then have "run_init_call c (init_state region touched used) = Some (init_state region touched used)"
      using Cons.prems by (auto simp: alloc_is_static_def init_state_def)
    then show ?thesis using Init_free Cons.IH [of used touched] Cons.prems by simp
  qed
qed (use assms(1) in auto)

text \<open>The mode that the variable HHREPORT asks for.\<close>

definition asked_mode :: "string option \<Rightarrow> report_modes" where
  "asked_mode v = (if v = Some ''v'' then MODE_VERBOSE else if v = Some ''q'' then MODE_QUIET else MODE_LEAKS)"

lemma first_touch:
  assumes "0 < region" "init_valid region False 0 (init_calls env)"
  shows "\<exists>s. heaph_touch env (hh_initial region) = Some s \<and> ready [] s \<and> \<not> init_lock s \<and> init_lock_count s = 0 \<and>
    report_mode s = asked_mode (hh_report env) \<and> exit_handlers s = 1 \<and>
    static_used s = sum_list (map init_used (init_calls env)) \<and> static_buf s \<in> {0, region} \<and> static_size s \<le> 16384"
proof -
  obtain touched where calls: "run_init_calls (init_calls env) (init_state region False 0) =
      Some (init_state region touched (sum_list (map init_used (init_calls env))))"
    using run_init_calls_spec [OF assms(1) _ assms(2)] by auto
  have "(hh_initial region)\<lparr>init_lock := True, init_lock_count := 1, defaults := Static_functions\<rparr> = init_state region False 0"
    by (simp add: init_state_def hh_initial_def)
  then have init: "heaph_init env ((hh_initial region)\<lparr>init_lock := True, init_lock_count := 1\<rparr>) =
      Some ((init_state region touched (sum_list (map init_used (init_calls env))))\<lparr>defaults := Libc_functions,
        report_mode := asked_mode (hh_report env), exit_handlers := 1\<rparr>)"
    using calls by (auto simp: heaph_init_def asked_mode_def Let_def init_state_def hh_initial_def split: option.splits)
  define s where "s = (init_state region touched (sum_list (map init_used (init_calls env))))\<lparr>defaults := Libc_functions,
     report_mode := asked_mode (hh_report env), exit_handlers := 1, is_init_done := True, init_lock_count := 0, init_lock := False\<rparr>"
  have "heaph_lock (hh_initial region) = Some ((hh_initial region)\<lparr>init_lock := True, init_lock_count := 1\<rparr>)"
    by (simp add: heaph_lock_def spinlock_acq_def hh_initial_def)
  then have "heaph_touch env (hh_initial region) = Some s"
    using init by (simp add: heaph_touch_def heaph_touch_locked_def heaph_unlock_def spinlock_rel_def s_def hh_initial_def init_state_def Let_def)
  moreover have "hh_inv_at [] [] s" by (simp add: hh_inv_at_def s_def init_state_def hh_initial_def)
  then have "tracks [] s" unfolding tracks_def by (auto simp: s_def init_state_def hh_initial_def)
  then have "ready [] s" by (simp add: ready_def s_def init_state_def hh_initial_def)
  ultimately show ?thesis by (auto simp: s_def init_state_def)
qed

section \<open>Sequences of calls\<close>

datatype heap_call =
    Malloc_call int int
  | Calloc_call int int int
  | Realloc_call int int int
  | Free_call int
  | Strdup_call int int
  | Getline_call int int
  | Getaddrinfo_call int int
  | Freeaddrinfo_call int

text \<open>The last number is what the C library returns; the trace is that of the call.\<close>

fun run_heap_call :: "environment \<Rightarrow> (int \<Rightarrow> int) \<Rightarrow> int list \<Rightarrow> heap_call \<Rightarrow> hh \<Rightarrow> hh option" where
  "run_heap_call env strlen bt (Malloc_call sz p) s = map_option snd (malloc env (gives p) bt sz s)"
| "run_heap_call env strlen bt (Calloc_call num sz p) s = map_option snd (calloc env (\<lambda>_. gives p) bt num sz s)"
| "run_heap_call env strlen bt (Realloc_call q sz p) s = map_option snd (realloc env (\<lambda>_. gives p) bt q sz s)"
| "run_heap_call env strlen bt (Free_call p) s = free env (\<lambda>_ s. Some s) p s"
| "run_heap_call env strlen bt (Strdup_call q p) s = map_option snd (strdup env (gives p) strlen bt q s)"
| "run_heap_call env strlen bt (Getline_call q p) s = map_option snd (getline env (gives (0, p)) strlen bt q s)"
| "run_heap_call env strlen bt (Getaddrinfo_call rc p) s = map_option snd (getaddrinfo env (gives (rc, p) ()) bt s)"
| "run_heap_call env strlen bt (Freeaddrinfo_call p) s = freeaddrinfo env (\<lambda>_ s. Some s) p s"

text \<open>
  The heap of the program: the addresses of its blocks. A library that works gives addresses in no
  block, and the program frees its own blocks. A realloc that fails is left out.
\<close>

fun valid_call :: "(int \<Rightarrow> bool) \<Rightarrow> heap_call \<Rightarrow> int list \<Rightarrow> bool" where
  "valid_call st (Malloc_call sz p) live = (\<not> st p \<and> p \<notin> set live)"
| "valid_call st (Calloc_call num sz p) live = (\<not> st p \<and> p \<notin> set live)"
| "valid_call st (Realloc_call q sz p) live =
     ((q = 0 \<or> st q \<or> q \<in> set live) \<and> \<not> st p \<and> (p = q \<or> p \<notin> set live) \<and> (p = 0 \<and> q \<in> set live \<longrightarrow> sz = 0))"
| "valid_call st (Free_call p) live = (p = 0 \<or> st p \<or> p \<in> set live)"
| "valid_call st (Strdup_call q p) live = (\<not> st q \<and> \<not> st p \<and> p \<notin> set live)"
| "valid_call st (Getline_call q p) live =
     (\<not> st q \<and> (q = 0 \<or> q \<in> set live) \<and> \<not> st p \<and> (p = q \<or> p \<notin> set live) \<and> (p = 0 \<longrightarrow> q = 0))"
| "valid_call st (Getaddrinfo_call rc p) live = (\<not> st p \<and> p \<notin> set live)"
| "valid_call st (Freeaddrinfo_call p) live = (p = 0 \<or> \<not> st p \<and> p \<in> set live)"

definition moved :: "int \<Rightarrow> int \<Rightarrow> int list \<Rightarrow> int list" where
  "moved old new live = (if new = old then live else (if new = 0 then [] else [new]) @ remove1 old live)"

fun after_call :: "(int \<Rightarrow> bool) \<Rightarrow> heap_call \<Rightarrow> int list \<Rightarrow> int list" where
  "after_call st (Malloc_call sz p) live = moved 0 p live"
| "after_call st (Calloc_call num sz p) live = moved 0 p live"
| "after_call st (Realloc_call q sz p) live = moved (if st q then 0 else q) p live"
| "after_call st (Free_call p) live = (if st p then live else moved p 0 live)"
| "after_call st (Strdup_call q p) live = moved 0 p live"
| "after_call st (Getline_call q p) live = moved q p live"
| "after_call st (Getaddrinfo_call rc p) live = (if rc = 0 then moved 0 p live else live)"
| "after_call st (Freeaddrinfo_call p) live = moved p 0 live"

fun run_heap_calls :: "environment \<Rightarrow> (int \<Rightarrow> int) \<Rightarrow> (int list \<times> heap_call) list \<Rightarrow> hh \<Rightarrow> hh option" where
  "run_heap_calls env strlen [] s = Some s"
| "run_heap_calls env strlen ((bt, c) # cs) s = do { s \<leftarrow> run_heap_call env strlen bt c s; run_heap_calls env strlen cs s }"

fun valid_calls :: "(int \<Rightarrow> bool) \<Rightarrow> (int list \<times> heap_call) list \<Rightarrow> int list \<Rightarrow> bool" where
  "valid_calls st [] live = True"
| "valid_calls st ((bt, c) # cs) live = (valid_call st c live \<and> valid_calls st cs (after_call st c live))"

fun after_calls :: "(int \<Rightarrow> bool) \<Rightarrow> (int list \<times> heap_call) list \<Rightarrow> int list \<Rightarrow> int list" where
  "after_calls st [] live = live"
| "after_calls st ((bt, c) # cs) live = after_calls st cs (after_call st c live)"

lemma fst_remove_block: "map fst (remove_block p bs) = remove1 p (map fst bs)"
  by (induction bs) auto

lemma fst_replace_block:
  assumes "0 \<notin> fst ` set bs"
  shows "map fst (replace_block old new bs) = moved old (fst new) (map fst bs)"
  using assms by (auto simp: replace_block_def moved_def fst_remove_block remove1_idem)

lemma length_replace_block: "length (replace_block old new bs) \<le> Suc (length bs)"
  using length_remove_block [of old bs] by (auto simp: replace_block_def)

lemma moved_zero: "0 \<notin> set live \<Longrightarrow> 0 \<notin> set (moved old new live)"
  by (auto simp: moved_def dest: in_set_remove1 notin_set_remove1)

lemma new_block_as_moved: "0 \<notin> fst ` set bs \<Longrightarrow> map fst (if p = 0 then bs else (p, x) # bs) = moved 0 p (map fst bs)"
  by (auto simp: moved_def remove1_idem)

definition call_result :: "(int \<Rightarrow> bool) \<Rightarrow> heap_call \<Rightarrow> hblock list \<Rightarrow> hh \<Rightarrow> hh option \<Rightarrow> bool" where
  "call_result st c bs s r \<longleftrightarrow> (\<exists>s' bs'. r = Some s' \<and> ready bs' s' \<and> outer s' = outer s \<and>
     map fst bs' = after_call st c (map fst bs) \<and> length bs' \<le> Suc (length bs))"

lemma call_resultI:
  "r = Some s' \<Longrightarrow> ready bs' s' \<Longrightarrow> outer s' = outer s \<Longrightarrow> map fst bs' = after_call st c (map fst bs) \<Longrightarrow>
   length bs' \<le> Suc (length bs) \<Longrightarrow> call_result st c bs s r"
  unfolding call_result_def by blast

lemma call_ready:
  assumes r: "ready bs s" and z: "0 \<notin> fst ` set bs" and st: "st = (\<lambda>p. alloc_is_static p s)"
    and v: "valid_call st c (map fst bs)" and n: "int (length bs) < 2 ^ 63 - 1"
  shows "call_result st c bs s (run_heap_call env strlen bt c s)"
proof (cases c)
  case (Malloc_call sz p)
  then have ns: "\<not> alloc_is_static p s" using v st by simp
  obtain s' where "malloc env (gives p) bt sz s = Some (p, s')"
    "ready (if p = 0 then bs else (p, sz, take MAX_BACKTRACE_LEN bt) # bs) s'" "outer s' = outer s"
    using malloc_ready [OF r ns n] by blast
  note res = this
  show ?thesis by (rule call_resultI [OF _ res(2,3)]) (use res(1) Malloc_call z in \<open>auto simp: new_block_as_moved\<close>)
next
  case (Calloc_call num sz p)
  then have ns: "\<not> alloc_is_static p s" using v st by simp
  obtain s' where "calloc env (\<lambda>_. gives p) bt num sz s = Some (p, s')"
    "ready (if p = 0 then bs else (p, num * sz mod 2 ^ 64, take MAX_BACKTRACE_LEN bt) # bs) s'" "outer s' = outer s"
    using calloc_ready [OF r ns n] by blast
  note res = this
  show ?thesis by (rule call_resultI [OF _ res(2,3)]) (use res(1) Calloc_call z in \<open>auto simp: new_block_as_moved\<close>)
next
  case (Realloc_call q sz p)
  define old where "old = (if alloc_is_static q s then 0 else q)"
  have "\<not> alloc_is_static p s" "old = 0 \<or> old \<in> fst ` set bs" using v st Realloc_call by (auto simp: old_def)
  then obtain s' where "realloc env (\<lambda>_. gives p) bt q sz s = Some (p, s')"
    "ready (replace_block old (p, sz, take MAX_BACKTRACE_LEN bt) bs) s'" "outer s' = outer s"
    using realloc_ready [OF r old_def _ _ n] by blast
  note res = this
  show ?thesis by (rule call_resultI [OF _ res(2,3)])
      (use res(1) Realloc_call z st length_replace_block in \<open>auto simp: fst_replace_block old_def\<close>)
next
  case (Free_call p)
  show ?thesis
  proof (cases "p = 0 \<or> alloc_is_static p s")
    case True
    then show ?thesis using Free_call r st z
      by (intro call_resultI [of _ s bs]) (auto simp: free_def moved_def remove1_idem)
  next
    case False
    then have "p \<in> fst ` set bs" using v st Free_call by auto
    then obtain s' where "free env (\<lambda>_ s. Some s) p s = Some s'" "ready (remove_block p bs) s'" "outer s' = outer s"
      using free_ready [OF r, of p env] False by auto
    note res = this
    show ?thesis by (rule call_resultI [OF _ res(2,3)])
        (use res(1) Free_call False st length_remove_block [of p bs] in \<open>auto simp: moved_def fst_remove_block\<close>)
  qed
next
  case (Strdup_call q p)
  then have ns: "\<not> alloc_is_static p s" "\<not> alloc_is_static q s" using v st by simp_all
  obtain s' where "strdup env (gives p) strlen bt q s = Some (p, s')"
    "ready (if p = 0 then bs else (p, strlen p + 1, take MAX_BACKTRACE_LEN bt) # bs) s'" "outer s' = outer s"
    using strdup_ready [OF r ns n] by blast
  note res = this
  show ?thesis by (rule call_resultI [OF _ res(2,3)]) (use res(1) Strdup_call z in \<open>auto simp: new_block_as_moved\<close>)
next
  case (Getline_call q p)
  then have "\<not> alloc_is_static q s" "q = 0 \<or> q \<in> fst ` set bs" "p = 0 \<longrightarrow> q = 0" "\<not> alloc_is_static p s"
    using v st by auto
  then obtain s' where "getline env (gives (0, p)) strlen bt q s = Some ((0, p), s')"
    "ready (replace_block q (p, strlen p + 1, take MAX_BACKTRACE_LEN bt) bs) s'" "outer s' = outer s"
    using getline_ready [OF r _ _ _ _ n] by blast
  note res = this
  show ?thesis by (rule call_resultI [OF _ res(2,3)])
      (use res(1) Getline_call z length_replace_block in \<open>auto simp: fst_replace_block\<close>)
next
  case (Getaddrinfo_call rc p)
  then have ns: "\<not> alloc_is_static p s" using v st by simp
  obtain s' where "getaddrinfo env (gives (rc, p) ()) bt s = Some ((rc, p), s')"
    "ready (if rc \<noteq> 0 \<or> p = 0 then bs else (p, sizeof_addrinfo, take MAX_BACKTRACE_LEN bt) # bs) s'" "outer s' = outer s"
    using getaddrinfo_ready [OF r ns n] by blast
  note res = this
  show ?thesis by (rule call_resultI [OF _ res(2,3)])
      (use res(1) Getaddrinfo_call z in \<open>auto simp: moved_def remove1_idem\<close>)
next
  case (Freeaddrinfo_call p)
  show ?thesis
  proof (cases "p = 0")
    case True
    then show ?thesis using Freeaddrinfo_call r z
      by (intro call_resultI [of _ s bs]) (auto simp: freeaddrinfo_def moved_def)
  next
    case False
    then have "p \<in> fst ` set bs" "\<not> alloc_is_static p s" using v st Freeaddrinfo_call by auto
    then obtain s' where "freeaddrinfo env (\<lambda>_ s. Some s) p s = Some s'" "ready (remove_block p bs) s'" "outer s' = outer s"
      using freeaddrinfo_ready [OF r False] by blast
    note res = this
    show ?thesis by (rule call_resultI [OF _ res(2,3)])
        (use res(1) Freeaddrinfo_call False length_remove_block [of p bs] in \<open>auto simp: moved_def fst_remove_block\<close>)
  qed
qed

lemma after_call_zero: "0 \<notin> set live \<Longrightarrow> 0 \<notin> set (after_call st c live)"
  by (cases c) (auto simp: moved_zero)

lemma calls_ready:
  assumes "ready bs s" "0 \<notin> fst ` set bs" "st = (\<lambda>p. alloc_is_static p s)" "valid_calls st cs (map fst bs)"
    "int (length bs + length cs) < 2 ^ 63"
  shows "\<exists>s' bs'. run_heap_calls env strlen cs s = Some s' \<and> ready bs' s' \<and> outer s' = outer s \<and>
    map fst bs' = after_calls st cs (map fst bs)"
  using assms
proof (induction cs arbitrary: bs s)
  case (Cons a cs)
  obtain bt c where a: "a = (bt, c)" by (cases a)
  have "int (length bs) < 2 ^ 63 - 1" "valid_call st c (map fst bs)" using Cons.prems a by auto
  from call_ready [OF Cons.prems(1-3) this(2,1)] obtain s1 bs1 where s1: "run_heap_call env strlen bt c s = Some s1" "ready bs1 s1"
    "outer s1 = outer s" "map fst bs1 = after_call st c (map fst bs)" "length bs1 \<le> Suc (length bs)"
    unfolding call_result_def by blast
  have "0 \<notin> set (map fst bs1)" unfolding s1(4) using after_call_zero Cons.prems(2) by simp
  then have "0 \<notin> fst ` set bs1" by simp
  moreover have "st = (\<lambda>p. alloc_is_static p s1)" using Cons.prems(3) static_cong [OF s1(3)] by simp
  moreover have "int (length bs1 + length cs) < 2 ^ 63" using Cons.prems(5) s1(5) by simp
  moreover have "valid_calls st cs (map fst bs1)" unfolding s1(4) using Cons.prems(4) a by simp
  ultimately have "\<exists>s' bs'. run_heap_calls env strlen cs s1 = Some s' \<and> ready bs' s' \<and> outer s' = outer s1 \<and>
    map fst bs' = after_calls st cs (map fst bs1)"
    using Cons.IH [OF s1(2)] by blast
  then show ?case unfolding a valid_calls.simps after_calls.simps run_heap_calls.simps s1(1,3,4) by simp
qed auto

section \<open>The report\<close>

text \<open>
  The report as a function of the tracked blocks. Blocks whose call stack shows that the C library
  allocated them for itself, or which have no call stack, are not shown.
\<close>

definition block_syms :: "(int \<Rightarrow> symbol_info option) \<Rightarrow> hblock \<Rightarrow> symbol_info list" where
  "block_syms dladdr b = map (\<lambda>addr. the (dladdr addr)) (snd (snd b))"

definition shown :: "(int \<Rightarrow> symbol_info option) \<Rightarrow> hblock \<Rightarrow> bool" where
  "shown dladdr b \<longleftrightarrow> snd (snd b) \<noteq> [] \<and> \<not> trace_is_internal (block_syms dladdr b)"

definition line_text :: "string \<Rightarrow> string" where "line_text msg = take 1023 (msg @ newline)"

fun trace_text :: "nat \<Rightarrow> symbol_info list \<Rightarrow> string" where
  "trace_text i [] = ''''"
| "trace_text i (y # ys) = line_text (show_int (int i) @ '' - '' @ show_name (sym_name y)) @ trace_text (Suc i) ys"

fun leak_texts :: "(int \<Rightarrow> symbol_info option) \<Rightarrow> int \<Rightarrow> hblock list \<Rightarrow> string" where
  "leak_texts dladdr k [] = ''''"
| "leak_texts dladdr k (b # bs) =
     line_text (''#### Leak '' @ show_int (k + 1) @ '' ('' @ show_int (fst (snd b)) @ '' bytes) ####'') @
     trace_text 0 (block_syms dladdr b) @ leak_texts dladdr (k + 1) bs"

definition report_text :: "(int \<Rightarrow> symbol_info option) \<Rightarrow> report_modes \<Rightarrow> int \<Rightarrow> hblock list \<Rightarrow> string" where
  "report_text dladdr mode tot bs =
     (let vs = filter (shown dladdr) bs;
          hidden = int (length bs) - int (length vs);
          last_line = line_text (''HH: total allocation count - '' @ show_int tot)
      in if mode = MODE_QUIET then ''''
         else if bs = [] then (if mode = MODE_VERBOSE then newline @ line_text ''HH: found no leaks'' @ last_line else '''')
         else if vs = [] \<and> mode = MODE_LEAKS then ''''
         else newline @ leak_texts dladdr 0 (take 10 vs) @
           line_text (''HH: found '' @ show_int (int (length vs)) @ '' leaks ('' @
             show_int (sum_list (map (fst \<circ> snd) vs) mod 2 ^ 64) @ '' bytes)'') @
           (if hidden \<noteq> 0 then line_text (''HH: suppressed '' @ show_int hidden @ '' internal leaks'') else '''') @
           (if length vs > 10 then line_text (''HH: only first 10 reports are shown'') else '''') @ last_line)"

lemma trace_resolve_total:
  "\<forall>addr\<in>set addrs. dladdr addr \<noteq> None \<Longrightarrow> trace_resolve dladdr addrs s = (map (\<lambda>addr. the (dladdr addr)) addrs, s)"
  by (induction addrs) auto

lemma print_trace_text: "print_trace i ys s = s\<lparr>printed := printed s @ trace_text i ys\<rparr>"
  by (induction i ys s rule: print_trace.induct) (simp_all add: heaph_printf_def line_text_def del: take_append)

text \<open>The report so far, and what one block adds to it.\<close>

definition reported :: "(int \<Rightarrow> symbol_info option) \<Rightarrow> hblock list \<Rightarrow> report \<Rightarrow> report \<Rightarrow> string \<Rightarrow> bool" where
  "reported dladdr bs r r' out \<longleftrightarrow>
     (let vs = filter (shown dladdr) bs; printed_now = take (nat (10 - r_report_count r)) vs in
      r_count r' = r_count r - (int (length bs) - int (length vs)) \<and>
      r_report_count r' = r_report_count r + int (length printed_now) \<and>
      r_leak_size r' = (r_leak_size r + sum_list (map (fst \<circ> snd) vs)) mod 2 ^ 64 \<and>
      r_prefix r' = (if printed_now = [] then r_prefix r else '''') \<and>
      out = (if printed_now = [] then '''' else take 1023 (r_prefix r)) @ leak_texts dladdr (r_report_count r) printed_now)"

lemma report_block_spec:
  assumes res: "\<forall>addr\<in>set (trace n). dladdr addr \<noteq> None" and c: "0 < r_count r"
    and k: "r_report_count r \<le> 10" and l: "0 \<le> r_leak_size r" "r_leak_size r < 2 ^ 64"
  shows "\<exists>r' out. report_block dladdr n r s = Some (r', s\<lparr>printed := printed s @ out\<rparr>) \<and>
    reported dladdr [(mem n, alloc_size n, trace n)] r r' out"
proof -
  let ?b = "(mem n, alloc_size n, trace n)"
  have syms: "trace_resolve dladdr (trace n) s = (block_syms dladdr ?b, s)"
    using trace_resolve_total [of "trace n" dladdr s] res by (simp add: block_syms_def)
  consider (hide) "\<not> shown dladdr ?b" | (print) "shown dladdr ?b" "r_report_count r < 10" | (count) "shown dladdr ?b" "r_report_count r = 10"
    using k by linarith
  then show ?thesis
  proof cases
    case hide
    then have run: "report_block dladdr n r s = Some (r\<lparr>r_count := r_count r - 1\<rparr>, s)"
      using c syms by (auto simp: report_block_def shown_def Let_def)
    have "reported dladdr [?b] r (r\<lparr>r_count := r_count r - 1\<rparr>) ''''"
      using hide l by (simp add: reported_def Let_def)
    then show ?thesis unfolding run by (intro exI [of _ "r\<lparr>r_count := r_count r - 1\<rparr>"] exI [of _ "''''"]) simp
  next
    case print
    define r' where "r' = r\<lparr>r_prefix := '''', r_report_count := r_report_count r + 1,
      r_leak_size := (r_leak_size r + alloc_size n) mod 2 ^ 64\<rparr>"
    define out where "out = take 1023 (r_prefix r) @ leak_texts dladdr (r_report_count r) [?b]"
    have "trace n \<noteq> []" "\<not> trace_is_internal (block_syms dladdr ?b)" using print by (auto simp: shown_def)
    then have run: "report_block dladdr n r s = Some (r', s\<lparr>printed := printed s @ out\<rparr>)"
      using print c syms by (simp add: report_block_def Let_def report_limit_def print_trace_text heaph_printf_def line_text_def
          r'_def out_def del: take_append)
    have "reported dladdr [?b] r r' out"
      using print by (simp add: reported_def Let_def r'_def out_def)
    then show ?thesis using run by blast
  next
    case count
    then have "trace n \<noteq> []" "\<not> trace_is_internal (block_syms dladdr ?b)" by (auto simp: shown_def)
    then have run: "report_block dladdr n r s = Some (r\<lparr>r_leak_size := (r_leak_size r + alloc_size n) mod 2 ^ 64\<rparr>, s)"
      using count c syms by (simp add: report_block_def Let_def report_limit_def)
    have "reported dladdr [?b] r (r\<lparr>r_leak_size := (r_leak_size r + alloc_size n) mod 2 ^ 64\<rparr>) ''''"
      using count by (simp add: reported_def Let_def)
    then show ?thesis unfolding run
      by (intro exI [of _ "r\<lparr>r_leak_size := (r_leak_size r + alloc_size n) mod 2 ^ 64\<rparr>"] exI [of _ "''''"]) simp
  qed
qed

lemma reported_append:
  assumes a: "reported dladdr [b] r r1 out1" and b: "reported dladdr bs r1 r2 out2" and k: "r_report_count r \<le> 10" "r_report_count r \<ge> 0"
  shows "reported dladdr (b # bs) r r2 (out1 @ out2)"
proof (cases "shown dladdr b")
  case False
  then show ?thesis using a b unfolding reported_def by (auto simp: Let_def mod_simps)
next
  case True
  show ?thesis
  proof (cases "r_report_count r = 10")
    case True
    then show ?thesis using a b \<open>shown dladdr b\<close> unfolding reported_def
      by (auto simp: Let_def mod_simps algebra_simps)
  next
    case False
    then have n: "nat (10 - r_report_count r) = Suc (nat (10 - (r_report_count r + 1)))" using k by linarith
    then have "take (nat (10 - r_report_count r)) [b] = [b]" by simp
    then show ?thesis using a b \<open>shown dladdr b\<close> n unfolding reported_def
      by (auto simp: Let_def mod_simps algebra_simps)
  qed
qed

lemma reported_bounds:
  assumes "reported dladdr bs r r' out" "r_report_count r \<le> 10" "0 \<le> r_report_count r"
  shows "r_report_count r' \<le> 10" "0 \<le> r_report_count r'" "0 \<le> r_leak_size r'" "r_leak_size r' < 2 ^ 64"
    "r_count r - int (length bs) \<le> r_count r'"
  using assms by (auto simp: reported_def Let_def)

lemma report_loop_spec:
  assumes "slseg (alloc_objects s) a xs None" "\<forall>b\<in>set (map (block_at (alloc_objects s)) xs). \<forall>addr\<in>set (snd (snd b)). dladdr addr \<noteq> None"
    "int (length xs) \<le> r_count r" "r_report_count r \<le> 10" "0 \<le> r_report_count r" "0 \<le> r_leak_size r" "r_leak_size r < 2 ^ 64"
  shows "\<exists>r' out. report_loop dladdr a r s = Some (r', s\<lparr>printed := printed s @ out\<rparr>) \<and>
    reported dladdr (map (block_at (alloc_objects s)) xs) r r' out"
  using assms
proof (induction xs arbitrary: a r s)
  case Nil
  then have "reported dladdr [] r r []" by (simp add: reported_def Let_def)
  then show ?case using Nil.prems(1) by (subst report_loop.simps) (auto intro!: exI [of _ r] exI [of _ "[]"])
next
  case (Cons x xs)
  obtain n where n: "a = Some x" "alloc_objects s x = Some n" "slseg (alloc_objects s) (alloc_next n) xs None"
    using Cons.prems(1) by (auto split: option.splits)
  have b: "block_at (alloc_objects s) x = (mem n, alloc_size n, trace n)" using n by (simp add: block_at_def Let_def)
  have tr: "\<forall>addr\<in>set (trace n). dladdr addr \<noteq> None" using Cons.prems(2) b by simp
  have pos: "0 < r_count r" using Cons.prems(3) by simp
  obtain r1 out1 where r1: "report_block dladdr n r s = Some (r1, s\<lparr>printed := printed s @ out1\<rparr>)"
    and rep1: "reported dladdr [(mem n, alloc_size n, trace n)] r r1 out1"
    using report_block_spec [OF tr pos Cons.prems(4,6,7)] by blast
  note bounds = reported_bounds [OF rep1 Cons.prems(4,5)]
  let ?s = "s\<lparr>printed := printed s @ out1\<rparr>"
  have "\<exists>r' out. report_loop dladdr (alloc_next n) r1 ?s = Some (r', ?s\<lparr>printed := printed ?s @ out\<rparr>) \<and>
      reported dladdr (map (block_at (alloc_objects ?s)) xs) r1 r' out"
    by (rule Cons.IH) (use n Cons.prems bounds in simp_all)
  then obtain r2 out2 where r2: "report_loop dladdr (alloc_next n) r1 ?s = Some (r2, s\<lparr>printed := printed s @ out1 @ out2\<rparr>)"
    and rep2: "reported dladdr (map (block_at (alloc_objects s)) xs) r1 r2 out2" by auto
  have "report_loop dladdr a r s = Some (r2, s\<lparr>printed := printed s @ (out1 @ out2)\<rparr>)"
    using n r1 r2 by (subst report_loop.simps) simp
  moreover have "reported dladdr (map (block_at (alloc_objects s)) (x # xs)) r r2 (out1 @ out2)"
    using reported_append [OF rep1 rep2 Cons.prems(4,5)] b by simp
  ultimately show ?case by blast
qed

lemma show_int_10: "show_int 10 = ''10''"
  by (simp add: show_int_def show_nat.simps char_of_def bit_Suc_0_iff)

lemma atexit_spec:
  assumes tr: "tracks bs s" and e: "\<not> is_exit_done s" and res: "\<forall>b\<in>set bs. \<forall>addr\<in>set (snd (snd b)). dladdr addr \<noteq> None"
  shows "\<exists>s'. heaph_atexit dladdr s = Some s' \<and> is_exit_done s' \<and>
    printed s' = printed s @ report_text dladdr (report_mode s) (alloc_count_total s) bs"
proof -
  obtain xs ps where inv: "hh_inv_at xs ps s" and lock: "\<not> allocs_lock s" and bs: "bs = map (block_at (alloc_objects s)) xs"
    using tr by (auto simp: tracks_def)
  have cnt: "alloc_count s = int (length bs)" using inv bs by (simp add: hh_inv_at_def)
  consider (quiet) "report_mode s = MODE_QUIET" | (empty) "report_mode s \<noteq> MODE_QUIET" "bs = []"
    | (full) "report_mode s \<noteq> MODE_QUIET" "bs \<noteq> []" by blast
  then show ?thesis
  proof cases
    case quiet
    then show ?thesis using e by (simp add: heaph_atexit_def report_text_def Let_def)
  next
    case empty
    then have nr: "report_mode s \<noteq> MODE_VERBOSE \<longrightarrow> report_mode s = MODE_LEAKS" by (cases "report_mode s") auto
    show ?thesis using e empty cnt lock nr
      by (auto simp: heaph_atexit_def report_text_def Let_def spinlock_acq_def spinlock_rel_def heaph_printf_def line_text_def newline_def
          simp del: take_append)
  next
    case full
    define s1 where "s1 = s\<lparr>is_exit_done := True, allocs_lock := True\<rparr>"
    define r where "r = \<lparr>r_count = int (length bs), r_report_count = 0, r_leak_size = 0, r_prefix = newline\<rparr>"
    have "\<exists>r' out. report_loop dladdr (allocs s1) r s1 = Some (r', s1\<lparr>printed := printed s1 @ out\<rparr>) \<and>
        reported dladdr (map (block_at (alloc_objects s1)) xs) r r' out"
      by (rule report_loop_spec) (use inv bs res in \<open>simp_all add: hh_inv_at_def s1_def r_def\<close>)
    then obtain r' out where loop: "report_loop dladdr (allocs s) r s1 = Some (r', s1\<lparr>printed := printed s @ out\<rparr>)"
      and rep: "reported dladdr bs r r' out" using bs by (auto simp: s1_def)
    let ?vs = "filter (shown dladdr) bs"
    have r': "r_count r' = int (length ?vs)" "r_report_count r' = int (length (take 10 ?vs))"
      "r_leak_size r' = sum_list (map (fst \<circ> snd) ?vs) mod 2 ^ 64" "r_prefix r' = (if ?vs = [] then newline else [])"
      "out = (if ?vs = [] then [] else newline) @ leak_texts dladdr 0 (take 10 ?vs)"
      using rep by (auto simp: reported_def r_def Let_def newline_def)
    have pre: "heaph_atexit dladdr s = do {
            (r, s) \<leftarrow> Some (r', s1\<lparr>printed := printed s @ out\<rparr>);
            let s = s\<lparr>allocs_lock := False\<rparr>;
            if r_count r = 0 \<and> report_mode s \<noteq> MODE_VERBOSE then Some s
            else do {
              let suppressed_count = int (length bs) - r_count r;
              let s = heaph_printf (r_prefix r) s;
              let s = heaph_printf (''HH: found '' @ show_int (r_count r) @ '' leaks ('' @ show_int (r_leak_size r) @ '' bytes)'' @ newline) s;
              let s = (if suppressed_count \<noteq> 0
                then heaph_printf (''HH: suppressed '' @ show_int suppressed_count @ '' internal leaks'' @ newline) s else s);
              let s = (if r_report_count r < r_count r
                then heaph_printf (''HH: only first '' @ show_int (r_report_count r) @ '' reports are shown'' @ newline) s else s);
              Some (heaph_printf (''HH: total allocation count - '' @ show_int (alloc_count_total s) @ newline) s) } }"
      using full e cnt lock loop by (simp add: heaph_atexit_def Let_def spinlock_acq_def spinlock_rel_def s1_def r_def)
    define hidden where "hidden = int (length bs) - int (length ?vs)"
    have rc: "(r_report_count r' < r_count r') = (length ?vs > 10)" and r10: "length ?vs > 10 \<Longrightarrow> r_report_count r' = 10"
      unfolding r' by auto
    have emp: "(r_count r' = 0) = (?vs = [])" unfolding r' by simp
    define found where "found = line_text (''HH: found '' @ show_int (r_count r') @ '' leaks ('' @ show_int (r_leak_size r') @ '' bytes)'')"
    define body where "body = (if hidden \<noteq> 0 then line_text (''HH: suppressed '' @ show_int hidden @ '' internal leaks'') else '''') @
      (if length ?vs > 10 then line_text (''HH: only first '' @ show_int 10 @ '' reports are shown'') else '''') @
      line_text (''HH: total allocation count - '' @ show_int (alloc_count_total s))"
    have post: "\<exists>s'. heaph_atexit dladdr s = Some s' \<and> is_exit_done s' \<and> printed s' = printed s @ out @
        (if ?vs = [] \<and> report_mode s \<noteq> MODE_VERBOSE then '''' else r_prefix r' @ found @ body)"
      unfolding pre using emp rc r10 r'(1,4)
      by (auto simp: Let_def s1_def heaph_printf_def found_def body_def line_text_def newline_def hidden_def simp del: take_append)
    have rest: "report_text dladdr (report_mode s) (alloc_count_total s) bs =
        (if ?vs = [] \<and> report_mode s \<noteq> MODE_VERBOSE then '''' else newline @ leak_texts dladdr 0 (take 10 ?vs) @ found @ body)"
      using full unfolding report_text_def Let_def found_def body_def hidden_def r' show_int_10
      by (cases "report_mode s") simp_all
    have "out @ (if ?vs = [] \<and> report_mode s \<noteq> MODE_VERBOSE then '''' else r_prefix r' @ found @ body) =
        report_text dladdr (report_mode s) (alloc_count_total s) bs"
      unfolding rest r' by simp
    then show ?thesis using post by auto
  qed
qed

section \<open>Calls inside calls\<close>

lemma trace_new_nested: "1 < depth s \<Longrightarrow> alloc_trace_new bt p sz s = Some s"
  by (simp add: alloc_trace_new_def)

lemma alloc_free_nested: "1 < depth s \<Longrightarrow> alloc_free p s = Some s"
  by (simp add: alloc_free_def)

lemma run_init_call_again:
  assumes "is_init_done s" "defaults s = Static_functions" "run_init_call c s = Some t"
  shows "is_init_done t \<and> defaults t = Static_functions"
proof (cases c)
  case (Init_free p)
  have keep: "is_init_done s1 = is_init_done s2 \<and> defaults s1 = defaults s2" if "alloc_free p s2 = Some s1" for s1 s2
    using that by (auto simp: alloc_free_def bind_eq_Some_conv Let_def split: if_splits option.splits)
  show ?thesis
    using assms Init_free by (auto simp: free_body_def default_free_def static_free_def bind_eq_Some_conv
        split: if_splits dest!: keep)
qed (use assms in \<open>auto simp: malloc_body_def calloc_body_def default_malloc_def default_calloc_def static_calloc_def
      static_malloc_def split: if_splits\<close>)

lemma run_init_calls_again:
  assumes "is_init_done s" "defaults s = Static_functions" "run_init_calls cs s = Some t"
  shows "is_init_done t"
  using assms
proof (induction cs arbitrary: s)
  case (Cons c cs)
  then obtain s1 where "run_init_call c s = Some s1" "run_init_calls cs s1 = Some t" by (auto simp: bind_eq_Some_conv)
  then show ?case using Cons run_init_call_again by blast
qed simp

lemma heaph_init_again:
  assumes "is_init_done s" "heaph_init env s = Some t"
  shows "is_init_done t"
proof -
  obtain s1 where s1: "run_init_calls (init_calls env) (s\<lparr>defaults := Static_functions\<rparr>) = Some s1"
    using assms(2) by (auto simp: heaph_init_def bind_eq_Some_conv)
  then have "is_init_done s1" by (rule run_init_calls_again [rotated 2]) (use assms(1) in simp_all)
  then show ?thesis using assms(2) s1
    by (cases "hh_report env") (auto simp: heaph_init_def Let_def)
qed

section \<open>Properties\<close>

definition no_init_calls :: environment where
  "no_init_calls = \<lparr>init_calls = [], hh_report = None\<rparr>"

definition demo_env :: environment where
  "demo_env = \<lparr>init_calls = [Init_calloc 1 32, Init_malloc 100, Init_free 5000], hh_report = Some ''l''\<rparr>"

lemma demo_start: "\<exists>s. heaph_touch demo_env (hh_initial 5000) = Some s \<and> ready [] s \<and> (\<forall>p. 90000 \<le> p \<longrightarrow> \<not> alloc_is_static p s)"
proof -
  obtain s where s: "heaph_touch demo_env (hh_initial 5000) = Some s" "ready [] s" "static_buf s \<in> {0, 5000}" "static_size s \<le> 16384"
    using first_touch [of 5000 demo_env] by (auto simp: demo_env_def)
  then show ?thesis by (intro exI [of _ s]) (auto simp: alloc_is_static_def)
qed

lemma after_calls_bound: "length (after_calls st cs live) \<le> length live + length cs"
proof (induction cs arbitrary: live)
  case (Cons a cs)
  obtain bt c where a: "a = (bt, c)" by (cases a)
  have m: "length (moved old new live) \<le> Suc (length live)" for old new by (auto simp: moved_def length_remove1)
  have "length (after_call st c live) \<le> Suc (length live)" by (cases c) (simp_all add: m)
  then show ?case using Cons.IH [of "after_call st c live"] a by simp
qed simp

text \<open>C25: After the first use, every sequence of fewer than 2^63 valid calls runs without an abort, and
  the list of the checker holds exactly the blocks that the program has allocated and not freed;
  heaph_get_alloc_count is their number. The calls are valid when the library gives addresses outside
  the live blocks, the program frees and resizes only its own blocks and those of the static buffer,
  no such block is passed to strdup, getline or freeaddrinfo, and no realloc of a live block fails:
  after a realloc that fails the correct free of the block aborts (failed_realloc_forgets_block).\<close>

theorem tracked_blocks_exact:
  assumes "0 < region" "init_valid region False 0 (init_calls env)" "heaph_touch env (hh_initial region) = Some s0"
    "valid_calls (\<lambda>p. alloc_is_static p s0) cs []" "int (length cs) < 2 ^ 63"
  shows "\<exists>s bs. run_heap_calls env strlen cs s0 = Some s \<and> tracks bs s \<and>
    map fst bs = after_calls (\<lambda>p. alloc_is_static p s0) cs [] \<and>
    heaph_get_alloc_count s = Some (int (length (after_calls (\<lambda>p. alloc_is_static p s0) cs [])), s)"
proof -
  have "ready [] s0" using first_touch [OF assms(1,2)] assms(3) by auto
  from calls_ready [OF this _ refl, of cs env strlen] assms(4,5)
  obtain s bs where s: "run_heap_calls env strlen cs s0 = Some s" "ready bs s"
    "map fst bs = after_calls (\<lambda>p. alloc_is_static p s0) cs []" by auto
  have len: "length bs = length (after_calls (\<lambda>p. alloc_is_static p s0) cs [])" unfolding s(3) [symmetric] by simp
  have "length bs \<le> length cs" using after_calls_bound [of "\<lambda>p. alloc_is_static p s0" cs "[]"] len by simp
  then have "int (length bs) mod 2 ^ 64 = int (length bs)" using assms(5) by simp
  moreover have "alloc_count s = int (length bs)" "\<not> allocs_lock s"
    using s(2) by (auto simp: ready_def tracks_def hh_inv_at_def)
  ultimately have "heaph_get_alloc_count s = Some (int (length bs), s)"
    by (simp add: heaph_get_alloc_count_def spinlock_acq_def spinlock_rel_def)
  then show ?thesis using s len by (auto simp: ready_def)
qed

theorem tracked_blocks_exact_witness:
  "\<exists>s0 s. heaph_touch demo_env (hh_initial 5000) = Some s0 \<and>
     run_heap_calls demo_env (\<lambda>_. 9) [([1], Malloc_call 10 90000), ([1], Strdup_call 90000 90100), ([2], Free_call 90000),
       ([3], Getline_call 90100 90200), ([3], Realloc_call 90200 50 90300)] s0 = Some s \<and> heaph_get_alloc_count s = Some (1, s)"
proof -
  let ?cs = "[([1::int], Malloc_call 10 90000), ([1], Strdup_call 90000 90100), ([2], Free_call 90000),
       ([3], Getline_call 90100 90200), ([3], Realloc_call 90200 50 90300)]"
  obtain s0 where s0: "heaph_touch demo_env (hh_initial 5000) = Some s0" "\<And>p. 90000 \<le> p \<Longrightarrow> \<not> alloc_is_static p s0"
    using demo_start by blast
  have v: "valid_calls (\<lambda>p. alloc_is_static p s0) ?cs []" and a: "after_calls (\<lambda>p. alloc_is_static p s0) ?cs [] = [90300]"
    using s0(2) by (simp_all add: moved_def)
  show ?thesis
    using tracked_blocks_exact [OF _ _ s0(1) v, of "\<lambda>_. 9"] s0(1) unfolding a by (auto simp: demo_env_def)
qed

text \<open>The report at the exit is what the README says, as a function of the blocks that are not
  freed: nothing without leaks in the mode l, at most ten leaks with size and call stack, then the
  number and the total size of the leaks, of which the internal ones are left out.\<close>

theorem exit_report_correct:
  assumes "ready bs s" "\<forall>b\<in>set bs. \<forall>addr\<in>set (snd (snd b)). dladdr addr \<noteq> None"
  shows "\<exists>s'. heaph_atexit dladdr s = Some s' \<and> is_exit_done s' \<and>
    printed s' = printed s @ report_text dladdr (report_mode s) (alloc_count_total s) bs"
  using atexit_spec assms by (auto simp: ready_def)

theorem exit_report_correct_witness:
  "\<exists>s s'. heaph_touch demo_env (hh_initial 5000) = Some s \<and> heaph_atexit (\<lambda>_. None) s = Some s' \<and> printed s' = printed s"
proof -
  obtain s where s: "heaph_touch demo_env (hh_initial 5000) = Some s" "ready [] s" "report_mode s = MODE_LEAKS"
    using first_touch [of 5000 demo_env] by (auto simp: demo_env_def asked_mode_def)
  show ?thesis using exit_report_correct [OF s(2), of "\<lambda>_. None"] s by (auto simp: report_text_def Let_def)
qed

text \<open>The first call initialises the checker, whatever blocks the look-up of the original
  functions takes from the static buffer: no such block is tracked, the locks are free, and the
  mode is the one that HHREPORT asks for. A second initialisation, which two threads with the first
  call of each cause, aborts.\<close>

theorem first_call_initialises:
  assumes "0 < region" "init_valid region False 0 (init_calls env)"
  shows "\<exists>s. heaph_touch env (hh_initial region) = Some s \<and> ready [] s \<and> \<not> init_lock s \<and>
    report_mode s = asked_mode (hh_report env) \<and> static_used s = sum_list (map init_used (init_calls env)) \<and>
    heaph_touch_locked env s = None"
proof -
  obtain s where s: "heaph_touch env (hh_initial region) = Some s" "ready [] s" "\<not> init_lock s"
    "report_mode s = asked_mode (hh_report env)" "static_used s = sum_list (map init_used (init_calls env))"
    using first_touch [OF assms] by blast
  have done': "is_init_done s" using s(2) by (simp add: ready_def)
  have "heaph_touch_locked env s = None"
  proof (rule ccontr)
    assume "heaph_touch_locked env s \<noteq> None"
    then obtain s1 s2 where "heaph_lock s = Some s1" "heaph_init env s1 = Some s2" "\<not> is_init_done s2"
      by (auto simp: heaph_touch_locked_def bind_eq_Some_conv Let_def)
    moreover from this have "is_init_done s1" using done' by (auto simp: heaph_lock_def bind_eq_Some_conv)
    ultimately show False using heaph_init_again by blast
  qed
  then show ?thesis using s by blast
qed

theorem first_call_initialises_witness:
  "\<exists>s. heaph_touch demo_env (hh_initial 5000) = Some s \<and> ready [] s \<and> static_used s = 132"
  using first_call_initialises [of 5000 demo_env] by (auto simp: demo_env_def)

text \<open>What the C library allocates and frees while it serves one of the wrapped functions is not
  tracked: a nested call changes nothing in the state of the checker.\<close>

theorem nested_calls_ignored:
  assumes "0 < depth s" "is_init_done s" "defaults s = Libc_functions" "p = 0 \<or> \<not> alloc_is_static p s"
  shows "malloc env (gives r) bt sz s = Some (r, s) \<and> calloc env (\<lambda>_. gives r) bt num sz s = Some (r, s) \<and>
    realloc env (\<lambda>_. gives r) bt p sz s = Some (r, s) \<and> free env (\<lambda>_ s. Some s) p s = Some s"
  using assms by (auto simp: malloc_def malloc_body_def default_malloc_def calloc_def calloc_body_def default_calloc_def
      realloc_def free_def free_body_def default_free_def gives_def trace_new_nested alloc_free_nested Let_def)

theorem nested_calls_ignored_witness:
  "\<exists>s. heaph_touch demo_env (hh_initial 5000) = Some s \<and>
     malloc demo_env (gives 90000) [1] 10 (s\<lparr>depth := 1\<rparr>) = Some (90000, s\<lparr>depth := 1\<rparr>)"
proof -
  obtain s where s: "heaph_touch demo_env (hh_initial 5000) = Some s" "ready [] s" using demo_start by blast
  then show ?thesis using nested_calls_ignored [of "s\<lparr>depth := 1\<rparr>" 0 demo_env 90000 "[1]" 10 0] by (auto simp: ready_def)
qed

text \<open>A free of a block that is not tracked is caught. But a realloc that fails makes the checker
  forget the block, which the program still owns: the free of it that follows, which is what a
  correct program does, is caught as well.\<close>

theorem failed_realloc_forgets_block:
  assumes "ready bs s" "distinct (map fst bs)" "p \<in> fst ` set bs" "p \<noteq> 0" "\<not> alloc_is_static p s" "int (length bs) < 2 ^ 63 - 1"
  shows "(\<exists>s'. free env (\<lambda>_ s. Some s) p s = Some s' \<and> free env (\<lambda>_ s. Some s) p s' = None) \<and>
    (\<exists>s'. realloc env (\<lambda>_. gives 0) bt p sz s = Some (0, s') \<and> free env (\<lambda>_ s. Some s) p s' = None)"
proof -
  have gone: "p \<notin> fst ` set (remove_block p bs)"
    using set_remove1_eq [OF assms(2), of p] unfolding fst_remove_block [symmetric] by auto
  obtain s' where s': "realloc env (\<lambda>_. gives 0) bt p sz s = Some (0, s')"
      "ready (replace_block p (0, sz, take MAX_BACKTRACE_LEN bt) bs) s'" "outer s' = outer s"
  proof -
    have "p = (if alloc_is_static p s then 0 else p)" "\<not> alloc_is_static 0 s" using assms(5) by (simp_all add: alloc_is_static_def)
    then show ?thesis using that realloc_ready [OF assms(1), of p p 0 env bt sz] assms(3,6) by blast
  qed
  have "replace_block p (0, sz, take MAX_BACKTRACE_LEN bt) bs = remove_block p bs"
    using assms(4) by (simp add: replace_block_def)
  then have "free env (\<lambda>_ s. Some s) p s' = None"
    using free_ready [of _ s' p env] s' gone assms(4,5) static_cong [OF s'(3)] by auto
  moreover obtain s2 where "free env (\<lambda>_ s. Some s) p s = Some s2" "ready (remove_block p bs) s2" "outer s2 = outer s"
    using free_ready [OF assms(1,4,5), of env] assms(3) by auto
  moreover from this have "free env (\<lambda>_ s. Some s) p s2 = None"
    using free_ready [of _ s2 p env] gone assms(4,5) static_cong [of s2 s] by auto
  ultimately show ?thesis using s'(1) by blast
qed

theorem failed_realloc_forgets_block_witness:
  "\<exists>s s' s''. malloc demo_env (gives 90000) [1] 10 s = Some (90000, s') \<and>
     realloc demo_env (\<lambda>_. gives 0) [1] 90000 1000000 s' = Some (0, s'') \<and> free demo_env (\<lambda>_ s. Some s) 90000 s'' = None"
proof -
  obtain s where s: "ready [] s" "\<not> alloc_is_static 90000 s" using demo_start by fastforce
  obtain s' where s': "malloc demo_env (gives 90000) [1] 10 s = Some (90000, s')"
      "ready [(90000, 10, take MAX_BACKTRACE_LEN [1])] s'" "outer s' = outer s"
    using malloc_ready [OF s, of demo_env "[1]" 10] by auto
  have ns: "\<not> alloc_is_static 90000 s'" using s(2) static_cong [OF s'(3)] by simp
  show ?thesis
    using failed_realloc_forgets_block [OF s'(2) _ _ _ ns, of demo_env "[1]" 1000000] s'(1) by auto
qed

end
