(* ===== verification/Lecture_Sort.thy ===== *)
theory Lecture_Sort
  imports File_Merge
begin

text \<open>
  The sorting programs of lecture_examples/7_ipc: 1_simple_sort.c sorts its files one after the other,
  2_parallel_sort.c in child processes that send the result through pipes, and 3_mem_sort.c through
  shared memory (its protocol is in Shared_Memory). A file is its content, or None when fopen fails;
  the result None is undefined behaviour.
\<close>

section \<open>Reading and sorting one file\<close>

definition cmp :: "int \<Rightarrow> int \<Rightarrow> int option" where
  "cmp a b = c_int (a - b)"

text \<open>
  qsort of the C library may compare any two elements, so one comparison that overflows is enough
  for undefined behaviour.
\<close>

fun insert_by :: "(int \<Rightarrow> int \<Rightarrow> int option) \<Rightarrow> int \<Rightarrow> int list \<Rightarrow> int list" where
  "insert_by f x [] = [x]"
| "insert_by f x (y # ys) = (if the (f x y) \<le> 0 then x # y # ys else y # insert_by f x ys)"

definition qsort :: "(int \<Rightarrow> int \<Rightarrow> int option) \<Rightarrow> int list \<Rightarrow> int list option" where
  "qsort f xs = (if list_all (\<lambda>a. list_all (\<lambda>b. f a b \<noteq> None) xs) xs then Some (foldr (insert_by f) xs []) else None)"

text \<open>
  The loop over fscanf: the array grows when it is full. What malloc and realloc leave in new cells
  is an argument.
\<close>

function read_numbers :: "(nat \<Rightarrow> int) \<Rightarrow> string \<Rightarrow> int \<Rightarrow> int \<Rightarrow> int list \<Rightarrow> (int \<times> int list) option" where
  "read_numbers uninitialised content sz capacity array =
     (case fscanf_d content of
        None \<Rightarrow> None
      | Some None \<Rightarrow> Some (sz, array)
      | Some (Some (v, rest)) \<Rightarrow>
          (case cset array sz v of
             None \<Rightarrow> None
           | Some array \<Rightarrow>
               if sz + 1 = capacity
               then if int_ok (capacity * 2)
                 then read_numbers uninitialised rest (sz + 1) (capacity * 2)
                   (array @ map uninitialised [length array..<nat (capacity * 2)])
                 else None
               else read_numbers uninitialised rest (sz + 1) capacity array))"
  by pat_completeness auto
termination
  by (relation "measure (\<lambda>(u, s, _). length s)") (auto dest: fscanf_d_shrinks)

declare read_numbers.simps [simp del]

definition read_and_sort :: "(nat \<Rightarrow> int) \<Rightarrow> string option \<Rightarrow> int list option" where
  "read_and_sort uninitialised file' = do {
     content \<leftarrow> file';
     (sz, array) \<leftarrow> read_numbers uninitialised content 0 1024 (map uninitialised [0..<1024]);
     qsort cmp (take (nat sz) array) }"

text \<open>What the programs promise for a file that can be sorted.\<close>

definition sortable :: "string \<Rightarrow> int list \<Rightarrow> bool" where
  "sortable content vs \<longleftrightarrow> scan_numbers content = Some vs \<and> length vs < 2 ^ 29 \<and>
     (\<forall>a\<in>set vs. \<forall>b\<in>set vs. int_ok (a - b))"

lemma read_numbers_spec:
  assumes "scan_numbers content = Some vs" "sz = int (length us)" "length array = nat capacity" "take (length us) array = us"
    "sz < capacity" "length us + length vs < 2 ^ 29"
  shows "\<exists>array'. read_numbers u content sz capacity array = Some (int (length (us @ vs)), array') \<and>
    take (length (us @ vs)) array' = us @ vs"
  using assms
proof (induction content arbitrary: vs us array sz capacity rule: scan_numbers.induct)
  case (1 content)
  show ?case
  proof (cases "fscanf_d content")
    case None
    then show ?thesis using 1 by (subst (asm) scan_numbers.simps) simp
  next
    case (Some r)
    show ?thesis
    proof (cases r)
      case None
      then show ?thesis using Some 1 by (subst read_numbers.simps) (simp add: scan_numbers.simps [of content])
    next
      case (Some q)
      obtain v s where q: "q = (v, s)" by (cases q)
      have f: "fscanf_d content = Some (Some (v, s))" using q Some \<open>fscanf_d content = Some r\<close> by simp
      obtain vs' where vs: "vs = v # vs'" "scan_numbers s = Some vs'"
        using 1 f by (auto simp: scan_numbers.simps [of content])
      let ?a = "array[length us := v]"
      have len: "length us < length array" using 1 by simp
      have set': "cset array sz v = Some ?a" using 1 by (simp add: cset_def)
      have tk: "take (length (us @ [v])) ?a = us @ [v]" using 1 len by (simp add: take_Suc_conv_app_nth)
      have len': "length (us @ [v]) + length vs' < 2 ^ 29" using 1 vs by simp
      show ?thesis
      proof (cases "sz + 1 = capacity")
        case True
        have ok: "int_ok (capacity * 2)" using 1 True vs by (auto simp: int_ok_def)
        let ?b = "?a @ map u [length array..<nat (capacity * 2)]"
        have "\<exists>array'. read_numbers u s (sz + 1) (capacity * 2) ?b = Some (int (length ((us @ [v]) @ vs')), array') \<and>
            take (length ((us @ [v]) @ vs')) array' = (us @ [v]) @ vs'"
        proof (rule "1.IH" [OF f refl refl vs(2)])
          show "length ?b = nat (capacity * 2)" using 1 True by simp
          show "take (length (us @ [v])) ?b = us @ [v]" using tk len by simp
        qed (use 1 True len' in auto)
        then show ?thesis using f vs set' True ok by (subst read_numbers.simps) simp
      next
        case False
        have "\<exists>array'. read_numbers u s (sz + 1) capacity ?a = Some (int (length ((us @ [v]) @ vs')), array') \<and>
            take (length ((us @ [v]) @ vs')) array' = (us @ [v]) @ vs'"
          by (rule "1.IH" [OF f refl refl vs(2)]) (use 1 False len' tk in auto)
        then show ?thesis using f vs set' False by (subst read_numbers.simps) simp
      qed
    qed
  qed
qed

lemma insert_by_insort:
  "(\<And>y. y \<in> set ys \<Longrightarrow> int_ok (x - y)) \<Longrightarrow> insert_by cmp x ys = insort x ys"
  by (induction ys) (auto simp: cmp_def)

lemma qsort_sort:
  assumes "\<forall>a\<in>set vs. \<forall>b\<in>set vs. int_ok (a - b)"
  shows "qsort cmp vs = Some (sort vs)"
proof -
  have "foldr (insert_by cmp) us [] = sort us" if "set us \<subseteq> set vs" for us
    using that
  proof (induction us)
    case (Cons u us)
    then have "insert_by cmp u (sort us) = insort u (sort us)" using assms by (intro insert_by_insort) auto
    then show ?case using Cons by (simp add: sort_key_simps)
  qed simp
  moreover have "list_all (\<lambda>a. list_all (\<lambda>b. cmp a b \<noteq> None) vs) vs" using assms by (simp add: list_all_iff cmp_def)
  ultimately show ?thesis by (simp add: qsort_def)
qed

lemma read_and_sort_spec:
  assumes "sortable content vs"
  shows "read_and_sort u (Some content) = Some (sort vs)"
proof -
  have v: "scan_numbers content = Some vs" "length vs < 2 ^ 29" "\<forall>a\<in>set vs. \<forall>b\<in>set vs. int_ok (a - b)"
    using assms by (auto simp: sortable_def)
  obtain array' where "read_numbers u content 0 1024 (map u [0..<1024]) = Some (int (length vs), array')" "take (length vs) array' = vs"
    using read_numbers_spec [OF v(1), of 0 "[]" "map u [0..<1024]" 1024 u] v(2) by auto
  then show ?thesis using qsort_sort [OF v(3)] by (simp add: read_and_sort_def)
qed

section \<open>One process\<close>

record sort_worker =
  w_array :: "int list"
  w_size :: int

definition simple_sorter :: "(nat \<Rightarrow> int) \<Rightarrow> string option \<Rightarrow> sort_worker option" where
  "simple_sorter uninitialised file' = do {
     array \<leftarrow> read_and_sort uninitialised file';
     Some \<lparr>w_array = array, w_size = int (length array)\<rparr> }"

text \<open>The sum of the sizes, and the copies into the array of all numbers from position pos on.\<close>

fun sum_sizes :: "int \<Rightarrow> sort_worker list \<Rightarrow> int option" where
  "sum_sizes total_size [] = Some total_size"
| "sum_sizes total_size (w # ws) = do { total_size \<leftarrow> c_int (total_size + w_size w); sum_sizes total_size ws }"

fun copy_arrays :: "int \<Rightarrow> sort_worker list \<Rightarrow> int list \<Rightarrow> int list option" where
  "copy_arrays pos [] total_array = Some total_array"
| "copy_arrays pos (w # ws) total_array =
     (if 0 \<le> w_size w \<and> w_size w \<le> int (length (w_array w)) \<and> pos + w_size w \<le> int (length total_array)
      then copy_arrays (pos + w_size w) ws
        (take (nat pos) total_array @ take (nat (w_size w)) (w_array w) @ drop (nat (pos + w_size w)) total_array)
      else None)"

definition join_arrays :: "(nat \<Rightarrow> int) \<Rightarrow> sort_worker list \<Rightarrow> int list option" where
  "join_arrays uninitialised ws = do {
     total_size \<leftarrow> sum_sizes 0 ws;
     copy_arrays 0 ws (map uninitialised [0..<nat total_size]) }"

definition simple_sort_main :: "(nat \<Rightarrow> int) \<Rightarrow> string option list \<Rightarrow> int list option" where
  "simple_sort_main uninitialised files = do {
     ws \<leftarrow> those (map (simple_sorter uninitialised) files);
     join_arrays uninitialised ws }"

definition worker_of :: "int list \<Rightarrow> sort_worker" where
  "worker_of vs = \<lparr>w_array = vs, w_size = int (length vs)\<rparr>"

lemma sum_sizes_spec:
  "0 \<le> n \<Longrightarrow> n + int (length (concat vss)) < 2 ^ 31 \<Longrightarrow> sum_sizes n (map worker_of vss) = Some (n + int (length (concat vss)))"
  by (induction vss arbitrary: n) (auto simp: worker_of_def int_ok_def)

lemma copy_arrays_spec:
  "length total_array = length (us @ concat vss) \<Longrightarrow> take (length us) total_array = us \<Longrightarrow>
   copy_arrays (int (length us)) (map worker_of vss) total_array = Some (us @ concat vss)"
proof (induction vss arbitrary: us total_array)
  case (Cons vs vss)
  let ?t = "take (length us) total_array @ vs @ drop (length us + length vs) total_array"
  have "copy_arrays (int (length (us @ vs))) (map worker_of vss) ?t = Some ((us @ vs) @ concat vss)"
    by (rule Cons.IH) (use Cons.prems in auto)
  moreover have "copy_arrays (int (length us)) (map worker_of (vs # vss)) total_array =
      copy_arrays (int (length (us @ vs))) (map worker_of vss) ?t"
    using Cons.prems by (simp add: worker_of_def nat_add_distrib)
  ultimately show ?case by simp
qed simp

lemma join_arrays_spec:
  assumes "length (concat vss) < 2 ^ 31"
  shows "join_arrays u (map worker_of vss) = Some (concat vss)"
  using sum_sizes_spec [of 0 vss] copy_arrays_spec [of "map u [0..<length (concat vss)]" "[]" vss] assms
  by (simp add: join_arrays_def)

section \<open>Numbers as bytes\<close>

definition int_bytes :: "int \<Rightarrow> int list" where
  "int_bytes x = (let w = x mod 2 ^ 32 in [w mod 256, w div 256 mod 256, w div 65536 mod 256, w div 16777216])"

fun bytes_int :: "int list \<Rightarrow> int option" where
  "bytes_int [a, b, c, d] = Some (to_int32 (a + 256 * b + 65536 * c + 16777216 * d))"
| "bytes_int _ = None"

definition array_bytes :: "int list \<Rightarrow> int list" where
  "array_bytes array = concat (map int_bytes array)"

fun bytes_array :: "int list \<Rightarrow> int list option" where
  "bytes_array [] = Some []"
| "bytes_array (a # b # c # d # bs) = do { x \<leftarrow> bytes_int [a, b, c, d]; xs \<leftarrow> bytes_array bs; Some (x # xs) }"
| "bytes_array _ = None"

lemma length_int_bytes [simp]: "length (int_bytes x) = 4"
  by (simp add: int_bytes_def Let_def)

lemma length_array_bytes [simp]: "length (array_bytes xs) = 4 * length xs"
  by (induction xs) (auto simp: array_bytes_def)

lemma split_bytes:
  fixes w :: int
  assumes "0 \<le> w" "w < 2 ^ 32"
  shows "w mod 256 + 256 * (w div 256 mod 256) + 65536 * (w div 65536 mod 256) + 16777216 * (w div 16777216) = w"
proof -
  have "w = w mod 256 + 256 * (w div 256)" by simp
  moreover have "w div 256 = w div 256 mod 256 + 256 * (w div 65536)"
    using mod_mult_div_eq [of "w div 256" 256] by (simp add: zdiv_zmult2_eq [symmetric])
  moreover have "w div 65536 = w div 65536 mod 256 + 256 * (w div 16777216)"
    using mod_mult_div_eq [of "w div 65536" 256] by (simp add: zdiv_zmult2_eq [symmetric])
  ultimately show ?thesis by linarith
qed

lemma to_int32_mod: "int_ok x \<Longrightarrow> to_int32 (x mod 2 ^ 32) = x"
  by (simp add: to_int32_def mod_add_left_eq) (simp add: int_ok_def)

lemma bytes_int_bytes: "int_ok x \<Longrightarrow> bytes_int (int_bytes x) = Some x"
  using split_bytes [of "x mod 2 ^ 32"] to_int32_mod [of x] by (simp add: int_bytes_def Let_def)

lemma bytes_array_bytes: "list_all int_ok xs \<Longrightarrow> bytes_array (array_bytes xs) = Some xs"
proof (induction xs)
  case (Cons x xs)
  obtain a b c d where b: "int_bytes x = [a, b, c, d]" by (simp add: int_bytes_def Let_def)
  then have "bytes_int [a, b, c, d] = Some x" using bytes_int_bytes [of x] Cons.prems by simp
  then show ?case using Cons b by (simp add: array_bytes_def)
qed (simp add: array_bytes_def)

section \<open>Processes and pipes\<close>

text \<open>What the child has written into its pipe before it closes it.\<close>

definition parallel_sorter :: "(nat \<Rightarrow> int) \<Rightarrow> string option \<Rightarrow> int list option" where
  "parallel_sorter uninitialised file' = do {
     array \<leftarrow> read_and_sort uninitialised file';
     Some (int_bytes (int (length array)) @ array_bytes array) }"

text \<open>
  read returns some of the bytes that come, at least one before the end, and at most as many as asked
  for: one more than the number k says. The loop has the bytes of the last read.
\<close>

definition pipe_read :: "nat \<Rightarrow> int \<Rightarrow> int list \<Rightarrow> int list \<times> int list" where
  "pipe_read k sz pipe = (let n = min (nat sz) (Suc k) in (take n pipe, drop n pipe))"

function read_pipe_loop :: "(nat \<Rightarrow> nat) \<Rightarrow> nat \<Rightarrow> int \<Rightarrow> int list \<Rightarrow> int list \<Rightarrow> int list \<Rightarrow> int list \<times> int list" where
  "read_pipe_loop ks i sz buf bytes pipe =
     (if bytes \<noteq> [] \<and> sz > 0
      then let sz = sz - int (length bytes); (bytes', pipe) = pipe_read (ks i) sz pipe
           in read_pipe_loop ks (Suc i) sz (buf @ bytes) bytes' pipe
      else (buf, pipe))"
  by pat_completeness auto
termination
  by (relation "measure (\<lambda>(ks, i, sz, buf, bytes, pipe). nat sz)") (auto simp flip: length_greater_0_conv)

declare read_pipe_loop.simps [simp del]

definition read_from_pipe :: "(nat \<Rightarrow> nat) \<Rightarrow> int \<Rightarrow> int list \<Rightarrow> int list \<times> int list" where
  "read_from_pipe ks sz pipe = (let (bytes, pipe) = pipe_read (ks 0) sz pipe in read_pipe_loop ks 1 sz [] bytes pipe)"

lemma read_pipe_loop_spec:
  "0 \<le> sz \<Longrightarrow> bytes = take n pipe0 \<Longrightarrow> pipe = drop n pipe0 \<Longrightarrow> (0 < sz \<longrightarrow> 0 < n) \<Longrightarrow> n \<le> nat sz \<Longrightarrow> nat sz \<le> length pipe0 \<Longrightarrow>
   read_pipe_loop ks i sz buf bytes pipe = (buf @ take (nat sz) pipe0, drop (nat sz) pipe0)"
proof (induction ks i sz buf bytes pipe arbitrary: n pipe0 rule: read_pipe_loop.induct)
  case (1 ks i sz buf bytes pipe)
  show ?case
  proof (cases "sz = 0")
    case True
    then show ?thesis using 1(5,6,7) 1(4) by (subst read_pipe_loop.simps) simp
  next
    case False
    then have n: "0 < n" "length bytes = n" "bytes \<noteq> []" "0 < sz" using 1 by auto
    define k where "k = min (nat (sz - int n)) (Suc (ks i))"
    have rd: "(take k pipe, drop k pipe) = pipe_read (ks i) (sz - int (length bytes)) pipe"
      using n by (simp add: pipe_read_def k_def Let_def)
    have "read_pipe_loop ks (Suc i) (sz - int (length bytes)) (buf @ bytes) (take k pipe) (drop k pipe) =
        ((buf @ bytes) @ take (nat (sz - int (length bytes))) pipe, drop (nat (sz - int (length bytes))) pipe)"
      by (rule "1.IH" [OF conjI [OF n(3,4)] refl refl rd _ refl refl]) (use 1 n in \<open>auto simp: k_def\<close>)
    then have "read_pipe_loop ks (Suc i) (sz - int n) (buf @ bytes) (take k pipe) (drop k pipe) =
        ((buf @ bytes) @ take (nat (sz - int n)) pipe, drop (nat (sz - int n)) pipe)" using n by simp
    moreover have "nat (sz - int n) = nat sz - n" by (simp add: nat_diff_distrib')
    moreover have "bytes @ take (nat sz - n) pipe = take (nat sz) pipe0"
      using 1(3,4,6) by (metis le_add_diff_inverse take_add)
    moreover have "drop (nat sz - n) pipe = drop (nat sz) pipe0" using 1(4,6) by simp
    ultimately show ?thesis using n by (subst read_pipe_loop.simps) (simp add: pipe_read_def k_def Let_def)
  qed
qed

lemma read_from_pipe_spec:
  assumes "0 \<le> sz" "nat sz \<le> length pipe"
  shows "read_from_pipe ks sz pipe = (take (nat sz) pipe, drop (nat sz) pipe)"
  using read_pipe_loop_spec [of sz "take (min (nat sz) (Suc (ks 0))) pipe" "min (nat sz) (Suc (ks 0))" pipe
      "drop (min (nat sz) (Suc (ks 0))) pipe" ks 1 "[]"] assms
  by (simp add: read_from_pipe_def pipe_read_def Let_def)

text \<open>What the parent does with the pipe of one child. Bytes that do not come stay uninitialised.\<close>

definition receive_from_pipe :: "(nat \<Rightarrow> nat) \<Rightarrow> int list \<Rightarrow> sort_worker option" where
  "receive_from_pipe ks pipe = do {
     let (bytes, pipe) = read_from_pipe ks 4 pipe;
     sz \<leftarrow> bytes_int bytes;
     let (bytes, pipe) = read_from_pipe ks (to_int32 (sz * 4)) pipe;
     array \<leftarrow> bytes_array bytes;
     Some \<lparr>w_array = array, w_size = sz\<rparr> }"

definition parallel_sort_main :: "(nat \<Rightarrow> nat) \<Rightarrow> (nat \<Rightarrow> int) \<Rightarrow> string option list \<Rightarrow> int list option" where
  "parallel_sort_main ks uninitialised files = do {
     pipes \<leftarrow> those (map (parallel_sorter uninitialised) files);
     ws \<leftarrow> those (map (receive_from_pipe ks) pipes);
     join_arrays uninitialised ws }"

lemma scanned_ok: "scan_numbers content = Some vs \<Longrightarrow> list_all int_ok vs"
proof (induction content arbitrary: vs rule: scan_numbers.induct)
  case (1 content)
  show ?case
  proof (cases "fscanf_d content")
    case None
    then show ?thesis using 1 by (simp add: scan_numbers.simps [of content])
  next
    case (Some r)
    show ?thesis
    proof (cases r)
      case None
      then show ?thesis using 1 Some by (simp add: scan_numbers.simps [of content])
    next
      case (Some q)
      obtain v s where q: "q = (v, s)" by (cases q)
      have f: "fscanf_d content = Some (Some (v, s))" using q Some \<open>fscanf_d content = Some r\<close> by simp
      then have "int_ok v" by (auto simp: fscanf_d_def Let_def split: if_splits)
      moreover obtain vs' where "vs = v # vs'" "scan_numbers s = Some vs'"
        using 1 f by (auto simp: scan_numbers.simps [of content])
      ultimately show ?thesis using "1.IH" [OF f refl refl] by simp
    qed
  qed
qed

lemma receive_from_pipe_spec:
  assumes "list_all int_ok vs" "length vs < 2 ^ 29"
  shows "receive_from_pipe ks (int_bytes (int (length vs)) @ array_bytes vs) = Some (worker_of vs)"
proof -
  have ok: "int_ok (int (length vs))" "int_ok (int (length vs) * 4)" using assms(2) by (auto simp: int_ok_def)
  have "read_from_pipe ks 4 (int_bytes (int (length vs)) @ array_bytes vs) = (int_bytes (int (length vs)), array_bytes vs)"
    by (subst read_from_pipe_spec) simp_all
  moreover have "read_from_pipe ks (int (length vs) * 4) (array_bytes vs) = (array_bytes vs, [])"
    by (subst read_from_pipe_spec) (simp_all add: nat_mult_distrib)
  ultimately show ?thesis
    using bytes_int_bytes [OF ok(1)] bytes_array_bytes [OF assms(1)] ok(2)
    by (simp add: receive_from_pipe_def worker_of_def)
qed

end
