(* ===== verification/Shared_Memory.thy ===== *)
theory Shared_Memory
  imports Lecture_Sort
begin

text \<open>
  The transfer through shared memory of lecture_examples/7_ipc/3_mem_sort.c: a writer and a reader
  with two flags in front of a buffer that holds at most 65534 bytes of a message. A step is one
  atomic access of a flag, or the copy of a piece; a thread that spins on its flag makes no step.
  Lengths are nats: the messages are shorter than an int.
\<close>

section \<open>The two processes\<close>

definition MEM_SIZE :: nat where "MEM_SIZE = 65536"
definition MEM_META_SIZE :: nat where "MEM_META_SIZE = 2"

definition piece :: nat where "piece = MEM_SIZE - MEM_META_SIZE"

text \<open>Before the flag is seen set, before the copy, before the first and the second flag is stored.\<close>

datatype writer_pc = W_wait | W_copy | W_clear | W_set | W_done
datatype reader_pc = R_wait | R_copy | R_clear | R_set | R_done

text \<open>
  src is what the current call of write_to_shared_mem has not copied yet, further the messages of
  the later calls; dst and left are what the current call of read_from_shared_mem has and still
  wants, received the messages that are complete.
\<close>

record shared =
  is_readable :: bool
  is_writable :: bool
  payload :: "int list"
  wpc :: writer_pc
  src :: "int list"
  further :: "int list list"
  rpc :: reader_pc
  dst :: "int list"
  left :: nat
  received :: "int list list"

definition write_to_shared_mem :: "shared \<Rightarrow> shared option" where
  "write_to_shared_mem s = (case wpc s of
     W_wait \<Rightarrow> if is_writable s then Some (s\<lparr>wpc := W_copy\<rparr>) else None
   | W_copy \<Rightarrow>
       let to_copy = (if piece > length (src s) then length (src s) else piece)
       in Some (s\<lparr>payload := take to_copy (src s) @ drop to_copy (payload s), src := drop to_copy (src s), wpc := W_clear\<rparr>)
   | W_clear \<Rightarrow> Some (s\<lparr>is_writable := False, wpc := W_set\<rparr>)
   | W_set \<Rightarrow>
       let s = s\<lparr>is_readable := True\<rparr>
       in if src s = []
          then (case further s of [] \<Rightarrow> Some (s\<lparr>wpc := W_done\<rparr>) | m # ms \<Rightarrow> Some (s\<lparr>src := m, further := ms, wpc := W_wait\<rparr>))
          else Some (s\<lparr>wpc := W_wait\<rparr>)
   | W_done \<Rightarrow> None)"

text \<open>The size of the next message, if the reader wants one, depends on the messages it has.\<close>

definition read_from_shared_mem :: "(int list list \<Rightarrow> nat option) \<Rightarrow> shared \<Rightarrow> shared option" where
  "read_from_shared_mem wanted s = (case rpc s of
     R_wait \<Rightarrow> if is_readable s then Some (s\<lparr>rpc := R_copy\<rparr>) else None
   | R_copy \<Rightarrow>
       let to_copy = (if piece > left s then left s else piece)
       in Some (s\<lparr>dst := dst s @ take to_copy (payload s), left := left s - to_copy, rpc := R_clear\<rparr>)
   | R_clear \<Rightarrow> Some (s\<lparr>is_readable := False, rpc := R_set\<rparr>)
   | R_set \<Rightarrow>
       let s = s\<lparr>is_writable := True\<rparr>
       in if left s = 0
          then let s = s\<lparr>received := received s @ [dst s], dst := []\<rparr>
               in (case wanted (received s) of None \<Rightarrow> Some (s\<lparr>rpc := R_done\<rparr>) | Some n \<Rightarrow> Some (s\<lparr>left := n, rpc := R_wait\<rparr>))
          else Some (s\<lparr>rpc := R_wait\<rparr>)
   | R_done \<Rightarrow> None)"

definition shared_step :: "(int list list \<Rightarrow> nat option) \<Rightarrow> shared \<Rightarrow> shared \<Rightarrow> bool" where
  "shared_step wanted s s' \<longleftrightarrow> write_to_shared_mem s = Some s' \<or> read_from_shared_mem wanted s = Some s'"

text \<open>The memory as main initialises it, with the first calls on both sides.\<close>

definition shared_start :: "int list list \<Rightarrow> int list \<Rightarrow> shared" where
  "shared_start ms mem = \<lparr>is_readable = False, is_writable = True, payload = mem, wpc = W_wait, src = hd ms, further = tl ms,
     rpc = R_wait, dst = [], left = length (hd ms), received = []\<rparr>"

section \<open>What each side still has to do\<close>

type_synonym writer_job = "(int list \<times> int list list) option"
type_synonym reader_job = "(int list \<times> nat) option \<times> int list list"

fun writer_next :: "int list \<Rightarrow> int list list \<Rightarrow> writer_job" where
  "writer_next [] [] = None"
| "writer_next [] (m # ms) = Some (m, ms)"
| "writer_next (b # bs) ms = Some (b # bs, ms)"

definition reader_next :: "(int list list \<Rightarrow> nat option) \<Rightarrow> int list \<Rightarrow> nat \<Rightarrow> int list list \<Rightarrow> reader_job" where
  "reader_next wanted d n dn =
     (if n = 0 then (map_option (\<lambda>k. ([], k)) (wanted (dn @ [d])), dn @ [d]) else (Some (d, n), dn))"

definition writer_job :: "shared \<Rightarrow> writer_job" where
  "writer_job s = (case wpc s of
     W_wait \<Rightarrow> Some (src s, further s) | W_copy \<Rightarrow> Some (src s, further s)
   | W_clear \<Rightarrow> writer_next (src s) (further s) | W_set \<Rightarrow> writer_next (src s) (further s) | W_done \<Rightarrow> None)"

definition reader_job :: "(int list list \<Rightarrow> nat option) \<Rightarrow> shared \<Rightarrow> reader_job" where
  "reader_job wanted s = (case rpc s of
     R_wait \<Rightarrow> (Some (dst s, left s), received s) | R_copy \<Rightarrow> (Some (dst s, left s), received s)
   | R_clear \<Rightarrow> reader_next wanted (dst s) (left s) (received s)
   | R_set \<Rightarrow> reader_next wanted (dst s) (left s) (received s) | R_done \<Rightarrow> (None, received s))"

lemma writer_job_cong: "wpc s' = wpc s \<Longrightarrow> src s' = src s \<Longrightarrow> further s' = further s \<Longrightarrow> writer_job s' = writer_job s"
  by (cases "wpc s") (simp_all add: writer_job_def)

lemma reader_job_cong:
  "rpc s' = rpc s \<Longrightarrow> dst s' = dst s \<Longrightarrow> left s' = left s \<Longrightarrow> received s' = received s \<Longrightarrow>
   reader_job wanted s' = reader_job wanted s"
  by (cases "rpc s") (simp_all add: reader_job_def)

text \<open>Both sides at the same place of the messages ms.\<close>

fun lockstep :: "int list list \<Rightarrow> writer_job \<Rightarrow> reader_job \<Rightarrow> bool" where
  "lockstep ms (Some (bs, rest)) (Some (d, n), dn) \<longleftrightarrow> ms = dn @ (d @ bs) # rest \<and> n = length bs"
| "lockstep ms None (None, dn) \<longleftrightarrow> ms = dn"
| "lockstep ms _ _ \<longleftrightarrow> False"

definition plan :: "(int list list \<Rightarrow> nat option) \<Rightarrow> int list list \<Rightarrow> bool" where
  "plan wanted ms \<longleftrightarrow> (\<forall>dn m rest. ms = dn @ m # rest \<longrightarrow> wanted (dn @ [m]) = (case rest of [] \<Rightarrow> None | x # _ \<Rightarrow> Some (length x)))"

lemma piece_pos: "0 < piece"
  by (simp add: piece_def MEM_SIZE_def MEM_META_SIZE_def)

lemma lockstep_advance:
  assumes pl: "plan wanted ms" and l: "lockstep ms (Some (bs, rest)) (Some (d, n), dn)" and c: "take (min piece n) pay = take piece bs"
  shows "lockstep ms (writer_next (drop piece bs) rest) (reader_next wanted (d @ take (min piece n) pay) (n - min piece n) dn)"
proof -
  have ms: "ms = dn @ (d @ bs) # rest" and n: "n = length bs" using l by simp_all
  show ?thesis
  proof (cases "length bs \<le> piece")
    case True
    then have "wanted (dn @ [d @ bs]) = (case rest of [] \<Rightarrow> None | x # _ \<Rightarrow> Some (length x))"
      using pl ms by (auto simp: plan_def)
    then show ?thesis using True c n ms by (cases rest) (simp_all add: reader_next_def)
  next
    case False
    then obtain b bs' where "drop piece bs = b # bs'" by (cases "drop piece bs") auto
    moreover have "take piece bs @ drop piece bs = bs" by simp
    moreover have "length (drop piece bs) = n - piece" using n by simp
    ultimately show ?thesis using False c n ms by (simp add: reader_next_def min_def)
  qed
qed

section \<open>The invariant\<close>

text \<open>The writer is one piece ahead, and this piece is in the buffer.\<close>

definition ahead :: "(int list list \<Rightarrow> nat option) \<Rightarrow> int list list \<Rightarrow> shared \<Rightarrow> bool" where
  "ahead wanted ms s \<longleftrightarrow> (\<exists>bs rest. lockstep ms (Some (bs, rest)) (reader_job wanted s) \<and>
     take (min piece (length bs)) (payload s) = take piece bs \<and> writer_job s = writer_next (drop piece bs) rest)"

definition level :: "(int list list \<Rightarrow> nat option) \<Rightarrow> int list list \<Rightarrow> shared \<Rightarrow> bool" where
  "level wanted ms s \<longleftrightarrow> lockstep ms (writer_job s) (reader_job wanted s)"

definition shared_inv :: "(int list list \<Rightarrow> nat option) \<Rightarrow> int list list \<Rightarrow> shared \<Rightarrow> bool" where
  "shared_inv wanted ms s \<longleftrightarrow>
     (is_writable s \<and> \<not> is_readable s \<and>
       (wpc s \<in> {W_wait, W_copy, W_done} \<and> rpc s \<in> {R_wait, R_done} \<and> level wanted ms s \<or>
        wpc s = W_clear \<and> rpc s = R_wait \<and> ahead wanted ms s)) \<or>
     (\<not> is_writable s \<and> \<not> is_readable s \<and>
       (wpc s = W_set \<and> rpc s = R_wait \<and> ahead wanted ms s \<or> wpc s \<in> {W_wait, W_done} \<and> rpc s = R_set \<and> level wanted ms s)) \<or>
     (\<not> is_writable s \<and> is_readable s \<and> wpc s \<in> {W_wait, W_done} \<and>
       (rpc s \<in> {R_wait, R_copy} \<and> ahead wanted ms s \<or> rpc s = R_clear \<and> level wanted ms s))"

lemma start_shared_inv: "ms \<noteq> [] \<Longrightarrow> shared_inv wanted ms (shared_start ms mem)"
  by (simp add: shared_inv_def shared_start_def level_def writer_job_def reader_job_def)

lemma writer_step_inv:
  assumes inv: "shared_inv wanted ms s" and st: "write_to_shared_mem s = Some s'"
  shows "shared_inv wanted ms s'"
proof (cases "wpc s")
  case W_wait
  then have "s' = s\<lparr>wpc := W_copy\<rparr>" "is_writable s" using st by (auto simp: write_to_shared_mem_def split: if_splits)
  then show ?thesis using inv W_wait by (auto simp: shared_inv_def level_def writer_job_def reader_job_def)
next
  case W_copy
  then have i: "is_writable s" "\<not> is_readable s" "rpc s \<in> {R_wait, R_done}" "level wanted ms s" using inv by (auto simp: shared_inv_def)
  then have r: "rpc s = R_wait" using W_copy by (auto simp: level_def writer_job_def reader_job_def)
  define k where "k = min piece (length (src s))"
  have s': "s' = s\<lparr>payload := take k (src s) @ drop k (payload s), src := drop k (src s), wpc := W_clear\<rparr>"
    using st W_copy by (auto simp: write_to_shared_mem_def k_def min_def Let_def)
  have t: "take k (src s) = take piece (src s)" "drop k (src s) = drop piece (src s)" by (auto simp: k_def min_def)
  have "ahead wanted ms s'"
    unfolding ahead_def
    by (rule exI [of _ "src s"], rule exI [of _ "further s"])
      (use i(4) r W_copy t in \<open>auto simp: s' level_def writer_job_def reader_job_def k_def min_def\<close>)
  then show ?thesis using i r by (simp add: shared_inv_def s')
next
  case W_clear
  then have "s' = s\<lparr>is_writable := False, wpc := W_set\<rparr>" using st by (auto simp: write_to_shared_mem_def)
  then show ?thesis using inv W_clear by (auto simp: shared_inv_def ahead_def writer_job_def reader_job_def)
next
  case W_set
  then have i: "\<not> is_writable s" "\<not> is_readable s" "rpc s = R_wait" "ahead wanted ms s" using inv by (auto simp: shared_inv_def)
  have f: "is_readable s' \<and> is_writable s' = is_writable s \<and> wpc s' \<in> {W_wait, W_done} \<and> payload s' = payload s \<and>
      rpc s' = rpc s \<and> dst s' = dst s \<and> left s' = left s \<and> received s' = received s \<and>
      writer_job s' = writer_next (src s) (further s)"
    using st W_set by (cases "src s"; cases "further s") (auto simp: write_to_shared_mem_def writer_job_def Let_def)
  then have "reader_job wanted s' = reader_job wanted s" by (intro reader_job_cong) simp_all
  then have "ahead wanted ms s'" using i W_set f by (simp add: ahead_def writer_job_def)
  then show ?thesis using i f by (auto simp: shared_inv_def)
next
  case W_done
  then show ?thesis using st by (simp add: write_to_shared_mem_def)
qed

lemma reader_step_inv:
  assumes pl: "plan wanted ms" and inv: "shared_inv wanted ms s" and st: "read_from_shared_mem wanted s = Some s'"
  shows "shared_inv wanted ms s'"
proof (cases "rpc s")
  case R_wait
  then have "s' = s\<lparr>rpc := R_copy\<rparr>" "is_readable s" using st by (auto simp: read_from_shared_mem_def split: if_splits)
  then show ?thesis using inv R_wait by (auto simp: shared_inv_def ahead_def writer_job_def reader_job_def)
next
  case R_copy
  then have i: "\<not> is_writable s" "is_readable s" "wpc s \<in> {W_wait, W_done}" "ahead wanted ms s" using inv by (auto simp: shared_inv_def)
  define k where "k = min piece (left s)"
  have s': "s' = s\<lparr>dst := dst s @ take k (payload s), left := left s - k, rpc := R_clear\<rparr>"
    using st R_copy by (auto simp: read_from_shared_mem_def k_def min_def Let_def)
  obtain bs rest where b: "lockstep ms (Some (bs, rest)) (Some (dst s, left s), received s)"
      "take (min piece (length bs)) (payload s) = take piece bs" "writer_job s = writer_next (drop piece bs) rest"
    using i(4) R_copy by (auto simp: ahead_def reader_job_def)
  then have "take (min piece (left s)) (payload s) = take piece bs" by simp
  from lockstep_advance [OF pl b(1) this] have "level wanted ms s'"
    using b(3) writer_job_cong [of s' s] by (simp add: level_def s' reader_job_def k_def)
  then show ?thesis using i by (simp add: shared_inv_def s')
next
  case R_clear
  then have "s' = s\<lparr>is_readable := False, rpc := R_set\<rparr>" using st by (auto simp: read_from_shared_mem_def)
  then show ?thesis using inv R_clear by (auto simp: shared_inv_def level_def writer_job_def reader_job_def)
next
  case R_set
  then have i: "\<not> is_writable s" "\<not> is_readable s" "wpc s \<in> {W_wait, W_done}" "level wanted ms s" using inv by (auto simp: shared_inv_def)
  have f: "is_writable s' \<and> is_readable s' = is_readable s \<and> rpc s' \<in> {R_wait, R_done} \<and> payload s' = payload s \<and>
      wpc s' = wpc s \<and> src s' = src s \<and> further s' = further s \<and>
      reader_job wanted s' = reader_next wanted (dst s) (left s) (received s)"
    using st R_set by (cases "left s = 0"; cases "wanted (received s @ [dst s])")
      (auto simp: read_from_shared_mem_def reader_job_def reader_next_def Let_def)
  then have "writer_job s' = writer_job s" by (intro writer_job_cong) simp_all
  then have "level wanted ms s'" using i R_set f by (simp add: level_def reader_job_def)
  then show ?thesis using i f by (auto simp: shared_inv_def)
next
  case R_done
  then show ?thesis using st by (simp add: read_from_shared_mem_def)
qed

interpretation shared_memory: invariant_system "\<lambda>s. \<exists>mem. s = shared_start ms mem" "shared_step wanted"
    "\<lambda>s. plan wanted ms \<and> ms \<noteq> [] \<longrightarrow> shared_inv wanted ms s" for wanted ms
  by unfold_locales (auto simp: shared_step_def intro: start_shared_inv writer_step_inv reader_step_inv)

section \<open>Every run ends\<close>

definition pieces :: "nat \<Rightarrow> nat" where
  "pieces n = Suc ((n - 1) div piece)"

fun job_pieces :: "writer_job \<Rightarrow> nat" where
  "job_pieces None = 0"
| "job_pieces (Some (bs, ms)) = pieces (length bs) + sum_list (map (\<lambda>m. pieces (length m)) ms)"

lemma pieces_pos: "0 < pieces n"
  by (simp add: pieces_def)

lemma pieces_more: "piece < n \<Longrightarrow> pieces n = Suc (pieces (n - piece))"
  using piece_pos by (simp add: pieces_def le_div_geq)

lemma pieces_one: "n \<le> piece \<Longrightarrow> pieces n = 1"
  using piece_pos by (simp add: pieces_def)

lemma job_pieces_next: "Suc (job_pieces (writer_next (drop piece bs) rest)) = job_pieces (Some (bs, rest))"
proof (cases "length bs \<le> piece")
  case True
  then show ?thesis by (cases rest) (simp_all add: pieces_one)
next
  case False
  then obtain c cs where c: "drop piece bs = c # cs" by (cases "drop piece bs") auto
  have "length (c # cs) = length bs - piece" unfolding c [symmetric] by simp
  then have "pieces (length bs) = Suc (pieces (length (c # cs)))" using False pieces_more [of "length bs"] by simp
  then show ?thesis unfolding c by simp
qed

fun writer_offset :: "writer_pc \<Rightarrow> int" where
  "writer_offset W_wait = 0" | "writer_offset W_copy = -1" | "writer_offset W_clear = 2" | "writer_offset W_set = 1"
| "writer_offset W_done = 0"

fun reader_offset :: "reader_pc \<Rightarrow> int" where
  "reader_offset R_wait = 0" | "reader_offset R_copy = -1" | "reader_offset R_clear = 2" | "reader_offset R_set = 1"
| "reader_offset R_done = 0"

definition one_ahead :: "shared \<Rightarrow> int" where
  "one_ahead s = (if wpc s \<in> {W_clear, W_set} \<or> is_readable s \<and> rpc s \<in> {R_wait, R_copy} then 1 else 0)"

text \<open>The steps that are left: four on each side for every piece.\<close>

definition steps_left :: "shared \<Rightarrow> int" where
  "steps_left s = 8 * int (job_pieces (writer_job s)) + 4 * one_ahead s + writer_offset (wpc s) + reader_offset (rpc s)"

lemma steps_left_nonneg:
  assumes "shared_inv wanted ms s"
  shows "0 \<le> steps_left s"
proof -
  have w: "wpc s = W_copy \<Longrightarrow> 0 < job_pieces (writer_job s)" using pieces_pos by (simp add: writer_job_def)
  have "rpc s = R_copy \<Longrightarrow> one_ahead s = 1" "0 \<le> one_ahead s" using assms by (auto simp: shared_inv_def one_ahead_def)
  then show ?thesis using w by (cases "wpc s"; cases "rpc s") (auto simp: steps_left_def)
qed

lemma writer_step_work:
  assumes inv: "shared_inv wanted ms s" and st: "write_to_shared_mem s = Some s'"
  shows "steps_left s' = steps_left s - 1"
proof (cases "wpc s")
  case W_wait
  then have "s' = s\<lparr>wpc := W_copy\<rparr>" "is_writable s" using st by (auto simp: write_to_shared_mem_def split: if_splits)
  then show ?thesis using W_wait by (simp add: steps_left_def one_ahead_def writer_job_def)
next
  case W_copy
  then have i: "is_writable s" "\<not> is_readable s" using inv by (auto simp: shared_inv_def)
  have "s' = s\<lparr>payload := payload s', src := drop piece (src s), wpc := W_clear\<rparr>"
    using st W_copy by (auto simp: write_to_shared_mem_def Let_def)
  then obtain p where s': "s' = s\<lparr>payload := p, src := drop piece (src s), wpc := W_clear\<rparr>" by blast
  show ?thesis using i W_copy job_pieces_next [of "src s" "further s"]
    by (simp add: s' steps_left_def one_ahead_def writer_job_def)
next
  case W_clear
  then have "s' = s\<lparr>is_writable := False, wpc := W_set\<rparr>" using st by (auto simp: write_to_shared_mem_def)
  then show ?thesis using W_clear by (simp add: steps_left_def one_ahead_def writer_job_def)
next
  case W_set
  then have i: "\<not> is_readable s" "rpc s = R_wait" using inv by (auto simp: shared_inv_def)
  have "is_readable s' \<and> rpc s' = rpc s \<and> writer_offset (wpc s') = 0 \<and> wpc s' \<in> {W_wait, W_done} \<and>
      writer_job s' = writer_next (src s) (further s)"
    using st W_set by (cases "src s"; cases "further s") (auto simp: write_to_shared_mem_def writer_job_def Let_def)
  then show ?thesis using W_set i by (auto simp: steps_left_def one_ahead_def writer_job_def)
next
  case W_done
  then show ?thesis using st by (simp add: write_to_shared_mem_def)
qed

lemma reader_step_work:
  assumes inv: "shared_inv wanted ms s" and st: "read_from_shared_mem wanted s = Some s'"
  shows "steps_left s' = steps_left s - 1"
proof -
  have "wpc s' = wpc s \<and> src s' = src s \<and> further s' = further s"
    using st by (auto simp: read_from_shared_mem_def Let_def split: reader_pc.splits if_splits option.splits)
  then have w: "writer_job s' = writer_job s" "wpc s' = wpc s" by (auto intro: writer_job_cong)
  show ?thesis
  proof (cases "rpc s")
    case R_wait
    then have "s' = s\<lparr>rpc := R_copy\<rparr>" "is_readable s" using st by (auto simp: read_from_shared_mem_def split: if_splits)
    then show ?thesis using R_wait w by (simp add: steps_left_def one_ahead_def)
  next
    case R_copy
    then have "rpc s' = R_clear" "is_readable s" "wpc s \<notin> {W_clear, W_set}"
      using st inv by (auto simp: read_from_shared_mem_def shared_inv_def Let_def)
    then show ?thesis using R_copy w by (simp add: steps_left_def one_ahead_def)
  next
    case R_clear
    then have "rpc s' = R_set" "wpc s \<notin> {W_clear, W_set}"
      using st inv by (auto simp: read_from_shared_mem_def shared_inv_def)
    then show ?thesis using R_clear w by (simp add: steps_left_def one_ahead_def)
  next
    case R_set
    then have "reader_offset (rpc s') = 0 \<and> \<not> is_readable s'" "\<not> is_readable s" "wpc s \<notin> {W_clear, W_set}"
      using st inv by (auto simp: read_from_shared_mem_def shared_inv_def Let_def split: if_splits option.splits)
    then show ?thesis using R_set w by (simp add: steps_left_def one_ahead_def)
  next
    case R_done
    then show ?thesis using st by (simp add: read_from_shared_mem_def)
  qed
qed

text \<open>Without a step to do, both sides are through.\<close>

lemma stuck_done:
  assumes inv: "shared_inv wanted ms s" and w: "write_to_shared_mem s = None" and r: "read_from_shared_mem wanted s = None"
  shows "wpc s = W_done \<and> rpc s = R_done \<and> received s = ms \<and> steps_left s = 0"
proof -
  have w': "wpc s = W_done \<or> wpc s = W_wait \<and> \<not> is_writable s"
    using w by (auto simp: write_to_shared_mem_def Let_def split: writer_pc.splits if_splits list.splits)
  have r': "rpc s = R_done \<or> rpc s = R_wait \<and> \<not> is_readable s"
    using r by (auto simp: read_from_shared_mem_def Let_def split: reader_pc.splits if_splits option.splits)
  have i: "is_writable s" "\<not> is_readable s" "level wanted ms s" using inv w' r' by (auto simp: shared_inv_def)
  then have "wpc s = W_done" using w' by auto
  moreover from this have "rpc s = R_done" using i r' by (auto simp: level_def writer_job_def reader_job_def)
  ultimately show ?thesis using i by (auto simp: level_def writer_job_def reader_job_def steps_left_def one_ahead_def)
qed

lemma shared_run:
  assumes "(shared_step wanted ^^ n) s t" "plan wanted ms" "shared_inv wanted ms s"
  shows "shared_inv wanted ms t \<and> steps_left t = steps_left s - int n"
  using assms(1)
proof (induction n arbitrary: t)
  case 0
  then show ?case using assms by simp
next
  case (Suc n)
  then obtain u where u: "(shared_step wanted ^^ n) s u" "shared_step wanted u t" by auto
  then have i: "shared_inv wanted ms u" "steps_left u = steps_left s - int n" using Suc.IH by auto
  show ?case
  proof (cases "write_to_shared_mem u = Some t")
    case True
    then show ?thesis using i writer_step_inv [OF i(1) True] writer_step_work [OF i(1) True] by simp
  next
    case False
    then have r: "read_from_shared_mem wanted u = Some t" using u(2) by (simp add: shared_step_def)
    then show ?thesis using i reader_step_inv [OF assms(2) i(1) r] reader_step_work [OF i(1) r] by simp
  qed
qed

section \<open>The program\<close>

text \<open>What the parent wants: first the four bytes of the size, then so many numbers.\<close>

definition mem_wanted :: "int list list \<Rightarrow> nat option" where
  "mem_wanted ms = (case ms of
     [] \<Rightarrow> Some 4
   | [bytes] \<Rightarrow> map_option (\<lambda>sz. nat (sz * 4)) (bytes_int bytes)
   | _ \<Rightarrow> None)"

definition mem_sorter :: "(nat \<Rightarrow> int) \<Rightarrow> string option \<Rightarrow> int list list option" where
  "mem_sorter uninitialised file' = do {
     array \<leftarrow> read_and_sort uninitialised file';
     Some [int_bytes (int (length array)), array_bytes array] }"

definition mem_worker :: "int list list \<Rightarrow> sort_worker option" where
  "mem_worker ms = (case ms of
     [bytes, bytes'] \<Rightarrow> do { sz \<leftarrow> bytes_int bytes; array \<leftarrow> bytes_array bytes'; Some \<lparr>w_array = array, w_size = sz\<rparr> }
   | _ \<Rightarrow> None)"

text \<open>
  The end of main, from the states of the shared memories in which nobody makes a step any more.
\<close>

definition mem_sort_main :: "(nat \<Rightarrow> int) \<Rightarrow> shared list \<Rightarrow> int list option" where
  "mem_sort_main uninitialised mems = do {
     ws \<leftarrow> those (map (mem_worker \<circ> received) mems);
     join_arrays uninitialised ws }"

lemma mem_plan:
  assumes "list_all int_ok vs" "length vs < 2 ^ 29"
  shows "plan mem_wanted [int_bytes (int (length vs)), array_bytes vs]"
proof -
  have "int_ok (int (length vs))" using assms(2) by (simp add: int_ok_def)
  then have b: "bytes_int (int_bytes (int (length vs))) = Some (int (length vs))" by (rule bytes_int_bytes)
  show ?thesis
    unfolding plan_def
  proof (intro allI impI)
    fix dn m rest assume e: "[int_bytes (int (length vs)), array_bytes vs] = dn @ m # rest"
    then consider "dn = []" "m = int_bytes (int (length vs))" "rest = [array_bytes vs]"
      | "dn = [int_bytes (int (length vs))]" "m = array_bytes vs" "rest = []"
      by (cases dn; cases "tl dn") auto
    then show "mem_wanted (dn @ [m]) = (case rest of [] \<Rightarrow> None | x # _ \<Rightarrow> Some (length x))"
      using b by cases (simp_all add: mem_wanted_def nat_mult_distrib)
  qed
qed

lemma final_exists:
  assumes "plan wanted ms" "shared_inv wanted ms s"
  shows "\<exists>t. (shared_step wanted)\<^sup>*\<^sup>* s t \<and> (\<forall>u. \<not> shared_step wanted t u)"
  using assms(2)
proof (induction "nat (steps_left s)" arbitrary: s rule: less_induct)
  case less
  show ?case
  proof (cases "\<exists>u. shared_step wanted s u")
    case True
    then obtain u where u: "shared_step wanted s u" by blast
    then have "(shared_step wanted ^^ 1) s u" by auto
    then have i: "shared_inv wanted ms u" "steps_left u = steps_left s - 1" using shared_run [OF _ assms(1) less.prems, of 1 u] by auto
    then have "nat (steps_left u) < nat (steps_left s)" using steps_left_nonneg [OF i(1)] by simp
    then show ?thesis using less.hyps i(1) u by (meson converse_rtranclp_into_rtranclp)
  next
    case False
    then show ?thesis by blast
  qed
qed

lemma final_received:
  assumes "plan wanted ms" "ms \<noteq> []" "(shared_step wanted)\<^sup>*\<^sup>* (shared_start ms mem) s" "\<forall>u. \<not> shared_step wanted s u"
  shows "received s = ms"
proof -
  obtain n where "(shared_step wanted ^^ n) (shared_start ms mem) s" using rtranclp_imp_relpowp [OF assms(3)] by blast
  then have "shared_inv wanted ms s" using shared_run [OF _ assms(1) start_shared_inv [OF assms(2)]] by blast
  then show ?thesis using stuck_done assms(4) unfolding shared_step_def by blast
qed

section \<open>Properties\<close>

text \<open>C26: The transfer through the shared memory works in every interleaving: the two processes never
  touch the buffer at the same time, every run has at most eight steps for each piece of the
  messages, and a run that cannot go on has brought all messages, those longer than the buffer
  included, to the reader.\<close>

theorem shared_memory_transfer:
  assumes "plan wanted ms" "ms \<noteq> []" "(shared_step wanted ^^ n) (shared_start ms mem) s"
  shows "\<not> (wpc s = W_copy \<and> rpc s = R_copy) \<and> n \<le> 8 * sum_list (map (\<lambda>m. pieces (length m)) ms) \<and>
    ((\<forall>t. \<not> shared_step wanted s t) \<longrightarrow>
       wpc s = W_done \<and> rpc s = R_done \<and> received s = ms \<and> n = 8 * sum_list (map (\<lambda>m. pieces (length m)) ms))"
proof -
  have inv: "shared_inv wanted ms s" and left: "steps_left s = steps_left (shared_start ms mem) - int n"
    using shared_run [OF assms(3,1) start_shared_inv [OF assms(2)]] by auto
  have "steps_left (shared_start ms mem) = 8 * int (sum_list (map (\<lambda>m. pieces (length m)) ms))"
    using assms(2) by (cases ms) (simp_all add: steps_left_def shared_start_def writer_job_def one_ahead_def)
  moreover have "\<not> (wpc s = W_copy \<and> rpc s = R_copy)" using inv by (auto simp: shared_inv_def)
  moreover have "wpc s = W_done \<and> rpc s = R_done \<and> received s = ms \<and> steps_left s = 0" if "\<forall>t. \<not> shared_step wanted s t"
    using stuck_done [OF inv] that unfolding shared_step_def by blast
  ultimately show ?thesis using left steps_left_nonneg [OF inv] by auto
qed

theorem shared_memory_transfer_witness:
  "\<exists>n s. (shared_step mem_wanted ^^ n) (shared_start [int_bytes 1, array_bytes [7]] []) s \<and> received s = [int_bytes 1, array_bytes [7]]
    \<and> n = 16"
proof -
  have p: "plan mem_wanted [int_bytes 1, array_bytes [7]]" using mem_plan [of "[7]"] by (simp add: int_ok_def)
  obtain s where s: "(shared_step mem_wanted)\<^sup>*\<^sup>* (shared_start [int_bytes 1, array_bytes [7]] []) s" "\<forall>u. \<not> shared_step mem_wanted s u"
    using final_exists [OF p start_shared_inv] by blast
  obtain n where n: "(shared_step mem_wanted ^^ n) (shared_start [int_bytes 1, array_bytes [7]] []) s"
    using rtranclp_imp_relpowp [OF s(1)] by blast
  show ?thesis using shared_memory_transfer [OF p _ n] s(2) n
    by (auto simp: pieces_def piece_def MEM_SIZE_def MEM_META_SIZE_def)
qed

text \<open>The three programs compute the same: one process, processes with pipes, whatever pieces the
  reads of the pipes return, and processes with shared memory, in every interleaving: the sorted
  numbers of the first file, then those of the second, and so on. The differences of the numbers
  of a file must fit an int.\<close>

theorem sorting_programs_agree:
  assumes "list_all2 (\<lambda>f vs. \<exists>content. f = Some content \<and> sortable content vs) files vss" "length (concat vss) < 2 ^ 31"
    "list_all2 (\<lambda>f s. \<exists>ms mem. mem_sorter u f = Some ms \<and> (shared_step mem_wanted)\<^sup>*\<^sup>* (shared_start ms mem) s \<and>
       (\<forall>t. \<not> shared_step mem_wanted s t)) files mems"
  shows "simple_sort_main u files = Some (concat (map sort vss)) \<and>
    parallel_sort_main ks u files = Some (concat (map sort vss)) \<and> mem_sort_main u mems = Some (concat (map sort vss))"
proof -
  have one: "simple_sorter u f = Some (worker_of (sort vs)) \<and>
      parallel_sorter u f = Some (int_bytes (int (length (sort vs))) @ array_bytes (sort vs)) \<and>
      mem_sorter u f = Some [int_bytes (int (length (sort vs))), array_bytes (sort vs)] \<and>
      list_all int_ok (sort vs) \<and> length (sort vs) < 2 ^ 29"
    if "\<exists>content. f = Some content \<and> sortable content vs" for f vs
    using that read_and_sort_spec scanned_ok
    by (auto simp: simple_sorter_def parallel_sorter_def mem_sorter_def worker_of_def sortable_def list_all_iff)
  have len: "length (concat (map sort vss)) < 2 ^ 31"
    using assms(2) by (simp add: length_concat comp_def)
  have "those (map (simple_sorter u) files) = Some (map worker_of (map sort vss))"
    using assms(1) one by (induction rule: list_all2_induct) auto
  moreover have "\<exists>pipes. those (map (parallel_sorter u) files) = Some pipes \<and>
      those (map (receive_from_pipe ks) pipes) = Some (map worker_of (map sort vss))"
    using assms(1)
  proof (induction rule: list_all2_induct)
    case (Cons f files vs vss)
    then show ?case using one [OF Cons(1)] receive_from_pipe_spec [of "sort vs" ks] by auto
  qed simp
  moreover have "those (map (mem_worker \<circ> received) mems) = Some (map worker_of (map sort vss))"
    using assms(1,3)
  proof (induction arbitrary: mems rule: list_all2_induct)
    case (Cons f files vs vss)
    obtain s mems' where m: "mems = s # mems'" using Cons.prems by (auto simp: list_all2_Cons1)
    note o = one [OF Cons(1)]
    let ?ms = "[int_bytes (int (length (sort vs))), array_bytes (sort vs)]"
    have ok: "int_ok (int (length (sort vs)))" using o by (auto simp: int_ok_def)
    have "received s = ?ms"
      using final_received [OF mem_plan [of "sort vs"]] o Cons.prems m by auto
    then have "mem_worker (received s) = Some (worker_of (sort vs))"
      using o bytes_int_bytes [OF ok] bytes_array_bytes [of "sort vs"] by (simp add: mem_worker_def worker_of_def)
    then show ?case using Cons m by auto
  qed simp
  ultimately show ?thesis
    using join_arrays_spec [OF len, of u] by (auto simp: simple_sort_main_def parallel_sort_main_def mem_sort_main_def)
qed

theorem sorting_programs_agree_witness:
  "simple_sort_main (\<lambda>_. 0) [Some ''31 -4 7'', Some ''2''] = Some [-4, 7, 31, 2] \<and>
   parallel_sort_main (\<lambda>_. 1) (\<lambda>_. 0) [Some ''31 -4 7'', Some ''2''] = Some [-4, 7, 31, 2]"
proof -
  have a: "sortable ''31 -4 7'' [31, -4, 7]" "sortable ''2'' [2]"
    by (simp_all add: sortable_def scan_numbers.simps fscanf_d_def is_space_def is_digit_def digits_val_def digit_val_def int_ok_def)
  let ?files = "[Some ''31 -4 7'', Some ''2'']" and ?vss = "[[31, -4, 7], [2]]"
  have l: "list_all2 (\<lambda>f vs. \<exists>content. f = Some content \<and> sortable content vs) ?files ?vss" using a by simp
  have "\<exists>s. \<exists>ms mem. mem_sorter (\<lambda>_. 0) (Some content) = Some ms \<and> (shared_step mem_wanted)\<^sup>*\<^sup>* (shared_start ms mem) s \<and>
       (\<forall>t. \<not> shared_step mem_wanted s t)" if "sortable content vs" for content vs
  proof -
    let ?ms = "[int_bytes (int (length (sort vs))), array_bytes (sort vs)]"
    have "list_all int_ok (sort vs)" "length (sort vs) < 2 ^ 29"
      using that scanned_ok by (auto simp: sortable_def list_all_iff)
    then have p: "plan mem_wanted ?ms" by (rule mem_plan)
    have "mem_sorter (\<lambda>_. 0) (Some content) = Some ?ms" using read_and_sort_spec [OF that] by (simp add: mem_sorter_def)
    then show ?thesis using final_exists [OF p start_shared_inv, of "[]"] by blast
  qed
  from this [OF a(1)] this [OF a(2)] obtain s t where
    "list_all2 (\<lambda>f s. \<exists>ms mem. mem_sorter (\<lambda>_. 0) f = Some ms \<and> (shared_step mem_wanted)\<^sup>*\<^sup>* (shared_start ms mem) s \<and>
       (\<forall>t. \<not> shared_step mem_wanted s t)) ?files [s, t]" by auto
  from sorting_programs_agree [OF l _ this, of "\<lambda>_. 1"] show ?thesis by simp
qed

end
