(* ===== verification/Chat.thy ===== *)
theory Chat
  imports File_Merge
begin

text \<open>
  The chat of 5/: chat.c, the client and the server of chat_client.c and chat_server.c, whose
  operations are still the templates of the exercise, and the two programs chat_client_exe.c and
  chat_server_exe.c with the parser of the port. The programs are defined for any operations of the
  interfaces chat_client.h and chat_server.h; the operations of the repository are one instance.
  What the programs print, feed to the client, close and free is kept as a list of effects.
\<close>

unbundle bit_operations_syntax

section \<open>chat.h and chat.c\<close>

definition CHAT_ERR_TIMEOUT :: int where "CHAT_ERR_TIMEOUT = 2"
definition CHAT_ERR_NOT_IMPLEMENTED :: int where "CHAT_ERR_NOT_IMPLEMENTED = 6"
definition CHAT_EVENT_INPUT :: int where "CHAT_EVENT_INPUT = 1"
definition CHAT_EVENT_OUTPUT :: int where "CHAT_EVENT_OUTPUT = 2"

definition POLLIN :: int where "POLLIN = 1"
definition POLLOUT :: int where "POLLOUT = 4"

text \<open>The programs are built without NEED_AUTHOR, so a message is its text.\<close>

record chat_message =
  data :: string

datatype effect =
    Expected_an_address | Expected_a_port | Invalid_port
  | Could_not_connect int | Could_not_listen int
  | Poll_error int | EOF_exiting | Feed_error int | Update_error int
  | Message string
  | Polls int int
  | Closes int
  | Frees_message chat_message
  | Frees_handle

definition chat_message_delete :: "chat_message \<Rightarrow> effect list" where
  "chat_message_delete msg = [Frees_message msg]"

definition chat_events_to_poll_events :: "int \<Rightarrow> int" where
  "chat_events_to_poll_events events =
     (let res = 0;
          res = (if events AND CHAT_EVENT_INPUT \<noteq> 0 then res OR POLLIN else res);
          res = (if events AND CHAT_EVENT_OUTPUT \<noteq> 0 then res OR POLLOUT else res)
      in res)"

section \<open>The client of chat_client.c\<close>

record chat_client =
  client_socket :: int

definition chat_client_new :: "string \<Rightarrow> chat_client" where
  "chat_client_new name = \<lparr>client_socket = - 1\<rparr>"

definition chat_client_delete :: "chat_client \<Rightarrow> effect list" where
  "chat_client_delete client =
     (if client_socket client \<ge> 0 then [Closes (client_socket client)] else []) @ [Frees_handle]"

definition chat_client_connect :: "chat_client \<Rightarrow> string \<Rightarrow> int \<times> chat_client" where
  "chat_client_connect client addr = (CHAT_ERR_NOT_IMPLEMENTED, client)"

definition chat_client_pop_next :: "chat_client \<Rightarrow> chat_message option \<times> chat_client" where
  "chat_client_pop_next client = (None, client)"

definition chat_client_update :: "'n \<Rightarrow> chat_client \<Rightarrow> int \<times> chat_client" where
  "chat_client_update net client = (CHAT_ERR_NOT_IMPLEMENTED, client)"

definition chat_client_get_descriptor :: "chat_client \<Rightarrow> int" where
  "chat_client_get_descriptor client = client_socket client"

definition chat_client_get_events :: "chat_client \<Rightarrow> int" where
  "chat_client_get_events client = CHAT_EVENT_INPUT"

definition chat_client_feed :: "chat_client \<Rightarrow> string \<Rightarrow> nat \<Rightarrow> int \<times> chat_client" where
  "chat_client_feed client msg msg_size = (CHAT_ERR_NOT_IMPLEMENTED, client)"

section \<open>The server of chat_server.c\<close>

record chat_server =
  server_socket :: int

definition chat_server_new :: chat_server where
  "chat_server_new = \<lparr>server_socket = - 1\<rparr>"

definition chat_server_delete :: "chat_server \<Rightarrow> effect list" where
  "chat_server_delete server =
     (if server_socket server \<ge> 0 then [Closes (server_socket server)] else []) @ [Frees_handle]"

definition chat_server_listen :: "chat_server \<Rightarrow> int \<Rightarrow> int \<times> chat_server" where
  "chat_server_listen server port = (CHAT_ERR_NOT_IMPLEMENTED, server)"

definition chat_server_pop_next :: "chat_server \<Rightarrow> chat_message option \<times> chat_server" where
  "chat_server_pop_next server = (None, server)"

definition chat_server_update :: "'n \<Rightarrow> chat_server \<Rightarrow> int \<times> chat_server" where
  "chat_server_update net server = (CHAT_ERR_NOT_IMPLEMENTED, server)"

definition chat_server_get_descriptor :: "chat_server \<Rightarrow> int" where
  "chat_server_get_descriptor server = - 1"

definition chat_server_get_socket :: "chat_server \<Rightarrow> int" where
  "chat_server_get_socket server = server_socket server"

definition chat_server_get_events :: "chat_server \<Rightarrow> int" where
  "chat_server_get_events server = CHAT_EVENT_INPUT"

definition chat_server_feed :: "chat_server \<Rightarrow> string \<Rightarrow> nat \<Rightarrow> int \<times> chat_server" where
  "chat_server_feed server msg msg_size = (CHAT_ERR_NOT_IMPLEMENTED, server)"

section \<open>The programs\<close>

text \<open>The loop that prints and deletes the pending messages; it ends when none is left.\<close>

partial_function (option) flush ::
  "('c \<Rightarrow> chat_message option \<times> 'c) \<Rightarrow> 'c \<Rightarrow> effect list \<Rightarrow> ('c \<times> effect list) option" where
  "flush pop cli out =
     (let r = pop cli
      in if fst r = None then Some (snd r, out)
         else let msg = the (fst r)
              in flush pop (snd r) (out @ [Message (data msg)] @ chat_message_delete msg))"

text \<open>The operations of chat_client.h. An update also takes what has come from the network.\<close>

record ('c, 'n) client_ops =
  cli_new :: "string \<Rightarrow> 'c"
  cli_delete :: "'c \<Rightarrow> effect list"
  cli_connect :: "'c \<Rightarrow> string \<Rightarrow> int \<times> 'c"
  cli_pop_next :: "'c \<Rightarrow> chat_message option \<times> 'c"
  cli_update :: "'n \<Rightarrow> 'c \<Rightarrow> int \<times> 'c"
  cli_get_descriptor :: "'c \<Rightarrow> int"
  cli_get_events :: "'c \<Rightarrow> int"
  cli_feed :: "'c \<Rightarrow> string \<Rightarrow> nat \<Rightarrow> int \<times> 'c"

definition chat_client_ops :: "(chat_client, 'n) client_ops" where
  "chat_client_ops = \<lparr>cli_new = chat_client_new, cli_delete = chat_client_delete,
     cli_connect = chat_client_connect, cli_pop_next = chat_client_pop_next,
     cli_update = chat_client_update, cli_get_descriptor = chat_client_get_descriptor,
     cli_get_events = chat_client_get_events, cli_feed = chat_client_feed\<rparr>"

text \<open>
  What one call of poll finds: an error with its errno, or whether the input and the client are
  signalled, what read then returns (None is an error), and what has come for the client.
\<close>

datatype 'n poll_result = Poll_fails int | Poll bool bool "string option" 'n

definition buf_size :: nat where "buf_size = 1024"

text \<open>read into the buffer: the result and the buffer, whose first bytes are overwritten.\<close>

definition read_input :: "string option \<Rightarrow> string \<Rightarrow> int \<times> string" where
  "read_input r buf =
     (case r of None \<Rightarrow> (- 1, buf)
      | Some bytes \<Rightarrow> (let bytes = take (buf_size - 1) bytes
                     in (int (length bytes), bytes @ drop (length bytes) buf)))"

text \<open>The part of an iteration for the input: None leaves the loop. The size is a uint32_t.\<close>

definition handle_input ::
  "('c, 'n) client_ops \<Rightarrow> string option \<Rightarrow> string \<Rightarrow> 'c \<Rightarrow> effect list \<Rightarrow> bool \<times> string \<times> 'c \<times> effect list" where
  "handle_input ops r buf cli out =
     (let (rc, buf) = read_input r buf
      in if rc = 0 then (False, buf, cli, out @ [EOF_exiting])
         else let (rc, cli) = cli_feed ops cli buf (nat (rc mod 2 ^ 32))
              in if rc \<noteq> 0 then (False, buf, cli, out @ [Feed_error rc]) else (True, buf, cli, out))"

definition handle_update :: "('c, 'n) client_ops \<Rightarrow> 'n \<Rightarrow> 'c \<Rightarrow> effect list \<Rightarrow> bool \<times> 'c \<times> effect list" where
  "handle_update ops net cli out =
     (let (rc, cli) = cli_update ops net cli
      in if rc \<noteq> 0 \<and> rc \<noteq> CHAT_ERR_TIMEOUT then (False, cli, out @ [Update_error rc]) else (True, cli, out))"

text \<open>
  The loop, over the results of its calls of poll. The first component of the result tells whether
  the loop is left: without a further result it waits in poll.
\<close>

fun client_loop ::
  "('c, 'n) client_ops \<Rightarrow> 'n poll_result list \<Rightarrow> string \<Rightarrow> 'c \<Rightarrow> effect list \<Rightarrow> (bool \<times> 'c \<times> effect list) option" where
  "client_loop ops polls buf cli out =
     (let out = out @ [Polls POLLIN (chat_events_to_poll_events (cli_get_events ops cli))]
      in case polls of
           [] \<Rightarrow> Some (False, cli, out)
         | Poll_fails err # _ \<Rightarrow> Some (True, cli, out @ [Poll_error err])
         | Poll on_input on_client r net # polls \<Rightarrow>
             (let (go, buf, cli, out) =
                (if on_input then handle_input ops r buf cli out else (True, buf, cli, out))
              in if \<not> go then Some (True, cli, out)
                 else let (go, cli, out) =
                        (if on_client then handle_update ops net cli out else (True, cli, out))
                      in if \<not> go then Some (True, cli, out)
                         else do {
                           (cli, out) \<leftarrow> flush (cli_pop_next ops) cli out;
                           client_loop ops polls buf cli out }))"

declare client_loop.simps [simp del]

text \<open>
  The outcome of a program: its status, None while it still runs, and its effects. A failing assert
  is None.
\<close>

definition client_main ::
  "('c, 'n) client_ops \<Rightarrow> string list \<Rightarrow> 'n poll_result list \<Rightarrow> (int option \<times> 'c option \<times> effect list) option" where
  "client_main ops argv polls =
     (if length argv < 2 then Some (Some (- 1), None, [Expected_an_address])
      else let addr = argv ! 1;
               name = (if length argv \<ge> 3 then argv ! 2 else ''anon'');
               cli = cli_new ops name;
               (rc, cli) = cli_connect ops cli addr
           in if rc \<noteq> 0 then Some (Some (- 1), Some cli, [Could_not_connect rc] @ cli_delete ops cli)
              else if \<not> (cli_get_descriptor ops cli \<ge> 0) then None
              else do {
                (left, cli, out) \<leftarrow> client_loop ops polls [] cli [];
                Some (if left then (Some 0, Some cli, out @ cli_delete ops cli) else (None, Some cli, out)) })"

text \<open>
  strtol in base 10: the white space, the sign, the digits; the value clamped to the range of long,
  whether errno is set, and the rest of the string. Without a digit nothing is consumed.
\<close>

definition skip_sign :: "string \<Rightarrow> bool \<times> string" where
  "skip_sign s =
     (case s of
        [] \<Rightarrow> (False, [])
      | c # t \<Rightarrow> if c = CHR ''-'' then (True, t) else if c = CHR ''+'' then (False, t) else (False, s))"

definition clamp_long :: "int \<Rightarrow> int" where
  "clamp_long v = (if v < - (2 ^ 63) then - (2 ^ 63) else if v \<ge> 2 ^ 63 then 2 ^ 63 - 1 else v)"

definition strtol :: "string \<Rightarrow> int \<times> bool \<times> string" where
  "strtol s =
     (let (neg, s2) = skip_sign (dropWhile is_space s);
          ds = takeWhile is_digit s2;
          v = (if neg then - digits_val ds else digits_val ds)
      in if ds = [] then (0, False, s)
         else (clamp_long v, \<not> long_ok v, dropWhile is_digit s2))"

definition UINT16_MAX :: int where "UINT16_MAX = 65535"

text \<open>The port, or None for the result -1.\<close>

definition port_from_str :: "string \<Rightarrow> int option" where
  "port_from_str str =
     (let (res, errno_set, rest) = strtol str
      in if res = 0 \<and> errno_set then None
         else if rest \<noteq> [] then None
         else if res > UINT16_MAX \<or> res < 0 then None
         else Some res)"

record ('c, 'n) server_ops =
  serv_new :: 'c
  serv_delete :: "'c \<Rightarrow> effect list"
  serv_listen :: "'c \<Rightarrow> int \<Rightarrow> int \<times> 'c"
  serv_pop_next :: "'c \<Rightarrow> chat_message option \<times> 'c"
  serv_update :: "'n \<Rightarrow> 'c \<Rightarrow> int \<times> 'c"

definition chat_server_ops :: "(chat_server, 'n) server_ops" where
  "chat_server_ops = \<lparr>serv_new = chat_server_new, serv_delete = chat_server_delete,
     serv_listen = chat_server_listen, serv_pop_next = chat_server_pop_next,
     serv_update = chat_server_update\<rparr>"

fun server_loop :: "('c, 'n) server_ops \<Rightarrow> 'n list \<Rightarrow> 'c \<Rightarrow> effect list \<Rightarrow> (bool \<times> 'c \<times> effect list) option" where
  "server_loop ops [] serv out = Some (False, serv, out)"
| "server_loop ops (net # nets) serv out =
     (let (rc, serv) = serv_update ops net serv
      in if rc \<noteq> 0 then Some (True, serv, out @ [Update_error rc])
         else do {
           (serv, out) \<leftarrow> flush (serv_pop_next ops) serv out;
           server_loop ops nets serv out })"

definition server_main ::
  "('c, 'n) server_ops \<Rightarrow> string list \<Rightarrow> 'n list \<Rightarrow> (int option \<times> 'c option \<times> effect list) option" where
  "server_main ops argv nets =
     (if length argv < 2 then Some (Some (- 1), None, [Expected_a_port])
      else case port_from_str (argv ! 1) of
        None \<Rightarrow> Some (Some (- 1), None, [Invalid_port])
      | Some port \<Rightarrow>
          (let serv = serv_new ops; (rc, serv) = serv_listen ops serv port
           in if rc \<noteq> 0 then Some (Some (- 1), Some serv, [Could_not_listen rc] @ serv_delete ops serv)
              else do {
                (left, serv, out) \<leftarrow> server_loop ops nets serv [];
                Some (if left then (Some 0, Some serv, out @ serv_delete ops serv) else (None, Some serv, out)) }))"

section \<open>The events and the port\<close>

lemma poll_events_correct:
  "chat_events_to_poll_events events AND POLLIN \<noteq> 0 \<longleftrightarrow> events AND CHAT_EVENT_INPUT \<noteq> 0"
  "chat_events_to_poll_events events AND POLLOUT \<noteq> 0 \<longleftrightarrow> events AND CHAT_EVENT_OUTPUT \<noteq> 0"
  by (simp_all add: chat_events_to_poll_events_def POLLIN_def POLLOUT_def Let_def)

lemma space_not_number: "is_space c \<Longrightarrow> \<not> is_digit c \<and> c \<noteq> CHR ''-'' \<and> c \<noteq> CHR ''+''"
  by (auto simp: is_space_def is_digit_def)

lemma sign_not_digit: "\<not> is_digit (CHR ''-'')" "\<not> is_digit (CHR ''+'')"
  by (simp_all add: is_digit_def)

text \<open>A number as strtol reads it: white space, at most one sign, the digits.\<close>

definition signed_number :: "string \<Rightarrow> int \<Rightarrow> bool" where
  "signed_number s v \<longleftrightarrow> (\<exists>spaces sign ds. s = spaces @ sign @ ds \<and> (\<forall>c \<in> set spaces. is_space c) \<and>
     sign \<in> {[], ''-'', ''+''} \<and> ds \<noteq> [] \<and> (\<forall>c \<in> set ds. is_digit c) \<and>
     v = (if sign = ''-'' then - digits_val ds else digits_val ds))"

lemma drop_spaces: "(\<forall>c \<in> set spaces. is_space c) \<Longrightarrow> rest = [] \<or> \<not> is_space (hd rest) \<Longrightarrow>
  dropWhile is_space (spaces @ rest) = rest"
  by (cases rest) (auto simp: dropWhile_append)

lemma skip_sign_number:
  assumes "sign \<in> {[], ''-'', ''+''}" "ds \<noteq> []" "\<forall>c \<in> set ds. is_digit c"
  shows "skip_sign (sign @ ds) = (sign = ''-'', ds)"
  using assms sign_not_digit by (cases ds) (auto simp: skip_sign_def)

lemma skip_sign_parts: "skip_sign s = (neg, t) \<Longrightarrow> \<exists>sign \<in> {[], ''-'', ''+''}. s = sign @ t \<and> neg = (sign = ''-'')"
  by (auto simp: skip_sign_def split: list.splits if_splits)

lemma strtol_number:
  assumes "signed_number s v"
  shows "strtol s = (clamp_long v, \<not> long_ok v, [])"
proof -
  obtain spaces sign ds where s: "s = spaces @ sign @ ds" "\<forall>c \<in> set spaces. is_space c"
    "sign \<in> {[], ''-'', ''+''}" "ds \<noteq> []" "\<forall>c \<in> set ds. is_digit c"
    "v = (if sign = ''-'' then - digits_val ds else digits_val ds)"
    using assms unfolding signed_number_def by blast
  have "is_digit (hd ds)" using s(4,5) by simp
  then have "\<not> is_space (hd (sign @ ds))"
    using s(3,4) space_not_number by (metis append_Nil empty_iff hd_append2 insert_iff list.sel(1) not_Cons_self2)
  then have 1: "dropWhile is_space s = sign @ ds" using drop_spaces [OF s(2)] s(1) by blast
  have "takeWhile is_digit ds = ds" "dropWhile is_digit ds = []" using s(5) by auto
  then show ?thesis using s(4) by (simp del: takeWhile_eq_all_conv dropWhile_eq_Nil_conv add: strtol_def 1 skip_sign_number [OF s(3-5)] s(6) Let_def)
qed

lemma strtol_whole:
  assumes "strtol s = (res, e, [])" shows "(s = [] \<and> res = 0) \<or> (\<exists>v. signed_number s v)"
proof -
  define s1 where "s1 = dropWhile is_space s"
  obtain neg t where t: "skip_sign s1 = (neg, t)" by force
  obtain sign where g: "sign \<in> {[], ''-'', ''+''}" "s1 = sign @ t" using skip_sign_parts [OF t] by blast
  have st: "s = takeWhile is_space s @ sign @ t" unfolding g(2) [symmetric] s1_def by simp
  note u = assms [unfolded strtol_def s1_def [symmetric] t Let_def prod.case]
  show ?thesis
  proof (cases "takeWhile is_digit t = []")
    case False
    then have "dropWhile is_digit t = []" using u by simp
    then have d: "\<forall>c \<in> set t. is_digit c" by (simp add: dropWhile_eq_Nil_conv)
    have "t \<noteq> []" using False by auto
    moreover have "\<forall>c \<in> set (takeWhile is_space s). is_space c" by (auto dest: set_takeWhileD)
    ultimately have "signed_number s (if sign = ''-'' then - digits_val t else digits_val t)"
      unfolding signed_number_def using st g(1) d by (intro exI conjI) (rule st, assumption+, rule refl)
    then show ?thesis by blast
  qed (use u in simp)
qed

text \<open>The server accepts as a port exactly the numbers from 0 to 65535, with white space and a
  sign in front and nothing behind, also when the number does not fit a long, and the empty string,
  which it reads as port 0.\<close>

theorem port_from_str_correct:
  "port_from_str s = Some port \<longleftrightarrow>
     (s = [] \<and> port = 0) \<or> (signed_number s port \<and> 0 \<le> port \<and> port \<le> 65535)"
proof
  assume p: "port_from_str s = Some port"
  then obtain e where st: "strtol s = (port, e, [])" "0 \<le> port" "port \<le> 65535"
    by (auto simp: port_from_str_def UINT16_MAX_def split: prod.splits if_splits)
  from strtol_whole [OF st(1)]
  show "(s = [] \<and> port = 0) \<or> (signed_number s port \<and> 0 \<le> port \<and> port \<le> 65535)"
  proof
    assume "\<exists>v. signed_number s v"
    then obtain v where v: "signed_number s v" by blast
    from strtol_number [OF this] st have "port = v" by (auto simp: clamp_long_def split: if_splits)
    with v st show ?thesis by simp
  qed simp
next
  assume "(s = [] \<and> port = 0) \<or> (signed_number s port \<and> 0 \<le> port \<and> port \<le> 65535)"
  then show "port_from_str s = Some port"
  proof
    assume "signed_number s port \<and> 0 \<le> port \<and> port \<le> 65535"
    then show ?thesis using strtol_number [of s port]
      by (simp add: port_from_str_def UINT16_MAX_def long_ok_def clamp_long_def)
  qed (simp add: port_from_str_def strtol_def UINT16_MAX_def skip_sign_def)
qed

section \<open>The client\<close>

definition printed :: "effect list \<Rightarrow> string list" where
  "printed out = concat (map (\<lambda>e. case e of Message text \<Rightarrow> [text] | _ \<Rightarrow> []) out)"

definition freed :: "effect list \<Rightarrow> chat_message list" where
  "freed out = concat (map (\<lambda>e. case e of Frees_message msg \<Rightarrow> [msg] | _ \<Rightarrow> []) out)"

lemma printed_simps [simp]:
  "printed [] = []" "printed (out @ out') = printed out @ printed out'"
  "printed (e # out) = (case e of Message text \<Rightarrow> [text] | _ \<Rightarrow> []) @ printed out"
  by (simp_all add: printed_def)

lemma freed_simps [simp]:
  "freed [] = []" "freed (out @ out') = freed out @ freed out'"
  "freed (e # out) = (case e of Frees_message msg \<Rightarrow> [msg] | _ \<Rightarrow> []) @ freed out"
  by (simp_all add: freed_def)

text \<open>
  What chat_client.h promises of a connected client, seen as three sequences: the bytes it was fed,
  the messages that have come for it, and those of them that were not yet popped.
\<close>

definition feed_ok :: "('c, 'n) client_ops \<Rightarrow> ('c \<Rightarrow> string) \<Rightarrow> ('c \<Rightarrow> chat_message list) \<Rightarrow> ('c \<Rightarrow> chat_message list) \<Rightarrow> bool" where
  "feed_ok ops fed received pending \<longleftrightarrow> (\<forall>cli buf n. n \<le> length buf \<longrightarrow>
     (\<exists>cli'. cli_feed ops cli buf n = (0, cli') \<and> fed cli' = fed cli @ take n buf \<and>
       received cli' = received cli \<and> pending cli' = pending cli))"

definition update_ok :: "('c, 'n) client_ops \<Rightarrow> ('c \<Rightarrow> string) \<Rightarrow> ('c \<Rightarrow> chat_message list) \<Rightarrow> ('c \<Rightarrow> chat_message list) \<Rightarrow> bool" where
  "update_ok ops fed received pending \<longleftrightarrow> (\<forall>net cli. \<exists>rc cli' ms. cli_update ops net cli = (rc, cli') \<and>
     (rc = 0 \<or> rc = CHAT_ERR_TIMEOUT) \<and> fed cli' = fed cli \<and>
     received cli' = received cli @ ms \<and> pending cli' = pending cli @ ms)"

definition pop_ok :: "('c, 'n) client_ops \<Rightarrow> ('c \<Rightarrow> string) \<Rightarrow> ('c \<Rightarrow> chat_message list) \<Rightarrow> ('c \<Rightarrow> chat_message list) \<Rightarrow> bool" where
  "pop_ok ops fed received pending \<longleftrightarrow> (\<forall>cli. \<exists>cli'.
     cli_pop_next ops cli = (if pending cli = [] then None else Some (hd (pending cli)), cli') \<and>
     fed cli' = fed cli \<and> received cli' = received cli \<and> pending cli' = tl (pending cli))"

lemma pop_ok_step:
  assumes "pop_ok ops fed received pending"
  obtains cli' where "cli_pop_next ops cli = (if pending cli = [] then None else Some (hd (pending cli)), cli')"
    "fed cli' = fed cli" "received cli' = received cli" "pending cli' = tl (pending cli)"
  using assms unfolding pop_ok_def by blast

lemma flush_pending:
  assumes "pop_ok ops fed received pending"
  shows "\<exists>cli' out'. flush (cli_pop_next ops) cli out = Some (cli', out @ out') \<and> pending cli' = [] \<and>
    fed cli' = fed cli \<and> received cli' = received cli \<and> printed out' = map data (pending cli) \<and> freed out' = pending cli"
proof (induction "pending cli" arbitrary: cli out)
  case Nil
  obtain c where "cli_pop_next ops cli = (None, c)" "fed c = fed cli" "received c = received cli" "pending c = []"
    using pop_ok_step [OF assms, of cli] Nil by auto
  then show ?case by (subst flush.simps) (simp add: Nil [symmetric])
next
  case (Cons msg ms)
  obtain c where c: "cli_pop_next ops cli = (Some msg, c)" "fed c = fed cli" "received c = received cli" "pending c = ms"
    using pop_ok_step [OF assms, of cli] Cons(2) [symmetric] by auto
  obtain cli' out' where "flush (cli_pop_next ops) c (out @ [Message (data msg), Frees_message msg]) =
      Some (cli', (out @ [Message (data msg), Frees_message msg]) @ out')" "pending cli' = []"
    "fed cli' = fed cli" "received cli' = received cli" "printed out' = map data ms" "freed out' = ms"
    using Cons(1) [of c "out @ [Message (data msg), Frees_message msg]"] c by auto
  then show ?case
    by (intro exI [of _ cli'] exI [of _ "[Message (data msg), Frees_message msg] @ out'"], subst flush.simps)
      (simp add: chat_message_delete_def c Cons(2) [symmetric])
qed

text \<open>A poll without an error, whose read gives something; what it reads.\<close>

fun good_poll :: "'n poll_result \<Rightarrow> bool" where
  "good_poll (Poll_fails _) = False"
| "good_poll (Poll on_input on_client r net) =
     (on_input \<longrightarrow> (case r of None \<Rightarrow> False | Some bytes \<Rightarrow> bytes \<noteq> [] \<and> length bytes < buf_size))"

fun input_of :: "'n poll_result \<Rightarrow> string" where
  "input_of (Poll True on_client (Some bytes) net) = bytes"
| "input_of _ = []"

lemma handle_input_good:
  assumes "feed_ok ops fed received pending" "bytes \<noteq> []" "length bytes < buf_size"
  shows "\<exists>buf' cli'. handle_input ops (Some bytes) buf cli out = (True, buf', cli', out) \<and>
    fed cli' = fed cli @ bytes \<and> received cli' = received cli \<and> pending cli' = pending cli"
proof -
  have "take (buf_size - 1) bytes = bytes" using assms(3) by simp
  then have 1: "read_input (Some bytes) buf = (int (length bytes), bytes @ drop (length bytes) buf)"
    unfolding read_input_def option.case Let_def by simp
  have 2: "nat (int (length bytes) mod 2 ^ 32) = length bytes" using assms(3) by (simp add: buf_size_def)
  have "length bytes \<le> length (bytes @ drop (length bytes) buf)" by simp
  then obtain cli' where "cli_feed ops cli (bytes @ drop (length bytes) buf) (length bytes) = (0, cli')"
    "fed cli' = fed cli @ take (length bytes) (bytes @ drop (length bytes) buf)"
    "received cli' = received cli" "pending cli' = pending cli"
    using assms(1) unfolding feed_ok_def by blast
  then show ?thesis using assms(2) unfolding handle_input_def Let_def 1 prod.case 2 by simp
qed

lemma handle_update_good:
  assumes "update_ok ops fed received pending"
  shows "\<exists>cli' ms. handle_update ops net cli out = (True, cli', out) \<and>
    fed cli' = fed cli \<and> received cli' = received cli @ ms \<and> pending cli' = pending cli @ ms"
proof -
  obtain rc cli' ms where "cli_update ops net cli = (rc, cli')" "rc = 0 \<or> rc = CHAT_ERR_TIMEOUT"
    "fed cli' = fed cli" "received cli' = received cli @ ms" "pending cli' = pending cli @ ms"
    using assms unfolding update_ok_def by blast
  then show ?thesis by (auto simp: handle_update_def)
qed

lemma client_loop_end:
  "client_loop ops [Poll True on_client (Some []) net] buf cli out =
     Some (True, cli, out @ [Polls POLLIN (chat_events_to_poll_events (cli_get_events ops cli)), EOF_exiting])"
  by (simp add: client_loop.simps handle_input_def read_input_def Let_def)

lemma client_loop_good:
  assumes "feed_ok ops fed received pending" "update_ok ops fed received pending" "pop_ok ops fed received pending"
    and "good_poll p" "pending cli = []"
  shows "\<exists>buf' cli' out' ms. client_loop ops (p # polls) buf cli out = client_loop ops polls buf' cli' (out @ out') \<and>
    fed cli' = fed cli @ input_of p \<and> received cli' = received cli @ ms \<and> pending cli' = [] \<and>
    printed out' = map data ms \<and> freed out' = ms"
proof -
  obtain on_input on_client r net where p: "p = Poll on_input on_client r net"
    "on_input \<Longrightarrow> \<exists>bytes. r = Some bytes \<and> bytes \<noteq> [] \<and> length bytes < buf_size"
    using assms(4) by (cases p) (auto split: option.splits)
  define ev where "ev = Polls POLLIN (chat_events_to_poll_events (cli_get_events ops cli))"
  define o1 where "o1 = out @ [ev]"
  obtain buf1 c1 where 1: "(if on_input then handle_input ops r buf cli o1 else (True, buf, cli, o1)) = (True, buf1, c1, o1)"
    "fed c1 = fed cli @ input_of p" "received c1 = received cli" "pending c1 = []"
  proof (cases on_input)
    case True
    then obtain bytes where b: "r = Some bytes" "bytes \<noteq> []" "length bytes < buf_size" using p(2) by blast
    then show ?thesis using that handle_input_good [OF assms(1) b(2,3), of buf cli o1] True p(1) assms(5) by auto
  qed (use that p(1) assms(5) in simp)
  obtain c2 ms where 2: "(if on_client then handle_update ops net c1 o1 else (True, c1, o1)) = (True, c2, o1)"
    "fed c2 = fed c1" "received c2 = received c1 @ ms" "pending c2 = ms"
  proof (cases on_client)
    case True
    then show ?thesis using that handle_update_good [OF assms(2), of net c1 o1] 1(4) by auto
  qed (use that [of c1 "[]"] 1(4) in simp)
  obtain c3 out3 where 3: "flush (cli_pop_next ops) c2 o1 = Some (c3, o1 @ out3)" "pending c3 = []"
    "fed c3 = fed c2" "received c3 = received c2" "printed out3 = map data ms" "freed out3 = ms"
    using flush_pending [OF assms(3), of c2 o1] 2(4) by auto
  have "client_loop ops (p # polls) buf cli out = client_loop ops polls buf1 c3 (out @ ev # out3)"
    by (subst client_loop.simps) (simp add: p(1) Let_def ev_def [symmetric] o1_def [symmetric] 1(1) 2(1) 3(1), simp add: o1_def)
  moreover have "printed (ev # out3) = map data ms" "freed (ev # out3) = ms" using 3 by (simp_all add: ev_def)
  ultimately show ?thesis using 1 2 3 by (intro exI [of _ buf1] exI [of _ c3] exI [of _ "ev # out3"] exI [of _ ms]) simp
qed

lemma client_loop_until_eof:
  assumes "feed_ok ops fed received pending" "update_ok ops fed received pending" "pop_ok ops fed received pending"
    and "\<forall>p \<in> set polls. good_poll p" "pending cli = []"
  shows "\<exists>cli' out' ms. client_loop ops (polls @ [Poll True on_client (Some []) net]) buf cli out = Some (True, cli', out @ out') \<and>
    fed cli' = fed cli @ concat (map input_of polls) \<and> received cli' = received cli @ ms \<and> pending cli' = [] \<and>
    printed out' = map data ms \<and> freed out' = ms"
  using assms(4,5)
proof (induction polls arbitrary: buf cli out)
  case Nil
  then show ?case by (auto simp: client_loop_end)
next
  case (Cons p polls)
  then obtain buf1 c1 out1 ms1 where 1:
    "client_loop ops (p # polls @ [Poll True on_client (Some []) net]) buf cli out =
       client_loop ops (polls @ [Poll True on_client (Some []) net]) buf1 c1 (out @ out1)"
    "fed c1 = fed cli @ input_of p" "received c1 = received cli @ ms1" "pending c1 = []" "printed out1 = map data ms1" "freed out1 = ms1"
    using client_loop_good [OF assms(1-3), of p cli] by (metis list.set_intros(1))
  obtain c2 out2 ms2 where 2:
    "client_loop ops (polls @ [Poll True on_client (Some []) net]) buf1 c1 (out @ out1) = Some (True, c2, (out @ out1) @ out2)"
    "fed c2 = fed c1 @ concat (map input_of polls)" "received c2 = received c1 @ ms2" "pending c2 = []"
    "printed out2 = map data ms2" "freed out2 = ms2"
    using Cons.IH [of c1 buf1 "out @ out1"] Cons.prems(1) 1(4) by auto
  show ?case using 1 2
    by (intro exI [of _ c2] exI [of _ "out1 @ out2"] exI [of _ "ms1 @ ms2"]) simp
qed

text \<open>With client operations that keep what chat_client.h promises, the client program feeds the
  client every byte it reads, in order, until the end of the input, and prints every message that has
  come, in order, and frees each once; then it deletes the client and returns 0.\<close>

theorem client_relays_everything:
  assumes "feed_ok ops fed received pending" "update_ok ops fed received pending" "pop_ok ops fed received pending"
    and "length argv \<ge> 2" "cli_connect ops (cli_new ops (if length argv \<ge> 3 then argv ! 2 else ''anon'')) (argv ! 1) = (0, cli)"
    and "cli_get_descriptor ops cli \<ge> 0" "fed cli = []" "received cli = []" "pending cli = []"
    and "\<forall>p \<in> set polls. good_poll p"
  shows "\<exists>cli' out. client_main ops argv (polls @ [Poll True on_client (Some []) net]) =
      Some (Some 0, Some cli', out @ cli_delete ops cli') \<and>
    fed cli' = concat (map input_of polls) \<and> printed out = map data (received cli') \<and> freed out = received cli' \<and>
    pending cli' = []"
proof -
  obtain cli' out ms where "client_loop ops (polls @ [Poll True on_client (Some []) net]) [] cli [] = Some (True, cli', out)"
    "fed cli' = concat (map input_of polls)" "received cli' = ms" "pending cli' = []" "printed out = map data ms" "freed out = ms"
    using client_loop_until_eof [OF assms(1-3,10,9), of on_client net "[]" "[]"] assms(7,8) by auto
  then show ?thesis using assms(4-6) by (simp add: client_main_def Let_def)
qed

text \<open>A client that satisfies the promises: the three sequences themselves.\<close>

definition demo_ops :: "(string \<times> chat_message list \<times> chat_message list, chat_message list) client_ops" where
  "demo_ops = \<lparr>cli_new = \<lambda>_. ([], [], []), cli_delete = \<lambda>_. [Closes 3, Frees_handle],
     cli_connect = \<lambda>cli _. (0, cli),
     cli_pop_next = \<lambda>(fed, received, pending). (if pending = [] then None else Some (hd pending), (fed, received, tl pending)),
     cli_update = \<lambda>ms (fed, received, pending). (if ms = [] then 2 else 0, (fed, received @ ms, pending @ ms)),
     cli_get_descriptor = \<lambda>_. 3, cli_get_events = \<lambda>_. CHAT_EVENT_INPUT,
     cli_feed = \<lambda>(fed, received, pending) buf n. (0, (fed @ take n buf, received, pending))\<rparr>"

theorem client_relays_everything_witness:
  "\<exists>cli' out. client_main demo_ops [''client'', ''host:1'']
      ([Poll True True (Some ''hi'') [\<lparr>data = ''yo''\<rparr>]] @ [Poll True False (Some []) []]) =
      Some (Some 0, Some cli', out @ cli_delete demo_ops cli') \<and>
    fst cli' = ''hi'' \<and> printed out = map data (fst (snd cli')) \<and> freed out = fst (snd cli') \<and> snd (snd cli') = []"
  using client_relays_everything [of demo_ops fst "\<lambda>c. fst (snd c)" "\<lambda>c. snd (snd c)" "[''client'', ''host:1'']" "([], [], [])"
    "[Poll True True (Some ''hi'') [\<lparr>data = ''yo''\<rparr>]]" False "[]"]
  by (simp add: demo_ops_def feed_ok_def update_ok_def pop_ok_def CHAT_ERR_TIMEOUT_def buf_size_def)

text \<open>A read that fails is handed to the client as a message of 4294967295 bytes.\<close>

lemma failed_read_is_fed:
  "cli_feed ops cli buf 4294967295 = (0, cli') \<Longrightarrow> handle_input ops None buf cli out = (True, buf, cli', out)"
  by (simp add: handle_input_def read_input_def)

section \<open>The programs of the repository\<close>

text \<open>The operations of the repository are not implemented, so both programs stop with an error
  and free what they have allocated.\<close>

theorem chat_programs_stop:
  "length argv \<ge> 2 \<Longrightarrow> client_main chat_client_ops argv polls =
     Some (Some (- 1), Some \<lparr>client_socket = - 1\<rparr>, [Could_not_connect CHAT_ERR_NOT_IMPLEMENTED, Frees_handle])"
  "length argv \<ge> 2 \<Longrightarrow> server_main chat_server_ops argv nets =
     (if port_from_str (argv ! 1) = None then Some (Some (- 1), None, [Invalid_port])
      else Some (Some (- 1), Some \<lparr>server_socket = - 1\<rparr>, [Could_not_listen CHAT_ERR_NOT_IMPLEMENTED, Frees_handle]))"
  by (auto simp: client_main_def chat_client_ops_def chat_client_new_def chat_client_connect_def chat_client_delete_def
      server_main_def chat_server_ops_def chat_server_new_def chat_server_listen_def chat_server_delete_def
      CHAT_ERR_NOT_IMPLEMENTED_def)

end
