(* ===== verification/Cthread.thy ===== *)
theory Cthread
  imports Prelude
begin

text \<open>
  The threads of lecture_examples/6_threads/12_cthread_detach.c. A thread cannot free the stack it
  runs on, so cthread_destroy puts the stack into a list and frees those stacks of the list whose
  thread the kernel has reported as gone. A step is one access of the memory that threads share;
  a thread that spins on a lock makes no step. The stack of thread i is the object i, since malloc
  gives a new object for every thread; a dereference of a freed stack and a read of a tid that
  the kernel has not written are undefined behaviour.
\<close>

section \<open>The state\<close>

record cthread =
  returned_code :: int
  lock :: bool
  is_finished :: bool
  is_detached :: bool

record cthread_stack =
  tid :: "nat option"
  stack_next :: "nat option"

text \<open>
  A thread is known to two actors: the one that runs it, and the one that created it and joins or
  detaches it. Where each of them is, in the order of the code: before the lock is taken, before
  the head of the list is tested, before the stack is linked, before the list is set, before the lock
  is released.
\<close>

datatype destroy_pc = D_lock | D_scan "nat option" | D_link "nat option" | D_set "nat option" | D_unlock

text \<open>The flag of Destroying tells whether the lock of the thread is held.\<close>

datatype actor_pc =
    Absent | Starting | Ready | Func | Waiting | Locking | Testing | Destroying bool destroy_pc
  | Setting | Unlocking | Returned | Gone

datatype actor = Runner nat | Owner nat

record cthreads =
  threads :: "nat \<Rightarrow> cthread"
  stacks :: "nat \<Rightarrow> cthread_stack option"
  stack_list :: "nat option"
  last_stack_lock :: bool
  pcs :: "actor \<Rightarrow> actor_pc"

definition cthreads_initial :: "(nat \<Rightarrow> cthread) \<Rightarrow> cthreads" where
  "cthreads_initial mem = \<lparr>threads = mem, stacks = \<lambda>_. None, stack_list = None, last_stack_lock = False, pcs = \<lambda>_. Absent\<rparr>"

definition goes :: "actor \<Rightarrow> actor_pc \<Rightarrow> cthreads \<Rightarrow> cthreads" where
  "goes a pc s = s\<lparr>pcs := (pcs s)(a := pc)\<rparr>"

definition upd_thread :: "nat \<Rightarrow> (cthread \<Rightarrow> cthread) \<Rightarrow> cthreads \<Rightarrow> cthreads" where
  "upd_thread i f s = s\<lparr>threads := (threads s)(i := f (threads s i))\<rparr>"

datatype 'a outcome = Blocked | Undefined | Next 'a

section \<open>The operations\<close>

text \<open>One attempt of the compare-and-swap loop: the value of the lock afterwards, or None.\<close>

definition spin_lock :: "bool \<Rightarrow> bool option" where
  "spin_lock l = (if l then None else Some True)"

definition spin_unlock :: "bool \<Rightarrow> bool" where
  "spin_unlock l = (if l then False else l)"

definition cthread_destroy :: "nat \<Rightarrow> destroy_pc \<Rightarrow> cthreads \<Rightarrow> (cthreads \<times> destroy_pc option) outcome" where
  "cthread_destroy thread d s = (case d of
     D_lock \<Rightarrow> (case spin_lock (last_stack_lock s) of
         None \<Rightarrow> Blocked
       | Some l \<Rightarrow> Next (s\<lparr>last_stack_lock := l\<rparr>, Some (D_scan (stack_list s))))
   | D_scan None \<Rightarrow> Next (s, Some (D_link None))
   | D_scan (Some iter) \<Rightarrow> (case stacks s iter of
         None \<Rightarrow> Undefined
       | Some n \<Rightarrow> (case tid n of
           None \<Rightarrow> Undefined
         | Some t \<Rightarrow>
             if t \<noteq> 0 then Next (s, Some (D_link (Some iter)))
             else Next (s\<lparr>stacks := (stacks s)(iter := None)\<rparr>, Some (D_scan (stack_next n)))))
   | D_link iter \<Rightarrow> (case stacks s thread of
         None \<Rightarrow> Undefined
       | Some n \<Rightarrow> Next (s\<lparr>stacks := (stacks s)(thread \<mapsto> n\<lparr>stack_next := iter\<rparr>)\<rparr>, Some (D_set iter)))
   | D_set iter \<Rightarrow> Next (s\<lparr>stack_list := Some thread\<rparr>, Some D_unlock)
   | D_unlock \<Rightarrow> Next (s\<lparr>last_stack_lock := spin_unlock (last_stack_lock s)\<rparr>, None))"

definition destroy_then :: "actor \<Rightarrow> bool \<Rightarrow> actor_pc \<Rightarrow> (cthreads \<times> destroy_pc option) outcome \<Rightarrow> cthreads outcome" where
  "destroy_then a locked next r = (case r of
     Blocked \<Rightarrow> Blocked
   | Undefined \<Rightarrow> Undefined
   | Next (s, d) \<Rightarrow> Next (goes a (case d of None \<Rightarrow> next | Some d \<Rightarrow> Destroying locked d) s))"

text \<open>How the function of a thread ends: it returns, or it calls cthread_exit.\<close>

datatype body = Returns int | Exits int

definition cthread_exit :: "nat \<Rightarrow> int \<Rightarrow> cthreads \<Rightarrow> cthreads" where
  "cthread_exit thread retcode s =
     goes (Runner thread) Locking (upd_thread thread (\<lambda>t. t\<lparr>returned_code := retcode\<rparr>) s)"

text \<open>The two steps of the kernel: CLONE_CHILD_SETTID before the thread starts, CLONE_CHILD_CLEARTID
  after it has returned. They write into the stack object.\<close>

definition kernel_writes_tid :: "nat \<Rightarrow> nat \<Rightarrow> cthreads \<Rightarrow> cthreads outcome" where
  "kernel_writes_tid i t s = (case stacks s i of
     None \<Rightarrow> Undefined
   | Some n \<Rightarrow> Next (s\<lparr>stacks := (stacks s)(i \<mapsto> n\<lparr>tid := Some t\<rparr>)\<rparr>))"

definition kernel_step :: "nat \<Rightarrow> nat \<Rightarrow> actor_pc \<Rightarrow> cthreads \<Rightarrow> cthreads outcome" where
  "kernel_step i t pc s = (case kernel_writes_tid i t s of
     Blocked \<Rightarrow> Blocked | Undefined \<Rightarrow> Undefined | Next s \<Rightarrow> Next (goes (Runner i) pc s))"

definition cthread_runner :: "(nat \<Rightarrow> body) \<Rightarrow> nat \<Rightarrow> cthreads \<Rightarrow> cthreads outcome" where
  "cthread_runner func i s = (case pcs s (Runner i) of
     Starting \<Rightarrow> kernel_step i (Suc i) Func s
   | Func \<Rightarrow> (case func i of
         Returns r \<Rightarrow> Next (goes (Runner i) Locking (upd_thread i (\<lambda>t. t\<lparr>returned_code := r\<rparr>) s))
       | Exits r \<Rightarrow> Next (cthread_exit i r s))
   | Locking \<Rightarrow> (case spin_lock (lock (threads s i)) of
         None \<Rightarrow> Blocked
       | Some l \<Rightarrow> Next (goes (Runner i) Testing (upd_thread i (\<lambda>t. t\<lparr>lock := l\<rparr>) s)))
   | Testing \<Rightarrow> Next (goes (Runner i) (if is_detached (threads s i) then Destroying True D_lock else Setting) s)
   | Destroying locked d \<Rightarrow> destroy_then (Runner i) locked Setting (cthread_destroy i d s)
   | Setting \<Rightarrow> Next (goes (Runner i) Unlocking (upd_thread i (\<lambda>t. t\<lparr>is_finished := True\<rparr>) s))
   | Unlocking \<Rightarrow> Next (goes (Runner i) Returned (upd_thread i (\<lambda>t. t\<lparr>lock := spin_unlock (lock t)\<rparr>) s))
   | Returned \<Rightarrow> kernel_step i 0 Gone s
   | _ \<Rightarrow> Blocked)"

text \<open>cthread_detach and cthread_join after their start; a join has the result of the thread.\<close>

definition cthread_detach :: "nat \<Rightarrow> cthreads \<Rightarrow> cthreads outcome" where
  "cthread_detach i s = (case pcs s (Owner i) of
     Locking \<Rightarrow> (case spin_lock (lock (threads s i)) of
         None \<Rightarrow> Blocked
       | Some l \<Rightarrow> Next (goes (Owner i) Testing (upd_thread i (\<lambda>t. t\<lparr>lock := l\<rparr>) s)))
   | Testing \<Rightarrow> Next (goes (Owner i) (if is_finished (threads s i) then Destroying True D_lock else Setting) s)
   | Destroying True d \<Rightarrow> destroy_then (Owner i) True Setting (cthread_destroy i d s)
   | Setting \<Rightarrow> Next (goes (Owner i) Unlocking (upd_thread i (\<lambda>t. t\<lparr>is_detached := True\<rparr>) s))
   | Unlocking \<Rightarrow> Next (goes (Owner i) Returned (upd_thread i (\<lambda>t. t\<lparr>lock := spin_unlock (lock t)\<rparr>) s))
   | _ \<Rightarrow> Blocked)"

definition cthread_join :: "nat \<Rightarrow> cthreads \<Rightarrow> cthreads outcome" where
  "cthread_join i s = (case pcs s (Owner i) of
     Waiting \<Rightarrow> if \<not> is_finished (threads s i) then Blocked else Next (goes (Owner i) (Destroying False D_lock) s)
   | Destroying False d \<Rightarrow> destroy_then (Owner i) False Returned (cthread_destroy i d s)
   | _ \<Rightarrow> Blocked)"

definition cthread_create :: "nat \<Rightarrow> cthreads \<Rightarrow> cthreads" where
  "cthread_create i s =
     goes (Owner i) Ready (goes (Runner i) Starting
       (upd_thread i (\<lambda>_. \<lparr>returned_code = 0, lock = False, is_finished = False, is_detached = False\<rparr>)
         (s\<lparr>stacks := (stacks s)(i \<mapsto> \<lparr>tid = None, stack_next = None\<rparr>)\<rparr>)))"

text \<open>
  What happens next: a thread is created, its owner starts to detach or to join it, or an actor
  takes the next step of the call it is in. Every thread has an owner of its own; the main thread,
  which owns all of them one after the other, gives some of these sequences.
\<close>

datatype event = Create nat | Detach nat | Join nat | Step actor

definition happens :: "(nat \<Rightarrow> body) \<Rightarrow> event \<Rightarrow> cthreads \<Rightarrow> cthreads outcome" where
  "happens func e s = (case e of
     Create i \<Rightarrow> if pcs s (Owner i) = Absent then Next (cthread_create i s) else Blocked
   | Detach i \<Rightarrow> if pcs s (Owner i) = Ready then Next (goes (Owner i) Locking s) else Blocked
   | Join i \<Rightarrow> if pcs s (Owner i) = Ready then Next (goes (Owner i) Waiting s) else Blocked
   | Step (Runner i) \<Rightarrow> cthread_runner func i s
   | Step (Owner i) \<Rightarrow> (case cthread_detach i s of Blocked \<Rightarrow> cthread_join i s | r \<Rightarrow> r))"

definition cthread_step :: "(nat \<Rightarrow> body) \<Rightarrow> cthreads \<Rightarrow> cthreads \<Rightarrow> bool" where
  "cthread_step func s s' \<longleftrightarrow> (\<exists>e. happens func e s = Next s')"

section \<open>The main thread waits\<close>

text \<open>
  The second loop of main, where fin k i is what the k-th test of is_finished sees for thread i.
  The counter that is reset to 0 is incremented before the next test. The result is the number
  of tests.
\<close>

partial_function (option) main_wait :: "(nat \<Rightarrow> nat \<Rightarrow> bool) \<Rightarrow> nat \<Rightarrow> nat \<Rightarrow> nat option" where
  "main_wait fin i k =
     (if i \<ge> 10 then Some k
      else if \<not> fin k i then main_wait fin (0 + 1) (k + 1)
      else main_wait fin (i + 1) (k + 1))"

section \<open>The invariant\<close>

text \<open>Where the lock of the thread, and where the lock of the list is held.\<close>

fun holds_lock :: "actor_pc \<Rightarrow> bool" where
  "holds_lock Testing = True"
| "holds_lock Setting = True"
| "holds_lock Unlocking = True"
| "holds_lock (Destroying locked d) = locked"
| "holds_lock _ = False"

fun holds_list :: "actor_pc \<Rightarrow> bool" where
  "holds_list (Destroying locked D_lock) = False"
| "holds_list (Destroying locked d) = True"
| "holds_list _ = False"

text \<open>The rest of the list while its head is not in stack_list.\<close>

fun walks :: "actor_pc \<Rightarrow> nat option option" where
  "walks (Destroying locked (D_scan iter)) = Some iter"
| "walks (Destroying locked (D_link iter)) = Some iter"
| "walks (Destroying locked (D_set iter)) = Some iter"
| "walks _ = None"

fun thread_of :: "actor \<Rightarrow> nat" where
  "thread_of (Runner i) = i"
| "thread_of (Owner i) = i"

definition result_of :: "body \<Rightarrow> int" where
  "result_of b = (case b of Returns r \<Rightarrow> r | Exits r \<Rightarrow> r)"

definition runner_pcs :: "actor_pc \<Rightarrow> bool" where
  "runner_pcs r \<longleftrightarrow> r \<in> {Absent, Starting, Func, Locking, Testing, Setting, Unlocking, Returned, Gone} \<or> (\<exists>d. r = Destroying True d)"

definition owner_pcs :: "actor_pc \<Rightarrow> bool" where
  "owner_pcs ow \<longleftrightarrow> ow \<in> {Absent, Ready, Waiting, Locking, Testing, Setting, Unlocking, Returned} \<or> (\<exists>b d. ow = Destroying b d)"

definition thread_ok :: "int \<Rightarrow> cthread \<Rightarrow> actor_pc \<Rightarrow> actor_pc \<Rightarrow> bool" where
  "thread_ok v t r ow \<longleftrightarrow>
     runner_pcs r \<and> owner_pcs ow \<and> (r = Absent \<longleftrightarrow> ow = Absent) \<and>
     \<not> (holds_lock r \<and> holds_lock ow) \<and> (ow \<noteq> Absent \<longrightarrow> (lock t \<longleftrightarrow> holds_lock r \<or> holds_lock ow)) \<and>
     (ow \<noteq> Absent \<longrightarrow> (is_finished t \<longleftrightarrow> r = Unlocking \<or> r = Returned \<or> r = Gone)) \<and>
     (ow \<noteq> Absent \<longrightarrow> is_detached t \<longrightarrow> ow = Unlocking \<or> ow = Returned) \<and> (ow = Unlocking \<longrightarrow> is_detached t) \<and>
     (\<forall>d. r = Destroying True d \<longrightarrow> is_detached t) \<and> (\<forall>b d. ow = Destroying b d \<longrightarrow> is_finished t) \<and>
     (ow = Returned \<longrightarrow> is_detached t \<or> is_finished t) \<and>
     (r \<notin> {Absent, Starting, Func} \<longrightarrow> returned_code t = v)"

text \<open>The thread was destroyed: its stack has been put into the list.\<close>

definition linked :: "cthread \<Rightarrow> actor_pc \<Rightarrow> actor_pc \<Rightarrow> bool" where
  "linked t r ow \<longleftrightarrow> ow \<noteq> Absent \<and>
     (r = Destroying True D_unlock \<or> (r = Setting \<and> is_detached t) \<or> (is_detached t \<and> is_finished t) \<or>
      (\<exists>b. ow = Destroying b D_unlock) \<or> (ow = Setting \<and> is_finished t) \<or> (ow = Returned \<and> \<not> is_detached t))"

definition stack_ok :: "nat \<Rightarrow> cthread \<Rightarrow> actor_pc \<Rightarrow> actor_pc \<Rightarrow> cthread_stack option \<Rightarrow> bool" where
  "stack_ok i t r ow st \<longleftrightarrow> (case st of
     None \<Rightarrow> ow = Absent \<or> linked t r ow \<and> r = Gone
   | Some n \<Rightarrow> ow \<noteq> Absent \<and> tid n = (if r = Starting then None else if r = Gone then Some 0 else Some (Suc i)))"

definition is_linked :: "cthreads \<Rightarrow> nat \<Rightarrow> bool" where
  "is_linked s i = linked (threads s i) (pcs s (Runner i)) (pcs s (Owner i))"

definition threads_ok :: "(nat \<Rightarrow> body) \<Rightarrow> cthreads \<Rightarrow> bool" where
  "threads_ok func s \<longleftrightarrow> (\<forall>i. thread_ok (result_of (func i)) (threads s i) (pcs s (Runner i)) (pcs s (Owner i)) \<and>
     stack_ok i (threads s i) (pcs s (Runner i)) (pcs s (Owner i)) (stacks s i))"

definition list_lock_ok :: "cthreads \<Rightarrow> bool" where
  "list_lock_ok s \<longleftrightarrow> (\<forall>a b. holds_list (pcs s a) \<longrightarrow> holds_list (pcs s b) \<longrightarrow> a = b) \<and>
     (last_stack_lock s \<longleftrightarrow> (\<exists>a. holds_list (pcs s a)))"

fun chain :: "(nat \<Rightarrow> cthread_stack option) \<Rightarrow> nat option \<Rightarrow> nat list \<Rightarrow> bool" where
  "chain h p [] \<longleftrightarrow> p = None"
| "chain h p (x # xs) \<longleftrightarrow> p = Some x \<and> (\<exists>n. h x = Some n \<and> chain h (stack_next n) xs)"

definition list_head :: "cthreads \<Rightarrow> nat option \<Rightarrow> bool" where
  "list_head s p \<longleftrightarrow> (\<forall>a iter. walks (pcs s a) = Some iter \<longrightarrow> p = iter) \<and>
     ((\<forall>a. walks (pcs s a) = None) \<longrightarrow> p = stack_list s)"

definition list_ok :: "cthreads \<Rightarrow> bool" where
  "list_ok s \<longleftrightarrow> (\<exists>p xs. list_head s p \<and> chain (stacks s) p xs \<and> distinct xs \<and>
     set xs = {i. is_linked s i \<and> stacks s i \<noteq> None}) \<and>
     (\<forall>a b iter. pcs s a = Destroying b (D_set iter) \<longrightarrow> (\<exists>n. stacks s (thread_of a) = Some n \<and> stack_next n = iter))"

lemma list_okI:
  assumes "list_head s p" "chain (stacks s) p xs" "distinct xs" "set xs = {i. is_linked s i \<and> stacks s i \<noteq> None}"
    and "\<And>a b iter. pcs s a = Destroying b (D_set iter) \<Longrightarrow> \<exists>n. stacks s (thread_of a) = Some n \<and> stack_next n = iter"
  shows "list_ok s"
  using assms unfolding list_ok_def by blast

lemma list_okE:
  assumes "list_ok s"
  obtains p xs where "list_head s p" "chain (stacks s) p xs" "distinct xs" "set xs = {i. is_linked s i \<and> stacks s i \<noteq> None}"
    "\<And>a b iter. pcs s a = Destroying b (D_set iter) \<Longrightarrow> \<exists>n. stacks s (thread_of a) = Some n \<and> stack_next n = iter"
  using assms unfolding list_ok_def by blast

definition cthreads_inv :: "(nat \<Rightarrow> body) \<Rightarrow> cthreads \<Rightarrow> bool" where
  "cthreads_inv func s \<longleftrightarrow> threads_ok func s \<and> list_lock_ok s \<and> list_ok s"

lemma chain_frame: "chain h p xs \<Longrightarrow> x \<notin> set xs \<Longrightarrow> chain (h(x := v)) p xs"
  by (induction xs arbitrary: p) auto

lemma chain_same_next:
  "chain h p xs \<Longrightarrow> h x = Some n \<Longrightarrow> stack_next n' = stack_next n \<Longrightarrow> chain (h(x \<mapsto> n')) p xs"
  by (induction xs arbitrary: p) auto

lemma walks_holds: "walks pc = Some iter \<Longrightarrow> holds_list pc"
  by (induction pc rule: walks.induct) auto

lemma list_head_holder:
  assumes "list_lock_ok s" "holds_list (pcs s a)"
  shows "list_head s p \<longleftrightarrow> p = (case walks (pcs s a) of Some iter \<Rightarrow> iter | None \<Rightarrow> stack_list s)"
proof -
  have "walks (pcs s b) = None" if "b \<noteq> a" for b
    using assms that walks_holds [of "pcs s b"] by (cases "walks (pcs s b)") (auto simp: list_lock_ok_def)
  then show ?thesis unfolding list_head_def
    by (smt (verit) option.case_eq_if option.collapse option.distinct(1) option.sel)
qed

lemma list_head_free:
  assumes "\<And>a. \<not> holds_list (pcs s a)"
  shows "list_head s p \<longleftrightarrow> p = stack_list s"
proof -
  have "walks (pcs s b) = None" for b
    using assms walks_holds [of "pcs s b"] by (cases "walks (pcs s b)") auto
  then show ?thesis by (simp add: list_head_def)
qed

lemma list_head_cong: "(\<And>a. walks (pcs s' a) = walks (pcs s a)) \<Longrightarrow> stack_list s' = stack_list s \<Longrightarrow> list_head s' = list_head s"
  by (simp add: list_head_def fun_eq_iff)

section \<open>Every step keeps the invariant\<close>

text \<open>A step of one actor outside of cthread_destroy.\<close>

definition runner_after :: "actor \<Rightarrow> actor_pc \<Rightarrow> cthreads \<Rightarrow> actor_pc" where
  "runner_after a pc s = (case a of Runner i \<Rightarrow> pc | Owner i \<Rightarrow> pcs s (Runner i))"

definition owner_after :: "actor \<Rightarrow> actor_pc \<Rightarrow> cthreads \<Rightarrow> actor_pc" where
  "owner_after a pc s = (case a of Runner i \<Rightarrow> pcs s (Owner i) | Owner i \<Rightarrow> pc)"

lemma pcs_goes:
  "pcs (goes a pc s) b = (if b = a then pc else pcs s b)"
  "pcs (goes a pc s) (Runner i) = (if i = thread_of a then runner_after a pc s else pcs s (Runner i))"
  "pcs (goes a pc s) (Owner i) = (if i = thread_of a then owner_after a pc s else pcs s (Owner i))"
  by (cases a; simp add: goes_def runner_after_def owner_after_def)+

lemma goes_simps [simp]:
  "threads (goes a pc s) = threads s" "stacks (goes a pc s) = stacks s" "stack_list (goes a pc s) = stack_list s"
  "last_stack_lock (goes a pc s) = last_stack_lock s"
  "threads (upd_thread i f s) = (threads s)(i := f (threads s i))" "stacks (upd_thread i f s) = stacks s"
  "stack_list (upd_thread i f s) = stack_list s" "last_stack_lock (upd_thread i f s) = last_stack_lock s"
  "pcs (upd_thread i f s) = pcs s"
  by (simp_all add: goes_def upd_thread_def)

lemma after_cong: "pcs s' = pcs s \<Longrightarrow> runner_after a pc s' = runner_after a pc s"
  "pcs s' = pcs s \<Longrightarrow> owner_after a pc s' = owner_after a pc s"
  by (cases a; simp add: runner_after_def owner_after_def)+

lemma threads_ok_goes:
  assumes "threads_ok func s" "pcs s1 = pcs s" "\<And>j. j \<noteq> thread_of a \<Longrightarrow> threads s1 j = threads s j \<and> stacks s1 j = stacks s j"
    and "thread_ok (result_of (func (thread_of a))) (threads s1 (thread_of a)) (runner_after a pc s) (owner_after a pc s)"
    and "stack_ok (thread_of a) (threads s1 (thread_of a)) (runner_after a pc s) (owner_after a pc s) (stacks s1 (thread_of a))"
  shows "threads_ok func (goes a pc s1)"
  unfolding threads_ok_def
proof (intro allI)
  fix j
  show "thread_ok (result_of (func j)) (threads (goes a pc s1) j) (pcs (goes a pc s1) (Runner j)) (pcs (goes a pc s1) (Owner j)) \<and>
      stack_ok j (threads (goes a pc s1) j) (pcs (goes a pc s1) (Runner j)) (pcs (goes a pc s1) (Owner j)) (stacks (goes a pc s1) j)"
    using assms(1,3-5) unfolding pcs_goes(2,3) after_cong [OF assms(2)] assms(2) threads_ok_def
    by (cases "j = thread_of a") simp_all
qed

lemma after_upd [simp]:
  "runner_after a pc (upd_thread i f s) = runner_after a pc s" "owner_after a pc (upd_thread i f s) = owner_after a pc s"
  by (rule after_cong; simp)+

lemma quiet_list:
  assumes inv: "list_lock_ok s" "list_ok s" and h: "\<not> holds_list (pcs s a)" "\<not> holds_list pc"
    and l: "linked (f (threads s (thread_of a))) (runner_after a pc s) (owner_after a pc s) = is_linked s (thread_of a)"
  shows "list_lock_ok (goes a pc (upd_thread (thread_of a) f s)) \<and> list_ok (goes a pc (upd_thread (thread_of a) f s))"
proof
  let ?s' = "goes a pc (upd_thread (thread_of a) f s)"
  have holds: "holds_list (pcs ?s' b) = holds_list (pcs s b)" for b using h by (simp add: pcs_goes(1))
  then show "list_lock_ok ?s'" using inv by (simp add: list_lock_ok_def)
  have "walks pc' = None" if "\<not> holds_list pc'" for pc' using that walks_holds by fastforce
  then have "walks (pcs ?s' b) = walks (pcs s b)" for b using h by (simp add: pcs_goes(1))
  then have "list_head ?s' = list_head s" by (intro list_head_cong) simp_all
  moreover have "is_linked ?s' j = is_linked s j" for j using l by (simp add: is_linked_def pcs_goes(2,3))
  moreover have "pcs ?s' b = Destroying c (D_set iter) \<longleftrightarrow> pcs s b = Destroying c (D_set iter)" for b c iter
    using h by (auto simp: pcs_goes(1))
  ultimately show "list_ok ?s'" using inv unfolding list_ok_def by simp
qed

lemma quiet_step:
  assumes inv: "cthreads_inv func s" and h: "\<not> holds_list (pcs s a)" "\<not> holds_list pc"
    and t: "thread_ok (result_of (func (thread_of a))) (f (threads s (thread_of a))) (runner_after a pc s) (owner_after a pc s)"
    and st: "stack_ok (thread_of a) (f (threads s (thread_of a))) (runner_after a pc s) (owner_after a pc s) (stacks s (thread_of a))"
    and l: "linked (f (threads s (thread_of a))) (runner_after a pc s) (owner_after a pc s) = is_linked s (thread_of a)"
  shows "cthreads_inv func (goes a pc (upd_thread (thread_of a) f s))"
proof -
  have "threads_ok func (goes a pc (upd_thread (thread_of a) f s))"
    using inv t st by (intro threads_ok_goes [of func s]) (auto simp: cthreads_inv_def)
  then show ?thesis using quiet_list [where f = f, OF _ _ h l] inv by (simp add: cthreads_inv_def)
qed

lemmas local_defs = thread_ok_def stack_ok_def linked_def is_linked_def runner_pcs_def owner_pcs_def runner_after_def owner_after_def

lemma threads_okD:
  "threads_ok func s \<Longrightarrow> thread_ok (result_of (func i)) (threads s i) (pcs s (Runner i)) (pcs s (Owner i))"
  "threads_ok func s \<Longrightarrow> stack_ok i (threads s i) (pcs s (Runner i)) (pcs s (Owner i)) (stacks s i)"
  by (simp_all add: threads_ok_def)

definition local_step :: "int \<Rightarrow> nat \<Rightarrow> cthread_stack option \<Rightarrow> cthread \<Rightarrow> actor_pc \<Rightarrow> actor_pc \<Rightarrow> cthread \<Rightarrow> actor_pc \<Rightarrow> actor_pc \<Rightarrow> bool" where
  "local_step v i st t r ow t' r' ow' \<longleftrightarrow> (thread_ok v t r ow \<longrightarrow> stack_ok i t r ow st \<longrightarrow>
     thread_ok v t' r' ow' \<and> stack_ok i t' r' ow' st \<and> linked t' r' ow' = linked t r ow)"

lemma quiet_runner:
  assumes "cthreads_inv func s" "\<not> holds_list (pcs s (Runner i))" "\<not> holds_list pc"
    and "local_step (result_of (func i)) i (stacks s i) (threads s i) (pcs s (Runner i)) (pcs s (Owner i)) (f (threads s i)) pc (pcs s (Owner i))"
  shows "cthreads_inv func (goes (Runner i) pc (upd_thread i f s))"
  using quiet_step [of func s "Runner i" pc f] assms threads_okD [of func s i]
  by (simp add: local_step_def runner_after_def owner_after_def is_linked_def cthreads_inv_def)

lemma quiet_owner:
  assumes "cthreads_inv func s" "\<not> holds_list (pcs s (Owner i))" "\<not> holds_list pc"
    and "local_step (result_of (func i)) i (stacks s i) (threads s i) (pcs s (Runner i)) (pcs s (Owner i)) (f (threads s i)) (pcs s (Runner i)) pc"
  shows "cthreads_inv func (goes (Owner i) pc (upd_thread i f s))"
  using quiet_step [of func s "Owner i" pc f] assms threads_okD [of func s i]
  by (simp add: local_step_def runner_after_def owner_after_def is_linked_def cthreads_inv_def)

lemma quiet_runner_pc:
  assumes "cthreads_inv func s" "\<not> holds_list (pcs s (Runner i))" "\<not> holds_list pc"
    and "local_step (result_of (func i)) i (stacks s i) (threads s i) (pcs s (Runner i)) (pcs s (Owner i)) (threads s i) pc (pcs s (Owner i))"
  shows "cthreads_inv func (goes (Runner i) pc s)"
  using quiet_runner [OF assms(1-3), of "\<lambda>t. t"] assms(4) by (simp add: upd_thread_def)

lemma quiet_owner_pc:
  assumes "cthreads_inv func s" "\<not> holds_list (pcs s (Owner i))" "\<not> holds_list pc"
    and "local_step (result_of (func i)) i (stacks s i) (threads s i) (pcs s (Runner i)) (pcs s (Owner i)) (threads s i) (pcs s (Runner i)) pc"
  shows "cthreads_inv func (goes (Owner i) pc s)"
  using quiet_owner [OF assms(1-3), of "\<lambda>t. t"] assms(4) by (simp add: upd_thread_def)

lemmas row_defs = local_step_def thread_ok_def stack_ok_def linked_def runner_pcs_def owner_pcs_def

lemma runner_rows:
  "local_step v i st t Func ow (t\<lparr>returned_code := v\<rparr>) Locking ow"
  "\<not> lock t \<Longrightarrow> local_step v i st t Locking ow (t\<lparr>lock := True\<rparr>) Testing ow"
  "is_detached t \<Longrightarrow> local_step v i st t Testing ow t (Destroying True D_lock) ow"
  "\<not> is_detached t \<Longrightarrow> local_step v i st t Testing ow t Setting ow"
  "local_step v i st t Setting ow (t\<lparr>is_finished := True\<rparr>) Unlocking ow"
  "local_step v i st t Unlocking ow (t\<lparr>lock := False\<rparr>) Returned ow"
  by (auto simp: row_defs split: option.splits)

lemma owner_rows:
  "local_step v i st t r Ready t r Locking"
  "local_step v i st t r Ready t r Waiting"
  "\<not> lock t \<Longrightarrow> local_step v i st t r Locking (t\<lparr>lock := True\<rparr>) r Testing"
  "is_finished t \<Longrightarrow> local_step v i st t r Testing t r (Destroying True D_lock)"
  "\<not> is_finished t \<Longrightarrow> local_step v i st t r Testing t r Setting"
  "local_step v i st t r Setting (t\<lparr>is_detached := True\<rparr>) r Unlocking"
  "local_step v i st t r Unlocking (t\<lparr>lock := False\<rparr>) r Returned"
  "is_finished t \<Longrightarrow> local_step v i st t r Waiting t r (Destroying False D_lock)"
  by (auto simp: row_defs split: option.splits)

lemma list_ok_same_next:
  assumes "list_ok s" "stacks s i = Some n" "stack_next n' = stack_next n"
  shows "list_ok (s\<lparr>stacks := (stacks s)(i \<mapsto> n')\<rparr>)"
proof -
  let ?s' = "s\<lparr>stacks := (stacks s)(i \<mapsto> n')\<rparr>"
  obtain p xs where p: "list_head s p" "chain (stacks s) p xs" "distinct xs" "set xs = {i. is_linked s i \<and> stacks s i \<noteq> None}"
    "\<And>a b iter. pcs s a = Destroying b (D_set iter) \<Longrightarrow> \<exists>n. stacks s (thread_of a) = Some n \<and> stack_next n = iter"
    using list_okE [OF assms(1)] by blast
  have "list_head ?s' p" using p(1) by (simp add: list_head_def)
  moreover have "chain (stacks ?s') p xs" using chain_same_next [OF p(2) assms(2,3)] by simp
  moreover have "set xs = {i. is_linked ?s' i \<and> stacks ?s' i \<noteq> None}" using p(4) assms(2) by (auto simp: is_linked_def)
  moreover have "\<exists>m. stacks ?s' (thread_of a) = Some m \<and> stack_next m = iter" if d: "pcs ?s' a = Destroying b (D_set iter)" for a b iter
  proof -
    have "pcs s a = Destroying b (D_set iter)" using d by simp
    from p(5) [OF this] show ?thesis using assms(2,3) by auto
  qed
  ultimately show ?thesis using p(3) list_okI by blast
qed

lemma kernel_keeps_inv:
  assumes inv: "cthreads_inv func s" and h: "\<not> holds_list (pcs s (Runner i))" "\<not> holds_list pc"
    and l: "linked (threads s i) pc (pcs s (Owner i)) = is_linked s i"
    and t: "thread_ok (result_of (func i)) (threads s i) pc (pcs s (Owner i))"
    and st: "\<And>n. stacks s i = Some n \<Longrightarrow> stack_ok i (threads s i) pc (pcs s (Owner i)) (Some (n\<lparr>tid := Some v\<rparr>))"
    and k: "kernel_step i v pc s = Next s'"
  shows "cthreads_inv func s'"
proof -
  obtain n where n: "stacks s i = Some n" using k by (auto simp: kernel_step_def kernel_writes_tid_def split: option.splits)
  define s1 where "s1 = s\<lparr>stacks := (stacks s)(i \<mapsto> n\<lparr>tid := Some v\<rparr>)\<rparr>"
  have s': "s' = goes (Runner i) pc (upd_thread i (\<lambda>t. t) s1)" and [simp]: "pcs s1 = pcs s" "threads s1 = threads s"
    using k n by (auto simp: kernel_step_def kernel_writes_tid_def s1_def upd_thread_def)
  have "list_ok s1" using list_ok_same_next [OF _ n] inv by (simp add: s1_def cthreads_inv_def)
  moreover have "list_lock_ok s1" using inv by (simp add: list_lock_ok_def s1_def cthreads_inv_def)
  ultimately have "list_lock_ok s' \<and> list_ok s'"
    using quiet_list [of s1 "Runner i" pc "\<lambda>t. t"] h l by (simp add: s' is_linked_def runner_after_def owner_after_def)
  moreover have "threads_ok func s'"
    unfolding s' using inv t st [OF n]
    by (intro threads_ok_goes [of func s]) (auto simp: cthreads_inv_def runner_after_def owner_after_def s1_def)
  ultimately show ?thesis by (simp add: cthreads_inv_def)
qed

lemma kernel_rows:
  "thread_ok v t Starting ow \<Longrightarrow> thread_ok v t Func ow \<and> linked t Func ow = linked t Starting ow"
  "thread_ok v t Returned ow \<Longrightarrow> thread_ok v t Gone ow \<and> linked t Gone ow = linked t Returned ow"
  "stack_ok i t Starting ow (Some n) \<Longrightarrow> stack_ok i t Func ow (Some (n\<lparr>tid := Some (Suc i)\<rparr>))"
  "stack_ok i t Returned ow (Some n) \<Longrightarrow> stack_ok i t Gone ow (Some (n\<lparr>tid := Some 0\<rparr>))"
  by (auto simp: row_defs split: option.splits)

lemma created_stack:
  assumes "threads_ok func s" "pcs s (Owner i) \<noteq> Absent" "pcs s (Runner i) \<noteq> Gone"
  obtains n where "stacks s i = Some n"
  using threads_okD(2) [OF assms(1), of i] assms(2,3) that by (cases "stacks s i") (auto simp: stack_ok_def)

lemma create_keeps_inv:
  assumes inv: "cthreads_inv func s" and c: "pcs s (Owner i) = Absent"
  shows "cthreads_inv func (cthread_create i s)"
proof -
  have t: "threads_ok func s" and l: "list_lock_ok s" "list_ok s" using inv by (auto simp: cthreads_inv_def)
  have r: "pcs s (Runner i) = Absent" "stacks s i = None"
    using threads_okD [OF t, of i] c by (auto simp: thread_ok_def stack_ok_def split: option.splits)
  let ?s' = "cthread_create i s"
  have P: "pcs ?s' = (pcs s)(Runner i := Starting, Owner i := Ready)" "stack_list ?s' = stack_list s" "last_stack_lock ?s' = last_stack_lock s"
    "stacks ?s' = (stacks s)(i \<mapsto> \<lparr>tid = None, stack_next = None\<rparr>)"
    "threads ?s' = (threads s)(i := \<lparr>returned_code = 0, lock = False, is_finished = False, is_detached = False\<rparr>)"
    by (simp_all add: cthread_create_def goes_def upd_thread_def)
  have "threads_ok func ?s'"
    unfolding threads_ok_def
  proof (intro allI)
    fix j
    show "thread_ok (result_of (func j)) (threads ?s' j) (pcs ?s' (Runner j)) (pcs ?s' (Owner j)) \<and>
        stack_ok j (threads ?s' j) (pcs ?s' (Runner j)) (pcs ?s' (Owner j)) (stacks ?s' j)"
    proof (cases "j = i")
      case True
      then show ?thesis by (simp add: P row_defs)
    qed (use threads_okD [OF t, of j] in \<open>simp add: P\<close>)
  qed
  moreover have "holds_list (pcs ?s' a) = holds_list (pcs s a)" for a using c r by (simp add: P)
  then have "list_lock_ok ?s'" using l(1) by (simp add: list_lock_ok_def P(3))
  moreover have "list_ok ?s'"
  proof -
    obtain p xs where p: "list_head s p" "chain (stacks s) p xs" "distinct xs" "set xs = {i. is_linked s i \<and> stacks s i \<noteq> None}"
      "\<And>a b iter. pcs s a = Destroying b (D_set iter) \<Longrightarrow> \<exists>n. stacks s (thread_of a) = Some n \<and> stack_next n = iter"
      using list_okE [OF l(2)] by blast
    have "walks (pcs ?s' a) = walks (pcs s a)" for a using c r by (simp add: P)
    then have "list_head ?s' p" using p(1) list_head_cong [of ?s' s] P(2) by simp
    moreover have "i \<notin> set xs" using p(4) r by simp
    then have "chain (stacks ?s') p xs" using chain_frame [OF p(2)] by (simp add: P)
    moreover have "set xs = {i. is_linked ?s' i \<and> stacks ?s' i \<noteq> None}"
      using p(4) r c by (auto simp: is_linked_def P linked_def)
    moreover have "\<exists>m. stacks ?s' (thread_of a) = Some m \<and> stack_next m = iter" if d: "pcs ?s' a = Destroying b (D_set iter)" for a b iter
    proof -
      have a: "pcs s a = Destroying b (D_set iter)" using d by (simp add: P split: if_splits)
      then have "thread_of a \<noteq> i" using c r by (cases a) auto
      with p(5) [OF a] show ?thesis by (simp add: P)
    qed
    ultimately show ?thesis using p(3) list_okI by blast
  qed
  ultimately show ?thesis by (simp add: cthreads_inv_def)
qed

section \<open>The steps of cthread_destroy\<close>

lemma destroying_rows:
  assumes "threads_ok func s" "pcs s a = Destroying b d" "d \<noteq> D_unlock"
  shows "\<not> is_linked s (thread_of a)"
    and "thread_ok (result_of (func (thread_of a))) (threads s (thread_of a)) (runner_after a (Destroying b d') s) (owner_after a (Destroying b d') s)"
    and "stack_ok (thread_of a) (threads s (thread_of a)) (runner_after a (Destroying b d') s) (owner_after a (Destroying b d') s) (stacks s (thread_of a))"
    and "linked (threads s (thread_of a)) (runner_after a (Destroying b d') s) (owner_after a (Destroying b d') s) \<longleftrightarrow> d' = D_unlock"
    and "\<exists>n. stacks s (thread_of a) = Some n"
  using assms(2,3) threads_okD [OF assms(1), of "thread_of a"]
  by (cases a; auto simp: local_defs split: option.splits)+

lemma unlocking_rows:
  assumes "threads_ok func s" "pcs s a = Destroying b D_unlock" and pc: "pc = (if b then Setting else Returned)"
  shows "is_linked s (thread_of a)"
    and "thread_ok (result_of (func (thread_of a))) (threads s (thread_of a)) (runner_after a pc s) (owner_after a pc s)"
    and "stack_ok (thread_of a) (threads s (thread_of a)) (runner_after a pc s) (owner_after a pc s) (stacks s (thread_of a))"
    and "linked (threads s (thread_of a)) (runner_after a pc s) (owner_after a pc s)"
  using assms(2) threads_okD [OF assms(1), of "thread_of a"]
  by (cases a; auto simp: pc local_defs split: option.splits)+

lemma linked_elsewhere: "i \<noteq> thread_of a \<Longrightarrow> threads s1 = threads s \<Longrightarrow> pcs s1 = pcs s \<Longrightarrow> is_linked (goes a pc s1) i = is_linked s i"
  by (simp add: is_linked_def pcs_goes(2,3))

lemma linked_here: "is_linked (goes a pc s) (thread_of a) = linked (threads s (thread_of a)) (runner_after a pc s) (owner_after a pc s)"
  by (simp add: is_linked_def pcs_goes(2,3))

lemma other_not_holding: "list_lock_ok s \<Longrightarrow> holds_list (pcs s a) \<Longrightarrow> c \<noteq> a \<Longrightarrow> \<not> holds_list (pcs s c)"
  unfolding list_lock_ok_def by blast

text \<open>The list after a step of its holder, which goes to pc.\<close>

lemma holder_step:
  assumes l: "list_lock_ok s" and h: "holds_list (pcs s a)" and pc: "holds_list pc"
    and same: "pcs s1 = pcs s" "threads s1 = threads s" "last_stack_lock s1 = last_stack_lock s"
    and t: "threads_ok func s1"
      "thread_ok (result_of (func (thread_of a))) (threads s (thread_of a)) (runner_after a pc s) (owner_after a pc s)"
      "stack_ok (thread_of a) (threads s (thread_of a)) (runner_after a pc s) (owner_after a pc s) (stacks s1 (thread_of a))"
    and p: "p = (case walks pc of Some iter \<Rightarrow> iter | None \<Rightarrow> stack_list s1)"
    and xs: "chain (stacks s1) p xs" "distinct xs" "set xs = {i. is_linked (goes a pc s1) i \<and> stacks s1 i \<noteq> None}"
    and d: "\<And>b iter. pc = Destroying b (D_set iter) \<Longrightarrow> \<exists>n. stacks s1 (thread_of a) = Some n \<and> stack_next n = iter"
  shows "cthreads_inv func (goes a pc s1)"
proof -
  let ?s' = "goes a pc s1"
  have ra: "runner_after a pc s1 = runner_after a pc s" "owner_after a pc s1 = owner_after a pc s" using after_cong [OF same(1)] by simp_all
  have holds: "holds_list (pcs ?s' c) \<longleftrightarrow> c = a" for c
    using other_not_holding [OF l h, of c] pc by (simp add: pcs_goes(1) same)
  have lock: "list_lock_ok ?s'" using l h unfolding list_lock_ok_def holds by (auto simp: same list_lock_ok_def)
  have "list_head ?s' p \<longleftrightarrow> p = (case walks (pcs ?s' a) of Some iter \<Rightarrow> iter | None \<Rightarrow> stack_list ?s')"
    by (rule list_head_holder [OF lock]) (simp add: holds)
  then have "list_head ?s' p" unfolding p pcs_goes(1) by (cases "walks pc") simp_all
  moreover have "\<exists>n. stacks ?s' (thread_of c) = Some n \<and> stack_next n = iter" if "pcs ?s' c = Destroying b (D_set iter)" for c b iter
  proof -
    have "holds_list (pcs ?s' c)" unfolding that by simp
    then have "c = a" by (simp add: holds)
    then show ?thesis using d that by (simp add: pcs_goes(1))
  qed
  ultimately have "list_ok ?s'" using xs by (intro list_okI [of ?s' p xs]) simp_all
  moreover have "threads_ok func ?s'" using t by (intro threads_ok_goes [of func s1]) (simp_all add: ra same)
  ultimately show ?thesis using lock by (simp add: cthreads_inv_def)
qed

lemma lock_step:
  assumes inv: "cthreads_inv func s" and a: "pcs s a = Destroying b D_lock" and l: "\<not> last_stack_lock s"
  shows "cthreads_inv func (goes a (Destroying b (D_scan (stack_list s))) (s\<lparr>last_stack_lock := True\<rparr>))"
proof -
  let ?pc = "Destroying b (D_scan (stack_list s))" and ?s1 = "s\<lparr>last_stack_lock := True\<rparr>"
  let ?s' = "goes a ?pc ?s1"
  have t: "threads_ok func s" "list_lock_ok s" "list_ok s" using inv by (auto simp: cthreads_inv_def)
  note rows = destroying_rows(1) [OF t(1) a, simplified] destroying_rows(2-4) [OF t(1) a, where d' = "D_scan (stack_list s)", simplified]
  have no: "\<not> holds_list (pcs s c)" for c using t(2) l by (auto simp: list_lock_ok_def)
  have holds: "holds_list (pcs ?s' c) \<longleftrightarrow> c = a" for c using no by (simp add: pcs_goes(1))
  have lock: "list_lock_ok ?s'" unfolding list_lock_ok_def holds by simp
  obtain p xs where p: "list_head s p" "chain (stacks s) p xs" "distinct xs" "set xs = {i. is_linked s i \<and> stacks s i \<noteq> None}"
    "\<And>a b iter. pcs s a = Destroying b (D_set iter) \<Longrightarrow> \<exists>n. stacks s (thread_of a) = Some n \<and> stack_next n = iter"
    using list_okE [OF t(3)] by blast
  have "list_head ?s' q \<longleftrightarrow> q = (case walks (pcs ?s' a) of Some iter \<Rightarrow> iter | None \<Rightarrow> stack_list ?s')" for q
    by (rule list_head_holder [OF lock]) (simp add: holds)
  then have "list_head ?s' p" using p(1) list_head_free [OF no] by (simp add: pcs_goes(1))
  moreover have "is_linked ?s' i = is_linked s i" for i
    using rows(1,4) linked_elsewhere [of i a ?s1 s ?pc] after_cong [of ?s1 s a ?pc] linked_here [of a ?pc ?s1] by (cases "i = thread_of a") simp_all
  moreover have "\<not> pcs ?s' c = Destroying b' (D_set iter)" for c b' iter
    using no [of c] by (auto simp: pcs_goes(1))
  ultimately have "list_ok ?s'" using p(2-4) by (intro list_okI [of ?s' p xs]) simp_all
  moreover have "threads_ok func ?s'" using t(1) rows by (intro threads_ok_goes [of func s]) simp_all
  ultimately show ?thesis using lock by (simp add: cthreads_inv_def)
qed

lemma holder_list:
  assumes "cthreads_inv func s" "holds_list (pcs s a)"
  obtains xs where "chain (stacks s) (case walks (pcs s a) of Some iter \<Rightarrow> iter | None \<Rightarrow> stack_list s) xs" "distinct xs"
    "set xs = {i. is_linked s i \<and> stacks s i \<noteq> None}"
proof -
  obtain p xs where p: "list_head s p" "chain (stacks s) p xs" "distinct xs" "set xs = {i. is_linked s i \<and> stacks s i \<noteq> None}"
    "\<And>a b iter. pcs s a = Destroying b (D_set iter) \<Longrightarrow> \<exists>n. stacks s (thread_of a) = Some n \<and> stack_next n = iter"
    using assms list_okE [of s] unfolding cthreads_inv_def by blast
  have "p = (case walks (pcs s a) of Some iter \<Rightarrow> iter | None \<Rightarrow> stack_list s)"
    using p(1) list_head_holder assms unfolding cthreads_inv_def by blast
  then show ?thesis using that [of xs] p by blast
qed

lemma set_linked:
  "cthreads_inv func s \<Longrightarrow> pcs s a = Destroying b (D_set iter) \<Longrightarrow> \<exists>n. stacks s (thread_of a) = Some n \<and> stack_next n = iter"
  unfolding cthreads_inv_def list_ok_def by blast

lemma is_linked_after:
  assumes "threads_ok func s" "pcs s a = Destroying b d" "d \<noteq> D_unlock" "threads s1 = threads s" "pcs s1 = pcs s"
  shows "is_linked (goes a (Destroying b d') s1) i \<longleftrightarrow> is_linked s i \<or> (i = thread_of a \<and> d' = D_unlock)"
  using destroying_rows(1) [OF assms(1-3)] destroying_rows(4) [OF assms(1-3), of d'] after_cong [OF assms(5)] assms(4)
    linked_elsewhere [OF _ assms(4,5)] linked_here [of a "Destroying b d'" s1]
  by (cases "i = thread_of a") simp_all

text \<open>A step that only moves on in the code.\<close>

lemma move_step:
  assumes inv: "cthreads_inv func s" and a: "pcs s a = Destroying b (D_scan iter)"
  shows "cthreads_inv func (goes a (Destroying b (D_link iter)) s)"
proof -
  have t: "threads_ok func s" "list_lock_ok s" and h: "holds_list (pcs s a)" using inv a by (auto simp: cthreads_inv_def)
  obtain xs where xs: "chain (stacks s) iter xs" "distinct xs" "set xs = {i. is_linked s i \<and> stacks s i \<noteq> None}"
    by (rule holder_list [OF inv h, unfolded a walks.simps option.case])
  note rows = destroying_rows(2,3) [OF t(1) a, where d' = "D_link iter", simplified]
  show ?thesis using xs rows t(1)
    by (intro holder_step [OF t(2) h, where xs = xs and p = iter]) (simp_all add: is_linked_after [OF t(1) a])
qed

lemma free_step:
  assumes inv: "cthreads_inv func s" and a: "pcs s a = Destroying b (D_scan (Some iter))"
    and n: "stacks s iter = Some n" "tid n = Some 0"
  shows "cthreads_inv func (goes a (Destroying b (D_scan (stack_next n))) (s\<lparr>stacks := (stacks s)(iter := None)\<rparr>))"
proof -
  let ?s1 = "s\<lparr>stacks := (stacks s)(iter := None)\<rparr>"
  have t: "threads_ok func s" "list_lock_ok s" and h: "holds_list (pcs s a)" using inv a by (auto simp: cthreads_inv_def)
  obtain ys where ys: "chain (stacks s) (Some iter) ys" "distinct ys" "set ys = {i. is_linked s i \<and> stacks s i \<noteq> None}"
    by (rule holder_list [OF inv h, unfolded a walks.simps option.case])
  obtain xs where xs: "ys = iter # xs" "chain (stacks s) (stack_next n) xs" using ys(1) n(1) by (cases ys) auto
  have li: "is_linked s iter" using ys(3) xs(1) by auto
  note rows = destroying_rows(1,5) [OF t(1) a, simplified] destroying_rows(2,3) [OF t(1) a, where d' = "D_scan (stack_next n)", simplified]
  have i: "thread_of a \<noteq> iter" using li rows(1) by auto
  have "stack_ok iter (threads s iter) (pcs s (Runner iter)) (pcs s (Owner iter)) None"
    using threads_okD(2) [OF t(1), of iter] n li by (auto simp: stack_ok_def is_linked_def split: if_splits)
  then have t1: "threads_ok func ?s1" using t(1) by (simp add: threads_ok_def)
  have "chain (stacks ?s1) (stack_next n) xs" using chain_frame [OF xs(2)] ys(2) xs(1) by simp
  moreover have "set xs = {i. is_linked s i \<and> stacks ?s1 i \<noteq> None}" using ys(2,3) xs(1) by auto
  ultimately show ?thesis using ys(2) xs(1) rows t1 i
    by (intro holder_step [OF t(2) h, where xs = xs and p = "stack_next n"]) (simp_all add: is_linked_after [OF t(1) a])
qed

lemma link_step:
  assumes inv: "cthreads_inv func s" and a: "pcs s a = Destroying b (D_link iter)" and n: "stacks s (thread_of a) = Some n"
  shows "cthreads_inv func (goes a (Destroying b (D_set iter)) (s\<lparr>stacks := (stacks s)(thread_of a \<mapsto> n\<lparr>stack_next := iter\<rparr>)\<rparr>))"
proof -
  let ?s1 = "s\<lparr>stacks := (stacks s)(thread_of a \<mapsto> n\<lparr>stack_next := iter\<rparr>)\<rparr>"
  have t: "threads_ok func s" "list_lock_ok s" and h: "holds_list (pcs s a)" using inv a by (auto simp: cthreads_inv_def)
  obtain xs where xs: "chain (stacks s) iter xs" "distinct xs" "set xs = {i. is_linked s i \<and> stacks s i \<noteq> None}"
    by (rule holder_list [OF inv h, unfolded a walks.simps option.case])
  note rows = destroying_rows(1) [OF t(1) a, simplified] destroying_rows(2,3) [OF t(1) a, where d' = "D_set iter", simplified]
  have st: "stack_ok i th r ow (Some n) \<Longrightarrow> stack_ok i th r ow (Some (n\<lparr>stack_next := iter\<rparr>))" for i th r ow
    by (simp add: stack_ok_def)
  have t1: "threads_ok func ?s1" using t(1) threads_okD(2) [OF t(1), of "thread_of a"] n st by (auto simp: threads_ok_def)
  have "chain (stacks ?s1) iter xs" using chain_frame [OF xs(1)] xs(3) rows(1) by simp
  moreover have "set xs = {i. is_linked s i \<and> stacks ?s1 i \<noteq> None}" using xs(3) rows(1) by auto
  ultimately show ?thesis using xs(2) rows t1 st [OF rows(3) [unfolded n]]
    by (intro holder_step [OF t(2) h, where xs = xs and p = iter]) (simp_all add: is_linked_after [OF t(1) a])
qed

lemma set_step:
  assumes inv: "cthreads_inv func s" and a: "pcs s a = Destroying b (D_set iter)"
  shows "cthreads_inv func (goes a (Destroying b D_unlock) (s\<lparr>stack_list := Some (thread_of a)\<rparr>))"
proof -
  let ?s1 = "s\<lparr>stack_list := Some (thread_of a)\<rparr>"
  have t: "threads_ok func s" "list_lock_ok s" and h: "holds_list (pcs s a)" using inv a by (auto simp: cthreads_inv_def)
  obtain xs where xs: "chain (stacks s) iter xs" "distinct xs" "set xs = {i. is_linked s i \<and> stacks s i \<noteq> None}"
    by (rule holder_list [OF inv h, unfolded a walks.simps option.case])
  obtain n where n: "stacks s (thread_of a) = Some n" "stack_next n = iter" using set_linked [OF inv a] by blast
  note rows = destroying_rows(1) [OF t(1) a, simplified] destroying_rows(2,3) [OF t(1) a, where d' = D_unlock]
  have t1: "threads_ok func ?s1" using t(1) by (simp add: threads_ok_def)
  have "chain (stacks ?s1) (Some (thread_of a)) (thread_of a # xs)" using xs(1) n by simp
  moreover have "set (thread_of a # xs) = {i. (is_linked s i \<or> i = thread_of a) \<and> stacks s i \<noteq> None}" using xs(3) n by auto
  moreover have "distinct (thread_of a # xs)" using xs(2,3) rows(1) by auto
  ultimately show ?thesis using rows t1
    by (intro holder_step [OF t(2) h, where xs = "thread_of a # xs" and p = "Some (thread_of a)"])
      (simp_all add: is_linked_after [OF t(1) a])
qed

lemma unlock_step:
  assumes inv: "cthreads_inv func s" and a: "pcs s a = Destroying b D_unlock" and pc: "pc = (if b then Setting else Returned)"
  shows "cthreads_inv func (goes a pc (s\<lparr>last_stack_lock := False\<rparr>))"
proof -
  let ?s1 = "s\<lparr>last_stack_lock := False\<rparr>"
  let ?s' = "goes a pc ?s1"
  have t: "threads_ok func s" "list_lock_ok s" and h: "holds_list (pcs s a)" using inv a by (auto simp: cthreads_inv_def)
  note rows = unlocking_rows [OF t(1) a pc]
  obtain xs where xs: "chain (stacks s) (stack_list s) xs" "distinct xs" "set xs = {i. is_linked s i \<and> stacks s i \<noteq> None}"
    by (rule holder_list [OF inv h, unfolded a walks.simps option.case])
  have no: "\<not> holds_list (pcs ?s' c)" for c using other_not_holding [OF t(2) h, of c] by (simp add: pcs_goes(1) pc)
  have "is_linked ?s' i = is_linked s i" for i
    using rows(1,4) linked_elsewhere [of i a ?s1 s pc] after_cong [of ?s1 s a pc] linked_here [of a pc ?s1] by (cases "i = thread_of a") simp_all
  then have "list_ok ?s'"
    using xs no list_head_free [OF no] by (intro list_okI [of ?s' "stack_list s" xs]) (simp_all, metis holds_list.simps(4))
  moreover have "list_lock_ok ?s'" unfolding list_lock_ok_def using no by simp
  moreover have "threads_ok func ?s'" using t(1) rows by (intro threads_ok_goes [of func s]) (simp_all)
  ultimately show ?thesis by (simp add: cthreads_inv_def)
qed

definition good_outcome :: "(nat \<Rightarrow> body) \<Rightarrow> cthreads outcome \<Rightarrow> bool" where
  "good_outcome func r \<longleftrightarrow> r \<noteq> Undefined \<and> (\<forall>s'. r = Next s' \<longrightarrow> cthreads_inv func s')"

lemma good_outcome_simps [simp]:
  "good_outcome func Blocked" "\<not> good_outcome func Undefined" "good_outcome func (Next s) \<longleftrightarrow> cthreads_inv func s"
  by (simp_all add: good_outcome_def)

lemma destroy_good:
  assumes inv: "cthreads_inv func s" and a: "pcs s a = Destroying b d" and pc: "pc = (if b then Setting else Returned)"
  shows "good_outcome func (destroy_then a b pc (cthread_destroy (thread_of a) d s))"
proof (cases d)
  case D_lock
  then show ?thesis using lock_step [OF inv a [unfolded D_lock]]
    by (simp add: destroy_then_def cthread_destroy_def spin_lock_def)
next
  case (D_scan w)
  show ?thesis
  proof (cases w)
    case None
    then show ?thesis using move_step [OF inv a [unfolded D_scan]]
      by (simp add: D_scan destroy_then_def cthread_destroy_def)
  next
    case (Some iter)
    have h: "holds_list (pcs s a)" and t: "threads_ok func s" using inv a D_scan by (auto simp: cthreads_inv_def)
    obtain xs where xs: "chain (stacks s) (Some iter) xs" "set xs = {i. is_linked s i \<and> stacks s i \<noteq> None}"
      by (rule holder_list [OF inv h, unfolded a D_scan Some walks.simps option.case])
    then obtain n where n: "stacks s iter = Some n" "is_linked s iter" by (cases xs) auto
    then obtain t' where t': "tid n = Some t'"
      using threads_okD [OF t, of iter] by (auto simp: row_defs is_linked_def split: if_splits)
    show ?thesis
      using move_step [OF inv a [unfolded D_scan]] free_step [OF inv a [unfolded D_scan Some] n(1)] n(1) t' Some
      by (simp add: D_scan destroy_then_def cthread_destroy_def)
  qed
next
  case (D_link iter)
  have t: "threads_ok func s" using inv by (auto simp: cthreads_inv_def)
  obtain n where "stacks s (thread_of a) = Some n" using destroying_rows(5) [OF t a] D_link by auto
  then show ?thesis using link_step [OF inv a [unfolded D_link]] by (simp add: D_link destroy_then_def cthread_destroy_def)
next
  case (D_set iter)
  then show ?thesis using set_step [OF inv a [unfolded D_set]] by (simp add: destroy_then_def cthread_destroy_def)
next
  case D_unlock
  then show ?thesis using unlock_step [OF inv a [unfolded D_unlock] pc]
    by (simp add: destroy_then_def cthread_destroy_def spin_unlock_def split: if_splits)
qed

lemma runner_good:
  assumes inv: "cthreads_inv func s"
  shows "good_outcome func (cthread_runner func i s)"
proof -
  have t: "threads_ok func s" using inv by (simp add: cthreads_inv_def)
  note ok = threads_okD [OF t, of i]
  have ow: "pcs s (Owner i) \<noteq> Absent" if "pcs s (Runner i) \<noteq> Absent" using ok(1) that by (simp add: thread_ok_def)
  note rows = runner_rows
  show ?thesis
  proof (cases "pcs s (Runner i)")
    case Starting
    then obtain n where n: "stacks s i = Some n" using created_stack [OF t, of i] ow by auto
    show ?thesis
      using kernel_keeps_inv [OF inv, of i Func "Suc i"] kernel_rows(1,3) ok n Starting
      by (simp add: cthread_runner_def kernel_step_def kernel_writes_tid_def is_linked_def)
  next
    case Returned
    then obtain n where n: "stacks s i = Some n" using created_stack [OF t, of i] ow by auto
    show ?thesis
      using kernel_keeps_inv [OF inv, of i Gone 0] kernel_rows(2,4) ok n Returned
      by (simp add: cthread_runner_def kernel_step_def kernel_writes_tid_def is_linked_def)
  next
    case Func
    show ?thesis
      using quiet_runner [OF inv, of i Locking "\<lambda>t. t\<lparr>returned_code := result_of (func i)\<rparr>"] rows(1) Func
      by (cases "func i") (simp_all add: cthread_runner_def cthread_exit_def result_of_def)
  next
    case Locking
    show ?thesis
      using quiet_runner [OF inv, of i Testing "\<lambda>t. t\<lparr>lock := True\<rparr>"] rows(2) Locking
      by (simp add: cthread_runner_def spin_lock_def)
  next
    case Testing
    show ?thesis
      using quiet_runner_pc [OF inv, of i "Destroying True D_lock"] quiet_runner_pc [OF inv, of i Setting] rows(3,4) Testing
      by (simp add: cthread_runner_def)
  next
    case (Destroying b d)
    have b: "b = True" using ok(1) Destroying by (auto simp: thread_ok_def runner_pcs_def)
    show ?thesis using destroy_good [OF inv Destroying refl] b by (simp add: cthread_runner_def Destroying)
  next
    case Setting
    show ?thesis
      using quiet_runner [OF inv, of i Unlocking "\<lambda>t. t\<lparr>is_finished := True\<rparr>"] rows(5) Setting
      by (simp add: cthread_runner_def)
  next
    case Unlocking
    then have "lock (threads s i)" using ok(1) by (auto simp: thread_ok_def)
    then have u: "(\<lambda>t. t\<lparr>lock := spin_unlock (lock t)\<rparr>) = (\<lambda>t. t\<lparr>lock := False\<rparr>)" by (auto simp: spin_unlock_def)
    show ?thesis
      using quiet_runner [OF inv, of i Returned "\<lambda>t. t\<lparr>lock := False\<rparr>"] rows(6) Unlocking
      by (simp add: cthread_runner_def u)
  qed (simp_all add: cthread_runner_def)
qed

lemma detach_good:
  assumes inv: "cthreads_inv func s"
  shows "good_outcome func (cthread_detach i s)"
proof -
  note rows = owner_rows
  show ?thesis
  proof (cases "pcs s (Owner i)")
    case Locking
    show ?thesis
      using quiet_owner [OF inv, of i Testing "\<lambda>t. t\<lparr>lock := True\<rparr>"] rows(3) Locking
      by (simp add: cthread_detach_def spin_lock_def)
  next
    case Testing
    show ?thesis
      using quiet_owner_pc [OF inv, of i "Destroying True D_lock"] quiet_owner_pc [OF inv, of i Setting] rows(4,5) Testing
      by (simp add: cthread_detach_def)
  next
    case (Destroying b d)
    show ?thesis using destroy_good [OF inv Destroying refl] by (cases b) (simp_all add: cthread_detach_def Destroying)
  next
    case Setting
    show ?thesis
      using quiet_owner [OF inv, of i Unlocking "\<lambda>t. t\<lparr>is_detached := True\<rparr>"] rows(6) Setting
      by (simp add: cthread_detach_def)
  next
    case Unlocking
    have u: "(\<lambda>t. t\<lparr>lock := spin_unlock (lock t)\<rparr>) = (\<lambda>t. t\<lparr>lock := False\<rparr>)" by (auto simp: spin_unlock_def)
    show ?thesis
      using quiet_owner [OF inv, of i Returned "\<lambda>t. t\<lparr>lock := False\<rparr>"] rows(7) Unlocking
      by (simp add: cthread_detach_def u)
  qed (simp_all add: cthread_detach_def)
qed

lemma join_good:
  assumes inv: "cthreads_inv func s"
  shows "good_outcome func (cthread_join i s)"
proof (cases "pcs s (Owner i)")
  case Waiting
  then show ?thesis
    using quiet_owner_pc [OF inv, of i "Destroying False D_lock"] owner_rows(8) by (simp add: cthread_join_def)
next
  case (Destroying b d)
  show ?thesis using destroy_good [OF inv Destroying refl] by (cases b) (simp_all add: cthread_join_def Destroying)
qed (simp_all add: cthread_join_def)

lemma happens_good:
  assumes inv: "cthreads_inv func s"
  shows "good_outcome func (happens func e s)"
proof (cases e)
  case (Create i)
  then show ?thesis using create_keeps_inv [OF inv] by (simp add: happens_def)
next
  case (Detach i)
  then show ?thesis using quiet_owner_pc [OF inv, of i Locking] owner_rows(1) by (simp add: happens_def)
next
  case (Join i)
  then show ?thesis using quiet_owner_pc [OF inv, of i Waiting] owner_rows(2) by (simp add: happens_def)
next
  case (Step a)
  then show ?thesis using runner_good [OF inv] detach_good [OF inv] join_good [OF inv]
    by (cases a) (simp_all add: happens_def split: outcome.split, metis good_outcome_simps(2,3))
qed

lemma initial_inv: "cthreads_inv func (cthreads_initial mem)"
  by (simp add: cthreads_inv_def threads_ok_def list_lock_ok_def cthreads_initial_def row_defs)
    (rule list_okI [where p = None and xs = "[]"]; simp add: list_head_def is_linked_def linked_def)

interpretation cthread_system: invariant_system "\<lambda>s. \<exists>mem. s = cthreads_initial mem" "cthread_step func" "cthreads_inv func"
  for func
proof
  show "cthreads_inv func s" if "\<exists>mem. s = cthreads_initial mem" for s using that initial_inv by blast
  show "cthreads_inv func t" if "cthreads_inv func s" "cthread_step func s t" for s t
    using happens_good [OF that(1)] that(2) by (auto simp: cthread_step_def) (metis good_outcome_simps(3))
qed

section \<open>The steps end\<close>

fun destroy_rank :: "destroy_pc \<Rightarrow> nat" where
  "destroy_rank D_lock = 8"
| "destroy_rank (D_scan iter) = 7"
| "destroy_rank (D_link iter) = 6"
| "destroy_rank (D_set iter) = 5"
| "destroy_rank D_unlock = 4"

fun rank :: "actor_pc \<Rightarrow> nat" where
  "rank Starting = 12"
| "rank Func = 11"
| "rank Locking = 10"
| "rank Waiting = 9"
| "rank Testing = 9"
| "rank (Destroying locked d) = destroy_rank d"
| "rank Setting = 3"
| "rank Unlocking = 2"
| "rank Returned = 1"
| "rank _ = 0"

lemma destroy_rank_pos: "destroy_rank d > 0" "destroy_rank d \<le> 8"
  by (cases d; simp)+

text \<open>A step moves one actor on, or frees a stack.\<close>

definition moves_on :: "actor \<Rightarrow> cthreads \<Rightarrow> cthreads \<Rightarrow> bool" where
  "moves_on a s s' \<longleftrightarrow> (\<forall>b. b \<noteq> a \<longrightarrow> pcs s' b = pcs s b) \<and>
     (rank (pcs s' a) < rank (pcs s a) \<and> (\<forall>i. stacks s' i = None \<longleftrightarrow> stacks s i = None) \<or>
      rank (pcs s' a) = rank (pcs s a) \<and> (\<exists>i. stacks s i \<noteq> None \<and> stacks s' = (stacks s)(i := None)))"

lemma moves_onI:
  "pcs s' = (pcs s)(a := pc) \<Longrightarrow> rank pc < rank (pcs s a) \<Longrightarrow> stacks s' = stacks s \<Longrightarrow> moves_on a s s'"
  unfolding moves_on_def by auto

lemma destroy_moves:
  assumes "pcs s a = Destroying b d" "rank pc < 4" "destroy_then a b pc (cthread_destroy i d s) = Next s'"
  shows "moves_on a s s'"
proof (cases "\<exists>iter n. d = D_scan (Some iter) \<and> stacks s iter = Some n \<and> tid n = Some 0")
  case True
  then obtain iter n where n: "d = D_scan (Some iter)" "stacks s iter = Some n" "tid n = Some 0" by blast
  have s': "s' = goes a (Destroying b (D_scan (stack_next n))) (s\<lparr>stacks := (stacks s)(iter := None)\<rparr>)"
    using assms n by (simp add: destroy_then_def cthread_destroy_def)
  show ?thesis unfolding moves_on_def s' using assms(1) n(1,2)
    by (intro conjI disjI2 exI [of _ iter]) (simp_all add: pcs_goes(1))
next
  case False
  then show ?thesis using assms
    by (cases d) (auto simp: destroy_then_def cthread_destroy_def goes_def moves_on_def spin_lock_def
        split: option.splits if_splits)
qed

lemma kernel_moves:
  "rank pc < rank (pcs s (Runner i)) \<Longrightarrow> kernel_step i t pc s = Next s' \<Longrightarrow> moves_on (Runner i) s s'"
  by (auto simp: kernel_step_def kernel_writes_tid_def goes_def moves_on_def split: option.splits if_splits)

lemma runner_moves:
  assumes "cthread_runner func i s = Next s'"
  shows "moves_on (Runner i) s s'"
proof (cases "pcs s (Runner i)")
  case (Destroying b d)
  then show ?thesis using assms destroy_moves [OF Destroying, of Setting i s'] by (simp add: cthread_runner_def)
qed (use assms kernel_moves [of Func s i "Suc i" s'] kernel_moves [of Gone s i 0 s'] in
  \<open>auto simp: cthread_runner_def cthread_exit_def spin_lock_def goes_def upd_thread_def
    intro!: moves_onI split: body.splits if_splits option.splits\<close>)

lemma owner_moves:
  assumes "cthread_detach i s = Next s' \<or> cthread_join i s = Next s'"
  shows "moves_on (Owner i) s s'"
proof (cases "pcs s (Owner i)")
  case (Destroying b d)
  then show ?thesis
    using assms destroy_moves [OF Destroying, of Setting i s'] destroy_moves [OF Destroying, of Returned i s']
    by (cases b) (simp_all add: cthread_detach_def cthread_join_def)
qed (use assms in \<open>auto simp: cthread_detach_def cthread_join_def spin_lock_def goes_def upd_thread_def
    intro!: moves_onI split: if_splits option.splits\<close>)

lemma step_moves: "happens func (Step a) s = Next s' \<Longrightarrow> moves_on a s s'"
  using runner_moves owner_moves by (cases a) (auto simp: happens_def split: outcome.splits)

definition actors_of :: "nat set \<Rightarrow> actor set" where
  "actors_of I = Runner ` I \<union> Owner ` I"

definition work_left :: "nat set \<Rightarrow> cthreads \<Rightarrow> nat" where
  "work_left I s = (\<Sum>a \<in> actors_of I. rank (pcs s a)) + card {i \<in> I. stacks s i \<noteq> None}"

lemma actor_in: "a \<in> actors_of I \<longleftrightarrow> thread_of a \<in> I"
  by (cases a) (auto simp: actors_of_def)

lemma work_less:
  assumes "finite I" "moves_on a s s'" "thread_of a \<in> I" "\<And>i. stacks s i \<noteq> None \<Longrightarrow> i \<in> I"
  shows "work_left I s' < work_left I s"
proof -
  have f: "finite (actors_of I)" using assms(1) by (simp add: actors_of_def)
  define pc where "pc = pcs s' a"
  have pc: "pcs s' = (pcs s)(a := pc)"
     "rank pc < rank (pcs s a) \<and> (\<forall>i. stacks s' i = None \<longleftrightarrow> stacks s i = None) \<or>
      rank pc = rank (pcs s a) \<and> (\<exists>i. stacks s i \<noteq> None \<and> stacks s' = (stacks s)(i := None))"
    using assms(2) by (auto simp: moves_on_def pc_def)
  have a: "a \<in> actors_of I" using assms(3) by (simp add: actor_in)
  have sum: "(\<Sum>b \<in> actors_of I. rank (pcs s' b)) + rank (pcs s a) = (\<Sum>b \<in> actors_of I. rank (pcs s b)) + rank pc"
    using sum.remove [OF f a, of "\<lambda>b. rank (pcs s' b)"] sum.remove [OF f a, of "\<lambda>b. rank (pcs s b)"] by (simp add: pc(1))
  from pc(2) show ?thesis
  proof
    assume "rank pc < rank (pcs s a) \<and> (\<forall>i. stacks s' i = None \<longleftrightarrow> stacks s i = None)"
    then show ?thesis using sum by (simp add: work_left_def)
  next
    assume "rank pc = rank (pcs s a) \<and> (\<exists>i. stacks s i \<noteq> None \<and> stacks s' = (stacks s)(i := None))"
    then obtain i where i: "rank pc = rank (pcs s a)" "stacks s i \<noteq> None" "stacks s' = (stacks s)(i := None)" by blast
    have "{j \<in> I. stacks s' j \<noteq> None} = {j \<in> I. stacks s j \<noteq> None} - {i}" using i by auto
    moreover have "i \<in> {j \<in> I. stacks s j \<noteq> None}" using i assms(4) by blast
    ultimately have "card {j \<in> I. stacks s' j \<noteq> None} < card {j \<in> I. stacks s j \<noteq> None}"
      using assms(1) by (metis (no_types, lifting) card_Diff1_less finite_Collect_conjI finite.intros finite_subset mem_Collect_eq subsetI)
    then show ?thesis using sum i(1) by (simp add: work_left_def)
  qed
qed

lemma work_bound: "finite I \<Longrightarrow> work_left I s \<le> 25 * card I"
proof -
  assume f: "finite I"
  have "destroy_rank d \<le> 12" for d using destroy_rank_pos(2) [of d] by simp
  then have "rank pc \<le> 12" for pc by (cases pc) simp_all
  then have "(\<Sum>a \<in> actors_of I. rank (pcs s a)) \<le> 12 * card (actors_of I)"
    using sum_bounded_above [of "actors_of I" "\<lambda>a. rank (pcs s a)" 12] by (simp add: mult.commute)
  also have "card (actors_of I) \<le> 2 * card I"
    using card_Un_le [of "Runner ` I" "Owner ` I"] card_image_le [OF f, of Runner] card_image_le [OF f, of Owner] by (simp add: actors_of_def)
  finally have "(\<Sum>a \<in> actors_of I. rank (pcs s a)) \<le> 24 * card I" by simp
  moreover have "card {i \<in> I. stacks s i \<noteq> None} \<le> card I" using f by (auto intro: card_mono)
  ultimately show ?thesis by (simp add: work_left_def)
qed

section \<open>No step is left only at the end\<close>

lemma destroy_blocked: "destroy_then a b pc (cthread_destroy i d s) = Blocked \<longleftrightarrow> d = D_lock \<and> last_stack_lock s"
  by (cases d) (auto simp: destroy_then_def cthread_destroy_def spin_lock_def split: option.splits)

lemma runner_blocked:
  "cthread_runner func i s = Blocked \<Longrightarrow> pcs s (Runner i) \<in> {Absent, Ready, Waiting, Gone} \<or>
     (pcs s (Runner i) = Locking \<and> lock (threads s i)) \<or> (\<exists>b. pcs s (Runner i) = Destroying b D_lock \<and> last_stack_lock s)"
  by (cases "pcs s (Runner i)")
    (auto simp: cthread_runner_def kernel_step_def kernel_writes_tid_def spin_lock_def destroy_blocked split: option.splits body.splits if_splits)

lemma owner_blocked:
  "cthread_detach i s = Blocked \<Longrightarrow> cthread_join i s = Blocked \<Longrightarrow> pcs s (Owner i) \<in> {Absent, Starting, Ready, Func, Returned, Gone} \<or>
     (pcs s (Owner i) = Locking \<and> lock (threads s i)) \<or> (pcs s (Owner i) = Waiting \<and> \<not> is_finished (threads s i)) \<or>
     (\<exists>b. pcs s (Owner i) = Destroying b D_lock \<and> last_stack_lock s)"
proof (cases "pcs s (Owner i)")
  case (Destroying b d)
  then show "cthread_detach i s = Blocked \<Longrightarrow> cthread_join i s = Blocked \<Longrightarrow> ?thesis"
    by (cases b) (auto simp: cthread_detach_def cthread_join_def destroy_blocked)
qed (auto simp: cthread_detach_def cthread_join_def spin_lock_def split: option.splits if_splits)

lemma step_blocked:
  assumes "\<forall>a. happens func (Step a) s = Blocked"
  shows "cthread_runner func i s = Blocked" "cthread_detach i s = Blocked" "cthread_join i s = Blocked"
  using assms [rule_format, of "Runner i"] assms [rule_format, of "Owner i"]
  by (auto simp: happens_def split: outcome.splits)

lemma stuck_ended:
  assumes inv: "cthreads_inv func s" and b: "\<forall>a. happens func (Step a) s = Blocked" and c: "pcs s (Owner i) \<noteq> Absent"
  shows "pcs s (Runner i) = Gone \<and> (pcs s (Owner i) = Ready \<or> pcs s (Owner i) = Returned)"
proof -
  have t: "threads_ok func s" and l: "list_lock_ok s" using inv by (auto simp: cthreads_inv_def)
  note r = runner_blocked [OF step_blocked(1) [OF b]] and o = owner_blocked [OF step_blocked(2,3) [OF b]]
  have "\<not> holds_list (pcs s a)" for a
    by (cases a) (use r [of "thread_of a"] o [of "thread_of a"] in auto)
  then have free: "\<not> last_stack_lock s" using l by (simp add: list_lock_ok_def)
  have "\<not> holds_lock (pcs s a)" for a
    by (cases a) (use r [of "thread_of a"] o [of "thread_of a"] free in auto)
  moreover note ok = threads_okD(1) [OF t, of i]
  moreover have "lock (threads s i) \<longleftrightarrow> holds_lock (pcs s (Runner i)) \<or> holds_lock (pcs s (Owner i))"
    using ok c unfolding thread_ok_def by blast
  ultimately have "\<not> lock (threads s i)" by simp
  then have "pcs s (Runner i) \<in> {Absent, Ready, Waiting, Gone}" using r [of i] free by blast
  moreover have "runner_pcs (pcs s (Runner i))" "pcs s (Runner i) \<noteq> Absent" using ok c unfolding thread_ok_def by blast+
  ultimately have g: "pcs s (Runner i) = Gone" unfolding runner_pcs_def by auto
  then have "is_finished (threads s i)" using ok c unfolding thread_ok_def by blast
  then have "pcs s (Owner i) \<in> {Absent, Starting, Ready, Func, Returned, Gone}"
    using o [of i] free \<open>\<not> lock (threads s i)\<close> by blast
  moreover have "owner_pcs (pcs s (Owner i))" using ok unfolding thread_ok_def by blast
  ultimately show ?thesis using g c unfolding owner_pcs_def by auto
qed

definition runs :: "(nat \<Rightarrow> body) \<Rightarrow> cthreads \<Rightarrow> cthreads \<Rightarrow> bool" where
  "runs func s s' \<longleftrightarrow> (\<exists>a. happens func (Step a) s = Next s')"

lemma step_of_created:
  assumes "cthreads_inv func s" "happens func (Step a) s = Next s'"
  shows "pcs s (Owner (thread_of a)) \<noteq> Absent"
proof
  assume o: "pcs s (Owner (thread_of a)) = Absent"
  have "threads_ok func s" using assms(1) by (simp add: cthreads_inv_def)
  from threads_okD(1) [OF this, of "thread_of a"] o have "pcs s (Runner (thread_of a)) = Absent" by (auto simp: thread_ok_def)
  then show False using assms(2) o
    by (cases a) (simp_all add: happens_def cthread_runner_def cthread_detach_def cthread_join_def)
qed

lemma run_bounded:
  assumes "(runs func ^^ n) s s'" "cthreads_inv func s" "finite I" "\<And>i. i \<notin> I \<Longrightarrow> pcs s (Owner i) = Absent"
  shows "cthreads_inv func s' \<and> n + work_left I s' \<le> work_left I s \<and>
    (\<forall>i. i \<notin> I \<longrightarrow> pcs s' (Owner i) = Absent) \<and> (\<forall>i. pcs s' (Owner i) = Ready \<longleftrightarrow> pcs s (Owner i) = Ready)"
  using assms(1)
proof (induction n arbitrary: s')
  case (Suc n)
  then obtain u where u: "(runs func ^^ n) s u" "runs func u s'" by auto
  then obtain a where a: "happens func (Step a) u = Next s'" by (auto simp: runs_def)
  note IH = Suc.IH [OF u(1)]
  have inv: "cthreads_inv func u" using IH by simp
  then have t: "threads_ok func u" by (simp add: cthreads_inv_def)
  have c: "pcs u (Owner (thread_of a)) \<noteq> Absent" by (rule step_of_created [OF inv a])
  have m: "moves_on a u s'" by (rule step_moves [OF a])
  have ia: "thread_of a \<in> I" using IH c by blast
  have st: "i \<in> I" if "stacks u i \<noteq> None" for i
    using threads_okD(2) [OF t, of i] that IH by (cases "i \<in> I") (auto simp: stack_ok_def)
  have "work_left I s' < work_left I u" by (rule work_less [OF assms(3) m ia st])
  moreover have "cthreads_inv func s'" using happens_good [OF inv, of "Step a"] a by simp
  moreover have "pcs s' (Owner i) = Absent" if "i \<notin> I" for i
  proof -
    have "Owner i \<noteq> a" using ia that by auto
    then have "pcs s' (Owner i) = pcs u (Owner i)" using m unfolding moves_on_def by blast
    then show ?thesis using IH that by simp
  qed
  moreover have "pcs s' (Owner i) = Ready \<longleftrightarrow> pcs u (Owner i) = Ready" for i
  proof (cases "a = Owner i")
    case True
    then show ?thesis using a
      by (auto simp: happens_def cthread_detach_def cthread_join_def goes_def upd_thread_def spin_lock_def destroy_then_def
          cthread_destroy_def split: outcome.splits actor_pc.splits option.splits if_splits bool.splits destroy_pc.splits)
  qed (use m in \<open>auto simp: moves_on_def\<close>)
  ultimately show ?case using IH by auto
qed (use assms in auto)

section \<open>Properties\<close>

abbreviation cthreads_reachable :: "(nat \<Rightarrow> body) \<Rightarrow> cthreads \<Rightarrow> bool" where
  "cthreads_reachable func \<equiv> reachable (\<lambda>s. \<exists>mem. s = cthreads_initial mem) (cthread_step func)"

text \<open>C27: Whatever the order of the steps, no step dereferences a freed stack or reads a tid that was not
  written, only one actor is at the list of stacks at a time, the stack of a thread is freed only when the
  kernel has reported the end of the thread, and a join has the result of the thread.\<close>

theorem stacks_freed_safely:
  assumes "cthreads_reachable func s"
  shows "happens func e s \<noteq> Undefined \<and>
    (holds_list (pcs s a) \<longrightarrow> holds_list (pcs s b) \<longrightarrow> a = b) \<and>
    (pcs s (Owner i) \<noteq> Absent \<longrightarrow> stacks s i = None \<longrightarrow> pcs s (Runner i) = Gone) \<and>
    (pcs s (Owner i) = Returned \<longrightarrow> \<not> is_detached (threads s i) \<longrightarrow> returned_code (threads s i) = result_of (func i))"
proof (intro conjI impI)
  have inv: "cthreads_inv func s" by (rule cthread_system.reachable_has_inv [OF assms])
  then have t: "threads_ok func s" and l: "list_lock_ok s" by (auto simp: cthreads_inv_def)
  note ok = threads_okD [OF t, of i]
  show "happens func e s \<noteq> Undefined" using happens_good [OF inv, of e] unfolding good_outcome_def by blast
  show "a = b" if "holds_list (pcs s a)" "holds_list (pcs s b)" using that l unfolding list_lock_ok_def by blast
  show "pcs s (Runner i) = Gone" if "pcs s (Owner i) \<noteq> Absent" "stacks s i = None"
    using ok(2) that by (auto simp: stack_ok_def)
  assume "pcs s (Owner i) = Returned" "\<not> is_detached (threads s i)"
  then show "returned_code (threads s i) = result_of (func i)" using ok(1) by (auto simp: thread_ok_def)
qed

text \<open>C28: Once the threads of a finite set are created and their owners have started to join or detach some of
  them, at most 25 steps per thread are possible in any order, and when no more is possible, nobody waits for a lock:
  every thread has ended, every join and detach has returned, and the stacks of the joined and
  detached threads are freed or stand in the list, each once.\<close>

theorem cthreads_end:
  assumes "cthreads_reachable func s" "(runs func ^^ n) s s'" "finite I" "\<forall>i. i \<notin> I \<longrightarrow> pcs s (Owner i) = Absent"
  shows "n \<le> 25 * card I \<and>
    ((\<forall>t. \<not> runs func s' t) \<longrightarrow>
      (\<forall>i. pcs s' (Owner i) \<noteq> Absent \<longrightarrow> pcs s' (Runner i) = Gone \<and> (pcs s' (Owner i) = Returned \<longleftrightarrow> pcs s (Owner i) \<noteq> Ready)) \<and>
      (\<exists>xs. chain (stacks s') (stack_list s') xs \<and> distinct xs \<and>
        set xs = {i. pcs s' (Owner i) = Returned \<and> stacks s' i \<noteq> None}))"
proof (intro conjI impI allI)
  have "cthreads_inv func s" by (rule cthread_system.reachable_has_inv [OF assms(1)])
  then have run: "cthreads_inv func s'" "n + work_left I s' \<le> work_left I s"
    "\<And>i. pcs s' (Owner i) = Ready \<longleftrightarrow> pcs s (Owner i) = Ready"
    using run_bounded [OF assms(2) _ assms(3)] assms(4) by auto
  show "n \<le> 25 * card I" using run(2) work_bound [OF assms(3), of s] by simp
  assume "\<forall>t. \<not> runs func s' t"
  then have "happens func (Step a) s' = Blocked" for a
    using happens_good [OF run(1), of "Step a"] by (cases "happens func (Step a) s'") (auto simp: runs_def)
  then have b: "\<forall>a. happens func (Step a) s' = Blocked" by blast
  note ended = stuck_ended [OF run(1) b]
  show "pcs s' (Runner i) = Gone" if "pcs s' (Owner i) \<noteq> Absent" for i using ended [OF that] by simp
  show "pcs s' (Owner i) = Returned \<longleftrightarrow> pcs s (Owner i) \<noteq> Ready" if "pcs s' (Owner i) \<noteq> Absent" for i
    using ended [OF that] run(3) [of i] by auto
  have t: "threads_ok func s'" and l: "list_ok s'" using run(1) by (auto simp: cthreads_inv_def)
  have li: "is_linked s' i \<longleftrightarrow> pcs s' (Owner i) = Returned" for i
    using ended [of i] threads_okD(1) [OF t, of i] by (cases "pcs s' (Owner i) = Absent") (auto simp: is_linked_def linked_def thread_ok_def)
  have no: "\<not> holds_list (pcs s' a)" for a
  proof -
    have "pcs s' (Owner i) = Absent \<longleftrightarrow> pcs s' (Runner i) = Absent" for i
      using threads_okD(1) [OF t, of i] unfolding thread_ok_def by blast
    then have "pcs s' (Runner i) \<in> {Absent, Gone}" "pcs s' (Owner i) \<in> {Absent, Ready, Returned}" for i
      using ended [of i] by blast+
    then have "pcs s' a \<in> {Absent, Gone, Ready, Returned}" by (cases a) blast+
    then show ?thesis by auto
  qed
  obtain p xs where xs: "list_head s' p" "chain (stacks s') p xs" "distinct xs" "set xs = {i. is_linked s' i \<and> stacks s' i \<noteq> None}"
    by (rule list_okE [OF l]) (rule that)
  have "p = stack_list s'" using xs(1) list_head_free [OF no] by blast
  then show "\<exists>xs. chain (stacks s') (stack_list s') xs \<and> distinct xs \<and>
      set xs = {i. pcs s' (Owner i) = Returned \<and> stacks s' i \<noteq> None}"
    using xs li by (intro exI [of _ xs]) simp
qed

section \<open>Runs\<close>

fun play :: "(nat \<Rightarrow> body) \<Rightarrow> event list \<Rightarrow> cthreads \<Rightarrow> cthreads option" where
  "play func [] s = Some s"
| "play func (e # es) s = (case happens func e s of Next s' \<Rightarrow> play func es s' | _ \<Rightarrow> None)"

lemma play_reachable: "play func es s = Some s' \<Longrightarrow> cthreads_reachable func s \<Longrightarrow> cthreads_reachable func s'"
proof (induction es arbitrary: s)
  case (Cons e es)
  then obtain u where u: "happens func e s = Next u" "play func es u = Some s'" by (auto split: outcome.splits)
  have "cthread_step func s u" using u(1) unfolding cthread_step_def by blast
  then have "cthreads_reachable func u" by (rule reach_step [OF Cons.prems(2)])
  with Cons.IH u(2) show ?case by blast
qed simp

lemma play_runs: "play func (map Step as) s = Some s' \<Longrightarrow> (runs func ^^ length as) s s'"
proof (induction as arbitrary: s)
  case (Cons a as)
  then obtain u where u: "happens func (Step a) s = Next u" "play func (map Step as) u = Some s'"
    by (auto split: outcome.splits)
  then have "runs func s u" by (auto simp: runs_def)
  then show ?case using Cons.IH [OF u(2)] by (metis length_Cons relpowp_Suc_I2)
qed simp

definition demo_start :: cthreads where
  "demo_start = cthreads_initial (\<lambda>_. \<lparr>returned_code = 0, lock = False, is_finished = False, is_detached = False\<rparr>)"

lemma demo_start_reachable: "cthreads_reachable func demo_start"
  by (auto simp: demo_start_def intro: reach_start)

lemmas cthread_eval = demo_start_def cthreads_initial_def happens_def cthread_create_def goes_def upd_thread_def cthread_runner_def
  cthread_detach_def cthread_join_def kernel_step_def kernel_writes_tid_def spin_lock_def spin_unlock_def destroy_then_def
  cthread_destroy_def cthread_exit_def

definition joined_run :: "event list" where
  "joined_run = [Create 0, Join 0] @ replicate 6 (Step (Runner 0)) @ replicate 6 (Step (Owner 0))"

lemma joined_run_result:
  "\<exists>s. play (\<lambda>_. Exits 5) joined_run demo_start = Some s \<and> pcs s (Owner 0) = Returned \<and> \<not> is_detached (threads s 0) \<and>
    pcs s (Runner 0) = Returned"
  by (simp add: joined_run_def cthread_eval numeral_eq_Suc)

theorem stacks_freed_safely_witness:
  "\<exists>s. play (\<lambda>_. Exits 5) joined_run demo_start = Some s \<and> returned_code (threads s 0) = 5 \<and> stacks s 0 \<noteq> None"
proof -
  obtain s where s: "play (\<lambda>_. Exits 5) joined_run demo_start = Some s" "pcs s (Owner 0) = Returned"
    "\<not> is_detached (threads s 0)" "pcs s (Runner 0) = Returned" using joined_run_result by blast
  show ?thesis
    using stacks_freed_safely [OF play_reachable [OF s(1) demo_start_reachable], of "Create 0" "Owner 0" "Owner 0" 0] s
    by (auto simp: result_of_def)
qed

lemma detached_run_result:
  "\<exists>s s'. play (\<lambda>_. Returns 0) [Create 0, Detach 0] demo_start = Some s \<and>
    play (\<lambda>_. Returns 0) (map Step [Owner 0, Owner 0, Owner 0, Owner 0]) s = Some s' \<and>
    (\<forall>i. i \<notin> {0} \<longrightarrow> pcs s (Owner i) = Absent)"
  by (simp add: cthread_eval)

theorem cthreads_end_witness:
  "\<exists>s s' n. play (\<lambda>_. Returns 0) [Create 0, Detach 0] demo_start = Some s \<and> (runs (\<lambda>_. Returns 0) ^^ n) s s' \<and> n = 4 \<and> n \<le> 25"
proof -
  obtain s s' where s: "play (\<lambda>_. Returns 0) [Create 0, Detach 0] demo_start = Some s"
    "play (\<lambda>_. Returns 0) (map Step [Owner 0, Owner 0, Owner 0, Owner 0]) s = Some s'"
    "\<forall>i. i \<notin> {0} \<longrightarrow> pcs s (Owner i) = Absent"
    using detached_run_result by blast
  have r: "(runs (\<lambda>_. Returns 0) ^^ 4) s s'" using play_runs [OF s(2)] by (simp add: numeral_eq_Suc)
  show ?thesis
    using cthreads_end [OF play_reachable [OF s(1) demo_start_reachable] r _ s(3)] s(1) r by auto
qed

section \<open>The wait of the main thread\<close>

text \<open>When main ends its wait, the threads 1 to 9 have finished; thread 0 is not tested again after
  the first reset of the counter, so main may end before it.\<close>

lemma main_wait_threads:
  assumes mono: "\<And>k i. fin k i \<Longrightarrow> fin (Suc k) i"
    and r: "main_wait fin i k = Some n" and start: "\<forall>j. 1 \<le> j \<longrightarrow> j < i \<longrightarrow> fin k j"
  shows "\<forall>j. 1 \<le> j \<longrightarrow> j < 10 \<longrightarrow> fin n j"
proof -
  have "fin' = fin \<longrightarrow> (\<forall>j. 1 \<le> j \<longrightarrow> j < i \<longrightarrow> fin k j) \<longrightarrow> (\<forall>j. 1 \<le> j \<longrightarrow> j < 10 \<longrightarrow> fin n j)"
    if "main_wait fin' i k = Some n" for fin'
  proof (rule main_wait.raw_induct [OF _ that])
    fix mw fin' i k n
    assume IH: "\<And>fin' i k n. mw fin' i k = Some n \<Longrightarrow>
        fin' = fin \<longrightarrow> (\<forall>j. 1 \<le> j \<longrightarrow> j < i \<longrightarrow> fin k j) \<longrightarrow> (\<forall>j. 1 \<le> j \<longrightarrow> j < 10 \<longrightarrow> fin n j)"
      and b: "(if 10 \<le> i then Some k else if \<not> fin' k i then mw fin' (0 + 1) (k + 1) else mw fin' (i + 1) (k + 1)) = Some n"
    show "fin' = fin \<longrightarrow> (\<forall>j. 1 \<le> j \<longrightarrow> j < i \<longrightarrow> fin k j) \<longrightarrow> (\<forall>j. 1 \<le> j \<longrightarrow> j < 10 \<longrightarrow> fin n j)"
    proof (intro impI)
      assume f: "fin' = fin" and s: "\<forall>j. 1 \<le> j \<longrightarrow> j < i \<longrightarrow> fin k j"
      consider "10 \<le> i" "n = k" | "i < 10" "\<not> fin k i" "mw fin 1 (Suc k) = Some n" | "i < 10" "fin k i" "mw fin (Suc i) (Suc k) = Some n"
        using b f by (auto split: if_splits)
      then show "\<forall>j. 1 \<le> j \<longrightarrow> j < 10 \<longrightarrow> fin n j"
      proof cases
        case 3
        then have "\<forall>j. 1 \<le> j \<longrightarrow> j < Suc i \<longrightarrow> fin (Suc k) j" using s mono by (auto simp: less_Suc_eq)
        then show ?thesis using IH [OF 3(3)] by blast
      qed (use s IH [of fin 1 "Suc k" n] in auto)
    qed
  qed
  then show ?thesis using r start by blast
qed

text \<open>A run in which thread 0 never finishes and main still ends.\<close>

lemma main_may_end_early: "main_wait (\<lambda>k i. 1 \<le> i) 0 0 = Some 10"
  by (simp add: main_wait.simps numeral_eq_Suc)

end
