(* ===== verification/Lecture_Coro.thy ===== *)
theory Lecture_Coro
  imports Coro_Sched
begin

text \<open>
  The scheduler of lecture_examples/4_signals/12_libcoro.c, an earlier version of 1/libcoro.c that does
  not count the switches of a coroutine, and the program 12_libcoro_example.c. The scheduler is
  modelled as in Coro_Sched, in the same order, with the scripts and the outcomes of that theory; forgetting the counters is a
  simulation between the two, so what holds of the one carries over to the other.
\<close>

section \<open>The scheduler\<close>

record coro =
  ret :: int
  ctx :: script
  is_finished :: bool
  c_next :: "ptr option"
  c_prev :: "ptr option"

record sched_state =
  heap :: "ptr \<rightharpoonup> coro"
  malloc_at :: ptr
  is_sched_waiting :: bool
  coro_this_ptr :: "who option"
  coro_list :: "ptr option"
  exited :: bool
  reaped :: "int list"

text \<open>
  The last two fields are what the outside sees: whether the process exited in coro_body, and the
  statuses that the loop around coro_sched_wait in main has printed.
\<close>

section \<open>The list of coroutines\<close>

definition coro_list_add :: "ptr \<Rightarrow> sched_state \<Rightarrow> sched_state option" where
  "coro_list_add c s = do {
     n \<leftarrow> heap s c;
     s \<leftarrow> Some (s\<lparr>heap := (heap s)(c \<mapsto> n\<lparr>c_next := coro_list s, c_prev := None\<rparr>)\<rparr>);
     s \<leftarrow> (case coro_list s of
             None \<Rightarrow> Some s
           | Some q \<Rightarrow> do { m \<leftarrow> heap s q; Some (s\<lparr>heap := (heap s)(q \<mapsto> m\<lparr>c_prev := Some c\<rparr>)\<rparr>) });
     Some (s\<lparr>coro_list := Some c\<rparr>) }"

definition coro_list_delete :: "ptr \<Rightarrow> sched_state \<Rightarrow> sched_state option" where
  "coro_list_delete c s = do {
     n \<leftarrow> heap s c;
     let prev = c_prev n;
     let next = c_next n;
     s \<leftarrow> (case prev of
             None \<Rightarrow> Some s
           | Some p \<Rightarrow> do { m \<leftarrow> heap s p; Some (s\<lparr>heap := (heap s)(p \<mapsto> m\<lparr>c_next := next\<rparr>)\<rparr>) });
     s \<leftarrow> (case next of
             None \<Rightarrow> Some s
           | Some q \<Rightarrow> do { m \<leftarrow> heap s q; Some (s\<lparr>heap := (heap s)(q \<mapsto> m\<lparr>c_prev := prev\<rparr>)\<rparr>) });
     Some (if prev = None then s\<lparr>coro_list := next\<rparr> else s) }"

definition coro_status :: "ptr \<Rightarrow> sched_state \<Rightarrow> int option" where
  "coro_status c s = map_option ret (heap s c)"

definition coro_is_finished :: "ptr \<Rightarrow> sched_state \<Rightarrow> bool option" where
  "coro_is_finished c s = map_option is_finished (heap s c)"

definition coro_delete :: "ptr \<Rightarrow> sched_state \<Rightarrow> sched_state option" where
  "coro_delete c s = do { _ \<leftarrow> heap s c; Some (s\<lparr>heap := (heap s)(c := None)\<rparr>) }"

section \<open>Transfer of control\<close>

text \<open>
  The landing of a siglongjmp, for a jump to another coroutine than the one that saved its
  context last (a coroutine that yields to itself lands where it is): the target sets coro_this_ptr to itself, and the scheduler, which
  only ever jumps away inside coro_sched_wait, clears is_sched_waiting.
\<close>

definition jump_to :: "who \<Rightarrow> sched_state \<Rightarrow> sched_state option" where
  "jump_to target s =
     (case target of
        Sched \<Rightarrow> if is_sched_waiting s
                 then Some (s\<lparr>coro_this_ptr := Some Sched, is_sched_waiting := False\<rparr>) else None
      | Coro c \<Rightarrow> do { n \<leftarrow> heap s c;
                      if is_finished n then None else Some (s\<lparr>coro_this_ptr := Some (Coro c)\<rparr>) })"

definition coro_yield_to :: "who \<Rightarrow> sched_state \<Rightarrow> sched_state option" where
  "coro_yield_to target s = do {
     from_coro \<leftarrow> coro_this_ptr s;
     _ \<leftarrow> (case from_coro of Sched \<Rightarrow> Some () | Coro c \<Rightarrow> map_option (\<lambda>_. ()) (heap s c));
     if target = from_coro then Some (s\<lparr>coro_this_ptr := Some from_coro\<rparr>) else jump_to target s }"

definition coro_yield :: "sched_state \<Rightarrow> sched_state option" where
  "coro_yield s = do {
     from_coro \<leftarrow> coro_this_ptr s;
     next \<leftarrow> (case from_coro of Sched \<Rightarrow> Some None | Coro c \<Rightarrow> map_option c_next (heap s c));
     (case next of None \<Rightarrow> coro_yield_to Sched s | Some c \<Rightarrow> coro_yield_to (Coro c) s) }"

definition coro_sched_init :: "sched_state" where
  "coro_sched_init =
     \<lparr>heap = Map.empty, malloc_at = 0, is_sched_waiting = False,
      coro_this_ptr = Some Sched, coro_list = None, exited = False, reaped = []\<rparr>"

definition coro_this :: "sched_state \<Rightarrow> who option" where
  "coro_this s = coro_this_ptr s"

text \<open>
  The constructor. The detour through the signal handler saves the new coroutine's first context
  and puts coro_this_ptr back, so all that is left is the structure, now in the list.
\<close>

definition coro_new :: "action list \<Rightarrow> int \<Rightarrow> sched_state \<Rightarrow> (ptr \<times> sched_state) option" where
  "coro_new body status s = do {
     c \<leftarrow> Some (malloc_at s);
     s \<leftarrow> Some (s\<lparr>malloc_at := c + 1,
                  heap := (heap s)(c \<mapsto> \<lparr>ret = 0, ctx = (body, status), is_finished = False,
                                        c_next = None, c_prev = None\<rparr>)\<rparr>);
     s \<leftarrow> coro_list_add c s;
     Some (c, s) }"

text \<open>The end of coro_body: the function has returned the status v.\<close>

definition coro_finish :: "ptr \<Rightarrow> int \<Rightarrow> sched_state \<Rightarrow> sched_state option" where
  "coro_finish c v s = do {
     n \<leftarrow> heap s c;
     s \<leftarrow> Some (s\<lparr>heap := (heap s)(c \<mapsto> n\<lparr>ret := v, is_finished := True\<rparr>)\<rparr>);
     if \<not> is_sched_waiting s then Some (s\<lparr>exited := True\<rparr>) else jump_to Sched s }"

text \<open>One move of the running coroutine: the next call its function makes.\<close>

definition coro_body_step :: "ptr \<Rightarrow> sched_state \<Rightarrow> sched_state option" where
  "coro_body_step c s = do {
     n \<leftarrow> heap s c;
     (case ctx n of
        ([], v) \<Rightarrow> coro_finish c v s
      | (Do_Yield # rest, v) \<Rightarrow> coro_yield (s\<lparr>heap := (heap s)(c \<mapsto> n\<lparr>ctx := (rest, v)\<rparr>)\<rparr>)
      | (Do_New body status # rest, v) \<Rightarrow>
          map_option snd (coro_new body status (s\<lparr>heap := (heap s)(c \<mapsto> n\<lparr>ctx := (rest, v)\<rparr>)\<rparr>))) }"

section \<open>Waiting for a coroutine\<close>

partial_function (option) find_finished :: "(ptr \<rightharpoonup> coro) \<Rightarrow> ptr option \<Rightarrow> ptr option option" where
  "find_finished h p =
     (case p of
        None \<Rightarrow> Some None
      | Some c \<Rightarrow> do { n \<leftarrow> h c; if is_finished n then Some (Some c) else find_finished h (c_next n) })"

text \<open>One round of the loop of coro_sched_wait; after Switched_Away the loop goes on when control is back.\<close>

definition coro_sched_wait_round :: "sched_state \<Rightarrow> (wait_outcome \<times> sched_state) option" where
  "coro_sched_wait_round s =
     (case coro_list s of
        None \<Rightarrow> Some (Returned_NULL, s)
      | Some first \<Rightarrow> do {
          found \<leftarrow> find_finished (heap s) (Some first);
          (case found of
             Some c \<Rightarrow> do { s \<leftarrow> coro_list_delete c s; Some (Returned c, s) }
           | None \<Rightarrow> do { s \<leftarrow> coro_yield_to (Coro first) (s\<lparr>is_sched_waiting := True\<rparr>);
                         Some (Switched_Away, s) }) })"

text \<open>
  The loop of main: wait for a coroutine, print its status, delete it; over when
  coro_sched_wait returns NULL.
\<close>

definition main_round :: "sched_state \<Rightarrow> (bool \<times> sched_state) option" where
  "main_round s = do {
     (out, s) \<leftarrow> coro_sched_wait_round s;
     (case out of
        Returned_NULL \<Rightarrow> Some (False, s)
      | Switched_Away \<Rightarrow> Some (True, s)
      | Returned c \<Rightarrow> do {
          v \<leftarrow> coro_status c s;
          s \<leftarrow> coro_delete c (s\<lparr>reaped := reaped s @ [v]\<rparr>);
          Some (True, s) }) }"

text \<open>One step of the process, whoever is running; False when the loop of main is over.\<close>

definition process_step :: "sched_state \<Rightarrow> (bool \<times> sched_state) option" where
  "process_step s = do {
     running \<leftarrow> coro_this_ptr s;
     (case running of
        Sched \<Rightarrow> main_round s
      | Coro c \<Rightarrow> map_option (\<lambda>s. (True, s)) (coro_body_step c s)) }"

partial_function (option) run_process :: "sched_state \<Rightarrow> sched_state option" where
  "run_process s = do {
     (more, s) \<leftarrow> process_step s;
     if more then run_process s else Some s }"

section \<open>The simulation\<close>

text \<open>The coroutine and the state without the counters.\<close>

definition erase :: "Coro_Sched.coro \<Rightarrow> coro" where
  "erase n = \<lparr>ret = Coro_Sched.ret n, ctx = Coro_Sched.ctx n, is_finished = Coro_Sched.is_finished n,
     c_next = Coro_Sched.c_next n, c_prev = Coro_Sched.c_prev n\<rparr>"

definition erase_heap :: "(ptr \<rightharpoonup> Coro_Sched.coro) \<Rightarrow> (ptr \<rightharpoonup> coro)" where
  "erase_heap h p = map_option erase (h p)"

definition erase_state :: "Coro_Sched.sched_state \<Rightarrow> sched_state" where
  "erase_state s = \<lparr>heap = erase_heap (Coro_Sched.heap s), malloc_at = Coro_Sched.malloc_at s,
     is_sched_waiting = Coro_Sched.is_sched_waiting s, coro_this_ptr = Coro_Sched.coro_this_ptr s,
     coro_list = Coro_Sched.coro_list s, exited = Coro_Sched.exited s, reaped = Coro_Sched.reaped s\<rparr>"

lemma erase_fields [simp]:
  "ret (erase n) = Coro_Sched.ret n" "ctx (erase n) = Coro_Sched.ctx n" "is_finished (erase n) = Coro_Sched.is_finished n"
  "c_next (erase n) = Coro_Sched.c_next n" "c_prev (erase n) = Coro_Sched.c_prev n"
  by (simp_all add: erase_def)

lemma erase_updates [simp]:
  "erase (n\<lparr>Coro_Sched.ret := v\<rparr>) = (erase n)\<lparr>ret := v\<rparr>" "erase (n\<lparr>Coro_Sched.ctx := k\<rparr>) = (erase n)\<lparr>ctx := k\<rparr>"
  "erase (n\<lparr>Coro_Sched.is_finished := b\<rparr>) = (erase n)\<lparr>is_finished := b\<rparr>"
  "erase (n\<lparr>Coro_Sched.c_next := p\<rparr>) = (erase n)\<lparr>c_next := p\<rparr>" "erase (n\<lparr>Coro_Sched.c_prev := p\<rparr>) = (erase n)\<lparr>c_prev := p\<rparr>"
  "erase (n\<lparr>Coro_Sched.switch_count := i\<rparr>) = erase n"
  by (simp_all add: erase_def)

lemma erase_state_fields [simp]:
  "heap (erase_state s) = erase_heap (Coro_Sched.heap s)" "malloc_at (erase_state s) = Coro_Sched.malloc_at s"
  "is_sched_waiting (erase_state s) = Coro_Sched.is_sched_waiting s" "coro_this_ptr (erase_state s) = Coro_Sched.coro_this_ptr s"
  "coro_list (erase_state s) = Coro_Sched.coro_list s" "exited (erase_state s) = Coro_Sched.exited s"
  "reaped (erase_state s) = Coro_Sched.reaped s"
  by (simp_all add: erase_state_def)

lemma erase_state_updates [simp]:
  "erase_state (s\<lparr>Coro_Sched.heap := h\<rparr>) = (erase_state s)\<lparr>heap := erase_heap h\<rparr>"
  "erase_state (s\<lparr>Coro_Sched.malloc_at := p\<rparr>) = (erase_state s)\<lparr>malloc_at := p\<rparr>"
  "erase_state (s\<lparr>Coro_Sched.is_sched_waiting := b\<rparr>) = (erase_state s)\<lparr>is_sched_waiting := b\<rparr>"
  "erase_state (s\<lparr>Coro_Sched.coro_this_ptr := w\<rparr>) = (erase_state s)\<lparr>coro_this_ptr := w\<rparr>"
  "erase_state (s\<lparr>Coro_Sched.coro_list := q\<rparr>) = (erase_state s)\<lparr>coro_list := q\<rparr>"
  "erase_state (s\<lparr>Coro_Sched.exited := b\<rparr>) = (erase_state s)\<lparr>exited := b\<rparr>"
  "erase_state (s\<lparr>Coro_Sched.reaped := vs\<rparr>) = (erase_state s)\<lparr>reaped := vs\<rparr>"
  "erase_state (s\<lparr>Coro_Sched.sched_switch_count := i\<rparr>) = erase_state s"
  by (simp_all add: erase_state_def)

lemma erase_heap_simps [simp]:
  "erase_heap h p = map_option erase (h p)" "erase_heap (h(c := v)) = (erase_heap h)(c := map_option erase v)"
  "erase_heap Map.empty = Map.empty"
  by (simp_all add: erase_heap_def fun_eq_iff)

named_theorems erases "an operation commutes with the erasure"

lemma list_add_erases [erases]:
  "coro_list_add c (erase_state s) = map_option erase_state (Coro_Sched.coro_list_add c s)"
  by (simp add: coro_list_add_def Coro_Sched.coro_list_add_def Option.bind_map_option split: Option.bind_split option.splits)

lemma list_delete_erases [erases]:
  "coro_list_delete c (erase_state s) = map_option erase_state (Coro_Sched.coro_list_delete c s)"
  by (auto simp: coro_list_delete_def Coro_Sched.coro_list_delete_def Let_def split: Option.bind_split option.splits)

lemma delete_erases [erases]: "coro_delete c (erase_state s) = map_option erase_state (Coro_Sched.coro_delete c s)"
  by (simp add: coro_delete_def Coro_Sched.coro_delete_def split: Option.bind_split)

lemma status_erases [erases]: "coro_status c (erase_state s) = Coro_Sched.coro_status c s"
  "coro_is_finished c (erase_state s) = Coro_Sched.coro_is_finished c s" "coro_this (erase_state s) = Coro_Sched.coro_this s"
  by (simp_all add: coro_status_def Coro_Sched.coro_status_def coro_is_finished_def Coro_Sched.coro_is_finished_def
      coro_this_def Coro_Sched.coro_this_def option.map_comp comp_def)

lemma jump_erases [erases]: "jump_to w (erase_state s) = map_option erase_state (Coro_Sched.jump_to w s)"
  by (cases w) (auto simp: jump_to_def Coro_Sched.jump_to_def split: Option.bind_split)

lemma counted_erases:
  "Coro_Sched.heap s c = Some n \<Longrightarrow> erase_state (s\<lparr>Coro_Sched.heap := (Coro_Sched.heap s)(c \<mapsto> n\<lparr>Coro_Sched.switch_count := k\<rparr>)\<rparr>) = erase_state s"
  by (simp add: erase_state_def fun_upd_idem)

lemma yield_to_erases [erases]: "coro_yield_to w (erase_state s) = map_option erase_state (Coro_Sched.coro_yield_to w s)"
proof (cases "Coro_Sched.coro_this_ptr s")
  case (Some running)
  show ?thesis
  proof (cases running)
    case Sched
    show ?thesis using jump_erases [of w "s\<lparr>Coro_Sched.sched_switch_count := Coro_Sched.sched_switch_count s + 1\<rparr>"]
      by (simp add: coro_yield_to_def Coro_Sched.coro_yield_to_def Some Sched)
  next
    case (Coro c)
    show ?thesis
    proof (cases "Coro_Sched.heap s c")
      case (Some n)
      define u where "u = s\<lparr>Coro_Sched.heap := (Coro_Sched.heap s)(c \<mapsto> n\<lparr>Coro_Sched.switch_count := Coro_Sched.switch_count n + 1\<rparr>)\<rparr>"
      have u: "erase_state u = erase_state s" unfolding u_def by (rule counted_erases [OF Some])
      show ?thesis using jump_erases [of w u]
        by (simp add: coro_yield_to_def Coro_Sched.coro_yield_to_def \<open>Coro_Sched.coro_this_ptr s = Some running\<close> Coro Some u_def [symmetric] u)
    qed (simp add: coro_yield_to_def Coro_Sched.coro_yield_to_def Some Coro)
  qed
qed (simp add: coro_yield_to_def Coro_Sched.coro_yield_to_def)

lemma yield_erases [erases]: "coro_yield (erase_state s) = map_option erase_state (Coro_Sched.coro_yield s)"
  by (auto simp: coro_yield_def Coro_Sched.coro_yield_def erases split: Option.bind_split option.splits who.splits)

lemma init_erases [erases]: "coro_sched_init = erase_state Coro_Sched.coro_sched_init"
  by (simp add: coro_sched_init_def Coro_Sched.coro_sched_init_def erase_state_def)

lemma new_erases [erases]: "coro_new body v (erase_state s) = map_option (\<lambda>(c, s). (c, erase_state s)) (Coro_Sched.coro_new body v s)"
proof -
  define n where "n = \<lparr>Coro_Sched.coro.ret = 0, ctx = (body, v), is_finished = False, switch_count = 0, c_next = None, c_prev = None\<rparr>"
  define u where "u = s\<lparr>Coro_Sched.malloc_at := Coro_Sched.malloc_at s + 1, Coro_Sched.heap := (Coro_Sched.heap s)(Coro_Sched.malloc_at s \<mapsto> n)\<rparr>"
  have "erase n = \<lparr>ret = 0, ctx = (body, v), is_finished = False, c_next = None, c_prev = None\<rparr>" by (simp add: erase_def n_def)
  then have "coro_new body v (erase_state s) =
      Option.bind (coro_list_add (Coro_Sched.malloc_at s) (erase_state u)) (\<lambda>t. Some (Coro_Sched.malloc_at s, t))"
    by (simp add: coro_new_def u_def)
  moreover have "Coro_Sched.coro_new body v s =
      Option.bind (Coro_Sched.coro_list_add (Coro_Sched.malloc_at s) u) (\<lambda>t. Some (Coro_Sched.malloc_at s, t))"
    by (simp add: Coro_Sched.coro_new_def u_def n_def)
  ultimately show ?thesis by (simp add: list_add_erases split: Option.bind_split)
qed

lemma finish_erases [erases]: "coro_finish c v (erase_state s) = map_option erase_state (Coro_Sched.coro_finish c v s)"
proof (cases "Coro_Sched.heap s c")
  case (Some n)
  define u where "u = s\<lparr>Coro_Sched.heap := (Coro_Sched.heap s)(c \<mapsto> n\<lparr>Coro_Sched.ret := v, Coro_Sched.is_finished := True\<rparr>)\<rparr>"
  have "coro_finish c v (erase_state s) = (if \<not> is_sched_waiting (erase_state u) then Some ((erase_state u)\<lparr>exited := True\<rparr>) else jump_to Sched (erase_state u))"
    by (simp add: coro_finish_def Some u_def)
  moreover have "Coro_Sched.coro_finish c v s = (if \<not> Coro_Sched.is_sched_waiting u then Some (u\<lparr>Coro_Sched.exited := True\<rparr>) else Coro_Sched.jump_to Sched u)"
    by (simp add: Coro_Sched.coro_finish_def Some u_def)
  ultimately show ?thesis by (simp add: jump_erases)
qed (simp add: coro_finish_def Coro_Sched.coro_finish_def)

lemma body_erases [erases]: "coro_body_step c (erase_state s) = map_option erase_state (Coro_Sched.coro_body_step c s)"
proof (cases "Coro_Sched.heap s c")
  case (Some n)
  define u where "u k = s\<lparr>Coro_Sched.heap := (Coro_Sched.heap s)(c \<mapsto> n\<lparr>Coro_Sched.ctx := k\<rparr>)\<rparr>" for k
  have u: "(erase_state s)\<lparr>heap := (erase_heap (Coro_Sched.heap s))(c \<mapsto> (erase n)\<lparr>ctx := k\<rparr>)\<rparr> = erase_state (u k)" for k
    by (simp add: u_def)
  obtain as v where k: "Coro_Sched.ctx n = (as, v)" by force
  show ?thesis
  proof (cases as)
    case Nil
    then show ?thesis by (simp add: coro_body_step_def Coro_Sched.coro_body_step_def Some k finish_erases)
  next
    case (Cons act rest)
    then show ?thesis
      by (cases act) (simp_all add: coro_body_step_def Coro_Sched.coro_body_step_def Some k u u_def [symmetric] erases option.map_comp comp_def case_prod_beta)
  qed
qed (simp add: coro_body_step_def Coro_Sched.coro_body_step_def)

lemma find_erases: "find_finished (erase_heap h) p = Coro_Sched.find_finished h p"
proof -
  have 1: "find_finished (erase_heap h) p = Some r" if "Coro_Sched.find_finished h p = Some r" for r
  proof (rule Coro_Sched.find_finished.raw_induct [OF _ that])
    fix find h p r
    assume IH: "\<And>h p r. find h p = Some r \<Longrightarrow> find_finished (erase_heap h) p = Some r"
      and r: "(case p of None \<Rightarrow> Some None
        | Some c \<Rightarrow> h c \<bind> (\<lambda>n. if Coro_Sched.is_finished n then Some (Some c) else find h (Coro_Sched.c_next n))) = Some r"
    then show "find_finished (erase_heap h) p = Some r"
      by (subst find_finished.simps) (auto simp: bind_eq_Some_conv split: option.splits if_splits)
  qed
  have 2: "\<forall>h. g = erase_heap h \<longrightarrow> Coro_Sched.find_finished h p = Some r" if "find_finished g p = Some r" for g r
  proof (rule find_finished.raw_induct [OF _ that])
    fix find g p r
    assume IH: "\<And>g p r. find g p = Some r \<Longrightarrow> \<forall>h. g = erase_heap h \<longrightarrow> Coro_Sched.find_finished h p = Some r"
      and r: "(case p of None \<Rightarrow> Some None
        | Some c \<Rightarrow> g c \<bind> (\<lambda>n. if is_finished n then Some (Some c) else find g (c_next n))) = Some r"
    then show "\<forall>h. g = erase_heap h \<longrightarrow> Coro_Sched.find_finished h p = Some r"
      by (intro allI impI, subst Coro_Sched.find_finished.simps) (auto simp: bind_eq_Some_conv split: option.splits if_splits)
  qed
  show ?thesis
    using 1 2 [of "erase_heap h"] by (cases "find_finished (erase_heap h) p"; cases "Coro_Sched.find_finished h p") auto
qed

lemma wait_erases [erases]:
  "coro_sched_wait_round (erase_state s) = map_option (\<lambda>(out, s). (out, erase_state s)) (Coro_Sched.coro_sched_wait_round s)"
proof (cases "Coro_Sched.coro_list s")
  case (Some first)
  show ?thesis
  proof (cases "Coro_Sched.find_finished (Coro_Sched.heap s) (Some first)")
    case (Some found)
    note f = \<open>Coro_Sched.coro_list s = Some first\<close> Some
    show ?thesis
    proof (cases found)
      case None
      have "(erase_state s)\<lparr>is_sched_waiting := True\<rparr> = erase_state (s\<lparr>Coro_Sched.is_sched_waiting := True\<rparr>)" by simp
      then show ?thesis
        by (simp only: coro_sched_wait_round_def Coro_Sched.coro_sched_wait_round_def erase_state_fields f find_erases yield_to_erases None
            bind.simps option.case) (simp split: Option.bind_split)
    next
      case (Some c)
      then show ?thesis
        by (simp add: coro_sched_wait_round_def Coro_Sched.coro_sched_wait_round_def f find_erases erases split: Option.bind_split)
    qed
  qed (simp add: coro_sched_wait_round_def Coro_Sched.coro_sched_wait_round_def Some find_erases)
qed (simp add: coro_sched_wait_round_def Coro_Sched.coro_sched_wait_round_def)

lemma main_round_erases [erases]:
  "main_round (erase_state s) = map_option (\<lambda>(more, s). (more, erase_state s)) (Coro_Sched.main_round s)"
proof (cases "Coro_Sched.coro_sched_wait_round s")
  case (Some r)
  obtain out t where r: "r = (out, t)" by force
  show ?thesis
  proof (cases out)
    case (Returned c)
    have "(erase_state t)\<lparr>reaped := vs\<rparr> = erase_state (t\<lparr>Coro_Sched.reaped := vs\<rparr>)" for vs by simp
    then show ?thesis
      by (simp only: main_round_def Coro_Sched.main_round_def wait_erases Some r Returned delete_erases status_erases erase_state_fields
          option.map prod.case bind.simps wait_outcome.case)
        (simp split: Option.bind_split)
  qed (simp_all add: main_round_def Coro_Sched.main_round_def wait_erases Some r)
qed (simp add: main_round_def Coro_Sched.main_round_def wait_erases)

lemma process_step_erases [erases]:
  "process_step (erase_state s) = map_option (\<lambda>(more, s). (more, erase_state s)) (Coro_Sched.process_step s)"
  by (auto simp: process_step_def Coro_Sched.process_step_def erases option.map_comp comp_def split: Option.bind_split who.splits)

lemma run_erases [erases]: "run_process (erase_state s) = map_option erase_state (Coro_Sched.run_process s)"
proof -
  have 1: "run_process (erase_state s) = Some (erase_state t)" if "Coro_Sched.run_process s = Some t" for t
  proof (rule Coro_Sched.run_process.raw_induct [OF _ that])
    fix run s t
    assume IH: "\<And>s t. run s = Some t \<Longrightarrow> run_process (erase_state s) = Some (erase_state t)"
      and r: "Coro_Sched.process_step s \<bind> (\<lambda>(more, s). if more then run s else Some s) = Some t"
    then show "run_process (erase_state s) = Some (erase_state t)"
      by (subst run_process.simps) (auto simp: process_step_erases bind_eq_Some_conv split: if_splits)
  qed
  have 2: "\<forall>s. u = erase_state s \<longrightarrow> (\<exists>t. Coro_Sched.run_process s = Some t \<and> v = erase_state t)" if "run_process u = Some v" for u v
  proof (rule run_process.raw_induct [OF _ that])
    fix run u v
    assume IH: "\<And>u v. run u = Some v \<Longrightarrow> \<forall>s. u = erase_state s \<longrightarrow> (\<exists>t. Coro_Sched.run_process s = Some t \<and> v = erase_state t)"
      and r: "process_step u \<bind> (\<lambda>(more, s). if more then run s else Some s) = Some v"
    show "\<forall>s. u = erase_state s \<longrightarrow> (\<exists>t. Coro_Sched.run_process s = Some t \<and> v = erase_state t)"
    proof (intro allI impI)
      fix s assume u: "u = erase_state s"
      obtain more w where w: "Coro_Sched.process_step s = Some (more, w)" "(if more then run (erase_state w) else Some (erase_state w)) = Some v"
        using r by (auto simp: u process_step_erases bind_eq_Some_conv)
      then show "\<exists>t. Coro_Sched.run_process s = Some t \<and> v = erase_state t"
        using IH by (subst Coro_Sched.run_process.simps) (auto split: if_splits)
    qed
  qed
  show ?thesis
    using 1 2 [of "erase_state s"] by (cases "run_process (erase_state s)"; cases "Coro_Sched.run_process s") auto
qed

section \<open>The example\<close>

text \<open>The functions of the coroutines of 12_libcoro_example.c, as far as the scheduler sees them.\<close>

function recursive :: "nat \<Rightarrow> action list" where
  "recursive deep = Do_Yield # (if deep < 2 then recursive (deep + 1) else [])"
  by pat_completeness auto
termination by (relation "measure (\<lambda>deep. 2 - deep)") auto

definition coro_func :: "int \<Rightarrow> script" where
  "coro_func ident = (Do_Yield # recursive 0, ident)"

function coro_tree_func :: "int \<Rightarrow> script" where
  "coro_tree_func ident =
     ([Do_Yield] @ (if ident > 1 then [] else [case coro_tree_func (ident + 1) of (body, v) \<Rightarrow> Do_New body v]) @ [Do_Yield], ident)"
  by pat_completeness auto
termination by (relation "measure (\<lambda>ident. nat (2 - ident))") auto

declare recursive.simps [simp del] coro_tree_func.simps [simp del]

fun coro_new_all :: "script list \<Rightarrow> sched_state \<Rightarrow> sched_state option" where
  "coro_new_all [] s = Some s"
| "coro_new_all ((body, v) # scripts) s = do { (_, s) \<leftarrow> coro_new body v s; coro_new_all scripts s }"

definition coro_count :: int where "coro_count = 3"

definition example_main :: "sched_state option" where
  "example_main = do {
     s \<leftarrow> coro_new_all (map coro_func [0..coro_count - 1]) coro_sched_init;
     s \<leftarrow> run_process s;
     s \<leftarrow> coro_new_all [coro_tree_func 0] s;
     run_process s }"

lemma new_all_erases [erases]: "coro_new_all scripts (erase_state s) = map_option erase_state (Coro_Sched.coro_new_all scripts s)"
proof (induction scripts arbitrary: s)
  case (Cons sc scripts)
  then show ?case by (cases sc) (auto simp: erases split: Option.bind_split)
qed simp

lemma example_scripts:
  "map coro_func [0..coro_count - 1] = [(replicate 4 Do_Yield, 0), (replicate 4 Do_Yield, 1), (replicate 4 Do_Yield, 2)]"
  "coro_tree_func 0 = ([Do_Yield, Do_New [Do_Yield, Do_New [Do_Yield, Do_Yield] 2, Do_Yield] 1, Do_Yield], 0)"
  by (simp_all add: coro_count_def coro_func_def upto.simps recursive.simps coro_tree_func.simps eval_nat_numeral)

fun run_steps :: "nat \<Rightarrow> sched_state \<Rightarrow> sched_state option" where
  "run_steps 0 s = None"
| "run_steps (Suc k) s = (case process_step s of None \<Rightarrow> None | Some (again, s) \<Rightarrow> if again then run_steps k s else Some s)"

lemma run_steps_run: "run_steps k s = Some t \<Longrightarrow> run_process s = Some t"
proof (induction k arbitrary: s)
  case (Suc k)
  then show ?case by (subst run_process.simps) (auto split: option.splits if_splits)
qed simp

lemma find_finished_Some:
  "find_finished h None = Some None"
  "find_finished h (Some c) = (case h c of None \<Rightarrow> None | Some n \<Rightarrow> if is_finished n then Some (Some c) else find_finished h (c_next n))"
  by (subst find_finished.simps, simp split: option.split)+

lemmas sched_eval = coro_new_def coro_list_add_def coro_list_delete_def coro_status_def coro_delete_def coro_yield_def coro_yield_to_def
  jump_to_def coro_finish_def coro_body_step_def coro_sched_wait_round_def main_round_def process_step_def coro_sched_init_def
  find_finished_Some

definition between_phases :: sched_state where
  "between_phases = \<lparr>heap = Map.empty, malloc_at = 3, is_sched_waiting = False, coro_this_ptr = Some Sched,
     coro_list = None, exited = False, reaped = [2, 1, 0]\<rparr>"

lemma first_phase:
  "Option.bind (coro_new_all (map coro_func [0..coro_count - 1]) coro_sched_init) (run_steps 40) = Some between_phases"
  by (simp add: example_scripts sched_eval Let_def numeral_eq_Suc between_phases_def fun_eq_iff)

lemma second_phase:
  "map_option reaped (Option.bind (coro_new_all [coro_tree_func 0] between_phases) (run_steps 40)) = Some [2, 1, 0, 0, 1, 2]"
  by (simp add: example_scripts sched_eval Let_def numeral_eq_Suc between_phases_def fun_eq_iff)

text \<open>The statuses that the example prints: the three simple coroutines, the last created first, then the
  chain, the first first.\<close>

theorem example_output: "map_option reaped example_main = Some [2, 1, 0, 0, 1, 2]"
proof -
  obtain s where s: "coro_new_all (map coro_func [0..coro_count - 1]) coro_sched_init = Some s" "run_process s = Some between_phases"
    using first_phase run_steps_run by (auto simp: bind_eq_Some_conv)
  obtain t u where "coro_new_all [coro_tree_func 0] between_phases = Some t" "run_process t = Some u" "reaped u = [2, 1, 0, 0, 1, 2]"
    using second_phase run_steps_run by (auto simp: bind_eq_Some_conv simp del: coro_new_all.simps)
  then show ?thesis using s by (simp add: example_main_def del: coro_new_all.simps)
qed

section \<open>Equivalence\<close>

text \<open>C29: The scheduler of the lecture and the one of the homework do the same, apart from the
  counters: on all scripts they both end, with the same state and the same statuses in the same order.\<close>

theorem schedulers_agree:
  "\<exists>s t. Coro_Sched.coro_new_all scripts Coro_Sched.coro_sched_init = Some s \<and> Coro_Sched.run_process s = Some t \<and>
     coro_new_all scripts coro_sched_init = Some (erase_state s) \<and> run_process (erase_state s) = Some (erase_state t) \<and>
     reaped (erase_state t) = Coro_Sched.reaped t \<and> mset (reaped (erase_state t)) = (\<Sum>sc\<leftarrow>scripts. script_owed sc) \<and>
     heap (erase_state t) = Map.empty"
proof -
  obtain s t where "Coro_Sched.coro_new_all scripts Coro_Sched.coro_sched_init = Some s" "Coro_Sched.run_process s = Some t"
    "Coro_Sched.heap t = Map.empty" "mset (Coro_Sched.reaped t) = (\<Sum>sc\<leftarrow>scripts. script_owed sc)"
    using all_scripts_end by blast
  then show ?thesis by (auto simp: erases)
qed

end
