(* ===== verification/Locks.thy ===== *)
theory Locks
  imports Prelude
begin

text \<open>
  The counting programs of lecture_examples/6_threads: threads that each add one to a shared counter many
  times, with no protection (4_not_atomic.c), with an atomic addition (5_atomic.c), with a futex
  (8_futex.c) and with a spin lock (8_6_spinlock_acq_rel.c, in both of its variants). A step is one
  access of the shared memory, which is sequentially consistent; counter = counter + 1 is a read
  and a write. Threads are numbered from 0, and only those below the number of threads run. The
  counters stay below 2 ^ 31: the programs count to at most 60000000.
\<close>

section \<open>A lock as the threads see it\<close>

text \<open>
  The state of the lock, and where a thread is inside a call of lock or unlock. A step of a call
  gives the new state and the next place, or None when the call returns; a call that cannot go on
  has no step.
\<close>

record ('l, 'p) lock_ops =
  lock_init :: 'l
  lock_start :: 'p
  lock_step :: "nat \<Rightarrow> 'p \<Rightarrow> 'l \<Rightarrow> ('p option \<times> 'l) option"
  unlock_start :: 'p
  unlock_step :: "nat \<Rightarrow> 'p \<Rightarrow> 'l \<Rightarrow> ('p option \<times> 'l) option"

section \<open>The threads\<close>

text \<open>Before the test of the loop, inside lock, before the read, before the write, inside unlock.\<close>

datatype 'p thread_pc = Looping | Locking 'p | Reading | Writing int | Unlocking 'p

record ('l, 'p) counting =
  the_lock :: 'l
  counter :: int
  pc :: "nat \<Rightarrow> 'p thread_pc"
  left :: "nat \<Rightarrow> nat"

definition set_pc :: "nat \<Rightarrow> 'p thread_pc \<Rightarrow> ('l, 'p) counting \<Rightarrow> ('l, 'p) counting" where
  "set_pc i p s = s\<lparr>pc := (pc s)(i := p)\<rparr>"

definition counting_start :: "('l, 'p) lock_ops \<Rightarrow> nat \<Rightarrow> ('l, 'p) counting" where
  "counting_start ops rounds = \<lparr>the_lock = lock_init ops, counter = 0, pc = \<lambda>_. Looping, left = \<lambda>_. rounds\<rparr>"

definition thread_f :: "('l, 'p) lock_ops \<Rightarrow> nat \<Rightarrow> ('l, 'p) counting \<Rightarrow> ('l, 'p) counting option" where
  "thread_f ops i s = (case pc s i of
     Looping \<Rightarrow> if left s i = 0 then None else Some (set_pc i (Locking (lock_start ops)) s)
   | Locking p \<Rightarrow> (case lock_step ops i p (the_lock s) of
         None \<Rightarrow> None
       | Some (r, l) \<Rightarrow> Some (set_pc i (case r of None \<Rightarrow> Reading | Some p \<Rightarrow> Locking p) (s\<lparr>the_lock := l\<rparr>)))
   | Reading \<Rightarrow> Some (set_pc i (Writing (counter s)) s)
   | Writing v \<Rightarrow> Some (set_pc i (Unlocking (unlock_start ops)) (s\<lparr>counter := v + 1\<rparr>))
   | Unlocking p \<Rightarrow> (case unlock_step ops i p (the_lock s) of
         None \<Rightarrow> None
       | Some (None, l) \<Rightarrow> Some (set_pc i Looping (s\<lparr>the_lock := l, left := (left s)(i := left s i - 1)\<rparr>))
       | Some (Some p, l) \<Rightarrow> Some (set_pc i (Unlocking p) (s\<lparr>the_lock := l\<rparr>))))"

definition counting_step :: "('l, 'p) lock_ops \<Rightarrow> nat \<Rightarrow> ('l, 'p) counting \<Rightarrow> ('l, 'p) counting \<Rightarrow> bool" where
  "counting_step ops threads s s' \<longleftrightarrow> (\<exists>i < threads. thread_f ops i s = Some s')"

section \<open>The locks\<close>

text \<open>8_6_spinlock_acq_rel.c: test-and-set with acquire, clear with release.\<close>

definition spin_lock :: "bool \<Rightarrow> unit option \<times> bool" where
  "spin_lock lock = (if lock then (Some (), True) else (None, True))"

definition spin_unlock :: "bool \<Rightarrow> unit option \<times> bool" where
  "spin_unlock lock = (None, False)"

definition spin_ops :: "(bool, unit) lock_ops" where
  "spin_ops = \<lparr>lock_init = False, lock_start = (), lock_step = \<lambda>_ _ l. Some (spin_lock l),
     unlock_start = (), unlock_step = \<lambda>_ _ l. Some (spin_unlock l)\<rparr>"

text \<open>The variant with full barriers: compare-and-swap in both.\<close>

definition cas :: "'v \<Rightarrow> 'v \<Rightarrow> 'v \<Rightarrow> bool \<times> 'v" where
  "cas old new v = (if v = old then (True, new) else (False, v))"

definition cas_spin_lock :: "bool \<Rightarrow> unit option \<times> bool" where
  "cas_spin_lock lock = (case cas False True lock of (swapped, l) \<Rightarrow> (if swapped then None else Some (), l))"

definition cas_spin_unlock :: "bool \<Rightarrow> unit option \<times> bool" where
  "cas_spin_unlock lock = (None, snd (cas True False lock))"

definition cas_ops :: "(bool, unit) lock_ops" where
  "cas_ops = \<lparr>lock_init = False, lock_start = (), lock_step = \<lambda>_ _ l. Some (cas_spin_lock l),
     unlock_start = (), unlock_step = \<lambda>_ _ l. Some (cas_spin_unlock l)\<rparr>"

text \<open>
  8_futex.c. The kernel keeps the threads that sleep on the futex; FUTEX_WAIT puts the caller to
  sleep if the futex still has the value, in one step, and FUTEX_WAKE wakes one sleeper, which the
  argument wakes picks.
\<close>

record futex =
  futex_val :: int
  sleepers :: "nat list"

datatype futex_pc = F_swap | F_wait | F_asleep | F_release | F_wake

definition futex_wait :: "nat \<Rightarrow> int \<Rightarrow> futex \<Rightarrow> futex_pc \<times> futex" where
  "futex_wait i val f = (if futex_val f = val then (F_asleep, f\<lparr>sleepers := sleepers f @ [i]\<rparr>) else (F_swap, f))"

definition futex_wake :: "(nat list \<Rightarrow> nat) \<Rightarrow> futex \<Rightarrow> futex" where
  "futex_wake wakes f = (if sleepers f = [] then f else f\<lparr>sleepers := remove1 (wakes (sleepers f)) (sleepers f)\<rparr>)"

definition futex_lock :: "nat \<Rightarrow> futex_pc \<Rightarrow> futex \<Rightarrow> (futex_pc option \<times> futex) option" where
  "futex_lock i p f = (case p of
     F_swap \<Rightarrow> if futex_val f = 0 then Some (None, f\<lparr>futex_val := 1\<rparr>) else Some (Some F_wait, f)
   | F_wait \<Rightarrow> (case futex_wait i 1 f of (q, f) \<Rightarrow> Some (Some q, f))
   | F_asleep \<Rightarrow> if i \<in> set (sleepers f) then None else Some (Some F_swap, f)
   | _ \<Rightarrow> None)"

definition futex_unlock :: "(nat list \<Rightarrow> nat) \<Rightarrow> futex_pc \<Rightarrow> futex \<Rightarrow> (futex_pc option \<times> futex) option" where
  "futex_unlock wakes p f = (case p of
     F_release \<Rightarrow> Some (Some F_wake, f\<lparr>futex_val := snd (cas 1 0 (futex_val f))\<rparr>)
   | F_wake \<Rightarrow> Some (None, futex_wake wakes f)
   | _ \<Rightarrow> None)"

definition futex_ops :: "(nat list \<Rightarrow> nat) \<Rightarrow> (futex, futex_pc) lock_ops" where
  "futex_ops wakes = \<lparr>lock_init = \<lparr>futex_val = 0, sleepers = []\<rparr>, lock_start = F_swap, lock_step = futex_lock,
     unlock_start = F_release, unlock_step = \<lambda>_. futex_unlock wakes\<rparr>"

text \<open>
  FUTEX_WAIT may also return on its own, by a signal or without one: the code does not look at its result. A step of the program is
  one of a thread, with any of the sleepers woken when it wakes, or such a return.
\<close>

definition futex_returns :: "nat \<Rightarrow> (futex, futex_pc) counting \<Rightarrow> (futex, futex_pc) counting option" where
  "futex_returns i s = (if pc s i = Locking F_asleep
     then Some (set_pc i (Locking F_swap) (s\<lparr>the_lock := (the_lock s)\<lparr>sleepers := remove1 i (sleepers (the_lock s))\<rparr>\<rparr>))
     else None)"

inductive futex_step :: "nat \<Rightarrow> (futex, futex_pc) counting \<Rightarrow> (futex, futex_pc) counting \<Rightarrow> bool" for threads where
  futex_thread: "i < threads \<Longrightarrow> (\<And>q. q \<noteq> [] \<Longrightarrow> wakes q \<in> set q) \<Longrightarrow> thread_f (futex_ops wakes) i s = Some s' \<Longrightarrow> futex_step threads s s'"
| futex_spurious: "i < threads \<Longrightarrow> futex_returns i s = Some s' \<Longrightarrow> futex_step threads s s'"

section \<open>Mutual exclusion\<close>

fun critical :: "('l, 'p) lock_ops \<Rightarrow> 'p thread_pc \<Rightarrow> bool" where
  "critical ops Reading = True"
| "critical ops (Writing v) = True"
| "critical ops (Unlocking p) = (p = unlock_start ops)"
| "critical ops _ = False"

text \<open>The increments of a thread that are in the counter.\<close>

definition counted :: "nat \<Rightarrow> ('l, 'p) counting \<Rightarrow> nat \<Rightarrow> int" where
  "counted rounds s i = int rounds - int (left s i) + (case pc s i of Unlocking p \<Rightarrow> 1 | _ \<Rightarrow> 0)"

definition counting_inv :: "('l, 'p) lock_ops \<Rightarrow> ('l \<Rightarrow> bool) \<Rightarrow> nat \<Rightarrow> nat \<Rightarrow> ('l, 'p) counting \<Rightarrow> bool" where
  "counting_inv ops taken threads rounds s \<longleftrightarrow>
     (\<forall>i j. critical ops (pc s i) \<longrightarrow> critical ops (pc s j) \<longrightarrow> i = j) \<and>
     (taken (the_lock s) \<longleftrightarrow> (\<exists>i < threads. critical ops (pc s i))) \<and>
     (\<forall>i v. pc s i = Writing v \<longrightarrow> v = counter s) \<and>
     (\<forall>i. pc s i \<noteq> Looping \<longrightarrow> i < threads \<and> 0 < left s i) \<and> (\<forall>i. left s i \<le> rounds) \<and>
     counter s = (\<Sum>i < threads. counted rounds s i)"

text \<open>
  The contract of a lock: whether it is taken can be seen in its state; lock returns only by taking
  a free lock, the first step of unlock frees it, and no other step changes it.
\<close>

locale mutex =
  fixes ops :: "('l, 'p) lock_ops" and taken :: "'l \<Rightarrow> bool"
  assumes free_at_first: "\<not> taken (lock_init ops)"
    and lock_returns: "lock_step ops i p l = Some (None, l') \<Longrightarrow> \<not> taken l \<and> taken l'"
    and lock_goes_on: "lock_step ops i p l = Some (Some q, l') \<Longrightarrow> taken l' = taken l"
    and unlock_frees: "unlock_step ops i (unlock_start ops) l = Some (r, l') \<Longrightarrow> \<not> taken l' \<and> r \<noteq> Some (unlock_start ops)"
    and unlock_goes_on: "unlock_step ops i p l = Some (r, l') \<Longrightarrow> p \<noteq> unlock_start ops \<Longrightarrow> taken l' = taken l \<and> r \<noteq> Some (unlock_start ops)"

begin

lemma start_inv: "counting_inv ops taken threads rounds (counting_start ops rounds)"
  using free_at_first by (simp add: counting_inv_def counting_start_def counted_def)

text \<open>A step of thread i, by what it does to the fields.\<close>

lemma quiet:
  assumes inv: "counting_inv ops taken threads rounds s" and i: "i < threads" "0 < left s i"
    and p: "\<not> critical ops (pc s i)" "\<not> critical ops p" "p \<noteq> Looping"
      "(case pc s i of Unlocking q \<Rightarrow> True | _ \<Rightarrow> False) = (case p of Unlocking q \<Rightarrow> True | _ \<Rightarrow> False)"
    and l: "taken l = taken (the_lock s)"
  shows "counting_inv ops taken threads rounds (set_pc i p (s\<lparr>the_lock := l\<rparr>))"
proof -
  let ?s' = "set_pc i p (s\<lparr>the_lock := l\<rparr>)"
  have c: "critical ops (pc ?s' j) = critical ops (pc s j)" for j using p by (simp add: set_pc_def)
  have w: "pc ?s' j = Writing v \<longleftrightarrow> pc s j = Writing v" for j v using p by (auto simp: set_pc_def)
  have n: "counted rounds ?s' j = counted rounds s j" for j
    using p(4) by (auto simp: counted_def set_pc_def split: thread_pc.splits)
  show ?thesis using inv i p(3) l unfolding counting_inv_def c w n
    by (auto simp: set_pc_def)
qed

lemma sum_others:
  assumes "i < (threads :: nat)" "\<And>j. j \<noteq> i \<Longrightarrow> g j = f j"
  shows "(\<Sum>j < threads. g j) = (\<Sum>j < threads. f j) - f i + (g i :: int)"
proof -
  have "(\<Sum>j < threads. g j) = g i + (\<Sum>j \<in> {..<threads} - {i}. g j)" using assms(1) by (intro sum.remove) simp_all
  moreover have "(\<Sum>j \<in> {..<threads} - {i}. g j) = (\<Sum>j \<in> {..<threads} - {i}. f j)" using assms(2) by (intro sum.cong) auto
  moreover have "(\<Sum>j < threads. f j) = f i + (\<Sum>j \<in> {..<threads} - {i}. f j)" using assms(1) by (intro sum.remove) simp_all
  ultimately show ?thesis by simp
qed

lemma step_inv:
  assumes inv: "counting_inv ops taken threads rounds s" and i: "i < threads" and step: "thread_f ops i s = Some s'"
  shows "counting_inv ops taken threads rounds s'"
proof -
  have excl: "\<And>j. critical ops (pc s i) \<Longrightarrow> critical ops (pc s j) \<Longrightarrow> j = i"
    and tk: "taken (the_lock s) \<longleftrightarrow> (\<exists>j < threads. critical ops (pc s j))"
    and wr: "\<And>j v. pc s j = Writing v \<Longrightarrow> v = counter s"
    and run: "\<And>j. pc s j \<noteq> Looping \<Longrightarrow> j < threads \<and> 0 < left s j"
    and sum: "counter s = (\<Sum>j < threads. counted rounds s j)"
    using inv unfolding counting_inv_def by blast+
  have same: "s\<lparr>the_lock := the_lock s\<rparr> = s" by simp
  show ?thesis
  proof (cases "pc s i")
    case Looping
    then have "s' = set_pc i (Locking (lock_start ops)) s" "0 < left s i" using step by (auto simp: thread_f_def split: if_splits)
    then show ?thesis using quiet [OF inv i, of "Locking (lock_start ops)" "the_lock s"] Looping by simp
  next
    case (Locking p)
    then obtain r l where r: "lock_step ops i p (the_lock s) = Some (r, l)"
      "s' = set_pc i (case r of None \<Rightarrow> Reading | Some p \<Rightarrow> Locking p) (s\<lparr>the_lock := l\<rparr>)"
      using step by (auto simp: thread_f_def split: option.splits)
    show ?thesis
    proof (cases r)
      case (Some q)
      then show ?thesis using quiet [OF inv i, of "Locking q" l] lock_goes_on [of i p "the_lock s" q l] Locking r run [of i] by simp
    next
      case None
      have t: "\<not> taken (the_lock s)" "taken l" using lock_returns [of i p "the_lock s" l] r None by simp_all
      then have no: "\<not> critical ops (pc s j)" for j
        using tk run [of j] by (cases "j < threads") (auto, metis critical.simps(4))
      have s': "s' = set_pc i Reading (s\<lparr>the_lock := l\<rparr>)" using r None by simp
      have c: "critical ops (pc s' j) \<longleftrightarrow> j = i" for j using no [of j] by (simp add: s' set_pc_def)
      have n: "counted rounds s' j = counted rounds s j" for j using Locking by (simp add: s' counted_def set_pc_def)
      show ?thesis using inv i t run [of i] Locking unfolding counting_inv_def c n
        by (auto simp: s' set_pc_def)
    qed
  next
    case Reading
    then have s': "s' = set_pc i (Writing (counter s)) s" using step by (simp add: thread_f_def)
    have c: "critical ops (pc s' j) = critical ops (pc s j)" for j using Reading by (simp add: s' set_pc_def)
    have n: "counted rounds s' j = counted rounds s j" for j using Reading by (simp add: s' counted_def set_pc_def)
    show ?thesis using inv i run [of i] Reading unfolding counting_inv_def c n
      by (auto simp: s' set_pc_def)
  next
    case (Writing v)
    then have s': "s' = set_pc i (Unlocking (unlock_start ops)) (s\<lparr>counter := counter s + 1\<rparr>)"
      using step wr [of i v] by (simp add: thread_f_def)
    have c: "critical ops (pc s' j) = critical ops (pc s j)" for j using Writing by (simp add: s' set_pc_def)
    have "(\<Sum>j < threads. counted rounds s' j) = (\<Sum>j < threads. counted rounds s j) - counted rounds s i + counted rounds s' i"
      by (rule sum_others [OF i]) (simp add: s' counted_def set_pc_def)
    then have n: "counter s' = (\<Sum>j < threads. counted rounds s' j)" using sum Writing by (simp add: s' counted_def set_pc_def)
    have w: "pc s' j \<noteq> Writing u" for j u
      using excl [of j] Writing by (auto simp: s' set_pc_def)
    show ?thesis using inv i run [of i] Writing n w unfolding counting_inv_def c
      by (auto simp: s' set_pc_def)
  next
    case (Unlocking p)
    then obtain r l where r: "unlock_step ops i p (the_lock s) = Some (r, l)"
      "s' = (case r of None \<Rightarrow> set_pc i Looping (s\<lparr>the_lock := l, left := (left s)(i := left s i - 1)\<rparr>)
             | Some p \<Rightarrow> set_pc i (Unlocking p) (s\<lparr>the_lock := l\<rparr>))"
      using step by (auto simp: thread_f_def split: option.splits)
    have l: "taken l = (taken (the_lock s) \<and> p \<noteq> unlock_start ops)" and r': "r \<noteq> Some (unlock_start ops)"
      using unlock_frees [of i "the_lock s" r l] unlock_goes_on [of i p "the_lock s" r l] r(1) by auto
    have ci: "critical ops (pc s i) \<longleftrightarrow> p = unlock_start ops" using Unlocking by simp
    have c: "critical ops (pc s' j) = (critical ops (pc s j) \<and> j \<noteq> i)" if "p = unlock_start ops" for j
      using r(2) r' by (auto simp: set_pc_def split: option.splits)
    have c': "critical ops (pc s' j) = critical ops (pc s j)" if "p \<noteq> unlock_start ops" for j
      using r(2) r' ci that by (auto simp: set_pc_def split: option.splits)
    have li: "0 < left s i" using run [of i] Unlocking by simp
    have "(\<Sum>j < threads. counted rounds s' j) = (\<Sum>j < threads. counted rounds s j) - counted rounds s i + counted rounds s' i"
      by (rule sum_others [OF i]) (use r(2) in \<open>simp add: counted_def set_pc_def split: option.splits\<close>)
    moreover have "counted rounds s' i = counted rounds s i"
      using r(2) Unlocking li by (auto simp: counted_def set_pc_def split: option.splits)
    moreover have "counter s' = counter s" using r(2) by (simp add: set_pc_def split: option.splits)
    ultimately have n: "counter s' = (\<Sum>j < threads. counted rounds s' j)" using sum by simp
    have tk': "taken (the_lock s') \<longleftrightarrow> (\<exists>j < threads. critical ops (pc s' j))"
    proof (cases "p = unlock_start ops")
      case True
      then have "\<not> critical ops (pc s' j)" for j using c [OF True, of j] excl [of j] ci by blast
      moreover have "\<not> taken (the_lock s')" using l True r(2) by (simp add: set_pc_def split: option.splits)
      ultimately show ?thesis by blast
    next
      case False
      then show ?thesis using l r(2) tk c' by (simp add: set_pc_def split: option.splits)
    qed
    have "critical ops (pc s' j) \<Longrightarrow> critical ops (pc s j)" for j using c [of j] c' [of j] by blast
    then have ex: "critical ops (pc s' j) \<Longrightarrow> critical ops (pc s' k) \<Longrightarrow> j = k" for j k
      using inv unfolding counting_inv_def by blast
    have w: "pc s' j = Writing v \<Longrightarrow> v = counter s'" for j v
      using r(2) wr [of j v] by (auto simp: set_pc_def split: option.splits if_splits)
    have rn: "pc s' j \<noteq> Looping \<Longrightarrow> j < threads \<and> 0 < left s' j" for j
      using r(2) run [of j] i li by (auto simp: set_pc_def split: option.splits if_splits)
    have "left s' j \<le> left s j" "left s j \<le> rounds" for j
      using r(2) inv by (auto simp: set_pc_def counting_inv_def split: option.splits)
    then have "left s' j \<le> rounds" for j by (rule order_trans)
    then show ?thesis unfolding counting_inv_def
      by (intro conjI allI impI) (erule (1) ex, rule tk', erule w, drule rn, simp, drule rn, simp, assumption, rule n)
  qed
qed

text \<open>When every thread has done all its rounds, every increment is in the counter.\<close>

lemma final_counter:
  assumes "counting_inv ops taken threads rounds s" "\<forall>i < threads. pc s i = Looping \<and> left s i = 0"
  shows "counter s = int threads * int rounds"
  using assms by (simp add: counting_inv_def counted_def)

end

interpretation spinning: mutex spin_ops "\<lambda>l. l"
  by unfold_locales (auto simp: spin_ops_def spin_lock_def spin_unlock_def split: if_splits)

interpretation swapping: mutex cas_ops "\<lambda>l. l"
  by unfold_locales (auto simp: cas_ops_def cas_spin_lock_def cas_spin_unlock_def cas_def split: if_splits)

lemmas futex_eval = futex_ops_def futex_lock_def futex_unlock_def futex_wait_def futex_wake_def cas_def

interpretation futexes: mutex "futex_ops wakes" "\<lambda>f. futex_val f = 1" for wakes
  by unfold_locales (auto simp: futex_eval split: futex_pc.splits if_splits)

section \<open>The futex loses no wakeup\<close>

text \<open>
  As long as somebody sleeps, the futex is held, or the one who has released it is about to wake
  a sleeper, or somebody is awake in lock, who will take the futex or see that it is held.
\<close>

definition awake :: "(futex, futex_pc) counting \<Rightarrow> nat \<Rightarrow> bool" where
  "awake s i \<longleftrightarrow> pc s i = Unlocking F_wake \<or> pc s i = Locking F_swap \<or> pc s i = Locking F_wait \<or>
     (pc s i = Locking F_asleep \<and> i \<notin> set (sleepers (the_lock s)))"

definition futex_inv :: "nat \<Rightarrow> (futex, futex_pc) counting \<Rightarrow> bool" where
  "futex_inv threads s \<longleftrightarrow>
     distinct (sleepers (the_lock s)) \<and>
     (\<forall>i \<in> set (sleepers (the_lock s)). pc s i = Locking F_asleep) \<and>
     (futex_val (the_lock s) = 0 \<or> futex_val (the_lock s) = 1) \<and>
     (\<forall>i p. pc s i = Locking p \<longrightarrow> p = F_swap \<or> p = F_wait \<or> p = F_asleep) \<and>
     (\<forall>i p. pc s i = Unlocking p \<longrightarrow> p = F_release \<or> p = F_wake) \<and>
     (sleepers (the_lock s) = [] \<or> futex_val (the_lock s) = 1 \<or> (\<exists>i < threads. awake s i))"

lemma futex_start_inv: "futex_inv threads (counting_start (futex_ops wakes) rounds)"
  by (simp add: futex_inv_def counting_start_def futex_ops_def)

lemma futex_step_inv:
  assumes inv: "futex_inv threads s" "counting_inv (futex_ops wakes) (\<lambda>f. futex_val f = 1) threads rounds s"
    and wakes: "\<And>q. q \<noteq> [] \<Longrightarrow> wakes q \<in> set q"
    and i: "i < threads" and step: "thread_f (futex_ops wakes) i s = Some s'"
  shows "futex_inv threads s'"
proof -
  define f where "f = the_lock s"
  have s: "distinct (sleepers f)" "\<And>j. j \<in> set (sleepers f) \<Longrightarrow> pc s j = Locking F_asleep" "futex_val f = 0 \<or> futex_val f = 1"
    and pl: "\<And>j p. pc s j = Locking p \<Longrightarrow> p = F_swap \<or> p = F_wait \<or> p = F_asleep"
    and pu: "\<And>j p. pc s j = Unlocking p \<Longrightarrow> p = F_release \<or> p = F_wake"
    and aw: "sleepers f = [] \<or> futex_val f = 1 \<or> (\<exists>j < threads. awake s j)"
    using inv(1) unfolding futex_inv_def f_def by blast+
  have tk: "futex_val f = 1 \<longleftrightarrow> (\<exists>j < threads. critical (futex_ops wakes) (pc s j))"
    using inv(2) unfolding counting_inv_def f_def by blast
  have ni: "pc s i \<noteq> Locking F_asleep \<Longrightarrow> i \<notin> set (sleepers f)" using s(2) by blast
  show ?thesis
  proof (cases "pc s i")
    case Looping
    then have "s' = set_pc i (Locking F_swap) s" using step by (auto simp: thread_f_def futex_ops_def split: if_splits)
    then show ?thesis using s pl pu aw ni Looping i unfolding futex_inv_def f_def by (auto simp: set_pc_def awake_def)
  next
    case (Locking p)
    consider "p = F_swap" "futex_val f = 0" | "p = F_swap" "futex_val f \<noteq> 0" | "p = F_wait" "futex_val f = 1" | "p = F_wait" "futex_val f \<noteq> 1"
      | "p = F_asleep" using pl [OF Locking] by blast
    then show ?thesis
    proof cases
      case 1
      then have "s' = set_pc i Reading (s\<lparr>the_lock := f\<lparr>futex_val := 1\<rparr>\<rparr>)"
        using step Locking by (auto simp: thread_f_def futex_eval f_def)
      then show ?thesis using s pl pu ni Locking 1 unfolding futex_inv_def f_def by (auto simp: set_pc_def)
    next
      case 2
      then have "s' = set_pc i (Locking F_wait) (s\<lparr>the_lock := f\<rparr>)"
        using step Locking by (auto simp: thread_f_def futex_eval f_def)
      then show ?thesis using s pl pu ni Locking 2 unfolding futex_inv_def f_def by (auto simp: set_pc_def)
    next
      case 3
      then have "s' = set_pc i (Locking F_asleep) (s\<lparr>the_lock := f\<lparr>sleepers := sleepers f @ [i]\<rparr>\<rparr>)"
        using step Locking by (auto simp: thread_f_def futex_eval f_def)
      then show ?thesis using s pl pu ni Locking 3 unfolding futex_inv_def f_def by (auto simp: set_pc_def)
    next
      case 4
      then have "s' = set_pc i (Locking F_swap) (s\<lparr>the_lock := f\<rparr>)"
        using step Locking by (auto simp: thread_f_def futex_eval f_def)
      then show ?thesis using s pl pu ni Locking 4 i unfolding futex_inv_def f_def by (auto simp: set_pc_def awake_def)
    next
      case 5
      then have "s' = set_pc i (Locking F_swap) (s\<lparr>the_lock := f\<rparr>)" "i \<notin> set (sleepers f)"
        using step Locking by (auto simp: thread_f_def futex_eval f_def split: if_splits)
      then show ?thesis using s pl pu Locking 5 i unfolding futex_inv_def f_def by (auto simp: set_pc_def awake_def)
    qed
  next
    case Reading
    then have "s' = set_pc i (Writing (counter s)) s" using step by (simp add: thread_f_def)
    moreover have "futex_val f = 1" using tk i Reading by fastforce
    ultimately show ?thesis using s pl pu ni Reading unfolding futex_inv_def f_def by (auto simp: set_pc_def)
  next
    case (Writing v)
    then have "s' = set_pc i (Unlocking F_release) (s\<lparr>counter := v + 1\<rparr>)" using step by (simp add: thread_f_def futex_ops_def)
    moreover have "futex_val f = 1" using tk i Writing by fastforce
    ultimately show ?thesis using s pl pu ni Writing unfolding futex_inv_def f_def by (auto simp: set_pc_def)
  next
    case (Unlocking p)
    consider "p = F_release" | "p = F_wake" using pu [OF Unlocking] by blast
    then show ?thesis
    proof cases
      case 1
      then have "s' = set_pc i (Unlocking F_wake) (s\<lparr>the_lock := f\<lparr>futex_val := snd (cas 1 0 (futex_val f))\<rparr>\<rparr>)"
        using step Unlocking by (auto simp: thread_f_def futex_ops_def futex_unlock_def f_def)
      then show ?thesis using s pl pu ni Unlocking 1 i unfolding futex_inv_def f_def by (auto simp: set_pc_def awake_def cas_def)
    next
      case 2
      then have s': "s' = set_pc i Looping (s\<lparr>the_lock := futex_wake wakes f, left := (left s)(i := left s i - 1)\<rparr>)"
        using step Unlocking by (auto simp: thread_f_def futex_ops_def futex_unlock_def f_def)
      show ?thesis
      proof (cases "sleepers f = []")
        case True
        then show ?thesis using s pl pu ni Unlocking 2 i unfolding futex_inv_def s' by (auto simp: set_pc_def futex_wake_def)
      next
        case False
        define w where "w = wakes (sleepers f)"
        have w: "w \<in> set (sleepers f)" unfolding w_def by (rule wakes [OF False])
        then have "w \<noteq> i" "pc s w = Locking F_asleep" using s(2) ni Unlocking by auto
        moreover have "w < threads" using inv(2) \<open>pc s w = Locking F_asleep\<close> unfolding counting_inv_def by (metis thread_pc.distinct(1))
        moreover have "w \<notin> set (remove1 w (sleepers f))" using s(1) by simp
        ultimately have "awake s' w" using False by (simp add: awake_def s' set_pc_def futex_wake_def w_def [symmetric])
        then show ?thesis using s pl pu ni Unlocking 2 False \<open>w < threads\<close> unfolding futex_inv_def
          by (auto simp: s' set_pc_def futex_wake_def dest: set_remove1_subset [THEN subsetD])
      qed
    qed
  qed
qed

lemma futex_stuck:
  assumes inv: "futex_inv threads s" "counting_inv (futex_ops wakes) (\<lambda>f. futex_val f = 1) threads rounds s"
    and stuck: "\<And>j. j < threads \<Longrightarrow> thread_f (futex_ops wakes) j s = None" and i: "i < threads"
  shows "pc s i = Looping \<and> left s i = 0"
proof -
  have at: "(pc s j = Looping \<and> left s j = 0) \<or> (pc s j = Locking F_asleep \<and> j \<in> set (sleepers (the_lock s)))" if j: "j < threads" for j
  proof (cases "pc s j")
    case (Locking p)
    then have "p = F_swap \<or> p = F_wait \<or> p = F_asleep" using inv(1) unfolding futex_inv_def by blast
    then show ?thesis using stuck [OF j] Locking by (auto simp: thread_f_def futex_eval split: if_splits)
  next
    case (Unlocking p)
    then have "p = F_release \<or> p = F_wake" using inv(1) unfolding futex_inv_def by blast
    then show ?thesis using stuck [OF j] Unlocking by (auto simp: thread_f_def futex_ops_def futex_unlock_def)
  qed (use stuck [OF j] in \<open>auto simp: thread_f_def split: if_splits\<close>)
  have "\<not> critical (futex_ops wakes) (pc s j)" if "j < threads" for j using at [OF that] by auto
  then have "futex_val (the_lock s) \<noteq> 1" using inv(2) unfolding counting_inv_def by blast
  moreover have "\<not> awake s j" if "j < threads" for j using at [OF that] by (auto simp: awake_def)
  ultimately have "sleepers (the_lock s) = []" using inv(1) unfolding futex_inv_def by blast
  then show ?thesis using at [OF i] by simp
qed

lemma futex_returns_inv:
  assumes inv: "futex_inv threads s" "counting_inv (futex_ops wakes) (\<lambda>f. futex_val f = 1) threads rounds s"
    and i: "i < threads" and step: "futex_returns i s = Some s'"
  shows "futex_inv threads s'" "counting_inv (futex_ops wakes) (\<lambda>f. futex_val f = 1) threads rounds s'"
proof -
  have at: "pc s i = Locking F_asleep"
    and s': "s' = set_pc i (Locking F_swap) (s\<lparr>the_lock := (the_lock s)\<lparr>sleepers := remove1 i (sleepers (the_lock s))\<rparr>\<rparr>)"
    using step by (auto simp: futex_returns_def split: if_splits)
  have "awake s' i" by (simp add: s' awake_def set_pc_def)
  then show "futex_inv threads s'" using inv(1) i unfolding futex_inv_def
    by (auto simp: s' set_pc_def dest: set_remove1_subset [THEN subsetD])
  have "0 < left s i" using inv(2) at unfolding counting_inv_def by (metis thread_pc.distinct(1))
  then show "counting_inv (futex_ops wakes) (\<lambda>f. futex_val f = 1) threads rounds s'"
    unfolding s' by (rule futexes.quiet [OF inv(2) i]) (simp_all add: at)
qed

text \<open>Which sleeper is woken makes no difference to the invariant or to where a thread is stuck.\<close>

lemma same_critical: "critical (futex_ops wakes) p = critical (futex_ops hd) p"
  by (cases p) (simp_all add: futex_ops_def)

lemma same_counting_inv: "counting_inv (futex_ops wakes) = counting_inv (futex_ops hd)"
  by (intro ext) (simp add: counting_inv_def same_critical [of wakes])

lemma same_start: "counting_start (futex_ops wakes) = counting_start (futex_ops hd)"
  by (intro ext) (simp add: counting_start_def futex_ops_def)

interpretation futex_system: invariant_system "\<lambda>s. s = counting_start (futex_ops hd) rounds" "futex_step threads"
    "\<lambda>s. counting_inv (futex_ops hd) (\<lambda>f. futex_val f = 1) threads rounds s \<and> futex_inv threads s" for rounds threads
proof
  show "counting_inv (futex_ops hd) (\<lambda>f. futex_val f = 1) threads rounds s \<and> futex_inv threads s"
    if "s = counting_start (futex_ops hd) rounds" for s
    using that futexes.start_inv futex_start_inv by blast
  show "counting_inv (futex_ops hd) (\<lambda>f. futex_val f = 1) threads rounds t \<and> futex_inv threads t"
    if inv: "counting_inv (futex_ops hd) (\<lambda>f. futex_val f = 1) threads rounds s \<and> futex_inv threads s"
      and step: "futex_step threads s t" for s t
    using step
  proof cases
    case (futex_thread i wakes)
    then show ?thesis using futexes.step_inv [of wakes threads rounds s i t] futex_step_inv [of threads s wakes rounds i t] inv
      unfolding same_counting_inv [of wakes] by blast
  next
    case (futex_spurious i)
    then show ?thesis using futex_returns_inv inv by blast
  qed
qed

interpretation spin_system: invariant_system "\<lambda>s. s = counting_start spin_ops rounds" "counting_step spin_ops threads"
    "counting_inv spin_ops (\<lambda>l. l) threads rounds" for rounds threads
  by unfold_locales (auto simp: counting_step_def intro: spinning.start_inv spinning.step_inv)

interpretation cas_system: invariant_system "\<lambda>s. s = counting_start cas_ops rounds" "counting_step cas_ops threads"
    "counting_inv cas_ops (\<lambda>l. l) threads rounds" for rounds threads
  by unfold_locales (auto simp: counting_step_def intro: swapping.start_inv swapping.step_inv)

section \<open>Without a lock\<close>

text \<open>4_not_atomic.c: main and one thread, each with a register for the value it has read.\<close>

record plain =
  p_counter :: int
  register :: "nat \<Rightarrow> int option"
  p_left :: "nat \<Rightarrow> nat"

definition plain_start :: "nat \<Rightarrow> plain" where
  "plain_start rounds = \<lparr>p_counter = 0, register = \<lambda>_. None, p_left = \<lambda>_. rounds\<rparr>"

definition plain_add :: "nat \<Rightarrow> plain \<Rightarrow> plain option" where
  "plain_add i s =
     (if p_left s i = 0 then None
      else case register s i of
        None \<Rightarrow> Some (s\<lparr>register := (register s)(i \<mapsto> p_counter s)\<rparr>)
      | Some v \<Rightarrow> Some (s\<lparr>p_counter := v + 1, register := (register s)(i := None), p_left := (p_left s)(i := p_left s i - 1)\<rparr>))"

text \<open>5_atomic.c: the addition is one step.\<close>

definition atomic_add :: "nat \<Rightarrow> plain \<Rightarrow> plain option" where
  "atomic_add i s =
     (if p_left s i = 0 then None
      else Some (s\<lparr>p_counter := p_counter s + 1, p_left := (p_left s)(i := p_left s i - 1)\<rparr>))"

definition two_threads :: "(nat \<Rightarrow> plain \<Rightarrow> plain option) \<Rightarrow> plain \<Rightarrow> plain \<Rightarrow> bool" where
  "two_threads add s s' \<longleftrightarrow> (\<exists>i < 2. add i s = Some s')"

text \<open>What main prints, after its own loop and when the thread has set is_finished.\<close>

definition printed_counter :: "plain \<Rightarrow> int option" where
  "printed_counter s = (if p_left s 0 = 0 \<and> p_left s 1 = 0 then Some (p_counter s) else None)"

definition plain_inv :: "nat \<Rightarrow> plain \<Rightarrow> bool" where
  "plain_inv rounds s \<longleftrightarrow>
     p_left s 0 \<le> rounds \<and> p_left s 1 \<le> rounds \<and>
     p_counter s + int (p_left s 0) + int (p_left s 1) \<le> 2 * int rounds \<and>
     (\<forall>i < 2. \<forall>v. register s i = Some v \<longrightarrow> v + int (p_left s 0) + int (p_left s 1) \<le> 2 * int rounds \<and> 0 \<le> v \<and>
        (p_left s i < rounds \<longrightarrow> 1 \<le> v)) \<and>
     0 \<le> p_counter s \<and> (p_left s 0 < rounds \<or> p_left s 1 < rounds \<longrightarrow> 1 \<le> p_counter s) \<and>
     (2 \<le> rounds \<longrightarrow> p_left s 0 = 0 \<longrightarrow> p_left s 1 = 0 \<longrightarrow> 2 \<le> p_counter s)"

lemma less_two: "(\<exists>i < 2. P i) \<longleftrightarrow> P 0 \<or> P (1 :: nat)" "(\<forall>i < 2. P i) \<longleftrightarrow> P 0 \<and> P (1 :: nat)"
  by (auto simp: less_Suc_eq numeral_2_eq_2)

lemma plain_add_cases:
  assumes "plain_add i s = Some t"
  obtains "0 < p_left s i" "register s i = None" "t = s\<lparr>register := (register s)(i \<mapsto> p_counter s)\<rparr>"
  | v where "0 < p_left s i" "register s i = Some v"
    "t = s\<lparr>p_counter := v + 1, register := (register s)(i := None), p_left := (p_left s)(i := p_left s i - 1)\<rparr>"
  using assms by (auto simp: plain_add_def split: if_splits option.splits)

lemma plain_step_inv:
  assumes inv: "plain_inv rounds s" and i: "i < 2" and step: "plain_add i s = Some t"
  shows "plain_inv rounds t"
proof -
  have i01: "i = 0 \<or> i = 1" using i by auto
  have le: "p_left s 0 \<le> rounds" "p_left s 1 \<le> rounds" and total: "p_counter s + int (p_left s 0) + int (p_left s 1) \<le> 2 * int rounds"
    and reg: "\<And>j v. j < 2 \<Longrightarrow> register s j = Some v \<Longrightarrow> v + int (p_left s 0) + int (p_left s 1) \<le> 2 * int rounds \<and> 0 \<le> v \<and>
        (p_left s j < rounds \<longrightarrow> 1 \<le> v)"
    and pos: "0 \<le> p_counter s" "p_left s 0 < rounds \<or> p_left s 1 < rounds \<Longrightarrow> 1 \<le> p_counter s"
    and two: "2 \<le> rounds \<Longrightarrow> p_left s 0 = 0 \<Longrightarrow> p_left s 1 = 0 \<Longrightarrow> 2 \<le> p_counter s"
    using inv unfolding plain_inv_def by blast+
  from step show ?thesis
  proof (cases rule: plain_add_cases)
    case 1
    have "(p_left s j < rounds \<longrightarrow> 1 \<le> p_counter s)" if "j < 2" for j using pos(2) less_2_cases [OF that] by auto
    then show ?thesis unfolding plain_inv_def 1(3) using le total reg pos two by auto
  next
    case (2 v)
    have v: "v + int (p_left s 0) + int (p_left s 1) \<le> 2 * int rounds" "0 \<le> v" "p_left s i < rounds \<longrightarrow> 1 \<le> v"
      using reg [OF i 2(2)] by simp_all
    have left: "int (p_left t 0) + int (p_left t 1) = int (p_left s 0) + int (p_left s 1) - 1"
      using i01 2(1) by (auto simp: 2(3))
    have r: "w + int (p_left t 0) + int (p_left t 1) \<le> 2 * int rounds \<and> 0 \<le> w \<and> (p_left t j < rounds \<longrightarrow> 1 \<le> w)"
      if "j < 2" "register t j = Some w" for j w
    proof -
      have "j \<noteq> i" "register s j = Some w" "p_left t j = p_left s j" using that(2) by (auto simp: 2(3) split: if_splits)
      then show ?thesis using reg [OF that(1), of w] left by auto
    qed
    have c: "p_counter t = v + 1" by (simp add: 2(3))
    have "p_left t 0 \<le> rounds" "p_left t 1 \<le> rounds" using le by (auto simp: 2(3))
    moreover have "2 \<le> p_counter t" if "2 \<le> rounds" "p_left t 0 = 0" "p_left t 1 = 0"
    proof -
      have "p_left s i = 1" using that(2,3) i01 2(1) by (auto simp: 2(3))
      then show ?thesis using v(3) that(1) c by simp
    qed
    moreover have "p_counter t + int (p_left t 0) + int (p_left t 1) \<le> 2 * int rounds" "0 \<le> p_counter t" "1 \<le> p_counter t"
      using c v(1,2) left by linarith+
    ultimately show ?thesis unfolding plain_inv_def using r by blast
  qed
qed

interpretation plain_system: invariant_system "\<lambda>s. s = plain_start rounds" "two_threads plain_add" "plain_inv rounds" for rounds
proof
  show "plain_inv rounds s" if "s = plain_start rounds" for s using that by (simp add: plain_inv_def plain_start_def)
  show "plain_inv rounds t" if "plain_inv rounds s" "two_threads plain_add s t" for s t
    using that plain_step_inv unfolding two_threads_def by blast
qed

text \<open>Runs of the two threads by a schedule.\<close>

fun scheduled :: "(nat \<Rightarrow> plain \<Rightarrow> plain option) \<Rightarrow> nat list \<Rightarrow> plain \<Rightarrow> plain option" where
  "scheduled add [] s = Some s"
| "scheduled add (i # is) s = do { s \<leftarrow> add i s; scheduled add is s }"

lemma scheduled_append: "scheduled add (is @ js) s = do { s \<leftarrow> scheduled add is s; scheduled add js s }"
  by (induction "is" arbitrary: s) (auto split: Option.bind_split)

lemma scheduled_reachable:
  assumes "scheduled add is s = Some t" "set is \<subseteq> {0, 1}" "reachable start (two_threads add) s"
  shows "reachable start (two_threads add) t"
  using assms
proof (induction "is" arbitrary: s)
  case (Cons i js)
  then obtain u where u: "add i s = Some u" "scheduled add js u = Some t" by (auto simp: bind_eq_Some_conv)
  have "i < 2" using Cons.prems(2) by auto
  then have "two_threads add s u" using u(1) by (auto simp: two_threads_def)
  then show ?case using Cons.IH [OF u(2)] Cons.prems(2,3) by (auto intro: reach_step)
qed simp

text \<open>Rounds of one thread without the other.\<close>

lemma solo_rounds:
  "register s i = None \<Longrightarrow> k \<le> p_left s i \<Longrightarrow> scheduled plain_add (concat (replicate k [i, i])) s =
     Some (s\<lparr>p_counter := p_counter s + int k, p_left := (p_left s)(i := p_left s i - k)\<rparr>)"
proof (induction k arbitrary: s)
  case (Suc k)
  let ?t = "s\<lparr>p_counter := p_counter s + 1, p_left := (p_left s)(i := p_left s i - 1)\<rparr>"
  have "plain_add i s = Some (s\<lparr>register := (register s)(i \<mapsto> p_counter s)\<rparr>)" using Suc.prems by (simp add: plain_add_def)
  moreover have "plain_add i (s\<lparr>register := (register s)(i \<mapsto> p_counter s)\<rparr>) = Some ?t"
    using Suc.prems by (simp add: plain_add_def fun_upd_idem)
  moreover have "scheduled plain_add (concat (replicate k [i, i])) ?t =
      Some (?t\<lparr>p_counter := p_counter ?t + int k, p_left := (p_left ?t)(i := p_left ?t i - k)\<rparr>)"
    by (rule Suc.IH) (use Suc.prems in simp_all)
  ultimately have "scheduled plain_add (concat (replicate (Suc k) [i, i])) s =
      Some (?t\<lparr>p_counter := p_counter ?t + int k, p_left := (p_left ?t)(i := p_left ?t i - k)\<rparr>)" by simp
  also have "?t\<lparr>p_counter := p_counter ?t + int k, p_left := (p_left ?t)(i := p_left ?t i - k)\<rparr> =
      s\<lparr>p_counter := p_counter s + int (Suc k), p_left := (p_left s)(i := p_left s i - Suc k)\<rparr>"
    by (cases s) (simp add: fun_eq_iff)
  finally show ?case .
qed simp

definition lossy_schedule :: "nat \<Rightarrow> nat list" where
  "lossy_schedule rounds = [0] @ concat (replicate (rounds - 1) [1, 1]) @ [0, 1] @ concat (replicate (rounds - 1) [0, 0]) @ [1]"

lemma lossy_run:
  assumes "2 \<le> rounds"
  shows "\<exists>s. scheduled plain_add (lossy_schedule rounds) (plain_start rounds) = Some s \<and> printed_counter s = Some 2"
proof -
  define s0 where "s0 = (plain_start rounds)\<lparr>register := [0 \<mapsto> 0]\<rparr>"
  define s1 where "s1 = s0\<lparr>p_counter := int (rounds - 1), p_left := (\<lambda>_. rounds)(1 := 1)\<rparr>"
  define s2 where "s2 = s1\<lparr>p_counter := 1, register := [1 \<mapsto> 1], p_left := (\<lambda>_. rounds)(1 := 1, 0 := rounds - 1)\<rparr>"
  define s3 where "s3 = s2\<lparr>p_counter := int rounds, p_left := (\<lambda>_. rounds)(1 := 1, 0 := 0)\<rparr>"
  have 1: "scheduled plain_add [0] (plain_start rounds) = Some s0" using assms by (simp add: plain_add_def plain_start_def s0_def)
  have 2: "scheduled plain_add (concat (replicate (rounds - 1) [1, 1])) s0 = Some s1"
    using solo_rounds [of s0 1 "rounds - 1"] assms by (simp add: s1_def s0_def plain_start_def)
  have 3: "scheduled plain_add [0, 1] s1 = Some s2" using assms by (simp add: plain_add_def s2_def s1_def s0_def plain_start_def fun_eq_iff)
  have 4: "scheduled plain_add (concat (replicate (rounds - 1) [0, 0])) s2 = Some s3"
    using solo_rounds [of s2 0 "rounds - 1"] assms by (simp add: s3_def s2_def s1_def s0_def plain_start_def)
  have 5: "\<exists>s. scheduled plain_add [1] s3 = Some s \<and> printed_counter s = Some 2"
    by (simp add: plain_add_def s3_def s2_def s1_def s0_def plain_start_def printed_counter_def)
  show ?thesis using 5 by (simp only: lossy_schedule_def scheduled_append 1 2 3 4 bind.simps)
qed

lemma full_run:
  "\<exists>s. scheduled plain_add (concat (replicate rounds [0, 0]) @ concat (replicate rounds [1, 1])) (plain_start rounds) = Some s \<and>
    printed_counter s = Some (2 * int rounds)"
proof -
  define s1 where "s1 = (plain_start rounds)\<lparr>p_counter := int rounds, p_left := (\<lambda>_. rounds)(0 := 0)\<rparr>"
  have 1: "scheduled plain_add (concat (replicate rounds [0, 0])) (plain_start rounds) = Some s1"
    using solo_rounds [of "plain_start rounds" 0 rounds] by (simp add: s1_def plain_start_def)
  have "scheduled plain_add (concat (replicate rounds [1, 1])) s1 =
      Some (s1\<lparr>p_counter := int rounds + int rounds, p_left := (p_left s1)(1 := 0)\<rparr>)"
    using solo_rounds [of s1 1 rounds] by (simp add: s1_def plain_start_def)
  then show ?thesis by (simp add: scheduled_append 1 printed_counter_def s1_def)
qed

interpretation atomic_system: invariant_system "\<lambda>s. s = plain_start rounds" "two_threads atomic_add"
    "\<lambda>s. p_counter s + int (p_left s 0) + int (p_left s 1) = 2 * int rounds" for rounds
  by unfold_locales (auto simp: plain_start_def two_threads_def less_two atomic_add_def split: if_splits)

section \<open>Properties\<close>

text \<open>C31: Without protection, two threads that each add one a number of times, at least twice, print a number between 2
  and the sum, and there are interleavings in which they print 2 and the sum.\<close>

theorem unprotected_counter_bounds:
  assumes "2 \<le> rounds"
  shows "(\<forall>s c. reachable (\<lambda>s. s = plain_start rounds) (two_threads plain_add) s \<longrightarrow> printed_counter s = Some c \<longrightarrow>
      2 \<le> c \<and> c \<le> 2 * int rounds) \<and>
    (\<forall>c \<in> {2, 2 * int rounds}. \<exists>s. reachable (\<lambda>s. s = plain_start rounds) (two_threads plain_add) s \<and> printed_counter s = Some c)"
proof (intro conjI allI impI)
  fix s c assume r: "reachable (\<lambda>s. s = plain_start rounds) (two_threads plain_add) s" and c: "printed_counter s = Some c"
  have "plain_inv rounds s" by (rule plain_system.reachable_has_inv [OF r])
  moreover have "p_left s 0 = 0" "p_left s 1 = 0" "p_counter s = c" using c by (auto simp: printed_counter_def split: if_splits)
  ultimately show "2 \<le> c" "c \<le> 2 * int rounds" using assms unfolding plain_inv_def by simp_all
next
  let ?start = "\<lambda>s. s = plain_start rounds"
  have start: "reachable ?start (two_threads plain_add) (plain_start rounds)" by (rule reach_start) simp
  have "set (lossy_schedule rounds) \<subseteq> {0, 1}" by (auto simp: lossy_schedule_def)
  then have "\<exists>s. reachable ?start (two_threads plain_add) s \<and> printed_counter s = Some 2"
    using lossy_run [OF assms] scheduled_reachable [OF _ _ start] by blast
  moreover have "set (concat (replicate rounds [0, 0]) @ concat (replicate rounds [1, 1])) \<subseteq> {0, 1 :: nat}" by auto
  then have "\<exists>s. reachable ?start (two_threads plain_add) s \<and> printed_counter s = Some (2 * int rounds)"
    using full_run [of rounds] scheduled_reachable [OF _ _ start] by blast
  ultimately show "\<forall>c \<in> {2, 2 * int rounds}. \<exists>s. reachable ?start (two_threads plain_add) s \<and> printed_counter s = Some c"
    by blast
qed

theorem unprotected_counter_bounds_witness:
  "\<exists>s. reachable (\<lambda>s. s = plain_start 100000) (two_threads plain_add) s \<and> printed_counter s = Some 2"
  using unprotected_counter_bounds [of 100000] by simp

text \<open>With the atomic addition the two threads print the sum.\<close>

theorem atomic_counter_exact:
  "reachable (\<lambda>s. s = plain_start rounds) (two_threads atomic_add) s \<Longrightarrow> printed_counter s = Some c \<Longrightarrow> c = 2 * int rounds"
  using atomic_system.reachable_has_inv [of rounds s] by (auto simp: printed_counter_def split: if_splits)

text \<open>C30: With the futex, in every interleaving, whichever sleeper the kernel wakes each time, and however often
  FUTEX_WAIT returns on its own, at most one thread is between lock and
  unlock, no wakeup is lost, so that the threads can only stop (those asleep until they are woken) when all have done their rounds, and
  then the counter is the number of all rounds.\<close>

theorem futex_counter_exact:
  assumes "reachable (\<lambda>s. s = counting_start (futex_ops wakes) rounds) (futex_step threads) s"
  shows "(\<forall>i j. critical (futex_ops wakes) (pc s i) \<longrightarrow> critical (futex_ops wakes) (pc s j) \<longrightarrow> i = j) \<and>
    ((\<forall>t. \<not> counting_step (futex_ops wakes) threads s t) \<longrightarrow>
      (\<forall>i < threads. pc s i = Looping \<and> left s i = 0) \<and> counter s = int threads * int rounds)"
proof (intro conjI impI)
  have inv: "counting_inv (futex_ops wakes) (\<lambda>f. futex_val f = 1) threads rounds s" "futex_inv threads s"
    using futex_system.reachable_has_inv [OF assms [unfolded same_start [of wakes]]] unfolding same_counting_inv [of wakes] by blast+
  show "\<forall>i j. critical (futex_ops wakes) (pc s i) \<longrightarrow> critical (futex_ops wakes) (pc s j) \<longrightarrow> i = j"
    using inv(1) unfolding counting_inv_def by blast
  assume "\<forall>t. \<not> counting_step (futex_ops wakes) threads s t"
  then have "thread_f (futex_ops wakes) j s = None" if "j < threads" for j
    using that unfolding counting_step_def by (cases "thread_f (futex_ops wakes) j s") auto
  then have final: "\<forall>i < threads. pc s i = Looping \<and> left s i = 0" using futex_stuck [OF inv(2,1)] by blast
  then show "\<forall>i < threads. pc s i = Looping \<and> left s i = 0" .
  show "counter s = int threads * int rounds" by (rule futexes.final_counter [OF inv(1) final])
qed

text \<open>With a spin lock of either kind, only one thread at a time adds, and the sum is right at the end.\<close>

theorem spin_counter_exact:
  assumes "reachable (\<lambda>s. s = counting_start ops rounds) (counting_step ops threads) s" "ops = spin_ops \<or> ops = cas_ops"
    and "\<forall>i < threads. pc s i = Looping \<and> left s i = 0"
  shows "counter s = int threads * int rounds"
  using assms spin_system.reachable_has_inv [of rounds threads s] cas_system.reachable_has_inv [of rounds threads s]
    spinning.final_counter swapping.final_counter by blast

text \<open>A run of two threads with one round each, the second of which has to sleep.\<close>

fun counting_run :: "('l, 'p) lock_ops \<Rightarrow> nat list \<Rightarrow> ('l, 'p) counting \<Rightarrow> ('l, 'p) counting option" where
  "counting_run ops [] s = Some s"
| "counting_run ops (i # is) s = (case thread_f ops i s of None \<Rightarrow> None | Some s \<Rightarrow> counting_run ops is s)"

lemma counting_run_futex:
  "counting_run (futex_ops hd) is s = Some t \<Longrightarrow> set is \<subseteq> {..<threads} \<Longrightarrow> reachable start (futex_step threads) s \<Longrightarrow>
    reachable start (futex_step threads) t"
proof (induction "is" arbitrary: s)
  case (Cons i js)
  then obtain u where u: "thread_f (futex_ops hd) i s = Some u" "counting_run (futex_ops hd) js u = Some t" by (auto split: option.splits)
  then have "futex_step threads s u" using Cons.prems(2) by (intro futex_thread [of i _ hd]) auto
  then show ?case using Cons.IH [OF u(2)] Cons.prems(2,3) by (auto intro: reach_step)
qed simp

lemma two_futex_threads:
  "\<exists>s. counting_run (futex_ops hd) [0, 0, 1, 1, 1, 0, 0, 0, 0, 1, 1, 1, 1, 1, 1] (counting_start (futex_ops hd) 1) = Some s \<and>
    (\<forall>i < 2. thread_f (futex_ops hd) i s = None)"
  by (simp add: counting_start_def thread_f_def futex_eval set_pc_def less_two)

theorem futex_counter_exact_witness:
  "\<exists>s. reachable (\<lambda>s. s = counting_start (futex_ops hd) 1) (futex_step 2) s \<and> counter s = 2"
proof -
  obtain s where s: "counting_run (futex_ops hd) [0, 0, 1, 1, 1, 0, 0, 0, 0, 1, 1, 1, 1, 1, 1] (counting_start (futex_ops hd) 1) = Some s"
    "\<forall>i < 2. thread_f (futex_ops hd) i s = None" using two_futex_threads by blast
  have r: "reachable (\<lambda>s. s = counting_start (futex_ops hd) 1) (futex_step 2) s"
    by (rule counting_run_futex [OF s(1)]) (auto intro: reach_start)
  have "\<forall>t. \<not> counting_step (futex_ops hd) 2 s t" using s(2) by (auto simp: counting_step_def)
  then show ?thesis using futex_counter_exact [OF r] r by (auto intro!: exI [of _ s])
qed

end
