(* ===== verification/Servers.thy ===== *)
theory Servers
  imports Lecture_Sort "HOL-Library.Word"
begin

text \<open>
  The servers of lecture_examples/9_aio (4_server_select.c, 5_server_poll.c, 6_server_kqueue.c,
  7_server_epoll.c) and lecture_examples/10_users/9_daemon.c: each keeps the sockets of its clients,
  waits for one of them, reads an int from it and sends back the next one.

  The kernel is an argument: a record of functions that give the answer to a system call from the
  history of all calls and prints before it, so that a theorem for every kernel is a theorem for every
  behaviour of the clients. A call that can fail answers Inl with its errno. None is undefined behaviour.
  The loop while(1) has no end of its own: a main function has the number of its turns as an argument
  and says whether it has left the loop by then. Standard output is a part of the history; that fflush
  moves it from a buffer is left out. A printf between a failed call and the test of errno keeps errno.
\<close>

section \<open>System calls\<close>

type_synonym fd = int

datatype errno = EAGAIN | EWOULDBLOCK | Other_Error nat

datatype event =
    Socket | Bind fd | Listen fd | Accept fd | Recv fd | Send fd "int list" | Close fd
  | Wait "fd list" | Create_Queue | Watch fd | Unwatch fd
  | Fork | Exit int | Open string | Dup2 fd fd | Setsid
  | Say_Error errno | Say_Bind_Error errno | Say_Listen_Error errno | Say_Open_Error | Say_Dup_Error
  | Say_Timeout | Say_New_Client | Say_Interact fd | Say_Received int | Say_Sent int | Say_Disconnected

type_synonym history = "event list"

text \<open>
  What the kernel answers after a history. select gives how many descriptors are ready and the set of
  them; poll how many entries have an event, and the field revents of each; epoll_wait and kevent, which
  are asked for one event, that event if one came in time, kevent with the flag EV_EOF. Calls that only
  succeed or fail give the errno of the failure.
\<close>

record kernel =
  socket_of :: "history \<Rightarrow> errno + fd"
  bind_of :: "history \<Rightarrow> fd \<Rightarrow> errno option"
  listen_of :: "history \<Rightarrow> fd \<Rightarrow> errno option"
  accept_of :: "history \<Rightarrow> fd \<Rightarrow> errno + fd"
  recv_of :: "history \<Rightarrow> fd \<Rightarrow> errno + int list"
  send_of :: "history \<Rightarrow> fd \<Rightarrow> int list \<Rightarrow> errno + nat"
  select_of :: "history \<Rightarrow> fd list \<Rightarrow> errno + nat \<times> fd list"
  poll_of :: "history \<Rightarrow> fd list \<Rightarrow> errno + nat \<times> 16 word list"
  queue_of :: "history \<Rightarrow> errno + fd"
  watch_of :: "history \<Rightarrow> fd \<Rightarrow> errno option"
  epoll_of :: "history \<Rightarrow> errno + fd option"
  kevent_of :: "history \<Rightarrow> errno + (fd \<times> bool) option"
  fork_of :: "history \<Rightarrow> int"
  open_of :: "history \<Rightarrow> string \<Rightarrow> errno + fd"
  dup2_of :: "history \<Rightarrow> fd \<Rightarrow> fd \<Rightarrow> errno option"
  setsid_of :: "history \<Rightarrow> errno option"

section \<open>One exchange with a client\<close>

text \<open>
  The buffer is an int with the value 0; the bytes that come replace its first ones. The kernel gives
  at most the four bytes that were asked for. The result is Inl for -1 with its errno, and else the number.
\<close>

definition received_int :: "int list \<Rightarrow> int option" where
  "received_int bytes = bytes_int (bytes @ replicate (4 - length bytes) 0)"

definition interact :: "kernel \<Rightarrow> fd \<Rightarrow> history \<Rightarrow> ((errno + nat) \<times> history) option" where
  "interact K client_sock h = (case recv_of K h client_sock of
     Inl e \<Rightarrow> Some (Inl e, h @ [Recv client_sock])
   | Inr bytes \<Rightarrow>
       if bytes = [] then Some (Inr 0, h @ [Recv client_sock])
       else do {
         buffer \<leftarrow> received_int bytes;
         let h = h @ [Recv client_sock, Say_Received buffer];
         buffer \<leftarrow> c_int (buffer + 1);
         Some (case send_of K h client_sock (int_bytes buffer) of
             Inl e \<Rightarrow> (Inl e, h @ [Send client_sock (int_bytes buffer)])
           | Inr sent \<Rightarrow> (Inr sent, h @ [Send client_sock (int_bytes buffer)] @ (if 0 < sent then [Say_Sent buffer] else []))) })"

definition again :: "errno \<Rightarrow> bool" where
  "again e \<longleftrightarrow> \<not> (e \<noteq> EWOULDBLOCK \<and> e \<noteq> EAGAIN)"

section \<open>The socket of a server\<close>

definition server_socket :: "kernel \<Rightarrow> history \<Rightarrow> fd option \<times> history" where
  "server_socket K h = (case socket_of K h of
     Inl e \<Rightarrow> (None, h @ [Socket, Say_Error e])
   | Inr server \<Rightarrow> (let h = h @ [Socket] in
       case bind_of K h server of
         Some e \<Rightarrow> (None, h @ [Bind server, Say_Bind_Error e])
       | None \<Rightarrow> (let h = h @ [Bind server] in
           case listen_of K h server of
             Some e \<Rightarrow> (None, h @ [Listen server, Say_Listen_Error e])
           | None \<Rightarrow> (Some server, h @ [Listen server]))))"

text \<open>
  The turns of a loop: a turn gives False when it breaks out of the loop, and else the state for the
  next one. The status of a main function after some turns is that it runs, or the value it returned.
\<close>

fun turns :: "('s \<Rightarrow> (bool \<times> 's) option) \<Rightarrow> nat \<Rightarrow> 's \<Rightarrow> (bool \<times> 's) option" where
  "turns turn 0 s = Some (True, s)"
| "turns turn (Suc n) s = (case turn s of
     None \<Rightarrow> None
   | Some (going, s) \<Rightarrow> if going then turns turn n s else Some (False, s))"

datatype status = Running | Returned int

section \<open>The server on select\<close>

text \<open>FD_SET and FD_ISSET are for descriptors below FD_SETSIZE.\<close>

definition fdset_ok :: "fd \<Rightarrow> bool" where
  "fdset_ok c \<longleftrightarrow> 0 \<le> c \<and> c < 1024"

fun fill_clients :: "fd list \<Rightarrow> fd list \<Rightarrow> fd \<Rightarrow> (fd list \<times> fd) option" where
  "fill_clients fds [] max_fd = Some (fds, max_fd)"
| "fill_clients fds (c # clients) max_fd =
     (if fdset_ok c then fill_clients (fds @ [c]) clients (if max_fd < c then c else max_fd) else None)"

definition fill_fdset :: "fd list \<Rightarrow> fd \<Rightarrow> (fd list \<times> fd) option" where
  "fill_fdset clients server = (if fdset_ok server then fill_clients [server] clients server else None)"

definition remove_client :: "fd list \<Rightarrow> nat \<Rightarrow> fd list" where
  "remove_client clients i = take i clients @ drop (i + 1) clients"

lemma length_remove_client: "i < length clients \<Longrightarrow> length (remove_client clients i) = length clients - 1"
  by (simp add: remove_client_def)

function select_pass :: "kernel \<Rightarrow> fd list \<Rightarrow> fd list \<Rightarrow> nat \<Rightarrow> nat \<Rightarrow> history \<Rightarrow> (fd list \<times> history) option" where
  "select_pass K readset clients i nfds h =
     (if i < length clients \<and> 0 < nfds then
        let c = clients ! i in
        if \<not> fdset_ok c then None
        else if c \<notin> set readset then select_pass K readset clients (i + 1) nfds h
        else (case interact K c (h @ [Say_Interact c]) of
            None \<Rightarrow> None
          | Some (Inl e, h) \<Rightarrow>
              if again e then select_pass K readset clients (i + 1) (nfds - 1) (h @ [Say_Error e])
              else Some (clients, h @ [Say_Error e])
          | Some (Inr rc, h) \<Rightarrow>
              if rc = 0 then select_pass K readset (remove_client clients i) (i + 1) (nfds - 1) (h @ [Say_Disconnected])
              else select_pass K readset clients (i + 1) (nfds - 1) h)
      else Some (clients, h))"
  by pat_completeness auto
termination
  by (relation "measure (\<lambda>(K, readset, clients, i, nfds, h). length clients - i)") (auto simp: length_remove_client)

declare select_pass.simps [simp del]

definition select_turn :: "kernel \<Rightarrow> fd \<Rightarrow> fd list \<times> history \<Rightarrow> (bool \<times> fd list \<times> history) option" where
  "select_turn K server = (\<lambda>(clients, h). do {
     (readset, max_fd) \<leftarrow> fill_fdset clients server;
     let watched = filter (\<lambda>c. c < max_fd + 1) readset;
     case select_of K h watched of
       Inl e \<Rightarrow> Some (False, clients, h @ [Wait watched, Say_Error e])
     | Inr (nfds, readset) \<Rightarrow> (let h = h @ [Wait watched] in
         if nfds = 0 then Some (True, clients, h @ [Say_Timeout])
         else if server \<in> set readset then
           (case accept_of K h server of
              Inl e \<Rightarrow> Some (False, clients, h @ [Accept server, Say_Error e])
            | Inr client_sock \<Rightarrow>
                map_option (Pair True)
                  (select_pass K readset (clients @ [client_sock]) 0 (nfds - 1) (h @ [Accept server, Say_New_Client])))
         else map_option (Pair True) (select_pass K readset clients 0 nfds h)) })"

definition select_main :: "kernel \<Rightarrow> nat \<Rightarrow> (status \<times> history) option" where
  "select_main K n = (case server_socket K [] of
     (None, h) \<Rightarrow> Some (Returned (-1), h)
   | (Some server, h) \<Rightarrow> do {
       (going, clients, h) \<leftarrow> turns (select_turn K server) n ([], h);
       Some (if going then (Running, h) else (Returned 0, h @ [Close server] @ map Close clients)) })"

section \<open>The server on poll\<close>

text \<open>
  events is POLLIN in every entry. revents is None until poll has written it: the entry that
  realloc has added has nothing there.
\<close>

record pollfd =
  fd :: fd
  revents :: "16 word option"

definition POLLIN :: "16 word" where
  "POLLIN = 1"

unbundle bit_operations_syntax

definition pollin :: "16 word \<Rightarrow> bool" where
  "pollin r \<longleftrightarrow> r AND POLLIN \<noteq> 0"

definition set_revents :: "pollfd list \<Rightarrow> 16 word list \<Rightarrow> pollfd list" where
  "set_revents fds rs = map2 (\<lambda>p r. p\<lparr>revents := Some r\<rparr>) fds rs"

definition remove_pollfd :: "pollfd list \<Rightarrow> nat \<Rightarrow> pollfd list" where
  "remove_pollfd fds i = take i fds @ drop (i + 1) fds"

lemma length_remove_pollfd: "i < length fds \<Longrightarrow> length (remove_pollfd fds i) = length fds - 1"
  by (simp add: remove_pollfd_def)

function poll_pass :: "kernel \<Rightarrow> pollfd list \<Rightarrow> nat \<Rightarrow> nat \<Rightarrow> history \<Rightarrow> (pollfd list \<times> history) option" where
  "poll_pass K fds i nfds h =
     (if i < length fds \<and> 0 < nfds then
        (case revents (fds ! i) of
           None \<Rightarrow> None
         | Some r \<Rightarrow>
             if \<not> pollin r then poll_pass K fds (i + 1) nfds h
             else (case interact K (fd (fds ! i)) (h @ [Say_Interact (fd (fds ! i))]) of
                 None \<Rightarrow> None
               | Some (Inl e, h) \<Rightarrow>
                   if again e then poll_pass K fds (i + 1) (nfds - 1) (h @ [Say_Error e])
                   else Some (fds, h @ [Say_Error e])
               | Some (Inr rc, h) \<Rightarrow>
                   if rc = 0 then poll_pass K (remove_pollfd fds i) (i + 1) (nfds - 1) (h @ [Say_Disconnected])
                   else poll_pass K fds (i + 1) (nfds - 1) h))
      else Some (fds, h))"
  by pat_completeness auto
termination
  by (relation "measure (\<lambda>(K, fds, i, nfds, h). length fds - i)") (auto simp: length_remove_pollfd)

declare poll_pass.simps [simp del]

text \<open>A call of poll that fails leaves the entries as they were; one that times out clears revents.\<close>

definition poll_turn :: "kernel \<Rightarrow> fd \<Rightarrow> pollfd list \<times> history \<Rightarrow> (bool \<times> pollfd list \<times> history) option" where
  "poll_turn K server = (\<lambda>(fds, h).
     case poll_of K h (map fd fds) of
       Inl e \<Rightarrow> Some (False, fds, h @ [Wait (map fd fds), Say_Error e])
     | Inr (nfds, rs) \<Rightarrow> (let h = h @ [Wait (map fd fds)]; fds = set_revents fds rs in
         if nfds = 0 then Some (True, fds, h @ [Say_Timeout])
         else do {
           entry \<leftarrow> cget fds 0;
           r \<leftarrow> revents entry;
           if pollin r then
             (case accept_of K h server of
                Inl e \<Rightarrow> Some (False, fds, h @ [Accept server, Say_Error e])
              | Inr client_sock \<Rightarrow>
                  map_option (Pair True)
                    (poll_pass K (fds @ [\<lparr>fd = client_sock, revents = None\<rparr>]) 0 (nfds - 1) (h @ [Accept server, Say_New_Client])))
           else map_option (Pair True) (poll_pass K fds 0 nfds h) }))"

definition poll_main :: "kernel \<Rightarrow> nat \<Rightarrow> (status \<times> history) option" where
  "poll_main K n = (case server_socket K [] of
     (None, h) \<Rightarrow> Some (Returned (-1), h)
   | (Some server, h) \<Rightarrow> do {
       (going, fds, h) \<leftarrow> turns (poll_turn K server) n ([\<lparr>fd = server, revents = None\<rparr>], h);
       Some (if going then (Running, h) else (Returned 0, h @ map (Close \<circ> fd) fds @ [Close server])) })"

section \<open>The daemon\<close>

text \<open>
  read and write of a socket are recv and send without flags, and interact is the same. The loop
  stops at every error. daemonize runs in the parent and in the child: fork gives the number of the child
  to the parent, which exits, and 0 to the child; when it fails the process goes on. STDIN_FILENO,
  STDOUT_FILENO and STDERR_FILENO are 0, 1 and 2; setsid fails with Some errno.
\<close>

function daemon_pass :: "kernel \<Rightarrow> pollfd list \<Rightarrow> nat \<Rightarrow> nat \<Rightarrow> history \<Rightarrow> (pollfd list \<times> history) option" where
  "daemon_pass K fds i nfds h =
     (if i < length fds \<and> 0 < nfds then
        (case revents (fds ! i) of
           None \<Rightarrow> None
         | Some r \<Rightarrow>
             if \<not> pollin r then daemon_pass K fds (i + 1) nfds h
             else (case interact K (fd (fds ! i)) (h @ [Say_Interact (fd (fds ! i))]) of
                 None \<Rightarrow> None
               | Some (Inl e, h) \<Rightarrow> Some (fds, h @ [Say_Error e])
               | Some (Inr rc, h) \<Rightarrow>
                   if rc = 0 then daemon_pass K (remove_pollfd fds i) (i + 1) (nfds - 1) (h @ [Say_Disconnected])
                   else daemon_pass K fds (i + 1) (nfds - 1) h))
      else Some (fds, h))"
  by pat_completeness auto
termination
  by (relation "measure (\<lambda>(K, fds, i, nfds, h). length fds - i)") (auto simp: length_remove_pollfd)

declare daemon_pass.simps [simp del]

definition daemon_turn :: "kernel \<Rightarrow> fd \<Rightarrow> pollfd list \<times> history \<Rightarrow> (bool \<times> pollfd list \<times> history) option" where
  "daemon_turn K server = (\<lambda>(fds, h).
     case poll_of K h (map fd fds) of
       Inl e \<Rightarrow> Some (False, fds, h @ [Wait (map fd fds), Say_Error e])
     | Inr (nfds, rs) \<Rightarrow> (let h = h @ [Wait (map fd fds)]; fds = set_revents fds rs in
         if nfds = 0 then Some (True, fds, h @ [Say_Timeout])
         else do {
           entry \<leftarrow> cget fds 0;
           r \<leftarrow> revents entry;
           if pollin r then
             (case accept_of K h server of
                Inl e \<Rightarrow> Some (False, fds, h @ [Accept server, Say_Error e])
              | Inr client_sock \<Rightarrow>
                  map_option (Pair True)
                    (daemon_pass K (fds @ [\<lparr>fd = client_sock, revents = None\<rparr>]) 0 (nfds - 1) (h @ [Accept server, Say_New_Client])))
           else map_option (Pair True) (daemon_pass K fds 0 nfds h) }))"

text \<open>Inl is the exit of the process, Inr what daemonize returns: Some errno for -1.\<close>

definition daemonize :: "kernel \<Rightarrow> string \<Rightarrow> history \<Rightarrow> (int + errno option) \<times> history" where
  "daemonize K log_file h =
     (if 0 < fork_of K h then (Inl 0, h @ [Fork, Exit 0])
      else (let h = h @ [Fork] in
        case open_of K h log_file of
          Inl e \<Rightarrow> (Inr (Some e), h @ [Open log_file, Say_Open_Error])
        | Inr f \<Rightarrow> (let h = h @ [Open log_file]; rc = dup2_of K h f 1; h = h @ [Dup2 f 1, Close f] in
            case rc of
              Some e \<Rightarrow> (Inr (Some e), h @ [Say_Dup_Error])
            | None \<Rightarrow> (let h = h @ [Close 0, Close 2] in (Inr (setsid_of K h), h @ [Setsid])))))"

definition daemon_main :: "kernel \<Rightarrow> string \<Rightarrow> nat \<Rightarrow> (status \<times> history) option" where
  "daemon_main K log_file n = (case daemonize K log_file [] of
     (Inl rc, h) \<Rightarrow> Some (Returned rc, h)
   | (Inr (Some e), h) \<Rightarrow> Some (Returned (-1), h @ [Say_Error e])
   | (Inr None, h) \<Rightarrow> (case server_socket K h of
       (None, h) \<Rightarrow> Some (Returned (-1), h)
     | (Some server, h) \<Rightarrow> do {
         (going, fds, h) \<leftarrow> turns (daemon_turn K server) n ([\<lparr>fd = server, revents = None\<rparr>], h);
         Some (if going then (Running, h) else (Returned 0, h @ map (Close \<circ> fd) fds @ [Close server])) }))"

section \<open>The servers on epoll and kqueue\<close>

text \<open>
  They keep no list: the kernel knows the sockets that are watched. One event is asked for at a time.
\<close>

definition epoll_turn :: "kernel \<Rightarrow> fd \<Rightarrow> history \<Rightarrow> (bool \<times> history) option" where
  "epoll_turn K server h = (case epoll_of K h of
     Inl e \<Rightarrow> Some (False, h @ [Wait [], Say_Error e])
   | Inr None \<Rightarrow> Some (True, h @ [Wait [], Say_Timeout])
   | Inr (Some c) \<Rightarrow> (let h = h @ [Wait []] in
       if c = server then
         (case accept_of K h server of
            Inl e \<Rightarrow> Some (False, h @ [Accept server, Say_Error e])
          | Inr client_sock \<Rightarrow> (let h = h @ [Accept server, Say_New_Client] in
              case watch_of K h client_sock of
                Some e \<Rightarrow> Some (False, h @ [Watch client_sock, Say_Error e])
              | None \<Rightarrow> Some (True, h @ [Watch client_sock])))
       else (case interact K c (h @ [Say_Interact c]) of
           None \<Rightarrow> None
         | Some (Inl e, h) \<Rightarrow> Some (again e, h @ [Say_Error e])
         | Some (Inr rc, h) \<Rightarrow> Some (True, h @ (if rc = 0 then [Say_Disconnected, Unwatch c, Close c] else [])))))"

definition kqueue_turn :: "kernel \<Rightarrow> fd \<Rightarrow> history \<Rightarrow> (bool \<times> history) option" where
  "kqueue_turn K server h = (case kevent_of K h of
     Inl e \<Rightarrow> Some (False, h @ [Wait [], Say_Error e])
   | Inr None \<Rightarrow> Some (True, h @ [Wait [], Say_Timeout])
   | Inr (Some (c, eof)) \<Rightarrow> (let h = h @ [Wait []] in
       if c = server then
         (case accept_of K h server of
            Inl e \<Rightarrow> Some (False, h @ [Accept server, Say_Error e])
          | Inr client_sock \<Rightarrow> (let h = h @ [Accept server, Say_New_Client] in
              case watch_of K h client_sock of
                Some e \<Rightarrow> Some (False, h @ [Watch client_sock, Say_Error e])
              | None \<Rightarrow> Some (True, h @ [Watch client_sock])))
       else (case interact K c (h @ [Say_Interact c]) of
           None \<Rightarrow> None
         | Some (Inl e, h) \<Rightarrow> Some (again e, h @ [Say_Error e])
         | Some (Inr rc, h) \<Rightarrow> Some (True, h @ (if eof then [Say_Disconnected, Close c] else [])))))"

text \<open>The two main functions differ in the turn, and in what the queue is called.\<close>

definition queue_server :: "(kernel \<Rightarrow> fd \<Rightarrow> history \<Rightarrow> (bool \<times> history) option) \<Rightarrow> kernel \<Rightarrow> nat \<Rightarrow> (status \<times> history) option" where
  "queue_server turn K n = (case server_socket K [] of
     (None, h) \<Rightarrow> Some (Returned (-1), h)
   | (Some server, h) \<Rightarrow> (case queue_of K h of
       Inl e \<Rightarrow> Some (Returned (-1), h @ [Create_Queue, Say_Error e, Close server])
     | Inr queue \<Rightarrow> (let h = h @ [Create_Queue] in
         case watch_of K h server of
           Some e \<Rightarrow> Some (Returned (-1), h @ [Watch server, Say_Error e, Close server])
         | None \<Rightarrow> do {
             (going, h) \<leftarrow> turns (turn K server) n (h @ [Watch server]);
             Some (if going then (Running, h) else (Returned 0, h @ [Close queue, Close server])) })))"

definition epoll_main :: "kernel \<Rightarrow> nat \<Rightarrow> (status \<times> history) option" where
  "epoll_main = queue_server epoll_turn"

definition kqueue_main :: "kernel \<Rightarrow> nat \<Rightarrow> (status \<times> history) option" where
  "kqueue_main = queue_server kqueue_turn"

section \<open>Select and poll\<close>

text \<open>
  What the two calls have in common: on the same descriptors they fail alike, or the same number is ready,
  and POLLIN is set in the entries of the descriptors in the set. A new connection comes alone when
  the listening socket is never ready together with another one.
\<close>

definition kernel_agrees :: "kernel \<Rightarrow> bool" where
  "kernel_agrees K \<longleftrightarrow> (\<forall>h fds. case (select_of K h fds, poll_of K h fds) of
     (Inl e, Inl e') \<Rightarrow> e = e'
   | (Inr (nfds, readset), Inr (nfds', rs)) \<Rightarrow>
       nfds = nfds' \<and> length rs = length fds \<and> (\<forall>i < length fds. pollin (rs ! i) \<longleftrightarrow> fds ! i \<in> set readset)
   | _ \<Rightarrow> False)"

definition connects_alone :: "kernel \<Rightarrow> bool" where
  "connects_alone K \<longleftrightarrow> (\<forall>h server fds nfds readset.
     select_of K h (server # fds) = Inr (nfds, readset) \<longrightarrow> server \<in> set readset \<longrightarrow> nfds \<le> 1)"

definition small_fds :: "kernel \<Rightarrow> bool" where
  "small_fds K \<longleftrightarrow> (\<forall>h server c. (socket_of K h = Inr c \<longrightarrow> fdset_ok c) \<and> (accept_of K h server = Inr c \<longrightarrow> fdset_ok c))"

lemma fill_clients_all:
  "list_all fdset_ok cs \<Longrightarrow> \<exists>m. fill_clients fds cs max_fd = Some (fds @ cs, m) \<and> max_fd \<le> m \<and> (\<forall>c \<in> set cs. c \<le> m)"
proof (induction cs arbitrary: fds max_fd)
  case (Cons c cs)
  have big: "(if max_fd < c then c else max_fd) = max max_fd c" by auto
  obtain m where "fill_clients (fds @ [c]) cs (max max_fd c) = Some (fds @ [c] @ cs, m)"
    "max max_fd c \<le> m" "\<forall>c \<in> set cs. c \<le> m"
    using Cons.IH [of "fds @ [c]" "max max_fd c"] Cons.prems by auto
  then show ?case using Cons.prems by (simp add: big)
qed simp

lemma fill_fdset_all:
  assumes "fdset_ok server" "list_all fdset_ok clients"
  shows "\<exists>m. fill_fdset clients server = Some (server # clients, m) \<and> filter (\<lambda>c. c < m + 1) (server # clients) = server # clients"
proof -
  obtain m where m: "fill_clients [server] clients server = Some (server # clients, m)" "server \<le> m" "\<forall>c \<in> set clients. c \<le> m"
    using fill_clients_all [OF assms(2), of "[server]" server] by auto
  then have "filter (\<lambda>c. c < m + 1) (server # clients) = server # clients" by (auto intro!: filter_True)
  with m(1) show ?thesis using assms(1) by (auto simp: fill_fdset_def)
qed

lemma remove_client_Suc: "remove_pollfd (e # es) (Suc i) = e # remove_pollfd es i"
  by (simp add: remove_pollfd_def)

lemma map_fd_remove: "map fd (remove_pollfd es i) = remove_client (map fd es) i"
  by (simp add: remove_pollfd_def remove_client_def take_map drop_map)

lemma set_remove: "set (remove_pollfd es i) \<subseteq> set es"
  by (auto simp: remove_pollfd_def dest: in_set_takeD in_set_dropD)

lemma set_remove_client: "set (remove_client cs i) \<subseteq> set cs"
  by (auto simp: remove_client_def dest: in_set_takeD in_set_dropD)

definition polled :: "fd list \<Rightarrow> pollfd \<Rightarrow> bool" where
  "polled readset e \<longleftrightarrow> fdset_ok (fd e) \<and> (\<exists>r. revents e = Some r \<and> (pollin r \<longleftrightarrow> fd e \<in> set readset))"

lemma poll_pass_is_select_pass:
  assumes "list_all (polled readset) es"
  shows "map_option (map_prod (map fd) (\<lambda>h. h)) (poll_pass K (e # es) (Suc i) nfds h)
       = map_option (map_prod (Cons (fd e)) (\<lambda>h. h)) (select_pass K readset (map fd es) i nfds h)"
  using assms
proof (induction "length es - i" arbitrary: es i nfds h rule: less_induct)
  case less
  show ?case
  proof (cases "i < length es \<and> 0 < nfds")
    case False
    then have "length es \<le> i \<or> nfds = 0" by auto
    then show ?thesis by (elim disjE) (simp_all add: poll_pass.simps [of K _ "Suc i"] select_pass.simps [of K _ _ i])
  next
    case True
    have "polled readset (es ! i)" using True less.prems by (simp add: list_all_length)
    then obtain r where r: "revents (es ! i) = Some r" "pollin r \<longleftrightarrow> fd (es ! i) \<in> set readset" "fdset_ok (fd (es ! i))"
      by (auto simp: polled_def)
    have next': "map_option (map_prod (map fd) (\<lambda>h. h)) (poll_pass K (e # es) (Suc (Suc i)) m g)
       = map_option (map_prod (Cons (fd e)) (\<lambda>h. h)) (select_pass K readset (map fd es) (Suc i) m g)" for m g
      using True less.prems by (intro less.hyps) auto
    have removed: "map_option (map_prod (map fd) (\<lambda>h. h)) (poll_pass K (e # remove_pollfd es i) (Suc (Suc i)) m g)
       = map_option (map_prod (Cons (fd e)) (\<lambda>h. h)) (select_pass K readset (map fd (remove_pollfd es i)) (Suc i) m g)" for m g
      using True less.prems set_remove [of es i]
      by (intro less.hyps) (auto simp: length_remove_pollfd list_all_iff)
    show ?thesis
      using True r next' removed
      by (simp add: poll_pass.simps [of K _ "Suc i"] select_pass.simps [of K _ _ i] remove_client_Suc map_fd_remove
          split: option.split sum.split)
  qed
qed

lemma select_pass_clients:
  "select_pass K readset clients i nfds h = Some (clients', h') \<Longrightarrow> set clients' \<subseteq> set clients"
proof (induction "length clients - i" arbitrary: clients i nfds h rule: less_induct)
  case less
  have step: "set clients' \<subseteq> set clients"
    if "select_pass K readset cs (Suc i) m g = Some (clients', h')" "cs = clients \<or> cs = remove_client clients i" "i < length clients" for cs m g
  proof -
    have "length cs - Suc i < length clients - i" using that(2,3) by (auto simp: length_remove_client)
    with less.hyps [OF this that(1)] that(2) set_remove_client [of clients i] show ?thesis by blast
  qed
  with less.prems show ?case
    by (subst (asm) select_pass.simps)
      (fastforce simp: Let_def split: if_splits option.splits sum.splits dest: step [OF _ disjI1 [OF refl]] step [OF _ disjI2 [OF refl]])
qed

lemma turns_related:
  assumes "\<And>s t. R s t \<Longrightarrow> rel_option (rel_prod (=) R) (f s) (g t)" "R s t"
  shows "rel_option (rel_prod (=) R) (turns f n s) (turns g n t)"
  using assms(2)
proof (induction n arbitrary: s t)
  case (Suc n)
  from assms(1) [OF Suc.prems] show ?case
    by (cases rule: option.rel_cases) (auto simp: Suc.IH split: prod.splits)
qed simp

definition same_clients :: "fd \<Rightarrow> pollfd list \<times> history \<Rightarrow> fd list \<times> history \<Rightarrow> bool" where
  "same_clients server = (\<lambda>(fds, h) (clients, g).
     map fd fds = server # clients \<and> h = g \<and> fdset_ok server \<and> list_all fdset_ok clients)"

lemma passes_related:
  assumes "list_all (polled readset) es" "fdset_ok (fd e)" "server = fd e" "clients = map fd es"
  shows "rel_option (same_clients server) (poll_pass K (e # es) (Suc 0) nfds h) (select_pass K readset clients 0 nfds h)"
proof -
  have "list_all fdset_ok clients" using assms(1,4) by (auto simp: list_all_iff polled_def)
  then have "list_all fdset_ok cs" if "select_pass K readset clients 0 nfds h = Some (cs, g)" for cs g
    using select_pass_clients [OF that] by (auto simp: list_all_iff)
  then show ?thesis
    using poll_pass_is_select_pass [OF assms(1), of K e 0 nfds h] assms(2-4)
    by (cases "poll_pass K (e # es) (Suc 0) nfds h"; cases "select_pass K readset clients 0 nfds h")
      (auto simp: same_clients_def)
qed

lemma turn_related:
  assumes K: "kernel_agrees K" "connects_alone K" "small_fds K"
    and s: "same_clients server s t"
  shows "rel_option (rel_prod (=) (same_clients server)) (poll_turn K server s) (select_turn K server t)"
proof -
  obtain fds clients h where st: "s = (fds, h)" "t = (clients, h)" and fds: "map fd fds = server # clients"
    and ok: "fdset_ok server" "list_all fdset_ok clients"
    using s by (cases s; cases t) (auto simp: same_clients_def)
  obtain m where fill: "fill_fdset clients server = Some (server # clients, m)"
    "filter (\<lambda>c. c < m + 1) (server # clients) = server # clients"
    using fill_fdset_all [OF ok] by blast
  have agree: "case (select_of K h (server # clients), poll_of K h (server # clients)) of
     (Inl e, Inl e') \<Rightarrow> e = e'
   | (Inr (nfds, readset), Inr (nfds', rs)) \<Rightarrow> nfds = nfds' \<and> length rs = length (server # clients) \<and>
       (\<forall>i < length (server # clients). pollin (rs ! i) \<longleftrightarrow> (server # clients) ! i \<in> set readset)
   | _ \<Rightarrow> False"
    using K(1) unfolding kernel_agrees_def by blast
  show ?thesis
  proof (cases "select_of K h (server # clients)")
    case (Inl e)
    with agree have "poll_of K h (server # clients) = Inl e" by (simp split: sum.splits)
    with Inl show ?thesis
      using fill fds ok by (simp add: st select_turn_def poll_turn_def same_clients_def)
  next
    case (Inr a)
    obtain nfds readset where a: "a = (nfds, readset)" by (cases a)
    obtain rs where p: "poll_of K h (server # clients) = Inr (nfds, rs)" "length rs = Suc (length clients)"
      and ready: "\<And>i. i < Suc (length clients) \<Longrightarrow> pollin (rs ! i) \<longleftrightarrow> (server # clients) ! i \<in> set readset"
      using agree by (auto simp: Inr a split: sum.splits prod.splits)
    obtain r rs' where rs: "rs = r # rs'" "length rs' = length clients" using p(2) by (cases rs) auto
    obtain e es where e: "fds = e # es" "fd e = server" "map fd es = clients" using fds by (cases fds) auto
    have set: "set_revents fds rs = e\<lparr>revents := Some r\<rparr> # set_revents es rs'" by (simp add: set_revents_def e rs)
    have es: "map fd (set_revents es rs') = clients"
      using rs(2) by (auto simp: set_revents_def e(3) [symmetric] list_eq_iff_nth_eq)
    have polled: "list_all (polled readset) (set_revents es rs')"
      using rs(2) ok(2) ready [of "Suc _"]
      by (auto simp: list_all_length polled_def set_revents_def rs e(3) [symmetric])
    have first: "pollin r \<longleftrightarrow> server \<in> set readset" using ready [of 0] by (simp add: rs)
    show ?thesis
    proof (cases "nfds = 0 \<or> pollin r")
      case True
      have "nfds \<le> 1" if "pollin r"
        using that first K(2) Inr a unfolding connects_alone_def by blast
      with True consider "nfds = 0" | "nfds = 1" "pollin r" by force
      then show ?thesis
        using fill fds ok p Inr a set e es first K(3)
        by cases (simp_all add: st select_turn_def poll_turn_def same_clients_def cget_def small_fds_def Let_def
            poll_pass.simps [of K _ 0 0] select_pass.simps [of K _ _ 0 0] split: sum.split)
    next
      case False
      have "rel_option (same_clients server) (poll_pass K (e\<lparr>revents := Some r\<rparr> # set_revents es rs') (Suc 0) nfds g)
          (select_pass K readset clients 0 nfds g)" for g
        by (rule passes_related [OF polled]) (simp_all add: ok(1) e(2) es)
      then show ?thesis
        using False fill fds p Inr a set e(2) first
        by (simp add: Let_def st select_turn_def poll_turn_def cget_def poll_pass.simps [of K _ 0 nfds] option.rel_map)
    qed
  qed
qed

text \<open>
  A kernel for examples: which descriptors are ready at each wait, and what a client sends. Waiting fails when
  the list is at its end, as a signal makes it, a client that has sent all has disconnected, and
  reading from the listening socket fails with ENOTCONN, which is 107.
\<close>

definition scripted :: "fd list list \<Rightarrow> (fd \<Rightarrow> int list list) \<Rightarrow> kernel" where
  "scripted waits inputs = (let ready = \<lambda>h. (let k = length (filter (\<lambda>e. case e of Wait _ \<Rightarrow> True | _ \<Rightarrow> False) h) in
       if k < length waits then Inr (waits ! k) else Inl (Other_Error 4)) in \<lparr>
     socket_of = \<lambda>h. Inr 3,
     bind_of = \<lambda>h s. None,
     listen_of = \<lambda>h s. None,
     accept_of = \<lambda>h s. Inr (4 + int (count_list h (Accept s)) mod 1000),
     recv_of = \<lambda>h c. if c = 3 then Inl (Other_Error 107)
       else (let k = count_list h (Recv c) in if k < length (inputs c) then Inr (inputs c ! k) else Inr []),
     send_of = \<lambda>h c bytes. Inr (length bytes),
     select_of = \<lambda>h fds. map_sum (\<lambda>e. e) (\<lambda>r. (length r, r)) (ready h),
     poll_of = \<lambda>h fds. map_sum (\<lambda>e. e) (\<lambda>r. (length r, map (\<lambda>c. if c \<in> set r then POLLIN else 0) fds)) (ready h),
     queue_of = \<lambda>h. Inr 5,
     watch_of = \<lambda>h c. None,
     epoll_of = \<lambda>h. map_sum (\<lambda>e. e) (\<lambda>r. if r = [] then None else Some (hd r)) (ready h),
     kevent_of = \<lambda>h. map_sum (\<lambda>e. e) (\<lambda>r. if r = [] then None else Some (hd r, False)) (ready h),
     fork_of = \<lambda>h. 0,
     open_of = \<lambda>h f. Inr 3,
     dup2_of = \<lambda>h f g. None,
     setsid_of = \<lambda>h. None\<rparr>)"

lemma pollin_POLLIN [simp]: "pollin POLLIN" "\<not> pollin 0"
  by (simp_all add: pollin_def POLLIN_def)

lemma scripted_agrees: "kernel_agrees (scripted waits inputs)"
  by (auto simp: kernel_agrees_def scripted_def Let_def)

lemma scripted_small: "small_fds (scripted waits inputs)"
  using pos_mod_bound [of 1000] by (auto simp: small_fds_def scripted_def Let_def fdset_ok_def)

definition one_client :: kernel where
  "one_client = scripted [[3], [4], [4]] (\<lambda>c. if c = 4 then [[41, 0, 0, 0]] else [])"

lemma one_client_alone: "connects_alone one_client"
  by (auto simp: connects_alone_def one_client_def scripted_def Let_def nth_Cons split: if_splits nat.splits)

text \<open>C32: The servers on select and on poll do the same: after any number of turns both still run or both have
  returned the same value, with the same calls and prints in the same order; but the server on poll
  closes its listening socket twice when it returns 0. This holds for every behaviour of the clients under three
  conditions. A new connection never comes together with a request of a client (connects_alone;
  otherwise poll_starves_clients). All descriptors are below FD_SETSIZE (small_fds); the servers do
  not close the sockets of the clients who left (select_loses_sockets), so this is a bound of about a thousand on
  the clients over the whole run, and FD_SET past it is undefined, while poll goes on. And the two
  calls agree on what is readable (kernel_agrees): a hangup or an error, which select reports as
  readable, comes with POLLIN, the only bit that the server on poll tests (poll_ignores_hangup).\<close>

theorem select_and_poll_agree:
  assumes "kernel_agrees K" "connects_alone K" "small_fds K"
  shows "poll_main K n =
    map_option (\<lambda>(st, h). (st, if st = Returned 0 then h @ [Close (projr (socket_of K []))] else h)) (select_main K n)"
proof (cases "server_socket K []")
  case (Pair r h)
  show ?thesis
  proof (cases r)
    case (Some server)
    then have server: "socket_of K [] = Inr server"
      using Pair by (auto simp: server_socket_def Let_def split: sum.splits option.splits)
    then have "same_clients server ([\<lparr>fd = server, revents = None\<rparr>], h) ([], h)"
      using assms(3) by (auto simp: same_clients_def small_fds_def)
    from turns_related [OF turn_related [OF assms] this, where n = n] show ?thesis
      by (cases rule: option.rel_cases)
        (auto simp: poll_main_def select_main_def Pair Some server same_clients_def simp flip: map_map)
  qed (simp add: poll_main_def select_main_def Pair)
qed

lemma one_client_served: "select_main one_client 4 = Some (Returned 0,
   [Socket, Bind 3, Listen 3, Wait [3], Accept 3, Say_New_Client,
    Wait [3, 4], Say_Interact 4, Recv 4, Say_Received 41, Send 4 [42, 0, 0, 0], Say_Sent 42,
    Wait [3, 4], Say_Interact 4, Recv 4, Say_Disconnected,
    Wait [3], Say_Error (Other_Error 4), Close 3])"
  by code_simp

theorem select_and_poll_agree_witness:
  "kernel_agrees one_client \<and> connects_alone one_client \<and> small_fds one_client \<and>
   (\<exists>h. poll_main one_client 4 = Some (Returned 0, h @ [Send 4 [42, 0, 0, 0], Say_Sent 42,
     Wait [3, 4], Say_Interact 4, Recv 4, Say_Disconnected, Wait [3], Say_Error (Other_Error 4), Close 3, Close 3]))"
proof -
  have K: "kernel_agrees one_client" "connects_alone one_client" "small_fds one_client"
    using one_client_alone scripted_agrees scripted_small by (simp_all add: one_client_def)
  have "projr (socket_of one_client []) = 3" by code_simp
  with select_and_poll_agree [OF K, of 4] K show ?thesis
    by (simp add: one_client_served)
qed

text \<open>When poll reports only events other than POLLIN, such as POLLHUP or POLLERR alone, the server does
  nothing about them and calls poll again at once.\<close>

lemma poll_pass_without_pollin:
  "\<forall>p \<in> set fds. \<exists>r. revents p = Some r \<and> \<not> pollin r \<Longrightarrow> poll_pass K fds i nfds h = Some (fds, h)"
proof (induction "length fds - i" arbitrary: i rule: less_induct)
  case less
  show ?case
  proof (cases "i < length fds \<and> 0 < nfds")
    case True
    then obtain r where "revents (fds ! i) = Some r" "\<not> pollin r" using less.prems nth_mem by blast
    moreover have "poll_pass K fds (i + 1) nfds h = Some (fds, h)" by (rule less.hyps) (use True less.prems in auto)
    ultimately show ?thesis using True by (subst poll_pass.simps) simp
  qed (subst poll_pass.simps, auto)
qed

theorem poll_ignores_hangup:
  assumes "poll_of K h (map fd fds) = Inr (nfds, rs)" "0 < nfds" "length rs = length fds" "fds \<noteq> []" "\<forall>r \<in> set rs. \<not> pollin r"
  shows "poll_turn K server (fds, h) = Some (True, set_revents fds rs, h @ [Wait (map fd fds)])"
proof -
  have all: "\<exists>r. revents p = Some r \<and> \<not> pollin r" if "p \<in> set (set_revents fds rs)" for p
    using that assms(5) by (auto simp: set_revents_def dest: set_zip_rightD)
  have len: "length (set_revents fds rs) = length fds" using assms(3) by (simp add: set_revents_def)
  then have "set_revents fds rs ! 0 \<in> set (set_revents fds rs)" using assms(4) by (intro nth_mem) simp
  from all [OF this] obtain r where "revents (set_revents fds rs ! 0) = Some r" "\<not> pollin r" by blast
  moreover have "cget (set_revents fds rs) 0 = Some (set_revents fds rs ! 0)"
    using len assms(4) by (simp add: cget_def)
  ultimately show ?thesis
    using assms(1,2) poll_pass_without_pollin [of "set_revents fds rs"] all by (simp add: poll_turn_def Let_def)
qed

theorem poll_ignores_hangup_witness:
  "poll_turn (one_client\<lparr>poll_of := \<lambda>h fds. Inr (1, map (\<lambda>_. 16) fds)\<rparr>) 3 ([\<lparr>fd = 3, revents = None\<rparr>], []) =
     Some (True, [\<lparr>fd = 3, revents = Some 16\<rparr>], [Wait [3]])"
proof -
  have "\<not> pollin 16" by code_simp
  then show ?thesis
    by (subst poll_ignores_hangup [where nfds = 1 and rs = "[16]"]) (simp_all add: set_revents_def)
qed

section \<open>What a client gets\<close>

definition exchange :: "(fd \<Rightarrow> int) \<Rightarrow> fd \<Rightarrow> event list" where
  "exchange ask c = [Say_Interact c, Recv c, Say_Received (ask c), Send c (int_bytes (ask c + 1)), Say_Sent (ask c + 1)]"

text \<open>The client has sent an int that is not the largest one, and takes the answer.\<close>

definition asks :: "kernel \<Rightarrow> (fd \<Rightarrow> int) \<Rightarrow> fd \<Rightarrow> bool" where
  "asks K ask c \<longleftrightarrow> int_ok (ask c) \<and> ask c \<noteq> 2 ^ 31 - 1 \<and>
     (\<forall>h. recv_of K h c = Inr (int_bytes (ask c)) \<and> send_of K h c (int_bytes (ask c + 1)) = Inr 4)"

lemma received_int_bytes: "int_ok x \<Longrightarrow> received_int (int_bytes x) = Some x"
  by (simp add: received_int_def bytes_int_bytes)

lemma interact_answers:
  assumes "asks K ask c"
  shows "interact K c (h @ [Say_Interact c]) = Some (Inr 4, h @ exchange ask c)"
proof -
  have "int_ok (ask c + 1)" "int_bytes (ask c) \<noteq> []"
    using assms by (auto simp: asks_def int_ok_def int_bytes_def Let_def)
  with assms show ?thesis
    by (simp add: interact_def asks_def exchange_def received_int_bytes)
qed

text \<open>An int that the server cannot add one to is the one thing a client can send that is not defined.\<close>

theorem interact_defined_iff:
  assumes "recv_of K h c = Inr bytes" "bytes \<noteq> []" "received_int bytes = Some x"
  shows "(\<exists>r. interact K c h = Some r) \<longleftrightarrow> x \<noteq> 2 ^ 31 - 1"
proof -
  have "int_ok x"
    using assms(3) unfolding received_int_def
    by (cases "bytes @ replicate (4 - length bytes) 0" rule: bytes_int.cases) (auto simp: to_int32_ok)
  with assms show ?thesis by (auto simp: interact_def c_int_def int_ok_def Let_def)
qed

lemma select_pass_answers:
  assumes "list_all fdset_ok clients" "\<forall>c \<in> set clients. c \<in> set readset \<longrightarrow> asks K ask c"
    "length (filter (\<lambda>c. c \<in> set readset) (drop i clients)) \<le> nfds"
  shows "select_pass K readset clients i nfds h
    = Some (clients, h @ concat (map (exchange ask) (filter (\<lambda>c. c \<in> set readset) (drop i clients))))"
  using assms(3)
proof (induction "length clients - i" arbitrary: i nfds h rule: less_induct)
  case less
  show ?case
  proof (cases "i < length clients \<and> 0 < nfds")
    case False
    then have "filter (\<lambda>c. c \<in> set readset) (drop i clients) = []" using less.prems by (cases "nfds = 0") auto
    with False show ?thesis by (subst select_pass.simps) auto
  next
    case True
    then have d: "drop i clients = clients ! i # drop (Suc i) clients" by (simp add: Cons_nth_drop_Suc)
    have ok: "fdset_ok (clients ! i)" using assms(1) True by (simp add: list_all_length)
    have IH: "length (filter (\<lambda>c. c \<in> set readset) (drop (Suc i) clients)) \<le> m \<Longrightarrow> select_pass K readset clients (Suc i) m g
      = Some (clients, g @ concat (map (exchange ask) (filter (\<lambda>c. c \<in> set readset) (drop (Suc i) clients))))" for m g
      using True by (intro less.hyps) auto
    show ?thesis
    proof (cases "clients ! i \<in> set readset")
      case ready: True
      then have "asks K ask (clients ! i)" using assms(2) True by auto
      then show ?thesis
        using True ready ok less.prems
        by (subst select_pass.simps) (simp add: interact_answers d IH)
    next
      case False
      then show ?thesis using True ok less.prems by (subst select_pass.simps) (simp add: d IH)
    qed
  qed
qed

text \<open>In a turn of the server on select every client whose socket is ready, and who has sent an int below the largest one, gets the next int, in the order of the list, also when a new connection comes in the same turn; the new client is added at the end and nobody is removed.\<close>

theorem select_turn_answers:
  assumes "fdset_ok server" "list_all fdset_ok clients" "server \<notin> set clients"
    and "select_of K h (server # clients) = Inr (nfds, readset)"
    and "nfds = length (filter (\<lambda>c. c \<in> set readset) (server # clients))" "0 < nfds"
    and "\<forall>c \<in> set clients. c \<in> set readset \<longrightarrow> asks K ask c"
    and "accept_of K (h @ [Wait (server # clients)]) server = Inr new" "fdset_ok new" "new \<notin> set readset"
  shows "select_turn K server (clients, h) = Some (True,
     if server \<in> set readset then clients @ [new] else clients,
     h @ [Wait (server # clients)] @ (if server \<in> set readset then [Accept server, Say_New_Client] else [])
       @ concat (map (exchange ask) (filter (\<lambda>c. c \<in> set readset) clients)))"
proof -
  obtain m where fill: "fill_fdset clients server = Some (server # clients, m)"
    "filter (\<lambda>c. c < m + 1) (server # clients) = server # clients"
    using fill_fdset_all [OF assms(1,2)] by blast
  show ?thesis
  proof (cases "server \<in> set readset")
    case True
    have "select_pass K readset (clients @ [new]) 0 (nfds - 1) g
      = Some (clients @ [new], g @ concat (map (exchange ask) (filter (\<lambda>c. c \<in> set readset) clients)))" for g
      using select_pass_answers [of "clients @ [new]" readset K ask 0 "nfds - 1" g] assms True by simp
    then show ?thesis using assms(4,6,8) fill True by (simp add: select_turn_def Let_def)
  next
    case False
    have "select_pass K readset clients 0 nfds g
      = Some (clients, g @ concat (map (exchange ask) (filter (\<lambda>c. c \<in> set readset) clients)))" for g
      using select_pass_answers [of clients readset K ask 0 nfds g] assms False by simp
    then show ?thesis using assms(4,6) fill False by (simp add: select_turn_def Let_def)
  qed
qed

text \<open>Three clients; the second and the third have a request when a fourth one connects.\<close>

definition busy :: kernel where
  "busy = (scripted [] (\<lambda>c. []))\<lparr>
     select_of := \<lambda>h fds. Inr (3, [3, 5, 6]),
     recv_of := \<lambda>h c. if c = 3 then Inl (Other_Error 107) else Inr (int_bytes (10 * c)),
     accept_of := \<lambda>h s. Inr 7,
     send_of := \<lambda>h c b. Inr 4,
     poll_of := \<lambda>h fds. Inr (3, map (\<lambda>c. if c = 3 \<or> c = 5 \<or> c = 6 then POLLIN else 0) fds)\<rparr>"

theorem select_turn_answers_witness:
  "select_turn busy 3 ([4, 5, 6], []) = Some (True, [4, 5, 6, 7],
     [Wait [3, 4, 5, 6], Accept 3, Say_New_Client] @ exchange (\<lambda>c. 10 * c) 5 @ exchange (\<lambda>c. 10 * c) 6)"
proof -
  have a: "list_all fdset_ok [4, 5, 6]" "fdset_ok 3" "fdset_ok 7" by (simp_all add: fdset_ok_def)
  have b: "\<forall>c \<in> set [4, 5, 6]. c \<in> set [3, 5, 6] \<longrightarrow> asks busy (\<lambda>c. 10 * c) c"
    by (simp add: asks_def busy_def int_ok_def)
  have c: "select_of busy [] [3, 4, 5, 6] = Inr (3, [3, 5, 6])" "accept_of busy h s = Inr 7" for h s
    by (simp_all add: busy_def)
  show ?thesis
    using select_turn_answers [OF a(2,1) _ c(1) _ _ b c(2) a(3)] by simp
qed

section \<open>What does not work\<close>

text \<open>
  The first entry of poll is the listening socket, and the pass over the entries starts there: when
  something else is ready together with a new connection, the pass reads from the listening socket, fails and
  stops. A pass that starts at such an entry gives nobody anything.
\<close>

lemma poll_pass_at_server:
  assumes "fds = e # es" "revents e = Some r" "pollin r" "0 < nfds" "recv_of K (h @ [Say_Interact (fd e)]) (fd e) = Inl err" "\<not> again err"
  shows "poll_pass K fds 0 nfds h = Some (fds, h @ [Say_Interact (fd e), Recv (fd e), Say_Error err])"
  using assms by (subst poll_pass.simps) (simp add: interact_def)

lemma poll_turn_starves:
  assumes "map fd fds = server # clients" "poll_of K h (server # clients) = Inr (nfds, rs)"
    "length rs = Suc (length clients)" "pollin (hd rs)" "2 \<le> nfds"
    "accept_of K (h @ [Wait (server # clients)]) server = Inr new"
    "\<forall>h. recv_of K h server = Inl err" "\<not> again err"
  shows "poll_turn K server (fds, h) = Some (True, set_revents fds rs @ [\<lparr>fd = new, revents = None\<rparr>],
    h @ [Wait (server # clients), Accept server, Say_New_Client, Say_Interact server, Recv server, Say_Error err])"
proof -
  obtain r rs' where rs: "rs = r # rs'" using assms(3) by (cases rs) auto
  obtain e es where e: "fds = e # es" "fd e = server" using assms(1) by (cases fds) auto
  have "set_revents fds rs = e\<lparr>revents := Some r\<rparr> # set_revents es rs'" by (simp add: set_revents_def e rs)
  with assms e rs show ?thesis
    by (simp add: poll_turn_def Let_def cget_def poll_pass_at_server)
qed

text \<open>Every wait answers that a new connection and something else are ready.\<close>

definition connects_always :: "kernel \<Rightarrow> fd \<Rightarrow> bool" where
  "connects_always K server \<longleftrightarrow> (\<forall>h fds. (\<exists>nfds rs new. poll_of K h (server # fds) = Inr (nfds, rs) \<and> 2 \<le> nfds
     \<and> length rs = Suc (length fds) \<and> pollin (hd rs) \<and> accept_of K (h @ [Wait (server # fds)]) server = Inr new))"

text \<open>When a new connection comes at every turn together with requests of clients, the server on poll serves no client ever: after any number of turns it runs, it has never undefined behaviour, and the one socket it has read from is the listening one, which fails.\<close>

theorem poll_starves_clients:
  assumes "connects_always K server" "\<forall>h. recv_of K h server = Inl err" "\<not> again err" "map fd fds = server # clients"
  shows "\<exists>fds' h'. turns (poll_turn K server) n (fds, h) = Some (True, fds', h @ h') \<and> (\<forall>c. Recv c \<in> set h' \<longrightarrow> c = server)"
  using assms(4)
proof (induction n arbitrary: fds clients h)
  case (Suc n)
  obtain nfds rs new where p: "poll_of K h (server # clients) = Inr (nfds, rs)" "2 \<le> nfds"
    "length rs = Suc (length clients)" "pollin (hd rs)" "accept_of K (h @ [Wait (server # clients)]) server = Inr new"
    using assms(1) unfolding connects_always_def by blast
  let ?served = "[Wait (server # clients), Accept server, Say_New_Client, Say_Interact server, Recv server, Say_Error err]"
  let ?fds = "set_revents fds rs @ [\<lparr>fd = new, revents = None\<rparr>]"
  have turn: "poll_turn K server (fds, h) = Some (True, ?fds, h @ ?served)"
    by (rule poll_turn_starves) (use Suc.prems p assms(2,3) in auto)
  have len: "length fds = length rs" using arg_cong [OF Suc.prems, of length] p(3) by simp
  have "map fd (set_revents fds rs) = map fd fds"
    using len by (simp add: set_revents_def list_eq_iff_nth_eq)
  then have "map fd ?fds = server # (clients @ [new])"
    using Suc.prems by simp
  from Suc.IH [OF this, of "h @ ?served"] obtain fds' h' where
    "turns (poll_turn K server) n (?fds, h @ ?served) = Some (True, fds', (h @ ?served) @ h')" "\<forall>c. Recv c \<in> set h' \<longrightarrow> c = server"
    by blast
  with turn show ?case by (intro exI [of _ fds'] exI [of _ "?served @ h'"]) auto
qed simp

theorem poll_starves_clients_witness:
  "\<exists>fds' h'. turns (poll_turn busy 3) 9 (map (\<lambda>c. \<lparr>fd = c, revents = None\<rparr>) [3, 4, 5, 6], []) = Some (True, fds', h')
     \<and> Recv 5 \<notin> set h' \<and> Recv 6 \<notin> set h'"
proof -
  have a: "connects_always busy 3" by (simp add: connects_always_def busy_def)
  have b: "\<forall>h. recv_of busy h 3 = Inl (Other_Error 107)" by (simp add: busy_def)
  have c: "\<not> again (Other_Error 107)" by (simp add: again_def)
  have d: "map fd (map (\<lambda>c. \<lparr>fd = c, revents = None\<rparr>) [3, 4, 5, 6]) = 3 # [4, 5, 6]" by simp
  show ?thesis using poll_starves_clients [OF a b c d, of 9 "[]"] by (simp del: turns.simps) fastforce
qed

text \<open>
  The server on select closes no socket while it runs, not even that of a client who has left: of the
  sockets it has accepted those of the clients in the list are in use, and one is lost for each client
  who has disconnected.
\<close>

definition runs_on :: "history \<Rightarrow> nat \<Rightarrow> history \<Rightarrow> nat \<Rightarrow> bool" where
  "runs_on h k h' k' \<longleftrightarrow> (\<exists>g. h' = h @ g \<and> (\<forall>c. Close c \<notin> set g)
     \<and> k' + count_list g Say_Disconnected = k + count_list g Say_New_Client)"

lemma runs_on_trans: "runs_on h k h' k' \<Longrightarrow> runs_on h' k' h'' k'' \<Longrightarrow> runs_on h k h'' k''"
  unfolding runs_on_def by (elim exE conjE) (rule_tac x = "g @ ga" in exI, auto)

lemma runs_on_append [simp]: "runs_on h k (h @ g) k' \<longleftrightarrow>
    (\<forall>c. Close c \<notin> set g) \<and> k' + count_list g Say_Disconnected = k + count_list g Say_New_Client"
  by (auto simp: runs_on_def)

lemma interact_runs_on: "interact K c h = Some (r, h') \<Longrightarrow> runs_on h k h' k"
  by (auto simp: interact_def Let_def runs_on_def split: sum.splits if_splits bind_splits)

lemma select_pass_runs_on:
  "select_pass K readset clients i nfds h = Some (clients', h') \<Longrightarrow> runs_on h (length clients) h' (length clients')"
proof (induction "length clients - i" arbitrary: clients i nfds h rule: less_induct)
  case less
  have step: "runs_on h (length clients) h' (length clients')"
    if "select_pass K readset cs (Suc i) m g = Some (clients', h')" "i < length clients"
      "cs = clients \<and> runs_on h (length clients) g (length clients) \<or>
       cs = remove_client clients i \<and> runs_on h (length clients) g (length clients - 1)" for cs m g
  proof -
    have "length cs - Suc i < length clients - i" using that(2,3) by (auto simp: length_remove_client)
    with less.hyps [OF this that(1)] that(2,3) show ?thesis
      by (auto simp: length_remove_client intro: runs_on_trans)
  qed
  have refl: "runs_on h k h k" for k by (simp add: runs_on_def)
  have inter: "runs_on h (length clients) (g @ e) k"
    if "interact K c (h @ [Say_Interact c]) = Some (r, g)" "\<forall>c. Close c \<notin> set e"
      "k + count_list e Say_Disconnected = length clients + count_list e Say_New_Client" for c r g e k
  proof -
    have "runs_on h (length clients) (h @ [Say_Interact c]) (length clients)" by simp
    then have "runs_on h (length clients) g (length clients)" by (rule runs_on_trans) (rule interact_runs_on [OF that(1)])
    then show ?thesis by (rule runs_on_trans) (use that in simp)
  qed
  show ?case
  proof (cases "i < length clients \<and> 0 < nfds \<and> fdset_ok (clients ! i) \<and> clients ! i \<in> set readset")
    case False
    then show ?thesis
      using less.prems step [of clients nfds h] refl by (subst (asm) select_pass.simps) (auto simp: Let_def split: if_splits)
  next
    case True
    then obtain r g where g: "interact K (clients ! i) (h @ [Say_Interact (clients ! i)]) = Some (r, g)"
      using less.prems by (subst (asm) select_pass.simps) (auto simp: Let_def split: option.splits)
    show ?thesis
    proof (cases r)
      case (Inl e)
      then show ?thesis
        using less.prems True g inter [OF g, of "[Say_Error e]" "length clients"] step [of clients "nfds - 1" "g @ [Say_Error e]"]
        by (subst (asm) select_pass.simps) (auto simp: Let_def split: if_splits)
    next
      case (Inr rc)
      then show ?thesis
        using less.prems True g inter [OF g, of "[]" "length clients"] step [of clients "nfds - 1" g]
          inter [OF g, of "[Say_Disconnected]" "length clients - 1"] step [of "remove_client clients i" "nfds - 1" "g @ [Say_Disconnected]"]
        by (subst (asm) select_pass.simps) (auto simp: Let_def split: if_splits)
    qed
  qed
qed

theorem select_loses_sockets:
  assumes "turns (select_turn K server) n (clients, h) = Some (going, clients', h')"
  shows "\<exists>g. h' = h @ g \<and> (\<forall>c. Close c \<notin> set g)
     \<and> length clients' + count_list g Say_Disconnected = length clients + count_list g Say_New_Client"
proof -
  have turn: "runs_on h (length clients) h' (length clients')"
    if "select_turn K server (clients, h) = Some (going, clients', h')" for clients h going clients' h'
  proof -
    have pass: "runs_on h (length clients) h' (length clients')"
      if "select_pass K readset (clients @ new) 0 m (h @ g) = Some (clients', h')" "\<forall>c. Close c \<notin> set g"
        "count_list g Say_New_Client = length new" "count_list g Say_Disconnected = 0" for readset m g new
    proof -
      have "runs_on h (length clients) (h @ g) (length (clients @ new))" using that(2-) by simp
      then show ?thesis using select_pass_runs_on [OF that(1)] by (rule runs_on_trans)
    qed
    show ?thesis
      using that
      by (auto simp: select_turn_def Let_def split: bind_splits sum.splits if_splits
          dest!: pass [of _ "[_]" _ "[_, _, _]"] pass [of _ "[]" _ "[_]", simplified])
  qed
  have "runs_on h (length clients) h' (length clients')"
    using assms
  proof (induction n arbitrary: clients h)
    case 0
    then show ?case by (simp add: runs_on_def)
  next
    case (Suc n)
    then obtain going1 cs1 h1 where t: "select_turn K server (clients, h) = Some (going1, cs1, h1)"
      by (auto split: option.splits)
    with Suc.prems Suc.IH turn [OF t] show ?case by (auto split: if_splits intro: runs_on_trans)
  qed
  then show ?thesis by (simp add: runs_on_def)
qed

text \<open>
  The server on kqueue closes a socket when its event has the flag EV_EOF, which says that the client has
  sent all, also when there is more than one int to be read.
\<close>

theorem kqueue_closes_after_one_exchange:
  assumes "kevent_of K h = Inr (Some (c, True))" "c \<noteq> server" "asks K ask c"
  shows "kqueue_turn K server h = Some (True, h @ [Wait []] @ exchange ask c @ [Say_Disconnected, Close c])"
  using assms interact_answers [OF assms(3), of "h @ [Wait []]"] by (simp add: kqueue_turn_def Let_def)

theorem epoll_serves_one:
  assumes "epoll_of K h = Inr (Some c)" "c \<noteq> server" "asks K ask c"
  shows "epoll_turn K server h = Some (True, h @ [Wait []] @ exchange ask c)"
  using assms interact_answers [OF assms(3), of "h @ [Wait []]"] by (simp add: epoll_turn_def Let_def)

text \<open>The daemon is the server on poll where reading and writing never ask to try again.\<close>

lemma interact_errors:
  assumes "\<forall>h c e. recv_of K h c = Inl e \<longrightarrow> \<not> again e" "\<forall>h c b e. send_of K h c b = Inl e \<longrightarrow> \<not> again e"
    "interact K c h = Some (Inl e, h')"
  shows "\<not> again e"
  using assms by (auto simp: interact_def Let_def split: sum.splits if_splits bind_splits)

theorem daemon_turn_is_poll_turn:
  assumes "\<forall>h c e. recv_of K h c = Inl e \<longrightarrow> \<not> again e" "\<forall>h c b e. send_of K h c b = Inl e \<longrightarrow> \<not> again e"
  shows "daemon_turn K server s = poll_turn K server s"
proof -
  have "daemon_pass K fds i nfds h = poll_pass K fds i nfds h" for fds i nfds h
  proof (induction "length fds - i" arbitrary: fds i nfds h rule: less_induct)
    case less
    have "daemon_pass K cs (Suc i) m g = poll_pass K cs (Suc i) m g"
      if "i < length fds" "cs = fds \<or> cs = remove_pollfd fds i" for cs m g
      by (rule less) (use that in \<open>auto simp: length_remove_pollfd\<close>)
    then show ?case
      by (subst daemon_pass.simps, subst poll_pass.simps)
        (auto split: option.split sum.split dest: interact_errors [OF assms])
  qed
  then have "daemon_pass K = poll_pass K" by (intro ext)
  then show ?thesis by (simp only: daemon_turn_def poll_turn_def)
qed

end
