(* ===== verification/Mersenne.thy ===== *)
theory Mersenne
  imports Prelude "HOL-Library.Word"
begin

text \<open>
  The random numbers of lecture_examples/6_threads/8_5_random_generator.h, a Mersenne twister. The buffer
  is an array of 624 unsigned ints that is used as a ring: index is its oldest element. An access out of the
  array is None.
\<close>

unbundle bit_operations_syntax

section \<open>The generator\<close>

record mersenne_twister =
  buffer :: "32 word list"
  index :: int

definition MT_IA :: int where
  "MT_IA = 397"

definition MT_LEN :: int where
  "MT_LEN = 624"

text \<open>The unsigned constants with the suffix UL make the two conjunctions 64 bits wide; their high halves are 0.\<close>

definition mersenne_twister_generate :: "mersenne_twister \<Rightarrow> (32 word \<times> mersenne_twister) option" where
  "mersenne_twister_generate twister = do {
     let i = index twister;
     let i2 = index twister + 1;
     let j = index twister + MT_IA;
     let i2 = (if MT_LEN \<le> i2 then 0 else i2);
     let j = (if MT_LEN \<le> j then j - MT_LEN else j);
     hi \<leftarrow> cget (buffer twister) i;
     lo \<leftarrow> cget (buffer twister) i2;
     let s = hi AND 0x80000000 OR (lo AND 0x7fffffff);
     far \<leftarrow> cget (buffer twister) j;
     let r = (far XOR drop_bit 1 s) XOR ((s AND 1) * 0x9908B0DF);
     buffer' \<leftarrow> cset (buffer twister) (index twister) r;
     let twister = twister\<lparr>buffer := buffer', index := i2\<rparr>;
     let r = r XOR drop_bit 11 r;
     let r = r XOR (push_bit 7 r AND 0x9d2c5680);
     let r = r XOR (push_bit 15 r AND 0xefc60000);
     let r = r XOR drop_bit 18 r;
     Some (r, twister) }"

fun generate_many :: "nat \<Rightarrow> mersenne_twister \<Rightarrow> mersenne_twister option" where
  "generate_many 0 twister = Some twister"
| "generate_many (Suc n) twister = do { (r, twister) \<leftarrow> mersenne_twister_generate twister; generate_many n twister }"

definition mersenne_twister_create :: "32 word \<Rightarrow> mersenne_twister option" where
  "mersenne_twister_create seed =
     generate_many (nat (MT_LEN * 100)) \<lparr>buffer = replicate (nat MT_LEN) seed, index = 0\<rparr>"

section \<open>The recurrence\<close>

text \<open>
  The specification: a window of 624 words x(n), ..., x(n + 623), from which the next word is computed by
  the recurrence, and the tempering of a word. The ring holds the window, from its index on.
\<close>

definition next_word :: "32 word list \<Rightarrow> 32 word" where
  "next_word xs = (let y = (xs ! 0 AND 0x80000000) OR (xs ! 1 AND 0x7fffffff) in
     xs ! 397 XOR drop_bit 1 y XOR (if bit y 0 then 0x9908B0DF else 0))"

definition temper :: "32 word \<Rightarrow> 32 word" where
  "temper y0 = (let y1 = y0 XOR drop_bit 11 y0; y2 = y1 XOR (push_bit 7 y1 AND 0x9d2c5680);
     y3 = y2 XOR (push_bit 15 y2 AND 0xefc60000) in y3 XOR drop_bit 18 y3)"

definition twister_ok :: "mersenne_twister \<Rightarrow> bool" where
  "twister_ok t \<longleftrightarrow> length (buffer t) = 624 \<and> 0 \<le> index t \<and> index t < 624"

definition window :: "mersenne_twister \<Rightarrow> 32 word list" where
  "window t = drop (nat (index t)) (buffer t) @ take (nat (index t)) (buffer t)"

lemma window_nth:
  assumes "twister_ok t" "k < 624"
  shows "window t ! k = buffer t ! (if nat (index t) + k < 624 then nat (index t) + k else nat (index t) + k - 624)"
  using assms by (auto simp: window_def nth_append twister_ok_def add.commute [of k])

lemma low_bit_times: "(s AND 1) * c = (if bit s 0 then c else (0 :: 32 word))"
  by (simp add: and_one_eq mod_2_eq_odd bit_0)

lemma generate_step:
  assumes "twister_ok t"
  shows "\<exists>t'. mersenne_twister_generate t = Some (temper (next_word (window t)), t') \<and> twister_ok t'
    \<and> window t' = tl (window t) @ [next_word (window t)]"
proof -
  define n where "n = nat (index t)"
  have n: "index t = int n" "n < 624" "length (buffer t) = 624" using assms by (auto simp: twister_ok_def n_def)
  define n1 where "n1 = (if n + 1 < 624 then n + 1 else 0)"
  define m where "m = (if n + 397 < 624 then n + 397 else n + 397 - 624)"
  define w where "w = next_word (window t)"
  define t' where "t' = t\<lparr>buffer := (buffer t)[n := w], index := int n1\<rparr>"
  have i2: "(if MT_LEN \<le> index t + 1 then 0 else index t + 1) = int n1"
    and j: "(if MT_LEN \<le> index t + MT_IA then index t + MT_IA - MT_LEN else index t + MT_IA) = int m"
    using n by (auto simp: MT_LEN_def MT_IA_def n1_def m_def)
  have "cget (buffer t) (index t) = Some (window t ! 0)" "cget (buffer t) (int n1) = Some (window t ! 1)"
    "cget (buffer t) (int m) = Some (window t ! 397)" and set: "cset (buffer t) (index t) r = Some ((buffer t)[n := r])" for r
    using n by (auto simp: window_nth [OF assms] n1_def m_def cget_def cset_def)
  then have "mersenne_twister_generate t = Some (temper w, t')"
    unfolding mersenne_twister_generate_def Let_def i2 j temper_def t'_def w_def next_word_def low_bit_times
    by (simp only: bind.bind_lunit xor.assoc)
  moreover have "twister_ok t'" using n by (auto simp: twister_ok_def t'_def n1_def)
  moreover have "window t' = tl (window t) @ [w]"
  proof -
    obtain ls x rs where b: "buffer t = ls @ x # rs" "length ls = n"
      using id_take_nth_drop [of n "buffer t"] n by (metis length_take min.absorb2 nat_less_le)
    with n have "n1 = (if rs = [] then 0 else n + 1)" by (cases rs) (auto simp: n1_def)
    moreover have "(buffer t)[n := w] = ls @ w # rs" using b by (simp add: list_update_append)
    ultimately show ?thesis using b n by (simp add: window_def t'_def)
  qed
  ultimately show ?thesis by (auto simp: w_def)
qed

text \<open>Every call of the generator on a twister whose array and index are as they must be is defined, keeps them so, moves its window by one word, the one the recurrence of the Mersenne twister gives, and returns that word tempered.\<close>

theorem generate_is_recurrence:
  assumes "twister_ok t"
  shows "\<exists>t'. mersenne_twister_generate t = Some (temper (next_word (window t)), t') \<and> twister_ok t'
    \<and> window t' = tl (window t) @ [next_word (window t)]"
  by (rule generate_step [OF assms])

definition one_bit :: mersenne_twister where
  "one_bit = \<lparr>buffer = (replicate 624 0)[397 := 1], index = 0\<rparr>"

theorem generate_is_recurrence_witness:
  "\<exists>t'. mersenne_twister_generate one_bit = Some (4194449, t') \<and> twister_ok t' \<and> window t' = tl (window one_bit) @ [1]"
proof -
  have "twister_ok one_bit" by (simp add: twister_ok_def one_bit_def)
  moreover have "next_word (window one_bit) = 1" "temper 1 = 4194449" by code_simp+
  ultimately show ?thesis using generate_is_recurrence [of one_bit] by simp
qed

lemma generate_many_ok:
  assumes "twister_ok t"
  shows "\<exists>t'. generate_many n t = Some t' \<and> twister_ok t'"
  using assms
proof (induction n arbitrary: t)
  case (Suc n)
  from generate_step [OF Suc.prems] Suc.IH show ?case by fastforce
qed simp

theorem create_ok: "\<exists>t. mersenne_twister_create seed = Some t \<and> twister_ok t"
  using generate_many_ok [of "\<lparr>buffer = replicate (nat MT_LEN) seed, index = 0\<rparr>"]
  by (simp add: mersenne_twister_create_def twister_ok_def MT_LEN_def)

definition zeros :: mersenne_twister where
  "zeros = \<lparr>buffer = replicate 624 0, index = 0\<rparr>"

end
