(* ===== verification/Reordering.thy ===== *)
theory Reordering
  imports Mersenne
begin

text \<open>
  lecture_examples/6_threads/8_5_cpu_reordering.c: two threads that each write a variable and read the
  other's, and a main function that starts them together and counts how often both have read 0. The
  memory is that of the x86: a processor keeps its writes in a buffer, first in first out,
  reads its own newest write of a variable from there, and mfence waits until the buffer is empty. The compiler
  barriers keep the order of the accesses as it is written.
\<close>

section \<open>Memory\<close>

text \<open>
  The variables of the two threads: X and Y are Shared T1 and Shared T2, r1 and r2 the results, start_t1
  and start_t2, end_t1 and end_t2. A flag is 0 or 1.
\<close>

datatype thread = T1 | T2

datatype loc = Shared thread | Result thread | Start thread | End thread

datatype proc = Main | Thread thread

fun other :: "thread \<Rightarrow> thread" where
  "other T1 = T2"
| "other T2 = T1"

text \<open>
  Where a thread is in its loop: before the while on start, before start = false, in the random delay,
  before the write, at the barrier, before the read, with what it has read, and before end = true. Where main is:
  before the assignments of a round, before the tests of end_t1 and end_t2, their reset, the tests of the results.
\<close>

datatype thread_pc = Wait_Start | Clear_Start | Delay | Set_Mine | Barrier | Read_Theirs | Set_Result int | Set_End

datatype main_pc = Reset_X | Reset_Y | Start_1 | Start_2 | Test_End_1 | Test_End_2 | Clear_End_1 | Clear_End_2 | Test_R1 | Test_R2

record machine =
  mem :: "loc \<Rightarrow> int"
  buf :: "proc \<Rightarrow> (loc \<times> int) list"
  main_at :: main_pc
  detected :: nat
  at :: "thread \<Rightarrow> thread_pc"
  twister :: "thread \<Rightarrow> mersenne_twister"

definition load :: "machine \<Rightarrow> proc \<Rightarrow> loc \<Rightarrow> int" where
  "load s p l = (case map_of (rev (buf s p)) l of Some v \<Rightarrow> v | None \<Rightarrow> mem s l)"

definition store :: "proc \<Rightarrow> loc \<Rightarrow> int \<Rightarrow> machine \<Rightarrow> machine" where
  "store p l v s = s\<lparr>buf := (buf s)(p := buf s p @ [(l, v)])\<rparr>"

definition drain :: "proc \<Rightarrow> machine \<Rightarrow> machine option" where
  "drain p s = (case buf s p of
     [] \<Rightarrow> None
   | (l, v) # stores \<Rightarrow> Some (s\<lparr>mem := (mem s)(l := v), buf := (buf s)(p := stores)\<rparr>))"

definition goto :: "thread \<Rightarrow> thread_pc \<Rightarrow> machine \<Rightarrow> machine" where
  "goto t pc s = s\<lparr>at := (at s)(t := pc)\<rparr>"

definition main_goto :: "main_pc \<Rightarrow> machine \<Rightarrow> machine" where
  "main_goto pc s = s\<lparr>main_at := pc\<rparr>"

section \<open>The program\<close>

text \<open>
  thread1_f and thread2_f are thread_f of T1 and of T2. use_cpu_fence is USE_CPU_FENCE; a fence has no step
  while the buffer is not empty. An access out of the array of the twister would be no step either, which
  create_ok and generate_is_recurrence exclude.
\<close>

definition thread_f :: "bool \<Rightarrow> thread \<Rightarrow> machine \<Rightarrow> machine option" where
  "thread_f use_cpu_fence t s = (case at s t of
     Wait_Start \<Rightarrow> Some (if load s (Thread t) (Start t) = 0 then s else goto t Clear_Start s)
   | Clear_Start \<Rightarrow> Some (goto t Delay (store (Thread t) (Start t) 0 s))
   | Delay \<Rightarrow> do {
       (r, tw) \<leftarrow> mersenne_twister_generate (twister s t);
       let s = s\<lparr>twister := (twister s)(t := tw)\<rparr>;
       Some (if r mod 8 \<noteq> 0 then s else goto t Set_Mine s) }
   | Set_Mine \<Rightarrow> Some (goto t Barrier (store (Thread t) (Shared t) 1 s))
   | Barrier \<Rightarrow> if use_cpu_fence \<and> buf s (Thread t) \<noteq> [] then None else Some (goto t Read_Theirs s)
   | Read_Theirs \<Rightarrow> Some (goto t (Set_Result (load s (Thread t) (Shared (other t)))) s)
   | Set_Result v \<Rightarrow> Some (goto t Set_End (store (Thread t) (Result t) v s))
   | Set_End \<Rightarrow> Some (goto t Wait_Start (store (Thread t) (End t) 1 s)))"

definition main_f :: "machine \<Rightarrow> machine option" where
  "main_f s = Some (case main_at s of
     Reset_X \<Rightarrow> main_goto Reset_Y (store Main (Shared T1) 0 s)
   | Reset_Y \<Rightarrow> main_goto Start_1 (store Main (Shared T2) 0 s)
   | Start_1 \<Rightarrow> main_goto Start_2 (store Main (Start T1) 1 s)
   | Start_2 \<Rightarrow> main_goto Test_End_1 (store Main (Start T2) 1 s)
   | Test_End_1 \<Rightarrow> if load s Main (End T1) = 0 then s else main_goto Test_End_2 s
   | Test_End_2 \<Rightarrow> main_goto (if load s Main (End T2) = 0 then Test_End_1 else Clear_End_1) s
   | Clear_End_1 \<Rightarrow> main_goto Clear_End_2 (store Main (End T1) 0 s)
   | Clear_End_2 \<Rightarrow> main_goto Test_R1 (store Main (End T2) 0 s)
   | Test_R1 \<Rightarrow> main_goto (if load s Main (Result T1) = 0 then Test_R2 else Reset_X) s
   | Test_R2 \<Rightarrow> main_goto Reset_X (if load s Main (Result T2) = 0 then s\<lparr>detected := detected s + 1\<rparr> else s))"

text \<open>The threads begin with the twisters that mersenne_twister_create has made, with the seeds 1 and 2.\<close>

definition machine_start :: "(thread \<Rightarrow> mersenne_twister) \<Rightarrow> machine" where
  "machine_start tw = \<lparr>mem = \<lambda>_. 0, buf = \<lambda>_. [], main_at = Reset_X, detected = 0, at = \<lambda>_. Wait_Start, twister = tw\<rparr>"

definition seeded :: "(thread \<Rightarrow> mersenne_twister) \<Rightarrow> bool" where
  "seeded tw \<longleftrightarrow> mersenne_twister_create 1 = Some (tw T1) \<and> mersenne_twister_create 2 = Some (tw T2)"

datatype action = Run proc | Drain proc

fun act :: "bool \<Rightarrow> action \<Rightarrow> machine \<Rightarrow> machine option" where
  "act f (Run Main) s = main_f s"
| "act f (Run (Thread t)) s = thread_f f t s"
| "act f (Drain p) s = drain p s"

definition machine_step :: "bool \<Rightarrow> machine \<Rightarrow> machine \<Rightarrow> bool" where
  "machine_step f s s' \<longleftrightarrow> (\<exists>a. act f a s = Some s')"

fun run :: "bool \<Rightarrow> action list \<Rightarrow> machine \<Rightarrow> machine option" where
  "run f [] s = Some s"
| "run f (a # as) s = do { s \<leftarrow> act f a s; run f as s }"

section \<open>A run with the fence\<close>

text \<open>
  In a round main stores the values of main_seq in this order, and a thread those of thread_seq; issued and
  thread_issued say how many of them have been stored at a place of the program. A buffer is a
  segment of the sequence: what has been stored and is not in memory yet.
\<close>

definition main_seq :: "(loc \<times> int) list" where
  "main_seq = [(End T1, 0), (End T2, 0), (Shared T1, 0), (Shared T2, 0), (Start T1, 1), (Start T2, 1)]"

definition thread_seq :: "thread \<Rightarrow> int \<Rightarrow> (loc \<times> int) list" where
  "thread_seq t v = [(Start t, 0), (Shared t, 1), (Result t, v), (End t, 1)]"

fun issued :: "main_pc \<Rightarrow> nat" where
  "issued Clear_End_1 = 0"
| "issued Clear_End_2 = 1"
| "issued Test_R1 = 2"
| "issued Test_R2 = 2"
| "issued Reset_X = 2"
| "issued Reset_Y = 3"
| "issued Start_1 = 4"
| "issued Start_2 = 5"
| "issued Test_End_1 = 6"
| "issued Test_End_2 = 6"

fun thread_issued :: "thread_pc \<Rightarrow> nat" where
  "thread_issued Clear_Start = 0"
| "thread_issued Delay = 1"
| "thread_issued Set_Mine = 1"
| "thread_issued Barrier = 2"
| "thread_issued Read_Theirs = 2"
| "thread_issued (Set_Result v) = 2"
| "thread_issued Set_End = 3"
| "thread_issued Wait_Start = 4"

fun past_read :: "thread_pc \<Rightarrow> bool" where
  "past_read (Set_Result v) = True"
| "past_read Set_End = True"
| "past_read Wait_Start = True"
| "past_read _ = False"

fun start_no :: "thread \<Rightarrow> nat" where
  "start_no T1 = 4"
| "start_no T2 = 5"

fun end_no :: "thread \<Rightarrow> nat" where
  "end_no T1 = 0"
| "end_no T2 = 1"

text \<open>
  The part of a thread in the round: it waits and its start is not in memory yet, its start is in
  memory, or it is at work, has read v or will, and n of its stores are in memory. k is the number
  of stores of main that are in memory.
\<close>

datatype part = Idle | Called | Working int nat

fun thread_ok :: "(loc \<Rightarrow> int) \<Rightarrow> nat \<Rightarrow> thread \<Rightarrow> thread_pc \<Rightarrow> (loc \<times> int) list \<Rightarrow> part \<Rightarrow> bool" where
  "thread_ok m k t pc b Idle \<longleftrightarrow> k \<le> start_no t \<and> pc = Wait_Start \<and> b = [] \<and> m (Start t) = 0
     \<and> m (End t) = (if k \<le> end_no t then 1 else 0)"
| "thread_ok m k t pc b Called \<longleftrightarrow> start_no t < k \<and> (pc = Wait_Start \<or> pc = Clear_Start) \<and> b = [] \<and> m (Start t) = 1 \<and> m (End t) = 0"
| "thread_ok m k t pc b (Working v n) \<longleftrightarrow> start_no t < k \<and> pc \<noteq> Clear_Start \<and> n \<le> thread_issued pc
     \<and> b = drop n (take (thread_issued pc) (thread_seq t v))
     \<and> m (Start t) = (if n = 0 then 1 else 0) \<and> m (End t) = (if n = 4 then 1 else 0)
     \<and> (2 \<le> n \<longrightarrow> m (Shared t) = 1) \<and> (3 \<le> n \<longrightarrow> m (Result t) = v)
     \<and> (past_read pc \<or> pc = Read_Theirs \<longrightarrow> 2 \<le> n) \<and> (\<forall>w. pc = Set_Result w \<longrightarrow> v = w)"

fun read_zero :: "thread_pc \<Rightarrow> part \<Rightarrow> bool" where
  "read_zero pc (Working v n) \<longleftrightarrow> v = 0 \<and> past_read pc"
| "read_zero pc _ \<longleftrightarrow> False"

definition round_ok :: "machine \<Rightarrow> nat \<Rightarrow> (thread \<Rightarrow> part) \<Rightarrow> bool" where
  "round_ok s k st \<longleftrightarrow> k \<le> issued (main_at s) \<and> buf s Main = drop k (take (issued (main_at s)) main_seq)
     \<and> (\<forall>t. thread_ok (mem s) k t (at s t) (buf s (Thread t)) (st t))
     \<and> \<not> (read_zero (at s T1) (st T1) \<and> read_zero (at s T2) (st T2))
     \<and> (main_at s = Test_End_2 \<longrightarrow> (\<exists>v. st T1 = Working v 4))
     \<and> (main_at s = Clear_End_1 \<or> main_at s = Clear_End_2 \<or> main_at s = Test_R1 \<longrightarrow>
         \<not> (mem s (Result T1) = 0 \<and> mem s (Result T2) = 0))
     \<and> (main_at s = Test_R2 \<longrightarrow> mem s (Result T2) \<noteq> 0)
     \<and> detected s = 0"

lemma round_okE:
  assumes "round_ok s k st"
  obtains "k \<le> issued (main_at s)" "buf s Main = drop k (take (issued (main_at s)) main_seq)"
    "\<forall>t. thread_ok (mem s) k t (at s t) (buf s (Thread t)) (st t)"
    "\<not> (read_zero (at s T1) (st T1) \<and> read_zero (at s T2) (st T2))"
    "main_at s = Test_End_2 \<longrightarrow> (\<exists>v. st T1 = Working v 4)"
    "main_at s = Clear_End_1 \<or> main_at s = Clear_End_2 \<or> main_at s = Test_R1 \<longrightarrow> \<not> (mem s (Result T1) = 0 \<and> mem s (Result T2) = 0)"
    "main_at s = Test_R2 \<longrightarrow> mem s (Result T2) \<noteq> 0" "detected s = 0"
  using assms unfolding round_ok_def by (elim conjE) (rule that; assumption)

lemma other_thread: "t \<noteq> u \<Longrightarrow> u = other t" "other t \<noteq> t" "other (other t) = t"
  by (cases t; cases u; simp)+

lemma le_cases6: "k \<le> (6 :: nat) \<Longrightarrow> k = 0 \<or> k = 1 \<or> k = 2 \<or> k = 3 \<or> k = 4 \<or> k = 5 \<or> k = 6"
  by auto

lemma issued_le: "issued pc \<le> 6"
  by (cases pc) simp_all

lemma thread_issued_le: "thread_issued pc \<le> 4"
  by (cases pc) simp_all

lemma thread_seq_nth [simp]:
  "thread_seq t v ! 0 = (Start t, 0)" "thread_seq t v ! Suc 0 = (Shared t, 1)"
  "thread_seq t v ! 2 = (Result t, v)" "thread_seq t v ! 3 = (End t, 1)" "length (thread_seq t v) = 4"
  by (simp_all add: thread_seq_def numeral_2_eq_2 numeral_3_eq_3)

lemma main_seq_nth [simp]:
  "main_seq ! 0 = (End T1, 0)" "main_seq ! Suc 0 = (End T2, 0)" "main_seq ! 2 = (Shared T1, 0)"
  "main_seq ! 3 = (Shared T2, 0)" "main_seq ! 4 = (Start T1, 1)" "main_seq ! 5 = (Start T2, 1)" "length main_seq = 6"
  by (simp_all add: main_seq_def eval_nat_numeral)

lemma thread_ok_frame:
  assumes "thread_ok m k t pc b st" "m (Start t) = m' (Start t)" "m (End t) = m' (End t)"
    "m (Shared t) = m' (Shared t)" "m (Result t) = m' (Result t)"
  shows "thread_ok m' k t pc b st"
  using assms by (cases st) simp_all

text \<open>The oldest store of main goes to memory.\<close>

lemma thread_ok_main_drain:
  assumes "thread_ok m k t pc b st" "k < 6" "main_seq ! k = (l, v)"
  shows "thread_ok (m(l := v)) (Suc k) t pc b (if k = start_no t then Called else st)"
proof (cases st)
  case Idle
  have "k = 0 \<or> k = Suc 0 \<or> k = 2 \<or> k = 3 \<or> k = 4 \<or> k = 5" using assms(2) by auto
  then show ?thesis using assms(1,3) Idle by (cases t) (elim disjE; auto)+
next
  case Called
  with assms have "t = T1" "k = 5" by (cases t; simp)+
  with assms Called show ?thesis by auto
next
  case (Working w n)
  with assms have t: "t = T1" "k = 5" by (cases t; simp)+
  with assms(3) have "l = Start T2" by simp
  then have "thread_ok (m(l := v)) k t pc b st" using t by (intro thread_ok_frame [OF assms(1)]) auto
  with t Working show ?thesis by (auto simp del: fun_upd_apply)
qed

text \<open>The oldest store of a thread goes to memory.\<close>

lemma thread_ok_drain:
  assumes "thread_ok m k t pc ((l, v) # b) st"
  shows "\<exists>w n. st = Working w n \<and> n < 4 \<and> (l = Start t \<or> l = Shared t \<or> l = Result t \<or> l = End t)
     \<and> thread_ok (m(l := v)) k t pc b (Working w (Suc n))"
proof (cases st)
  case (Working w n)
  define ts where "ts = take (thread_issued pc) (thread_seq t w)"
  have ts: "(l, v) # b = drop n ts" using assms Working by (simp add: ts_def)
  then have "n < length ts" by (metis drop_all list.discI not_less)
  then have n: "n < thread_issued pc" "n < 4" by (auto simp: ts_def)
  have "(l, v) = ts ! n" "b = drop (Suc n) ts"
    using ts Cons_nth_drop_Suc [OF \<open>n < length ts\<close>] by (metis list.inject)+
  then have lv: "(l, v) = thread_seq t w ! n" "b = drop (Suc n) ts" using n by (simp_all add: ts_def)
  have "n = 0 \<or> n = Suc 0 \<or> n = 2 \<or> n = 3" using n(2) by auto
  then show ?thesis
    using assms Working n lv by (elim disjE) (auto simp: ts_def)
qed (use assms in auto)

lemma drain_main_ok:
  assumes "round_ok s k st" "drain Main s = Some s'"
  shows "round_ok s' (Suc k) (\<lambda>t. if k = start_no t then Called else st t)"
proof -
  from assms(1) show ?thesis
  proof (rule round_okE)
    assume r: "k \<le> issued (main_at s)" "buf s Main = drop k (take (issued (main_at s)) main_seq)"
      "\<forall>t. thread_ok (mem s) k t (at s t) (buf s (Thread t)) (st t)"
      "\<not> (read_zero (at s T1) (st T1) \<and> read_zero (at s T2) (st T2))"
      "main_at s = Test_End_2 \<longrightarrow> (\<exists>v. st T1 = Working v 4)"
      "main_at s = Clear_End_1 \<or> main_at s = Clear_End_2 \<or> main_at s = Test_R1 \<longrightarrow> \<not> (mem s (Result T1) = 0 \<and> mem s (Result T2) = 0)"
      "main_at s = Test_R2 \<longrightarrow> mem s (Result T2) \<noteq> 0" "detected s = 0"
    obtain l v stores where b: "buf s Main = (l, v) # stores"
      and s': "s' = s\<lparr>mem := (mem s)(l := v), buf := (buf s)(Main := stores)\<rparr>"
      using assms(2) by (auto simp: drain_def split: list.splits)
    define ts where "ts = take (issued (main_at s)) main_seq"
    have ts: "(l, v) # stores = drop k ts" using b r(2) by (simp add: ts_def)
    then have k: "k < length ts" by (metis drop_all list.discI not_less)
    have "(l, v) = ts ! k" "stores = drop (Suc k) ts" using ts Cons_nth_drop_Suc [OF k] by (metis list.inject)+
    then have lv: "main_seq ! k = (l, v)" "stores = drop (Suc k) ts" "k < issued (main_at s)" "k < 6"
      using k by (simp_all add: ts_def)
    have res: "l \<noteq> Result t" for t
    proof -
      have "k = 0 \<or> k = Suc 0 \<or> k = 2 \<or> k = 3 \<or> k = 4 \<or> k = 5" using lv(4) by auto
      then show ?thesis using lv(1) by auto
    qed
    have "st T1 = Working v 4 \<Longrightarrow> k \<noteq> 4" for v using r(3) [rule_format, of T1] by auto
    moreover have "mem s' (Result t) = mem s (Result t)" for t using res [of t] by (auto simp: s')
    moreover have "read_zero pc (if k = start_no t then Called else st t) \<Longrightarrow> read_zero pc (st t)" for pc t
      by (simp split: if_splits)
    moreover have "thread_ok (mem s') (Suc k) t (at s' t) (buf s' (Thread t)) (if k = start_no t then Called else st t)" for t
      using thread_ok_main_drain [OF r(3) [rule_format] lv(4,1)] by (simp add: s' fun_upd_other del: thread_ok.simps fun_upd_apply)
    moreover have "Suc k \<le> issued (main_at s')" "buf s' Main = drop (Suc k) (take (issued (main_at s')) main_seq)"
      "main_at s' = main_at s" "at s' = at s" "detected s' = 0"
      using lv r(8) by (simp_all add: s' ts_def)
    ultimately show ?thesis using r(4-7) unfolding round_ok_def
      by (intro conjI allI) (assumption | force)+
  qed
qed

lemma drain_thread_ok:
  assumes "round_ok s k st" "drain (Thread t) s = Some s'"
  shows "\<exists>st'. round_ok s' k st'"
proof -
  from assms(1) show ?thesis
  proof (rule round_okE)
    assume r: "k \<le> issued (main_at s)" "buf s Main = drop k (take (issued (main_at s)) main_seq)"
      "\<forall>t. thread_ok (mem s) k t (at s t) (buf s (Thread t)) (st t)"
      "\<not> (read_zero (at s T1) (st T1) \<and> read_zero (at s T2) (st T2))"
      "main_at s = Test_End_2 \<longrightarrow> (\<exists>v. st T1 = Working v 4)"
      "main_at s = Clear_End_1 \<or> main_at s = Clear_End_2 \<or> main_at s = Test_R1 \<longrightarrow> \<not> (mem s (Result T1) = 0 \<and> mem s (Result T2) = 0)"
      "main_at s = Test_R2 \<longrightarrow> mem s (Result T2) \<noteq> 0" "detected s = 0"
    obtain l v stores where b: "buf s (Thread t) = (l, v) # stores"
      and s': "s' = s\<lparr>mem := (mem s)(l := v), buf := (buf s)(Thread t := stores)\<rparr>"
      using assms(2) by (auto simp: drain_def split: list.splits)
    obtain w n where w: "st t = Working w n" "n < 4" "l = Start t \<or> l = Shared t \<or> l = Result t \<or> l = End t"
      "thread_ok ((mem s)(l := v)) k t (at s t) stores (Working w (Suc n))"
      using thread_ok_drain r(3) [rule_format, of t] b by metis
    have "start_no t < k" using r(3) [rule_format, of t] w(1) by simp
    then have "2 < issued (main_at s)" using r(1) by (cases t) auto
    then have pcs: "main_at s \<noteq> Clear_End_1" "main_at s \<noteq> Clear_End_2" "main_at s \<noteq> Test_R1" "main_at s \<noteq> Test_R2" by auto
    have others: "thread_ok ((mem s)(l := v)) k u (at s u) (buf s (Thread u)) (st u)" if "u \<noteq> t" for u
      by (rule thread_ok_frame [OF r(3) [rule_format]]) (use that w(3) in auto)
    have zero: "read_zero (at s u) ((st(t := Working w (Suc n))) u) = read_zero (at s u) (st u)" for u
      using w(1) by simp
    have "round_ok s' k (st(t := Working w (Suc n)))"
      unfolding round_ok_def
    proof (intro conjI allI)
      show "\<not> (read_zero (at s' T1) ((st(t := Working w (Suc n))) T1) \<and> read_zero (at s' T2) ((st(t := Working w (Suc n))) T2))"
        using r(4) unfolding zero [symmetric] by (simp add: s' del: fun_upd_apply)
      show "thread_ok (mem s') k u (at s' u) (buf s' (Thread u)) ((st(t := Working w (Suc n))) u)" for u
        using w(4) others [of u] by (cases "u = t") (simp_all add: s' del: thread_ok.simps)
      show "main_at s' = Test_End_2 \<longrightarrow> (\<exists>v. (st(t := Working w (Suc n))) T1 = Working v 4)"
        using r(5) w(1,2) by (auto simp: s')
    qed (use r(1,2,8) pcs in \<open>simp_all add: s'\<close>)
    then show ?thesis by blast
  qed
qed

lemma drop_take_Suc: "n \<le> i \<Longrightarrow> i < length ts \<Longrightarrow> drop n (take (Suc i) ts) = drop n (take i ts) @ [ts ! i]"
  by (simp add: take_Suc_conv_app_nth)

text \<open>A step of a thread, on its part of the state.\<close>

lemma thread_f_part:
  assumes "thread_ok (mem s) k t (at s t) (buf s (Thread t)) p" "thread_f True t s = Some s'"
  shows "mem s' = mem s \<and> main_at s' = main_at s \<and> detected s' = detected s
    \<and> (\<forall>u. u \<noteq> t \<longrightarrow> at s' u = at s u) \<and> (\<forall>q. q \<noteq> Thread t \<longrightarrow> buf s' q = buf s q)
    \<and> (\<exists>p'. thread_ok (mem s) k t (at s' t) (buf s' (Thread t)) p'
        \<and> (\<forall>v. p = Working v 4 \<longrightarrow> p' = p)
        \<and> (read_zero (at s' t) p' \<longrightarrow> read_zero (at s t) p \<or> mem s (Shared (other t)) = 0))"
proof (cases "at s t")
  case Wait_Start
  show ?thesis
  proof (cases p)
    case (Working v n)
    have "n \<ge> 2" "n \<le> 4" "buf s (Thread t) = drop n (thread_seq t v)" "mem s (Start t) = 0"
      using assms(1) Wait_Start Working by auto
    then have "load s (Thread t) (Start t) = 0"
      by (cases "n = 2 \<or> n = 3 \<or> n = 4") (auto simp: load_def thread_seq_def numeral_2_eq_2 numeral_3_eq_3)
    then show ?thesis using assms Wait_Start by (auto simp: thread_f_def)
  next
    case Idle
    then have "load s (Thread t) (Start t) = 0" using assms(1) by (simp add: load_def)
    then show ?thesis using assms Wait_Start by (auto simp: thread_f_def)
  next
    case Called
    then show ?thesis using assms Wait_Start
      by (auto simp: thread_f_def goto_def load_def intro!: exI [of _ Called])
  qed
next
  case Clear_Start
  then have "p = Called" using assms(1) by (cases p) auto
  then show ?thesis using assms Clear_Start
    by (auto simp: thread_f_def goto_def store_def thread_seq_def intro!: exI [of _ "Working 0 0"])
next
  case Delay
  then obtain v n where "p = Working v n" using assms(1) by (cases p) auto
  then show ?thesis using assms Delay
    by (auto simp: thread_f_def goto_def Let_def split: bind_splits if_splits intro!: exI [of _ "Working v n"])
next
  case Set_Mine
  then obtain v n where "p = Working v n" using assms(1) by (cases p) auto
  then show ?thesis using assms Set_Mine drop_take_Suc [of n 1 "thread_seq t v"]
    by (auto simp: thread_f_def goto_def store_def numeral_2_eq_2 intro!: exI [of _ "Working v n"])
next
  case Barrier
  then obtain v n where "p = Working v n" using assms(1) by (cases p) auto
  moreover from this have "n = 2" using assms Barrier by (auto simp: thread_f_def split: if_splits)
  ultimately show ?thesis using assms Barrier
    by (auto simp: thread_f_def goto_def intro!: exI [of _ "Working v n"] split: if_splits)
next
  case Read_Theirs
  then obtain v n where p: "p = Working v n" using assms(1) by (cases p) auto
  moreover from this have "n = 2" "buf s (Thread t) = []" using assms(1) Read_Theirs by auto
  ultimately show ?thesis using assms Read_Theirs
    by (auto simp: thread_f_def goto_def load_def intro!: exI [of _ "Working (mem s (Shared (other t))) 2"])
next
  case (Set_Result w)
  then obtain n where "p = Working w n" using assms(1) by (cases p) auto
  then show ?thesis using assms Set_Result drop_take_Suc [of n 2 "thread_seq t w"]
    by (auto simp: thread_f_def goto_def store_def thread_seq_nth(3) [unfolded numeral_2_eq_2] numeral_3_eq_3 numeral_2_eq_2
        intro!: exI [of _ "Working w n"])
next
  case Set_End
  then obtain v n where "p = Working v n" using assms(1) by (cases p) auto
  then show ?thesis using assms Set_End drop_take_Suc [of n 3 "thread_seq t v"]
    by (auto simp: thread_f_def goto_def store_def intro!: exI [of _ "Working v n"])
qed

lemma thread_run_ok:
  assumes "round_ok s k st" "thread_f True t s = Some s'"
  shows "\<exists>st'. round_ok s' k st'"
proof -
  from assms(1) show ?thesis
  proof (rule round_okE)
    assume r: "k \<le> issued (main_at s)" "buf s Main = drop k (take (issued (main_at s)) main_seq)"
      "\<forall>t. thread_ok (mem s) k t (at s t) (buf s (Thread t)) (st t)"
      "\<not> (read_zero (at s T1) (st T1) \<and> read_zero (at s T2) (st T2))"
      "main_at s = Test_End_2 \<longrightarrow> (\<exists>v. st T1 = Working v 4)"
      "main_at s = Clear_End_1 \<or> main_at s = Clear_End_2 \<or> main_at s = Test_R1 \<longrightarrow> \<not> (mem s (Result T1) = 0 \<and> mem s (Result T2) = 0)"
      "main_at s = Test_R2 \<longrightarrow> mem s (Result T2) \<noteq> 0" "detected s = 0"
    obtain p' where same: "mem s' = mem s" "main_at s' = main_at s" "detected s' = detected s"
        "\<And>u. u \<noteq> t \<Longrightarrow> at s' u = at s u" "\<And>q. q \<noteq> Thread t \<Longrightarrow> buf s' q = buf s q"
      and p': "thread_ok (mem s) k t (at s' t) (buf s' (Thread t)) p'" "\<And>v. st t = Working v 4 \<Longrightarrow> p' = st t"
        "read_zero (at s' t) p' \<Longrightarrow> read_zero (at s t) (st t) \<or> mem s (Shared (other t)) = 0"
      using thread_f_part [OF r(3) [rule_format] assms(2)] by blast
    have "mem s (Shared u) \<noteq> 0" if "read_zero (at s u) (st u)" for u
      using that r(3) [rule_format, of u] by (cases "st u") auto
    then have pair: "\<not> (read_zero (at s' t) p' \<and> read_zero (at s (other t)) (st (other t)))"
      using p'(3) r(4) by (cases t) auto
    have "round_ok s' k (st(t := p'))"
      unfolding round_ok_def
    proof (intro conjI allI)
      show "thread_ok (mem s') k u (at s' u) (buf s' (Thread u)) ((st(t := p')) u)" for u
        using p'(1) r(3) same by (cases "u = t") simp_all
      show "\<not> (read_zero (at s' T1) ((st(t := p')) T1) \<and> read_zero (at s' T2) ((st(t := p')) T2))"
        using pair same by (cases t) auto
      show "main_at s' = Test_End_2 \<longrightarrow> (\<exists>v. (st(t := p')) T1 = Working v 4)"
        using r(5) p'(2) same by (cases t) auto
    qed (use r same in simp_all)
    then show ?thesis by blast
  qed
qed

lemma round_ok_store:
  assumes "round_ok s k st" "issued pc = Suc (issued (main_at s))" "main_seq ! issued (main_at s) = (l, v)"
    "pc = Clear_End_2 \<or> pc = Test_R1 \<longrightarrow> main_at s = Clear_End_1 \<or> main_at s = Clear_End_2" "pc \<noteq> Test_R2" "pc \<noteq> Test_End_2" "pc \<noteq> Clear_End_1"
  shows "round_ok (main_goto pc (store Main l v s)) k st"
  using assms(1)
proof (rule round_okE)
  assume r: "k \<le> issued (main_at s)" "buf s Main = drop k (take (issued (main_at s)) main_seq)"
    "\<forall>t. thread_ok (mem s) k t (at s t) (buf s (Thread t)) (st t)"
    "\<not> (read_zero (at s T1) (st T1) \<and> read_zero (at s T2) (st T2))"
    "main_at s = Clear_End_1 \<or> main_at s = Clear_End_2 \<or> main_at s = Test_R1 \<longrightarrow> \<not> (mem s (Result T1) = 0 \<and> mem s (Result T2) = 0)"
    "detected s = 0"
  have "issued (main_at s) < length main_seq" using assms(2) issued_le [of pc] by simp
  from drop_take_Suc [OF r(1) this] have
    "drop k (take (issued pc) main_seq) = drop k (take (issued (main_at s)) main_seq) @ [(l, v)]"
    using assms(2,3) by simp
  then show ?thesis
    using r assms(2,4-7) unfolding round_ok_def by (auto simp: main_goto_def store_def simp del: thread_ok.simps read_zero.simps)
qed

lemma round_ok_goto:
  assumes "round_ok s k st" "issued pc = issued (main_at s)"
    "pc = Test_End_2 \<longrightarrow> (\<exists>v. st T1 = Working v 4)"
    "pc = Test_R2 \<longrightarrow> mem s (Result T2) \<noteq> 0" "pc = Test_End_1 \<or> pc = Test_End_2 \<or> pc = Test_R2 \<or> pc = Reset_X"
  shows "round_ok (main_goto pc s) k st"
  using assms unfolding round_ok_def main_goto_def by (auto simp del: thread_ok.simps read_zero.simps)

lemma load_main:
  assumes "round_ok s k st" "main_at s = Test_End_1 \<or> main_at s = Test_End_2" "load s Main (End t) \<noteq> 0"
  shows "\<exists>v. st t = Working v 4 \<and> start_no t < k"
proof -
  have b: "buf s Main = drop k main_seq" "thread_ok (mem s) k t (at s t) (buf s (Thread t)) (st t)" "k \<le> 6"
    using assms(1,2) by (auto elim!: round_okE)
  have "k = 0 \<or> k = 1 \<or> k = 2 \<or> k = 3 \<or> k = 4 \<or> k = 5 \<or> k = 6" using b(3) by auto
  then have "end_no t < k \<and> load s Main (End t) = mem s (End t)"
    using assms(3) b(1) by (cases t) (elim disjE; simp add: load_def main_seq_def)+
  with assms(3) b(2) show ?thesis by (cases "st t") (auto split: if_splits)
qed

lemma load_result:
  assumes "round_ok s k st" "main_at s = Test_R1 \<or> main_at s = Test_R2"
  shows "load s Main (Result t) = mem s (Result t)"
proof -
  have b: "buf s Main = drop k (take 2 main_seq)" "k \<le> 2"
    using assms by (auto elim!: round_okE)
  then have "k = 0 \<or> k = 1 \<or> k = 2" by auto
  with b(1) show ?thesis by (elim disjE) (simp_all add: load_def main_seq_def)
qed

lemma next_round:
  assumes "round_ok s k st" "main_at s = Test_End_2" "load s Main (End T2) \<noteq> 0"
  shows "round_ok (main_goto Clear_End_1 s) 0 (\<lambda>_. Idle)"
  using assms(1)
proof (rule round_okE)
  assume r: "k \<le> issued (main_at s)" "buf s Main = drop k (take (issued (main_at s)) main_seq)"
    "\<forall>t. thread_ok (mem s) k t (at s t) (buf s (Thread t)) (st t)"
    "\<not> (read_zero (at s T1) (st T1) \<and> read_zero (at s T2) (st T2))"
    "main_at s = Test_End_2 \<longrightarrow> (\<exists>v. st T1 = Working v 4)" "detected s = 0"
  obtain v w where st: "st T1 = Working v 4" "st T2 = Working w 4" "5 < k"
    using r(5) assms(2) load_main [OF assms(1) _ assms(3)] by auto
  have "4 \<le> thread_issued pc \<Longrightarrow> pc = Wait_Start" for pc by (cases pc) simp_all
  then have pcs: "at s T1 = Wait_Start" "at s T2 = Wait_Start"
    using r(3) [rule_format, of T1] r(3) [rule_format, of T2] st by auto
  have "thread_ok (mem s) 0 t (at s t) (buf s (Thread t)) Idle" for t
    using r(3) [rule_format, of t] st pcs by (cases t) (simp_all add: thread_seq_def)
  moreover have "\<not> (mem s (Result T1) = 0 \<and> mem s (Result T2) = 0)"
    using r(3) [rule_format, of T1] r(3) [rule_format, of T2] r(4) st pcs by auto
  moreover have "buf s Main = []" using r(2) st(3) by simp
  ultimately show ?thesis using r(6) by (simp add: round_ok_def main_goto_def del: thread_ok.simps)
qed

lemma main_run_ok:
  assumes "round_ok s k st" "main_f s = Some s'"
  shows "\<exists>k' st'. round_ok s' k' st'"
proof (cases "main_at s")
  case Test_End_1
  then show ?thesis
    using assms round_ok_goto [OF assms(1), of Test_End_2] load_main [OF assms(1), of T1]
    by (auto simp: main_f_def split: if_splits)
next
  case Test_End_2
  then show ?thesis
    using assms round_ok_goto [OF assms(1), of Test_End_1] next_round [OF assms(1)]
    by (auto simp: main_f_def split: if_splits)
next
  case Test_R1
  have "\<not> (mem s (Result T1) = 0 \<and> mem s (Result T2) = 0)" using assms(1) Test_R1 by (auto elim!: round_okE)
  then show ?thesis
    using assms round_ok_goto [OF assms(1), of Test_R2] round_ok_goto [OF assms(1), of Reset_X] Test_R1 load_result [OF assms(1), of T1]
    by (auto simp: main_f_def split: if_splits)
next
  case Test_R2
  have "mem s (Result T2) \<noteq> 0" using assms(1) Test_R2 by (auto elim!: round_okE)
  then show ?thesis
    using assms round_ok_goto [OF assms(1), of Reset_X] Test_R2 load_result [OF assms(1), of T2]
    by (auto simp: main_f_def split: if_splits)
next
  case Reset_X
  then show ?thesis using assms round_ok_store [OF assms(1), of Reset_Y "Shared T1" 0] by (auto simp: main_f_def)
next
  case Reset_Y
  then show ?thesis using assms round_ok_store [OF assms(1), of Start_1 "Shared T2" 0] by (auto simp: main_f_def)
next
  case Start_1
  then show ?thesis using assms round_ok_store [OF assms(1), of Start_2 "Start T1" 1] by (auto simp: main_f_def)
next
  case Start_2
  then show ?thesis using assms round_ok_store [OF assms(1), of Test_End_1 "Start T2" 1] by (auto simp: main_f_def)
next
  case Clear_End_1
  then show ?thesis using assms round_ok_store [OF assms(1), of Clear_End_2 "End T1" 0] by (auto simp: main_f_def)
next
  case Clear_End_2
  then show ?thesis using assms round_ok_store [OF assms(1), of Test_R1 "End T2" 0] by (auto simp: main_f_def)
qed

lemma start_round_ok: "round_ok (machine_start tw) 2 (\<lambda>_. Idle)"
proof -
  have "thread_ok (\<lambda>_. 0) 2 t Wait_Start [] Idle" for t by (cases t) simp_all
  then show ?thesis by (simp add: round_ok_def machine_start_def main_seq_def del: thread_ok.simps)
qed

lemma step_round_ok:
  assumes "round_ok s k st" "machine_step True s s'"
  shows "\<exists>k' st'. round_ok s' k' st'"
proof -
  obtain a where a: "act True a s = Some s'" using assms(2) by (auto simp: machine_step_def)
  show ?thesis
  proof (cases a)
    case (Run p)
    then show ?thesis using a thread_run_ok [OF assms(1)] main_run_ok [OF assms(1)] by (cases p) (auto, blast)
  next
    case (Drain p)
    then show ?thesis using a drain_thread_ok [OF assms(1)] drain_main_ok [OF assms(1)] by (cases p) (auto, blast+)
  qed
qed

interpretation fenced_rounds: invariant_system "\<lambda>s. s = machine_start tw" "machine_step True" "\<lambda>s. \<exists>k st. round_ok s k st" for tw
  by unfold_locales (use start_round_ok step_round_ok in blast)+

text \<open>C33: With the fence of the processor the program never counts a reordering: in every state it can reach, for every order of the steps of the two threads and of main, every delay of a write on its way to memory, and every sequence of random delays, not both threads of a round have read 0.\<close>

theorem fence_stops_reordering:
  assumes "reachable (\<lambda>s. s = machine_start tw) (machine_step True) s"
  shows "detected s = 0"
  using fenced_rounds.reachable_has_inv [OF assms] by (auto elim!: round_okE)

section \<open>A run without the fence\<close>

lemma run_append: "run f (xs @ ys) s = Option.bind (run f xs s) (run f ys)"
  by (induction xs arbitrary: s) (auto split: bind_splits)

lemma run_reachable:
  assumes "run f as s = Some s'" "reachable start (machine_step f) s"
  shows "reachable start (machine_step f) s'"
  using assms
proof (induction as arbitrary: s)
  case (Cons a as)
  then obtain u where u: "act f a s = Some u" "run f as u = Some s'" by (auto split: bind_splits)
  then have "machine_step f s u" by (auto simp: machine_step_def)
  then have "reachable start (machine_step f) u" by (rule reach_step [OF Cons.prems(2)])
  with u(2) show ?case by (rule Cons.IH)
qed simp

text \<open>The random delay of a thread ends after at most n + 1 numbers.\<close>

fun delay_ends :: "nat \<Rightarrow> mersenne_twister \<Rightarrow> bool" where
  "delay_ends n tw = (case mersenne_twister_generate tw of
     None \<Rightarrow> False
   | Some (r, tw) \<Rightarrow> r mod 8 = 0 \<or> (case n of 0 \<Rightarrow> False | Suc n \<Rightarrow> delay_ends n tw))"

declare delay_ends.simps [simp del]

text \<open>Both threads in a round that main has started, each with its start = false in its buffer.\<close>

definition both :: "thread_pc \<Rightarrow> thread_pc \<Rightarrow> (thread \<Rightarrow> mersenne_twister) \<Rightarrow> machine" where
  "both p q tw = \<lparr>mem = \<lambda>l. case l of Start t \<Rightarrow> 1 | _ \<Rightarrow> 0,
     buf = \<lambda>p. case p of Main \<Rightarrow> [] | Thread t \<Rightarrow> [(Start t, 0)],
     main_at = Test_End_1, detected = 0, at = \<lambda>t. case t of T1 \<Rightarrow> p | T2 \<Rightarrow> q, twister = tw\<rparr>"

definition to_delays :: "action list" where
  "to_delays = replicate 4 (Run Main) @ replicate 4 (Drain Main)
     @ [Run (Thread T1), Run (Thread T1), Run (Thread T2), Run (Thread T2)]"

definition after_delays :: "action list" where
  "after_delays = replicate 3 (Run (Thread T1)) @ replicate 5 (Run (Thread T2)) @ replicate 2 (Run (Thread T1))
     @ replicate 4 (Drain (Thread T1)) @ replicate 4 (Drain (Thread T2)) @ replicate 6 (Run Main)"

lemmas machine_defs = main_f_def thread_f_def drain_def load_def store_def goto_def main_goto_def

lemma not_T1 [simp]: "t \<noteq> T1 \<longleftrightarrow> t = T2"
  by (cases t) simp_all

lemma run_to_delays: "run f to_delays (machine_start tw) = Some (both Delay Delay tw)"
  by (simp add: to_delays_def machine_start_def machine_defs eval_nat_numeral)
    (auto simp: both_def fun_eq_iff split: loc.split proc.split thread.split)

lemma run_after_delays: "\<exists>s. run False after_delays (both Set_Mine Set_Mine tw) = Some s \<and> detected s = 1"
  by (simp add: after_delays_def both_def machine_defs eval_nat_numeral)

lemma delay_ends_first:
  "delay_ends n tw \<Longrightarrow> \<exists>r tw'. mersenne_twister_generate tw = Some (r, tw') \<and> (r mod 8 = 0 \<or> (\<exists>m. n = Suc m \<and> delay_ends m tw'))"
  by (cases n; cases "mersenne_twister_generate tw") (simp_all add: delay_ends.simps [of _ tw] split: prod.splits)

lemma delay_passed:
  assumes "mersenne_twister_generate (twister s t) = Some (r, tw)" "r mod 8 = 0" "at s t = Delay"
  shows "run f [Run (Thread t)] s = Some (s\<lparr>at := (at s)(t := Set_Mine), twister := (twister s)(t := tw)\<rparr>)"
  using assms by (simp add: thread_f_def goto_def Let_def)

lemma run_delay:
  assumes "delay_ends n (twister s t)" "at s t = Delay"
  shows "\<exists>as tw. run f as s = Some (s\<lparr>at := (at s)(t := Set_Mine), twister := (twister s)(t := tw)\<rparr>)"
  using assms
proof (induction n arbitrary: s)
  case 0
  then obtain r tw where "mersenne_twister_generate (twister s t) = Some (r, tw)" "r mod 8 = 0"
    using delay_ends_first [OF 0(1)] by (metis Zero_not_Suc)
  then show ?case by (intro exI) (rule delay_passed [OF _ _ 0(2)])
next
  case (Suc n)
  obtain r tw where r: "mersenne_twister_generate (twister s t) = Some (r, tw)" "r mod 8 = 0 \<or> delay_ends n tw"
    using delay_ends_first [OF Suc.prems(1)] by (metis Suc_inject)
  show ?case
  proof (cases "r mod 8 = 0")
    case True
    with r(1) show ?thesis by (intro exI) (rule delay_passed [OF _ _ Suc.prems(2)])
  next
    case False
    let ?s = "s\<lparr>twister := (twister s)(t := tw)\<rparr>"
    have "act f (Run (Thread t)) s = Some ?s" using r(1) False Suc.prems(2) by (simp add: thread_f_def Let_def)
    moreover obtain as tw' where "run f as ?s = Some (?s\<lparr>at := (at ?s)(t := Set_Mine), twister := (twister ?s)(t := tw')\<rparr>)"
      using Suc.IH [of ?s] r(2) False Suc.prems(2) by (auto simp: fun_upd_same simp del: fun_upd_apply)
    ultimately have "run f (Run (Thread t) # as) s = Some (s\<lparr>at := (at s)(t := Set_Mine), twister := (twister s)(t := tw')\<rparr>)"
      by simp
    then show ?thesis by blast
  qed
qed

lemma run_to_both:
  assumes "\<forall>t. \<exists>n. delay_ends n (tw t)"
  shows "\<exists>as tw'. run f as (machine_start tw) = Some (both Set_Mine Set_Mine tw')"
proof -
  obtain n1 n2 where d: "delay_ends n1 (tw T1)" "delay_ends n2 (tw T2)" using assms by blast
  let ?b = "both Delay Delay tw"
  obtain as tw1 where 1: "run f as ?b = Some (?b\<lparr>at := (at ?b)(T1 := Set_Mine), twister := (twister ?b)(T1 := tw1)\<rparr>)"
    using run_delay [of n1 ?b T1 f] d(1) by (auto simp: both_def)
  let ?c = "?b\<lparr>at := (at ?b)(T1 := Set_Mine), twister := (twister ?b)(T1 := tw1)\<rparr>"
  obtain bs tw2 where 2: "run f bs ?c = Some (?c\<lparr>at := (at ?c)(T2 := Set_Mine), twister := (twister ?c)(T2 := tw2)\<rparr>)"
    using run_delay [of n2 ?c T2 f] d(2) by (auto simp: both_def)
  have "?c\<lparr>at := (at ?c)(T2 := Set_Mine), twister := (twister ?c)(T2 := tw2)\<rparr> = both Set_Mine Set_Mine (tw(T1 := tw1, T2 := tw2))"
    by (auto simp: both_def fun_eq_iff split: thread.split)
  with 2 have "run f bs ?c = Some (both Set_Mine Set_Mine (tw(T1 := tw1, T2 := tw2)))" by (simp only:)
  with 1 have "run f (to_delays @ as @ bs) (machine_start tw) = Some (both Set_Mine Set_Mine (tw(T1 := tw1, T2 := tw2)))"
    by (simp_all only: run_append run_to_delays bind.bind_lunit)
  then show ?thesis by blast
qed

lemma reachable_from_both:
  assumes "\<forall>t. \<exists>n. delay_ends n (tw t)" "\<And>tw. \<exists>s. run f as (both Set_Mine Set_Mine tw) = Some s \<and> P s"
  shows "\<exists>s. reachable (\<lambda>s. s = machine_start tw) (machine_step f) s \<and> P s"
proof -
  obtain bs tw' where bs: "run f bs (machine_start tw) = Some (both Set_Mine Set_Mine tw')" using run_to_both [OF assms(1)] by blast
  obtain s where s: "run f as (both Set_Mine Set_Mine tw') = Some s" "P s" using assms(2) by blast
  have "run f (bs @ as) (machine_start tw) = Some s" using bs s by (simp only: run_append bind.bind_lunit)
  from run_reachable [OF this, of "\<lambda>s. s = machine_start tw"] s(2) show ?thesis by (auto intro: reach_start)
qed

lemma zeros_delay: "delay_ends 0 zeros"
proof -
  have "twister_ok zeros" by (simp add: zeros_def twister_ok_def)
  moreover have "next_word (window zeros) = 0" "temper 0 = 0" by code_simp+
  ultimately obtain tw where "mersenne_twister_generate zeros = Some (0, tw)" using generate_step [of zeros] by metis
  then show ?thesis by (subst delay_ends.simps) simp
qed

text \<open>Without the fence, as the file has it, the processor can reorder the write and the read of both threads: when the random delays end, there is a run in which main counts a reordering.\<close>

theorem reordering_without_fence:
  assumes "\<forall>t. \<exists>n. delay_ends n (tw t)"
  shows "\<exists>s. reachable (\<lambda>s. s = machine_start tw) (machine_step False) s \<and> detected s = 1"
  by (rule reachable_from_both [OF assms run_after_delays])

theorem reordering_without_fence_witness:
  "\<exists>s. reachable (\<lambda>s. s = machine_start (\<lambda>t. zeros)) (machine_step False) s \<and> detected s = 1"
  by (rule reordering_without_fence) (use zeros_delay in blast)

text \<open>A round with the fence: the first thread reads 0, the second one 1, and main is at its next round.\<close>

definition fenced_round :: "action list" where
  "fenced_round = concat (map (\<lambda>t. [Run (Thread t), Drain (Thread t), Drain (Thread t)] @ replicate 4 (Run (Thread t))
     @ replicate 2 (Drain (Thread t))) [T1, T2]) @ replicate 6 (Run Main)"

lemma run_fenced_round: "\<exists>s. run True fenced_round (both Set_Mine Set_Mine tw) = Some s
  \<and> main_at s = Reset_X \<and> mem s (Result T1) = 0 \<and> mem s (Result T2) = 1"
  by (simp add: fenced_round_def both_def machine_defs eval_nat_numeral)

theorem fence_stops_reordering_witness:
  "\<exists>s. reachable (\<lambda>s. s = machine_start (\<lambda>t. zeros)) (machine_step True) s
     \<and> main_at s = Reset_X \<and> mem s (Result T1) = 0 \<and> mem s (Result T2) = 1 \<and> detected s = 0"
proof -
  have "\<exists>s. reachable (\<lambda>s. s = machine_start (\<lambda>t. zeros)) (machine_step True) s
     \<and> (main_at s = Reset_X \<and> mem s (Result T1) = 0 \<and> mem s (Result T2) = 1)"
    by (rule reachable_from_both [OF _ run_fenced_round]) (use zeros_delay in blast)
  then show ?thesis using fence_stops_reordering [where tw = "\<lambda>t. zeros"] by blast
qed

end
