(* ===== verification/Shell_Memory.thy ===== *)
theory Shell_Memory
  imports Shell_Parser
begin

text \<open>
  The memory of the shell: the linked lists and arrays that 2/tokenizer.c, 2/parser.c and 2/main.c
  allocate and free, for one line. Shell_Tokens and Shell_Parser have what the tokens and
  commands of a line are; here are the blocks they are kept in. A read or free of a block that is not
  allocated, or of the wrong kind, is None, and so is a loop that does not end. The line itself, which the
  tokenizer only reads, is a string. The buffers that the tokenizer writes are blocks with their size, written byte by byte: a
  write outside, or a read of a byte that was not written, is None.
\<close>

section \<open>The heap\<close>

type_synonym addr = nat

record hcommand =
  name :: addr
  argv :: addr
  argc :: nat

text \<open>
  A buffer is its bytes as long as it is written: nothing, the terminating zero or another. A string that is only
  read and freed from then on is a block Chars with the bytes before its zero.
\<close>

datatype cell = Unwritten | Zero | Byte char

datatype block =
    Chars string
  | Buffer "cell list"
  | Token_Node addr "addr option"
  | Pointers "addr option option list"
  | Command_Node hcommand "addr option"
  | Command_Array "hcommand option list"
  | Pid_Node int "addr option"

text \<open>An entry of an array that nothing has been stored in is None; Some None is a null pointer.\<close>

record heap =
  blocks :: "addr \<Rightarrow> block option"
  next_addr :: addr

definition malloc :: "block \<Rightarrow> heap \<Rightarrow> addr \<times> heap" where
  "malloc b h = (next_addr h, h\<lparr>blocks := (blocks h)(next_addr h \<mapsto> b), next_addr := Suc (next_addr h)\<rparr>)"

definition free :: "addr \<Rightarrow> heap \<Rightarrow> heap option" where
  "free a h = (if blocks h a = None then None else Some (h\<lparr>blocks := (blocks h)(a := None)\<rparr>))"

definition store_block :: "addr \<Rightarrow> block \<Rightarrow> heap \<Rightarrow> heap option" where
  "store_block a b h = (if blocks h a = None then None else Some (h\<lparr>blocks := (blocks h)(a \<mapsto> b)\<rparr>))"

definition chars_at :: "heap \<Rightarrow> addr \<Rightarrow> string option" where
  "chars_at h a = (case blocks h a of Some (Chars s) \<Rightarrow> Some s | _ \<Rightarrow> None)"

definition token_at :: "heap \<Rightarrow> addr \<Rightarrow> (addr \<times> addr option) option" where
  "token_at h a = (case blocks h a of Some (Token_Node t q) \<Rightarrow> Some (t, q) | _ \<Rightarrow> None)"

definition pointers_at :: "heap \<Rightarrow> addr \<Rightarrow> addr option option list option" where
  "pointers_at h a = (case blocks h a of Some (Pointers ps) \<Rightarrow> Some ps | _ \<Rightarrow> None)"

definition command_at :: "heap \<Rightarrow> addr \<Rightarrow> (hcommand \<times> addr option) option" where
  "command_at h a = (case blocks h a of Some (Command_Node c q) \<Rightarrow> Some (c, q) | _ \<Rightarrow> None)"

definition array_at :: "heap \<Rightarrow> addr \<Rightarrow> hcommand option list option" where
  "array_at h a = (case blocks h a of Some (Command_Array cs) \<Rightarrow> Some cs | _ \<Rightarrow> None)"

definition pid_at :: "heap \<Rightarrow> addr \<Rightarrow> (int \<times> addr option) option" where
  "pid_at h a = (case blocks h a of Some (Pid_Node p q) \<Rightarrow> Some (p, q) | _ \<Rightarrow> None)"

definition strdup :: "addr \<Rightarrow> heap \<Rightarrow> (addr \<times> heap) option" where
  "strdup a h = do { s \<leftarrow> chars_at h a; Some (malloc (Chars s) h) }"

text \<open>ps[i] = p in an array of pointers, and the pointer that is there, if one has been stored.\<close>

definition set_pointer :: "addr \<Rightarrow> nat \<Rightarrow> addr option \<Rightarrow> heap \<Rightarrow> heap option" where
  "set_pointer v i p h = do { ps \<leftarrow> pointers_at h v; if i < length ps then store_block v (Pointers (ps[i := Some p])) h else None }"

definition get_pointer :: "addr \<Rightarrow> nat \<Rightarrow> heap \<Rightarrow> addr option option" where
  "get_pointer v i h = do { ps \<leftarrow> pointers_at h v; if i < length ps then ps ! i else None }"

section \<open>Buffers of characters\<close>

definition cells_at :: "heap \<Rightarrow> addr \<Rightarrow> cell list option" where
  "cells_at h a = (case blocks h a of Some (Buffer cs) \<Rightarrow> Some cs | _ \<Rightarrow> None)"

definition set_cell :: "addr \<Rightarrow> nat \<Rightarrow> cell \<Rightarrow> heap \<Rightarrow> heap option" where
  "set_cell a i c h = do { cs \<leftarrow> cells_at h a; if i < length cs then store_block a (Buffer (cs[i := c])) h else None }"

fun cells_string :: "cell list \<Rightarrow> string option" where
  "cells_string [] = None"
| "cells_string (Unwritten # cs) = None"
| "cells_string (Zero # cs) = Some []"
| "cells_string (Byte c # cs) = map_option (Cons c) (cells_string cs)"

definition as_string :: "addr \<Rightarrow> heap \<Rightarrow> heap option" where
  "as_string a h = do { cs \<leftarrow> cells_at h a; s \<leftarrow> cells_string cs; store_block a (Chars s) h }"

text \<open>What string[i] is in the line, and in a buffer from an index on.\<close>

definition line_cell :: "string \<Rightarrow> heap \<Rightarrow> nat \<Rightarrow> cell option" where
  "line_cell s h i = (if i < length s then Some (Byte (s ! i)) else if i = length s then Some Zero else None)"

definition block_cell :: "addr \<Rightarrow> nat \<Rightarrow> heap \<Rightarrow> nat \<Rightarrow> cell option" where
  "block_cell a start h i = do { cs \<leftarrow> cells_at h a; if start + i < length cs then Some (cs ! (start + i)) else None }"

fun substring_loop :: "(heap \<Rightarrow> nat \<Rightarrow> cell option) \<Rightarrow> addr \<Rightarrow> nat \<Rightarrow> heap \<Rightarrow> nat \<Rightarrow> heap option" where
  "substring_loop string answer i h 0 = set_cell answer i Zero h"
| "substring_loop string answer i h (Suc left) = do {
     c \<leftarrow> string h i;
     h \<leftarrow> (if c = Unwritten then None else set_cell answer i c h);
     if c = Zero then Some h else substring_loop string answer (i + 1) h left }"

definition heap_substring :: "(heap \<Rightarrow> nat \<Rightarrow> cell option) \<Rightarrow> nat \<Rightarrow> heap \<Rightarrow> (addr \<times> heap) option" where
  "heap_substring string char_count h = do {
     let (answer, h) = malloc (Buffer (replicate (char_count + 1) Unwritten)) h;
     h \<leftarrow> substring_loop string answer 0 h char_count;
     h \<leftarrow> as_string answer h;
     Some (answer, h) }"

text \<open>The loop of extract_quoted_token over what is between the quotes, with quoted_token_ptr.\<close>

fun quoted_loop :: "addr \<Rightarrow> string \<Rightarrow> char \<Rightarrow> bool \<Rightarrow> nat \<Rightarrow> heap \<Rightarrow> heap option" where
  "quoted_loop quoted_token [] q next_char_is_escaped p h = set_cell quoted_token p Zero h"
| "quoted_loop quoted_token (c # s) q next_char_is_escaped p h =
     (if c = backslash
      then if next_char_is_escaped
           then do { h \<leftarrow> set_cell quoted_token p (Byte backslash) h; quoted_loop quoted_token s q False (p + 1) h }
           else quoted_loop quoted_token s q True p h
      else if next_char_is_escaped \<and> \<not> (is_quote c \<and> c = q)
      then do { h \<leftarrow> set_cell quoted_token p (Byte backslash) h; h \<leftarrow> set_cell quoted_token (p + 1) (Byte c) h;
             quoted_loop quoted_token s q False (p + 2) h }
      else do { h \<leftarrow> set_cell quoted_token p (Byte c) h; quoted_loop quoted_token s q False (p + 1) h })"

definition heap_extract_quoted_token :: "string \<Rightarrow> char \<Rightarrow> heap \<Rightarrow> (addr \<times> heap) option" where
  "heap_extract_quoted_token string quote_symbol h = do {
     let (quoted_token, h) = malloc (Buffer (replicate (length string + 1) Unwritten)) h;
     h \<leftarrow> quoted_loop quoted_token string quote_symbol False 0 h;
     h \<leftarrow> as_string quoted_token h;
     Some (quoted_token, h) }"

section \<open>Tokens\<close>

definition heap_extract_quoted_literal :: "string \<Rightarrow> char \<Rightarrow> heap \<Rightarrow> ((addr \<times> string option) \<times> heap) option" where
  "heap_extract_quoted_literal string quote_symbol h = do {
     let closing_quote_index = get_closing_quote_index string quote_symbol False;
     (quoted_token, h) \<leftarrow> heap_extract_quoted_token (take closing_quote_index string) quote_symbol h;
     let (node, h) = malloc (Token_Node quoted_token None) h;
     Some ((node, if closing_quote_index = length string then None else Some (drop (closing_quote_index + 1) string)), h) }"

text \<open>Every call in the code frees the string.\<close>

definition heap_prepend :: "addr \<Rightarrow> nat option \<Rightarrow> addr option \<Rightarrow> nat \<Rightarrow> heap \<Rightarrow> (addr option \<times> heap) option" where
  "heap_prepend string non_classified_token_start following_tokens following_tokens_start h =
     (case non_classified_token_start of
        None \<Rightarrow> do { h \<leftarrow> free string h; Some (following_tokens, h) }
      | Some start \<Rightarrow> do {
          (token, h) \<leftarrow> heap_substring (block_cell string start) (following_tokens_start - start) h;
          let (non_classified_token, h) = malloc (Token_Node token following_tokens) h;
          h \<leftarrow> free string h;
          Some (Some non_classified_token, h) })"

text \<open>The loop of get_one_token, as Shell_Tokens.one_token_loop, with new_string in its block.\<close>

fun heap_one_token_loop :: "string \<Rightarrow> nat \<Rightarrow> addr \<Rightarrow> nat \<Rightarrow> nat option \<Rightarrow> bool \<Rightarrow> heap \<Rightarrow> ((addr option \<times> string option) \<times> heap) option" where
  "heap_one_token_loop [] old_string_ptr new_string new_string_ptr start char_is_escaped h = do {
     (list, h) \<leftarrow> heap_prepend new_string start None new_string_ptr h;
     Some ((list, None), h) }"
| "heap_one_token_loop (c # s) old_string_ptr new_string new_string_ptr start char_is_escaped h =
     (if \<not> char_is_escaped \<and> is_space c \<and> start \<noteq> None
      then do {
        (token, h) \<leftarrow> heap_substring (block_cell new_string (the start)) (new_string_ptr - the start) h;
        let (answer, h) = malloc (Token_Node token None) h;
        h \<leftarrow> free new_string h;
        Some ((Some answer, Some s), h) }
      else if \<not> char_is_escaped \<and> is_quote c
      then do {
        ((quoted_token, rest), h) \<leftarrow> heap_extract_quoted_literal s c h;
        (list, h) \<leftarrow> heap_prepend new_string start (Some quoted_token) new_string_ptr h;
        Some ((list, rest), h) }
      else if \<not> char_is_escaped \<and> is_operator_char c
      then do {
        let classified_token_size = (case s of [] \<Rightarrow> 1 | c' # _ \<Rightarrow> if c' = c then 2 else 1);
        (token, h) \<leftarrow> heap_substring (line_cell (c # s)) classified_token_size h;
        let (classified_token, h) = malloc (Token_Node token None) h;
        (list, h) \<leftarrow> heap_prepend new_string start (Some classified_token) new_string_ptr h;
        Some ((list, Some (drop classified_token_size (c # s))), h) }
      else
        (let start' = (if \<not> char_is_escaped \<and> \<not> is_space c \<and> start = None then Some old_string_ptr else start) in
         if c = backslash \<and> \<not> char_is_escaped
         then heap_one_token_loop s (old_string_ptr + 1) new_string new_string_ptr start' True h
         else do {
           h \<leftarrow> set_cell new_string new_string_ptr (Byte c) h;
           heap_one_token_loop s (old_string_ptr + 1) new_string (new_string_ptr + 1) start' False h }))"

definition heap_get_one_token :: "string \<Rightarrow> heap \<Rightarrow> ((addr option \<times> string option) \<times> heap) option" where
  "heap_get_one_token string h = do {
     let (new_string, h) = malloc (Buffer (replicate (length string + 1) Zero)) h;
     heap_one_token_loop string 0 new_string 0 None False h }"

partial_function (option) last_token :: "addr \<Rightarrow> heap \<Rightarrow> addr option" where
  "last_token current_token h = do {
     (t, other_tokens) \<leftarrow> token_at h current_token;
     case other_tokens of None \<Rightarrow> Some current_token | Some node \<Rightarrow> last_token node h }"

definition set_other_tokens :: "addr \<Rightarrow> addr option \<Rightarrow> heap \<Rightarrow> heap option" where
  "set_other_tokens node p h = do { (t, q) \<leftarrow> token_at h node; store_block node (Token_Node t p) h }"

definition walk_to_end :: "addr option \<Rightarrow> heap \<Rightarrow> addr option option" where
  "walk_to_end current_token h = (case current_token of
     None \<Rightarrow> Some None
   | Some node \<Rightarrow> map_option Some (last_token node h))"

partial_function (option) tokens_loop :: "addr option \<Rightarrow> addr option \<Rightarrow> string option \<Rightarrow> heap \<Rightarrow> (addr option \<times> heap) option" where
  "tokens_loop start_token current_token current_string_ptr h = (case current_string_ptr of
     None \<Rightarrow> Some (start_token, h)
   | Some string \<Rightarrow> do {
       ((list, unparsed), h) \<leftarrow> heap_get_one_token string h;
       (start_token, current_token, h) \<leftarrow>
         (case start_token of
            None \<Rightarrow> Some (list, list, h)
          | Some _ \<Rightarrow> (case current_token of
                None \<Rightarrow> None
              | Some node \<Rightarrow> do { h \<leftarrow> set_other_tokens node list h; Some (start_token, current_token, h) }));
       current_token \<leftarrow> walk_to_end current_token h;
       tokens_loop start_token current_token unparsed h })"

definition heap_get_tokens :: "string \<Rightarrow> heap \<Rightarrow> (addr option \<times> heap) option" where
  "heap_get_tokens string h = tokens_loop None None (Some string) h"

partial_function (option) dispose_of_tokens :: "addr option \<Rightarrow> heap \<Rightarrow> heap option" where
  "dispose_of_tokens tokens h = (case tokens of
     None \<Rightarrow> Some h
   | Some node \<Rightarrow> do {
       (token, next_tokens) \<leftarrow> token_at h node;
       h \<leftarrow> free token h;
       h \<leftarrow> free node h;
       dispose_of_tokens next_tokens h })"

section \<open>Commands\<close>

partial_function (option) heap_count_tokens :: "addr option \<Rightarrow> nat \<Rightarrow> heap \<Rightarrow> nat option" where
  "heap_count_tokens tokens start_count h = (case tokens of
     None \<Rightarrow> Some start_count
   | Some node \<Rightarrow> do {
       (token, other_tokens) \<leftarrow> token_at h node;
       s \<leftarrow> chars_at h token;
       if is_operator s then Some start_count else heap_count_tokens other_tokens (start_count + 1) h })"

text \<open>The loop over the arguments: the last argument counts what is left.\<close>

fun fill_argv :: "addr \<Rightarrow> nat \<Rightarrow> addr option \<Rightarrow> heap \<Rightarrow> nat \<Rightarrow> (addr option \<times> heap) option" where
  "fill_argv v argument_ptr next_tokens h 0 = Some (next_tokens, h)"
| "fill_argv v argument_ptr next_tokens h (Suc left) = (case next_tokens of
     None \<Rightarrow> None
   | Some node \<Rightarrow> do {
       (token, other_tokens) \<leftarrow> token_at h node;
       (copy, h) \<leftarrow> strdup token h;
       h \<leftarrow> set_pointer v argument_ptr (Some copy) h;
       fill_argv v (argument_ptr + 1) other_tokens h left })"

definition set_other_commands :: "addr \<Rightarrow> addr \<Rightarrow> heap \<Rightarrow> heap option" where
  "set_other_commands node p h = do { (c, q) \<leftarrow> command_at h node; store_block node (Command_Node c (Some p)) h }"

partial_function (option) convert_loop :: "addr option \<Rightarrow> addr option \<Rightarrow> addr option \<Rightarrow> heap \<Rightarrow> (addr option \<times> heap) option" where
  "convert_loop previous_command current_command token_ptr h = (case token_ptr of
     None \<Rightarrow> Some (previous_command, h)
   | Some node \<Rightarrow> do {
       (token, other_tokens) \<leftarrow> token_at h node;
       (command, h) \<leftarrow> strdup token h;
       s \<leftarrow> chars_at h command;
       argument_count \<leftarrow> (if \<not> is_operator s then heap_count_tokens other_tokens 0 h else Some 0);
       let (v, h) = malloc (Pointers (replicate argument_count None)) h;
       (next_tokens, h) \<leftarrow> fill_argv v 0 other_tokens h argument_count;
       let (command_and_following, h) =
         malloc (Command_Node \<lparr>name = command, argv = v, argc = argument_count\<rparr> None) h;
       h \<leftarrow> (case current_command of None \<Rightarrow> Some h | Some c \<Rightarrow> set_other_commands c command_and_following h);
       convert_loop (if current_command = None then Some command_and_following else previous_command)
         (Some command_and_following) next_tokens h })"

partial_function (option) heap_count_commands :: "addr option \<Rightarrow> nat \<Rightarrow> heap \<Rightarrow> nat option" where
  "heap_count_commands commands start_count h = (case commands of
     None \<Rightarrow> Some start_count
   | Some node \<Rightarrow> do { (c, other_commands) \<leftarrow> command_at h node; heap_count_commands other_commands (start_count + 1) h })"

fun copy_commands :: "addr \<Rightarrow> nat \<Rightarrow> addr option \<Rightarrow> heap \<Rightarrow> nat \<Rightarrow> heap option" where
  "copy_commands array i p h 0 = Some h"
| "copy_commands array i p h (Suc left) = (case p of
     None \<Rightarrow> None
   | Some node \<Rightarrow> do {
       (c, other_commands) \<leftarrow> command_at h node;
       cs \<leftarrow> array_at h array;
       h \<leftarrow> (if i < length cs then store_block array (Command_Array (cs[i := Some c])) h else None);
       copy_commands array (i + 1) other_commands h left })"

partial_function (option) dispose_of_command_list_structure :: "addr option \<Rightarrow> heap \<Rightarrow> heap option" where
  "dispose_of_command_list_structure commands h = (case commands of
     None \<Rightarrow> Some h
   | Some node \<Rightarrow> do {
       (c, next_command) \<leftarrow> command_at h node;
       h \<leftarrow> free node h;
       dispose_of_command_list_structure next_command h })"

definition heap_parse :: "string \<Rightarrow> heap \<Rightarrow> ((addr \<times> nat) \<times> heap) option" where
  "heap_parse string h = do {
     (tokens, h) \<leftarrow> heap_get_tokens string h;
     (commands, h) \<leftarrow> convert_loop None None tokens h;
     h \<leftarrow> dispose_of_tokens tokens h;
     command_count \<leftarrow> heap_count_commands commands 0 h;
     let (commands_as_array, h) = malloc (Command_Array (replicate command_count None)) h;
     h \<leftarrow> copy_commands commands_as_array 0 commands h command_count;
     h \<leftarrow> dispose_of_command_list_structure commands h;
     Some ((commands_as_array, command_count), h) }"

fun free_arguments :: "addr \<Rightarrow> nat \<Rightarrow> heap \<Rightarrow> nat \<Rightarrow> heap option" where
  "free_arguments v j h 0 = Some h"
| "free_arguments v j h (Suc left) = do {
     p \<leftarrow> get_pointer v j h;
     a \<leftarrow> p;
     h \<leftarrow> free a h;
     free_arguments v (j + 1) h left }"

fun free_commands :: "addr \<Rightarrow> nat \<Rightarrow> heap \<Rightarrow> nat \<Rightarrow> heap option" where
  "free_commands array i h 0 = Some h"
| "free_commands array i h (Suc left) = do {
     cs \<leftarrow> array_at h array;
     c \<leftarrow> (if i < length cs then cs ! i else None);
     h \<leftarrow> free (name c) h;
     h \<leftarrow> free_arguments (argv c) 0 h (argc c);
     h \<leftarrow> free (argv c) h;
     free_commands array (i + 1) h left }"

definition dispose_of_commands :: "addr \<times> nat \<Rightarrow> heap \<Rightarrow> heap option" where
  "dispose_of_commands commands h = (case commands of (array, command_count) \<Rightarrow> do {
     h \<leftarrow> free_commands array 0 h command_count;
     free array h })"

section \<open>The child and the children\<close>

text \<open>
  execute_command up to the exit: the copies for execvp, which come with a null pointer at their end, the
  commands freed, and, when execvp returns, the copies freed.
\<close>

fun copy_arguments :: "addr \<Rightarrow> addr \<Rightarrow> nat \<Rightarrow> heap \<Rightarrow> nat \<Rightarrow> heap option" where
  "copy_arguments v from i h 0 = Some h"
| "copy_arguments v from i h (Suc left) = do {
     p \<leftarrow> get_pointer from i h;
     a \<leftarrow> p;
     (copy, h) \<leftarrow> strdup a h;
     h \<leftarrow> set_pointer v (i + 1) (Some copy) h;
     copy_arguments v from (i + 1) h left }"

partial_function (option) free_until_null :: "addr \<Rightarrow> nat \<Rightarrow> heap \<Rightarrow> heap option" where
  "free_until_null v i h = do {
     p \<leftarrow> get_pointer v i h;
     case p of None \<Rightarrow> Some h | Some a \<Rightarrow> do { h \<leftarrow> free a h; free_until_null v (i + 1) h } }"

definition execute_command :: "addr \<times> nat \<Rightarrow> hcommand \<Rightarrow> heap \<Rightarrow> (string list \<times> heap) option" where
  "execute_command commands this_command h = do {
     let (v, h) = malloc (Pointers (replicate (2 + argc this_command) None)) h;
     (copy, h) \<leftarrow> strdup (name this_command) h;
     h \<leftarrow> set_pointer v 0 (Some copy) h;
     h \<leftarrow> copy_arguments v (argv this_command) 0 h (argc this_command);
     h \<leftarrow> set_pointer v (argc this_command + 1) None h;
     h \<leftarrow> dispose_of_commands commands h;
     ps \<leftarrow> pointers_at h v;
     executed \<leftarrow> those (map (\<lambda>p. do { a \<leftarrow> p; a \<leftarrow> a; chars_at h a }) (takeWhile (\<lambda>p. p \<noteq> Some None) ps));
     h \<leftarrow> free_until_null v 0 h;
     h \<leftarrow> free v h;
     Some (executed, h) }"

definition add_pid :: "addr option \<Rightarrow> int \<Rightarrow> heap \<Rightarrow> addr \<times> heap" where
  "add_pid list new_pid h = malloc (Pid_Node new_pid list) h"

partial_function (option) dispose_of_pid_list :: "addr option \<Rightarrow> heap \<Rightarrow> heap option" where
  "dispose_of_pid_list list h = (case list of
     None \<Rightarrow> Some h
   | Some node \<Rightarrow> do { (p, other_pids) \<leftarrow> pid_at h node; h \<leftarrow> free node h; dispose_of_pid_list other_pids h })"

section \<open>What a call has made\<close>

text \<open>
  A heap is well formed when nothing is allocated above the next address. A part of the program has
  made the blocks A when it changes nothing but these, which are new; having freed all it leaves the heap as it was.
\<close>

definition heap_ok :: "heap \<Rightarrow> bool" where
  "heap_ok h \<longleftrightarrow> (\<forall>a. next_addr h \<le> a \<longrightarrow> blocks h a = None)"

definition made :: "heap \<Rightarrow> heap \<Rightarrow> addr set \<Rightarrow> bool" where
  "made h h' A \<longleftrightarrow> heap_ok h \<and> heap_ok h' \<and> next_addr h \<le> next_addr h'
     \<and> (\<forall>a \<in> A. next_addr h \<le> a \<and> a < next_addr h') \<and> (\<forall>a. a \<notin> A \<longrightarrow> blocks h' a = blocks h a)"

lemma madeD:
  assumes "made h h' A"
  shows "heap_ok h" "heap_ok h'" "next_addr h \<le> next_addr h'"
    and made_new: "a \<in> A \<Longrightarrow> next_addr h \<le> a \<and> a < next_addr h'"
    and made_frame: "a \<notin> A \<Longrightarrow> blocks h' a = blocks h a"
  using assms unfolding made_def by blast+

lemma madeI:
  assumes "heap_ok h" "heap_ok h'" "next_addr h \<le> next_addr h'" "\<And>a. a \<in> A \<Longrightarrow> next_addr h \<le> a \<and> a < next_addr h'"
    "\<And>a. a \<notin> A \<Longrightarrow> blocks h' a = blocks h a"
  shows "made h h' A"
  using assms unfolding made_def by blast

lemma heap_okD: "heap_ok h \<Longrightarrow> blocks h a \<noteq> None \<Longrightarrow> a < next_addr h"
  unfolding heap_ok_def by (meson not_le)

lemma heap_okI: "(\<And>a. blocks h a \<noteq> None \<Longrightarrow> a < next_addr h) \<Longrightarrow> heap_ok h"
  unfolding heap_ok_def by (meson not_le)

lemma made_nothing: "made h h' {} \<Longrightarrow> blocks h' = blocks h"
  by (rule ext) (simp add: made_frame)

lemma made_refl: "heap_ok h \<Longrightarrow> made h h {}"
  by (simp add: made_def)

lemma made_trans:
  assumes m: "made h h1 A" "made h1 h2 B"
  shows "made h h2 (A \<union> B)"
proof (rule madeI)
  note le = madeD(3) [OF m(1)] madeD(3) [OF m(2)]
  show "next_addr h \<le> next_addr h2" using le by simp
  show "next_addr h \<le> a \<and> a < next_addr h2" if "a \<in> A \<union> B" for a
    using that
  proof
    assume "a \<in> A"
    from made_new [OF m(1) this] le show ?thesis by simp
  next
    assume "a \<in> B"
    from made_new [OF m(2) this] le show ?thesis by simp
  qed
  show "blocks h2 a = blocks h a" if "a \<notin> A \<union> B" for a
    using that by (simp add: made_frame [OF m(1)] made_frame [OF m(2)])
qed (rule madeD(1) [OF m(1)] madeD(2) [OF m(2)])+

lemma made_disjoint:
  assumes "made h h1 A" "made h1 h2 B"
  shows "A \<inter> B = {}"
proof (rule equals0I)
  fix a assume "a \<in> A \<inter> B"
  then have "a < next_addr h1" "next_addr h1 \<le> a" using assms by (blast dest: made_new)+
  then show False by simp
qed

lemma made_malloc:
  assumes m: "made h h1 A" and a: "malloc b h1 = (a, h2)"
  shows "made h h2 (insert a A) \<and> a = next_addr h1 \<and> a \<notin> A \<and> blocks h2 = (blocks h1)(a \<mapsto> b)"
proof -
  have h2: "a = next_addr h1" "h2 = h1\<lparr>blocks := (blocks h1)(a \<mapsto> b), next_addr := Suc a\<rparr>"
    using a by (auto simp: malloc_def)
  note le = madeD(3) [OF m]
  have "made h h2 (insert a A)"
  proof (rule madeI)
    show "heap_ok h2"
      by (rule heap_okI) (use heap_okD [OF madeD(2) [OF m]] h2 in \<open>auto split: if_splits intro: less_SucI\<close>)
    show "next_addr h \<le> next_addr h2" using le h2 by simp
    show "next_addr h \<le> x \<and> x < next_addr h2" if "x \<in> insert a A" for x
      using that le h2 made_new [OF m, of x] by auto
    show "blocks h2 x = blocks h x" if "x \<notin> insert a A" for x using that h2 made_frame [OF m, of x] by simp
  qed (rule madeD(1) [OF m])
  moreover have "a \<notin> A" using made_new [OF m, of a] h2(1) by blast
  ultimately show ?thesis using h2 by simp
qed

lemma malloc_keeps:
  assumes "heap_ok h" "malloc b h = (a, h')" "blocks h x \<noteq> None"
  shows "x \<noteq> a" "blocks h' x = blocks h x"
  using heap_okD [OF assms(1,3)] assms(2) by (auto simp: malloc_def)

lemma made_store:
  assumes m: "made h h1 A" and a: "a \<in> A" "store_block a b h1 = Some h2"
  shows "made h h2 A \<and> blocks h2 = (blocks h1)(a \<mapsto> b)"
proof -
  have h2: "h2 = h1\<lparr>blocks := (blocks h1)(a \<mapsto> b)\<rparr>" using a(2) by (auto simp: store_block_def split: if_splits)
  have "made h h2 A"
  proof (rule madeI)
    show "heap_ok h2"
      by (rule heap_okI) (use heap_okD [OF madeD(2) [OF m]] h2 made_new [OF m a(1)] in \<open>auto split: if_splits\<close>)
    show "blocks h2 x = blocks h x" if "x \<notin> A" for x using that h2 a(1) made_frame [OF m, of x] by auto
  qed (use h2 madeD(1,3) [OF m] made_new [OF m] in auto)
  then show ?thesis using h2 by simp
qed

lemma made_free_all:
  assumes m: "made h h1 A" and h2: "next_addr h2 = next_addr h1" "blocks h2 = (\<lambda>a. if a \<in> F then None else blocks h1 a)"
    and F: "F \<subseteq> A"
  shows "made h h2 (A - F)"
proof (rule madeI)
  show "heap_ok h2"
    by (rule heap_okI) (use heap_okD [OF madeD(2) [OF m]] h2 in \<open>auto split: if_splits\<close>)
  show "blocks h2 x = blocks h x" if "x \<notin> A - F" for x
  proof (cases "x \<in> F")
    case True
    then have "next_addr h \<le> x" using F made_new [OF m, of x] by blast
    then have "blocks h x = None" using heap_okD [OF madeD(1) [OF m], of x] by (meson not_le)
    with True h2 show ?thesis by simp
  qed (use that h2 made_frame [OF m, of x] in simp)
qed (use h2 madeD(1,3) [OF m] made_new [OF m] in auto)

lemma made_old:
  assumes m: "made h h' A" and a: "blocks h a \<noteq> None"
  shows "a \<notin> A \<and> blocks h' a = blocks h a"
proof -
  have "a \<notin> A" using made_new [OF m, of a] heap_okD [OF madeD(1) [OF m] a] by auto
  then show ?thesis by (simp add: made_frame [OF m])
qed

section \<open>Lists of tokens\<close>

fun tokens_in :: "heap \<Rightarrow> addr option \<Rightarrow> (addr \<times> addr) list \<Rightarrow> string list \<Rightarrow> bool" where
  "tokens_in h p [] ts \<longleftrightarrow> p = None \<and> ts = []"
| "tokens_in h p ((n, a) # ns) ts \<longleftrightarrow> p = Some n \<and> (\<exists>q t us. ts = t # us \<and> blocks h n = Some (Token_Node a q)
     \<and> blocks h a = Some (Chars t) \<and> tokens_in h q ns us)"

definition token_ids :: "(addr \<times> addr) list \<Rightarrow> addr list" where
  "token_ids ns = concat (map (\<lambda>(n, a). [n, a]) ns)"

lemma token_ids_simps [simp]:
  "token_ids [] = []" "token_ids ((n, a) # ns) = n # a # token_ids ns" "token_ids (xs @ ys) = token_ids xs @ token_ids ys"
  by (simp_all add: token_ids_def)

lemma tokens_in_frame:
  "tokens_in h p ns ts \<Longrightarrow> (\<And>a. a \<in> set (token_ids ns) \<Longrightarrow> blocks h' a = blocks h a) \<Longrightarrow> tokens_in h' p ns ts"
  by (induction h p ns ts rule: tokens_in.induct) auto

lemma tokens_in_allocated: "tokens_in h p ns ts \<Longrightarrow> a \<in> set (token_ids ns) \<Longrightarrow> blocks h a \<noteq> None"
  by (induction h p ns ts rule: tokens_in.induct) auto

lemma free_all_one:
  "free a h = Some h' \<longleftrightarrow> blocks h a \<noteq> None \<and> h' = h\<lparr>blocks := \<lambda>x. if x = a then None else blocks h x\<rparr>"
  by (auto simp: free_def fun_upd_def)

text \<open>Writing into a buffer.\<close>

definition put_block :: "addr \<Rightarrow> block \<Rightarrow> heap \<Rightarrow> heap" where
  "put_block a b h = h\<lparr>blocks := (blocks h)(a \<mapsto> b)\<rparr>"

lemma put_block_simps [simp]:
  "put_block a b (put_block a b' h) = put_block a b h"
  "blocks (put_block a b h) = (blocks h)(a \<mapsto> b)" "next_addr (put_block a b h) = next_addr h"
  by (simp_all add: put_block_def)

lemma set_cell_put:
  "blocks h a = Some (Buffer cs) \<Longrightarrow> i < length cs \<Longrightarrow> set_cell a i c h = Some (put_block a (Buffer (cs[i := c])) h)"
  by (simp add: set_cell_def cells_at_def store_block_def put_block_def)

lemma as_string_put:
  "blocks h a = Some (Buffer cs) \<Longrightarrow> cells_string cs = Some s \<Longrightarrow> as_string a h = Some (put_block a (Chars s) h)"
  by (simp add: as_string_def cells_at_def store_block_def put_block_def)

lemma cells_string_written: "cells_string (map Byte s @ Zero # cs) = Some s"
  by (induction s) simp_all

text \<open>A source shows a string as long as the blocks that were there are not written.\<close>

definition shows_string :: "(heap \<Rightarrow> nat \<Rightarrow> cell option) \<Rightarrow> heap \<Rightarrow> string \<Rightarrow> bool" where
  "shows_string string h s \<longleftrightarrow>
     (\<forall>h' i. (\<forall>a. blocks h a \<noteq> None \<longrightarrow> blocks h' a = blocks h a) \<longrightarrow> i < length s \<longrightarrow> string h' i = Some (Byte (s ! i)))"

lemma line_shows: "n \<le> length s \<Longrightarrow> shows_string (line_cell s) h (take n s)"
  by (simp add: shows_string_def line_cell_def)

lemma block_shows:
  "blocks h a = Some (Buffer (map Byte s @ cs)) \<Longrightarrow> start \<le> length s \<Longrightarrow> shows_string (block_cell a start) h (drop start s)"
  by (auto simp: shows_string_def block_cell_def cells_at_def nth_append)

lemma substring_loop_copies:
  assumes "\<And>h' i. (\<And>x. x \<noteq> a \<Longrightarrow> blocks h' x = blocks h x) \<Longrightarrow> i < length s \<Longrightarrow> string h' i = Some (Byte (s ! i))"
    "blocks h a = Some (Buffer (map Byte (take i s) @ replicate (Suc left) Unwritten))" "i + left = length s"
  shows "substring_loop string a i h left = Some (put_block a (Buffer (map Byte s @ [Zero])) h)"
  using assms
proof (induction left arbitrary: i h)
  case 0
  then show ?case by (simp add: set_cell_put list_update_append)
next
  case (Suc left)
  let ?h = "put_block a (Buffer (map Byte (take (Suc i) s) @ replicate (Suc left) Unwritten)) h"
  have i: "i < length s" using Suc.prems(3) by simp
  have "set_cell a i (Byte (s ! i)) h = Some ?h"
    using i by (simp add: set_cell_put [OF Suc.prems(2)] list_update_append take_Suc_conv_app_nth)
  moreover have "substring_loop string a (Suc i) ?h left = Some (put_block a (Buffer (map Byte s @ [Zero])) ?h)"
    by (rule Suc.IH) (use Suc.prems(1,3) in simp_all)
  ultimately show ?case using Suc.prems(1) [of h i] i by simp
qed

lemma heap_substring_made:
  assumes m: "made h0 h A" and s: "shows_string string h s"
  shows "\<exists>a h'. heap_substring string (length s) h = Some (a, h') \<and> made h0 h' (insert a A) \<and> a \<notin> A
    \<and> blocks h a = None \<and> blocks h' = (blocks h)(a \<mapsto> Chars s)"
proof -
  obtain a h1 where 1: "malloc (Buffer (replicate (length s + 1) Unwritten)) h = (a, h1)"
    by (cases "malloc (Buffer (replicate (length s + 1) Unwritten)) h")
  note m1 = made_malloc [OF m 1]
  have new: "blocks h a = None" using m1 heap_okD [OF madeD(2) [OF m], of a] by (cases "blocks h a") auto
  have read: "string h' i = Some (Byte (s ! i))" if "\<And>x. x \<noteq> a \<Longrightarrow> blocks h' x = blocks h1 x" "i < length s" for h' i
  proof -
    have "blocks h' x = blocks h x" if "blocks h x \<noteq> None" for x
      using m1 new that \<open>\<And>x. x \<noteq> a \<Longrightarrow> blocks h' x = blocks h1 x\<close> [of x] by (cases "x = a") auto
    then show ?thesis using s that(2) unfolding shows_string_def by blast
  qed
  let ?h = "put_block a (Buffer (map Byte s @ [Zero])) h1"
  have "substring_loop string a 0 h1 (length s) = Some ?h"
    by (rule substring_loop_copies) (use read m1 in auto)
  moreover have "as_string a ?h = Some (put_block a (Chars s) ?h)" by (rule as_string_put) (simp, rule cells_string_written)
  ultimately have "heap_substring string (length s) h = Some (a, put_block a (Chars s) h1)"
    using 1 by (simp add: heap_substring_def)
  moreover have "made h0 (put_block a (Chars s) h1) (insert a A)"
    by (rule made_store [THEN conjunct1, OF conjunct1 [OF m1], of a "Chars s"]) (use m1 in \<open>simp_all add: store_block_def put_block_def\<close>)
  ultimately show ?thesis using m1 new by (intro exI [of _ a] exI [of _ "put_block a (Chars s) h1"]) auto
qed

lemma quoted_loop_writes:
  "blocks h a = Some (Buffer (map Byte out @ replicate k Unwritten)) \<Longrightarrow> length s + 1 + of_bool esc \<le> k \<Longrightarrow>
    \<exists>cs. quoted_loop a s q esc (length out) h = Some (put_block a (Buffer (map Byte (out @ extract_quoted_token s q esc) @ Zero # cs)) h)"
proof (induction s q esc arbitrary: out k h rule: extract_quoted_token.induct)
  case (1 q esc)
  then obtain j where "k = Suc j" by (cases k) auto
  then show ?case using 1 by (intro exI [of _ "replicate j Unwritten"]) (simp add: set_cell_put list_update_append)
next
  case (2 c s q esc)
  obtain j where j: "k = Suc j" using "2.prems"(2) by (cases k) auto
  have written: "set_cell a (length out) (Byte d) h = Some (put_block a (Buffer (map Byte (out @ [d]) @ replicate j Unwritten)) h)" for d
    using j by (simp add: set_cell_put [OF "2.prems"(1)] list_update_append)
  consider "c = backslash" "esc" | "c = backslash" "\<not> esc" | "c \<noteq> backslash" "esc \<and> \<not> (is_quote c \<and> c = q)"
    | "c \<noteq> backslash" "\<not> (esc \<and> \<not> (is_quote c \<and> c = q))" by blast
  then show ?case
  proof cases
    case 1
    then show ?thesis using "2.IH"(1) [OF 1, of "put_block a (Buffer (map Byte (out @ [c]) @ replicate j Unwritten)) h" "out @ [c]" j]
      "2.prems"(2) j written [of c] by simp
  next
    case 2
    then show ?thesis using "2.IH"(2) [OF 2, of h out k] "2.prems" by simp
  next
    case 3
    obtain i where i: "j = Suc i" using "2.prems"(2) j 3 by (cases j) auto
    let ?h = "put_block a (Buffer (map Byte (out @ [backslash]) @ replicate j Unwritten)) h"
    have "set_cell a (length out + 1) (Byte c) ?h = Some (put_block a (Buffer (map Byte (out @ [backslash, c]) @ replicate i Unwritten)) h)"
      using i by (subst set_cell_put) (auto simp: list_update_append)
    then show ?thesis
      using "2.IH"(3) [OF 3(1), of "put_block a (Buffer (map Byte (out @ [backslash, c]) @ replicate i Unwritten)) h" "out @ [backslash, c]" i]
      "2.prems"(2) i j 3 written [of backslash] by auto
  next
    case 4
    then show ?thesis using "2.IH"(3) [OF 4(1), of "put_block a (Buffer (map Byte (out @ [c]) @ replicate j Unwritten)) h" "out @ [c]" j]
      "2.prems"(2) j written [of c] by auto
  qed
qed

lemma heap_extract_quoted_token_made:
  assumes m: "made h0 h A"
  shows "\<exists>a h'. heap_extract_quoted_token s q h = Some (a, h') \<and> made h0 h' (insert a A) \<and> a \<notin> A
    \<and> blocks h a = None \<and> blocks h' = (blocks h)(a \<mapsto> Chars (extract_quoted_token s q False))"
proof -
  obtain a h1 where 1: "malloc (Buffer (replicate (length s + 1) Unwritten)) h = (a, h1)"
    by (cases "malloc (Buffer (replicate (length s + 1) Unwritten)) h")
  note m1 = made_malloc [OF m 1]
  have new: "blocks h a = None" using m1 heap_okD [OF madeD(2) [OF m], of a] by (cases "blocks h a") auto
  let ?t = "extract_quoted_token s q False"
  obtain cs where 2: "quoted_loop a s q False 0 h1 = Some (put_block a (Buffer (map Byte ?t @ Zero # cs)) h1)"
    using quoted_loop_writes [of h1 a "[]" "length s + 1" s False q] m1 by auto
  have "as_string a (put_block a (Buffer (map Byte ?t @ Zero # cs)) h1) = Some (put_block a (Chars ?t) h1)"
    by (subst as_string_put [of _ _ _ ?t]) (simp, rule cells_string_written, simp)
  then have "heap_extract_quoted_token s q h = Some (a, put_block a (Chars ?t) h1)"
    using 1 2 by (simp add: heap_extract_quoted_token_def)
  moreover have "made h0 (put_block a (Chars ?t) h1) (insert a A)"
    by (rule made_store [THEN conjunct1, OF conjunct1 [OF m1], of a "Chars ?t"]) (use m1 in \<open>simp_all add: store_block_def put_block_def\<close>)
  ultimately show ?thesis using m1 new by (intro exI [of _ a] exI [of _ "put_block a (Chars ?t) h1"]) auto
qed

text \<open>A node in front of a list, and the end of new_string.\<close>

lemma token_node_made:
  assumes m: "made h0 h1 (insert t (set (token_ids ns) \<union> A))" "t \<notin> set (token_ids ns)" "t \<notin> A" "set (token_ids ns) \<inter> A = {}"
    and t: "blocks h1 t = Some (Chars token)" and ns: "tokens_in h1 p ns ts" "distinct (token_ids ns)"
    and a: "malloc (Token_Node t p) h1 = (n, h2)"
  shows "tokens_in h2 (Some n) ((n, t) # ns) (token # ts) \<and> distinct (token_ids ((n, t) # ns)) \<and> set (token_ids ((n, t) # ns)) \<inter> A = {}
    \<and> made h0 h2 (set (token_ids ((n, t) # ns)) \<union> A) \<and> (\<forall>a. blocks h1 a \<noteq> None \<longrightarrow> blocks h2 a = blocks h1 a)"
proof -
  note m2 = made_malloc [OF m(1) a]
  have n: "n \<noteq> t" "n \<notin> set (token_ids ns)" "n \<notin> A" using m2 by auto
  have "tokens_in h2 p ns ts" by (rule tokens_in_frame [OF ns(1)]) (use m2 n in auto)
  moreover have "blocks h2 a = blocks h1 a" if "blocks h1 a \<noteq> None" for a
    using malloc_keeps [OF madeD(2) [OF m(1)] a that] by simp
  moreover have "made h0 h2 (set (token_ids ((n, t) # ns)) \<union> A)" using conjunct1 [OF m2] by simp
  ultimately show ?thesis using m2 n m(2-4) t ns(2) by auto
qed

lemma heap_prepend_made:
  assumes m: "made h0 h (insert new (set (token_ids ns)))" "new \<notin> set (token_ids ns)"
    and p: "tokens_in h p ns ts" "distinct (token_ids ns)"
    and b: "blocks h new = Some (Buffer (map Byte s @ cs))" "\<And>k. start = Some k \<Longrightarrow> k \<le> length s"
  shows "\<exists>q h' ms. heap_prepend new start p (length s) h = Some (q, h')
    \<and> tokens_in h' q ms (prepend_unclassified_token_if_needed s start ts (length s)) \<and> distinct (token_ids ms)
    \<and> made h0 h' (set (token_ids ms))"
proof -
  have freed: "\<exists>h'. free new h1 = Some h' \<and> tokens_in h' q ms us \<and> made h0 h' (set (token_ids ms))"
    if "made h0 h1 (insert new (set (token_ids ms)))" "new \<notin> set (token_ids ms)" "tokens_in h1 q ms us" "blocks h1 new \<noteq> None" for h1 q ms us
  proof -
    let ?h = "h1\<lparr>blocks := \<lambda>x. if x = new then None else blocks h1 x\<rparr>"
    have "made h0 ?h (set (token_ids ms))" using made_free_all [OF that(1), of ?h "{new}"] that(2) by simp
    moreover have "tokens_in ?h q ms us" by (rule tokens_in_frame [OF that(3)]) (use that(2) in auto)
    ultimately show ?thesis using that(4) by (intro exI [of _ ?h]) (simp add: free_all_one)
  qed
  show ?thesis
  proof (cases start)
    case None
    then show ?thesis using freed [OF m p(1)] b(1) p(2) 
      by (auto simp: heap_prepend_def prepend_unclassified_token_if_needed_def)
  next
    case (Some k)
    have k: "k \<le> length s" by (rule b(2) [OF Some])
    obtain t h1 where 1: "heap_substring (block_cell new k) (length (drop k s)) h = Some (t, h1)"
      "made h0 h1 (insert t (insert new (set (token_ids ns))))" "t \<notin> insert new (set (token_ids ns))"
      "blocks h t = None" "blocks h1 = (blocks h)(t \<mapsto> Chars (drop k s))"
      using heap_substring_made [OF m(1) block_shows [OF b(1) k]] by blast
    obtain n h2 where 2: "malloc (Token_Node t p) h1 = (n, h2)" by (cases "malloc (Token_Node t p) h1")
    have "tokens_in h1 p ns ts" by (rule tokens_in_frame [OF p(1)]) (use 1 in auto)
    from token_node_made [of h0 h1 t ns "{new}" "drop k s" p ts n h2, OF _ _ _ _ _ this p(2) 2] 1 m(2)
    have 3: "tokens_in h2 (Some n) ((n, t) # ns) (drop k s # ts)" "distinct (token_ids ((n, t) # ns))"
      "new \<notin> set (token_ids ((n, t) # ns))" "made h0 h2 (insert new (set (token_ids ((n, t) # ns))))"
      "\<forall>a. blocks h1 a \<noteq> None \<longrightarrow> blocks h2 a = blocks h1 a"
      by (auto simp: insert_commute)
    have "blocks h2 new \<noteq> None" using 3(5) 1(3,5) b(1) by simp
    from freed [OF 3(4,3,1) this] obtain h3 where "free new h2 = Some h3" "tokens_in h3 (Some n) ((n, t) # ns) (drop k s # ts)"
      "made h0 h3 (set (token_ids ((n, t) # ns)))" by blast
    then show ?thesis using 1(1) 2 3(2) Some k
      by (intro exI [of _ "Some n"] exI [of _ h3] exI [of _ "(n, t) # ns"])
        (simp add: heap_prepend_def prepend_unclassified_token_if_needed_def substring_def)
  qed
qed

text \<open>The node of a quoted token or an operator, and what precedes it.\<close>

lemma classified_made:
  assumes m: "made h0 h (insert t {new})" "t \<noteq> new" and t: "blocks h t = Some (Chars token)"
    and a: "malloc (Token_Node t None) h = (n, h1)"
    and b: "blocks h new = Some (Buffer (map Byte s @ cs))" "\<And>k. start = Some k \<Longrightarrow> k \<le> length s"
  shows "\<exists>q h' ms. heap_prepend new start (Some n) (length s) h1 = Some (q, h')
    \<and> tokens_in h' q ms (prepend_unclassified_token_if_needed s start [token] (length s)) \<and> distinct (token_ids ms)
    \<and> made h0 h' (set (token_ids ms))"
proof -
  from token_node_made [of h0 h t "[]" "{new}" token None "[]" n h1, OF _ _ _ _ t _ _ a] m
  have 1: "tokens_in h1 (Some n) [(n, t)] [token]" "distinct (token_ids [(n, t)])"
      "new \<notin> set (token_ids [(n, t)])" "made h0 h1 (insert new (set (token_ids [(n, t)])))"
      "\<forall>a. blocks h a \<noteq> None \<longrightarrow> blocks h1 a = blocks h a"
    by (auto simp: insert_commute)
  have "blocks h1 new = Some (Buffer (map Byte s @ cs))" using 1(5) b(1) by simp
  from heap_prepend_made [OF 1(4,3,1,2) this b(2)] show ?thesis by blast
qed

lemma one_token_loop_made:
  assumes "made h0 h {new}" "blocks h new = Some (Buffer (map Byte ns @ replicate k Zero))" "length s + 1 \<le> k"
    "start = None \<Longrightarrow> old = length ns \<and> \<not> esc" "\<And>j. start = Some j \<Longrightarrow> j \<le> length ns"
    "one_token_loop s old ns start esc = (ts, rest)"
  shows "\<exists>p h' ms. heap_one_token_loop s old new (length ns) start esc h = Some ((p, rest), h') \<and> tokens_in h' p ms ts
    \<and> distinct (token_ids ms) \<and> made h0 h' (set (token_ids ms))"
  using assms
proof (induction s arbitrary: old ns k start esc h)
  case Nil
  then show ?case using heap_prepend_made [of h0 h new "[]" None "[]" ns "replicate k Zero" start] by auto
next
  case (Cons c s)
  note m = Cons.prems(1) and b = Cons.prems(2,5)
  show ?case
  proof (cases rule: char_cases [of c start esc])
    case (end_token j)
    then have "heap_one_token_loop (c # s) old new (length ns) start esc h =
        do { (list, h) \<leftarrow> heap_prepend new start None (length ns) h; Some ((list, Some s), h) }"
      by (simp add: heap_prepend_def Let_def split_def)
    moreover have "ts = prepend_unclassified_token_if_needed ns start [] (length ns)" "rest = Some s"
      using end_token Cons.prems(6) by (simp_all add: token_end prepend_unclassified_token_if_needed_def substring_def)
    ultimately show ?thesis using heap_prepend_made [of h0 h new "[]" None "[]" ns "replicate k Zero" start] m b by auto
  next
    case quote
    let ?i = "get_closing_quote_index s c False"
    obtain t h1 where 1: "heap_extract_quoted_token (take ?i s) c h = Some (t, h1)" "made h0 h1 (insert t {new})" "t \<notin> {new}"
      "blocks h1 = (blocks h)(t \<mapsto> Chars (extract_quoted_token (take ?i s) c False))"
      using heap_extract_quoted_token_made [OF m] by blast
    obtain n h2 where 2: "malloc (Token_Node t None) h1 = (n, h2)" by (cases "malloc (Token_Node t None) h1")
    have "t \<noteq> new" "blocks h1 t = Some (Chars (extract_quoted_token (take ?i s) c False))"
      "blocks h1 new = Some (Buffer (map Byte ns @ replicate k Zero))" using 1(3,4) b(1) by auto
    from classified_made [OF 1(2) this(1,2) 2 this(3) b(2)] obtain q h3 ms where 3:
      "heap_prepend new start (Some n) (length ns) h2 = Some (q, h3)"
      "tokens_in h3 q ms (prepend_unclassified_token_if_needed ns start [extract_quoted_token (take ?i s) c False] (length ns))"
      "distinct (token_ids ms)" "made h0 h3 (set (token_ids ms))" by blast
    have "\<not> is_space c" using quote(1) by (auto simp: char_kinds)
    then show ?thesis using quote 1(1) 2 3 Cons.prems(6)
      by (auto simp: token_quote extract_quoted_literal_def heap_extract_quoted_literal_def Let_def)
  next
    case operator
    define n :: nat where "n = (case s of [] \<Rightarrow> 1 | c' # _ \<Rightarrow> if c' = c then 2 else 1)"
    have n: "n \<le> length (c # s)" by (auto simp: n_def split: list.splits)
    obtain t h1 where 1: "heap_substring (line_cell (c # s)) (length (take n (c # s))) h = Some (t, h1)" "made h0 h1 (insert t {new})" "t \<notin> {new}"
      "blocks h1 = (blocks h)(t \<mapsto> Chars (take n (c # s)))"
      using heap_substring_made [OF m line_shows [OF n]] by blast
    obtain d h2 where 2: "malloc (Token_Node t None) h1 = (d, h2)" by (cases "malloc (Token_Node t None) h1")
    have "t \<noteq> new" "blocks h1 t = Some (Chars (take n (c # s)))"
      "blocks h1 new = Some (Buffer (map Byte ns @ replicate k Zero))" using 1(3,4) b(1) by auto
    from classified_made [OF 1(2) this(1,2) 2 this(3) b(2)] obtain q h3 ms where 3:
      "heap_prepend new start (Some d) (length ns) h2 = Some (q, h3)"
      "tokens_in h3 q ms (prepend_unclassified_token_if_needed ns start [take n (c # s)] (length ns))"
      "distinct (token_ids ms)" "made h0 h3 (set (token_ids ms))" by blast
    have "\<not> is_space c" "\<not> is_quote c" using operator(1) by (auto simp: char_kinds)
    moreover have "ts = prepend_unclassified_token_if_needed ns start [take n (c # s)] (length ns)" "rest = Some (drop n (c # s))"
      using operator Cons.prems(6) by (simp_all add: token_operator n_def [symmetric] Let_def)
    moreover have "length (take n (c # s)) = n" using n by simp
    ultimately show ?thesis using operator 1(1) 2 3
      unfolding heap_one_token_loop.simps n_def [symmetric] by (auto simp: Let_def)
  next
    case ordinary
    define start' where "start' = (if \<not> esc \<and> \<not> is_space c \<and> start = None then Some old else start)"
    have loop: "one_token_loop s (Suc old) (if c = backslash \<and> \<not> esc then ns else ns @ [c]) start' (c = backslash \<and> \<not> esc) = (ts, rest)"
      using Cons.prems(6) token_char [OF ordinary, of s old ns] by (simp add: start'_def)
    have sp: "\<not> is_space backslash" by (simp add: char_kinds)
    have branch: "heap_one_token_loop (c # s) old new (length ns) start esc h =
      (if c = backslash \<and> \<not> esc then heap_one_token_loop s (Suc old) new (length ns) start' True h
       else do { h \<leftarrow> set_cell new (length ns) (Byte c) h; heap_one_token_loop s (Suc old) new (Suc (length ns)) start' False h })"
      using ordinary by (auto simp: ordinary_def start'_def Let_def)
    show ?thesis
    proof (cases "c = backslash \<and> \<not> esc")
      case True
      have "start' \<noteq> None" using True sp by (simp add: start'_def)
      moreover have "j \<le> length ns" if "start' = Some j" for j
        using that Cons.prems(4,5) by (auto simp: start'_def split: if_splits)
      ultimately show ?thesis using Cons.IH [OF m b(1), of start' "Suc old" True] Cons.prems(3) loop True unfolding branch by auto
    next
      case False
      obtain j where j: "k = Suc j" using Cons.prems(3) by (cases k) auto
      let ?h = "put_block new (Buffer (map Byte (ns @ [c]) @ replicate j Zero)) h"
      have w: "set_cell new (length ns) (Byte c) h = Some ?h" using j by (simp add: set_cell_put [OF b(1)] list_update_append)
      have "made h0 ?h {new}"
        by (rule made_store [THEN conjunct1, OF m, of new "Buffer (map Byte (ns @ [c]) @ replicate j Zero)"]) (use b(1) in \<open>simp_all add: store_block_def put_block_def\<close>)
      moreover have "start' = None \<Longrightarrow> Suc old = length (ns @ [c])" using Cons.prems(4) by (auto simp: start'_def split: if_splits)
      moreover have "i \<le> length (ns @ [c])" if "start' = Some i" for i
        using that Cons.prems(4,5) by (fastforce simp: start'_def split: if_splits)
      ultimately show ?thesis using Cons.IH [of ?h "ns @ [c]" j start' "Suc old" False] Cons.prems(3) j loop False w unfolding branch by auto
    qed
  qed
qed

lemma get_one_token_made:
  assumes "heap_ok h" "get_one_token string = (ts, rest)"
  shows "\<exists>p h' ns. heap_get_one_token string h = Some ((p, rest), h') \<and> tokens_in h' p ns ts
    \<and> distinct (token_ids ns) \<and> made h h' (set (token_ids ns))"
proof -
  obtain a h1 where 1: "malloc (Buffer (replicate (length string + 1) Zero)) h = (a, h1)"
    by (cases "malloc (Buffer (replicate (length string + 1) Zero)) h")
  note m1 = made_malloc [OF made_refl [OF assms(1)] 1]
  have "made h h1 {a}" "blocks h1 a = Some (Buffer (map Byte [] @ replicate (length string + 1) Zero))" using m1 by auto
  from one_token_loop_made [OF this, of string None 0 False ts rest] assms(2) 1
  show ?thesis by (simp add: heap_get_one_token_def get_one_token_def)
qed

lemma last_token_last:
  "tokens_in h (Some n) ns ts \<Longrightarrow> last_token n h = Some (fst (last ns))"
proof (induction ns arbitrary: n ts)
  case (Cons x ns)
  obtain a where x: "x = (n, a)" using Cons.prems by (cases x) auto
  show ?case
  proof (cases ns)
    case Nil
    then show ?thesis using Cons.prems x by (subst last_token.simps) (auto simp: token_at_def)
  next
    case (Cons y ys)
    then obtain q us where q: "blocks h n = Some (Token_Node a (Some q))" "tokens_in h (Some q) ns us"
      using Cons.prems x by (cases y) auto
    from Cons.IH [OF q(2)] q(1) show ?thesis using x Cons
      by (subst last_token.simps) (simp add: token_at_def)
  qed
qed simp

lemma walk_to_end_last:
  assumes "tokens_in h p ns ts"
  shows "walk_to_end p h = Some (if ns = [] then None else Some (fst (last ns)))"
proof (cases ns)
  case (Cons x xs)
  then obtain n where "p = Some n" using assms by (cases x) auto
  then show ?thesis using last_token_last [of h n ns ts] assms Cons by (simp add: walk_to_end_def)
qed (use assms in \<open>simp add: walk_to_end_def\<close>)

lemma walk_on:
  assumes "tokens_in h p (xs @ ys) ts" "xs \<noteq> []"
  shows "walk_to_end (Some (fst (last xs))) h = Some (Some (fst (last (xs @ ys))))"
proof -
  have "\<exists>us. tokens_in h (Some (fst (last xs))) (last xs # ys) us"
    using assms by (induction h p xs ts rule: tokens_in.induct) (fastforce split: if_splits)+
  then show ?thesis using assms(2) walk_to_end_last by fastforce
qed

lemma set_other_tokens_appends:
  assumes "tokens_in h p xs ts" "xs \<noteq> []" "tokens_in h q ys us" "distinct (token_ids (xs @ ys))"
    "store_block (fst (last xs)) (Token_Node (snd (last xs)) q) h = Some h'"
  shows "tokens_in h' p (xs @ ys) (ts @ us)"
proof -
  have b: "blocks h' = (blocks h)(fst (last xs) \<mapsto> Token_Node (snd (last xs)) q)"
    using assms(5) by (auto simp: store_block_def split: if_splits)
  have ys: "tokens_in h' q ys us"
    by (rule tokens_in_frame [OF assms(3)])
      (use assms(2,4) b in \<open>cases xs rule: rev_cases; auto\<close>)
  show ?thesis
    using assms(1,2,4) b ys
  proof (induction xs arbitrary: p ts)
    case (Cons x xs)
    obtain n a where x: "x = (n, a)" by (cases x)
    obtain r t us' where r: "ts = t # us'" "p = Some n" "blocks h n = Some (Token_Node a r)" "blocks h a = Some (Chars t)"
      "tokens_in h r xs us'" using Cons.prems(1) x by auto
    show ?case
    proof (cases "xs = []")
      case True
      then show ?thesis using r Cons.prems x ys by auto
    next
      case False
      have l: "fst (last xs) \<in> set (token_ids xs)" using False by (cases xs rule: rev_cases; cases "last xs") auto
      have "tokens_in h' r (xs @ ys) (us' @ us)"
        using Cons.IH [OF r(5) False] Cons.prems x False by auto
      then show ?thesis using r Cons.prems(3,4) x False l by auto
    qed
  qed simp
qed

lemma tokens_in_last:
  "tokens_in h p ns ts \<Longrightarrow> ns \<noteq> [] \<Longrightarrow> \<exists>q. token_at h (fst (last ns)) = Some (snd (last ns), q) \<and> blocks h (fst (last ns)) \<noteq> None"
  by (induction h p ns ts rule: tokens_in.induct) (auto simp: token_at_def)

lemma tokens_loop_correct:
  assumes "made h0 h (set (token_ids xs))" "tokens_in h start xs ts" "distinct (token_ids xs)"
    "cur = (if xs = [] then None else Some (fst (last xs)))"
  shows "\<exists>p h' ys. tokens_loop start cur s h = Some (p, h') \<and> tokens_in h' p ys (ts @ get_tokens s)
    \<and> distinct (token_ids ys) \<and> made h0 h' (set (token_ids ys))"
  using assms
proof (induction s arbitrary: h start xs ts cur rule: get_tokens.induct)
  case 1
  then show ?case by (subst tokens_loop.simps) auto
next
  case (2 string)
  obtain us rest where one: "get_one_token string = (us, rest)" by (cases "get_one_token string")
  obtain q h1 ys where q: "heap_get_one_token string h = Some ((q, rest), h1)" "tokens_in h1 q ys us"
    "distinct (token_ids ys)" "made h h1 (set (token_ids ys))"
    using get_one_token_made [OF madeD(2) [OF 2(2)] one] by blast
  have m1: "made h0 h1 (set (token_ids (xs @ ys)))" using made_trans [OF 2(2) q(4)] by simp
  have d: "distinct (token_ids (xs @ ys))" using 2(4) q(3) made_disjoint [OF 2(2) q(4)] by auto
  have xs: "tokens_in h1 start xs ts"
    by (rule tokens_in_frame [OF 2(3)]) (use made_old [OF q(4)] tokens_in_allocated [OF 2(3)] in blast)
  have tokens: "get_tokens (Some string) = us @ get_tokens rest" by (simp add: get_tokens.simps(2) one Let_def)
  show ?case
  proof (cases "xs = []")
    case True
    then have "start = None" "ts = []" using 2(3) by simp_all
    moreover have "walk_to_end q h1 = Some (if ys = [] then None else Some (fst (last ys)))"
      using walk_to_end_last [OF q(2)] .
    moreover have "\<exists>p h' zs. tokens_loop q (if ys = [] then None else Some (fst (last ys))) rest h1 = Some (p, h') \<and>
        tokens_in h' p zs (us @ get_tokens rest) \<and> distinct (token_ids zs) \<and> made h0 h' (set (token_ids zs))"
      using 2(1) [of "get_one_token string" h1 ys q us] one m1 q(2,3) True by simp
    ultimately show ?thesis unfolding tokens by (subst tokens_loop.simps) (simp add: q(1))
  next
    case False
    then obtain n where n: "start = Some n" using 2(3) by (cases xs) auto
    obtain r where r: "token_at h1 (fst (last xs)) = Some (snd (last xs), r)" "blocks h1 (fst (last xs)) \<noteq> None"
      using tokens_in_last [OF xs False] by blast
    obtain h2 where h2: "store_block (fst (last xs)) (Token_Node (snd (last xs)) q) h1 = Some h2"
      using r(2) by (auto simp: store_block_def)
    have "fst (last xs) \<in> set (token_ids (xs @ ys))" using False by (cases xs rule: rev_cases; cases "last xs") auto
    from made_store [OF m1 this h2] have m2: "made h0 h2 (set (token_ids (xs @ ys)))" by blast
    have t2: "tokens_in h2 start (xs @ ys) (ts @ us)"
      by (rule set_other_tokens_appends [OF xs False q(2) d h2])
    have "set_other_tokens (fst (last xs)) q h1 = Some h2" using r(1) h2 by (simp add: set_other_tokens_def)
    moreover have "walk_to_end (Some (fst (last xs))) h2 = Some (Some (fst (last (xs @ ys))))"
      by (rule walk_on [OF t2 False])
    moreover have "\<exists>p h' zs. tokens_loop start (Some (fst (last (xs @ ys)))) rest h2 = Some (p, h') \<and>
        tokens_in h' p zs ((ts @ us) @ get_tokens rest) \<and> distinct (token_ids zs) \<and> made h0 h' (set (token_ids zs))"
      using 2(1) [of "get_one_token string" h2 "xs @ ys" start "ts @ us"] one m2 t2 d False by simp
    ultimately show ?thesis unfolding tokens using False n 2(5) by (subst tokens_loop.simps) (simp add: q(1))
  qed
qed

lemma get_tokens_correct:
  assumes "heap_ok h"
  shows "\<exists>p h' ns. heap_get_tokens string h = Some (p, h') \<and> tokens_in h' p ns (get_tokens (Some string))
    \<and> distinct (token_ids ns) \<and> made h h' (set (token_ids ns))"
  using tokens_loop_correct [of h h "[]" None "[]" None "Some string"] made_refl [OF assms]
  by (simp add: heap_get_tokens_def)

lemma dispose_of_tokens_frees:
  assumes "tokens_in h p ns ts" "distinct (token_ids ns)"
  shows "\<exists>h'. dispose_of_tokens p h = Some h' \<and> next_addr h' = next_addr h
    \<and> blocks h' = (\<lambda>a. if a \<in> set (token_ids ns) then None else blocks h a)"
  using assms
proof (induction ns arbitrary: h p ts)
  case Nil
  then show ?case by (subst dispose_of_tokens.simps) simp
next
  case (Cons x ns)
  obtain n a where x: "x = (n, a)" by (cases x)
  then obtain q t us where q: "p = Some n" "ts = t # us" "blocks h n = Some (Token_Node a q)" "blocks h a = Some (Chars t)"
    "tokens_in h q ns us" using Cons.prems(1) by auto
  define h1 where "h1 = h\<lparr>blocks := \<lambda>x. if x = a then None else blocks h x\<rparr>"
  define h2 where "h2 = h1\<lparr>blocks := \<lambda>x. if x = n then None else blocks h1 x\<rparr>"
  have "blocks h1 n \<noteq> None" using q(3) Cons.prems(2) x by (auto simp: h1_def)
  then have f: "free a h = Some h1" "free n h1 = Some h2"
    using q(4) by (auto simp: free_all_one h1_def [symmetric] h2_def)
  have "tokens_in h2 q ns us"
    by (rule tokens_in_frame [OF q(5)]) (use Cons.prems(2) x in \<open>auto simp: h1_def h2_def\<close>)
  then obtain h' where h': "dispose_of_tokens q h2 = Some h'" "next_addr h' = next_addr h2"
    "blocks h' = (\<lambda>a. if a \<in> set (token_ids ns) then None else blocks h2 a)"
    using Cons.IH [of h2 q us] Cons.prems(2) x by auto
  have "dispose_of_tokens p h = Some h'"
    using q f h'(1) by (subst dispose_of_tokens.simps) (simp add: token_at_def)
  moreover have "next_addr h' = next_addr h" "blocks h' = (\<lambda>b. if b \<in> set (token_ids (x # ns)) then None else blocks h b)"
    using h'(2,3) x by (auto simp: h1_def h2_def fun_eq_iff)
  ultimately show ?case by blast
qed

section \<open>Commands in the heap\<close>

definition command_in :: "heap \<Rightarrow> hcommand \<Rightarrow> addr list \<Rightarrow> command \<Rightarrow> bool" where
  "command_in h c as cmd \<longleftrightarrow> blocks h (name c) = Some (Chars (c_name cmd))
     \<and> blocks h (argv c) = Some (Pointers (map (\<lambda>a. Some (Some a)) as)) \<and> argc c = length as
     \<and> list_all2 (\<lambda>a s. blocks h a = Some (Chars s)) as (c_argv cmd)"

definition command_ids :: "hcommand \<Rightarrow> addr list \<Rightarrow> addr list" where
  "command_ids c as = name c # argv c # as"

fun nodes_in :: "heap \<Rightarrow> addr option \<Rightarrow> (addr \<times> hcommand \<times> addr list) list \<Rightarrow> command list \<Rightarrow> bool" where
  "nodes_in h p [] cmds \<longleftrightarrow> p = None \<and> cmds = []"
| "nodes_in h p ((d, c, as) # ds) cmds \<longleftrightarrow> p = Some d \<and> (\<exists>q cmd cs. cmds = cmd # cs \<and> blocks h d = Some (Command_Node c q)
     \<and> command_in h c as cmd \<and> nodes_in h q ds cs)"

definition node_ids :: "(addr \<times> hcommand \<times> addr list) list \<Rightarrow> addr list" where
  "node_ids ds = concat (map (\<lambda>(d, c, as). d # command_ids c as) ds)"

lemma node_ids_simps [simp]:
  "node_ids [] = []" "node_ids ((d, c, as) # ds) = d # command_ids c as @ node_ids ds" "node_ids (xs @ ys) = node_ids xs @ node_ids ys"
  by (simp_all add: node_ids_def)

lemma command_in_frame:
  assumes "command_in h c as cmd" "\<And>a. a \<in> set (command_ids c as) \<Longrightarrow> blocks h' a = blocks h a"
  shows "command_in h' c as cmd"
proof -
  have "list_all2 (\<lambda>a s. blocks h' a = Some (Chars s)) as (c_argv cmd)"
    using assms by (auto simp: command_in_def command_ids_def list_all2_conv_all_nth)
  then show ?thesis using assms by (simp add: command_in_def command_ids_def)
qed

lemma command_in_allocated: "command_in h c as cmd \<Longrightarrow> a \<in> set (command_ids c as) \<Longrightarrow> blocks h a \<noteq> None"
  by (auto simp: command_in_def command_ids_def list_all2_conv_all_nth in_set_conv_nth)

lemma nodes_in_frame:
  "nodes_in h p ds cmds \<Longrightarrow> (\<And>a. a \<in> set (node_ids ds) \<Longrightarrow> blocks h' a = blocks h a) \<Longrightarrow> nodes_in h' p ds cmds"
proof (induction h p ds cmds rule: nodes_in.induct)
  case (2 h p d c as ds cmds)
  then obtain q cmd cs where q: "p = Some d" "cmds = cmd # cs" "blocks h d = Some (Command_Node c q)" "command_in h c as cmd"
    "nodes_in h q ds cs" by auto
  moreover have "command_in h' c as cmd" by (rule command_in_frame [OF q(4)]) (simp add: "2.prems"(2))
  moreover have "nodes_in h' q ds cs" by (rule "2.IH" [OF q(5)]) (simp add: "2.prems"(2))
  ultimately show ?case by (simp add: "2.prems"(2))
qed simp

lemma nodes_in_allocated: "nodes_in h p ds cmds \<Longrightarrow> a \<in> set (node_ids ds) \<Longrightarrow> blocks h a \<noteq> None"
  by (induction h p ds cmds rule: nodes_in.induct) (auto dest: command_in_allocated)

lemma heap_count_tokens_correct:
  "tokens_in h p ns ts \<Longrightarrow> heap_count_tokens p k h = Some (count_tokens_until_operator_or_end ts k)"
proof (induction h p ns ts arbitrary: k rule: tokens_in.induct)
  case (1 h p ts)
  then show ?case by (subst heap_count_tokens.simps) simp
next
  case (2 h p n a ns ts)
  then show ?case by (subst heap_count_tokens.simps) (auto simp: token_at_def chars_at_def)
qed

lemma fill_argv_correct:
  assumes "made h0 h A" "v \<in> A" "tokens_in h0 p ns ts" "k \<le> length ts" "length as0 = i"
    "blocks h v = Some (Pointers (map (\<lambda>a. Some (Some a)) as0 @ replicate k None))"
  shows "\<exists>q ns' h' as. fill_argv v i p h k = Some (q, h') \<and> tokens_in h0 q ns' (drop k ts)
    \<and> blocks h' v = Some (Pointers (map (\<lambda>a. Some (Some a)) (as0 @ as))) \<and> length as = k \<and> distinct as \<and> set as \<inter> A = {}
    \<and> list_all2 (\<lambda>a s. blocks h' a = Some (Chars s)) as (take k ts) \<and> made h0 h' (A \<union> set as)
    \<and> (\<forall>a. blocks h a \<noteq> None \<longrightarrow> a \<noteq> v \<longrightarrow> blocks h' a = blocks h a)"
  using assms
proof (induction k arbitrary: h A p ns ts as0 i)
  case 0
  then show ?case by (intro exI [of _ p] exI [of _ ns] exI [of _ h] exI [of _ "[]"]) simp
next
  case (Suc k)
  obtain t us where ts: "ts = t # us" using Suc.prems(4) by (cases ts) auto
  then obtain n a ns' r where n: "ns = (n, a) # ns'" "p = Some n" "blocks h0 n = Some (Token_Node a r)"
    "blocks h0 a = Some (Chars t)" "tokens_in h0 r ns' us" using Suc.prems(3) by (cases ns) auto
  have old: "blocks h n = Some (Token_Node a r)" "blocks h a = Some (Chars t)"
    using made_old [OF Suc.prems(1), of n] made_old [OF Suc.prems(1), of a] n by auto
  obtain b h1 where 1: "malloc (Chars t) h = (b, h1)" by (cases "malloc (Chars t) h")
  note m1 = made_malloc [OF Suc.prems(1) 1]
  have bv: "b \<noteq> v" "blocks h1 v = blocks h v" using m1 Suc.prems(2) by auto
  have none: "blocks h b = None"
    by (rule ccontr) (use m1 heap_okD [OF madeD(2) [OF Suc.prems(1)], of b] in simp)
  let ?ps = "map (\<lambda>a. Some (Some a)) (as0 @ [b]) @ replicate k None"
  obtain h2 where 2: "store_block v (Pointers ?ps) h1 = Some h2"
    using bv(2) Suc.prems(6) by (auto simp: store_block_def)
  have "v \<in> insert b A" using Suc.prems(2) by simp
  note m2 = made_store [OF conjunct1 [OF m1] this 2]
  have "set_pointer v i (Some b) h1 = Some h2"
    using bv(2) Suc.prems(5,6) 2 by (auto simp: set_pointer_def pointers_at_def list_update_append)
  then have step: "fill_argv v i p h (Suc k) = fill_argv v (i + 1) r h2 k"
    using n(2) old 1 by (simp add: token_at_def strdup_def chars_at_def)
  obtain q ms h' as where IH: "fill_argv v (i + 1) r h2 k = Some (q, h')" "tokens_in h0 q ms (drop k us)"
    "blocks h' v = Some (Pointers (map (\<lambda>a. Some (Some a)) ((as0 @ [b]) @ as)))" "length as = k" "distinct as"
    "set as \<inter> insert b A = {}" "list_all2 (\<lambda>a s. blocks h' a = Some (Chars s)) as (take k us)"
    "made h0 h' (insert b A \<union> set as)" "\<And>a. blocks h2 a \<noteq> None \<Longrightarrow> a \<noteq> v \<Longrightarrow> blocks h' a = blocks h2 a"
    using Suc.IH [of h2 "insert b A" r ns' us "as0 @ [b]" "i + 1"] m2 Suc.prems(2,4,5) n(5) ts by auto
  have b: "blocks h' b = Some (Chars t)" using IH(9) [of b] m1 m2 bv(1) by simp
  have frame: "blocks h' x = blocks h x" if "blocks h x \<noteq> None" "x \<noteq> v" for x
    using IH(9) [of x] that m1 m2 none by auto
  show ?case
    using step IH b frame m1 ts
    by (intro exI [of _ q] exI [of _ ms] exI [of _ h'] exI [of _ "b # as"]) (auto simp: insert_commute)
qed

text \<open>One turn of the loop of convert_tokens_without_disposal makes the blocks of one command.\<close>

lemma convert_step:
  assumes m: "made h0 h A" and tok: "tokens_in h0 p ns (t # us)"
  defines "k \<equiv> if is_operator t then 0 else count_tokens_until_operator_or_end us 0"
  shows "\<exists>d c as q ns' h1. (\<forall>prev cur. convert_loop prev cur p h = do {
        h \<leftarrow> (case cur of None \<Rightarrow> Some h1 | Some e \<Rightarrow> set_other_commands e d h1);
        convert_loop (if cur = None then Some d else prev) (Some d) q h })
     \<and> blocks h1 d = Some (Command_Node c None) \<and> command_in h1 c as \<lparr>c_name = t, c_argv = take k us\<rparr>
     \<and> tokens_in h0 q ns' (drop k us) \<and> distinct (d # command_ids c as) \<and> set (d # command_ids c as) \<inter> A = {}
     \<and> made h0 h1 (A \<union> set (d # command_ids c as)) \<and> (\<forall>a. blocks h a \<noteq> None \<longrightarrow> blocks h1 a = blocks h a)"
proof -
  obtain n a ns' r where n: "ns = (n, a) # ns'" "p = Some n" "blocks h0 n = Some (Token_Node a r)"
    "blocks h0 a = Some (Chars t)" "tokens_in h0 r ns' us" using tok by (cases ns) auto
  have old: "blocks h n = Some (Token_Node a r)" "blocks h a = Some (Chars t)"
    using made_old [OF m, of n] made_old [OF m, of a] n by auto
  have k: "k \<le> length us"
    using count_takeWhile [of us 0] length_takeWhile_le [of "\<lambda>a. \<not> is_operator a" us] by (simp add: k_def)
  obtain b h1 where 1: "malloc (Chars t) h = (b, h1)" by (cases "malloc (Chars t) h")
  note m1 = made_malloc [OF m 1]
  have r1: "tokens_in h1 r ns' us"
    by (rule tokens_in_frame [OF n(5)])
      (use tokens_in_allocated [OF n(5)] made_old [OF conjunct1 [OF m1]] in blast)
  have count: "(if \<not> is_operator t then heap_count_tokens r 0 h1 else Some 0) = Some k"
    using heap_count_tokens_correct [OF r1] by (simp add: k_def)
  obtain v h2 where 2: "malloc (Pointers (replicate k None)) h1 = (v, h2)" by (cases "malloc (Pointers (replicate k None)) h1")
  note m2 = made_malloc [OF conjunct1 [OF m1] 2]
  have "v \<in> insert v (insert b A)" by simp
  from fill_argv_correct [OF conjunct1 [OF m2] this n(5) k, of "[]" 0] m2 obtain q ms h3 as where
    3: "fill_argv v 0 r h2 k = Some (q, h3)" "tokens_in h0 q ms (drop k us)"
    "blocks h3 v = Some (Pointers (map (\<lambda>a. Some (Some a)) as))" "length as = k" "distinct as"
    "set as \<inter> insert v (insert b A) = {}" "list_all2 (\<lambda>a s. blocks h3 a = Some (Chars s)) as (take k us)"
    "made h0 h3 (insert v (insert b A) \<union> set as)" "\<And>a. blocks h2 a \<noteq> None \<Longrightarrow> a \<noteq> v \<Longrightarrow> blocks h3 a = blocks h2 a"
    by auto
  define c where "c = \<lparr>name = b, argv = v, argc = k\<rparr>"
  obtain d h4 where 4: "malloc (Command_Node c None) h3 = (d, h4)" by (cases "malloc (Command_Node c None) h3")
  note m4 = made_malloc [OF 3(8) 4]
  note ok = madeD(2) [OF m] madeD(2) [OF conjunct1 [OF m1]] madeD(2) [OF 3(8)]
  have kept: "blocks h4 x = blocks h x" if "blocks h x \<noteq> None" for x
  proof -
    have x1: "blocks h1 x = blocks h x" by (rule malloc_keeps(2) [OF ok(1) 1 that])
    have x2: "x \<noteq> v" "blocks h2 x = blocks h x" using malloc_keeps [OF ok(2) 2, of x] x1 that by simp_all
    have x3: "blocks h3 x = blocks h x" using 3(9) [of x] x2 that by simp
    show ?thesis using malloc_keeps(2) [OF ok(3) 4, of x] x3 that by simp
  qed
  have b3: "blocks h3 b = Some (Chars t)" using 3(9) [of b] m1 m2 by auto
  have keep4: "blocks h4 x = blocks h3 x" if "blocks h3 x \<noteq> None" for x by (rule malloc_keeps(2) [OF ok(3) 4 that])
  have cmd: "command_in h4 c as \<lparr>c_name = t, c_argv = take k us\<rparr>"
  proof -
    have "list_all2 (\<lambda>a s. blocks h4 a = Some (Chars s)) as (take k us)"
      using 3(7) by (rule list_all2_mono) (simp add: keep4)
    then show ?thesis using b3 3(3,4) by (simp add: command_in_def c_def keep4)
  qed
  have loop: "convert_loop prev cur p h = do {
      h \<leftarrow> (case cur of None \<Rightarrow> Some h4 | Some e \<Rightarrow> set_other_commands e d h4);
      convert_loop (if cur = None then Some d else prev) (Some d) q h }" for prev cur
    using n(2) old 1 2 3(1) 4 m1 count
    by (subst convert_loop.simps) (simp add: token_at_def strdup_def chars_at_def c_def)
  have ids: "distinct (d # command_ids c as)" "set (d # command_ids c as) \<inter> A = {}"
    "A \<union> set (d # command_ids c as) = insert d (insert v (insert b A) \<union> set as)"
    using 3(5,6) m1 m2 m4 by (auto simp: command_ids_def c_def)
  have "made h0 h4 (A \<union> set (d # command_ids c as))" unfolding ids(3) using m4 by blast
  moreover have "blocks h4 d = Some (Command_Node c None)" using m4 by simp
  ultimately show ?thesis using loop cmd 3(2) ids(1,2) kept by blast
qed

lemma nodes_in_last:
  "nodes_in h p ds cmds \<Longrightarrow> ds \<noteq> [] \<Longrightarrow> \<exists>q. blocks h (fst (last ds)) = Some (Command_Node (fst (snd (last ds))) q)"
  by (induction h p ds cmds rule: nodes_in.induct) auto

lemma last_node_id: "ds \<noteq> [] \<Longrightarrow> fst (last ds) \<in> set (node_ids ds)"
  by (cases ds rule: rev_cases; cases "last ds") auto

lemma set_other_commands_appends:
  assumes "nodes_in h p xs cs" "xs \<noteq> []" "nodes_in h' (Some d) [(d, c, as)] [cmd]" "distinct (node_ids (xs @ [(d, c, as)]))"
    "blocks h' = (blocks h)(fst (last xs) \<mapsto> Command_Node (fst (snd (last xs))) (Some d))"
  shows "nodes_in h' p (xs @ [(d, c, as)]) (cs @ [cmd])"
  using assms(1,2,4,5)
proof (induction xs arbitrary: p cs)
  case (Cons x xs)
  obtain e f bs where x: "x = (e, f, bs)" by (cases x)
  obtain q cmd' cs' where q: "cs = cmd' # cs'" "p = Some e" "blocks h e = Some (Command_Node f q)" "command_in h f bs cmd'"
    "nodes_in h q xs cs'" using Cons.prems(1) x by auto
  have l: "fst (last (x # xs)) \<notin> set (command_ids f bs)"
    using Cons.prems(3) x last_node_id [of xs] by (cases "xs = []") auto
  have f: "command_in h' f bs cmd'"
    by (rule command_in_frame [OF q(4)]) (use l Cons.prems(4) in auto)
  show ?case
  proof (cases "xs = []")
    case True
    then show ?thesis using q f Cons.prems x assms(3) by auto
  next
    case False
    have "fst (last xs) \<noteq> e" using last_node_id [OF False] Cons.prems(3) x by auto
    moreover have "nodes_in h' q (xs @ [(d, c, as)]) (cs' @ [cmd])"
      using Cons.IH [OF q(5) False] Cons.prems x False by auto
    ultimately show ?thesis using q f Cons.prems(3,4) x False by auto
  qed
qed simp

lemma convert_loop_correct:
  assumes "made h0 h (set (node_ids ds))" "nodes_in h prev ds cmds" "distinct (node_ids ds)"
    "cur = (if ds = [] then None else Some (fst (last ds)))" "tokens_in h0 p ns ts"
  shows "\<exists>p' h' ds'. convert_loop prev cur p h = Some (p', h') \<and> nodes_in h' p' ds' (cmds @ convert_tokens_without_disposal ts)
    \<and> distinct (node_ids ds') \<and> made h0 h' (set (node_ids ds'))"
  using assms
proof (induction ts arbitrary: h ds prev cmds cur p ns rule: convert_tokens_without_disposal.induct)
  case 1
  then have "p = None" by (cases ns) auto
  then show ?case using 1 by (subst convert_loop.simps) auto
next
  case (2 t us)
  define k where "k = (if is_operator t then 0 else count_tokens_until_operator_or_end us 0)"
  obtain d c as q ns' h1 where step:
    "\<And>prev cur. convert_loop prev cur p h = do {
        h \<leftarrow> (case cur of None \<Rightarrow> Some h1 | Some e \<Rightarrow> set_other_commands e d h1);
        convert_loop (if cur = None then Some d else prev) (Some d) q h }"
    and d: "blocks h1 d = Some (Command_Node c None)" "command_in h1 c as \<lparr>c_name = t, c_argv = take k us\<rparr>"
    and q: "tokens_in h0 q ns' (drop k us)"
    and new: "distinct (d # command_ids c as)" "set (d # command_ids c as) \<inter> set (node_ids ds) = {}"
    and m1: "made h0 h1 (set (node_ids ds) \<union> set (d # command_ids c as))"
    and kept: "\<And>a. blocks h a \<noteq> None \<Longrightarrow> blocks h1 a = blocks h a"
    using convert_step [OF 2(2,6)] unfolding k_def by blast
  let ?cmd = "\<lparr>c_name = t, c_argv = take k us\<rparr>" and ?ds = "ds @ [(d, c, as)]"
  have dist: "distinct (node_ids ?ds)" using 2(4) new by auto
  have m1: "made h0 h1 (set (node_ids ?ds))" using m1 by (simp add: Un_commute)
  have conv: "convert_tokens_without_disposal (t # us) = ?cmd # convert_tokens_without_disposal (drop k us)"
    by (simp add: convert_tokens_without_disposal.simps(2) k_def Let_def)
  have IH: "made h0 h' (set (node_ids ?ds)) \<Longrightarrow> nodes_in h' prev' ?ds (cmds @ [?cmd]) \<Longrightarrow>
      \<exists>p' h'' ds'. convert_loop prev' (Some d) q h' = Some (p', h'')
        \<and> nodes_in h'' p' ds' (cmds @ ?cmd # convert_tokens_without_disposal (drop k us))
        \<and> distinct (node_ids ds') \<and> made h0 h'' (set (node_ids ds'))" for h' prev'
    using 2(1) [of k h' ?ds prev' "cmds @ [?cmd]" "Some d" q ns'] dist q by (auto simp: k_def)
  have nodes: "nodes_in h1 prev ds cmds"
    by (rule nodes_in_frame [OF 2(3)]) (use kept nodes_in_allocated [OF 2(3)] in blast)
  show ?case
  proof (cases "ds = []")
    case True
    then have "prev = None" "cmds = []" using 2(3) by simp_all
    moreover have "nodes_in h1 (Some d) ?ds (cmds @ [?cmd])" using True d \<open>cmds = []\<close> by simp
    ultimately show ?thesis unfolding conv using IH [OF m1] step True 2(5) by simp
  next
    case False
    obtain r where r: "blocks h1 (fst (last ds)) = Some (Command_Node (fst (snd (last ds))) r)"
      using nodes_in_last [OF nodes False] by blast
    obtain h2 where h2: "store_block (fst (last ds)) (Command_Node (fst (snd (last ds))) (Some d)) h1 = Some h2"
      using r by (auto simp: store_block_def)
    have "fst (last ds) \<in> set (node_ids ?ds)" using last_node_id [OF False] by simp
    note m2 = made_store [OF m1 this h2]
    have dn: "fst (last ds) \<noteq> d" "fst (last ds) \<notin> set (command_ids c as)" using last_node_id [OF False] dist by auto
    have "command_in h2 c as ?cmd" by (rule command_in_frame [OF d(2)]) (use m2 dn in auto)
    then have "nodes_in h2 prev ?ds (cmds @ [?cmd])"
      using d(1) m2 dn by (intro set_other_commands_appends [OF nodes False _ dist]) auto
    then have "\<exists>p' h'' ds'. convert_loop prev (Some d) q h2 = Some (p', h'')
        \<and> nodes_in h'' p' ds' (cmds @ ?cmd # convert_tokens_without_disposal (drop k us))
        \<and> distinct (node_ids ds') \<and> made h0 h'' (set (node_ids ds'))" using IH m2 by blast
    moreover have "set_other_commands (fst (last ds)) d h1 = Some h2"
      using r h2 by (simp add: set_other_commands_def command_at_def)
    ultimately show ?thesis unfolding conv using step False 2(5) by simp
  qed
qed

lemma heap_count_commands_correct:
  "nodes_in h p ds cmds \<Longrightarrow> heap_count_commands p k h = Some (k + length cmds)"
proof (induction h p ds cmds arbitrary: k rule: nodes_in.induct)
  case (1 h p cmds)
  then show ?case by (subst heap_count_commands.simps) simp
next
  case (2 h p d c as ds cmds)
  then show ?case by (subst heap_count_commands.simps) (auto simp: command_at_def)
qed

lemma dispose_of_command_list_structure_frees:
  assumes "nodes_in h p ds cmds" "distinct (node_ids ds)"
  shows "\<exists>h'. dispose_of_command_list_structure p h = Some h' \<and> next_addr h' = next_addr h
    \<and> blocks h' = (\<lambda>a. if a \<in> set (map fst ds) then None else blocks h a)"
  using assms
proof (induction ds arbitrary: h p cmds)
  case Nil
  then show ?case by (subst dispose_of_command_list_structure.simps) simp
next
  case (Cons x ds)
  obtain d c as where x: "x = (d, c, as)" by (cases x)
  then obtain q cmd cs where q: "p = Some d" "blocks h d = Some (Command_Node c q)" "nodes_in h q ds cs"
    using Cons.prems(1) by auto
  define h1 where "h1 = h\<lparr>blocks := \<lambda>x. if x = d then None else blocks h x\<rparr>"
  have f: "free d h = Some h1" using q(2) by (simp add: free_all_one h1_def)
  have "nodes_in h1 q ds cs"
    by (rule nodes_in_frame [OF q(3)]) (use Cons.prems(2) x in \<open>auto simp: h1_def\<close>)
  then obtain h' where h': "dispose_of_command_list_structure q h1 = Some h'" "next_addr h' = next_addr h1"
    "blocks h' = (\<lambda>a. if a \<in> set (map fst ds) then None else blocks h1 a)"
    using Cons.IH Cons.prems(2) x by fastforce
  have "dispose_of_command_list_structure p h = Some h'"
    using q f h'(1) by (subst dispose_of_command_list_structure.simps) (simp add: command_at_def)
  moreover have "next_addr h' = next_addr h" "blocks h' = (\<lambda>a. if a \<in> set (map fst (x # ds)) then None else blocks h a)"
    using h'(2,3) x by (auto simp: h1_def fun_eq_iff)
  ultimately show ?case by blast
qed

section \<open>The array of commands\<close>

definition array_in :: "heap \<Rightarrow> addr \<Rightarrow> (hcommand \<times> addr list) list \<Rightarrow> command list \<Rightarrow> bool" where
  "array_in h array xs cmds \<longleftrightarrow> blocks h array = Some (Command_Array (map (\<lambda>(c, as). Some c) xs))
     \<and> list_all2 (\<lambda>(c, as). command_in h c as) xs cmds"

definition commands_ids :: "(hcommand \<times> addr list) list \<Rightarrow> addr list" where
  "commands_ids xs = concat (map (\<lambda>(c, as). command_ids c as) xs)"

lemma commands_ids_simps [simp]:
  "commands_ids [] = []" "commands_ids ((c, as) # xs) = command_ids c as @ commands_ids xs"
  by (simp_all add: commands_ids_def)

lemma node_ids_set: "set (node_ids ds) = set (map fst ds) \<union> set (commands_ids (map snd ds))"
proof (induction ds)
  case (Cons x ds)
  then show ?case by (cases x) (simp, blast)
qed simp

lemma node_ids_distinct:
  "distinct (node_ids ds) \<Longrightarrow> distinct (commands_ids (map snd ds)) \<and> set (map fst ds) \<inter> set (commands_ids (map snd ds)) = {}"
proof (induction ds)
  case (Cons x ds)
  then show ?case by (cases x) (simp add: node_ids_set, blast)
qed simp

lemma nodes_in_commands:
  "nodes_in h p ds cmds \<Longrightarrow> list_all2 (\<lambda>(c, as). command_in h c as) (map snd ds) cmds"
  by (induction h p ds cmds rule: nodes_in.induct) auto

lemma commands_in_frame:
  assumes "list_all2 (\<lambda>(c, as). command_in h c as) xs cmds" "\<And>a. a \<in> set (commands_ids xs) \<Longrightarrow> blocks h' a = blocks h a"
  shows "list_all2 (\<lambda>(c, as). command_in h' c as) xs cmds"
proof (intro list_all2_all_nthI)
  show "length xs = length cmds" using assms(1) by (rule list_all2_lengthD)
  fix i assume i: "i < length xs"
  obtain c as where x: "xs ! i = (c, as)" by (cases "xs ! i")
  have "command_in h c as (cmds ! i)" using list_all2_nthD [OF assms(1) i] x by simp
  moreover have "(c, as) \<in> set xs" using i x by (metis nth_mem)
  then have "set (command_ids c as) \<subseteq> set (commands_ids xs)" by (auto simp: commands_ids_def)
  ultimately have "command_in h' c as (cmds ! i)" using assms(2) by (blast intro: command_in_frame)
  then show "(case xs ! i of (c, as) \<Rightarrow> command_in h' c as) (cmds ! i)" using x by simp
qed

lemma copy_commands_correct:
  assumes "made h0 h A" "array \<in> A" "array \<notin> set (node_ids ds)" "nodes_in h p ds cmds" "length cs = i"
    "blocks h array = Some (Command_Array (map Some cs @ replicate (length ds) None))"
  shows "\<exists>h'. copy_commands array i p h (length ds) = Some h' \<and> made h0 h' A
    \<and> blocks h' = (blocks h)(array \<mapsto> Command_Array (map Some (cs @ map (fst \<circ> snd) ds)))"
  using assms
proof (induction ds arbitrary: h p cmds cs i)
  case Nil
  then show ?case by (auto simp: fun_upd_idem)
next
  case (Cons x ds)
  obtain d c as where x: "x = (d, c, as)" by (cases x)
  then obtain q cmd cs' where q: "p = Some d" "blocks h d = Some (Command_Node c q)" "nodes_in h q ds cs'"
    using Cons.prems(4) by auto
  let ?b = "Command_Array (map Some (cs @ [c]) @ replicate (length ds) None)"
  obtain h1 where h1: "store_block array ?b h = Some h1" using Cons.prems(6) by (auto simp: store_block_def)
  note m1 = made_store [OF Cons.prems(1,2) h1]
  have "nodes_in h1 q ds cs'"
    by (rule nodes_in_frame [OF q(3)]) (use m1 Cons.prems(3) x in auto)
  then have "\<exists>h'. copy_commands array (i + 1) q h1 (length ds) = Some h' \<and> made h0 h' A
      \<and> blocks h' = (blocks h1)(array \<mapsto> Command_Array (map Some ((cs @ [c]) @ map (fst \<circ> snd) ds)))"
    using m1 Cons.prems(2,3,5) x by (intro Cons.IH) auto
  then obtain h' where h': "copy_commands array (i + 1) q h1 (length ds) = Some h'" "made h0 h' A"
    "blocks h' = (blocks h1)(array \<mapsto> Command_Array (map Some ((cs @ [c]) @ map (fst \<circ> snd) ds)))" by blast
  have "copy_commands array i p h (length (x # ds)) = Some h'"
    using q h'(1) h1 Cons.prems(5,6) by (simp add: command_at_def array_at_def list_update_append)
  then show ?case using h'(2,3) m1 x by auto
qed

lemma free_arguments_frees:
  assumes "blocks h v = Some (Pointers (map (\<lambda>a. Some (Some a)) bs))" "j + k = length bs" "distinct bs" "v \<notin> set bs"
    "\<forall>a \<in> set (drop j bs). blocks h a \<noteq> None"
  shows "\<exists>h'. free_arguments v j h k = Some h' \<and> next_addr h' = next_addr h
    \<and> blocks h' = (\<lambda>a. if a \<in> set (drop j bs) then None else blocks h a)"
  using assms
proof (induction k arbitrary: j h)
  case (Suc k)
  have j: "j < length bs" and d: "drop j bs = bs ! j # drop (Suc j) bs"
    using Suc.prems(2) by (simp_all add: Cons_nth_drop_Suc)
  define h1 where "h1 = h\<lparr>blocks := \<lambda>x. if x = bs ! j then None else blocks h x\<rparr>"
  have f: "free (bs ! j) h = Some h1" using Suc.prems(5) d by (simp add: free_all_one h1_def)
  have nv: "bs ! j \<noteq> v" using Suc.prems(4) j by auto
  have "bs ! j \<notin> set (drop (Suc j) bs)" using Suc.prems(3) d by (metis distinct.simps(2) distinct_drop)
  then have "\<exists>h'. free_arguments v (Suc j) h1 k = Some h' \<and> next_addr h' = next_addr h1
      \<and> blocks h' = (\<lambda>a. if a \<in> set (drop (Suc j) bs) then None else blocks h1 a)"
    using Suc.prems nv d by (intro Suc.IH) (auto simp: h1_def)
  then obtain h' where "free_arguments v (Suc j) h1 k = Some h'" "next_addr h' = next_addr h1"
    "blocks h' = (\<lambda>a. if a \<in> set (drop (Suc j) bs) then None else blocks h1 a)" by blast
  then show ?case
    using Suc.prems(1) j f d by (auto simp: get_pointer_def pointers_at_def h1_def fun_eq_iff)
qed simp

lemma free_command_frees:
  assumes "command_in h c as cmd" "distinct (command_ids c as)"
  shows "\<exists>h'. do { h \<leftarrow> free (name c) h; h \<leftarrow> free_arguments (argv c) 0 h (argc c); free (argv c) h } = Some h'
    \<and> next_addr h' = next_addr h \<and> blocks h' = (\<lambda>a. if a \<in> set (command_ids c as) then None else blocks h a)"
proof -
  define h1 where "h1 = h\<lparr>blocks := \<lambda>x. if x = name c then None else blocks h x\<rparr>"
  have c: "blocks h (name c) \<noteq> None" "blocks h (argv c) = Some (Pointers (map (\<lambda>a. Some (Some a)) as))" "argc c = length as"
    "\<forall>a \<in> set as. blocks h a \<noteq> None" "name c \<noteq> argv c" "name c \<notin> set as" "argv c \<notin> set as" "distinct as"
    using assms command_in_allocated [OF assms(1)] by (auto simp: command_in_def command_ids_def)
  have 1: "free (name c) h = Some h1" using c(1) by (simp add: free_all_one h1_def)
  have "\<exists>h2. free_arguments (argv c) 0 h1 (argc c) = Some h2 \<and> next_addr h2 = next_addr h1
      \<and> blocks h2 = (\<lambda>a. if a \<in> set (drop 0 as) then None else blocks h1 a)"
    using c by (intro free_arguments_frees) (auto simp: h1_def)
  then obtain h2 where 2: "free_arguments (argv c) 0 h1 (argc c) = Some h2" "next_addr h2 = next_addr h1"
    "blocks h2 = (\<lambda>a. if a \<in> set as then None else blocks h1 a)" by auto
  have "blocks h2 (argv c) \<noteq> None" using c 2(3) by (auto simp: h1_def)
  then have 3: "free (argv c) h2 = Some (h2\<lparr>blocks := \<lambda>x. if x = argv c then None else blocks h2 x\<rparr>)"
    by (simp add: free_all_one)
  show ?thesis using 1 2 3 by (auto simp: command_ids_def h1_def fun_eq_iff)
qed

lemma free_commands_frees:
  assumes "blocks h array = Some (Command_Array (map (\<lambda>(c, as). Some c) xs))" "i + k = length xs"
    "list_all2 (\<lambda>(c, as). command_in h c as) (drop i xs) cmds" "distinct (commands_ids (drop i xs))"
    "array \<notin> set (commands_ids (drop i xs))"
  shows "\<exists>h'. free_commands array i h k = Some h' \<and> next_addr h' = next_addr h
    \<and> blocks h' = (\<lambda>a. if a \<in> set (commands_ids (drop i xs)) then None else blocks h a)"
  using assms
proof (induction k arbitrary: i h cmds)
  case (Suc k)
  have i: "i < length xs" and d: "drop i xs = xs ! i # drop (Suc i) xs"
    using Suc.prems(2) by (simp_all add: Cons_nth_drop_Suc)
  obtain c as where x: "xs ! i = (c, as)" by (cases "xs ! i")
  obtain cmd cs where cmds: "cmds = cmd # cs" "command_in h c as cmd" "list_all2 (\<lambda>(c, as). command_in h c as) (drop (Suc i) xs) cs"
    using Suc.prems(3) by (auto simp: d x list_all2_Cons1)
  have dist: "distinct (command_ids c as)" "distinct (commands_ids (drop (Suc i) xs))"
    "set (command_ids c as) \<inter> set (commands_ids (drop (Suc i) xs)) = {}" "array \<notin> set (command_ids c as)"
    "array \<notin> set (commands_ids (drop (Suc i) xs))" using Suc.prems(4,5) by (auto simp: d x)
  obtain h1 where h1: "do { h \<leftarrow> free (name c) h; h \<leftarrow> free_arguments (argv c) 0 h (argc c); free (argv c) h } = Some h1"
    "next_addr h1 = next_addr h" "blocks h1 = (\<lambda>a. if a \<in> set (command_ids c as) then None else blocks h a)"
    using free_command_frees [OF cmds(2) dist(1)] by blast
  have "list_all2 (\<lambda>(c, as). command_in h1 c as) (drop (Suc i) xs) cs"
    by (rule commands_in_frame [OF cmds(3)]) (use dist(3) h1(3) in auto)
  then have "\<exists>h'. free_commands array (Suc i) h1 k = Some h' \<and> next_addr h' = next_addr h1
      \<and> blocks h' = (\<lambda>a. if a \<in> set (commands_ids (drop (Suc i) xs)) then None else blocks h1 a)"
    using Suc.prems(1,2) dist h1(3) by (intro Suc.IH) auto
  then obtain h' where h': "free_commands array (Suc i) h1 k = Some h'" "next_addr h' = next_addr h1"
    "blocks h' = (\<lambda>a. if a \<in> set (commands_ids (drop (Suc i) xs)) then None else blocks h1 a)" by blast
  have "free_commands array i h (Suc k) = Some h'"
    using Suc.prems(1) i x h1(1) h'(1) by (auto simp: array_at_def split: bind_splits)
  then show ?case using h'(2,3) h1(2,3) by (auto simp: d x fun_eq_iff)
qed simp

lemma dispose_of_commands_frees:
  assumes "array_in h array xs cmds" "distinct (array # commands_ids xs)"
  shows "\<exists>h'. dispose_of_commands (array, length xs) h = Some h' \<and> next_addr h' = next_addr h
    \<and> blocks h' = (\<lambda>a. if a \<in> set (array # commands_ids xs) then None else blocks h a)"
proof -
  obtain h1 where h1: "free_commands array 0 h (length xs) = Some h1" "next_addr h1 = next_addr h"
    "blocks h1 = (\<lambda>a. if a \<in> set (commands_ids xs) then None else blocks h a)"
    using free_commands_frees [of h array xs 0 "length xs" cmds] assms by (auto simp: array_in_def)
  have "blocks h1 array \<noteq> None" using h1(3) assms by (simp add: array_in_def)
  then have "free array h1 = Some (h1\<lparr>blocks := \<lambda>x. if x = array then None else blocks h1 x\<rparr>)" by (simp add: free_all_one)
  then show ?thesis using h1 by (auto simp: dispose_of_commands_def fun_eq_iff)
qed

text \<open>From the list of commands to the array.\<close>

lemma array_of_list:
  assumes m3: "made h h3 (set (node_ids ds))" and n3: "nodes_in h3 q ds cmds" and dist: "distinct (node_ids ds)"
  shows "\<exists>array h4 h5 h6. malloc (Command_Array (replicate (length cmds) None)) h3 = (array, h4)
    \<and> copy_commands array 0 q h4 (length cmds) = Some h5 \<and> dispose_of_command_list_structure q h5 = Some h6
    \<and> array_in h6 array (map snd ds) cmds \<and> distinct (array # commands_ids (map snd ds))
    \<and> made h h6 (set (array # commands_ids (map snd ds)))"
proof -
  let ?n = "length cmds"
  obtain array h4 where 4: "malloc (Command_Array (replicate ?n None)) h3 = (array, h4)"
    by (cases "malloc (Command_Array (replicate ?n None)) h3")
  note m4 = made_malloc [OF m3 4]
  have n4: "nodes_in h4 q ds cmds"
    by (rule nodes_in_frame [OF n3]) (use malloc_keeps(2) [OF madeD(2) [OF m3] 4] nodes_in_allocated [OF n3] in blast)
  have len: "length ds = ?n" using list_all2_lengthD [OF nodes_in_commands [OF n4]] by simp
  have "array \<in> insert array (set (node_ids ds))" by simp
  from copy_commands_correct [OF conjunct1 [OF m4] this _ n4, of "[]" 0] m4 len obtain h5 where
    5: "copy_commands array 0 q h4 ?n = Some h5" "made h h5 (insert array (set (node_ids ds)))"
      "blocks h5 = (blocks h4)(array \<mapsto> Command_Array (map Some (map (fst \<circ> snd) ds)))" by auto
  have n5: "nodes_in h5 q ds cmds"
    by (rule nodes_in_frame [OF n4]) (use m4 5(3) in auto)
  obtain h6 where 6: "dispose_of_command_list_structure q h5 = Some h6" "next_addr h6 = next_addr h5"
    "blocks h6 = (\<lambda>a. if a \<in> set (map fst ds) then None else blocks h5 a)"
    using dispose_of_command_list_structure_frees [OF n5 dist] by blast
  let ?xs = "map snd ds"
  have ids: "insert array (set (node_ids ds)) - set (map fst ds) = set (array # commands_ids ?xs)"
    using m4 node_ids_distinct [OF dist] by (auto simp: node_ids_set)
  have "made h h6 (set (array # commands_ids ?xs))"
    using made_free_all [OF 5(2) 6(2,3)] ids by (auto simp: node_ids_set)
  moreover have "distinct (array # commands_ids ?xs)"
    using m4 node_ids_distinct [OF dist] by (auto simp: node_ids_set)
  moreover have "array_in h6 array ?xs cmds"
  proof -
    have "array \<notin> set (map fst ds)" using m4 by (auto simp: node_ids_set)
    then have "blocks h6 array = Some (Command_Array (map (\<lambda>(c, as). Some c) ?xs))"
      using 5(3) 6(3) by (simp add: case_prod_unfold comp_def)
    moreover have "list_all2 (\<lambda>(c, as). command_in h6 c as) ?xs cmds"
      by (rule commands_in_frame [OF nodes_in_commands [OF n5]]) (use 6(3) node_ids_distinct [OF dist] in auto)
    ultimately show ?thesis by (simp add: array_in_def)
  qed
  ultimately show ?thesis using 4 5(1) 6(1) by blast
qed

lemma heap_parse_correct:
  assumes "heap_ok h"
  shows "\<exists>array h' xs. heap_parse string h = Some ((array, length xs), h') \<and> array_in h' array xs (parse string)
    \<and> distinct (array # commands_ids xs) \<and> made h h' (set (array # commands_ids xs))"
proof -
  obtain p h1 ns where 1: "heap_get_tokens string h = Some (p, h1)" "tokens_in h1 p ns (get_tokens (Some string))"
    "distinct (token_ids ns)" "made h h1 (set (token_ids ns))" using get_tokens_correct [OF assms] by blast
  have "made h1 h1 (set (node_ids []))" using made_refl [OF madeD(2) [OF 1(4)]] by simp
  from convert_loop_correct [OF this _ _ _ 1(2), of None "[]" None] obtain q h2 ds where
    2: "convert_loop None None p h1 = Some (q, h2)" "nodes_in h2 q ds (parse string)" "distinct (node_ids ds)"
      "made h1 h2 (set (node_ids ds))" by (auto simp: parse_commands)
  have "tokens_in h2 p ns (get_tokens (Some string))"
    by (rule tokens_in_frame [OF 1(2)]) (use made_old [OF 2(4)] tokens_in_allocated [OF 1(2)] in blast)
  then obtain h3 where 3: "dispose_of_tokens p h2 = Some h3" "next_addr h3 = next_addr h2"
    "blocks h3 = (\<lambda>a. if a \<in> set (token_ids ns) then None else blocks h2 a)"
    using dispose_of_tokens_frees [OF _ 1(3)] by blast
  note sep = made_disjoint [OF 1(4) 2(4)]
  have m3: "made h h3 (set (node_ids ds))"
    using made_free_all [OF made_trans [OF 1(4) 2(4)] 3(2,3)] sep by (simp add: Un_Diff Diff_triv Int_commute)
  have n3: "nodes_in h3 q ds (parse string)"
    by (rule nodes_in_frame [OF 2(2)]) (use sep 3(3) in auto)
  have len: "length (parse string) = length (map snd ds)"
    using list_all2_lengthD [OF nodes_in_commands [OF n3]] by simp
  obtain array h4 h5 h6 where 4: "malloc (Command_Array (replicate (length (parse string)) None)) h3 = (array, h4)"
    "copy_commands array 0 q h4 (length (parse string)) = Some h5" "dispose_of_command_list_structure q h5 = Some h6"
    and array: "array_in h6 array (map snd ds) (parse string)" "distinct (array # commands_ids (map snd ds))"
      "made h h6 (set (array # commands_ids (map snd ds)))"
    using array_of_list [OF m3 n3 2(3)] by blast
  have "heap_parse string h = Some ((array, length (map snd ds)), h6)"
    using 1(1) 2(1) 3(1) heap_count_commands_correct [OF n3, of 0] 4 len by (simp add: heap_parse_def)
  with array show ?thesis by blast
qed

text \<open>C34: For every line the parser of the shell uses its memory as it must: no call reads, writes or frees a block that is not allocated, reads or writes beyond the end of a buffer or array, reads what was not written, or frees a block twice; the loops over its lists end, and the array it returns holds the commands of the line with the copies of their names and arguments; what it leaves allocated is exactly what dispose_of_commands frees, after which the heap is as before the line.\<close>

theorem line_memory_freed:
  assumes "heap_ok h"
  shows "\<exists>array n h1 h2 xs. heap_parse string h = Some ((array, n), h1) \<and> n = length (parse string)
    \<and> array_in h1 array xs (parse string) \<and> dispose_of_commands (array, n) h1 = Some h2 \<and> blocks h2 = blocks h"
proof -
  obtain array h1 xs where 1: "heap_parse string h = Some ((array, length xs), h1)" "array_in h1 array xs (parse string)"
    "distinct (array # commands_ids xs)" "made h h1 (set (array # commands_ids xs))"
    using heap_parse_correct [OF assms] by blast
  obtain h2 where 2: "dispose_of_commands (array, length xs) h1 = Some h2" "next_addr h2 = next_addr h1"
    "blocks h2 = (\<lambda>a. if a \<in> set (array # commands_ids xs) then None else blocks h1 a)"
    using dispose_of_commands_frees [OF 1(2,3)] by blast
  have "length xs = length (parse string)" using 1(2) list_all2_lengthD by (auto simp: array_in_def)
  moreover have "blocks h2 = blocks h" using made_free_all [OF 1(4) 2(2,3)] made_nothing by simp
  ultimately show ?thesis using 1(1,2) 2(1) by metis
qed

definition empty_heap :: heap where
  "empty_heap = \<lparr>blocks = \<lambda>_. None, next_addr = 0\<rparr>"

theorem line_memory_freed_witness:
  "\<exists>array h1 h2 xs. heap_parse ''cat a|wc'' empty_heap = Some ((array, 3), h1)
    \<and> array_in h1 array xs [\<lparr>c_name = ''cat'', c_argv = [''a'']\<rparr>, \<lparr>c_name = ''|'', c_argv = []\<rparr>, \<lparr>c_name = ''wc'', c_argv = []\<rparr>]
    \<and> dispose_of_commands (array, 3) h1 = Some h2 \<and> blocks h2 = blocks empty_heap"
proof -
  have "heap_ok empty_heap" by (simp add: heap_ok_def empty_heap_def)
  moreover have "parse ''cat a|wc'' = [\<lparr>c_name = ''cat'', c_argv = [''a'']\<rparr>, \<lparr>c_name = ''|'', c_argv = []\<rparr>, \<lparr>c_name = ''wc'', c_argv = []\<rparr>]"
    by code_simp
  ultimately show ?thesis using line_memory_freed [of empty_heap "''cat a|wc''"] by (simp add: numeral_3_eq_3)
qed

section \<open>The copies for execvp\<close>

lemma copy_arguments_correct:
  assumes "made h h1 A" "v \<in> A" "blocks h from = Some (Pointers (map (\<lambda>a. Some (Some a)) as))" "j + k = length as"
    "list_all2 (\<lambda>a s. blocks h a = Some (Chars s)) as ss" "length bs0 = j + 1"
    "blocks h1 v = Some (Pointers (map (\<lambda>a. Some (Some a)) bs0 @ replicate (Suc k) None))"
  shows "\<exists>h' bs. copy_arguments v from j h1 k = Some h' \<and> made h h' (A \<union> set bs) \<and> length bs = k \<and> distinct bs \<and> set bs \<inter> A = {}
    \<and> list_all2 (\<lambda>a s. blocks h' a = Some (Chars s)) bs (drop j ss)
    \<and> blocks h' v = Some (Pointers (map (\<lambda>a. Some (Some a)) (bs0 @ bs) @ [None]))
    \<and> (\<forall>a. blocks h1 a \<noteq> None \<longrightarrow> a \<noteq> v \<longrightarrow> blocks h' a = blocks h1 a)"
  using assms
proof (induction k arbitrary: h1 A j bs0)
  case 0
  then have "drop j ss = []" by (simp add: list_all2_lengthD [symmetric])
  with 0 show ?case by (intro exI [of _ h1] exI [of _ "[]"]) simp
next
  case (Suc k)
  have j: "j < length as" "j < length ss" using Suc.prems(4) list_all2_lengthD [OF Suc.prems(5)] by simp_all
  have s: "blocks h (as ! j) = Some (Chars (ss ! j))" using list_all2_nthD [OF Suc.prems(5) j(1)] .
  have old: "blocks h1 from = blocks h from" "blocks h1 (as ! j) = blocks h (as ! j)"
    using made_old [OF Suc.prems(1)] Suc.prems(3) s by simp_all
  obtain b h2 where 2: "malloc (Chars (ss ! j)) h1 = (b, h2)" by (cases "malloc (Chars (ss ! j)) h1")
  note m2 = made_malloc [OF Suc.prems(1) 2]
  have bv: "b \<noteq> v" "blocks h2 v = blocks h1 v" using m2 Suc.prems(2) by auto
  let ?b = "Pointers (map (\<lambda>a. Some (Some a)) (bs0 @ [b]) @ replicate (Suc k) None)"
  obtain h3 where 3: "store_block v ?b h2 = Some h3" using bv(2) Suc.prems(7) by (auto simp: store_block_def)
  have "v \<in> insert b A" using Suc.prems(2) by simp
  note m3 = made_store [OF conjunct1 [OF m2] this 3]
  have "set_pointer v (j + 1) (Some b) h2 = Some h3"
    using bv(2) Suc.prems(6,7) 3 by (auto simp: set_pointer_def pointers_at_def list_update_append)
  then have step: "copy_arguments v from j h1 (Suc k) = copy_arguments v from (j + 1) h3 k"
    using old s Suc.prems(3) j 2 by (simp add: get_pointer_def pointers_at_def strdup_def chars_at_def)
  have "\<exists>h' bs. copy_arguments v from (j + 1) h3 k = Some h' \<and> made h h' (insert b A \<union> set bs) \<and> length bs = k \<and> distinct bs
    \<and> set bs \<inter> insert b A = {} \<and> list_all2 (\<lambda>a s. blocks h' a = Some (Chars s)) bs (drop (j + 1) ss)
    \<and> blocks h' v = Some (Pointers (map (\<lambda>a. Some (Some a)) ((bs0 @ [b]) @ bs) @ [None]))
    \<and> (\<forall>a. blocks h3 a \<noteq> None \<longrightarrow> a \<noteq> v \<longrightarrow> blocks h' a = blocks h3 a)"
    using m3 Suc.prems(2-6) by (intro Suc.IH) auto
  then obtain h' bs where IH: "copy_arguments v from (j + 1) h3 k = Some h'" "made h h' (insert b A \<union> set bs)" "length bs = k"
    "distinct bs" "set bs \<inter> insert b A = {}" "list_all2 (\<lambda>a s. blocks h' a = Some (Chars s)) bs (drop (j + 1) ss)"
    "blocks h' v = Some (Pointers (map (\<lambda>a. Some (Some a)) ((bs0 @ [b]) @ bs) @ [None]))"
    "\<And>a. blocks h3 a \<noteq> None \<Longrightarrow> a \<noteq> v \<Longrightarrow> blocks h' a = blocks h3 a" by blast
  have b: "blocks h' b = Some (Chars (ss ! j))" using IH(8) [of b] m2 m3 bv(1) by simp
  have frame: "blocks h' x = blocks h1 x" if "blocks h1 x \<noteq> None" "x \<noteq> v" for x
    using IH(8) [of x] malloc_keeps [OF madeD(2) [OF Suc.prems(1)] 2 that(1)] m3 that by simp
  have "drop j ss = ss ! j # drop (j + 1) ss" using j by (simp add: Cons_nth_drop_Suc)
  with step IH b frame m2 show ?case
    by (intro exI [of _ h'] exI [of _ "b # bs"]) (auto simp: insert_commute)
qed

lemma free_until_null_frees:
  assumes "blocks h v = Some (Pointers (map (\<lambda>a. Some (Some a)) bs @ [Some None]))" "i \<le> length bs" "distinct bs" "v \<notin> set bs"
    "\<forall>a \<in> set (drop i bs). blocks h a \<noteq> None"
  shows "\<exists>h'. free_until_null v i h = Some h' \<and> next_addr h' = next_addr h
    \<and> blocks h' = (\<lambda>a. if a \<in> set (drop i bs) then None else blocks h a)"
  using assms
proof (induction "length bs - i" arbitrary: i h)
  case 0
  then show ?case by (subst free_until_null.simps) (simp add: get_pointer_def pointers_at_def nth_append)
next
  case (Suc k)
  then have i: "i < length bs" by simp
  then have d: "drop i bs = bs ! i # drop (Suc i) bs" by (simp add: Cons_nth_drop_Suc)
  define h1 where "h1 = h\<lparr>blocks := \<lambda>x. if x = bs ! i then None else blocks h x\<rparr>"
  have f: "free (bs ! i) h = Some h1" using Suc.prems(5) d by (simp add: free_all_one h1_def)
  have nv: "bs ! i \<noteq> v" using Suc.prems(4) i by auto
  have "bs ! i \<notin> set (drop (Suc i) bs)" using Suc.prems(3) d by (metis distinct.simps(2) distinct_drop)
  then have "\<exists>h'. free_until_null v (Suc i) h1 = Some h' \<and> next_addr h' = next_addr h1
      \<and> blocks h' = (\<lambda>a. if a \<in> set (drop (Suc i) bs) then None else blocks h1 a)"
    using Suc.prems Suc.hyps(2) nv d i by (intro Suc.hyps(1)) (auto simp: h1_def)
  then obtain h' where h': "free_until_null v (Suc i) h1 = Some h'" "next_addr h' = next_addr h1"
    "blocks h' = (\<lambda>a. if a \<in> set (drop (Suc i) bs) then None else blocks h1 a)" by blast
  have "free_until_null v i h = Some h'"
    using Suc.prems(1) i f h'(1) by (subst free_until_null.simps) (simp add: get_pointer_def pointers_at_def nth_append)
  then show ?case using h'(2,3) by (auto simp: d h1_def fun_eq_iff)
qed

lemma those_chars:
  "list_all2 (\<lambda>a s. blocks h a = Some (Chars s)) bs ss \<Longrightarrow>
   those (map (\<lambda>p. do { a \<leftarrow> p; a \<leftarrow> a; chars_at h a }) (map (\<lambda>a. Some (Some a)) bs)) = Some ss"
  by (induction rule: list_all2_induct) (simp_all add: chars_at_def)

lemma takeWhile_pointers:
  "takeWhile (\<lambda>p. p \<noteq> Some None) (map (\<lambda>a. Some (Some a)) bs @ [Some None]) = map (\<lambda>a. Some (Some a)) bs"
  by (induction bs) auto

text \<open>The copies of a name and its arguments, with the null pointer.\<close>

lemma argument_vector_made:
  assumes "heap_ok h" "command_in h c as cmd"
  shows "\<exists>v h1 b h2 h3 h4 h5 bs. malloc (Pointers (replicate (2 + argc c) None)) h = (v, h1) \<and> strdup (name c) h1 = Some (b, h2)
    \<and> set_pointer v 0 (Some b) h2 = Some h3 \<and> copy_arguments v (argv c) 0 h3 (argc c) = Some h4
    \<and> set_pointer v (argc c + 1) None h4 = Some h5 \<and> distinct (v # bs) \<and> made h h5 (set (v # bs))
    \<and> blocks h5 v = Some (Pointers (map (\<lambda>a. Some (Some a)) bs @ [Some None]))
    \<and> list_all2 (\<lambda>a s. blocks h5 a = Some (Chars s)) bs (c_name cmd # c_argv cmd)"
proof -
  have c: "blocks h (name c) = Some (Chars (c_name cmd))" "blocks h (argv c) = Some (Pointers (map (\<lambda>a. Some (Some a)) as))"
    "argc c = length as" "list_all2 (\<lambda>a s. blocks h a = Some (Chars s)) as (c_argv cmd)"
    using assms(2) by (auto simp: command_in_def)
  obtain v h1 where 1: "malloc (Pointers (replicate (2 + argc c) None)) h = (v, h1)"
    by (cases "malloc (Pointers (replicate (2 + argc c) None)) h")
  note m1 = made_malloc [OF made_refl [OF assms(1)] 1]
  have name: "blocks h1 (name c) = Some (Chars (c_name cmd))" using made_old [OF conjunct1 [OF m1], of "name c"] c(1) by simp
  obtain b h2 where 2: "malloc (Chars (c_name cmd)) h1 = (b, h2)" by (cases "malloc (Chars (c_name cmd)) h1")
  note m2 = made_malloc [OF conjunct1 [OF m1] 2]
  let ?b = "Pointers (map (\<lambda>a. Some (Some a)) [b] @ replicate (Suc (argc c)) None)"
  have v2: "blocks h2 v = Some (Pointers (replicate (2 + argc c) None))" "b \<noteq> v" using m1 m2 by auto
  obtain h3 where 3: "store_block v ?b h2 = Some h3" using v2 by (auto simp: store_block_def)
  note m3 = made_store [OF conjunct1 [OF m2] _ 3]
  have set3: "set_pointer v 0 (Some b) h2 = Some h3" using v2 3 by (simp add: set_pointer_def pointers_at_def)
  from copy_arguments_correct [OF conjunct1 [OF m3] _ c(2) _ c(4), of v 0 "argc c" "[b]"] m3 c(3) obtain h4 bs where
    4: "copy_arguments v (argv c) 0 h3 (argc c) = Some h4" "made h h4 (insert b {v} \<union> set bs)" "length bs = argc c" "distinct bs"
      "set bs \<inter> insert b {v} = {}" "list_all2 (\<lambda>a s. blocks h4 a = Some (Chars s)) bs (c_argv cmd)"
      "blocks h4 v = Some (Pointers (map (\<lambda>a. Some (Some a)) (b # bs) @ [None]))"
      "\<And>a. blocks h3 a \<noteq> None \<Longrightarrow> a \<noteq> v \<Longrightarrow> blocks h4 a = blocks h3 a" by auto
  let ?n = "Pointers (map (\<lambda>a. Some (Some a)) (b # bs) @ [Some None])"
  obtain h5 where 5: "store_block v ?n h4 = Some h5" using 4(7) by (auto simp: store_block_def)
  have "v \<in> insert b {v} \<union> set bs" by simp
  note m5 = made_store [OF 4(2) this 5]
  have set5: "set_pointer v (argc c + 1) None h4 = Some h5"
    using 4(3,7) 5 by (simp add: set_pointer_def pointers_at_def list_update_append)
  have "blocks h4 b = Some (Chars (c_name cmd))" using 4(8) [of b] m2 m3 v2(2) by simp
  then have "blocks h5 b = Some (Chars (c_name cmd))" using m5 v2(2) by simp
  moreover have "list_all2 (\<lambda>a s. blocks h5 a = Some (Chars s)) bs (c_argv cmd)"
    using 4(6) by (rule list.rel_mono_strong) (use m5 4(5) in auto)
  moreover have "made h h5 (set (v # b # bs))" using conjunct1 [OF m5] by (simp add: insert_commute)
  moreover have "strdup (name c) h1 = Some (b, h2)" using name 2 by (simp add: strdup_def chars_at_def)
  moreover have "blocks h5 v = Some (Pointers (map (\<lambda>a. Some (Some a)) (b # bs) @ [Some None]))" "distinct (v # b # bs)"
    using m5 v2(2) 4(4,5) by auto
  ultimately have "list_all2 (\<lambda>a s. blocks h5 a = Some (Chars s)) (b # bs) (c_name cmd # c_argv cmd)" by simp
  with \<open>made h h5 (set (v # b # bs))\<close> \<open>strdup (name c) h1 = Some (b, h2)\<close> \<open>distinct (v # b # bs)\<close>
    \<open>blocks h5 v = _\<close> 1 set3 4(1) set5 show ?thesis by blast
qed

lemma execute_command_frees:
  assumes "made h0 h (set (array # commands_ids xs))" "array_in h array xs cmds" "distinct (array # commands_ids xs)"
    "xs ! i = (c, as)" "i < length xs"
  shows "\<exists>h'. execute_command (array, length xs) c h = Some (c_name (cmds ! i) # c_argv (cmds ! i), h') \<and> blocks h' = blocks h0"
proof -
  have "command_in h c as (cmds ! i)"
    using list_all2_nthD [of "\<lambda>(c, as). command_in h c as" xs cmds i] assms(2,4,5) by (simp add: array_in_def)
  from argument_vector_made [OF madeD(2) [OF assms(1)] this] obtain v h1 b h2 h3 h4 h5 bs where
    1: "malloc (Pointers (replicate (2 + argc c) None)) h = (v, h1)" "strdup (name c) h1 = Some (b, h2)"
    "set_pointer v 0 (Some b) h2 = Some h3" "copy_arguments v (argv c) 0 h3 (argc c) = Some h4"
    "set_pointer v (argc c + 1) None h4 = Some h5"
    and bs: "distinct (v # bs)" "made h h5 (set (v # bs))"
    "blocks h5 v = Some (Pointers (map (\<lambda>a. Some (Some a)) bs @ [Some None]))"
    "list_all2 (\<lambda>a s. blocks h5 a = Some (Chars s)) bs (c_name (cmds ! i) # c_argv (cmds ! i))" by blast
  let ?A = "set (array # commands_ids xs)" and ?V = "set (v # bs)"
  have allocated: "blocks h a \<noteq> None" if "a \<in> ?A" for a
    using that assms(2) command_in_allocated
    by (auto simp: array_in_def commands_ids_def list_all2_conv_all_nth in_set_conv_nth)
       (metis (no_types, lifting) case_prod_conv command_in_allocated nth_mem option.distinct(1) in_set_conv_nth)+
  have a5: "array_in h5 array xs cmds"
    using assms(2) made_old [OF bs(2) allocated] commands_in_frame [of h xs cmds h5] by (simp add: array_in_def)
  obtain h6 where 6: "dispose_of_commands (array, length xs) h5 = Some h6" "next_addr h6 = next_addr h5"
    "blocks h6 = (\<lambda>a. if a \<in> ?A then None else blocks h5 a)"
    using dispose_of_commands_frees [OF a5 assms(3)] by blast
  note sep = made_disjoint [OF assms(1) bs(2)]
  have "?A \<union> ?V - ?A = ?V" using sep by blast
  then have m6: "made h0 h6 ?V"
    using made_free_all [OF made_trans [OF assms(1) bs(2)] 6(2,3) Un_upper1] by (simp only:)
  have keep: "blocks h6 a = blocks h5 a" if "a \<in> ?V" for a using that sep 6(3) by auto
  have p6: "pointers_at h6 v = Some (map (\<lambda>a. Some (Some a)) bs @ [Some None])" using keep [of v] bs(3) by (simp add: pointers_at_def)
  have chars: "list_all2 (\<lambda>a s. blocks h6 a = Some (Chars s)) bs (c_name (cmds ! i) # c_argv (cmds ! i))"
    using bs(4) by (rule list.rel_mono_strong) (simp add: keep)
  have "\<forall>a \<in> set (drop 0 bs). blocks h6 a \<noteq> None"
    using chars by (auto simp: list_all2_conv_all_nth in_set_conv_nth)
  with free_until_null_frees [of h6 v bs 0] keep [of v] bs(1,3) obtain h7 where
    7: "free_until_null v 0 h6 = Some h7" "next_addr h7 = next_addr h6" "blocks h7 = (\<lambda>a. if a \<in> set bs then None else blocks h6 a)"
    by auto
  have "?V - set bs = {v}" "set bs \<subseteq> ?V" using bs(1) by auto
  then have m7: "made h0 h7 {v}" using made_free_all [OF m6 7(2,3)] by (simp only:)
  have "blocks h7 v \<noteq> None" using 7(3) keep [of v] bs(1,3) by simp
  then have 8: "free v h7 = Some (h7\<lparr>blocks := \<lambda>x. if x = v then None else blocks h7 x\<rparr>)" (is "_ = Some ?h8")
    by (simp add: free_all_one)
  have "made h0 ?h8 ({v} - {v})" by (rule made_free_all [OF m7]) (simp_all add: fun_eq_iff)
  then have "blocks ?h8 = blocks h0" using made_nothing by simp
  moreover have "execute_command (array, length xs) c h = Some (c_name (cmds ! i) # c_argv (cmds ! i), ?h8)"
    unfolding execute_command_def
    using 1 6(1) p6 those_chars [OF chars] 7(1) 8 by (simp add: takeWhile_pointers)
  ultimately show ?thesis by blast
qed

text \<open>A child of the shell gives execvp a vector with the name and the arguments of its command, which are copies and so are still there when the commands have been freed; when execvp fails and returns, the child frees the copies, and its heap is as it was before the line was parsed.\<close>

theorem execute_command_memory:
  assumes "heap_ok h" "i < length (parse string)"
  shows "\<exists>array n h1 cs c h2. heap_parse string h = Some ((array, n), h1) \<and> array_at h1 array = Some cs \<and> cs ! i = Some c
    \<and> execute_command (array, n) c h1 = Some (c_name (parse string ! i) # c_argv (parse string ! i), h2) \<and> blocks h2 = blocks h"
proof -
  obtain array h1 xs where 1: "heap_parse string h = Some ((array, length xs), h1)" "array_in h1 array xs (parse string)"
    "distinct (array # commands_ids xs)" "made h h1 (set (array # commands_ids xs))"
    using heap_parse_correct [OF assms(1)] by blast
  have i: "i < length xs" using 1(2) assms(2) list_all2_lengthD by (fastforce simp: array_in_def)
  obtain c as where x: "xs ! i = (c, as)" by (cases "xs ! i")
  have "array_at h1 array = Some (map (\<lambda>(c, as). Some c) xs)" using 1(2) by (simp add: array_in_def array_at_def)
  moreover have "map (\<lambda>(c, as). Some c) xs ! i = Some c" using i x by simp
  ultimately show ?thesis using execute_command_frees [OF 1(4,2,3) x i] 1(1) by blast
qed

theorem execute_command_memory_witness:
  "\<exists>array n h1 cs c h2. heap_parse ''cat a'' empty_heap = Some ((array, n), h1) \<and> array_at h1 array = Some cs \<and> cs ! 0 = Some c
    \<and> execute_command (array, n) c h1 = Some ([''cat'', ''a''], h2) \<and> blocks h2 = (\<lambda>_. None)"
proof -
  have "heap_ok empty_heap" by (simp add: heap_ok_def empty_heap_def)
  moreover have "parse ''cat a'' = [\<lparr>c_name = ''cat'', c_argv = [''a'']\<rparr>]" by code_simp
  moreover have "blocks empty_heap = (\<lambda>_. None)" by (simp add: empty_heap_def)
  ultimately show ?thesis using execute_command_memory [of empty_heap 0 "''cat a''"] by simp
qed

section \<open>The list of the children\<close>

fun pids_in :: "heap \<Rightarrow> addr option \<Rightarrow> addr list \<Rightarrow> int list \<Rightarrow> bool" where
  "pids_in h p [] pids \<longleftrightarrow> p = None \<and> pids = []"
| "pids_in h p (n # ns) pids \<longleftrightarrow> p = Some n \<and> (\<exists>q x xs. pids = x # xs \<and> blocks h n = Some (Pid_Node x q) \<and> pids_in h q ns xs)"

lemma pids_in_frame:
  "pids_in h p ns pids \<Longrightarrow> (\<And>a. a \<in> set ns \<Longrightarrow> blocks h' a = blocks h a) \<Longrightarrow> pids_in h' p ns pids"
  by (induction h p ns pids rule: pids_in.induct) auto

lemma add_pid_made:
  assumes "made h0 h (set ns)" "pids_in h p ns pids" "distinct ns" "add_pid p x h = (n, h')"
  shows "made h0 h' (set (n # ns))" "pids_in h' (Some n) (n # ns) (x # pids)" "distinct (n # ns)"
proof -
  have m: "malloc (Pid_Node x p) h = (n, h')" using assms(4) by (simp add: add_pid_def)
  note m' = made_malloc [OF assms(1) m]
  show "made h0 h' (set (n # ns))" "distinct (n # ns)" using m' assms(3) by auto
  have "pids_in h' p ns pids" by (rule pids_in_frame [OF assms(2)]) (use m' in auto)
  then show "pids_in h' (Some n) (n # ns) (x # pids)" using m' by simp
qed

lemma dispose_of_pid_list_frees:
  assumes "pids_in h p ns pids" "distinct ns"
  shows "\<exists>h'. dispose_of_pid_list p h = Some h' \<and> next_addr h' = next_addr h
    \<and> blocks h' = (\<lambda>a. if a \<in> set ns then None else blocks h a)"
  using assms
proof (induction ns arbitrary: h p pids)
  case Nil
  then show ?case by (subst dispose_of_pid_list.simps) simp
next
  case (Cons n ns)
  then obtain q x xs where q: "p = Some n" "blocks h n = Some (Pid_Node x q)" "pids_in h q ns xs" by auto
  define h1 where "h1 = h\<lparr>blocks := \<lambda>x. if x = n then None else blocks h x\<rparr>"
  have f: "free n h = Some h1" using q(2) by (simp add: free_all_one h1_def)
  have "pids_in h1 q ns xs" by (rule pids_in_frame [OF q(3)]) (use Cons.prems(2) in \<open>auto simp: h1_def\<close>)
  then obtain h' where h': "dispose_of_pid_list q h1 = Some h'" "next_addr h' = next_addr h1"
    "blocks h' = (\<lambda>a. if a \<in> set ns then None else blocks h1 a)"
    using Cons.IH Cons.prems(2) by fastforce
  have "dispose_of_pid_list p h = Some h'"
    using q f h'(1) by (subst dispose_of_pid_list.simps) (simp add: pid_at_def)
  then show ?case using h'(2,3) by (auto simp: h1_def fun_eq_iff)
qed

theorem pid_list_freed:
  assumes "heap_ok h"
  shows "\<exists>p h1 ns h2. fold (\<lambda>pid (list, h). map_prod Some (\<lambda>h. h) (add_pid list pid h)) pids (None, h) = (p, h1)
    \<and> pids_in h1 p ns (rev pids) \<and> dispose_of_pid_list p h1 = Some h2 \<and> blocks h2 = blocks h"
proof -
  have "\<exists>p h1 ns. fold (\<lambda>pid (list, h). map_prod Some (\<lambda>h. h) (add_pid list pid h)) pids (None, h) = (p, h1)
    \<and> made h h1 (set ns) \<and> pids_in h1 p ns (rev pids) \<and> distinct ns"
  proof (induction pids rule: rev_induct)
    case Nil
    show ?case using made_refl [OF assms] by (intro exI [of _ None] exI [of _ h] exI [of _ "[]"]) simp
  next
    case (snoc x pids)
    then obtain p h1 ns where 1: "fold (\<lambda>pid (list, h). map_prod Some (\<lambda>h. h) (add_pid list pid h)) pids (None, h) = (p, h1)"
      "made h h1 (set ns)" "pids_in h1 p ns (rev pids)" "distinct ns" by blast
    obtain n h2 where 2: "add_pid p x h1 = (n, h2)" by (cases "add_pid p x h1")
    show ?case using 1(1) 2 add_pid_made [OF 1(2,3,4) 2]
      by (intro exI [of _ "Some n"] exI [of _ h2] exI [of _ "n # ns"]) simp
  qed
  then obtain p h1 ns where 1: "fold (\<lambda>pid (list, h). map_prod Some (\<lambda>h. h) (add_pid list pid h)) pids (None, h) = (p, h1)"
    "made h h1 (set ns)" "pids_in h1 p ns (rev pids)" "distinct ns" by blast
  obtain h2 where 2: "dispose_of_pid_list p h1 = Some h2" "next_addr h2 = next_addr h1"
    "blocks h2 = (\<lambda>a. if a \<in> set ns then None else blocks h1 a)"
    using dispose_of_pid_list_frees [OF 1(3,4)] by blast
  have "blocks h2 = blocks h" using made_free_all [OF 1(2) 2(2,3)] made_nothing by simp
  with 1 2 show ?thesis by blast
qed

end
