(* ===== verification/Condvars.thy ===== *)
theory Condvars
  imports Prelude
begin

text \<open>
  The condition variables of lecture_examples/6_threads that spin on a mutex, 13_simple_condvar.c and
  14_condvar.c: main signals, and thread_count threads wait, each in an endless loop. A step is one
  access of the shared memory, which is sequentially consistent, or one call of a mutex. The threads are numbered
  from 0. Whether getchar gives another character, so that main signals again, is open. processed counts the
  returns of condvar_wait and signalled the events that condvar_signal has set.
\<close>

section \<open>The condition variable\<close>

datatype agent = Main | Waiter nat

text \<open>
  Where a waiter is: before the addition to wait_count, before pthread_mutex_lock, before the test, before it clears
  the flag, before the subtraction from wait_count, before the unlock of the branch that returns, before the other
  unlock, after condvar_wait. Where main is: in getchar, before it reads wait_count, before it sets the
  flag, before the unlock, in the loop on the flag, before the lock, before it clears the flag.
\<close>

datatype wait_pc = W_Add | W_Lock | W_Test | W_Clear | W_Sub | W_Unlock | W_Unlock_Again | W_Returned

datatype main_pc = M_Getchar | M_Count | M_Set | M_Unlock | M_Spin | M_Lock | M_Clear

record condvar =
  event_lock :: "agent option"
  is_event_set :: bool
  wait_count :: int
  waiter_at :: "nat \<Rightarrow> wait_pc"
  main_at :: main_pc
  processed :: nat
  signalled :: nat
  lost :: nat

text \<open>condvar_create has main lock the mutex.\<close>

definition condvar_create :: "wait_pc \<Rightarrow> condvar" where
  "condvar_create first = \<lparr>event_lock = Some Main, is_event_set = False, wait_count = 0, waiter_at = \<lambda>_. first,
     main_at = M_Getchar, processed = 0, signalled = 0, lost = 0\<rparr>"

definition lock_mutex :: "agent \<Rightarrow> condvar \<Rightarrow> condvar option" where
  "lock_mutex a s = (if event_lock s = None then Some (s\<lparr>event_lock := Some a\<rparr>) else None)"

definition unlock_mutex :: "condvar \<Rightarrow> condvar" where
  "unlock_mutex s = s\<lparr>event_lock := None\<rparr>"

definition waiter_goto :: "nat \<Rightarrow> wait_pc \<Rightarrow> condvar \<Rightarrow> condvar" where
  "waiter_goto i pc s = s\<lparr>waiter_at := (waiter_at s)(i := pc)\<rparr>"

definition main_goto :: "main_pc \<Rightarrow> condvar \<Rightarrow> condvar" where
  "main_goto pc s = s\<lparr>main_at := pc\<rparr>"

section \<open>The simple one\<close>

text \<open>13_simple_condvar.c. lost counts the events that main has cleared itself.\<close>

definition simple_wait :: "nat \<Rightarrow> condvar \<Rightarrow> condvar option" where
  "simple_wait i s = (case waiter_at s i of
     W_Lock \<Rightarrow> map_option (waiter_goto i W_Test) (lock_mutex (Waiter i) s)
   | W_Test \<Rightarrow> Some (waiter_goto i (if is_event_set s then W_Clear else W_Unlock_Again) s)
   | W_Clear \<Rightarrow> Some (waiter_goto i W_Unlock (s\<lparr>is_event_set := False\<rparr>))
   | W_Unlock \<Rightarrow> Some (waiter_goto i W_Returned (unlock_mutex (s\<lparr>processed := processed s + 1\<rparr>)))
   | W_Unlock_Again \<Rightarrow> Some (waiter_goto i W_Lock (unlock_mutex s))
   | W_Returned \<Rightarrow> Some (waiter_goto i W_Lock s)
   | _ \<Rightarrow> None)"

definition simple_signal :: "condvar \<Rightarrow> condvar option" where
  "simple_signal s = (case main_at s of
     M_Getchar \<Rightarrow> Some (main_goto M_Set s)
   | M_Set \<Rightarrow> Some (main_goto M_Unlock (s\<lparr>is_event_set := True, signalled := signalled s + 1\<rparr>))
   | M_Unlock \<Rightarrow> Some (main_goto M_Lock (unlock_mutex s))
   | M_Lock \<Rightarrow> map_option (main_goto M_Clear) (lock_mutex Main s)
   | M_Clear \<Rightarrow> Some (main_goto M_Getchar (s\<lparr>lost := lost s + (if is_event_set s then 1 else 0), is_event_set := False\<rparr>))
   | _ \<Rightarrow> None)"

section \<open>The one that counts the waiters\<close>

text \<open>14_condvar.c.\<close>

definition condvar_wait :: "nat \<Rightarrow> condvar \<Rightarrow> condvar option" where
  "condvar_wait i s = (case waiter_at s i of
     W_Add \<Rightarrow> Some (waiter_goto i W_Lock (s\<lparr>wait_count := wait_count s + 1\<rparr>))
   | W_Lock \<Rightarrow> map_option (waiter_goto i W_Test) (lock_mutex (Waiter i) s)
   | W_Test \<Rightarrow> Some (waiter_goto i (if is_event_set s then W_Clear else W_Unlock_Again) s)
   | W_Clear \<Rightarrow> Some (waiter_goto i W_Sub (s\<lparr>is_event_set := False\<rparr>))
   | W_Sub \<Rightarrow> Some (waiter_goto i W_Unlock (s\<lparr>wait_count := wait_count s - 1\<rparr>))
   | W_Unlock \<Rightarrow> Some (waiter_goto i W_Returned (unlock_mutex (s\<lparr>processed := processed s + 1\<rparr>)))
   | W_Unlock_Again \<Rightarrow> Some (waiter_goto i W_Lock (unlock_mutex s))
   | W_Returned \<Rightarrow> Some (waiter_goto i W_Add s))"

definition condvar_signal :: "condvar \<Rightarrow> condvar option" where
  "condvar_signal s = (case main_at s of
     M_Getchar \<Rightarrow> Some (main_goto M_Count s)
   | M_Count \<Rightarrow> Some (main_goto (if wait_count s = 0 then M_Getchar else M_Set) s)
   | M_Set \<Rightarrow> Some (main_goto M_Unlock (s\<lparr>is_event_set := True, signalled := signalled s + 1\<rparr>))
   | M_Unlock \<Rightarrow> Some (main_goto M_Spin (unlock_mutex s))
   | M_Spin \<Rightarrow> Some (if is_event_set s then s else main_goto M_Lock s)
   | M_Lock \<Rightarrow> map_option (main_goto M_Clear) (lock_mutex Main s)
   | M_Clear \<Rightarrow> Some (main_goto M_Getchar (s\<lparr>lost := lost s + (if is_event_set s then 1 else 0), is_event_set := False\<rparr>)))"

definition program_step ::
  "(nat \<Rightarrow> condvar \<Rightarrow> condvar option) \<Rightarrow> (condvar \<Rightarrow> condvar option) \<Rightarrow> nat \<Rightarrow> condvar \<Rightarrow> condvar \<Rightarrow> bool" where
  "program_step wait signal thread_count s s' \<longleftrightarrow> signal s = Some s' \<or> (\<exists>i < thread_count. wait i s = Some s')"

abbreviation simple_step :: "nat \<Rightarrow> condvar \<Rightarrow> condvar \<Rightarrow> bool" where
  "simple_step \<equiv> program_step simple_wait simple_signal"

abbreviation counted_step :: "nat \<Rightarrow> condvar \<Rightarrow> condvar \<Rightarrow> bool" where
  "counted_step \<equiv> program_step condvar_wait condvar_signal"

section \<open>Who holds the mutex\<close>

definition waiter_inside :: "wait_pc \<Rightarrow> bool" where
  "waiter_inside pc \<longleftrightarrow> pc \<in> {W_Test, W_Clear, W_Sub, W_Unlock, W_Unlock_Again}"

definition main_inside :: "main_pc \<Rightarrow> bool" where
  "main_inside pc \<longleftrightarrow> pc \<notin> {M_Spin, M_Lock}"

text \<open>A waiter that has taken the event and not yet returned.\<close>

definition taking :: "condvar \<Rightarrow> bool" where
  "taking s \<longleftrightarrow> (\<exists>i. event_lock s = Some (Waiter i) \<and> waiter_at s i \<in> {W_Sub, W_Unlock})"

definition mutex_inv :: "condvar \<Rightarrow> bool" where
  "mutex_inv s \<longleftrightarrow> (\<forall>i. event_lock s = Some (Waiter i) \<longleftrightarrow> waiter_inside (waiter_at s i))
     \<and> (event_lock s = Some Main \<longleftrightarrow> main_inside (main_at s))"

definition event_inv :: "condvar \<Rightarrow> bool" where
  "event_inv s \<longleftrightarrow> processed s + lost s + (if taking s then 1 else 0) + (if is_event_set s then 1 else 0) = signalled s
     \<and> (is_event_set s \<longrightarrow> main_at s \<in> {M_Unlock, M_Spin, M_Lock, M_Clear})
     \<and> (\<forall>i. waiter_at s i = W_Clear \<longrightarrow> is_event_set s)"

lemmas condvar_defs = waiter_goto_def main_goto_def lock_mutex_def unlock_mutex_def

lemma taking_cases:
  "event_lock s = None \<Longrightarrow> \<not> taking s" "event_lock s = Some Main \<Longrightarrow> \<not> taking s"
  "event_lock s = Some (Waiter i) \<Longrightarrow> taking s \<longleftrightarrow> waiter_at s i \<in> {W_Sub, W_Unlock}"
  by (auto simp: taking_def)

lemma mutex_inv_others:
  "mutex_inv s \<Longrightarrow> event_lock s = Some (Waiter i) \<Longrightarrow> j \<noteq> i \<Longrightarrow> \<not> waiter_inside (waiter_at s j)"
  "mutex_inv s \<Longrightarrow> waiter_inside (waiter_at s i) \<Longrightarrow> event_lock s = Some (Waiter i)"
  "mutex_inv s \<Longrightarrow> main_inside (main_at s) \<Longrightarrow> event_lock s = Some Main"
  "mutex_inv s \<Longrightarrow> event_lock s \<noteq> Some (Waiter i) \<Longrightarrow> \<not> waiter_inside (waiter_at s i)"
  unfolding mutex_inv_def by auto

lemma wait_effect:
  assumes "condvar_wait i s = Some s' \<or> simple_wait i s = Some s'"
  shows "\<exists>pc. waiter_at s' = (waiter_at s)(i := pc) \<and> main_at s' = main_at s \<and>
    (event_lock s' = event_lock s \<and> waiter_inside pc = waiter_inside (waiter_at s i)
     \<or> event_lock s = None \<and> event_lock s' = Some (Waiter i) \<and> \<not> waiter_inside (waiter_at s i) \<and> waiter_inside pc
     \<or> waiter_inside (waiter_at s i) \<and> \<not> waiter_inside pc \<and> event_lock s' = None)"
  using assms
  by (cases "waiter_at s i"; elim disjE)
    (auto simp: condvar_wait_def simple_wait_def condvar_defs waiter_inside_def split: if_splits)

lemma wait_keeps_mutex:
  assumes m: "mutex_inv s" and w: "condvar_wait i s = Some s' \<or> simple_wait i s = Some s'"
  shows "mutex_inv s'"
proof -
  obtain pc where pc: "waiter_at s' = (waiter_at s)(i := pc)" "main_at s' = main_at s"
    and e: "event_lock s' = event_lock s \<and> waiter_inside pc = waiter_inside (waiter_at s i)
     \<or> event_lock s = None \<and> event_lock s' = Some (Waiter i) \<and> \<not> waiter_inside (waiter_at s i) \<and> waiter_inside pc
     \<or> waiter_inside (waiter_at s i) \<and> \<not> waiter_inside pc \<and> event_lock s' = None"
    using wait_effect [OF w] by blast
  have waiters: "event_lock s = Some (Waiter j) \<longleftrightarrow> waiter_inside (waiter_at s j)" for j using m by (simp add: mutex_inv_def)
  have main: "event_lock s = Some Main \<longleftrightarrow> main_inside (main_at s)" using m by (simp add: mutex_inv_def)
  from e show ?thesis
  proof (elim disjE conjE)
    assume "event_lock s' = event_lock s" "waiter_inside pc = waiter_inside (waiter_at s i)"
    then show ?thesis using pc waiters main by (simp add: mutex_inv_def)
  next
    assume "event_lock s = None" "event_lock s' = Some (Waiter i)" "waiter_inside pc"
    then show ?thesis using pc waiters main by (auto simp: mutex_inv_def)
  next
    assume i: "waiter_inside (waiter_at s i)" and pc': "\<not> waiter_inside pc" and l': "event_lock s' = None"
    have l: "event_lock s = Some (Waiter i)" using waiters i by blast
    have "\<not> waiter_inside (waiter_at s j)" if "j \<noteq> i" for j using l waiters [of j] that by simp
    moreover have "\<not> main_inside (main_at s)" using l main by simp
    ultimately show ?thesis using pc pc' l' by (simp add: mutex_inv_def)
  qed
qed

lemma signal_keeps_mutex:
  assumes "mutex_inv s" "condvar_signal s = Some s' \<or> simple_signal s = Some s'"
  shows "mutex_inv s'"
  using assms
  by (cases "main_at s")
    (auto simp: condvar_signal_def simple_signal_def condvar_defs mutex_inv_def main_inside_def split: if_splits)

lemma wait_keeps_event:
  assumes m: "mutex_inv s" and e: "event_inv s" and w: "condvar_wait i s = Some s' \<or> simple_wait i s = Some s'"
  shows "event_inv s'"
proof (cases "waiter_inside (waiter_at s i)")
  case True
  then have l: "event_lock s = Some (Waiter i)" using mutex_inv_others(2) [OF m] by blast
  have others: "waiter_at s j \<noteq> W_Clear" if "j \<noteq> i" for j
    using mutex_inv_others(1) [OF m l that] by (auto simp: waiter_inside_def)
  have clear: "\<forall>j. j \<noteq> i \<longrightarrow> waiter_at s j \<noteq> W_Clear" using others by blast
  have count: "processed s + lost s + (if waiter_at s i \<in> {W_Sub, W_Unlock} then 1 else 0) + (if is_event_set s then 1 else 0) = signalled s"
    using e taking_cases(3) [OF l] by (simp add: event_inv_def)
  have flag: "is_event_set s \<Longrightarrow> main_at s \<in> {M_Unlock, M_Spin, M_Lock, M_Clear}" "waiter_at s i = W_Clear \<Longrightarrow> is_event_set s"
    using e unfolding event_inv_def by blast+
  have "processed s' + lost s' + (if taking s' then 1 else 0) + (if is_event_set s' then 1 else 0) = signalled s'"
    using w True l count flag(2)
    by (elim disjE; cases "waiter_at s i")
      (auto simp: condvar_wait_def simple_wait_def condvar_defs taking_def waiter_inside_def split: if_splits)
  moreover have "is_event_set s' \<longrightarrow> main_at s' \<in> {M_Unlock, M_Spin, M_Lock, M_Clear}"
    using w flag(1) by (elim disjE; cases "waiter_at s i")
      (auto simp: condvar_wait_def simple_wait_def condvar_defs split: if_splits)
  moreover have "\<forall>j. waiter_at s' j = W_Clear \<longrightarrow> is_event_set s'"
    using w True flag(2) clear by (elim disjE; cases "waiter_at s i")
      (auto simp: condvar_wait_def simple_wait_def condvar_defs waiter_inside_def split: if_splits)
  ultimately show ?thesis by (simp add: event_inv_def)
next
  case False
  show ?thesis
  proof -
    have pcs: "waiter_at s i \<in> {W_Add, W_Lock, W_Returned}" using False by (cases "waiter_at s i") (auto simp: waiter_inside_def)
    obtain pc where pc: "waiter_at s' = (waiter_at s)(i := pc)" "pc \<noteq> W_Clear" "pc \<noteq> W_Sub" "pc \<noteq> W_Unlock"
      and same: "processed s' = processed s" "lost s' = lost s" "signalled s' = signalled s" "is_event_set s' = is_event_set s"
        "main_at s' = main_at s" and lock: "event_lock s' = event_lock s \<or> event_lock s = None \<and> event_lock s' = Some (Waiter i)"
      using w pcs by (elim disjE insertE emptyE)
        (auto simp: condvar_wait_def simple_wait_def condvar_defs split: if_splits)
    have not_i: "event_lock s \<noteq> Some (Waiter i)" using m False unfolding mutex_inv_def by blast
    have "taking s' = taking s"
      using lock
    proof (elim disjE conjE)
      assume "event_lock s' = event_lock s"
      with not_i show ?thesis unfolding taking_def pc(1) by (metis fun_upd_other)
    next
      assume "event_lock s = None" "event_lock s' = Some (Waiter i)"
      then show ?thesis using pc by (simp add: taking_def)
    qed
    moreover have "waiter_at s' j = W_Clear \<Longrightarrow> waiter_at s j = W_Clear" for j using pc by (auto split: if_splits)
    ultimately show ?thesis using e same unfolding event_inv_def by auto
  qed
qed

lemma signal_keeps_event:
  assumes m: "mutex_inv s" and e: "event_inv s" and w: "condvar_signal s = Some s' \<or> simple_signal s = Some s'"
  shows "event_inv s'"
proof -
  have outside: "event_lock s = Some Main \<Longrightarrow> \<forall>i. waiter_at s i \<noteq> W_Clear"
    using mutex_inv_others(4) [OF m] by (auto simp: waiter_inside_def)
  have main: "main_inside (main_at s) \<Longrightarrow> event_lock s = Some Main" by (rule mutex_inv_others(3) [OF m])
  show ?thesis
  proof (cases "main_inside (main_at s)")
    case True
    then have l: "event_lock s = Some Main" "\<forall>i. waiter_at s i \<noteq> W_Clear" "\<not> taking s"
      using main outside taking_cases(2) by auto
    then show ?thesis
      using w e True
      by (elim disjE; cases "main_at s")
        (auto simp: condvar_signal_def simple_signal_def condvar_defs event_inv_def taking_def main_inside_def split: if_splits)
  next
    case False
    have "taking s' = taking s"
      using w False by (elim disjE; cases "main_at s")
        (auto simp: condvar_signal_def simple_signal_def condvar_defs taking_def main_inside_def split: if_splits)
    then show ?thesis
      using w e False
      by (elim disjE; cases "main_at s")
        (auto simp: condvar_signal_def simple_signal_def condvar_defs event_inv_def main_inside_def split: if_splits)
  qed
qed

section \<open>What the simple one promises\<close>

definition simple_inv :: "condvar \<Rightarrow> bool" where
  "simple_inv s \<longleftrightarrow> mutex_inv s \<and> event_inv s"

lemma condvar_create_inv: "first = W_Add \<or> first = W_Lock \<Longrightarrow> simple_inv (condvar_create first)"
  by (auto simp: simple_inv_def mutex_inv_def event_inv_def condvar_create_def waiter_inside_def main_inside_def taking_def)

interpretation simple_program: invariant_system "\<lambda>s. s = condvar_create W_Lock" "simple_step n" simple_inv for n
proof unfold_locales
  show "s = condvar_create W_Lock \<Longrightarrow> simple_inv s" for s using condvar_create_inv by blast
  show "simple_inv s \<Longrightarrow> simple_step n s s' \<Longrightarrow> simple_inv s'" for s s'
    unfolding simple_inv_def program_step_def
    using wait_keeps_mutex wait_keeps_event signal_keeps_mutex signal_keeps_event by blast
qed

text \<open>Between two signals each event has been processed by one waiter or is lost.\<close>

theorem simple_signal_wakes_at_most_one:
  assumes "reachable (\<lambda>s. s = condvar_create W_Lock) (simple_step n) s" "main_at s = M_Getchar"
  shows "processed s + lost s = signalled s"
proof -
  have "mutex_inv s" "event_inv s" using simple_program.reachable_has_inv [OF assms(1)] by (simp_all add: simple_inv_def)
  moreover from this have "event_lock s = Some Main" using assms(2) by (intro mutex_inv_others(3)) (simp_all add: main_inside_def)
  ultimately show ?thesis using assms(2) taking_cases(2) by (auto simp: event_inv_def)
qed

section \<open>What the counting one promises\<close>

definition counted :: "wait_pc \<Rightarrow> bool" where
  "counted pc \<longleftrightarrow> pc \<in> {W_Lock, W_Test, W_Clear, W_Sub, W_Unlock_Again}"

definition ready :: "wait_pc \<Rightarrow> bool" where
  "ready pc \<longleftrightarrow> pc \<in> {W_Lock, W_Test, W_Clear, W_Unlock_Again}"

definition count_inv :: "nat \<Rightarrow> condvar \<Rightarrow> bool" where
  "count_inv n s \<longleftrightarrow> (main_at s = M_Lock \<or> main_at s = M_Clear \<longrightarrow> \<not> is_event_set s) \<and> lost s = 0
     \<and> wait_count s = (\<Sum>i < n. if counted (waiter_at s i) then 1 else 0)
     \<and> (main_at s = M_Set \<or> main_at s = M_Unlock \<or> is_event_set s \<longrightarrow> (\<exists>i < n. ready (waiter_at s i)))
     \<and> (\<forall>i. n \<le> i \<longrightarrow> waiter_at s i = W_Add)"

lemma sum_counted_upd:
  fixes n i :: nat
  assumes "i < n"
  shows "(\<Sum>j < n. if counted ((f(i := pc)) j) then 1 else 0 :: int)
    = (\<Sum>j < n. if counted (f j) then 1 else 0) - (if counted (f i) then 1 else 0) + (if counted pc then 1 else 0)"
  using sum_fun_upd [OF assms, of "\<lambda>p. if counted p then 1 else 0" f pc] .

lemma sum_counted_pos: 
  assumes "(\<Sum>j < (n :: nat). if counted (f j) then 1 else 0 :: int) \<noteq> 0"
  shows "\<exists>i < n. counted (f i)"
proof (rule ccontr)
  assume "\<not> (\<exists>i < n. counted (f i))"
  then have "(\<Sum>j < n. if counted (f j) then 1 else 0 :: int) = 0" by (intro sum.neutral) auto
  with assms show False by simp
qed

lemma condvar_wait_effect:
  assumes "condvar_wait i s = Some s'"
  shows "\<exists>pc. waiter_at s' = (waiter_at s)(i := pc) \<and> main_at s' = main_at s \<and> lost s' = lost s
    \<and> wait_count s' = wait_count s - (if counted (waiter_at s i) then 1 else 0) + (if counted pc then 1 else 0)
    \<and> (is_event_set s' \<longrightarrow> is_event_set s)
    \<and> (ready (waiter_at s i) \<longrightarrow> ready pc \<or> waiter_at s i = W_Clear \<and> \<not> is_event_set s')"
  using assms
  by (intro exI [of _ "waiter_at s' i"]; cases "waiter_at s i")
    (auto simp: condvar_wait_def condvar_defs counted_def ready_def split: if_splits)

lemma wait_keeps_count:
  assumes m: "mutex_inv s" and c: "count_inv n s" and i: "i < n" and w: "condvar_wait i s = Some s'"
  shows "count_inv n s'"
proof -
  obtain pc where pc: "waiter_at s' = (waiter_at s)(i := pc)" "main_at s' = main_at s" "lost s' = lost s"
    "wait_count s' = wait_count s - (if counted (waiter_at s i) then 1 else 0) + (if counted pc then 1 else 0)"
    "is_event_set s' \<longrightarrow> is_event_set s" "ready (waiter_at s i) \<longrightarrow> ready pc \<or> waiter_at s i = W_Clear \<and> \<not> is_event_set s'"
    using condvar_wait_effect [OF w] by blast
  have inside: "main_inside (main_at s) \<Longrightarrow> waiter_at s i \<noteq> W_Clear"
    using m mutex_inv_others(3,4) [OF m] by (auto simp: waiter_inside_def)
  have "\<exists>j < n. ready (waiter_at s' j)" if "main_at s' = M_Set \<or> main_at s' = M_Unlock \<or> is_event_set s'"
  proof -
    have "main_at s = M_Set \<or> main_at s = M_Unlock \<or> is_event_set s" using that pc(2,5) by auto
    then obtain j where j: "j < n" "ready (waiter_at s j)" using c unfolding count_inv_def by blast
    show ?thesis
    proof (cases "j = i")
      case True
      have "\<not> (waiter_at s i = W_Clear \<and> \<not> is_event_set s')"
        using that pc(2) inside by (auto simp: main_inside_def)
      then have "ready pc" using pc(6) j(2) True by blast
      then show ?thesis using i pc(1) by auto
    qed (use j pc(1) in auto)
  qed
  moreover have "wait_count s' = (\<Sum>i < n. if counted (waiter_at s' i) then 1 else 0)"
    using c pc(1,4) sum_counted_upd [OF i, of "waiter_at s" pc] by (simp add: count_inv_def del: fun_upd_apply)
  ultimately show ?thesis
    using c pc(1-3,5) i unfolding count_inv_def by auto
qed

lemma signal_keeps_count:
  assumes m: "mutex_inv s" and c: "count_inv n s" and w: "condvar_signal s = Some s'"
  shows "count_inv n s'"
proof (cases "main_at s")
  case M_Count
  then have lock: "event_lock s = Some Main" by (intro mutex_inv_others(3) [OF m]) (simp add: main_inside_def)
  have "\<exists>i < n. ready (waiter_at s i)" if nz: "wait_count s \<noteq> 0"
  proof -
    obtain i where i: "i < n" "counted (waiter_at s i)"
      using c nz sum_counted_pos [of "waiter_at s" n] unfolding count_inv_def by auto
    have "\<not> waiter_inside (waiter_at s i)" using lock by (intro mutex_inv_others(4) [OF m]) simp
    with i(2) have "ready (waiter_at s i)" by (auto simp: counted_def ready_def waiter_inside_def)
    with i(1) show ?thesis by blast
  qed
  then show ?thesis
    using w c M_Count by (cases "wait_count s = 0") (auto simp: condvar_signal_def condvar_defs count_inv_def)
qed (use w c in \<open>auto simp: condvar_signal_def condvar_defs count_inv_def split: if_splits\<close>)

definition counted_inv :: "nat \<Rightarrow> condvar \<Rightarrow> bool" where
  "counted_inv n s \<longleftrightarrow> simple_inv s \<and> count_inv n s"

interpretation counted_program: invariant_system "\<lambda>s. s = condvar_create W_Add" "counted_step n" "counted_inv n" for n
proof unfold_locales
  have "count_inv n (condvar_create W_Add)" by (simp add: count_inv_def condvar_create_def counted_def)
  then show "s = condvar_create W_Add \<Longrightarrow> counted_inv n s" for s using condvar_create_inv by (simp add: counted_inv_def)
  show "counted_inv n s \<Longrightarrow> counted_step n s s' \<Longrightarrow> counted_inv n s'" for s s'
    unfolding counted_inv_def simple_inv_def program_step_def
    using wait_keeps_mutex wait_keeps_event signal_keeps_mutex signal_keeps_event wait_keeps_count signal_keeps_count by blast
qed

text \<open>C35: With the condition variable that counts its waiters no event is lost and none is processed twice: whenever main is between two signals, as many events have been processed as were signalled, and wait_count is the number of threads that are waiting.\<close>

theorem signal_wakes_exactly_one:
  assumes "reachable (\<lambda>s. s = condvar_create W_Add) (counted_step n) s" "main_at s = M_Getchar"
  shows "processed s = signalled s \<and> wait_count s = int (card {i. i < n \<and> waiter_at s i = W_Lock})"
proof -
  have inv: "mutex_inv s" "event_inv s" "count_inv n s"
    using counted_program.reachable_has_inv [OF assms(1)] by (simp_all add: counted_inv_def simple_inv_def)
  then have l: "event_lock s = Some Main" using assms(2) by (intro mutex_inv_others(3)) (simp_all add: main_inside_def)
  have "waiter_at s i = W_Lock \<longleftrightarrow> counted (waiter_at s i)" for i
    using mutex_inv_others(4) [OF inv(1), of i] l by (auto simp: counted_def waiter_inside_def)
  then have "wait_count s = int (card {i. i < n \<and> waiter_at s i = W_Lock})"
    using inv(3) by (simp add: count_inv_def sum.If_cases lessThan_def Collect_conj_eq)
  moreover have "processed s = signalled s"
    using inv(2,3) assms(2) l taking_cases(2) by (auto simp: event_inv_def count_inv_def)
  ultimately show ?thesis by blast
qed

lemma wait_step: "i < n \<Longrightarrow> condvar_wait i s = Some s' \<Longrightarrow> (counted_step n)\<^sup>*\<^sup>* s s'"
  by (rule r_into_rtranclp) (auto simp: program_step_def)

lemma signal_step: "condvar_signal s = Some s' \<Longrightarrow> (counted_step n)\<^sup>*\<^sup>* s s'"
  by (rule r_into_rtranclp) (auto simp: program_step_def)

text \<open>The thread that holds the mutex gives it back; from the test on it takes the event if there is one.\<close>

lemma holder_leaves:
  assumes i: "i < n" and pc: "waiter_inside (waiter_at s i)"
  shows "\<exists>s'. (counted_step n)\<^sup>*\<^sup>* s s' \<and> event_lock s' = None \<and> main_at s' = main_at s
    \<and> (is_event_set s' \<longrightarrow> is_event_set s \<and> waiter_at s i \<noteq> W_Test \<and> waiter_at s i \<noteq> W_Clear)"
proof -
  have unlock: "\<exists>s'. (counted_step n)\<^sup>*\<^sup>* s s' \<and> event_lock s' = None \<and> main_at s' = main_at s \<and> is_event_set s' = is_event_set s"
    if w: "waiter_at s i = W_Unlock \<or> waiter_at s i = W_Unlock_Again" for s
  proof -
    obtain s' where s': "condvar_wait i s = Some s'" "event_lock s' = None" "main_at s' = main_at s" "is_event_set s' = is_event_set s"
      using w by (elim disjE) (simp_all add: condvar_wait_def condvar_defs)
    from wait_step [OF i s'(1)] s'(2-4) show ?thesis by blast
  qed
  have sub: "\<exists>s'. (counted_step n)\<^sup>*\<^sup>* s s' \<and> event_lock s' = None \<and> main_at s' = main_at s \<and> is_event_set s' = is_event_set s"
    if w: "waiter_at s i = W_Sub" for s
  proof -
    obtain s1 where 1: "condvar_wait i s = Some s1" "waiter_at s1 i = W_Unlock" "main_at s1 = main_at s" "is_event_set s1 = is_event_set s"
      using w by (auto simp: condvar_wait_def condvar_defs)
    from unlock [of s1] 1(2-4) wait_step [OF i 1(1)] show ?thesis by (metis rtranclp_trans)
  qed
  have clear: "\<exists>s'. (counted_step n)\<^sup>*\<^sup>* s s' \<and> event_lock s' = None \<and> main_at s' = main_at s \<and> \<not> is_event_set s'"
    if w: "waiter_at s i = W_Clear" for s
  proof -
    obtain s1 where 1: "condvar_wait i s = Some s1" "waiter_at s1 i = W_Sub" "main_at s1 = main_at s" "\<not> is_event_set s1"
      using w by (auto simp: condvar_wait_def condvar_defs)
    from sub [of s1] 1(2-4) wait_step [OF i 1(1)] show ?thesis by (metis rtranclp_trans)
  qed
  have test: "\<exists>s'. (counted_step n)\<^sup>*\<^sup>* s s' \<and> event_lock s' = None \<and> main_at s' = main_at s \<and> \<not> is_event_set s'"
    if w: "waiter_at s i = W_Test" for s
  proof -
    obtain s1 where 1: "condvar_wait i s = Some s1" "waiter_at s1 i = (if is_event_set s then W_Clear else W_Unlock_Again)"
      "main_at s1 = main_at s" "is_event_set s1 = is_event_set s"
      using w by (auto simp: condvar_wait_def condvar_defs)
    have "\<exists>s'. (counted_step n)\<^sup>*\<^sup>* s1 s' \<and> event_lock s' = None \<and> main_at s' = main_at s1 \<and> \<not> is_event_set s'"
      using clear [of s1] unlock [of s1] 1(2,4) by (cases "is_event_set s") auto
    with 1(3) wait_step [OF i 1(1)] show ?thesis by (metis rtranclp_trans)
  qed
  show ?thesis
    using pc unlock [of s] sub [of s] clear [of s] test [of s] by (auto simp: waiter_inside_def)
qed

lemma steps_keep: "(counted_step n)\<^sup>*\<^sup>* s s' \<Longrightarrow> counted_inv n s \<Longrightarrow> counted_inv n s'"
  by (rule counted_program.steps_keep_inv)

definition can_finish :: "nat \<Rightarrow> condvar \<Rightarrow> bool" where
  "can_finish n s \<longleftrightarrow> (\<exists>s'. (counted_step n)\<^sup>*\<^sup>* s s' \<and> main_at s' = M_Getchar)"

lemma can_finish_after: "(counted_step n)\<^sup>*\<^sup>* s s' \<Longrightarrow> can_finish n s' \<Longrightarrow> can_finish n s"
  unfolding can_finish_def by (metis rtranclp_trans)

lemma free_mutex:
  assumes inv: "counted_inv n s" and main: "main_at s = M_Spin \<or> main_at s = M_Lock"
  shows "\<exists>s'. (counted_step n)\<^sup>*\<^sup>* s s' \<and> event_lock s' = None \<and> main_at s' = main_at s \<and> (is_event_set s' \<longrightarrow> is_event_set s)"
proof (cases "event_lock s")
  case None
  then show ?thesis by blast
next
  case (Some a)
  have m: "mutex_inv s" "count_inv n s" using inv by (simp_all add: counted_inv_def simple_inv_def)
  have "a \<noteq> Main" using Some m(1) main by (auto simp: mutex_inv_def main_inside_def)
  then obtain i where a: "a = Waiter i" by (cases a) auto
  then have i: "waiter_inside (waiter_at s i)" using Some m(1) by (auto simp: mutex_inv_def)
  have "i < n"
  proof (rule ccontr)
    assume "\<not> i < n"
    then have "waiter_at s i = W_Add" using m(2) by (simp add: count_inv_def)
    then show False using i by (simp add: waiter_inside_def)
  qed
  from holder_leaves [OF this i] show ?thesis by blast
qed

lemma main_takes_mutex:
  assumes "main_at s = M_Lock" "event_lock s = None"
  shows "can_finish n s"
proof -
  obtain s1 where 1: "condvar_signal s = Some s1" "main_at s1 = M_Clear"
    using assms by (simp add: condvar_signal_def condvar_defs)
  obtain s2 where 2: "condvar_signal s1 = Some s2" "main_at s2 = M_Getchar"
    using 1(2) by (simp add: condvar_signal_def condvar_defs)
  from signal_step [OF 2(1)] 2(2) have "can_finish n s1" unfolding can_finish_def by blast
  then show ?thesis by (rule can_finish_after [OF signal_step [OF 1(1)]])
qed

lemma spin_ends:
  assumes inv: "counted_inv n s" and main: "main_at s = M_Spin" and lock: "event_lock s = None"
  shows "can_finish n s"
proof -
  have unset: "can_finish n u" if u: "main_at u = M_Spin" "event_lock u = None" "\<not> is_event_set u" for u
  proof -
    obtain u' where u': "condvar_signal u = Some u'" "main_at u' = M_Lock" "event_lock u' = None"
      using u by (simp add: condvar_signal_def condvar_defs)
    show ?thesis by (rule can_finish_after [OF signal_step [OF u'(1)] main_takes_mutex [OF u'(2,3)]])
  qed
  show ?thesis
  proof (cases "is_event_set s")
    case True
    obtain i where i: "i < n" "ready (waiter_at s i)"
      using inv True unfolding counted_inv_def count_inv_def by blast
    have "\<not> waiter_inside (waiter_at s i)"
      using inv lock by (intro mutex_inv_others(4)) (simp_all add: counted_inv_def simple_inv_def)
    then have "waiter_at s i = W_Lock" using i(2) by (auto simp: ready_def waiter_inside_def)
    then obtain s1 where 1: "condvar_wait i s = Some s1" "waiter_at s1 i = W_Test" "main_at s1 = M_Spin"
      using lock main by (simp add: condvar_wait_def condvar_defs)
    obtain s2 where 2: "(counted_step n)\<^sup>*\<^sup>* s1 s2" "event_lock s2 = None" "main_at s2 = M_Spin" "\<not> is_event_set s2"
      using holder_leaves [OF i(1), of s1] 1(2,3) by (auto simp: waiter_inside_def)
    show ?thesis
      by (rule can_finish_after [OF wait_step [OF i(1) 1(1)]], rule can_finish_after [OF 2(1)], rule unset [OF 2(3,2,4)])
  qed (use unset main lock in blast)
qed

text \<open>C36: A signal can always be brought to its end: from every state that the program with the counting condition variable can reach, steps of the threads and of main lead to main having returned from condvar_signal; the loop on the flag is never without a waiter that can take the event.\<close>

theorem signal_can_return:
  assumes "reachable (\<lambda>s. s = condvar_create W_Add) (counted_step n) s"
  shows "\<exists>s'. (counted_step n)\<^sup>*\<^sup>* s s' \<and> main_at s' = M_Getchar"
proof -
  have inv: "counted_inv n s" by (rule counted_program.reachable_has_inv [OF assms])
  have spin: "can_finish n u" if u: "counted_inv n u" "main_at u = M_Spin" for u
  proof -
    obtain u' where u': "(counted_step n)\<^sup>*\<^sup>* u u'" "event_lock u' = None" "main_at u' = M_Spin"
      using free_mutex [OF u(1)] u(2) by auto
    show ?thesis by (rule can_finish_after [OF u'(1) spin_ends [OF steps_keep [OF u'(1) u(1)] u'(3,2)]])
  qed
  have step: "can_finish n u" if "condvar_signal u = Some u'" "can_finish n u'" for u u'
    by (rule can_finish_after [OF signal_step [OF that(1)] that(2)])
  have keep: "counted_inv n u'" if "condvar_signal u = Some u'" "counted_inv n u" for u u'
    by (rule steps_keep [OF signal_step [OF that(1)] that(2)])
  have unlock: "can_finish n u" if u: "counted_inv n u" "main_at u = M_Unlock" for u
  proof -
    obtain u' where u': "condvar_signal u = Some u'" "main_at u' = M_Spin" using u(2) by (simp add: condvar_signal_def condvar_defs)
    show ?thesis by (rule step [OF u'(1) spin [OF keep [OF u'(1) u(1)] u'(2)]])
  qed
  have set: "can_finish n u" if u: "counted_inv n u" "main_at u = M_Set" for u
  proof -
    obtain u' where u': "condvar_signal u = Some u'" "main_at u' = M_Unlock" using u(2) by (simp add: condvar_signal_def condvar_defs)
    show ?thesis by (rule step [OF u'(1) unlock [OF keep [OF u'(1) u(1)] u'(2)]])
  qed
  have "can_finish n s"
  proof (cases "main_at s")
    case M_Getchar
    then show ?thesis by (auto simp: can_finish_def)
  next
    case M_Count
    then obtain s1 where 1: "condvar_signal s = Some s1" "main_at s1 = M_Getchar \<or> main_at s1 = M_Set"
      by (simp add: condvar_signal_def condvar_defs)
    then have "can_finish n s1" using set [OF keep [OF 1(1) inv]] by (auto simp: can_finish_def)
    with 1(1) show ?thesis by (rule step)
  next
    case M_Lock
    obtain s1 where 1: "(counted_step n)\<^sup>*\<^sup>* s s1" "event_lock s1 = None" "main_at s1 = M_Lock"
      using free_mutex [OF inv] M_Lock by auto
    show ?thesis by (rule can_finish_after [OF 1(1) main_takes_mutex [OF 1(3,2)]])
  next
    case M_Clear
    then obtain s1 where 1: "condvar_signal s = Some s1" "main_at s1 = M_Getchar"
      by (simp add: condvar_signal_def condvar_defs)
    then have "can_finish n s1" by (auto simp: can_finish_def)
    with 1(1) show ?thesis by (rule step)
  qed (use set unlock spin inv in blast)+
  then show ?thesis by (simp add: can_finish_def)
qed

section \<open>A run\<close>

text \<open>Steps of main (None) and of the threads, and a run in which the first of two threads gets an event.\<close>

fun run_program :: "nat option list \<Rightarrow> condvar \<Rightarrow> condvar option" where
  "run_program [] s = Some s"
| "run_program (a # as) s = do { s \<leftarrow> (case a of None \<Rightarrow> condvar_signal s | Some i \<Rightarrow> condvar_wait i s); run_program as s }"

lemma run_program_reachable:
  assumes "run_program as s = Some s'" "list_all (\<lambda>a. case a of None \<Rightarrow> True | Some i \<Rightarrow> i < n) as"
    "reachable start (counted_step n) s"
  shows "reachable start (counted_step n) s'"
  using assms
proof (induction as arbitrary: s)
  case (Cons a as)
  then obtain u where u: "(case a of None \<Rightarrow> condvar_signal s | Some i \<Rightarrow> condvar_wait i s) = Some u" "run_program as u = Some s'"
    by (auto split: bind_splits)
  then have "counted_step n s u" using Cons.prems(2) by (auto simp: program_step_def split: option.splits)
  then have "reachable start (counted_step n) u" by (rule reach_step [OF Cons.prems(3)])
  then show ?case using Cons.IH [OF u(2)] Cons.prems(2) by simp
qed simp

definition spinning :: "nat option list" where
  "spinning = [Some 0, None, None, None, None]"

definition one_event :: "nat option list" where
  "one_event = spinning @ [Some 0, Some 0, Some 0, Some 0, Some 0, None, None, None]"

lemma run_spinning: "\<exists>s. run_program spinning (condvar_create W_Add) = Some s \<and> main_at s = M_Spin"
  by (simp add: spinning_def condvar_create_def condvar_wait_def condvar_signal_def condvar_defs)

lemma run_one_event: "\<exists>s. run_program one_event (condvar_create W_Add) = Some s \<and> main_at s = M_Getchar \<and> signalled s = 1"
  by (simp add: one_event_def spinning_def condvar_create_def condvar_wait_def condvar_signal_def condvar_defs)

theorem signal_wakes_exactly_one_witness:
  "\<exists>s. reachable (\<lambda>s. s = condvar_create W_Add) (counted_step 2) s \<and> main_at s = M_Getchar \<and> processed s = 1"
proof -
  obtain s where s: "run_program one_event (condvar_create W_Add) = Some s" "main_at s = M_Getchar" "signalled s = 1"
    using run_one_event by blast
  have "reachable (\<lambda>s. s = condvar_create W_Add) (counted_step 2) s"
    by (rule run_program_reachable [OF s(1)]) (simp_all add: one_event_def spinning_def reach_start)
  with signal_wakes_exactly_one [OF this s(2)] s(2,3) show ?thesis by auto
qed

theorem signal_can_return_witness:
  "\<exists>s s'. reachable (\<lambda>s. s = condvar_create W_Add) (counted_step 2) s \<and> main_at s = M_Spin
    \<and> (counted_step 2)\<^sup>*\<^sup>* s s' \<and> main_at s' = M_Getchar"
proof -
  obtain s where s: "run_program spinning (condvar_create W_Add) = Some s" "main_at s = M_Spin"
    using run_spinning by blast
  have "reachable (\<lambda>s. s = condvar_create W_Add) (counted_step 2) s"
    by (rule run_program_reachable [OF s(1)]) (simp_all add: spinning_def reach_start)
  with signal_can_return [OF this] s(2) show ?thesis by blast
qed

end
