(* ===== verification/Semaphore.thy ===== *)
theory Semaphore
  imports Prelude
begin

text \<open>
  The semaphore of lecture_examples/7_ipc/10_sem_mutex.h, a counter with a mutex and a condition
  variable. n threads, numbered from 0, call semaphore_get and semaphore_put in any order. pthread_cond_wait gives the
  mutex back and sleeps in one step, and takes the mutex again before it returns; a thread can also wake with no
  signal. pthread_cond_signal wakes one sleeping thread, if there is one. A counter that does not fit an int is
  undefined behaviour and no step.
\<close>

section \<open>The code\<close>

text \<open>
  Where a thread is: outside, before the lock, before the test, asleep, woken and before it has the
  mutex again, before the subtraction, before the unlock; and the same for semaphore_put.
\<close>

datatype sem_pc = Outside | Get_Lock | Get_Test | Sleeping | Woken | Get_Dec | Get_Unlock
  | Put_Lock | Put_Inc | Put_Signal | Put_Unlock

record semaphore =
  counter :: int
  owner :: "nat option"
  at :: "nat \<Rightarrow> sem_pc"
  got :: int
  given :: int

definition sem_goto :: "nat \<Rightarrow> sem_pc \<Rightarrow> semaphore \<Rightarrow> semaphore" where
  "sem_goto i pc s = s\<lparr>at := (at s)(i := pc)\<rparr>"

definition lock :: "nat \<Rightarrow> semaphore \<Rightarrow> semaphore option" where
  "lock i s = (if owner s = None then Some (s\<lparr>owner := Some i\<rparr>) else None)"

definition unlock :: "semaphore \<Rightarrow> semaphore" where
  "unlock s = s\<lparr>owner := None\<rparr>"

definition semaphore_get :: "nat \<Rightarrow> semaphore \<Rightarrow> semaphore option" where
  "semaphore_get i s = (case at s i of
     Outside \<Rightarrow> Some (sem_goto i Get_Lock s)
   | Get_Lock \<Rightarrow> map_option (sem_goto i Get_Test) (lock i s)
   | Get_Test \<Rightarrow> Some (if counter s = 0 then sem_goto i Sleeping (unlock s) else sem_goto i Get_Dec s)
   | Sleeping \<Rightarrow> Some (sem_goto i Woken s)
   | Woken \<Rightarrow> map_option (sem_goto i Get_Test) (lock i s)
   | Get_Dec \<Rightarrow> do { c \<leftarrow> c_int (counter s - 1); Some (sem_goto i Get_Unlock (s\<lparr>counter := c, got := got s + 1\<rparr>)) }
   | Get_Unlock \<Rightarrow> Some (sem_goto i Outside (unlock s))
   | _ \<Rightarrow> None)"

text \<open>j is the thread that the signal wakes; it must be asleep, and there is no other step while one is.\<close>

definition semaphore_put :: "nat \<Rightarrow> nat \<Rightarrow> nat \<Rightarrow> semaphore \<Rightarrow> semaphore option" where
  "semaphore_put n i j s = (case at s i of
     Outside \<Rightarrow> Some (sem_goto i Put_Lock s)
   | Put_Lock \<Rightarrow> map_option (sem_goto i Put_Inc) (lock i s)
   | Put_Inc \<Rightarrow> do { c \<leftarrow> c_int (counter s + 1); Some (sem_goto i Put_Signal (s\<lparr>counter := c, given := given s + 1\<rparr>)) }
   | Put_Signal \<Rightarrow>
       if j < n \<and> at s j = Sleeping then Some (sem_goto i Put_Unlock (sem_goto j Woken s))
       else if \<exists>j < n. at s j = Sleeping then None
       else Some (sem_goto i Put_Unlock s)
   | Put_Unlock \<Rightarrow> Some (sem_goto i Outside (unlock s))
   | _ \<Rightarrow> None)"

definition semaphore_init :: "int \<Rightarrow> semaphore" where
  "semaphore_init c = \<lparr>counter = c, owner = None, at = \<lambda>_. Outside, got = 0, given = 0\<rparr>"

definition semaphore_step :: "nat \<Rightarrow> semaphore \<Rightarrow> semaphore \<Rightarrow> bool" where
  "semaphore_step n s s' \<longleftrightarrow> (\<exists>i < n. semaphore_get i s = Some s' \<or> (\<exists>j < n. semaphore_put n i j s = Some s'))"

section \<open>The invariant\<close>

definition inside :: "sem_pc \<Rightarrow> bool" where
  "inside pc \<longleftrightarrow> pc \<in> {Get_Test, Get_Dec, Get_Unlock, Put_Inc, Put_Signal, Put_Unlock}"

text \<open>A thread that will take from the counter or wake another one before it sleeps or leaves.\<close>

definition on_the_way :: "sem_pc \<Rightarrow> int" where
  "on_the_way pc = (if pc \<in> {Woken, Get_Test, Get_Dec, Put_Signal} then 1 else 0)"

definition sem_safe :: "int \<Rightarrow> semaphore \<Rightarrow> bool" where
  "sem_safe c s \<longleftrightarrow> (\<forall>i. inside (at s i) \<longleftrightarrow> owner s = Some i)
     \<and> 0 \<le> counter s \<and> counter s = c + given s - got s \<and> (\<forall>i. at s i = Get_Dec \<longrightarrow> 0 < counter s)"

definition sem_wakes :: "nat \<Rightarrow> semaphore \<Rightarrow> bool" where
  "sem_wakes n s \<longleftrightarrow> ((\<exists>i < n. at s i = Sleeping) \<longrightarrow> counter s \<le> (\<Sum>i < n. on_the_way (at s i)))"

definition semaphore_inv :: "int \<Rightarrow> nat \<Rightarrow> semaphore \<Rightarrow> bool" where
  "semaphore_inv c n s \<longleftrightarrow> sem_safe c s \<and> sem_wakes n s"

text \<open>Thread i goes to pc, and takes or gives back the mutex when the two places ask for it.\<close>

definition moves :: "nat \<Rightarrow> sem_pc \<Rightarrow> semaphore \<Rightarrow> semaphore \<Rightarrow> bool" where
  "moves i pc s s' \<longleftrightarrow> at s' = (at s)(i := pc) \<and>
    (owner s' = owner s \<and> inside pc = inside (at s i) \<or>
     owner s = None \<and> owner s' = Some i \<and> \<not> inside (at s i) \<and> inside pc \<or>
     inside (at s i) \<and> \<not> inside pc \<and> owner s' = None)
    \<and> counter s' - given s' + got s' = counter s - given s + got s
    \<and> (counter s \<le> counter s' \<or> at s i = Get_Dec \<and> counter s' = counter s - 1)
    \<and> (pc = Get_Dec \<longrightarrow> counter s' \<noteq> 0)"

lemmas sem_defs = sem_goto_def lock_def unlock_def inside_def on_the_way_def

lemma on_the_way_bounds: "0 \<le> (\<Sum>i < (n :: nat). on_the_way (f i))"
  by (rule sum_nonneg) (simp add: on_the_way_def)

lemma at_goto [simp]: "at (sem_goto i pc s) = (at s)(i := pc)"
  by (simp add: sem_goto_def)

lemma sum_goto:
  "i < n \<Longrightarrow> (\<Sum>l < n. on_the_way (at (sem_goto i pc s) l)) = (\<Sum>l < n. on_the_way (at s l)) - on_the_way (at s i) + on_the_way pc"
  unfolding at_goto by (rule sum_fun_upd)

lemma moves_keeps_owner:
  assumes own: "\<forall>i. inside (at s i) \<longleftrightarrow> owner s = Some i" and m: "moves i pc s s'"
  shows "\<forall>i. inside (at s' i) \<longleftrightarrow> owner s' = Some i"
proof -
  have pc: "at s' = (at s)(i := pc)" using m by (simp add: moves_def)
  have "owner s' = owner s \<and> inside pc = inside (at s i) \<or>
     owner s = None \<and> owner s' = Some i \<and> inside pc \<or> inside (at s i) \<and> \<not> inside pc \<and> owner s' = None"
    using m unfolding moves_def by blast
  then show ?thesis
  proof (elim disjE conjE)
    assume "owner s' = owner s" "inside pc = inside (at s i)"
    then show ?thesis using own pc by simp
  next
    assume "owner s = None" "owner s' = Some i" "inside pc"
    then show ?thesis using own pc by auto
  next
    assume a: "inside (at s i)" "\<not> inside pc" "owner s' = None"
    then have "owner s = Some i" using own by blast
    then have "\<not> inside (at s j)" if "j \<noteq> i" for j using own that by simp
    then show ?thesis using a pc by simp
  qed
qed

lemma moves_keeps_safe:
  assumes safe: "sem_safe c s" and m: "moves i pc s s'"
  shows "sem_safe c s'"
proof -
  have own: "\<forall>i. inside (at s i) \<longleftrightarrow> owner s = Some i" and c: "0 \<le> counter s" "counter s = c + given s - got s"
    and dec: "\<forall>i. at s i = Get_Dec \<longrightarrow> 0 < counter s"
    using safe unfolding sem_safe_def by blast+
  have pc: "at s' = (at s)(i := pc)" and e: "counter s' - given s' + got s' = counter s - given s + got s"
    and k: "counter s \<le> counter s' \<or> at s i = Get_Dec \<and> counter s' = counter s - 1" and d: "pc = Get_Dec \<longrightarrow> counter s' \<noteq> 0"
    using m unfolding moves_def by blast+
  have c': "0 \<le> counter s'" using k c(1) dec by fastforce
  moreover have "0 < counter s'" if "at s' j = Get_Dec" for j
  proof (cases "j = i")
    case True
    then show ?thesis using that pc d c' by simp
  next
    case False
    then have j: "at s j = Get_Dec" using that pc by simp
    then have "owner s = Some j" using own by (simp add: inside_def flip: own [rule_format])
    then have "at s i \<noteq> Get_Dec" using False own by (auto simp: inside_def)
    then show ?thesis using k dec j by fastforce
  qed
  ultimately show ?thesis
    unfolding sem_safe_def using moves_keeps_owner [OF own m] e c(2) by auto
qed

lemma moves_keeps_wakes:
  assumes w: "sem_wakes n s" and m: "moves i pc s s'" and i: "i < n"
    and k: "counter s' = 0 \<or> pc \<noteq> Sleeping \<and> counter s' - on_the_way pc \<le> counter s - on_the_way (at s i)"
  shows "sem_wakes n s'"
  unfolding sem_wakes_def
proof (intro impI)
  assume sl: "\<exists>j < n. at s' j = Sleeping"
  have pc: "at s' = (at s)(i := pc)" using m by (simp add: moves_def)
  have sum: "(\<Sum>j < n. on_the_way (at s' j)) = (\<Sum>j < n. on_the_way (at s j)) - on_the_way (at s i) + on_the_way pc"
    unfolding pc by (rule sum_fun_upd [OF i])
  show "counter s' \<le> (\<Sum>j < n. on_the_way (at s' j))"
    using k
  proof (elim disjE conjE)
    assume "counter s' = 0"
    then show ?thesis using on_the_way_bounds [of "at s'" n] by simp
  next
    assume "pc \<noteq> Sleeping" and le: "counter s' - on_the_way pc \<le> counter s - on_the_way (at s i)"
    then have "\<exists>j < n. at s j = Sleeping" using sl pc by (auto split: if_splits)
    then show ?thesis using w sum le by (simp add: sem_wakes_def)
  qed
qed

section \<open>Every step keeps it\<close>

lemma semaphore_get_moves:
  assumes "semaphore_get i s = Some s'"
  shows "moves i (at s' i) s s'" (is ?moves)
    and "counter s' = 0 \<or> at s' i \<noteq> Sleeping \<and> counter s' - on_the_way (at s' i) \<le> counter s - on_the_way (at s i)" (is ?wakes)
proof -
  show ?moves
    using assms by (cases "at s i") (auto simp: semaphore_get_def moves_def sem_defs split: if_splits bind_splits)
  show ?wakes
    using assms by (cases "at s i") (auto simp: semaphore_get_def sem_defs split: if_splits bind_splits)
qed

lemma semaphore_put_moves:
  assumes "semaphore_put n i j s = Some s'" "at s i = Put_Signal \<Longrightarrow> \<not> (\<exists>j < n. at s j = Sleeping)"
  shows "moves i (at s' i) s s'" (is ?moves)
    and "at s i \<noteq> Put_Signal \<Longrightarrow> at s' i \<noteq> Sleeping \<and> counter s' - on_the_way (at s' i) \<le> counter s - on_the_way (at s i)" (is "_ \<Longrightarrow> ?wakes")
proof -
  show ?moves
    using assms by (cases "at s i") (auto simp: semaphore_put_def moves_def sem_defs split: if_splits bind_splits)
  show ?wakes if "at s i \<noteq> Put_Signal"
    using assms that by (cases "at s i") (auto simp: semaphore_put_def sem_defs split: if_splits bind_splits)
qed

lemma get_keeps_inv: "semaphore_inv c n s \<Longrightarrow> i < n \<Longrightarrow> semaphore_get i s = Some s' \<Longrightarrow> semaphore_inv c n s'"
  unfolding semaphore_inv_def
  using moves_keeps_safe moves_keeps_wakes semaphore_get_moves by blast

lemma wake_a_sleeper:
  assumes inv: "semaphore_inv c n s" and i: "i < n" "at s i = Put_Signal" and j: "j < n" "at s j = Sleeping"
  shows "semaphore_inv c n (sem_goto i Put_Unlock (sem_goto j Woken s))"
proof -
  have ij: "i \<noteq> j" using i(2) j(2) by auto
  have inv': "sem_safe c s" "sem_wakes n s" using inv by (simp_all add: semaphore_inv_def)
  let ?u = "sem_goto j Woken s"
  have u: "moves j Woken s ?u" using j(2) by (simp add: moves_def sem_defs)
  have v: "moves i Put_Unlock ?u (sem_goto i Put_Unlock ?u)" using i(2) ij by (simp add: moves_def sem_defs)
  have "(\<Sum>l < n. on_the_way (at (sem_goto i Put_Unlock ?u) l)) = (\<Sum>l < n. on_the_way (at s l))"
    using i(2) j(2) ij by (simp only: sum_goto [OF i(1)] sum_goto [OF j(1)]) (simp add: on_the_way_def sem_goto_def)
  then have "sem_wakes n (sem_goto i Put_Unlock ?u)" using inv'(2) j by (auto simp: sem_wakes_def sem_goto_def)
  then show ?thesis using moves_keeps_safe [OF moves_keeps_safe [OF inv'(1) u] v] by (simp add: semaphore_inv_def)
qed

lemma put_keeps_inv:
  assumes inv: "semaphore_inv c n s" and i: "i < n" and w: "semaphore_put n i j s = Some s'"
  shows "semaphore_inv c n s'"
proof (cases "at s i = Put_Signal")
  case False
  then show ?thesis
    using inv i semaphore_put_moves [OF w] moves_keeps_safe moves_keeps_wakes unfolding semaphore_inv_def by blast
next
  case True
  show ?thesis
  proof (cases "j < n \<and> at s j = Sleeping")
    case j: True
    then have "s' = sem_goto i Put_Unlock (sem_goto j Woken s)" using w True by (simp add: semaphore_put_def)
    then show ?thesis using wake_a_sleeper [OF inv i True] j by simp
  next
    case False
    then have no: "\<not> (\<exists>j < n. at s j = Sleeping)" and s': "s' = sem_goto i Put_Unlock s"
      using w True by (auto simp: semaphore_put_def split: if_splits)
    have "sem_wakes n s'" using no by (auto simp: s' sem_wakes_def sem_goto_def split: if_splits)
    then show ?thesis
      using inv moves_keeps_safe semaphore_put_moves(1) [OF w no] unfolding semaphore_inv_def by blast
  qed
qed

lemma semaphore_init_inv: "0 \<le> c \<Longrightarrow> semaphore_inv c n (semaphore_init c)"
  by (simp add: semaphore_inv_def sem_safe_def sem_wakes_def semaphore_init_def inside_def)

interpretation sem: invariant_system "\<lambda>s. 0 \<le> c \<and> s = semaphore_init c" "semaphore_step n" "semaphore_inv c n"
  for c n
proof
  show "semaphore_inv c n s" if "0 \<le> c \<and> s = semaphore_init c" for s using that semaphore_init_inv by blast
  show "semaphore_inv c n s'" if "semaphore_inv c n s" "semaphore_step n s s'" for s s'
    using that get_keeps_inv put_keeps_inv unfolding semaphore_step_def by blast
qed

section \<open>What it promises\<close>

text \<open>However the threads interleave, the counter is never negative and no more calls of semaphore_get take from it than its initial value and the calls of semaphore_put allow; at most one thread is between the lock and the unlock.\<close>

theorem semaphore_bound:
  assumes "reachable (\<lambda>s. 0 \<le> c \<and> s = semaphore_init c) (semaphore_step n) s"
  shows "0 \<le> counter s \<and> got s \<le> c + given s \<and> counter s = c + given s - got s
    \<and> (inside (at s i) \<and> inside (at s j) \<longrightarrow> i = j)"
proof -
  have "sem_safe c s" using sem.reachable_has_inv [OF assms] by (simp add: semaphore_inv_def)
  then show ?thesis unfolding sem_safe_def by (metis diff_ge_0_iff_ge option.inject)
qed

text \<open>C37: No wakeup of the semaphore is lost: when every thread is outside or asleep and one is asleep, the counter is 0, so a thread never sleeps on in front of a counter that another one has raised.\<close>

theorem no_lost_wakeup:
  assumes "reachable (\<lambda>s. 0 \<le> c \<and> s = semaphore_init c) (semaphore_step n) s"
    and quiet: "\<forall>i < n. at s i = Outside \<or> at s i = Sleeping" and "i < n" "at s i = Sleeping"
  shows "counter s = 0"
proof -
  have inv: "sem_safe c s" "sem_wakes n s" using sem.reachable_has_inv [OF assms(1)] by (simp_all add: semaphore_inv_def)
  have "(\<Sum>i < n. on_the_way (at s i)) = 0" using quiet by (intro sum.neutral) (auto simp: on_the_way_def)
  then have "counter s \<le> 0" using inv(2) assms(3,4) by (auto simp: sem_wakes_def)
  then show ?thesis using inv(1) by (simp add: sem_safe_def)
qed

section \<open>A run\<close>

text \<open>Steps of semaphore_get (None) and of semaphore_put with the thread that it wakes, of the thread named first.\<close>

fun run_semaphore :: "nat \<Rightarrow> (nat \<times> nat option) list \<Rightarrow> semaphore \<Rightarrow> semaphore option" where
  "run_semaphore n [] s = Some s"
| "run_semaphore n ((i, a) # as) s =
     do { s \<leftarrow> (case a of None \<Rightarrow> semaphore_get i s | Some j \<Rightarrow> semaphore_put n i j s); run_semaphore n as s }"

lemma run_semaphore_reachable:
  assumes "run_semaphore n as s = Some s'" "list_all (\<lambda>(i, a). i < n \<and> (case a of None \<Rightarrow> True | Some j \<Rightarrow> j < n)) as"
    "reachable start (semaphore_step n) s"
  shows "reachable start (semaphore_step n) s'"
  using assms
proof (induction as arbitrary: s)
  case (Cons a as)
  obtain i b where a: "a = (i, b)" by (cases a)
  then obtain u where u: "(case b of None \<Rightarrow> semaphore_get i s | Some j \<Rightarrow> semaphore_put n i j s) = Some u" "run_semaphore n as u = Some s'"
    using Cons.prems(1) by (auto split: bind_splits)
  then have "semaphore_step n s u" using Cons.prems(2) a by (auto simp: semaphore_step_def split: option.splits)
  then have "reachable start (semaphore_step n) u" by (rule reach_step [OF Cons.prems(3)])
  then show ?case using Cons.IH [OF u(2)] Cons.prems(2) by simp
qed simp

text \<open>Thread 0 sleeps on a counter of 0; thread 1 puts and wakes it, thread 0 takes; then thread 2 sleeps.\<close>

definition get_and_put :: "(nat \<times> nat option) list" where
  "get_and_put = [(0, None), (0, None), (0, None), (1, Some 0), (1, Some 0), (1, Some 0), (1, Some 0), (1, Some 0),
     (0, None), (0, None), (0, None), (0, None), (2, None), (2, None), (2, None)]"

lemma run_get_and_put:
  "\<exists>s. run_semaphore 3 get_and_put (semaphore_init 0) = Some s \<and> at s 0 = Outside \<and> at s 1 = Outside \<and> at s 2 = Sleeping
    \<and> got s = 1 \<and> given s = 1"
  by (simp add: get_and_put_def semaphore_init_def semaphore_get_def semaphore_put_def sem_defs int_ok_def)

lemma reachable_get_and_put:
  assumes "run_semaphore 3 get_and_put (semaphore_init 0) = Some s"
  shows "reachable (\<lambda>s. 0 \<le> (0 :: int) \<and> s = semaphore_init 0) (semaphore_step 3) s"
  by (rule run_semaphore_reachable [OF assms]) (simp_all add: get_and_put_def reach_start)

theorem semaphore_bound_witness:
  "\<exists>s. reachable (\<lambda>s. 0 \<le> (0 :: int) \<and> s = semaphore_init 0) (semaphore_step 3) s \<and> got s = 1 \<and> counter s = 0"
proof -
  obtain s where s: "run_semaphore 3 get_and_put (semaphore_init 0) = Some s" "got s = 1" "given s = 1"
    using run_get_and_put by blast
  with semaphore_bound [OF reachable_get_and_put [OF s(1)]] reachable_get_and_put [OF s(1)] show ?thesis by force
qed

theorem no_lost_wakeup_witness:
  "\<exists>s. reachable (\<lambda>s. 0 \<le> (0 :: int) \<and> s = semaphore_init 0) (semaphore_step 3) s \<and> at s 2 = Sleeping \<and> counter s = 0"
proof -
  obtain s where s: "run_semaphore 3 get_and_put (semaphore_init 0) = Some s" "at s 0 = Outside" "at s 1 = Outside" "at s 2 = Sleeping"
    using run_get_and_put by blast
  have "\<forall>i < 3. at s i = Outside \<or> at s i = Sleeping" using s(2-4) by (auto simp: less_Suc_eq numeral_3_eq_3 numeral_2_eq_2)
  with no_lost_wakeup [OF reachable_get_and_put [OF s(1)], of 2] reachable_get_and_put [OF s(1)] s(4) show ?thesis by auto
qed

end
