(* ===== verification/Semop.thy ===== *)
theory Semop
  imports Prelude
begin

text \<open>
  semop of System V, as semop(2) documents it, on a set of semaphores that exists: what 7_ipc/8_sem.c,
  9_sem_event_source.c and 9_sem_event_cons.c of the lecture examples call. The operations are done in their order and all or
  none of them; the programs add or take 1. What an operation with SEM_UNDO among its flags adds is taken off from the
  number that the process keeps for its end; an operation without it leaves that number alone. No program sets
  IPC_NOWAIT: the call waits when a value would be negative.
\<close>

record sembuf =
  sem_num :: int
  sem_op :: int
  sem_flg :: int

definition SEM_UNDO :: int where "SEM_UNDO = 4096"

definition has_undo :: "sembuf \<Rightarrow> bool" where
  "has_undo sop \<longleftrightarrow> odd (sem_flg sop div SEM_UNDO)"

lemma has_undo_set [simp]: "sem_flg sop = SEM_UNDO \<Longrightarrow> has_undo sop"
  by (simp add: has_undo_def SEM_UNDO_def)

datatype semop_result = Sem_Done "int list" "int list" | Sem_Blocks | Sem_Fails

text \<open>The largest value of a semaphore and of the number for the end, on Linux.\<close>

definition SEMVMX :: int where "SEMVMX = 32767"

fun perform_semop :: "sembuf list \<Rightarrow> int list \<Rightarrow> int list \<Rightarrow> semop_result" where
  "perform_semop [] vals adj = Sem_Done vals adj"
| "perform_semop (sop # sops) vals adj =
     (let k = nat (sem_num sop); v = vals ! k + sem_op sop;
          u = (if has_undo sop then adj ! k - sem_op sop else adj ! k) in
      if v < 0 then Sem_Blocks
      else if SEMVMX < v then Sem_Fails
      else if has_undo sop \<and> (u < - SEMVMX - 1 \<or> SEMVMX < u) then Sem_Fails
      else perform_semop sops (vals[k := v]) (adj[k := u]))"

text \<open>No operation at all is EINVAL, a number outside the set EFBIG.\<close>

definition semop :: "sembuf list \<Rightarrow> int list \<Rightarrow> int list \<Rightarrow> semop_result" where
  "semop sops vals adj =
     (if sops = [] \<or> (\<exists>sop \<in> set sops. sem_num sop < 0 \<or> int (length vals) \<le> sem_num sop) then Sem_Fails
      else perform_semop sops vals adj)"

text \<open>The end of a process takes back what it has done; a value that would be negative becomes 0.\<close>

definition sem_exit :: "int list \<Rightarrow> int list \<Rightarrow> int list" where
  "sem_exit adj vals = map2 (\<lambda>v u. min SEMVMX (max 0 (v + u))) vals adj"

section \<open>What a call does\<close>

definition net_change :: "sembuf list \<Rightarrow> int \<Rightarrow> int" where
  "net_change sops k = sum_list (map sem_op (filter (\<lambda>sop. sem_num sop = k) sops))"

lemma net_change_simps [simp]:
  "net_change [] k = 0"
  "net_change (sop # sops) k = (if sem_num sop = k then sem_op sop else 0) + net_change sops k"
  "net_change (sops @ sops') k = net_change sops k + net_change sops' k"
  by (simp_all add: net_change_def)

lemma perform_semop_length:
  "perform_semop sops vals adj = Sem_Done vals' adj' \<Longrightarrow> length vals' = length vals \<and> length adj' = length adj"
  by (induction sops vals adj rule: perform_semop.induct) (auto simp: Let_def split: if_splits)

lemma perform_semop_step:
  assumes "perform_semop (sop # sops) vals adj = Sem_Done vals' adj'"
  obtains u where "perform_semop sops (vals[nat (sem_num sop) := vals ! nat (sem_num sop) + sem_op sop]) (adj[nat (sem_num sop) := u]) = Sem_Done vals' adj'"
    "u = (if has_undo sop then adj ! nat (sem_num sop) - sem_op sop else adj ! nat (sem_num sop))"
    "0 \<le> vals ! nat (sem_num sop) + sem_op sop" "vals ! nat (sem_num sop) + sem_op sop \<le> SEMVMX"
  using assms by (auto simp: Let_def split: if_splits)

lemma perform_semop_value:
  assumes "perform_semop sops vals adj = Sem_Done vals' adj'" "k < length vals" "length adj = length vals"
    "\<forall>sop \<in> set sops. 0 \<le> sem_num sop \<and> sem_num sop < int (length vals)"
  shows "vals' ! k = vals ! k + net_change sops (int k) \<and> adj' ! k = adj ! k - net_change (filter has_undo sops) (int k)"
  using assms
proof (induction sops arbitrary: vals adj)
  case (Cons sop sops)
  let ?k = "nat (sem_num sop)"
  obtain u where rest: "perform_semop sops (vals[?k := vals ! ?k + sem_op sop]) (adj[?k := u]) = Sem_Done vals' adj'"
    and u: "u = (if has_undo sop then adj ! ?k - sem_op sop else adj ! ?k)"
    using perform_semop_step [OF Cons.prems(1)] by metis
  have num: "0 \<le> sem_num sop" "sem_num sop < int (length vals)" using Cons.prems(4) by auto
  have "vals' ! k = vals[?k := vals ! ?k + sem_op sop] ! k + net_change sops (int k)
      \<and> adj' ! k = adj[?k := u] ! k - net_change (filter has_undo sops) (int k)"
    using Cons.IH [OF rest] Cons.prems(2-4) by simp
  moreover have "?k = k \<longleftrightarrow> sem_num sop = int k" using num by auto
  ultimately show ?case using Cons.prems(2,3) u by (auto simp: nth_list_update)
qed simp

lemma perform_semop_bounds:
  assumes "perform_semop sops vals adj = Sem_Done vals' adj'" "\<forall>v \<in> set vals. 0 \<le> v \<and> v \<le> SEMVMX"
  shows "\<forall>v \<in> set vals'. 0 \<le> v \<and> v \<le> SEMVMX"
  using assms
proof (induction sops arbitrary: vals adj)
  case (Cons sop sops)
  let ?k = "nat (sem_num sop)"
  obtain u where rest: "perform_semop sops (vals[?k := vals ! ?k + sem_op sop]) (adj[?k := u]) = Sem_Done vals' adj'"
    and ok: "0 \<le> vals ! ?k + sem_op sop" "vals ! ?k + sem_op sop \<le> SEMVMX"
    using perform_semop_step [OF Cons.prems(1)] by metis
  have "\<forall>v \<in> set (vals[?k := vals ! ?k + sem_op sop]). 0 \<le> v \<and> v \<le> SEMVMX"
    using Cons.prems(2) ok by (auto dest!: subsetD [OF set_update_subset_insert])
  then show ?case by (rule Cons.IH [OF rest])
qed simp

lemma semop_value:
  assumes "semop sops vals adj = Sem_Done vals' adj'" "length adj = length vals" "k < length vals"
  shows "vals' ! k = vals ! k + net_change sops (int k)" "adj' ! k = adj ! k - net_change (filter has_undo sops) (int k)"
    "length vals' = length vals" "length adj' = length vals"
  using assms perform_semop_value [of sops vals adj vals' adj' k] perform_semop_length [of sops vals adj vals' adj']
  by (auto simp: semop_def not_le not_less split: if_splits)

text \<open>When all operations have SEM_UNDO, what is kept for the end is the opposite of what was done.\<close>

lemma semop_correct:
  assumes "semop sops vals adj = Sem_Done vals' adj'" "length adj = length vals" "k < length vals" "\<forall>sop \<in> set sops. has_undo sop"
  shows "vals' ! k = vals ! k + net_change sops (int k)" "adj' ! k = adj ! k - net_change sops (int k)"
    "length vals' = length vals" "length adj' = length vals"
  using semop_value [OF assms(1-3)] assms(4) by simp_all

lemma semop_length: "semop sops vals adj = Sem_Done vals' adj' \<Longrightarrow> length vals' = length vals \<and> length adj' = length adj"
  by (rule perform_semop_length [of sops]) (simp add: semop_def split: if_splits)

lemma semop_bounds:
  "semop sops vals adj = Sem_Done vals' adj' \<Longrightarrow> \<forall>v \<in> set vals. 0 \<le> v \<and> v \<le> SEMVMX \<Longrightarrow> \<forall>v \<in> set vals'. 0 \<le> v \<and> v \<le> SEMVMX"
  by (rule perform_semop_bounds) (simp_all add: semop_def split: if_splits)

end
