(* ===== verification/Events.thy ===== *)
theory Events
  imports Semop
begin

text \<open>
  The event generator of lecture_examples/7_ipc: 9_sem_event_source.c sends the lines it reads through a
  message queue and counts them in a semaphore, 9_sem_event_cons.c waits until there is one line of each of the sources 1, 2
  and 3 and reads the three. The result None is undefined behaviour. A step of the processes is one call
  of the system.
\<close>

section \<open>Messages\<close>

text \<open>A buffer is its bytes, None for one that was never written. Numbers are little endian.\<close>

type_synonym buffer = "int option list"

fun le_bytes :: "nat \<Rightarrow> int \<Rightarrow> int list" where
  "le_bytes 0 x = []"
| "le_bytes (Suc n) x = x mod 256 # le_bytes n (x div 256)"

definition le_value :: "int list \<Rightarrow> int" where
  "le_value bs =
     (let m = 256 ^ length bs; v = foldr (\<lambda>b n. b + 256 * n) bs 0 in if m \<le> 2 * v then v - m else v)"

definition memcpy_to :: "nat \<Rightarrow> int list \<Rightarrow> buffer \<Rightarrow> buffer option" where
  "memcpy_to pos bs msg =
     (if pos + length bs \<le> length msg then Some (take pos msg @ map Some bs @ drop (pos + length bs) msg) else None)"

definition memcpy_from :: "nat \<Rightarrow> nat \<Rightarrow> buffer \<Rightarrow> int list option" where
  "memcpy_from pos n msg = (if pos + n \<le> length msg then those (take n (drop pos msg)) else None)"

text \<open>The buffer and the size that pack_msg returns.\<close>

definition pack_msg :: "buffer \<Rightarrow> int \<Rightarrow> int list \<Rightarrow> int \<Rightarrow> (buffer \<times> nat) option" where
  "pack_msg msg type data data_size = do {
     let pos = 0;
     msg \<leftarrow> memcpy_to pos (le_bytes 8 type) msg;
     let pos = pos + 8;
     msg \<leftarrow> memcpy_to pos (le_bytes 4 data_size) msg;
     let pos = pos + 4;
     (if 0 \<le> data_size \<and> nat data_size \<le> length data then Some () else None);
     msg \<leftarrow> memcpy_to pos (take (nat data_size) data) msg;
     let pos = pos + nat data_size;
     Some (msg, pos) }"

text \<open>The type, where the data starts, its size, and the size that unpack_msg returns.\<close>

definition unpack_msg :: "buffer \<Rightarrow> (int \<times> nat \<times> int \<times> int) option" where
  "unpack_msg msg = do {
     let pos = 0;
     type \<leftarrow> memcpy_from pos 8 msg;
     let pos = pos + 8;
     size_bytes \<leftarrow> memcpy_from pos 4 msg;
     let data_size = le_value size_bytes;
     let pos = pos + 4;
     (if 0 \<le> int pos + data_size \<and> int pos + data_size \<le> int (length msg) then Some () else None);
     Some (le_value type, pos, data_size, int pos + data_size) }"

text \<open>
  A message in the queue is its type and its text. msgsnd takes as the size that of the text, which starts
  after the type; send_msg gives it the size with the type, so 8 more bytes are read. junk is what they are when they
  were never written. A type that is not positive is the error EINVAL, the inner None.
\<close>

definition send_msg :: "int list \<Rightarrow> int \<Rightarrow> int list \<Rightarrow> int \<Rightarrow> (int \<times> int list) option option" where
  "send_msg junk myid data data_size = do {
     (msg, sz) \<leftarrow> pack_msg (replicate 512 None) myid data data_size;
     (if 8 + sz \<le> 512 then Some () else None);
     known \<leftarrow> those (take (sz - 8) (drop 8 msg));
     Some (if myid \<le> 0 then None else Some (myid, known @ take 8 junk)) }"

text \<open>msgrcv takes the first message of the type.\<close>

fun msgrcv :: "int \<Rightarrow> (int \<times> int list) list \<Rightarrow> ((int \<times> int list) \<times> (int \<times> int list) list) option" where
  "msgrcv type [] = None"
| "msgrcv type (m # q) = (if fst m = type then Some (m, q) else map_option (\<lambda>(r, q). (r, m # q)) (msgrcv type q))"

text \<open>A string ends before the first 0; reading a byte that was never written, or past the buffer, is undefined.\<close>

fun c_string :: "buffer \<Rightarrow> int list option" where
  "c_string [] = None"
| "c_string (None # bs) = None"
| "c_string (Some b # bs) = (if b = 0 then Some [] else map_option ((#) b) (c_string bs))"

text \<open>What recv_msg prints of a message: the type, the size and the string.\<close>

definition recv_msg :: "int \<times> int list \<Rightarrow> (int \<times> int \<times> int list) option" where
  "recv_msg m = do {
     msg \<leftarrow> memcpy_to 0 (le_bytes 8 (fst m) @ snd m) (replicate 512 None);
     (type, data, data_size, _) \<leftarrow> unpack_msg msg;
     str \<leftarrow> c_string (drop data msg);
     Some (type, data_size, str) }"

section \<open>Sending and receiving\<close>

lemma length_le_bytes [simp]: "length (le_bytes n x) = n"
  by (induction n arbitrary: x) auto

lemma le_bytes_fold: "foldr (\<lambda>b n. b + 256 * n) (le_bytes n x) 0 = x mod 256 ^ n"
proof (induction n arbitrary: x)
  case (Suc n)
  have "x mod (256 * 256 ^ n) = 256 * (x div 256 mod 256 ^ n) + x mod 256" by (rule zmod_zmult2_eq) simp
  then show ?case using Suc by simp
qed simp

lemma le_value_le_bytes:
  assumes "0 < n" "- (256 ^ n) \<le> 2 * x" "2 * x < 256 ^ n"
  shows "le_value (le_bytes n x) = x"
proof (cases "0 \<le> x")
  case True
  then have "x mod 256 ^ n = x" using assms(3) by (intro mod_pos_pos_trivial) auto
  then show ?thesis using assms(3) by (simp add: le_value_def le_bytes_fold)
next
  case False
  have "x mod 256 ^ n = (x + 256 ^ n) mod 256 ^ n" by simp
  also have "\<dots> = x + 256 ^ n" using False assms(2) by (intro mod_pos_pos_trivial) auto
  finally show ?thesis using False assms(2) by (simp add: le_value_def le_bytes_fold)
qed

lemma le_value_long: "long_ok x \<Longrightarrow> le_value (le_bytes 8 x) = x"
  by (rule le_value_le_bytes) (auto simp: long_ok_def)

lemma le_value_int: "int_ok x \<Longrightarrow> le_value (le_bytes 4 x) = x"
  by (rule le_value_le_bytes) (auto simp: int_ok_def)

lemma those_map_Some [simp]: "those (map Some xs) = Some xs"
  by (induction xs) auto

lemma those_append_Some [simp]: "those (map Some xs @ map Some ys) = Some (xs @ ys)"
  using those_map_Some [of "xs @ ys"] by simp

text \<open>A message of at most 500 bytes is packed as its type, its size and its bytes.\<close>

lemma pack_msg_correct:
  assumes "12 + length data \<le> 512"
  shows "pack_msg (replicate 512 None) type data (int (length data))
    = Some (map Some (le_bytes 8 type @ le_bytes 4 (int (length data)) @ data) @ replicate (500 - length data) None,
        12 + length data)"
  using assms by (simp add: pack_msg_def memcpy_to_def)

lemma unpack_msg_correct:
  assumes "long_ok type" "length data + 12 + length rest = 512"
  shows "unpack_msg (map Some (le_bytes 8 type @ le_bytes 4 (int (length data)) @ data) @ rest)
    = Some (type, 12, int (length data), 12 + int (length data))"
proof -
  have "int_ok (int (length data))" using assms(2) by (simp add: int_ok_def)
  then show ?thesis
    using assms by (simp add: unpack_msg_def memcpy_from_def le_value_long le_value_int Let_def)
qed

lemma c_string_zero: "0 \<in> set bs \<Longrightarrow> c_string (map Some bs @ rest) = Some (takeWhile (\<lambda>b. b \<noteq> 0) bs)"
  by (induction bs) auto

lemma c_string_no_zero: "0 \<notin> set bs \<Longrightarrow> c_string (map Some bs @ replicate n None) = None"
  by (induction bs) (cases n, auto)

lemma send_msg_correct:
  assumes "0 < myid" "length data \<le> 492" "length junk = 8"
  shows "send_msg junk myid data (int (length data)) = Some (Some (myid, le_bytes 4 (int (length data)) @ data @ junk))"
  using assms by (simp add: send_msg_def pack_msg_correct)

lemma send_msg_undefined:
  assumes "492 < length data"
  shows "send_msg junk myid data (int (length data)) = None"
proof (cases "12 + length data \<le> 512")
  case True
  then show ?thesis using assms by (simp add: send_msg_def pack_msg_correct)
next
  case False
  then show ?thesis by (simp add: send_msg_def pack_msg_def memcpy_to_def)
qed

lemma recv_msg_correct:
  assumes "long_ok type" "length data \<le> 492" "length junk = 8"
  shows "recv_msg (type, le_bytes 4 (int (length data)) @ data @ junk) =
    map_option (\<lambda>str. (type, int (length data), str)) (c_string (map Some (data @ junk) @ replicate (492 - length data) None))"
proof -
  let ?rest = "map Some junk @ replicate (492 - length data) None"
  have msg: "memcpy_to 0 (le_bytes 8 type @ le_bytes 4 (int (length data)) @ data @ junk) (replicate 512 None)
      = Some (map Some (le_bytes 8 type @ le_bytes 4 (int (length data)) @ data) @ ?rest)"
    using assms(2,3) by (simp add: memcpy_to_def)
  have "unpack_msg (map Some (le_bytes 8 type @ le_bytes 4 (int (length data)) @ data) @ ?rest)
      = Some (type, 12, int (length data), 12 + int (length data))"
    using assms by (intro unpack_msg_correct) auto
  with msg show ?thesis
    by (simp add: recv_msg_def map_option_case split: option.split)
qed

text \<open>A line of at most 492 bytes comes out of the queue as it was put in, with the type and the size; the string that is printed goes on after the line, with the bytes behind it, since no 0 is sent.\<close>

theorem message_roundtrip:
  assumes "0 < myid" "long_ok myid" "length data \<le> 492" "0 \<notin> set data" "length junk = 8" "0 \<in> set junk"
  shows "\<exists>m. send_msg junk myid data (int (length data)) = Some (Some m) \<and> fst m = myid
    \<and> recv_msg m = Some (myid, int (length data), data @ takeWhile (\<lambda>b. b \<noteq> 0) junk)"
proof (intro exI conjI)
  show "send_msg junk myid data (int (length data)) = Some (Some (myid, le_bytes 4 (int (length data)) @ data @ junk))"
    by (rule send_msg_correct) (use assms in auto)
  have "c_string (map Some (data @ junk) @ replicate (492 - length data) None) = Some (data @ takeWhile (\<lambda>b. b \<noteq> 0) junk)"
    using assms(4,6) by (subst c_string_zero) (auto simp: takeWhile_append)
  then show "recv_msg (myid, le_bytes 4 (int (length data)) @ data @ junk)
      = Some (myid, int (length data), data @ takeWhile (\<lambda>b. b \<noteq> 0) junk)"
    using recv_msg_correct [OF assms(2,3,5)] by simp
qed simp

theorem message_roundtrip_witness:
  "\<exists>m. send_msg [0, 0, 0, 0, 0, 0, 0, 0] 2 [104, 105, 10] 3 = Some (Some m) \<and> recv_msg m = Some (2, 3, [104, 105, 10])"
  using message_roundtrip [of 2 "[104, 105, 10]" "[0, 0, 0, 0, 0, 0, 0, 0]"] by (auto simp: long_ok_def)

text \<open>When none of the 8 bytes behind the line is 0, printf goes on to bytes that were never written.\<close>

theorem printed_string_not_terminated:
  assumes "long_ok myid" "length data \<le> 492" "0 \<notin> set data" "length junk = 8" "0 \<notin> set junk"
  shows "recv_msg (myid, le_bytes 4 (int (length data)) @ data @ junk) = None"
proof -
  have "c_string (map Some (data @ junk) @ replicate (492 - length data) None) = None"
    by (rule c_string_no_zero) (use assms(3,5) in auto)
  then show ?thesis using recv_msg_correct [OF assms(1,2,4)] by simp
qed

end
