(* ===== verification/Event_Queue.thy ===== *)
theory Event_Queue
  imports Events
begin

text \<open>
  The processes of lecture_examples/7_ipc/9_sem_event_source.c and 9_sem_event_cons.c, in every order of their calls of the
  system. Source i has the id ids i, its argument; the sources and the consumers are numbered from 0. A process that
  would create the queue or the semaphores again after source 1 has removed them is left out, and a full queue is not modelled.
\<close>

section \<open>The state\<close>

text \<open>The call that a source does next, and the one that a consumer does next.\<close>

datatype source_pc = S_Semget | S_Setall | S_Msgget | S_Getline | S_Send "int list" | S_Inc
  | S_Msgctl | S_Semctl | S_Exit | S_Gone

datatype cons_pc = C_Semget | C_Msgget | C_Lock | C_Recv nat | C_Unlock

text \<open>
  sems and queue are None when they do not exist. The numbers that the processes keep for their ends are
  src_adj and con_adj; con_sem and con_queue say that a consumer has found the semaphores and the queue. rounds counts
  the calls of lock_events, printed is what recv_msg has printed.
\<close>

record events =
  sems :: "int list option"
  queue :: "(int \<times> int list) list option"
  removed :: bool
  src_at :: "nat \<Rightarrow> source_pc"
  src_adj :: "nat \<Rightarrow> int list"
  con_at :: "nat \<Rightarrow> cons_pc"
  con_adj :: "nat \<Rightarrow> int list"
  con_sem :: "nat \<Rightarrow> bool"
  con_queue :: "nat \<Rightarrow> bool"
  rounds :: "nat \<Rightarrow> int"
  printed :: "(int \<times> int \<times> int list) list"

definition no_adj :: "int list" where "no_adj = [0, 0, 0, 0]"

definition src_goto :: "nat \<Rightarrow> source_pc \<Rightarrow> events \<Rightarrow> events" where
  "src_goto i pc s = s\<lparr>src_at := (src_at s)(i := pc)\<rparr>"

definition con_goto :: "nat \<Rightarrow> cons_pc \<Rightarrow> events \<Rightarrow> events" where
  "con_goto j pc s = s\<lparr>con_at := (con_at s)(j := pc)\<rparr>"

section \<open>The source\<close>

text \<open>semget creates the semaphores, with the value 0, when they do not exist; SETALL also clears what the processes keep.\<close>

definition sem_get_or_create :: "nat \<Rightarrow> events \<Rightarrow> events option" where
  "sem_get_or_create i s =
     (case sems s of
        Some _ \<Rightarrow> Some (src_goto i S_Msgget s)
      | None \<Rightarrow> if removed s then None else Some (src_goto i S_Setall (s\<lparr>sems := Some [0, 0, 0, 0]\<rparr>)))"

definition set_all :: "nat \<Rightarrow> events \<Rightarrow> events" where
  "set_all i s = src_goto i S_Msgget
     (if sems s = None then s
      else s\<lparr>sems := Some [0, 0, 0, 1], src_adj := \<lambda>_. no_adj, con_adj := \<lambda>_. no_adj\<rparr>)"

definition msg_queue_get_or_create :: "nat \<Rightarrow> events \<Rightarrow> events option" where
  "msg_queue_get_or_create i s =
     (case queue s of
        Some _ \<Rightarrow> Some (src_goto i S_Getline s)
      | None \<Rightarrow> if removed s then None else Some (src_goto i S_Getline (s\<lparr>queue := Some []\<rparr>)))"

text \<open>sem_num is an unsigned short. The result of semop is not looked at.\<close>

definition sem_inc :: "nat \<Rightarrow> int \<Rightarrow> events \<Rightarrow> events option" where
  "sem_inc i myid s =
     (let vals = (case sems s of Some vals \<Rightarrow> vals | None \<Rightarrow> []) in
      case semop [\<lparr>sem_num = (myid - 1) mod 65536, sem_op = 1, sem_flg = SEM_UNDO\<rparr>] vals (src_adj s i) of
        Sem_Done vals adj \<Rightarrow> Some (src_goto i S_Getline (s\<lparr>sems := Some vals, src_adj := (src_adj s)(i := adj)\<rparr>))
      | Sem_Fails \<Rightarrow> Some (src_goto i S_Getline s)
      | Sem_Blocks \<Rightarrow> None)"

definition enqueue :: "(int \<times> int list) option \<Rightarrow> events \<Rightarrow> events" where
  "enqueue m s = (case (m, queue s) of (Some m, Some q) \<Rightarrow> s\<lparr>queue := Some (q @ [m])\<rparr> | _ \<Rightarrow> s)"

text \<open>input is the line that getline reads, or None; a line ends before its first 0.\<close>

definition source_step :: "(nat \<Rightarrow> int) \<Rightarrow> int list option \<Rightarrow> int list \<Rightarrow> nat \<Rightarrow> events \<Rightarrow> events option" where
  "source_step ids inp junk i s = (case src_at s i of
     S_Semget \<Rightarrow> sem_get_or_create i s
   | S_Setall \<Rightarrow> Some (set_all i s)
   | S_Msgget \<Rightarrow> msg_queue_get_or_create i s
   | S_Getline \<Rightarrow> Some (src_goto i (case inp of
         Some line \<Rightarrow> S_Send (takeWhile (\<lambda>b. b \<noteq> 0) line)
       | None \<Rightarrow> if ids i = 1 then S_Msgctl else S_Exit) s)
   | S_Send line \<Rightarrow> do {
       m \<leftarrow> send_msg junk (ids i) line (int (length line));
       Some (src_goto i S_Inc (enqueue m s)) }
   | S_Inc \<Rightarrow> sem_inc i (ids i) s
   | S_Msgctl \<Rightarrow> Some (src_goto i S_Semctl (s\<lparr>queue := None, removed := True\<rparr>))
   | S_Semctl \<Rightarrow> Some (src_goto i S_Exit (s\<lparr>sems := None\<rparr>))
   | S_Exit \<Rightarrow> Some (src_goto i S_Gone (s\<lparr>sems := map_option (sem_exit (src_adj s i)) (sems s)\<rparr>))
   | S_Gone \<Rightarrow> None)"

section \<open>The consumer\<close>

definition lock_ops :: "sembuf list" where
  "lock_ops = map (\<lambda>i. \<lparr>sem_num = int i, sem_op = -1, sem_flg = SEM_UNDO\<rparr>) [0..<4]"

definition unlock_ops :: "sembuf list" where
  "unlock_ops = [\<lparr>sem_num = 3, sem_op = 1, sem_flg = SEM_UNDO\<rparr>]"

text \<open>A call of semop by a consumer, whose result is not looked at.\<close>

definition con_semop :: "nat \<Rightarrow> sembuf list \<Rightarrow> cons_pc \<Rightarrow> events \<Rightarrow> events option" where
  "con_semop j sops pc s =
     (case (if con_sem s j then sems s else None) of
        None \<Rightarrow> Some (con_goto j pc s)
      | Some vals \<Rightarrow>
         (case semop sops vals (con_adj s j) of
            Sem_Done vals adj \<Rightarrow> Some (con_goto j pc (s\<lparr>sems := Some vals, con_adj := (con_adj s)(j := adj)\<rparr>))
          | Sem_Fails \<Rightarrow> Some (con_goto j pc s)
          | Sem_Blocks \<Rightarrow> None))"

definition lock_events :: "nat \<Rightarrow> events \<Rightarrow> events option" where
  "lock_events j s = con_semop j lock_ops (C_Recv 0) (s\<lparr>rounds := (rounds s)(j := rounds s j + 1)\<rparr>)"

definition unlock_events :: "nat \<Rightarrow> events \<Rightarrow> events option" where
  "unlock_events j s = con_semop j unlock_ops C_Lock s"

text \<open>The loop of read_data. When msgrcv fails, the message that is printed was never written.\<close>

definition read_data :: "nat \<Rightarrow> nat \<Rightarrow> events \<Rightarrow> events option" where
  "read_data j i s = do {
     q \<leftarrow> (if con_queue s j then queue s else None);
     (m, q) \<leftarrow> msgrcv (int i + 1) q;
     p \<leftarrow> recv_msg m;
     Some (con_goto j (if i + 1 < 3 then C_Recv (i + 1) else C_Unlock) (s\<lparr>queue := Some q, printed := printed s @ [p]\<rparr>)) }"

definition consumer_step :: "nat \<Rightarrow> events \<Rightarrow> events option" where
  "consumer_step j s = (case con_at s j of
     C_Semget \<Rightarrow> Some (con_goto j C_Msgget (s\<lparr>con_sem := (con_sem s)(j := (sems s \<noteq> None))\<rparr>))
   | C_Msgget \<Rightarrow> Some (con_goto j C_Lock (s\<lparr>con_queue := (con_queue s)(j := (queue s \<noteq> None))\<rparr>))
   | C_Lock \<Rightarrow> lock_events j s
   | C_Recv i \<Rightarrow> read_data j i s
   | C_Unlock \<Rightarrow> unlock_events j s)"

definition events_start :: events where
  "events_start = \<lparr>sems = None, queue = None, removed = False, src_at = \<lambda>_. S_Semget, src_adj = \<lambda>_. no_adj,
     con_at = \<lambda>_. C_Semget, con_adj = \<lambda>_. no_adj, con_sem = \<lambda>_. False, con_queue = \<lambda>_. False, rounds = \<lambda>_. 0, printed = []\<rparr>"

definition events_step :: "(nat \<Rightarrow> int) \<Rightarrow> nat \<Rightarrow> nat \<Rightarrow> events \<Rightarrow> events \<Rightarrow> bool" where
  "events_step ids n m s s' \<longleftrightarrow>
     (\<exists>i < n. \<exists>inp junk. length junk = 8 \<and> source_step ids inp junk i s = Some s') \<or> (\<exists>j < m. consumer_step j s = Some s')"

section \<open>The invariant\<close>

text \<open>What a process has still to do to the numbers of lines of source k + 1, and whether a consumer has the lock.\<close>

definition pending :: "nat \<Rightarrow> int \<Rightarrow> source_pc \<Rightarrow> int" where
  "pending k myid pc = (if pc = S_Inc \<and> myid = int k + 1 then 1 else 0)"

definition setting :: "source_pc \<Rightarrow> int" where
  "setting pc = (if pc = S_Setall then 1 else 0)"



definition sem_val :: "events \<Rightarrow> nat \<Rightarrow> int" where
  "sem_val s k = (case sems s of Some vals \<Rightarrow> vals ! k | None \<Rightarrow> 0)"

definition lines_of :: "events \<Rightarrow> nat \<Rightarrow> int" where
  "lines_of s k = (case queue s of Some q \<Rightarrow> int (length (filter (\<lambda>m. fst m = int k + 1) q)) | None \<Rightarrow> 0)"









section \<open>Steps of one process\<close>












lemmas event_defs = src_goto_def con_goto_def sem_val_def lines_of_def no_adj_def

lemma four_cases: "(k :: nat) < 4 \<Longrightarrow> k = 0 \<or> k = 1 \<or> k = 2 \<or> k = 3"
  by auto



section \<open>Every step keeps it\<close>


lemma source_pcs [simp]:
  "pending k myid S_Inc = (if myid = int k + 1 then 1 else 0)" "pc \<noteq> S_Inc \<Longrightarrow> pending k myid pc = 0"
  "setting S_Setall = 1" "pc \<noteq> S_Setall \<Longrightarrow> setting pc = 0"
  by (simp_all add: pending_def setting_def)


















lemma enqueue_same [simp]:
  "con_at (enqueue r s) = con_at s" "con_sem (enqueue r s) = con_sem s" "rounds (enqueue r s) = rounds s" "removed (enqueue r s) = removed s"
  by (simp_all add: enqueue_def split: option.split)





section \<open>What the processes promise\<close>


section \<open>Runs\<close>

text \<open>Steps of the sources, with the line they read, and of the consumers; the bytes behind a line are 0.\<close>

datatype event_act = Src nat "int list option" | Con nat

fun run_events :: "(nat \<Rightarrow> int) \<Rightarrow> event_act list \<Rightarrow> events \<Rightarrow> events option" where
  "run_events ids [] s = Some s"
| "run_events ids (Src i inp # as) s = do { s \<leftarrow> source_step ids inp (replicate 8 0) i s; run_events ids as s }"
| "run_events ids (Con j # as) s = do { s \<leftarrow> consumer_step j s; run_events ids as s }"

lemma run_events_reachable:
  assumes "run_events ids as s = Some s'"
    "list_all (\<lambda>a. case a of Src i inp \<Rightarrow> i < n | Con j \<Rightarrow> j < m) as" "reachable start (events_step ids n m) s"
  shows "reachable start (events_step ids n m) s'"
  using assms
proof (induction ids as s rule: run_events.induct)
  case (2 ids i inp as s)
  then obtain u where u: "source_step ids inp (replicate 8 0) i s = Some u" "run_events ids as u = Some s'"
    by (auto split: bind_splits)
  have "events_step ids n m s u" using u(1) 2(3) unfolding events_step_def
    by (intro disjI1 exI [of _ i] exI [of _ inp] exI [of _ "replicate 8 0"] conjI) simp_all
  then show ?case using 2(1) [OF u] 2(3,4) reach_step by fastforce
next
  case (3 ids j as s)
  then obtain u where u: "consumer_step j s = Some u" "run_events ids as u = Some s'"
    by (auto split: bind_splits)
  have "events_step ids n m s u" using u(1) 3(3) unfolding events_step_def by auto
  then show ?case using 3(1) [OF u] 3(3,4) reach_step by fastforce
qed simp

text \<open>Sources with the ids 1, 2 and 3 send a line each, and the consumer gets ready; then it locks, or source 2 ends first.\<close>

definition three_ids :: "nat \<Rightarrow> int" where "three_ids i = int i + 1"

definition three_lines :: "event_act list" where
  "three_lines = replicate 3 (Src 0 None) @ [Src 0 (Some [97, 10])] @ replicate 2 (Src 0 None)
     @ replicate 2 (Src 1 None) @ [Src 1 (Some [98, 10])] @ replicate 2 (Src 1 None)
     @ replicate 2 (Src 2 None) @ [Src 2 (Some [99, 10])] @ replicate 2 (Src 2 None) @ [Con 0, Con 0]"

lemma send_msg_eval:
  "0 < myid \<Longrightarrow> length data \<le> 492 \<Longrightarrow> length junk = 8 \<Longrightarrow> data_size = int (length data) \<Longrightarrow>
    send_msg junk myid data data_size = Some (Some (myid, le_bytes 4 data_size @ data @ junk))"
  using send_msg_correct by blast

lemmas run_events_eval = three_lines_def three_ids_def source_step_def sem_get_or_create_def set_all_def
  msg_queue_get_or_create_def sem_inc_def semop_def enqueue_def send_msg_eval consumer_step_def events_start_def
  event_defs SEMVMX_def Let_def numeral_2_eq_2 numeral_3_eq_3

lemma run_three_lines:
  "\<exists>s q. run_events three_ids three_lines events_start = Some s \<and> sems s = Some [1, 1, 1, 1] \<and> queue s = Some q
    \<and> map fst q = [1, 2, 3] \<and> con_at s 0 = C_Lock \<and> con_sem s 0 \<and> \<not> removed s \<and> rounds s 0 = 0 \<and> con_adj s 0 = no_adj
    \<and> src_at s 1 = S_Getline \<and> src_adj s 1 = [0, -1, 0, 0]"
  by (simp add: run_events_eval)

lemma run_events_append:
  "run_events ids (as @ bs) s = do { s \<leftarrow> run_events ids as s; run_events ids bs s }"
  by (induction ids as s rule: run_events.induct) (auto split: bind_splits)

text \<open>The semaphores after a process that has added 1 for source 2 has ended, and then for the consumer.\<close>

lemma sem_exit_example: "sem_exit [0, -1, 0, 0] [1, 1, 1, 1] = [1, 0, 1, 1]"
  by (simp add: sem_exit_def SEMVMX_def)

lemma lock_example:
  "semop lock_ops [1, 1, 1, 1] no_adj = Sem_Done [0, 0, 0, 0] [1, 1, 1, 1]" "semop lock_ops [1, 0, 1, 1] no_adj = Sem_Blocks"
  by (simp_all add: lock_ops_def semop_def no_adj_def SEMVMX_def upt_conv_Cons numeral_2_eq_2 numeral_3_eq_3)

lemma three_ids_ok: "\<forall>i < 3. three_ids i \<in> {1, 2, 3}"
  by (auto simp: three_ids_def less_Suc_eq numeral_3_eq_3)

lemma reachable_events:
  assumes "run_events three_ids as events_start = Some s" "list_all (\<lambda>a. case a of Src i inp \<Rightarrow> i < 3 | Con j \<Rightarrow> j < 1) as"
  shows "reachable (\<lambda>s. (\<forall>i < 3. three_ids i \<in> {1, 2, 3}) \<and> s = events_start) (events_step three_ids 3 1) s"
  by (rule run_events_reachable [OF assms], rule reach_start) (use three_ids_ok in blast)



text \<open>
  When source 2 ends, SEM_UNDO takes its line back from the semaphore, but not from the queue: there is a
  line of each source, and the consumer waits all the same.
\<close>

theorem line_of_ended_source_stays:
  "\<exists>s q. reachable (\<lambda>s. (\<forall>i < 3. three_ids i \<in> {1, 2, 3}) \<and> s = events_start) (events_step three_ids 3 1) s
     \<and> queue s = Some q \<and> map fst q = [1, 2, 3] \<and> con_at s 0 = C_Lock \<and> consumer_step 0 s = None"
proof -
  obtain s q where s: "run_events three_ids three_lines events_start = Some s" "sems s = Some [1, 1, 1, 1]" "queue s = Some q"
    "map fst q = [1, 2, 3]" "con_at s 0 = C_Lock" "con_sem s 0" "con_adj s 0 = no_adj"
    "src_at s 1 = S_Getline" "src_adj s 1 = [0, -1, 0, 0]"
    using run_three_lines by (elim exE conjE) (rule that)
  let ?s = "src_goto 1 S_Gone ((src_goto 1 S_Exit s)\<lparr>sems := Some [1, 0, 1, 1]\<rparr>)"
  have run: "run_events three_ids (three_lines @ [Src 1 None, Src 1 None]) events_start = Some ?s"
    using s by (simp add: run_events_append source_step_def three_ids_def src_goto_def sem_exit_example)
  have "reachable (\<lambda>s. (\<forall>i < 3. three_ids i \<in> {1, 2, 3}) \<and> s = events_start) (events_step three_ids 3 1) ?s"
    by (rule reachable_events [OF run]) (simp add: three_lines_def numeral_3_eq_3 numeral_2_eq_2)
  moreover have "consumer_step 0 ?s = None" "queue ?s = Some q" "con_at ?s 0 = C_Lock"
    using s by (simp_all add: consumer_step_def lock_events_def con_semop_def src_goto_def lock_example)
  ultimately show ?thesis
    using s(4) by (intro exI [of _ ?s] exI [of _ q] conjI)
qed

text \<open>
  Two consumers that call semget before the semaphores exist: their semop fails unseen, and both are in the
  section that one at most may be in, although the semaphores exist by then and no line was sent.
\<close>

theorem early_consumers_unlocked:
  "\<exists>s. run_events three_ids ([Con 0, Con 1] @ replicate 3 (Src 0 None) @ [Con 0, Con 1, Con 0, Con 1]) events_start = Some s
     \<and> con_at s 0 = C_Recv 0 \<and> con_at s 1 = C_Recv 0 \<and> sems s = Some [0, 0, 0, 1] \<and> queue s = Some []"
  by (simp add: run_events_eval lock_events_def con_semop_def)

text \<open>
  A consumer that has locked 32767 times: semop fails, since the number that SEM_UNDO keeps would overflow, and the
  consumer goes on as if it had the lock.
\<close>

theorem lock_fails_after_max_rounds:
  assumes "con_sem s j" "sems s = Some v" "length v = 4" "\<forall>k < 4. 0 < v ! k \<and> v ! k \<le> SEMVMX" "con_adj s j ! 0 = SEMVMX"
  shows "\<exists>s'. lock_events j s = Some s' \<and> con_at s' j = C_Recv 0 \<and> sems s' = sems s"
proof -
  obtain v0 v1 v2 v3 where v: "v = [v0, v1, v2, v3]" using assms(3) by (auto simp: length_Suc_conv numeral_eq_Suc)
  have "0 < v0" "v0 \<le> SEMVMX" using assms(4) [rule_format, of 0] by (simp_all add: v)
  then have "semop lock_ops v (con_adj s j) = Sem_Fails"
    using assms(5) by (simp add: lock_ops_def semop_def v upt_conv_Cons SEMVMX_def)
  then show ?thesis using assms(1,2) by (simp add: lock_events_def con_semop_def con_goto_def)
qed

theorem lock_fails_after_max_rounds_witness:
  "\<exists>s'. lock_events 0 (events_start\<lparr>con_sem := \<lambda>_. True, sems := Some [1, 1, 1, 1], con_adj := \<lambda>_. [32767, 32767, 32767, 0]\<rparr>) = Some s'
     \<and> con_at s' 0 = C_Recv 0 \<and> sems s' = Some [1, 1, 1, 1]"
proof -
  have "\<forall>k < 4. 0 < [1, 1, 1, 1 :: int] ! k \<and> [1, 1, 1, 1] ! k \<le> SEMVMX"
    by (auto simp: SEMVMX_def dest!: four_cases)
  then show ?thesis
    using lock_fails_after_max_rounds [of "events_start\<lparr>con_sem := \<lambda>_. True, sems := Some [1, 1, 1, 1], con_adj := \<lambda>_. [32767, 32767, 32767, 0]\<rparr>"
      0 "[1, 1, 1, 1]"] by (simp add: SEMVMX_def)
qed

end
