(* ===== verification/Sem_Shell.thy ===== *)
theory Sem_Shell
  imports Semop File_Merge
begin

text \<open>
  The console for semaphores of lecture_examples/7_ipc/8_sem.c: lines that add to or take from one of three semaphores, at once
  or together at the end of a transaction. What other processes do to the semaphores in between is left out.
\<close>

section \<open>The console\<close>

datatype sem_output = Values "int list" | Semop_Error | Unknown_Operation

text \<open>
  ops is the part of the array that is in use, ops_count its length. sem_num and cmd are None before
  sscanf has read them. vals are the semaphores, adj what the kernel keeps for the end of the process.
\<close>

record console =
  vals :: "int list"
  adj :: "int list"
  ops :: "sembuf list"
  is_inside_txn :: bool
  num_var :: "int option"
  cmd_var :: "char option"
  out :: "sem_output list"

text \<open>Next is the next turn of the loop, Ended the end of the process with the semaphores that are left, None when they are removed.\<close>

datatype 's outcome = Undefined | Waits | Next 's | Ended "int list option"

definition says :: "sem_output \<Rightarrow> console \<Rightarrow> console" where
  "says msg s = s\<lparr>out := out s @ [msg]\<rparr>"

text \<open>GETALL writes as many values as the set has into an array of three.\<close>

definition print_all_sems :: "console \<Rightarrow> console outcome" where
  "print_all_sems s = (if length (vals s) = 3 then Next (says (Values (vals s)) s) else Undefined)"

definition init_sems :: "console outcome" where
  "init_sems = print_all_sems \<lparr>vals = [1, 2, 3], adj = [0, 0, 0], ops = [], is_inside_txn = False,
     num_var = None, cmd_var = None, out = []\<rparr>"

text \<open>A set that exists is used as it is.\<close>

definition connect_sems :: "int list option \<Rightarrow> console outcome" where
  "connect_sems existing = (case existing of
     None \<Rightarrow> init_sems
   | Some v \<Rightarrow> Next \<lparr>vals = v, adj = replicate (length v) 0, ops = [], is_inside_txn = False,
       num_var = None, cmd_var = None, out = []\<rparr>)"

text \<open>sscanf(line, "%d %c"): what does not match keeps its value. None is a number that does not fit an int.\<close>

definition sscanf_operation :: "string \<Rightarrow> int option \<times> char option \<Rightarrow> (int option \<times> char option) option" where
  "sscanf_operation line old =
     (case fscanf_d line of
        None \<Rightarrow> None
      | Some None \<Rightarrow> Some old
      | Some (Some (v, rest)) \<Rightarrow>
          Some (Some v, (case dropWhile is_space rest of [] \<Rightarrow> snd old | c # _ \<Rightarrow> Some c)))"

definition do_semop :: "sembuf list \<Rightarrow> (console \<Rightarrow> console) \<Rightarrow> console \<Rightarrow> console outcome" where
  "do_semop sops after s =
     (case semop sops (vals s) (adj s) of
        Sem_Done v a \<Rightarrow> print_all_sems (after (s\<lparr>vals := v, adj := a\<rparr>))
      | Sem_Fails \<Rightarrow> Next (says Semop_Error s)
      | Sem_Blocks \<Rightarrow> Waits)"

text \<open>The line that is no command. A variable that sscanf has never set is undefined, and so is the element 100 of ops.\<close>

definition do_operation :: "string \<Rightarrow> console \<Rightarrow> console outcome" where
  "do_operation line s =
     (case sscanf_operation line (num_var s, cmd_var s) of
        None \<Rightarrow> Undefined
      | Some (num, cmd) \<Rightarrow>
         (let s = s\<lparr>num_var := num, cmd_var := cmd\<rparr> in
          if cmd = None then Undefined
          else if cmd \<noteq> Some (CHR ''-'') \<and> cmd \<noteq> Some (CHR ''+'') then Next (says Unknown_Operation s)
          else if 100 \<le> length (ops s) then Undefined
          else case num of
             None \<Rightarrow> Undefined
           | Some n \<Rightarrow>
              (if \<not> int_ok (n - 1) then Undefined
               else let sop = \<lparr>sem_num = (n - 1) mod 65536, sem_op = (if cmd = Some (CHR ''-'') then -1 else 1), sem_flg = SEM_UNDO\<rparr> in
                 if \<not> is_inside_txn s then do_semop [sop] (\<lambda>s. s) s
                 else Next (s\<lparr>ops := ops s @ [sop]\<rparr>))))"

text \<open>One turn of the loop. The last character is cut off, of an empty line the one before it.\<close>

definition do_line :: "string \<Rightarrow> console \<Rightarrow> console outcome" where
  "do_line line s =
     (let line = takeWhile (\<lambda>c. c \<noteq> CHR 0x00) line in
      if line = [] then Undefined
      else let line = butlast line in
      if line = ''begin'' then Next (s\<lparr>is_inside_txn := True\<rparr>)
      else if line = ''commit'' then do_semop (ops s) (\<lambda>s. s\<lparr>is_inside_txn := False, ops := []\<rparr>) s
      else if line = ''rollback'' then Next (s\<lparr>is_inside_txn := False, ops := []\<rparr>)
      else if line = ''delete'' then Ended None
      else if line = ''quit'' then Ended (Some (sem_exit (adj s) (vals s)))
      else if line = ''show'' then print_all_sems s
      else do_operation line s)"

text \<open>
  The result of getline is not looked at, so at the end of the input the line before is there again, without its last
  character; the model stops there.
\<close>

fun run_lines :: "string list \<Rightarrow> console \<Rightarrow> console outcome" where
  "run_lines [] s = Next s"
| "run_lines (line # lines) s = (case do_line line s of Next s \<Rightarrow> run_lines lines s | r \<Rightarrow> r)"

definition sem_main :: "int list option \<Rightarrow> string list \<Rightarrow> console outcome" where
  "sem_main existing lines = (case connect_sems existing of Next s \<Rightarrow> run_lines lines s | r \<Rightarrow> r)"

section \<open>A session takes back what it has done\<close>

text \<open>v is the set as the process has found it.\<close>

definition console_inv :: "int list \<Rightarrow> console \<Rightarrow> bool" where
  "console_inv v s \<longleftrightarrow> length (vals s) = length v \<and> length (adj s) = length v \<and> (\<forall>k < length v. vals s ! k + adj s ! k = v ! k) \<and>
     (\<forall>sop \<in> set (ops s). has_undo sop)"

lemma says_same [simp]:
  "vals (says msg s) = vals s" "adj (says msg s) = adj s" "ops (says msg s) = ops s" "is_inside_txn (says msg s) = is_inside_txn s"
  "num_var (says msg s) = num_var s" "cmd_var (says msg s) = cmd_var s"
  by (simp_all add: says_def)

lemma do_semop_keeps_inv:
  assumes "console_inv v s" "do_semop sops after s = Next s'" "\<forall>sop \<in> set sops. has_undo sop"
    "\<And>s. vals (after s) = vals s \<and> adj (after s) = adj s \<and> set (ops (after s)) \<subseteq> set (ops s)"
  shows "console_inv v s'"
proof (cases "semop sops (vals s) (adj s)")
  case (Sem_Done v' a')
  then have s': "vals s' = v'" "adj s' = a'"
    using assms(2,4) by (auto simp: do_semop_def print_all_sems_def split: if_splits)
  have "set (ops s') \<subseteq> set (ops s)"
    using Sem_Done assms(2) assms(4) [of "s\<lparr>vals := v', adj := a'\<rparr>"] by (auto simp: do_semop_def print_all_sems_def split: if_splits)
  then have undo: "\<forall>sop \<in> set (ops s'). has_undo sop" using assms(1) by (auto simp: console_inv_def)
  have len: "length (vals s) = length v" "length (adj s) = length (vals s)" using assms(1) by (simp_all add: console_inv_def)
  have "v' ! k + a' ! k = vals s ! k + adj s ! k" if "k < length v" for k
    using semop_correct(1,2) [OF Sem_Done len(2) _ assms(3), of k] that len(1) by simp
  then show ?thesis
    using assms(1) len semop_length [OF Sem_Done] undo unfolding console_inv_def s' by simp
next
  case Sem_Fails
  then have "s' = says Semop_Error s" using assms(2) by (simp add: do_semop_def)
  then show ?thesis using assms(1) by (simp add: console_inv_def)
qed (use assms(2) in \<open>simp add: do_semop_def\<close>)

lemma do_operation_cases:
  assumes "do_operation line s = Next s'"
  obtains num cmd where "s' = says Unknown_Operation (s\<lparr>num_var := num, cmd_var := cmd\<rparr>)"
    | num cmd sop where "do_semop [sop] (\<lambda>s. s) (s\<lparr>num_var := num, cmd_var := cmd\<rparr>) = Next s'" "sem_flg sop = SEM_UNDO"
    | num cmd sop where "s' = s\<lparr>num_var := num, cmd_var := cmd, ops := ops s @ [sop]\<rparr>" "sem_flg sop = SEM_UNDO"
proof -
  obtain num cmd where p: "sscanf_operation line (num_var s, cmd_var s) = Some (num, cmd)"
    using assms by (auto simp: do_operation_def split: option.splits)
  show ?thesis
  proof (cases "cmd \<noteq> Some (CHR ''-'') \<and> cmd \<noteq> Some (CHR ''+'')")
    case True
    then show ?thesis using assms p that(1) [where num = num and cmd = cmd] by (auto simp: do_operation_def Let_def split: if_splits)
  next
    case False
    then obtain n where n: "num = Some n" using assms p by (cases num) (auto simp: do_operation_def Let_def split: if_splits)
    let ?sop = "\<lparr>sem_num = (n - 1) mod 65536, sem_op = (if cmd = Some (CHR ''-'') then -1 else 1), sem_flg = SEM_UNDO\<rparr>"
    define r where "r = (if \<not> is_inside_txn s then do_semop [?sop] (\<lambda>s. s) (s\<lparr>num_var := num, cmd_var := cmd\<rparr>)
        else Next (s\<lparr>num_var := num, cmd_var := cmd, ops := ops s @ [?sop]\<rparr>))"
    have "(cmd = None) = False" "(cmd \<noteq> Some (CHR ''-'') \<and> cmd \<noteq> Some (CHR ''+'')) = False" using False by auto
    then have "do_operation line s = (if 100 \<le> length (ops s) then Undefined else if \<not> int_ok (n - 1) then Undefined else r)"
      unfolding do_operation_def p option.case prod.case Let_def n r_def by (simp only: if_False) simp
    then have "r = Next s'" using assms by (simp split: if_splits)
    show ?thesis
    proof (cases "is_inside_txn s")
      case True
      then have "s' = s\<lparr>num_var := num, cmd_var := cmd, ops := ops s @ [?sop]\<rparr>" using \<open>r = Next s'\<close> by (simp add: r_def)
      then show ?thesis by (rule that(3)) simp
    next
      case False
      then have "do_semop [?sop] (\<lambda>s. s) (s\<lparr>num_var := num, cmd_var := cmd\<rparr>) = Next s'" using \<open>r = Next s'\<close> by (simp add: r_def)
      then show ?thesis by (rule that(2)) simp
    qed
  qed
qed

lemma do_operation_keeps_inv:
  assumes inv: "console_inv v s" and w: "do_operation line s = Next s'"
  shows "console_inv v s'"
proof -
  have inv': "console_inv v (s\<lparr>num_var := num, cmd_var := cmd\<rparr>)" for num cmd using inv by (simp add: console_inv_def)
  show ?thesis
    using w
  proof (cases rule: do_operation_cases)
    case 1
    then show ?thesis using inv by (simp add: console_inv_def)
  next
    case 2
    then show ?thesis by (intro do_semop_keeps_inv [OF inv']) auto
  next
    case 3
    then show ?thesis using inv by (auto simp: console_inv_def)
  qed
qed

lemma do_line_keeps_inv:
  assumes inv: "console_inv v s" and w: "do_line line s = Next s'"
  shows "console_inv v s'"
proof -
  from w consider "do_semop (ops s) (\<lambda>s. s\<lparr>is_inside_txn := False, ops := []\<rparr>) s = Next s'" | "print_all_sems s = Next s'"
    | l where "do_operation l s = Next s'" | "vals s' = vals s" "adj s' = adj s" "set (ops s') \<subseteq> set (ops s)"
    by (auto simp: do_line_def Let_def split: if_splits)
  then show ?thesis
  proof cases
    case 1
    then show ?thesis by (rule do_semop_keeps_inv [OF inv]) (use inv in \<open>auto simp: console_inv_def\<close>)
  next
    case 2
    then show ?thesis using inv by (auto simp: print_all_sems_def console_inv_def split: if_splits)
  next
    case 3
    then show ?thesis by (rule do_operation_keeps_inv [OF inv])
  next
    case 4
    then show ?thesis using inv by (auto simp: console_inv_def)
  qed
qed

lemma do_line_ended:
  assumes "do_line line s = Ended (Some v)"
  shows "v = sem_exit (adj s) (vals s)"
  using assms
  by (auto simp: do_line_def do_semop_def do_operation_def print_all_sems_def Let_def
      split: if_splits semop_result.splits option.splits)

lemma run_lines_ended:
  "run_lines lines s = Ended (Some w) \<Longrightarrow> console_inv v s \<Longrightarrow> \<exists>s'. console_inv v s' \<and> w = sem_exit (adj s') (vals s')"
proof (induction lines arbitrary: s)
  case (Cons line lines)
  show ?case
  proof (cases "do_line line s")
    case (Next s')
    then show ?thesis using Cons do_line_keeps_inv [OF Cons.prems(2) Next] by simp
  next
    case (Ended r)
    then show ?thesis using Cons.prems do_line_ended by auto
  qed (use Cons.prems in simp_all)
qed simp

lemma sem_exit_restores:
  assumes "console_inv v s" "\<forall>x \<in> set v. 0 \<le> x \<and> x \<le> SEMVMX"
  shows "sem_exit (adj s) (vals s) = v"
proof (rule nth_equalityI)
  show "length (sem_exit (adj s) (vals s)) = length v" using assms(1) by (simp add: sem_exit_def console_inv_def)
  show "sem_exit (adj s) (vals s) ! k = v ! k" if "k < length (sem_exit (adj s) (vals s))" for k
  proof -
    have k: "k < length v" using that assms(1) by (simp add: sem_exit_def console_inv_def)
    then have "vals s ! k + adj s ! k = v ! k" "0 \<le> v ! k" "v ! k \<le> SEMVMX" using assms by (simp_all add: console_inv_def)
    then show ?thesis using k assms(1) by (simp add: sem_exit_def console_inv_def)
  qed
qed

section \<open>Transactions\<close>

text \<open>A line that is an operation, whatever was read before.\<close>

definition line_operation :: "string \<Rightarrow> sembuf option" where
  "line_operation line =
     (case sscanf_operation (butlast line) (None, None) of
        Some (Some n, Some c) \<Rightarrow>
          if int_ok (n - 1) \<and> (c = CHR ''-'' \<or> c = CHR ''+'') \<and> CHR 0x00 \<notin> set line \<and> line \<noteq> []
          then Some \<lparr>sem_num = (n - 1) mod 65536, sem_op = (if c = CHR ''-'' then -1 else 1), sem_flg = SEM_UNDO\<rparr> else None
      | _ \<Rightarrow> None)"

lemma no_zero_line: "CHR 0x00 \<notin> set line \<Longrightarrow> takeWhile (\<lambda>c. c \<noteq> CHR 0x00) line = line"
  by (auto simp: takeWhile_eq_all_conv)

lemma line_operation_cases:
  assumes "line_operation line = Some sop"
  obtains n c where "\<And>old. sscanf_operation (butlast line) old = Some (Some n, Some c)" "int_ok (n - 1)" "c = CHR ''-'' \<or> c = CHR ''+''"
    "takeWhile (\<lambda>c. c \<noteq> CHR 0x00) line = line" "line \<noteq> []"
    "sop = \<lparr>sem_num = (n - 1) mod 65536, sem_op = (if c = CHR ''-'' then -1 else 1), sem_flg = SEM_UNDO\<rparr>"
proof -
  obtain n c where p: "sscanf_operation (butlast line) (None, None) = Some (Some n, Some c)" "int_ok (n - 1)"
    "c = CHR ''-'' \<or> c = CHR ''+''" "CHR 0x00 \<notin> set line" "line \<noteq> []"
    "sop = \<lparr>sem_num = (n - 1) mod 65536, sem_op = (if c = CHR ''-'' then -1 else 1), sem_flg = SEM_UNDO\<rparr>"
    using assms by (auto simp: line_operation_def split: option.splits if_splits)
  obtain rest where f: "fscanf_d (butlast line) = Some (Some (n, rest))"
    and c: "(case dropWhile is_space rest of [] \<Rightarrow> snd (None :: int option, None) | c # _ \<Rightarrow> Some c) = Some c"
    using p(1) unfolding sscanf_operation_def by (auto simp del: dropWhile_eq_Nil_conv split: option.splits)
  then have "sscanf_operation (butlast line) old = Some (Some n, Some c)" for old
    by (cases "dropWhile is_space rest") (simp_all add: sscanf_operation_def)
  with p show ?thesis using that no_zero_line [OF p(4)] by blast
qed

text \<open>A line with a number is none of the commands.\<close>

lemma operation_no_command:
  assumes "sscanf_operation l (None, None) = Some (Some n, Some c)"
  shows "l \<notin> {''begin'', ''commit'', ''rollback'', ''delete'', ''quit'', ''show''}"
proof -
  have "sscanf_operation x (None, None) = Some (None, None)"
    if "x \<in> {''begin'', ''commit'', ''rollback'', ''delete'', ''quit'', ''show''}" for x
    using that by (elim insertE emptyE) (simp_all add: sscanf_operation_def fscanf_d_def is_space_def is_digit_def)
  then show ?thesis using assms by force
qed

lemma operation_line:
  assumes "line_operation line = Some sop" "length (ops s) < 100"
  shows "\<exists>num cmd. do_line line s =
    (if is_inside_txn s then Next (s\<lparr>num_var := num, cmd_var := cmd, ops := ops s @ [sop]\<rparr>)
     else do_semop [sop] (\<lambda>s. s) (s\<lparr>num_var := num, cmd_var := cmd\<rparr>))"
proof -
  obtain n c where p: "\<And>old. sscanf_operation (butlast line) old = Some (Some n, Some c)" "int_ok (n - 1)"
    "c = CHR ''-'' \<or> c = CHR ''+''" "takeWhile (\<lambda>c. c \<noteq> CHR 0x00) line = line" "line \<noteq> []"
    "sop = \<lparr>sem_num = (n - 1) mod 65536, sem_op = (if c = CHR ''-'' then -1 else 1), sem_flg = SEM_UNDO\<rparr>"
    by (rule line_operation_cases [OF assms(1)], rule that)
  have "do_line line s = do_operation (butlast line) s"
    using p(4,5) operation_no_command [OF p(1)] by (simp only: do_line_def Let_def) simp
  also have "\<dots> = (if is_inside_txn s then Next (s\<lparr>num_var := Some n, cmd_var := Some c, ops := ops s @ [sop]\<rparr>)
     else do_semop [sop] (\<lambda>s. s) (s\<lparr>num_var := Some n, cmd_var := Some c\<rparr>))"
    using p(1,2,3,6) assms(2) by (auto simp: do_operation_def)
  finally show ?thesis by blast
qed

lemma operation_overflow:
  assumes "line_operation line = Some sop" "100 \<le> length (ops s)"
  shows "do_line line s = Undefined"
proof -
  obtain n c where p: "\<And>old. sscanf_operation (butlast line) old = Some (Some n, Some c)" "int_ok (n - 1)"
    "c = CHR ''-'' \<or> c = CHR ''+''" "takeWhile (\<lambda>c. c \<noteq> CHR 0x00) line = line" "line \<noteq> []"
    "sop = \<lparr>sem_num = (n - 1) mod 65536, sem_op = (if c = CHR ''-'' then -1 else 1), sem_flg = SEM_UNDO\<rparr>"
    by (rule line_operation_cases [OF assms(1)], rule that)
  have "do_line line s = do_operation (butlast line) s"
    using p(4,5) operation_no_command [OF p(1)] by (simp only: do_line_def Let_def) simp
  also have "\<dots> = Undefined"
    using p(1,3) assms(2) by (auto simp: do_operation_def)
  finally show ?thesis .
qed

lemma collect_operations:
  assumes "list_all2 (\<lambda>line sop. line_operation line = Some sop) lines sops" "is_inside_txn s" "length (ops s) + length lines \<le> 100"
  shows "\<exists>s'. run_lines lines s = Next s' \<and> vals s' = vals s \<and> adj s' = adj s \<and> is_inside_txn s' \<and> ops s' = ops s @ sops"
  using assms
proof (induction lines sops arbitrary: s rule: list_all2_induct)
  case (Cons line lines sop sops)
  have "length (ops s) < 100" using Cons.prems by simp
  then obtain num cmd where d: "do_line line s = Next (s\<lparr>num_var := num, cmd_var := cmd, ops := ops s @ [sop]\<rparr>)"
    using operation_line [OF Cons.hyps(1), of s] Cons.prems(1) by auto
  show ?case
    using Cons.IH [of "s\<lparr>num_var := num, cmd_var := cmd, ops := ops s @ [sop]\<rparr>"] Cons.prems d by simp
qed simp

lemma operations_one_by_one:
  assumes "list_all2 (\<lambda>line sop. line_operation line = Some sop) lines sops" "\<not> is_inside_txn s" "ops s = []" "length (vals s) = 3"
    "perform_semop sops (vals s) (adj s) = Sem_Done v a" "\<forall>sop \<in> set sops. 0 \<le> sem_num sop \<and> sem_num sop < 3"
  shows "\<exists>s'. run_lines lines s = Next s' \<and> vals s' = v \<and> adj s' = a \<and> \<not> is_inside_txn s' \<and> ops s' = []"
  using assms
proof (induction lines sops arbitrary: s rule: list_all2_induct)
  case (Cons line lines sop sops)
  obtain num cmd where d: "do_line line s = do_semop [sop] (\<lambda>s. s) (s\<lparr>num_var := num, cmd_var := cmd\<rparr>)"
    using operation_line [OF Cons.hyps(1), of s] Cons.prems(1,2) by auto
  obtain v1 a1 where one: "perform_semop [sop] (vals s) (adj s) = Sem_Done v1 a1" and rest: "perform_semop sops v1 a1 = Sem_Done v a"
    using Cons.prems(4) by (auto simp: Let_def split: if_splits)
  have "semop [sop] (vals s) (adj s) = Sem_Done v1 a1" using one Cons.prems(3,5) by (simp add: semop_def)
  moreover have "length v1 = 3" using perform_semop_length [OF one] Cons.prems(3) by simp
  ultimately have "do_line line s = Next (says (Values v1) (s\<lparr>num_var := num, cmd_var := cmd, vals := v1, adj := a1\<rparr>))"
    using d by (simp add: do_semop_def print_all_sems_def)
  then show ?case
    using Cons.IH [of "says (Values v1) (s\<lparr>num_var := num, cmd_var := cmd, vals := v1, adj := a1\<rparr>)"] Cons.prems rest \<open>length v1 = 3\<close>
    by simp
qed simp

lemma run_lines_append:
  "run_lines (as @ bs) s = (case run_lines as s of Next s \<Rightarrow> run_lines bs s | r \<Rightarrow> r)"
  by (induction as arbitrary: s) (auto split: outcome.split)

lemma begin_line: "do_line ''begin\<newline>'' s = Next (s\<lparr>is_inside_txn := True\<rparr>)"
  by (simp add: do_line_def)

lemma commit_line: "do_line ''commit\<newline>'' s = do_semop (ops s) (\<lambda>s. s\<lparr>is_inside_txn := False, ops := []\<rparr>) s"
  by (simp add: do_line_def)

text \<open>The lines from "begin" to "commit".\<close>

definition transaction :: "string list \<Rightarrow> string list" where
  "transaction lines = [''begin\<newline>''] @ lines @ [''commit\<newline>'']"

lemma run_transaction:
  assumes "list_all2 (\<lambda>line sop. line_operation line = Some sop) lines sops" "length lines \<le> 100" "ops s = []"
  shows "\<exists>s1. run_lines (transaction lines) s = do_semop sops (\<lambda>s. s\<lparr>is_inside_txn := False, ops := []\<rparr>) s1
    \<and> vals s1 = vals s \<and> adj s1 = adj s \<and> is_inside_txn s1 \<and> ops s1 = sops"
proof -
  obtain s1 where s1: "run_lines lines (s\<lparr>is_inside_txn := True\<rparr>) = Next s1" "vals s1 = vals s" "adj s1 = adj s"
    "is_inside_txn s1" "ops s1 = sops"
    using collect_operations [OF assms(1), of "s\<lparr>is_inside_txn := True\<rparr>"] assms(2,3) by auto
  have c: "run_lines [''commit\<newline>''] s1 = do_semop sops (\<lambda>s. s\<lparr>is_inside_txn := False, ops := []\<rparr>) s1"
    using s1(5) by (simp add: commit_line split: outcome.split)
  have "run_lines (transaction lines) s = do_semop sops (\<lambda>s. s\<lparr>is_inside_txn := False, ops := []\<rparr>) s1"
    using s1(1) c by (simp add: transaction_def begin_line run_lines_append)
  then show ?thesis using s1 by blast
qed

text \<open>C39: A transaction is all or nothing. When semop does its operations, the semaphores are as after the same lines one by one outside a transaction; when it fails, nothing has changed, and the transaction stays open; else the console waits.\<close>

theorem transaction_all_or_nothing:
  assumes "list_all2 (\<lambda>line sop. line_operation line = Some sop) lines sops" "length lines \<le> 100"
    and s: "ops s = []" "\<not> is_inside_txn s" "length (vals s) = 3"
  shows "case semop sops (vals s) (adj s) of
      Sem_Done v a \<Rightarrow> \<exists>s1 s2. run_lines (transaction lines) s = Next s1 \<and> run_lines lines s = Next s2
        \<and> vals s1 = v \<and> adj s1 = a \<and> vals s2 = v \<and> adj s2 = a \<and> \<not> is_inside_txn s1 \<and> ops s1 = []
    | Sem_Fails \<Rightarrow> \<exists>s1. run_lines (transaction lines) s = Next s1 \<and> vals s1 = vals s \<and> adj s1 = adj s
        \<and> is_inside_txn s1 \<and> ops s1 = sops
    | Sem_Blocks \<Rightarrow> run_lines (transaction lines) s = Waits"
proof -
  obtain s1 where s1: "run_lines (transaction lines) s = do_semop sops (\<lambda>s. s\<lparr>is_inside_txn := False, ops := []\<rparr>) s1"
    "vals s1 = vals s" "adj s1 = adj s" "is_inside_txn s1" "ops s1 = sops"
    using run_transaction [OF assms(1,2) s(1)] by blast
  show ?thesis
  proof (cases "semop sops (vals s) (adj s)")
    case (Sem_Done v a)
    then have p: "perform_semop sops (vals s) (adj s) = Sem_Done v a" "\<forall>sop \<in> set sops. 0 \<le> sem_num sop \<and> sem_num sop < 3"
      using s(3) by (auto simp: semop_def split: if_splits)
    have "length v = 3" using semop_length [OF Sem_Done] s(3) by simp
    then show ?thesis
      using Sem_Done s1 operations_one_by_one [OF assms(1) s(2,1,3) p] by (auto simp: do_semop_def print_all_sems_def)
  next
    case Sem_Blocks
    then show ?thesis using s1 by (simp add: do_semop_def)
  next
    case Sem_Fails
    then show ?thesis using s1 by (simp add: do_semop_def)
  qed
qed

definition fresh_console :: console where
  "fresh_console = \<lparr>vals = [1, 2, 3], adj = [0, 0, 0], ops = [], is_inside_txn = False, num_var = None, cmd_var = None, out = []\<rparr>"

lemma two_operations:
  "list_all2 (\<lambda>line sop. line_operation line = Some sop) [''1 -\<newline>'', ''3+\<newline>'']
     [\<lparr>sem_num = 0, sem_op = -1, sem_flg = SEM_UNDO\<rparr>, \<lparr>sem_num = 2, sem_op = 1, sem_flg = SEM_UNDO\<rparr>]"
  by (simp add: line_operation_def sscanf_operation_def fscanf_d_def is_space_def is_digit_def digits_val_def digit_val_def int_ok_def)

theorem transaction_all_or_nothing_witness:
  "\<exists>s1 s2. run_lines (transaction [''1 -\<newline>'', ''3+\<newline>'']) fresh_console = Next s1
     \<and> run_lines [''1 -\<newline>'', ''3+\<newline>''] fresh_console = Next s2 \<and> vals s1 = [0, 2, 4] \<and> vals s2 = [0, 2, 4]"
  using transaction_all_or_nothing [OF two_operations, of fresh_console]
  by (auto simp: fresh_console_def semop_def SEMVMX_def)

text \<open>
  A transaction without operations cannot be committed, and it stays open; the operation after the
  hundredth of a transaction is written past the array.
\<close>

theorem empty_commit_fails:
  "run_lines (transaction []) fresh_console = Next (fresh_console\<lparr>is_inside_txn := True, out := [Semop_Error]\<rparr>)"
  by (simp add: transaction_def do_line_def do_semop_def semop_def fresh_console_def says_def)

theorem transaction_overflow:
  assumes ops: "list_all2 (\<lambda>line sop. line_operation line = Some sop) lines sops" "length lines = 100"
    and extra: "line_operation line = Some sop" and s: "ops s = []"
  shows "run_lines ([''begin\<newline>''] @ lines @ [line]) s = Undefined"
proof -
  obtain s1 where s1: "run_lines lines (s\<lparr>is_inside_txn := True\<rparr>) = Next s1" "ops s1 = sops" 
    using collect_operations [OF ops(1), of "s\<lparr>is_inside_txn := True\<rparr>"] ops(2) s by auto
  have "length sops = 100" using ops by (simp add: list_all2_lengthD)
  have "do_line line s1 = Undefined" by (rule operation_overflow [OF extra]) (use s1(2) \<open>length sops = 100\<close> in simp)
  then show ?thesis using s1(1) by (simp add: begin_line run_lines_append)
qed

section \<open>Sessions\<close>

text \<open>
  What a session does: the operations outside of a transaction at once, those of a transaction when it is
  committed, and those of one that is rolled back never.
\<close>

definition known_line :: "string \<Rightarrow> bool" where
  "known_line line \<longleftrightarrow> line \<in> {''begin\<newline>'', ''commit\<newline>'', ''rollback\<newline>'', ''show\<newline>''} \<or> line_operation line \<noteq> None"

fun done_operations :: "string list \<Rightarrow> bool \<Rightarrow> sembuf list \<Rightarrow> sembuf list" where
  "done_operations [] inside pending = []"
| "done_operations (line # lines) inside pending =
     (if line = ''begin\<newline>'' then done_operations lines True pending
      else if line = ''commit\<newline>'' then pending @ done_operations lines False []
      else if line = ''rollback\<newline>'' then done_operations lines False []
      else case line_operation line of
          None \<Rightarrow> done_operations lines inside pending
        | Some sop \<Rightarrow> if inside then done_operations lines True (pending @ [sop])
            else sop # done_operations lines False pending)"

definition start_values :: "int list option \<Rightarrow> int list" where
  "start_values existing = (case existing of Some v \<Rightarrow> v | None \<Rightarrow> [1, 2, 3])"

lemma do_semop_effect:
  assumes "do_semop sops after s = Next s'" "Semop_Error \<notin> set (out s')" "length (adj s) = length (vals s)"
    "\<And>s. vals (after s) = vals s \<and> adj (after s) = adj s"
  shows "vals s' ! k = vals s ! k + net_change sops (int k) \<or> length (vals s) \<le> k" "length (vals s') = length (vals s)"
    "length (adj s') = length (vals s)" "\<exists>v a. s' = says (Values v) (after (s\<lparr>vals := v, adj := a\<rparr>))"
proof -
  obtain v a where d: "semop sops (vals s) (adj s) = Sem_Done v a" "s' = says (Values v) (after (s\<lparr>vals := v, adj := a\<rparr>))"
    using assms(1,2) assms(4) [of "s\<lparr>vals := x, adj := y\<rparr>" for x y]
    by (auto simp: do_semop_def print_all_sems_def says_def split: semop_result.splits if_splits)
  then have v: "vals s' = v" "adj s' = a" using assms(4) by simp_all
  show "vals s' ! k = vals s ! k + net_change sops (int k) \<or> length (vals s) \<le> k"
    using semop_value(1) [OF d(1) assms(3), of k] v by (cases "k < length (vals s)") auto
  show "length (vals s') = length (vals s)" "length (adj s') = length (vals s)"
    using semop_length [OF d(1)] v assms(3) by simp_all
  show "\<exists>v a. s' = says (Values v) (after (s\<lparr>vals := v, adj := a\<rparr>))" using d(2) by blast
qed

lemma do_semop_out: "do_semop sops after s = Next s' \<Longrightarrow> (\<And>s. out (after s) = out s) \<Longrightarrow> set (out s) \<subseteq> set (out s')"
  by (auto simp: do_semop_def print_all_sems_def says_def split: semop_result.splits if_splits)

lemma do_line_out:
  assumes "do_line line s = Next s'"
  shows "set (out s) \<subseteq> set (out s')"
proof -
  from assms consider "do_semop (ops s) (\<lambda>s. s\<lparr>is_inside_txn := False, ops := []\<rparr>) s = Next s'" | "print_all_sems s = Next s'"
    | l where "do_operation l s = Next s'" | "out s' = out s"
    by (auto simp: do_line_def Let_def split: if_splits)
  then show ?thesis
  proof cases
    case 1
    then show ?thesis by (rule do_semop_out) simp
  next
    case 3
    then show ?thesis
    proof (cases rule: do_operation_cases)
      case 2
      then show ?thesis using do_semop_out by fastforce
    qed (auto simp: says_def)
  qed (auto simp: print_all_sems_def says_def split: if_splits)
qed

lemma run_lines_out: "run_lines lines s = Next s' \<Longrightarrow> set (out s) \<subseteq> set (out s')"
proof (induction lines arbitrary: s)
  case (Cons line lines)
  then obtain t where "do_line line s = Next t" "run_lines lines t = Next s'" by (auto split: outcome.splits)
  then show ?case using Cons.IH do_line_out by blast
qed simp

lemma rollback_line: "do_line ''rollback\<newline>'' s = Next (s\<lparr>is_inside_txn := False, ops := []\<rparr>)"
  by (simp add: do_line_def)

lemma show_line: "do_line ''show\<newline>'' s = print_all_sems s"
  by (simp add: do_line_def)

lemma command_no_operation:
  "line_operation ''begin\<newline>'' = None" "line_operation ''commit\<newline>'' = None" "line_operation ''rollback\<newline>'' = None"
  "line_operation ''show\<newline>'' = None"
  by (simp_all add: line_operation_def sscanf_operation_def fscanf_d_def is_space_def is_digit_def)

text \<open>One line: what it adds to the semaphores, and the operations that it leaves to the commit.\<close>

lemma known_line_effect:
  assumes "known_line line" "do_line line s = Next s'" "Semop_Error \<notin> set (out s')" "length (adj s) = length (vals s)"
  obtains sops where "\<And>lines. done_operations (line # lines) (is_inside_txn s) (ops s) =
      sops @ done_operations lines (is_inside_txn s') (ops s')"
    "\<And>k. vals s' ! k = vals s ! k + net_change sops (int k) \<or> length (vals s) \<le> k"
    "length (vals s') = length (vals s)" "length (adj s') = length (vals s)"
proof -
  consider "line = ''begin\<newline>''" | "line = ''commit\<newline>''" | "line = ''rollback\<newline>''" | "line = ''show\<newline>''"
    | sop where "line_operation line = Some sop"
    using assms(1) by (auto simp: known_line_def)
  then show ?thesis
  proof cases
    case 1
    then show ?thesis using assms(2,4) by (intro that [of "[]"]) (auto simp: begin_line)
  next
    case 2
    then have d: "do_semop (ops s) (\<lambda>s. s\<lparr>is_inside_txn := False, ops := []\<rparr>) s = Next s'" using assms(2) by (simp add: commit_line)
    note e = do_semop_effect [OF d assms(3,4)]
    have "is_inside_txn s' = False" "ops s' = []" using e(4) by auto
    then show ?thesis using e(1-3) 2 by (intro that [of "ops s"]) auto
  next
    case 3
    then show ?thesis using assms(2,4) by (intro that [of "[]"]) (auto simp: rollback_line)
  next
    case 4
    then show ?thesis using assms(2,4) command_no_operation(4)
      by (intro that [of "[]"]) (auto simp: show_line print_all_sems_def split: if_splits)
  next
    case 5
    have no: "line \<noteq> ''begin\<newline>''" "line \<noteq> ''commit\<newline>''" "line \<noteq> ''rollback\<newline>''"
      using 5 command_no_operation by auto
    have "length (ops s) < 100" using operation_overflow [OF 5, of s] assms(2) by (cases "length (ops s) < 100") simp_all
    from operation_line [OF 5 this] obtain num cmd where l: "do_line line s =
      (if is_inside_txn s then Next (s\<lparr>num_var := num, cmd_var := cmd, ops := ops s @ [sop]\<rparr>)
       else do_semop [sop] (\<lambda>s. s) (s\<lparr>num_var := num, cmd_var := cmd\<rparr>))" by blast
    show ?thesis
    proof (cases "is_inside_txn s")
      case True
      then have "s' = s\<lparr>num_var := num, cmd_var := cmd, ops := ops s @ [sop]\<rparr>" using l assms(2) by simp
      then show ?thesis using True 5 no assms(4) by (intro that [of "[]"]) auto
    next
      case False
      then have d: "do_semop [sop] (\<lambda>s. s) (s\<lparr>num_var := num, cmd_var := cmd\<rparr>) = Next s'" using l assms(2) by simp
      note e = do_semop_effect [OF d assms(3)]
      have "is_inside_txn s' = is_inside_txn s" "ops s' = ops s" using e(4) assms(4) by auto
      then show ?thesis using e(1-3) assms(4) 5 no False by (intro that [of "[sop]"]) auto
    qed
  qed
qed

lemma session_effect:
  assumes "run_lines lines s = Next s'" "\<forall>line \<in> set lines. known_line line" "Semop_Error \<notin> set (out s')"
    "length (adj s) = length (vals s)" "k < length (vals s)"
  shows "vals s' ! k = vals s ! k + net_change (done_operations lines (is_inside_txn s) (ops s)) (int k) \<and>
    length (vals s') = length (vals s)"
  using assms
proof (induction lines arbitrary: s)
  case (Cons line lines)
  obtain t where t: "do_line line s = Next t" "run_lines lines t = Next s'" using Cons.prems(1) by (auto split: outcome.splits)
  have "Semop_Error \<notin> set (out t)" using run_lines_out [OF t(2)] Cons.prems(3) by blast
  moreover have "known_line line" using Cons.prems(2) by simp
  ultimately obtain sops where e: "\<And>lines. done_operations (line # lines) (is_inside_txn s) (ops s) =
      sops @ done_operations lines (is_inside_txn t) (ops t)"
    "\<And>k. vals t ! k = vals s ! k + net_change sops (int k) \<or> length (vals s) \<le> k"
    "length (vals t) = length (vals s)" "length (adj t) = length (vals s)"
    using known_line_effect [OF _ t(1) _ Cons.prems(4)] by metis
  have "\<forall>line \<in> set lines. known_line line" using Cons.prems(2) by simp
  from Cons.IH [OF t(2) this Cons.prems(3)] show ?case
    using e(3,4) e(2) [of k] Cons.prems(5) unfolding e(1) by auto
qed simp

lemma connect_start:
  assumes "connect_sems existing = Next s"
  shows "console_inv (start_values existing) s" "vals s = start_values existing" "ops s = []" "\<not> is_inside_txn s"
    "length (adj s) = length (vals s)" "out s = [] \<or> out s = [Values [1, 2, 3]]"
  using assms by (auto simp: connect_sems_def init_sems_def print_all_sems_def console_inv_def says_def start_values_def nth_Cons'
      split: option.splits)

lemma sem_main_connects:
  assumes "sem_main existing lines = r" "r = Next s' \<or> r = Ended w"
  obtains s where "connect_sems existing = Next s" "run_lines lines s = r"
  using assms by (auto simp: sem_main_def connect_sems_def init_sems_def print_all_sems_def split: outcome.splits option.splits)

lemma run_lines_inv: "run_lines lines s = Next s' \<Longrightarrow> console_inv v s \<Longrightarrow> console_inv v s'"
proof (induction lines arbitrary: s)
  case (Cons line lines)
  then obtain t where "do_line line s = Next t" "run_lines lines t = Next s'" by (auto split: outcome.splits)
  then show ?case using Cons.IH do_line_keeps_inv [OF Cons.prems(2)] by blast
qed simp

text \<open>C40: What a session does, and that it takes it back. While it goes on, every line having been a command or an
  operation and no semop having failed, each semaphore has the value with which the process has found or
  made it plus the operations on its number: those outside of transactions, with + for 1 and - for -1, and those of
  the transactions that were committed, but none of one that was rolled back or is still open. And whatever lines were typed before, failed ones included, after
  "quit" the semaphores have the values with which the process has found or made them, since the code
  sets SEM_UNDO in every operation.\<close>

theorem session_is_undone:
  assumes "case existing of Some v \<Rightarrow> \<forall>x \<in> set v. 0 \<le> x \<and> x \<le> SEMVMX | None \<Rightarrow> True"
  shows "(\<forall>lines w. sem_main existing lines = Ended (Some w) \<longrightarrow> w = start_values existing) \<and>
    (\<forall>lines s. sem_main existing lines = Next s \<longrightarrow>
       sem_main existing (lines @ [''quit\<newline>'']) = Ended (Some (start_values existing)) \<and>
       ((\<forall>line \<in> set lines. known_line line) \<longrightarrow> Semop_Error \<notin> set (out s) \<longrightarrow>
        (\<forall>k < length (vals s). vals s ! k = start_values existing ! k + net_change (done_operations lines False []) (int k))))"
proof -
  have ok: "\<forall>x \<in> set (start_values existing). 0 \<le> x \<and> x \<le> SEMVMX"
    using assms by (auto simp: SEMVMX_def start_values_def split: option.splits)
  have undone: "w = start_values existing" if m: "sem_main existing lines = Ended (Some w)" for lines w
  proof -
    obtain s where s: "connect_sems existing = Next s" "run_lines lines s = Ended (Some w)"
      using sem_main_connects [OF m] by blast
    from run_lines_ended [OF s(2) connect_start(1) [OF s(1)]] obtain s' where
      "console_inv (start_values existing) s'" "w = sem_exit (adj s') (vals s')" by blast
    then show ?thesis using sem_exit_restores [OF _ ok] by simp
  qed
  have going: "sem_main existing (lines @ [''quit\<newline>'']) = Ended (Some (start_values existing)) \<and>
       ((\<forall>line \<in> set lines. known_line line) \<longrightarrow> Semop_Error \<notin> set (out s) \<longrightarrow>
        (\<forall>k < length (vals s). vals s ! k = start_values existing ! k + net_change (done_operations lines False []) (int k)))"
    if m: "sem_main existing lines = Next s" for lines s
  proof -
    obtain s0 where s0: "connect_sems existing = Next s0" "run_lines lines s0 = Next s"
      using sem_main_connects [OF m] by blast
    note start = connect_start [OF s0(1)]
    have inv: "console_inv (start_values existing) s" by (rule run_lines_inv [OF s0(2) start(1)])
    have quit: "do_line ''quit\<newline>'' s = Ended (Some (sem_exit (adj s) (vals s)))" by (simp add: do_line_def)
    have "sem_main existing (lines @ [''quit\<newline>'']) = Ended (Some (start_values existing))"
      using s0 quit sem_exit_restores [OF inv ok] by (simp add: sem_main_def run_lines_append)
    then show ?thesis using session_effect [OF s0(2) _ _ start(5)] start(2-4) inv by (auto simp: console_inv_def)
  qed
  show ?thesis using undone going by blast
qed

theorem session_is_undone_witness:
  "\<exists>s. sem_main None [''2 -\<newline>'', ''begin\<newline>'', ''1 +\<newline>'', ''3 -\<newline>'', ''commit\<newline>'', ''show\<newline>''] = Next s \<and>
     vals s ! 0 = 2 \<and> vals s ! 2 = 2 \<and>
     sem_main None [''2 -\<newline>'', ''begin\<newline>'', ''1 +\<newline>'', ''3 -\<newline>'', ''commit\<newline>'', ''show\<newline>'', ''quit\<newline>''] = Ended (Some [1, 2, 3])"
proof -
  let ?lines = "[''2 -\<newline>'', ''begin\<newline>'', ''1 +\<newline>'', ''3 -\<newline>'', ''commit\<newline>'', ''show\<newline>'']"
  note ev = sem_main_def connect_sems_def init_sems_def print_all_sems_def do_line_def do_operation_def sscanf_operation_def
        fscanf_d_def is_space_def is_digit_def digits_val_def digit_val_def do_semop_def semop_def SEMVMX_def says_def int_ok_def
  have "\<exists>s. sem_main None ?lines = Next s \<and> Semop_Error \<notin> set (out s) \<and> length (vals s) = 3"
    by (simp add: ev)
  then obtain s where s: "sem_main None ?lines = Next s" "Semop_Error \<notin> set (out s)" "length (vals s) = 3" by blast
  have ops: "line_operation ''2 -\<newline>'' = Some \<lparr>sem_num = 1, sem_op = -1, sem_flg = SEM_UNDO\<rparr>"
    "line_operation ''1 +\<newline>'' = Some \<lparr>sem_num = 0, sem_op = 1, sem_flg = SEM_UNDO\<rparr>"
    "line_operation ''3 -\<newline>'' = Some \<lparr>sem_num = 2, sem_op = -1, sem_flg = SEM_UNDO\<rparr>"
    by (simp_all add: line_operation_def sscanf_operation_def fscanf_d_def is_space_def is_digit_def digits_val_def digit_val_def int_ok_def)
  have known: "\<forall>line \<in> set ?lines. known_line line" using ops by (simp add: known_line_def)
  have listed: "done_operations ?lines False [] = [\<lparr>sem_num = 1, sem_op = -1, sem_flg = SEM_UNDO\<rparr>,
      \<lparr>sem_num = 0, sem_op = 1, sem_flg = SEM_UNDO\<rparr>, \<lparr>sem_num = 2, sem_op = -1, sem_flg = SEM_UNDO\<rparr>]"
    using ops command_no_operation by simp
  have no_sems: "case None :: int list option of Some v \<Rightarrow> \<forall>x \<in> set v. 0 \<le> x \<and> x \<le> SEMVMX | None \<Rightarrow> True" by simp
  note main = session_is_undone [OF no_sems, THEN conjunct2, rule_format, OF s(1)]
  have "\<forall>k < 3. vals s ! k = [1, 2, 3] ! k + net_change (done_operations ?lines False []) (int k)"
    using main [THEN conjunct2] known s(2,3) unfolding start_values_def by simp
  then have "vals s ! 0 = 2 \<and> vals s ! 2 = 2" unfolding listed by (simp add: net_change_def)
  moreover have "sem_main None (?lines @ [''quit\<newline>'']) = Ended (Some [1, 2, 3])"
    using main [THEN conjunct1] by (simp add: start_values_def)
  ultimately show ?thesis using s(1) by auto
qed

end
