(* ===== verification/Complex_Thing.thy ===== *)
theory Complex_Thing
  imports Prelude
begin

text \<open>
  6_bad_lock.c and 7_spin_lock.c of lecture_examples/6_threads: threads that fill one string with their
  letter if they find its lock open, which the one tests and sets in two accesses, the other in one. A step is
  one access of the shared memory, which is sequentially consistent.
\<close>

section \<open>The threads\<close>

datatype thing_pc = T_Start | T_Test | T_Set | T_Fill nat | T_Unlock | T_Done

record complex_thing =
  lock :: bool
  the_string :: string
  start :: bool
  at :: "nat \<Rightarrow> thing_pc"

definition thing_initial :: complex_thing where
  "thing_initial = \<lparr>lock = False, the_string = replicate 128 (CHR 0x00), start = False, at = \<lambda>_. T_Start\<rparr>"

definition thing_goto :: "nat \<Rightarrow> thing_pc \<Rightarrow> complex_thing \<Rightarrow> complex_thing" where
  "thing_goto i pc s = s\<lparr>at := (at s)(i := pc)\<rparr>"

definition letter :: "nat \<Rightarrow> char" where
  "letter i = char_of (97 + i)"

text \<open>One turn of the loop that fills the string, and what follows it.\<close>

definition fill_string :: "nat \<Rightarrow> nat \<Rightarrow> thing_pc \<Rightarrow> complex_thing \<Rightarrow> complex_thing" where
  "fill_string i k next s =
     (if k < 128 - 1 then thing_goto i (T_Fill (k + 1)) (s\<lparr>the_string := (the_string s)[k := letter i]\<rparr>)
      else thing_goto i next s)"

definition bad_thread_f :: "nat \<Rightarrow> complex_thing \<Rightarrow> complex_thing option" where
  "bad_thread_f i s = (case at s i of
     T_Start \<Rightarrow> if start s then Some (thing_goto i T_Test s) else None
   | T_Test \<Rightarrow> Some (thing_goto i (if lock s then T_Done else T_Set) s)
   | T_Set \<Rightarrow> Some (thing_goto i (T_Fill 0) (s\<lparr>lock := True\<rparr>))
   | T_Fill k \<Rightarrow> Some (fill_string i k T_Done s)
   | _ \<Rightarrow> None)"

definition spin_thread_f :: "nat \<Rightarrow> complex_thing \<Rightarrow> complex_thing option" where
  "spin_thread_f i s = (case at s i of
     T_Start \<Rightarrow> if start s then Some (thing_goto i T_Test s) else None
   | T_Test \<Rightarrow> Some (if lock s then thing_goto i T_Done s else thing_goto i (T_Fill 0) (s\<lparr>lock := True\<rparr>))
   | T_Fill k \<Rightarrow> Some (fill_string i k T_Unlock s)
   | T_Unlock \<Rightarrow> Some (thing_goto i T_Done (if lock s then s\<lparr>lock := False\<rparr> else s))
   | _ \<Rightarrow> None)"

text \<open>main lets the n threads start; when all have ended it prints the string.\<close>

definition thing_step :: "(nat \<Rightarrow> complex_thing \<Rightarrow> complex_thing option) \<Rightarrow> nat \<Rightarrow> complex_thing \<Rightarrow> complex_thing \<Rightarrow> bool" where
  "thing_step thread_f n s s' \<longleftrightarrow> s' = s\<lparr>start := True\<rparr> \<or> (\<exists>i < n. thread_f i s = Some s')"

definition printed_string :: "complex_thing \<Rightarrow> string" where
  "printed_string s = takeWhile (\<lambda>c. c \<noteq> CHR 0x00) (the_string s)"

definition all_joined :: "nat \<Rightarrow> complex_thing \<Rightarrow> bool" where
  "all_joined n s \<longleftrightarrow> (\<forall>i < n. at s i = T_Done)"

section \<open>The lock that is one access\<close>

definition holds :: "thing_pc \<Rightarrow> bool" where
  "holds pc \<longleftrightarrow> (\<exists>k. pc = T_Fill k) \<or> pc = T_Unlock"

definition filled :: "thing_pc \<Rightarrow> nat" where
  "filled pc = (case pc of T_Fill k \<Rightarrow> k | _ \<Rightarrow> 127)"

text \<open>
  The one thread that holds the lock has filled the string so far; while none does, the string has one letter, or
  no thread has come to the lock.
\<close>

definition holder_inv :: "nat \<Rightarrow> complex_thing \<Rightarrow> bool" where
  "holder_inv n s \<longleftrightarrow> (\<forall>i j. holds (at s i) \<longrightarrow> holds (at s j) \<longrightarrow> i = j)
     \<and> (lock s \<longleftrightarrow> (\<exists>i < n. holds (at s i))) \<and> (\<forall>i. holds (at s i) \<longrightarrow> i < n \<and> filled (at s i) \<le> 127)"

definition string_inv :: "nat \<Rightarrow> complex_thing \<Rightarrow> bool" where
  "string_inv n s \<longleftrightarrow> length (the_string s) = 128 \<and> the_string s ! 127 = CHR 0x00
     \<and> (\<forall>i. holds (at s i) \<longrightarrow> take (filled (at s i)) (the_string s) = replicate (filled (at s i)) (letter i))
     \<and> (lock s \<or> (\<forall>i < n. at s i \<in> {T_Start, T_Test}) \<or> (\<exists>i < n. take 127 (the_string s) = replicate 127 (letter i)))"

lemmas thing_defs = thing_goto_def holds_def filled_def

lemma holder_invD:
  assumes "holder_inv n s"
  shows "holds (at s i) \<Longrightarrow> holds (at s j) \<Longrightarrow> i = j" "lock s \<longleftrightarrow> (\<exists>i < n. holds (at s i))"
    "holds (at s i) \<Longrightarrow> i < n \<and> filled (at s i) \<le> 127" "holds (at s i) \<Longrightarrow> lock s"
  using assms unfolding holder_inv_def by blast+

text \<open>A step of thread i, by where it goes: it takes the lock, keeps it, gives it back or never has it.\<close>

lemma goto_holder_inv:
  assumes inv: "holder_inv n s" and i: "i < n" and at: "at s' = (at s)(i := pc)" and le: "filled pc \<le> 127"
    and l: "holds pc \<Longrightarrow> lock s' \<and> (holds (at s i) \<or> \<not> lock s)" "\<not> holds pc \<Longrightarrow> lock s' = (lock s \<and> \<not> holds (at s i))"
  shows "holder_inv n s'"
proof -
  have others: "\<not> holds (at s j)" if "j \<noteq> i" "holds pc \<or> holds (at s i)" for j
    using that l(1) holder_invD [OF inv] by blast
  have "lock s' \<longleftrightarrow> (\<exists>j < n. holds (at s' j))"
  proof (cases "holds pc")
    case True
    then show ?thesis using l(1) i at by auto
  next
    case False
    then show ?thesis using l(2) others at holder_invD(2) [OF inv] by auto
  qed
  moreover have "holds (at s' j) \<Longrightarrow> holds (at s' k) \<Longrightarrow> j = k" for j k
    using others holder_invD(1) [OF inv, of j k] at by (auto split: if_splits)
  moreover have "holds (at s' j) \<Longrightarrow> j < n \<and> filled (at s' j) \<le> 127" for j
    using i le at holder_invD(3) [OF inv, of j] by (auto split: if_splits)
  ultimately show ?thesis unfolding holder_inv_def by blast
qed

lemma take_update: "k < length xs \<Longrightarrow> take k xs = replicate k c \<Longrightarrow> take (Suc k) (xs[k := c]) = replicate (Suc k) c"
  by (simp add: take_Suc_conv_app_nth replicate_append_same)

lemma spin_keeps_inv:
  assumes h: "holder_inv n s" and s: "string_inv n s" and i: "i < n" and w: "spin_thread_f i s = Some s'"
  shows "holder_inv n s' \<and> string_inv n s'"
proof (cases "at s i")
  case T_Start
  then have s': "s' = thing_goto i T_Test s" using w by (auto simp: spin_thread_f_def split: if_splits)
  have "holder_inv n s'" by (rule goto_holder_inv [OF h i, where pc = T_Test]) (use T_Start s' in \<open>auto simp: thing_defs\<close>)
  moreover have "string_inv n s'" using s T_Start unfolding s' string_inv_def by (auto simp: thing_defs)
  ultimately show ?thesis by blast
next
  case T_Test
  show ?thesis
  proof (cases "lock s")
    case True
    then have s': "s' = thing_goto i T_Done s" using w T_Test by (simp add: spin_thread_f_def)
    have "holder_inv n s'"
      by (rule goto_holder_inv [OF h i, where pc = T_Done]) (use T_Test s' True in \<open>auto simp: thing_defs\<close>)
    moreover have "string_inv n s'" using s T_Test True unfolding s' string_inv_def by (auto simp: thing_defs)
    ultimately show ?thesis by blast
  next
    case False
    then have s': "s' = thing_goto i (T_Fill 0) (s\<lparr>lock := True\<rparr>)" using w T_Test by (simp add: spin_thread_f_def)
    have "holder_inv n s'"
      by (rule goto_holder_inv [OF h i, where pc = "T_Fill 0"]) (use T_Test s' False in \<open>auto simp: thing_defs\<close>)
    moreover have "string_inv n s'" using s T_Test unfolding s' string_inv_def by (auto simp: thing_defs)
    ultimately show ?thesis by blast
  qed
next
  case (T_Fill k)
  have holder: "holds (at s i)" using T_Fill by (simp add: holds_def)
  have l: "lock s" and k: "k \<le> 127" using holder_invD(3,4) [OF h holder] T_Fill by (auto simp: filled_def)
  have "take (filled (at s i)) (the_string s) = replicate (filled (at s i)) (letter i)"
    using s holder unfolding string_inv_def by blast
  then have str: "take k (the_string s) = replicate k (letter i)" "length (the_string s) = 128" "the_string s ! 127 = CHR 0x00"
    using s T_Fill by (simp_all add: string_inv_def filled_def)
  have others: "\<not> holds (at s j)" if "j \<noteq> i" for j using holder_invD(1) [OF h holder] that by blast
  show ?thesis
  proof (cases "k < 127")
    case True
    then have s': "s' = thing_goto i (T_Fill (k + 1)) (s\<lparr>the_string := (the_string s)[k := letter i]\<rparr>)"
      using w T_Fill by (simp add: spin_thread_f_def fill_string_def)
    have "holder_inv n s'"
      by (rule goto_holder_inv [OF h i, where pc = "T_Fill (k + 1)"]) (use T_Fill s' l True in \<open>auto simp: thing_defs\<close>)
    moreover have "take (Suc k) ((the_string s)[k := letter i]) = replicate (Suc k) (letter i)"
      using str True by (intro take_update) simp_all
    then have "string_inv n s'"
      using str True l others unfolding s' string_inv_def by (auto simp: thing_goto_def filled_def)
    ultimately show ?thesis by blast
  next
    case False
    then have s': "s' = thing_goto i T_Unlock s" and k127: "k = 127"
      using w T_Fill k by (auto simp: spin_thread_f_def fill_string_def)
    have "holder_inv n s'"
      by (rule goto_holder_inv [OF h i, where pc = T_Unlock]) (use T_Fill s' l in \<open>auto simp: thing_defs\<close>)
    moreover have "string_inv n s'"
      using str k127 l others unfolding s' string_inv_def by (auto simp: thing_goto_def filled_def)
    ultimately show ?thesis by blast
  qed
next
  case T_Unlock
  have holder: "holds (at s i)" using T_Unlock by (simp add: holds_def)
  have l: "lock s" by (rule holder_invD(4) [OF h holder])
  have s': "s' = thing_goto i T_Done (s\<lparr>lock := False\<rparr>)" using w T_Unlock l by (simp add: spin_thread_f_def)
  have "holder_inv n s'"
    by (rule goto_holder_inv [OF h i, where pc = T_Done]) (use T_Unlock s' in \<open>auto simp: thing_defs\<close>)
  moreover have "string_inv n s'"
    using s holder i holder_invD(1) [OF h holder] T_Unlock unfolding s' string_inv_def by (auto simp: thing_goto_def filled_def holds_def)
  ultimately show ?thesis by blast
qed (use w in \<open>simp_all add: spin_thread_f_def\<close>)

lemma thing_initial_inv: "holder_inv n thing_initial \<and> string_inv n thing_initial"
proof -
  have "the_string thing_initial ! 127 = CHR 0x00" by (simp add: thing_initial_def)
  then show ?thesis by (simp add: thing_initial_def holder_inv_def string_inv_def holds_def)
qed

interpretation spin_thing: invariant_system "\<lambda>s. s = thing_initial" "thing_step spin_thread_f n"
  "\<lambda>s. holder_inv n s \<and> string_inv n s" for n
proof
  show "holder_inv n s \<and> string_inv n s" if "s = thing_initial" for s using that thing_initial_inv by simp
  show "holder_inv n s' \<and> string_inv n s'" if inv: "holder_inv n s \<and> string_inv n s" and st: "thing_step spin_thread_f n s s'" for s s'
    using st unfolding thing_step_def
  proof (elim disjE exE conjE)
    assume "s' = s\<lparr>start := True\<rparr>"
    then have "holder_inv n s' = holder_inv n s" "string_inv n s' = string_inv n s"
      by (simp_all add: holder_inv_def string_inv_def)
    then show ?thesis using inv by simp
  qed (use inv spin_keeps_inv in blast)
qed

lemma letter_not_zero:
  assumes "i < 6"
  shows "letter i \<noteq> CHR 0x00"
proof
  assume "letter i = CHR 0x00"
  then have "of_char (letter i) = (0 :: nat)" by simp
  moreover have "of_char (letter i) = 97 + i" using assms by (simp add: letter_def of_char_of)
  ultimately show False by simp
qed

lemma letters_before_zero: "c \<noteq> CHR 0x00 \<Longrightarrow> takeWhile (\<lambda>c. c \<noteq> CHR 0x00) (replicate k c @ [CHR 0x00]) = replicate k c"
  by (induction k) auto

text \<open>With the lock that is tested and set in one access the string that main prints has the letter of one thread 127 times, however the threads interleave.\<close>

theorem spin_string_uniform:
  assumes "reachable (\<lambda>s. s = thing_initial) (thing_step spin_thread_f n) s" "all_joined n s" "0 < n" "n \<le> 6"
  shows "\<exists>i < n. printed_string s = replicate 127 (letter i)"
proof -
  have inv: "holder_inv n s" "string_inv n s" using spin_thing.reachable_has_inv [OF assms(1)] by simp_all
  have ended: "at s i = T_Done" if "i < n" for i using assms(2) that by (simp add: all_joined_def)
  then have "\<not> lock s" using holder_invD(2) [OF inv(1)] by (auto simp: holds_def)
  moreover have "\<not> (\<forall>i < n. at s i \<in> {T_Start, T_Test})" using ended [of 0] assms(3) by auto
  ultimately obtain i where i: "i < n" "take 127 (the_string s) = replicate 127 (letter i)"
    using inv(2) unfolding string_inv_def by blast
  have len: "length (the_string s) = 128" "the_string s ! 127 = CHR 0x00" using inv(2) by (simp_all add: string_inv_def)
  have "the_string s = take 127 (the_string s) @ drop 127 (the_string s)" by simp
  also have "drop 127 (the_string s) = [CHR 0x00]" using len by (simp add: Cons_nth_drop_Suc [symmetric])
  finally have "the_string s = replicate 127 (letter i) @ [CHR 0x00]" using i(2) by simp
  moreover have "letter i \<noteq> CHR 0x00" using i(1) assms(4) by (intro letter_not_zero) simp
  ultimately have "printed_string s = replicate 127 (letter i)" by (simp add: printed_string_def letters_before_zero)
  then show ?thesis using i(1) by blast
qed

section \<open>The lock that is two accesses\<close>

text \<open>Runs: the numbers of the threads that make a step.\<close>

fun run_things :: "(nat \<Rightarrow> complex_thing \<Rightarrow> complex_thing option) \<Rightarrow> nat list \<Rightarrow> complex_thing \<Rightarrow> complex_thing option" where
  "run_things f [] s = Some s"
| "run_things f (i # is) s = do { s \<leftarrow> f i s; run_things f is s }"

lemma run_things_steps:
  "run_things f is s = Some s' \<Longrightarrow> \<forall>i \<in> set is. i < n \<Longrightarrow> (thing_step f n)\<^sup>*\<^sup>* s s'"
proof (induction "is" arbitrary: s)
  case (Cons i "is")
  then obtain u where u: "f i s = Some u" "run_things f is u = Some s'" by (auto split: bind_splits)
  then have "thing_step f n s u" using Cons.prems(2) by (auto simp: thing_step_def)
  then show ?case using Cons.IH [OF u(2)] Cons.prems(2) by (simp add: converse_rtranclp_into_rtranclp)
qed simp

text \<open>The thread that fills the string can go on to the end of it.\<close>

lemma fill_to_end:
  assumes f: "\<And>s k. at s i = T_Fill k \<Longrightarrow> f i s = Some (fill_string i k next s)"
    and "at s i = T_Fill k" "k \<le> 127" "length (the_string s) = 128"
  shows "run_things f (replicate (128 - k) i) s =
    Some (thing_goto i next (s\<lparr>the_string := take k (the_string s) @ replicate (127 - k) (letter i) @ drop 127 (the_string s)\<rparr>))"
  using assms(2-4)
proof (induction "127 - k" arbitrary: k s)
  case 0
  then have "k = 127" by simp
  then show ?case using 0 f [of s k] by (simp add: fill_string_def thing_goto_def)
next
  case (Suc m)
  then have k: "k < 127" by simp
  let ?s = "thing_goto i (T_Fill (k + 1)) (s\<lparr>the_string := (the_string s)[k := letter i]\<rparr>)"
  have step: "f i s = Some ?s" using f [OF Suc.prems(1)] k by (simp add: fill_string_def)
  have "run_things f (replicate (128 - (k + 1)) i) ?s =
    Some (thing_goto i next (?s\<lparr>the_string := take (k + 1) (the_string ?s) @ replicate (127 - (k + 1)) (letter i) @ drop 127 (the_string ?s)\<rparr>))"
    using Suc.hyps(2) Suc.prems k by (intro Suc.hyps(1)) (simp_all add: thing_goto_def)
  moreover have "replicate (128 - k) i = i # replicate (128 - (k + 1)) i"
    using k by (simp flip: replicate_Suc add: Suc_diff_Suc)
  moreover have "take (Suc k) ((the_string s)[k := letter i]) @ replicate (127 - Suc k) (letter i) @ drop 127 ((the_string s)[k := letter i])
    = take k (the_string s) @ replicate (127 - k) (letter i) @ drop 127 (the_string s)"
  proof -
    have "replicate (127 - k) (letter i) = letter i # replicate (127 - Suc k) (letter i)"
      using k by (simp flip: replicate_Suc add: Suc_diff_Suc)
    then show ?thesis using k Suc.prems(3) by (simp add: take_Suc_conv_app_nth)
  qed
  ultimately show ?case using step by (simp add: thing_goto_def)
qed

definition started :: "nat list" where
  "started = [0, 0, 1, 1]"

text \<open>The threads 2 to 5 find the lock taken.\<close>

definition others_leave :: "nat list" where
  "others_leave = [2, 2, 3, 3, 4, 4, 5, 5]"

lemma run_things_append: "run_things f as s = Some t \<Longrightarrow> run_things f bs t = Some u \<Longrightarrow> run_things f (as @ bs) s = Some u"
  by (induction as arbitrary: s) (auto split: bind_splits)

lemma bad_fill: "at s i = T_Fill k \<Longrightarrow> bad_thread_f i s = Some (fill_string i k T_Done s)"
  by (simp add: bad_thread_f_def)

lemma spin_fill: "at s i = T_Fill k \<Longrightarrow> spin_thread_f i s = Some (fill_string i k T_Unlock s)"
  by (simp add: spin_thread_f_def)

text \<open>
  Both threads see the lock open. Thread 0 writes its first letter, thread 1 fills the whole string, and then
  thread 0 goes on.
\<close>

theorem bad_lock_mixes_letters:
  "\<exists>s. reachable (\<lambda>s. s = thing_initial) (thing_step bad_thread_f 6) s \<and> all_joined 6 s
    \<and> printed_string s = letter 1 # replicate 126 (letter 0)"
proof -
  let ?s0 = "thing_initial\<lparr>start := True\<rparr>"
  let ?s1 = "?s0\<lparr>lock := True, the_string := (replicate 128 (CHR 0x00))[0 := letter 0],
    at := (\<lambda>_. T_Start)(0 := T_Fill 1, 1 := T_Fill 0, 2 := T_Done, 3 := T_Done, 4 := T_Done, 5 := T_Done)\<rparr>"
  let ?str2 = "replicate 127 (letter 1) @ [CHR 0x00]"
  let ?s2 = "thing_goto 1 T_Done (?s1\<lparr>the_string := ?str2\<rparr>)"
  let ?s3 = "thing_goto 0 T_Done (?s2\<lparr>the_string := letter 1 # replicate 126 (letter 0) @ [CHR 0x00]\<rparr>)"
  have r1: "run_things bad_thread_f (started @ [0] @ others_leave @ [0, 1]) ?s0 = Some ?s1"
    by (simp add: started_def others_leave_def thing_initial_def bad_thread_f_def thing_goto_def fill_string_def fun_eq_iff)
  have "drop 127 ((replicate 128 (CHR 0x00))[0 := letter 0]) = [CHR 0x00]" by (simp add: drop_update_cancel)
  then have r2: "run_things bad_thread_f (replicate 128 1) ?s1 = Some ?s2"
    using fill_to_end [where f = bad_thread_f and i = 1 and s = ?s1 and k = 0, OF bad_fill] by simp
  have "take 1 ?str2 @ replicate 126 (letter 0) @ drop 127 ?str2 = letter 1 # replicate 126 (letter 0) @ [CHR 0x00]"
    by (simp add: numeral_eq_Suc)
  then have r3: "run_things bad_thread_f (replicate 127 0) ?s2 = Some ?s3"
    using fill_to_end [where f = bad_thread_f and i = 0 and s = ?s2 and k = 1, OF bad_fill] by (simp add: thing_goto_def)
  have "run_things bad_thread_f ((started @ [0] @ others_leave @ [0, 1]) @ replicate 128 1 @ replicate 127 0) ?s0 = Some ?s3"
    by (rule run_things_append [OF r1 run_things_append [OF r2 r3]])
  then have "(thing_step bad_thread_f 6)\<^sup>*\<^sup>* ?s0 ?s3"
    by (rule run_things_steps) (auto simp: started_def others_leave_def)
  moreover have "reachable (\<lambda>s. s = thing_initial) (thing_step bad_thread_f 6) ?s0"
    by (rule reach_step [OF reach_start [of "\<lambda>s. s = thing_initial", OF refl]], unfold thing_step_def, rule disjI1, rule refl)
  ultimately have "reachable (\<lambda>s. s = thing_initial) (thing_step bad_thread_f 6) ?s3" by (rule reachable_steps)
  moreover have "all_joined 6 ?s3" by (auto simp: all_joined_def thing_goto_def less_Suc_eq numeral_eq_Suc)
  moreover have "printed_string ?s3 = letter 1 # replicate 126 (letter 0)"
    using letter_not_zero [of 0] letter_not_zero [of 1] by (simp add: printed_string_def thing_goto_def letters_before_zero)
  ultimately show ?thesis by blast
qed

text \<open>Thread 0 takes the lock, the others see that it is taken, and thread 0 fills the string.\<close>

lemma spin_run:
  "\<exists>s. reachable (\<lambda>s. s = thing_initial) (thing_step spin_thread_f 6) s \<and> all_joined 6 s
    \<and> the_string s = replicate 127 (letter 0) @ [CHR 0x00]"
proof -
  let ?s0 = "thing_initial\<lparr>start := True\<rparr>"
  let ?s1 = "?s0\<lparr>lock := True,
    at := (\<lambda>_. T_Start)(0 := T_Fill 0, 1 := T_Done, 2 := T_Done, 3 := T_Done, 4 := T_Done, 5 := T_Done)\<rparr>"
  let ?s2 = "thing_goto 0 T_Unlock (?s1\<lparr>the_string := replicate 127 (letter 0) @ [CHR 0x00]\<rparr>)"
  let ?s3 = "thing_goto 0 T_Done (?s2\<lparr>lock := False\<rparr>)"
  have r1: "run_things spin_thread_f ([0, 0, 1, 1] @ others_leave) ?s0 = Some ?s1"
    by (simp add: others_leave_def thing_initial_def spin_thread_f_def thing_goto_def fun_eq_iff)
  have r2: "run_things spin_thread_f (replicate 128 0) ?s1 = Some ?s2"
    using fill_to_end [where f = spin_thread_f and i = 0 and s = ?s1 and k = 0, OF spin_fill]
    by (simp add: thing_initial_def)
  have r3: "run_things spin_thread_f [0] ?s2 = Some ?s3"
    by (simp add: spin_thread_f_def thing_goto_def)
  have "run_things spin_thread_f (([0, 0, 1, 1] @ others_leave) @ replicate 128 0 @ [0]) ?s0 = Some ?s3"
    by (rule run_things_append [OF r1 run_things_append [OF r2 r3]])
  then have "(thing_step spin_thread_f 6)\<^sup>*\<^sup>* ?s0 ?s3"
    by (rule run_things_steps) (auto simp: others_leave_def)
  moreover have "reachable (\<lambda>s. s = thing_initial) (thing_step spin_thread_f 6) ?s0"
    by (rule reach_step [OF reach_start [of "\<lambda>s. s = thing_initial", OF refl]], unfold thing_step_def, rule disjI1, rule refl)
  ultimately have "reachable (\<lambda>s. s = thing_initial) (thing_step spin_thread_f 6) ?s3" by (rule reachable_steps)
  moreover have "all_joined 6 ?s3" by (auto simp: all_joined_def thing_goto_def less_Suc_eq numeral_eq_Suc)
  ultimately show ?thesis by (intro exI [of _ ?s3] conjI) (simp_all add: thing_goto_def)
qed

theorem spin_string_uniform_witness:
  "\<exists>s i. reachable (\<lambda>s. s = thing_initial) (thing_step spin_thread_f 6) s \<and> all_joined 6 s \<and> printed_string s = replicate 127 (letter i)"
proof -
  obtain s where s: "reachable (\<lambda>s. s = thing_initial) (thing_step spin_thread_f 6) s" "all_joined 6 s"
    using spin_run by blast
  with spin_string_uniform [OF s] show ?thesis by auto
qed

end
