(* ===== verification/Cthread_Early.thy ===== *)
theory Cthread_Early
  imports Cthread
begin

text \<open>
  The versions of the threads that come before 12_cthread_detach.c in lecture_examples/6_threads: 10_cthreads_1.c
  and 10_cthreads_2.c, where main joins the thread, and 11_cthread_bad_detach.c, where it detaches it without a lock.
  A step is one access of the memory that the two share, which is sequentially consistent. The thread runs on its stack until
  it is gone: a step on a freed stack, and freeing it twice, is undefined behaviour.
\<close>

section \<open>The state\<close>

text \<open>
  Where the thread is: before its function, before the test of is_detached, in cthread_destroy, before it
  sets is_finished, before it returns. Where main is: before cthread_create, before the loop on is_finished of
  cthread_join, before the free, before it reads the result; before the test in cthread_detach, before the free,
  before it sets is_detached, before the loop on is_finished of main.
\<close>

datatype runner_pc = R_Absent | R_Func | R_Test | R_Destroy | R_Finish | R_Return | R_Gone

datatype main_pc = M_Create | M_Join | M_Free | M_Result | M_Detach | M_Destroy | M_Set | M_Wait | M_Done

record early =
  code :: int
  finished :: bool
  detached :: bool
  stack :: bool
  runner :: runner_pc
  main_at :: main_pc
  retcode :: "int option"

definition early_initial :: early where
  "early_initial = \<lparr>code = 0, finished = False, detached = False, stack = False, runner = R_Absent,
     main_at = M_Create, retcode = None\<rparr>"

definition free_stack :: "early \<Rightarrow> early outcome" where
  "free_stack s = (if stack s then Next (s\<lparr>stack := False\<rparr>) else Undefined)"

definition then_run :: "(early \<Rightarrow> early) \<Rightarrow> early outcome \<Rightarrow> early outcome" where
  "then_run f r = (case r of Next s \<Rightarrow> Next (f s) | Blocked \<Rightarrow> Blocked | Undefined \<Rightarrow> Undefined)"

section \<open>Creating, running and joining\<close>

definition create_thread :: "main_pc \<Rightarrow> early \<Rightarrow> early" where
  "create_thread next s = s\<lparr>code := 0, finished := False, detached := False, stack := True, runner := R_Func, main_at := next\<rparr>"

text \<open>func returns a code or leaves with cthread_exit, which jumps behind the call of func.\<close>

definition exit_thread :: "int \<Rightarrow> runner_pc \<Rightarrow> early \<Rightarrow> early" where
  "exit_thread r next s = s\<lparr>code := r, runner := next\<rparr>"

definition run_func :: "body \<Rightarrow> runner_pc \<Rightarrow> early \<Rightarrow> early" where
  "run_func func next s = (case func of
     Returns r \<Rightarrow> s\<lparr>code := r, runner := next\<rparr>
   | Exits r \<Rightarrow> exit_thread r next s)"

definition runner_step :: "body \<Rightarrow> early \<Rightarrow> early outcome" where
  "runner_step func s =
     (if runner s = R_Absent \<or> runner s = R_Gone then Blocked
      else if \<not> stack s then Undefined
      else case runner s of
        R_Func \<Rightarrow> Next (run_func func R_Finish s)
      | R_Finish \<Rightarrow> Next (s\<lparr>finished := True, runner := R_Return\<rparr>)
      | R_Return \<Rightarrow> Next (s\<lparr>runner := R_Gone\<rparr>)
      | _ \<Rightarrow> Blocked)"

definition join_step :: "early \<Rightarrow> early outcome" where
  "join_step s = (case main_at s of
     M_Create \<Rightarrow> Next (create_thread M_Join s)
   | M_Join \<Rightarrow> if finished s then Next (s\<lparr>main_at := M_Free\<rparr>) else Blocked
   | M_Free \<Rightarrow> then_run (\<lambda>s. s\<lparr>main_at := M_Result\<rparr>) (free_stack s)
   | M_Result \<Rightarrow> Next (s\<lparr>retcode := Some (code s), main_at := M_Done\<rparr>)
   | _ \<Rightarrow> Blocked)"

definition joining :: "body \<Rightarrow> early \<Rightarrow> early \<Rightarrow> bool" where
  "joining func s s' \<longleftrightarrow> runner_step func s = Next s' \<or> join_step s = Next s'"

section \<open>Detaching without a lock\<close>

definition detach_runner_step :: "body \<Rightarrow> early \<Rightarrow> early outcome" where
  "detach_runner_step func s =
     (if runner s = R_Absent \<or> runner s = R_Gone then Blocked
      else if \<not> stack s then Undefined
      else case runner s of
        R_Func \<Rightarrow> Next (run_func func R_Test s)
      | R_Test \<Rightarrow> Next (s\<lparr>runner := if detached s then R_Destroy else R_Finish\<rparr>)
      | R_Destroy \<Rightarrow> then_run (\<lambda>s. s\<lparr>runner := R_Finish\<rparr>) (free_stack s)
      | R_Finish \<Rightarrow> Next (s\<lparr>finished := True, runner := R_Return\<rparr>)
      | R_Return \<Rightarrow> Next (s\<lparr>runner := R_Gone\<rparr>)
      | _ \<Rightarrow> Blocked)"

definition detach_step :: "early \<Rightarrow> early outcome" where
  "detach_step s = (case main_at s of
     M_Create \<Rightarrow> Next (create_thread M_Detach s)
   | M_Detach \<Rightarrow> Next (s\<lparr>main_at := if finished s then M_Destroy else M_Set\<rparr>)
   | M_Destroy \<Rightarrow> then_run (\<lambda>s. s\<lparr>main_at := M_Set\<rparr>) (free_stack s)
   | M_Set \<Rightarrow> Next (s\<lparr>detached := True, main_at := M_Wait\<rparr>)
   | M_Wait \<Rightarrow> if finished s then Next (s\<lparr>main_at := M_Done\<rparr>) else Blocked
   | _ \<Rightarrow> Blocked)"

definition detaching :: "body \<Rightarrow> early \<Rightarrow> early \<Rightarrow> bool" where
  "detaching func s s' \<longleftrightarrow> detach_runner_step func s = Next s' \<or> detach_step s = Next s'"

lemmas early_steps = runner_step_def join_step_def detach_runner_step_def detach_step_def free_stack_def then_run_def
  create_thread_def run_func_def exit_thread_def joining_def detaching_def early_initial_def

section \<open>What join returns\<close>

definition join_inv :: "body \<Rightarrow> early \<Rightarrow> bool" where
  "join_inv func s \<longleftrightarrow> (main_at s = M_Create \<longleftrightarrow> runner s = R_Absent)
     \<and> runner s \<in> {R_Absent, R_Func, R_Finish, R_Return, R_Gone} \<and> main_at s \<in> {M_Create, M_Join, M_Free, M_Result, M_Done}
     \<and> (runner s \<in> {R_Finish, R_Return, R_Gone} \<longrightarrow> code s = result_of func)
     \<and> (main_at s \<noteq> M_Create \<longrightarrow> (finished s \<longleftrightarrow> runner s \<in> {R_Return, R_Gone})) \<and> (main_at s \<in> {M_Free, M_Result, M_Done} \<longrightarrow> finished s)
     \<and> (stack s \<longleftrightarrow> main_at s \<in> {M_Join, M_Free}) \<and> (main_at s = M_Done \<longrightarrow> retcode s = Some (result_of func))"

lemma runner_keeps_join_inv: "join_inv func s \<Longrightarrow> runner_step func s = Next s' \<Longrightarrow> join_inv func s'"
  by (cases "runner s"; cases func; cases "main_at s")
    (auto simp: join_inv_def early_steps result_of_def split: if_splits)

lemma main_keeps_join_inv: "join_inv func s \<Longrightarrow> join_step s = Next s' \<Longrightarrow> join_inv func s'"
  by (cases "main_at s"; cases "runner s") (auto simp: join_inv_def early_steps split: if_splits)

interpretation early_join: invariant_system "\<lambda>s. s = early_initial" "joining func" "join_inv func" for func
proof
  show "join_inv func s" if "s = early_initial" for s using that by (simp add: join_inv_def early_initial_def)
  show "join_inv func s'" if "join_inv func s" "joining func s s'" for s s'
    using that runner_keeps_join_inv main_keeps_join_inv unfolding joining_def by blast
qed

text \<open>
  cthread_join returns what func has returned or given to cthread_exit, and the stack is freed once. Main itself never
  runs into undefined behaviour; the thread can.
\<close>

theorem early_join_result:
  assumes "reachable (\<lambda>s. s = early_initial) (joining func) s"
  shows "join_step s \<noteq> Undefined" "main_at s = M_Done \<Longrightarrow> retcode s = Some (result_of func) \<and> \<not> stack s"
proof -
  have inv: "join_inv func s" by (rule early_join.reachable_has_inv [OF assms])
  show "join_step s \<noteq> Undefined"
    using inv by (cases "main_at s") (auto simp: join_inv_def early_steps)
  show "retcode s = Some (result_of func) \<and> \<not> stack s" if "main_at s = M_Done"
    using inv that unfolding join_inv_def by simp
qed

text \<open>Runs, by who makes the next step.\<close>

fun run_early :: "(early \<Rightarrow> early outcome) \<Rightarrow> (early \<Rightarrow> early outcome) \<Rightarrow> bool list \<Rightarrow> early \<Rightarrow> early option" where
  "run_early f g [] s = Some s"
| "run_early f g (t # ts) s = (case (if t then f s else g s) of Next s \<Rightarrow> run_early f g ts s | _ \<Rightarrow> None)"

lemma run_early_reachable:
  assumes "run_early f g ts s = Some s'" "\<And>s s'. f s = Next s' \<or> g s = Next s' \<Longrightarrow> st s s'" "reachable start st s"
  shows "reachable start st s'"
  using assms(1,3)
proof (induction ts arbitrary: s)
  case (Cons t ts)
  then obtain u where u: "(if t then f s else g s) = Next u" "run_early f g ts u = Some s'"
    by (auto split: outcome.splits)
  then have "st s u" using assms(2) [of s u] by (auto split: if_splits)
  then show ?case using Cons.IH [OF u(2)] Cons.prems(2) reach_step by metis
qed simp

text \<open>
  is_finished is set while the thread still has to return: main can free the stack before that, and the thread then
  returns on freed memory.
\<close>

theorem joined_stack_still_in_use:
  "\<exists>s. reachable (\<lambda>s. s = early_initial) (joining func) s \<and> runner_step func s = Undefined \<and> main_at s = M_Done"
proof -
  have "\<exists>s. run_early (runner_step func) join_step [False, True, True, False, False, False] early_initial = Some s
    \<and> runner_step func s = Undefined \<and> main_at s = M_Done"
    by (cases func) (simp_all add: early_steps)
  then obtain s where s: "run_early (runner_step func) join_step [False, True, True, False, False, False] early_initial = Some s"
    "runner_step func s = Undefined" "main_at s = M_Done" by blast
  have "reachable (\<lambda>s. s = early_initial) (joining func) s"
    by (rule run_early_reachable [OF s(1)]) (simp_all add: joining_def reach_start)
  then show ?thesis using s(2,3) by blast
qed

text \<open>
  With the detach that has no lock the thread that finds itself detached frees its own stack and goes on; and if both
  look before the other has written, nobody frees the stack.
\<close>

theorem bad_detach_frees_own_stack:
  "\<exists>s. reachable (\<lambda>s. s = early_initial) (detaching func) s \<and> detached s \<and> detach_runner_step func s = Undefined"
proof -
  have "\<exists>s. run_early (detach_runner_step func) detach_step [False, False, False, True, True, True] early_initial = Some s
    \<and> detached s \<and> detach_runner_step func s = Undefined"
    by (cases func) (simp_all add: early_steps)
  then obtain s where s: "run_early (detach_runner_step func) detach_step [False, False, False, True, True, True] early_initial = Some s"
    "detached s" "detach_runner_step func s = Undefined" by blast
  have "reachable (\<lambda>s. s = early_initial) (detaching func) s"
    by (rule run_early_reachable [OF s(1)]) (simp_all add: detaching_def reach_start)
  then show ?thesis using s(2,3) by blast
qed

theorem bad_detach_leaks:
  "\<exists>s. reachable (\<lambda>s. s = early_initial) (detaching func) s \<and> main_at s = M_Done \<and> runner s = R_Gone \<and> stack s"
proof -
  have "\<exists>s. run_early (detach_runner_step func) detach_step [False, False, True, True, False, True, True, False] early_initial = Some s
    \<and> main_at s = M_Done \<and> runner s = R_Gone \<and> stack s"
    by (cases func) (simp_all add: early_steps)
  then obtain s where s: "run_early (detach_runner_step func) detach_step [False, False, True, True, False, True, True, False] early_initial = Some s"
    "main_at s = M_Done" "runner s = R_Gone" "stack s" by blast
  have "reachable (\<lambda>s. s = early_initial) (detaching func) s"
    by (rule run_early_reachable [OF s(1)]) (simp_all add: detaching_def reach_start)
  then show ?thesis using s(2-4) by blast
qed

end
