(* ===== verification/Coro_Alloca.thy ===== *)
theory Coro_Alloca
  imports Prelude
begin

text \<open>
  The coroutines of examples/coro_alloca.c, which share the stack of main. setjmp and longjmp are transfers of control:
  a coroutine is what it still has to do, and goes on there when somebody jumps to it. What a coroutine does are its
  lines of output and its yields.
\<close>

section \<open>The coroutines\<close>

definition CORO_COUNT :: nat where "CORO_COUNT = 3"

datatype act = Start int | Yield | End int

record coros =
  coro_i :: nat
  is_finished :: "nat \<Rightarrow> bool"
  todo :: "nat \<Rightarrow> act list"
  printed :: "(nat \<times> act) list"

text \<open>The loop of coro_yield. next does not depend on the counter of the loop.\<close>

fun yield_loop :: "nat \<Rightarrow> coros \<Rightarrow> coros" where
  "yield_loop 0 s = s"
| "yield_loop (Suc i) s =
     (let next = (coro_i s + 1) mod CORO_COUNT in
      if \<not> is_finished s next then s\<lparr>coro_i := next\<rparr> else yield_loop i s)"

definition coro_yield :: "coros \<Rightarrow> coros" where
  "coro_yield s = yield_loop CORO_COUNT s"

text \<open>None: no coroutine is left, and the call returns.\<close>

definition coro_continue_next :: "coros \<Rightarrow> coros option" where
  "coro_continue_next s = map_option (\<lambda>i. s\<lparr>coro_i := i\<rparr>) (find (\<lambda>i. \<not> is_finished s i) [0..<CORO_COUNT])"

text \<open>coro_put_here, for every coroutine.\<close>

definition coro_put_all :: "(nat \<Rightarrow> act list) \<Rightarrow> coros" where
  "coro_put_all scripts = \<lparr>coro_i = 0, is_finished = \<lambda>_. False, todo = scripts, printed = []\<rparr>"

text \<open>When the function of a coroutine returns, main goes on behind its loop and continues the next one.\<close>

partial_function (option) coro_run :: "coros \<Rightarrow> coros option" where
  "coro_run s =
     (let this = coro_i s in
      case todo s this of
        [] \<Rightarrow> (let s = s\<lparr>is_finished := (is_finished s)(this := True)\<rparr> in
             case coro_continue_next s of None \<Rightarrow> Some s | Some s \<Rightarrow> coro_run s)
      | a # as \<Rightarrow> (let s = s\<lparr>todo := (todo s)(this := as)\<rparr> in
             coro_run (if a = Yield then coro_yield s else s\<lparr>printed := printed s @ [(this, a)]\<rparr>)))"

definition coro_main :: "(nat \<Rightarrow> act list) \<Rightarrow> coros option" where
  "coro_main scripts =
     (let s = coro_put_all scripts in case coro_continue_next s of None \<Rightarrow> Some s | Some s \<Rightarrow> coro_run s)"

function coro_example_func :: "int \<Rightarrow> act list" where
  "coro_example_func deep =
     [Start deep, Yield] @ (if deep < 2 then coro_example_func (deep + 1) else []) @ [Yield, End deep]"
  by pat_completeness auto
termination
  by (relation "measure (\<lambda>deep. nat (2 - deep))") auto

section \<open>Every coroutine ends\<close>

text \<open>What coroutine i has printed, and the lines of a script.\<close>

definition lines_of :: "nat \<Rightarrow> coros \<Rightarrow> act list" where
  "lines_of i s = map snd (filter (\<lambda>(j, a). j = i) (printed s))"

definition outputs :: "act list \<Rightarrow> act list" where
  "outputs script = filter (\<lambda>a. a \<noteq> Yield) script"

text \<open>The coroutine that runs has not finished, the finished ones have nothing to do, and no line is lost.\<close>

definition coros_inv :: "(nat \<Rightarrow> act list) \<Rightarrow> coros \<Rightarrow> bool" where
  "coros_inv scripts s \<longleftrightarrow> (\<forall>i < CORO_COUNT. is_finished s i \<longrightarrow> todo s i = [])
     \<and> (\<forall>i < CORO_COUNT. lines_of i s @ outputs (todo s i) = outputs (scripts i))"

definition runs_now :: "coros \<Rightarrow> bool" where
  "runs_now s \<longleftrightarrow> coro_i s < CORO_COUNT \<and> \<not> is_finished s (coro_i s)"

definition work :: "coros \<Rightarrow> nat" where
  "work s = (\<Sum>i < CORO_COUNT. length (todo s i) + (if is_finished s i then 0 else 1))"

lemma CORO_COUNT_pos [simp]: "0 < CORO_COUNT"
  by (simp add: CORO_COUNT_def)

lemma yield_loop_same:
  "todo (yield_loop n s) = todo s" "is_finished (yield_loop n s) = is_finished s" "printed (yield_loop n s) = printed s"
  by (induction n) (simp_all add: Let_def)

lemma yield_loop_runs: "runs_now s \<Longrightarrow> runs_now (yield_loop n s)"
  by (induction n) (simp_all add: runs_now_def Let_def)

lemma continue_next_cases:
  "coro_continue_next s = None \<Longrightarrow> i < CORO_COUNT \<Longrightarrow> is_finished s i"
  "coro_continue_next s = Some s' \<Longrightarrow> \<exists>i < CORO_COUNT. s' = s\<lparr>coro_i := i\<rparr> \<and> \<not> is_finished s i"
  by (auto simp: coro_continue_next_def find_None_iff find_Some_iff)

lemma coros_work_decreases:
  assumes i: "i < CORO_COUNT" and same: "\<And>j. j \<noteq> i \<Longrightarrow> todo s' j = todo s j \<and> is_finished s' j = is_finished s j"
    and less: "length (todo s' i) + (if is_finished s' i then 0 else 1) < length (todo s i) + (if is_finished s i then 0 else 1)"
  shows "work s' < work s"
  unfolding work_def
proof (rule sum_strict_mono_ex1)
  show "\<forall>j \<in> {..<CORO_COUNT}. length (todo s' j) + (if is_finished s' j then 0 else 1)
      \<le> length (todo s j) + (if is_finished s j then 0 else 1)"
  proof
    fix j
    show "length (todo s' j) + (if is_finished s' j then 0 else 1) \<le> length (todo s j) + (if is_finished s j then 0 else 1)"
      using same [of j] less by (cases "j = i") simp_all
  qed
  show "\<exists>a \<in> {..<CORO_COUNT}. length (todo s' a) + (if is_finished s' a then 0 else 1)
      < length (todo s a) + (if is_finished s a then 0 else 1)"
    by (rule bexI [of _ i], rule less) (use i in simp)
qed simp

lemma run_return:
  "todo s (coro_i s) = [] \<Longrightarrow> coro_run s =
    (let s = s\<lparr>is_finished := (is_finished s)(coro_i s := True)\<rparr> in
     case coro_continue_next s of None \<Rightarrow> Some s | Some s \<Rightarrow> coro_run s)"
  by (subst coro_run.simps) simp

lemma run_act:
  "todo s (coro_i s) = a # as \<Longrightarrow> coro_run s =
    (let t = s\<lparr>todo := (todo s)(coro_i s := as)\<rparr> in
     coro_run (if a = Yield then coro_yield t else t\<lparr>printed := printed t @ [(coro_i s, a)]\<rparr>))"
  by (subst coro_run.simps) (simp add: Let_def)

lemma coro_run_ends:
  "runs_now s \<Longrightarrow> coros_inv scripts s \<Longrightarrow>
    \<exists>s'. coro_run s = Some s' \<and> coros_inv scripts s' \<and> (\<forall>i < CORO_COUNT. is_finished s' i)"
proof (induction "work s" arbitrary: s rule: less_induct)
  case less
  let ?i = "coro_i s"
  have cur: "?i < CORO_COUNT" "\<not> is_finished s ?i" using less.prems(1) by (simp_all add: runs_now_def)
  show ?case
  proof (cases "todo s ?i")
    case Nil
    let ?s = "s\<lparr>is_finished := (is_finished s)(?i := True)\<rparr>"
    have inv: "coros_inv scripts ?s" using less.prems(2) Nil by (auto simp: coros_inv_def lines_of_def)
    show ?thesis
    proof (cases "coro_continue_next ?s")
      case None
      then have "coro_run s = Some ?s" using Nil by (simp add: run_return)
      then show ?thesis using inv continue_next_cases(1) [OF None] by blast
    next
      case (Some s1)
      then obtain i where i: "i < CORO_COUNT" "s1 = ?s\<lparr>coro_i := i\<rparr>" "\<not> is_finished ?s i"
        using continue_next_cases(2) by blast
      have run: "coro_run s = coro_run s1" using Nil Some by (simp add: run_return)
      have "work s1 < work s" by (rule coros_work_decreases [OF cur(1)]) (use i cur Nil in auto)
      moreover have "runs_now s1" using i by (simp add: runs_now_def)
      moreover have "coros_inv scripts s1" using inv i(2) by (simp add: coros_inv_def lines_of_def)
      ultimately show ?thesis using less.hyps run by simp
    qed
  next
    case (Cons a as)
    let ?s = "s\<lparr>todo := (todo s)(?i := as)\<rparr>"
    define s1 where "s1 = (if a = Yield then coro_yield ?s else ?s\<lparr>printed := printed s @ [(?i, a)]\<rparr>)"
    have run: "coro_run s = coro_run s1" using Cons by (simp add: run_act s1_def)
    have same: "todo s1 = (todo s)(?i := as)" "is_finished s1 = is_finished s"
      by (simp_all add: s1_def coro_yield_def yield_loop_same)
    have "work s1 < work s" by (rule coros_work_decreases [OF cur(1)]) (use same cur Cons in auto)
    moreover have "runs_now ?s" using cur by (simp add: runs_now_def)
    then have "runs_now s1" by (simp add: s1_def coro_yield_def yield_loop_runs) (simp add: runs_now_def)
    moreover have "coros_inv scripts s1"
      using less.prems(2) Cons cur(2)
      by (auto simp: s1_def coros_inv_def lines_of_def outputs_def coro_yield_def yield_loop_same)
    ultimately show ?thesis using less.hyps run by simp
  qed
qed

text \<open>Whatever the coroutines do, main ends, every coroutine has finished, and each has printed its own lines in their order.\<close>

theorem all_coroutines_finish:
  "\<exists>s. coro_main scripts = Some s \<and> (\<forall>i < CORO_COUNT. is_finished s i \<and> lines_of i s = outputs (scripts i))"
proof -
  let ?s = "coro_put_all scripts"
  have nxt: "coro_continue_next ?s = Some (?s\<lparr>coro_i := 0\<rparr>)"
    by (simp add: coro_continue_next_def coro_put_all_def upt_conv_Cons)
  have "coros_inv scripts (?s\<lparr>coro_i := 0\<rparr>)" "runs_now (?s\<lparr>coro_i := 0\<rparr>)"
    by (simp_all add: coros_inv_def runs_now_def coro_put_all_def lines_of_def)
  then obtain s where s: "coro_run (?s\<lparr>coro_i := 0\<rparr>) = Some s" "coros_inv scripts s" "\<forall>i < CORO_COUNT. is_finished s i"
    using coro_run_ends by blast
  then have "lines_of i s = outputs (scripts i)" if "i < CORO_COUNT" for i
  proof -
    have "todo s i = []" "lines_of i s @ outputs (todo s i) = outputs (scripts i)"
      using that s(2,3) unfolding coros_inv_def by blast+
    then show ?thesis by (simp add: outputs_def)
  qed
  then show ?thesis using s nxt by (simp add: coro_main_def)
qed

section \<open>Who gets the control\<close>

text \<open>
  coro_yield looks at one coroutine only, the one behind the caller: when that has finished the caller goes on, even
  if another one has not.
\<close>

theorem yield_correct:
  "coro_yield s = (let next = (coro_i s + 1) mod CORO_COUNT in if is_finished s next then s else s\<lparr>coro_i := next\<rparr>)"
proof -
  have same: "yield_loop n s = s" if "is_finished s ((coro_i s + 1) mod CORO_COUNT)" for n
    by (induction n) (use that in \<open>simp_all add: Let_def\<close>)
  have count: "Suc 2 = CORO_COUNT" by (simp add: CORO_COUNT_def)
  have goes: "yield_loop (Suc 2) s = s\<lparr>coro_i := (coro_i s + 1) mod CORO_COUNT\<rparr>"
    if "\<not> is_finished s ((coro_i s + 1) mod CORO_COUNT)"
    using that by (simp only: yield_loop.simps Let_def if_True simp_thms)
  show ?thesis
    using same [of CORO_COUNT] goes [unfolded count] by (simp add: coro_yield_def Let_def)
qed

theorem yield_skips_nobody:
  assumes "coro_i s = 0" "is_finished s 1" "\<not> is_finished s 2"
  shows "coro_yield s = s"
  using assms by (simp add: yield_correct CORO_COUNT_def)

text \<open>With the scripts of the program the three take turns, line by line.\<close>

definition turn :: "act \<Rightarrow> (nat \<times> act) list" where
  "turn a = [(0, a), (1, a), (2, a)]"

theorem alloca_example_output:
  "\<exists>s. coro_main (\<lambda>_. coro_example_func 0) = Some s
    \<and> printed s = concat (map turn [Start 0, Start 1, Start 2, End 2, End 1, End 0])"
proof -
  have "coro_example_func 0 = [Start 0, Yield, Start 1, Yield, Start 2, Yield, Yield, End 2, Yield, End 1, Yield, End 0]"
    by (simp add: coro_example_func.simps [of 0] coro_example_func.simps [of 1] coro_example_func.simps [of 2])
  then show ?thesis
    by (simp add: coro_main_def coro_put_all_def coro_continue_next_def CORO_COUNT_def upt_conv_Cons run_return run_act
        yield_correct turn_def)
qed

end
