(* ===== verification/File_Locks.thy ===== *)
theory File_Locks
  imports Sem_Shell
begin

text \<open>
  The console for file locks of lecture_examples/9_aio/3_fcntl_lock.c: it writes characters to a file, and sets and asks for locks
  on regions of it. The kernel is an argument. The result None is undefined behaviour.
\<close>

section \<open>The calls of the kernel\<close>

datatype lock_type = F_RDLCK | F_WRLCK | F_UNLCK

datatype lock_whence = SEEK_SET | SEEK_CUR | SEEK_END

datatype fcntl_cmd = F_SETLK | F_SETLKW | F_GETLK

record flock =
  l_type :: lock_type
  l_whence :: lock_whence
  l_start :: int
  l_len :: int
  l_pid :: int

text \<open>A call says whether it has succeeded; F_GETLK changes the lock it is given.\<close>

record 'k kernel =
  write_char :: "char \<Rightarrow> 'k \<Rightarrow> bool \<times> 'k"
  fcntl :: "fcntl_cmd \<Rightarrow> flock \<Rightarrow> 'k \<Rightarrow> bool \<times> flock \<times> 'k"

section \<open>The commands\<close>

datatype message = Ok | Error | Unknown_Command | No_Lock | Held_By int

text \<open>write_symbols: whether all n characters were written.\<close>

fun write_loop :: "'k kernel \<Rightarrow> nat \<Rightarrow> char \<Rightarrow> 'k \<Rightarrow> bool \<times> 'k" where
  "write_loop K 0 c k = (True, k)"
| "write_loop K (Suc n) c k = (case write_char K c k of (False, k) \<Rightarrow> (False, k) | (True, k) \<Rightarrow> write_loop K n c k)"

text \<open>A variable that sscanf has not set is undefined when it is used.\<close>

definition write_symbols :: "'k kernel \<Rightarrow> string \<Rightarrow> 'k \<Rightarrow> (message list \<times> bool \<times> 'k) option" where
  "write_symbols K cmd k = do {
     (n, c) \<leftarrow> sscanf_operation cmd (None, None);
     n \<leftarrow> n;
     if n \<le> 0 then Some ([], True, k)
     else do { c \<leftarrow> c; Some ([], write_loop K (nat n) c k) } }"

definition char_to_whence :: "char \<Rightarrow> lock_whence" where
  "char_to_whence whence = (if whence = CHR ''s'' then SEEK_SET else if whence = CHR ''e'' then SEEK_END else SEEK_CUR)"

definition char_to_type :: "char \<Rightarrow> lock_type" where
  "char_to_type type = (if type = CHR ''r'' then F_RDLCK else if type = CHR ''w'' then F_WRLCK else F_UNLCK)"

text \<open>sscanf(cmd, "%c %c %d %d"), when all four are set; otherwise printf reads one that is not.\<close>

definition scan_number :: "string \<Rightarrow> (int \<times> string) option" where
  "scan_number s = (case fscanf_d s of Some r \<Rightarrow> r | None \<Rightarrow> None)"

definition scan_lock :: "string \<Rightarrow> (char \<times> char \<times> int \<times> int) option" where
  "scan_lock cmd = (case cmd of [] \<Rightarrow> None | type # cmd \<Rightarrow>
     (case dropWhile is_space cmd of [] \<Rightarrow> None | whence # cmd \<Rightarrow> do {
        (start, cmd) \<leftarrow> scan_number cmd;
        (len, _) \<leftarrow> scan_number cmd;
        Some (type, whence, start, len) }))"

text \<open>l_pid is not set by the program, and the kernel does not look at it.\<close>

definition lock_of :: "char \<times> char \<times> int \<times> int \<Rightarrow> flock" where
  "lock_of r = (case r of (type, whence, start, len) \<Rightarrow>
     \<lparr>l_type = char_to_type type, l_whence = char_to_whence whence, l_start = start, l_len = len, l_pid = 0\<rparr>)"

definition do_lock :: "'k kernel \<Rightarrow> bool \<Rightarrow> string \<Rightarrow> 'k \<Rightarrow> (message list \<times> bool \<times> 'k) option" where
  "do_lock K block cmd k = do {
     r \<leftarrow> scan_lock cmd;
     let (ok, _, k) = fcntl K (if block then F_SETLKW else F_SETLK) (lock_of r) k;
     Some ([], ok, k) }"

definition get_lock :: "'k kernel \<Rightarrow> string \<Rightarrow> 'k \<Rightarrow> (message list \<times> bool \<times> 'k) option" where
  "get_lock K cmd k = do {
     r \<leftarrow> scan_lock cmd;
     let (ok, fl, k) = fcntl K F_GETLK (lock_of r) k;
     Some (if \<not> ok then ([], False, k)
       else ([if l_type fl = F_UNLCK then No_Lock else Held_By (l_pid fl)], True, k)) }"

section \<open>The loop\<close>

text \<open>strsep: the token before the first delimiter, and what follows it, None when there is no delimiter.\<close>

definition strsep :: "string \<Rightarrow> string \<Rightarrow> string \<times> string option" where
  "strsep delims s = (case dropWhile (\<lambda>c. c \<notin> set delims) s of
     [] \<Rightarrow> (s, None)
   | _ # rest \<Rightarrow> (takeWhile (\<lambda>c. c \<notin> set delims) s, Some rest))"

text \<open>A command without arguments passes a null pointer to printf.\<close>

definition run_command :: "'k kernel \<Rightarrow> string \<Rightarrow> string \<Rightarrow> 'k \<Rightarrow> (message list \<times> 'k) option" where
  "run_command K cmd args k =
     (let result = (if cmd = ''write'' then Some (write_symbols K args k)
        else if cmd = ''lock'' then Some (do_lock K False args k)
        else if cmd = ''lockb'' then Some (do_lock K True args k)
        else if cmd = ''getlock'' then Some (get_lock K args k) else None)
      in case result of
           None \<Rightarrow> Some ([Unknown_Command], k)
         | Some r \<Rightarrow> map_option (\<lambda>(out, ok, k). (out @ [if ok then Ok else Error], k)) r)"

definition do_command :: "'k kernel \<Rightarrow> string \<Rightarrow> 'k \<Rightarrow> (message list \<times> 'k) option" where
  "do_command K buf k =
     (let line = takeWhile (\<lambda>c. c \<noteq> CHR 0x00) buf in
      if line = [] then None
      else let (cmd, args) = strsep '' \<newline>'' (butlast line) in
      case args of None \<Rightarrow> None | Some args \<Rightarrow> run_command K cmd args k)"

fun lock_console :: "'k kernel \<Rightarrow> string list \<Rightarrow> 'k \<Rightarrow> (message list \<times> 'k) option" where
  "lock_console K [] k = Some ([], k)"
| "lock_console K (line # lines) k = do {
     (out, k) \<leftarrow> do_command K line k;
     (outs, k) \<leftarrow> lock_console K lines k;
     Some (out @ outs, k) }"

section \<open>Numbers are read as they are written\<close>

lemma char_digit: "n < 10 \<Longrightarrow> is_digit (char_of (48 + n))" "n < 10 \<Longrightarrow> digit_val (char_of (48 + n)) = int n"
  by (simp_all add: is_digit_def digit_val_def of_char_of)

lemma show_nat_digits: "show_nat n \<noteq> [] \<and> (\<forall>c \<in> set (show_nat n). is_digit c) \<and> digits_val (show_nat n) = int n"
proof (induction n rule: show_nat.induct)
  case (1 n)
  show ?case
  proof (cases "n < 10")
    case True
    then show ?thesis using char_digit by (simp add: show_nat.simps [of n] digits_val_def)
  next
    case False
    then have "digits_val (show_nat (n div 10)) = int (n div 10)" "\<forall>c \<in> set (show_nat (n div 10)). is_digit c"
      using 1 by simp_all
    moreover have "10 * int (n div 10) + int (n mod 10) = int n" by presburger
    ultimately show ?thesis using False char_digit [of "n mod 10"] by (auto simp: show_nat.simps [of n] digits_val_def)
  qed
qed

lemma digits_then:
  assumes "\<forall>c \<in> set ds. is_digit c" "rest = [] \<or> \<not> is_digit (hd rest)"
  shows "takeWhile is_digit (ds @ rest) = ds" "dropWhile is_digit (ds @ rest) = rest"
  using assms by (induction ds; cases rest; simp)+

lemma not_space: "is_digit c \<Longrightarrow> \<not> is_space c" "is_digit c \<Longrightarrow> c \<noteq> CHR ''-'' \<and> c \<noteq> CHR ''+''" "\<not> is_space (CHR ''-'')"
  by (auto simp: is_digit_def is_space_def)

lemma fscanf_d_show_int:
  assumes v: "int_ok v" and rest: "rest = [] \<or> \<not> is_digit (hd rest)"
  shows "fscanf_d (show_int v @ rest) = Some (Some (v, rest))"
proof -
  have "fscanf_d ((if v < 0 then [CHR ''-''] else []) @ show_nat (nat \<bar>v\<bar>) @ rest) = Some (Some (v, rest))"
  proof -
    obtain d ds where ds: "show_nat (nat \<bar>v\<bar>) = d # ds" "is_digit d" "\<forall>c \<in> set (d # ds). is_digit c" "digits_val (d # ds) = \<bar>v\<bar>"
      using show_nat_digits [of "nat \<bar>v\<bar>"] by (cases "show_nat (nat \<bar>v\<bar>)") auto
    note t = digits_then [OF ds(3) rest]
    show ?thesis
      using v ds t not_space(1,2) [OF ds(2)] not_space(3) by (simp add: fscanf_d_def Let_def)
  qed
  then show ?thesis by (simp add: show_int_def split: if_splits)
qed

lemma fscanf_d_space: "fscanf_d (CHR '' '' # s) = fscanf_d s"
  by (simp add: fscanf_d_def is_space_def)

section \<open>A lock is set as it is typed\<close>

definition lock_args :: "char \<Rightarrow> char \<Rightarrow> int \<Rightarrow> int \<Rightarrow> string" where
  "lock_args type whence start len = [type, CHR '' '', whence, CHR '' ''] @ show_int start @ [CHR '' ''] @ show_int len"

lemma scan_lock_args:
  assumes "\<not> is_space whence" "int_ok start" "int_ok len"
  shows "scan_lock (lock_args type whence start len) = Some (type, whence, start, len)"
proof -
  have sp: "is_space (CHR '' '')" "\<not> is_digit (CHR '' '')" by (simp_all add: is_space_def is_digit_def)
  have "fscanf_d (show_int start @ CHR '' '' # show_int len) = Some (Some (start, CHR '' '' # show_int len))"
    using fscanf_d_show_int [OF assms(2), of "CHR '' '' # show_int len"] sp(2) by simp
  moreover have "fscanf_d (show_int len) = Some (Some (len, []))"
    using fscanf_d_show_int [OF assms(3), of "[]"] by simp
  ultimately show ?thesis
    using assms(1) sp(1) by (simp add: scan_lock_def lock_args_def scan_number_def fscanf_d_space)
qed

lemma strsep_token:
  assumes "set cmd \<inter> set delims = {}" "d \<in> set delims"
  shows "strsep delims (cmd @ d # args) = (cmd, Some args)"
proof -
  have "dropWhile (\<lambda>c. c \<notin> set delims) (cmd @ d # args) = d # args"
    using assms by (induction cmd) auto
  moreover have "takeWhile (\<lambda>c. c \<notin> set delims) (cmd @ d # args) = cmd"
    using assms by (induction cmd) auto
  ultimately show ?thesis by (simp add: strsep_def)
qed

lemma show_int_no_zero: "CHR 0x00 \<notin> set (show_int v)"
proof -
  have "\<not> is_digit (CHR 0x00)" by (simp add: is_digit_def)
  then show ?thesis using show_nat_digits by (auto simp: show_int_def)
qed

text \<open>
  The line "lock" or "lockb" with a type, a place, a start and a length makes one call of fcntl with just these,
  for every number that fits an int.
\<close>

theorem lock_set_as_typed:
  assumes cmd: "cmd = ''lock'' \<or> cmd = ''lockb''" and "\<not> is_space whence" "whence \<noteq> CHR 0x00" "type \<noteq> CHR 0x00"
    and "int_ok start" "int_ok len"
    and call: "fcntl K (if cmd = ''lockb'' then F_SETLKW else F_SETLK)
      \<lparr>l_type = char_to_type type, l_whence = char_to_whence whence, l_start = start, l_len = len, l_pid = 0\<rparr> k = (ok, fl, k')"
  shows "do_command K ((cmd @ '' '' @ lock_args type whence start len) @ ''\<newline>'') k = Some ([if ok then Ok else Error], k')"
proof -
  define args where "args = lock_args type whence start len"
  have scan: "scan_lock args = Some (type, whence, start, len)"
    unfolding args_def by (rule scan_lock_args) (use assms in auto)
  have "CHR 0x00 \<notin> set args"
    using assms(3,4) show_int_no_zero by (simp add: args_def lock_args_def)
  then have "CHR 0x00 \<notin> set ((cmd @ '' '' @ args) @ ''\<newline>'')" using cmd by auto
  then have line: "takeWhile (\<lambda>c. c \<noteq> CHR 0x00) ((cmd @ '' '' @ args) @ ''\<newline>'') = (cmd @ '' '' @ args) @ ''\<newline>''"
    by (rule no_zero_line)
  have sep: "strsep '' \<newline>'' (cmd @ '' '' @ args) = (cmd, Some args)"
    using strsep_token [of cmd "'' \<newline>''" "CHR '' ''" args] cmd by auto
  have "do_command K ((cmd @ '' '' @ args) @ ''\<newline>'') k = run_command K cmd args k"
    unfolding do_command_def line Let_def butlast_snoc sep by simp
  also have "\<dots> = map_option (\<lambda>(out, ok, k). (out @ [if ok then Ok else Error], k)) (do_lock K (cmd = ''lockb'') args k)"
    using cmd by (elim disjE) (simp_all add: run_command_def)
  also have "do_lock K (cmd = ''lockb'') args k = Some ([], ok, k')"
    using scan call by (simp add: do_lock_def lock_of_def)
  finally show ?thesis by (simp add: args_def)
qed

end
