(* ===== verification/User_FS_Test.thy ===== *)
theory User_FS_Test
  imports User_FS_Props
begin

text \<open>
  The test suite of the file system, 3/test.c, on the model of userfs.c: every unit_check and unit_fail_if
  is a check, and a test whose check fails has no result. The tests are run on the specification, which the
  file system implements (User_FS_Props).
\<close>

section \<open>Checks\<close>

definition check :: "bool \<Rightarrow> unit option" where
  "check b = (if b then Some () else None)"

lemma check_simps [simp]: "check True = Some ()" "check False = None"
  by (simp_all add: check_def)

text \<open>A run that gives a result, in a state that implements the specification and has the property Q there.\<close>

definition passes :: "('r \<times> ufs) option \<Rightarrow> ('r \<Rightarrow> afs \<Rightarrow> bool) \<Rightarrow> bool" where
  "passes m Q \<longleftrightarrow> (\<exists>r s a. m = Some (r, s) \<and> ufs_rel s a \<and> Q r a)"

lemma passes_open:
  assumes "ufs_rel s a" "length (a_fds a) < 2 ^ 30"
    "\<And>f t. a_files a f = None \<Longrightarrow> ufs_rel t (snd (a_open f name flags a)) \<Longrightarrow> passes (k (fst (a_open f name flags a), t)) Q"
  shows "passes (Option.bind (ufs_open name flags s) k) Q"
  using open_rel [OF assms(1,2), of name flags] assms(3) by force

lemma passes_close:
  assumes "ufs_rel s a" "\<And>t. ufs_rel t (snd (a_close fd a)) \<Longrightarrow> passes (k (fst (a_close fd a), t)) Q"
  shows "passes (Option.bind (ufs_close fd s) k) Q"
  using close_rel [OF assms(1), of fd] assms(2) by force

lemma passes_delete:
  assumes "ufs_rel s a" "\<And>t. ufs_rel t (snd (a_delete name a)) \<Longrightarrow> passes (k (fst (a_delete name a), t)) Q"
  shows "passes (Option.bind (ufs_delete name s) k) Q"
  using delete_rel [OF assms(1), of name] assms(2) by force

text \<open>A write looks at no more of the buffer than it is asked to.\<close>

lemma ufs_write_take:
  assumes "n \<le> length buf" "n < 2 ^ 31"
  shows "ufs_write fd buf n s = ufs_write fd (take n buf) n s"
proof -
  have "to_int32 (int n) = int n" using assms(2) by (simp add: int_ok_def)
  moreover have "write_via_descriptor d buf (int n) s = write_via_descriptor d (take n buf) (int n) s" for d
    using assms(1) by (simp add: write_via_descriptor_def cong: if_cong)
  ultimately show ?thesis by (simp add: ufs_write_def cong: if_cong option.case_cong)
qed

lemma passes_write:
  assumes "ufs_rel s a" "n \<le> length buf" "n < 2 ^ 31 - 2 ^ 28"
    "\<And>t. ufs_rel t (snd (a_write fd (take n buf) a)) \<Longrightarrow> passes (k (fst (a_write fd (take n buf) a), t)) Q"
  shows "passes (Option.bind (ufs_write fd buf n s) k) Q"
proof -
  have "ufs_write fd buf n s = ufs_write fd (take n buf) (length (take n buf)) s"
    using ufs_write_take [OF assms(2), of fd s] assms(2,3) by simp
  then show ?thesis using write_rel [OF assms(1), of "take n buf" fd] assms(2-4) by force
qed

lemma passes_read:
  assumes "ufs_rel s a" "n < 2 ^ 31"
    "\<And>t. ufs_rel t (snd (snd (a_read fd n a))) \<Longrightarrow> passes (k (fst (a_read fd n a), fst (snd (a_read fd n a)), t)) Q"
  shows "passes (Option.bind (ufs_read fd n s) k) Q"
  using read_rel [OF assms(1,2), of fd] assms(3) by force

lemma passes_resize:
  assumes "ufs_rel s a" "n \<le> a_size_of fd a \<or> int n \<ge> MAX_FILE_SIZE"
    "\<And>t. ufs_rel t (snd (a_resize fd n a)) \<Longrightarrow> passes (k (fst (a_resize fd n a), t)) Q"
  shows "passes (Option.bind (ufs_resize fd n s) k) Q"
  using resize_rel [OF assms(1,2)] assms(3) by force

lemma passes_errno:
  assumes "ufs_rel s a" "a_errno a = e" "ufs_rel s a \<Longrightarrow> passes k Q"
  shows "passes (Option.bind (check (ufs_errno s = e)) (\<lambda>_. k)) Q"
proof -
  have "ufs_errno s = e" using assms(1,2) by (auto simp: ufs_rel_def ufs_abs_def ufs_errno_def)
  then show ?thesis using assms(1,3) by simp
qed

lemma passes_return: "ufs_rel s a \<Longrightarrow> Q r a \<Longrightarrow> passes (Some (r, s)) Q"
  by (auto simp: passes_def)

text \<open>Descriptors with free slots at the end, after closing all of them.\<close>

lemma slot_free [simp]: "a_slot (replicate k None) = 0"
  by (cases k) (simp_all add: a_slot_def)

lemma slot_simps [simp]:
  "a_slot (Some d # ds) = Suc (a_slot ds)" "a_slot (None # ds) = 0" "a_slot [] = 0"
  "put_slot x (Some d # ds) = Some d # put_slot x ds" "put_slot x (None # ds) = Some x # ds" "put_slot x [] = [Some x]"
  "put_slot x (replicate k None) = Some x # replicate (k - 1) None"
  by (cases k; simp add: a_slot_def put_slot_def)+

lemma if_Some_None [simp]: "((if b then Some x else y) = None) = (\<not> b \<and> y = None)"
  by simp

lemma update_numeral [simp]: "(x # xs)[numeral n := y] = x # xs[pred_numeral n := y]"
  by (simp add: numeral_eq_Suc)

lemma lookup_eval:
  "a_lookup fd \<lparr>a_files = F, a_listed = L, a_fds = replicate k None, a_errno = e\<rparr> = None"
  "a_lookup fd \<lparr>a_files = F, a_listed = L, a_fds = x # xs, a_errno = e\<rparr> =
     (if fd < 0 then None else if fd = 0 then x
      else a_lookup (fd - 1) \<lparr>a_files = F, a_listed = L, a_fds = xs, a_errno = e\<rparr>)"
  by (auto simp: a_lookup_def nth_Cons' nat_diff_distrib)

lemma used_eval:
  "a_used f (Some d # ds) = (a_file d = f \<or> a_used f ds)" "a_used f (None # ds) = a_used f ds"
  "a_used f [] = False" "a_used f (replicate k None) = False"
  by (auto simp: a_used_def)

text \<open>Every descriptor is closed, no file is left, or one empty file: how the tests find and leave the file system.\<close>

definition closed :: "afs \<Rightarrow> bool" where
  "closed a \<longleftrightarrow> set (a_fds a) \<subseteq> {None} \<and> length (a_fds a) < 2 ^ 20"

definition clean :: "afs \<Rightarrow> bool" where
  "clean a \<longleftrightarrow> a_files a = Map.empty \<and> a_listed a = [] \<and> closed a"

definition one_file :: "afs \<Rightarrow> bool" where
  "one_file a \<longleftrightarrow> (\<exists>f. a_files a = [f \<mapsto> \<lparr>a_name = ''file'', a_data = []\<rparr>] \<and> a_listed a = [f] \<and> closed a)"

definition is_clean :: "ufs \<Rightarrow> bool" where
  "is_clean s \<longleftrightarrow> (\<exists>a. ufs_rel s a \<and> clean a)"

definition has_file :: "ufs \<Rightarrow> bool" where
  "has_file s \<longleftrightarrow> (\<exists>a. ufs_rel s a \<and> one_file a)"

lemma closed_form:
  "closed a \<Longrightarrow> a = \<lparr>a_files = a_files a, a_listed = a_listed a, a_fds = replicate (length (a_fds a)) None, a_errno = a_errno a\<rparr>"
  by (cases a) (auto simp: closed_def intro: replicate_eqI)

lemma clean_obtain:
  assumes "is_clean s"
  obtains k e where "ufs_rel s \<lparr>a_files = Map.empty, a_listed = [], a_fds = replicate k None, a_errno = e\<rparr>" "k < 2 ^ 20"
proof -
  obtain a where a: "ufs_rel s a" "a_files a = Map.empty" "a_listed a = []" "closed a"
    using assms unfolding is_clean_def clean_def by blast
  have "length (a_fds a) < 2 ^ 20" using a(4) by (simp add: closed_def)
  with that a(1) closed_form [OF a(4)] show thesis unfolding a(2,3) by metis
qed

lemma file_obtain:
  assumes "has_file s"
  obtains f k e where "ufs_rel s \<lparr>a_files = [f \<mapsto> \<lparr>a_name = ''file'', a_data = []\<rparr>], a_listed = [f],
    a_fds = replicate k None, a_errno = e\<rparr>" "k < 2 ^ 20"
proof -
  obtain a f where a: "ufs_rel s a" "a_files a = [f \<mapsto> \<lparr>a_name = ''file'', a_data = []\<rparr>]" "a_listed a = [f]" "closed a"
    using assms unfolding has_file_def one_file_def by blast
  have "length (a_fds a) < 2 ^ 20" using a(4) by (simp add: closed_def)
  with that a(1) closed_form [OF a(4)] show thesis unfolding a(2,3) by metis
qed

text \<open>The tests one after another.\<close>

lemma passes_bind:
  assumes "passes m Q" "\<And>r t a. ufs_rel t a \<Longrightarrow> Q r a \<Longrightarrow> passes (k (r, t)) R"
  shows "passes (Option.bind m k) R"
  using assms by (auto simp: passes_def)

lemmas spec_eval = a_open_def a_find_def a_add_fd_def a_create_def a_fail_def a_close_def lookup_eval a_set_fd_def
  a_drop_def used_eval a_delete_def a_write_def a_read_def a_set_data_def a_data_of_def overwrite_def a_resize_def a_size_of_def
  specific_flag_is_present_def ufs_flags MAX_FILE_SIZE_def Let_def

section \<open>The tests\<close>

definition test_open :: "ufs \<Rightarrow> (unit \<times> ufs) option" where
  "test_open s = do {
     (fd, s) \<leftarrow> ufs_open ''file'' 0 s;
     check (fd = -1);
     check (ufs_errno s = UFS_ERR_NO_FILE);
     (fd, s) \<leftarrow> ufs_open ''file'' UFS_CREATE s;
     check (fd \<noteq> -1);
     (rc, s) \<leftarrow> ufs_close fd s;
     check (rc = 0);
     (fd, s) \<leftarrow> ufs_open ''file'' 0 s;
     check (fd \<noteq> -1);
     (rc, s) \<leftarrow> ufs_close fd s;
     check (rc = 0);
     (fd, s) \<leftarrow> ufs_open ''file'' UFS_CREATE s;
     check (fd \<noteq> -1);
     (fd2, s) \<leftarrow> ufs_open ''file'' 0 s;
     check (fd2 \<noteq> -1);
     check (fd2 \<noteq> fd);
     (rc, s) \<leftarrow> ufs_close fd2 s;
     check (rc = 0);
     (rc, s) \<leftarrow> ufs_close fd s;
     check (rc = 0);
     (rc, s) \<leftarrow> ufs_delete ''file'' s;
     check (rc = 0);
     (fd, s) \<leftarrow> ufs_open ''file'' 0 s;
     check (fd = -1);
     Some ((), s) }"

lemma test_open_passes:
  assumes "is_clean s"
  shows "passes (test_open s) (\<lambda>_. clean)"
  using assms
  apply (rule clean_obtain)
  unfolding test_open_def
  apply (erule passes_open, simp, simp add: spec_eval)
  apply (erule passes_errno, simp)
  apply (erule passes_open, simp, simp add: spec_eval)
  apply (erule passes_close, simp add: spec_eval)
  apply (erule passes_open, simp, simp add: spec_eval)
  apply (erule passes_close, simp add: spec_eval)
  apply (erule passes_open, simp, simp add: spec_eval)
  apply (erule passes_open, simp, simp add: spec_eval)
  apply (erule passes_close, simp add: spec_eval)
  apply (erule passes_close, simp add: spec_eval)
  apply (erule passes_delete, simp add: spec_eval)
  apply (erule passes_open, simp, simp add: spec_eval)
  apply (erule passes_return)
  apply (auto simp: clean_def closed_def)
  done

text \<open>What a buffer holds after bytes were read into it from position p on; memcmp of its beginning with a string.\<close>

definition into :: "nat \<Rightarrow> byte list \<Rightarrow> byte list \<Rightarrow> byte list" where
  "into p bytes buf = take p buf @ bytes @ drop (p + length bytes) buf"

definition memcmp :: "byte list \<Rightarrow> string \<Rightarrow> nat \<Rightarrow> bool" where
  "memcmp buf str n = (take n buf = map Some (take n str))"

lemma memcmp_into [simp]:
  "n \<le> length bytes \<Longrightarrow> memcmp (into 0 bytes buf) str n = memcmp bytes str n"
  by (simp add: memcmp_def into_def)

lemma memcmp_same [simp]: "memcmp (map Some buf) buf n"
  by (simp add: memcmp_def take_map)

lemma memcmp_bytes [simp]: "memcmp (x # xs) (c # cs) (Suc n) = (x = Some c \<and> memcmp xs cs n)" "memcmp xs str 0"
  "memcmp (x # xs) (c # cs) (numeral k) = (x = Some c \<and> memcmp xs cs (pred_numeral k))"
  by (simp_all add: memcmp_def numeral_eq_Suc)

definition test_close :: "ufs \<Rightarrow> (unit \<times> ufs) option" where
  "test_close s = do {
     (rc, s) \<leftarrow> ufs_close (-1) s;
     check (rc = -1);
     check (ufs_errno s = UFS_ERR_NO_FILE);
     (rc, s) \<leftarrow> ufs_close 0 s;
     check (rc = -1);
     check (ufs_errno s = UFS_ERR_NO_FILE);
     (rc, s) \<leftarrow> ufs_close (2 ^ 31 - 1) s;
     check (rc = -1);
     check (ufs_errno s = UFS_ERR_NO_FILE);
     (fd, s) \<leftarrow> ufs_open ''file'' UFS_CREATE s;
     check (fd \<noteq> -1);
     (rc, s) \<leftarrow> ufs_close fd s;
     check (rc = 0);
     (rc, s) \<leftarrow> ufs_close fd s;
     check (rc = -1);
     check (ufs_errno s = UFS_ERR_NO_FILE);
     Some ((), s) }"

definition test_delete :: "ufs \<Rightarrow> (unit \<times> ufs) option" where
  "test_delete s = do {
     (fd1, s) \<leftarrow> ufs_open ''file'' UFS_CREATE s;
     (fd2, s) \<leftarrow> ufs_open ''file'' 0 s;
     (fd3, s) \<leftarrow> ufs_open ''file'' 0 s;
     check (\<not> (fd1 = -1 \<or> fd2 = -1 \<or> fd3 = -1));
     (rc, s) \<leftarrow> ufs_delete ''file'' s;
     check (rc = 0);
     (tmp, s) \<leftarrow> ufs_open ''tmp'' UFS_CREATE s;
     check (tmp \<noteq> -1);
     (rc, s) \<leftarrow> ufs_write tmp ''hhhhh'' 5 s;
     check (rc = 5);
     (rc, s) \<leftarrow> ufs_close tmp s;
     (rc, s) \<leftarrow> ufs_write fd2 ''a'' 1 s;
     check (rc = 1);
     (rc, c1, s) \<leftarrow> ufs_read fd3 1 s;
     check (rc = 1);
     check (memcmp c1 ''a'' 1);
     (rc, s) \<leftarrow> ufs_write fd3 ''bc'' 2 s;
     check (rc = 2);
     (rc, c1, s) \<leftarrow> ufs_read fd1 1 s;
     check (rc = 1);
     (rc, c2, s) \<leftarrow> ufs_read fd1 1 s;
     check (rc = 1);
     check (memcmp c1 ''a'' 1 \<and> memcmp c2 ''b'' 1);
     (fd4, s) \<leftarrow> ufs_open ''file'' 0 s;
     check (fd4 = -1);
     check (ufs_errno s = UFS_ERR_NO_FILE);
     (fd4, s) \<leftarrow> ufs_open ''file'' UFS_CREATE s;
     check (fd4 \<noteq> -1);
     (rc, c1, s) \<leftarrow> ufs_read fd4 1 s;
     check (rc = 0);
     (rc, c2, s) \<leftarrow> ufs_read fd1 1 s;
     check (rc = 1);
     check (memcmp c2 ''c'' 1);
     (rc, s) \<leftarrow> ufs_delete ''file'' s;
     check (rc = 0);
     (rc, s) \<leftarrow> ufs_close fd1 s;
     check (rc = 0);
     (rc, s) \<leftarrow> ufs_close fd2 s;
     check (rc = 0);
     (rc, s) \<leftarrow> ufs_close fd3 s;
     check (rc = 0);
     (rc, s) \<leftarrow> ufs_close fd4 s;
     check (rc = 0);
     (rc, s) \<leftarrow> ufs_delete ''tmp'' s;
     check (rc = 0);
     Some ((), s) }"

lemma test_close_passes:
  assumes "is_clean s"
  shows "passes (test_close s) (\<lambda>_. one_file)"
  using assms
  apply (rule clean_obtain)
  unfolding test_close_def
  apply (erule passes_close, simp add: spec_eval)
  apply (erule passes_errno, simp)
  apply (erule passes_close, simp add: spec_eval)
  apply (erule passes_errno, simp)
  apply (erule passes_close, simp add: spec_eval)
  apply (erule passes_errno, simp)
  apply (erule passes_open, simp, simp add: spec_eval)
  apply (erule passes_close, simp add: spec_eval)
  apply (erule passes_close, simp add: spec_eval)
  apply (erule passes_errno, simp)
  apply (erule passes_return)
  apply (auto simp: one_file_def closed_def)
  done

lemma test_delete_passes:
  assumes "is_clean s"
  shows "passes (test_delete s) (\<lambda>_. clean)"
  using assms
  apply (rule clean_obtain)
  unfolding test_delete_def
  apply (erule passes_open, simp, simp add: spec_eval)
  apply (erule passes_open, simp, simp add: spec_eval)
  apply (erule passes_open, simp, simp add: spec_eval)
  apply (erule passes_delete, simp add: spec_eval)
  apply (erule passes_open, simp, simp add: spec_eval)
  apply (erule passes_write, simp, simp, simp add: spec_eval)
  apply (erule passes_close, simp add: spec_eval)
  apply (erule passes_write, simp, simp, simp add: spec_eval)
  apply (erule passes_read, simp, simp add: spec_eval)
  apply (erule passes_write, simp, simp, simp add: spec_eval)
  apply (erule passes_read, simp, simp add: spec_eval)
  apply (erule passes_read, simp, simp add: spec_eval)
  apply (erule passes_open, simp, simp add: spec_eval)
  apply (erule passes_errno, simp)
  apply (erule passes_open, simp, simp add: spec_eval)
  apply (erule passes_read, simp, simp add: spec_eval)
  apply (erule passes_read, simp, simp add: spec_eval)
  apply (erule passes_delete, simp add: spec_eval)
  apply (erule passes_close, simp add: spec_eval)
  apply (erule passes_close, simp add: spec_eval)
  apply (erule passes_close, simp add: spec_eval)
  apply (erule passes_close, simp add: spec_eval)
  apply (erule passes_delete, simp add: spec_eval)
  apply (erule passes_return)
  apply (auto simp: clean_def closed_def)
  done

definition test_rights :: "ufs \<Rightarrow> (unit \<times> ufs) option" where
  "test_rights s = do {
     (fd, s) \<leftarrow> ufs_open ''file'' UFS_CREATE s;
     check (fd \<noteq> -1);
     let buf1 = ''hello'' @ [CHR 0x00];
     let buf1_size = 6;
     (rc, bytes, s) \<leftarrow> ufs_read fd buf1_size s;
     check (rc = 0);
     (rc, s) \<leftarrow> ufs_write fd buf1 buf1_size s;
     check (rc = int buf1_size);
     (rc, s) \<leftarrow> ufs_close fd s;
     check (rc = 0);
     (fd, s) \<leftarrow> ufs_open ''file'' 0 s;
     check (fd \<noteq> -1);
     let buf2 = replicate 128 None;
     (rc, bytes, s) \<leftarrow> ufs_read fd 128 s;
     let buf2 = into 0 bytes buf2;
     check (rc = int buf1_size);
     check (memcmp buf2 buf1 buf1_size);
     (rc, s) \<leftarrow> ufs_write fd buf1 buf1_size s;
     check (rc = int buf1_size);
     (rc, s) \<leftarrow> ufs_close fd s;
     check (rc = 0);
     (fd, s) \<leftarrow> ufs_open ''file'' UFS_READ_ONLY s;
     check (fd \<noteq> -1);
     (rc, bytes, s) \<leftarrow> ufs_read fd buf1_size s;
     let buf2 = into 0 bytes buf2;
     check (rc = int buf1_size);
     check (memcmp buf2 buf1 buf1_size);
     (rc, s) \<leftarrow> ufs_write fd (''bad'' @ [CHR 0x00]) 4 s;
     check (rc = -1);
     check (ufs_errno s = UFS_ERR_NO_PERMISSION);
     (rc, bytes, s) \<leftarrow> ufs_read fd 128 s;
     let buf2 = into 0 bytes buf2;
     check (rc = int buf1_size);
     check (memcmp buf2 buf1 buf1_size);
     (rc, s) \<leftarrow> ufs_close fd s;
     check (rc = 0);
     (fd, s) \<leftarrow> ufs_open ''file'' UFS_WRITE_ONLY s;
     check (fd \<noteq> -1);
     (rc, bytes, s) \<leftarrow> ufs_read fd 128 s;
     check (rc = -1);
     check (ufs_errno s = UFS_ERR_NO_PERMISSION);
     let buf3 = ''new data which rewrites previous'' @ [CHR 0x00];
     let buf3_size = 33;
     (rc, s) \<leftarrow> ufs_write fd buf3 buf3_size s;
     check (rc = int buf3_size);
     (rc, s) \<leftarrow> ufs_close fd s;
     check (rc = 0);
     (fd, s) \<leftarrow> ufs_open ''file'' UFS_READ_WRITE s;
     check (fd \<noteq> -1);
     (rc, bytes, s) \<leftarrow> ufs_read fd 128 s;
     let buf2 = into 0 bytes buf2;
     check (rc = int buf3_size);
     check (memcmp buf2 buf3 buf3_size);
     (rc, s) \<leftarrow> ufs_write fd buf1 buf1_size s;
     check (rc = int buf1_size);
     (rc, s) \<leftarrow> ufs_close fd s;
     check (rc = 0);
     (rc, s) \<leftarrow> ufs_delete ''file'' s;
     check (rc = 0);
     (fd, s) \<leftarrow> ufs_open ''file'' UFS_CREATE s;
     check (fd \<noteq> -1);
     (rc, s) \<leftarrow> ufs_close fd s;
     (fd, s) \<leftarrow> ufs_open ''file'' UFS_WRITE_ONLY s;
     check (fd \<noteq> -1);
     (rc, s) \<leftarrow> ufs_write fd ''123456'' 6 s;
     check (rc = 6);
     (rc, s) \<leftarrow> ufs_close fd s;
     check (rc = 0);
     (fd, s) \<leftarrow> ufs_open ''file'' UFS_WRITE_ONLY s;
     (rc, s) \<leftarrow> ufs_write fd ''abc'' 3 s;
     check (rc = 3);
     (rc, s) \<leftarrow> ufs_close fd s;
     check (rc = 0);
     (fd, s) \<leftarrow> ufs_open ''file'' UFS_READ_ONLY s;
     (rc, bytes, s) \<leftarrow> ufs_read fd 128 s;
     let buf2 = into 0 bytes buf2;
     check (rc = 6);
     check (memcmp buf2 ''abc456'' 6);
     (rc, s) \<leftarrow> ufs_close fd s;
     check (rc = 0);
     (rc, s) \<leftarrow> ufs_delete ''file'' s;
     check (rc = 0);
     Some ((), s) }"

lemma test_rights_passes:
  assumes "is_clean s"
  shows "passes (test_rights s) (\<lambda>_. clean)"
  using assms
  apply (rule clean_obtain)
  unfolding test_rights_def Let_def
  apply (erule passes_open, simp, simp add: spec_eval)
  apply (erule passes_read, simp, simp add: spec_eval)
  apply (erule passes_write, simp, simp, simp add: spec_eval)
  apply (erule passes_close, simp add: spec_eval)
  apply (erule passes_open, simp, simp add: spec_eval)
  apply (erule passes_read, simp, simp add: spec_eval)
  apply (erule passes_write, simp, simp, simp add: spec_eval)
  apply (erule passes_close, simp add: spec_eval)
  apply (erule passes_open, simp, simp add: spec_eval)
  apply (erule passes_read, simp, simp add: spec_eval)
  apply (erule passes_write, simp, simp, simp add: spec_eval)
  apply (erule passes_errno, simp)
  apply (erule passes_read, simp, simp add: spec_eval)
  apply (erule passes_close, simp add: spec_eval)
  apply (erule passes_open, simp, simp add: spec_eval)
  apply (erule passes_read, simp, simp add: spec_eval)
  apply (erule passes_errno, simp)
  apply (erule passes_write, simp, simp, simp add: spec_eval)
  apply (erule passes_close, simp add: spec_eval)
  apply (erule passes_open, simp, simp add: spec_eval)
  apply (erule passes_read, simp, simp add: spec_eval)
  apply (erule passes_write, simp, simp, simp add: spec_eval)
  apply (erule passes_close, simp add: spec_eval)
  apply (erule passes_delete, simp add: spec_eval)
  apply (erule passes_open, simp, simp add: spec_eval)
  apply (erule passes_close, simp add: spec_eval)
  apply (erule passes_open, simp, simp add: spec_eval)
  apply (erule passes_write, simp, simp, simp add: spec_eval)
  apply (erule passes_close, simp add: spec_eval)
  apply (erule passes_open, simp, simp add: spec_eval)
  apply (erule passes_write, simp, simp, simp add: spec_eval)
  apply (erule passes_close, simp add: spec_eval)
  apply (erule passes_open, simp, simp add: spec_eval)
  apply (erule passes_read, simp, simp add: spec_eval)
  apply (erule passes_close, simp add: spec_eval)
  apply (erule passes_delete, simp add: spec_eval)
  apply (erule passes_return)
  apply (auto simp: clean_def closed_def)
  done

definition test_resize :: "ufs \<Rightarrow> (unit \<times> ufs) option" where
  "test_resize s = do {
     (fd, s) \<leftarrow> ufs_open ''file'' UFS_CREATE s;
     check (fd \<noteq> -1);
     let buffer = replicate 2048 (CHR ''a'');
     (rc, s) \<leftarrow> ufs_write fd buffer 2048 s;
     check (rc = 2048);
     (rc, s) \<leftarrow> ufs_resize fd 23 s;
     check (rc = 0);
     (fd2, s) \<leftarrow> ufs_open ''file2'' UFS_CREATE s;
     check (fd2 \<noteq> -1);
     (rc, s) \<leftarrow> ufs_write fd2 ''123'' 3 s;
     check (rc = 3);
     (rc, s) \<leftarrow> ufs_close fd2 s;
     check (rc = 0);
     (rc, s) \<leftarrow> ufs_delete ''file2'' s;
     check (rc = 0);
     (rc, s) \<leftarrow> ufs_write fd buffer 2048 s;
     check (rc = 2048);
     (rc, s) \<leftarrow> ufs_close fd s;
     check (rc = 0);
     (rc, s) \<leftarrow> ufs_delete ''file'' s;
     check (rc = 0);
     (fd, s) \<leftarrow> ufs_open ''file'' UFS_CREATE s;
     check (fd \<noteq> -1);
     (rc, s) \<leftarrow> ufs_write fd buffer 2048 s;
     check (rc = 2048);
     (fd2, s) \<leftarrow> ufs_open ''file'' 0 s;
     check (fd2 \<noteq> -1);
     (rc, s) \<leftarrow> ufs_resize fd2 3 s;
     check (rc = 0);
     (rc, s) \<leftarrow> ufs_write fd ''after'' 5 s;
     check (rc = 5);
     (rc, bytes, s) \<leftarrow> ufs_read fd2 2048 s;
     let buffer = into 0 bytes (map Some buffer);
     check (rc = 8);
     check (memcmp buffer ''aaaafter'' 8);
     (rc, s) \<leftarrow> ufs_close fd2 s;
     check (rc = 0);
     (rc, s) \<leftarrow> ufs_close fd s;
     check (rc = 0);
     (rc, s) \<leftarrow> ufs_delete ''file'' s;
     check (rc = 0);
     Some ((), s) }"

lemma test_resize_passes:
  assumes "is_clean s"
  shows "passes (test_resize s) (\<lambda>_. clean)"
  using assms
  apply (rule clean_obtain)
  unfolding test_resize_def Let_def
  apply (erule passes_open, simp, simp add: spec_eval)
  apply (erule passes_write, simp, simp, simp add: spec_eval)
  apply (erule passes_resize, simp add: spec_eval, simp add: spec_eval a_move_back_def)
  apply (erule passes_open, simp, simp add: spec_eval)
  apply (erule passes_write, simp, simp, simp add: spec_eval)
  apply (erule passes_close, simp add: spec_eval)
  apply (erule passes_delete, simp add: spec_eval)
  apply (erule passes_write, simp, simp, simp add: spec_eval)
  apply (erule passes_close, simp add: spec_eval)
  apply (erule passes_delete, simp add: spec_eval)
  apply (erule passes_open, simp, simp add: spec_eval)
  apply (erule passes_write, simp, simp, simp add: spec_eval)
  apply (erule passes_open, simp, simp add: spec_eval)
  apply (erule passes_resize, simp add: spec_eval, simp add: spec_eval a_move_back_def)
  apply (erule passes_write, simp, simp, simp add: spec_eval)
  apply (erule passes_read, simp, simp add: spec_eval numeral_3_eq_3)
  apply (erule passes_close, simp add: spec_eval)
  apply (erule passes_close, simp add: spec_eval)
  apply (erule passes_delete, simp add: spec_eval)
  apply (erule passes_return)
  apply (auto simp: clean_def closed_def)
  done

text \<open>The loops of the test of the maximal size: i writes of the whole buffer, i reads that compare with it.\<close>

primrec write_times :: "nat \<Rightarrow> int \<Rightarrow> char list \<Rightarrow> ufs \<Rightarrow> (unit \<times> ufs) option" where
  "write_times 0 fd buf s = Some ((), s)"
| "write_times (Suc i) fd buf s = do {
     (rc, s) \<leftarrow> ufs_write fd buf (length buf) s;
     check (rc = int (length buf));
     write_times i fd buf s }"

primrec read_times :: "nat \<Rightarrow> int \<Rightarrow> char list \<Rightarrow> byte list \<Rightarrow> ufs \<Rightarrow> (unit \<times> ufs) option" where
  "read_times 0 fd buf buf2 s = Some ((), s)"
| "read_times (Suc i) fd buf buf2 s = do {
     (rc, bytes, s) \<leftarrow> ufs_read fd (length buf) s;
     let buf2 = into 0 bytes buf2;
     check (rc = int (length buf));
     check (memcmp buf2 buf (length buf));
     read_times i fd buf buf2 s }"

definition letters :: "nat \<Rightarrow> char list" where
  "letters n = map (\<lambda>i. char_of (97 + i mod 26)) [0..<n]"

definition test_max_file_size :: "ufs \<Rightarrow> (unit \<times> ufs) option" where
  "test_max_file_size s = do {
     (fd, s) \<leftarrow> ufs_open ''file'' UFS_CREATE s;
     check (fd \<noteq> -1);
     let buf_size = 1024 * 1024;
     let buf = letters buf_size;
     (_, s) \<leftarrow> write_times 100 fd buf s;
     (rc, s) \<leftarrow> ufs_write fd ''a'' 1 s;
     check (rc = -1);
     check (ufs_errno s = UFS_ERR_NO_MEM);
     (rc, s) \<leftarrow> ufs_close fd s;
     check (rc = 0);
     (fd, s) \<leftarrow> ufs_open ''file'' 0 s;
     check (fd \<noteq> -1);
     (_, s) \<leftarrow> read_times 100 fd buf (replicate buf_size None) s;
     (rc, s) \<leftarrow> ufs_close fd s;
     check (rc \<noteq> -1);
     (rc, s) \<leftarrow> ufs_delete ''file'' s;
     check (rc \<noteq> -1);
     Some ((), s) }"

text \<open>A file under the first descriptor.\<close>

definition fd0 :: "ptr \<Rightarrow> byte list \<Rightarrow> nat \<Rightarrow> int \<Rightarrow> adesc option list \<Rightarrow> ufs_error_code \<Rightarrow> afs" where
  "fd0 f data pos flags ds e =
     \<lparr>a_files = [f \<mapsto> \<lparr>a_name = ''file'', a_data = data\<rparr>], a_listed = [f],
      a_fds = Some \<lparr>a_file = f, a_pos = pos, a_flags = flags\<rparr> # ds, a_errno = e\<rparr>"

lemma length_concat_replicate [simp]: "length (concat (replicate n xs)) = n * length xs"
  by (induction n) simp_all

lemma write_times_passes:
  assumes "ufs_rel s (fd0 f data (length data) 1 ds e)" "int (length data) + int i * int (length buf) \<le> MAX_FILE_SIZE"
  shows "passes (write_times i 0 buf s)
    (\<lambda>_ a. let d = data @ concat (replicate i (map Some buf)) in a = fd0 f d (length d) 1 ds e)"
  using assms
proof (induction i arbitrary: s data)
  case 0
  then show ?case by (auto simp: Let_def intro: passes_return)
next
  case (Suc i)
  have fits: "int (length data) + int (length buf) + int i * int (length buf) \<le> MAX_FILE_SIZE"
    using Suc.prems(2) by (simp add: algebra_simps)
  then have small: "int (length data) + int (length buf) \<le> 104857600"
  proof -
    have "0 \<le> int i * int (length buf)" by simp
    with fits show ?thesis unfolding MAX_FILE_SIZE_def by linarith
  qed
  show ?case
    unfolding write_times.simps
  proof (rule passes_write [OF Suc.prems(1) order_refl])
    show "length buf < 2 ^ 31 - 2 ^ 28" using small by simp
    fix t assume t: "ufs_rel t (snd (a_write 0 (take (length buf) buf) (fd0 f data (length data) 1 ds e)))"
    have w: "a_write 0 (take (length buf) buf) (fd0 f data (length data) 1 ds e) =
        (int (length buf), fd0 f (data @ map Some buf) (length (data @ map Some buf)) 1 ds e)"
      using small by (simp add: spec_eval fd0_def)
    show "passes (case (fst (a_write 0 (take (length buf) buf) (fd0 f data (length data) 1 ds e)), t) of
        (rc, s) \<Rightarrow> check (rc = int (length buf)) \<bind> (\<lambda>_. write_times i 0 buf s))
      (\<lambda>_ a. let d = data @ concat (replicate (Suc i) (map Some buf)) in a = fd0 f d (length d) 1 ds e)"
      using Suc.IH [OF t [unfolded w snd_conv]] fits unfolding w by (simp add: Let_def)
  qed
qed

lemma read_times_passes:
  assumes "ufs_rel s (fd0 f (pre @ concat (replicate i (map Some buf))) (length pre) 0 ds e)" "length buf < 2 ^ 31"
  shows "passes (read_times i 0 buf buf2 s)
    (\<lambda>_ a. \<exists>pos. a = fd0 f (pre @ concat (replicate i (map Some buf))) pos 0 ds e)"
  using assms(1)
proof (induction i arbitrary: s pre buf2)
  case 0
  then show ?case by (auto intro: passes_return)
next
  case (Suc i)
  show ?case
    unfolding read_times.simps
  proof (rule passes_read [OF Suc.prems assms(2)])
    let ?a = "fd0 f (pre @ concat (replicate (Suc i) (map Some buf))) (length pre) 0 ds e"
    fix t assume t: "ufs_rel t (snd (snd (a_read 0 (length buf) ?a)))"
    have r: "a_read 0 (length buf) ?a = (int (length buf), map Some buf,
        fd0 f ((pre @ map Some buf) @ concat (replicate i (map Some buf))) (length (pre @ map Some buf)) 0 ds e)"
      by (simp add: spec_eval fd0_def)
    show "passes (case (fst (a_read 0 (length buf) ?a), fst (snd (a_read 0 (length buf) ?a)), t) of
        (rc, bytes, s) \<Rightarrow> let buf2 = into 0 bytes buf2 in check (rc = int (length buf)) \<bind>
          (\<lambda>_. check (memcmp buf2 buf (length buf)) \<bind> (\<lambda>_. read_times i 0 buf buf2 s)))
      (\<lambda>_ a. \<exists>pos. a = fd0 f (pre @ concat (replicate (Suc i) (map Some buf))) pos 0 ds e)"
      using Suc.IH [OF t [unfolded r snd_conv], of "into 0 (map Some buf) buf2"] unfolding r by simp
  qed
qed

lemma length_letters [simp]: "length (letters n) = n"
  by (simp add: letters_def)

lemma test_max_file_size_passes:
  assumes "is_clean s"
  shows "passes (test_max_file_size s) (\<lambda>_. clean)"
  using assms
  apply (rule clean_obtain)
  unfolding test_max_file_size_def Let_def
  apply (erule passes_open, simp, simp add: spec_eval)
  apply (rule passes_bind)
   apply (rule write_times_passes [where data = "[]"], simp add: fd0_def, simp add: MAX_FILE_SIZE_def)
  apply (simp only: prod.case Let_def fd0_def)
  apply (rule passes_write, assumption, simp, simp, simp add: spec_eval)
  apply (erule passes_errno, simp)
  apply (erule passes_close, simp add: spec_eval)
  apply (erule passes_open, simp, simp add: spec_eval)
  apply (rule passes_bind)
   apply (rule read_times_passes [where pre = "[]"], simp add: fd0_def, simp)
  apply (elim exE)
  apply (simp add: fd0_def)
  apply (erule passes_close, simp add: spec_eval)
  apply (erule passes_delete, simp add: spec_eval)
  apply (erule passes_return)
  apply (auto simp: clean_def closed_def)
  done

end
