(* ===== verification/User_FS_Suite.thy ===== *)
theory User_FS_Suite
  imports User_FS_Test
begin

text \<open>
  The longer tests of 3/test.c, of reading and writing in parts and of many files, and the whole suite:
  started on an empty file system it passes.
\<close>

section \<open>Reading and writing\<close>

text \<open>The two loops of test_io; the first result is the progress when the loop ends.\<close>

function write_parts :: "int \<Rightarrow> char list \<Rightarrow> nat \<Rightarrow> nat \<Rightarrow> ufs \<Rightarrow> (nat \<times> ufs) option" where
  "write_parts fd buffer some_size progress s =
     (if progress < some_size then
        let to_write = progress mod 123 + 1;
            to_write = (if to_write + progress > some_size then some_size - progress else to_write)
        in do {
          (rc, s) \<leftarrow> ufs_write fd (drop progress buffer) to_write s;
          if rc \<noteq> int to_write then Some (progress, s)
          else write_parts fd buffer some_size (progress + to_write) s }
      else Some (progress, s))"
  by pat_completeness auto
termination by (relation "measure (\<lambda>(_, _, some_size, progress, _). some_size - progress)") auto

function read_parts :: "int \<Rightarrow> byte list \<Rightarrow> nat \<Rightarrow> nat \<Rightarrow> ufs \<Rightarrow> ((nat \<times> byte list) \<times> ufs) option" where
  "read_parts fd buffer some_size progress s =
     (if progress < some_size then do {
        (rc, bytes, s) \<leftarrow> ufs_read fd (progress mod 123 + 1) s;
        if rc \<le> 0 then Some ((progress, buffer), s)
        else read_parts fd (into progress bytes buffer) some_size (progress + nat rc) s }
      else Some ((progress, buffer), s))"
  by pat_completeness auto
termination by (relation "measure (\<lambda>(_, _, some_size, progress, _). some_size - progress)") auto

declare write_parts.simps [simp del] read_parts.simps [simp del]

lemma overwrite_parts:
  assumes "p + n \<le> length xs"
  shows "overwrite p (take n (drop p xs)) (overwrite 0 (take p xs) d) = overwrite 0 (take (p + n) xs) d"
proof -
  have "take (p + n) xs = take p xs @ take n (drop p xs)" by (rule take_add)
  then show ?thesis using assms by (simp add: overwrite_def min_absorb2 add.commute)
qed

lemma into_parts:
  assumes "p + w \<le> length data" "length data \<le> length buffer"
  shows "into (p + w) (drop (p + w) data) (into p (take w (drop p data)) buffer) = into p (drop p data) buffer"
proof -
  have "take w (drop p data) @ drop (p + w) data = drop p data"
    by (metis append_take_drop_id drop_drop add.commute)
  then show ?thesis using assms
    by (simp add: into_def min_absorb2 add.commute [of w p])
qed

lemma length_into [simp]: "p + length bytes \<le> length buf \<Longrightarrow> length (into p bytes buf) = length buf"
  by (simp add: into_def)

lemma write_parts_passes:
  assumes "ufs_rel s (fd0 f (overwrite 0 (map Some (take p buf)) d) p 0 ds e)" "p \<le> n" "n \<le> length buf"
    "length buf < 2 ^ 20"
  shows "passes (write_parts 0 buf n p s)
    (\<lambda>r a. r = n \<and> a = fd0 f (overwrite 0 (map Some (take n buf)) d) n 0 ds e)"
  using assms
proof (induction "n - p" arbitrary: s p rule: less_induct)
  case less
  show ?case
  proof (cases "p < n")
    case False
    then show ?thesis using less.prems by (auto simp: write_parts.simps intro: passes_return)
  next
    case True
    define w where "w = (if p mod 123 + 1 + p > n then n - p else p mod 123 + 1)"
    have w: "0 < w" "p + w \<le> n" "w \<le> 123" using True by (auto simp: w_def)
    let ?a = "fd0 f (overwrite 0 (map Some (take p buf)) d) p 0 ds e"
    have wr: "a_write 0 (take w (drop p buf)) ?a =
        (int w, fd0 f (overwrite 0 (map Some (take (p + w) buf)) d) (p + w) 0 ds e)"
      using w less.prems overwrite_parts [of p w "map Some buf" d]
      by (simp add: fd0_def spec_eval take_map drop_map min_absorb2)
    have "passes (ufs_write 0 (drop p buf) w s \<bind> (\<lambda>(rc, s). if rc \<noteq> int w then Some (p, s)
        else write_parts 0 buf n (p + w) s))
      (\<lambda>r a. r = n \<and> a = fd0 f (overwrite 0 (map Some (take n buf)) d) n 0 ds e)"
    proof (rule passes_write [OF less.prems(1)])
      fix t assume t: "ufs_rel t (snd (a_write 0 (take w (drop p buf)) ?a))"
      show "passes (case (fst (a_write 0 (take w (drop p buf)) ?a), t) of (rc, s) \<Rightarrow>
          if rc \<noteq> int w then Some (p, s) else write_parts 0 buf n (p + w) s)
        (\<lambda>r a. r = n \<and> a = fd0 f (overwrite 0 (map Some (take n buf)) d) n 0 ds e)"
        using less.hyps [OF _ t [unfolded wr snd_conv]] w less.prems unfolding wr by simp
    qed (use w less.prems in auto)
    then show ?thesis using True by (subst write_parts.simps) (simp add: w_def Let_def cong: if_cong)
  qed
qed

lemma read_parts_passes:
  assumes "ufs_rel s (fd0 f data p 0 ds e)" "p \<le> length data" "length data \<le> length buffer"
  shows "passes (read_parts 0 buffer (length data) p s)
    (\<lambda>rb a. fst rb = length data \<and> snd rb = into p (drop p data) buffer \<and> a = fd0 f data (length data) 0 ds e)"
  using assms
proof (induction "length data - p" arbitrary: s p buffer rule: less_induct)
  case less
  show ?case
  proof (cases "p < length data")
    case False
    then show ?thesis using less.prems by (auto simp: read_parts.simps into_def intro!: passes_return)
  next
    case True
    define w where "w = min (length data - p) (p mod 123 + 1)"
    have w: "0 < w" "p + w \<le> length data" using True by (auto simp: w_def)
    let ?a = "fd0 f data p 0 ds e"
    have r: "a_read 0 (p mod 123 + 1) ?a =
        (int w, take (p mod 123 + 1) (drop p data), fd0 f data (p + w) 0 ds e)"
      using True by (simp add: fd0_def spec_eval w_def)
    have part: "take (p mod 123 + 1) (drop p data) = take w (drop p data)" by (simp add: w_def min_def)
    have join: "into (p + w) (drop (p + w) data) (into p (take w (drop p data)) buffer) = into p (drop p data) buffer"
      by (rule into_parts) (use w less.prems in auto)
    have "passes (ufs_read 0 (p mod 123 + 1) s \<bind> (\<lambda>(rc, bytes, s). if rc \<le> 0 then Some ((p, buffer), s)
        else read_parts 0 (into p bytes buffer) (length data) (p + nat rc) s))
      (\<lambda>rb a. fst rb = length data \<and> snd rb = into p (drop p data) buffer \<and> a = fd0 f data (length data) 0 ds e)"
    proof (rule passes_read [OF less.prems(1)])
      fix t assume t: "ufs_rel t (snd (snd (a_read 0 (p mod 123 + 1) ?a)))"
      show "passes (case (fst (a_read 0 (p mod 123 + 1) ?a), fst (snd (a_read 0 (p mod 123 + 1) ?a)), t) of (rc, bytes, s) \<Rightarrow>
          if rc \<le> 0 then Some ((p, buffer), s)
          else read_parts 0 (into p bytes buffer) (length data) (p + nat rc) s)
        (\<lambda>rb a. fst rb = length data \<and> snd rb = into p (drop p data) buffer \<and> a = fd0 f data (length data) 0 ds e)"
        using less.hyps [OF _ t [unfolded r snd_conv], of "into p (take w (drop p data)) buffer"] w less.prems(3) join
        unfolding r part by simp
    qed (use pos_mod_bound [of 123 "int p"] in simp)
    then show ?thesis using True by (subst read_parts.simps) simp
  qed
qed

definition test_io :: "ufs \<Rightarrow> (unit \<times> ufs) option" where
  "test_io s = do {
     (rc, s) \<leftarrow> ufs_write (-1) [] 0 s;
     check (rc = -1);
     check (ufs_errno s = UFS_ERR_NO_FILE);
     (rc, s) \<leftarrow> ufs_write 0 [] 0 s;
     check (rc = -1);
     check (ufs_errno s = UFS_ERR_NO_FILE);
     (rc, bytes, s) \<leftarrow> ufs_read (-1) 0 s;
     check (rc = -1);
     check (ufs_errno s = UFS_ERR_NO_FILE);
     (rc, bytes, s) \<leftarrow> ufs_read 0 0 s;
     check (rc = -1);
     check (ufs_errno s = UFS_ERR_NO_FILE);
     (fd1, s) \<leftarrow> ufs_open ''file'' UFS_CREATE s;
     (fd2, s) \<leftarrow> ufs_open ''file'' 0 s;
     check (\<not> (fd1 = -1 \<or> fd2 = -1));
     let buffer = replicate 2048 None;
     (rc, s) \<leftarrow> ufs_write fd1 ''123###'' 3 s;
     check (rc = 3);
     (rc, bytes, s) \<leftarrow> ufs_read fd2 2048 s;
     let buffer = into 0 bytes buffer;
     check (rc = 3);
     check (memcmp buffer ''123'' 3);
     (rc, s) \<leftarrow> ufs_close fd1 s;
     (rc, s) \<leftarrow> ufs_close fd2 s;
     (fd1, s) \<leftarrow> ufs_open ''file'' 0 s;
     check (fd1 \<noteq> -1);
     (rc, bytes, s) \<leftarrow> ufs_read fd1 2048 s;
     let buffer = into 0 bytes buffer;
     check (rc = 3);
     check (memcmp buffer ''123'' 3);
     (rc, s) \<leftarrow> ufs_write fd1 ''45678###'' 5 s;
     check (rc = 5);
     (rc, s) \<leftarrow> ufs_close fd1 s;
     (fd1, s) \<leftarrow> ufs_open ''file'' 0 s;
     check (fd1 \<noteq> -1);
     (rc, s) \<leftarrow> ufs_write fd1 ''abcd###'' 4 s;
     check (rc = 4);
     (rc, bytes, s) \<leftarrow> ufs_read fd1 2048 s;
     let buffer = into 0 bytes buffer;
     check (rc = 4);
     check (memcmp buffer ''5678'' 4);
     (rc, s) \<leftarrow> ufs_close fd1 s;
     (fd1, s) \<leftarrow> ufs_open ''file'' 0 s;
     check (fd1 \<noteq> -1);
     (rc, bytes, s) \<leftarrow> ufs_read fd1 2048 s;
     let buffer = into 0 bytes buffer;
     check (rc = 8);
     check (memcmp buffer ''abcd5678'' 4);
     (rc, s) \<leftarrow> ufs_close fd1 s;
     (fd1, s) \<leftarrow> ufs_open ''file'' 0 s;
     check (fd1 \<noteq> -1);
     let zeros = [CHR ''1'', CHR 0x00, CHR ''2'', CHR 0x00, CHR ''3'', CHR 0x00];
     (rc, s) \<leftarrow> ufs_write fd1 zeros 6 s;
     check (rc = 6);
     (rc, s) \<leftarrow> ufs_close fd1 s;
     (fd1, s) \<leftarrow> ufs_open ''file'' 0 s;
     check (fd1 \<noteq> -1);
     (rc, bytes, s) \<leftarrow> ufs_read fd1 6 s;
     let buffer = into 0 bytes buffer;
     check (rc = 6);
     check (memcmp buffer zeros 6);
     (rc, s) \<leftarrow> ufs_close fd1 s;
     let some_size = 1234;
     let buffer = into 0 (map Some (letters some_size)) buffer;
     (fd1, s) \<leftarrow> ufs_open ''file'' 0 s;
     check (fd1 \<noteq> -1);
     (progress, s) \<leftarrow> write_parts fd1 (letters some_size) some_size 0 s;
     check (progress = some_size);
     (rc, s) \<leftarrow> ufs_close fd1 s;
     (fd1, s) \<leftarrow> ufs_open ''file'' 0 s;
     check (fd1 \<noteq> -1);
     ((progress, buffer), s) \<leftarrow> read_parts fd1 buffer some_size 0 s;
     check (progress = some_size);
     (rc, s) \<leftarrow> ufs_close fd1 s;
     check (memcmp buffer (letters some_size) some_size);
     (rc, s) \<leftarrow> ufs_delete ''file'' s;
     Some ((), s) }"

lemma test_io_passes:
  assumes "has_file s"
  shows "passes (test_io s) (\<lambda>_. clean)"
  using assms
  apply (rule file_obtain)
  unfolding test_io_def Let_def
  apply (erule passes_write, simp, simp, simp add: spec_eval)
  apply (erule passes_errno, simp)
  apply (erule passes_write, simp, simp, simp add: spec_eval)
  apply (erule passes_errno, simp)
  apply (erule passes_read, simp, simp add: spec_eval)
  apply (erule passes_errno, simp)
  apply (erule passes_read, simp, simp add: spec_eval)
  apply (erule passes_errno, simp)
  apply (erule passes_open, simp, simp add: spec_eval)
  apply (erule passes_open, simp, simp add: spec_eval)
  apply (erule passes_write, simp, simp, simp add: spec_eval)
  apply (erule passes_read, simp, simp add: spec_eval)
  apply (erule passes_close, simp add: spec_eval)
  apply (erule passes_close, simp add: spec_eval)
  apply (erule passes_open, simp, simp add: spec_eval)
  apply (erule passes_read, simp, simp add: spec_eval)
  apply (erule passes_write, simp, simp, simp add: spec_eval)
  apply (erule passes_close, simp add: spec_eval)
  apply (erule passes_open, simp, simp add: spec_eval)
  apply (erule passes_write, simp, simp, simp add: spec_eval)
  apply (erule passes_read, simp, simp add: spec_eval)
  apply (erule passes_close, simp add: spec_eval)
  apply (erule passes_open, simp, simp add: spec_eval)
  apply (erule passes_read, simp, simp add: spec_eval)
  apply (erule passes_close, simp add: spec_eval)
  apply (erule passes_open, simp, simp add: spec_eval)
  apply (erule passes_write, simp, simp, simp add: spec_eval)
  apply (erule passes_close, simp add: spec_eval)
  apply (erule passes_open, simp, simp add: spec_eval)
  apply (erule passes_read, simp, simp add: spec_eval)
  apply (erule passes_close, simp add: spec_eval)
  apply (erule passes_open, simp, simp add: spec_eval)
  apply (rule passes_bind)
   apply (rule write_parts_passes, simp add: fd0_def, simp, simp, simp)
  apply (simp add: fd0_def)
  apply (erule passes_close, simp add: spec_eval)
  apply (erule passes_open, simp, simp add: spec_eval)
  apply (rule passes_bind)
   apply (rule read_parts_passes [where data = "map Some (letters 1234)", simplified], simp add: fd0_def)
   apply simp
   apply simp
  apply (simp add: fd0_def split_beta)
  apply (erule passes_close, simp add: spec_eval)
  apply (erule passes_delete, simp add: spec_eval)
  apply (erule passes_return)
  apply (auto simp: clean_def closed_def)
  done

section \<open>Many files\<close>

definition file_name :: "nat \<Rightarrow> string" where
  "file_name i = ''file'' @ show_nat i"

primrec stress_write :: "nat list \<Rightarrow> ufs \<Rightarrow> ((int \<times> int) list \<times> ufs) option" where
  "stress_write [] s = Some ([], s)"
| "stress_write (i # is) s = do {
     let name = file_name i;
     let name_len = length name + 1;
     (fd_in, s) \<leftarrow> ufs_open name UFS_CREATE s;
     (fd_out, s) \<leftarrow> ufs_open name 0 s;
     check (\<not> (fd_in = -1 \<or> fd_out = -1));
     (rc, s) \<leftarrow> ufs_write fd_out (name @ [CHR 0x00]) name_len s;
     check (rc = int name_len);
     (fds, s) \<leftarrow> stress_write is s;
     Some ((fd_in, fd_out) # fds, s) }"

primrec stress_read :: "(nat \<times> int \<times> int) list \<Rightarrow> byte list \<Rightarrow> ufs \<Rightarrow> (unit \<times> ufs) option" where
  "stress_read [] buf s = Some ((), s)"
| "stress_read (p # ps) buf s = do {
     let (i, fd_in, fd_out) = p;
     let name = file_name i;
     let name_len = length name + 1;
     (rc, bytes, s) \<leftarrow> ufs_read fd_in 16 s;
     let buf = into 0 bytes buf;
     check (rc = int name_len);
     check (memcmp buf (name @ [CHR 0x00]) (nat rc));
     (rc, s) \<leftarrow> ufs_close fd_in s;
     check (rc = 0);
     (rc, s) \<leftarrow> ufs_close fd_out s;
     check (rc = 0);
     (rc, s) \<leftarrow> ufs_delete name s;
     check (rc = 0);
     stress_read ps buf s }"

definition test_stress_open :: "ufs \<Rightarrow> (unit \<times> ufs) option" where
  "test_stress_open s = do {
     let count = 1000;
     (fds, s) \<leftarrow> stress_write [0..<count] s;
     stress_read (zip [0..<count] fds) (replicate 16 None) s }"

text \<open>The state between: files ps, each with a descriptor at its beginning and one at its end, after n closed descriptors.\<close>

definition file_of :: "nat \<Rightarrow> afile" where
  "file_of i = \<lparr>a_name = file_name i, a_data = map Some (file_name i @ [CHR 0x00])\<rparr>"

definition pair_of :: "nat \<times> ptr \<Rightarrow> adesc option list" where
  "pair_of p = [Some \<lparr>a_file = snd p, a_pos = 0, a_flags = 1\<rparr>,
                Some \<lparr>a_file = snd p, a_pos = length (file_name (fst p)) + 1, a_flags = 0\<rparr>]"

definition many :: "nat \<Rightarrow> (nat \<times> ptr) list \<Rightarrow> nat \<Rightarrow> ufs_error_code \<Rightarrow> afs" where
  "many n ps k e =
     \<lparr>a_files = map_of (map (\<lambda>p. (snd p, file_of (fst p))) ps), a_listed = rev (map snd ps),
      a_fds = replicate n None @ concat (map pair_of ps) @ replicate k None, a_errno = e\<rparr>"

lemma show_nat_inj: "show_nat m = show_nat n \<Longrightarrow> m = n"
proof -
  have "foldl (\<lambda>v c. 10 * v + (of_char c - 48)) 0 (show_nat i) = i" for i :: nat
  proof (induction i rule: show_nat.induct)
    case (1 i)
    then show ?case by (simp add: show_nat.simps [of i])
  qed
  then show "show_nat m = show_nat n \<Longrightarrow> m = n" by metis
qed

lemma file_name_eq [simp]: "file_name i = file_name j \<longleftrightarrow> i = j"
  using show_nat_inj by (auto simp: file_name_def)

lemma length_file_name: "i < 1000 \<Longrightarrow> length (file_name i) \<le> 7"
  using show_nat_length [of i 2] by (simp add: file_name_def)

lemma pairs_length [simp]: "length (concat (map pair_of ps)) = 2 * length ps"
  by (induction ps) (simp_all add: pair_of_def)

lemma slot_many [simp]:
  "a_slot (concat (map pair_of ps) @ ds) = 2 * length ps + a_slot ds"
  "put_slot x (concat (map pair_of ps) @ ds) = concat (map pair_of ps) @ put_slot x ds"
  by (induction ps) (simp_all add: pair_of_def)

lemma many_files: "distinct (map snd ps) \<Longrightarrow> (i, f) \<in> set ps \<Longrightarrow> a_files (many n ps k e) f = Some (file_of i)"
  by (force simp: many_def o_def intro!: map_of_is_SomeI)

lemma find_many:
  assumes "distinct (map snd ps)" "\<And>p. p \<in> set ps \<Longrightarrow> fst p \<noteq> i"
  shows "a_find (file_name i) (many n ps k e) = None"
proof -
  have "a_name (the (a_files (many n ps k e) f)) \<noteq> file_name i" if "f \<in> set (a_listed (many n ps k e))" for f
    using that assms many_files [OF assms(1), of _ f n k e] by (fastforce simp: many_def file_of_def)
  then show ?thesis by (simp add: a_find_def find_None_iff)
qed

text \<open>One more file.\<close>

lemma many_snoc:
  assumes "f \<notin> snd ` set ps"
  shows "many 0 (ps @ [(i, f)]) k e =
    \<lparr>a_files = (a_files (many 0 ps k e))(f \<mapsto> file_of i), a_listed = f # rev (map snd ps),
     a_fds = concat (map pair_of ps) @ pair_of (i, f) @ replicate k None, a_errno = e\<rparr>"
proof -
  have "map_of (map (\<lambda>p. (snd p, file_of (fst p))) ps) f = None"
    using assms by (force simp: map_of_eq_None_iff)
  then have "map_of (map (\<lambda>p. (snd p, file_of (fst p))) (ps @ [(i, f)])) =
      (map_of (map (\<lambda>p. (snd p, file_of (fst p))) ps))(f \<mapsto> file_of i)"
    by (auto simp: fun_eq_iff map_add_def split: option.splits)
  then show ?thesis by (simp add: many_def)
qed

lemma write_one:
  assumes "ufs_rel s (many 0 ps k e)" "distinct (map snd ps)" "\<And>p. p \<in> set ps \<Longrightarrow> fst p \<noteq> i"
    "k < 2 ^ 20" "length ps < 2 ^ 20" "length (file_name i) < 2 ^ 10"
    "\<And>f t. f \<notin> snd ` set ps \<Longrightarrow> ufs_rel t (many 0 (ps @ [(i, f)]) (k - 2) e) \<Longrightarrow>
       passes (K (2 * int (length ps), 2 * int (length ps) + 1) t) Q"
  shows "passes (do {
     let name = file_name i;
     let name_len = length name + 1;
     (fd_in, s) \<leftarrow> ufs_open name UFS_CREATE s;
     (fd_out, s) \<leftarrow> ufs_open name 0 s;
     check (\<not> (fd_in = -1 \<or> fd_out = -1));
     (rc, s) \<leftarrow> ufs_write fd_out (name @ [CHR 0x00]) name_len s;
     check (rc = int name_len);
     K (fd_in, fd_out) s }) Q"
proof -
  let ?a = "many 0 ps k e" and ?c = "concat (map pair_of ps)"
  let ?s1 = "\<lambda>f. \<lparr>a_files = (a_files ?a)(f \<mapsto> \<lparr>a_name = file_name i, a_data = []\<rparr>), a_listed = f # rev (map snd ps),
    a_fds = ?c @ Some \<lparr>a_file = f, a_pos = 0, a_flags = 1\<rparr> # replicate (k - 1) None, a_errno = e\<rparr>"
  let ?s2 = "\<lambda>f. (?s1 f)\<lparr>a_fds := ?c @ Some \<lparr>a_file = f, a_pos = 0, a_flags = 1\<rparr> #
    Some \<lparr>a_file = f, a_pos = 0, a_flags = 0\<rparr> # replicate (k - 2) None\<rparr>"
  have o1: "a_open f (file_name i) UFS_CREATE ?a = (2 * int (length ps), ?s1 f)" for f
    using find_many [OF assms(2,3), of 0 k e]
    by (simp add: a_open_def a_add_fd_def a_create_def specific_flag_is_present_def ufs_flags) (simp add: many_def)
  have o2: "a_open g (file_name i) 0 (?s1 f) = (2 * int (length ps) + 1, ?s2 f)" for f g
    by (simp add: a_open_def a_find_def a_add_fd_def numeral_2_eq_2)
  have w: "a_write (2 * int (length ps) + 1) (take (length (file_name i) + 1) (file_name i @ [CHR 0x00])) (?s2 f) =
      (int (length (file_name i)) + 1, many 0 (ps @ [(i, f)]) (k - 2) e)" if "f \<notin> snd ` set ps" for f
  proof -
    have n: "nat (2 * int (length ps) + 1) = 2 * length ps + 1" by simp
    have "a_lookup (2 * int (length ps) + 1) (?s2 f) = Some \<lparr>a_file = f, a_pos = 0, a_flags = 0\<rparr>"
      by (simp add: a_lookup_def n nth_append)
    moreover have "a_files (many 0 ps (k - 2) e) = a_files ?a" by (simp add: many_def)
    ultimately show ?thesis using assms(6)
      by (simp add: a_write_def many_snoc [OF that] a_set_fd_def n a_set_data_def a_data_of_def list_update_append
          specific_flag_is_present_def ufs_flags MAX_FILE_SIZE_def file_of_def pair_of_def overwrite_def)
  qed
  have short: "length (a_fds ?a) < 2 ^ 30" using assms(4,5) by (simp add: many_def)
  show ?thesis
    unfolding Let_def
  proof (rule passes_open [OF assms(1) short], unfold o1 fst_conv snd_conv prod.case)
    fix f t assume f: "a_files ?a f = None" and t: "ufs_rel t (?s1 f)"
    have fresh: "f \<notin> snd ` set ps" using f many_files [OF assms(2)] by force
    have short2: "length (a_fds (?s1 f)) < 2 ^ 30" using assms(4,5) by simp
    show "passes (ufs_open (file_name i) 0 t \<bind> (\<lambda>(fd_out, s).
        check (\<not> (2 * int (length ps) = - 1 \<or> fd_out = - 1)) \<bind> (\<lambda>_.
        ufs_write fd_out (file_name i @ [CHR 0x00]) (length (file_name i) + 1) s \<bind> (\<lambda>(rc, s).
        check (rc = int (length (file_name i) + 1)) \<bind> (\<lambda>_. K (2 * int (length ps), fd_out) s))))) Q"
    proof (rule passes_open [OF t short2], unfold o2 fst_conv snd_conv prod.case)
      fix u assume u: "ufs_rel u (?s2 f)"
      have "passes (ufs_write (2 * int (length ps) + 1) (file_name i @ [CHR 0x00]) (length (file_name i) + 1) u \<bind>
        (\<lambda>(rc, s). check (rc = int (length (file_name i) + 1)) \<bind> (\<lambda>_. K (2 * int (length ps), 2 * int (length ps) + 1) s))) Q"
        by (rule passes_write [OF u]; (unfold w [OF fresh] fst_conv snd_conv prod.case)?)
          (use assms(6,7) fresh in simp_all)
      then show "passes (check (\<not> (2 * int (length ps) = - 1 \<or> 2 * int (length ps) + 1 = - 1)) \<bind> (\<lambda>_.
        ufs_write (2 * int (length ps) + 1) (file_name i @ [CHR 0x00]) (length (file_name i) + 1) u \<bind> (\<lambda>(rc, s).
        check (rc = int (length (file_name i) + 1)) \<bind> (\<lambda>_. K (2 * int (length ps), 2 * int (length ps) + 1) s)))) Q"
        by simp
    qed
  qed
qed

text \<open>Reading the first file back, closing its descriptors and deleting it.\<close>

lemma find_last: "\<forall>y \<in> set xs. \<not> P y \<Longrightarrow> P x \<Longrightarrow> List.find P (xs @ [x]) = Some x"
  by (induction xs) auto

lemma memcmp_name: "memcmp (map Some str @ [Some c]) (str @ [c]) n"
  using memcmp_same [of "str @ [c]" n] by simp

lemma used_many:
  "f \<notin> snd ` set ps \<Longrightarrow> \<not> a_used f (replicate n None @ concat (map pair_of ps) @ replicate k None)"
  by (force simp: a_used_def pair_of_def)

lemma many_Cons:
  "many n ((i, f) # ps) k e =
    \<lparr>a_files = (a_files (many n ps k e))(f \<mapsto> file_of i), a_listed = rev (map snd ps) @ [f],
     a_fds = replicate n None @ pair_of (i, f) @ concat (map pair_of ps) @ replicate k None, a_errno = e\<rparr>"
  by (simp add: many_def)

lemma read_one:
  assumes "ufs_rel s (many n ((i, f) # ps) k e)" "distinct (map snd ((i, f) # ps))"
    "\<And>p. p \<in> set ps \<Longrightarrow> fst p \<noteq> i" "length (file_name i) < 16"
    "\<And>t. ufs_rel t (many (n + 2) ps k e) \<Longrightarrow>
       passes (K (into 0 (map Some (file_name i @ [CHR 0x00])) buf) t) Q"
  shows "passes (do {
     let name = file_name i;
     let name_len = length name + 1;
     (rc, bytes, s) \<leftarrow> ufs_read (int n) 16 s;
     let buf = into 0 bytes buf;
     check (rc = int name_len);
     check (memcmp buf (name @ [CHR 0x00]) (nat rc));
     (rc, s) \<leftarrow> ufs_close (int n) s;
     check (rc = 0);
     (rc, s) \<leftarrow> ufs_close (int n + 1) s;
     check (rc = 0);
     (rc, s) \<leftarrow> ufs_delete name s;
     check (rc = 0);
     K buf s }) Q"
proof -
  let ?a = "many n ((i, f) # ps) k e" and ?d = "concat (map pair_of ps) @ replicate k None"
    and ?len = "Suc (length (file_name i))"
  let ?st = "\<lambda>d1 d2. ?a\<lparr>a_fds := replicate n None @ d1 # d2 # ?d\<rparr>"
  let ?d1 = "Some \<lparr>a_file = f, a_pos = ?len, a_flags = 1\<rparr>" and ?d2 = "Some \<lparr>a_file = f, a_pos = ?len, a_flags = 0\<rparr>"
  let ?text = "map Some (file_name i @ [CHR 0x00])"
  have listed: "f \<in> set (a_listed (?st d1 d2))" for d1 d2 by (simp add: many_Cons)
  have n1: "nat (int n + 1) = Suc n" by simp
  have r: "a_read (int n) 16 ?a = (int ?len, ?text, ?st ?d1 ?d2)"
    using assms(4) by (simp add: a_read_def a_lookup_def many_Cons nth_append pair_of_def specific_flag_is_present_def
      ufs_flags a_data_of_def file_of_def a_set_fd_def list_update_append Let_def)
  have c1: "a_close (int n) (?st ?d1 ?d2) = (0, ?st None ?d2)"
    using listed by (simp add: a_close_def a_lookup_def nth_append a_set_fd_def list_update_append a_drop_def)
  have c2: "a_close (int n + 1) (?st None ?d2) = (0, ?st None None)"
    using listed by (simp add: a_close_def a_lookup_def n1 nth_append a_set_fd_def list_update_append a_drop_def)
  have fresh: "f \<notin> snd ` set ps" using assms(2) by force
  have find: "a_find (file_name i) (?st None None) = Some f"
  proof -
    have "a_name (the (a_files ?a g)) \<noteq> file_name i" if "g \<in> set (map snd ps)" for g
      using that many_files [OF assms(2), of _ g n k e] assms(3) by (fastforce simp: file_of_def)
    moreover have "a_name (the (a_files ?a f)) = file_name i"
      using many_files [OF assms(2), of i f n k e] by (simp add: file_of_def)
    ultimately show ?thesis
      using find_last [of "rev (map snd ps)" "\<lambda>f. a_name (the (a_files ?a f)) = file_name i" f]
      by (simp add: a_find_def many_Cons)
  qed
  have gone: "(a_files (many n ps k e))(f := None) = a_files (many (n + 2) ps k e)"
  proof -
    have "a_files (many n ps k e) f = None" using fresh by (force simp: many_def map_of_eq_None_iff)
    then show ?thesis by (simp add: fun_upd_idem) (simp add: many_def)
  qed
  have free: "replicate n None @ None # None # ?d = replicate (n + 2) None @ ?d"
    by (induction n) simp_all
  have d: "a_delete (file_name i) (?st None None) = (0, many (n + 2) ps k e)"
  proof -
    have "\<not> a_used f (replicate n None @ None # None # ?d)" unfolding free by (rule used_many [OF fresh])
    then have "a_delete (file_name i) (?st None None) =
        (0, (?st None None)\<lparr>a_files := (a_files ?a)(f := None), a_listed := rev (map snd ps)\<rparr>)"
      using fresh by (simp add: a_delete_def find a_drop_def) (simp add: many_Cons remove1_append)
    moreover have "(?st None None)\<lparr>a_files := (a_files ?a)(f := None), a_listed := rev (map snd ps)\<rparr> = many (n + 2) ps k e"
      by (rule afs.equality; (simp only: gone many_Cons afs.simps fun_upd_upd)?) (use free in \<open>simp_all add: many_def\<close>)
    ultimately show ?thesis by simp
  qed
  show ?thesis
    unfolding Let_def
    apply (rule passes_read [OF assms(1)], simp)
    apply (simp add: r nat_add_distrib memcmp_name)
    apply (erule passes_close, simp add: c1)
    apply (erule passes_close, simp add: c2)
    apply (erule passes_delete, simp add: d assms(5) [simplified])
    done
qed

abbreviation fd_pair :: "nat \<Rightarrow> int \<times> int" where
  "fd_pair j \<equiv> (2 * int j, 2 * int j + 1)"

lemma stress_write_passes:
  assumes "ufs_rel s (many 0 ps k e)" "distinct (map snd ps)" "distinct (map fst ps @ is)"
    "k < 2 ^ 20" "length ps + length is < 2 ^ 20" "\<And>i. i \<in> set is \<Longrightarrow> length (file_name i) < 2 ^ 10"
  shows "passes (stress_write is s) (\<lambda>fds a. fds = map fd_pair [length ps..<length ps + length is] \<and>
    (\<exists>qs. map fst qs = map fst ps @ is \<and> distinct (map snd qs) \<and> a = many 0 qs (k - 2 * length is) e))"
  using assms
proof (induction "is" arbitrary: s ps k)
  case Nil
  then show ?case by (auto intro!: passes_return)
next
  case (Cons i "is")
  have new: "fst p \<noteq> i" if "p \<in> set ps" for p using Cons.prems(3) that by auto
  have "passes (stress_write (i # is) s) (\<lambda>fds a. fds = fd_pair (length ps) # map fd_pair [Suc (length ps)..<length ps + length (i # is)] \<and>
    (\<exists>qs. map fst qs = map fst ps @ i # is \<and> distinct (map snd qs) \<and> a = many 0 qs (k - 2 * length (i # is)) e))"
    unfolding stress_write.simps
  proof (rule write_one [OF Cons.prems(1,2) new Cons.prems(4)])
    fix f t assume f: "f \<notin> snd ` set ps" and t: "ufs_rel t (many 0 (ps @ [(i, f)]) (k - 2) e)"
    have "passes (stress_write is t) (\<lambda>fds a. fds = map fd_pair [length (ps @ [(i, f)])..<length (ps @ [(i, f)]) + length is] \<and>
      (\<exists>qs. map fst qs = map fst (ps @ [(i, f)]) @ is \<and> distinct (map snd qs) \<and> a = many 0 qs (k - 2 - 2 * length is) e))"
      by (rule Cons.IH [OF t]) (use Cons.prems f in auto)
    then show "passes (do {
        (fds, s) \<leftarrow> stress_write is t;
        Some ((2 * int (length ps), 2 * int (length ps) + 1) # fds, s) })
      (\<lambda>fds a. fds = fd_pair (length ps) # map fd_pair [Suc (length ps)..<length ps + length (i # is)] \<and>
        (\<exists>qs. map fst qs = map fst ps @ i # is \<and> distinct (map snd qs) \<and> a = many 0 qs (k - 2 * length (i # is)) e))"
      by (rule passes_bind) (auto intro!: passes_return)
  qed (use Cons.prems in auto)
  moreover have "[length ps..<length ps + length (i # is)] = length ps # [Suc (length ps)..<length ps + length (i # is)]"
    by (simp add: upt_conv_Cons del: upt_Suc)
  ultimately show ?case by (simp only: list.map)
qed

lemma stress_read_passes:
  assumes "ufs_rel s (many (2 * m) ps k e)" "distinct (map snd ps)" "distinct (map fst ps)"
    "\<And>i. i \<in> set (map fst ps) \<Longrightarrow> length (file_name i) < 16"
  shows "passes (stress_read (zip (map fst ps) (map fd_pair [m..<m + length ps])) buf s) (\<lambda>_ a. a = many (2 * (m + length ps)) [] k e)"
  using assms
proof (induction ps arbitrary: s m buf)
  case Nil
  then show ?case by (auto intro!: passes_return)
next
  case (Cons p ps)
  obtain i f where p: "p = (i, f)" by fastforce
  have new: "fst q \<noteq> i" if "q \<in> set ps" for q using Cons.prems(3) that p by auto
  have "passes (do {
     let name = file_name i;
     let name_len = length name + 1;
     (rc, bytes, s) \<leftarrow> ufs_read (int (2 * m)) 16 s;
     let buf = into 0 bytes buf;
     check (rc = int name_len);
     check (memcmp buf (name @ [CHR 0x00]) (nat rc));
     (rc, s) \<leftarrow> ufs_close (int (2 * m)) s;
     check (rc = 0);
     (rc, s) \<leftarrow> ufs_close (int (2 * m) + 1) s;
     check (rc = 0);
     (rc, s) \<leftarrow> ufs_delete name s;
     check (rc = 0);
     stress_read (zip (map fst ps) (map fd_pair [Suc m..<Suc m + length ps])) buf s })
    (\<lambda>_ a. a = many (2 * (m + length (p # ps))) [] k e)"
  proof (rule read_one [OF Cons.prems(1) [unfolded p]])
    fix t assume "ufs_rel t (many (2 * m + 2) ps k e)"
    then have "ufs_rel t (many (2 * Suc m) ps k e)" by simp
    then show "passes (stress_read (zip (map fst ps) (map fd_pair [Suc m..<Suc m + length ps]))
        (into 0 (map Some (file_name i @ [CHR 0x00])) buf) t) (\<lambda>_ a. a = many (2 * (m + length (p # ps))) [] k e)"
      using Cons.IH [of t "Suc m"] Cons.prems by simp
  qed (use Cons.prems p new in auto)
  moreover have "[m..<m + length (p # ps)] = m # [Suc m..<Suc m + length ps]"
    by (simp add: upt_conv_Cons del: upt_Suc)
  ultimately show ?case by (simp only: p list.map zip_Cons_Cons stress_read.simps prod.case fst_conv Let_def) simp
qed

lemma stress_passes:
  assumes "is_clean s" "n \<le> 1000"
  shows "passes (do {
     (fds, s) \<leftarrow> stress_write [0..<n] s;
     stress_read (zip [0..<n] fds) buf s }) (\<lambda>_. clean)"
proof -
  obtain k e where s: "ufs_rel s (many 0 [] k e)" "k < 2 ^ 20"
    using clean_obtain [OF assms(1)] by (auto simp: many_def)
  have small: "length (file_name i) < 16" if "i < n" for i using length_file_name [of i] that assms(2) by simp
  show ?thesis
  proof (rule passes_bind [OF stress_write_passes [OF s(1)]])
    fix fds t a
    assume t: "ufs_rel t a" and q: "fds = map fd_pair [length []..<length [] + length [0..<n]] \<and>
      (\<exists>qs. map fst qs = map fst [] @ [0..<n] \<and> distinct (map snd qs) \<and> a = many 0 qs (k - 2 * length [0..<n]) e)"
    then obtain qs where qs: "map fst qs = [0..<n]" "distinct (map snd qs)" "a = many (2 * 0) qs (k - 2 * n) e" by auto
    have len: "length qs = n" using arg_cong [OF qs(1), of length] by simp
    have "clean (many (2 * (0 + length qs)) [] (k - 2 * n) e)"
      using s(2) assms(2) len by (auto simp: clean_def closed_def many_def)
    then show "passes (case (fds, t) of (fds, s) \<Rightarrow> stress_read (zip [0..<n] fds) buf s) (\<lambda>_. clean)"
      using stress_read_passes [OF t [unfolded qs(3)] qs(2), of buf] small q qs(1) len by (auto simp: passes_def)
  qed (use s(2) assms(2) less_trans [OF small] in auto)
qed

lemma test_stress_open_passes: "is_clean s \<Longrightarrow> passes (test_stress_open s) (\<lambda>_. clean)"
  unfolding test_stress_open_def Let_def by (rule stress_passes) simp_all

section \<open>The suite\<close>

definition test_main :: "ufs \<Rightarrow> ufs option" where
  "test_main s = do {
     (_, s) \<leftarrow> test_open s;
     (_, s) \<leftarrow> test_close s;
     (_, s) \<leftarrow> test_io s;
     (_, s) \<leftarrow> test_delete s;
     (_, s) \<leftarrow> test_stress_open s;
     (_, s) \<leftarrow> test_max_file_size s;
     (_, s) \<leftarrow> test_rights s;
     (_, s) \<leftarrow> test_resize s;
     ufs_destroy s }"

lemma passesD: "passes m (\<lambda>_. clean) \<Longrightarrow> \<exists>r t. m = Some (r, t) \<and> is_clean t"
  by (auto simp: passes_def is_clean_def)

lemma is_clean_initial: "is_clean ufs_initial"
  using initial_rel by (force simp: is_clean_def clean_def closed_def a_initial_def)

text \<open>Started on an empty file system the suite runs to its end with no check failing, and leaves no memory allocated.\<close>

theorem test_suite_passes:
  "\<exists>t. test_main ufs_initial = Some t \<and> blocks t = Map.empty \<and> files t = Map.empty \<and> descs t = Map.empty \<and> file_list t = None"
proof -
  obtain r1 s1 where 1: "test_open ufs_initial = Some (r1, s1)" "is_clean s1"
    using passesD [OF test_open_passes [OF is_clean_initial]] by blast
  obtain r2 s2 where 2: "test_close s1 = Some (r2, s2)" "has_file s2"
    using test_close_passes [OF 1(2)] by (auto simp: passes_def has_file_def)
  obtain r3 s3 where 3: "test_io s2 = Some (r3, s3)" "is_clean s3" using passesD [OF test_io_passes [OF 2(2)]] by blast
  obtain r4 s4 where 4: "test_delete s3 = Some (r4, s4)" "is_clean s4" using passesD [OF test_delete_passes [OF 3(2)]] by blast
  obtain r5 s5 where 5: "test_stress_open s4 = Some (r5, s5)" "is_clean s5"
    using passesD [OF test_stress_open_passes [OF 4(2)]] by blast
  obtain r6 s6 where 6: "test_max_file_size s5 = Some (r6, s6)" "is_clean s6"
    using passesD [OF test_max_file_size_passes [OF 5(2)]] by blast
  obtain r7 s7 where 7: "test_rights s6 = Some (r7, s7)" "is_clean s7" using passesD [OF test_rights_passes [OF 6(2)]] by blast
  obtain r8 s8 where 8: "test_resize s7 = Some (r8, s8)" "is_clean s8" using passesD [OF test_resize_passes [OF 7(2)]] by blast
  obtain bl fl tab where "ufs_inv bl fl tab s8" using 8(2) by (auto simp: is_clean_def ufs_rel_def)
  then show ?thesis using destroy_spec [of bl fl tab s8] by (auto simp: test_main_def 1(1) 2(1) 3(1) 4(1) 5(1) 6(1) 7(1) 8(1))
qed

end
